(* ===== verification/Uffs_Prelude.thy ===== *)
theory Uffs_Prelude
  imports Main "HOL-Library.Word" "HOL-Library.Monad_Syntax"
begin

text \<open>
  The prelude of the UFFS development: the machine types of \<open>uffs_types.h\<close>, the result
  type of the C functions, and the theory of singly and doubly linked lists that the
  block-info cache, the page buffers, the tree-node lists and the memory pools share.

  A pointer is an optional node name (\<open>None\<close> is the null pointer). A C loop that follows a
  link field need not end on a damaged list, so the search and the fold along a link are
  \<open>partial_function (option)\<close>: the value \<open>None\<close> is "does not return", and every property
  that uses them proves that the result is \<open>Some\<close>.
\<close>

unbundle bit_operations_syntax

named_theorems uffs_defs \<open>definitions of straight-line code, unfolded by simp\<close>
named_theorems link_simps \<open>laws of the link fields of a node type\<close>

section \<open>Machine types\<close>

type_synonym u8 = "8 word"
type_synonym u16 = "16 word"
type_synonym u32 = "32 word"

text \<open>\<open>URET\<close> is \<open>int\<close> in C; only the two values \<open>U_SUCC\<close> and \<open>U_FAIL\<close> are returned.\<close>

datatype URET = U_SUCC | U_FAIL

subsection \<open>Exhaustive checks over bytes\<close>

text \<open>A statement about every byte is a statement about the 256 numerals: lookup tables are
  compared with their defining formula by evaluation of this list.\<close>

definition all_u8 :: "(u8 \<Rightarrow> bool) \<Rightarrow> bool" where
  "all_u8 P = list_all (\<lambda>n. P (word_of_nat n)) [0..<256]"

lemma all_u8D: "all_u8 P \<Longrightarrow> P x"
proof -
  assume a: "all_u8 P"
  have "unat x < 2 ^ 8" using unsigned_less[of x] by simp
  then have "unat x \<in> set [0..<256]" by simp
  with a have "P (word_of_nat (unat x))"
    unfolding all_u8_def list_all_iff by blast
  then show "P x" by simp
qed

definition all_nibble :: "(u8 \<Rightarrow> bool) \<Rightarrow> bool" where
  "all_nibble P = list_all (\<lambda>n. P (word_of_nat n)) [0..<16]"

lemma all_nibbleD: "all_nibble P \<Longrightarrow> unat x < 16 \<Longrightarrow> P x"
proof -
  assume a: "all_nibble P" and x: "unat x < 16"
  then have "unat x \<in> set [0..<16]" by simp
  with a have "P (word_of_nat (unat x))"
    unfolding all_nibble_def list_all_iff by blast
  then show "P x" by simp
qed

subsection \<open>Tables of XOR-linear functions\<close>

text \<open>A table indexed by bytes whose entries are linear for XOR is built by doubling: the
  upper half of the first \<open>2 ^ Suc k\<close> entries is the lower half XORed with the entry at
  \<open>2 ^ k\<close>. Comparing a source table with its formula then takes one XOR per entry.\<close>

definition dbl :: "'a::semiring_bit_operations \<Rightarrow> 'a list \<Rightarrow> 'a list" where
  "dbl c xs = xs @ map (\<lambda>x. x XOR c) xs"

definition table_of :: "(u8 \<Rightarrow> 'a) \<Rightarrow> nat \<Rightarrow> 'a list" where
  "table_of f n = map (\<lambda>i. f (word_of_nat i)) [0..<n]"

lemma nat_add_xor: "(n::nat) < 2 ^ k \<Longrightarrow> n + 2 ^ k = n XOR 2 ^ k"
  apply (subst disjunctive_add_eq_xor)
   apply (rule bit_eqI)
   apply (auto simp: bit_simps)
  apply (metis bit_take_bit_iff take_bit_nat_eq_self_iff less_irrefl)
  done

lemma word_xor_of_nat: "word_of_nat (m XOR n) = word_of_nat m XOR (word_of_nat n :: 'a::len word)"
  by (rule bit_word_eqI) (simp add: bit_simps)

lemma table_of_Suc:
  assumes "\<And>x y. f (x XOR y) = f x XOR f y"
  shows "table_of f (2 ^ Suc k) = dbl (f (2 ^ k)) (table_of f (2 ^ k))"
proof -
  have "[0..<2 ^ Suc k] = [0..<2 ^ k] @ map (\<lambda>n. n + 2 ^ k) [0..<2 ^ k]"
    using upt_add_eq_append[of 0 "2 ^ k" "2 ^ k"] map_add_upt[of "2 ^ k" "2 ^ k"]
    by (simp add: mult_2)
  moreover have "map (\<lambda>n. f (word_of_nat (n + 2 ^ k))) [0..<2 ^ k]
      = map (\<lambda>n. f (word_of_nat n) XOR f (2 ^ k)) [0..<2 ^ k]"
  proof (rule map_cong)
    fix n assume "n \<in> set [0..<(2::nat) ^ k]"
    then have "n < 2 ^ k" by simp
    then have "(word_of_nat (n + 2 ^ k) :: u8) = word_of_nat n XOR 2 ^ k"
      by (simp only: nat_add_xor word_xor_of_nat of_nat_power of_nat_numeral)
    then show "f (word_of_nat (n + 2 ^ k)) = f (word_of_nat n) XOR f (2 ^ k)"
      by (simp only: assms)
  qed simp
  ultimately show ?thesis by (simp add: table_of_def dbl_def comp_def)
qed

lemma table_of_linear:
  assumes lin: "\<And>x y. f (x XOR y) = f x XOR f y"
  shows "table_of f 256 = dbl (f 128) (dbl (f 64) (dbl (f 32) (dbl (f 16)
           (dbl (f 8) (dbl (f 4) (dbl (f 2) (dbl (f 1) [f 0])))))))"
proof -
  note S = table_of_Suc[of f, OF lin]
  have "table_of f (2 ^ 0) = [f 0]" by (simp add: table_of_def)
  then show ?thesis
    using S[of 0] S[of 1] S[of 2] S[of 3] S[of 4] S[of 5] S[of 6] S[of 7] by simp
qed

lemma table_nth: "T = table_of f 256 \<Longrightarrow> T ! unat x = f x"
proof -
  assume "T = table_of f 256"
  moreover have "unat x < 256" using unsigned_less[of x] by simp
  ultimately show ?thesis by (simp add: table_of_def)
qed

lemma unat_u8_less [simp]: "unat (x::u8) < 256"
proof -
  have "unat x < 2 ^ LENGTH(8)" by (rule unsigned_less)
  then show ?thesis by simp
qed

lemma unat_u16_less [simp]: "unat (x::u16) < 65536"
proof -
  have "unat x < 2 ^ LENGTH(16)" by (rule unsigned_less)
  then show ?thesis by simp
qed

lemma unat_u32_less [simp]: "unat (x::u32) < 4294967296"
proof -
  have "unat x < 2 ^ LENGTH(32)" by (rule unsigned_less)
  then show ?thesis by simp
qed

lemma unat_of_nat_u32: "i < 4294967296 \<Longrightarrow> unat (word_of_nat i :: u32) = i"
  by (simp add: unat_of_nat)

lemma unat_of_nat_u16: "i < 65536 \<Longrightarrow> unat (word_of_nat i :: u16) = i"
  by (simp add: unat_of_nat)

lemma unat_ucast_u8 [simp]: "unat (ucast y :: u16) = unat y" for y :: u8
proof -
  have "unat y < 65536" using unat_u8_less[of y] by linarith
  then show ?thesis by (simp add: unsigned_ucast_eq take_bit_nat_eq_self)
qed

lemma ucast_xor: "(ucast (x XOR y) :: 'b::len word) = ucast x XOR ucast y" for x y :: "'a::len word"
  by (rule bit_word_eqI) (auto simp: bit_simps)

lemma ucast_not_u16: "(ucast (NOT x) :: u8) = NOT (ucast x)" for x :: u16
  by (rule bit_word_eqI) (auto simp: bit_simps)

lemma ucast_add1_u16: "(ucast (x + 1) :: u8) = ucast x + 1" for x :: u16
proof -
  have "(y mod 65536 + 1) mod 256 = (y + 1) mod 256" for y :: int
  proof -
    have "(y mod 65536 + 1) mod 256 = (y mod 65536 mod 256 + 1) mod 256" by (simp add: mod_add_left_eq)
    also have "y mod 65536 mod 256 = y mod 256" by (rule mod_mod_cancel) simp
    finally show ?thesis by (simp add: mod_add_left_eq)
  qed
  then show ?thesis by transfer (simp add: take_bit_eq_mod mod_mod_cancel mod_simps)
qed

lemma ucast_of_nat_u16: "(ucast (word_of_nat i :: u16) :: u8) = word_of_nat i"
  by (simp add: unsigned_of_nat word_of_nat_eq_iff)

lemma odd_unat_u8: "odd (unat x) \<longleftrightarrow> bit x 0" for x :: u8
proof -
  have "bit (unat x) 0 = bit x 0" by (simp only: bit_unsigned_iff) simp
  then show ?thesis by (simp add: bit_0)
qed

lemma xor_zero_eq: "v XOR w = 0 \<Longrightarrow> v = w" for v w :: "'a::len word"
  by (metis xor.assoc xor.left_neutral xor.right_neutral xor_self_eq)

lemma xor_left_cancel: "u XOR v = u XOR w \<longleftrightarrow> v = w" for u v w :: "'a::len word"
  by (metis xor.assoc xor.left_neutral xor_self_eq)

section \<open>Lists\<close>

lemma list_update_split:
  "i < length xs \<Longrightarrow> xs[i := v] = take i xs @ v # drop (Suc i) xs"
  by (rule upd_conv_take_nth_drop)

lemma find_None_iff_set: "List.find P xs = None \<longleftrightarrow> (\<forall>x \<in> set xs. \<not> P x)"
  by (auto simp: find_None_iff)

lemma find_Some_in: "List.find P xs = Some x \<Longrightarrow> x \<in> set xs \<and> P x"
  by (induction xs) (auto split: if_splits)

lemma find_not_None: "(List.find (\<lambda>y. y = x) xs \<noteq> None) = (x \<in> set xs)"
  by (auto simp: find_None_iff_set)

lemma find_upt_before: "List.find P [a..<b] = Some j \<Longrightarrow> a \<le> i \<Longrightarrow> i < j \<Longrightarrow> \<not> P i"
  by (auto simp: find_Some_iff nth_upt) (metis le_add_diff_inverse less_diff_conv2 add.commute)

lemma find_unique:
  assumes "x \<in> set xs" "P x" "\<And>y. y \<in> set xs \<Longrightarrow> P y \<Longrightarrow> y = x"
  shows "List.find P xs = Some x"
proof (cases "List.find P xs")
  case None
  with assms(1,2) show ?thesis by (simp add: find_None_iff_set)
next
  case (Some y)
  with find_Some_in[OF Some] assms(3) show ?thesis by simp
qed

lemma find_cong_set:
  "(\<And>x. x \<in> set xs \<Longrightarrow> P x = Q x) \<Longrightarrow> List.find P xs = List.find Q xs"
  by (induction xs) auto

section \<open>Links\<close>

text \<open>\<open>chain n p xs\<close>: following the link field \<open>n\<close> from the pointer \<open>p\<close> visits exactly the
  nodes \<open>xs\<close> and ends at the null pointer. \<open>seg n p xs q\<close> ends at the pointer \<open>q\<close> instead.\<close>

primrec chain :: "('p \<Rightarrow> 'p option) \<Rightarrow> 'p option \<Rightarrow> 'p list \<Rightarrow> bool" where
  "chain n p [] \<longleftrightarrow> p = None"
| "chain n p (x # xs) \<longleftrightarrow> p = Some x \<and> chain n (n x) xs"

primrec seg :: "('p \<Rightarrow> 'p option) \<Rightarrow> 'p option \<Rightarrow> 'p list \<Rightarrow> 'p option \<Rightarrow> bool" where
  "seg n p [] q \<longleftrightarrow> p = q"
| "seg n p (x # xs) q \<longleftrightarrow> p = Some x \<and> seg n (n x) xs q"

lemma chain_None [simp]: "chain n None xs \<longleftrightarrow> xs = []"
  by (cases xs) auto

lemma chain_SomeD: "chain n (Some x) xs \<Longrightarrow> \<exists>ys. xs = x # ys \<and> chain n (n x) ys"
  by (cases xs) auto

lemma chain_append: "chain n p (xs @ ys) \<longleftrightarrow> (\<exists>q. seg n p xs q \<and> chain n q ys)"
  by (induction xs arbitrary: p) auto

lemma seg_append: "seg n p (xs @ ys) r \<longleftrightarrow> (\<exists>q. seg n p xs q \<and> seg n q ys r)"
  by (induction xs arbitrary: p) auto

lemma chain_unique: "chain n p xs \<Longrightarrow> chain n p ys \<Longrightarrow> xs = ys"
proof (induction xs arbitrary: p ys)
  case Nil
  then show ?case by simp
next
  case (Cons x xs)
  then show ?case by (cases ys) auto
qed

lemma chain_distinct: "chain n p xs \<Longrightarrow> distinct xs"
proof (induction xs arbitrary: p)
  case Nil
  then show ?case by simp
next
  case (Cons x xs)
  then have tl: "chain n (n x) xs" by simp
  have "x \<notin> set xs"
  proof
    assume "x \<in> set xs"
    then obtain as bs where xs: "xs = as @ x # bs" by (meson split_list)
    with tl have "chain n (Some x) (x # bs)" by (auto simp: chain_append)
    then have "chain n (n x) bs" by simp
    with tl have "xs = bs" by (rule chain_unique)
    with xs show False by simp
  qed
  with Cons.IH[OF tl] show ?case by simp
qed

lemma chain_upd [simp]: "x \<notin> set xs \<Longrightarrow> chain (n(x := v)) p xs = chain n p xs"
  by (induction xs arbitrary: p) auto

lemma seg_upd [simp]: "x \<notin> set xs \<Longrightarrow> seg (n(x := v)) p xs q = seg n p xs q"
  by (induction xs arbitrary: p) auto

lemma chain_cong: "(\<And>x. x \<in> set xs \<Longrightarrow> m x = n x) \<Longrightarrow> chain m p xs = chain n p xs"
  by (induction xs arbitrary: p) auto

lemma chain_Nil_iff: "chain n p xs \<Longrightarrow> p = None \<longleftrightarrow> xs = []"
  by (cases xs) auto

lemma chain_hd: "chain n p xs \<Longrightarrow> xs \<noteq> [] \<Longrightarrow> p = Some (hd xs)"
  by (cases xs) auto

lemma chain_hd_tl: "chain n p xs \<Longrightarrow> p = Some x \<Longrightarrow> \<exists>ys. xs = x # ys \<and> chain n (n x) ys"
  by (cases xs) auto

text \<open>Nodes linked in the order of their numbers.\<close>

lemma chain_upt: "a < b \<Longrightarrow> (\<And>i. a \<le> i \<Longrightarrow> i < b \<Longrightarrow> n i = (if Suc i = b then None else Some (Suc i))) \<Longrightarrow>
    chain n (Some a) [a..<b]"
proof (induction "b - a" arbitrary: a)
  case (Suc d)
  have u: "[a..<b] = a # [Suc a..<b]" using Suc.prems(1) by (rule upt_conv_Cons)
  show ?case
  proof (cases "Suc a = b")
    case True
    then show ?thesis using Suc.prems unfolding u by simp
  next
    case False
    then have "chain n (Some (Suc a)) [Suc a..<b]" using Suc by (intro Suc.hyps(1)) auto
    then show ?thesis using Suc.prems False unfolding u by simp
  qed
qed simp

lemma chain_rev_upt: "(\<And>i. i < b \<Longrightarrow> p i = (if i = 0 then None else Some (i - 1))) \<Longrightarrow>
    0 < b \<Longrightarrow> chain p (Some (b - 1)) (rev [0..<b])"
proof (induction b)
  case (Suc b)
  then show ?case by (cases b) auto
qed simp

subsection \<open>Loops along a link\<close>

text \<open>\<open>chain_find n P p\<close> is the loop
  \<^verbatim>\<open>for (e = p; e; e = e->next) if (P(e)) return e; return NULL;\<close>\<close>

partial_function (option) chain_find ::
  "('p \<Rightarrow> 'p option) \<Rightarrow> ('p \<Rightarrow> bool) \<Rightarrow> 'p option \<Rightarrow> 'p option option" where
  "chain_find n P p =
     (case p of None \<Rightarrow> Some None
      | Some x \<Rightarrow> if P x then Some (Some x) else chain_find n P (n x))"

text \<open>\<open>chain_fold n f p s\<close> runs a body on every node:
  \<^verbatim>\<open>for (e = p; e; e = e->next) s = f(e, s);\<close>\<close>

partial_function (option) chain_fold ::
  "('p \<Rightarrow> 'p option) \<Rightarrow> ('p \<Rightarrow> 's \<Rightarrow> 's) \<Rightarrow> 'p option \<Rightarrow> 's \<Rightarrow> 's option" where
  "chain_fold n f p s =
     (case p of None \<Rightarrow> Some s | Some x \<Rightarrow> chain_fold n f (n x) (f x s))"

lemma chain_find_eq: "chain n p xs \<Longrightarrow> chain_find n P p = Some (List.find P xs)"
proof (induction xs arbitrary: p)
  case Nil
  then show ?case by (simp add: chain_find.simps)
next
  case (Cons x xs)
  then show ?case by (subst chain_find.simps) auto
qed

lemma chain_fold_eq: "chain n p xs \<Longrightarrow> chain_fold n f p s = Some (fold f xs s)"
proof (induction xs arbitrary: p s)
  case Nil
  then show ?case by (simp add: chain_fold.simps)
next
  case (Cons x xs)
  then show ?case by (subst chain_fold.simps) auto
qed

section \<open>Doubly linked lists\<close>

text \<open>\<open>dll n p h t xs\<close>: the nodes \<open>xs\<close> are linked forward by \<open>n\<close> from the head \<open>h\<close> and
  backward by \<open>p\<close> from the tail \<open>t\<close>.\<close>

definition dll :: "('p \<Rightarrow> 'p option) \<Rightarrow> ('p \<Rightarrow> 'p option) \<Rightarrow> 'p option \<Rightarrow> 'p option \<Rightarrow> 'p list \<Rightarrow> bool"
  where "dll n p h t xs \<longleftrightarrow> chain n h xs \<and> chain p t (rev xs)"

lemma dllD1: "dll n p h t xs \<Longrightarrow> chain n h xs"
  by (simp add: dll_def)

lemma dll_distinct: "dll n p h t xs \<Longrightarrow> distinct xs"
  by (auto simp: dll_def dest: chain_distinct)

lemma dll_head: "dll n p h t xs \<Longrightarrow> h = (if xs = [] then None else Some (hd xs))"
  by (cases xs) (auto simp: dll_def)

lemma dll_tail: "dll n p h t xs \<Longrightarrow> t = (if xs = [] then None else Some (last xs))"
  by (cases xs rule: rev_cases) (auto simp: dll_def)

lemma dll_upd [simp]:
  "x \<notin> set xs \<Longrightarrow> dll (n(x := v)) p h t xs = dll n p h t xs"
  "x \<notin> set xs \<Longrightarrow> dll n (p(x := v)) h t xs = dll n p h t xs"
  by (auto simp: dll_def)

lemma dll_cong:
  "(\<And>x. x \<in> set xs \<Longrightarrow> n x = n' x \<and> p x = p' x) \<Longrightarrow> dll n p h t xs = dll n' p' h t xs"
  unfolding dll_def using chain_cong[of xs n n' h] chain_cong[of "rev xs" p p' t] by auto

lemma dll_next:
  "dll n p h t (as @ x # bs) \<Longrightarrow> n x = (if bs = [] then None else Some (hd bs))"
  by (cases bs) (auto simp: dll_def chain_append)

lemma dll_prev:
  "dll n p h t (as @ x # bs) \<Longrightarrow> p x = (if as = [] then None else Some (last as))"
  by (cases as rule: rev_cases) (auto simp: dll_def chain_append)

text \<open>Unlinking a node from the middle of the list: its neighbours are joined.\<close>

lemma seg_relink:
  "seg n h (as @ [y]) (Some x) \<Longrightarrow> y \<notin> set as \<Longrightarrow> seg (n(y := v)) h (as @ [y]) v"
  by (auto simp: seg_append)

definition unlink_next :: "('p \<Rightarrow> 'p option) \<Rightarrow> ('p \<Rightarrow> 'p option) \<Rightarrow> 'p \<Rightarrow> 'p \<Rightarrow> 'p option" where
  "unlink_next n p x = (case p x of None \<Rightarrow> n | Some y \<Rightarrow> n(y := n x))"

lemma chain_unlink:
  assumes "dll n p h t (as @ x # bs)"
  shows "chain (unlink_next n p x) (if h = Some x then n x else h) (as @ bs)"
proof (cases as rule: rev_cases)
  case Nil
  then have "p x = None" using dll_prev[OF assms] by simp
  with Nil assms show ?thesis by (auto simp: dll_def unlink_next_def)
next
  case (snoc as' y)
  have px: "p x = Some y" using dll_prev[OF assms] snoc by simp
  have d: "distinct (as' @ y # x # bs)" using dll_distinct[OF assms] snoc by simp
  have hx: "h \<noteq> Some x" using dll_head[OF assms] snoc d by (cases as') auto
  have c: "seg n h (as' @ [y]) (Some x)" "chain n (n x) bs"
    using assms snoc by (auto simp: dll_def chain_append seg_append)
  with d have "seg (n(y := n x)) h (as' @ [y]) (n x)" "chain (n(y := n x)) (n x) bs"
    by (auto intro: seg_relink)
  then have "chain (n(y := n x)) h ((as' @ [y]) @ bs)"
    unfolding chain_append by blast
  with hx px snoc show ?thesis by (simp add: unlink_next_def)
qed

lemma dll_rev: "dll n p h t xs \<longleftrightarrow> dll p n t h (rev xs)"
  by (auto simp: dll_def)

lemma dll_unlink:
  assumes "dll n p h t (as @ x # bs)"
  shows "dll (unlink_next n p x) (unlink_next p n x)
           (if h = Some x then n x else h) (if t = Some x then p x else t) (as @ bs)"
proof -
  have "dll p n t h (rev bs @ x # rev as)" using assms by (subst dll_rev) simp
  from chain_unlink[OF this] chain_unlink[OF assms] show ?thesis
    by (simp add: dll_def)
qed

lemma dll_push_front:
  assumes "dll n p h t xs" "x \<notin> set xs"
  shows "dll (n(x := h)) (case h of None \<Rightarrow> p(x := None) | Some y \<Rightarrow> (p(x := None))(y := Some x))
           (Some x) (case t of None \<Rightarrow> Some x | Some z \<Rightarrow> Some z) (x # xs)"
proof (cases xs)
  case Nil
  with assms show ?thesis by (auto simp: dll_def)
next
  case (Cons y ys)
  then have h: "h = Some y" and t: "\<exists>z. t = Some z"
    using dll_head[OF assms(1)] dll_tail[OF assms(1)] by auto
  have d: "y \<notin> set ys" "x \<noteq> y" using dll_distinct[OF assms(1)] assms(2) Cons by auto
  from assms Cons h d have "seg p t (rev ys) (Some y)" by (auto simp: dll_def chain_append)
  with assms d Cons have "chain ((p(x := None))(y := Some x)) t (rev ys @ [y, x])"
    by (auto simp: chain_append)
  with assms Cons h t show ?thesis by (auto simp: dll_def)
qed

lemma dll_push_back:
  assumes "dll n p h t xs" "x \<notin> set xs"
  shows "dll (case t of None \<Rightarrow> n(x := None) | Some y \<Rightarrow> (n(x := None))(y := Some x)) (p(x := t))
           (case h of None \<Rightarrow> Some x | Some z \<Rightarrow> Some z) (Some x) (xs @ [x])"
proof -
  have "dll p n t h (rev xs)" "x \<notin> set (rev xs)" using assms by (auto simp: dll_rev[of n])
  from dll_push_front[OF this] show ?thesis by (subst dll_rev) simp
qed

subsection \<open>Linked nodes in a state\<close>

text \<open>The interface of a node type with two link fields, as the block-info cache, the page
  buffers, the dirty groups and the block lists use it: reading and writing the fields of a
  node of a state.\<close>

locale linked =
  fixes nxt :: "'s \<Rightarrow> 'p \<Rightarrow> 'p option"
    and prv :: "'s \<Rightarrow> 'p \<Rightarrow> 'p option"
    and set_nxt :: "'p \<Rightarrow> 'p option \<Rightarrow> 's \<Rightarrow> 's"
    and set_prv :: "'p \<Rightarrow> 'p option \<Rightarrow> 's \<Rightarrow> 's"
  assumes nxt_set_nxt [simp]: "nxt (set_nxt x v s) = (nxt s)(x := v)"
    and nxt_set_prv [simp]: "nxt (set_prv x v s) = nxt s"
    and prv_set_nxt [simp]: "prv (set_nxt x v s) = prv s"
    and prv_set_prv [simp]: "prv (set_prv x v s) = (prv s)(x := v)"
begin

text \<open>The two assignments that join the neighbours of a node.\<close>

definition unlink :: "'p \<Rightarrow> 's \<Rightarrow> 's" where
  "unlink x s =
     (let s = (case prv s x of None \<Rightarrow> s | Some y \<Rightarrow> set_nxt y (nxt s x) s)
      in (case nxt s x of None \<Rightarrow> s | Some y \<Rightarrow> set_prv y (prv s x) s))"

lemma unlink_dll:
  assumes "dll (nxt s) (prv s) h t (as @ x # bs)"
  shows "dll (nxt (unlink x s)) (prv (unlink x s))
           (if h = Some x then nxt s x else h) (if t = Some x then prv s x else t) (as @ bs)"
    and "nxt (unlink x s) x = nxt s x" "prv (unlink x s) x = prv s x"
proof -
  have d: "distinct (as @ x # bs)" by (rule dll_distinct[OF assms])
  have px: "prv s x \<noteq> Some x" using dll_prev[OF assms] d last_in_set[of as] by auto
  have nx: "nxt s x \<noteq> Some x" using dll_next[OF assms] d hd_in_set[of bs] by auto
  have n: "nxt (unlink x s) = unlink_next (nxt s) (prv s) x"
    unfolding unlink_def unlink_next_def Let_def using px by (auto split: option.splits)
  have p: "prv (unlink x s) = unlink_next (prv s) (nxt s) x"
    unfolding unlink_def unlink_next_def Let_def using px by (auto split: option.splits)
  show "dll (nxt (unlink x s)) (prv (unlink x s))
      (if h = Some x then nxt s x else h) (if t = Some x then prv s x else t) (as @ bs)"
    unfolding n p by (rule dll_unlink[OF assms])
  show "nxt (unlink x s) x = nxt s x" "prv (unlink x s) x = prv s x"
    unfolding n p unlink_next_def using px nx by (auto split: option.splits)
qed

text \<open>Appending a node behind the tail of a non-empty list.\<close>

definition append_at :: "'p \<Rightarrow> 'p \<Rightarrow> 's \<Rightarrow> 's" where
  "append_at x y s = set_nxt y (Some x) (set_prv x (Some y) (set_nxt x None s))"

lemma append_at_dll:
  assumes "dll (nxt s) (prv s) h (Some y) xs" "x \<notin> set xs"
  shows "dll (nxt (append_at x y s)) (prv (append_at x y s)) h (Some x) (xs @ [x])"
proof -
  have "xs \<noteq> []" using assms(1) by (auto simp: dll_def)
  then obtain z where h: "h = Some z" using dll_head[OF assms(1)] by auto
  have "y \<noteq> x" using dll_tail[OF assms(1)] assms(2) \<open>xs \<noteq> []\<close> last_in_set[of xs] by auto
  then show ?thesis
    using dll_push_back[OF assms] by (simp add: append_at_def h)
qed

text \<open>Putting a node in front of the head of a non-empty list.\<close>

definition push_at :: "'p \<Rightarrow> 'p \<Rightarrow> 's \<Rightarrow> 's" where
  "push_at x y s = set_prv y (Some x) (set_prv x None (set_nxt x (Some y) s))"

lemma push_at_dll:
  assumes "dll (nxt s) (prv s) (Some y) t xs" "x \<notin> set xs"
  shows "dll (nxt (push_at x y s)) (prv (push_at x y s)) (Some x) t (x # xs)"
proof -
  have "xs \<noteq> []" using assms(1) by (auto simp: dll_def)
  then obtain z where t: "t = Some z" using dll_tail[OF assms(1)] by auto
  have "y \<noteq> x" using dll_head[OF assms(1)] assms(2) \<open>xs \<noteq> []\<close> hd_in_set[of xs] by auto
  then show ?thesis
    using dll_push_front[OF assms] by (simp add: push_at_def t)
qed

end

section \<open>Iterators\<close>

text \<open>What the caller of an iterator relies on: \<open>left s as\<close> says that the elements \<open>as\<close> are still
  to come in the state \<open>s\<close>.\<close>

primrec yields :: "('s \<Rightarrow> ('a option \<times> 's) option) \<Rightarrow> 'a list \<Rightarrow> 's \<Rightarrow> 's \<Rightarrow> bool" where
  "yields nx [] s t \<longleftrightarrow> nx s = Some (None, t)"
| "yields nx (a # as) s t \<longleftrightarrow> (\<exists>u. nx s = Some (Some a, u) \<and> yields nx as u t)"

locale iterator =
  fixes nx :: "'s \<Rightarrow> ('a option \<times> 's) option" and left :: "'s \<Rightarrow> 'a list \<Rightarrow> bool"
  assumes nx_Cons: "left s (a # as) \<Longrightarrow> \<exists>t. nx s = Some (Some a, t) \<and> left t as"
    and nx_Nil: "left s [] \<Longrightarrow> \<exists>t. nx s = Some (None, t) \<and> left t [] \<and> nx t = Some (None, t)"
begin

lemma yields_left: "left s as \<Longrightarrow> \<exists>t. yields nx as s t \<and> left t [] \<and> nx t = Some (None, t)"
proof (induction as arbitrary: s)
  case (Cons a as)
  then obtain u where u: "nx s = Some (Some a, u)" "left u as" using nx_Cons by blast
  from Cons.IH[OF u(2)] show ?case using u(1) by auto
qed (simp add: nx_Nil)

end

section \<open>Intervals\<close>

lemma upt_split: "[m..<n] = hs @ i # ks \<Longrightarrow> ks = [i + 1..<n]"
proof -
  assume e: "[m..<n] = hs @ i # ks"
  have "length hs < n - m" using arg_cong[OF e, of length] by simp
  moreover from this have "i = m + length hs" using arg_cong[OF e, of "\<lambda>l. l ! length hs"] by simp
  moreover have "ks = drop (Suc (length hs)) [m..<n]" unfolding e by simp
  ultimately show ?thesis by simp
qed

end
