(* ===== verification/Crc16.thy ===== *)
theory Crc16
  imports Uffs_Prelude
begin

text \<open>
  \<open>src/uffs/uffs_crc.c\<close>: the table-driven 16-bit CRC that sums file names
  (\<open>uffs_MakeSum16\<close>) and page data. The table is the source's; the reference definition is
  the bit-serial division by the reflected CCITT polynomial \<open>0x8408\<close>. The lemmas show
  that the table implements the division, that a sum can be continued over consecutive
  pieces, and that every change confined to 16 consecutive bits changes the sum.
\<close>

section \<open>The code\<close>

definition CRC16_TBL :: "u16 list" where
  "CRC16_TBL =
  [0x0000, 0x1189, 0x2312, 0x329b, 0x4624, 0x57ad, 0x6536, 0x74bf,
   0x8c48, 0x9dc1, 0xaf5a, 0xbed3, 0xca6c, 0xdbe5, 0xe97e, 0xf8f7,
   0x1081, 0x0108, 0x3393, 0x221a, 0x56a5, 0x472c, 0x75b7, 0x643e,
   0x9cc9, 0x8d40, 0xbfdb, 0xae52, 0xdaed, 0xcb64, 0xf9ff, 0xe876,
   0x2102, 0x308b, 0x0210, 0x1399, 0x6726, 0x76af, 0x4434, 0x55bd,
   0xad4a, 0xbcc3, 0x8e58, 0x9fd1, 0xeb6e, 0xfae7, 0xc87c, 0xd9f5,
   0x3183, 0x200a, 0x1291, 0x0318, 0x77a7, 0x662e, 0x54b5, 0x453c,
   0xbdcb, 0xac42, 0x9ed9, 0x8f50, 0xfbef, 0xea66, 0xd8fd, 0xc974,
   0x4204, 0x538d, 0x6116, 0x709f, 0x0420, 0x15a9, 0x2732, 0x36bb,
   0xce4c, 0xdfc5, 0xed5e, 0xfcd7, 0x8868, 0x99e1, 0xab7a, 0xbaf3,
   0x5285, 0x430c, 0x7197, 0x601e, 0x14a1, 0x0528, 0x37b3, 0x263a,
   0xdecd, 0xcf44, 0xfddf, 0xec56, 0x98e9, 0x8960, 0xbbfb, 0xaa72,
   0x6306, 0x728f, 0x4014, 0x519d, 0x2522, 0x34ab, 0x0630, 0x17b9,
   0xef4e, 0xfec7, 0xcc5c, 0xddd5, 0xa96a, 0xb8e3, 0x8a78, 0x9bf1,
   0x7387, 0x620e, 0x5095, 0x411c, 0x35a3, 0x242a, 0x16b1, 0x0738,
   0xffcf, 0xee46, 0xdcdd, 0xcd54, 0xb9eb, 0xa862, 0x9af9, 0x8b70,
   0x8408, 0x9581, 0xa71a, 0xb693, 0xc22c, 0xd3a5, 0xe13e, 0xf0b7,
   0x0840, 0x19c9, 0x2b52, 0x3adb, 0x4e64, 0x5fed, 0x6d76, 0x7cff,
   0x9489, 0x8500, 0xb79b, 0xa612, 0xd2ad, 0xc324, 0xf1bf, 0xe036,
   0x18c1, 0x0948, 0x3bd3, 0x2a5a, 0x5ee5, 0x4f6c, 0x7df7, 0x6c7e,
   0xa50a, 0xb483, 0x8618, 0x9791, 0xe32e, 0xf2a7, 0xc03c, 0xd1b5,
   0x2942, 0x38cb, 0x0a50, 0x1bd9, 0x6f66, 0x7eef, 0x4c74, 0x5dfd,
   0xb58b, 0xa402, 0x9699, 0x8710, 0xf3af, 0xe226, 0xd0bd, 0xc134,
   0x39c3, 0x284a, 0x1ad1, 0x0b58, 0x7fe7, 0x6e6e, 0x5cf5, 0x4d7c,
   0xc60c, 0xd785, 0xe51e, 0xf497, 0x8028, 0x91a1, 0xa33a, 0xb2b3,
   0x4a44, 0x5bcd, 0x6956, 0x78df, 0x0c60, 0x1de9, 0x2f72, 0x3efb,
   0xd68d, 0xc704, 0xf59f, 0xe416, 0x90a9, 0x8120, 0xb3bb, 0xa232,
   0x5ac5, 0x4b4c, 0x79d7, 0x685e, 0x1ce1, 0x0d68, 0x3ff3, 0x2e7a,
   0xe70e, 0xf687, 0xc41c, 0xd595, 0xa12a, 0xb0a3, 0x8238, 0x93b1,
   0x6b46, 0x7acf, 0x4854, 0x59dd, 0x2d62, 0x3ceb, 0x0e70, 0x1ff9,
   0xf78f, 0xe606, 0xd49d, 0xc514, 0xb1ab, 0xa022, 0x92b9, 0x8330,
   0x7bc7, 0x6a4e, 0x58d5, 0x495c, 0x3de3, 0x2c6a, 0x1ef1, 0x0f78]"

text \<open>The macro \<open>CRC16(v, x)\<close>.\<close>

definition CRC16 :: "u16 \<Rightarrow> u8 \<Rightarrow> u16" where
  "CRC16 v x = drop_bit 8 v XOR CRC16_TBL ! unat ((v XOR ucast x) AND 0x00ff)"

text \<open>The loop of \<open>uffs_crc16update\<close> over the \<open>length\<close> bytes at \<open>data\<close>.\<close>

fun uffs_crc16update :: "u8 list \<Rightarrow> u16 \<Rightarrow> u16" where
  "uffs_crc16update [] crc = crc"
| "uffs_crc16update (p # data) crc = uffs_crc16update data (CRC16 crc p)"

definition uffs_crc16sum :: "u8 list \<Rightarrow> u16" where
  "uffs_crc16sum data = uffs_crc16update data 0xFFFF"

text \<open>The sums of \<open>uffs_public.c\<close> that the file system takes of names.\<close>

definition uffs_MakeSum8 :: "u8 list \<Rightarrow> u8" where
  "uffs_MakeSum8 p = ucast (uffs_crc16sum p AND 0xFF)"

definition uffs_MakeSum16 :: "u8 list \<Rightarrow> u16" where
  "uffs_MakeSum16 p = uffs_crc16sum p"

section \<open>Bit-serial reference\<close>

definition crc_bit :: "u16 \<Rightarrow> u16" where
  "crc_bit v = drop_bit 1 v XOR (if bit v 0 then 0x8408 else 0)"

definition crc_byte :: "u16 \<Rightarrow> u8 \<Rightarrow> u16" where
  "crc_byte v x = (crc_bit ^^ 8) (v XOR ucast x)"

definition crc16_spec :: "u8 list \<Rightarrow> u16 \<Rightarrow> u16" where
  "crc16_spec data crc = foldl crc_byte crc data"

lemma crc_bit_xor: "crc_bit (v XOR w) = crc_bit v XOR crc_bit w"
  by (rule bit_word_eqI) (auto simp: crc_bit_def bit_simps)

lemma crc_bits_xor: "(crc_bit ^^ n) (v XOR w) = (crc_bit ^^ n) v XOR (crc_bit ^^ n) w"
  by (induction n) (simp_all add: crc_bit_xor)

lemma crc_bits_zero [simp]: "(crc_bit ^^ n) 0 = 0"
  by (induction n) (simp_all add: crc_bit_def)

lemma crc_bits_shift:
  "(\<And>k. k < n \<Longrightarrow> \<not> bit v k) \<Longrightarrow> (crc_bit ^^ n) v = drop_bit n v"
proof (induction n)
  case 0
  then show ?case by simp
next
  case (Suc n)
  then have e: "(crc_bit ^^ n) v = drop_bit n v" and b: "\<not> bit v n" by auto
  have "(crc_bit ^^ Suc n) v = crc_bit (drop_bit n v)" using e by simp
  also have "\<dots> = drop_bit (Suc n) v"
    using b by (simp add: crc_bit_def bit_simps drop_bit_drop_bit)
  finally show ?case .
qed

lemma crc_bit_zeroD: "crc_bit x = 0 \<Longrightarrow> x = 0"
proof -
  assume a: "crc_bit x = 0"
  have "bit (crc_bit x) 15 = bit x 0"
    by (auto simp: crc_bit_def bit_simps dest: bit_imp_le_length)
  with a have b: "\<not> bit x 0" by simp
  with a have d: "drop_bit 1 x = 0" by (simp add: crc_bit_def)
  have "bit x n \<longleftrightarrow> bit (0::u16) n" for n
  proof (cases n)
    case (Suc k)
    have "bit (drop_bit 1 x) k = bit x (Suc k)" by (simp add: bit_simps)
    with d Suc show ?thesis by simp
  qed (use b in simp)
  then show "x = 0" by (rule bit_word_eqI)
qed

lemma crc_bits_inj: "(crc_bit ^^ n) v = (crc_bit ^^ n) w \<longleftrightarrow> v = w"
proof
  assume "(crc_bit ^^ n) v = (crc_bit ^^ n) w"
  then have "(crc_bit ^^ n) (v XOR w) = 0" by (simp add: crc_bits_xor)
  then have "v XOR w = 0" by (induction n) (auto dest: crc_bit_zeroD)
  then show "v = w" by (rule xor_zero_eq)
qed simp

section \<open>The table implements the division\<close>

lemma table_linear:
  "table_of (\<lambda>x. (crc_bit ^^ 8) (ucast x)) 256
   = dbl 0x8408 (dbl 0x4204 (dbl 0x2102 (dbl 0x1081 (dbl 0x8c48 (dbl 0x4624
       (dbl 0x2312 (dbl 0x1189 [0])))))))"
proof -
  have v: "(crc_bit ^^ 8) (ucast (1::u8)) = 0x1189" "(crc_bit ^^ 8) (ucast (2::u8)) = 0x2312"
    "(crc_bit ^^ 8) (ucast (4::u8)) = 0x4624" "(crc_bit ^^ 8) (ucast (8::u8)) = 0x8c48"
    "(crc_bit ^^ 8) (ucast (16::u8)) = 0x1081" "(crc_bit ^^ 8) (ucast (32::u8)) = 0x2102"
    "(crc_bit ^^ 8) (ucast (64::u8)) = 0x4204" "(crc_bit ^^ 8) (ucast (128::u8)) = 0x8408"
    by code_simp+
  show ?thesis
    by (subst table_of_linear) (simp_all only: ucast_xor crc_bits_xor v ucast_0 crc_bits_zero)
qed

lemma table_eq: "CRC16_TBL ! unat x = (crc_bit ^^ 8) (ucast x)" for x :: u8
proof (rule table_nth)
  show "CRC16_TBL = table_of (\<lambda>x. (crc_bit ^^ 8) (ucast x)) 256"
    unfolding table_linear CRC16_TBL_def dbl_def by simp
qed

lemma CRC16_eq: "CRC16 v x = crc_byte v x"
proof -
  define w where "w = v XOR ucast x"
  have lo: "w AND 0x00ff = ucast (ucast w :: u8)"
  proof -
    have "(0x00ff::u16) = mask 8" by (simp add: mask_eq_exp_minus_1)
    then have "w AND 0x00ff = take_bit 8 w" by (simp add: take_bit_eq_mask)
    also have "\<dots> = ucast (ucast w :: u8)"
      by (rule bit_word_eqI) (auto simp: bit_simps)
    finally show ?thesis .
  qed
  have split: "w = push_bit 8 (drop_bit 8 w) XOR ucast (ucast w :: u8)"
    by (rule bit_word_eqI) (auto simp: bit_simps)
  have "drop_bit 8 (push_bit 8 (drop_bit 8 w)) = drop_bit 8 w"
    by (rule bit_word_eqI) (auto simp: bit_simps dest: bit_imp_le_length)
  also have "\<dots> = drop_bit 8 v"
    unfolding w_def by (rule bit_word_eqI) (auto simp: bit_simps dest: bit_imp_le_length)
  finally have hi: "(crc_bit ^^ 8) (push_bit 8 (drop_bit 8 w)) = drop_bit 8 v"
    by (subst crc_bits_shift) (auto simp: bit_simps)
  have "CRC16 v x = drop_bit 8 v XOR CRC16_TBL ! unat (ucast w :: u8)"
    unfolding CRC16_def w_def[symmetric] lo unat_ucast_u8 ..
  also have "\<dots> = (crc_bit ^^ 8) (push_bit 8 (drop_bit 8 w)) XOR (crc_bit ^^ 8) (ucast (ucast w :: u8))"
    by (simp only: table_eq hi)
  also have "\<dots> = (crc_bit ^^ 8) w"
    by (subst (3) split) (simp only: crc_bits_xor)
  finally show ?thesis by (simp add: crc_byte_def w_def)
qed

text \<open>C40. The table-driven update computes the bit-serial division, for every start value
  and every message.\<close>

theorem crc16update_spec: "uffs_crc16update data crc = crc16_spec data crc"
  unfolding crc16_spec_def by (induction data arbitrary: crc) (simp_all only: uffs_crc16update.simps foldl.simps CRC16_eq)

section \<open>Sums of composed and of damaged messages\<close>

lemma crc16update_append:
  "uffs_crc16update (xs @ ys) crc = uffs_crc16update ys (uffs_crc16update xs crc)"
  by (induction xs arbitrary: crc) simp_all

text \<open>The bits of a message in the order in which the division takes them: the lowest bit of a
  byte first. One step of the division takes one bit.\<close>

definition msg_bits :: "u8 list \<Rightarrow> bool list" where
  "msg_bits m = concat (map (\<lambda>x. map (bit x) [0..<8]) m)"

definition crc_step :: "u16 \<Rightarrow> bool \<Rightarrow> u16" where
  "crc_step v b = crc_bit (v XOR of_bool b)"

text \<open>At most 16 bits pass through the register as one 16-bit value.\<close>

lemma crc_steps:
  "length bs \<le> 16 \<Longrightarrow> foldl crc_step v bs = (crc_bit ^^ length bs) (v XOR horner_sum of_bool 2 bs)"
proof (induction bs rule: rev_induct)
  case Nil
  then show ?case by simp
next
  case (snoc b bs)
  let ?n = "length bs"
  have "(crc_bit ^^ ?n) (push_bit ?n (of_bool b)) = drop_bit ?n (push_bit ?n (of_bool b :: u16))"
    by (rule crc_bits_shift) (auto simp: bit_simps)
  also have "\<dots> = of_bool b"
    using snoc.prems by (intro bit_word_eqI) (auto simp: bit_simps dest: bit_imp_le_length)
  finally have b: "(crc_bit ^^ ?n) (push_bit ?n (of_bool b)) = of_bool b" .
  have "horner_sum of_bool 2 (bs @ [b]) = (horner_sum of_bool 2 bs XOR push_bit ?n (of_bool b) :: u16)"
    using snoc.prems by (intro bit_word_eqI) (auto simp: bit_horner_sum_bit_word_iff bit_simps nth_append less_Suc_eq)
  then show ?case
    using snoc by (simp add: crc_step_def crc_bits_xor b xor.assoc)
qed

lemma crc_byte_steps: "crc_byte v x = foldl crc_step v (map (bit x) [0..<8])"
proof -
  have e: "horner_sum of_bool 2 (map (bit x) [0..<8]) = (ucast x :: u16)"
  proof (rule bit_word_eqI)
    fix n show "bit (horner_sum of_bool 2 (map (bit x) [0..<8]) :: u16) n \<longleftrightarrow> bit (ucast x :: u16) n"
      by (cases "n < 8") (auto simp: bit_horner_sum_bit_word_iff bit_simps dest: bit_imp_le_length)
  qed
  show ?thesis using crc_steps[of "map (bit x) [0..<8]" v] unfolding crc_byte_def e by simp
qed

lemma crc16update_bits: "uffs_crc16update m v = foldl crc_step v (msg_bits m)"
  by (induction m arbitrary: v) (simp_all only: uffs_crc16update.simps CRC16_eq crc_byte_steps msg_bits_def
      list.map concat.simps foldl_append foldl.simps)

lemma crc_step_inj: "crc_step v b = crc_step w b \<longleftrightarrow> v = w"
  using crc_bits_inj[of 1] by (simp add: crc_step_def xor.commute[of _ "of_bool b"] xor_left_cancel)

lemma crc_steps_inj: "foldl crc_step v bs = foldl crc_step w bs \<longleftrightarrow> v = w"
  by (induction bs arbitrary: v w) (simp_all add: crc_step_inj)

lemma horner_bits_inj:
  assumes "horner_sum of_bool 2 xs = (horner_sum of_bool 2 ys :: u16)" "length xs = length ys" "length xs \<le> 16"
  shows "xs = ys"
proof (rule nth_equalityI)
  fix i assume i: "i < length xs"
  have "bit (horner_sum of_bool 2 xs :: u16) i = bit (horner_sum of_bool 2 ys :: u16) i" using assms(1) by simp
  with i assms(2,3) show "xs ! i = ys ! i" by (simp add: bit_horner_sum_bit_word_iff)
qed fact

text \<open>C39. Every burst of at most 16 bits changes the sum: two messages whose bits (the lowest bit of
  every byte first) differ only inside a window of at most 16 consecutive bits, which may begin at
  any bit and lie over three bytes, have different sums.\<close>

theorem crc16sum_detects_burst:
  assumes "msg_bits m = before @ w @ behind" "msg_bits m' = before @ w' @ behind"
    and "length w = length w'" "length w \<le> 16" "w \<noteq> w'"
  shows "uffs_crc16sum m \<noteq> uffs_crc16sum m'"
proof
  assume "uffs_crc16sum m = uffs_crc16sum m'"
  then have "horner_sum of_bool 2 w = (horner_sum of_bool 2 w' :: u16)"
    using assms(3,4)
    by (simp add: uffs_crc16sum_def crc16update_bits assms(1,2) crc_steps_inj crc_steps crc_bits_inj xor_left_cancel)
  with assms(3-5) show False by (auto dest: horner_bits_inj)
qed

text \<open>Thirteen bits over three bytes: four of the first, all of the second, and one of the third.\<close>

theorem crc16sum_detects_burst_witness:
  "uffs_crc16sum [0x55, 0x66, 0x73, 0x61, 0x07] \<noteq> uffs_crc16sum [0x55, 0x96, 0x8c, 0x60, 0x07]"
proof (rule crc16sum_detects_burst)
  show "msg_bits [0x55, 0x66, 0x73, 0x61, 0x07] =
      take 12 (msg_bits [0x55, 0x66, 0x73, 0x61, 0x07]) @ take 13 (drop 12 (msg_bits [0x55, 0x66, 0x73, 0x61, 0x07])) @
      drop 25 (msg_bits [0x55, 0x66, 0x73, 0x61, 0x07])"
    by code_simp
  show "msg_bits [0x55, 0x96, 0x8c, 0x60, 0x07] =
      take 12 (msg_bits [0x55, 0x66, 0x73, 0x61, 0x07]) @ take 13 (drop 12 (msg_bits [0x55, 0x96, 0x8c, 0x60, 0x07])) @
      drop 25 (msg_bits [0x55, 0x66, 0x73, 0x61, 0x07])"
    by code_simp
qed code_simp+

end
