(* ===== verification/Ecc.thy ===== *)
theory Ecc
  imports Uffs_Prelude
begin

text \<open>
  \<open>src/uffs/uffs_ecc.c\<close>: the Hamming code of page data (3 bytes per chunk of at most 256
  bytes) and the 12-bit code of the 8-byte page tag. The tables are the source's. A C
  buffer is the list of the bytes from the pointer on, so advancing the pointer drops a
  prefix; a function that writes through a pointer returns the new bytes.
\<close>

section \<open>Tables\<close>

definition bits_tbl :: "u8 list" where
  "bits_tbl =
  [0, 1, 1, 2, 1, 2, 2, 3, 1, 2, 2, 3, 2, 3, 3, 4,
   1, 2, 2, 3, 2, 3, 3, 4, 2, 3, 3, 4, 3, 4, 4, 5,
   1, 2, 2, 3, 2, 3, 3, 4, 2, 3, 3, 4, 3, 4, 4, 5,
   2, 3, 3, 4, 3, 4, 4, 5, 3, 4, 4, 5, 4, 5, 5, 6,
   1, 2, 2, 3, 2, 3, 3, 4, 2, 3, 3, 4, 3, 4, 4, 5,
   2, 3, 3, 4, 3, 4, 4, 5, 3, 4, 4, 5, 4, 5, 5, 6,
   2, 3, 3, 4, 3, 4, 4, 5, 3, 4, 4, 5, 4, 5, 5, 6,
   3, 4, 4, 5, 4, 5, 5, 6, 4, 5, 5, 6, 5, 6, 6, 7,
   1, 2, 2, 3, 2, 3, 3, 4, 2, 3, 3, 4, 3, 4, 4, 5,
   2, 3, 3, 4, 3, 4, 4, 5, 3, 4, 4, 5, 4, 5, 5, 6,
   2, 3, 3, 4, 3, 4, 4, 5, 3, 4, 4, 5, 4, 5, 5, 6,
   3, 4, 4, 5, 4, 5, 5, 6, 4, 5, 5, 6, 5, 6, 6, 7,
   2, 3, 3, 4, 3, 4, 4, 5, 3, 4, 4, 5, 4, 5, 5, 6,
   3, 4, 4, 5, 4, 5, 5, 6, 4, 5, 5, 6, 5, 6, 6, 7,
   3, 4, 4, 5, 4, 5, 5, 6, 4, 5, 5, 6, 5, 6, 6, 7,
   4, 5, 5, 6, 5, 6, 6, 7, 5, 6, 6, 7, 6, 7, 7, 8]"

definition line_parity_tbl :: "u8 list" where
  "line_parity_tbl =
  [0x00, 0x02, 0x08, 0x0a, 0x20, 0x22, 0x28, 0x2a, 0x80, 0x82, 0x88, 0x8a, 0xa0, 0xa2, 0xa8, 0xaa]"

definition line_parity_prime_tbl :: "u8 list" where
  "line_parity_prime_tbl =
  [0x00, 0x01, 0x04, 0x05, 0x10, 0x11, 0x14, 0x15, 0x40, 0x41, 0x44, 0x45, 0x50, 0x51, 0x54, 0x55]"

definition column_parity_tbl :: "u8 list" where
  "column_parity_tbl =
  [0x00, 0x55, 0x59, 0x0c, 0x65, 0x30, 0x3c, 0x69, 0x69, 0x3c, 0x30, 0x65, 0x0c, 0x59, 0x55, 0x00,
   0x95, 0xc0, 0xcc, 0x99, 0xf0, 0xa5, 0xa9, 0xfc, 0xfc, 0xa9, 0xa5, 0xf0, 0x99, 0xcc, 0xc0, 0x95,
   0x99, 0xcc, 0xc0, 0x95, 0xfc, 0xa9, 0xa5, 0xf0, 0xf0, 0xa5, 0xa9, 0xfc, 0x95, 0xc0, 0xcc, 0x99,
   0x0c, 0x59, 0x55, 0x00, 0x69, 0x3c, 0x30, 0x65, 0x65, 0x30, 0x3c, 0x69, 0x00, 0x55, 0x59, 0x0c,
   0xa5, 0xf0, 0xfc, 0xa9, 0xc0, 0x95, 0x99, 0xcc, 0xcc, 0x99, 0x95, 0xc0, 0xa9, 0xfc, 0xf0, 0xa5,
   0x30, 0x65, 0x69, 0x3c, 0x55, 0x00, 0x0c, 0x59, 0x59, 0x0c, 0x00, 0x55, 0x3c, 0x69, 0x65, 0x30,
   0x3c, 0x69, 0x65, 0x30, 0x59, 0x0c, 0x00, 0x55, 0x55, 0x00, 0x0c, 0x59, 0x30, 0x65, 0x69, 0x3c,
   0xa9, 0xfc, 0xf0, 0xa5, 0xcc, 0x99, 0x95, 0xc0, 0xc0, 0x95, 0x99, 0xcc, 0xa5, 0xf0, 0xfc, 0xa9,
   0xa9, 0xfc, 0xf0, 0xa5, 0xcc, 0x99, 0x95, 0xc0, 0xc0, 0x95, 0x99, 0xcc, 0xa5, 0xf0, 0xfc, 0xa9,
   0x3c, 0x69, 0x65, 0x30, 0x59, 0x0c, 0x00, 0x55, 0x55, 0x00, 0x0c, 0x59, 0x30, 0x65, 0x69, 0x3c,
   0x30, 0x65, 0x69, 0x3c, 0x55, 0x00, 0x0c, 0x59, 0x59, 0x0c, 0x00, 0x55, 0x3c, 0x69, 0x65, 0x30,
   0xa5, 0xf0, 0xfc, 0xa9, 0xc0, 0x95, 0x99, 0xcc, 0xcc, 0x99, 0x95, 0xc0, 0xa9, 0xfc, 0xf0, 0xa5,
   0x0c, 0x59, 0x55, 0x00, 0x69, 0x3c, 0x30, 0x65, 0x65, 0x30, 0x3c, 0x69, 0x00, 0x55, 0x59, 0x0c,
   0x99, 0xcc, 0xc0, 0x95, 0xfc, 0xa9, 0xa5, 0xf0, 0xf0, 0xa5, 0xa9, 0xfc, 0x95, 0xc0, 0xcc, 0x99,
   0x95, 0xc0, 0xcc, 0x99, 0xf0, 0xa5, 0xa9, 0xfc, 0xfc, 0xa9, 0xa5, 0xf0, 0x99, 0xcc, 0xc0, 0x95,
   0x00, 0x55, 0x59, 0x0c, 0x65, 0x30, 0x3c, 0x69, 0x69, 0x3c, 0x30, 0x65, 0x0c, 0x59, 0x55, 0x00]"

section \<open>The page code\<close>

text \<open>The loop over the bytes of a chunk: \<open>(col_parity, line_parity, line_parity_prime)\<close>.
  The counter \<open>i\<close> is a \<open>u16\<close>, and XORing it into a \<open>u8\<close> keeps its low byte.\<close>

fun ecc_lines :: "u8 list \<Rightarrow> u16 \<Rightarrow> u8 \<times> u8 \<times> u8 \<Rightarrow> u8 \<times> u8 \<times> u8" where
  "ecc_lines [] i acc = acc"
| "ecc_lines (p # ps) i (col_parity, line_parity, line_parity_prime) =
     (let b = column_parity_tbl ! unat p
      in if b AND 0x01 \<noteq> 0
         then ecc_lines ps (i + 1)
                (col_parity XOR b, line_parity XOR ucast i, line_parity_prime XOR ucast (NOT i))
         else ecc_lines ps (i + 1) (col_parity XOR b, line_parity, line_parity_prime))"

text \<open>The three code bytes a chunk of \<open>len\<close> bytes gets.\<close>

definition uffs_EccMakeChunk256 :: "u8 list \<Rightarrow> u16 \<Rightarrow> u8 list" where
  "uffs_EccMakeChunk256 data len =
     (let (col_parity, line_parity, line_parity_prime) = ecc_lines (take (unat len) data) 0 (0, 0, 0)
      in [NOT (line_parity_tbl ! unat (line_parity AND 0xf) OR
               line_parity_prime_tbl ! unat (line_parity_prime AND 0xf)),
          NOT (line_parity_tbl ! unat (drop_bit 4 line_parity) OR
               line_parity_prime_tbl ! unat (drop_bit 4 line_parity_prime)),
          NOT col_parity OR 0x03])"

function EccMake_loop :: "u8 list \<Rightarrow> int \<Rightarrow> u8 list" where
  "EccMake_loop p_data data_len =
     (if data_len > 0
      then let len = (if data_len > 256 then 256 else data_len)
           in uffs_EccMakeChunk256 p_data (word_of_int len)
              @ EccMake_loop (drop (nat len) p_data) (data_len - len)
      else [])"
  by pat_completeness auto
termination
  by (relation "measure (\<lambda>(p, n). nat n)") (auto split: if_splits)

declare EccMake_loop.simps [simp del]

text \<open>\<open>uffs_EccMake\<close>: the number of code bytes and the \<open>ecc\<close> buffer, whose first bytes are
  overwritten; \<open>None\<close> is a null pointer.\<close>

definition uffs_EccMake :: "u8 list option \<Rightarrow> int \<Rightarrow> u8 list option \<Rightarrow> int \<times> u8 list option" where
  "uffs_EccMake data data_len ecc =
     (case (data, ecc) of
        (Some d, Some e) \<Rightarrow>
          (let p_ecc = EccMake_loop d data_len
           in (int (length p_ecc), Some (p_ecc @ drop (length p_ecc) e)))
      | _ \<Rightarrow> (0, ecc))"

text \<open>The byte and bit position of a single-bit error, read from the code differences.\<close>

definition ecc_byte_pos :: "u8 \<Rightarrow> u8 \<Rightarrow> u8" where
  "ecc_byte_pos d0 d1 =
     (if d1 AND 0x80 \<noteq> 0 then 0x80 else 0) OR (if d1 AND 0x20 \<noteq> 0 then 0x40 else 0) OR
     (if d1 AND 0x08 \<noteq> 0 then 0x20 else 0) OR (if d1 AND 0x02 \<noteq> 0 then 0x10 else 0) OR
     (if d0 AND 0x80 \<noteq> 0 then 0x08 else 0) OR (if d0 AND 0x20 \<noteq> 0 then 0x04 else 0) OR
     (if d0 AND 0x08 \<noteq> 0 then 0x02 else 0) OR (if d0 AND 0x02 \<noteq> 0 then 0x01 else 0)"

definition ecc_bit_pos :: "u8 \<Rightarrow> u8" where
  "ecc_bit_pos d2 =
     (if d2 AND 0x80 \<noteq> 0 then 0x04 else 0) OR (if d2 AND 0x20 \<noteq> 0 then 0x02 else 0) OR
     (if d2 AND 0x08 \<noteq> 0 then 0x01 else 0)"

definition uffs_EccCorrectChunk256 :: "u8 list \<Rightarrow> u8 list \<Rightarrow> u8 list \<Rightarrow> int \<Rightarrow> int \<times> u8 list" where
  "uffs_EccCorrectChunk256 p pread_ecc ptest_ecc errtop =
     (let d0 = pread_ecc ! 0 XOR ptest_ecc ! 0;
          d1 = pread_ecc ! 1 XOR ptest_ecc ! 1;
          d2 = pread_ecc ! 2 XOR ptest_ecc ! 2
      in if d0 OR d1 OR d2 = 0 then (0, p)
         else if (d0 XOR drop_bit 1 d0) AND 0x55 = 0x55 \<and>
                 (d1 XOR drop_bit 1 d1) AND 0x55 = 0x55 \<and>
                 (d2 XOR drop_bit 1 d2) AND 0x54 = 0x54
         then let b = ecc_byte_pos d0 d1; bit = ecc_bit_pos d2
              in if uint b \<ge> errtop then (- 1, p)
                 else (1, p[unat b := p ! unat b XOR push_bit (unat bit) 1])
         else if uint (bits_tbl ! unat d0) + uint (bits_tbl ! unat d1) + uint (bits_tbl ! unat d2) = 1
         then (1, p)
         else (- 1, p))"

text \<open>The loop of \<open>uffs_EccCorrect\<close>: an uncorrectable chunk ends it, and the chunks already
  corrected stay corrected.\<close>

function EccCorrect_loop ::
  "u8 list \<Rightarrow> int \<Rightarrow> u8 list \<Rightarrow> u8 list \<Rightarrow> int \<Rightarrow> int \<times> u8 list" where
  "EccCorrect_loop p_data data_len p_read_ecc p_test_ecc tot =
     (if data_len > 0
      then let len = (if data_len > 256 then 256 else data_len);
               (ret, p') = uffs_EccCorrectChunk256 p_data p_read_ecc p_test_ecc len
           in if ret < 0 then (ret, p')
              else let (tot', rest) = EccCorrect_loop (drop (nat len) p') (data_len - len)
                                          (drop 3 p_read_ecc) (drop 3 p_test_ecc) (tot + ret)
                   in (tot', take (nat len) p' @ rest)
      else (tot, p_data))"
  by pat_completeness auto
termination
  by (relation "measure (\<lambda>(p, n, _). nat n)") (auto split: if_splits)

declare EccCorrect_loop.simps [simp del]

definition uffs_EccCorrect ::
  "u8 list option \<Rightarrow> int \<Rightarrow> u8 list option \<Rightarrow> u8 list option \<Rightarrow> int \<times> u8 list option" where
  "uffs_EccCorrect data data_len read_ecc test_ecc =
     (case (data, read_ecc, test_ecc) of
        (Some d, Some r, Some t) \<Rightarrow> map_prod id Some (EccCorrect_loop d data_len r t 0)
      | _ \<Rightarrow> (- 1, data))"

section \<open>The tag code\<close>

fun ecc8_lines :: "u8 list \<Rightarrow> u8 \<Rightarrow> u8 \<times> u8 \<times> u8 \<Rightarrow> u8 \<times> u8 \<times> u8" where
  "ecc8_lines [] i acc = acc"
| "ecc8_lines (p # ps) i (col_parity, line_parity, line_parity_prime) =
     (let b = column_parity_tbl ! unat p
      in if b AND 0x01 \<noteq> 0
         then ecc8_lines ps (i + 1)
                (col_parity XOR b, line_parity XOR i, line_parity_prime XOR NOT i)
         else ecc8_lines ps (i + 1) (col_parity XOR b, line_parity, line_parity_prime))"

text \<open>\<open>uffs_EccMake8\<close>; the arithmetic on \<open>int\<close> is truncated to the \<open>u16\<close> it is stored in.\<close>

definition uffs_EccMake8 :: "u8 list \<Rightarrow> int \<Rightarrow> u16" where
  "uffs_EccMake8 data data_len =
     (let n = (if data_len > 8 then 8 else data_len);
          (col_parity, line_parity, line_parity_prime) = ecc8_lines (take (nat n) data) 0 (0, 0, 0);
          ecc = push_bit 6 (NOT (ucast (line_parity_tbl ! unat (line_parity AND 0xf) OR
                                        line_parity_prime_tbl ! unat (line_parity_prime AND 0xf))));
          ecc = ecc OR (drop_bit 2 (NOT (ucast col_parity)) AND 0x3f)
      in ecc AND 0xfff)"

definition ecc8_byte_pos :: "u8 \<Rightarrow> u8" where
  "ecc8_byte_pos d0 =
     (if d0 AND 0x20 \<noteq> 0 then 0x04 else 0) OR (if d0 AND 0x08 \<noteq> 0 then 0x02 else 0) OR
     (if d0 AND 0x02 \<noteq> 0 then 0x01 else 0)"

definition uffs_EccCorrect8 :: "u8 list \<Rightarrow> u16 \<Rightarrow> u16 \<Rightarrow> int \<Rightarrow> int \<times> u8 list" where
  "uffs_EccCorrect8 p read_ecc test_ecc errtop =
     (let r = read_ecc AND 0xfff;
          t = test_ecc AND 0xfff;
          d0 = ucast (drop_bit 6 r XOR drop_bit 6 t) :: u8;
          d1 = ucast ((r AND 0x3f) XOR (t AND 0x3f)) :: u8
      in if d0 OR d1 = 0 then (0, p)
         else if (d0 XOR drop_bit 1 d0) AND 0x15 = 0x15 \<and> (d1 XOR drop_bit 1 d1) AND 0x15 = 0x15
         then let b = ecc8_byte_pos d0; bit = ecc8_byte_pos d1
              in if b \<ge> word_of_int errtop then (- 1, p)
                 else if bit \<ge> 8 then (- 1, p)
                 else (1, p[unat b := p ! unat b XOR push_bit (unat bit) 1])
         else if uint (bits_tbl ! unat d0) + uint (bits_tbl ! unat d1) = 1 then (1, p)
         else (- 1, p))"

section \<open>The tables as parity formulas\<close>

text \<open>\<open>sel b c\<close> is \<open>c\<close> where the bit \<open>b\<close> is set: the summands of the parity formulas.\<close>

definition sel :: "bool \<Rightarrow> u8 \<Rightarrow> u8" where
  "sel b c = (if b then c else 0)"

lemma sel_simps [simp]: "sel True c = c" "sel False c = 0"
  by (simp_all add: sel_def)

lemma sel_xor: "sel (a \<noteq> b) c = sel a c XOR sel b c"
  by (cases a; cases b) simp_all

text \<open>Bit \<open>k\<close> of a byte toggles one bit of each column pair, picked by the bits of \<open>k\<close>, and the
  byte parity in bit 0.\<close>

definition col_of :: "u8 \<Rightarrow> u8" where
  "col_of x = sel (bit x 0) 0x55 XOR sel (bit x 1) 0x59 XOR sel (bit x 2) 0x65 XOR sel (bit x 3) 0x69
     XOR sel (bit x 4) 0x95 XOR sel (bit x 5) 0x99 XOR sel (bit x 6) 0xa5 XOR sel (bit x 7) 0xa9"

definition line_of :: "u8 \<Rightarrow> u8" where
  "line_of l = sel (bit l 0) 0x02 XOR sel (bit l 1) 0x08 XOR sel (bit l 2) 0x20 XOR sel (bit l 3) 0x80"

definition line'_of :: "u8 \<Rightarrow> u8" where
  "line'_of l = sel (bit l 0) 0x01 XOR sel (bit l 1) 0x04 XOR sel (bit l 2) 0x10 XOR sel (bit l 3) 0x40"

lemmas xor_ac = xor.assoc xor.commute xor.left_commute

lemma col_of_xor: "col_of (x XOR y) = col_of x XOR col_of y"
  by (simp only: col_of_def bit_xor_iff sel_xor xor_ac)

lemma line_of_xor: "line_of (x XOR y) = line_of x XOR line_of y"
  by (simp only: line_of_def bit_xor_iff sel_xor xor_ac)

lemma line'_of_xor: "line'_of (x XOR y) = line'_of x XOR line'_of y"
  by (simp only: line'_of_def bit_xor_iff sel_xor xor_ac)

lemma linear_zero: "(\<And>x y. f (x XOR y) = f x XOR f y) \<Longrightarrow> f (0::u8) = (0::u8)"
  by (metis xor_self_eq)

lemma column_parity_eq [simp]: "column_parity_tbl ! unat x = col_of x"
proof (rule table_nth)
  have v: "col_of 0 = 0" "col_of 1 = 0x55" "col_of 2 = 0x59" "col_of 4 = 0x65" "col_of 8 = 0x69"
    "col_of 16 = 0x95" "col_of 32 = 0x99" "col_of 64 = 0xa5" "col_of 128 = 0xa9"
    by (simp_all add: col_of_def)
  show "column_parity_tbl = table_of col_of 256"
    by (simp add: table_of_linear[of col_of, OF col_of_xor] v dbl_def column_parity_tbl_def)
qed

lemma line_parity_check:
  "all_nibble (\<lambda>x. line_parity_tbl ! unat x = line_of x \<and> line_parity_prime_tbl ! unat x = line'_of x)"
  by code_simp

lemma and_0xf: "x AND 0xf = take_bit 4 x" for x :: "'a::len word"
proof -
  have "(0xf :: 'a word) = mask 4" by (simp add: mask_eq_exp_minus_1)
  then show ?thesis by (simp add: take_bit_eq_mask)
qed

lemma unat_low_nibble: "unat (take_bit 4 x) < 16" for x :: u8
  using take_bit_nat_less_exp[of 4 "unat x"] by (simp add: unsigned_take_bit_eq)

lemma unat_high_nibble: "unat (drop_bit 4 x) < 16" for x :: u8
proof -
  have "unat (drop_bit 4 x) = unat x div 2 ^ 4"
    by (simp only: unsigned_drop_bit_eq drop_bit_eq_div) (simp add: unat_div)
  moreover have "unat x < 16 * 16" by simp
  ultimately show ?thesis by (simp add: less_mult_imp_div_less)
qed

lemma line_take_bit [simp]: "line_of (take_bit 4 x) = line_of x" "line'_of (take_bit 4 x) = line'_of x"
  by (simp_all add: line_of_def line'_of_def bit_simps)

lemma line_parity_eq:
  "unat x < 16 \<Longrightarrow> line_parity_tbl ! unat x = line_of x"
  "unat x < 16 \<Longrightarrow> line_parity_prime_tbl ! unat x = line'_of x"
  using all_nibbleD[OF line_parity_check] by blast+

lemma line_or: "line_of x OR line'_of y = line_of x XOR line'_of y"
proof -
  have a: "line_of x AND 0xaa = line_of x"
    by (cases "bit x 0"; cases "bit x 1"; cases "bit x 2"; cases "bit x 3") (simp_all add: line_of_def)
  have b: "line'_of y AND 0x55 = line'_of y"
    by (cases "bit y 0"; cases "bit y 1"; cases "bit y 2"; cases "bit y 3") (simp_all add: line'_of_def)
  have "line_of x AND line'_of y = (line_of x AND line'_of y) AND (0xaa AND 0x55)"
    by (metis (no_types) a b and.assoc and.commute)
  then have "line_of x AND line'_of y = 0" by simp
  then show ?thesis by (simp add: disjunctive_xor_eq_or)
qed

lemma and_one_bit: "x AND 1 = 0 \<longleftrightarrow> \<not> bit x 0" for x :: u8
  by (metis and_exp_eq_0_iff_not_bit power_0)

lemma bits_parity: "odd (unat (bits_tbl ! unat x)) \<longleftrightarrow> bit (col_of x) 0"
proof -
  have lin: "col_of (x XOR y) AND 1 = (col_of x AND 1) XOR (col_of y AND 1)" for x y
    by (rule bit_word_eqI) (auto simp: col_of_xor bit_simps)
  have v: "col_of 0 = 0" "col_of 1 = 0x55" "col_of 2 = 0x59" "col_of 4 = 0x65" "col_of 8 = 0x69"
    "col_of 16 = 0x95" "col_of 32 = 0x99" "col_of 64 = 0xa5" "col_of 128 = 0xa9"
    by (simp_all add: col_of_def)
  have "map (\<lambda>b. b AND 1) bits_tbl = table_of (\<lambda>x. col_of x AND 1) 256"
    by (simp add: table_of_linear[of "\<lambda>x. col_of x AND 1", OF lin] v dbl_def bits_tbl_def)
  then have "map (\<lambda>b. b AND 1) bits_tbl ! unat x = col_of x AND 1" by (rule table_nth)
  moreover have "unat x < length bits_tbl"
  proof -
    have "length bits_tbl = 256" by code_simp
    then show ?thesis by simp
  qed
  ultimately have "bits_tbl ! unat x AND 1 = col_of x AND 1" by simp
  then have "bit (bits_tbl ! unat x) 0 = bit (col_of x) 0"
    by (metis and_one_bit)
  then show ?thesis by (simp only: odd_unat_u8)
qed

lemma bits_parity_even: "even (unat (bits_tbl ! unat x)) \<longleftrightarrow> \<not> bit (col_of x) 0"
  using bits_parity[of x] by blast

section \<open>A flipped bit changes the code by a pattern of its position\<close>

fun col_sum :: "u8 list \<Rightarrow> u8" where
  "col_sum [] = 0"
| "col_sum (p # ps) = col_of p XOR col_sum ps"

fun line_sum :: "u8 list \<Rightarrow> u16 \<Rightarrow> u8" where
  "line_sum [] i = 0"
| "line_sum (p # ps) i = (if bit (col_of p) 0 then ucast i else 0) XOR line_sum ps (i + 1)"

fun line'_sum :: "u8 list \<Rightarrow> u16 \<Rightarrow> u8" where
  "line'_sum [] i = 0"
| "line'_sum (p # ps) i = (if bit (col_of p) 0 then ucast (NOT i) else 0) XOR line'_sum ps (i + 1)"

lemma ecc_lines_eq:
  "ecc_lines ps i (c, l, m) = (c XOR col_sum ps, l XOR line_sum ps i, m XOR line'_sum ps i)"
  by (induction ps arbitrary: i c l m) (simp_all add: Let_def and_one_bit xor.assoc)

lemma ecc8_lines_eq: "ecc8_lines ps (ucast i) acc = ecc_lines ps i acc" for i :: u16
proof (induction ps arbitrary: i acc)
  case Nil
  then show ?case by simp
next
  case (Cons p ps)
  obtain c l m where acc: "acc = (c, l, m)" by (cases acc)
  show ?case by (simp add: acc ucast_add1_u16[symmetric] ucast_not_u16 Cons.IH Let_def)
qed

definition flip_bit :: "u8 list \<Rightarrow> nat \<Rightarrow> nat \<Rightarrow> u8 list" where
  "flip_bit xs i k = xs[i := xs ! i XOR 2 ^ k]"

lemma length_flip_bit [simp]: "length (flip_bit xs i k) = length xs"
  by (simp add: flip_bit_def)

lemma flip_bit_flip_bit [simp]: "flip_bit (flip_bit xs i k) i k = xs"
  by (cases "i < length xs") (simp_all add: flip_bit_def xor.assoc list_update_beyond)

lemma flip_bit_Cons_0 [simp]: "flip_bit (x # xs) 0 k = (x XOR 2 ^ k) # xs"
  by (simp add: flip_bit_def)

lemma flip_bit_Cons_Suc [simp]: "flip_bit (x # xs) (Suc i) k = x # flip_bit xs i k"
  by (simp add: flip_bit_def)

lemma less_8E:
  assumes "k < (8::nat)"
    and "k = 0 \<Longrightarrow> P" "k = 1 \<Longrightarrow> P" "k = 2 \<Longrightarrow> P" "k = 3 \<Longrightarrow> P"
    and "k = 4 \<Longrightarrow> P" "k = 5 \<Longrightarrow> P" "k = 6 \<Longrightarrow> P" "k = 7 \<Longrightarrow> P"
  shows P
  using assms by linarith

lemma col_of_pow: "k < 8 \<Longrightarrow> bit (col_of (2 ^ k)) 0"
  by (erule less_8E) (simp_all add: col_of_def)

lemma col_of_flip: "k < 8 \<Longrightarrow> bit (col_of (x XOR 2 ^ k)) 0 \<longleftrightarrow> \<not> bit (col_of x) 0"
  by (simp add: col_of_xor bit_xor_iff col_of_pow)

lemma col_sum_flip:
  "i < length xs \<Longrightarrow> col_sum (flip_bit xs i k) = col_sum xs XOR col_of (2 ^ k)"
  by (induction xs arbitrary: i) (auto simp: col_of_xor xor_ac less_Suc_eq_0_disj)

lemma line_sum_flip:
  "i < length xs \<Longrightarrow> k < 8 \<Longrightarrow>
     line_sum (flip_bit xs i k) j = line_sum xs j XOR ucast (j + word_of_nat i)"
proof (induction xs arbitrary: i j)
  case (Cons x xs)
  then show ?case
    by (cases i) (auto simp: col_of_flip xor_ac add.assoc add.commute add.left_commute)
qed simp

lemma line'_sum_flip:
  "i < length xs \<Longrightarrow> k < 8 \<Longrightarrow>
     line'_sum (flip_bit xs i k) j = line'_sum xs j XOR ucast (NOT (j + word_of_nat i))"
proof (induction xs arbitrary: i j)
  case (Cons x xs)
  then show ?case
    by (cases i) (auto simp: col_of_flip xor_ac add.assoc add.commute add.left_commute)
qed simp

text \<open>The pattern of a byte position in the row bytes, and of a bit position in the column byte.\<close>

definition row_pattern :: "u8 \<Rightarrow> u8" where
  "row_pattern i = line_of i XOR line'_of (NOT i)"

definition col_pattern :: "nat \<Rightarrow> u8" where
  "col_pattern k = col_of (2 ^ k) AND 0xfc"

definition chunk_code :: "u8 \<Rightarrow> u8 \<Rightarrow> u8 \<Rightarrow> u8 list" where
  "chunk_code c l m =
     [NOT (line_of l XOR line'_of m), NOT (line_of (drop_bit 4 l) XOR line'_of (drop_bit 4 m)), NOT c OR 0x03]"

lemma uffs_EccMakeChunk256_eq:
  "uffs_EccMakeChunk256 data len =
     (let ps = take (unat len) data in chunk_code (col_sum ps) (line_sum ps 0) (line'_sum ps 0))"
  by (simp add: uffs_EccMakeChunk256_def ecc_lines_eq chunk_code_def and_0xf line_parity_eq
      unat_low_nibble unat_high_nibble line_or Let_def)

lemma chunk_code_xor:
  "chunk_code (c XOR c') (l XOR i) (m XOR NOT i) =
     (case chunk_code c l m of [e0, e1, e2] \<Rightarrow>
        [e0 XOR row_pattern i, e1 XOR row_pattern (drop_bit 4 i), e2 XOR (c' AND 0xfc)])"
proof -
  have n: "NOT (x XOR y) = NOT x XOR y" for x y :: u8
    by (rule bit_word_eqI) (auto simp: bit_simps)
  have d: "drop_bit 4 (x XOR y) = drop_bit 4 x XOR drop_bit 4 y" for x y :: u8
    by (rule drop_bit_xor)
  have h: "line'_of (drop_bit 4 (NOT i)) = line'_of (NOT (drop_bit 4 i))"
    by (simp add: line'_of_def bit_simps)
  have o3: "NOT (c XOR c') OR 3 = (NOT c OR 3) XOR (c' AND 0xfc)"
  proof -
    have m: "(0xfc::u8) = NOT 3" by simp
    show ?thesis unfolding m by (rule bit_word_eqI) (auto simp: bit_simps)
  qed
  show ?thesis
    unfolding chunk_code_def list.case o3
    by (simp only: n d h line_of_xor line'_of_xor row_pattern_def xor_ac)
qed

lemma row_pattern_pairs:
  "(row_pattern i XOR drop_bit 1 (row_pattern i)) AND 0x55 = 0x55"
  by (cases "bit i 0"; cases "bit i 1"; cases "bit i 2"; cases "bit i 3")
    (simp_all add: row_pattern_def line_of_def line'_of_def bit_simps)

lemma col_pattern_pairs:
  "k < 8 \<Longrightarrow> (col_pattern k XOR drop_bit 1 (col_pattern k)) AND 0x54 = 0x54"
  by (erule less_8E) (simp_all add: col_pattern_def col_of_def)

lemma ecc_bit_pos_pattern: "k < 8 \<Longrightarrow> unat (ecc_bit_pos (col_pattern k)) = k"
  by (erule less_8E) (simp_all add: col_pattern_def col_of_def ecc_bit_pos_def)

lemma row_pattern_bits:
  "row_pattern i AND 0x80 = 0 \<longleftrightarrow> \<not> bit i 3" "row_pattern i AND 0x20 = 0 \<longleftrightarrow> \<not> bit i 2"
  "row_pattern i AND 0x08 = 0 \<longleftrightarrow> \<not> bit i 1" "row_pattern i AND 0x02 = 0 \<longleftrightarrow> \<not> bit i 0"
  by (cases "bit i 0"; cases "bit i 1"; cases "bit i 2"; cases "bit i 3";
      simp add: row_pattern_def line_of_def line'_of_def bit_simps)+

lemma byte_of_bits:
  "(if bit i 7 then 0x80 else 0) OR (if bit i 6 then 0x40 else 0) OR (if bit i 5 then 0x20 else 0) OR
   (if bit i 4 then 0x10 else 0) OR (if bit i 3 then 0x08 else 0) OR (if bit i 2 then 0x04 else 0) OR
   (if bit i 1 then 0x02 else 0) OR (if bit i 0 then 0x01 else 0) = i" (is "?b = i") for i :: u8
proof (rule bit_word_eqI)
  have p: "bit (if c then 0x80 else (0::u8)) n \<longleftrightarrow> c \<and> n = 7" "bit (if c then 0x40 else (0::u8)) n \<longleftrightarrow> c \<and> n = 6"
    "bit (if c then 0x20 else (0::u8)) n \<longleftrightarrow> c \<and> n = 5" "bit (if c then 0x10 else (0::u8)) n \<longleftrightarrow> c \<and> n = 4"
    "bit (if c then 0x08 else (0::u8)) n \<longleftrightarrow> c \<and> n = 3" "bit (if c then 0x04 else (0::u8)) n \<longleftrightarrow> c \<and> n = 2"
    "bit (if c then 0x02 else (0::u8)) n \<longleftrightarrow> c \<and> n = 1" "bit (if c then 0x01 else (0::u8)) n \<longleftrightarrow> c \<and> n = 0"
    if "n < 8" for c n
    using that by (elim less_8E; simp)+
  fix n assume "n < LENGTH(8)"
  then have n: "n < 8" by simp
  then show "bit ?b n = bit i n"
    unfolding bit_or_iff p[OF n] by (elim less_8E) simp_all
qed

lemma ecc_byte_pos_pattern: "ecc_byte_pos (row_pattern i) (row_pattern (drop_bit 4 i)) = i"
proof -
  have a: "4 + 3 = (7::nat)" "4 + 2 = (6::nat)" "4 + 1 = (5::nat)" "4 + 0 = (4::nat)" by simp_all
  show ?thesis
    by (simp only: ecc_byte_pos_def row_pattern_bits bit_drop_bit_eq comp_def not_not a byte_of_bits)
qed

lemma row_pattern_even: "\<not> bit (col_of (row_pattern i)) 0"
  by (cases "bit i 0"; cases "bit i 1"; cases "bit i 2"; cases "bit i 3")
    (simp_all add: row_pattern_def line_of_def line'_of_def col_of_def bit_simps)

lemma col_pattern_odd: "k < 8 \<Longrightarrow> bit (col_of (col_pattern k)) 0"
  by (erule less_8E) (simp_all add: col_pattern_def col_of_def)

lemma row_pattern_inj: "row_pattern i = row_pattern j \<Longrightarrow> row_pattern (drop_bit 4 i) = row_pattern (drop_bit 4 j) \<Longrightarrow> i = j"
  by (metis ecc_byte_pos_pattern)

lemma col_pattern_inj: "col_pattern k = col_pattern l \<Longrightarrow> k < 8 \<Longrightarrow> l < 8 \<Longrightarrow> k = l"
  by (metis ecc_bit_pos_pattern)

section \<open>Correction of a chunk\<close>

lemma chunk_flip:
  assumes "length data = n" "n \<le> 256" "i < n" "k < 8"
  obtains e0 e1 e2 where
    "uffs_EccMakeChunk256 data (word_of_nat n) = [e0, e1, e2]"
    "uffs_EccMakeChunk256 (flip_bit data i k) (word_of_nat n) =
       [e0 XOR row_pattern (word_of_nat i), e1 XOR row_pattern (drop_bit 4 (word_of_nat i)), e2 XOR col_pattern k]"
proof -
  have n: "unat (word_of_nat n :: u16) = n"
    using assms(2) by (simp add: unat_of_nat)
  have u: "ucast (0 + word_of_nat i :: u16) = (word_of_nat i :: u8)"
    by (simp add: ucast_of_nat_u16)
  have nn: "ucast (NOT (0 + word_of_nat i :: u16)) = NOT (word_of_nat i :: u8)"
    by (simp add: ucast_not_u16 ucast_of_nat_u16)
  obtain e0 e1 e2 where e: "chunk_code (col_sum data) (line_sum data 0) (line'_sum data 0) = [e0, e1, e2]"
    by (simp add: chunk_code_def)
  have "uffs_EccMakeChunk256 data (word_of_nat n) = [e0, e1, e2]"
    using assms(1) by (simp add: uffs_EccMakeChunk256_eq n e)
  moreover have "uffs_EccMakeChunk256 (flip_bit data i k) (word_of_nat n) =
      chunk_code (col_sum data XOR col_of (2 ^ k)) (line_sum data 0 XOR word_of_nat i)
        (line'_sum data 0 XOR NOT (word_of_nat i))"
    using assms by (simp only: uffs_EccMakeChunk256_eq n Let_def length_flip_bit take_all_iff
        col_sum_flip line_sum_flip line'_sum_flip u nn order_refl take_all)
  ultimately show thesis
    using that by (simp only: chunk_code_xor e list.case col_pattern_def)
qed

lemma xor_cancel: "x XOR (x XOR y) = y" "(x XOR y) XOR x = y" for x y :: "'a::len word"
  by (simp_all add: xor.assoc[symmetric] xor.commute[of _ x])

lemma or_eq_0_iff_word: "x OR y = 0 \<longleftrightarrow> x = 0 \<and> y = 0" for x y :: "'a::len word"
  by (rule or_eq_0_iff)

lemma pairs_nonzero: "(d XOR drop_bit 1 d) AND 0x54 = 0x54 \<Longrightarrow> d \<noteq> 0" for d :: u8
  by auto

lemma chunk_single_bit:
  assumes "length data = n" "n \<le> 256" "i < n" "k < 8"
  shows "uffs_EccCorrectChunk256 (flip_bit data i k)
           (uffs_EccMakeChunk256 data (word_of_nat n))
           (uffs_EccMakeChunk256 (flip_bit data i k) (word_of_nat n)) (int n) = (1, data)"
proof -
  obtain e0 e1 e2 where e:
    "uffs_EccMakeChunk256 data (word_of_nat n) = [e0, e1, e2]"
    "uffs_EccMakeChunk256 (flip_bit data i k) (word_of_nat n) =
       [e0 XOR row_pattern (word_of_nat i), e1 XOR row_pattern (drop_bit 4 (word_of_nat i)), e2 XOR col_pattern k]"
    by (rule chunk_flip[OF assms])
  have i: "unat (word_of_nat i :: u8) = i" "uint (word_of_nat i :: u8) = int i"
    using assms(2,3) by (simp_all add: unat_of_nat uint_nat)
  have c: "col_pattern k \<noteq> 0" using col_pattern_pairs[OF assms(4)] by (rule pairs_nonzero)
  have f: "(flip_bit data i k)[i := flip_bit data i k ! i XOR push_bit k 1] = data"
    using flip_bit_flip_bit[of data i k] by (simp add: flip_bit_def push_bit_eq_mult)
  show ?thesis
    unfolding uffs_EccCorrectChunk256_def e
    using c assms(3,4) f
    by (simp add: Let_def xor_cancel or_eq_0_iff_word row_pattern_pairs[unfolded One_nat_def]
        col_pattern_pairs[unfolded One_nat_def] ecc_byte_pos_pattern ecc_bit_pos_pattern i
        del: push_bit_of_1)
qed

text \<open>One flipped bit anywhere in a chunk of at most 256 bytes is found and repaired.\<close>

theorem chunk_corrects_single_bit:
  assumes "length data = n" "n \<le> 256" "i < n" "k < 8"
  shows "uffs_EccCorrectChunk256 (flip_bit data i k)
           (uffs_EccMakeChunk256 data (word_of_nat n))
           (uffs_EccMakeChunk256 (flip_bit data i k) (word_of_nat n)) (int n) = (1, data)"
  using assms by (rule chunk_single_bit)

theorem chunk_corrects_single_bit_witness:
  "uffs_EccCorrectChunk256 (flip_bit [0x12, 0x34, 0x56] 1 5)
     (uffs_EccMakeChunk256 [0x12, 0x34, 0x56] (word_of_nat 3))
     (uffs_EccMakeChunk256 (flip_bit [0x12, 0x34, 0x56] 1 5) (word_of_nat 3)) (int 3)
   = (1, [0x12, 0x34, 0x56])"
  by (rule chunk_corrects_single_bit) simp_all

text \<open>C34. Two flipped bits of a chunk are reported and nothing is changed.\<close>

theorem chunk_detects_double_bit:
  assumes "length data = n" "n \<le> 256" "i < n" "j < n" "k < 8" "l < 8" "(i, k) \<noteq> (j, l)"
  defines "bad \<equiv> flip_bit (flip_bit data i k) j l"
  shows "uffs_EccCorrectChunk256 bad (uffs_EccMakeChunk256 data (word_of_nat n))
           (uffs_EccMakeChunk256 bad (word_of_nat n)) (int n) = (- 1, bad)"
proof -
  obtain e0 e1 e2 where e:
    "uffs_EccMakeChunk256 data (word_of_nat n) = [e0, e1, e2]"
    "uffs_EccMakeChunk256 (flip_bit data i k) (word_of_nat n) =
       [e0 XOR row_pattern (word_of_nat i), e1 XOR row_pattern (drop_bit 4 (word_of_nat i)), e2 XOR col_pattern k]"
    by (rule chunk_flip[OF assms(1,2,3,5)])
  obtain f0 f1 f2 where f:
    "uffs_EccMakeChunk256 (flip_bit data i k) (word_of_nat n) = [f0, f1, f2]"
    "uffs_EccMakeChunk256 bad (word_of_nat n) =
       [f0 XOR row_pattern (word_of_nat j), f1 XOR row_pattern (drop_bit 4 (word_of_nat j)), f2 XOR col_pattern l]"
    using chunk_flip[of "flip_bit data i k" n j l] assms by auto
  define d0 where "d0 = row_pattern (word_of_nat i) XOR row_pattern (word_of_nat j)"
  define d1 where "d1 = row_pattern (drop_bit 4 (word_of_nat i)) XOR row_pattern (drop_bit 4 (word_of_nat j))"
  define d2 where "d2 = col_pattern k XOR col_pattern l"
  have pairs: "(d0 XOR drop_bit 1 d0) AND 0x55 = 0"
  proof -
    have "(d0 XOR drop_bit 1 d0) AND 0x55 =
        ((row_pattern (word_of_nat i) XOR drop_bit 1 (row_pattern (word_of_nat i))) AND 0x55) XOR
        ((row_pattern (word_of_nat j) XOR drop_bit 1 (row_pattern (word_of_nat j))) AND 0x55)"
      unfolding d0_def by (rule bit_word_eqI) (auto simp: bit_simps)
    then show ?thesis by (simp only: row_pattern_pairs xor_self_eq)
  qed
  have parity: "even (unat (bits_tbl ! unat d0))" "even (unat (bits_tbl ! unat d1))"
    "even (unat (bits_tbl ! unat d2))"
    using row_pattern_even col_pattern_odd[OF assms(5)] col_pattern_odd[OF assms(6)]
    by (simp_all add: d0_def d1_def d2_def col_of_xor bit_xor_iff bits_parity_even)
  have one: "uint (bits_tbl ! unat d0) + uint (bits_tbl ! unat d1) + uint (bits_tbl ! unat d2) \<noteq> 1"
    using parity unfolding uint_nat by presburger
  have "d0 OR d1 OR d2 \<noteq> 0"
  proof
    assume "d0 OR d1 OR d2 = 0"
    then have z: "d0 = 0" "d1 = 0" "d2 = 0" by (simp_all add: or_eq_0_iff_word)
    have "(word_of_nat i :: u8) = word_of_nat j"
      by (rule row_pattern_inj[OF xor_zero_eq[OF z(1)[unfolded d0_def]] xor_zero_eq[OF z(2)[unfolded d1_def]]])
    then have "unat (word_of_nat i :: u8) = unat (word_of_nat j :: u8)" by simp
    then have "i = j" using assms(2,3,4) by (simp add: unat_of_nat)
    moreover have "k = l"
      by (rule col_pattern_inj[OF xor_zero_eq[OF z(3)[unfolded d2_def]] assms(5,6)])
    ultimately show False using assms(7) by simp
  qed
  moreover have "uffs_EccMakeChunk256 bad (word_of_nat n) = [e0 XOR d0, e1 XOR d1, e2 XOR d2]"
    using e(2) f by (simp add: d0_def d1_def d2_def xor.assoc)
  ultimately show ?thesis
    using pairs one by (simp add: uffs_EccCorrectChunk256_def e(1) xor_cancel Let_def)
qed

theorem chunk_detects_double_bit_witness:
  "uffs_EccCorrectChunk256 (flip_bit (flip_bit [0x12, 0x34, 0x56] 1 5) 2 0)
     (uffs_EccMakeChunk256 [0x12, 0x34, 0x56] (word_of_nat 3))
     (uffs_EccMakeChunk256 (flip_bit (flip_bit [0x12, 0x34, 0x56] 1 5) 2 0) (word_of_nat 3)) (int 3)
   = (- 1, flip_bit (flip_bit [0x12, 0x34, 0x56] 1 5) 2 0)"
  by (rule chunk_detects_double_bit) simp_all

lemma code_bit_pattern:
  assumes "q < (8::nat)"
  shows "(2 ^ q XOR drop_bit 1 (2 ^ q)) AND 0x55 \<noteq> (0x55::u8)"
    and "(2 ^ q XOR drop_bit 1 (2 ^ q)) AND 0x54 \<noteq> (0x54::u8)"
    and "(2::u8) ^ q \<noteq> 0" and "uint (bits_tbl ! unat ((2::u8) ^ q)) = 1"
  using assms by (elim less_8E; simp add: bits_tbl_def)+

text \<open>A flipped bit of the stored code itself is recognised: the data is left alone.\<close>

theorem chunk_tolerates_code_bit:
  assumes "length code = 3" "m < 3" "q < 8"
  shows "uffs_EccCorrectChunk256 data (flip_bit code m q) code errtop = (1, data)"
proof -
  obtain a b c where code: "code = [a, b, c]"
    using assms(1) by (auto simp: numeral_3_eq_3 length_Suc_conv)
  consider "m = 0" | "m = 1" | "m = 2" using assms(2) by linarith
  then show ?thesis
    using code_bit_pattern[OF assms(3)]
    by cases (simp_all add: uffs_EccCorrectChunk256_def code flip_bit_def xor_cancel Let_def bits_tbl_def)
qed

theorem chunk_tolerates_code_bit_witness:
  "uffs_EccCorrectChunk256 [0x12] (flip_bit [0xff, 0xff, 0x3b] 2 4) [0xff, 0xff, 0x3b] 1 = (1, [0x12])"
  by (rule chunk_tolerates_code_bit) simp_all

lemma chunk_clean: "uffs_EccCorrectChunk256 data code code errtop = (0, data)"
  by (simp add: uffs_EccCorrectChunk256_def)

lemma chunk_local:
  assumes "length r = 3" "length t = 3" "errtop \<le> int (length b)"
  shows "uffs_EccCorrectChunk256 (b @ x) (r @ r') (t @ t') errtop =
           map_prod id (\<lambda>b'. b' @ x) (uffs_EccCorrectChunk256 b r t errtop)"
proof -
  define d0 where "d0 = r ! 0 XOR t ! 0"
  define d1 where "d1 = r ! 1 XOR t ! 1"
  define d2 where "d2 = r ! 2 XOR t ! 2"
  define pos where "pos = ecc_byte_pos d0 d1"
  have n: "(r @ r') ! 0 = r ! 0" "(r @ r') ! 1 = r ! 1" "(r @ r') ! 2 = r ! 2"
    "(t @ t') ! 0 = t ! 0" "(t @ t') ! 1 = t ! 1" "(t @ t') ! 2 = t ! 2"
    by (simp_all only: nth_append assms(1,2)) simp_all
  have p: "unat pos < length b" if "\<not> uint pos \<ge> errtop"
  proof -
    have "int (unat pos) < int (length b)" using that assms(3) unfolding uint_nat by linarith
    then show ?thesis by (simp only: of_nat_less_iff)
  qed
  show ?thesis
    unfolding uffs_EccCorrectChunk256_def n d0_def[symmetric] d1_def[symmetric] d2_def[symmetric]
      Let_def pos_def[symmetric]
    by (cases "uint pos \<ge> errtop") (simp_all add: p nth_append list_update_append)
qed

section \<open>Correction of a page\<close>

text \<open>\<open>page_error d b m\<close>: the page \<open>b\<close> is the page \<open>d\<close> with at most one flipped bit in each of
  its 256-byte chunks, and \<open>m\<close> chunks are damaged.\<close>

inductive chunk_error :: "u8 list \<Rightarrow> u8 list \<Rightarrow> nat \<Rightarrow> bool" where
  chunk_intact: "chunk_error d d 0"
| chunk_flipped: "i < length d \<Longrightarrow> k < 8 \<Longrightarrow> chunk_error d (flip_bit d i k) 1"

inductive page_error :: "u8 list \<Rightarrow> u8 list \<Rightarrow> nat \<Rightarrow> bool" where
  page_end: "page_error [] [] 0"
| page_chunk: "chunk_error d b e \<Longrightarrow> d \<noteq> [] \<Longrightarrow> length d \<le> 256 \<Longrightarrow> rest = [] \<or> length d = 256 \<Longrightarrow>
     page_error rest brest m \<Longrightarrow> page_error (d @ rest) (b @ brest) (e + m)"

lemma chunk_error_length: "chunk_error d b e \<Longrightarrow> length b = length d"
  by (induction rule: chunk_error.induct) simp_all

lemma page_error_length: "page_error d b m \<Longrightarrow> length b = length d"
  by (induction rule: page_error.induct) (simp_all add: chunk_error_length)

lemma length_EccMakeChunk256 [simp]: "length (uffs_EccMakeChunk256 d n) = 3"
  by (simp add: uffs_EccMakeChunk256_eq chunk_code_def Let_def)

lemma chunk_error_corrected:
  "chunk_error d b e \<Longrightarrow> length d \<le> 256 \<Longrightarrow>
   uffs_EccCorrectChunk256 b (uffs_EccMakeChunk256 d (word_of_nat (length d)))
     (uffs_EccMakeChunk256 b (word_of_nat (length d))) (int (length d)) = (int e, d)"
  by (induction rule: chunk_error.induct)
    (auto simp: chunk_clean dest: chunk_single_bit[OF refl])

lemma page_step:
  assumes "d \<noteq> []" "length d \<le> 256" "rest = [] \<or> length d = 256"
  shows "(if int (length (d @ rest)) > 256 then 256 else int (length (d @ rest))) = int (length d)"
    and "int (length (d @ rest)) > 0"
    and "int (length (d @ rest)) - int (length d) = int (length rest)"
  using assms by auto

lemma EccMake_loop_step:
  "(if n > 256 then 256 else n) = len \<Longrightarrow> n > 0 \<Longrightarrow>
   EccMake_loop p n = uffs_EccMakeChunk256 p (word_of_int len) @ EccMake_loop (drop (nat len) p) (n - len)"
  by (subst EccMake_loop.simps) (simp add: Let_def)

lemma EccCorrect_loop_step:
  "(if n > 256 then 256 else n) = len \<Longrightarrow> n > 0 \<Longrightarrow>
   uffs_EccCorrectChunk256 p r t len = (ret, p') \<Longrightarrow> ret \<ge> 0 \<Longrightarrow>
   EccCorrect_loop (drop (nat len) p') (n - len) (drop 3 r) (drop 3 t) (tot + ret) = (tot', rest) \<Longrightarrow>
   EccCorrect_loop p n r t tot = (tot', take (nat len) p' @ rest)"
  by (subst EccCorrect_loop.simps) (simp add: Let_def)

lemma EccMake_loop_chunk:
  assumes "d \<noteq> []" "length d \<le> 256" "rest = [] \<or> length d = 256"
  shows "EccMake_loop (d @ rest) (int (length (d @ rest)))
     = uffs_EccMakeChunk256 d (word_of_nat (length d)) @ EccMake_loop rest (int (length rest))"
proof -
  have n: "unat (word_of_nat (length d) :: u16) = length d"
    using assms(2) by (simp add: unat_of_nat)
  have c: "uffs_EccMakeChunk256 (d @ rest) (word_of_nat (length d))
      = uffs_EccMakeChunk256 d (word_of_nat (length d))"
    by (simp add: uffs_EccMakeChunk256_eq n)
  show ?thesis
    using EccMake_loop_step[OF page_step(1,2)[OF assms], of "d @ rest"]
    unfolding page_step(3)[OF assms] by (simp add: c)
qed

lemma EccCorrect_loop_page:
  assumes "page_error d b m"
  shows "EccCorrect_loop b (int (length b)) (EccMake_loop d (int (length d)) @ x)
           (EccMake_loop b (int (length b)) @ y) tot = (tot + int m, d)"
  using assms
proof (induction arbitrary: tot rule: page_error.induct)
  case page_end
  then show ?case by (simp add: EccCorrect_loop.simps)
next
  case (page_chunk d b e rest brest m)
  have l: "length b = length d" using page_chunk.hyps(1) by (rule chunk_error_length)
  have lr: "length brest = length rest" using page_chunk.hyps(5) by (rule page_error_length)
  have c: "uffs_EccCorrectChunk256 (b @ brest)
      (uffs_EccMakeChunk256 d (word_of_nat (length d)) @ r)
      (uffs_EccMakeChunk256 b (word_of_nat (length d)) @ t) (int (length d)) = (int e, d @ brest)" for r t
  proof -
    have "uffs_EccCorrectChunk256 b (uffs_EccMakeChunk256 d (word_of_nat (length d)))
      (uffs_EccMakeChunk256 b (word_of_nat (length d))) (int (length d)) = (int e, d)"
      by (rule chunk_error_corrected[OF page_chunk.hyps(1,3)])
    then show ?thesis by (simp add: chunk_local l)
  qed
  have b: "b \<noteq> []" "length b \<le> 256" "brest = [] \<or> length b = 256"
    using page_chunk.hyps l lr by auto
  have "EccCorrect_loop (b @ brest) (int (length (b @ brest)))
      (uffs_EccMakeChunk256 d (word_of_nat (length d)) @ EccMake_loop rest (int (length rest)) @ x)
      (uffs_EccMakeChunk256 b (word_of_nat (length b)) @ EccMake_loop brest (int (length brest)) @ y) tot
    = (tot + int e + int m, take (nat (int (length b))) (d @ brest) @ rest)"
  proof (rule EccCorrect_loop_step[OF page_step(1,2)[OF b]])
    show "EccCorrect_loop (drop (nat (int (length b))) (d @ brest))
        (int (length (b @ brest)) - int (length b))
        (drop 3 (uffs_EccMakeChunk256 d (word_of_nat (length d)) @ EccMake_loop rest (int (length rest)) @ x))
        (drop 3 (uffs_EccMakeChunk256 b (word_of_nat (length b)) @ EccMake_loop brest (int (length brest)) @ y))
        (tot + int e) = (tot + int e + int m, rest)"
      unfolding page_step(3)[OF b] using page_chunk.IH[of "tot + int e"] by (simp add: l)
  qed (simp_all add: l c)
  then show ?case
    unfolding EccMake_loop_chunk[OF page_chunk.hyps(2,3,4)] EccMake_loop_chunk[OF b] append_assoc
    by (simp add: l add.assoc)
qed

text \<open>C33. A page whose 256-byte chunks are each hit by at most one flipped bit is restored
  exactly, and the result is the number of repaired chunks.\<close>

theorem EccCorrect_restores_page:
  assumes "page_error data bad m"
  shows "uffs_EccCorrect (Some bad) (int (length bad))
           (snd (uffs_EccMake (Some data) (int (length data)) (Some ecc1)))
           (snd (uffs_EccMake (Some bad) (int (length bad)) (Some ecc2))) = (int m, Some data)"
  using EccCorrect_loop_page[OF assms(1)] by (simp add: uffs_EccCorrect_def uffs_EccMake_def Let_def)

theorem EccCorrect_restores_page_witness:
  "uffs_EccCorrect (Some (flip_bit [1, 2, 3] 2 7)) (int (length (flip_bit [1, 2, 3] 2 7)))
     (snd (uffs_EccMake (Some [1, 2, 3]) (int (length [1, 2, 3 :: u8])) (Some (replicate 9 0))))
     (snd (uffs_EccMake (Some (flip_bit [1, 2, 3] 2 7)) (int (length (flip_bit [1, 2, 3] 2 7)))
       (Some (replicate 9 0)))) = (int 1, Some [1, 2, 3])"
proof (rule EccCorrect_restores_page)
  have "page_error ([1, 2, 3] @ []) (flip_bit [1, 2, 3] 2 7 @ []) (1 + 0)"
    by (intro page_chunk chunk_flipped page_end) simp_all
  then show "page_error [1, 2, 3] (flip_bit [1, 2, 3] 2 7) 1" by simp
qed

section \<open>Correction of a tag\<close>

text \<open>The 12-bit code is six row bits and six column bits.\<close>

definition tag_code :: "u8 \<Rightarrow> u8 \<Rightarrow> u8 \<Rightarrow> u16" where
  "tag_code c l m = (push_bit 6 (NOT (ucast (line_of l XOR line'_of m))) OR
                     (drop_bit 2 (NOT (ucast c)) AND 0x3f)) AND 0xfff"

lemma uffs_EccMake8_eq:
  "uffs_EccMake8 data data_len =
     (let ps = take (nat (if data_len > 8 then 8 else data_len)) data
      in tag_code (col_sum ps) (line_sum ps 0) (line'_sum ps 0))"
  using ecc8_lines_eq[where i = 0]
  by (simp add: uffs_EccMake8_def ecc_lines_eq tag_code_def and_0xf line_parity_eq
      unat_low_nibble line_or Let_def)

lemma masks: "(0x3f::'a::len word) = mask 6" "(0xfff::'a::len word) = mask 12"
  by (simp_all add: mask_eq_exp_minus_1)

lemma tag_code_rows:
  "(ucast (drop_bit 6 (tag_code c l m AND 0xfff) XOR drop_bit 6 (tag_code c' l' m' AND 0xfff)) :: u8)
   = ((line_of l XOR line'_of m) XOR (line_of l' XOR line'_of m')) AND 0x3f"
  unfolding tag_code_def masks
  by (rule bit_word_eqI) (auto simp: bit_simps dest: bit_imp_le_length)

lemma tag_code_cols:
  "(ucast (((tag_code c l m AND 0xfff) AND 0x3f) XOR ((tag_code c' l' m' AND 0xfff) AND 0x3f)) :: u8)
   = drop_bit 2 (c XOR c')"
  unfolding tag_code_def masks
  by (rule bit_word_eqI) (auto simp: bit_simps dest: bit_imp_le_length)

definition tag_row_pattern :: "nat \<Rightarrow> u8" where
  "tag_row_pattern i = row_pattern (word_of_nat i) AND 0x3f"

definition tag_col_pattern :: "nat \<Rightarrow> u8" where
  "tag_col_pattern k = drop_bit 2 (col_of (2 ^ k))"

lemma tag_patterns:
  assumes "i < 8"
  shows "(tag_row_pattern i XOR drop_bit 1 (tag_row_pattern i)) AND 0x15 = 0x15"
    and "(tag_col_pattern i XOR drop_bit 1 (tag_col_pattern i)) AND 0x15 = 0x15"
    and "unat (ecc8_byte_pos (tag_row_pattern i)) = i"
    and "unat (ecc8_byte_pos (tag_col_pattern i)) = i"
  using assms
  by (elim less_8E; simp add: tag_row_pattern_def tag_col_pattern_def row_pattern_def line_of_def
      line'_of_def col_of_def ecc8_byte_pos_def)+

lemma tag_flip:
  assumes "length data \<le> 8" "i < length data" "k < 8"
  obtains c l m where
    "uffs_EccMake8 data (int (length data)) = tag_code c l m"
    "uffs_EccMake8 (flip_bit data i k) (int (length data)) =
       tag_code (c XOR col_of (2 ^ k)) (l XOR word_of_nat i) (m XOR NOT (word_of_nat i))"
proof -
  have n: "nat (if int (length data) > 8 then 8 else int (length data)) = length data"
    using assms(1) by simp
  show thesis
    using that[of "col_sum data" "line_sum data 0" "line'_sum data 0"] assms
    by (simp add: uffs_EccMake8_eq n col_sum_flip line_sum_flip line'_sum_flip ucast_of_nat_u16
        ucast_not_u16)
qed

lemma xor_swap: "x XOR (y XOR (x XOR z)) = y XOR z" for x y z :: "'a::len word"
  by (metis xor.assoc xor.commute xor_cancel(1))

lemma tag_deltas:
  assumes "uffs_EccMake8 data (int (length data)) = tag_code c l m"
    "uffs_EccMake8 bad (int (length data)) =
       tag_code (c XOR col_of (2 ^ k)) (l XOR word_of_nat i) (m XOR NOT (word_of_nat i))"
  shows "(ucast (drop_bit 6 (uffs_EccMake8 bad (int (length data)) AND 0xfff) XOR
            drop_bit 6 (uffs_EccMake8 data (int (length data)) AND 0xfff)) :: u8) = tag_row_pattern i"
    and "(ucast (((uffs_EccMake8 bad (int (length data)) AND 0xfff) AND 0x3f) XOR
            ((uffs_EccMake8 data (int (length data)) AND 0xfff) AND 0x3f)) :: u8) = tag_col_pattern k"
  unfolding assms tag_code_rows tag_code_cols
  by (simp_all only: tag_row_pattern_def tag_col_pattern_def row_pattern_def line_of_xor line'_of_xor
      xor_cancel xor_ac xor_left_cancel xor_self_eq xor.right_neutral xor_swap)

lemma EccCorrect8_flip:
  assumes "length data \<le> 8" "i < length data" "k < 8"
  shows "uffs_EccCorrect8 (flip_bit data i k) (uffs_EccMake8 (flip_bit data i k) (int (length data)))
           (uffs_EccMake8 data (int (length data))) (int (length data)) = (1, data)"
proof -
  obtain c l m where e:
    "uffs_EccMake8 data (int (length data)) = tag_code c l m"
    "uffs_EccMake8 (flip_bit data i k) (int (length data)) =
       tag_code (c XOR col_of (2 ^ k)) (l XOR word_of_nat i) (m XOR NOT (word_of_nat i))"
    by (rule tag_flip[OF assms])
  have i8: "i < 8" using assms by simp
  have nz: "tag_row_pattern i \<noteq> 0" using tag_patterns(1)[OF i8] by auto
  have f: "(flip_bit data i k)[i := flip_bit data i k ! i XOR push_bit k 1] = data"
    using flip_bit_flip_bit[of data i k] by (simp add: flip_bit_def push_bit_eq_mult)
  have p: "\<not> ecc8_byte_pos (tag_row_pattern i) \<ge> word_of_int (int (length data))"
    using assms tag_patterns(3)[OF i8] by (simp add: word_le_nat_alt unat_of_nat)
  have b: "\<not> ecc8_byte_pos (tag_col_pattern k) \<ge> 8"
    using assms(3) tag_patterns(4)[OF assms(3)] by (simp add: word_le_nat_alt)
  show ?thesis
    unfolding uffs_EccCorrect8_def Let_def tag_deltas[OF e]
    using nz p b f
    by (simp add: or_eq_0_iff_word tag_patterns[OF i8, unfolded One_nat_def]
        tag_patterns[OF assms(3), unfolded One_nat_def] del: push_bit_of_1)
qed

text \<open>One flipped bit of the at most 8 tag bytes is found and repaired.\<close>

theorem EccCorrect8_single_bit:
  assumes "length data \<le> 8" "i < length data" "k < 8"
  shows "uffs_EccCorrect8 (flip_bit data i k) (uffs_EccMake8 (flip_bit data i k) (int (length data)))
           (uffs_EccMake8 data (int (length data))) (int (length data)) = (1, data)"
  using assms by (rule EccCorrect8_flip)

theorem EccCorrect8_single_bit_witness:
  "uffs_EccCorrect8 (flip_bit [1, 2, 3, 4, 5, 6, 7, 8] 6 3)
     (uffs_EccMake8 (flip_bit [1, 2, 3, 4, 5, 6, 7, 8] 6 3) (int (length [1, 2, 3, 4, 5, 6, 7, 8 :: u8])))
     (uffs_EccMake8 [1, 2, 3, 4, 5, 6, 7, 8] (int (length [1, 2, 3, 4, 5, 6, 7, 8 :: u8])))
     (int (length [1, 2, 3, 4, 5, 6, 7, 8 :: u8])) = (1, [1, 2, 3, 4, 5, 6, 7, 8])"
  by (rule EccCorrect8_single_bit) simp_all

lemma EccCorrect8_clean: "uffs_EccCorrect8 data code code errtop = (0, data)"
  by (simp add: uffs_EccCorrect8_def)

end
