(* ===== verification/Mem_Pool.thy ===== *)
theory Mem_Pool
  imports Uffs_Prelude
begin

text \<open>
  \<open>src/uffs/uffs_pool.c\<close>: fixed-size buffers cut from one memory block, with the free ones
  linked through their first word. Addresses are natural numbers, \<open>p_next\<close> is the link word
  of each free buffer, and the sizes keep the 32-bit arithmetic of the source. The pool
  argument is a reference to a static object and never null, so the assertions on it are
  left out; the other assertions are branches. \<open>uffs_Panic\<close> loops for ever, which is the value
  \<open>None\<close> of the operations that may reach it.
\<close>

section \<open>The code\<close>

record pool =
  p_mem :: nat
  p_buf_size :: u32
  p_num_bufs :: u32
  p_free_list :: "nat option"
  p_next :: "nat \<Rightarrow> nat option"
  p_sem :: bool

text \<open>\<open>sizeof(void *)\<close> on a 64-bit platform.\<close>

definition SIZEOF_PTR :: u32 where
  "SIZEOF_PTR = 8"

text \<open>The loop of \<open>uffs_PoolInit\<close>: \<open>e1\<close> is the last linked entry.\<close>

fun pool_link :: "nat \<Rightarrow> u32 \<Rightarrow> nat list \<Rightarrow> nat \<times> (nat \<Rightarrow> nat option) \<Rightarrow> nat \<times> (nat \<Rightarrow> nat option)" where
  "pool_link mem bsize [] (e1, nx) = (e1, nx)"
| "pool_link mem bsize (i # ks) (e1, nx) =
     (let e2 = mem + unat (word_of_nat i * bsize) in pool_link mem bsize ks (e2, nx(e1 := Some e2)))"

definition uffs_PoolInit ::
  "pool \<Rightarrow> nat option \<Rightarrow> u32 \<Rightarrow> u32 \<Rightarrow> u32 \<Rightarrow> bool \<Rightarrow> URET \<times> pool" where
  "uffs_PoolInit pool mem mem_size buf_size num_bufs lock =
     (case mem of None \<Rightarrow> (U_FAIL, pool)
      | Some m \<Rightarrow>
          if \<not> num_bufs > 0 \<or> buf_size mod SIZEOF_PTR \<noteq> 0 \<or> mem_size \<noteq> num_bufs * buf_size
          then (U_FAIL, pool)
          else let (e2, nx) = pool_link m buf_size [1..<unat num_bufs] (m, p_next pool)
               in (U_SUCC, \<lparr>p_mem = m, p_buf_size = buf_size, p_num_bufs = num_bufs,
                            p_free_list = Some m, p_next = nx(e2 := None), p_sem = lock\<rparr>))"

definition uffs_PoolVerify :: "pool \<Rightarrow> nat option \<Rightarrow> bool" where
  "uffs_PoolVerify pool p =
     (case p of None \<Rightarrow> False
      | Some a \<Rightarrow> a \<ge> p_mem pool \<and> a < p_mem pool + unat (p_buf_size pool * p_num_bufs pool) \<and>
                  (a - p_mem pool) mod unat (p_buf_size pool) = 0)"

definition uffs_PoolRelease :: "pool \<Rightarrow> URET \<times> pool" where
  "uffs_PoolRelease pool = (U_SUCC, if p_sem pool then pool\<lparr>p_sem := False\<rparr> else pool)"

definition uffs_PoolGet :: "pool \<Rightarrow> nat option \<times> pool" where
  "uffs_PoolGet pool =
     (case p_free_list pool of None \<Rightarrow> (None, pool)
      | Some e \<Rightarrow> (Some e, pool\<lparr>p_free_list := p_next pool e\<rparr>))"

definition uffs_PoolGetLocked :: "pool \<Rightarrow> nat option \<times> pool" where
  "uffs_PoolGetLocked pool =
     (if \<not> p_sem pool then (None, pool)
      else case p_free_list pool of None \<Rightarrow> (None, pool)
           | Some e \<Rightarrow> (Some e, pool\<lparr>p_free_list := p_next pool e\<rparr>))"

definition uffs_PoolPut :: "pool \<Rightarrow> nat option \<Rightarrow> int \<times> pool" where
  "uffs_PoolPut pool p =
     (case p of None \<Rightarrow> (- 1, pool)
      | Some e \<Rightarrow> (0, pool\<lparr>p_next := (p_next pool)(e := p_free_list pool), p_free_list := Some e\<rparr>))"

definition uffs_PoolPutLocked :: "pool \<Rightarrow> nat option \<Rightarrow> int \<times> pool" where
  "uffs_PoolPutLocked pool p =
     (if \<not> p_sem pool then (- 1, pool)
      else case p of None \<Rightarrow> (- 1, pool)
           | Some e \<Rightarrow> (0, pool\<lparr>p_next := (p_next pool)(e := p_free_list pool), p_free_list := Some e\<rparr>))"

definition uffs_PoolGetBufByIndex :: "pool \<Rightarrow> u32 \<Rightarrow> nat option" where
  "uffs_PoolGetBufByIndex pool index =
     (if index < p_num_bufs pool then Some (p_mem pool + unat (index * p_buf_size pool)) else None)"

text \<open>\<open>None\<close>: the pointer is outside the pool and the call panics.\<close>

definition uffs_PoolGetIndex :: "pool \<Rightarrow> nat \<Rightarrow> u32 option" where
  "uffs_PoolGetIndex pool p =
     (if p \<ge> p_mem pool \<and> p < p_mem pool + unat (p_num_bufs pool * p_buf_size pool)
      then Some (word_of_nat ((p - p_mem pool) div unat (p_buf_size pool))) else None)"

definition uffs_PoolCheckFreeList :: "pool \<Rightarrow> nat \<Rightarrow> bool option" where
  "uffs_PoolCheckFreeList pool p =
     map_option (\<lambda>r. r \<noteq> None) (chain_find (p_next pool) (\<lambda>e. e = p) (p_free_list pool))"

text \<open>The bit map of the free entries of a small pool.\<close>

partial_function (option) small_map :: "pool \<Rightarrow> nat option \<Rightarrow> u32 \<Rightarrow> u32 option" where
  "small_map pool e bmap =
     (case e of None \<Rightarrow> Some bmap
      | Some a \<Rightarrow> do {
          i \<leftarrow> uffs_PoolGetIndex pool a;
          small_map pool (p_next pool a) (bmap OR push_bit (unat i) 1)
        })"

function small_skip :: "pool \<Rightarrow> u32 \<Rightarrow> nat \<Rightarrow> nat" where
  "small_skip pool bmap i =
     (if bmap AND push_bit i 1 \<noteq> 0 \<and> i < 32 \<and> i < unat (p_num_bufs pool)
      then small_skip pool bmap (Suc i) else i)"
  by pat_completeness auto
termination
  by (relation "measure (\<lambda>(_, _, i). 32 - i)") auto

declare small_skip.simps [simp del]

definition FindNextAllocatedInSmallPool :: "pool \<Rightarrow> nat \<Rightarrow> nat option option" where
  "FindNextAllocatedInSmallPool pool from' = do {
     bmap \<leftarrow> small_map pool (p_free_list pool) 0;
     i0 \<leftarrow> uffs_PoolGetIndex pool from';
     let i = small_skip pool bmap (unat i0);
     Some (if i < 32 \<and> i < unat (p_num_bufs pool)
           then uffs_PoolGetBufByIndex pool (word_of_nat i) else None)
   }"

text \<open>The search of a large pool: while \<open>p\<close> is a buffer of the pool and in the free list,
  go on to the next buffer.\<close>

partial_function (option) large_skip :: "pool \<Rightarrow> nat \<Rightarrow> nat option" where
  "large_skip pool p =
     (if uffs_PoolVerify pool (Some p)
      then do {
        e \<leftarrow> chain_find (p_next pool) (\<lambda>e. p = e) (p_free_list pool);
        (if e = None then Some p else large_skip pool (p + unat (p_buf_size pool)))
      }
      else Some p)"

definition uffs_PoolFindNextAllocated :: "pool \<Rightarrow> nat option \<Rightarrow> nat option option" where
  "uffs_PoolFindNextAllocated pool from' =
     (let p = (case from' of None \<Rightarrow> p_mem pool | Some f \<Rightarrow> f + unat (p_buf_size pool))
      in if p_num_bufs pool < 32 then FindNextAllocatedInSmallPool pool p
         else do {
           p \<leftarrow> (if p_free_list pool \<noteq> None then large_skip pool p else Some p);
           Some (if uffs_PoolVerify pool (Some p) then Some p else None)
         })"

definition uffs_PoolGetFreeCount :: "pool \<Rightarrow> int option" where
  "uffs_PoolGetFreeCount pool = chain_fold (p_next pool) (\<lambda>_ count. count + 1) (p_free_list pool) 0"

partial_function (option) PoolPutAll_loop :: "pool \<Rightarrow> nat option \<Rightarrow> int \<Rightarrow> (int \<times> pool) option" where
  "PoolPutAll_loop pool p count = do {
     p' \<leftarrow> uffs_PoolFindNextAllocated pool p;
     (case p' of None \<Rightarrow> Some (count, pool)
      | Some a \<Rightarrow> PoolPutAll_loop (snd (uffs_PoolPut pool (Some a))) (Some a) (count + 1))
   }"

definition uffs_PoolPutAll :: "pool \<Rightarrow> (int \<times> pool) option" where
  "uffs_PoolPutAll pool = PoolPutAll_loop pool None 0"

section \<open>The interface of an allocator\<close>

text \<open>What the clients of a pool rely on: \<open>get\<close> hands out a free buffer while there is one,
  \<open>put\<close> takes back a buffer that is not free, and both keep the invariant and the buffers.\<close>

locale allocator =
  fixes get :: "'s \<Rightarrow> 'p option \<times> 's"
    and put :: "'s \<Rightarrow> 'p \<Rightarrow> 's"
    and invar :: "'s \<Rightarrow> bool"
    and free :: "'s \<Rightarrow> 'p set"
    and slots :: "'s \<Rightarrow> 'p set"
  assumes get_None: "invar s \<Longrightarrow> get s = (None, s') \<Longrightarrow> s' = s \<and> free s = {}"
    and get_Some: "invar s \<Longrightarrow> get s = (Some p, s') \<Longrightarrow>
           p \<in> free s \<and> free s' = free s - {p} \<and> slots s' = slots s \<and> invar s'"
    and put_slot: "invar s \<Longrightarrow> p \<in> slots s \<Longrightarrow> p \<notin> free s \<Longrightarrow>
           free (put s p) = insert p (free s) \<and> slots (put s p) = slots s \<and> invar (put s p)"
    and free_slots: "invar s \<Longrightarrow> free s \<subseteq> slots s"
begin

lemma get_put_restores:
  assumes "invar s" "get s = (Some p, s')"
  shows "invar (put s' p)" "free (put s' p) = free s" "slots (put s' p) = slots s"
proof -
  have g: "p \<in> free s" "free s' = free s - {p}" "slots s' = slots s" "invar s'"
    using get_Some[OF assms] by auto
  moreover have "p \<in> slots s'" using g free_slots[OF assms(1)] by auto
  ultimately show "invar (put s' p)" "free (put s' p) = free s" "slots (put s' p) = slots s"
    using put_slot[of s' p] by auto
qed

lemma get_succeeds: "invar s \<Longrightarrow> free s \<noteq> {} \<Longrightarrow> \<exists>p s'. get s = (Some p, s')"
  using get_None[of s] by (cases "get s"; cases "fst (get s)") auto

lemma gets_differ:
  assumes "invar s" "get s = (Some p, s')" "get s' = (Some q, s'')"
  shows "p \<noteq> q"
  using get_Some[OF assms(1,2)] get_Some[OF _ assms(3)] by auto

end

section \<open>Well-formed pools\<close>

definition pool_geom :: "pool \<Rightarrow> bool" where
  "pool_geom P \<longleftrightarrow> 0 < unat (p_num_bufs P) \<and> 0 < unat (p_buf_size P) \<and>
     unat (p_num_bufs P) * unat (p_buf_size P) < 2 ^ 32"

definition slot_addr :: "pool \<Rightarrow> nat \<Rightarrow> nat" where
  "slot_addr P i = p_mem P + i * unat (p_buf_size P)"

definition pool_slots :: "pool \<Rightarrow> nat set" where
  "pool_slots P = slot_addr P ` {..<unat (p_num_bufs P)}"

definition pool_inv :: "pool \<Rightarrow> nat list \<Rightarrow> bool" where
  "pool_inv P xs \<longleftrightarrow> pool_geom P \<and> chain (p_next P) (p_free_list P) xs \<and> set xs \<subseteq> pool_slots P"

definition pool_ok :: "pool \<Rightarrow> bool" where
  "pool_ok P \<longleftrightarrow> (\<exists>xs. pool_inv P xs)"

definition pool_free :: "pool \<Rightarrow> nat set" where
  "pool_free P = {p. \<exists>xs. chain (p_next P) (p_free_list P) xs \<and> p \<in> set xs}"

lemma pool_free_eq: "pool_inv P xs \<Longrightarrow> pool_free P = set xs"
  by (auto simp: pool_free_def pool_inv_def dest: chain_unique)

lemma unat_mult_small: "unat a * unat b < 2 ^ 32 \<Longrightarrow> unat (a * b) = unat a * unat b" for a b :: u32
  by (simp add: unat_word_ariths)

lemma pool_extent:
  assumes "pool_geom P"
  shows "unat (p_buf_size P * p_num_bufs P) = unat (p_num_bufs P) * unat (p_buf_size P)"
    and "unat (p_num_bufs P * p_buf_size P) = unat (p_num_bufs P) * unat (p_buf_size P)"
  using assms by (simp_all add: pool_geom_def unat_mult_small mult.commute)

lemma slot_offset:
  assumes "pool_geom P" "i < unat (p_num_bufs P)"
  shows "unat (word_of_nat i * p_buf_size P) = i * unat (p_buf_size P)"
proof -
  have "i < 4294967296" using assms(2) unat_u32_less[of "p_num_bufs P"] by linarith
  then have i: "unat (word_of_nat i :: u32) = i" by (rule unat_of_nat_u32)
  have "i * unat (p_buf_size P) < unat (p_num_bufs P) * unat (p_buf_size P)"
    using assms by (simp add: pool_geom_def)
  also have "\<dots> < 2 ^ 32" using assms(1) by (simp add: pool_geom_def)
  finally show ?thesis by (simp add: unat_mult_small i)
qed

lemma slot_inj: "pool_geom P \<Longrightarrow> slot_addr P i = slot_addr P j \<longleftrightarrow> i = j"
  by (simp add: slot_addr_def pool_geom_def)

lemma slot_in_slots: "pool_geom P \<Longrightarrow> slot_addr P i \<in> pool_slots P \<longleftrightarrow> i < unat (p_num_bufs P)"
  by (auto simp: pool_slots_def slot_inj)

lemma PoolVerify_slots:
  assumes "pool_geom P"
  shows "uffs_PoolVerify P (Some a) \<longleftrightarrow> a \<in> pool_slots P"
proof
  assume v: "uffs_PoolVerify P (Some a)"
  then have a: "a \<ge> p_mem P" "a - p_mem P < unat (p_num_bufs P) * unat (p_buf_size P)"
    "(a - p_mem P) mod unat (p_buf_size P) = 0"
    by (auto simp: uffs_PoolVerify_def pool_extent[OF assms])
  define i where "i = (a - p_mem P) div unat (p_buf_size P)"
  have i: "a - p_mem P = i * unat (p_buf_size P)" using a(3) unfolding i_def by auto
  with a(2) have "i < unat (p_num_bufs P)" using assms by (simp add: pool_geom_def)
  moreover have "a = slot_addr P i" using a(1) i by (simp add: slot_addr_def)
  ultimately show "a \<in> pool_slots P" by (auto simp: pool_slots_def)
next
  assume "a \<in> pool_slots P"
  then obtain i where i: "i < unat (p_num_bufs P)" and a: "a = slot_addr P i"
    by (auto simp: pool_slots_def)
  have "i * unat (p_buf_size P) < unat (p_num_bufs P) * unat (p_buf_size P)"
    using i assms by (simp add: pool_geom_def)
  then show "uffs_PoolVerify P (Some a)"
    by (simp add: uffs_PoolVerify_def pool_extent[OF assms] a slot_addr_def)
qed

text \<open>A pool of two 8-byte buffers, the instance of the witnesses.\<close>

definition pool2 :: pool where
  "pool2 = \<lparr>p_mem = 64, p_buf_size = 8, p_num_bufs = 2, p_free_list = Some 64,
            p_next = (\<lambda>_. None)(64 := Some 72), p_sem = False\<rparr>"

lemma pool2_geom: "pool_geom pool2"
  by (simp add: pool_geom_def pool2_def)

lemma pool2_slots: "pool_slots pool2 = {64, 72}"
proof -
  have "{..<2::nat} = {0, 1}" by auto
  then show ?thesis by (simp add: pool_slots_def slot_addr_def pool2_def)
qed

lemma pool2_inv: "pool_inv pool2 [64, 72]"
  by (simp add: pool_inv_def pool2_geom pool2_slots) (simp add: pool2_def)

text \<open>\<open>uffs_PoolVerify\<close> accepts exactly the addresses of the pool's buffers; a null pointer
  and every address inside, before or behind a buffer is refused.\<close>

theorem PoolVerify_iff:
  assumes "pool_geom P"
  shows "uffs_PoolVerify P p \<longleftrightarrow> p \<in> Some ` pool_slots P"
  using PoolVerify_slots[OF assms] by (cases p) (auto simp: uffs_PoolVerify_def)

theorem PoolVerify_iff_witness: "uffs_PoolVerify pool2 (Some 72) \<longleftrightarrow> Some 72 \<in> Some ` pool_slots pool2"
  using pool2_geom by (rule PoolVerify_iff)

lemma GetBufByIndex_slot:
  assumes "pool_geom P" "i < unat (p_num_bufs P)"
  shows "uffs_PoolGetBufByIndex P (word_of_nat i) = Some (slot_addr P i)"
proof -
  have "i < 4294967296" using assms(2) unat_u32_less[of "p_num_bufs P"] by linarith
  then have "(word_of_nat i :: u32) < p_num_bufs P"
    using assms(2) by (simp add: word_less_nat_alt unat_of_nat_u32)
  then show ?thesis by (simp add: uffs_PoolGetBufByIndex_def slot_offset[OF assms] slot_addr_def)
qed

lemma GetIndex_slot:
  assumes "pool_geom P"
  shows "uffs_PoolGetIndex P (slot_addr P i) = (if i < unat (p_num_bufs P) then Some (word_of_nat i) else None)"
proof -
  have "i * unat (p_buf_size P) < unat (p_num_bufs P) * unat (p_buf_size P) \<longleftrightarrow> i < unat (p_num_bufs P)"
    using assms by (simp add: pool_geom_def)
  then show ?thesis
    using assms by (simp add: uffs_PoolGetIndex_def pool_extent[OF assms] slot_addr_def pool_geom_def)
qed

text \<open>A buffer's index leads back to the buffer: \<open>FROM_IDX\<close> and \<open>TO_IDX\<close> are inverse.\<close>

theorem pool_index_roundtrip:
  assumes "pool_geom P" "a \<in> pool_slots P"
  shows "\<exists>i. uffs_PoolGetIndex P a = Some i \<and> uffs_PoolGetBufByIndex P i = Some a"
  using assms by (auto simp: pool_slots_def GetIndex_slot GetBufByIndex_slot)

theorem pool_index_roundtrip_witness:
  "\<exists>i. uffs_PoolGetIndex pool2 72 = Some i \<and> uffs_PoolGetBufByIndex pool2 i = Some 72"
  by (rule pool_index_roundtrip[OF pool2_geom]) (simp add: pool2_slots)

section \<open>Taking and returning buffers\<close>

lemma pool_slots_upd [simp]:
  "pool_slots (P\<lparr>p_free_list := f\<rparr>) = pool_slots P" "pool_slots (P\<lparr>p_next := g\<rparr>) = pool_slots P"
  "pool_geom (P\<lparr>p_free_list := f\<rparr>) = pool_geom P" "pool_geom (P\<lparr>p_next := g\<rparr>) = pool_geom P"
  by (simp_all add: pool_slots_def slot_addr_def[abs_def] pool_geom_def)

lemma PoolGet_eq:
  assumes "pool_inv P xs"
  shows "(xs = [] \<and> uffs_PoolGet P = (None, P)) \<or>
         (\<exists>p ys. xs = p # ys \<and> uffs_PoolGet P = (Some p, P\<lparr>p_free_list := p_next P p\<rparr>) \<and>
                pool_inv (P\<lparr>p_free_list := p_next P p\<rparr>) ys)"
  using assms by (cases xs) (auto simp: uffs_PoolGet_def pool_inv_def)

lemma PoolPut_eq:
  assumes "pool_inv P xs" "p \<in> pool_slots P" "p \<notin> set xs"
  shows "fst (uffs_PoolPut P (Some p)) = 0" "pool_inv (snd (uffs_PoolPut P (Some p))) (p # xs)"
  using assms by (auto simp: uffs_PoolPut_def pool_inv_def)

lemma PoolPut_slots [simp]: "pool_slots (snd (uffs_PoolPut P p)) = pool_slots P"
  by (simp add: uffs_PoolPut_def split: option.split)

interpretation pool_alloc: allocator uffs_PoolGet "\<lambda>P p. snd (uffs_PoolPut P (Some p))"
  pool_ok pool_free pool_slots
proof unfold_locales
  fix s s' assume "pool_ok s" "uffs_PoolGet s = (None, s')"
  then obtain xs where "pool_inv s xs" "uffs_PoolGet s = (None, s')" by (auto simp: pool_ok_def)
  then show "s' = s \<and> pool_free s = {}"
    using PoolGet_eq[of s xs] pool_free_eq[of s xs] by auto
next
  fix s s' p assume "pool_ok s" "uffs_PoolGet s = (Some p, s')"
  then obtain xs where xs: "pool_inv s xs" and g: "uffs_PoolGet s = (Some p, s')"
    by (auto simp: pool_ok_def)
  then obtain ys where y: "xs = p # ys" "s' = s\<lparr>p_free_list := p_next s p\<rparr>" "pool_inv s' ys"
    using PoolGet_eq[OF xs] by auto
  moreover have "distinct xs" using xs by (auto simp: pool_inv_def dest: chain_distinct)
  ultimately show "p \<in> pool_free s \<and> pool_free s' = pool_free s - {p} \<and> pool_slots s' = pool_slots s \<and> pool_ok s'"
    using pool_free_eq[OF xs] pool_free_eq[OF y(3)] by (auto simp: pool_ok_def)
next
  fix s p assume "pool_ok s" "p \<in> pool_slots s" "p \<notin> pool_free s"
  then obtain xs where xs: "pool_inv s xs" and p: "p \<in> pool_slots s" "p \<notin> set xs"
    by (auto simp: pool_ok_def pool_free_eq)
  note inv = PoolPut_eq(2)[OF xs p]
  then show "pool_free (snd (uffs_PoolPut s (Some p))) = insert p (pool_free s) \<and>
      pool_slots (snd (uffs_PoolPut s (Some p))) = pool_slots s \<and> pool_ok (snd (uffs_PoolPut s (Some p)))"
    using pool_free_eq[OF xs] pool_free_eq[OF inv] by (auto simp: pool_ok_def)
next
  fix s assume "pool_ok s"
  then show "pool_free s \<subseteq> pool_slots s" by (auto simp: pool_ok_def pool_free_eq) (auto simp: pool_inv_def)
qed

text \<open>C38. A buffer taken from the pool and put back leaves a well-formed pool with the same
  free buffers, and two buffers taken in a row are different.\<close>

theorem pool_get_put:
  assumes "pool_ok P" "uffs_PoolGet P = (Some p, P')"
  shows "pool_ok (snd (uffs_PoolPut P' (Some p))) \<and>
         pool_free (snd (uffs_PoolPut P' (Some p))) = pool_free P \<and>
         pool_free P' = pool_free P - {p} \<and>
         (\<forall>q P''. uffs_PoolGet P' = (Some q, P'') \<longrightarrow> q \<noteq> p)"
  using pool_alloc.get_put_restores[OF assms] pool_alloc.get_Some[OF assms]
    pool_alloc.gets_differ[OF assms] by blast

theorem pool_get_put_witness:
  "pool_free (snd (uffs_PoolPut (snd (uffs_PoolGet pool2)) (Some 64))) = pool_free pool2"
proof -
  have "pool_ok pool2" using pool2_inv by (auto simp: pool_ok_def)
  moreover have "uffs_PoolGet pool2 = (Some 64, snd (uffs_PoolGet pool2))"
    by (simp add: uffs_PoolGet_def pool2_def)
  ultimately show ?thesis using pool_get_put by blast
qed

section \<open>Initialisation\<close>

lemma pool_link_chain:
  assumes "pool_geom P" "a \<le> b" "b \<le> unat (p_num_bufs P)" "0 < a"
  shows "\<exists>nx'. pool_link (p_mem P) (p_buf_size P) [a..<b] (slot_addr P (a - 1), nx) = (slot_addr P (b - 1), nx') \<and>
     seg nx' (Some (slot_addr P (a - 1))) (map (slot_addr P) [a - 1..<b - 1]) (Some (slot_addr P (b - 1))) \<and>
     (\<forall>x. (\<forall>j. a - 1 \<le> j \<longrightarrow> j < b - 1 \<longrightarrow> x \<noteq> slot_addr P j) \<longrightarrow> nx' x = nx x)"
  using assms
proof (induction "b - a" arbitrary: a nx)
  case 0
  then show ?case by simp
next
  case (Suc n)
  then have ab: "a < b" by simp
  let ?nx = "nx(slot_addr P (a - 1) := Some (slot_addr P a))"
  have "\<exists>nx'. pool_link (p_mem P) (p_buf_size P) [Suc a..<b] (slot_addr P (Suc a - 1), ?nx) = (slot_addr P (b - 1), nx') \<and>
     seg nx' (Some (slot_addr P (Suc a - 1))) (map (slot_addr P) [Suc a - 1..<b - 1]) (Some (slot_addr P (b - 1))) \<and>
     (\<forall>x. (\<forall>j. Suc a - 1 \<le> j \<longrightarrow> j < b - 1 \<longrightarrow> x \<noteq> slot_addr P j) \<longrightarrow> nx' x = ?nx x)"
    using Suc.prems Suc.hyps(2) by (intro Suc.hyps(1)) auto
  then obtain nx' where IH:
    "pool_link (p_mem P) (p_buf_size P) [Suc a..<b] (slot_addr P a, ?nx) = (slot_addr P (b - 1), nx')"
    "seg nx' (Some (slot_addr P a)) (map (slot_addr P) [a..<b - 1]) (Some (slot_addr P (b - 1)))"
    "\<forall>x. (\<forall>j. a \<le> j \<longrightarrow> j < b - 1 \<longrightarrow> x \<noteq> slot_addr P j) \<longrightarrow> nx' x = ?nx x"
    by auto
  have e2: "p_mem P + unat (word_of_nat a * p_buf_size P) = slot_addr P a"
    using Suc.prems ab by (simp add: slot_offset slot_addr_def)
  have l: "[a..<b] = a # [Suc a..<b]" "[a - 1..<b - 1] = (a - 1) # [a..<b - 1]"
    using ab Suc.prems by (auto simp: upt_conv_Cons)
  have nx1: "nx' (slot_addr P (a - 1)) = Some (slot_addr P a)"
  proof -
    have "\<forall>j. a \<le> j \<longrightarrow> j < b - 1 \<longrightarrow> slot_addr P (a - 1) \<noteq> slot_addr P j"
      using Suc.prems(4) slot_inj[OF Suc.prems(1), of "a - 1"] by auto
    then show ?thesis using IH(3) by simp
  qed
  show ?case
  proof (intro exI[of _ nx'] conjI)
    show "pool_link (p_mem P) (p_buf_size P) [a..<b] (slot_addr P (a - 1), nx) = (slot_addr P (b - 1), nx')"
      unfolding l(1) using IH(1) by (simp add: e2 Let_def)
    show "seg nx' (Some (slot_addr P (a - 1))) (map (slot_addr P) [a - 1..<b - 1]) (Some (slot_addr P (b - 1)))"
      unfolding l(2) list.map seg.simps nx1 using IH(2) by simp
    show "\<forall>x. (\<forall>j. a - 1 \<le> j \<longrightarrow> j < b - 1 \<longrightarrow> x \<noteq> slot_addr P j) \<longrightarrow> nx' x = nx x"
    proof (intro allI impI)
      fix x assume x: "\<forall>j. a - 1 \<le> j \<longrightarrow> j < b - 1 \<longrightarrow> x \<noteq> slot_addr P j"
      then have "x \<noteq> slot_addr P (a - 1)" using ab Suc.prems by auto
      moreover have "\<forall>j. a \<le> j \<longrightarrow> j < b - 1 \<longrightarrow> x \<noteq> slot_addr P j" using x by auto
      ultimately show "nx' x = nx x" using IH(3) by simp
    qed
  qed
qed

lemma Init_all_free:
  assumes "0 < num" "0 < bsize" "bsize mod SIZEOF_PTR = 0" "unat num * unat bsize < 2 ^ 32"
  shows "\<exists>P'. uffs_PoolInit P (Some m) (num * bsize) bsize num lock = (U_SUCC, P') \<and>
           pool_inv P' (map (slot_addr P') [0..<unat num]) \<and> pool_free P' = pool_slots P' \<and>
           p_mem P' = m \<and> p_buf_size P' = bsize \<and> p_num_bufs P' = num"
proof -
  define nx e2 where "nx = snd (pool_link m bsize [1..<unat num] (m, p_next P))"
    and "e2 = fst (pool_link m bsize [1..<unat num] (m, p_next P))"
  define P' where "P' = \<lparr>p_mem = m, p_buf_size = bsize, p_num_bufs = num,
      p_free_list = Some m, p_next = nx(e2 := None), p_sem = lock\<rparr>"
  have n: "0 < unat num" "0 < unat bsize"
    using assms(1,2) by (simp_all add: word_less_nat_alt)
  have g: "pool_geom P'" using n assms(4) by (simp add: pool_geom_def P'_def)
  have f: "p_mem P' = m" "p_buf_size P' = bsize" "p_num_bufs P' = num" "slot_addr P' 0 = m"
    by (simp_all add: P'_def slot_addr_def)
  from pool_link_chain[OF g, of 1 "unat num" "p_next P"] n f
  have l: "e2 = slot_addr P' (unat num - 1)"
    "seg nx (Some m) (map (slot_addr P') [0..<unat num - 1]) (Some e2)"
    by (auto simp: e2_def nx_def)
  have fresh: "e2 \<notin> set (map (slot_addr P') [0..<unat num - 1])"
    using l(1) slot_inj[OF g] by auto
  have "[0..<unat num] = [0..<unat num - 1] @ [unat num - 1]"
    using n(1) by (cases "unat num") auto
  then have "chain (nx(e2 := None)) (Some m) (map (slot_addr P') [0..<unat num])"
    using l fresh by (auto simp: chain_append)
  then have inv: "pool_inv P' (map (slot_addr P') [0..<unat num])"
    using g f by (auto simp: pool_inv_def pool_slots_def P'_def)
  have "uffs_PoolInit P (Some m) (num * bsize) bsize num lock = (U_SUCC, P')"
    using assms by (simp add: uffs_PoolInit_def P'_def e2_def nx_def case_prod_unfold Let_def)
  moreover have "pool_free P' = pool_slots P'"
    using pool_free_eq[OF inv] f by (auto simp: pool_slots_def)
  ultimately show ?thesis using inv f by blast
qed

text \<open>A pool initialised over a block of the right size holds all its buffers, free and
  linked in address order; every other size is refused.\<close>

theorem PoolInit_all_free:
  assumes "0 < num" "0 < bsize" "bsize mod SIZEOF_PTR = 0" "unat num * unat bsize < 2 ^ 32"
  shows "\<exists>P'. uffs_PoolInit P (Some m) (num * bsize) bsize num lock = (U_SUCC, P') \<and>
           pool_inv P' (map (slot_addr P') [0..<unat num]) \<and> pool_free P' = pool_slots P' \<and>
           p_mem P' = m \<and> p_buf_size P' = bsize \<and> p_num_bufs P' = num"
  using Init_all_free[OF assms] by blast

theorem PoolInit_all_free_witness:
  "\<exists>P'. uffs_PoolInit pool2 (Some 64) (5 * 64) 64 5 False = (U_SUCC, P') \<and>
     pool_inv P' (map (slot_addr P') [0..<unat (5::u32)]) \<and> pool_free P' = pool_slots P' \<and>
     p_mem P' = 64 \<and> p_buf_size P' = 64 \<and> p_num_bufs P' = 5"
  by (rule PoolInit_all_free) (simp_all add: SIZEOF_PTR_def)

section \<open>Walking over the allocated buffers\<close>

lemma CheckFreeList_eq:
  assumes "pool_inv P xs"
  shows "uffs_PoolCheckFreeList P p = Some (p \<in> pool_free P)"
proof -
  have c: "chain (p_next P) (p_free_list P) xs" using assms by (simp add: pool_inv_def)
  show ?thesis
    unfolding uffs_PoolCheckFreeList_def chain_find_eq[OF c] option.map find_not_None
      pool_free_eq[OF assms] ..
qed

lemma GetFreeCount_eq: "pool_inv P xs \<Longrightarrow> uffs_PoolGetFreeCount P = Some (int (card (pool_free P)))"
proof -
  assume inv: "pool_inv P xs"
  have f: "fold (\<lambda>_ count. count + 1) ys (c::int) = c + int (length ys)" for ys :: "nat list" and c
    by (induction ys arbitrary: c) auto
  have c: "chain (p_next P) (p_free_list P) xs" using inv by (simp add: pool_inv_def)
  then show ?thesis
    unfolding uffs_PoolGetFreeCount_def chain_fold_eq[OF c] f pool_free_eq[OF inv]
    by (simp add: distinct_card chain_distinct)
qed

text \<open>\<open>next_alloc P i\<close>: the index of the first buffer from index \<open>i\<close> on that is not free.\<close>

definition next_alloc :: "pool \<Rightarrow> nat \<Rightarrow> nat option" where
  "next_alloc P i = List.find (\<lambda>j. slot_addr P j \<notin> pool_free P) [i..<unat (p_num_bufs P)]"

lemma next_alloc_rec:
  "next_alloc P i = (if i < unat (p_num_bufs P)
     then if slot_addr P i \<in> pool_free P then next_alloc P (Suc i) else Some i else None)"
  unfolding next_alloc_def by (auto simp: upt_conv_Cons)

lemma next_alloc_Some:
  "next_alloc P i = Some j \<Longrightarrow> i \<le> j \<and> j < unat (p_num_bufs P) \<and> slot_addr P j \<notin> pool_free P"
  unfolding next_alloc_def by (auto dest: find_Some_in)

lemma large_skip_eq:
  assumes "pool_inv P xs"
  shows "\<exists>k. large_skip P (slot_addr P i) = Some (slot_addr P k) \<and>
     (case next_alloc P i of None \<Rightarrow> k \<ge> unat (p_num_bufs P) | Some j \<Rightarrow> k = j)"
proof (induction "unat (p_num_bufs P) - i" arbitrary: i)
  case 0
  have g: "pool_geom P" using assms by (simp add: pool_inv_def)
  have i: "\<not> i < unat (p_num_bufs P)" using 0 by simp
  have "large_skip P (slot_addr P i) = Some (slot_addr P i)"
    using i by (subst large_skip.simps) (simp add: PoolVerify_slots[OF g] slot_in_slots[OF g])
  moreover have "next_alloc P i = None" using i by (subst next_alloc_rec) simp
  ultimately show ?case using i by auto
next
  case (Suc n)
  have g: "pool_geom P" and c: "chain (p_next P) (p_free_list P) xs"
    using assms by (auto simp: pool_inv_def)
  have i: "i < unat (p_num_bufs P)" using Suc.hyps(2) by simp
  have v: "uffs_PoolVerify P (Some (slot_addr P i))"
    using i by (simp add: PoolVerify_slots[OF g] slot_in_slots[OF g])
  have nx: "slot_addr P i + unat (p_buf_size P) = slot_addr P (Suc i)" by (simp add: slot_addr_def)
  show ?case
  proof (cases "slot_addr P i \<in> pool_free P")
    case True
    then have "List.find (\<lambda>e. slot_addr P i = e) xs = Some (slot_addr P i)"
      using assms by (intro find_unique) (auto simp: pool_free_eq)
    then have "large_skip P (slot_addr P i) = large_skip P (slot_addr P (Suc i))"
      using v by (subst large_skip.simps) (simp add: chain_find_eq[OF c] nx)
    moreover have "next_alloc P i = next_alloc P (Suc i)"
      using True i by (subst next_alloc_rec) simp
    ultimately show ?thesis using Suc.hyps(1)[of "Suc i"] Suc.hyps(2) by simp
  next
    case False
    then have "List.find (\<lambda>e. slot_addr P i = e) xs = None"
      using assms by (auto simp: pool_free_eq find_None_iff)
    then have "large_skip P (slot_addr P i) = Some (slot_addr P i)"
      using v by (subst large_skip.simps) (simp add: chain_find_eq[OF c])
    moreover have "next_alloc P i = Some i" using False i by (subst next_alloc_rec) simp
    ultimately show ?thesis by auto
  qed
qed

lemma next_alloc_full: "pool_free P = {} \<Longrightarrow> next_alloc P i = (if i < unat (p_num_bufs P) then Some i else None)"
  by (subst next_alloc_rec) simp

text \<open>The successor index of a walk: \<open>None\<close> starts it.\<close>

fun walk_from :: "nat option \<Rightarrow> nat" where
  "walk_from None = 0"
| "walk_from (Some i) = Suc i"

lemma FindNext_large:
  assumes "pool_ok P" "\<not> p_num_bufs P < 32"
  shows "uffs_PoolFindNextAllocated P (map_option (slot_addr P) from) =
           Some (map_option (slot_addr P) (next_alloc P (walk_from from)))"
proof -
  obtain xs where inv: "pool_inv P xs" using assms(1) by (auto simp: pool_ok_def)
  then have g: "pool_geom P" by (simp add: pool_inv_def)
  have p: "(case map_option (slot_addr P) from of None \<Rightarrow> p_mem P | Some f \<Rightarrow> f + unat (p_buf_size P))
      = slot_addr P (walk_from from)"
    by (cases "from") (simp_all add: slot_addr_def)
  obtain k where k: "large_skip P (slot_addr P (walk_from from)) = Some (slot_addr P k)"
    "case next_alloc P (walk_from from) of None \<Rightarrow> k \<ge> unat (p_num_bufs P) | Some j \<Rightarrow> k = j"
    using large_skip_eq[OF inv] by blast
  show ?thesis
  proof (cases "p_free_list P")
    case None
    then have "pool_free P = {}" by (simp add: pool_free_def)
    then show ?thesis
      using None assms(2) unfolding uffs_PoolFindNextAllocated_def p Let_def
      by (simp add: next_alloc_full PoolVerify_slots[OF g] slot_in_slots[OF g])
  next
    case (Some f)
    then show ?thesis
      using k assms(2) next_alloc_Some[of P "walk_from from"]
      unfolding uffs_PoolFindNextAllocated_def p Let_def
      by (cases "next_alloc P (walk_from from)")
        (auto simp: PoolVerify_slots[OF g] slot_in_slots[OF g])
  qed
qed

lemma slot_cong: "p_mem Q = p_mem P \<Longrightarrow> p_buf_size Q = p_buf_size P \<Longrightarrow> slot_addr Q = slot_addr P"
  by (rule ext) (simp add: slot_addr_def)

lemma PutAll_loop_large:
  assumes "pool_ok P" "\<not> p_num_bufs P < 32" "\<And>i. i < walk_from from \<Longrightarrow> i < unat (p_num_bufs P) \<Longrightarrow> slot_addr P i \<in> pool_free P"
  shows "\<exists>P'. PoolPutAll_loop P (map_option (slot_addr P) from) c =
           Some (c + int (card (pool_slots P - pool_free P)), P') \<and>
         pool_ok P' \<and> pool_slots P' = pool_slots P \<and> pool_free P' = pool_slots P"
  using assms
proof (induction "unat (p_num_bufs P) - walk_from from" arbitrary: P "from" c rule: less_induct)
  case less
  note nxt = FindNext_large[OF less.prems(1,2), of "from"]
  have sub: "pool_free P \<subseteq> pool_slots P" by (rule pool_alloc.free_slots[OF less.prems(1)])
  have g: "pool_geom P" using less.prems(1) by (auto simp: pool_ok_def pool_inv_def)
  show ?case
  proof (cases "next_alloc P (walk_from from)")
    case None
    have "slot_addr P i \<in> pool_free P" if i: "i < unat (p_num_bufs P)" for i
    proof (cases "i < walk_from from")
      case True
      then show ?thesis using less.prems(3) i by blast
    next
      case False
      then show ?thesis using None i by (auto simp: next_alloc_def find_None_iff_set)
    qed
    then have "pool_free P = pool_slots P" using sub by (auto simp: pool_slots_def)
    then show ?thesis using nxt None less.prems(1) by (subst PoolPutAll_loop.simps) simp
  next
    case (Some j)
    let ?P = "snd (uffs_PoolPut P (Some (slot_addr P j)))"
    have j: "walk_from from \<le> j" "j < unat (p_num_bufs P)" "slot_addr P j \<notin> pool_free P"
      using next_alloc_Some[OF Some] by auto
    have js: "slot_addr P j \<in> pool_slots P" using j by (simp add: slot_in_slots[OF g])
    have put: "pool_free ?P = insert (slot_addr P j) (pool_free P)" "pool_slots ?P = pool_slots P" "pool_ok ?P"
      using pool_alloc.put_slot[OF less.prems(1) js j(3)] by auto
    have geo: "p_num_bufs ?P = p_num_bufs P" "slot_addr ?P = slot_addr P"
      by (simp_all add: uffs_PoolPut_def) (rule slot_cong; simp)
    have below: "slot_addr P i \<in> pool_free ?P" if i: "i < Suc j" "i < unat (p_num_bufs P)" for i
    proof -
      consider "i < walk_from from" | "walk_from from \<le> i" "i < j" | "i = j" using i(1) by linarith
      then show ?thesis
      proof cases
        case 1
        then show ?thesis using less.prems(3) i(2) put(1) by blast
      next
        case 2
        then show ?thesis using Some i put(1) by (auto simp: next_alloc_def dest: find_upt_before)
      next
        case 3
        then show ?thesis using put(1) by blast
      qed
    qed
    have m: "unat (p_num_bufs ?P) - walk_from (Some j) < unat (p_num_bufs P) - walk_from from"
      using j geo by simp
    have "\<exists>P'. PoolPutAll_loop ?P (map_option (slot_addr ?P) (Some j)) (c + 1) =
          Some (c + 1 + int (card (pool_slots ?P - pool_free ?P)), P') \<and>
        pool_ok P' \<and> pool_slots P' = pool_slots ?P \<and> pool_free P' = pool_slots ?P"
    proof (rule less.hyps[OF m put(3)])
      show "\<not> p_num_bufs ?P < 32" using less.prems(2) unfolding geo(1) .
      show "slot_addr ?P i \<in> pool_free ?P" if "i < walk_from (Some j)" "i < unat (p_num_bufs ?P)" for i
        using below[of i] that unfolding geo walk_from.simps by blast
    qed
    then obtain P' where P': "PoolPutAll_loop ?P (map_option (slot_addr ?P) (Some j)) (c + 1) =
          Some (c + 1 + int (card (pool_slots ?P - pool_free ?P)), P')"
        "pool_ok P'" "pool_slots P' = pool_slots ?P" "pool_free P' = pool_slots ?P"
      by blast
    have "finite (pool_slots P - pool_free P)" by (simp add: pool_slots_def)
    moreover have "pool_slots P - pool_free ?P = (pool_slots P - pool_free P) - {slot_addr P j}"
      using put(1) by blast
    ultimately have "card (pool_slots P - pool_free P) = Suc (card (pool_slots P - pool_free ?P))"
      using js j(3) card_Suc_Diff1[of "pool_slots P - pool_free P" "slot_addr P j"] by simp
    then show ?thesis using P' nxt Some geo put(2) by (subst PoolPutAll_loop.simps) simp
  qed
qed

text \<open>In a pool of at least 32 buffers \<open>uffs_PoolPutAll\<close>, which walks over the allocated
  buffers and puts each one back, returns: its count is the number of allocated buffers, and
  afterwards every buffer of the pool is free.\<close>

theorem PoolPutAll_large:
  assumes "pool_ok P" "\<not> p_num_bufs P < 32"
  shows "\<exists>P'. uffs_PoolPutAll P = Some (int (card (pool_slots P - pool_free P)), P') \<and>
         pool_ok P' \<and> pool_slots P' = pool_slots P \<and> pool_free P' = pool_slots P"
  using PutAll_loop_large[OF assms, of None 0] by (simp add: uffs_PoolPutAll_def)

text \<open>A pool of 40 buffers, two of them handed out.\<close>

definition pool40 :: pool where
  "pool40 = snd (uffs_PoolGet (snd (uffs_PoolGet
     (snd (uffs_PoolInit pool2 (Some 64) (40 * 8) 8 40 False)))))"

lemma pool40_ok: "pool_ok pool40" "p_num_bufs pool40 = 40"
proof -
  obtain P' where P': "uffs_PoolInit pool2 (Some 64) (40 * 8) 8 40 False = (U_SUCC, P')"
    "pool_inv P' (map (slot_addr P') [0..<unat (40::u32)])" "p_num_bufs P' = 40"
    using Init_all_free[of 40 8 pool2 64 False] by (auto simp: SIZEOF_PTR_def)
  have keep: "pool_ok (snd (uffs_PoolGet Q)) \<and> p_num_bufs (snd (uffs_PoolGet Q)) = p_num_bufs Q"
    if Q: "pool_ok Q" for Q
  proof -
    obtain xs where inv: "pool_inv Q xs" using Q by (auto simp: pool_ok_def)
    show ?thesis using PoolGet_eq[OF inv] inv by (auto simp: pool_ok_def)
  qed
  have "pool_ok P'" using P'(2) by (auto simp: pool_ok_def)
  then show "pool_ok pool40" "p_num_bufs pool40 = 40"
    using keep P'(1,3) by (simp_all add: pool40_def)
qed

theorem PoolPutAll_large_witness:
  "\<exists>P'. uffs_PoolPutAll pool40 = Some (int (card (pool_slots pool40 - pool_free pool40)), P') \<and>
     pool_ok P' \<and> pool_slots P' = pool_slots pool40 \<and> pool_free P' = pool_slots pool40"
  by (rule PoolPutAll_large) (simp_all add: pool40_ok)

text \<open>In a pool of fewer than 32 buffers the walk does not survive the last buffer: asked
  for the successor of the last buffer it computes the index of the address behind the pool,
  panics, and never returns. (The pool of directory handles has 10 buffers.)\<close>

theorem FindNextAllocated_small_last_hangs:
  assumes "pool_ok P" "p_num_bufs P < 32"
  shows "uffs_PoolFindNextAllocated P (Some (slot_addr P (unat (p_num_bufs P) - 1))) = None"
proof -
  obtain xs where inv: "pool_inv P xs" using assms(1) by (auto simp: pool_ok_def)
  then have g: "pool_geom P" by (simp add: pool_inv_def)
  then have "slot_addr P (unat (p_num_bufs P) - 1) + unat (p_buf_size P) = slot_addr P (unat (p_num_bufs P))"
    by (cases "unat (p_num_bufs P)") (auto simp: slot_addr_def pool_geom_def)
  then show ?thesis
    using assms(2)
    by (simp add: uffs_PoolFindNextAllocated_def FindNextAllocatedInSmallPool_def GetIndex_slot[OF g]
        bind_eq_None_conv split: option.splits bind_splits)
qed

theorem FindNextAllocated_small_last_hangs_witness:
  "uffs_PoolFindNextAllocated pool2 (Some (slot_addr pool2 (unat (p_num_bufs pool2) - 1))) = None"
  by (rule FindNextAllocated_small_last_hangs) (use pool2_inv in \<open>auto simp: pool_ok_def\<close>, simp add: pool2_def)

end
