(* ===== verification/Tags.thy ===== *)
theory Tags
  imports Ecc
begin

text \<open>
  The page tag of \<open>inc/uffs/uffs_public.h\<close>: the bit-fields of \<open>uffs_TagStoreSt\<close> at their
  widths, their little-endian image in the spare area (bit-fields allocated from the least
  significant bit, as the compilers of the supported platforms do), the tag predicates, the
  tag ECC of \<open>uffs_flash.c\<close> and the block time stamps of \<open>uffs_public.c\<close>.

  The lemmas show that the image determines the tag and conversely, that the tag ECC
  restores a tag with one flipped bit, and that the time stamps order two copies of a block.
\<close>

section \<open>The code\<close>

record TagStore =
  ts_dirty :: "1 word"
  ts_valid :: "1 word"
  ts_type :: "2 word"
  ts_block_ts :: "2 word"
  ts_data_len :: "12 word"
  ts_serial :: "14 word"
  ts_parent :: "10 word"
  ts_page_id :: "6 word"
  ts_reserved :: "4 word"
  ts_tag_ecc :: "12 word"

record Tags =
  tag_s :: TagStore
  data_sum :: u16
  seal_byte :: u8

text \<open>\<open>sizeof(struct uffs_TagStoreSt)\<close>.\<close>

definition TAG_STORE_SIZE :: nat where
  "TAG_STORE_SIZE = 8"

text \<open>The two 32-bit units of the bit-fields, and the bytes of the structure.\<close>

definition ts_word0 :: "TagStore \<Rightarrow> u32" where
  "ts_word0 t = ((((ucast (ts_dirty t) OR push_bit 1 (ucast (ts_valid t))) OR
     push_bit 2 (ucast (ts_type t))) OR push_bit 4 (ucast (ts_block_ts t))) OR
     push_bit 6 (ucast (ts_data_len t))) OR push_bit 18 (ucast (ts_serial t))"

definition ts_word1 :: "TagStore \<Rightarrow> u32" where
  "ts_word1 t = ((ucast (ts_parent t) OR push_bit 10 (ucast (ts_page_id t))) OR
     push_bit 16 (ucast (ts_reserved t))) OR push_bit 20 (ucast (ts_tag_ecc t))"

definition le_bytes :: "u32 \<Rightarrow> u8 list" where
  "le_bytes w = [ucast w, ucast (drop_bit 8 w), ucast (drop_bit 16 w), ucast (drop_bit 24 w)]"

definition le_word :: "u8 list \<Rightarrow> u32" where
  "le_word bs = ((ucast (bs ! 0) OR push_bit 8 (ucast (bs ! 1))) OR push_bit 16 (ucast (bs ! 2))) OR
     push_bit 24 (ucast (bs ! 3))"

definition ts_bytes :: "TagStore \<Rightarrow> u8 list" where
  "ts_bytes t = le_bytes (ts_word0 t) @ le_bytes (ts_word1 t)"

definition bytes_ts :: "u8 list \<Rightarrow> TagStore" where
  "bytes_ts bs =
     (let w0 = le_word bs; w1 = le_word (drop 4 bs)
      in \<lparr>ts_dirty = ucast w0, ts_valid = ucast (drop_bit 1 w0), ts_type = ucast (drop_bit 2 w0),
          ts_block_ts = ucast (drop_bit 4 w0), ts_data_len = ucast (drop_bit 6 w0),
          ts_serial = ucast (drop_bit 18 w0), ts_parent = ucast w1,
          ts_page_id = ucast (drop_bit 10 w1), ts_reserved = ucast (drop_bit 16 w1),
          ts_tag_ecc = ucast (drop_bit 20 w1)\<rparr>)"

text \<open>The tag predicates. \<open>TAG_IS_DIRTY\<close> reads the first unit as an integer.\<close>

definition TAG_IS_DIRTY :: "Tags \<Rightarrow> bool" where
  "TAG_IS_DIRTY tag \<longleftrightarrow> ts_word0 (tag_s tag) \<noteq> 0xFFFFFFFF"

definition TAG_IS_VALID :: "Tags \<Rightarrow> bool" where
  "TAG_IS_VALID tag \<longleftrightarrow> ts_valid (tag_s tag) = 0"

definition TAG_IS_SEALED :: "Tags \<Rightarrow> bool" where
  "TAG_IS_SEALED tag \<longleftrightarrow> seal_byte tag \<noteq> 0xFF"

definition TAG_IS_GOOD :: "Tags \<Rightarrow> bool" where
  "TAG_IS_GOOD tag \<longleftrightarrow> TAG_IS_SEALED tag \<and> TAG_IS_VALID tag"

definition TAG_ECC_DEFAULT :: "12 word" where
  "TAG_ECC_DEFAULT = 0xFFF"

text \<open>The tag ECC is made with \<open>tag_ecc\<close> set to ones, over all 8 bytes.\<close>

definition TagMakeEcc :: "TagStore \<Rightarrow> TagStore" where
  "TagMakeEcc ts =
     (let ts = ts\<lparr>ts_tag_ecc := 0xFFF\<rparr>
      in ts\<lparr>ts_tag_ecc := ucast (uffs_EccMake8 (ts_bytes ts) (int TAG_STORE_SIZE))\<rparr>)"

definition TagEccCorrect :: "TagStore \<Rightarrow> int \<times> TagStore" where
  "TagEccCorrect ts =
     (let ecc_store = ucast (ts_tag_ecc ts) :: u16;
          ts = ts\<lparr>ts_tag_ecc := 0xFFF\<rparr>;
          ecc_read = uffs_EccMake8 (ts_bytes ts) (int TAG_STORE_SIZE);
          (ret, bs) = uffs_EccCorrect8 (ts_bytes ts) ecc_read ecc_store (int TAG_STORE_SIZE)
      in (ret, (bytes_ts bs)\<lparr>ts_tag_ecc := ucast ecc_store\<rparr>))"

definition uffs_GetFirstBlockTimeStamp :: int where
  "uffs_GetFirstBlockTimeStamp = 0"

text \<open>C's remainder; time stamps are never negative.\<close>

definition uffs_GetNextBlockTimeStamp :: "int \<Rightarrow> int" where
  "uffs_GetNextBlockTimeStamp prev = (prev + 1) mod 3"

definition uffs_IsSrcNewerThanObj :: "int \<Rightarrow> int \<Rightarrow> bool" where
  "uffs_IsSrcNewerThanObj src obj = (src - obj = 1 \<or> src - obj = - 2)"

section \<open>The image of a tag\<close>

text \<open>The bits of a word, by the field they fall into.\<close>

lemma bit_field: "a \<le> n \<Longrightarrow> n < b \<Longrightarrow> \<exists>m. n = a + m \<and> m < b - a" for n :: nat
  by (intro exI[of _ "n - a"]) auto

lemma byte_cases:
  fixes n :: nat
  assumes "n < 32"
  shows "n < 8 \<or> (\<exists>m. n = 8 + m \<and> m < 8) \<or> (\<exists>m. n = 16 + m \<and> m < 8) \<or> (\<exists>m. n = 24 + m \<and> m < 8)"
  using assms bit_field[of 8 n 16, simplified] bit_field[of 16 n 24, simplified]
    bit_field[of 24 n 32, simplified] not_less by blast

lemma word1_cases:
  fixes n :: nat
  assumes "n < 32"
  shows "n < 10 \<or> (\<exists>m. n = 10 + m \<and> m < 6) \<or> (\<exists>m. n = 16 + m \<and> m < 4) \<or> (\<exists>m. n = 20 + m \<and> m < 12)"
  using assms bit_field[of 10 n 16, simplified] bit_field[of 16 n 20, simplified]
    bit_field[of 20 n 32, simplified] not_less by blast

lemma le_word_bytes [simp]: "le_word (le_bytes w @ bs) = w"
proof (rule bit_word_eqI)
  fix n assume "n < LENGTH(32)"
  then have "n < 32" by simp
  from byte_cases[OF this] show "bit (le_word (le_bytes w @ bs)) n \<longleftrightarrow> bit w n"
    unfolding le_word_def le_bytes_def by (elim disjE exE conjE) (simp_all add: bit_simps)
qed

lemma length_le_bytes [simp]: "length (le_bytes w) = 4"
  by (simp add: le_bytes_def)

lemma length_ts_bytes [simp]: "length (ts_bytes t) = 8"
  by (simp add: ts_bytes_def)

lemma drop_le_bytes [simp]: "drop 4 (le_bytes w @ bs) = bs"
  by (simp add: le_bytes_def)

lemma le_word_bytes_nil [simp]: "le_word (le_bytes w) = w"
  using le_word_bytes[of w "[]"] by simp

lemma u8_list4: "length bs = 4 \<Longrightarrow> \<exists>a b c d. bs = [a, b, c, d]"
  by (auto simp: numeral_eq_Suc length_Suc_conv)

lemma le_bytes_word: "length bs = 4 \<Longrightarrow> le_bytes (le_word (bs @ cs)) = bs"
proof -
  assume "length bs = 4"
  then obtain a b c d where bs: "bs = [a, b, c, d]" using u8_list4 by blast
  let ?w = "le_word [a, b, c, d]"
  have "ucast ?w = a" "ucast (drop_bit 8 ?w) = b" "ucast (drop_bit 16 ?w) = c" "ucast (drop_bit 24 ?w) = d"
    unfolding le_word_def by (rule bit_word_eqI, auto simp: bit_simps dest: bit_imp_le_length)+
  moreover have "le_word (bs @ cs) = ?w" by (simp add: bs le_word_def)
  ultimately show ?thesis by (simp add: le_bytes_def bs)
qed

lemma bit_times_2: "bit (x * 2) n \<longleftrightarrow> n < LENGTH('a) \<and> 0 < n \<and> bit x (n - 1)" for x :: "'a::len word"
  by (auto simp: bit_double_iff mult.commute[of x 2])

lemma ts_fields:
  "ucast (ts_word0 t) = ts_dirty t" "ucast (drop_bit 1 (ts_word0 t)) = ts_valid t"
  "ucast (drop_bit 2 (ts_word0 t)) = ts_type t" "ucast (drop_bit 4 (ts_word0 t)) = ts_block_ts t"
  "ucast (drop_bit 6 (ts_word0 t)) = ts_data_len t" "ucast (drop_bit 18 (ts_word0 t)) = ts_serial t"
  "ucast (ts_word1 t) = ts_parent t" "ucast (drop_bit 10 (ts_word1 t)) = ts_page_id t"
  "ucast (drop_bit 16 (ts_word1 t)) = ts_reserved t" "ucast (drop_bit 20 (ts_word1 t)) = ts_tag_ecc t"
  unfolding ts_word0_def ts_word1_def
  by (rule bit_word_eqI, auto simp: bit_simps bit_times_2 dest: bit_imp_le_length)+

lemma bytes_ts_bytes [simp]: "bytes_ts (ts_bytes t) = t"
  by (simp add: bytes_ts_def ts_bytes_def Let_def ts_fields ts_fields[unfolded One_nat_def])

lemma ts_word0_parts:
  "ts_word0 \<lparr>ts_dirty = ucast w0, ts_valid = ucast (drop_bit 1 w0), ts_type = ucast (drop_bit 2 w0),
     ts_block_ts = ucast (drop_bit 4 w0), ts_data_len = ucast (drop_bit 6 w0),
     ts_serial = ucast (drop_bit 18 w0), ts_parent = p, ts_page_id = i, ts_reserved = r,
     ts_tag_ecc = e\<rparr> = w0"
proof (rule bit_word_eqI)
  fix n assume "n < LENGTH(32)"
  then have "n = 0 \<or> n = 1 \<or> n = 2 \<or> n = 3 \<or> n = 4 \<or> n = 5 \<or> (6 \<le> n \<and> n < 18) \<or> (18 \<le> n \<and> n < 32)"
    by auto
  then have "n = 0 \<or> n = 1 \<or> n = 2 \<or> n = 3 \<or> n = 4 \<or> n = 5 \<or> (\<exists>m. n = 6 + m \<and> m < 12) \<or> (\<exists>m. n = 18 + m \<and> m < 14)"
    using bit_field[of 6 n 18] bit_field[of 18 n 32] by auto
  then show "bit (ts_word0 \<lparr>ts_dirty = ucast w0, ts_valid = ucast (drop_bit 1 w0), ts_type = ucast (drop_bit 2 w0),
     ts_block_ts = ucast (drop_bit 4 w0), ts_data_len = ucast (drop_bit 6 w0),
     ts_serial = ucast (drop_bit 18 w0), ts_parent = p, ts_page_id = i, ts_reserved = r,
     ts_tag_ecc = e\<rparr>) n \<longleftrightarrow> bit w0 n"
    unfolding ts_word0_def by (elim disjE exE conjE) (simp_all add: bit_simps bit_times_2)
qed

lemma ts_word1_parts:
  "ts_word1 \<lparr>ts_dirty = a, ts_valid = b, ts_type = c, ts_block_ts = d, ts_data_len = f,
     ts_serial = g, ts_parent = ucast w1, ts_page_id = ucast (drop_bit 10 w1),
     ts_reserved = ucast (drop_bit 16 w1), ts_tag_ecc = ucast (drop_bit 20 w1)\<rparr> = w1"
proof (rule bit_word_eqI)
  fix n assume "n < LENGTH(32)"
  then have "n < 32" by simp
  from word1_cases[OF this] show "bit (ts_word1 \<lparr>ts_dirty = a, ts_valid = b, ts_type = c, ts_block_ts = d, ts_data_len = f,
     ts_serial = g, ts_parent = ucast w1, ts_page_id = ucast (drop_bit 10 w1),
     ts_reserved = ucast (drop_bit 16 w1), ts_tag_ecc = ucast (drop_bit 20 w1)\<rparr>) n \<longleftrightarrow> bit w1 n"
    unfolding ts_word1_def by (elim disjE exE conjE) (simp_all add: bit_simps)
qed

lemma ts_bytes_bytes:
  assumes "length bs = 8"
  shows "ts_bytes (bytes_ts bs) = bs"
proof -
  have "le_bytes (le_word (take 4 bs @ drop 4 bs)) = take 4 bs"
    "le_bytes (le_word (drop 4 bs @ [])) = drop 4 bs"
    using assms by (simp_all only: le_bytes_word length_take length_drop)
  then have "le_bytes (le_word bs) @ le_bytes (le_word (drop 4 bs)) = bs" by simp
  then show ?thesis
    by (simp only: ts_bytes_def bytes_ts_def Let_def ts_word0_parts ts_word1_parts)
qed

lemma ts_bytes_eq_iff: "ts_bytes t = ts_bytes u \<longleftrightarrow> t = u"
  by (metis bytes_ts_bytes)

text \<open>The 8 bytes of the spare area and the tag determine each other: no field is lost or
  overlaps another one.\<close>

theorem tag_image_roundtrip:
  "bytes_ts (ts_bytes t) = t \<and> (length bs = 8 \<longrightarrow> ts_bytes (bytes_ts bs) = bs)"
  by (simp add: ts_bytes_bytes)

theorem tag_image_roundtrip_witness:
  "ts_bytes (bytes_ts [1, 2, 3, 4, 5, 6, 7, 8]) = [1, 2, 3, 4, 5, 6, 7, 8]"
  using tag_image_roundtrip[of "bytes_ts []" "[1, 2, 3, 4, 5, 6, 7, 8]"] by simp

section \<open>The tag ECC\<close>

text \<open>Two tags that differ outside \<open>tag_ecc\<close> in one bit of their image.\<close>

definition tag_bit_error :: "TagStore \<Rightarrow> TagStore \<Rightarrow> bool" where
  "tag_bit_error t t' \<longleftrightarrow> (\<exists>i k. i < 8 \<and> k < 8 \<and>
     ts_bytes (t'\<lparr>ts_tag_ecc := 0xFFF\<rparr>) = flip_bit (ts_bytes (t\<lparr>ts_tag_ecc := 0xFFF\<rparr>)) i k) \<and>
     ts_tag_ecc t' = ts_tag_ecc t"

lemma ucast_12_16: "ucast (ucast (e :: 12 word) :: u16) = e"
  by (rule bit_word_eqI) (auto simp: bit_simps dest: bit_imp_le_length)

lemma ucast_16_12: "e AND 0xfff = e \<Longrightarrow> ucast (ucast (e :: u16) :: 12 word) = e"
proof -
  assume "e AND 0xfff = e"
  then have m: "e AND mask 12 = e" by (simp add: mask_eq_exp_minus_1)
  have "ucast (ucast e :: 12 word) = e AND mask 12"
    by (rule bit_word_eqI) (auto simp: bit_simps)
  then show ?thesis by (simp only: m)
qed

lemma EccMake8_12bit: "uffs_EccMake8 data n AND 0xfff = uffs_EccMake8 data n"
  by (simp add: uffs_EccMake8_def Let_def case_prod_unfold and.assoc)

lemma TagMakeEcc_other [simp]: "(TagMakeEcc t)\<lparr>ts_tag_ecc := e\<rparr> = t\<lparr>ts_tag_ecc := e\<rparr>"
  by (simp add: TagMakeEcc_def Let_def)

lemma TagMakeEcc_code:
  "ucast (ts_tag_ecc (TagMakeEcc t)) = uffs_EccMake8 (ts_bytes (t\<lparr>ts_tag_ecc := 0xFFF\<rparr>)) 8"
  by (simp add: TagMakeEcc_def Let_def TAG_STORE_SIZE_def ucast_16_12[OF EccMake8_12bit])

lemma TagEccCorrect_clean: "TagEccCorrect (TagMakeEcc t) = (0, TagMakeEcc t)"
proof -
  have "TagEccCorrect (TagMakeEcc t) = (0, t\<lparr>ts_tag_ecc := ts_tag_ecc (TagMakeEcc t)\<rparr>)"
    by (simp add: TagEccCorrect_def Let_def TagMakeEcc_code TAG_STORE_SIZE_def EccCorrect8_clean)
      (simp add: TagMakeEcc_code[symmetric] ucast_12_16)
  then show ?thesis by (simp add: TagMakeEcc_def Let_def)
qed

lemma TagEccCorrect_error:
  assumes "tag_bit_error (TagMakeEcc t) t'"
  shows "TagEccCorrect t' = (1, TagMakeEcc t)"
proof -
  let ?b = "ts_bytes (t\<lparr>ts_tag_ecc := 0xFFF\<rparr>)"
  obtain i k where ik: "i < 8" "k < 8"
    and bytes: "ts_bytes (t'\<lparr>ts_tag_ecc := 0xFFF\<rparr>) = flip_bit ?b i k"
    and ecc: "ts_tag_ecc t' = ts_tag_ecc (TagMakeEcc t)"
    using assms unfolding tag_bit_error_def by auto
  have l: "length ?b = 8" by simp
  have "uffs_EccCorrect8 (flip_bit ?b i k) (uffs_EccMake8 (flip_bit ?b i k) 8) (uffs_EccMake8 ?b 8) 8 = (1, ?b)"
    using EccCorrect8_flip[of ?b i k] ik unfolding l by simp
  then have "TagEccCorrect t' = (1, t\<lparr>ts_tag_ecc := ts_tag_ecc (TagMakeEcc t)\<rparr>)"
    by (simp add: TagEccCorrect_def Let_def TAG_STORE_SIZE_def bytes ecc TagMakeEcc_code)
      (simp add: TagMakeEcc_code[symmetric] ucast_12_16)
  then show ?thesis by (simp add: TagMakeEcc_def Let_def)
qed

text \<open>C31. A tag protected by \<open>TagMakeEcc\<close> is accepted unchanged by \<open>TagEccCorrect\<close>, and a copy of
  it with one flipped bit outside the stored ECC is restored.\<close>

theorem tag_ecc_restores:
  "TagEccCorrect (TagMakeEcc t) = (0, TagMakeEcc t) \<and>
   (tag_bit_error (TagMakeEcc t) t' \<longrightarrow> TagEccCorrect t' = (1, TagMakeEcc t))"
  using TagEccCorrect_clean TagEccCorrect_error by blast

definition tag0 :: TagStore where
  "tag0 = \<lparr>ts_dirty = 0, ts_valid = 0, ts_type = 1, ts_block_ts = 2, ts_data_len = 100, ts_serial = 7,
           ts_parent = 3, ts_page_id = 5, ts_reserved = 15, ts_tag_ecc = 0\<rparr>"

theorem tag_ecc_restores_witness:
  "TagEccCorrect (TagMakeEcc tag0\<lparr>ts_dirty := 1\<rparr>) = (1, TagMakeEcc tag0)"
proof -
  have "ts_bytes (tag0\<lparr>ts_dirty := 1, ts_tag_ecc := 0xFFF\<rparr>) =
      flip_bit (ts_bytes (tag0\<lparr>ts_tag_ecc := 0xFFF\<rparr>)) 0 0"
    by (simp add: tag0_def ts_bytes_def ts_word0_def ts_word1_def le_bytes_def flip_bit_def)
  then have "tag_bit_error (TagMakeEcc tag0) (TagMakeEcc tag0\<lparr>ts_dirty := 1\<rparr>)"
    unfolding tag_bit_error_def
    by (intro conjI exI[of _ 0]) (simp_all add: TagMakeEcc_def Let_def)
  then show ?thesis using tag_ecc_restores by blast
qed

section \<open>Time stamps\<close>

text \<open>Time stamps stay in \<open>0..2\<close>; the next stamp is newer than its predecessor, the
  predecessor is not newer than it, and of two different stamps exactly one is newer. So of
  two copies of a block, of which one was written as the successor of the other, the newer
  one is always recognised.\<close>

theorem time_stamps_order:
  assumes "0 \<le> a" "a \<le> 2" "0 \<le> b" "b \<le> 2"
  shows "0 \<le> uffs_GetNextBlockTimeStamp a \<and> uffs_GetNextBlockTimeStamp a \<le> 2 \<and>
     uffs_IsSrcNewerThanObj (uffs_GetNextBlockTimeStamp a) a \<and>
     (a \<noteq> b \<longrightarrow> uffs_IsSrcNewerThanObj a b \<noteq> uffs_IsSrcNewerThanObj b a) \<and>
     (uffs_IsSrcNewerThanObj b a \<longleftrightarrow> b = uffs_GetNextBlockTimeStamp a)"
proof -
  have "a = 0 \<or> a = 1 \<or> a = 2" "b = 0 \<or> b = 1 \<or> b = 2" using assms by linarith+
  then show ?thesis
    by (elim disjE) (simp_all add: uffs_GetNextBlockTimeStamp_def uffs_IsSrcNewerThanObj_def)
qed

theorem time_stamps_order_witness:
  "uffs_IsSrcNewerThanObj (uffs_GetNextBlockTimeStamp 2) 2 \<and> \<not> uffs_IsSrcNewerThanObj 2 0"
  using time_stamps_order[of 2 0] by (simp add: uffs_GetNextBlockTimeStamp_def)

end
