(* ===== verification/Spare_Layout.thy ===== *)
theory Spare_Layout
  imports Tags
begin

text \<open>
  The layout of the spare area (\<open>uffs_flash.c\<close>): where the 8 tag bytes, the page ECC, the bad
  block status byte and the seal byte go, and the packing and unpacking of a spare buffer.
  A layout is an array \<open>offset, size, ..., 0xFF, 0\<close>; a pointer into it is the remaining list.
  \<open>memcpy\<close> is a splice of lists, which is the C function for accesses inside the arrays.

  The lemmas give the positions a layout describes, show that the layouts made by
  \<open>InitSpareLayout\<close> never overlap, leave the status and the seal byte alone, and fit into the
  computed size, and that unpacking returns what was packed.
\<close>

section \<open>The code\<close>

text \<open>\<open>struct uffs_StorageAttrSt\<close>; the layout pointers are the arrays they point to, \<open>None\<close> for
  a null pointer.\<close>

record storage_attr =
  total_blocks :: u32
  page_data_size :: u16
  pages_per_block :: u16
  spare_size :: u8
  block_status_offs :: u8
  ecc_opt :: int
  layout_opt :: int
  ecc_size :: int
  ecc_layout :: "u8 list option"
  data_layout :: "u8 list option"

definition UFFS_ECC_NONE :: int where "UFFS_ECC_NONE = 0"
definition UFFS_ECC_SOFT :: int where "UFFS_ECC_SOFT = 1"
definition UFFS_ECC_HW :: int where "UFFS_ECC_HW = 2"
definition UFFS_ECC_HW_AUTO :: int where "UFFS_ECC_HW_AUTO = 3"
definition UFFS_LAYOUT_UFFS :: int where "UFFS_LAYOUT_UFFS = 0"
definition UFFS_LAYOUT_FLASH :: int where "UFFS_LAYOUT_FLASH = 1"

definition InitSpareLayout :: "storage_attr \<Rightarrow> storage_attr" where
  "InitSpareLayout attr =
     (let s = block_status_offs attr;
          ecc = word_of_int (ecc_size attr) :: u8
      in if unat s < TAG_STORE_SIZE
         then attr\<lparr>data_layout := Some ((if s > 0 then [0, s] else []) @ [s + 1, 8 - s] @ [0xFF, 0]),
                   ecc_layout := Some ((if ecc_opt attr \<noteq> UFFS_ECC_NONE then [8 + 1, ecc] else []) @ [0xFF, 0])\<rparr>
         else attr\<lparr>data_layout := Some [0, 8, 0xFF, 0],
                   ecc_layout := Some
                     ((if ecc_opt attr \<noteq> UFFS_ECC_NONE
                       then if uint s < int TAG_STORE_SIZE + ecc_size attr
                            then (if unat s > TAG_STORE_SIZE then [8, s - 8] else []) @
                                 [s + 1, 8 + ecc - s]
                            else [8, ecc]
                       else []) @ [0xFF, 0])\<rparr>)"

text \<open>The end of the last segment used for \<open>n\<close> bytes.\<close>

fun layout_last :: "u8 list \<Rightarrow> int \<Rightarrow> int \<Rightarrow> int" where
  "layout_last (p0 # p1 # p) n l =
     (if p0 \<noteq> 0xFF \<and> n > 0
      then let m = (if uint p1 > n then n else uint p1) in layout_last p (n - m) (uint p0 + m)
      else l)"
| "layout_last _ n l = l"

definition CalculateSpareDataSize :: "storage_attr \<Rightarrow> int" where
  "CalculateSpareDataSize attr =
     (let ecc_sz = (if ecc_opt attr = UFFS_ECC_NONE then 0 else ecc_size attr);
          ecc_last = (case ecc_layout attr of None \<Rightarrow> 0 | Some p \<Rightarrow> layout_last p ecc_sz 0);
          tag_last = (case data_layout attr of None \<Rightarrow> 0 | Some p \<Rightarrow> layout_last p (int TAG_STORE_SIZE) 0);
          n = (if ecc_last > tag_last then ecc_last else tag_last);
          n = (if n > uint (block_status_offs attr) + 1 then n else uint (block_status_offs attr) + 1)
      in n + 1)"

definition memcpy :: "'a list \<Rightarrow> nat \<Rightarrow> 'a list \<Rightarrow> 'a list" where
  "memcpy dst off src = take off dst @ src @ drop (off + length src) dst"

text \<open>\<open>k\<close> is the offset the destination (source) pointer has advanced to.\<close>

fun unload_segs :: "u8 list \<Rightarrow> u8 list \<Rightarrow> u8 list \<Rightarrow> nat \<Rightarrow> int \<Rightarrow> u8 list" where
  "unload_segs (p0 # p1 # p) spare dst k sz =
     (if p0 \<noteq> 0xFF \<and> sz > 0
      then let n = (if uint p1 > sz then sz else uint p1)
           in unload_segs p spare (memcpy dst k (take (nat n) (drop (unat p0) spare))) (k + nat n) (sz - n)
      else dst)"
| "unload_segs _ spare dst k sz = dst"

fun make_segs :: "u8 list \<Rightarrow> u8 list \<Rightarrow> u8 list \<Rightarrow> nat \<Rightarrow> int \<Rightarrow> u8 list" where
  "make_segs (p0 # p1 # p) src spare k sz =
     (if p0 \<noteq> 0xFF \<and> sz > 0
      then let n = (if uint p1 > sz then sz else uint p1)
           in make_segs p src (memcpy spare (unat p0) (take (nat n) (drop k src))) (k + nat n) (sz - n)
      else spare)"
| "make_segs _ src spare k sz = spare"

text \<open>\<open>uffs_FlashUnloadSpare\<close>: the output parameters are \<open>None\<close> for null, otherwise what the
  caller's memory holds before. The tag is the 8 bytes of its structure.\<close>

definition uffs_FlashUnloadSpare ::
  "storage_attr \<Rightarrow> u8 list \<Rightarrow> TagStore option \<Rightarrow> u8 list option \<Rightarrow> TagStore option \<times> u8 list option" where
  "uffs_FlashUnloadSpare attr spare ts ecc =
     (case ts of None \<Rightarrow> None
      | Some t \<Rightarrow> Some (case data_layout attr of None \<Rightarrow> t
           | Some p \<Rightarrow> bytes_ts (unload_segs p spare (ts_bytes t) 0 (int TAG_STORE_SIZE))),
      case (ecc_layout attr, ecc) of
        (Some p, Some e) \<Rightarrow> Some (unload_segs p spare e 0 (ecc_size attr)) | _ \<Rightarrow> ecc)"

definition uffs_FlashMakeSpare ::
  "storage_attr \<Rightarrow> nat \<Rightarrow> TagStore \<Rightarrow> u8 list option \<Rightarrow> u8 list" where
  "uffs_FlashMakeSpare attr spare_data_size ts ecc =
     (let spare = (replicate spare_data_size 0xFF)[spare_data_size - 1 := 0];
          spare = (case (ecc_layout attr, ecc) of
                     (Some p, Some e) \<Rightarrow> make_segs p e spare 0 (ecc_size attr) | _ \<Rightarrow> spare)
      in case data_layout attr of None \<Rightarrow> spare
         | Some p \<Rightarrow> make_segs p (ts_bytes ts) spare 0 (int TAG_STORE_SIZE))"

section \<open>The positions of a layout\<close>

text \<open>The offsets at which the first \<open>sz\<close> bytes go.\<close>

fun layout_pos :: "u8 list \<Rightarrow> int \<Rightarrow> nat list" where
  "layout_pos (p0 # p1 # p) sz =
     (if p0 \<noteq> 0xFF \<and> sz > 0
      then let n = (if uint p1 > sz then sz else uint p1)
           in [unat p0..<unat p0 + nat n] @ layout_pos p (sz - n)
      else [])"
| "layout_pos _ sz = []"

text \<open>Writing a list to given positions.\<close>

definition put_at :: "nat list \<Rightarrow> 'a list \<Rightarrow> 'a list \<Rightarrow> 'a list" where
  "put_at ps src dst = fold (\<lambda>(p, v) d. d[p := v]) (zip ps src) dst"

lemma length_put_at [simp]: "length (put_at ps src dst) = length dst"
  unfolding put_at_def by (induction ps arbitrary: src dst) (auto simp: zip_Cons1 split: list.split)

lemma put_at_other: "i \<notin> set ps \<Longrightarrow> put_at ps src dst ! i = dst ! i"
  unfolding put_at_def by (induction ps arbitrary: src dst) (auto simp: zip_Cons1 split: list.split)

lemma put_at_nth:
  "distinct ps \<Longrightarrow> j < length ps \<Longrightarrow> j < length src \<Longrightarrow> ps ! j < length dst \<Longrightarrow> put_at ps src dst ! (ps ! j) = src ! j"
proof (induction ps arbitrary: src dst j)
  case (Cons p ps)
  then obtain v vs where src: "src = v # vs" by (cases src) auto
  have s: "put_at (p # ps) (v # vs) dst = put_at ps vs (dst[p := v])" by (simp add: put_at_def)
  show ?case
  proof (cases j)
    case 0
    then show ?thesis using Cons.prems by (simp add: src s put_at_other)
  next
    case (Suc i)
    then show ?thesis using Cons.IH[of i vs "dst[p := v]"] Cons.prems by (simp add: src s)
  qed
qed simp

lemma put_at_append:
  "length src = length ps \<Longrightarrow> put_at (ps @ qs) (src @ ts) dst = put_at qs ts (put_at ps src dst)"
  by (simp add: put_at_def)

lemma read_put_at:
  assumes "distinct ps" "length src = length ps" "\<forall>p \<in> set ps. p < length dst"
  shows "map ((!) (put_at ps src dst)) ps = src"
  using assms by (intro nth_equalityI) (auto simp: put_at_nth)

lemma memcpy_put_at:
  assumes "off + length src \<le> length dst"
  shows "memcpy dst off src = put_at [off..<off + length src] src dst"
proof (rule nth_equalityI)
  show "length (memcpy dst off src) = length (put_at [off..<off + length src] src dst)"
    using assms by (simp add: memcpy_def)
next
  fix i assume "i < length (memcpy dst off src)"
  then have i: "i < length dst" using assms by (simp add: memcpy_def)
  show "memcpy dst off src ! i = put_at [off..<off + length src] src dst ! i"
  proof (cases "off \<le> i \<and> i < off + length src")
    case True
    then have "put_at [off..<off + length src] src dst ! ([off..<off + length src] ! (i - off)) = src ! (i - off)"
      using i by (intro put_at_nth) auto
    moreover have "i - off < length src" using True by linarith
    ultimately show ?thesis using True assms by (simp add: memcpy_def nth_append)
  next
    case False
    then show ?thesis using i assms by (auto simp: put_at_other memcpy_def nth_append)
  qed
qed

lemma length_layout_pos: "int (length (layout_pos p sz)) \<le> max 0 sz"
  by (induction p sz rule: layout_pos.induct) (auto simp: Let_def)

lemma make_segs_put_at:
  assumes "int (k + length (layout_pos p sz)) \<le> int (length src)" "\<forall>q \<in> set (layout_pos p sz). q < length spare"
  shows "make_segs p src spare k sz = put_at (layout_pos p sz) (take (length (layout_pos p sz)) (drop k src)) spare"
  using assms
proof (induction p src spare k sz rule: make_segs.induct)
  case (1 p0 p1 p src spare k sz)
  show ?case
  proof (cases "p0 \<noteq> 0xFF \<and> sz > 0")
    case True
    define n where "n = (if uint p1 > sz then sz else uint p1)"
    have n: "0 \<le> n" using True by (simp add: n_def)
    have pos: "layout_pos (p0 # p1 # p) sz = [unat p0..<unat p0 + nat n] @ layout_pos p (sz - n)"
      using True by (simp add: n_def Let_def)
    let ?w = "take (nat n) (drop k src)"
    let ?l = "length (layout_pos p (sz - n))"
    have lw: "length ?w = nat n" using "1.prems"(1) n unfolding pos by auto
    have fit: "memcpy spare (unat p0) ?w = put_at [unat p0..<unat p0 + nat n] ?w spare"
    proof (cases "nat n")
      case 0
      then show ?thesis by (simp add: memcpy_def put_at_def)
    next
      case (Suc m)
      then have "unat p0 + m \<in> set (layout_pos (p0 # p1 # p) sz)" unfolding pos by simp
      then have "unat p0 + nat n \<le> length spare" using "1.prems"(2) Suc by auto
      then show ?thesis using memcpy_put_at[of "unat p0" ?w spare] lw by simp
    qed
    have "make_segs (p0 # p1 # p) src spare k sz =
        make_segs p src (memcpy spare (unat p0) ?w) (k + nat n) (sz - n)"
      using True by (simp add: n_def Let_def)
    also have "\<dots> = put_at (layout_pos p (sz - n)) (take ?l (drop (k + nat n) src)) (memcpy spare (unat p0) ?w)"
    proof (rule "1.IH"[OF True n_def])
      show "int (k + nat n + ?l) \<le> int (length src)" using "1.prems"(1) unfolding pos by simp
      show "\<forall>q \<in> set (layout_pos p (sz - n)). q < length (memcpy spare (unat p0) ?w)"
        using "1.prems"(2) unfolding pos fit by simp
    qed
    also have "\<dots> = put_at (layout_pos (p0 # p1 # p) sz) (?w @ take ?l (drop (k + nat n) src)) spare"
      unfolding fit pos using lw by (simp add: put_at_append)
    also have "?w @ take ?l (drop (k + nat n) src) = take (length (layout_pos (p0 # p1 # p) sz)) (drop k src)"
      unfolding pos by (simp add: take_add add.commute)
    finally show ?thesis .
  next
    case False
    then show ?thesis by (auto simp: put_at_def)
  qed
qed (auto simp: put_at_def)

text \<open>Unpacking reads the positions: when the source holds \<open>vs\<close> there, the first bytes of the
  destination become \<open>vs\<close>.\<close>

lemma unload_segs_read:
  assumes "int (k + length (layout_pos p sz)) \<le> int (length dst)" "\<forall>q \<in> set (layout_pos p sz). q < length spare"
  shows "unload_segs p spare dst k sz = memcpy dst k (map ((!) spare) (layout_pos p sz))"
  using assms
proof (induction p spare dst k sz rule: unload_segs.induct)
  case (1 p0 p1 p spare dst k sz)
  show ?case
  proof (cases "p0 \<noteq> 0xFF \<and> sz > 0")
    case True
    define n where "n = (if uint p1 > sz then sz else uint p1)"
    have n: "0 \<le> n" using True by (simp add: n_def)
    have pos: "layout_pos (p0 # p1 # p) sz = [unat p0..<unat p0 + nat n] @ layout_pos p (sz - n)"
      using True by (simp add: n_def Let_def)
    let ?w = "take (nat n) (drop (unat p0) spare)"
    have w: "?w = map ((!) spare) [unat p0..<unat p0 + nat n]"
    proof (cases "nat n")
      case 0
      then show ?thesis by simp
    next
      case (Suc m)
      then have "unat p0 + m \<in> set (layout_pos (p0 # p1 # p) sz)" unfolding pos by simp
      then have "unat p0 + nat n \<le> length spare" using "1.prems"(2) Suc by auto
      then show ?thesis by (intro nth_equalityI) auto
    qed
    have lw: "length ?w = nat n" unfolding w by simp
    have fits: "k + nat n + length (layout_pos p (sz - n)) \<le> length dst"
      using "1.prems"(1) n unfolding pos by auto
    have "unload_segs (p0 # p1 # p) spare dst k sz = unload_segs p spare (memcpy dst k ?w) (k + nat n) (sz - n)"
      using True by (simp add: n_def Let_def)
    also have "\<dots> = memcpy (memcpy dst k ?w) (k + nat n) (map ((!) spare) (layout_pos p (sz - n)))"
    proof (rule "1.IH"[OF True n_def])
      show "int (k + nat n + length (layout_pos p (sz - n))) \<le> int (length (memcpy dst k ?w))"
        using fits lw n by (auto simp: memcpy_def)
      show "\<forall>q \<in> set (layout_pos p (sz - n)). q < length spare"
        using "1.prems"(2) unfolding pos by simp
    qed
    also have "\<dots> = memcpy dst k (?w @ map ((!) spare) (layout_pos p (sz - n)))"
      using lw fits by (simp add: memcpy_def add.assoc add.commute)
    finally show ?thesis unfolding w pos by simp
  next
    case False
    then show ?thesis by (auto simp: memcpy_def)
  qed
qed (auto simp: memcpy_def)

section \<open>Valid layouts\<close>

text \<open>The layouts of a device place \<open>ecc_size\<close> ECC bytes and the 8 tag bytes at different
  positions, none of them the status byte or the last (seal) byte of the spare data.\<close>

definition ecc_len :: "storage_attr \<Rightarrow> int" where
  "ecc_len attr = (if ecc_opt attr = UFFS_ECC_NONE then 0 else ecc_size attr)"

definition layout_ok :: "storage_attr \<Rightarrow> nat \<Rightarrow> bool" where
  "layout_ok attr n \<longleftrightarrow> (\<exists>d e. data_layout attr = Some d \<and> ecc_layout attr = Some e \<and>
     length (layout_pos d (int TAG_STORE_SIZE)) = TAG_STORE_SIZE \<and>
     int (length (layout_pos e (ecc_size attr))) = ecc_len attr \<and>
     distinct (layout_pos e (ecc_size attr) @ layout_pos d (int TAG_STORE_SIZE)) \<and>
     (\<forall>q \<in> set (layout_pos e (ecc_size attr) @ layout_pos d (int TAG_STORE_SIZE)).
        q < n - 1 \<and> q \<noteq> unat (block_status_offs attr)) \<and> unat (block_status_offs attr) < n - 1)"

text \<open>Under a valid layout packing writes the ECC and the tag to distinct positions, and
  unpacking reads them there.\<close>

definition spare_pos :: "storage_attr \<Rightarrow> nat list" where
  "spare_pos attr = layout_pos (the (ecc_layout attr)) (ecc_size attr) @
     layout_pos (the (data_layout attr)) (int TAG_STORE_SIZE)"

lemma spare_pos_ok:
  assumes "layout_ok attr n"
  shows "distinct (spare_pos attr)" "length (spare_pos attr) = nat (ecc_len attr) + 8"
    "\<forall>q \<in> set (spare_pos attr). q < n - 1 \<and> q \<noteq> unat (block_status_offs attr)"
    "unat (block_status_offs attr) < n - 1"
  using assms unfolding layout_ok_def spare_pos_def TAG_STORE_SIZE_def by auto

lemma layout_okE:
  assumes "layout_ok attr n"
  obtains d e where "data_layout attr = Some d" "ecc_layout attr = Some e"
    "length (layout_pos d 8) = 8" "length (layout_pos e (ecc_size attr)) = nat (ecc_len attr)"
    "\<forall>q \<in> set (layout_pos e (ecc_size attr)). q < n" "\<forall>q \<in> set (layout_pos d 8). q < n"
    "spare_pos attr = layout_pos e (ecc_size attr) @ layout_pos d 8"
proof -
  from assms obtain d e where l: "data_layout attr = Some d" "ecc_layout attr = Some e"
    and len: "length (layout_pos d 8) = 8" "int (length (layout_pos e (ecc_size attr))) = ecc_len attr"
    and pos: "\<forall>q \<in> set (layout_pos e (ecc_size attr) @ layout_pos d 8). q < n - 1 \<and> q \<noteq> unat (block_status_offs attr)"
    unfolding layout_ok_def TAG_STORE_SIZE_def of_nat_numeral by blast
  have "spare_pos attr = layout_pos e (ecc_size attr) @ layout_pos d 8"
    by (simp add: spare_pos_def l TAG_STORE_SIZE_def)
  moreover have "q < n" if "q < n - 1" for q using that by linarith
  moreover have "length (layout_pos e (ecc_size attr)) = nat (ecc_len attr)" using len(2) by linarith
  ultimately show thesis using that[OF l len(1)] pos by simp
qed

lemma FlashMakeSpare_put:
  assumes "layout_ok attr n" "nat (ecc_len attr) \<le> length ecc"
  shows "uffs_FlashMakeSpare attr n ts (Some ecc) =
    put_at (spare_pos attr) (take (nat (ecc_len attr)) ecc @ ts_bytes ts) ((replicate n 0xFF)[n - 1 := 0])"
proof -
  obtain d e where l: "data_layout attr = Some d" "ecc_layout attr = Some e"
    and len: "length (layout_pos d 8) = 8" "length (layout_pos e (ecc_size attr)) = nat (ecc_len attr)"
    and pos: "\<forall>q \<in> set (layout_pos e (ecc_size attr)). q < n" "\<forall>q \<in> set (layout_pos d 8). q < n"
    and sp: "spare_pos attr = layout_pos e (ecc_size attr) @ layout_pos d 8"
    by (rule layout_okE[OF assms(1)])
  have "int (0 + length (layout_pos e (ecc_size attr))) \<le> int (length ecc)" using assms(2) len(2) by linarith
  from make_segs_put_at[OF this, of "(replicate n 0xFF)[n - 1 := 0]"] show ?thesis
    unfolding uffs_FlashMakeSpare_def sp l TAG_STORE_SIZE_def
    using len pos assms(2) by (simp add: make_segs_put_at put_at_append)
qed

lemma FlashMakeSpare_None:
  assumes "layout_ok attr n" "ecc_len attr = 0"
  shows "uffs_FlashMakeSpare attr n ts None = uffs_FlashMakeSpare attr n ts (Some [])"
proof -
  obtain d e where l: "data_layout attr = Some d" "ecc_layout attr = Some e"
    and len: "length (layout_pos e (ecc_size attr)) = nat (ecc_len attr)"
    by (rule layout_okE[OF assms(1)])
  then show ?thesis
    using assms(2) unfolding uffs_FlashMakeSpare_def l
    by (simp add: make_segs_put_at put_at_def)
qed

lemma FlashUnloadSpare_read:
  assumes "layout_ok attr n" "length spare = n" "\<And>e. e0 = Some e \<Longrightarrow> nat (ecc_len attr) \<le> length e"
  shows "uffs_FlashUnloadSpare attr spare t0 e0 =
    (map_option (\<lambda>_. bytes_ts (drop (nat (ecc_len attr)) (map ((!) spare) (spare_pos attr)))) t0,
     map_option (\<lambda>e. memcpy e 0 (take (nat (ecc_len attr)) (map ((!) spare) (spare_pos attr)))) e0)"
proof -
  obtain d e where l: "data_layout attr = Some d" "ecc_layout attr = Some e"
    and len: "length (layout_pos d 8) = 8" "length (layout_pos e (ecc_size attr)) = nat (ecc_len attr)"
    and pos: "\<forall>q \<in> set (layout_pos e (ecc_size attr)). q < n" "\<forall>q \<in> set (layout_pos d 8). q < n"
    and sp: "spare_pos attr = layout_pos e (ecc_size attr) @ layout_pos d 8"
    by (rule layout_okE[OF assms(1)])
  have "unload_segs d spare (ts_bytes t) 0 8 = map ((!) spare) (layout_pos d 8)" for t
    using len(1) pos(2) assms(2) by (subst unload_segs_read) (simp_all add: memcpy_def)
  moreover have "unload_segs e spare x 0 (ecc_size attr) = memcpy x 0 (map ((!) spare) (layout_pos e (ecc_size attr)))"
    if "e0 = Some x" for x
    using len(2) pos(1) assms(2) assms(3)[OF that] by (subst unload_segs_read) auto
  ultimately show ?thesis
    unfolding uffs_FlashUnloadSpare_def sp l TAG_STORE_SIZE_def
    using len by (cases t0; cases e0) simp_all
qed

lemma spare_roundtrip:
  assumes "layout_ok attr n" "length ecc = nat (ecc_len attr)" "length ecc \<le> length e0"
  shows "uffs_FlashUnloadSpare attr (uffs_FlashMakeSpare attr n ts (Some ecc)) (Some t0) (Some e0) =
           (Some ts, Some (memcpy e0 0 ecc))"
    and "length (uffs_FlashMakeSpare attr n ts (Some ecc)) = n"
    and "uffs_FlashMakeSpare attr n ts (Some ecc) ! unat (block_status_offs attr) = 0xFF"
    and "uffs_FlashMakeSpare attr n ts (Some ecc) ! (n - 1) = 0"
proof -
  note ok = spare_pos_ok[OF assms(1)]
  let ?s = "uffs_FlashMakeSpare attr n ts (Some ecc)"
  have s: "?s = put_at (spare_pos attr) (ecc @ ts_bytes ts) ((replicate n 0xFF)[n - 1 := 0])"
    using FlashMakeSpare_put[OF assms(1), of ecc ts] assms(2) by simp
  show l: "length ?s = n" by (simp add: s)
  have r: "map ((!) ?s) (spare_pos attr) = ecc @ ts_bytes ts"
    unfolding s using ok assms(2) by (intro read_put_at) auto
  show "uffs_FlashUnloadSpare attr ?s (Some t0) (Some e0) = (Some ts, Some (memcpy e0 0 ecc))"
    using FlashUnloadSpare_read[OF assms(1) l, of "Some e0" "Some t0"] assms(2,3) unfolding r by simp
  have "unat (block_status_offs attr) \<notin> set (spare_pos attr)" "n - 1 \<notin> set (spare_pos attr)"
    using ok(3) by auto
  then show "?s ! unat (block_status_offs attr) = 0xFF" "?s ! (n - 1) = 0"
    unfolding s using ok(4) by (simp_all add: put_at_other)
qed

section \<open>The layouts of InitSpareLayout\<close>

lemma u8_sub: "unat b \<le> unat a \<Longrightarrow> unat (a - b) = unat a - unat b" for a b :: u8
  by (simp add: unat_sub word_le_nat_alt)

lemma u8_of_ecc: "0 \<le> e \<Longrightarrow> e < 256 \<Longrightarrow> uint (word_of_int e :: u8) = e"
  by (simp add: uint_word_of_int)

lemma u8_add: "unat a + unat b < 256 \<Longrightarrow> unat (a + b) = unat a + unat b" for a b :: u8
  by (simp add: unat_word_ariths)

lemma u8_not_term: "unat (a::u8) < 255 \<Longrightarrow> a \<noteq> 0xFF"
  by auto

lemma uint_u8: "uint b = int (unat b)" for b :: u8
  by simp

lemma layout_pos_seg:
  "unat a < 255 \<Longrightarrow> layout_pos (a # b # p) sz =
     (if sz > 0 then [unat a..<unat a + min (unat b) (nat sz)] @ layout_pos p (sz - min (uint b) sz) else [])"
proof -
  assume "unat a < 255"
  then have "a \<noteq> 0xFF" by auto
  obtain k where k: "unat b = k" "uint b = int k" by simp
  from \<open>a \<noteq> 0xFF\<close> show ?thesis
    unfolding layout_pos.simps Let_def k by (cases "int k > sz") (auto simp: min_def)
qed

lemma layout_last_seg:
  "unat a < 255 \<Longrightarrow> layout_last (a # b # p) sz l =
     (if sz > 0 then layout_last p (sz - min (uint b) sz) (uint a + min (uint b) sz) else l)"
proof -
  assume "unat a < 255"
  then have "a \<noteq> 0xFF" by auto
  then show ?thesis
    unfolding layout_last.simps Let_def by (cases "uint b > sz") (auto simp: min_def)
qed

lemma layout_end [simp]: "layout_pos (255 # p) sz = []" "layout_last (255 # p) sz l = l"
  by (cases p; simp)+

text \<open>The shapes of the automatic layout, by the place \<open>w\<close> of the status byte; \<open>e\<close> is the
  number of ECC bytes.\<close>

lemma data_layout_low:
  assumes "unat (w :: u8) < 8"
  shows "layout_pos ((if w > 0 then [0, w] else []) @ [w + 1, 8 - w] @ [0xFF, 0]) 8 =
           [0..<unat w] @ [unat w + 1..<9]"
    and "layout_last ((if w > 0 then [0, w] else []) @ [w + 1, 8 - w] @ [0xFF, 0]) 8 0 = 9"
proof -
  define k where "k = unat w"
  have w: "w = word_of_nat k" by (simp add: k_def)
  have k: "k < 8" using assms by (simp add: k_def)
  show "layout_pos ((if w > 0 then [0, w] else []) @ [w + 1, 8 - w] @ [0xFF, 0]) 8 =
      [0..<unat w] @ [unat w + 1..<9]"
    unfolding w using k by (elim less_8E) (simp_all add: upt_rec)
  show "layout_last ((if w > 0 then [0, w] else []) @ [w + 1, 8 - w] @ [0xFF, 0]) 8 0 = 9"
    unfolding w using k by (elim less_8E) simp_all
qed

lemma ecc_layout_block:
  assumes "unat (a :: u8) < 255" "unat (b :: u8) = n"
  shows "layout_pos ([a, b] @ [0xFF, 0]) (int n) = [unat a..<unat a + n]"
    and "layout_last ([a, b] @ [0xFF, 0]) (int n) 0 = (if n = 0 then 0 else int (unat a + n))"
proof -
  have "uint b = int n" using assms(2) by (metis uint_u8)
  then show "layout_pos ([a, b] @ [0xFF, 0]) (int n) = [unat a..<unat a + n]"
    and "layout_last ([a, b] @ [0xFF, 0]) (int n) 0 = (if n = 0 then 0 else int (unat a + n))"
    using assms by (simp_all add: layout_pos_seg layout_last_seg del: layout_pos.simps layout_last.simps)
qed

lemma ecc_layout_split:
  assumes "8 < unat (w :: u8)" "unat w < 8 + n" "n \<le> 200"
  shows "layout_pos ([8, w - 8] @ [w + 1, 8 + word_of_nat n - w] @ [0xFF, 0]) (int n) =
           [8..<unat w] @ [unat w + 1..<9 + n]"
    and "layout_last ([8, w - 8] @ [w + 1, 8 + word_of_nat n - w] @ [0xFF, 0]) (int n) 0 = int (9 + n)"
proof -
  have n: "unat (word_of_nat n :: u8) = n" using assms(3) by (simp add: unat_of_nat)
  have u: "unat (w - 8) = unat w - 8" using assms by (subst u8_sub) simp_all
  have v: "unat (8 + word_of_nat n - w) = 8 + n - unat w"
    using assms n by (subst u8_sub; subst u8_add) simp_all
  have x: "unat (w + 1) = unat w + 1" using assms by (subst u8_add) simp_all
  define i m where "i = unat w - 8" and "m = n - i"
  have im: "unat w = 8 + i" "n = i + m" "0 < i" "0 < m" "i < 200"
    using assms by (simp_all add: i_def m_def)
  have U: "unat (w - 8) = i" "unat (8 + word_of_nat n - w) = m" "unat (w + 1) = 9 + i"
    using u v x im by simp_all
  then have ui: "uint (w - 8) = int i" "uint (8 + word_of_nat n - w) = int m" "uint (w + 1) = int (9 + i)"
    by (metis uint_u8)+
  have lt: "unat (8::u8) < 255" "unat (w + 1) < 255" using U(3) im(5) by simp_all
  show "layout_pos ([8, w - 8] @ [w + 1, 8 + word_of_nat n - w] @ [0xFF, 0]) (int n) =
      [8..<unat w] @ [unat w + 1..<9 + n]"
    unfolding append.simps layout_pos_seg[OF lt(1)] layout_pos_seg[OF lt(2)] U ui using im
    by (simp add: min_def add.assoc del: upt_Suc)
  show "layout_last ([8, w - 8] @ [w + 1, 8 + word_of_nat n - w] @ [0xFF, 0]) (int n) 0 = int (9 + n)"
    unfolding append.simps layout_last_seg[OF lt(1)] layout_last_seg[OF lt(2)] U ui using im
    by (simp add: min_def)
qed

text \<open>The size and the validity of the automatic layout.\<close>

lemma InitSpareLayout_same [simp]:
  "ecc_opt (InitSpareLayout a) = ecc_opt a" "ecc_size (InitSpareLayout a) = ecc_size a"
  "block_status_offs (InitSpareLayout a) = block_status_offs a" "ecc_len (InitSpareLayout a) = ecc_len a"
  by (simp_all add: InitSpareLayout_def Let_def ecc_len_def)

lemma InitSpareLayout_pos:
  assumes "ecc_len attr = int n" "ecc_size attr \<le> 200" "0 \<le> ecc_size attr"
    and s: "s = unat (block_status_offs attr)"
  obtains d e where "data_layout (InitSpareLayout attr) = Some d" "ecc_layout (InitSpareLayout attr) = Some e"
    "layout_pos d 8 = (if s < 8 then [0..<s] @ [s + 1..<9] else [0..<8])"
    "layout_pos e (ecc_size attr) =
       (if s < 8 then [9..<9 + n] else if s < 8 + n then [8..<s] @ [s + 1..<9 + n] else [8..<8 + n])"
    "layout_last d 8 0 = (if s < 8 then 9 else 8)"
    "layout_last e (int n) 0 = (if n = 0 then 0 else if s < 8 + n then int (9 + n) else int (8 + n))"
proof -
  let ?w = "block_status_offs attr" and ?A = "InitSpareLayout attr"
  have d: "data_layout ?A = Some (if s < 8 then (if ?w > 0 then [0, ?w] else []) @ [?w + 1, 8 - ?w] @ [0xFF, 0]
      else [0, 8, 0xFF, 0])"
    by (simp add: InitSpareLayout_def Let_def s TAG_STORE_SIZE_def)
  define e where "e = the (ecc_layout ?A)"
  have e: "ecc_layout ?A = Some e" by (simp add: e_def InitSpareLayout_def Let_def)
  have dp: "layout_pos (the (data_layout ?A)) 8 = (if s < 8 then [0..<s] @ [s + 1..<9] else [0..<8])"
    "layout_last (the (data_layout ?A)) 8 0 = (if s < 8 then 9 else 8)"
    using data_layout_low[of ?w] ecc_layout_block[of 0 8 8] by (simp_all add: d s)
  have ep: "layout_pos e (ecc_size attr) =
       (if s < 8 then [9..<9 + n] else if s < 8 + n then [8..<s] @ [s + 1..<9 + n] else [8..<8 + n]) \<and>
     layout_last e (int n) 0 = (if n = 0 then 0 else if s < 8 + n then int (9 + n) else int (8 + n))"
  proof (cases "ecc_opt attr = UFFS_ECC_NONE")
    case True
    then have "n = 0" "e = [0xFF, 0]" using assms(1) by (simp_all add: ecc_len_def e_def InitSpareLayout_def Let_def)
    then show ?thesis by simp
  next
    case False
    then have n: "ecc_size attr = int n" "n \<le> 200" using assms by (simp_all add: ecc_len_def)
    let ?e = "word_of_nat n :: u8"
    have us: "uint ?w = int s" by (simp add: s)
    have u: "unat ?e = n" using n by (simp add: unat_of_nat)
    consider "s < 8" | "s = 8" "0 < n" | "8 < s" "s < 8 + n" | "8 + n \<le> s" by linarith
    then show ?thesis
    proof cases
      case 1
      then have "e = [9, ?e] @ [0xFF, 0]"
        using False n by (simp add: e_def InitSpareLayout_def Let_def s TAG_STORE_SIZE_def)
      then show ?thesis using 1 ecc_layout_block[of 9 ?e n] u unfolding n(1) by simp
    next
      case 2
      then have "?w = 8" using s by (simp add: word_unat_eq_iff)
      then have "e = [9, ?e] @ [0xFF, 0]"
        using False n 2 by (simp add: e_def InitSpareLayout_def Let_def s TAG_STORE_SIZE_def)
      then show ?thesis using 2 ecc_layout_block[of 9 ?e n] u unfolding n(1) by simp
    next
      case 3
      then have "e = [8, ?w - 8] @ [?w + 1, 8 + ?e - ?w] @ [0xFF, 0]"
        using False n us by (simp add: e_def InitSpareLayout_def Let_def s[symmetric] TAG_STORE_SIZE_def)
      then show ?thesis using 3 ecc_layout_split[of ?w n] n(2) unfolding n(1) s by simp
    next
      case 4
      then have "e = [8, ?e] @ [0xFF, 0]"
        using False n us by (simp add: e_def InitSpareLayout_def Let_def s[symmetric] TAG_STORE_SIZE_def)
      then show ?thesis using 4 ecc_layout_block[of 8 ?e n] u unfolding n(1) by simp
    qed
  qed
  show thesis using that[of "the (data_layout ?A)" e] d e dp ep by simp
qed

lemma InitSpareLayout_ok:
  assumes "0 \<le> ecc_size attr" "ecc_size attr \<le> 200"
  shows "layout_ok (InitSpareLayout attr) (nat (CalculateSpareDataSize (InitSpareLayout attr)))"
    and "CalculateSpareDataSize (InitSpareLayout attr) =
      max (uint (block_status_offs attr) + 1) (8 + ecc_len attr + (if uint (block_status_offs attr) < 8 + ecc_len attr then 1 else 0)) + 1"
proof -
  define s where "s = unat (block_status_offs attr)"
  have us: "uint (block_status_offs attr) = int s" by (simp add: s_def)
  define n where "n = nat (ecc_len attr)"
  have n: "ecc_len attr = int n" using assms by (simp add: n_def ecc_len_def)
  obtain d e where l: "data_layout (InitSpareLayout attr) = Some d" "ecc_layout (InitSpareLayout attr) = Some e"
    "layout_pos d 8 = (if s < 8 then [0..<s] @ [s + 1..<9] else [0..<8])"
    "layout_pos e (ecc_size attr) =
       (if s < 8 then [9..<9 + n] else if s < 8 + n then [8..<s] @ [s + 1..<9 + n] else [8..<8 + n])"
    "layout_last d 8 0 = (if s < 8 then 9 else 8)"
    "layout_last e (int n) 0 = (if n = 0 then 0 else if s < 8 + n then int (9 + n) else int (8 + n))"
    by (rule InitSpareLayout_pos[OF n assms(2,1) s_def])
  have c: "(if ecc_opt attr = UFFS_ECC_NONE then 0 else ecc_size attr) = int n"
    using n by (simp add: ecc_len_def)
  show size: "CalculateSpareDataSize (InitSpareLayout attr) =
      max (uint (block_status_offs attr) + 1) (8 + ecc_len attr + (if uint (block_status_offs attr) < 8 + ecc_len attr then 1 else 0)) + 1"
    unfolding CalculateSpareDataSize_def c l InitSpareLayout_same us n Let_def TAG_STORE_SIZE_def
    using l(5,6) by (auto simp: max_def)
  show "layout_ok (InitSpareLayout attr) (nat (CalculateSpareDataSize (InitSpareLayout attr)))"
    unfolding layout_ok_def size us n InitSpareLayout_same TAG_STORE_SIZE_def s_def[symmetric]
    using l(1-4) by (auto simp: max_def)
qed

text \<open>C27. With the layout UFFS sets up for any place of the bad-block status byte, packing the
  tag and the page ECC into the spare area and unpacking it gives both back; the status byte
  keeps the erased value, the seal byte is cleared, and the buffer has the computed size.\<close>

theorem auto_layout_roundtrip:
  assumes "0 \<le> ecc_size attr" "ecc_size attr \<le> 200" "int (length ecc) = ecc_len attr" "length ecc \<le> length e0"
  defines "A \<equiv> InitSpareLayout attr" and "n \<equiv> nat (CalculateSpareDataSize (InitSpareLayout attr))"
  shows "uffs_FlashUnloadSpare A (uffs_FlashMakeSpare A n ts (Some ecc)) (Some t0) (Some e0) =
           (Some ts, Some (ecc @ drop (length ecc) e0)) \<and>
         length (uffs_FlashMakeSpare A n ts (Some ecc)) = n \<and>
         uffs_FlashMakeSpare A n ts (Some ecc) ! unat (block_status_offs attr) = 0xFF \<and>
         uffs_FlashMakeSpare A n ts (Some ecc) ! (n - 1) = 0"
proof -
  have ok: "layout_ok A n" unfolding A_def n_def by (rule InitSpareLayout_ok(1)[OF assms(1,2)])
  have "length ecc = nat (ecc_len A)" using assms(3) by (simp add: A_def)
  from spare_roundtrip[OF ok this assms(4)] show ?thesis
    by (simp add: A_def memcpy_def)
qed

definition attr512 :: storage_attr where
  "attr512 = \<lparr>total_blocks = 128, page_data_size = 512, pages_per_block = 32, spare_size = 16,
     block_status_offs = 5, ecc_opt = UFFS_ECC_SOFT, layout_opt = UFFS_LAYOUT_UFFS, ecc_size = 6,
     ecc_layout = None, data_layout = None\<rparr>"

theorem auto_layout_roundtrip_witness:
  "uffs_FlashUnloadSpare (InitSpareLayout attr512)
     (uffs_FlashMakeSpare (InitSpareLayout attr512) (nat (CalculateSpareDataSize (InitSpareLayout attr512)))
        tag0 (Some [1, 2, 3, 4, 5, 6])) (Some tag0) (Some (replicate 40 0)) =
   (Some tag0, Some ([1, 2, 3, 4, 5, 6] @ drop (length [1, 2, 3, 4, 5, 6 :: u8]) (replicate 40 0)))"
  using auto_layout_roundtrip[of attr512 "[1, 2, 3, 4, 5, 6]" "replicate 40 0" tag0 tag0]
  by (simp add: attr512_def ecc_len_def UFFS_ECC_NONE_def UFFS_ECC_SOFT_def)

end
