(* ===== verification/Device.thy ===== *)
theory Device
  imports Spare_Layout Mem_Pool
begin

text \<open>
  The device of \<open>inc/uffs/uffs_device.h\<close>: one record holds the storage attributes, the
  partition, the caches, the block tree, the pending list and the state of the flash driver.

  Pointers to block infos, page buffers and tree nodes are node names (natural numbers); the
  nodes live in total maps of the device. The flash driver is a record of functions on a
  driver state \<open>'f\<close>, each optional as in \<open>uffs_FlashOpsSt\<close>. A null pointer passed to the
  driver is \<open>None\<close>; an output buffer is passed with the contents it has before the call and
  is returned with its contents after it. Operations that may dereference a null pointer or
  not return yield \<open>None\<close> in that case.
\<close>

section \<open>Flash driver\<close>

definition UFFS_FLASH_NO_ERR :: int where "UFFS_FLASH_NO_ERR = 0"
definition UFFS_FLASH_ECC_OK :: int where "UFFS_FLASH_ECC_OK = 1"
definition UFFS_FLASH_NOT_SEALED :: int where "UFFS_FLASH_NOT_SEALED = 2"
definition UFFS_FLASH_IO_ERR :: int where "UFFS_FLASH_IO_ERR = - 1"
definition UFFS_FLASH_ECC_FAIL :: int where "UFFS_FLASH_ECC_FAIL = - 2"
definition UFFS_FLASH_BAD_BLK :: int where "UFFS_FLASH_BAD_BLK = - 3"
definition UFFS_FLASH_CRC_ERR :: int where "UFFS_FLASH_CRC_ERR = - 4"
definition UFFS_FLASH_UNKNOWN_ERR :: int where "UFFS_FLASH_UNKNOWN_ERR = - 100"

lemmas flash_codes = UFFS_FLASH_NO_ERR_def UFFS_FLASH_ECC_OK_def UFFS_FLASH_NOT_SEALED_def
  UFFS_FLASH_IO_ERR_def UFFS_FLASH_ECC_FAIL_def UFFS_FLASH_BAD_BLK_def UFFS_FLASH_CRC_ERR_def
  UFFS_FLASH_UNKNOWN_ERR_def

definition UFFS_FLASH_HAVE_ERR :: "int \<Rightarrow> bool" where
  "UFFS_FLASH_HAVE_ERR e \<longleftrightarrow> e < 0"

text \<open>The lenient bad block policy (\<open>CONFIG_BAD_BLOCK_POLICY_STRICT\<close> is not defined).\<close>

definition UFFS_FLASH_IS_BAD_BLOCK :: "int \<Rightarrow> bool" where
  "UFFS_FLASH_IS_BAD_BLOCK e \<longleftrightarrow>
     e = UFFS_FLASH_ECC_FAIL \<or> e = UFFS_FLASH_BAD_BLK \<or> e = UFFS_FLASH_CRC_ERR"

definition UFFS_FLASH_IS_NON_RECOVER_BAD_BLOCK :: "int \<Rightarrow> bool" where
  "UFFS_FLASH_IS_NON_RECOVER_BAD_BLOCK e \<longleftrightarrow> e = UFFS_FLASH_ECC_FAIL \<or> e = UFFS_FLASH_CRC_ERR"

lemmas flash_preds = UFFS_FLASH_HAVE_ERR_def UFFS_FLASH_IS_BAD_BLOCK_def
  UFFS_FLASH_IS_NON_RECOVER_BAD_BLOCK_def

type_synonym bytes = "u8 list"

record 'f flash_ops =
  InitFlash :: "('f \<Rightarrow> int \<times> 'f) option"
  ReleaseFlash :: "('f \<Rightarrow> int \<times> 'f) option"
  ReadPage :: "(u32 \<Rightarrow> u32 \<Rightarrow> bytes option \<Rightarrow> bytes option \<Rightarrow> bytes option \<Rightarrow> 'f \<Rightarrow>
                (int \<times> bytes option \<times> bytes option \<times> bytes option) \<times> 'f) option"
  ReadPageWithLayout :: "(u32 \<Rightarrow> u32 \<Rightarrow> bytes option \<Rightarrow> bytes option \<Rightarrow> TagStore option \<Rightarrow> bytes option \<Rightarrow> 'f \<Rightarrow>
                (int \<times> bytes option \<times> bytes option \<times> TagStore option \<times> bytes option) \<times> 'f) option"
  WritePage :: "(u32 \<Rightarrow> u32 \<Rightarrow> bytes option \<Rightarrow> bytes option \<Rightarrow> 'f \<Rightarrow> int \<times> 'f) option"
  WritePageWithLayout :: "(u32 \<Rightarrow> u32 \<Rightarrow> bytes option \<Rightarrow> bytes option \<Rightarrow> TagStore option \<Rightarrow> 'f \<Rightarrow> int \<times> 'f) option"
  IsBadBlock :: "(u32 \<Rightarrow> 'f \<Rightarrow> int \<times> 'f) option"
  MarkBadBlock :: "(u32 \<Rightarrow> 'f \<Rightarrow> int \<times> 'f) option"
  EraseBlock :: "(u32 \<Rightarrow> 'f \<Rightarrow> int \<times> 'f) option"
  CheckErasedBlock :: "(u32 \<Rightarrow> 'f \<Rightarrow> int \<times> 'f) option"

section \<open>Nodes\<close>

record PageSpare =
  sp_tag :: Tags
  sp_expired :: bool

record BlockInfo =
  bi_next :: "nat option"
  bi_prev :: "nat option"
  bi_block :: u16
  bi_spares :: "PageSpare list"
  bi_expired_count :: int
  bi_ref_count :: int

text \<open>A page buffer: \<open>b_page\<close> is the memory at \<open>buf->header\<close>, mini header and data.\<close>

record Buf =
  b_next :: "nat option"
  b_prev :: "nat option"
  b_next_dirty :: "nat option"
  b_prev_dirty :: "nat option"
  b_type :: u8
  b_ext_mark :: u8
  b_parent :: u16
  b_serial :: u16
  b_page_id :: u16
  b_mark :: u16
  b_ref_count :: u16
  b_data_len :: u16
  b_check_sum :: u16
  b_page :: bytes

text \<open>A tree node is the variant of its union that is in use. \<open>hash_next\<close> and \<open>hash_prev\<close>
  are indices into the node pool.\<close>

datatype NodeU =
  UList (l_next: "nat option") (l_prev: "nat option") (l_block: u16) (l_u: u16)
| UDir (d_block: u16) (d_checksum: u16) (d_parent: u16) (d_serial: u16)
| UFile (f_block: u16) (f_checksum: u16) (f_parent: u16) (f_serial: u16) (f_len: u32)
| UData (da_block: u16) (da_parent: u16) (da_len: u32) (da_serial: u16)

record TreeNode =
  n_u :: NodeU
  hash_next :: u16
  hash_prev :: u16

record Tree =
  erased :: "nat option"
  erased_tail :: "nat option"
  erased_count :: int
  suspend :: "nat option"
  bad :: "nat option"
  bad_count :: int
  dir_entry :: "u16 list"
  file_entry :: "u16 list"
  data_entry :: "u16 list"
  max_serial :: u16

section \<open>The device\<close>

record PendingBlock =
  pb_block :: u16
  pb_mark :: u8

record PendingList =
  pend_count :: int
  pend_list :: "PendingBlock list"
  block_in_recovery :: u16

record DirtyGroup =
  dg_count :: int
  dg_lock :: int
  dg_dirty :: "nat option"

text \<open>\<open>spare_mem\<close> is the memory of the spare buffer pool by address; \<open>uninit\<close> is what an
  uninitialised local array holds, and nothing is assumed of it but its length; \<open>buf_pool\<close>
  tells whether the page buffers have their memory. \<open>spare_pool_buf\<close>
  and \<open>tree_nodes_pool_buf\<close> are the addresses of the memory of the two pools. The memory
  allocator is what the components ask of it: the address it gives for a size, and whether
  there is a \<open>free\<close>.\<close>

record 'f device =
  attr :: storage_attr
  par_start :: u16
  par_end :: u16
  ops :: "'f flash_ops"
  drv :: 'f
  bc_head :: "nat option"
  bc_tail :: "nat option"
  bc_nodes :: "nat \<Rightarrow> BlockInfo"
  buf_head :: "nat option"
  buf_tail :: "nat option"
  buf_clone :: "nat option"
  bufs :: "nat \<Rightarrow> Buf"
  dirtyGroup :: "DirtyGroup list"
  buf_max :: int
  dirty_buf_max :: int
  buf_pool :: bool
  pg_data_size :: u16
  header_size :: u16
  pg_size :: u16
  tree :: Tree
  tree_nodes :: "nat \<Rightarrow> TreeNode"
  tree_pool :: pool
  pending :: PendingList
  page_header_read_count :: int
  spare_pool :: pool
  spare_mem :: "nat \<Rightarrow> bytes"
  spare_data_size :: int
  dirty_groups :: int
  reserved_free_blocks :: int
  blockinfo_pool_size :: int
  pagebuf_pool_size :: int
  spare_pool_size :: int
  spare_pool_buf :: "nat option"
  tree_nodes_pool_size :: int
  tree_nodes_pool_buf :: "nat option"
  mem_malloc :: "(int \<Rightarrow> nat option) option"
  mem_free :: bool
  uninit :: bytes
  uninit_tag :: Tags

definition UFFS_ALL_PAGES :: int where "UFFS_ALL_PAGES = 0xffff"
definition UFFS_INVALID_PAGE :: u16 where "UFFS_INVALID_PAGE = 0xfffe"
definition UFFS_INVALID_BLOCK :: u16 where "UFFS_INVALID_BLOCK = 0xfffe"

text \<open>The configuration of \<open>platform/posix/uffs_config.h\<close>.\<close>

definition UFFS_MAX_SPARE_SIZE :: nat where "UFFS_MAX_SPARE_SIZE = 64"
definition UFFS_MAX_ECC_SIZE :: nat where "UFFS_MAX_ECC_SIZE = 40"
definition CONFIG_MAX_PENDING_BLOCKS :: nat where "CONFIG_MAX_PENDING_BLOCKS = 4"
definition CONFIG_UFFS_REFRESH_BLOCK :: bool where "CONFIG_UFFS_REFRESH_BLOCK = True"
definition CONFIG_ENABLE_PAGE_DATA_CRC :: bool where "CONFIG_ENABLE_PAGE_DATA_CRC = False"
definition CONFIG_PAGE_WRITE_VERIFY :: bool where "CONFIG_PAGE_WRITE_VERIFY = True"
definition CONFIG_ERASE_BLOCK_BEFORE_MARK_BAD :: bool where "CONFIG_ERASE_BLOCK_BEFORE_MARK_BAD = True"

definition ppb :: "'f device \<Rightarrow> nat" where
  "ppb dev = unat (pages_per_block (attr dev))"

text \<open>Access to the nodes.\<close>

definition upd_bi :: "nat \<Rightarrow> (BlockInfo \<Rightarrow> BlockInfo) \<Rightarrow> 'f device \<Rightarrow> 'f device" where
  "upd_bi x f dev = dev\<lparr>bc_nodes := (bc_nodes dev)(x := f (bc_nodes dev x))\<rparr>"

definition upd_buf :: "nat \<Rightarrow> (Buf \<Rightarrow> Buf) \<Rightarrow> 'f device \<Rightarrow> 'f device" where
  "upd_buf x f dev = dev\<lparr>bufs := (bufs dev)(x := f (bufs dev x))\<rparr>"

definition GET_TAG :: "'f device \<Rightarrow> nat \<Rightarrow> nat \<Rightarrow> Tags" where
  "GET_TAG dev bc page = sp_tag (bi_spares (bc_nodes dev bc) ! page)"

text \<open>A spare buffer is taken from the pool for the time of one operation.\<close>

definition get_spare :: "'f device \<Rightarrow> nat option \<times> 'f device" where
  "get_spare dev = (let (a, p) = uffs_PoolGet (spare_pool dev) in (a, dev\<lparr>spare_pool := p\<rparr>))"

definition put_spare :: "nat \<Rightarrow> 'f device \<Rightarrow> 'f device" where
  "put_spare a dev = dev\<lparr>spare_pool := snd (uffs_PoolPut (spare_pool dev) (Some a))\<rparr>"

end
