(* ===== verification/Pending.thy ===== *)
theory Pending
  imports Device
begin

text \<open>
  The pending block list of \<open>uffs_badblock.c\<close>: up to \<open>CONFIG_MAX_PENDING_BLOCKS\<close> blocks that
  wait to be refreshed, recovered, cleaned up or marked bad. The array is kept at its four
  entries with the counter beside it, because the recovery loop uses an entry after it has
  been counted out.

  The abstract view of the list is a map from block numbers to marks; the lemmas show that
  the operations keep the entries distinct and implement the map operations.
\<close>

section \<open>The code\<close>

definition UFFS_PENDING_BLK_NONE :: int where "UFFS_PENDING_BLK_NONE = - 1"
definition UFFS_PENDING_BLK_REFRESH :: u8 where "UFFS_PENDING_BLK_REFRESH = 0"
definition UFFS_PENDING_BLK_RECOVER :: u8 where "UFFS_PENDING_BLK_RECOVER = 1"
definition UFFS_PENDING_BLK_CLEANUP :: u8 where "UFFS_PENDING_BLK_CLEANUP = 2"
definition UFFS_PENDING_BLK_MARKBAD :: u8 where "UFFS_PENDING_BLK_MARKBAD = 3"

lemmas pending_marks = UFFS_PENDING_BLK_NONE_def UFFS_PENDING_BLK_REFRESH_def
  UFFS_PENDING_BLK_RECOVER_def UFFS_PENDING_BLK_CLEANUP_def UFFS_PENDING_BLK_MARKBAD_def

definition uffs_BadBlockInit :: "PendingList \<Rightarrow> PendingList" where
  "uffs_BadBlockInit p = p\<lparr>pend_count := 0, block_in_recovery := UFFS_INVALID_BLOCK\<rparr>"

text \<open>The index of a block among the counted entries: the loop the operations share.\<close>

definition pend_index :: "PendingList \<Rightarrow> int \<Rightarrow> nat option" where
  "pend_index p block =
     List.find (\<lambda>i. uint (pb_block (pend_list p ! i)) = block) [0..<nat (pend_count p)]"

definition uffs_BadBlockAdd :: "int \<Rightarrow> u8 \<Rightarrow> PendingList \<Rightarrow> PendingList" where
  "uffs_BadBlockAdd block mark p =
     (if uint (block_in_recovery p) = block then p
      else case pend_index p block of
        Some i \<Rightarrow> (let s = pend_list p ! i
                  in if pb_mark s < mark then p\<lparr>pend_list := (pend_list p)[i := s\<lparr>pb_mark := mark\<rparr>]\<rparr>
                     else p)
      | None \<Rightarrow>
          if pend_count p \<ge> int CONFIG_MAX_PENDING_BLOCKS then p
          else p\<lparr>pend_list := (pend_list p)[nat (pend_count p) :=
                                \<lparr>pb_block = word_of_int block, pb_mark = mark\<rparr>],
                 pend_count := pend_count p + 1\<rparr>)"

definition uffs_BadBlockAddByFlashResult :: "int \<Rightarrow> int \<Rightarrow> PendingList \<Rightarrow> int \<times> PendingList" where
  "uffs_BadBlockAddByFlashResult block flash_op_ret p =
     (let pending_type =
        (if CONFIG_UFFS_REFRESH_BLOCK \<and> flash_op_ret = UFFS_FLASH_ECC_OK then uint UFFS_PENDING_BLK_REFRESH
         else if UFFS_FLASH_IS_NON_RECOVER_BAD_BLOCK flash_op_ret then uint UFFS_PENDING_BLK_MARKBAD
         else if UFFS_FLASH_IS_BAD_BLOCK flash_op_ret then uint UFFS_PENDING_BLK_RECOVER
         else UFFS_PENDING_BLK_NONE)
      in (pending_type,
          if pending_type \<noteq> UFFS_PENDING_BLK_NONE
          then uffs_BadBlockAdd block (word_of_int pending_type) p else p))"

text \<open>The result is the index of the entry, a pointer into the array in the source.\<close>

definition uffs_BadBlockPendingNodeGet :: "PendingList \<Rightarrow> int \<Rightarrow> nat option" where
  "uffs_BadBlockPendingNodeGet p block = pend_index p block"

text \<open>The shift of the entries behind a removed one.\<close>

definition pend_shift :: "nat \<Rightarrow> nat \<Rightarrow> PendingBlock list \<Rightarrow> PendingBlock list" where
  "pend_shift i n xs = fold (\<lambda>j xs. xs[j := xs ! (j + 1)]) [i..<n - 1] xs"

definition uffs_BadBlockPendingRemove :: "int \<Rightarrow> PendingList \<Rightarrow> URET \<times> PendingList" where
  "uffs_BadBlockPendingRemove block p =
     (case pend_index p block of
        Some i \<Rightarrow> (U_SUCC, p\<lparr>pend_list := pend_shift i (nat (pend_count p)) (pend_list p),
                            pend_count := pend_count p - 1\<rparr>)
      | None \<Rightarrow> (U_FAIL, p))"

definition HAVE_BADBLOCK :: "PendingList \<Rightarrow> bool" where
  "HAVE_BADBLOCK p \<longleftrightarrow> pend_count p > 0"

section \<open>Well-formed lists and their map\<close>

definition pend_entries :: "PendingList \<Rightarrow> PendingBlock list" where
  "pend_entries p = take (nat (pend_count p)) (pend_list p)"

definition pend_inv :: "PendingList \<Rightarrow> bool" where
  "pend_inv p \<longleftrightarrow> 0 \<le> pend_count p \<and> pend_count p \<le> int CONFIG_MAX_PENDING_BLOCKS \<and>
     length (pend_list p) = CONFIG_MAX_PENDING_BLOCKS \<and> distinct (map pb_block (pend_entries p))"

definition pend_map :: "PendingList \<Rightarrow> u16 \<Rightarrow> u8 option" where
  "pend_map p = map_of (map (\<lambda>s. (pb_block s, pb_mark s)) (pend_entries p))"

lemma pend_inv_length: "pend_inv p \<Longrightarrow> int (length (pend_entries p)) = pend_count p"
  by (auto simp: pend_inv_def pend_entries_def)

lemma uint_eq_iff: "uint w = uint (v :: u16) \<longleftrightarrow> w = v"
  by (simp add: word_uint_eq_iff)

lemma pend_index_eq:
  assumes "pend_inv p"
  shows "pend_index p (uint b) = List.find (\<lambda>i. pb_block (pend_entries p ! i) = b) [0..<length (pend_entries p)]"
proof -
  have "length (pend_entries p) = nat (pend_count p)" using pend_inv_length[OF assms] by linarith
  then show ?thesis
    unfolding pend_index_def by (auto intro!: find_cong_set simp: uint_eq_iff pend_entries_def)
qed

lemma pend_index_Some:
  assumes "pend_inv p" "pend_index p (uint b) = Some i"
  shows "i < length (pend_entries p)" "pb_block (pend_entries p ! i) = b"
  using assms(2) unfolding pend_index_eq[OF assms(1)] by (auto dest: find_Some_in)

lemma pend_index_None:
  assumes "pend_inv p" "pend_index p (uint b) = None"
  shows "b \<notin> pb_block ` set (pend_entries p)"
  using assms(2) unfolding pend_index_eq[OF assms(1)] find_None_iff_set
  by (force simp: in_set_conv_nth)

lemma pend_map_index:
  assumes "pend_inv p" "pend_index p (uint b) = Some i"
  shows "pend_map p b = Some (pb_mark (pend_list p ! i))"
proof -
  note i = pend_index_Some[OF assms]
  have "distinct (map fst (map (\<lambda>s. (pb_block s, pb_mark s)) (pend_entries p)))"
    using assms(1) by (simp add: pend_inv_def comp_def)
  moreover have "(b, pb_mark (pend_entries p ! i)) \<in> set (map (\<lambda>s. (pb_block s, pb_mark s)) (pend_entries p))"
    using i by force
  ultimately have "pend_map p b = Some (pb_mark (pend_entries p ! i))"
    unfolding pend_map_def by (rule map_of_is_SomeI)
  then show ?thesis using i(1) by (simp add: pend_entries_def)
qed

lemma pend_map_None:
  assumes "pend_inv p" "pend_index p (uint b) = None"
  shows "pend_map p b = None"
  using pend_index_None[OF assms] by (force simp: pend_map_def map_of_eq_None_iff)

lemma pend_map_iff: "pend_inv p \<Longrightarrow> pend_map p b = None \<longleftrightarrow> pend_index p (uint b) = None"
  using pend_map_None pend_map_index by (cases "pend_index p (uint b)") fastforce+

lemma map_of_update:
  "distinct (map fst xs) \<Longrightarrow> i < length xs \<Longrightarrow> fst (xs ! i) = k \<Longrightarrow> map_of (xs[i := (k, v)]) = (map_of xs)(k \<mapsto> v)"
proof (induction xs arbitrary: i)
  case (Cons a xs)
  then show ?case
  proof (cases i)
    case (Suc j)
    then have "fst a \<noteq> k" using Cons.prems by (force simp: in_set_conv_nth)
    then show ?thesis using Suc Cons by (auto simp: fun_upd_twist)
  qed auto
qed simp

lemma map_of_remove:
  "distinct (map fst xs) \<Longrightarrow> i < length xs \<Longrightarrow> fst (xs ! i) = k \<Longrightarrow> map_of (take i xs @ drop (Suc i) xs) = (map_of xs)(k := None)"
proof (induction xs arbitrary: i)
  case (Cons a xs)
  then show ?case
  proof (cases i)
    case 0
    then have "map_of xs k = None" using Cons.prems by (auto simp: map_of_eq_None_iff)
    then show ?thesis using 0 Cons.prems by (auto simp: fun_upd_idem)
  next
    case (Suc j)
    then have "fst a \<noteq> k" using Cons.prems by (force simp: in_set_conv_nth)
    then show ?thesis using Suc Cons by (auto simp: fun_upd_twist)
  qed
qed simp

lemma length_pend_shift [simp]: "length (pend_shift i n xs) = length xs"
proof -
  have "length (fold (\<lambda>j xs. xs[j := xs ! (j + 1)]) js xs) = length xs" for js
    by (induction js arbitrary: xs) auto
  then show ?thesis by (simp add: pend_shift_def)
qed

lemma nth_pend_shift:
  fixes xs :: "PendingBlock list"
  shows "i \<le> k \<Longrightarrow> k < length xs \<Longrightarrow> j < length xs \<Longrightarrow>
     fold (\<lambda>j xs. xs[j := xs ! (j + 1)]) [i..<k] xs ! j = (if i \<le> j \<and> j < k then xs ! (j + 1) else xs ! j)"
proof (induction k arbitrary: j)
  case (Suc k)
  have l: "length (fold (\<lambda>j xs. xs[j := xs ! (j + 1)]) [i..<k] xs) = length xs"
    using length_pend_shift[of i "Suc k" xs] by (simp add: pend_shift_def)
  show ?case
  proof (cases "i \<le> k")
    case True
    then show ?thesis using Suc l by (auto simp: nth_list_update)
  next
    case False
    then have "i = Suc k" using Suc.prems(1) by simp
    then show ?thesis by auto
  qed
qed simp

lemma take_pend_shift:
  assumes "i < n" "n \<le> length xs"
  shows "take (n - 1) (pend_shift i n xs) = take i (take n xs) @ drop (Suc i) (take n xs)"
proof (rule nth_equalityI)
  show "length (take (n - 1) (pend_shift i n xs)) = length (take i (take n xs) @ drop (Suc i) (take n xs))"
    using assms by simp
next
  fix j assume "j < length (take (n - 1) (pend_shift i n xs))"
  then have j: "j < n - 1" "j < length xs" using assms by auto
  have "pend_shift i n xs ! j = (if i \<le> j \<and> j < n - 1 then xs ! (j + 1) else xs ! j)"
    unfolding pend_shift_def using assms j by (intro nth_pend_shift) auto
  then show "take (n - 1) (pend_shift i n xs) ! j = (take i (take n xs) @ drop (Suc i) (take n xs)) ! j"
    using assms j by (auto simp: nth_append min_def)
qed

lemma filter_remove_nth:
  "distinct (map f xs) \<Longrightarrow> i < length xs \<Longrightarrow> f (xs ! i) = k \<Longrightarrow>
     filter (\<lambda>x. f x \<noteq> k) xs = take i xs @ drop (Suc i) xs"
proof (induction xs arbitrary: i)
  case (Cons a xs)
  then show ?case
  proof (cases i)
    case 0
    then have "f x \<noteq> k" if "x \<in> set xs" for x using 0 Cons.prems that by (auto simp: image_iff)
    then show ?thesis using 0 Cons.prems by (auto simp: filter_id_conv)
  next
    case (Suc j)
    then have "f a \<noteq> k" using Cons.prems by (force simp: in_set_conv_nth)
    then show ?thesis using Suc Cons by auto
  qed
qed simp

lemma distinct_append_take_drop: "distinct xs \<Longrightarrow> distinct (take i xs @ drop (Suc i) xs)"
  using set_take_disj_set_drop_if_distinct[of xs i "Suc i"] by simp

section \<open>The operations on the map\<close>

lemma pend_distinct:
  "pend_inv p \<Longrightarrow> distinct (map fst (map (\<lambda>s. (pb_block s, pb_mark s)) (pend_entries p)))"
  by (simp add: pend_inv_def comp_def)

lemma Init_pend: "length (pend_list p) = CONFIG_MAX_PENDING_BLOCKS \<Longrightarrow>
    pend_inv (uffs_BadBlockInit p) \<and> pend_map (uffs_BadBlockInit p) = Map.empty"
  by (simp add: uffs_BadBlockInit_def pend_inv_def pend_map_def pend_entries_def)

lemma Add_known:
  assumes inv: "pend_inv p" and i: "pend_index p (uint b) = Some i"
  shows "pend_inv (p\<lparr>pend_list := (pend_list p)[i := (pend_list p ! i)\<lparr>pb_mark := m\<rparr>]\<rparr>)"
    and "pend_map (p\<lparr>pend_list := (pend_list p)[i := (pend_list p ! i)\<lparr>pb_mark := m\<rparr>]\<rparr>) = (pend_map p)(b \<mapsto> m)"
proof -
  let ?p = "p\<lparr>pend_list := (pend_list p)[i := (pend_list p ! i)\<lparr>pb_mark := m\<rparr>]\<rparr>"
  let ?f = "\<lambda>s. (pb_block s, pb_mark s)"
  note ix = pend_index_Some[OF inv i]
  have nth: "pend_list p ! i = pend_entries p ! i" using ix(1) by (simp add: pend_entries_def)
  have e: "pend_entries ?p = (pend_entries p)[i := (pend_entries p ! i)\<lparr>pb_mark := m\<rparr>]"
    using nth by (simp add: pend_entries_def take_update_swap)
  have "map pb_block (pend_entries ?p) = map pb_block (pend_entries p)"
    unfolding e map_update by (simp add: list_update_id[of "map pb_block (pend_entries p)" i, simplified nth_map[OF ix(1)]])
  then show "pend_inv ?p" using inv by (simp add: pend_inv_def)
  have "map ?f (pend_entries ?p) = (map ?f (pend_entries p))[i := (b, m)]"
    unfolding e map_update using ix by simp
  then show "pend_map ?p = (pend_map p)(b \<mapsto> m)"
    unfolding pend_map_def using map_of_update[OF pend_distinct[OF inv], of i b m] ix by simp
qed

lemma Add_new:
  fixes m :: u8
  assumes inv: "pend_inv p" and none: "pend_index p (uint b) = None"
    and space: "pend_count p < int CONFIG_MAX_PENDING_BLOCKS"
  defines "p' \<equiv> p\<lparr>pend_list := (pend_list p)[nat (pend_count p) := \<lparr>pb_block = b, pb_mark = m\<rparr>],
                   pend_count := pend_count p + 1\<rparr>"
  shows "pend_inv p'" and "pend_map p' = (pend_map p)(b \<mapsto> m)"
    and "pend_entries p' = pend_entries p @ [\<lparr>pb_block = b, pb_mark = m\<rparr>]"
proof -
  have n: "nat (pend_count p) < length (pend_list p)" "nat (pend_count p + 1) = Suc (nat (pend_count p))"
    using inv space by (auto simp: pend_inv_def)
  show e: "pend_entries p' = pend_entries p @ [\<lparr>pb_block = b, pb_mark = m\<rparr>]"
    using n by (simp add: p'_def pend_entries_def take_Suc_conv_app_nth take_update_cancel)
  have b: "b \<notin> pb_block ` set (pend_entries p)" by (rule pend_index_None[OF inv none])
  show "pend_inv p'"
    using inv space b unfolding pend_inv_def e by (auto simp: p'_def)
  show "pend_map p' = (pend_map p)(b \<mapsto> m)"
    unfolding pend_map_def e using pend_map_None[OF inv none]
    by (auto simp: map_add_def pend_map_def fun_eq_iff split: option.split)
qed

lemma Add_pend:
  assumes inv: "pend_inv p"
  shows "pend_inv (uffs_BadBlockAdd (uint b) m p)"
    and "pend_map (uffs_BadBlockAdd (uint b) m p) =
      (if block_in_recovery p = b then pend_map p
       else case pend_map p b of Some m' \<Rightarrow> (pend_map p)(b \<mapsto> max m' m)
            | None \<Rightarrow> if pend_count p < int CONFIG_MAX_PENDING_BLOCKS then (pend_map p)(b \<mapsto> m) else pend_map p)"
proof -
  show "pend_inv (uffs_BadBlockAdd (uint b) m p)"
    using Add_known(1)[OF inv] Add_new(1)[OF inv] inv
    by (simp add: uffs_BadBlockAdd_def Let_def uint_eq_iff not_le split: option.split)
  show "pend_map (uffs_BadBlockAdd (uint b) m p) =
      (if block_in_recovery p = b then pend_map p
       else case pend_map p b of Some m' \<Rightarrow> (pend_map p)(b \<mapsto> max m' m)
            | None \<Rightarrow> if pend_count p < int CONFIG_MAX_PENDING_BLOCKS then (pend_map p)(b \<mapsto> m) else pend_map p)"
  proof (cases "pend_index p (uint b)")
    case None
    then show ?thesis
      using pend_map_None[OF inv None] Add_new(2)[OF inv None]
      by (simp add: uffs_BadBlockAdd_def Let_def uint_eq_iff not_le)
  next
    case (Some i)
    then show ?thesis
      using pend_map_index[OF inv Some] Add_known(2)[OF inv Some]
      by (simp add: uffs_BadBlockAdd_def Let_def uint_eq_iff max_def fun_upd_idem)
  qed
qed

lemma Remove_pend:
  assumes inv: "pend_inv p"
  shows "pend_inv (snd (uffs_BadBlockPendingRemove (uint b) p))"
    and "pend_map (snd (uffs_BadBlockPendingRemove (uint b) p)) = (pend_map p)(b := None)"
    and "fst (uffs_BadBlockPendingRemove (uint b) p) = U_SUCC \<longleftrightarrow> pend_map p b \<noteq> None"
    and "pend_entries (snd (uffs_BadBlockPendingRemove (uint b) p)) =
           filter (\<lambda>s. pb_block s \<noteq> b) (pend_entries p)"
proof -
  let ?f = "\<lambda>s. (pb_block s, pb_mark s)"
  have d: "distinct (map pb_block (pend_entries p))" using inv by (simp add: pend_inv_def)
  show "fst (uffs_BadBlockPendingRemove (uint b) p) = U_SUCC \<longleftrightarrow> pend_map p b \<noteq> None"
    using pend_map_iff[OF inv, of b]
    by (auto simp: uffs_BadBlockPendingRemove_def split: option.split)
  have "pend_inv (snd (uffs_BadBlockPendingRemove (uint b) p)) \<and>
      pend_map (snd (uffs_BadBlockPendingRemove (uint b) p)) = (pend_map p)(b := None) \<and>
      pend_entries (snd (uffs_BadBlockPendingRemove (uint b) p)) =
        filter (\<lambda>s. pb_block s \<noteq> b) (pend_entries p)"
  proof (cases "pend_index p (uint b)")
    case None
    have "filter (\<lambda>s. pb_block s \<noteq> b) (pend_entries p) = pend_entries p"
      using pend_index_None[OF inv None] by (auto simp: filter_id_conv)
    then show ?thesis
      using None inv pend_map_None[OF inv None] by (simp add: uffs_BadBlockPendingRemove_def fun_upd_idem)
  next
    case (Some i)
    let ?p = "p\<lparr>pend_list := pend_shift i (nat (pend_count p)) (pend_list p), pend_count := pend_count p - 1\<rparr>"
    note ix = pend_index_Some[OF inv Some]
    have n: "i < nat (pend_count p)" "nat (pend_count p) \<le> length (pend_list p)"
      "nat (pend_count p - 1) = nat (pend_count p) - 1"
      using ix inv by (auto simp: pend_inv_def pend_entries_def)
    have e: "pend_entries ?p = take i (pend_entries p) @ drop (Suc i) (pend_entries p)"
      using take_pend_shift[OF n(1,2)] by (simp add: pend_entries_def n(3))
    have inv': "pend_inv ?p"
      using inv distinct_append_take_drop[OF d, of i] n unfolding pend_inv_def e
      by (simp add: take_map drop_map)
    moreover have "pend_map ?p = (pend_map p)(b := None)"
      unfolding pend_map_def e
      using map_of_remove[OF pend_distinct[OF inv], of i b] ix by (simp add: take_map drop_map)
    moreover have "filter (\<lambda>s. pb_block s \<noteq> b) (pend_entries p) = take i (pend_entries p) @ drop (Suc i) (pend_entries p)"
      by (rule filter_remove_nth[OF d ix])
    ultimately show ?thesis using Some e by (simp add: uffs_BadBlockPendingRemove_def)
  qed
  then show "pend_inv (snd (uffs_BadBlockPendingRemove (uint b) p))"
    "pend_map (snd (uffs_BadBlockPendingRemove (uint b) p)) = (pend_map p)(b := None)"
    "pend_entries (snd (uffs_BadBlockPendingRemove (uint b) p)) =
       filter (\<lambda>s. pb_block s \<noteq> b) (pend_entries p)" by simp_all
qed

text \<open>C28. The operations of the pending list implement a bounded map from blocks to marks:
  adding a block keeps the stronger of two marks and never evicts an entry (a block under
  recovery is ignored, and so is a new block when the list is full); removing a block reports
  whether it was listed and keeps the order of the others; the entries stay distinct.\<close>

theorem pending_refines_map:
  assumes "pend_inv p"
  shows "pend_inv (uffs_BadBlockAdd (uint b) m p) \<and>
     pend_map (uffs_BadBlockAdd (uint b) m p) =
      (if block_in_recovery p = b then pend_map p
       else case pend_map p b of Some m' \<Rightarrow> (pend_map p)(b \<mapsto> max m' m)
            | None \<Rightarrow> if pend_count p < int CONFIG_MAX_PENDING_BLOCKS then (pend_map p)(b \<mapsto> m) else pend_map p) \<and>
     pend_inv (snd (uffs_BadBlockPendingRemove (uint b) p)) \<and>
     pend_map (snd (uffs_BadBlockPendingRemove (uint b) p)) = (pend_map p)(b := None) \<and>
     (fst (uffs_BadBlockPendingRemove (uint b) p) = U_SUCC \<longleftrightarrow> pend_map p b \<noteq> None) \<and>
     pend_entries (snd (uffs_BadBlockPendingRemove (uint b) p)) = filter (\<lambda>s. pb_block s \<noteq> b) (pend_entries p)"
  using Add_pend[OF assms] Remove_pend[OF assms] by blast

definition pend0 :: PendingList where
  "pend0 = \<lparr>pend_count = 1, pend_list = [\<lparr>pb_block = 7, pb_mark = 1\<rparr>, \<lparr>pb_block = 0, pb_mark = 0\<rparr>,
     \<lparr>pb_block = 0, pb_mark = 0\<rparr>, \<lparr>pb_block = 0, pb_mark = 0\<rparr>], block_in_recovery = 0xfffe\<rparr>"

theorem pending_refines_map_witness:
  "pend_map (uffs_BadBlockAdd (uint (7 :: u16)) 3 pend0) 7 = Some 3"
proof -
  have inv: "pend_inv pend0"
    by (simp add: pend_inv_def pend0_def pend_entries_def CONFIG_MAX_PENDING_BLOCKS_def)
  have "pend_map pend0 7 = Some 1" by (simp add: pend_map_def pend_entries_def pend0_def)
  then show ?thesis using pending_refines_map[OF inv, of 7 3] by (simp add: pend0_def max_def)
qed

section \<open>Classification of flash results\<close>

text \<open>The result of a flash operation decides the mark: a corrected bit flip asks for a
  refresh, an uncorrectable page for marking the block bad, a reported bad block for recovery,
  and every other result leaves the list alone. Unless the list is full or the block is under
  recovery, the block is then listed with a mark at least as strong.\<close>

theorem AddByFlashResult_mark:
  fixes b :: u16 and ret :: int
  assumes "pend_inv p"
  defines "r \<equiv> uffs_BadBlockAddByFlashResult (uint b) ret p"
  shows "fst r = (if ret = UFFS_FLASH_ECC_OK then 0
                  else if ret = UFFS_FLASH_ECC_FAIL \<or> ret = UFFS_FLASH_CRC_ERR then 3
                  else if ret = UFFS_FLASH_BAD_BLK then 1 else - 1) \<and>
         pend_inv (snd r) \<and> (fst r = - 1 \<longrightarrow> snd r = p) \<and>
         (fst r \<noteq> - 1 \<and> block_in_recovery p \<noteq> b \<and> pend_count p < int CONFIG_MAX_PENDING_BLOCKS \<longrightarrow>
            (\<exists>m. pend_map (snd r) b = Some m \<and> fst r \<le> uint m))"
proof -
  have fst: "fst r = (if ret = UFFS_FLASH_ECC_OK then 0
      else if ret = UFFS_FLASH_ECC_FAIL \<or> ret = UFFS_FLASH_CRC_ERR then 3
      else if ret = UFFS_FLASH_BAD_BLK then 1 else - 1)"
    by (simp add: r_def uffs_BadBlockAddByFlashResult_def Let_def CONFIG_UFFS_REFRESH_BLOCK_def
        flash_preds flash_codes pending_marks)
  have snd: "snd r = (if fst r = - 1 then p else uffs_BadBlockAdd (uint b) (word_of_int (fst r)) p)"
    by (simp add: r_def uffs_BadBlockAddByFlashResult_def Let_def pending_marks)
  have w: "fst r \<noteq> - 1 \<Longrightarrow> uint (word_of_int (fst r) :: u8) = fst r"
    unfolding fst by auto
  have m: "fst r \<le> uint (max m' (word_of_int (fst r)))" if "fst r \<noteq> - 1" for m' :: u8
    using w[OF that] by (simp add: max_def word_le_def)
  show ?thesis
    using fst snd Add_pend[OF assms(1)] assms(1) m w by (auto split: option.split)
qed

theorem AddByFlashResult_mark_witness:
  "fst (uffs_BadBlockAddByFlashResult (uint (7 :: u16)) (- 2) pend0) = 3"
proof -
  have inv: "pend_inv pend0"
    by (simp add: pend_inv_def pend0_def pend_entries_def CONFIG_MAX_PENDING_BLOCKS_def)
  show ?thesis using AddByFlashResult_mark[OF inv, of 7 "- 2"] by (simp add: flash_codes)
qed

end
