(* ===== verification/Flash_Read.thy ===== *)
theory Flash_Read
  imports Device Crc16
begin

text \<open>
  The reading half of \<open>uffs_flash.c\<close>: \<open>uffs_FlashReadPageTag\<close>, \<open>uffs_FlashReadPage\<close> and
  \<open>uffs_FlashIsBadBlock\<close>. Each takes a spare buffer from the pool, calls the driver function
  that is present, applies the ECC and puts the buffer back. \<open>None\<close> is a call through a null
  function pointer.

  The lemmas show that the spare pool is left as it was on every path, and what the functions
  return when the driver delivers a page with at most one flipped bit per ECC unit.
\<close>

section \<open>The code\<close>

subsection \<open>uffs_FlashReadPageTag\<close>

text \<open>The driver call: the tag the caller passed, with what was read into it.\<close>

definition read_tag_driver ::
  "int \<Rightarrow> int \<Rightarrow> nat \<Rightarrow> Tags option \<Rightarrow> 'f device \<Rightarrow> (int \<times> Tags option \<times> 'f device) option" where
  "read_tag_driver block page a tag dev =
     (case ReadPageWithLayout (ops dev) of
        Some rd \<Rightarrow>
          (let ((ret, _, _, ts, _), f) = rd (word_of_int block) (word_of_int page) None None
                                            (map_option tag_s tag) None (drv dev);
               tag = map_option (\<lambda>t. t\<lparr>tag_s := (case ts of Some s \<Rightarrow> s | None \<Rightarrow> tag_s t),
                        seal_byte := (if ret = UFFS_FLASH_NOT_SEALED then 0xFF else 0)\<rparr>) tag
           in Some (if ret = UFFS_FLASH_NOT_SEALED then UFFS_FLASH_NO_ERR else ret, tag, dev\<lparr>drv := f\<rparr>))
      | None \<Rightarrow> do {
          rd \<leftarrow> ReadPage (ops dev);
          let n = nat (spare_data_size dev);
          let ((ret, _, _, sp), f) = rd (word_of_int block) (word_of_int page) None None
                                        (Some (take n (spare_mem dev a))) (drv dev);
          let buf = (case sp of Some s \<Rightarrow> memcpy (spare_mem dev a) 0 s | None \<Rightarrow> spare_mem dev a);
          let tag = map_option (\<lambda>t.
                      (if \<not> UFFS_FLASH_HAVE_ERR ret
                       then t\<lparr>tag_s := (case fst (uffs_FlashUnloadSpare (attr dev) buf (Some (tag_s t)) None) of
                                         Some s \<Rightarrow> s | None \<Rightarrow> tag_s t)\<rparr> else t)
                      \<lparr>seal_byte := buf ! (n - 1)\<rparr>) tag;
          Some (ret, tag, dev\<lparr>drv := f, spare_mem := (spare_mem dev)(a := buf)\<rparr>)
        })"

text \<open>The tag ECC: an error or a correction replaces the driver's result.\<close>

definition read_tag_ecc :: "storage_attr \<Rightarrow> int \<Rightarrow> Tags option \<Rightarrow> int \<times> Tags option" where
  "read_tag_ecc at ret tag =
     (if UFFS_FLASH_HAVE_ERR ret then (ret, tag)
      else case tag of None \<Rightarrow> (ret, tag)
      | Some t \<Rightarrow>
          if \<not> TAG_IS_SEALED t then (ret, tag)
          else if ecc_opt at \<noteq> UFFS_ECC_NONE
          then let (r, s) = TagEccCorrect (tag_s t);
                   ret_tmp = (if r < 0 then UFFS_FLASH_ECC_FAIL
                              else if r > 0 then UFFS_FLASH_ECC_OK else UFFS_FLASH_NO_ERR)
               in (if UFFS_FLASH_HAVE_ERR ret_tmp \<or> ret_tmp = UFFS_FLASH_ECC_OK then ret_tmp else ret,
                   Some (t\<lparr>tag_s := s\<rparr>))
          else (ret, tag))"

definition uffs_FlashReadPageTag ::
  "int \<Rightarrow> int \<Rightarrow> Tags option \<Rightarrow> 'f device \<Rightarrow> (int \<times> Tags option \<times> 'f device) option" where
  "uffs_FlashReadPageTag block page tag dev =
     (let (spare_buf, dev) = get_spare dev
      in case spare_buf of None \<Rightarrow> Some (UFFS_FLASH_UNKNOWN_ERR, tag, dev)
         | Some a \<Rightarrow> do {
             (ret, tag, dev) \<leftarrow> read_tag_driver block page a tag dev;
             let (ret, tag) = read_tag_ecc (attr dev) ret tag;
             Some (ret, tag, put_spare a dev)
           })"

subsection \<open>uffs_FlashReadPage\<close>

text \<open>The mini header and the data behind it, in the page memory of a buffer.\<close>

definition SIZEOF_MINIHEADER :: nat where
  "SIZEOF_MINIHEADER = 4"

definition page_crc_ok :: "nat \<Rightarrow> bytes \<Rightarrow> bool" where
  "page_crc_ok sz page \<longleftrightarrow>
     (ucast (page ! 2) OR push_bit 8 (ucast (page ! 3)) :: u16) =
     uffs_crc16sum (take (sz - SIZEOF_MINIHEADER) (drop SIZEOF_MINIHEADER page))"

text \<open>The driver call fills the page, and without \<open>skip_ecc\<close> the two ECC arrays and the spare
  buffer.\<close>

definition read_page_driver ::
  "int \<Rightarrow> int \<Rightarrow> nat \<Rightarrow> bytes \<Rightarrow> bool \<Rightarrow> 'f device \<Rightarrow>
     (int \<times> bytes \<times> bytes \<times> bytes \<times> 'f device) option" where
  "read_page_driver block page a mem skip_ecc dev =
     (let size = unat (pg_size dev);
          b = word_of_int block; p = word_of_int page;
          e0 = uninit dev;
          upd = (\<lambda>old new. case new of Some x \<Rightarrow> memcpy old 0 x | None \<Rightarrow> old)
      in case ReadPageWithLayout (ops dev) of
        Some rd \<Rightarrow>
          (let ((ret, d, ecc, _, st), f) =
             (if skip_ecc then rd b p (Some (take size mem)) None None None (drv dev)
              else rd b p (Some (take size mem)) (Some e0) None (Some e0) (drv dev))
           in Some (ret, upd mem d, upd e0 ecc, upd e0 st, dev\<lparr>drv := f\<rparr>))
      | None \<Rightarrow> do {
          rd \<leftarrow> ReadPage (ops dev);
          let ((ret, d, ecc, sp), f) =
            (if skip_ecc then rd b p (Some (take size mem)) None None (drv dev)
             else rd b p (Some (take size mem)) (Some e0)
                    (Some (take (nat (spare_data_size dev)) (spare_mem dev a))) (drv dev));
          Some (ret, upd mem d, upd e0 ecc, e0,
                dev\<lparr>drv := f, spare_mem := (spare_mem dev)(a := upd (spare_mem dev a) sp)\<rparr>)
        })"

text \<open>What follows a successful driver call: CRC, software ECC, correction, CRC again. The
  result is the code and the page memory.\<close>

definition read_page_check ::
  "'f device \<Rightarrow> nat \<Rightarrow> bool \<Rightarrow> int \<Rightarrow> bytes \<Rightarrow> bytes \<Rightarrow> bytes \<Rightarrow> int \<times> bytes" where
  "read_page_check dev a skip_ecc ret mem ecc_buf ecc_store =
     (let size = pg_size dev; at = attr dev;
          ret = (if ret = UFFS_FLASH_NOT_SEALED then UFFS_FLASH_NO_ERR else ret);
          soft = (ecc_opt at = UFFS_ECC_SOFT); hw = (ecc_opt at = UFFS_ECC_HW)
      in if CONFIG_ENABLE_PAGE_DATA_CRC \<and> \<not> skip_ecc \<and> page_crc_ok (unat size) mem then (ret, mem)
         else if CONFIG_ENABLE_PAGE_DATA_CRC \<and> \<not> skip_ecc \<and>
                 (ecc_opt at = UFFS_ECC_NONE \<or> ecc_opt at = UFFS_ECC_HW_AUTO)
         then (UFFS_FLASH_CRC_ERR, mem)
         else let
           ecc_buf = (if soft \<and> \<not> skip_ecc
                      then the (snd (uffs_EccMake (Some mem) (uint size) (Some ecc_buf))) else ecc_buf);
           ecc_store = (if ReadPageWithLayout (ops dev) = None \<and> \<not> skip_ecc \<and> (soft \<or> hw)
                        then the (snd (uffs_FlashUnloadSpare at (spare_mem dev a) None (Some ecc_store)))
                        else ecc_store);
           (ret2, mem2) = (if \<not> skip_ecc \<and> (soft \<or> hw)
                           then (let (r, m) = uffs_EccCorrect (Some mem) (uint size) (Some ecc_store) (Some ecc_buf)
                                 in (if r < 0 then UFFS_FLASH_ECC_FAIL
                                     else if r > 0 then UFFS_FLASH_ECC_OK else UFFS_FLASH_NO_ERR, the m))
                           else (UFFS_FLASH_NO_ERR, mem))
         in if UFFS_FLASH_HAVE_ERR ret2 then (ret2, mem2)
            else let ret = (if ret2 = UFFS_FLASH_ECC_OK then ret2 else ret)
                 in if CONFIG_ENABLE_PAGE_DATA_CRC \<and> \<not> skip_ecc \<and> \<not> UFFS_FLASH_HAVE_ERR ret \<and>
                       \<not> page_crc_ok (unat size) mem2
                    then (UFFS_FLASH_CRC_ERR, mem2) else (ret, mem2))"

definition uffs_FlashReadPage :: "int \<Rightarrow> int \<Rightarrow> nat \<Rightarrow> bool \<Rightarrow> 'f device \<Rightarrow> (int \<times> 'f device) option" where
  "uffs_FlashReadPage block page buf skip_ecc dev =
     (let (spare, dev) = get_spare dev
      in case spare of None \<Rightarrow> Some (UFFS_FLASH_UNKNOWN_ERR, dev)
         | Some a \<Rightarrow> do {
             (ret, mem, ecc_buf, ecc_store, dev) \<leftarrow> read_page_driver block page a (b_page (bufs dev buf)) skip_ecc dev;
             let (ret, mem) = (if UFFS_FLASH_HAVE_ERR ret then (ret, mem)
                               else read_page_check dev a skip_ecc ret mem ecc_buf ecc_store);
             Some (ret, put_spare a (upd_buf buf (\<lambda>b. b\<lparr>b_page := mem\<rparr>) dev))
           })"

subsection \<open>uffs_FlashIsBadBlock\<close>

text \<open>Reading the status byte of one page.\<close>

definition read_bad_mark :: "int \<Rightarrow> int \<Rightarrow> 'f device \<Rightarrow> (bool \<times> 'f device) option" where
  "read_bad_mark block page dev =
     (case ReadPageWithLayout (ops dev) of
        Some rd \<Rightarrow> (let ((ret, _), f) = rd (word_of_int block) (word_of_int page) None None None None (drv dev)
                   in Some (ret = UFFS_FLASH_BAD_BLK, dev\<lparr>drv := f\<rparr>))
      | None \<Rightarrow> do {
          rd \<leftarrow> ReadPage (ops dev);
          let ((ret, _), f) = rd (word_of_int block) (word_of_int page) None None None (drv dev);
          Some (ret = UFFS_FLASH_BAD_BLK, dev\<lparr>drv := f\<rparr>)
        })"

definition uffs_FlashIsBadBlock :: "int \<Rightarrow> 'f device \<Rightarrow> (bool \<times> 'f device) option" where
  "uffs_FlashIsBadBlock block dev =
     (case IsBadBlock (ops dev) of
        Some g \<Rightarrow> (let (r, f) = g (word_of_int block) (drv dev) in Some (r \<noteq> 0, dev\<lparr>drv := f\<rparr>))
      | None \<Rightarrow> do {
          (b, dev) \<leftarrow> read_bad_mark block 0 dev;
          (if b then Some (True, dev) else read_bad_mark block 1 dev)
        })"

text \<open>\<open>uffs_LoadMiniHeader\<close> of \<open>uffs_public.c\<close>: only the four header bytes are read.\<close>

definition uffs_LoadMiniHeader :: "int \<Rightarrow> u16 \<Rightarrow> bytes \<Rightarrow> 'f device \<Rightarrow> (URET \<times> bytes \<times> 'f device) option" where
  "uffs_LoadMiniHeader block page header dev =
     (let fin = (\<lambda>ret d f. (if UFFS_FLASH_HAVE_ERR ret then U_FAIL else U_SUCC,
                            case d of Some x \<Rightarrow> memcpy header 0 x | None \<Rightarrow> header,
                            dev\<lparr>drv := f, page_header_read_count := page_header_read_count dev + 1\<rparr>))
      in case ReadPageWithLayout (ops dev) of
           Some rd \<Rightarrow>
             (let ((ret, d, _, _, _), f) = rd (word_of_int block) (ucast page)
                (Some (take SIZEOF_MINIHEADER header)) None None None (drv dev)
              in Some (fin ret d f))
         | None \<Rightarrow> do {
             rd \<leftarrow> ReadPage (ops dev);
             let ((ret, d, _, _), f) = rd (word_of_int block) (ucast page)
               (Some (take SIZEOF_MINIHEADER header)) None None (drv dev);
             Some (fin ret d f)
           })"

section \<open>The spare buffer is given back\<close>

lemma get_spare_None: "get_spare dev = (None, dev') \<Longrightarrow> dev' = dev"
  by (auto simp: get_spare_def uffs_PoolGet_def split: option.splits)

lemma get_put_spare:
  fixes dev dev1 :: "'f device"
  assumes "get_spare dev = (Some a, dev1)"
  obtains q where "dev1 = dev\<lparr>spare_pool := q\<rparr>"
    "\<And>dev2 :: 'f device. spare_pool dev2 = q \<Longrightarrow> put_spare a dev2 = dev2\<lparr>spare_pool := spare_pool dev\<rparr>"
  using assms by (auto simp: get_spare_def put_spare_def uffs_PoolGet_def uffs_PoolPut_def split: option.splits)

lemma frame_drv [simp]:
  "\<exists>g m. dev\<lparr>drv := f\<rparr> = dev\<lparr>drv := g, spare_mem := m\<rparr>"
  "\<exists>g m'. dev\<lparr>drv := f, spare_mem := m\<rparr> = dev\<lparr>drv := g, spare_mem := m'\<rparr>"
  by (intro exI[of _ f] exI[of _ "spare_mem dev"]; simp) blast

lemma put_get_spare:
  fixes dev dev1 dev2 :: "'f device"
  assumes "get_spare dev = (Some a, dev1)" "spare_pool dev2 = spare_pool dev1"
  shows "put_spare a dev2 = dev2\<lparr>spare_pool := spare_pool dev\<rparr>"
  using assms by (auto simp: get_spare_def put_spare_def uffs_PoolGet_def uffs_PoolPut_def split: option.splits)

lemma read_tag_driver_frame:
  "read_tag_driver block page a tag dev = Some (ret, tag', dev') \<Longrightarrow>
     (\<exists>f m. dev' = dev\<lparr>drv := f, spare_mem := m\<rparr>) \<and> (tag = None \<longleftrightarrow> tag' = None)"
  unfolding read_tag_driver_def
  by (cases "ReadPageWithLayout (ops dev)"; cases tag)
    (auto simp: Let_def bind_eq_Some_conv case_prod_unfold)

lemma read_tag_ecc_None: "read_tag_ecc at ret tag = (ret', tag') \<Longrightarrow> tag = None \<longleftrightarrow> tag' = None"
  by (auto simp: read_tag_ecc_def Let_def split: if_splits option.splits prod.splits)

text \<open>Reading a tag changes the driver state and the scratch memory of the spare pool only.\<close>

lemma ReadPageTag_frame:
  fixes dev dev' :: "'f device"
  assumes "uffs_FlashReadPageTag block page tag dev = Some (ret, tag', dev')"
  shows "\<exists>f m. dev' = dev\<lparr>drv := f, spare_mem := m\<rparr>" and "tag = None \<longleftrightarrow> tag' = None"
proof -
  have "(\<exists>f m. dev' = dev\<lparr>drv := f, spare_mem := m\<rparr>) \<and> (tag = None \<longleftrightarrow> tag' = None)"
  proof (cases "get_spare dev")
    case (Pair sp dev1)
    show ?thesis
    proof (cases sp)
      case None
      then have "dev' = dev" "tag' = tag"
        using assms Pair by (auto simp: uffs_FlashReadPageTag_def dest: get_spare_None)
      then show ?thesis by (intro conjI exI[of _ "drv dev"] exI[of _ "spare_mem dev"]) simp_all
    next
      case (Some a)
      obtain q where gp: "dev1 = dev\<lparr>spare_pool := q\<rparr>"
        "\<And>dev2 :: 'f device. spare_pool dev2 = q \<Longrightarrow> put_spare a dev2 = dev2\<lparr>spare_pool := spare_pool dev\<rparr>"
        using get_put_spare[OF Pair[unfolded Some]] by blast
      obtain r t dev2 where d: "read_tag_driver block page a tag dev1 = Some (r, t, dev2)"
        and e: "read_tag_ecc (attr dev2) r t = (ret, tag')" and p: "dev' = put_spare a dev2"
        using assms Pair Some
        by (auto simp: uffs_FlashReadPageTag_def Let_def bind_eq_Some_conv case_prod_unfold prod_eq_iff)
      obtain f m where f: "dev2 = dev1\<lparr>drv := f, spare_mem := m\<rparr>" "tag = None \<longleftrightarrow> t = None"
        using read_tag_driver_frame[OF d] by auto
      have "dev' = dev\<lparr>drv := f, spare_mem := m\<rparr>"
        unfolding p using gp f(1) by simp
      then show ?thesis using f(2) read_tag_ecc_None[OF e] by blast
    qed
  qed
  then show "\<exists>f m. dev' = dev\<lparr>drv := f, spare_mem := m\<rparr>" "tag = None \<longleftrightarrow> tag' = None" by auto
qed

lemma read_page_driver_frame:
  "read_page_driver block page a mem skip dev = Some (ret, mem', e, st, dev') \<Longrightarrow>
     \<exists>f m. dev' = dev\<lparr>drv := f, spare_mem := m\<rparr>"
  unfolding read_page_driver_def
  by (cases "ReadPageWithLayout (ops dev)"; cases skip)
    (auto simp: Let_def bind_eq_Some_conv case_prod_unfold)

text \<open>Reading a page changes, beside these, the page memory of the buffer.\<close>

lemma ReadPage_frame:
  fixes dev dev' :: "'f device"
  assumes "uffs_FlashReadPage block page buf skip dev = Some (ret, dev')"
  shows "\<exists>f m mem. dev' = (upd_buf buf (\<lambda>b. b\<lparr>b_page := mem\<rparr>) dev)\<lparr>drv := f, spare_mem := m\<rparr>"
proof (cases "get_spare dev")
  case (Pair sp dev1)
  show ?thesis
  proof (cases sp)
    case None
    then have "dev' = dev" using assms Pair by (auto simp: uffs_FlashReadPage_def dest: get_spare_None)
    then show ?thesis
      by (intro exI[of _ "b_page (bufs dev buf)"] exI[of _ "drv dev"] exI[of _ "spare_mem dev"])
        (simp add: upd_buf_def)
  next
    case (Some a)
    obtain q where gp: "dev1 = dev\<lparr>spare_pool := q\<rparr>"
      "\<And>dev2 :: 'f device. spare_pool dev2 = q \<Longrightarrow> put_spare a dev2 = dev2\<lparr>spare_pool := spare_pool dev\<rparr>"
      using get_put_spare[OF Pair[unfolded Some]] by blast
    obtain r m0 e st dev2 mem where
      d: "read_page_driver block page a (b_page (bufs dev1 buf)) skip dev1 = Some (r, m0, e, st, dev2)"
      and p: "dev' = put_spare a (upd_buf buf (\<lambda>b. b\<lparr>b_page := mem\<rparr>) dev2)"
      using assms Pair Some
      by (auto simp: uffs_FlashReadPage_def Let_def bind_eq_Some_conv case_prod_unfold prod_eq_iff)
    obtain f m where f: "dev2 = dev1\<lparr>drv := f, spare_mem := m\<rparr>"
      using read_page_driver_frame[OF d] by blast
    have "dev' = (upd_buf buf (\<lambda>b. b\<lparr>b_page := mem\<rparr>) dev)\<lparr>drv := f, spare_mem := m\<rparr>"
      unfolding p using gp f(1) by (simp add: upd_buf_def)
    then show ?thesis by blast
  qed
qed

section \<open>The functions return\<close>

text \<open>Reading a tag never fails to return when the driver has a read function.\<close>

definition can_read :: "'f device \<Rightarrow> bool" where
  "can_read dev \<longleftrightarrow> ReadPage (ops dev) \<noteq> None \<or> ReadPageWithLayout (ops dev) \<noteq> None"

lemma can_read_other [simp]:
  "can_read (dev\<lparr>drv := f, spare_mem := m\<rparr>) = can_read dev" "can_read (dev\<lparr>pending := p\<rparr>) = can_read dev"
  by (simp_all add: can_read_def)

lemma get_spare_ops: "ops (snd (get_spare dev)) = ops dev"
  by (simp add: get_spare_def case_prod_unfold Let_def)

lemma ReadPageTag_total: "can_read dev \<Longrightarrow> \<exists>r. uffs_FlashReadPageTag block page tag dev = Some r"
  using get_spare_ops[of dev]
  by (cases "get_spare dev"; cases "ReadPageWithLayout (ops dev)"; cases "ReadPage (ops dev)")
    (auto simp: can_read_def uffs_FlashReadPageTag_def read_tag_driver_def Let_def case_prod_unfold
      split: option.split)

lemma ReadPage_total: "can_read dev \<Longrightarrow> \<exists>r. uffs_FlashReadPage block page buf skip dev = Some r"
  using get_spare_ops[of dev]
  by (cases "get_spare dev"; cases "ReadPageWithLayout (ops dev)"; cases "ReadPage (ops dev)")
    (auto simp: can_read_def uffs_FlashReadPage_def read_page_driver_def Let_def case_prod_unfold
      split: option.split)

section \<open>Readable flash\<close>

text \<open>The interface of a driver that leaves the spare layout to UFFS, as far as it is read:
  \<open>cell f b p\<close> is what the data and the spare area of a page hold, and \<open>ready f b p dl sl\<close>
  that the page can be read for \<open>dl\<close> data and \<open>sl\<close> spare bytes.\<close>

locale flash_reader =
  fixes D :: "'f flash_ops"
    and cell :: "'f \<Rightarrow> nat \<Rightarrow> nat \<Rightarrow> bytes \<times> bytes"
    and ready :: "'f \<Rightarrow> nat \<Rightarrow> nat \<Rightarrow> nat \<Rightarrow> nat \<Rightarrow> bool"
  assumes no_layout: "ReadPageWithLayout D = None"
    and has_read: "ReadPage D \<noteq> None"
    and read: "ready f b p dl sl \<Longrightarrow> d \<noteq> None \<or> s \<noteq> None \<Longrightarrow>
       (\<And>x. d = Some x \<Longrightarrow> length x = dl) \<Longrightarrow> (\<And>x. s = Some x \<Longrightarrow> length x = sl) \<Longrightarrow>
       the (ReadPage D) (word_of_nat b) (word_of_nat p) d e s f =
         ((UFFS_FLASH_NO_ERR, map_option (\<lambda>_. take dl (fst (cell f b p))) d, e,
           map_option (\<lambda>_. take sl (snd (cell f b p))) s), f)"
    and cell_size: "ready f b p dl sl \<Longrightarrow> dl \<le> length (fst (cell f b p)) \<and> sl \<le> length (snd (cell f b p))"

text \<open>The tag and the page ECC in a spare area, by the layout of the device.\<close>

definition cell_tag :: "storage_attr \<Rightarrow> bytes \<Rightarrow> TagStore" where
  "cell_tag at s = bytes_ts (drop (nat (ecc_len at)) (map ((!) s) (spare_pos at)))"

definition cell_ecc :: "storage_attr \<Rightarrow> bytes \<Rightarrow> bytes" where
  "cell_ecc at s = take (nat (ecc_len at)) (map ((!) s) (spare_pos at))"

text \<open>What the reading functions need of the device: its layout fits the spare buffers, and a
  spare buffer is free.\<close>

definition spare_ready :: "'f device \<Rightarrow> bool" where
  "spare_ready dev \<longleftrightarrow> layout_ok (attr dev) (nat (spare_data_size dev)) \<and>
     (\<exists>a. p_free_list (spare_pool dev) = Some a \<and> nat (spare_data_size dev) \<le> length (spare_mem dev a)) \<and>
     nat (ecc_len (attr dev)) \<le> length (uninit dev)"

lemma spare_readyE:
  assumes "spare_ready dev"
  obtains a q where "get_spare dev = (Some a, dev\<lparr>spare_pool := q\<rparr>)"
    "nat (spare_data_size dev) \<le> length (spare_mem dev a)"
    "layout_ok (attr dev) (nat (spare_data_size dev))" "nat (ecc_len (attr dev)) \<le> length (uninit dev)"
proof -
  obtain a where a: "p_free_list (spare_pool dev) = Some a" "nat (spare_data_size dev) \<le> length (spare_mem dev a)"
    using assms by (auto simp: spare_ready_def)
  then have "get_spare dev = (Some a, dev\<lparr>spare_pool := snd (uffs_PoolGet (spare_pool dev))\<rparr>)"
    by (simp add: get_spare_def uffs_PoolGet_def)
  from that[OF this a(2)] assms show thesis by (simp add: spare_ready_def)
qed

lemma memcpy_nth: "i < length s \<Longrightarrow> memcpy m 0 s ! i = s ! i"
  by (simp add: memcpy_def nth_append)

lemma memcpy_all: "length s = length m \<Longrightarrow> memcpy m 0 s = s"
  by (simp add: memcpy_def)

lemma FlashUnloadSpare_cell:
  assumes "layout_ok at n" "n \<le> length m" "n \<le> length s" "\<And>e. e0 = Some e \<Longrightarrow> nat (ecc_len at) \<le> length e"
  shows "uffs_FlashUnloadSpare at (memcpy m 0 (take n s)) t0 e0 =
    (map_option (\<lambda>_. cell_tag at s) t0, map_option (\<lambda>e. memcpy e 0 (cell_ecc at s)) e0)"
proof -
  let ?m = "memcpy m 0 (take n s)"
  note ok = spare_pos_ok[OF assms(1)]
  have r: "map ((!) ?m) (spare_pos at) = map ((!) s) (spare_pos at)"
    using ok(3) assms(2,3) by (auto simp: memcpy_nth)
  obtain d e where l: "data_layout at = Some d" "ecc_layout at = Some e"
    and len: "length (layout_pos d 8) = 8" "length (layout_pos e (ecc_size at)) = nat (ecc_len at)"
    and pos: "\<forall>q \<in> set (layout_pos e (ecc_size at)). q < n" "\<forall>q \<in> set (layout_pos d 8). q < n"
    and sp: "spare_pos at = layout_pos e (ecc_size at) @ layout_pos d 8"
    by (rule layout_okE[OF assms(1)])
  have rd: "map ((!) ?m) (layout_pos d 8) = map ((!) s) (layout_pos d 8)"
    and re: "map ((!) ?m) (layout_pos e (ecc_size at)) = map ((!) s) (layout_pos e (ecc_size at))"
    using r unfolding sp by simp_all
  have ml: "n \<le> length ?m" using assms(2,3) by (simp add: memcpy_def)
  have "unload_segs d ?m (ts_bytes t) 0 8 = map ((!) s) (layout_pos d 8)" for t
    unfolding rd[symmetric] using len(1) pos(2) ml by (subst unload_segs_read) (auto simp: memcpy_def)
  moreover have "unload_segs e ?m x 0 (ecc_size at) = memcpy x 0 (map ((!) s) (layout_pos e (ecc_size at)))"
    if "e0 = Some x" for x
    unfolding re[symmetric] using len(2) pos(1) ml assms(4)[OF that] by (subst unload_segs_read) auto
  ultimately show ?thesis
    using len unfolding uffs_FlashUnloadSpare_def sp l TAG_STORE_SIZE_def cell_tag_def cell_ecc_def
    by (cases t0; cases e0) auto
qed

context flash_reader
begin

text \<open>The tag that is read is the one in the spare area, after the tag ECC.\<close>

lemma ReadPageTag_cell:
  assumes "ops dev = D" "spare_ready dev" "ready (drv dev) b p dl (nat (spare_data_size dev))"
  defines "s \<equiv> snd (cell (drv dev) b p)"
  shows "\<exists>m. (\<forall>x. length (m x) = length (spare_mem dev x)) \<and> uffs_FlashReadPageTag (int b) (int p) (Some t0) dev =
    Some (fst (read_tag_ecc (attr dev) UFFS_FLASH_NO_ERR
            (Some (t0\<lparr>tag_s := cell_tag (attr dev) s, seal_byte := s ! (nat (spare_data_size dev) - 1)\<rparr>))),
          snd (read_tag_ecc (attr dev) UFFS_FLASH_NO_ERR
            (Some (t0\<lparr>tag_s := cell_tag (attr dev) s, seal_byte := s ! (nat (spare_data_size dev) - 1)\<rparr>))),
          dev\<lparr>spare_mem := m\<rparr>)"
proof -
  let ?n = "nat (spare_data_size dev)"
  obtain a q where g: "get_spare dev = (Some a, dev\<lparr>spare_pool := q\<rparr>)" "?n \<le> length (spare_mem dev a)"
    "layout_ok (attr dev) ?n"
    by (rule spare_readyE[OF assms(2)])
  have put: "put_spare a (dev\<lparr>spare_pool := q, spare_mem := m\<rparr>) = dev\<lparr>spare_mem := m\<rparr>" for m
    using put_get_spare[OF g(1)] by simp
  obtain rd where rd: "ReadPage D = Some rd" using has_read by blast
  have n: "?n \<le> length s" "0 < ?n"
    using cell_size[OF assms(3)] spare_pos_ok(4)[OF g(3)] by (auto simp: s_def)
  have call: "rd (word_of_nat b) (word_of_nat p) None None (Some (take ?n (spare_mem dev a))) (drv dev)
      = ((UFFS_FLASH_NO_ERR, None, None, Some (take ?n s)), drv dev)"
  proof -
    have "the (ReadPage D) (word_of_nat b) (word_of_nat p) None None (Some (take ?n (spare_mem dev a))) (drv dev)
        = ((UFFS_FLASH_NO_ERR, map_option (\<lambda>_. take dl (fst (cell (drv dev) b p))) (None :: bytes option), None,
            map_option (\<lambda>_. take ?n (snd (cell (drv dev) b p))) (Some (take ?n (spare_mem dev a)))), drv dev)"
      by (rule read[OF assms(3)]) (use g(2) in auto)
    then show ?thesis by (simp add: rd s_def)
  qed
  have seal: "memcpy (spare_mem dev a) 0 (take ?n s) ! (?n - 1) = s ! (?n - 1)"
    using n by (simp add: memcpy_nth)
  have un: "fst (uffs_FlashUnloadSpare (attr dev) (memcpy (spare_mem dev a) 0 (take ?n s)) (Some x) None)
      = Some (cell_tag (attr dev) s)" for x
    using FlashUnloadSpare_cell[OF g(3,2) n(1), of None "Some x"] by simp
  have "read_tag_driver (int b) (int p) a (Some t0) (dev\<lparr>spare_pool := q\<rparr>) =
      Some (UFFS_FLASH_NO_ERR, Some (t0\<lparr>tag_s := cell_tag (attr dev) s, seal_byte := s ! (?n - 1)\<rparr>),
        dev\<lparr>spare_pool := q, spare_mem := (spare_mem dev)(a := memcpy (spare_mem dev a) 0 (take ?n s))\<rparr>)"
    unfolding read_tag_driver_def
    by (simp add: assms(1) no_layout rd call seal[unfolded One_nat_def] un Let_def UFFS_FLASH_HAVE_ERR_def UFFS_FLASH_NO_ERR_def)
  then show ?thesis
    unfolding uffs_FlashReadPageTag_def g(1) using g(2) n(1)
    by (intro exI[of _ "(spare_mem dev)(a := memcpy (spare_mem dev a) 0 (take ?n s))"])
      (simp add: Let_def case_prod_unfold put memcpy_def)
qed

text \<open>The page that is read is the one in the data area, checked against the ECC in the spare
  area.\<close>

lemma ReadPage_cell:
  assumes "ops dev = D" "spare_ready dev"
    and rdy: "ready (drv dev) b p (unat (pg_size dev)) (nat (spare_data_size dev))"
    and mem: "length (b_page (bufs dev buf)) = unat (pg_size dev)"
    and opt: "ecc_opt (attr dev) = UFFS_ECC_SOFT \<or> ecc_opt (attr dev) = UFFS_ECC_NONE"
  defines "d \<equiv> take (unat (pg_size dev)) (fst (cell (drv dev) b p))"
    and "s \<equiv> snd (cell (drv dev) b p)"
  shows "\<exists>m. (\<forall>x. length (m x) = length (spare_mem dev x)) \<and> uffs_FlashReadPage (int b) (int p) buf False dev =
    (let (ret, page) =
       (if ecc_opt (attr dev) = UFFS_ECC_SOFT
        then (let (r, x) = uffs_EccCorrect (Some d) (uint (pg_size dev))
                  (Some (memcpy (uninit dev) 0 (cell_ecc (attr dev) s)))
                  (snd (uffs_EccMake (Some d) (uint (pg_size dev)) (Some (uninit dev))))
              in (if r < 0 then UFFS_FLASH_ECC_FAIL else if r > 0 then UFFS_FLASH_ECC_OK else UFFS_FLASH_NO_ERR, the x))
        else (UFFS_FLASH_NO_ERR, d))
     in Some (ret, (upd_buf buf (\<lambda>b. b\<lparr>b_page := page\<rparr>) dev)\<lparr>spare_mem := m\<rparr>))"
proof -
  let ?n = "nat (spare_data_size dev)" and ?sz = "unat (pg_size dev)"
  obtain a q where g: "get_spare dev = (Some a, dev\<lparr>spare_pool := q\<rparr>)" "?n \<le> length (spare_mem dev a)"
    "layout_ok (attr dev) ?n" "nat (ecc_len (attr dev)) \<le> length (uninit dev)"
    by (rule spare_readyE[OF assms(2)])
  have put: "put_spare a (upd_buf buf f (dev\<lparr>spare_pool := q, spare_mem := m\<rparr>)) = (upd_buf buf f dev)\<lparr>spare_mem := m\<rparr>" for m f
    using put_get_spare[OF g(1)] by (simp add: upd_buf_def)
  obtain rd where rd: "ReadPage D = Some rd" using has_read by blast
  have n: "?n \<le> length s" "?sz \<le> length (fst (cell (drv dev) b p))"
    using cell_size[OF rdy] by (auto simp: s_def)
  let ?m = "(spare_mem dev)(a := memcpy (spare_mem dev a) 0 (take ?n s))"
  have call: "rd (word_of_nat b) (word_of_nat p) (Some (take ?sz (b_page (bufs dev buf)))) (Some (uninit dev))
        (Some (take ?n (spare_mem dev a))) (drv dev)
      = ((UFFS_FLASH_NO_ERR, Some d, Some (uninit dev), Some (take ?n s)), drv dev)"
  proof -
    have "the (ReadPage D) (word_of_nat b) (word_of_nat p) (Some (take ?sz (b_page (bufs dev buf))))
          (Some (uninit dev)) (Some (take ?n (spare_mem dev a))) (drv dev)
        = ((UFFS_FLASH_NO_ERR, map_option (\<lambda>_. take ?sz (fst (cell (drv dev) b p))) (Some (take ?sz (b_page (bufs dev buf)))),
            Some (uninit dev),
            map_option (\<lambda>_. take ?n (snd (cell (drv dev) b p))) (Some (take ?n (spare_mem dev a)))), drv dev)"
      by (rule read[OF rdy]) (use g(2) mem in auto)
    then show ?thesis by (simp add: rd s_def d_def)
  qed
  have c1: "memcpy (b_page (bufs dev buf)) 0 d = d" using mem n(2) by (intro memcpy_all) (simp add: d_def)
  have c2: "memcpy (uninit dev) 0 (uninit dev) = uninit dev" by (intro memcpy_all) simp
  have drive: "read_page_driver (int b) (int p) a (b_page (bufs dev buf)) False (dev\<lparr>spare_pool := q\<rparr>) =
      Some (UFFS_FLASH_NO_ERR, d, uninit dev, uninit dev, dev\<lparr>spare_pool := q, spare_mem := ?m\<rparr>)"
    unfolding read_page_driver_def
    by (simp add: assms(1) no_layout rd call c1 c2 Let_def)
  have un: "snd (uffs_FlashUnloadSpare (attr dev) (memcpy (spare_mem dev a) 0 (take ?n s)) None (Some (uninit dev)))
      = Some (memcpy (uninit dev) 0 (cell_ecc (attr dev) s))"
    using FlashUnloadSpare_cell[OF g(3,2) n(1), of "Some (uninit dev)" None] g(4) by simp
  have mk: "\<exists>x. snd (uffs_EccMake (Some d) (uint (pg_size dev)) (Some (uninit dev))) = Some x"
    by (simp add: uffs_EccMake_def Let_def)
  have "length (?m x) = length (spare_mem dev x)" for x
    using g(2) n(1) by (simp add: memcpy_def)
  with mk show ?thesis
    using opt unfolding uffs_FlashReadPage_def g(1)
    by (intro exI[of _ ?m] conjI allI)
      (auto simp: drive put read_page_check_def Let_def case_prod_unfold un no_layout assms(1)
        CONFIG_ENABLE_PAGE_DATA_CRC_def flash_codes UFFS_FLASH_HAVE_ERR_def UFFS_ECC_SOFT_def UFFS_ECC_NONE_def
        UFFS_ECC_HW_def)
qed

end

section \<open>Writable flash\<close>

text \<open>The whole interface of such a driver: a page that is \<open>clean\<close> (not written since its
  block was erased) can be written once, which changes this page only; erasing a block makes
  all its bytes \<open>0xFF\<close> and its pages clean.\<close>

locale flash_driver = flash_reader +
  fixes clean :: "'a \<Rightarrow> nat \<Rightarrow> nat \<Rightarrow> bool"
    and erasable :: "'a \<Rightarrow> nat \<Rightarrow> bool"
  assumes no_layout_w: "WritePageWithLayout D = None"
    and has_write: "WritePage D \<noteq> None"
    and has_erase: "EraseBlock D \<noteq> None"
    and write_clean: "ready f b p (length d) (length s) \<Longrightarrow> clean f b p \<Longrightarrow>
       \<exists>f'. the (WritePage D) (word_of_nat b) (word_of_nat p) (Some d) (Some s) f = (UFFS_FLASH_NO_ERR, f') \<and>
         cell f' b p = (d @ drop (length d) (fst (cell f b p)), s @ drop (length s) (snd (cell f b p))) \<and>
         (\<forall>b' p'. ready f b' p' 0 0 \<longrightarrow> (b', p') \<noteq> (b, p) \<longrightarrow>
            cell f' b' p' = cell f b' p' \<and> (clean f b' p' \<longrightarrow> clean f' b' p')) \<and>
         (\<forall>b' p' dl sl. ready f b' p' dl sl \<longrightarrow> ready f' b' p' dl sl)"
    and ready_any: "ready f b p dl sl \<Longrightarrow> ready f b p 0 0"
    and erase_block: "erasable f b \<Longrightarrow>
       \<exists>f'. the (EraseBlock D) (word_of_nat b) f = (UFFS_FLASH_NO_ERR, f') \<and>
         (\<forall>b' p' dl sl. ready f b' p' dl sl \<longrightarrow> ready f' b' p' dl sl) \<and>
         (\<forall>p. ready f b p 0 0 \<longrightarrow> clean f' b p \<and>
            cell f' b p = (map (\<lambda>_. 0xFF) (fst (cell f b p)), map (\<lambda>_. 0xFF) (snd (cell f b p)))) \<and>
         (\<forall>b' p'. ready f b' p' 0 0 \<longrightarrow> b' \<noteq> b \<longrightarrow> cell f' b' p' = cell f b' p')"

end
