(* ===== verification/Femu_Driver.thy ===== *)
theory Femu_Driver
  imports Flash_Read
begin

text \<open>
  The flash emulator with software ECC, \<open>src/emu/uffs_fileem_ecc_soft.c\<close>, and the functions
  it shares with the other emulators, \<open>src/emu/uffs_fileem_share.c\<close>: a file holds the pages
  with their spare areas one behind the other, and monitors count the writes of each page
  since its block was erased. It is the driver on which the flash interface is interpreted.

  The file is a map from offsets to bytes with its length; writing behind the end extends it,
  reading behind the end is short. Offsets are natural numbers (the source computes them in
  \<open>int\<close>), the page number is computed in 32 bits as in the source. The statistics of the
  device are not modelled. \<open>femu_InitFlash\<close> is modelled from the point where the file exists
  with its full length.
\<close>

section \<open>The code\<close>

record femu =
  fe_init :: int
  fe_open :: bool
  fe_file :: "nat \<Rightarrow> u8"
  fe_size :: nat
  fe_page :: "nat \<Rightarrow> u8"
  fe_spare :: "nat \<Rightarrow> u8"
  fe_block :: "nat \<Rightarrow> u32"

definition file_read :: "nat \<Rightarrow> nat \<Rightarrow> (nat \<Rightarrow> u8) \<Rightarrow> bytes" where
  "file_read off n file = map file [off..<off + n]"

definition file_write :: "nat \<Rightarrow> bytes \<Rightarrow> (nat \<Rightarrow> u8) \<Rightarrow> nat \<Rightarrow> u8" where
  "file_write off bs file = (\<lambda>x. if off \<le> x \<and> x < off + length bs then bs ! (x - off) else file x)"

definition fe_write :: "nat \<Rightarrow> bytes \<Rightarrow> femu \<Rightarrow> femu" where
  "fe_write off bs emu = emu\<lparr>fe_file := file_write off bs (fe_file emu), fe_size := max (fe_size emu) (off + length bs)\<rparr>"

text \<open>\<open>fread\<close>: the bytes before the end of the file go to the buffer; the result tells whether
  all were there.\<close>

definition fe_read :: "nat \<Rightarrow> bytes \<Rightarrow> femu \<Rightarrow> bool \<times> bytes" where
  "fe_read off buf emu =
     (let n = min (length buf) (fe_size emu - off)
      in (n = length buf, file_read off n (fe_file emu) @ drop n buf))"

definition PAGE_DATA_WRITE_COUNT_LIMIT :: u8 where "PAGE_DATA_WRITE_COUNT_LIMIT = 1"
definition PAGE_SPARE_WRITE_COUNT_LIMIT :: u8 where "PAGE_SPARE_WRITE_COUNT_LIMIT = 1"

definition abs_page :: "storage_attr \<Rightarrow> u32 \<Rightarrow> u32 \<Rightarrow> nat" where
  "abs_page at block page_num = unat (ucast (pages_per_block at) * block + page_num :: u32)"

definition full_page_size :: "storage_attr \<Rightarrow> nat" where
  "full_page_size at = unat (page_data_size at) + unat (spare_size at)"

text \<open>The two writes of \<open>femu_WritePage\<close>; \<open>Inl\<close> is the jump to the error exit.\<close>

definition write_data :: "storage_attr \<Rightarrow> nat \<Rightarrow> bytes option \<Rightarrow> femu \<Rightarrow> femu + femu" where
  "write_data at pg data emu =
     (case data of None \<Rightarrow> Inr emu
      | Some d \<Rightarrow>
          if d = [] then Inr emu
          else if length d > unat (page_data_size at) then Inl emu
          else let emu = emu\<lparr>fe_page := (fe_page emu)(pg := fe_page emu pg + 1)\<rparr>
               in if fe_page emu pg > PAGE_DATA_WRITE_COUNT_LIMIT then Inl emu
                  else Inr (fe_write (pg * full_page_size at) d emu))"

definition write_spare :: "storage_attr \<Rightarrow> nat \<Rightarrow> bytes option \<Rightarrow> femu \<Rightarrow> femu + femu" where
  "write_spare at pg spare emu =
     (case spare of None \<Rightarrow> Inr emu
      | Some s \<Rightarrow>
          if s = [] then Inr emu
          else if length s > unat (spare_size at) then Inl emu
          else let emu = emu\<lparr>fe_spare := (fe_spare emu)(pg := fe_spare emu pg + 1)\<rparr>
               in if fe_spare emu pg > PAGE_SPARE_WRITE_COUNT_LIMIT then Inl emu
                  else Inr (fe_write (pg * full_page_size at + unat (page_data_size at)) s emu))"

definition femu_WritePage ::
  "storage_attr \<Rightarrow> u32 \<Rightarrow> u32 \<Rightarrow> bytes option \<Rightarrow> bytes option \<Rightarrow> femu \<Rightarrow> int \<times> femu" where
  "femu_WritePage at block page_num data spare emu =
     (if \<not> fe_open emu then (UFFS_FLASH_IO_ERR, emu)
      else let pg = abs_page at block page_num
           in case write_data at pg data emu of
                Inl emu \<Rightarrow> (UFFS_FLASH_IO_ERR, emu)
              | Inr emu \<Rightarrow> (case write_spare at pg spare emu of
                    Inl emu \<Rightarrow> (UFFS_FLASH_IO_ERR, emu)
                  | Inr emu \<Rightarrow>
                      (UFFS_FLASH_NO_ERR,
                       if data = None \<and> spare = None
                       then fe_write (pg * full_page_size at + unat (page_data_size at) + unat (block_status_offs at)) [0] emu
                       else emu)))"

definition femu_ReadPage ::
  "storage_attr \<Rightarrow> u32 \<Rightarrow> u32 \<Rightarrow> bytes option \<Rightarrow> bytes option \<Rightarrow> bytes option \<Rightarrow> femu \<Rightarrow>
     (int \<times> bytes option \<times> bytes option \<times> bytes option) \<times> femu" where
  "femu_ReadPage at block page_num data ecc spare emu =
     (if \<not> fe_open emu then ((UFFS_FLASH_IO_ERR, data, ecc, spare), emu)
      else let pg = abs_page at block page_num;
               (ok1, data') = (case data of None \<Rightarrow> (True, None)
                  | Some d \<Rightarrow> if d = [] then (True, Some d)
                              else if length d > unat (page_data_size at) then (False, Some d)
                              else map_prod id Some (fe_read (pg * full_page_size at) d emu))
           in if \<not> ok1 then ((UFFS_FLASH_IO_ERR, data', ecc, spare), emu)
              else let (ok2, spare') = (case spare of None \<Rightarrow> (True, None)
                     | Some s \<Rightarrow> if s = [] then (True, Some s)
                                 else if length s > unat (spare_size at) then (False, Some s)
                                 else map_prod id Some (fe_read (pg * full_page_size at + unat (page_data_size at)) s emu))
                   in if \<not> ok2 then ((UFFS_FLASH_IO_ERR, data', ecc, spare'), emu)
                      else if data = None \<and> spare = None
                      then let (ok, st) = fe_read (pg * full_page_size at + unat (page_data_size at)
                                                     + unat (block_status_offs at)) [0] emu
                           in ((if \<not> ok then UFFS_FLASH_IO_ERR
                                else if st ! 0 = 0xFF then UFFS_FLASH_NO_ERR else UFFS_FLASH_BAD_BLK,
                                data', ecc, spare'), emu)
                      else ((UFFS_FLASH_NO_ERR, data', ecc, spare'), emu))"

definition femu_EraseBlock :: "storage_attr \<Rightarrow> u32 \<Rightarrow> femu \<Rightarrow> int \<times> femu" where
  "femu_EraseBlock at blockNumber emu =
     (if \<not> fe_open emu then (UFFS_FLASH_IO_ERR, emu)
      else if sint blockNumber \<ge> sint (total_blocks at) then (UFFS_FLASH_IO_ERR, emu)
      else let n = unat (pages_per_block at); first = unat blockNumber * n;
               in_block = (\<lambda>pg. first \<le> pg \<and> pg < first + n)
           in (UFFS_FLASH_NO_ERR,
               fe_write (first * full_page_size at) (replicate (n * full_page_size at) 0xFF)
                 (emu\<lparr>fe_page := (\<lambda>pg. if in_block pg then 0 else fe_page emu pg),
                      fe_spare := (\<lambda>pg. if in_block pg then 0 else fe_spare emu pg),
                      fe_block := (fe_block emu)(unat blockNumber := fe_block emu (unat blockNumber) + 1)\<rparr>)))"

definition femu_InitFlash :: "storage_attr \<Rightarrow> femu \<Rightarrow> int \<times> femu" where
  "femu_InitFlash at emu =
     (if fe_init emu > 0 then (0, emu\<lparr>fe_init := fe_init emu + 1\<rparr>)
      else (0, emu\<lparr>fe_page := (\<lambda>_. 0), fe_spare := (\<lambda>_. 0), fe_block := (\<lambda>_. 0),
                   fe_open := True, fe_init := fe_init emu + 1\<rparr>))"

definition femu_ReleaseFlash :: "femu \<Rightarrow> int \<times> femu" where
  "femu_ReleaseFlash emu =
     (let emu = emu\<lparr>fe_init := fe_init emu - 1\<rparr>
      in (0, if fe_init emu = 0 then emu\<lparr>fe_open := False\<rparr> else emu))"

definition g_femu_ops_ecc_soft :: "storage_attr \<Rightarrow> femu flash_ops" where
  "g_femu_ops_ecc_soft at = \<lparr>InitFlash = Some (femu_InitFlash at), ReleaseFlash = Some femu_ReleaseFlash,
     ReadPage = Some (femu_ReadPage at), ReadPageWithLayout = None,
     WritePage = Some (femu_WritePage at), WritePageWithLayout = None,
     IsBadBlock = None, MarkBadBlock = None, EraseBlock = Some (femu_EraseBlock at), CheckErasedBlock = None\<rparr>"

section \<open>Pages of the file\<close>

definition page_at :: "storage_attr \<Rightarrow> nat \<Rightarrow> nat \<Rightarrow> nat" where
  "page_at at b p = unat (pages_per_block at) * b + p"

definition femu_cell :: "storage_attr \<Rightarrow> femu \<Rightarrow> nat \<Rightarrow> nat \<Rightarrow> bytes \<times> bytes" where
  "femu_cell at emu b p =
     (file_read (page_at at b p * full_page_size at) (unat (page_data_size at)) (fe_file emu),
      file_read (page_at at b p * full_page_size at + unat (page_data_size at)) (unat (spare_size at)) (fe_file emu))"

definition femu_ready :: "storage_attr \<Rightarrow> femu \<Rightarrow> nat \<Rightarrow> nat \<Rightarrow> nat \<Rightarrow> nat \<Rightarrow> bool" where
  "femu_ready at emu b p dl sl \<longleftrightarrow> fe_open emu \<and> b < unat (total_blocks at) \<and> p < unat (pages_per_block at) \<and>
     dl \<le> unat (page_data_size at) \<and> sl \<le> unat (spare_size at) \<and>
     unat (total_blocks at) * unat (pages_per_block at) < 2 ^ 31 \<and>
     unat (total_blocks at) * unat (pages_per_block at) * full_page_size at \<le> fe_size emu"

definition femu_clean :: "storage_attr \<Rightarrow> femu \<Rightarrow> nat \<Rightarrow> nat \<Rightarrow> bool" where
  "femu_clean at emu b p \<longleftrightarrow> fe_page emu (page_at at b p) = 0 \<and> fe_spare emu (page_at at b p) = 0"

definition femu_erasable :: "storage_attr \<Rightarrow> femu \<Rightarrow> nat \<Rightarrow> bool" where
  "femu_erasable at emu b \<longleftrightarrow> fe_open emu \<and> b < unat (total_blocks at) \<and> unat (total_blocks at) < 2 ^ 31"

lemma length_file_read [simp]: "length (file_read off n file) = n"
  by (simp add: file_read_def)

lemma file_write_Nil [simp]: "file_write off [] file = file"
  by (auto simp: file_write_def fun_eq_iff)

lemma file_read_0 [simp]: "file_read off 0 file = []"
  by (simp add: file_read_def)

lemma take_file_read: "m \<le> n \<Longrightarrow> take m (file_read off n file) = file_read off m file"
  by (simp add: file_read_def take_map min_def)

lemma read_write_same:
  "length bs \<le> n \<Longrightarrow> file_read off n (file_write off bs f) = bs @ drop (length bs) (file_read off n f)"
  by (intro nth_equalityI) (auto simp: file_read_def file_write_def nth_append)

lemma read_write_other:
  "off + n \<le> off' \<or> off' + length bs \<le> off \<Longrightarrow> file_read off n (file_write off' bs f) = file_read off n f"
  by (auto simp: file_read_def file_write_def)

lemma read_write_inside:
  "off' \<le> off \<Longrightarrow> off + n \<le> off' + length bs \<Longrightarrow>
     file_read off n (file_write off' bs f) = take n (drop (off - off') bs)"
  by (intro nth_equalityI) (auto simp: file_read_def file_write_def)

lemma cell_write_other:
  assumes "P' + (m + k) \<le> P \<or> P + (m + k) \<le> P'" "length d \<le> m" "length s \<le> k"
  shows "file_read P' m (file_write (P + m) s (file_write P d g)) = file_read P' m g"
    "file_read (P' + m) k (file_write (P + m) s (file_write P d g)) = file_read (P' + m) k g"
  using assms by (auto simp: read_write_other)

lemma erased_cell:
  assumes "P0 \<le> P" "P + (m + k) \<le> P0 + L"
  shows "file_read P m (file_write P0 (replicate L c) g) = replicate m c"
    "file_read (P + m) k (file_write P0 (replicate L c) g) = replicate k c"
  using assms by (simp_all add: read_write_inside drop_replicate)

lemma page_bound:
  assumes "b < B" "p < (n::nat)"
  shows "n * b + p < B * n"
proof -
  have "n * b + p < n * Suc b" using assms(2) by simp
  also have "\<dots> \<le> n * B" using assms(1) by (intro mult_le_mono2) simp
  finally show ?thesis by (simp add: mult.commute)
qed

lemma abs_page_at:
  assumes "femu_ready at emu b p dl sl"
  shows "abs_page at (word_of_nat b) (word_of_nat p) = page_at at b p"
proof -
  have "unat (pages_per_block at) * b + p < unat (total_blocks at) * unat (pages_per_block at)"
    using assms by (intro page_bound) (auto simp: femu_ready_def)
  also have "\<dots> < 4294967296" using assms by (simp add: femu_ready_def)
  finally have l: "unat (pages_per_block at) * b + p < 4294967296" .
  have "ucast (pages_per_block at) * word_of_nat b + word_of_nat p = (word_of_nat (unat (pages_per_block at) * b + p) :: u32)"
    by simp
  then show ?thesis by (simp only: abs_page_def page_at_def unat_of_nat_u32[OF l])
qed

lemma page_fits:
  assumes "femu_ready at emu b p dl sl"
  shows "page_at at b p * full_page_size at + full_page_size at \<le> fe_size emu"
proof -
  have "page_at at b p < unat (total_blocks at) * unat (pages_per_block at)"
    using assms unfolding page_at_def by (intro page_bound) (auto simp: femu_ready_def)
  then have "Suc (page_at at b p) * full_page_size at \<le> unat (total_blocks at) * unat (pages_per_block at) * full_page_size at"
    by (intro mult_le_mono1) simp
  then show ?thesis using assms by (simp add: femu_ready_def)
qed

lemma page_at_inj:
  assumes "p < unat (pages_per_block at)" "p' < unat (pages_per_block at)" "page_at at b p = page_at at b' p'"
  shows "b = b' \<and> p = p'"
proof -
  let ?n = "unat (pages_per_block at)"
  have "(?n * b + p) div ?n = b" "(?n * b' + p') div ?n = b'" using assms(1,2) by simp_all
  then show ?thesis using assms(3) by (auto simp: page_at_def)
qed

lemma page_apart:
  assumes "pg \<noteq> (pg' :: nat)"
  shows "pg * F + F \<le> pg' * F \<or> pg' * F + F \<le> pg * F"
proof -
  have "Suc pg \<le> pg' \<or> Suc pg' \<le> pg" using assms by auto
  then show ?thesis using mult_le_mono1[of "Suc pg" pg' F] mult_le_mono1[of "Suc pg'" pg F] by auto
qed

section \<open>The emulator is a flash driver\<close>

lemma fe_read_full:
  "off + length buf \<le> fe_size emu \<Longrightarrow> fe_read off buf emu = (True, file_read off (length buf) (fe_file emu))"
  by (simp add: fe_read_def Let_def)

lemma femu_read:
  assumes r: "femu_ready at f b p dl sl" and "d \<noteq> None \<or> s \<noteq> None"
    and dl: "\<And>x. d = Some x \<Longrightarrow> length x = dl" and sl: "\<And>x. s = Some x \<Longrightarrow> length x = sl"
  shows "femu_ReadPage at (word_of_nat b) (word_of_nat p) d e s f =
    ((UFFS_FLASH_NO_ERR, map_option (\<lambda>_. take dl (fst (femu_cell at f b p))) d, e,
      map_option (\<lambda>_. take sl (snd (femu_cell at f b p))) s), f)"
proof -
  have fit: "page_at at b p * full_page_size at + (unat (page_data_size at) + unat (spare_size at)) \<le> fe_size f"
    using page_fits[OF r] by (simp add: full_page_size_def)
  have o: "fe_open f" "dl \<le> unat (page_data_size at)" "sl \<le> unat (spare_size at)"
    using r by (auto simp: femu_ready_def)
  have D: "(case d of None \<Rightarrow> (True, None)
      | Some x \<Rightarrow> if x = [] then (True, Some x) else if length x > unat (page_data_size at) then (False, Some x)
          else map_prod id Some (fe_read (page_at at b p * full_page_size at) x f)) =
      (True, map_option (\<lambda>_. take dl (fst (femu_cell at f b p))) d)"
    using o(2) fit dl by (cases d) (auto simp: fe_read_full femu_cell_def take_file_read)
  have S: "(case s of None \<Rightarrow> (True, None)
      | Some x \<Rightarrow> if x = [] then (True, Some x) else if length x > unat (spare_size at) then (False, Some x)
          else map_prod id Some (fe_read (page_at at b p * full_page_size at + unat (page_data_size at)) x f)) =
      (True, map_option (\<lambda>_. take sl (snd (femu_cell at f b p))) s)"
    using o(3) fit sl by (cases s) (auto simp: fe_read_full femu_cell_def take_file_read)
  show ?thesis
    using o(1) assms(2) unfolding femu_ReadPage_def abs_page_at[OF r] Let_def D S by auto
qed

lemma femu_write:
  assumes r: "femu_ready at f b p (length d) (length s)" and c: "femu_clean at f b p"
  shows "\<exists>f'. femu_WritePage at (word_of_nat b) (word_of_nat p) (Some d) (Some s) f = (UFFS_FLASH_NO_ERR, f') \<and>
    femu_cell at f' b p = (d @ drop (length d) (fst (femu_cell at f b p)), s @ drop (length s) (snd (femu_cell at f b p))) \<and>
    (\<forall>b' p'. femu_ready at f b' p' 0 0 \<longrightarrow> (b', p') \<noteq> (b, p) \<longrightarrow>
       femu_cell at f' b' p' = femu_cell at f b' p' \<and> (femu_clean at f b' p' \<longrightarrow> femu_clean at f' b' p')) \<and>
    (\<forall>b' p' dl sl. femu_ready at f b' p' dl sl \<longrightarrow> femu_ready at f' b' p' dl sl)"
proof -
  let ?pg = "page_at at b p"
  let ?o = "?pg * full_page_size at" let ?o2 = "?o + unat (page_data_size at)"
  define f1 where "f1 = (if d = [] then f else fe_write ?o d (f\<lparr>fe_page := (fe_page f)(?pg := fe_page f ?pg + 1)\<rparr>))"
  define f2 where "f2 = (if s = [] then f1 else fe_write ?o2 s (f1\<lparr>fe_spare := (fe_spare f1)(?pg := fe_spare f1 ?pg + 1)\<rparr>))"
  have l: "length d \<le> unat (page_data_size at)" "length s \<le> unat (spare_size at)" "fe_open f"
    using r by (auto simp: femu_ready_def)
  have fit: "?o2 + unat (spare_size at) \<le> fe_size f" using page_fits[OF r] by (simp add: full_page_size_def)
  have w1: "write_data at ?pg (Some d) f = Inr f1"
    using l c by (simp add: write_data_def f1_def Let_def femu_clean_def PAGE_DATA_WRITE_COUNT_LIMIT_def)
  have "fe_spare f1 = fe_spare f" by (simp add: f1_def fe_write_def)
  then have w2: "write_spare at ?pg (Some s) f1 = Inr f2"
    using l c by (simp add: write_spare_def f2_def Let_def femu_clean_def PAGE_SPARE_WRITE_COUNT_LIMIT_def)
  have run: "femu_WritePage at (word_of_nat b) (word_of_nat p) (Some d) (Some s) f = (UFFS_FLASH_NO_ERR, f2)"
    using l(3) unfolding femu_WritePage_def abs_page_at[OF r] Let_def by (simp add: w1 w2)
  have fc: "fe_file f2 = file_write ?o2 s (file_write ?o d (fe_file f))"
    by (simp add: f2_def f1_def fe_write_def)
  have size: "fe_size f2 = fe_size f" "fe_open f2 = fe_open f"
    using fit l by (simp_all add: f2_def f1_def fe_write_def)
  have "femu_cell at f2 b p = (d @ drop (length d) (fst (femu_cell at f b p)), s @ drop (length s) (snd (femu_cell at f b p)))"
    unfolding femu_cell_def fc using l by (simp add: read_write_same read_write_other)
  moreover have "femu_cell at f2 b' p' = femu_cell at f b' p' \<and> (femu_clean at f b' p' \<longrightarrow> femu_clean at f2 b' p')"
    if "femu_ready at f b' p' 0 0" "(b', p') \<noteq> (b, p)" for b' p'
  proof
    have n: "page_at at b' p' \<noteq> ?pg"
      using page_at_inj[of p at p' b b'] that r by (auto simp: femu_ready_def)
    from page_apart[OF this, of "full_page_size at"] show "femu_cell at f2 b' p' = femu_cell at f b' p'"
      unfolding femu_cell_def fc full_page_size_def using l by (simp only: cell_write_other simp_thms)
    show "femu_clean at f b' p' \<longrightarrow> femu_clean at f2 b' p'"
      using n by (simp add: femu_clean_def f2_def f1_def fe_write_def)
  qed
  moreover have "\<forall>b' p' dl sl. femu_ready at f b' p' dl sl \<longrightarrow> femu_ready at f2 b' p' dl sl"
    by (simp add: femu_ready_def size)
  ultimately show ?thesis using run by blast
qed

lemma sint_small:
  assumes "unat (w :: u32) < 2 ^ 31"
  shows "sint w = int (unat w)"
proof -
  have "int (unat w) < int (2 ^ 31)" using assms by (simp only: of_nat_less_iff)
  then have u: "uint w < 2147483648" by simp
  have "0 \<le> uint w" by simp
  then have "- 2147483648 \<le> uint w" by linarith
  with u have "sint w = uint w" unfolding sint_uint by (intro signed_take_bit_int_eq_self) simp_all
  then show ?thesis by simp
qed

lemma femu_erase:
  assumes e: "femu_erasable at f b"
  shows "\<exists>f'. femu_EraseBlock at (word_of_nat b) f = (UFFS_FLASH_NO_ERR, f') \<and>
    (\<forall>b' p' dl sl. femu_ready at f b' p' dl sl \<longrightarrow> femu_ready at f' b' p' dl sl) \<and>
    (\<forall>p. femu_ready at f b p 0 0 \<longrightarrow> femu_clean at f' b p \<and>
       femu_cell at f' b p = (map (\<lambda>_. 0xFF) (fst (femu_cell at f b p)), map (\<lambda>_. 0xFF) (snd (femu_cell at f b p)))) \<and>
    (\<forall>b' p'. femu_ready at f b' p' 0 0 \<longrightarrow> b' \<noteq> b \<longrightarrow> femu_cell at f' b' p' = femu_cell at f b' p')"
proof -
  define n F where "n = unat (pages_per_block at)" and "F = full_page_size at"
  define f' where "f' = snd (femu_EraseBlock at (word_of_nat b) f)"
  have b: "fe_open f" "b < unat (total_blocks at)" "unat (total_blocks at) < 2 ^ 31"
    using e by (auto simp: femu_erasable_def)
  have ub: "unat (word_of_nat b :: u32) = b" using b by (intro unat_of_nat_u32) simp
  have "sint (word_of_nat b :: u32) = int b" "sint (total_blocks at) = int (unat (total_blocks at))"
    using sint_small[of "word_of_nat b"] sint_small[of "total_blocks at"] b ub by (simp_all only: ub)
  then have "\<not> sint (word_of_nat b :: u32) \<ge> sint (total_blocks at)"
    using b(2) by (simp only: not_le of_nat_less_iff)
  then have er: "femu_EraseBlock at (word_of_nat b) f = (UFFS_FLASH_NO_ERR, f')"
    and fc: "fe_file f' = file_write (b * n * F) (replicate (n * F) 0xFF) (fe_file f)"
    and sz: "fe_size f' = max (fe_size f) (b * n * F + n * F)" and op: "fe_open f'"
    and mon: "fe_page f' pg = (if b * n \<le> pg \<and> pg < b * n + n then 0 else fe_page f pg)"
      "fe_spare f' pg = (if b * n \<le> pg \<and> pg < b * n + n then 0 else fe_spare f pg)" for pg
    using b(1) by (simp_all add: f'_def femu_EraseBlock_def Let_def ub fe_write_def n_def F_def)
  have pg: "page_at at b p = b * n + p" for b p by (simp add: page_at_def n_def)
  have size: "fe_size f' = fe_size f" if "femu_ready at f x p dl sl" for x p dl sl
  proof -
    have "b * n * F + n * F = Suc b * (n * F)" by simp
    also have "\<dots> \<le> unat (total_blocks at) * (n * F)" using b(2) by (intro mult_le_mono1) simp
    also have "\<dots> \<le> fe_size f" using that by (simp add: femu_ready_def n_def F_def mult.assoc)
    finally show ?thesis by (simp add: sz)
  qed
  have rd: "\<forall>b' p' dl sl. femu_ready at f b' p' dl sl \<longrightarrow> femu_ready at f' b' p' dl sl"
  proof (intro allI impI)
    fix b' p' dl sl assume r: "femu_ready at f b' p' dl sl"
    then show "femu_ready at f' b' p' dl sl" using size[OF r] op by (simp add: femu_ready_def)
  qed
  have F: "F = unat (page_data_size at) + unat (spare_size at)" by (simp add: F_def full_page_size_def)
  have inside: "femu_clean at f' b p \<and> femu_cell at f' b p =
      (map (\<lambda>_. 0xFF) (fst (femu_cell at f b p)), map (\<lambda>_. 0xFF) (snd (femu_cell at f b p)))"
    if r: "femu_ready at f b p 0 0" for p
  proof -
    have p: "p < n" using r by (simp add: femu_ready_def n_def)
    have "(b * n + p) * F = b * n * F + p * F" by (simp add: algebra_simps)
    moreover have "Suc p * F \<le> n * F" using p by (intro mult_le_mono1) simp
    ultimately have o: "b * n * F \<le> (b * n + p) * F" "(b * n + p) * F + F \<le> b * n * F + n * F" by auto
    have c: "femu_clean at f' b p" using p by (simp add: femu_clean_def mon pg)
    have "femu_cell at f' b p = (replicate (unat (page_data_size at)) 0xFF, replicate (unat (spare_size at)) 0xFF)"
      unfolding femu_cell_def fc pg F_def[symmetric] using erased_cell[OF o(1)] o(2) by (simp add: F)
    then show ?thesis using c by (simp add: femu_cell_def map_replicate_const)
  qed
  have other: "femu_cell at f' b' p = femu_cell at f b' p" if r: "femu_ready at f b' p 0 0" "b' \<noteq> b" for b' p
  proof -
    have p: "p < n" using r by (simp add: femu_ready_def n_def)
    have "Suc b' \<le> b \<or> Suc b \<le> b'" using r(2) by auto
    then have "Suc b' * (n * F) \<le> b * (n * F) \<or> Suc b * (n * F) \<le> b' * (n * F)"
      using mult_le_mono1 by blast
    moreover have "Suc p * F \<le> n * F" using p by (intro mult_le_mono1) simp
    moreover have "(b' * n + p) * F = b' * (n * F) + p * F" "b * n * F = b * (n * F)" by (simp_all add: algebra_simps)
    ultimately have "(b' * n + p) * F + F \<le> b * n * F \<or> b * n * F + n * F \<le> (b' * n + p) * F" by auto
    then show ?thesis unfolding femu_cell_def fc pg F_def[symmetric]
      by (auto simp: read_write_other F)
  qed
  show ?thesis using er rd inside other by blast
qed

text \<open>The emulator satisfies the laws of the flash interface, for all storage attributes.\<close>

interpretation femu: flash_driver "g_femu_ops_ecc_soft at" "femu_cell at" "femu_ready at" "femu_clean at" "femu_erasable at"
  for at
proof unfold_locales
  fix f b p dl sl and d s e :: "bytes option"
  assume r: "femu_ready at f b p dl sl" and a: "d \<noteq> None \<or> s \<noteq> None"
    and l: "\<And>x. d = Some x \<Longrightarrow> length x = dl" "\<And>x. s = Some x \<Longrightarrow> length x = sl"
  show "the (ReadPage (g_femu_ops_ecc_soft at)) (word_of_nat b) (word_of_nat p) d e s f =
      ((UFFS_FLASH_NO_ERR, map_option (\<lambda>_. take dl (fst (femu_cell at f b p))) d, e,
        map_option (\<lambda>_. take sl (snd (femu_cell at f b p))) s), f)"
    using femu_read[OF r a l] by (simp add: g_femu_ops_ecc_soft_def)
next
  fix f b p dl sl
  assume "femu_ready at f b p dl sl"
  then show "dl \<le> length (fst (femu_cell at f b p)) \<and> sl \<le> length (snd (femu_cell at f b p))"
    by (simp add: femu_ready_def femu_cell_def)
next
  fix f b p and d s :: bytes
  assume r: "femu_ready at f b p (length d) (length s)" "femu_clean at f b p"
  show "\<exists>f'. the (WritePage (g_femu_ops_ecc_soft at)) (word_of_nat b) (word_of_nat p) (Some d) (Some s) f = (UFFS_FLASH_NO_ERR, f') \<and>
      femu_cell at f' b p = (d @ drop (length d) (fst (femu_cell at f b p)), s @ drop (length s) (snd (femu_cell at f b p))) \<and>
      (\<forall>b' p'. femu_ready at f b' p' 0 0 \<longrightarrow> (b', p') \<noteq> (b, p) \<longrightarrow>
       femu_cell at f' b' p' = femu_cell at f b' p' \<and> (femu_clean at f b' p' \<longrightarrow> femu_clean at f' b' p')) \<and>
      (\<forall>b' p' dl sl. femu_ready at f b' p' dl sl \<longrightarrow> femu_ready at f' b' p' dl sl)"
    using femu_write[OF r] by (simp add: g_femu_ops_ecc_soft_def)
next
  show "femu_ready at f b p 0 0" if "femu_ready at f b p dl sl" for f b p dl sl
    using that by (simp add: femu_ready_def)
qed (simp_all add: g_femu_ops_ecc_soft_def femu_erase)

end
