(* ===== verification/Sample_Device.thy ===== *)
theory Sample_Device
  imports Femu_Driver Pending
begin

text \<open>
  A concrete device: the flash emulator of 128 blocks of 32 pages of 512 bytes with its file,
  the automatic spare layout, a spare pool of 5 buffers and no cache yet. The witnesses of the
  flash and cache theories apply their theorems to it. The theory also holds the frame
  property of the two reading functions of \<open>uffs_flash.c\<close>.
\<close>

definition sample_attr :: storage_attr where
  "sample_attr = InitSpareLayout attr512"

definition sample_spare_size :: nat where
  "sample_spare_size = nat (CalculateSpareDataSize sample_attr)"

text \<open>An erased flash of 128 * 32 pages of 528 bytes.\<close>

definition sample_femu :: femu where
  "sample_femu = \<lparr>fe_init = 1, fe_open = True, fe_file = (\<lambda>_. 0xFF), fe_size = 2162688,
     fe_page = (\<lambda>_. 0), fe_spare = (\<lambda>_. 0), fe_block = (\<lambda>_. 0)\<rparr>"

definition no_pool :: pool where
  "no_pool = \<lparr>p_mem = 0, p_buf_size = 0, p_num_bufs = 0, p_free_list = None, p_next = (\<lambda>_. None), p_sem = False\<rparr>"

definition sample_tag :: Tags where
  "sample_tag = \<lparr>tag_s = tag0, data_sum = 0, seal_byte = 0\<rparr>"

definition zero_bi :: BlockInfo where
  "zero_bi = \<lparr>bi_next = None, bi_prev = None, bi_block = 0, bi_spares = [], bi_expired_count = 0, bi_ref_count = 0\<rparr>"

definition zero_buf :: Buf where
  "zero_buf = \<lparr>b_next = None, b_prev = None, b_next_dirty = None, b_prev_dirty = None, b_type = 0, b_ext_mark = 0,
     b_parent = 0, b_serial = 0, b_page_id = 0, b_mark = 0, b_ref_count = 0, b_data_len = 0, b_check_sum = 0,
     b_page = replicate 512 0\<rparr>"

definition sample_dev :: "femu device" where
  "sample_dev = \<lparr>attr = sample_attr, par_start = 0, par_end = 127, ops = g_femu_ops_ecc_soft sample_attr,
     drv = sample_femu, bc_head = None, bc_tail = None, bc_nodes = (\<lambda>_. zero_bi),
     buf_head = None, buf_tail = None, buf_clone = None, bufs = (\<lambda>_. zero_buf), dirtyGroup = replicate 3 \<lparr>dg_count = 0, dg_lock = 0, dg_dirty = None\<rparr>,
     buf_max = 0, dirty_buf_max = 0, buf_pool = False, pg_data_size = 508, header_size = 4, pg_size = 512,
     tree = \<lparr>erased = None, erased_tail = None, erased_count = 0, suspend = None, bad = None, bad_count = 0,
       dir_entry = [], file_entry = [], data_entry = [], max_serial = 0\<rparr>,
     tree_nodes = (\<lambda>_. \<lparr>n_u = UList None None 0 0, hash_next = 0, hash_prev = 0\<rparr>), tree_pool = no_pool,
     pending = \<lparr>pend_count = 0, pend_list = replicate CONFIG_MAX_PENDING_BLOCKS \<lparr>pb_block = 0, pb_mark = 0\<rparr>,
       block_in_recovery = UFFS_INVALID_BLOCK\<rparr>,
     page_header_read_count = 0, spare_pool = snd (uffs_PoolInit no_pool (Some 4096) 320 64 5 False),
     spare_mem = (\<lambda>_. replicate 64 0), spare_data_size = CalculateSpareDataSize sample_attr,
     dirty_groups = 3, reserved_free_blocks = 5, blockinfo_pool_size = 5520, pagebuf_pool_size = 23040,
     spare_pool_size = 320, spare_pool_buf = Some 4096, tree_nodes_pool_size = 4096, tree_nodes_pool_buf = Some 8192,
     mem_malloc = None, mem_free = False, uninit = replicate 40 0, uninit_tag = sample_tag\<rparr>"

lemma sample_dev_simps [simp]:
  "attr sample_dev = sample_attr" "ops sample_dev = g_femu_ops_ecc_soft sample_attr" "drv sample_dev = sample_femu"
  "bc_head sample_dev = None" "blockinfo_pool_size sample_dev = 5520" "buf_head sample_dev = None"
  "pg_size sample_dev = 512" "uninit sample_dev = replicate 40 0" "uninit_tag sample_dev = sample_tag"
  "spare_data_size sample_dev = CalculateSpareDataSize sample_attr" "bufs sample_dev x = zero_buf"
  "spare_mem sample_dev x = replicate 64 0"
  by (simp_all add: sample_dev_def)

lemma sample_ppb [simp]: "ppb sample_dev = 32"
  by (simp add: ppb_def sample_attr_def InitSpareLayout_def attr512_def Let_def)

lemma sample_can_read [simp]: "can_read sample_dev"
  by (simp add: can_read_def g_femu_ops_ecc_soft_def)

text \<open>C32. Reading a tag or a page leaves the device as it was on every path, driver and ECC
  errors included, but for the driver state, the scratch memory of the spare pool and the page
  memory of the buffer: in particular the spare buffer is always given back.\<close>

theorem flash_read_frame:
  fixes dev :: "'f device"
  shows "(uffs_FlashReadPageTag block page tag dev = Some (ret, tag', dev') \<longrightarrow>
            (\<exists>f m. dev' = dev\<lparr>drv := f, spare_mem := m\<rparr>)) \<and>
         (uffs_FlashReadPage block page buf skip dev = Some (ret, dev'') \<longrightarrow>
            (\<exists>f m mem. dev'' = (upd_buf buf (\<lambda>b. b\<lparr>b_page := mem\<rparr>) dev)\<lparr>drv := f, spare_mem := m\<rparr>))"
  using ReadPageTag_frame(1) ReadPage_frame by blast

theorem flash_read_frame_witness:
  "\<exists>ret tag' dev' f m. uffs_FlashReadPageTag 3 0 (Some sample_tag) sample_dev = Some (ret, tag', dev') \<and>
     dev' = sample_dev\<lparr>drv := f, spare_mem := m\<rparr>"
proof -
  obtain ret tag' dev' where r: "uffs_FlashReadPageTag 3 0 (Some sample_tag) sample_dev = Some (ret, tag', dev')"
    using ReadPageTag_total[OF sample_can_read] by (metis prod_cases3)
  show ?thesis using r flash_read_frame[of 3 0 "Some sample_tag" sample_dev ret tag' dev'] by blast
qed

end
