(* ===== verification/Block_Cache.thy ===== *)
theory Block_Cache
  imports Sample_Device
begin

text \<open>
  The block-info cache of \<open>uffs_blockinfo.c\<close>: a doubly linked list of block infos in least
  recently used order, each caching the page tags of one block. A tag is read from the flash
  when it is needed and its copy is expired.

  The lemmas show that every operation keeps the list well-formed and the expired counters
  exact, that \<open>uffs_BlockInfoGet\<close> returns the cached block or the least recently used
  unreferenced node, and that a loaded tag is served without touching the flash.
\<close>

section \<open>The code\<close>

subsection \<open>The list\<close>

definition BreakBcFromList :: "nat \<Rightarrow> 'f device \<Rightarrow> 'f device" where
  "BreakBcFromList bc dev =
     (let dev = (case bi_prev (bc_nodes dev bc) of None \<Rightarrow> dev
                 | Some y \<Rightarrow> upd_bi y (bi_next_update (\<lambda>_. bi_next (bc_nodes dev bc))) dev);
          dev = (case bi_next (bc_nodes dev bc) of None \<Rightarrow> dev
                 | Some y \<Rightarrow> upd_bi y (bi_prev_update (\<lambda>_. bi_prev (bc_nodes dev bc))) dev);
          dev = (if bc_head dev = Some bc then dev\<lparr>bc_head := bi_next (bc_nodes dev bc)\<rparr> else dev)
      in if bc_tail dev = Some bc then dev\<lparr>bc_tail := bi_prev (bc_nodes dev bc)\<rparr> else dev)"

text \<open>\<open>bc->prev->next = bc\<close> with an empty list is a null dereference.\<close>

definition InsertToBcListTail :: "nat \<Rightarrow> 'f device \<Rightarrow> 'f device option" where
  "InsertToBcListTail bc dev =
     (let dev = upd_bi bc (bi_next_update (\<lambda>_. None)) dev;
          dev = upd_bi bc (bi_prev_update (\<lambda>_. bc_tail dev)) dev
      in case bi_prev (bc_nodes dev bc) of None \<Rightarrow> None
         | Some y \<Rightarrow> Some ((upd_bi y (bi_next_update (\<lambda>_. Some bc)) dev)\<lparr>bc_tail := Some bc\<rparr>))"

definition MoveBcToTail :: "nat \<Rightarrow> 'f device \<Rightarrow> 'f device option" where
  "MoveBcToTail bc dev = InsertToBcListTail bc (BreakBcFromList bc dev)"

subsection \<open>Initialisation and release\<close>

definition SIZEOF_BLOCKINFO :: int where "SIZEOF_BLOCKINFO = 40"
definition SIZEOF_PAGESPARE :: int where "SIZEOF_PAGESPARE = 16"

text \<open>The tags of the zeroed memory.\<close>

definition zero_tag :: Tags where
  "zero_tag = \<lparr>tag_s = bytes_ts (replicate 8 0), data_sum = 0, seal_byte = 0\<rparr>"

definition ones_tag :: Tags where
  "ones_tag = \<lparr>tag_s = bytes_ts (replicate 8 0xFF), data_sum = 0xFFFF, seal_byte = 0xFF\<rparr>"

definition uffs_BlockInfoReleaseCache :: "'f device \<Rightarrow> (URET \<times> 'f device) option" where
  "uffs_BlockInfoReleaseCache dev = do {
     refed \<leftarrow> chain_find (\<lambda>x. bi_next (bc_nodes dev x)) (\<lambda>x. bi_ref_count (bc_nodes dev x) \<noteq> 0) (bc_head dev);
     Some (if refed \<noteq> None then (U_FAIL, dev)
           else let dev = (if bc_head dev \<noteq> None \<and> mem_free dev
                           then dev\<lparr>blockinfo_pool_size := 0\<rparr> else dev)
                in (U_SUCC, dev\<lparr>bc_head := None, bc_tail := None\<rparr>))
   }"

text \<open>The three stores of links of \<open>uffs_BlockInfoInitCache\<close>, by index; \<open>n\<close> pages per block. The
  record that is written is the node in zeroed memory with its spares all expired.\<close>

definition init_bi :: "nat \<Rightarrow> nat option \<Rightarrow> nat option \<Rightarrow> BlockInfo" where
  "init_bi n pv nx = \<lparr>bi_next = nx, bi_prev = pv, bi_block = UFFS_INVALID_BLOCK,
     bi_spares = replicate n \<lparr>sp_tag = zero_tag, sp_expired = True\<rparr>,
     bi_expired_count = int n, bi_ref_count = 0\<rparr>"

definition init_nodes :: "nat \<Rightarrow> nat \<Rightarrow> (nat \<Rightarrow> BlockInfo) \<Rightarrow> nat \<Rightarrow> BlockInfo" where
  "init_nodes n k nodes =
     (let nodes = nodes(0 := init_bi n None (Some 1));
          nodes = fold (\<lambda>i nodes. nodes(i + 1 := init_bi n (Some i) (Some (i + 2)))) [0..<k - 2] nodes
      in nodes(k - 2 + 1 := init_bi n (Some (k - 2)) None))"

definition uffs_BlockInfoInitCache :: "int \<Rightarrow> 'f device \<Rightarrow> (URET \<times> 'f device) option" where
  "uffs_BlockInfoInitCache maxCachedBlocks dev = do {
     dev \<leftarrow> (if bc_head dev \<noteq> None then map_option snd (uffs_BlockInfoReleaseCache dev) else Some dev);
     let sz = (SIZEOF_BLOCKINFO + SIZEOF_PAGESPARE * int (ppb dev)) * maxCachedBlocks;
     let dev = (if blockinfo_pool_size dev = 0
                then case mem_malloc dev of Some al \<Rightarrow> if al sz \<noteq> None then dev\<lparr>blockinfo_pool_size := sz\<rparr> else dev
                     | None \<Rightarrow> dev
                else dev);
     Some (if sz > blockinfo_pool_size dev then (U_FAIL, dev)
           else let k = nat maxCachedBlocks
                in (U_SUCC, dev\<lparr>bc_nodes := init_nodes (ppb dev) k (bc_nodes dev),
                               bc_head := Some 0, bc_tail := Some (k - 2 + 1)\<rparr>))
   }"

subsection \<open>Tags\<close>

definition set_spare :: "nat \<Rightarrow> nat \<Rightarrow> (PageSpare \<Rightarrow> PageSpare) \<Rightarrow> 'f device \<Rightarrow> 'f device" where
  "set_spare bc i f = upd_bi bc (\<lambda>b. b\<lparr>bi_spares := (bi_spares b)[i := f (bi_spares b ! i)]\<rparr>)"

text \<open>Reading one tag into the cache and reporting the result to the pending list.\<close>

definition load_tag :: "nat \<Rightarrow> nat \<Rightarrow> 'f device \<Rightarrow> (int \<times> 'f device) option" where
  "load_tag bc i dev = do {
     (ret, tag, dev) \<leftarrow> uffs_FlashReadPageTag (uint (bi_block (bc_nodes dev bc))) (int i)
                          (Some (GET_TAG dev bc i)) dev;
     let dev = set_spare bc i (\<lambda>s. case tag of Some t \<Rightarrow> s\<lparr>sp_tag := t\<rparr> | None \<Rightarrow> s) dev;
     let dev = dev\<lparr>pending := snd (uffs_BadBlockAddByFlashResult (uint (bi_block (bc_nodes dev bc))) ret (pending dev))\<rparr>;
     Some (ret, dev)
   }"

text \<open>The copy is current from now on.\<close>

definition mark_loaded :: "nat \<Rightarrow> nat \<Rightarrow> 'f device \<Rightarrow> 'f device" where
  "mark_loaded bc i dev =
     upd_bi bc (\<lambda>b. b\<lparr>bi_expired_count := bi_expired_count b - 1\<rparr>)
       (set_spare bc i (\<lambda>s. s\<lparr>sp_expired := False\<rparr>) dev)"

definition set_invalid :: "nat \<Rightarrow> nat \<Rightarrow> 'f device \<Rightarrow> 'f device" where
  "set_invalid bc i = set_spare bc i (\<lambda>s. s\<lparr>sp_tag := (sp_tag s)\<lparr>tag_s := (tag_s (sp_tag s))\<lparr>ts_valid := 1\<rparr>\<rparr>\<rparr>)"

fun load_pages :: "nat \<Rightarrow> nat list \<Rightarrow> nat \<Rightarrow> 'f device \<Rightarrow> (nat \<times> 'f device) option" where
  "load_pages bc [] nfailed dev = Some (nfailed, dev)"
| "load_pages bc (i # ks) nfailed dev =
     (if \<not> sp_expired (bi_spares (bc_nodes dev bc) ! i) then load_pages bc ks nfailed dev
      else do {
        (ret, dev) \<leftarrow> load_tag bc i dev;
        let (nfailed, dev) = (if UFFS_FLASH_HAVE_ERR ret then (nfailed + 1, set_invalid bc i dev)
                              else (nfailed, dev));
        load_pages bc ks nfailed (mark_loaded bc i dev)
      })"

definition uffs_BlockInfoLoad :: "nat \<Rightarrow> int \<Rightarrow> 'f device \<Rightarrow> (URET \<times> 'f device) option" where
  "uffs_BlockInfoLoad work page dev =
     (if page = UFFS_ALL_PAGES
      then do {
        (nfailed, dev) \<leftarrow> load_pages work [0..<ppb dev] 0 dev;
        Some (if nfailed > 0 then U_FAIL else U_SUCC, dev)
      }
      else if page < 0 \<or> page \<ge> int (ppb dev) then Some (U_FAIL, dev)
      else if sp_expired (bi_spares (bc_nodes dev work) ! nat page)
      then do {
        (ret, dev) \<leftarrow> load_tag work (nat page) dev;
        Some (if UFFS_FLASH_HAVE_ERR ret then (U_FAIL, dev)
              else (U_SUCC, mark_loaded work (nat page) dev))
      }
      else Some (U_SUCC, dev))"

subsection \<open>Lookup\<close>

definition uffs_BlockInfoFindInCache :: "int \<Rightarrow> 'f device \<Rightarrow> (nat option \<times> 'f device) option" where
  "uffs_BlockInfoFindInCache block dev = do {
     w \<leftarrow> chain_find (\<lambda>x. bi_next (bc_nodes dev x)) (\<lambda>x. uint (bi_block (bc_nodes dev x)) = block) (bc_head dev);
     Some (case w of None \<Rightarrow> (None, dev)
           | Some x \<Rightarrow> (Some x, upd_bi x (\<lambda>b. b\<lparr>bi_ref_count := bi_ref_count b + 1\<rparr>) dev))
   }"

definition uffs_BlockInfoGet :: "int \<Rightarrow> 'f device \<Rightarrow> (nat option \<times> 'f device) option" where
  "uffs_BlockInfoGet block dev = do {
     (w, dev) \<leftarrow> uffs_BlockInfoFindInCache block dev;
     (case w of
        Some x \<Rightarrow> map_option (\<lambda>dev. (Some x, dev)) (MoveBcToTail x dev)
      | None \<Rightarrow> do {
          w \<leftarrow> chain_find (\<lambda>x. bi_next (bc_nodes dev x)) (\<lambda>x. bi_ref_count (bc_nodes dev x) = 0) (bc_head dev);
          (case w of None \<Rightarrow> Some (None, dev)
           | Some x \<Rightarrow>
               let dev = upd_bi x (\<lambda>b. b\<lparr>bi_block := word_of_int block, bi_expired_count := int (ppb dev),
                           bi_spares := map (\<lambda>s. s\<lparr>sp_expired := True\<rparr>) (take (ppb dev) (bi_spares b)) @ drop (ppb dev) (bi_spares b),
                           bi_ref_count := 1\<rparr>) dev
               in map_option (\<lambda>dev. (Some x, dev)) (MoveBcToTail x dev))
        })
   }"

definition uffs_BlockInfoPut :: "nat option \<Rightarrow> 'f device \<Rightarrow> 'f device" where
  "uffs_BlockInfoPut p dev =
     (case p of None \<Rightarrow> dev
      | Some x \<Rightarrow> if bi_ref_count (bc_nodes dev x) = 0 then dev
                  else upd_bi x (\<lambda>b. b\<lparr>bi_ref_count := bi_ref_count b - 1\<rparr>) dev)"

subsection \<open>Expiry\<close>

definition expire_page :: "nat \<Rightarrow> BlockInfo \<Rightarrow> BlockInfo" where
  "expire_page i b =
     (if \<not> sp_expired (bi_spares b ! i)
      then b\<lparr>bi_spares := (bi_spares b)[i := (bi_spares b ! i)\<lparr>sp_expired := True\<rparr>],
             bi_expired_count := bi_expired_count b + 1\<rparr>
      else b)"

definition uffs_BlockInfoExpire :: "nat \<Rightarrow> int \<Rightarrow> 'f device \<Rightarrow> 'f device" where
  "uffs_BlockInfoExpire p page dev =
     (if page = UFFS_ALL_PAGES then upd_bi p (fold expire_page [0..<ppb dev]) dev
      else if page \<ge> 0 \<and> page < int (ppb dev) then upd_bi p (expire_page (nat page)) dev
      else dev)"

definition uffs_BlockInfoIsAllFree :: "'f device \<Rightarrow> bool option" where
  "uffs_BlockInfoIsAllFree dev = map_option (\<lambda>w. w = None)
     (chain_find (\<lambda>x. bi_next (bc_nodes dev x)) (\<lambda>x. bi_ref_count (bc_nodes dev x) \<noteq> 0) (bc_head dev))"

definition uffs_BlockInfoExpireAll :: "'f device \<Rightarrow> 'f device option" where
  "uffs_BlockInfoExpireAll dev =
     chain_fold (\<lambda>x. bi_next (bc_nodes dev x)) (\<lambda>x. uffs_BlockInfoExpire x UFFS_ALL_PAGES) (bc_head dev) dev"

definition uffs_BlockInfoInitErased :: "nat \<Rightarrow> 'f device \<Rightarrow> 'f device" where
  "uffs_BlockInfoInitErased p dev =
     upd_bi p (\<lambda>b. b\<lparr>bi_spares := map (\<lambda>s. \<lparr>sp_tag = ones_tag, sp_expired = False\<rparr>) (take (ppb dev) (bi_spares b))
                                  @ drop (ppb dev) (bi_spares b),
                     bi_expired_count := 0\<rparr>) dev"

section \<open>Well-formed caches\<close>

abbreviation bc_next :: "'f device \<Rightarrow> nat \<Rightarrow> nat option" where
  "bc_next dev \<equiv> \<lambda>x. bi_next (bc_nodes dev x)"

abbreviation bc_prev :: "'f device \<Rightarrow> nat \<Rightarrow> nat option" where
  "bc_prev dev \<equiv> \<lambda>x. bi_prev (bc_nodes dev x)"

lemma upd_bi_simps [simp]:
  "bc_nodes (upd_bi x f dev) = (bc_nodes dev)(x := f (bc_nodes dev x))"
  "bc_head (upd_bi x f dev) = bc_head dev" "bc_tail (upd_bi x f dev) = bc_tail dev"
  "attr (upd_bi x f dev) = attr dev" "ppb (upd_bi x f dev) = ppb dev"
  "pending (upd_bi x f dev) = pending dev"
  "ops (upd_bi x f dev) = ops dev" "drv (upd_bi x f dev) = drv dev" "spare_data_size (upd_bi x f dev) = spare_data_size dev"
  "spare_mem (upd_bi x f dev) = spare_mem dev" "spare_pool (upd_bi x f dev) = spare_pool dev" "uninit (upd_bi x f dev) = uninit dev"
  "uninit_tag (upd_bi x f dev) = uninit_tag dev" "tree (upd_bi x f dev) = tree dev" "tree_nodes (upd_bi x f dev) = tree_nodes dev"
  "tree_pool (upd_bi x f dev) = tree_pool dev" "bufs (upd_bi x f dev) = bufs dev" "buf_head (upd_bi x f dev) = buf_head dev"
  "buf_tail (upd_bi x f dev) = buf_tail dev" "buf_clone (upd_bi x f dev) = buf_clone dev" "dirtyGroup (upd_bi x f dev) = dirtyGroup dev"
  "dirty_groups (upd_bi x f dev) = dirty_groups dev" "pg_size (upd_bi x f dev) = pg_size dev" "pg_data_size (upd_bi x f dev) = pg_data_size dev"
  "header_size (upd_bi x f dev) = header_size dev" "par_start (upd_bi x f dev) = par_start dev" "par_end (upd_bi x f dev) = par_end dev"
  "reserved_free_blocks (upd_bi x f dev) = reserved_free_blocks dev"
  by (simp_all add: upd_bi_def ppb_def)

interpretation bcl: linked bc_next bc_prev
  "\<lambda>x v. upd_bi x (bi_next_update (\<lambda>_. v))" "\<lambda>x v. upd_bi x (bi_prev_update (\<lambda>_. v))"
  by unfold_locales (auto simp: fun_eq_iff)

definition bi_ok :: "nat \<Rightarrow> BlockInfo \<Rightarrow> bool" where
  "bi_ok n b \<longleftrightarrow> length (bi_spares b) = n \<and>
     bi_expired_count b = int (length (filter sp_expired (bi_spares b))) \<and> 0 \<le> bi_ref_count b"

definition bc_inv :: "'f device \<Rightarrow> nat list \<Rightarrow> bool" where
  "bc_inv dev xs \<longleftrightarrow> dll (bc_next dev) (bc_prev dev) (bc_head dev) (bc_tail dev) xs \<and> 2 \<le> length xs \<and>
     (\<forall>x \<in> set xs. bi_ok (ppb dev) (bc_nodes dev x)) \<and>
     (\<forall>x \<in> set xs. \<forall>y \<in> set xs. bi_block (bc_nodes dev x) = bi_block (bc_nodes dev y) \<longrightarrow>
        bi_block (bc_nodes dev x) \<noteq> UFFS_INVALID_BLOCK \<longrightarrow> x = y)"

text \<open>A node without its links, and devices that differ in the cache only.\<close>

definition bi_data :: "BlockInfo \<Rightarrow> u16 \<times> PageSpare list \<times> int \<times> int" where
  "bi_data b = (bi_block b, bi_spares b, bi_expired_count b, bi_ref_count b)"

definition bc_frame :: "'f device \<Rightarrow> 'f device \<Rightarrow> bool" where
  "bc_frame dev dev' \<longleftrightarrow>
     dev'\<lparr>bc_nodes := bc_nodes dev, bc_head := bc_head dev, bc_tail := bc_tail dev\<rparr> = dev"

lemma bc_frame_refl [simp]: "bc_frame dev dev"
  by (simp add: bc_frame_def)

lemma bc_frame_trans: "bc_frame a b \<Longrightarrow> bc_frame b c \<Longrightarrow> bc_frame a c"
proof -
  assume ab: "bc_frame a b" and bc: "bc_frame b c"
  have "c\<lparr>bc_nodes := bc_nodes a, bc_head := bc_head a, bc_tail := bc_tail a\<rparr> =
      (c\<lparr>bc_nodes := bc_nodes b, bc_head := bc_head b, bc_tail := bc_tail b\<rparr>)
        \<lparr>bc_nodes := bc_nodes a, bc_head := bc_head a, bc_tail := bc_tail a\<rparr>" by simp
  also have "\<dots> = a" using ab bc unfolding bc_frame_def by simp
  finally show "bc_frame a c" by (simp add: bc_frame_def)
qed

lemma bc_frame_simps [simp]:
  "bc_frame dev (d\<lparr>bc_nodes := n\<rparr>) = bc_frame dev d"
  "bc_frame dev (d\<lparr>bc_head := h\<rparr>) = bc_frame dev d"
  "bc_frame dev (d\<lparr>bc_tail := t\<rparr>) = bc_frame dev d"
  "bc_frame dev (upd_bi x f d) = bc_frame dev d"
  by (simp_all add: bc_frame_def upd_bi_def)

lemma bc_frame_fields:
  assumes "bc_frame dev dev'"
  shows "ppb dev' = ppb dev" "attr dev' = attr dev" "pending dev' = pending dev" "drv dev' = drv dev"
    "ops dev' = ops dev" "tree dev' = tree dev" "bufs dev' = bufs dev"
  using arg_cong[OF assms[unfolded bc_frame_def], of attr] arg_cong[OF assms[unfolded bc_frame_def], of pending]
    arg_cong[OF assms[unfolded bc_frame_def], of drv] arg_cong[OF assms[unfolded bc_frame_def], of ops]
    arg_cong[OF assms[unfolded bc_frame_def], of tree] arg_cong[OF assms[unfolded bc_frame_def], of bufs]
  by (simp_all add: ppb_def)

lemma bc_frameE:
  assumes "bc_frame dev dev'"
  obtains n h t where "dev' = dev\<lparr>bc_nodes := n, bc_head := h, bc_tail := t\<rparr>"
proof -
  have "dev' = dev'\<lparr>bc_nodes := bc_nodes dev, bc_head := bc_head dev, bc_tail := bc_tail dev\<rparr>
    \<lparr>bc_nodes := bc_nodes dev', bc_head := bc_head dev', bc_tail := bc_tail dev'\<rparr>" by simp
  also have "\<dots> = dev\<lparr>bc_nodes := bc_nodes dev', bc_head := bc_head dev', bc_tail := bc_tail dev'\<rparr>"
    by (simp only: assms[unfolded bc_frame_def])
  finally show thesis by (rule that)
qed

lemma bi_ok_data: "bi_data b = bi_data b' \<Longrightarrow> bi_ok n b = bi_ok n b'"
  by (auto simp: bi_ok_def bi_data_def)

lemma unlink_data [simp]: "bi_data (bc_nodes (bcl.unlink x dev) y) = bi_data (bc_nodes dev y)"
  "bc_head (bcl.unlink x dev) = bc_head dev" "bc_tail (bcl.unlink x dev) = bc_tail dev"
  by (auto simp: bcl.unlink_def Let_def bi_data_def split: option.split)

lemma unlink_frame: "bc_frame dev (bcl.unlink x dev)"
  by (auto simp: bcl.unlink_def Let_def split: option.split)

lemma BreakBcFromList_eq:
  "BreakBcFromList bc dev = (bcl.unlink bc dev)
     \<lparr>bc_head := (if bc_head dev = Some bc then bc_next (bcl.unlink bc dev) bc else bc_head dev),
      bc_tail := (if bc_tail dev = Some bc then bc_prev (bcl.unlink bc dev) bc else bc_tail dev)\<rparr>"
proof -
  let ?u = "bcl.unlink bc dev"
  have "BreakBcFromList bc dev =
      (let dev = (if bc_head ?u = Some bc then ?u\<lparr>bc_head := bi_next (bc_nodes ?u bc)\<rparr> else ?u)
       in if bc_tail dev = Some bc then dev\<lparr>bc_tail := bi_prev (bc_nodes dev bc)\<rparr> else dev)"
    unfolding BreakBcFromList_def bcl.unlink_def Let_def ..
  then show ?thesis by (simp add: Let_def)
qed

lemma MoveBcToTail_ok:
  assumes inv: "bc_inv dev xs" and x: "x \<in> set xs"
  obtains dev' where "MoveBcToTail x dev = Some dev'" "bc_inv dev' (remove1 x xs @ [x])"
    "bc_frame dev dev'" "\<And>y. bi_data (bc_nodes dev' y) = bi_data (bc_nodes dev y)"
proof -
  obtain as bs where xs: "xs = as @ x # bs" using split_list[OF x] by blast
  have dl: "dll (bc_next dev) (bc_prev dev) (bc_head dev) (bc_tail dev) (as @ x # bs)"
    using inv xs by (simp add: bc_inv_def)
  have dis: "distinct (as @ x # bs)" by (rule dll_distinct[OF dl])
  let ?u = "BreakBcFromList x dev"
  note ul = bcl.unlink_dll[OF dl]
  have u: "dll (bc_next ?u) (bc_prev ?u) (bc_head ?u) (bc_tail ?u) (as @ bs)"
    unfolding BreakBcFromList_eq using ul by (auto split: if_splits)
  have "as @ bs \<noteq> []" using inv xs by (auto simp: bc_inv_def)
  then obtain y where y: "bc_tail ?u = Some y" using dll_tail[OF u] by auto
  have "x \<notin> set (as @ bs)" using dis by auto
  note ap = bcl.append_at_dll[OF u[unfolded y] this]
  define dev' where "dev' = (bcl.append_at x y ?u)\<lparr>bc_tail := Some x\<rparr>"
  have mv: "MoveBcToTail x dev = Some dev'"
    by (simp add: MoveBcToTail_def InsertToBcListTail_def Let_def dev'_def bcl.append_at_def y)
  have rem: "remove1 x xs @ [x] = (as @ bs) @ [x]" using dis xs by (simp add: remove1_append)
  have data: "bi_data (bc_nodes dev' z) = bi_data (bc_nodes dev z)" for z
  proof -
    have "bi_data (bc_nodes dev' z) = bi_data (bc_nodes ?u z)"
      by (simp add: dev'_def bcl.append_at_def bi_data_def)
    then show ?thesis by (simp add: BreakBcFromList_eq)
  qed
  have frame: "bc_frame dev dev'"
  proof -
    have "bc_frame dev ?u" using unlink_frame[of dev x] by (simp add: BreakBcFromList_eq)
    then show ?thesis by (simp add: dev'_def bcl.append_at_def)
  qed
  have d': "dll (bc_next dev') (bc_prev dev') (bc_head dev') (bc_tail dev') (remove1 x xs @ [x])"
    unfolding rem using ap by (simp add: dev'_def bcl.append_at_def)
  have "bi_block (bc_nodes dev' z) = bi_block (bc_nodes dev z)" for z
    using data[of z] by (simp add: bi_data_def)
  moreover have "set (remove1 x xs @ [x]) = set xs" "length (remove1 x xs @ [x]) = length xs"
    using dis xs by (auto simp: remove1_append)
  ultimately have "bc_inv dev' (remove1 x xs @ [x])"
    using inv d' bi_ok_data[OF data] bc_frame_fields(1)[OF frame] by (simp add: bc_inv_def)
  with mv frame data that show thesis by blast
qed

section \<open>Lookup and replacement\<close>

lemma bc_invD:
  assumes "bc_inv dev xs"
  shows "chain (bc_next dev) (bc_head dev) xs" "distinct xs" "x \<in> set xs \<Longrightarrow> bi_ok (ppb dev) (bc_nodes dev x)"
  using assms by (auto simp: bc_inv_def dest: dllD1 dll_distinct)

text \<open>Changing the data of a node keeps the list.\<close>

lemma dll_upd_bi:
  assumes "\<And>b. bi_next (f b) = bi_next b" "\<And>b. bi_prev (f b) = bi_prev b"
  shows "dll (bc_next (upd_bi x f dev)) (bc_prev (upd_bi x f dev)) h t xs = dll (bc_next dev) (bc_prev dev) h t xs"
  by (rule dll_cong) (simp add: assms)

lemma bc_inv_upd:
  assumes inv: "bc_inv dev xs"
    and links: "\<And>b. bi_next (f b) = bi_next b" "\<And>b. bi_prev (f b) = bi_prev b"
    and ok: "bi_ok (ppb dev) (f (bc_nodes dev x))"
    and blk: "bi_block (f (bc_nodes dev x)) = bi_block (bc_nodes dev x) \<or>
              (\<forall>y \<in> set xs. bi_block (bc_nodes dev y) \<noteq> bi_block (f (bc_nodes dev x)))"
  shows "bc_inv (upd_bi x f dev) xs"
proof -
  let ?d = "upd_bi x f dev"
  have uniq: "y = z" if "y \<in> set xs" "z \<in> set xs" "bi_block (bc_nodes ?d y) = bi_block (bc_nodes ?d z)"
    "bi_block (bc_nodes ?d y) \<noteq> UFFS_INVALID_BLOCK" for y z
  proof (rule ccontr)
    assume ne: "y \<noteq> z"
    have old: "bi_block (bc_nodes dev y) = bi_block (bc_nodes dev z) \<Longrightarrow>
        bi_block (bc_nodes dev y) \<noteq> UFFS_INVALID_BLOCK \<Longrightarrow> False"
      using inv that(1,2) ne unfolding bc_inv_def by blast
    show False
    proof (cases "bi_block (f (bc_nodes dev x)) = bi_block (bc_nodes dev x)")
      case True
      then have "bi_block (bc_nodes ?d w) = bi_block (bc_nodes dev w)" for w by simp
      then show False using old that(3,4) by simp
    next
      case False
      then have o: "\<forall>y \<in> set xs. bi_block (bc_nodes dev y) \<noteq> bi_block (f (bc_nodes dev x))" using blk by blast
      then show False using that old ne o[THEN bspec, OF that(1)] o[THEN bspec, OF that(2)]
        by (auto split: if_splits)
    qed
  qed
  have "\<forall>y \<in> set xs. bi_ok (ppb ?d) (bc_nodes ?d y)" using inv ok by (simp add: bc_inv_def)
  moreover have "dll (bc_next ?d) (bc_prev ?d) (bc_head ?d) (bc_tail ?d) xs" "2 \<le> length xs"
    using inv unfolding bc_inv_def by (simp_all only: dll_upd_bi[OF links] upd_bi_simps(2,3))
  ultimately show ?thesis
    unfolding bc_inv_def by (intro conjI ballI impI) (assumption | rule uniq | blast)+
qed

lemma Find_eq:
  assumes inv: "bc_inv dev xs"
  shows "uffs_BlockInfoFindInCache (uint b) dev =
    Some (case List.find (\<lambda>x. bi_block (bc_nodes dev x) = b) xs of None \<Rightarrow> (None, dev)
          | Some x \<Rightarrow> (Some x, upd_bi x (\<lambda>b. b\<lparr>bi_ref_count := bi_ref_count b + 1\<rparr>) dev))"
  unfolding uffs_BlockInfoFindInCache_def
  by (simp add: chain_find_eq[OF bc_invD(1)[OF inv]] uint_eq_iff split: option.split)

definition reuse_bi :: "nat \<Rightarrow> u16 \<Rightarrow> BlockInfo \<Rightarrow> BlockInfo" where
  "reuse_bi n b = (\<lambda>i. i\<lparr>bi_block := b, bi_expired_count := int n,
     bi_spares := map (\<lambda>s. s\<lparr>sp_expired := True\<rparr>) (take n (bi_spares i)) @ drop n (bi_spares i), bi_ref_count := 1\<rparr>)"

lemma bi_ok_ref: "bi_ok n b \<Longrightarrow> bi_ok n (b\<lparr>bi_ref_count := bi_ref_count b + 1\<rparr>)"
  by (simp add: bi_ok_def)

lemma bi_ok_reuse: "bi_ok n b \<Longrightarrow> bi_ok n (reuse_bi n k b)"
  by (simp add: bi_ok_def reuse_bi_def comp_def)

lemma Get_cached:
  assumes inv: "bc_inv dev xs" and f: "List.find (\<lambda>x. bi_block (bc_nodes dev x) = b) xs = Some x"
  obtains dev' where "uffs_BlockInfoGet (uint b) dev = Some (Some x, dev')" "x \<in> set xs"
    "bi_block (bc_nodes dev x) = b" "bc_inv dev' (remove1 x xs @ [x])" "bc_frame dev dev'"
    "\<And>y. y \<noteq> x \<Longrightarrow> bi_data (bc_nodes dev' y) = bi_data (bc_nodes dev y)"
    "bi_data (bc_nodes dev' x) = bi_data ((bc_nodes dev x)\<lparr>bi_ref_count := bi_ref_count (bc_nodes dev x) + 1\<rparr>)"
proof -
  have x: "x \<in> set xs" "bi_block (bc_nodes dev x) = b" using find_Some_in[OF f] by auto
  let ?f = "\<lambda>b. b\<lparr>bi_ref_count := bi_ref_count b + 1\<rparr>"
  have "bc_inv (upd_bi x ?f dev) xs"
    by (rule bc_inv_upd[OF inv]) (use bc_invD(3)[OF inv x(1)] in \<open>simp_all add: bi_ok_ref\<close>)
  from MoveBcToTail_ok[OF this x(1)] obtain dev' where
    d: "MoveBcToTail x (upd_bi x ?f dev) = Some dev'" "bc_inv dev' (remove1 x xs @ [x])"
    "bc_frame (upd_bi x ?f dev) dev'" "\<And>y. bi_data (bc_nodes dev' y) = bi_data (bc_nodes (upd_bi x ?f dev) y)"
    by blast
  show thesis
  proof (rule that[OF _ x d(2)])
    show "uffs_BlockInfoGet (uint b) dev = Some (Some x, dev')"
      unfolding uffs_BlockInfoGet_def Find_eq[OF inv] f by (simp add: d(1))
    show "bc_frame dev dev'" using bc_frame_trans[OF _ d(3)] by simp
  qed (simp_all add: d(4))
qed

lemma Get_uncached:
  assumes inv: "bc_inv dev xs" and b: "\<And>x. x \<in> set xs \<Longrightarrow> bi_block (bc_nodes dev x) \<noteq> b"
    and f: "List.find (\<lambda>x. bi_ref_count (bc_nodes dev x) = 0) xs = Some x"
  obtains dev' where "uffs_BlockInfoGet (uint b) dev = Some (Some x, dev')" "x \<in> set xs"
    "bc_inv dev' (remove1 x xs @ [x])" "bc_frame dev dev'"
    "\<And>y. y \<noteq> x \<Longrightarrow> bi_data (bc_nodes dev' y) = bi_data (bc_nodes dev y)"
    "bi_data (bc_nodes dev' x) = bi_data (reuse_bi (ppb dev) b (bc_nodes dev x))"
proof -
  have x: "x \<in> set xs" using find_Some_in[OF f] by auto
  let ?f = "reuse_bi (ppb dev) b"
  have nf: "List.find (\<lambda>x. bi_block (bc_nodes dev x) = b) xs = None"
    using b by (auto simp: find_None_iff_set)
  have "bc_inv (upd_bi x ?f dev) xs"
    by (rule bc_inv_upd[OF inv]) (use bc_invD(3)[OF inv x] b in \<open>simp_all add: bi_ok_reuse\<close>, simp_all add: reuse_bi_def b)
  from MoveBcToTail_ok[OF this x] obtain dev' where
    d: "MoveBcToTail x (upd_bi x ?f dev) = Some dev'" "bc_inv dev' (remove1 x xs @ [x])"
    "bc_frame (upd_bi x ?f dev) dev'" "\<And>y. bi_data (bc_nodes dev' y) = bi_data (bc_nodes (upd_bi x ?f dev) y)"
    by blast
  show thesis
  proof (rule that[OF _ x d(2)])
    show "uffs_BlockInfoGet (uint b) dev = Some (Some x, dev')"
      unfolding uffs_BlockInfoGet_def Find_eq[OF inv] nf
      using d(1) by (simp add: chain_find_eq[OF bc_invD(1)[OF inv]] f reuse_bi_def)
    show "bc_frame dev dev'" using bc_frame_trans[OF _ d(3)] by simp
  qed (simp_all add: d(4))
qed

text \<open>C29. \<open>uffs_BlockInfoGet\<close> always returns. A cached block is found and referenced once
  more; otherwise the least recently used unreferenced node is given to the block, with all
  its tags expired and one reference; it reports failure exactly when the block is not cached
  and every node is referenced. The node becomes the most recently used one, no other node
  changes, and the cache stays well-formed with every block cached at most once.\<close>

theorem BlockInfoGet_lru:
  fixes dev :: "'f device"
  assumes "bc_inv dev xs"
  shows "\<exists>r dev'. uffs_BlockInfoGet (uint b) dev = Some (r, dev') \<and> bc_frame dev dev' \<and>
    (case r of
       None \<Rightarrow> dev' = dev \<and> (\<forall>x \<in> set xs. bi_block (bc_nodes dev x) \<noteq> b \<and> bi_ref_count (bc_nodes dev x) \<noteq> 0)
     | Some x \<Rightarrow> x \<in> set xs \<and> bc_inv dev' (remove1 x xs @ [x]) \<and>
         (\<forall>y. y \<noteq> x \<longrightarrow> bi_data (bc_nodes dev' y) = bi_data (bc_nodes dev y)) \<and>
         (if b \<in> (\<lambda>y. bi_block (bc_nodes dev y)) ` set xs
          then bi_data (bc_nodes dev' x) = (b, bi_spares (bc_nodes dev x), bi_expired_count (bc_nodes dev x),
                 bi_ref_count (bc_nodes dev x) + 1)
          else List.find (\<lambda>y. bi_ref_count (bc_nodes dev y) = 0) xs = Some x \<and>
               bi_data (bc_nodes dev' x) = (b, map (\<lambda>s. s\<lparr>sp_expired := True\<rparr>) (bi_spares (bc_nodes dev x)),
                 int (ppb dev), 1)))"
proof (cases "List.find (\<lambda>x. bi_block (bc_nodes dev x) = b) xs")
  case (Some x)
  obtain dev' where d: "uffs_BlockInfoGet (uint b) dev = Some (Some x, dev')" "x \<in> set xs"
    "bi_block (bc_nodes dev x) = b" "bc_inv dev' (remove1 x xs @ [x])" "bc_frame dev dev'"
    "\<And>y. y \<noteq> x \<Longrightarrow> bi_data (bc_nodes dev' y) = bi_data (bc_nodes dev y)"
    "bi_data (bc_nodes dev' x) = bi_data ((bc_nodes dev x)\<lparr>bi_ref_count := bi_ref_count (bc_nodes dev x) + 1\<rparr>)"
    using Get_cached[OF assms Some] by blast
  then have "b \<in> (\<lambda>y. bi_block (bc_nodes dev y)) ` set xs" by blast
  then show ?thesis
    using d by (intro exI[of _ "Some x"] exI[of _ dev']) (simp add: bi_data_def)
next
  case None
  then have b: "bi_block (bc_nodes dev x) \<noteq> b" if "x \<in> set xs" for x
    using that by (simp add: find_None_iff_set)
  then have nb: "b \<notin> (\<lambda>y. bi_block (bc_nodes dev y)) ` set xs" by blast
  show ?thesis
  proof (cases "List.find (\<lambda>x. bi_ref_count (bc_nodes dev x) = 0) xs")
    case None': None
    have "uffs_BlockInfoGet (uint b) dev = Some (None, dev)"
      unfolding uffs_BlockInfoGet_def Find_eq[OF assms] None
      by (simp add: chain_find_eq[OF bc_invD(1)[OF assms]] None')
    then show ?thesis using b None' by (intro exI[of _ None] exI[of _ dev]) (simp add: find_None_iff_set)
  next
    case (Some x)
    obtain dev' where d: "uffs_BlockInfoGet (uint b) dev = Some (Some x, dev')" "x \<in> set xs"
      "bc_inv dev' (remove1 x xs @ [x])" "bc_frame dev dev'"
      "\<And>y. y \<noteq> x \<Longrightarrow> bi_data (bc_nodes dev' y) = bi_data (bc_nodes dev y)"
      "bi_data (bc_nodes dev' x) = bi_data (reuse_bi (ppb dev) b (bc_nodes dev x))"
      using Get_uncached[OF assms b Some] by blast
    have "length (bi_spares (bc_nodes dev x)) = ppb dev"
      using bc_invD(3)[OF assms d(2)] by (simp add: bi_ok_def)
    then show ?thesis
      using d nb Some by (intro exI[of _ "Some x"] exI[of _ dev']) (simp add: bi_data_def reuse_bi_def)
  qed
qed

section \<open>Loading and expiring\<close>

lemma bc_inv_other [simp]:
  "bc_inv (dev\<lparr>drv := f, spare_mem := m\<rparr>) xs = bc_inv dev xs"
  "bc_inv (dev\<lparr>pending := p\<rparr>) xs = bc_inv dev xs"
  by (simp_all add: bc_inv_def ppb_def)

lemma ppb_other [simp]:
  "ppb (dev\<lparr>drv := f, spare_mem := m\<rparr>) = ppb dev" "ppb (dev\<lparr>pending := p\<rparr>) = ppb dev"
  by (simp_all add: ppb_def)

lemma length_filter_update:
  "i < length xs \<Longrightarrow> length (filter P (xs[i := y])) + (if P (xs ! i) then 1 else 0) =
     length (filter P xs) + (if P y then 1 else 0)"
proof (induction xs arbitrary: i)
  case (Cons a xs)
  then show ?case by (cases i) auto
qed simp

lemma bi_ok_update:
  assumes "bi_ok n b" "i < n"
  shows "bi_ok n (b\<lparr>bi_spares := (bi_spares b)[i := s],
      bi_expired_count := bi_expired_count b + (if sp_expired s then 1 else 0)
        - (if sp_expired (bi_spares b ! i) then 1 else 0)\<rparr>)"
  using assms length_filter_update[of i "bi_spares b" sp_expired s] by (auto simp: bi_ok_def)

abbreviation tag_expired :: "'f device \<Rightarrow> nat \<Rightarrow> nat \<Rightarrow> bool" where
  "tag_expired dev bc i \<equiv> sp_expired (bi_spares (bc_nodes dev bc) ! i)"

lemma set_spare_inv:
  assumes inv: "bc_inv dev xs" and bc: "bc \<in> set xs" "i < ppb dev"
    and e: "\<And>s. sp_expired (f s) = sp_expired s"
  shows "bc_inv (set_spare bc i f dev) xs" "tag_expired (set_spare bc i f dev) bc j = tag_expired dev bc j"
    "ppb (set_spare bc i f dev) = ppb dev"
proof -
  have ok: "bi_ok (ppb dev) (bc_nodes dev bc)" by (rule bc_invD(3)[OF inv bc(1)])
  have "bi_ok (ppb dev) ((bc_nodes dev bc)\<lparr>bi_spares := (bi_spares (bc_nodes dev bc))[i := f (bi_spares (bc_nodes dev bc) ! i)]\<rparr>)"
    using bi_ok_update[OF ok bc(2), of "f (bi_spares (bc_nodes dev bc) ! i)"] by (simp add: e)
  then show "bc_inv (set_spare bc i f dev) xs"
    unfolding set_spare_def by (intro bc_inv_upd[OF inv]) simp_all
  show "tag_expired (set_spare bc i f dev) bc j = tag_expired dev bc j"
    using ok bc(2) by (cases "j = i") (simp_all add: set_spare_def e bi_ok_def)
  show "ppb (set_spare bc i f dev) = ppb dev" by (simp add: set_spare_def)
qed

lemma load_tag_inv:
  assumes inv: "bc_inv dev xs" and bc: "bc \<in> set xs" "i < ppb dev"
    and l: "load_tag bc i dev = Some (ret, dev')"
  shows "bc_inv dev' xs" "ppb dev' = ppb dev" "tag_expired dev' bc j = tag_expired dev bc j"
proof -
  obtain tag dev1 where r: "uffs_FlashReadPageTag (uint (bi_block (bc_nodes dev bc))) (int i)
      (Some (GET_TAG dev bc i)) dev = Some (ret, tag, dev1)"
    and d: "dev' = (set_spare bc i (\<lambda>s. case tag of Some t \<Rightarrow> s\<lparr>sp_tag := t\<rparr> | None \<Rightarrow> s) dev1)
      \<lparr>pending := pending dev'\<rparr>"
    using l by (auto simp: load_tag_def Let_def bind_eq_Some_conv)
  obtain f m where f: "dev1 = dev\<lparr>drv := f, spare_mem := m\<rparr>" using ReadPageTag_frame(1)[OF r] by blast
  have inv1: "bc_inv dev1 xs" and i1: "i < ppb dev1" using inv bc(2) by (simp_all add: f)
  note ss = set_spare_inv[OF inv1 bc(1) i1, of "\<lambda>s. case tag of Some t \<Rightarrow> s\<lparr>sp_tag := t\<rparr> | None \<Rightarrow> s"]
  have "sp_expired (case tag of Some t \<Rightarrow> s\<lparr>sp_tag := t\<rparr> | None \<Rightarrow> s) = sp_expired s" for s
    by (cases tag) auto
  note ss = ss[OF this]
  show "bc_inv dev' xs" by (subst d) (simp add: ss(1))
  show "ppb dev' = ppb dev" by (subst d) (simp add: ss(3), simp add: f)
  show "tag_expired dev' bc j = tag_expired dev bc j" by (subst d) (simp add: ss(2), simp add: f)
qed

lemma mark_loaded_inv:
  assumes inv: "bc_inv dev xs" and bc: "bc \<in> set xs" "i < ppb dev" "tag_expired dev bc i"
  shows "bc_inv (mark_loaded bc i dev) xs" "ppb (mark_loaded bc i dev) = ppb dev"
    "tag_expired (mark_loaded bc i dev) bc j = (tag_expired dev bc j \<and> j \<noteq> i)"
proof -
  have ok: "bi_ok (ppb dev) (bc_nodes dev bc)" by (rule bc_invD(3)[OF inv bc(1)])
  let ?f = "\<lambda>b. b\<lparr>bi_spares := (bi_spares b)[i := (bi_spares b ! i)\<lparr>sp_expired := False\<rparr>], bi_expired_count := bi_expired_count b - 1\<rparr>"
  have m: "mark_loaded bc i dev = upd_bi bc ?f dev"
    by (simp add: mark_loaded_def set_spare_def upd_bi_def)
  have "bi_ok (ppb dev) (?f (bc_nodes dev bc))"
    using bi_ok_update[OF ok bc(2), of "(bi_spares (bc_nodes dev bc) ! i)\<lparr>sp_expired := False\<rparr>"] bc(3) by simp
  then show "bc_inv (mark_loaded bc i dev) xs"
    unfolding m by (intro bc_inv_upd[OF inv]) simp_all
  show "ppb (mark_loaded bc i dev) = ppb dev" by (simp add: m)
  show "tag_expired (mark_loaded bc i dev) bc j = (tag_expired dev bc j \<and> j \<noteq> i)"
    using ok bc(2) by (cases "j = i") (simp_all add: m bi_ok_def)
qed

lemma set_invalid_inv:
  assumes "bc_inv dev xs" "bc \<in> set xs" "i < ppb dev"
  shows "bc_inv (set_invalid bc i dev) xs" "tag_expired (set_invalid bc i dev) bc j = tag_expired dev bc j"
    "ppb (set_invalid bc i dev) = ppb dev"
  unfolding set_invalid_def by (rule set_spare_inv[OF assms]; simp)+

lemma load_pages_inv:
  assumes "load_pages bc ks nf dev = Some (n, dev')" "bc_inv dev xs" "bc \<in> set xs" "\<forall>i \<in> set ks. i < ppb dev"
  shows "bc_inv dev' xs \<and> ppb dev' = ppb dev \<and> (\<forall>j. tag_expired dev' bc j \<longleftrightarrow> tag_expired dev bc j \<and> j \<notin> set ks)"
  using assms
proof (induction ks arbitrary: nf dev)
  case (Cons i ks)
  show ?case
  proof (cases "tag_expired dev bc i")
    case False
    then show ?thesis using Cons by auto
  next
    case True
    obtain ret dev1 where l: "load_tag bc i dev = Some (ret, dev1)"
      and rest: "load_pages bc ks (if UFFS_FLASH_HAVE_ERR ret then nf + 1 else nf)
        (mark_loaded bc i (if UFFS_FLASH_HAVE_ERR ret then set_invalid bc i dev1 else dev1)) = Some (n, dev')"
      using Cons.prems(1) True by (auto simp: bind_eq_Some_conv Let_def split: if_splits)
    define dev2 where "dev2 = (if UFFS_FLASH_HAVE_ERR ret then set_invalid bc i dev1 else dev1)"
    have i: "i < ppb dev" using Cons.prems(4) by simp
    note l1 = load_tag_inv[OF Cons.prems(2,3) i l]
    have i1: "i < ppb dev1" using i l1(2) by simp
    note iv = set_invalid_inv[OF l1(1) Cons.prems(3) i1]
    have d2: "bc_inv dev2 xs" "ppb dev2 = ppb dev" "\<And>j. tag_expired dev2 bc j = tag_expired dev bc j"
      using l1 iv by (simp_all add: dev2_def)
    have i2: "i < ppb dev2" "tag_expired dev2 bc i" using i d2 True by simp_all
    note ml = mark_loaded_inv[OF d2(1) Cons.prems(3) i2]
    from Cons.IH[OF rest[folded dev2_def] ml(1) Cons.prems(3)] show ?thesis
      using ml(2,3) d2(2,3) Cons.prems(4) by auto
  qed
qed simp

lemma Load_inv:
  assumes l: "uffs_BlockInfoLoad bc page dev = Some (ret, dev')" and inv: "bc_inv dev xs" and bc: "bc \<in> set xs"
  shows "bc_inv dev' xs \<and> ppb dev' = ppb dev \<and>
    (page = UFFS_ALL_PAGES \<longrightarrow> (\<forall>i < ppb dev. \<not> tag_expired dev' bc i) \<and> bi_expired_count (bc_nodes dev' bc) = 0) \<and>
    (page \<noteq> UFFS_ALL_PAGES \<and> ret = U_SUCC \<longrightarrow> 0 \<le> page \<and> page < int (ppb dev) \<and> \<not> tag_expired dev' bc (nat page)) \<and>
    (page \<noteq> UFFS_ALL_PAGES \<and> 0 \<le> page \<and> page < int (ppb dev) \<and> \<not> tag_expired dev bc (nat page) \<longrightarrow>
       ret = U_SUCC \<and> dev' = dev)"
proof (cases "page = UFFS_ALL_PAGES")
  case True
  then obtain n where "load_pages bc [0..<ppb dev] 0 dev = Some (n, dev')"
    using l by (auto simp: uffs_BlockInfoLoad_def bind_eq_Some_conv)
  from load_pages_inv[OF this inv bc]
  have p: "bc_inv dev' xs" "ppb dev' = ppb dev" "\<forall>j. tag_expired dev' bc j \<longleftrightarrow> tag_expired dev bc j \<and> \<not> j < ppb dev"
    by auto
  have ok: "bi_ok (ppb dev) (bc_nodes dev' bc)" using bc_invD(3)[OF p(1) bc] p(2) by simp
  have "filter sp_expired (bi_spares (bc_nodes dev' bc)) = []"
    using ok p(3) by (auto simp: bi_ok_def filter_empty_conv in_set_conv_nth)
  then show ?thesis using True p ok by (simp add: bi_ok_def)
next
  case False
  show ?thesis
  proof (cases "page < 0 \<or> page \<ge> int (ppb dev)")
    case True
    then show ?thesis using l inv False by (auto simp: uffs_BlockInfoLoad_def)
  next
    case rng: False
    then have i: "nat page < ppb dev" by auto
    show ?thesis
    proof (cases "tag_expired dev bc (nat page)")
      case False
      then show ?thesis using l inv rng \<open>page \<noteq> UFFS_ALL_PAGES\<close> by (auto simp: uffs_BlockInfoLoad_def)
    next
      case True
      then obtain r dev1 where d: "load_tag bc (nat page) dev = Some (r, dev1)"
        and res: "(ret, dev') = (if UFFS_FLASH_HAVE_ERR r then (U_FAIL, dev1) else (U_SUCC, mark_loaded bc (nat page) dev1))"
        using l rng \<open>page \<noteq> UFFS_ALL_PAGES\<close> by (auto simp: uffs_BlockInfoLoad_def bind_eq_Some_conv)
      note l1 = load_tag_inv[OF inv bc i d]
      have i1: "nat page < ppb dev1" "tag_expired dev1 bc (nat page)" using i l1 True by simp_all
      note ml = mark_loaded_inv[OF l1(1) bc i1]
      show ?thesis using res l1 ml rng True \<open>page \<noteq> UFFS_ALL_PAGES\<close> by (auto split: if_splits)
    qed
  qed
qed

lemma can_read_nodes [simp]:
  "can_read (upd_bi x g dev) = can_read dev" "can_read (set_spare x i h dev) = can_read dev"
  by (simp_all add: can_read_def upd_bi_def set_spare_def)

lemma load_tag_total: "can_read dev \<Longrightarrow> \<exists>ret dev'. load_tag bc i dev = Some (ret, dev') \<and> can_read dev'"
proof -
  assume c: "can_read dev"
  obtain ret tag dev1 where r: "uffs_FlashReadPageTag (uint (bi_block (bc_nodes dev bc))) (int i)
      (Some (GET_TAG dev bc i)) dev = Some (ret, tag, dev1)"
    using ReadPageTag_total[OF c] by (metis prod_cases3)
  obtain f m where "dev1 = dev\<lparr>drv := f, spare_mem := m\<rparr>" using ReadPageTag_frame(1)[OF r] by blast
  then show ?thesis using r c by (simp add: load_tag_def Let_def)
qed

lemma load_pages_total: "can_read dev \<Longrightarrow> \<exists>r. load_pages bc ks nf dev = Some r"
proof (induction ks arbitrary: nf dev)
  case (Cons i ks)
  obtain ret dev1 where "load_tag bc i dev = Some (ret, dev1)" "can_read dev1"
    using load_tag_total[OF Cons.prems] by blast
  then show ?case
    using Cons by (auto simp: Let_def mark_loaded_def set_invalid_def)
qed simp

lemma Load_total: "can_read dev \<Longrightarrow> \<exists>ret dev'. uffs_BlockInfoLoad bc page dev = Some (ret, dev')"
  using load_pages_total[of dev bc "[0..<ppb dev]" 0] load_tag_total[of dev bc "nat page"]
  by (auto simp: uffs_BlockInfoLoad_def)

text \<open>C30. \<open>uffs_BlockInfoLoad\<close> returns for every driver with a read function and keeps the
  cache well-formed, its expired counters exact. A tag that is cached is served without any
  effect (no flash access); after a successful load of a page its copy is current; after
  loading all pages, failed ones included, no page of the block is expired.\<close>

theorem BlockInfoLoad_caches:
  fixes dev :: "'f device"
  assumes "bc_inv dev xs" "bc \<in> set xs" "can_read dev"
  shows "\<exists>ret dev'. uffs_BlockInfoLoad bc page dev = Some (ret, dev') \<and> bc_inv dev' xs \<and>
    (page = UFFS_ALL_PAGES \<longrightarrow> (\<forall>i < ppb dev. \<not> tag_expired dev' bc i) \<and> bi_expired_count (bc_nodes dev' bc) = 0) \<and>
    (page \<noteq> UFFS_ALL_PAGES \<and> ret = U_SUCC \<longrightarrow> 0 \<le> page \<and> page < int (ppb dev) \<and> \<not> tag_expired dev' bc (nat page)) \<and>
    (page \<noteq> UFFS_ALL_PAGES \<and> 0 \<le> page \<and> page < int (ppb dev) \<and> \<not> tag_expired dev bc (nat page) \<longrightarrow>
       ret = U_SUCC \<and> dev' = dev)"
  using Load_total[OF assms(3), of bc page] Load_inv[OF _ assms(1,2)] by blast

subsection \<open>The other operations keep the invariant\<close>

lemma Put_inv:
  assumes inv: "bc_inv dev xs" and x: "x \<in> set xs"
  shows "bc_inv (uffs_BlockInfoPut (Some x) dev) xs"
proof (cases "bi_ref_count (bc_nodes dev x) = 0")
  case False
  have "bi_ok (ppb dev) ((bc_nodes dev x)\<lparr>bi_ref_count := bi_ref_count (bc_nodes dev x) - 1\<rparr>)"
    using bc_invD(3)[OF inv x] False by (simp add: bi_ok_def)
  then show ?thesis using False by (simp add: uffs_BlockInfoPut_def bc_inv_upd[OF inv])
qed (simp add: uffs_BlockInfoPut_def inv)

lemma expire_page_ok:
  assumes "bi_ok n b" "i < n"
  shows "bi_ok n (expire_page i b)"
proof (cases "sp_expired (bi_spares b ! i)")
  case False
  then show ?thesis
    using bi_ok_update[OF assms, of "(bi_spares b ! i)\<lparr>sp_expired := True\<rparr>"] by (simp add: expire_page_def)
qed (simp add: expire_page_def assms)

lemma expire_page_links [simp]:
  "bi_next (expire_page i b) = bi_next b" "bi_prev (expire_page i b) = bi_prev b"
  "bi_block (expire_page i b) = bi_block b" "bi_ref_count (expire_page i b) = bi_ref_count b"
  "length (bi_spares (expire_page i b)) = length (bi_spares b)"
  by (simp_all add: expire_page_def)

lemma fold_expire_links [simp]:
  "bi_next (fold expire_page ks b) = bi_next b" "bi_prev (fold expire_page ks b) = bi_prev b"
  "bi_block (fold expire_page ks b) = bi_block b"
  by (induction ks arbitrary: b) simp_all

lemma fold_expire_ok: "bi_ok n b \<Longrightarrow> \<forall>i \<in> set ks. i < n \<Longrightarrow> bi_ok n (fold expire_page ks b)"
  by (induction ks arbitrary: b) (auto intro: expire_page_ok)

lemma fold_expire_spares:
  "\<forall>i \<in> set ks. i < length (bi_spares b) \<Longrightarrow> j < length (bi_spares b) \<Longrightarrow>
     bi_spares (fold expire_page ks b) ! j =
       (if j \<in> set ks then (bi_spares b ! j)\<lparr>sp_expired := True\<rparr> else bi_spares b ! j)"
  by (induction ks arbitrary: b) (auto simp: expire_page_def nth_list_update)

lemma Expire_inv:
  assumes inv: "bc_inv dev xs" and x: "x \<in> set xs"
  shows "bc_inv (uffs_BlockInfoExpire x page dev) xs"
  using bc_invD(3)[OF inv x] unfolding uffs_BlockInfoExpire_def
  by (auto intro!: bc_inv_upd[OF inv] fold_expire_ok expire_page_ok simp: inv)

lemma InitErased_inv:
  assumes inv: "bc_inv dev xs" and x: "x \<in> set xs"
  shows "bc_inv (uffs_BlockInfoInitErased x dev) xs"
  using bc_invD(3)[OF inv x] unfolding uffs_BlockInfoInitErased_def
  by (intro bc_inv_upd[OF inv]) (auto simp: bi_ok_def)

lemma ExpireAll_eq: "bc_inv dev xs \<Longrightarrow> uffs_BlockInfoExpireAll dev = Some (fold (\<lambda>x. uffs_BlockInfoExpire x UFFS_ALL_PAGES) xs dev)"
  unfolding uffs_BlockInfoExpireAll_def by (rule chain_fold_eq) (rule bc_invD(1))

lemma ExpireAll_inv:
  assumes inv: "bc_inv dev xs" and sub: "set ks \<subseteq> set xs"
  shows "bc_inv (fold (\<lambda>x. uffs_BlockInfoExpire x UFFS_ALL_PAGES) ks dev) xs"
  using assms by (induction ks arbitrary: dev) (auto intro: Expire_inv)

text \<open>Putting back, expiring and declaring erased keep the cache well-formed: list, unique
  blocks and exact expired counters.\<close>

theorem block_cache_invariant:
  fixes dev :: "'f device"
  assumes "bc_inv dev xs" "x \<in> set xs"
  shows "bc_inv (uffs_BlockInfoPut (Some x) dev) xs \<and> bc_inv (uffs_BlockInfoExpire x page dev) xs \<and>
    bc_inv (uffs_BlockInfoInitErased x dev) xs \<and>
    (\<exists>dev'. uffs_BlockInfoExpireAll dev = Some dev' \<and> bc_inv dev' xs)"
  using Put_inv[OF assms] Expire_inv[OF assms] InitErased_inv[OF assms] ExpireAll_eq[OF assms(1)]
    ExpireAll_inv[OF assms(1) subset_refl] by blast

section \<open>Initialisation\<close>

lemma init_nodes_eq:
  assumes "2 \<le> k" "i < k"
  shows "init_nodes n k nodes i = init_bi n (if i = 0 then None else Some (i - 1)) (if Suc i = k then None else Some (Suc i))"
proof -
  have f: "fold (\<lambda>i nodes. nodes(Suc i := init_bi n (Some i) (Some (Suc (Suc i))))) [0..<m] g j =
      (if 0 < j \<and> j \<le> m then init_bi n (Some (j - 1)) (Some (Suc j)) else g j)" for m g j
    by (induction m) auto
  consider "i = 0" | "0 < i" "Suc i < k" | "Suc i = k" "0 < i" using assms by linarith
  then show ?thesis
    using assms by cases (auto simp: init_nodes_def Let_def f)
qed

lemma InitCache_inv:
  assumes "bc_head dev = None" "2 \<le> k"
    "(SIZEOF_BLOCKINFO + SIZEOF_PAGESPARE * int (ppb dev)) * int k \<le> blockinfo_pool_size dev"
  obtains dev' where "uffs_BlockInfoInitCache (int k) dev = Some (U_SUCC, dev')" "bc_inv dev' [0..<k]"
    "\<And>x. x < k \<Longrightarrow> bi_block (bc_nodes dev' x) = UFFS_INVALID_BLOCK \<and> bi_ref_count (bc_nodes dev' x) = 0 \<and>
       (\<forall>i < ppb dev. tag_expired dev' x i)" "bc_frame dev dev'"
proof -
  let ?sz = "(SIZEOF_BLOCKINFO + SIZEOF_PAGESPARE * int (ppb dev)) * int k"
  have "0 < ?sz" using assms(2) by (simp add: SIZEOF_BLOCKINFO_def SIZEOF_PAGESPARE_def add_pos_nonneg)
  then have nz: "blockinfo_pool_size dev \<noteq> 0" using assms(3) by linarith
  define dev' where "dev' = dev\<lparr>bc_nodes := init_nodes (ppb dev) k (bc_nodes dev), bc_head := Some 0, bc_tail := Some (k - 2 + 1)\<rparr>"
  have i: "uffs_BlockInfoInitCache (int k) dev = Some (U_SUCC, dev')"
    using assms nz by (simp add: uffs_BlockInfoInitCache_def dev'_def Let_def)
  have nodes: "bc_nodes dev' x = init_bi (ppb dev) (if x = 0 then None else Some (x - 1)) (if Suc x = k then None else Some (Suc x))"
    if "x < k" for x
    using init_nodes_eq[OF assms(2) that] by (simp add: dev'_def)
  have "chain (bc_next dev') (Some 0) [0..<k]"
    using assms(2) nodes by (intro chain_upt) (simp_all add: init_bi_def)
  moreover have "chain (bc_prev dev') (Some (k - 1)) (rev [0..<k])"
    using assms(2) nodes by (intro chain_rev_upt) (simp_all add: init_bi_def)
  moreover have "bc_head dev' = Some 0" "bc_tail dev' = Some (k - 1)" "ppb dev' = ppb dev"
    using assms(2) by (simp_all add: dev'_def ppb_def)
  ultimately have "bc_inv dev' [0..<k]"
    using assms(2) nodes by (auto simp: bc_inv_def dll_def bi_ok_def init_bi_def)
  moreover have "bc_frame dev dev'" by (simp add: dev'_def)
  ultimately show thesis using that[OF i] nodes by (simp add: init_bi_def)
qed

text \<open>Initialising the cache with at least two nodes and enough memory gives a well-formed
  cache of unreferenced nodes that cache no block.\<close>

theorem BlockInfoInitCache_ok:
  fixes dev :: "'f device"
  assumes "bc_head dev = None" "2 \<le> k"
    "(SIZEOF_BLOCKINFO + SIZEOF_PAGESPARE * int (ppb dev)) * int k \<le> blockinfo_pool_size dev"
  shows "\<exists>dev'. uffs_BlockInfoInitCache (int k) dev = Some (U_SUCC, dev') \<and> bc_inv dev' [0..<k] \<and> bc_frame dev dev' \<and>
    uffs_BlockInfoIsAllFree dev' = Some True \<and>
    (\<forall>x < k. bi_block (bc_nodes dev' x) = UFFS_INVALID_BLOCK \<and> (\<forall>i < ppb dev. tag_expired dev' x i))"
proof -
  obtain dev' where d: "uffs_BlockInfoInitCache (int k) dev = Some (U_SUCC, dev')" "bc_inv dev' [0..<k]"
    "\<And>x. x < k \<Longrightarrow> bi_block (bc_nodes dev' x) = UFFS_INVALID_BLOCK \<and> bi_ref_count (bc_nodes dev' x) = 0 \<and>
       (\<forall>i < ppb dev. tag_expired dev' x i)" "bc_frame dev dev'"
    using InitCache_inv[OF assms] by blast
  have "uffs_BlockInfoIsAllFree dev' = Some True"
    unfolding uffs_BlockInfoIsAllFree_def chain_find_eq[OF bc_invD(1)[OF d(2)]]
    using d(3) by (simp add: find_None_iff_set)
  then show ?thesis using d by blast
qed

section \<open>On the sample device\<close>

definition sample_cached :: "femu device" where
  "sample_cached = snd (the (uffs_BlockInfoInitCache (int 10) sample_dev))"

lemma sample_cached_ok:
  "bc_inv sample_cached [0..<10]" "ppb sample_cached = 32" "can_read sample_cached" "bc_frame sample_dev sample_cached"
proof -
  obtain dev' where d: "uffs_BlockInfoInitCache (int 10) sample_dev = Some (U_SUCC, dev')" "bc_inv dev' [0..<10]"
    "bc_frame sample_dev dev'"
    by (rule InitCache_inv[of sample_dev 10]) (simp_all add: SIZEOF_BLOCKINFO_def SIZEOF_PAGESPARE_def)
  then have e: "sample_cached = dev'" by (simp only: sample_cached_def option.sel snd_conv)
  show "bc_inv sample_cached [0..<10]" "bc_frame sample_dev sample_cached" using d(2,3) by (simp_all only: e)
  show "ppb sample_cached = 32" "can_read sample_cached"
    using bc_frame_fields[OF d(3)] by (simp_all add: e can_read_def g_femu_ops_ecc_soft_def)
qed

theorem BlockInfoGet_lru_witness:
  "\<exists>r dev'. uffs_BlockInfoGet (uint (7 :: u16)) sample_cached = Some (r, dev') \<and> bc_frame sample_cached dev'"
  using BlockInfoGet_lru[OF sample_cached_ok(1), of 7] by blast

theorem BlockInfoLoad_caches_witness:
  "\<exists>ret dev'. uffs_BlockInfoLoad 3 UFFS_ALL_PAGES sample_cached = Some (ret, dev') \<and> bc_inv dev' [0..<10] \<and>
     bi_expired_count (bc_nodes dev' 3) = 0"
  using BlockInfoLoad_caches[OF sample_cached_ok(1) _ sample_cached_ok(3), of 3 UFFS_ALL_PAGES] by auto

theorem block_cache_invariant_witness:
  "bc_inv (uffs_BlockInfoPut (Some 4) sample_cached) [0..<10] \<and>
   bc_inv (uffs_BlockInfoExpire 4 6 sample_cached) [0..<10]"
  using block_cache_invariant[OF sample_cached_ok(1), of 4 6] by simp

theorem BlockInfoInitCache_ok_witness:
  "\<exists>dev'. uffs_BlockInfoInitCache (int 10) sample_dev = Some (U_SUCC, dev') \<and> bc_inv dev' [0..<10]"
  using BlockInfoInitCache_ok[of sample_dev 10] by (simp add: SIZEOF_BLOCKINFO_def SIZEOF_PAGESPARE_def) blast

end
