(* ===== verification/Page_Buf.thy ===== *)
theory Page_Buf
  imports Sample_Device
begin

text \<open>
  The page buffers of \<open>uffs_buf.c\<close>, as far as they do not write to the flash: a doubly linked
  list in most recently used order, a singly linked list of free clone buffers, and a doubly
  linked list of dirty buffers for each dirty group, where a group holds the dirty pages of
  one object (parent and serial number).

  The lemmas show that the operations keep these lists well-formed, with exact counters and
  every dirty buffer in the group of its object, what a lookup finds and how it changes the
  order, and that a cloned buffer is a detached copy that can be given back.
\<close>

section \<open>The code\<close>

definition CLONE_BUF_MARK :: u16 where "CLONE_BUF_MARK = 0xffff"
definition UFFS_BUF_EMPTY :: u16 where "UFFS_BUF_EMPTY = 0"
definition UFFS_BUF_VALID :: u16 where "UFFS_BUF_VALID = 1"
definition UFFS_BUF_DIRTY :: u16 where "UFFS_BUF_DIRTY = 2"
definition UFFS_BUF_EXT_MARK_TRUNC_TAIL :: u8 where "UFFS_BUF_EXT_MARK_TRUNC_TAIL = 1"
definition CLONE_BUFFERS_THRESHOLD :: nat where "CLONE_BUFFERS_THRESHOLD = 2"

definition UFFS_TYPE_DIR :: u8 where "UFFS_TYPE_DIR = 0"
definition UFFS_TYPE_FILE :: u8 where "UFFS_TYPE_FILE = 1"
definition UFFS_TYPE_DATA :: u8 where "UFFS_TYPE_DATA = 2"

lemmas buf_marks = UFFS_BUF_EMPTY_def UFFS_BUF_VALID_def UFFS_BUF_DIRTY_def

subsection \<open>The buffer list\<close>

definition BreakFromBufList :: "nat \<Rightarrow> 'f device \<Rightarrow> 'f device" where
  "BreakFromBufList buf dev =
     (let dev = (case b_next (bufs dev buf) of None \<Rightarrow> dev
                 | Some y \<Rightarrow> upd_buf y (b_prev_update (\<lambda>_. b_prev (bufs dev buf))) dev);
          dev = (case b_prev (bufs dev buf) of None \<Rightarrow> dev
                 | Some y \<Rightarrow> upd_buf y (b_next_update (\<lambda>_. b_next (bufs dev buf))) dev);
          dev = (if buf_head dev = Some buf then dev\<lparr>buf_head := b_next (bufs dev buf)\<rparr> else dev)
      in if buf_tail dev = Some buf then dev\<lparr>buf_tail := b_prev (bufs dev buf)\<rparr> else dev)"

definition LinkToBufListHead :: "nat \<Rightarrow> 'f device \<Rightarrow> 'f device" where
  "LinkToBufListHead buf dev =
     (if buf_head dev = Some buf then dev
      else let dev = upd_buf buf (b_prev_update (\<lambda>_. None)) dev;
               dev = upd_buf buf (b_next_update (\<lambda>_. buf_head dev)) dev;
               dev = (case buf_head dev of None \<Rightarrow> dev
                      | Some y \<Rightarrow> upd_buf y (b_prev_update (\<lambda>_. Some buf)) dev);
               dev = (if buf_tail dev = None then dev\<lparr>buf_tail := Some buf\<rparr> else dev)
           in dev\<lparr>buf_head := Some buf\<rparr>)"

definition MoveNodeToHead :: "nat \<Rightarrow> 'f device \<Rightarrow> 'f device" where
  "MoveNodeToHead p dev =
     (if buf_head dev = Some p then dev else LinkToBufListHead p (BreakFromBufList p dev))"

definition InsertToCloneBufList :: "nat \<Rightarrow> 'f device \<Rightarrow> 'f device" where
  "InsertToCloneBufList buf dev =
     (upd_buf buf (b_next_update (\<lambda>_. buf_clone dev)) dev)\<lparr>buf_clone := Some buf\<rparr>"

definition GetFreeCloneBuf :: "'f device \<Rightarrow> nat option \<times> 'f device" where
  "GetFreeCloneBuf dev =
     (case buf_clone dev of None \<Rightarrow> (None, dev)
      | Some b \<Rightarrow> (Some b, dev\<lparr>buf_clone := b_next (bufs dev b)\<rparr>))"

subsection \<open>Dirty groups\<close>

definition upd_dg :: "nat \<Rightarrow> (DirtyGroup \<Rightarrow> DirtyGroup) \<Rightarrow> 'f device \<Rightarrow> 'f device" where
  "upd_dg slot f dev = dev\<lparr>dirtyGroup := (dirtyGroup dev)[slot := f (dirtyGroup dev ! slot)]\<rparr>"

definition IsBufInInDirtyList :: "nat \<Rightarrow> nat \<Rightarrow> 'f device \<Rightarrow> bool option" where
  "IsBufInInDirtyList slot buf dev = map_option (\<lambda>w. w \<noteq> None)
     (chain_find (\<lambda>x. b_next_dirty (bufs dev x)) (\<lambda>x. x = buf) (dg_dirty (dirtyGroup dev ! slot)))"

definition LinkToDirtyList :: "nat \<Rightarrow> nat \<Rightarrow> 'f device \<Rightarrow> 'f device" where
  "LinkToDirtyList slot buf dev =
     (let dev = upd_buf buf (\<lambda>b. b\<lparr>b_mark := UFFS_BUF_DIRTY, b_prev_dirty := None,
                                  b_next_dirty := dg_dirty (dirtyGroup dev ! slot)\<rparr>) dev;
          dev = (case dg_dirty (dirtyGroup dev ! slot) of None \<Rightarrow> dev
                 | Some y \<Rightarrow> upd_buf y (b_prev_dirty_update (\<lambda>_. Some buf)) dev)
      in upd_dg slot (\<lambda>g. g\<lparr>dg_dirty := Some buf, dg_count := dg_count g + 1\<rparr>) dev)"

text \<open>A slot, or \<open>- 1\<close>.\<close>

definition slot_of :: "nat option \<Rightarrow> int" where
  "slot_of s = (case s of None \<Rightarrow> - 1 | Some i \<Rightarrow> int i)"

definition uffs_BufFindFreeGroupSlot :: "'f device \<Rightarrow> int" where
  "uffs_BufFindFreeGroupSlot dev =
     slot_of (List.find (\<lambda>i. dg_dirty (dirtyGroup dev ! i) = None) [0..<nat (dirty_groups dev)])"

definition uffs_BufFindGroupSlot :: "u16 \<Rightarrow> u16 \<Rightarrow> 'f device \<Rightarrow> int" where
  "uffs_BufFindGroupSlot parent serial dev =
     slot_of (List.find (\<lambda>i. case dg_dirty (dirtyGroup dev ! i) of None \<Rightarrow> False
                | Some b \<Rightarrow> b_parent (bufs dev b) = parent \<and> b_serial (bufs dev b) = serial)
       [0..<nat (dirty_groups dev)])"

definition FindMostDirtyGroup :: "'f device \<Rightarrow> int" where
  "FindMostDirtyGroup dev =
     fst (fold (\<lambda>i (slot, max_count).
         let g = dirtyGroup dev ! i
         in if dg_dirty g \<noteq> None \<and> dg_lock g = 0 \<and> dg_count g > max_count then (int i, dg_count g)
            else (slot, max_count)) [0..<nat (dirty_groups dev)] (- 1, 0))"

definition uffs_BufLockGroup :: "int \<Rightarrow> 'f device \<Rightarrow> URET \<times> 'f device" where
  "uffs_BufLockGroup slot dev =
     (if slot \<ge> 0 \<and> slot < dirty_groups dev
      then (U_SUCC, upd_dg (nat slot) (\<lambda>g. g\<lparr>dg_lock := dg_lock g + 1\<rparr>) dev)
      else (U_FAIL, dev))"

definition uffs_BufUnLockGroup :: "int \<Rightarrow> 'f device \<Rightarrow> URET \<times> 'f device" where
  "uffs_BufUnLockGroup slot dev =
     (if slot \<ge> 0 \<and> slot < dirty_groups dev
      then (U_SUCC, if dg_lock (dirtyGroup dev ! nat slot) > 0
                    then upd_dg (nat slot) (\<lambda>g. g\<lparr>dg_lock := dg_lock g - 1\<rparr>) dev else dev)
      else (U_FAIL, dev))"

definition BreakFromDirty :: "nat \<Rightarrow> 'f device \<Rightarrow> URET \<times> 'f device" where
  "BreakFromDirty dirtyBuf dev =
     (let b = bufs dev dirtyBuf; slot = uffs_BufFindGroupSlot (b_parent b) (b_serial b) dev
      in if b_mark b \<noteq> UFFS_BUF_DIRTY \<or> slot < 0 then (U_FAIL, dev)
         else let dev = (case b_next_dirty (bufs dev dirtyBuf) of None \<Rightarrow> dev
                | Some y \<Rightarrow> upd_buf y (b_prev_dirty_update (\<lambda>_. b_prev_dirty (bufs dev dirtyBuf))) dev);
              dev = (case b_prev_dirty (bufs dev dirtyBuf) of None \<Rightarrow> dev
                | Some y \<Rightarrow> upd_buf y (b_next_dirty_update (\<lambda>_. b_next_dirty (bufs dev dirtyBuf))) dev);
              dev = (if dg_dirty (dirtyGroup dev ! nat slot) = Some dirtyBuf
                     then upd_dg (nat slot) (\<lambda>g. g\<lparr>dg_dirty := b_next_dirty (bufs dev dirtyBuf)\<rparr>) dev else dev);
              dev = upd_buf dirtyBuf (\<lambda>b. b\<lparr>b_next_dirty := None, b_prev_dirty := None\<rparr>) dev
          in (U_SUCC, upd_dg (nat slot) (\<lambda>g. g\<lparr>dg_count := dg_count g - 1\<rparr>) dev))"

definition FindBufInDirtyList :: "nat option \<Rightarrow> u16 \<Rightarrow> 'f device \<Rightarrow> nat option option" where
  "FindBufInDirtyList dirty page_id dev =
     chain_find (\<lambda>x. b_next_dirty (bufs dev x)) (\<lambda>x. b_page_id (bufs dev x) = page_id) dirty"

definition CheckDirtyList :: "nat option \<Rightarrow> 'f device \<Rightarrow> URET option" where
  "CheckDirtyList dirty dev =
     (case dirty of None \<Rightarrow> Some U_SUCC
      | Some d \<Rightarrow> map_option (\<lambda>w. if w = None then U_SUCC else U_FAIL)
          (chain_find (\<lambda>x. b_next_dirty (bufs dev x))
             (\<lambda>x. b_parent (bufs dev d) \<noteq> b_parent (bufs dev x) \<or> b_serial (bufs dev d) \<noteq> b_serial (bufs dev x) \<or>
                  b_mark (bufs dev x) \<noteq> UFFS_BUF_DIRTY)
             (b_next_dirty (bufs dev d))))"

definition FindMinimunPageIdFromDirtyList :: "nat option \<Rightarrow> 'f device \<Rightarrow> nat option option" where
  "FindMinimunPageIdFromDirtyList dirtyList dev =
     (case dirtyList of None \<Rightarrow> Some None
      | Some d \<Rightarrow> map_option Some
          (chain_fold (\<lambda>x. b_next_dirty (bufs dev x))
             (\<lambda>work buf. if b_page_id (bufs dev work) < b_page_id (bufs dev buf) then work else buf)
             (b_next_dirty (bufs dev d)) d))"

subsection \<open>Names\<close>

text \<open>The fields of \<open>uffs_FileInfo\<close> at the start of the data of page 0; a name length that
  points behind the page memory reads out of bounds.\<close>

definition buf_data :: "'f device \<Rightarrow> nat \<Rightarrow> bytes" where
  "buf_data dev buf = drop (unat (header_size dev)) (b_page (bufs dev buf))"

definition fi_name_len :: "bytes \<Rightarrow> nat" where
  "fi_name_len d = (\<Sum>i<4. unat (d ! (20 + i)) * 256 ^ i)"

definition fi_name :: "bytes \<Rightarrow> bytes option" where
  "fi_name d = (if 24 + fi_name_len d \<le> length d then Some (take (fi_name_len d) (drop 24 d)) else None)"

definition GetDirOrFileNameSum :: "nat \<Rightarrow> 'f device \<Rightarrow> u16 option" where
  "GetDirOrFileNameSum buf dev =
     (let b = bufs dev buf
      in if (b_type b = UFFS_TYPE_FILE \<or> b_type b = UFFS_TYPE_DIR) \<and> b_page_id b = 0
         then map_option uffs_MakeSum16 (fi_name (buf_data dev buf))
         else Some 0)"

subsection \<open>Lookup\<close>

definition FindFreeBuf :: "'f device \<Rightarrow> nat option option" where
  "FindFreeBuf dev =
     chain_find (\<lambda>x. b_prev (bufs dev x))
       (\<lambda>x. b_ref_count (bufs dev x) = 0 \<and> b_mark (bufs dev x) \<noteq> UFFS_BUF_DIRTY) (buf_tail dev)"

definition buf_matches :: "u16 \<Rightarrow> u16 \<Rightarrow> u16 \<Rightarrow> Buf \<Rightarrow> bool" where
  "buf_matches parent serial page_id b \<longleftrightarrow>
     b_parent b = parent \<and> b_serial b = serial \<and> (uint page_id = UFFS_ALL_PAGES \<or> b_page_id b = page_id) \<and>
     b_mark b \<noteq> UFFS_BUF_EMPTY"

definition uffs_BufFindFrom :: "nat option \<Rightarrow> u16 \<Rightarrow> u16 \<Rightarrow> u16 \<Rightarrow> 'f device \<Rightarrow> nat option option" where
  "uffs_BufFindFrom start parent serial page_id dev =
     chain_find (\<lambda>x. b_next (bufs dev x)) (\<lambda>x. buf_matches parent serial page_id (bufs dev x)) start"

definition uffs_BufFind :: "u16 \<Rightarrow> u16 \<Rightarrow> u16 \<Rightarrow> 'f device \<Rightarrow> nat option option" where
  "uffs_BufFind parent serial page_id dev = uffs_BufFindFrom (buf_head dev) parent serial page_id dev"

definition uffs_BufIncRef :: "nat \<Rightarrow> 'f device \<Rightarrow> 'f device" where
  "uffs_BufIncRef buf = upd_buf buf (\<lambda>b. b\<lparr>b_ref_count := b_ref_count b + 1\<rparr>)"

definition uffs_BufDecRef :: "nat \<Rightarrow> 'f device \<Rightarrow> 'f device" where
  "uffs_BufDecRef buf dev =
     (if b_ref_count (bufs dev buf) > 0 then upd_buf buf (\<lambda>b. b\<lparr>b_ref_count := b_ref_count b - 1\<rparr>) dev else dev)"

definition uffs_BufGet :: "u16 \<Rightarrow> u16 \<Rightarrow> u16 \<Rightarrow> 'f device \<Rightarrow> (nat option \<times> 'f device) option" where
  "uffs_BufGet parent serial page_id dev = do {
     p \<leftarrow> uffs_BufFind parent serial page_id dev;
     Some (case p of None \<Rightarrow> (None, dev)
           | Some x \<Rightarrow> (Some x, MoveNodeToHead x (upd_buf x (\<lambda>b. b\<lparr>b_ref_count := b_ref_count b + 1\<rparr>) dev)))
   }"

subsection \<open>Clones\<close>

definition uffs_BufClone :: "nat option \<Rightarrow> 'f device \<Rightarrow> nat option \<times> 'f device" where
  "uffs_BufClone buf dev =
     (let (p, dev) = GetFreeCloneBuf dev
      in case p of None \<Rightarrow> (None, dev)
         | Some q \<Rightarrow>
             let dev = (case buf of None \<Rightarrow> dev
                  | Some x \<Rightarrow> (let b = bufs dev x in
                      upd_buf q (\<lambda>c. c\<lparr>b_parent := b_parent b, b_type := b_type b, b_serial := b_serial b,
                        b_page_id := b_page_id b, b_data_len := b_data_len b,
                        b_page := memcpy (b_page c) 0 (take (unat (pg_size dev)) (b_page b))\<rparr>) dev));
                 dev = upd_buf q (\<lambda>c. c\<lparr>b_next := None, b_prev := None, b_next_dirty := None, b_prev_dirty := None,
                        b_ref_count := CLONE_BUF_MARK\<rparr>) dev
             in (Some q, dev))"

definition uffs_BufFreeClone :: "nat option \<Rightarrow> 'f device \<Rightarrow> URET \<times> 'f device" where
  "uffs_BufFreeClone buf dev =
     (case buf of None \<Rightarrow> (U_FAIL, dev)
      | Some x \<Rightarrow>
          if b_ref_count (bufs dev x) \<noteq> CLONE_BUF_MARK then (U_FAIL, dev)
          else (U_SUCC, InsertToCloneBufList x
                  (upd_buf x (\<lambda>b. b\<lparr>b_ref_count := 0, b_mark := UFFS_BUF_EMPTY\<rparr>) dev)))"

definition uffs_BufPut :: "nat option \<Rightarrow> 'f device \<Rightarrow> URET \<times> 'f device" where
  "uffs_BufPut buf dev =
     (case buf of None \<Rightarrow> (U_FAIL, dev)
      | Some x \<Rightarrow>
          if b_ref_count (bufs dev x) = 0 then (U_FAIL, dev)
          else if b_ref_count (bufs dev x) = CLONE_BUF_MARK then uffs_BufFreeClone buf dev
          else (U_SUCC, upd_buf x (\<lambda>b. b\<lparr>b_ref_count := b_ref_count b - 1\<rparr>) dev))"

subsection \<open>The whole list\<close>

definition uffs_BufIsAllFree :: "'f device \<Rightarrow> bool option" where
  "uffs_BufIsAllFree dev = map_option (\<lambda>w. w = None)
     (chain_find (\<lambda>x. b_next (bufs dev x)) (\<lambda>x. b_ref_count (bufs dev x) \<noteq> 0) (buf_head dev))"

definition uffs_BufIsAllEmpty :: "'f device \<Rightarrow> bool option" where
  "uffs_BufIsAllEmpty dev = map_option (\<lambda>w. w = None)
     (chain_find (\<lambda>x. b_next (bufs dev x)) (\<lambda>x. b_mark (bufs dev x) \<noteq> UFFS_BUF_EMPTY) (buf_head dev))"

definition uffs_BufSetAllEmpty :: "'f device \<Rightarrow> (URET \<times> 'f device) option" where
  "uffs_BufSetAllEmpty dev = map_option (Pair U_SUCC)
     (chain_fold (\<lambda>x. b_next (bufs dev x)) (\<lambda>x. upd_buf x (\<lambda>b. b\<lparr>b_mark := UFFS_BUF_EMPTY\<rparr>)) (buf_head dev) dev)"

definition uffs_BufMarkEmpty :: "nat \<Rightarrow> 'f device \<Rightarrow> 'f device" where
  "uffs_BufMarkEmpty buf dev =
     (if b_mark (bufs dev buf) \<noteq> UFFS_BUF_EMPTY \<and> b_ref_count (bufs dev buf) = 0
      then let dev = (if b_mark (bufs dev buf) = UFFS_BUF_DIRTY then snd (BreakFromDirty buf dev) else dev)
           in upd_buf buf (\<lambda>b. b\<lparr>b_mark := UFFS_BUF_EMPTY\<rparr>) dev
      else dev)"

text \<open>The size is computed in 32 bits; \<open>None\<close> is a copy that leaves the page memory or the
  caller's buffer.\<close>

definition uffs_BufRead :: "nat \<Rightarrow> bytes \<Rightarrow> u32 \<Rightarrow> u32 \<Rightarrow> 'f device \<Rightarrow> (URET \<times> bytes) option" where
  "uffs_BufRead buf data ofs len dev =
     (let pgd = ucast (pg_data_size dev) :: u32;
          readSize = (if ofs \<ge> pgd then 0 else if ofs + len \<ge> pgd then pgd - ofs else len);
          src = buf_data dev buf
      in if readSize = 0 then Some (U_SUCC, data)
         else if unat ofs + unat readSize \<le> length src \<and> unat readSize \<le> length data
              then Some (U_SUCC, memcpy data 0 (take (unat readSize) (drop (unat ofs) src)))
              else None)"

subsection \<open>Initialisation\<close>

definition SIZEOF_BUF :: int where "SIZEOF_BUF = 64"

definition init_buf :: "nat \<Rightarrow> nat \<Rightarrow> nat \<Rightarrow> Buf" where
  "init_buf sz n i = \<lparr>b_next = (if i + 1 = n then None else Some (i + 1)), b_prev = (if i = 0 then None else Some (i - 1)),
     b_next_dirty = None, b_prev_dirty = None, b_type = 0, b_ext_mark = 0, b_parent = 0, b_serial = 0,
     b_page_id = 0, b_mark = UFFS_BUF_EMPTY, b_ref_count = 0, b_data_len = 0, b_check_sum = 0,
     b_page = replicate sz 0\<rparr>"

text \<open>The first buffers of the list become clone buffers; breaking a null head is a null
  dereference.\<close>

fun take_clones :: "nat \<Rightarrow> 'f device \<Rightarrow> 'f device option" where
  "take_clones 0 dev = Some dev"
| "take_clones (Suc n) dev =
     (case buf_head dev of None \<Rightarrow> None
      | Some b \<Rightarrow> take_clones n (InsertToCloneBufList b (BreakFromBufList b dev)))"

definition uffs_BufInit :: "int \<Rightarrow> int \<Rightarrow> 'f device \<Rightarrow> (URET \<times> 'f device) option" where
  "uffs_BufInit buf_max' dirty_buf_max' dev =
     (let dev = dev\<lparr>pg_size := page_data_size (attr dev), header_size := word_of_nat SIZEOF_MINIHEADER\<rparr>;
          dev = dev\<lparr>pg_data_size := pg_size dev - header_size dev\<rparr>
      in if buf_pool dev then Some (U_FAIL, dev)
         else let sz = (SIZEOF_BUF + uint (pg_size dev)) * buf_max';
                  dev = (if pagebuf_pool_size dev = 0
                         then case mem_malloc dev of Some al \<Rightarrow> if al sz \<noteq> None then dev\<lparr>pagebuf_pool_size := sz\<rparr> else dev
                              | None \<Rightarrow> dev
                         else dev)
              in if sz > pagebuf_pool_size dev then Some (U_FAIL, dev)
                 else let n = nat buf_max';
                          dev = dev\<lparr>buf_pool := True,
                            bufs := fold (\<lambda>i nodes. nodes(i := init_buf (unat (pg_size dev)) n i)) [0..<n] (bufs dev)\<rparr>;
                          dev = (if n = 0 then dev else dev\<lparr>buf_head := Some 0, buf_tail := Some (n - 1)\<rparr>);
                          dev = dev\<lparr>buf_max := buf_max',
                            dirty_buf_max := (if dirty_buf_max' > int (ppb dev) then int (ppb dev) else dirty_buf_max')\<rparr>;
                          dev = fold (\<lambda>slot. upd_dg slot (\<lambda>g. g\<lparr>dg_dirty := None, dg_count := 0\<rparr>)) [0..<nat (dirty_groups dev)] dev
                      in map_option (Pair U_SUCC) (take_clones CLONE_BUFFERS_THRESHOLD (dev\<lparr>buf_clone := None\<rparr>)))"

section \<open>Well-formed buffer lists\<close>

abbreviation buf_nx :: "'f device \<Rightarrow> nat \<Rightarrow> nat option" where
  "buf_nx dev \<equiv> \<lambda>x. b_next (bufs dev x)"

abbreviation buf_pv :: "'f device \<Rightarrow> nat \<Rightarrow> nat option" where
  "buf_pv dev \<equiv> \<lambda>x. b_prev (bufs dev x)"

abbreviation dirty_nx :: "'f device \<Rightarrow> nat \<Rightarrow> nat option" where
  "dirty_nx dev \<equiv> \<lambda>x. b_next_dirty (bufs dev x)"

abbreviation dirty_pv :: "'f device \<Rightarrow> nat \<Rightarrow> nat option" where
  "dirty_pv dev \<equiv> \<lambda>x. b_prev_dirty (bufs dev x)"

lemma upd_buf_simps [simp]:
  "bufs (upd_buf x f dev) = (bufs dev)(x := f (bufs dev x))"
  "buf_head (upd_buf x f dev) = buf_head dev" "buf_tail (upd_buf x f dev) = buf_tail dev"
  "buf_clone (upd_buf x f dev) = buf_clone dev" "dirtyGroup (upd_buf x f dev) = dirtyGroup dev"
  "dirty_groups (upd_buf x f dev) = dirty_groups dev" "pg_size (upd_buf x f dev) = pg_size dev"
  "ops (upd_buf x f dev) = ops dev" "drv (upd_buf x f dev) = drv dev" "attr (upd_buf x f dev) = attr dev"
  "spare_data_size (upd_buf x f dev) = spare_data_size dev" "spare_mem (upd_buf x f dev) = spare_mem dev" "spare_pool (upd_buf x f dev) = spare_pool dev"
  "uninit (upd_buf x f dev) = uninit dev" "uninit_tag (upd_buf x f dev) = uninit_tag dev" "tree (upd_buf x f dev) = tree dev"
  "tree_nodes (upd_buf x f dev) = tree_nodes dev" "tree_pool (upd_buf x f dev) = tree_pool dev" "bc_nodes (upd_buf x f dev) = bc_nodes dev"
  "bc_head (upd_buf x f dev) = bc_head dev" "bc_tail (upd_buf x f dev) = bc_tail dev" "pending (upd_buf x f dev) = pending dev"
  "pg_data_size (upd_buf x f dev) = pg_data_size dev" "header_size (upd_buf x f dev) = header_size dev" "par_start (upd_buf x f dev) = par_start dev"
  "par_end (upd_buf x f dev) = par_end dev" "buf_max (upd_buf x f dev) = buf_max dev" "dirty_buf_max (upd_buf x f dev) = dirty_buf_max dev"
  "ppb (upd_buf x f dev) = ppb dev" "reserved_free_blocks (upd_buf x f dev) = reserved_free_blocks dev"
  by (simp_all add: upd_buf_def ppb_def)

lemma upd_dg_simps [simp]:
  "bufs (upd_dg s g dev) = bufs dev" "buf_head (upd_dg s g dev) = buf_head dev"
  "buf_tail (upd_dg s g dev) = buf_tail dev" "buf_clone (upd_dg s g dev) = buf_clone dev"
  "dirtyGroup (upd_dg s g dev) = (dirtyGroup dev)[s := g (dirtyGroup dev ! s)]"
  "dirty_groups (upd_dg s g dev) = dirty_groups dev" "pg_size (upd_dg s g dev) = pg_size dev"
  by (simp_all add: upd_dg_def)

text \<open>The code joins the neighbours of a node with the successor first: the lists are linked
  nodes read from the tail.\<close>

interpretation bufm: linked buf_pv buf_nx
  "\<lambda>x v. upd_buf x (b_prev_update (\<lambda>_. v))" "\<lambda>x v. upd_buf x (b_next_update (\<lambda>_. v))"
  by unfold_locales (auto simp: fun_eq_iff)

interpretation dirtym: linked dirty_pv dirty_nx
  "\<lambda>x v. upd_buf x (b_prev_dirty_update (\<lambda>_. v))" "\<lambda>x v. upd_buf x (b_next_dirty_update (\<lambda>_. v))"
  by unfold_locales (auto simp: fun_eq_iff)

text \<open>The buffers in use \<open>xs\<close>, most recently used first, and the free clones \<open>cs\<close>.\<close>

definition pages_inv :: "'f device \<Rightarrow> nat list \<Rightarrow> nat list \<Rightarrow> bool" where
  "pages_inv dev xs cs \<longleftrightarrow>
     dll (buf_nx dev) (buf_pv dev) (buf_head dev) (buf_tail dev) xs \<and> chain (buf_nx dev) (buf_clone dev) cs \<and>
     set xs \<inter> set cs = {} \<and>
     (\<forall>x \<in> set xs \<union> set cs. length (b_page (bufs dev x)) = unat (pg_size dev))"

definition buf_obj :: "Buf \<Rightarrow> u16 \<times> u16" where
  "buf_obj b = (b_parent b, b_serial b)"

text \<open>The dirty buffers of each group, among the buffers \<open>S\<close>: two of them are in the same
  group exactly if they belong to the same object.\<close>

definition dirty_inv :: "'f device \<Rightarrow> nat set \<Rightarrow> (nat \<Rightarrow> nat list) \<Rightarrow> bool" where
  "dirty_inv dev S D \<longleftrightarrow> nat (dirty_groups dev) \<le> length (dirtyGroup dev) \<and>
     (\<forall>s < nat (dirty_groups dev).
        (\<exists>t. dll (dirty_nx dev) (dirty_pv dev) (dg_dirty (dirtyGroup dev ! s)) t (D s)) \<and>
        dg_count (dirtyGroup dev ! s) = int (length (D s)) \<and> set (D s) \<subseteq> S \<and>
        (\<forall>x \<in> set (D s). b_mark (bufs dev x) = UFFS_BUF_DIRTY)) \<and>
     (\<forall>s < nat (dirty_groups dev). \<forall>s' < nat (dirty_groups dev). \<forall>x \<in> set (D s). \<forall>y \<in> set (D s').
        buf_obj (bufs dev x) = buf_obj (bufs dev y) \<longleftrightarrow> s = s') \<and>
     (\<forall>x \<in> S. b_mark (bufs dev x) = UFFS_BUF_DIRTY \<longrightarrow> (\<exists>s < nat (dirty_groups dev). x \<in> set (D s)))"

text \<open>What each invariant reads of a buffer.\<close>

definition dirty_view :: "Buf \<Rightarrow> nat option \<times> nat option \<times> u16 \<times> (u16 \<times> u16)" where
  "dirty_view b = (b_next_dirty b, b_prev_dirty b, b_mark b, buf_obj b)"

definition list_view :: "Buf \<Rightarrow> nat option \<times> nat option \<times> nat" where
  "list_view b = (b_next b, b_prev b, length (b_page b))"

lemma dirty_inv_cong:
  fixes dev dev' :: "'f device"
  assumes "\<And>x. dirty_view (bufs dev' x) = dirty_view (bufs dev x)" "dirtyGroup dev' = dirtyGroup dev"
    "dirty_groups dev' = dirty_groups dev"
  shows "dirty_inv dev' S D = dirty_inv dev S D"
proof -
  have "b_next_dirty (bufs dev' x) = b_next_dirty (bufs dev x)" "b_prev_dirty (bufs dev' x) = b_prev_dirty (bufs dev x)"
    "b_mark (bufs dev' x) = b_mark (bufs dev x)" "buf_obj (bufs dev' x) = buf_obj (bufs dev x)" for x
    using assms(1)[of x] by (simp_all add: dirty_view_def)
  then show ?thesis by (simp add: dirty_inv_def assms(2,3))
qed

lemma pages_inv_cong:
  fixes dev dev' :: "'f device"
  assumes "\<And>x. list_view (bufs dev' x) = list_view (bufs dev x)" "buf_head dev' = buf_head dev"
    "buf_tail dev' = buf_tail dev" "buf_clone dev' = buf_clone dev" "pg_size dev' = pg_size dev"
  shows "pages_inv dev' xs cs = pages_inv dev xs cs"
proof -
  have "b_next (bufs dev' x) = b_next (bufs dev x)" "b_prev (bufs dev' x) = b_prev (bufs dev x)"
    "length (b_page (bufs dev' x)) = length (b_page (bufs dev x))" for x
    using assms(1)[of x] by (simp_all add: list_view_def)
  then show ?thesis by (simp add: pages_inv_def assms(2-))
qed

lemma pages_inv_upd:
  "list_view (f (bufs dev x)) = list_view (bufs dev x) \<Longrightarrow> pages_inv (upd_buf x f dev) xs cs = pages_inv dev xs cs"
  by (rule pages_inv_cong) simp_all

lemma dirty_inv_upd:
  "dirty_view (f (bufs dev x)) = dirty_view (bufs dev x) \<Longrightarrow> dirty_inv (upd_buf x f dev) S D = dirty_inv dev S D"
  by (rule dirty_inv_cong) simp_all

subsection \<open>Moving to the head\<close>

text \<open>The buffers without their links, and devices that differ in the buffers only.\<close>

definition unlinked :: "Buf \<Rightarrow> Buf" where
  "unlinked b = b\<lparr>b_next := None, b_prev := None\<rparr>"

lemma unlinked_simps [simp]:
  "unlinked (b\<lparr>b_next := v\<rparr>) = unlinked b" "unlinked (b\<lparr>b_prev := v\<rparr>) = unlinked b"
  by (simp_all add: unlinked_def)

lemma unlinked_views:
  "unlinked b = unlinked b' \<Longrightarrow> dirty_view b = dirty_view b' \<and> b_page b = b_page b' \<and> b_ref_count b = b_ref_count b' \<and>
     b_mark b = b_mark b' \<and> buf_obj b = buf_obj b' \<and> b_page_id b = b_page_id b' \<and> b_data_len b = b_data_len b' \<and> b_type b = b_type b'"
  by (cases b; cases b') (simp add: unlinked_def dirty_view_def buf_obj_def)

definition buf_frame :: "'f device \<Rightarrow> 'f device \<Rightarrow> bool" where
  "buf_frame dev dev' \<longleftrightarrow> dev'\<lparr>bufs := bufs dev, buf_head := buf_head dev, buf_tail := buf_tail dev,
     buf_clone := buf_clone dev, dirtyGroup := dirtyGroup dev\<rparr> = dev"

lemma buf_frame_refl [simp]: "buf_frame dev dev"
  by (simp add: buf_frame_def)

lemma buf_frame_trans: "buf_frame a b \<Longrightarrow> buf_frame b c \<Longrightarrow> buf_frame a c"
proof -
  assume ab: "buf_frame a b" and bc: "buf_frame b c"
  have "c\<lparr>bufs := bufs a, buf_head := buf_head a, buf_tail := buf_tail a, buf_clone := buf_clone a, dirtyGroup := dirtyGroup a\<rparr> =
      (c\<lparr>bufs := bufs b, buf_head := buf_head b, buf_tail := buf_tail b, buf_clone := buf_clone b, dirtyGroup := dirtyGroup b\<rparr>)
       \<lparr>bufs := bufs a, buf_head := buf_head a, buf_tail := buf_tail a, buf_clone := buf_clone a, dirtyGroup := dirtyGroup a\<rparr>" by simp
  also have "\<dots> = a" using ab bc unfolding buf_frame_def by simp
  finally show "buf_frame a c" by (simp add: buf_frame_def)
qed

lemma buf_frame_simps [simp]:
  "buf_frame dev (d\<lparr>bufs := n\<rparr>) = buf_frame dev d" "buf_frame dev (d\<lparr>buf_head := h\<rparr>) = buf_frame dev d"
  "buf_frame dev (d\<lparr>buf_tail := t\<rparr>) = buf_frame dev d" "buf_frame dev (d\<lparr>buf_clone := c\<rparr>) = buf_frame dev d"
  "buf_frame dev (upd_buf x f d) = buf_frame dev d" "buf_frame dev (upd_dg s g d) = buf_frame dev d"
  by (simp_all add: buf_frame_def upd_buf_def upd_dg_def)

lemma buf_frameE:
  assumes "buf_frame dev dev'"
  obtains B h t c g where "dev' = dev\<lparr>bufs := B, buf_head := h, buf_tail := t, buf_clone := c, dirtyGroup := g\<rparr>"
proof -
  have "dev' = dev'\<lparr>bufs := bufs dev, buf_head := buf_head dev, buf_tail := buf_tail dev, buf_clone := buf_clone dev, dirtyGroup := dirtyGroup dev\<rparr>
    \<lparr>bufs := bufs dev', buf_head := buf_head dev', buf_tail := buf_tail dev', buf_clone := buf_clone dev', dirtyGroup := dirtyGroup dev'\<rparr>" by simp
  also have "\<dots> = dev\<lparr>bufs := bufs dev', buf_head := buf_head dev', buf_tail := buf_tail dev', buf_clone := buf_clone dev', dirtyGroup := dirtyGroup dev'\<rparr>"
    by (simp only: assms[unfolded buf_frame_def])
  finally show thesis by (rule that)
qed

lemma buf_frame_fields:
  assumes "buf_frame dev dev'"
  shows "pg_size dev' = pg_size dev" "dirty_groups dev' = dirty_groups dev" "attr dev' = attr dev"
    "drv dev' = drv dev" "ops dev' = ops dev" "tree dev' = tree dev" "bc_nodes dev' = bc_nodes dev"
    "header_size dev' = header_size dev" "pending dev' = pending dev" "spare_pool dev' = spare_pool dev"
    "spare_data_size dev' = spare_data_size dev" "uninit dev' = uninit dev"  "spare_mem dev' = spare_mem dev"
    "bc_head dev' = bc_head dev" "bc_tail dev' = bc_tail dev" "tree_nodes dev' = tree_nodes dev"
  using assms arg_cong[OF assms[unfolded buf_frame_def], of pg_size] arg_cong[OF assms[unfolded buf_frame_def], of dirty_groups]
    arg_cong[OF assms[unfolded buf_frame_def], of attr] arg_cong[OF assms[unfolded buf_frame_def], of drv]
    arg_cong[OF assms[unfolded buf_frame_def], of ops] arg_cong[OF assms[unfolded buf_frame_def], of tree]
    arg_cong[OF assms[unfolded buf_frame_def], of bc_nodes] arg_cong[OF assms[unfolded buf_frame_def], of header_size]
    arg_cong[OF assms[unfolded buf_frame_def], of pending] arg_cong[OF assms[unfolded buf_frame_def], of spare_pool]
    arg_cong[OF assms[unfolded buf_frame_def], of spare_data_size] arg_cong[OF assms[unfolded buf_frame_def], of uninit]
    arg_cong[OF assms[unfolded buf_frame_def], of spare_mem] arg_cong[OF assms[unfolded buf_frame_def], of bc_head]
    arg_cong[OF assms[unfolded buf_frame_def], of bc_tail] arg_cong[OF assms[unfolded buf_frame_def], of tree_nodes]
  by simp_all

lemma bufm_unlink_data [simp]:
  "unlinked (bufs (bufm.unlink x dev) y) = unlinked (bufs dev y)"
  "buf_head (bufm.unlink x dev) = buf_head dev" "buf_tail (bufm.unlink x dev) = buf_tail dev"
  "buf_clone (bufm.unlink x dev) = buf_clone dev" "dirtyGroup (bufm.unlink x dev) = dirtyGroup dev"
  by (auto simp: bufm.unlink_def Let_def split: option.split)

lemma bufm_unlink_frame: "buf_frame dev (bufm.unlink x dev)"
  by (auto simp: bufm.unlink_def Let_def split: option.split)

lemma BreakFromBufList_eq:
  "BreakFromBufList x dev = (bufm.unlink x dev)
     \<lparr>buf_head := (if buf_head dev = Some x then buf_nx (bufm.unlink x dev) x else buf_head dev),
      buf_tail := (if buf_tail dev = Some x then buf_pv (bufm.unlink x dev) x else buf_tail dev)\<rparr>"
proof -
  let ?u = "bufm.unlink x dev"
  have "BreakFromBufList x dev =
      (let dev = (if buf_head ?u = Some x then ?u\<lparr>buf_head := b_next (bufs ?u x)\<rparr> else ?u)
       in if buf_tail dev = Some x then dev\<lparr>buf_tail := b_prev (bufs dev x)\<rparr> else dev)"
    unfolding BreakFromBufList_def bufm.unlink_def Let_def ..
  then show ?thesis by (simp add: Let_def)
qed

lemma Break_list:
  assumes "dll (buf_nx dev) (buf_pv dev) (buf_head dev) (buf_tail dev) (as @ x # bs)"
  defines "d \<equiv> BreakFromBufList x dev"
  shows "dll (buf_nx d) (buf_pv d) (buf_head d) (buf_tail d) (as @ bs)"
    "\<And>y. unlinked (bufs d y) = unlinked (bufs dev y)" "buf_clone d = buf_clone dev" "dirtyGroup d = dirtyGroup dev"
    "\<And>y. y \<notin> set (as @ bs) \<Longrightarrow> bufs d y = bufs dev y"
proof -
  have r: "dll (buf_pv dev) (buf_nx dev) (buf_tail dev) (buf_head dev) (rev bs @ x # rev as)"
    using assms(1) by (subst (asm) dll_rev) simp
  have "dll (buf_pv d) (buf_nx d) (buf_tail d) (buf_head d) (rev bs @ rev as)"
    unfolding d_def BreakFromBufList_eq using bufm.unlink_dll[OF r] by (auto split: if_splits)
  then show "dll (buf_nx d) (buf_pv d) (buf_head d) (buf_tail d) (as @ bs)"
    by (subst dll_rev) simp
  show "\<And>y. unlinked (bufs d y) = unlinked (bufs dev y)" "buf_clone d = buf_clone dev" "dirtyGroup d = dirtyGroup dev"
    unfolding d_def BreakFromBufList_eq by simp_all
  have "set (as @ bs) \<supseteq> set_option (buf_nx dev x) \<union> set_option (buf_pv dev x)"
    using dll_next[OF assms(1)] dll_prev[OF assms(1)] by auto
  then show "\<And>y. y \<notin> set (as @ bs) \<Longrightarrow> bufs d y = bufs dev y"
    unfolding d_def BreakFromBufList_eq
    by (auto simp: bufm.unlink_def Let_def split: option.split)
qed

lemma Link_list:
  assumes "dll (buf_nx dev) (buf_pv dev) (buf_head dev) (buf_tail dev) xs" "x \<notin> set xs"
  defines "d \<equiv> LinkToBufListHead x dev"
  shows "dll (buf_nx d) (buf_pv d) (buf_head d) (buf_tail d) (x # xs)"
    "\<And>y. unlinked (bufs d y) = unlinked (bufs dev y)" "buf_clone d = buf_clone dev" "dirtyGroup d = dirtyGroup dev"
    "\<And>y. y \<notin> set (x # xs) \<Longrightarrow> bufs d y = bufs dev y" "buf_frame dev d"
proof -
  have h: "buf_head dev \<noteq> Some x" using dll_head[OF assms(1)] assms(2) hd_in_set[of xs] by auto
  have hx: "set_option (buf_head dev) \<subseteq> set xs" using dll_head[OF assms(1)] by auto
  have n: "buf_nx d = (buf_nx dev)(x := buf_head dev)"
    using h by (auto simp: d_def LinkToBufListHead_def Let_def fun_eq_iff split: option.split)
  have p: "buf_pv d = (case buf_head dev of None \<Rightarrow> (buf_pv dev)(x := None) | Some y \<Rightarrow> ((buf_pv dev)(x := None))(y := Some x))"
    using h by (auto simp: d_def LinkToBufListHead_def Let_def fun_eq_iff split: option.split)
  have e: "buf_head d = Some x" "buf_tail d = (case buf_tail dev of None \<Rightarrow> Some x | Some z \<Rightarrow> Some z)"
    using h by (auto simp: d_def LinkToBufListHead_def Let_def split: option.split)
  show "dll (buf_nx d) (buf_pv d) (buf_head d) (buf_tail d) (x # xs)"
    unfolding n p e by (rule dll_push_front[OF assms(1,2)])
  show "\<And>y. unlinked (bufs d y) = unlinked (bufs dev y)" "buf_clone d = buf_clone dev" "dirtyGroup d = dirtyGroup dev"
    "buf_frame dev d"
    using h by (auto simp: d_def LinkToBufListHead_def Let_def split: option.split)
  show "\<And>y. y \<notin> set (x # xs) \<Longrightarrow> bufs d y = bufs dev y"
    using h hx by (auto simp: d_def LinkToBufListHead_def Let_def split: option.split)
qed

lemma MoveNodeToHead_ok:
  assumes inv: "pages_inv dev xs cs" and x: "x \<in> set xs"
  defines "d \<equiv> MoveNodeToHead x dev"
  shows "pages_inv d (x # remove1 x xs) cs" "\<And>y. unlinked (bufs d y) = unlinked (bufs dev y)"
    "dirtyGroup d = dirtyGroup dev" "buf_frame dev d"
proof -
  have dl: "dll (buf_nx dev) (buf_pv dev) (buf_head dev) (buf_tail dev) xs" using inv by (simp add: pages_inv_def)
  have "pages_inv d (x # remove1 x xs) cs \<and> (\<forall>y. unlinked (bufs d y) = unlinked (bufs dev y)) \<and>
      dirtyGroup d = dirtyGroup dev \<and> buf_frame dev d"
  proof (cases "buf_head dev = Some x")
    case True
    then have "x # remove1 x xs = xs" using dll_head[OF dl] x by (cases xs) auto
    then show ?thesis using True inv by (simp add: d_def MoveNodeToHead_def)
  next
    case False
    obtain as bs where xs: "xs = as @ x # bs" using split_list[OF x] by blast
    have dis: "distinct xs" by (rule dll_distinct[OF dl])
    have rem: "remove1 x xs = as @ bs" using dis xs by (simp add: remove1_append)
    note b = Break_list[OF dl[unfolded xs]]
    have nin: "x \<notin> set (as @ bs)" using dis xs by auto
    note l = Link_list[OF b(1) nin]
    have d: "d = LinkToBufListHead x (BreakFromBufList x dev)" using False by (simp add: d_def MoveNodeToHead_def)
    have ul: "unlinked (bufs d y) = unlinked (bufs dev y)" for y unfolding d using l(2) b(2) by simp
    have fr: "buf_frame dev d"
      unfolding d using buf_frame_trans[OF _ l(6)] bufm_unlink_frame[of dev x] by (simp add: BreakFromBufList_eq)
    have "chain (buf_nx d) (buf_clone d) cs"
    proof -
      have "bufs d y = bufs dev y" if "y \<in> set cs" for y
      proof -
        have "y \<notin> set (as @ x # bs)" using inv that xs by (auto simp: pages_inv_def)
        then show ?thesis unfolding d using l(5)[of y] b(5)[of y] by simp
      qed
      then have "chain (buf_nx d) (buf_clone d) cs = chain (buf_nx dev) (buf_clone d) cs" by (intro chain_cong) simp
      then show ?thesis using inv l(3) b(3) by (simp add: pages_inv_def d)
    qed
    moreover have "length (b_page (bufs d y)) = length (b_page (bufs dev y))" for y
      using unlinked_views[OF ul] by auto
    ultimately have "pages_inv d (x # remove1 x xs) cs"
      using inv l(1) xs buf_frame_fields(1)[OF fr] unfolding pages_inv_def rem d[symmetric] by auto
    then show ?thesis using ul fr l(4) b(4) by (simp add: d)
  qed
  then show "pages_inv d (x # remove1 x xs) cs" "\<And>y. unlinked (bufs d y) = unlinked (bufs dev y)"
    "dirtyGroup d = dirtyGroup dev" "buf_frame dev d" by auto
qed

lemma MoveNodeToHead_dirty:
  assumes "pages_inv dev xs cs" "x \<in> set xs"
  shows "dirty_inv (MoveNodeToHead x dev) S D = dirty_inv dev S D"
  using MoveNodeToHead_ok[OF assms] unlinked_views buf_frame_fields(2)
  by (intro dirty_inv_cong) blast+

subsection \<open>Dirty groups\<close>

lemma dirty_invD:
  assumes "dirty_inv dev S D" "s < nat (dirty_groups dev)"
  shows "\<exists>t. dll (dirty_nx dev) (dirty_pv dev) (dg_dirty (dirtyGroup dev ! s)) t (D s)"
    "chain (dirty_nx dev) (dg_dirty (dirtyGroup dev ! s)) (D s)"
    "dg_count (dirtyGroup dev ! s) = int (length (D s))" "set (D s) \<subseteq> S"
    "x \<in> set (D s) \<Longrightarrow> b_mark (bufs dev x) = UFFS_BUF_DIRTY" "s < length (dirtyGroup dev)"
    "dg_dirty (dirtyGroup dev ! s) = (if D s = [] then None else Some (hd (D s)))" "distinct (D s)"
proof -
  have "(\<exists>t. dll (dirty_nx dev) (dirty_pv dev) (dg_dirty (dirtyGroup dev ! s)) t (D s)) \<and>
        dg_count (dirtyGroup dev ! s) = int (length (D s)) \<and> set (D s) \<subseteq> S \<and>
        (\<forall>x \<in> set (D s). b_mark (bufs dev x) = UFFS_BUF_DIRTY)"
    using assms unfolding dirty_inv_def by blast
  moreover have "s < length (dirtyGroup dev)" using assms by (simp add: dirty_inv_def)
  ultimately show "\<exists>t. dll (dirty_nx dev) (dirty_pv dev) (dg_dirty (dirtyGroup dev ! s)) t (D s)"
    "chain (dirty_nx dev) (dg_dirty (dirtyGroup dev ! s)) (D s)"
    "dg_count (dirtyGroup dev ! s) = int (length (D s))" "set (D s) \<subseteq> S"
    "x \<in> set (D s) \<Longrightarrow> b_mark (bufs dev x) = UFFS_BUF_DIRTY" "s < length (dirtyGroup dev)"
    "dg_dirty (dirtyGroup dev ! s) = (if D s = [] then None else Some (hd (D s)))" "distinct (D s)"
    by (auto dest: dllD1 dll_head dll_distinct)
qed

lemma dirty_inv_obj:
  assumes "dirty_inv dev S D" "s < nat (dirty_groups dev)" "s' < nat (dirty_groups dev)" "x \<in> set (D s)" "y \<in> set (D s')"
  shows "buf_obj (bufs dev x) = buf_obj (bufs dev y) \<longleftrightarrow> s = s'"
  using assms unfolding dirty_inv_def by blast

lemma dirty_inv_mark:
  "dirty_inv dev S D \<Longrightarrow> y \<in> S \<Longrightarrow> b_mark (bufs dev y) = UFFS_BUF_DIRTY \<Longrightarrow>
     \<exists>s < nat (dirty_groups dev). y \<in> set (D s)"
  unfolding dirty_inv_def by blast

text \<open>The group of an object.\<close>

lemma FindGroupSlot_eq:
  assumes inv: "dirty_inv dev S D"
  shows "uffs_BufFindGroupSlot p q dev =
    slot_of (List.find (\<lambda>i. \<exists>x \<in> set (D i). buf_obj (bufs dev x) = (p, q)) [0..<nat (dirty_groups dev)])"
proof -
  have e: "(case dg_dirty (dirtyGroup dev ! i) of None \<Rightarrow> False
      | Some b \<Rightarrow> b_parent (bufs dev b) = p \<and> b_serial (bufs dev b) = q) =
      (\<exists>x \<in> set (D i). buf_obj (bufs dev x) = (p, q))" if i: "i < nat (dirty_groups dev)" for i
  proof (cases "D i")
    case Nil
    then show ?thesis using dirty_invD(7)[OF inv i] by simp
  next
    case (Cons a as)
    have "buf_obj (bufs dev x) = buf_obj (bufs dev a)" if "x \<in> set (D i)" for x
      using dirty_inv_obj[OF inv i i that, of a] Cons by simp
    moreover have "dg_dirty (dirtyGroup dev ! i) = Some a" using dirty_invD(7)[OF inv i] Cons by simp
    ultimately have "(\<exists>x \<in> set (D i). buf_obj (bufs dev x) = (p, q)) = (buf_obj (bufs dev a) = (p, q))"
      using Cons by (metis list.set_intros(1))
    with \<open>dg_dirty (dirtyGroup dev ! i) = Some a\<close> show ?thesis by (simp add: buf_obj_def)
  qed
  show ?thesis unfolding uffs_BufFindGroupSlot_def
  proof (rule arg_cong[OF find_cong_set])
    fix i assume "i \<in> set [0..<nat (dirty_groups dev)]"
    then have "i < nat (dirty_groups dev)" by simp
    then show "(case dg_dirty (dirtyGroup dev ! i) of None \<Rightarrow> False
      | Some b \<Rightarrow> b_parent (bufs dev b) = p \<and> b_serial (bufs dev b) = q) =
      (\<exists>x \<in> set (D i). buf_obj (bufs dev x) = (p, q))" by (rule e)
  qed
qed

lemma FindGroupSlot_in:
  assumes inv: "dirty_inv dev S D" and s: "s < nat (dirty_groups dev)" and x: "x \<in> set (D s)"
  shows "uffs_BufFindGroupSlot (b_parent (bufs dev x)) (b_serial (bufs dev x)) dev = int s"
proof -
  have "List.find (\<lambda>i. \<exists>y \<in> set (D i). buf_obj (bufs dev y) = (b_parent (bufs dev x), b_serial (bufs dev x))) [0..<nat (dirty_groups dev)] = Some s"
  proof (rule find_unique)
    fix y assume y: "y \<in> set [0..<nat (dirty_groups dev)]"
      and e: "\<exists>z \<in> set (D y). buf_obj (bufs dev z) = (b_parent (bufs dev x), b_serial (bufs dev x))"
    then obtain z where "z \<in> set (D y)" "buf_obj (bufs dev z) = buf_obj (bufs dev x)" by (auto simp: buf_obj_def)
    with y show "y = s" using dirty_inv_obj[OF inv _ s _ x, of y z] by simp
  next
    show "\<exists>y \<in> set (D s). buf_obj (bufs dev y) = (b_parent (bufs dev x), b_serial (bufs dev x))"
      using x by (auto simp: buf_obj_def)
  qed (use s in simp)
  then show ?thesis unfolding FindGroupSlot_eq[OF inv] by (simp add: slot_of_def)
qed

lemma slot_of_find_ge: "slot_of (List.find P [0..<n]) \<ge> 0 \<longleftrightarrow> (\<exists>i<n. P i)"
proof (cases "List.find P [0..<n]")
  case None
  then have "\<not> (\<exists>i<n. P i)" by (auto simp: find_None_iff_set)
  then show ?thesis unfolding None by (simp add: slot_of_def)
next
  case (Some a)
  show ?thesis unfolding Some using find_Some_in[OF Some] by (auto simp: slot_of_def)
qed

lemma slot_of_findD: "slot_of (List.find P [0..<n]) = int i \<Longrightarrow> i < n \<and> P i"
  by (cases "List.find P [0..<n]") (auto simp: slot_of_def dest: find_Some_in)

lemma FreeGroupSlot_D:
  assumes "dirty_inv dev S D" "uffs_BufFindFreeGroupSlot dev = int s"
  shows "s < nat (dirty_groups dev) \<and> D s = []"
proof -
  have "s < nat (dirty_groups dev) \<and> dg_dirty (dirtyGroup dev ! s) = None"
    using slot_of_findD[OF assms(2)[unfolded uffs_BufFindFreeGroupSlot_def]] .
  then show ?thesis using dirty_invD(7)[OF assms(1), of s] by (auto split: if_splits)
qed

text \<open>The buffers without their dirty links and mark.\<close>

definition undirty :: "Buf \<Rightarrow> Buf" where
  "undirty b = b\<lparr>b_next_dirty := None, b_prev_dirty := None, b_mark := 0\<rparr>"

lemma undirty_simps [simp]:
  "undirty (b\<lparr>b_next_dirty := v\<rparr>) = undirty b" "undirty (b\<lparr>b_prev_dirty := v\<rparr>) = undirty b"
  "undirty (b\<lparr>b_mark := m\<rparr>) = undirty b"
  by (simp_all add: undirty_def)

lemma undirty_views:
  "undirty b = undirty b' \<Longrightarrow> list_view b = list_view b' \<and> b_page b = b_page b' \<and> b_ref_count b = b_ref_count b' \<and>
     buf_obj b = buf_obj b' \<and> b_page_id b = b_page_id b' \<and> b_data_len b = b_data_len b' \<and> b_type b = b_type b' \<and>
     b_parent b = b_parent b' \<and> b_serial b = b_serial b'"
  by (cases b; cases b') (simp add: undirty_def list_view_def buf_obj_def)

lemma pages_inv_undirty:
  fixes d dev :: "'f device"
  assumes "\<And>y. undirty (bufs d y) = undirty (bufs dev y)" "buf_head d = buf_head dev" "buf_tail d = buf_tail dev"
    "buf_clone d = buf_clone dev" "pg_size d = pg_size dev"
  shows "pages_inv d xs cs = pages_inv dev xs cs"
proof (rule pages_inv_cong)
  show "list_view (bufs d x) = list_view (bufs dev x)" for x using undirty_views[OF assms(1)] by blast
qed (fact assms)+

text \<open>A group with its list.\<close>

lemma dirty_inv_group:
  fixes dev d :: "'f device"
  assumes inv: "dirty_inv dev S D" and s: "s < nat (dirty_groups dev)"
    and grp: "dll (dirty_nx d) (dirty_pv d) (dg_dirty (dirtyGroup d ! s)) t ys" "dg_count (dirtyGroup d ! s) = int (length ys)"
    and other: "\<And>i. i \<noteq> s \<Longrightarrow> dirtyGroup d ! i = dirtyGroup dev ! i" "length (dirtyGroup d) = length (dirtyGroup dev)"
      "dirty_groups d = dirty_groups dev"
      "\<And>i y. i < nat (dirty_groups dev) \<Longrightarrow> i \<noteq> s \<Longrightarrow> y \<in> set (D i) \<Longrightarrow> dirty_view (bufs d y) = dirty_view (bufs dev y)"
    and ys: "set ys \<subseteq> T" "\<And>y. y \<in> set ys \<Longrightarrow> b_mark (bufs d y) = UFFS_BUF_DIRTY"
      "\<And>y z. y \<in> set ys \<Longrightarrow> z \<in> set ys \<Longrightarrow> buf_obj (bufs d y) = buf_obj (bufs d z)"
      "\<And>i y z. i < nat (dirty_groups dev) \<Longrightarrow> i \<noteq> s \<Longrightarrow> y \<in> set (D i) \<Longrightarrow> z \<in> set ys \<Longrightarrow> buf_obj (bufs dev y) \<noteq> buf_obj (bufs d z)"
    and T: "\<And>i. i < nat (dirty_groups dev) \<Longrightarrow> i \<noteq> s \<Longrightarrow> set (D i) \<subseteq> T"
      "\<And>x. x \<in> T \<Longrightarrow> b_mark (bufs d x) = UFFS_BUF_DIRTY \<Longrightarrow> x \<in> set ys \<or> (\<exists>i < nat (dirty_groups dev). i \<noteq> s \<and> x \<in> set (D i))"
  shows "dirty_inv d T (D(s := ys))"
proof -
  let ?E = "D(s := ys)" let ?n = "nat (dirty_groups dev)"
  have v: "b_next_dirty (bufs d y) = b_next_dirty (bufs dev y)" "b_prev_dirty (bufs d y) = b_prev_dirty (bufs dev y)"
    "b_mark (bufs d y) = b_mark (bufs dev y)" "buf_obj (bufs d y) = buf_obj (bufs dev y)"
    if "i < ?n" "i \<noteq> s" "y \<in> set (D i)" for i y
    using other(4)[OF that] by (simp_all add: dirty_view_def)
  have A: "(\<exists>t. dll (dirty_nx d) (dirty_pv d) (dg_dirty (dirtyGroup d ! i)) t (?E i)) \<and>
      dg_count (dirtyGroup d ! i) = int (length (?E i)) \<and> set (?E i) \<subseteq> T \<and>
      (\<forall>x \<in> set (?E i). b_mark (bufs d x) = UFFS_BUF_DIRTY)" if i: "i < ?n" for i
  proof (cases "i = s")
    case True
    then show ?thesis using grp ys(1,2) by auto
  next
    case False
    obtain t' where "dll (dirty_nx dev) (dirty_pv dev) (dg_dirty (dirtyGroup dev ! i)) t' (D i)"
      using dirty_invD(1)[OF inv i] by blast
    then have "dll (dirty_nx d) (dirty_pv d) (dg_dirty (dirtyGroup d ! i)) t' (D i)"
      unfolding other(1)[OF False]
      using dll_cong[of "D i" "dirty_nx d" "dirty_nx dev" "dirty_pv d" "dirty_pv dev"] v(1,2)[OF i False] by simp
    then show ?thesis
      using dirty_invD(3,5)[OF inv i] T(1)[OF i False] v[OF i False] False other(1)[OF False] by auto
  qed
  have B: "buf_obj (bufs d x) = buf_obj (bufs d y) \<longleftrightarrow> i = j"
    if ij: "i < ?n" "j < ?n" and xy: "x \<in> set (?E i)" "y \<in> set (?E j)" for i j x y
  proof (cases "i = s")
    case True
    show ?thesis
    proof (cases "j = s")
      case True
      then show ?thesis using \<open>i = s\<close> ys(3)[of x y] xy by simp
    next
      case False
      then show ?thesis using \<open>i = s\<close> ys(4)[OF ij(2) False, of y x] xy v(4)[OF ij(2) False, of y] by auto
    qed
  next
    case False
    then have xi: "x \<in> set (D i)" using xy by simp
    show ?thesis
    proof (cases "j = s")
      case True
      then show ?thesis using False ys(4)[OF ij(1) False xi, of y] xy v(4)[OF ij(1) False xi] by auto
    next
      case nj: False
      then have yj: "y \<in> set (D j)" using xy by simp
      show ?thesis using v(4)[OF ij(1) False xi] v(4)[OF ij(2) nj yj] dirty_inv_obj[OF inv ij xi yj] by simp
    qed
  qed
  have C: "\<exists>i < ?n. x \<in> set (?E i)" if "x \<in> T" "b_mark (bufs d x) = UFFS_BUF_DIRTY" for x
    using T(2)[OF that] s by auto
  have "?n \<le> length (dirtyGroup d)" using inv other(2) by (simp add: dirty_inv_def)
  then show ?thesis unfolding dirty_inv_def other(3) using A B C by blast
qed

lemma LinkToDirtyList_ok:
  assumes inv: "dirty_inv dev S D" and s: "s < nat (dirty_groups dev)" and x: "x \<in> S"
    "\<And>i. i < nat (dirty_groups dev) \<Longrightarrow> x \<notin> set (D i)"
    "\<And>i y. i < nat (dirty_groups dev) \<Longrightarrow> y \<in> set (D i) \<Longrightarrow> buf_obj (bufs dev y) = buf_obj (bufs dev x) \<longleftrightarrow> i = s"
  defines "d \<equiv> LinkToDirtyList s x dev"
  shows "dirty_inv d S (D(s := x # D s))" "\<And>y. undirty (bufs d y) = undirty (bufs dev y)" "buf_frame dev d"
    "buf_head d = buf_head dev" "buf_tail d = buf_tail dev" "buf_clone d = buf_clone dev"
proof -
  let ?h = "dg_dirty (dirtyGroup dev ! s)"
  have h: "?h = (if D s = [] then None else Some (hd (D s)))" "s < length (dirtyGroup dev)"
    by (rule dirty_invD[OF inv s])+
  have hD: "y \<in> set (D s)" if "?h = Some y" for y using h(1) that by (auto split: if_splits)
  then have hx: "?h \<noteq> Some x" using x(2)[OF s] by auto
  have n: "dirty_nx d = (dirty_nx dev)(x := ?h)"
    using hx by (auto simp: d_def LinkToDirtyList_def Let_def fun_eq_iff split: option.split)
  have p: "dirty_pv d = (case ?h of None \<Rightarrow> (dirty_pv dev)(x := None) | Some y \<Rightarrow> ((dirty_pv dev)(x := None))(y := Some x))"
    using hx by (auto simp: d_def LinkToDirtyList_def Let_def fun_eq_iff split: option.split)
  have g: "dirtyGroup d = (dirtyGroup dev)[s := (dirtyGroup dev ! s)\<lparr>dg_dirty := Some x, dg_count := dg_count (dirtyGroup dev ! s) + 1\<rparr>]"
    by (auto simp: d_def LinkToDirtyList_def Let_def split: option.split)
  have m: "b_mark (bufs d y) = (if y = x then UFFS_BUF_DIRTY else b_mark (bufs dev y))" for y
    using hx by (auto simp: d_def LinkToDirtyList_def Let_def split: option.split)
  show ud: "undirty (bufs d y) = undirty (bufs dev y)" for y
    by (auto simp: d_def LinkToDirtyList_def Let_def split: option.split)
  show "buf_frame dev d" "buf_head d = buf_head dev" "buf_tail d = buf_tail dev" "buf_clone d = buf_clone dev"
    by (auto simp: d_def LinkToDirtyList_def Let_def split: option.split)
  have dg: "dirty_groups d = dirty_groups dev"
    by (auto simp: d_def LinkToDirtyList_def Let_def split: option.split)
  have o: "buf_obj (bufs d y) = buf_obj (bufs dev y)" for y using undirty_views[OF ud] by auto
  obtain t where "dll (dirty_nx dev) (dirty_pv dev) ?h t (D s)" using dirty_invD(1)[OF inv s] by blast
  from dll_push_front[OF this x(2)[OF s]]
  have l: "dll (dirty_nx d) (dirty_pv d) (Some x) (case t of None \<Rightarrow> Some x | Some z \<Rightarrow> Some z) (x # D s)"
    unfolding n p .
  have obj: "buf_obj (bufs dev y) = buf_obj (bufs dev x)" if "y \<in> set (x # D s)" for y
    using x(3)[OF s, of y] that by auto
  show "dirty_inv d S (D(s := x # D s))"
  proof (rule dirty_inv_group[OF inv s])
    show "dll (dirty_nx d) (dirty_pv d) (dg_dirty (dirtyGroup d ! s)) (case t of None \<Rightarrow> Some x | Some z \<Rightarrow> Some z) (x # D s)"
      using l h(2) by (simp add: g)
    show "dirty_view (bufs d y) = dirty_view (bufs dev y)" if "i < nat (dirty_groups dev)" "i \<noteq> s" "y \<in> set (D i)" for i y
    proof -
      have "y \<noteq> x" using x(2)[OF that(1)] that(3) by auto
      moreover have "?h \<noteq> Some y" using hD[of y] dirty_inv_obj[OF inv that(1) s that(3), of y] that(2) by auto
      ultimately show ?thesis using fun_cong[OF n, of y] fun_cong[OF p, of y] m[of y] o[of y]
        by (auto simp: dirty_view_def split: option.splits)
    qed
    show "buf_obj (bufs dev y) \<noteq> buf_obj (bufs d z)"
      if "i < nat (dirty_groups dev)" "i \<noteq> s" "y \<in> set (D i)" "z \<in> set (x # D s)" for i y z
      using x(3)[OF that(1,3)] that(2) obj[OF that(4)] o[of z] by simp
    show "\<And>y. y \<in> set (x # D s) \<Longrightarrow> b_mark (bufs d y) = UFFS_BUF_DIRTY"
      using dirty_invD(5)[OF inv s] m by auto
    show "set (x # D s) \<subseteq> S" using dirty_invD(4)[OF inv s] x(1) by simp
    show "y \<in> set (x # D s) \<or> (\<exists>i < nat (dirty_groups dev). i \<noteq> s \<and> y \<in> set (D i))"
      if "y \<in> S" "b_mark (bufs d y) = UFFS_BUF_DIRTY" for y
    proof (cases "y = x")
      case False
      then have "\<exists>i < nat (dirty_groups dev). y \<in> set (D i)" using that m inv by (simp add: dirty_inv_def)
      then show ?thesis by auto
    qed simp
    show "dg_count (dirtyGroup d ! s) = int (length (x # D s))"
      using dirty_invD(3)[OF inv s] h(2) by (simp add: g)
    show "\<And>i. i \<noteq> s \<Longrightarrow> dirtyGroup d ! i = dirtyGroup dev ! i" "length (dirtyGroup d) = length (dirtyGroup dev)"
      "dirty_groups d = dirty_groups dev" by (simp_all add: g dg)
    show "\<And>y z. y \<in> set (x # D s) \<Longrightarrow> z \<in> set (x # D s) \<Longrightarrow> buf_obj (bufs d y) = buf_obj (bufs d z)"
      by (simp only: o obj)
    show "\<And>i. i < nat (dirty_groups dev) \<Longrightarrow> i \<noteq> s \<Longrightarrow> set (D i) \<subseteq> S" by (rule dirty_invD(4)[OF inv])
  qed
qed

lemma BreakFromDirty_ok:
  assumes inv: "dirty_inv dev S D" and s: "s < nat (dirty_groups dev)" and x: "x \<in> set (D s)"
  obtains d where "BreakFromDirty x dev = (U_SUCC, d)" "dirty_inv d (S - {x}) (D(s := remove1 x (D s)))"
    "\<And>y. undirty (bufs d y) = undirty (bufs dev y)" "\<And>y. b_mark (bufs d y) = b_mark (bufs dev y)" "buf_frame dev d"
    "buf_head d = buf_head dev" "buf_tail d = buf_tail dev" "buf_clone d = buf_clone dev"
proof -
  define d1 where "d1 = dirtym.unlink x dev"
  define d2 where "d2 = (if dg_dirty (dirtyGroup d1 ! s) = Some x then upd_dg s (\<lambda>g. g\<lparr>dg_dirty := b_next_dirty (bufs d1 x)\<rparr>) d1 else d1)"
  define d where "d = upd_dg s (\<lambda>g. g\<lparr>dg_count := dg_count g - 1\<rparr>) (upd_buf x (\<lambda>b. b\<lparr>b_next_dirty := None, b_prev_dirty := None\<rparr>) d2)"
  have slot: "uffs_BufFindGroupSlot (b_parent (bufs dev x)) (b_serial (bufs dev x)) dev = int s"
    by (rule FindGroupSlot_in[OF inv s x])
  have run: "BreakFromDirty x dev = (U_SUCC, d)"
    unfolding BreakFromDirty_def Let_def slot d_def d2_def d1_def dirtym.unlink_def
    using dirty_invD(5)[OF inv s x] by simp
  obtain as bs where D: "D s = as @ x # bs" using split_list[OF x] by blast
  have dis: "distinct (as @ x # bs)" using dirty_invD(8)[OF inv s] D by simp
  obtain t where "dll (dirty_nx dev) (dirty_pv dev) (dg_dirty (dirtyGroup dev ! s)) t (as @ x # bs)"
    using dirty_invD(1)[OF inv s] D by auto
  then have r: "dll (dirty_pv dev) (dirty_nx dev) t (dg_dirty (dirtyGroup dev ! s)) (rev bs @ x # rev as)"
    by (subst (asm) dll_rev) simp
  have sl: "s < length (dirtyGroup dev)" by (rule dirty_invD(6)[OF inv s])
  have u1: "undirty (bufs d1 y) = undirty (bufs dev y)" "b_mark (bufs d1 y) = b_mark (bufs dev y)" for y
    by (auto simp: d1_def dirtym.unlink_def Let_def split: option.split)
  have f1: "buf_frame dev d1" "buf_head d1 = buf_head dev" "buf_tail d1 = buf_tail dev" "buf_clone d1 = buf_clone dev"
    "dirtyGroup d1 = dirtyGroup dev" "dirty_groups d1 = dirty_groups dev"
    by (auto simp: d1_def dirtym.unlink_def Let_def split: option.split)
  have ud: "undirty (bufs d y) = undirty (bufs dev y)" "b_mark (bufs d y) = b_mark (bufs dev y)" for y
    using u1[of y] by (auto simp: d_def d2_def)
  have fr: "buf_frame dev d" "buf_head d = buf_head dev" "buf_tail d = buf_tail dev" "buf_clone d = buf_clone dev"
    "dirty_groups d = dirty_groups dev"
    using f1 by (auto simp: d_def d2_def)
  have g: "dirtyGroup d = (dirtyGroup dev)[s := (dirtyGroup dev ! s)
      \<lparr>dg_dirty := (if dg_dirty (dirtyGroup dev ! s) = Some x then dirty_nx d1 x else dg_dirty (dirtyGroup dev ! s)),
       dg_count := dg_count (dirtyGroup dev ! s) - 1\<rparr>]"
    using f1(5) sl by (simp add: d_def d2_def)
  have l1: "dll (dirty_pv d1) (dirty_nx d1) (if t = Some x then dirty_pv dev x else t)
      (if dg_dirty (dirtyGroup dev ! s) = Some x then dirty_nx dev x else dg_dirty (dirtyGroup dev ! s)) (rev bs @ rev as)"
    and nx: "dirty_nx d1 x = dirty_nx dev x"
    unfolding d1_def using dirtym.unlink_dll[OF r] by simp_all
  then have "dll (dirty_nx d1) (dirty_pv d1)
      (if dg_dirty (dirtyGroup dev ! s) = Some x then dirty_nx dev x else dg_dirty (dirtyGroup dev ! s))
      (if t = Some x then dirty_pv dev x else t) (as @ bs)"
    by (subst dll_rev) simp
  note l1' = this
  have dx: "dirty_nx d y = dirty_nx d1 y \<and> dirty_pv d y = dirty_pv d1 y" if "y \<noteq> x" for y
    using that by (simp add: d_def d2_def)
  have "dll (dirty_nx d) (dirty_pv d) h t' (as @ bs) = dll (dirty_nx d1) (dirty_pv d1) h t' (as @ bs)" for h t'
  proof (rule dll_cong)
    fix y assume "y \<in> set (as @ bs)"
    then have "y \<noteq> x" using dis by auto
    then show "dirty_nx d y = dirty_nx d1 y \<and> dirty_pv d y = dirty_pv d1 y" by (rule dx)
  qed
  with l1' have l: "dll (dirty_nx d) (dirty_pv d)
      (if dg_dirty (dirtyGroup dev ! s) = Some x then dirty_nx dev x else dg_dirty (dirtyGroup dev ! s))
      (if t = Some x then dirty_pv dev x else t) (as @ bs)" by simp
  have nb: "set_option (dirty_nx dev x) \<union> set_option (dirty_pv dev x) \<subseteq> set (D s)"
    using dll_next[OF r] dll_prev[OF r] D hd_in_set[of "rev as"] last_in_set[of "rev bs"] by (auto split: if_splits)
  have o: "buf_obj (bufs d y) = buf_obj (bufs dev y)" for y using undirty_views[OF ud(1)] by auto
  have rem: "remove1 x (D s) = as @ bs" using dis D by (simp add: remove1_append)
  have "dirty_inv d (S - {x}) (D(s := as @ bs))"
  proof (rule dirty_inv_group[OF inv s])
    show "dll (dirty_nx d) (dirty_pv d) (dg_dirty (dirtyGroup d ! s)) (if t = Some x then dirty_pv dev x else t) (as @ bs)"
    proof -
      have "dg_dirty (dirtyGroup d ! s) =
          (if dg_dirty (dirtyGroup dev ! s) = Some x then dirty_nx dev x else dg_dirty (dirtyGroup dev ! s))"
        using sl by (simp add: g nx)
      then show ?thesis using l by (simp only:)
    qed
    show "dg_count (dirtyGroup d ! s) = int (length (as @ bs))"
      using dirty_invD(3)[OF inv s] D sl by (simp add: g)
    show "\<And>i. i \<noteq> s \<Longrightarrow> dirtyGroup d ! i = dirtyGroup dev ! i" "length (dirtyGroup d) = length (dirtyGroup dev)"
      "dirty_groups d = dirty_groups dev" by (simp_all add: g fr)
    have ns: "y \<notin> set (D s)" if "i < nat (dirty_groups dev)" "i \<noteq> s" "y \<in> set (D i)" for i y
      using dirty_inv_obj[OF inv that(1) s that(3), of y] that(2) by blast
    show "dirty_view (bufs d y) = dirty_view (bufs dev y)" if "i < nat (dirty_groups dev)" "i \<noteq> s" "y \<in> set (D i)" for i y
    proof -
      have "y \<notin> set (D s)" by (rule ns[OF that])
      then have "y \<noteq> x" "dirty_nx dev x \<noteq> Some y" "dirty_pv dev x \<noteq> Some y" using nb x by auto
      then have "bufs d y = bufs dev y"
        by (auto simp: d_def d2_def d1_def dirtym.unlink_def Let_def split: option.split)
      then show ?thesis by simp
    qed
    show "set (as @ bs) \<subseteq> S - {x}" using dirty_invD(4)[OF inv s] D dis by auto
    show "\<And>y. y \<in> set (as @ bs) \<Longrightarrow> b_mark (bufs d y) = UFFS_BUF_DIRTY"
      using dirty_invD(5)[OF inv s] D by (simp add: ud)
    show "buf_obj (bufs d y) = buf_obj (bufs d z)" if "y \<in> set (as @ bs)" "z \<in> set (as @ bs)" for y z
      unfolding o using dirty_inv_obj[OF inv s s, of y z] that D by auto
    show "buf_obj (bufs dev y) \<noteq> buf_obj (bufs d z)"
      if "i < nat (dirty_groups dev)" "i \<noteq> s" "y \<in> set (D i)" "z \<in> set (as @ bs)" for i y z
      unfolding o using dirty_inv_obj[OF inv that(1) s that(3), of z] that D by auto
    show "set (D i) \<subseteq> S - {x}" if "i < nat (dirty_groups dev)" "i \<noteq> s" for i
      using dirty_invD(4)[OF inv that(1)] ns[OF that] x by blast
    show "y \<in> set (as @ bs) \<or> (\<exists>i < nat (dirty_groups dev). i \<noteq> s \<and> y \<in> set (D i))"
      if yS: "y \<in> S - {x}" "b_mark (bufs d y) = UFFS_BUF_DIRTY" for y
    proof -
      obtain i where "i < nat (dirty_groups dev)" "y \<in> set (D i)"
        using dirty_inv_mark[OF inv, of y] yS by (auto simp: ud)
      then show ?thesis using D yS(1) by (cases "i = s") auto
    qed
  qed
  then show thesis using that[OF run _ ud fr(1-4)] by (simp only: rem)
qed

lemma dirty_inv_insert:
  "dirty_inv dev (S - {x}) D \<Longrightarrow> b_mark (bufs dev x) \<noteq> UFFS_BUF_DIRTY \<Longrightarrow> dirty_inv dev S D"
  unfolding dirty_inv_def by blast

section \<open>The operations\<close>

definition buf_inv :: "'f device \<Rightarrow> nat list \<Rightarrow> nat list \<Rightarrow> (nat \<Rightarrow> nat list) \<Rightarrow> bool" where
  "buf_inv dev xs cs D \<longleftrightarrow> pages_inv dev xs cs \<and> dirty_inv dev (set xs) D"

lemma pages_invD:
  assumes "pages_inv dev xs cs"
  shows "chain (buf_nx dev) (buf_head dev) xs" "chain (buf_pv dev) (buf_tail dev) (rev xs)" "distinct xs"
    "chain (buf_nx dev) (buf_clone dev) cs" "distinct cs"
    "x \<in> set xs \<union> set cs \<Longrightarrow> length (b_page (bufs dev x)) = unat (pg_size dev)" "x \<in> set xs \<Longrightarrow> x \<notin> set cs"
  using assms by (auto simp: pages_inv_def dll_def dest: chain_distinct)

lemma buf_inv_upd:
  "list_view (f (bufs dev x)) = list_view (bufs dev x) \<Longrightarrow> dirty_view (f (bufs dev x)) = dirty_view (bufs dev x) \<Longrightarrow>
     buf_inv (upd_buf x f dev) xs cs D = buf_inv dev xs cs D"
  by (simp add: buf_inv_def pages_inv_upd dirty_inv_upd)

lemma BufFind_eq:
  "pages_inv dev xs cs \<Longrightarrow>
     uffs_BufFind parent serial page_id dev = Some (List.find (\<lambda>x. buf_matches parent serial page_id (bufs dev x)) xs)"
  unfolding uffs_BufFind_def uffs_BufFindFrom_def by (rule chain_find_eq) (rule pages_invD(1))

text \<open>A free buffer is the least recently used one.\<close>

lemma FindFreeBuf_eq:
  "pages_inv dev xs cs \<Longrightarrow> FindFreeBuf dev =
     Some (List.find (\<lambda>x. b_ref_count (bufs dev x) = 0 \<and> b_mark (bufs dev x) \<noteq> UFFS_BUF_DIRTY) (rev xs))"
  unfolding FindFreeBuf_def by (rule chain_find_eq) (rule pages_invD(2))

lemma MoveNodeToHead_inv:
  assumes "buf_inv dev xs cs D" "x \<in> set xs"
  shows "buf_inv (MoveNodeToHead x dev) (x # remove1 x xs) cs D"
proof -
  have p: "pages_inv dev xs cs" and d: "dirty_inv dev (set xs) D" using assms(1) by (simp_all add: buf_inv_def)
  have "set (x # remove1 x xs) = set xs" using assms(2) pages_invD(3)[OF p] by auto
  then show ?thesis using MoveNodeToHead_ok(1)[OF p assms(2)] d
    by (simp only: buf_inv_def MoveNodeToHead_dirty[OF p assms(2)])
qed

text \<open>C25. \<open>uffs_BufGet\<close> always returns; it finds the first buffer of the list that holds the page
  (with any page for the wildcard id), counts one more reference and moves the buffer to the
  head of the list, so that \<open>_FindFreeBuf\<close>, which looks from the tail, takes the least recently
  used buffer. Nothing else changes, and the lists stay well-formed.\<close>

theorem BufGet_mru:
  fixes dev :: "'f device"
  assumes "buf_inv dev xs cs D"
  shows "\<exists>r dev'. uffs_BufGet parent serial page_id dev = Some (r, dev') \<and> buf_frame dev dev' \<and>
    FindFreeBuf dev = Some (List.find (\<lambda>x. b_ref_count (bufs dev x) = 0 \<and> b_mark (bufs dev x) \<noteq> UFFS_BUF_DIRTY) (rev xs)) \<and>
    r = List.find (\<lambda>x. buf_matches parent serial page_id (bufs dev x)) xs \<and>
    (case r of None \<Rightarrow> dev' = dev
     | Some x \<Rightarrow> buf_inv dev' (x # remove1 x xs) cs D \<and>
         b_ref_count (bufs dev' x) = b_ref_count (bufs dev x) + 1 \<and> b_page (bufs dev' x) = b_page (bufs dev x) \<and>
         (\<forall>y. y \<noteq> x \<longrightarrow> unlinked (bufs dev' y) = unlinked (bufs dev y)))"
proof -
  have p: "pages_inv dev xs cs" using assms by (simp add: buf_inv_def)
  define r where "r = List.find (\<lambda>x. buf_matches parent serial page_id (bufs dev x)) xs"
  show ?thesis
  proof (cases r)
    case None
    have "uffs_BufGet parent serial page_id dev = Some (None, dev)"
      using BufFind_eq[OF p, of parent serial page_id] None by (simp add: uffs_BufGet_def r_def[symmetric])
    then show ?thesis using None FindFreeBuf_eq[OF p] by (intro exI[of _ r] exI[of _ dev]) (simp add: r_def[symmetric])
  next
    case (Some x)
    have x: "x \<in> set xs" using find_Some_in Some r_def by metis
    let ?d = "upd_buf x (\<lambda>b. b\<lparr>b_ref_count := b_ref_count b + 1\<rparr>) dev"
    have inv: "buf_inv ?d xs cs D"
      using assms by (subst buf_inv_upd) (simp_all add: list_view_def dirty_view_def buf_obj_def)
    then have pd: "pages_inv ?d xs cs" by (simp add: buf_inv_def)
    note m = MoveNodeToHead_ok[OF pd x]
    have run: "uffs_BufGet parent serial page_id dev = Some (Some x, MoveNodeToHead x ?d)"
      using BufFind_eq[OF p, of parent serial page_id] Some by (simp add: uffs_BufGet_def r_def[symmetric])
    have fr: "buf_frame dev (MoveNodeToHead x ?d)" using buf_frame_trans[OF _ m(4)] by simp
    have v: "b_ref_count (bufs (MoveNodeToHead x ?d) x) = b_ref_count (bufs dev x) + 1"
      "b_page (bufs (MoveNodeToHead x ?d) x) = b_page (bufs dev x)"
      using unlinked_views[OF m(2)[of x]] by simp_all
    have o: "unlinked (bufs (MoveNodeToHead x ?d) y) = unlinked (bufs dev y)" if "y \<noteq> x" for y
      using m(2)[of y] that by simp
    show ?thesis
      using run fr v o MoveNodeToHead_inv[OF inv x] FindFreeBuf_eq[OF p] Some
      by (intro exI[of _ "Some x"] exI[of _ "MoveNodeToHead x ?d"]) (simp add: r_def[symmetric])
  qed
qed

subsection \<open>Clones\<close>

lemma memcpy_same: "length s = length m \<Longrightarrow> memcpy m 0 s = s"
  by (rule memcpy_all)

lemma GetFreeClone_inv:
  assumes "pages_inv dev xs (c # cs)"
  shows "GetFreeCloneBuf dev = (Some c, dev\<lparr>buf_clone := b_next (bufs dev c)\<rparr>)"
    "pages_inv (dev\<lparr>buf_clone := b_next (bufs dev c)\<rparr>) xs cs"
  using assms by (auto simp: GetFreeCloneBuf_def pages_inv_def)

lemma pages_inv_outside:
  assumes "pages_inv dev xs cs" "x \<notin> set xs" "x \<notin> set cs"
  shows "pages_inv (upd_buf x f dev) xs cs"
proof -
  have e: "bufs (upd_buf x f dev) y = bufs dev y" if "y \<in> set xs \<union> set cs" for y using that assms(2,3) by auto
  have "dll (buf_nx (upd_buf x f dev)) (buf_pv (upd_buf x f dev)) h t xs = dll (buf_nx dev) (buf_pv dev) h t xs" for h t
    by (rule dll_cong) (simp only: e Un_iff simp_thms)
  moreover have "chain (buf_nx (upd_buf x f dev)) p cs = chain (buf_nx dev) p cs" for p
    by (rule chain_cong) (simp only: e Un_iff simp_thms)
  ultimately show ?thesis using assms(1) e unfolding pages_inv_def by simp
qed

lemma dirty_inv_outside:
  assumes inv: "dirty_inv dev S D" and x: "x \<notin> S"
  shows "dirty_inv (upd_buf x f dev) S D"
proof -
  have e: "bufs (upd_buf x f dev) y = bufs dev y" if "y \<in> S" for y using that x by auto
  have sub: "set (D s) \<subseteq> S" if "s < nat (dirty_groups dev)" for s by (rule dirty_invD(4)[OF inv that])
  have l: "dll (dirty_nx (upd_buf x f dev)) (dirty_pv (upd_buf x f dev)) h t (D s) = dll (dirty_nx dev) (dirty_pv dev) h t (D s)"
    if "s < nat (dirty_groups dev)" for s h t
  proof (rule dll_cong)
    fix y assume "y \<in> set (D s)"
    then have "y \<in> S" using sub[OF that] by blast
    then show "dirty_nx (upd_buf x f dev) y = dirty_nx dev y \<and> dirty_pv (upd_buf x f dev) y = dirty_pv dev y"
      by (simp only: e)
  qed
  have in_S: "y \<in> S" if "s < nat (dirty_groups dev)" "y \<in> set (D s)" for s y using sub[OF that(1)] that(2) by blast
  have "nat (dirty_groups (upd_buf x f dev)) = nat (dirty_groups dev)" "dirtyGroup (upd_buf x f dev) = dirtyGroup dev" by simp_all
  then show ?thesis
    using inv unfolding dirty_inv_def by (simp only: l e in_S cong: conj_cong imp_cong ball_cong) simp
qed

lemma InsertToClone_inv:
  assumes "pages_inv dev xs cs" "x \<notin> set xs" "x \<notin> set cs" "length (b_page (bufs dev x)) = unat (pg_size dev)"
  shows "pages_inv (InsertToCloneBufList x dev) xs (x # cs)"
proof -
  let ?d = "upd_buf x (b_next_update (\<lambda>_. buf_clone dev)) dev"
  have "pages_inv ?d xs cs" by (rule pages_inv_outside[OF assms(1-3)])
  then have "pages_inv (?d\<lparr>buf_clone := Some x\<rparr>) xs (x # cs)"
    using assms by (auto simp: pages_inv_def)
  then show ?thesis by (simp add: InsertToCloneBufList_def)
qed

text \<open>C26. Cloning a buffer takes a free clone buffer, makes it a copy of the page with the
  object, type, page id and data length of the original, marks it as a clone and detaches it
  from all lists; the buffers in use do not change. Giving the clone back with \<open>uffs_BufFreeClone\<close>
  or with \<open>uffs_BufPut\<close> succeeds and makes it a free clone buffer again; a buffer that is no clone
  is refused.\<close>

theorem BufClone_detached:
  fixes dev :: "'f device"
  assumes "buf_inv dev xs (c # cs) D" "buf \<in> set xs"
  shows "\<exists>dev'. uffs_BufClone (Some buf) dev = (Some c, dev') \<and> buf_inv dev' xs cs D \<and> buf_frame dev dev' \<and>
    c \<notin> set xs \<and> b_page (bufs dev' c) = b_page (bufs dev buf) \<and> buf_obj (bufs dev' c) = buf_obj (bufs dev buf) \<and>
    b_type (bufs dev' c) = b_type (bufs dev buf) \<and> b_page_id (bufs dev' c) = b_page_id (bufs dev buf) \<and>
    b_data_len (bufs dev' c) = b_data_len (bufs dev buf) \<and> (\<forall>y. y \<noteq> c \<longrightarrow> bufs dev' y = bufs dev y) \<and>
    (\<exists>dev''. uffs_BufFreeClone (Some c) dev' = (U_SUCC, dev'') \<and> uffs_BufPut (Some c) dev' = (U_SUCC, dev'') \<and>
       buf_inv dev'' xs (c # cs) D \<and> (\<forall>y. y \<noteq> c \<longrightarrow> bufs dev'' y = bufs dev y)) \<and>
    (b_ref_count (bufs dev buf) \<noteq> CLONE_BUF_MARK \<longrightarrow> uffs_BufFreeClone (Some buf) dev = (U_FAIL, dev))"
proof -
  have p: "pages_inv dev xs (c # cs)" and di: "dirty_inv dev (set xs) D" using assms(1) by (simp_all add: buf_inv_def)
  note g = GetFreeClone_inv[OF p]
  let ?d1 = "dev\<lparr>buf_clone := b_next (bufs dev c)\<rparr>"
  have c: "c \<notin> set xs" "c \<notin> set cs" using p pages_invD(5)[OF p] by (auto simp: pages_inv_def)
  have cb: "c \<noteq> buf" using c(1) assms(2) by auto
  have len: "length (b_page (bufs dev c)) = unat (pg_size dev)" "length (b_page (bufs dev buf)) = unat (pg_size dev)"
    using pages_invD(6)[OF p] assms(2) by simp_all
  define f :: "Buf \<Rightarrow> Buf" where "f = (\<lambda>b. b\<lparr>b_parent := b_parent (bufs dev buf), b_type := b_type (bufs dev buf), b_serial := b_serial (bufs dev buf),
      b_page_id := b_page_id (bufs dev buf), b_data_len := b_data_len (bufs dev buf), b_page := b_page (bufs dev buf),
      b_next := None, b_prev := None, b_next_dirty := None, b_prev_dirty := None, b_ref_count := CLONE_BUF_MARK\<rparr>)"
  define d' where "d' = upd_buf c f ?d1"
  have run: "uffs_BufClone (Some buf) dev = (Some c, d')"
    unfolding uffs_BufClone_def g(1) d'_def f_def
    using len by (simp add: Let_def upd_buf_def memcpy_same)
  have p': "pages_inv d' xs cs" unfolding d'_def by (rule pages_inv_outside[OF g(2) c])
  have di1: "dirty_inv ?d1 (set xs) D" using di by (subst dirty_inv_cong[of ?d1 dev]) simp_all
  have di': "dirty_inv d' (set xs) D" unfolding d'_def by (rule dirty_inv_outside[OF di1 c(1)])
  let ?g = "\<lambda>b. b\<lparr>b_ref_count := 0, b_mark := UFFS_BUF_EMPTY\<rparr>"
  define d'' where "d'' = InsertToCloneBufList c (upd_buf c ?g d')"
  have ref: "b_ref_count (bufs d' c) = CLONE_BUF_MARK" by (simp add: d'_def f_def)
  have "CLONE_BUF_MARK \<noteq> 0" by (simp add: CLONE_BUF_MARK_def)
  with ref have fr: "uffs_BufFreeClone (Some c) d' = (U_SUCC, d'')" "uffs_BufPut (Some c) d' = (U_SUCC, d'')"
    by (simp_all add: uffs_BufFreeClone_def uffs_BufPut_def d''_def)
  have "pages_inv (upd_buf c ?g d') xs cs" by (rule pages_inv_outside[OF p' c])
  from InsertToClone_inv[OF this c] have p'': "pages_inv d'' xs (c # cs)"
    using len by (simp add: d''_def d'_def f_def)
  have "dirty_inv (upd_buf c (b_next_update (\<lambda>_. buf_clone (upd_buf c ?g d'))) (upd_buf c ?g d')) (set xs) D"
    by (intro dirty_inv_outside di' c(1))
  then have di'': "dirty_inv d'' (set xs) D"
    unfolding d''_def InsertToCloneBufList_def by (subst dirty_inv_cong) simp_all
  have o: "bufs d' y = bufs dev y" "bufs d'' y = bufs dev y" if "y \<noteq> c" for y
    using that by (simp_all add: d'_def d''_def InsertToCloneBufList_def)
  show ?thesis
    using run fr p' di' p'' di'' o c(1)
    by (intro exI[of _ d'] conjI exI[of _ d'']) (auto simp: buf_inv_def d'_def f_def buf_obj_def uffs_BufFreeClone_def)
qed
subsection \<open>References and dirty buffers\<close>

lemma views_ref [simp]:
  "list_view (b\<lparr>b_ref_count := r\<rparr>) = list_view b" "dirty_view (b\<lparr>b_ref_count := r\<rparr>) = dirty_view b"
  by (simp_all add: list_view_def dirty_view_def buf_obj_def)

lemma buf_inv_ref [simp]: "buf_inv (upd_buf x (\<lambda>b. b\<lparr>b_ref_count := g b\<rparr>) dev) xs cs D = buf_inv dev xs cs D"
  by (rule buf_inv_upd) simp_all

lemma BufPut_inv:
  assumes "buf_inv dev xs cs D" "b_ref_count (bufs dev x) \<noteq> CLONE_BUF_MARK"
  shows "buf_inv (snd (uffs_BufPut (Some x) dev)) xs cs D"
  using assms by (simp add: uffs_BufPut_def)

lemma CheckDirtyList_ok:
  assumes inv: "dirty_inv dev S D" and s: "s < nat (dirty_groups dev)"
  shows "CheckDirtyList (dg_dirty (dirtyGroup dev ! s)) dev = Some U_SUCC"
proof (cases "D s")
  case Nil
  then show ?thesis using dirty_invD(7)[OF inv s] by (simp add: CheckDirtyList_def)
next
  case (Cons a as)
  have h: "dg_dirty (dirtyGroup dev ! s) = Some a" "chain (dirty_nx dev) (b_next_dirty (bufs dev a)) as"
    using dirty_invD(2,7)[OF inv s] Cons by simp_all
  have "buf_obj (bufs dev a) = buf_obj (bufs dev x) \<and> b_mark (bufs dev x) = UFFS_BUF_DIRTY" if "x \<in> set as" for x
    using dirty_inv_obj[OF inv s s, of a x] dirty_invD(5)[OF inv s, of x] that Cons by simp
  then have "List.find (\<lambda>x. b_parent (bufs dev a) \<noteq> b_parent (bufs dev x) \<or> b_serial (bufs dev a) \<noteq> b_serial (bufs dev x) \<or>
      b_mark (bufs dev x) \<noteq> UFFS_BUF_DIRTY) as = None"
    by (fastforce simp: find_None_iff_set buf_obj_def)
  then show ?thesis by (simp add: CheckDirtyList_def h(1) chain_find_eq[OF h(2)])
qed

lemma fold_min_page:
  fixes key :: "'p \<Rightarrow> 'k::linorder"
  shows "(let m = fold (\<lambda>w b. if key w < key b then w else b) xs a in m \<in> set (a # xs) \<and> (\<forall>x \<in> set (a # xs). key m \<le> key x))"
proof (induction xs arbitrary: a)
  case (Cons x xs)
  let ?a = "if key x < key a then x else a"
  have "fold (\<lambda>w b. if key w < key b then w else b) (x # xs) a = fold (\<lambda>w b. if key w < key b then w else b) xs ?a" by simp
  moreover note Cons[of ?a]
  ultimately show ?case unfolding Let_def by (fastforce split: if_splits)
qed simp

lemma FindMinimun_ok:
  assumes inv: "dirty_inv dev S D" and s: "s < nat (dirty_groups dev)" and ne: "D s \<noteq> []"
  obtains m where "FindMinimunPageIdFromDirtyList (dg_dirty (dirtyGroup dev ! s)) dev = Some (Some m)" "m \<in> set (D s)"
    "\<forall>x \<in> set (D s). b_page_id (bufs dev m) \<le> b_page_id (bufs dev x)"
proof -
  obtain a as where D: "D s = a # as" using ne by (cases "D s") auto
  have h: "dg_dirty (dirtyGroup dev ! s) = Some a" "chain (dirty_nx dev) (b_next_dirty (bufs dev a)) as"
    using dirty_invD(2,7)[OF inv s] D by simp_all
  define m where "m = fold (\<lambda>w b. if b_page_id (bufs dev w) < b_page_id (bufs dev b) then w else b) as a"
  have "FindMinimunPageIdFromDirtyList (dg_dirty (dirtyGroup dev ! s)) dev = Some (Some m)"
    by (simp add: FindMinimunPageIdFromDirtyList_def h(1) chain_fold_eq[OF h(2)] m_def)
  moreover have "m \<in> set (D s)" "\<forall>x \<in> set (D s). b_page_id (bufs dev m) \<le> b_page_id (bufs dev x)"
    using fold_min_page[of "\<lambda>x. b_page_id (bufs dev x)" as a] unfolding D m_def Let_def by blast+
  ultimately show thesis by (rule that)
qed

lemma IsBufInDirtyList_eq:
  "dirty_inv dev S D \<Longrightarrow> s < nat (dirty_groups dev) \<Longrightarrow> IsBufInInDirtyList s buf dev = Some (buf \<in> set (D s))"
  unfolding IsBufInInDirtyList_def chain_find_eq[OF dirty_invD(2)] option.map find_not_None ..

text \<open>C24. The dirty groups. Linking a buffer to the group of its object (or to an empty group when
  its object has none) and breaking a dirty buffer out of its group, which the code finds by the
  object, keep the groups well-formed: each is a doubly linked list with an exact counter, and
  two dirty buffers share a group exactly if they share the object. In such a group
  \<open>_CheckDirtyList\<close> succeeds and \<open>_FindMinimunPageIdFromDirtyList\<close> finds a least page id.\<close>

theorem dirty_groups_ok:
  fixes dev :: "'f device"
  assumes inv: "buf_inv dev xs cs D" and s: "s < nat (dirty_groups dev)" and x: "x \<in> set xs"
  shows "((\<forall>i < nat (dirty_groups dev). x \<notin> set (D i) \<and>
             (\<forall>y \<in> set (D i). buf_obj (bufs dev y) = buf_obj (bufs dev x) \<longleftrightarrow> i = s)) \<longrightarrow>
            buf_inv (LinkToDirtyList s x dev) xs cs (D(s := x # D s))) \<and>
         (x \<in> set (D s) \<longrightarrow> (\<exists>d. BreakFromDirty x dev = (U_SUCC, d) \<and>
            buf_inv (upd_buf x (\<lambda>b. b\<lparr>b_mark := UFFS_BUF_VALID\<rparr>) d) xs cs (D(s := remove1 x (D s))))) \<and>
         CheckDirtyList (dg_dirty (dirtyGroup dev ! s)) dev = Some U_SUCC \<and>
         (D s \<noteq> [] \<longrightarrow> (\<exists>m \<in> set (D s). FindMinimunPageIdFromDirtyList (dg_dirty (dirtyGroup dev ! s)) dev = Some (Some m) \<and>
            (\<forall>y \<in> set (D s). b_page_id (bufs dev m) \<le> b_page_id (bufs dev y))))"
proof (intro conjI impI)
  have p: "pages_inv dev xs cs" and di: "dirty_inv dev (set xs) D" using inv by (simp_all add: buf_inv_def)
  show "CheckDirtyList (dg_dirty (dirtyGroup dev ! s)) dev = Some U_SUCC" by (rule CheckDirtyList_ok[OF di s])
  show "\<exists>m \<in> set (D s). FindMinimunPageIdFromDirtyList (dg_dirty (dirtyGroup dev ! s)) dev = Some (Some m) \<and>
      (\<forall>y \<in> set (D s). b_page_id (bufs dev m) \<le> b_page_id (bufs dev y))" if "D s \<noteq> []"
    using FindMinimun_ok[OF di s that] by blast
  show "buf_inv (LinkToDirtyList s x dev) xs cs (D(s := x # D s))"
    if a: "\<forall>i < nat (dirty_groups dev). x \<notin> set (D i) \<and> (\<forall>y \<in> set (D i). buf_obj (bufs dev y) = buf_obj (bufs dev x) \<longleftrightarrow> i = s)"
  proof -
    have nd: "x \<notin> set (D i)" "y \<in> set (D i) \<Longrightarrow> buf_obj (bufs dev y) = buf_obj (bufs dev x) \<longleftrightarrow> i = s"
      if "i < nat (dirty_groups dev)" for i y using a that by blast+
    note l = LinkToDirtyList_ok[OF di s x nd]
    show ?thesis unfolding buf_inv_def
      using l(1) p pages_inv_undirty[OF l(2,4,5,6) buf_frame_fields(1)[OF l(3)]] by simp
  qed
  show "\<exists>d. BreakFromDirty x dev = (U_SUCC, d) \<and>
      buf_inv (upd_buf x (\<lambda>b. b\<lparr>b_mark := UFFS_BUF_VALID\<rparr>) d) xs cs (D(s := remove1 x (D s)))" if xD: "x \<in> set (D s)"
  proof -
    obtain d where d: "BreakFromDirty x dev = (U_SUCC, d)" "dirty_inv d (set xs - {x}) (D(s := remove1 x (D s)))"
      "\<And>y. undirty (bufs d y) = undirty (bufs dev y)" "buf_frame dev d"
      "buf_head d = buf_head dev" "buf_tail d = buf_tail dev" "buf_clone d = buf_clone dev"
      by (rule BreakFromDirty_ok[OF di s xD]) blast
    let ?d = "upd_buf x (\<lambda>b. b\<lparr>b_mark := UFFS_BUF_VALID\<rparr>) d"
    have "dirty_inv ?d (set xs - {x}) (D(s := remove1 x (D s)))" by (rule dirty_inv_outside[OF d(2)]) simp
    then have "dirty_inv ?d (set xs) (D(s := remove1 x (D s)))" by (rule dirty_inv_insert) (simp add: buf_marks)
    moreover have "pages_inv d xs cs"
      using p pages_inv_undirty[OF d(3,5,6,7) buf_frame_fields(1)[OF d(4)]] by simp
    then have "pages_inv ?d xs cs" by (subst pages_inv_upd) (simp_all add: list_view_def)
    ultimately show ?thesis using d(1) by (auto simp: buf_inv_def)
  qed
qed

subsection \<open>Initialisation\<close>

lemma take_clones_ok:
  "pages_inv dev xs cs \<Longrightarrow> k \<le> length xs \<Longrightarrow>
     \<exists>d. take_clones k dev = Some d \<and> pages_inv d (drop k xs) (rev (take k xs) @ cs) \<and>
       (\<forall>y. unlinked (bufs d y) = unlinked (bufs dev y)) \<and> dirtyGroup d = dirtyGroup dev \<and> buf_frame dev d"
proof (induction k arbitrary: dev xs cs)
  case (Suc k)
  then obtain x ys where xs: "xs = x # ys" by (cases xs) auto
  have dl: "dll (buf_nx dev) (buf_pv dev) (buf_head dev) (buf_tail dev) ([] @ x # ys)"
    using Suc.prems(1) xs by (simp add: pages_inv_def)
  have h: "buf_head dev = Some x" using dll_head[OF dl] by simp
  note b = Break_list[OF dl]
  let ?b = "BreakFromBufList x dev"
  have xn: "x \<notin> set ys" "x \<notin> set cs" using dll_distinct[OF dl] Suc.prems(1) xs by (auto simp: pages_inv_def)
  have fb: "buf_frame dev ?b" using bufm_unlink_frame[of dev x] by (simp add: BreakFromBufList_eq)
  have "bufs ?b y = bufs dev y" if "y \<in> set cs" for y
    using b(5)[of y] Suc.prems(1) xs that by (auto simp: pages_inv_def)
  then have "chain (buf_nx ?b) (buf_clone ?b) cs = chain (buf_nx dev) (buf_clone ?b) cs" by (intro chain_cong) simp
  moreover have pg: "length (b_page (bufs ?b y)) = length (b_page (bufs dev y))" for y using unlinked_views[OF b(2)[of y]] by simp
  ultimately have "pages_inv ?b ys cs"
    using Suc.prems(1) b(1,3) xs buf_frame_fields(1)[OF fb] by (auto simp: pages_inv_def)
  moreover have "length (b_page (bufs ?b x)) = unat (pg_size ?b)"
    using Suc.prems(1) xs pg[of x] buf_frame_fields(1)[OF fb] by (simp add: pages_inv_def)
  ultimately have i: "pages_inv (InsertToCloneBufList x ?b) ys (x # cs)" using xn by (intro InsertToClone_inv)
  have u: "unlinked (bufs (InsertToCloneBufList x ?b) y) = unlinked (bufs dev y)" for y
    using b(2)[of y] b(2)[of x] by (simp add: InsertToCloneBufList_def)
  have fi: "buf_frame dev (InsertToCloneBufList x ?b)" using fb by (simp add: InsertToCloneBufList_def)
  have gi: "dirtyGroup (InsertToCloneBufList x ?b) = dirtyGroup dev" using b(4) by (simp add: InsertToCloneBufList_def)
  obtain d where "take_clones k (InsertToCloneBufList x ?b) = Some d" "pages_inv d (drop k ys) (rev (take k ys) @ x # cs)"
    "\<forall>y. unlinked (bufs d y) = unlinked (bufs (InsertToCloneBufList x ?b) y)"
    "dirtyGroup d = dirtyGroup (InsertToCloneBufList x ?b)" "buf_frame (InsertToCloneBufList x ?b) d"
    using Suc.IH[OF i] Suc.prems(2) xs by auto
  then show ?case using h u gi buf_frame_trans[OF fi] xs by auto
qed simp

lemma fold_init_buf: "fold (\<lambda>i nodes. nodes(i := init_buf sz n i)) [0..<m] g j = (if j < m then init_buf sz n j else g j)"
  by (induction m) auto

lemma fold_upd_dg:
  fixes dev :: "'f device"
  shows "fold (\<lambda>s. upd_dg s f) [0..<m] dev = dev\<lparr>dirtyGroup := map f (take m (dirtyGroup dev)) @ drop m (dirtyGroup dev)\<rparr>"
proof (induction m)
  case (Suc m)
  have e: "fold (\<lambda>s. upd_dg s f) [0..<Suc m] dev =
      upd_dg m f (dev\<lparr>dirtyGroup := map f (take m (dirtyGroup dev)) @ drop m (dirtyGroup dev)\<rparr>)"
    using Suc by simp
  show ?case
  proof (cases "m < length (dirtyGroup dev)")
    case True
    then show ?thesis
      unfolding e by (simp add: upd_dg_def nth_append take_Suc_conv_app_nth list_update_append Cons_nth_drop_Suc[symmetric] min_def)
  next
    case False
    then have "(map f (dirtyGroup dev))[m := z] = map f (dirtyGroup dev)" for z by (intro list_update_beyond) simp
    then show ?thesis unfolding e using False by (simp add: upd_dg_def)
  qed
qed simp

lemma BufInit_run:
  fixes dev :: "'f device"
  assumes "\<not> buf_pool dev" "2 \<le> n" "nat (dirty_groups dev) \<le> length (dirtyGroup dev)"
    "(SIZEOF_BUF + uint (page_data_size (attr dev))) * int n \<le> pagebuf_pool_size dev"
  shows "\<exists>dev'. uffs_BufInit (int n) m dev = Some (U_SUCC, dev') \<and> buf_inv dev' [2..<n] [1, 0] (\<lambda>_. []) \<and>
    (\<forall>x < n. b_mark (bufs dev' x) = UFFS_BUF_EMPTY \<and> b_ref_count (bufs dev' x) = 0) \<and>
    dirty_buf_max dev' = min m (int (ppb dev)) \<and> pg_size dev' = page_data_size (attr dev) \<and>
    pg_data_size dev' = pg_size dev' - 4 \<and> dirty_groups dev' = dirty_groups dev \<and>
    buf_frame (dev\<lparr>pg_size := page_data_size (attr dev), header_size := 4, pg_data_size := page_data_size (attr dev) - 4,
      buf_pool := True, buf_max := int n, dirty_buf_max := min m (int (ppb dev))\<rparr>) dev'"
proof -
  let ?sz = "(SIZEOF_BUF + uint (page_data_size (attr dev))) * int n"
  have "0 < ?sz" using assms(2) by (simp add: SIZEOF_BUF_def add_pos_nonneg)
  then have nz: "pagebuf_pool_size dev \<noteq> 0" using assms(4) by linarith
  define dz :: "'f device" where "dz = dev\<lparr>pg_size := page_data_size (attr dev), header_size := 4,
    pg_data_size := page_data_size (attr dev) - 4, buf_pool := True,
    bufs := fold (\<lambda>i nodes. nodes(i := init_buf (unat (page_data_size (attr dev))) n i)) [0..<n] (bufs dev),
    buf_head := Some 0, buf_tail := Some (n - 1), buf_max := int n, dirty_buf_max := min m (int (ppb dev)),
    dirtyGroup := map (\<lambda>g. g\<lparr>dg_dirty := None, dg_count := 0\<rparr>) (take (nat (dirty_groups dev)) (dirtyGroup dev))
                  @ drop (nat (dirty_groups dev)) (dirtyGroup dev), buf_clone := None\<rparr>"
  have run: "uffs_BufInit (int n) m dev = map_option (Pair U_SUCC) (take_clones CLONE_BUFFERS_THRESHOLD dz)"
    using assms nz unfolding uffs_BufInit_def fold_upd_dg
    by (simp add: Let_def SIZEOF_MINIHEADER_def dz_def min_def ppb_def)
  have nodes: "bufs dz x = init_buf (unat (page_data_size (attr dev))) n x" if "x < n" for x
    using that by (simp add: dz_def fold_init_buf)
  have "chain (buf_nx dz) (Some 0) [0..<n]"
    using assms(2) nodes by (intro chain_upt) (simp_all add: init_buf_def)
  moreover have "chain (buf_pv dz) (Some (n - 1)) (rev [0..<n])"
    using assms(2) nodes by (intro chain_rev_upt) (simp_all add: init_buf_def)
  moreover have "buf_head dz = Some 0" "buf_tail dz = Some (n - 1)" "buf_clone dz = None"
    "pg_size dz = page_data_size (attr dev)" by (simp_all add: dz_def)
  ultimately have pz: "pages_inv dz [0..<n] []"
    using nodes by (auto simp: pages_inv_def dll_def init_buf_def)
  obtain d where d: "take_clones CLONE_BUFFERS_THRESHOLD dz = Some d" "pages_inv d (drop 2 [0..<n]) (rev (take 2 [0..<n]) @ [])"
    "\<forall>y. unlinked (bufs d y) = unlinked (bufs dz y)" "dirtyGroup d = dirtyGroup dz" "buf_frame dz d"
    using take_clones_ok[OF pz, of 2] assms(2) by (auto simp: CLONE_BUFFERS_THRESHOLD_def)
  have tk: "take 2 [0..<n] = [0, 1]" "drop 2 [0..<n] = [2..<n]"
    using assms(2) by (auto simp: take_upt drop_upt numeral_2_eq_2)
  have d2: "pages_inv d [2..<n] [1, 0]" using d(2) unfolding tk by simp
  have st: "b_mark (bufs d x) = UFFS_BUF_EMPTY \<and> b_ref_count (bufs d x) = 0" if "x < n" for x
    using unlinked_views[of "bufs d x" "bufs dz x"] d(3) nodes[OF that] by (simp add: init_buf_def)
  have fr: "dirty_groups d = dirty_groups dz" "pg_size d = pg_size dz" by (rule buf_frame_fields[OF d(5)])+
  have fm: "dirty_buf_max d = dirty_buf_max dz" "pg_data_size d = pg_data_size dz"
    using arg_cong[OF d(5)[unfolded buf_frame_def], of dirty_buf_max] arg_cong[OF d(5)[unfolded buf_frame_def], of pg_data_size]
    by simp_all
  have "dirty_inv d (set [2..<n]) (\<lambda>_. [])"
  proof -
    have "dirtyGroup dz ! s = (dirtyGroup dev ! s)\<lparr>dg_dirty := None, dg_count := 0\<rparr>" if "s < nat (dirty_groups dev)" for s
      using that assms(3) by (simp add: dz_def nth_append)
    moreover have "length (dirtyGroup dz) = length (dirtyGroup dev)" "dirty_groups dz = dirty_groups dev"
      using assms(3) by (simp_all add: dz_def)
    moreover have "UFFS_BUF_EMPTY \<noteq> UFFS_BUF_DIRTY" by (simp add: buf_marks)
    ultimately show ?thesis using st assms(3) by (simp add: dirty_inv_def d(4) fr(1) dll_def)
  qed
  moreover have "buf_frame (dev\<lparr>pg_size := page_data_size (attr dev), header_size := 4, pg_data_size := page_data_size (attr dev) - 4,
      buf_pool := True, buf_max := int n, dirty_buf_max := min m (int (ppb dev))\<rparr>) d"
    by (rule buf_frame_trans[OF _ d(5)]) (simp add: buf_frame_def dz_def)
  ultimately show ?thesis
    using run d(1) d2 st fr fm by (intro exI[of _ d] conjI) (simp_all add: buf_inv_def dz_def)
qed

text \<open>With enough memory for at least two buffers, \<open>uffs_BufInit\<close> returns success: two buffers are
  the free clones, the others are in the list in address order, all are empty and unreferenced,
  no group is dirty, the limit for dirty buffers does not exceed the pages of a block, and the
  page sizes are those of the flash.\<close>

theorem BufInit_ok:
  fixes dev :: "'f device"
  assumes "\<not> buf_pool dev" "2 \<le> n" "nat (dirty_groups dev) \<le> length (dirtyGroup dev)"
    "(SIZEOF_BUF + uint (page_data_size (attr dev))) * int n \<le> pagebuf_pool_size dev"
  shows "\<exists>dev'. uffs_BufInit (int n) m dev = Some (U_SUCC, dev') \<and> buf_inv dev' [2..<n] [1, 0] (\<lambda>_. []) \<and>
    (\<forall>x < n. b_mark (bufs dev' x) = UFFS_BUF_EMPTY \<and> b_ref_count (bufs dev' x) = 0) \<and>
    dirty_buf_max dev' = min m (int (ppb dev)) \<and> pg_size dev' = page_data_size (attr dev) \<and>
    pg_data_size dev' = pg_size dev' - 4"
  using BufInit_run[OF assms] by blast
section \<open>On the sample device\<close>

definition sample_bufs :: "femu device" where
  "sample_bufs = snd (the (uffs_BufInit (int 40) 32 sample_dev))"

lemma sample_bufs_ok:
  "buf_inv sample_bufs [2..<40] [1, 0] (\<lambda>_. [])" "dirty_groups sample_bufs = 3"
  "x < 40 \<Longrightarrow> b_mark (bufs sample_bufs x) = UFFS_BUF_EMPTY \<and> b_ref_count (bufs sample_bufs x) = 0"
proof -
  have "\<not> buf_pool sample_dev" "nat (dirty_groups sample_dev) \<le> length (dirtyGroup sample_dev)"
    "(SIZEOF_BUF + uint (page_data_size (attr sample_dev))) * int 40 \<le> pagebuf_pool_size sample_dev"
    by (simp_all add: sample_dev_def sample_attr_def InitSpareLayout_def attr512_def Let_def SIZEOF_BUF_def)
  from BufInit_run[OF this(1) _ this(2,3), of 32] obtain d where d: "uffs_BufInit (int 40) 32 sample_dev = Some (U_SUCC, d)"
    "buf_inv d [2..<40] [1, 0] (\<lambda>_. [])" "\<forall>x < 40. b_mark (bufs d x) = UFFS_BUF_EMPTY \<and> b_ref_count (bufs d x) = 0"
    "dirty_groups d = dirty_groups sample_dev" by auto
  then have e: "sample_bufs = d" by (simp only: sample_bufs_def option.sel snd_conv)
  show "buf_inv sample_bufs [2..<40] [1, 0] (\<lambda>_. [])" "dirty_groups sample_bufs = 3"
    "x < 40 \<Longrightarrow> b_mark (bufs sample_bufs x) = UFFS_BUF_EMPTY \<and> b_ref_count (bufs sample_bufs x) = 0"
    using d by (simp_all add: e) (simp add: sample_dev_def)
qed

theorem BufGet_mru_witness:
  "\<exists>r dev'. uffs_BufGet 3 4 0 sample_bufs = Some (r, dev') \<and> buf_frame sample_bufs dev'"
  using BufGet_mru[OF sample_bufs_ok(1), of 3 4 0] by blast

theorem BufClone_detached_witness:
  "\<exists>dev'. uffs_BufClone (Some 7) sample_bufs = (Some 1, dev') \<and> buf_inv dev' [2..<40] [0] (\<lambda>_. [])"
  using BufClone_detached[OF sample_bufs_ok(1), of 7] by auto

theorem dirty_groups_ok_witness:
  "buf_inv (LinkToDirtyList 1 5 sample_bufs) [2..<40] [1, 0] ((\<lambda>_. [])(1 := [5])) \<and>
   CheckDirtyList (dg_dirty (dirtyGroup sample_bufs ! 1)) sample_bufs = Some U_SUCC"
  using dirty_groups_ok[OF sample_bufs_ok(1), of 1 5] by (simp add: sample_bufs_ok(2))

theorem BufInit_ok_witness:
  "\<exists>dev'. uffs_BufInit (int 40) 32 sample_dev = Some (U_SUCC, dev') \<and> buf_inv dev' [2..<40] [1, 0] (\<lambda>_. [])"
proof -
  have "\<not> buf_pool sample_dev" "nat (dirty_groups sample_dev) \<le> length (dirtyGroup sample_dev)"
    "(SIZEOF_BUF + uint (page_data_size (attr sample_dev))) * int 40 \<le> pagebuf_pool_size sample_dev"
    by (simp_all add: sample_dev_def sample_attr_def InitSpareLayout_def attr512_def Let_def SIZEOF_BUF_def)
  from BufInit_ok[OF this(1) _ this(2,3), of 32] show ?thesis by auto
qed

end
