(* ===== verification/Page_Scan.thy ===== *)
theory Page_Scan
  imports Block_Cache Page_Buf
begin

text \<open>
  The scans over the pages of a block in \<open>uffs_public.c\<close>. A block is a log: a page that is
  rewritten gets a new copy behind the old one, with the same page id. The scans read the page
  tags through the block-info cache, loading those that are not cached, and find the first and
  the best (newest) copy of a page, the free pages, the time stamp and the data length.

  The lemmas relate the scans to the tags of a loaded block: the newest copy is found, the
  free pages are the erased ones behind the last good page, and the data length is the sum of
  the newest copies.
\<close>

section \<open>The code\<close>

text \<open>The result of \<open>uffs_BlockInfoLoad\<close> is ignored by most scans.\<close>

definition load :: "nat \<Rightarrow> int \<Rightarrow> 'f device \<Rightarrow> 'f device option" where
  "load bc page dev = map_option snd (uffs_BlockInfoLoad bc page dev)"

definition tag_page_id :: "Tags \<Rightarrow> nat" where
  "tag_page_id t = unat (ts_page_id (tag_s t))"

definition tag_data_len :: "Tags \<Rightarrow> nat" where
  "tag_data_len t = unat (ts_data_len (tag_s t))"

definition tag_obj :: "Tags \<Rightarrow> nat \<times> nat" where
  "tag_obj t = (unat (ts_parent (tag_s t)), unat (ts_serial (tag_s t)))"

definition last_page :: "'f device \<Rightarrow> u16" where
  "last_page dev = pages_per_block (attr dev) - 1"

text \<open>The search for a newer copy from the end of the block; \<open>None\<close> for a page behind the block.\<close>

fun best_down :: "nat \<Rightarrow> nat \<Rightarrow> nat \<Rightarrow> 'f device \<Rightarrow> (nat \<times> 'f device) option" where
  "best_down bc page i dev =
     (if i \<le> page then Some (i, dev)
      else do {
        dev \<leftarrow> load bc (int i) dev;
        let tag = GET_TAG dev bc i;
        (if TAG_IS_GOOD tag \<and> tag_page_id tag = tag_page_id (GET_TAG dev bc page) \<and>
            tag_obj tag = tag_obj (GET_TAG dev bc page)
         then Some (i, dev) else best_down bc page (i - 1) dev)
      })"

declare best_down.simps [simp del]

definition uffs_FindBestPageInBlock :: "nat \<Rightarrow> u16 \<Rightarrow> 'f device \<Rightarrow> (u16 \<times> 'f device) option" where
  "uffs_FindBestPageInBlock bc page dev =
     (if page = UFFS_INVALID_PAGE then Some (page, dev)
      else do {
        dev \<leftarrow> load bc (uint page) dev;
        (if unat page \<ge> ppb dev then None
         else if \<not> TAG_IS_GOOD (GET_TAG dev bc (unat page)) then Some (UFFS_INVALID_PAGE, dev)
         else if page = last_page dev then Some (page, dev)
         else do {
           dev \<leftarrow> load bc (uint (last_page dev)) dev;
           let tag = GET_TAG dev bc (unat (last_page dev));
           (if TAG_IS_GOOD tag \<and> tag_page_id tag = unat (last_page dev) then Some (page, dev)
            else do {
              (i, dev) \<leftarrow> best_down bc (unat page) (unat (last_page dev)) dev;
              Some (word_of_nat i, dev)
            })
         })
      })"

fun find_page_id :: "nat \<Rightarrow> nat \<Rightarrow> nat list \<Rightarrow> 'f device \<Rightarrow> (u16 \<times> 'f device) option" where
  "find_page_id bc page_id [] dev = Some (UFFS_INVALID_PAGE, dev)"
| "find_page_id bc page_id (page # ks) dev = do {
     dev \<leftarrow> load bc (int page) dev;
     let tag = GET_TAG dev bc page;
     (if TAG_IS_GOOD tag \<and> tag_page_id tag = page_id then Some (word_of_nat page, dev)
      else find_page_id bc page_id ks dev)
   }"

definition uffs_FindPageInBlockWithPageId :: "nat \<Rightarrow> u16 \<Rightarrow> 'f device \<Rightarrow> (u16 \<times> 'f device) option" where
  "uffs_FindPageInBlockWithPageId bc page_id dev = find_page_id bc (unat page_id) [unat page_id..<ppb dev] dev"

definition uffs_IsBlockPagesFullUsed :: "nat \<Rightarrow> 'f device \<Rightarrow> (bool \<times> 'f device) option" where
  "uffs_IsBlockPagesFullUsed bc dev = do {
     dev \<leftarrow> load bc (int (ppb dev) - 1) dev;
     Some (TAG_IS_GOOD (GET_TAG dev bc (ppb dev - 1)), dev)
   }"

definition uffs_IsThisBlockUsed :: "nat \<Rightarrow> 'f device \<Rightarrow> (bool \<times> 'f device) option" where
  "uffs_IsThisBlockUsed bc dev = do {
     dev \<leftarrow> load bc 0 dev;
     Some (TAG_IS_DIRTY (GET_TAG dev bc 0), dev)
   }"

definition uffs_GetBlockTimeStamp :: "nat \<Rightarrow> 'f device \<Rightarrow> (int \<times> 'f device) option" where
  "uffs_GetBlockTimeStamp bc dev = do {
     (used, dev) \<leftarrow> uffs_IsThisBlockUsed bc dev;
     (if \<not> used then Some (uffs_GetFirstBlockTimeStamp, dev)
      else do {
        dev \<leftarrow> load bc 0 dev;
        Some (uint (ts_block_ts (tag_s (GET_TAG dev bc 0))), dev)
      })
   }"

definition tag_erased :: "Tags \<Rightarrow> bool" where
  "tag_erased t \<longleftrightarrow> \<not> TAG_IS_SEALED t \<and> \<not> TAG_IS_DIRTY t \<and> \<not> TAG_IS_VALID t"

definition uffs_IsPageErased :: "nat \<Rightarrow> nat \<Rightarrow> 'f device \<Rightarrow> (bool \<times> 'f device) option" where
  "uffs_IsPageErased bc page dev = do {
     (ret, dev) \<leftarrow> uffs_BlockInfoLoad bc (int page) dev;
     Some (ret = U_SUCC \<and> tag_erased (GET_TAG dev bc page), dev)
   }"

fun find_free :: "nat \<Rightarrow> nat list \<Rightarrow> 'f device \<Rightarrow> (u16 \<times> 'f device) option" where
  "find_free bc [] dev = Some (UFFS_INVALID_PAGE, dev)"
| "find_free bc (i # ks) dev = do {
     dev \<leftarrow> load bc (int i) dev;
     (e, dev) \<leftarrow> uffs_IsPageErased bc i dev;
     (if e then Some (word_of_nat i, dev) else find_free bc ks dev)
   }"

definition uffs_FindFirstFreePage :: "nat \<Rightarrow> u16 \<Rightarrow> 'f device \<Rightarrow> (u16 \<times> 'f device) option" where
  "uffs_FindFirstFreePage bc pageFrom dev = find_free bc [unat pageFrom..<ppb dev] dev"

fun free_count :: "nat \<Rightarrow> nat list \<Rightarrow> int \<Rightarrow> 'f device \<Rightarrow> (int \<times> 'f device) option" where
  "free_count bc [] count dev = Some (count, dev)"
| "free_count bc (i # ks) count dev = do {
     dev \<leftarrow> load bc (int i) dev;
     (e, dev) \<leftarrow> uffs_IsPageErased bc i dev;
     (if e then free_count bc ks (count + 1) dev
      else if TAG_IS_GOOD (GET_TAG dev bc i) then Some (count, dev)
      else free_count bc ks count dev)
   }"

definition uffs_GetFreePagesCount :: "nat \<Rightarrow> 'f device \<Rightarrow> (int \<times> 'f device) option" where
  "uffs_GetFreePagesCount bc dev = free_count bc (rev [0..<ppb dev]) 0 dev"

text \<open>The data length of a block: \<open>page_id\<close> is the id looked for next.\<close>

fun data_len_loop :: "nat \<Rightarrow> nat list \<Rightarrow> nat \<Rightarrow> int \<Rightarrow> 'f device \<Rightarrow> (int \<times> 'f device) option" where
  "data_len_loop bc [] page_id sz dev = Some (sz, dev)"
| "data_len_loop bc (i # ks) page_id sz dev =
     (let tag = GET_TAG dev bc i
      in if TAG_IS_GOOD tag \<and> page_id = tag_page_id tag
         then do {
           (page, dev) \<leftarrow> uffs_FindBestPageInBlock bc (word_of_nat i) dev;
           (if page \<noteq> UFFS_INVALID_PAGE
            then data_len_loop bc ks (page_id + 1) (sz + int (tag_data_len (GET_TAG dev bc (unat page)))) dev
            else data_len_loop bc ks page_id sz dev)
         }
         else data_len_loop bc ks page_id sz dev)"

definition uffs_GetBlockFileDataLength :: "nat \<Rightarrow> u8 \<Rightarrow> 'f device \<Rightarrow> (int \<times> 'f device) option" where
  "uffs_GetBlockFileDataLength bc ty dev = do {
     dev \<leftarrow> load bc (uint (last_page dev)) dev;
     let tag = GET_TAG dev bc (unat (last_page dev));
     let full = (TAG_IS_GOOD tag \<and> tag_page_id tag = unat (last_page dev));
     (if full \<and> ty = UFFS_TYPE_FILE
      then Some (uint (pg_data_size dev) * (int (ppb dev) - 2) + int (tag_data_len tag), dev)
      else if full \<and> ty = UFFS_TYPE_DATA
      then Some (uint (pg_data_size dev) * (int (ppb dev) - 1) + int (tag_data_len tag), dev)
      else do {
        dev \<leftarrow> load bc UFFS_ALL_PAGES dev;
        (if TAG_IS_GOOD (GET_TAG dev bc 0)
         then let k = (if ucast (ts_type (tag_s (GET_TAG dev bc 0))) = UFFS_TYPE_FILE then 1 else 0)
              in data_len_loop bc [k..<ppb dev] k 0 dev
         else Some (0, dev))
      })
   }"

text \<open>The file information is the image of \<open>uffs_FileInfo\<close>, 152 bytes.\<close>

definition SIZEOF_FILEINFO :: nat where "SIZEOF_FILEINFO = 152"

definition uffs_CreateNewFile :: "u16 \<Rightarrow> u16 \<Rightarrow> nat \<Rightarrow> bytes \<Rightarrow> 'f device \<Rightarrow> (URET \<times> 'f device) option" where
  "uffs_CreateNewFile parent serial bc fi dev = do {
     dev \<leftarrow> load bc 0 dev;
     let dev = set_spare bc 0 (\<lambda>s. s\<lparr>sp_tag := (sp_tag s)\<lparr>tag_s := (tag_s (sp_tag s))
                 \<lparr>ts_parent := ucast parent, ts_serial := ucast serial, ts_data_len := word_of_nat SIZEOF_FILEINFO\<rparr>\<rparr>\<rparr>) dev;
     (buf, dev) \<leftarrow> uffs_BufGet parent serial 0 dev;
     (case buf of None \<Rightarrow> Some (U_FAIL, dev)
      | Some x \<Rightarrow>
          let dev = upd_buf x (\<lambda>b. b\<lparr>b_page := memcpy (b_page b) (unat (header_size dev)) (take SIZEOF_FILEINFO fi),
                                    b_data_len := word_of_nat SIZEOF_FILEINFO\<rparr>) dev
          in Some (uffs_BufPut (Some x) dev))
   }"

subsection \<open>Space of the partition\<close>

text \<open>Sizes in bytes are C integers; an overflow is undefined.\<close>

definition c_int :: "int \<Rightarrow> int option" where
  "c_int x = (if - (2 ^ 31) \<le> x \<and> x < 2 ^ 31 then Some x else None)"

definition blocks_bytes :: "int \<Rightarrow> 'f device \<Rightarrow> int option" where
  "blocks_bytes n dev = do {
     s \<leftarrow> c_int (n * uint (page_data_size (attr dev)));
     c_int (s * uint (pages_per_block (attr dev)))
   }"

definition uffs_GetDeviceUsed :: "'f device \<Rightarrow> int option" where
  "uffs_GetDeviceUsed dev =
     blocks_bytes (uint (par_end dev) - uint (par_start dev) + 1 - bad_count (tree dev) - erased_count (tree dev)) dev"

definition uffs_GetDeviceFree :: "'f device \<Rightarrow> int option" where
  "uffs_GetDeviceFree dev = blocks_bytes (erased_count (tree dev)) dev"

definition uffs_GetDeviceTotal :: "'f device \<Rightarrow> int option" where
  "uffs_GetDeviceTotal dev = blocks_bytes (uint (par_end dev) - uint (par_start dev) + 1) dev"


section \<open>Loaded blocks\<close>

text \<open>All tags of the block are cached: the scans do not touch the flash.\<close>

definition loaded :: "'f device \<Rightarrow> nat \<Rightarrow> bool" where
  "loaded dev bc \<longleftrightarrow> 0 < ppb dev \<and> ppb dev < 65534 \<and> (\<forall>i < ppb dev. \<not> tag_expired dev bc i)"

lemma last_page_ppb: "0 < ppb dev \<Longrightarrow> unat (last_page dev) = ppb dev - 1"
  unfolding last_page_def ppb_def by (metis less_irrefl unat_minus_one unsigned_0)

lemma INVALID_unat: "unat UFFS_INVALID_PAGE = 65534"
  by (simp add: UFFS_INVALID_PAGE_def)

lemma word_page: "i < ppb dev \<Longrightarrow> ppb dev < 65534 \<Longrightarrow> unat (word_of_nat i :: u16) = i \<and> word_of_nat i \<noteq> UFFS_INVALID_PAGE"
proof -
  assume "i < ppb dev" "ppb dev < 65534"
  then have i: "i < 65534" by simp
  then have u: "unat (word_of_nat i :: u16) = i" by (intro unat_of_nat_u16) simp
  moreover have "word_of_nat i \<noteq> UFFS_INVALID_PAGE"
  proof
    assume "word_of_nat i = UFFS_INVALID_PAGE"
    then have "i = 65534" using u by (simp only: INVALID_unat)
    with i show False by simp
  qed
  ultimately show ?thesis by blast
qed

lemma load_loaded [simp]:
  "loaded dev bc \<Longrightarrow> i < ppb dev \<Longrightarrow> load bc (int i) dev = Some dev"
  by (auto simp: loaded_def load_def uffs_BlockInfoLoad_def UFFS_ALL_PAGES_def)

lemma load_pages_loaded:
  "\<forall>i \<in> set ks. \<not> tag_expired dev bc i \<Longrightarrow> load_pages bc ks nf dev = Some (nf, dev)"
  by (induction ks) auto

lemma load_all_loaded [simp]: "loaded dev bc \<Longrightarrow> load bc UFFS_ALL_PAGES dev = Some dev"
  by (simp add: loaded_def load_def uffs_BlockInfoLoad_def load_pages_loaded)

lemma load_uint [simp]: "loaded dev bc \<Longrightarrow> unat (p :: u16) < ppb dev \<Longrightarrow> load bc (uint p) dev = Some dev"
  using load_loaded[of dev bc "unat p"] by simp

lemma IsPageErased_loaded [simp]:
  "loaded dev bc \<Longrightarrow> i < ppb dev \<Longrightarrow> uffs_IsPageErased bc i dev = Some (tag_erased (GET_TAG dev bc i), dev)"
  by (auto simp: loaded_def uffs_IsPageErased_def uffs_BlockInfoLoad_def UFFS_ALL_PAGES_def)

lemma find_page_id_loaded:
  "loaded dev bc \<Longrightarrow> \<forall>i \<in> set ks. i < ppb dev \<Longrightarrow> find_page_id bc k ks dev =
     Some (case List.find (\<lambda>i. TAG_IS_GOOD (GET_TAG dev bc i) \<and> tag_page_id (GET_TAG dev bc i) = k) ks of
             None \<Rightarrow> UFFS_INVALID_PAGE | Some i \<Rightarrow> word_of_nat i, dev)"
  by (induction ks) (auto simp: Let_def)

lemma find_free_loaded:
  "loaded dev bc \<Longrightarrow> \<forall>i \<in> set ks. i < ppb dev \<Longrightarrow> find_free bc ks dev =
     Some (case List.find (\<lambda>i. tag_erased (GET_TAG dev bc i)) ks of None \<Rightarrow> UFFS_INVALID_PAGE | Some i \<Rightarrow> word_of_nat i, dev)"
  by (induction ks) auto

lemma best_down_loaded:
  assumes "loaded dev bc" "i < ppb dev" "page \<le> i"
  shows "best_down bc page i dev = Some
    (case List.find (\<lambda>i. TAG_IS_GOOD (GET_TAG dev bc i) \<and> tag_page_id (GET_TAG dev bc i) = tag_page_id (GET_TAG dev bc page) \<and>
        tag_obj (GET_TAG dev bc i) = tag_obj (GET_TAG dev bc page)) (rev [Suc page..<Suc i]) of
       None \<Rightarrow> page | Some j \<Rightarrow> j, dev)"
  using assms(2,3)
proof (induction "i - page" arbitrary: i)
  case 0
  then show ?case by (simp add: best_down.simps)
next
  case (Suc d)
  then have "page < i" "d = i - 1 - page" "i - 1 < ppb dev" "page \<le> i - 1" by auto
  note IH = Suc.hyps(1)[OF this(2-4)]
  have "rev [Suc page..<Suc i] = i # rev [Suc page..<Suc (i - 1)]" using \<open>page < i\<close> by (cases i) auto
  then show ?case
    using \<open>page < i\<close> Suc.prems(1) assms(1) IH by (subst best_down.simps) (simp add: Let_def)
qed

text \<open>A tag of ones is that of an erased page.\<close>

lemma ones_tag: "tag_erased (t\<lparr>tag_s := bytes_ts (replicate 8 0xFF), seal_byte := 0xFF\<rparr>)"
proof -
  let ?ones = "\<lparr>ts_dirty = 1, ts_valid = 1, ts_type = 3, ts_block_ts = 3, ts_data_len = 0xFFF, ts_serial = 0x3FFF, ts_parent = 0x3FF,
    ts_page_id = 0x3F, ts_reserved = 0xF, ts_tag_ecc = 0xFFF\<rparr>"
  have "ts_word0 ?ones = 0xFFFFFFFF" "ts_word1 ?ones = 0xFFFFFFFF" by (simp_all add: ts_word0_def ts_word1_def)
  then have "ts_bytes ?ones = [0xFF, 0xFF, 0xFF, 0xFF, 0xFF, 0xFF, 0xFF, 0xFF]" by (simp add: ts_bytes_def le_bytes_def)
  also have "\<dots> = replicate 8 0xFF"
  proof -
    have "[x, x, x, x, x, x, x, x] = replicate 8 x" for x :: u8 by (simp add: numeral_eq_Suc)
    then show ?thesis .
  qed
  finally have "ts_bytes ?ones = replicate 8 0xFF" .
  then have "bytes_ts (replicate 8 0xFF) = ?ones" by (metis bytes_ts_bytes)
  then show ?thesis
    by (simp add: tag_erased_def TAG_IS_SEALED_def TAG_IS_DIRTY_def TAG_IS_VALID_def ts_word0_def)
qed

section \<open>Blocks as logs\<close>

text \<open>What the writers keep of the pages \<open>T 0 \<dots> T (n - 1)\<close>: the copies of page id \<open>k\<close> come behind
  a copy of every smaller id, and all good pages belong to one object.\<close>

definition block_log :: "(nat \<Rightarrow> Tags) \<Rightarrow> nat \<Rightarrow> bool" where
  "block_log T n \<longleftrightarrow>
     (\<forall>i < n. TAG_IS_GOOD (T i) \<longrightarrow> tag_page_id (T i) \<le> i \<and>
        (\<forall>k \<le> tag_page_id (T i). \<exists>j \<le> i. TAG_IS_GOOD (T j) \<and> tag_page_id (T j) = k)) \<and>
     (\<forall>i < n. \<forall>j < n. TAG_IS_GOOD (T i) \<longrightarrow> TAG_IS_GOOD (T j) \<longrightarrow> tag_obj (T i) = tag_obj (T j))"

text \<open>The newest copy.\<close>

definition newest :: "(nat \<Rightarrow> Tags) \<Rightarrow> nat \<Rightarrow> nat \<Rightarrow> nat option" where
  "newest T n k = List.find (\<lambda>i. TAG_IS_GOOD (T i) \<and> tag_page_id (T i) = k) (rev [0..<n])"

lemma block_logD:
  assumes "block_log T n" "i < n" "TAG_IS_GOOD (T i)"
  shows "tag_page_id (T i) \<le> i" "k \<le> tag_page_id (T i) \<Longrightarrow> \<exists>j \<le> i. TAG_IS_GOOD (T j) \<and> tag_page_id (T j) = k"
    "j < n \<Longrightarrow> TAG_IS_GOOD (T j) \<Longrightarrow> tag_obj (T i) = tag_obj (T j)"
  using assms unfolding block_log_def by blast+

text \<open>A block whose last page has the last id holds every page once.\<close>

lemma full_block:
  assumes log: "block_log T n" and n: "0 < n" and l: "TAG_IS_GOOD (T (n - 1))" "tag_page_id (T (n - 1)) = n - 1"
  shows "\<forall>i < n. TAG_IS_GOOD (T i)" "inj_on (\<lambda>i. tag_page_id (T i)) {..<n}"
proof -
  let ?G = "{i. i < n \<and> TAG_IS_GOOD (T i)}"
  have "{..<n} \<subseteq> (\<lambda>i. tag_page_id (T i)) ` ?G"
  proof
    fix k assume "k \<in> {..<n}"
    then have "k \<le> tag_page_id (T (n - 1))" using l(2) by auto
    then obtain j where "j \<le> n - 1" "TAG_IS_GOOD (T j)" "tag_page_id (T j) = k"
      using block_logD(2)[OF log _ l(1), of k] n by auto
    then show "k \<in> (\<lambda>i. tag_page_id (T i)) ` ?G" using n by (intro image_eqI[of _ _ j]) auto
  qed
  then have c: "n \<le> card ((\<lambda>i. tag_page_id (T i)) ` ?G)"
    using card_mono[of "(\<lambda>i. tag_page_id (T i)) ` ?G" "{..<n}"] by simp
  moreover have ci: "card ((\<lambda>i. tag_page_id (T i)) ` ?G) \<le> card ?G" by (rule card_image_le) simp
  moreover have sub: "?G \<subseteq> {..<n}" by auto
  then have "card ?G \<le> n" using card_mono[of "{..<n}" ?G] by simp
  ultimately have "card ?G = n" "card ((\<lambda>i. tag_page_id (T i)) ` ?G) = card ?G" by linarith+
  then have "?G = {..<n}" using card_subset_eq[OF _ sub] by simp
  then show "\<forall>i < n. TAG_IS_GOOD (T i)" by blast
  show "inj_on (\<lambda>i. tag_page_id (T i)) {..<n}"
    using eq_card_imp_inj_on[OF _ \<open>card ((\<lambda>i. tag_page_id (T i)) ` ?G) = card ?G\<close>] \<open>?G = {..<n}\<close> by simp
qed

lemma find_append: "List.find P (xs @ ys) = (case List.find P xs of None \<Rightarrow> List.find P ys | Some x \<Rightarrow> Some x)"
  by (induction xs) auto

lemma newest_iff:
  "newest T n k = Some i \<longleftrightarrow> i < n \<and> TAG_IS_GOOD (T i) \<and> tag_page_id (T i) = k \<and>
     (\<forall>j. i < j \<longrightarrow> j < n \<longrightarrow> \<not> (TAG_IS_GOOD (T j) \<and> tag_page_id (T j) = k))"
proof (induction n)
  case (Suc n)
  show ?case
  proof (cases "TAG_IS_GOOD (T n) \<and> tag_page_id (T n) = k")
    case True
    then have "newest T (Suc n) k = Some n" by (simp add: newest_def)
    then show ?thesis using True by (auto simp: less_Suc_eq)
  next
    case False
    then have "newest T (Suc n) k = newest T n k" unfolding newest_def by auto
    then show ?thesis using Suc False by (auto simp: less_Suc_eq)
  qed
qed (simp add: newest_def)

lemma newest_None: "newest T n k = None \<longleftrightarrow> (\<forall>i < n. \<not> (TAG_IS_GOOD (T i) \<and> tag_page_id (T i) = k))"
  by (auto simp: newest_def find_None_iff_set)

lemma FindBest_newest:
  assumes ld: "loaded dev bc" and log: "block_log (GET_TAG dev bc) (ppb dev)"
    and p: "p < ppb dev" "TAG_IS_GOOD (GET_TAG dev bc p)"
  obtains l where "newest (GET_TAG dev bc) (ppb dev) (tag_page_id (GET_TAG dev bc p)) = Some l" "l < ppb dev"
    "uffs_FindBestPageInBlock bc (word_of_nat p) dev = Some (word_of_nat l, dev)"
proof -
  let ?T = "GET_TAG dev bc" and ?n = "ppb dev"
  have n: "0 < ?n" "?n < 65534" using ld by (simp_all add: loaded_def)
  have up: "unat (word_of_nat p :: u16) = p" "word_of_nat p \<noteq> UFFS_INVALID_PAGE"
    using word_page[OF p(1) n(2)] by simp_all
  note ul = last_page_ppb[OF n(1)]
  let ?L = "TAG_IS_GOOD (?T (?n - 1)) \<and> tag_page_id (?T (?n - 1)) = ?n - 1"
  define l where "l = (if word_of_nat p = last_page dev \<or> ?L then p
     else case List.find (\<lambda>i. TAG_IS_GOOD (?T i) \<and> tag_page_id (?T i) = tag_page_id (?T p) \<and> tag_obj (?T i) = tag_obj (?T p))
            (rev [Suc p..<?n]) of None \<Rightarrow> p | Some j \<Rightarrow> j)"
  have bd: "best_down bc p (?n - 1) dev = Some
    (case List.find (\<lambda>i. TAG_IS_GOOD (?T i) \<and> tag_page_id (?T i) = tag_page_id (?T p) \<and> tag_obj (?T i) = tag_obj (?T p))
            (rev [Suc p..<?n]) of None \<Rightarrow> p | Some j \<Rightarrow> j, dev)"
    using best_down_loaded[OF ld, of "?n - 1" p] p(1) n(1) by simp
  have run: "uffs_FindBestPageInBlock bc (word_of_nat p) dev = Some (word_of_nat l, dev)"
    unfolding uffs_FindBestPageInBlock_def l_def using ld up p n ul bd by (simp add: Let_def)
  have "newest ?T ?n (tag_page_id (?T p)) = Some l"
  proof (cases "word_of_nat p = last_page dev \<or> ?L")
    case True
    then have l: "l = p" by (simp add: l_def)
    show ?thesis
    proof (cases ?L)
      case True
      have inj: "inj_on (\<lambda>i. tag_page_id (?T i)) {..<?n}" using full_block(2)[OF log n(1)] True by blast
      show ?thesis unfolding newest_iff l using p inj_onD[OF inj] by auto
    next
      case False
      with True have "word_of_nat p = last_page dev" by blast
      then have "unat (word_of_nat p :: u16) = unat (last_page dev)" by (rule arg_cong)
      then have "p = ?n - 1" by (simp only: up(1) ul)
      then show ?thesis unfolding newest_iff l using p by auto
    qed
  next
    case False
    let ?P = "\<lambda>i. TAG_IS_GOOD (?T i) \<and> tag_page_id (?T i) = tag_page_id (?T p) \<and> tag_obj (?T i) = tag_obj (?T p)"
    have obj: "?P i \<longleftrightarrow> TAG_IS_GOOD (?T i) \<and> tag_page_id (?T i) = tag_page_id (?T p)" if "i < ?n" for i
      using block_logD(3)[OF log that _ p] by blast
    have sp: "rev [0..<?n] = rev [Suc p..<?n] @ p # rev [0..<p]"
      using upt_add_eq_append[of 0 p "?n - p"] upt_conv_Cons[OF p(1)] p(1) by simp
    have "newest ?T ?n (tag_page_id (?T p)) = List.find ?P (rev [0..<?n])"
      unfolding newest_def by (rule find_cong_set) (use obj in auto)
    also have "\<dots> = Some l"
      unfolding sp l_def using False p(2) by (auto simp: find_append split: option.split)
    finally show ?thesis .
  qed
  moreover from this have "l < ?n" by (simp add: newest_iff)
  ultimately show thesis using run by (rule that)
qed

lemma find_newest:
  fixes dev :: "'f device"
  assumes "loaded dev bc" "block_log (GET_TAG dev bc) (ppb dev)" "newest (GET_TAG dev bc) (ppb dev) (unat k) = Some l"
  obtains p where "uffs_FindPageInBlockWithPageId bc k dev = Some (p, dev)" "p \<noteq> UFFS_INVALID_PAGE"
    "uffs_FindBestPageInBlock bc p dev = Some (word_of_nat l, dev)"
proof -
  let ?T = "GET_TAG dev bc" and ?n = "ppb dev"
  let ?P = "\<lambda>i. TAG_IS_GOOD (?T i) \<and> tag_page_id (?T i) = unat k"
  have run: "uffs_FindPageInBlockWithPageId bc k dev = Some
      (case List.find ?P [unat k..<?n] of None \<Rightarrow> UFFS_INVALID_PAGE | Some i \<Rightarrow> word_of_nat i, dev)"
    unfolding uffs_FindPageInBlockWithPageId_def by (rule find_page_id_loaded[OF assms(1)]) simp
  have l: "l < ?n" "?P l" using assms(3) by (simp_all add: newest_iff)
  then have "l \<in> set [unat k..<?n]" using block_logD(1)[OF assms(2), of l] by simp
  then obtain i where f: "List.find ?P [unat k..<?n] = Some i" using l(2) by (fastforce simp: find_None_iff_set)
  then have i: "i < ?n" "?P i" using find_Some_in[OF f] by auto
  obtain l' where "newest ?T ?n (tag_page_id (?T i)) = Some l'"
    "uffs_FindBestPageInBlock bc (word_of_nat i) dev = Some (word_of_nat l', dev)"
    using FindBest_newest[OF assms(1,2) i(1)] i(2) by blast
  moreover have "ppb dev < 65534" using assms(1) by (simp add: loaded_def)
  ultimately show thesis
    using that[of "word_of_nat i"] run f word_page[OF i(1)] i(2) assms(3) by simp
qed

text \<open>C21. Reading the newest copy. In a loaded block that is a log, \<open>uffs_FindPageInBlockWithPageId\<close>
  reports that there is no such page exactly if no good page has the id; otherwise
  \<open>uffs_FindBestPageInBlock\<close> of the page it finds is the last copy written. Neither changes the
  device.\<close>

theorem FindBestPage_newest:
  fixes dev :: "'f device"
  assumes "loaded dev bc" "block_log (GET_TAG dev bc) (ppb dev)"
  shows "\<exists>p. uffs_FindPageInBlockWithPageId bc k dev = Some (p, dev) \<and>
    (case newest (GET_TAG dev bc) (ppb dev) (unat k) of
       None \<Rightarrow> p = UFFS_INVALID_PAGE
     | Some l \<Rightarrow> p \<noteq> UFFS_INVALID_PAGE \<and> uffs_FindBestPageInBlock bc p dev = Some (word_of_nat l, dev))"
proof (cases "newest (GET_TAG dev bc) (ppb dev) (unat k)")
  case None
  then have "List.find (\<lambda>i. TAG_IS_GOOD (GET_TAG dev bc i) \<and> tag_page_id (GET_TAG dev bc i) = unat k) [unat k..<ppb dev] = None"
    by (auto simp: newest_None find_None_iff_set)
  then show ?thesis
    using None find_page_id_loaded[OF assms(1), of "[unat k..<ppb dev]" "unat k"] by (simp add: uffs_FindPageInBlockWithPageId_def)
next
  case (Some l)
  then show ?thesis by (auto intro: find_newest[OF assms Some])
qed

section \<open>Free pages\<close>

lemma free_count_loaded:
  "loaded dev bc \<Longrightarrow> \<forall>i \<in> set ks. i < ppb dev \<Longrightarrow> free_count bc ks c dev =
     Some (c + int (length (filter (\<lambda>i. tag_erased (GET_TAG dev bc i)) (takeWhile (\<lambda>i. \<not> TAG_IS_GOOD (GET_TAG dev bc i)) ks))), dev)"
proof (induction ks arbitrary: c)
  case (Cons i ks)
  have "\<not> (tag_erased (GET_TAG dev bc i) \<and> TAG_IS_GOOD (GET_TAG dev bc i))" by (auto simp: tag_erased_def TAG_IS_GOOD_def)
  then show ?case using Cons by auto
qed simp

lemma takeWhile_rev_upt:
  "takeWhile (\<lambda>i. \<not> P i) (rev [0..<n]) = rev [(case List.find P (rev [0..<n]) of None \<Rightarrow> 0 | Some j \<Rightarrow> Suc j)..<n]"
proof (induction n)
  case (Suc n)
  show ?case
  proof (cases "P n")
    case False
    have "(case List.find P (rev [0..<n]) of None \<Rightarrow> 0 | Some j \<Rightarrow> Suc j) \<le> n"
      by (auto split: option.split dest: find_Some_in)
    then show ?thesis using Suc False by simp
  qed simp
qed simp

lemma found_last:
  "(\<forall>j < n. P j \<longrightarrow> j < i) \<longleftrightarrow> (case List.find P (rev [0..<n]) of None \<Rightarrow> 0 | Some j \<Rightarrow> Suc j) \<le> i"
proof (induction n)
  case (Suc n)
  show ?case
  proof (cases "P n")
    case True
    then show ?thesis by (auto simp: less_Suc_eq)
  next
    case False
    then have "(\<forall>j < Suc n. P j \<longrightarrow> j < i) = (\<forall>j < n. P j \<longrightarrow> j < i)" by (auto simp: less_Suc_eq)
    then show ?thesis using Suc False by simp
  qed
qed simp

text \<open>C23. In a loaded block, \<open>uffs_GetFreePagesCount\<close> counts the erased pages behind the last good
  page, \<open>uffs_FindFirstFreePage\<close> finds the first erased page from the given one, and neither
  changes the device.\<close>

theorem free_pages_behind_log:
  fixes dev :: "'f device"
  assumes "loaded dev bc"
  shows "uffs_GetFreePagesCount bc dev =
      Some (int (card {i. i < ppb dev \<and> tag_erased (GET_TAG dev bc i) \<and>
                          (\<forall>j < ppb dev. TAG_IS_GOOD (GET_TAG dev bc j) \<longrightarrow> j < i)}), dev) \<and>
    uffs_FindFirstFreePage bc from_page dev =
      Some (case List.find (\<lambda>i. tag_erased (GET_TAG dev bc i)) [unat from_page..<ppb dev] of
              None \<Rightarrow> UFFS_INVALID_PAGE | Some i \<Rightarrow> word_of_nat i, dev)"
proof (rule conjI)
  let ?n = "ppb dev" and ?g = "\<lambda>i. TAG_IS_GOOD (GET_TAG dev bc i)" and ?e = "\<lambda>i. tag_erased (GET_TAG dev bc i)"
  show "uffs_FindFirstFreePage bc from_page dev =
      Some (case List.find ?e [unat from_page..<?n] of None \<Rightarrow> UFFS_INVALID_PAGE | Some i \<Rightarrow> word_of_nat i, dev)"
    unfolding uffs_FindFirstFreePage_def by (rule find_free_loaded[OF assms]) simp
  define m where "m = (case List.find ?g (rev [0..<?n]) of None \<Rightarrow> 0 | Some j \<Rightarrow> Suc j)"
  have last: "(\<forall>j < ?n. ?g j \<longrightarrow> j < i) \<longleftrightarrow> m \<le> i" for i
    unfolding m_def by (rule found_last)
  have "uffs_GetFreePagesCount bc dev = Some (int (length (filter ?e (rev [m..<?n]))), dev)"
    unfolding uffs_GetFreePagesCount_def
    by (subst free_count_loaded[OF assms]) (simp_all add: takeWhile_rev_upt m_def)
  also have "length (filter ?e (rev [m..<?n])) = card {i. i < ?n \<and> ?e i \<and> m \<le> i}"
  proof -
    have "length (filter ?e (rev [m..<?n])) = card (set (filter ?e [m..<?n]))"
      by (simp add: distinct_card[symmetric] rev_filter[symmetric])
    also have "set (filter ?e [m..<?n]) = {i. i < ?n \<and> ?e i \<and> m \<le> i}" by auto
    finally show ?thesis .
  qed
  finally show "uffs_GetFreePagesCount bc dev =
      Some (int (card {i. i < ?n \<and> ?e i \<and> (\<forall>j < ?n. ?g j \<longrightarrow> j < i)}), dev)"
    by (simp only: last)
qed

section \<open>The data length of a block\<close>

definition newest_len :: "(nat \<Rightarrow> Tags) \<Rightarrow> nat \<Rightarrow> nat \<Rightarrow> nat" where
  "newest_len T n k = (case newest T n k of None \<Rightarrow> 0 | Some l \<Rightarrow> tag_data_len (T l))"

definition ids_from :: "(nat \<Rightarrow> Tags) \<Rightarrow> nat \<Rightarrow> nat \<Rightarrow> nat set" where
  "ids_from T n k = {j. k \<le> j \<and> newest T n j \<noteq> None}"

lemma finite_ids [simp]: "finite (ids_from T n k)"
proof (rule finite_subset)
  show "ids_from T n k \<subseteq> (\<lambda>i. tag_page_id (T i)) ` {..<n}"
    by (auto simp: ids_from_def newest_None)
qed simp

lemma data_len_loop_sum:
  assumes ld: "loaded dev bc" and log: "block_log (GET_TAG dev bc) (ppb dev)"
    and "i \<le> ppb dev" "\<And>j. j < i \<Longrightarrow> TAG_IS_GOOD (GET_TAG dev bc j) \<Longrightarrow> kk \<le> c \<and> tag_page_id (GET_TAG dev bc j) < max kk c"
    "kk \<le> c"
  shows "data_len_loop bc [i..<ppb dev] c sz dev =
    Some (sz + int (\<Sum>k\<in>ids_from (GET_TAG dev bc) (ppb dev) c. newest_len (GET_TAG dev bc) (ppb dev) k), dev)"
  using assms(3-)
proof (induction "ppb dev - i" arbitrary: i c sz)
  case 0
  then have "tag_page_id (GET_TAG dev bc j) < c" if "j < ppb dev" "TAG_IS_GOOD (GET_TAG dev bc j)" for j
    using 0(3)[of j] that by auto
  then have e: "ids_from (GET_TAG dev bc) (ppb dev) c = {}" by (fastforce simp: ids_from_def newest_None)
  have "i = ppb dev" using 0 by simp
  then show ?case by (simp add: e)
next
  case (Suc d)
  let ?T = "GET_TAG dev bc" and ?n = "ppb dev"
  have i: "i < ?n" "d = ?n - Suc i" "Suc i \<le> ?n" using Suc.hyps(2) by auto
  have up: "[i..<?n] = i # [Suc i..<?n]" by (rule upt_conv_Cons[OF i(1)])
  have below: "tag_page_id (?T j) < c" if "j < i" "TAG_IS_GOOD (?T j)" for j
    using Suc.prems(2)[OF that] Suc.prems(3) by (simp add: max_def split: if_splits)
  have le: "tag_page_id (?T i) \<le> c" if g: "TAG_IS_GOOD (?T i)"
  proof (rule ccontr)
    assume "\<not> tag_page_id (?T i) \<le> c"
    then have "c \<le> tag_page_id (?T i)" "tag_page_id (?T i) \<noteq> c" by auto
    then obtain j where j: "j \<le> i" "TAG_IS_GOOD (?T j)" "tag_page_id (?T j) = c"
      using block_logD(2)[OF log i(1) g] by blast
    then show False using below[of j] \<open>tag_page_id (?T i) \<noteq> c\<close> by (cases "j = i") auto
  qed
  show ?case
  proof (cases "TAG_IS_GOOD (?T i) \<and> c = tag_page_id (?T i)")
    case True
    then have g: "TAG_IS_GOOD (?T i)" by simp
    obtain l where l: "newest ?T ?n (tag_page_id (?T i)) = Some l" "l < ?n"
      "uffs_FindBestPageInBlock bc (word_of_nat i) dev = Some (word_of_nat l, dev)"
      by (rule FindBest_newest[OF ld log i(1) g])
    have ul: "unat (word_of_nat l :: u16) = l" "(word_of_nat l :: u16) \<noteq> UFFS_INVALID_PAGE"
      using word_page[OF l(2)] ld by (simp_all add: loaded_def)
    have ids: "ids_from ?T ?n c = insert c (ids_from ?T ?n (Suc c))" "c \<notin> ids_from ?T ?n (Suc c)"
      using l(1) True by (auto simp: ids_from_def le_eq_less_or_eq Suc_le_eq)
    have nl: "newest_len ?T ?n c = tag_data_len (?T l)" using l(1) True by (simp add: newest_len_def)
    have pre: "kk \<le> Suc c \<and> tag_page_id (?T j) < max kk (Suc c)" if "j < Suc i" "TAG_IS_GOOD (?T j)" for j
      using below[of j] that Suc.prems(3) True by (cases "j = i") auto
    note IH = Suc.hyps(1)[OF i(2,3) pre, of "sz + int (tag_data_len (?T l))"]
    have "data_len_loop bc (i # [Suc i..<?n]) c sz dev =
        data_len_loop bc [Suc i..<?n] (Suc c) (sz + int (tag_data_len (?T l))) dev"
      using True l(3) ul by (simp add: Let_def)
    also have "\<dots> = Some (sz + int (tag_data_len (?T l)) + int (\<Sum>k\<in>ids_from ?T ?n (Suc c). newest_len ?T ?n k), dev)"
      using IH Suc.prems(3) by simp
    finally show ?thesis unfolding up ids(1) using ids(2) by (simp add: nl del: data_len_loop.simps)
  next
    case False
    have pre: "kk \<le> c \<and> tag_page_id (?T j) < max kk c" if "j < Suc i" "TAG_IS_GOOD (?T j)" for j
      using below[of j] that Suc.prems(3) le False by (cases "j = i") auto
    show ?thesis unfolding up using Suc.hyps(1)[OF i(2,3) pre Suc.prems(3)] False by (auto simp: Let_def)
  qed
qed

text \<open>C22. The data length of a loaded block that is a log, and whose first page is good, is the
  sum of the lengths of the newest copies of its data pages (all ids, but id 0 in a file header
  block). On the quick path for a block whose last page has the last id, this needs that the
  data pages before the last one are full.\<close>

theorem BlockFileDataLength_sum:
  fixes dev :: "'f device"
  assumes ld: "loaded dev bc" and log: "block_log (GET_TAG dev bc) (ppb dev)"
    and g0: "TAG_IS_GOOD (GET_TAG dev bc 0)" "ucast (ts_type (tag_s (GET_TAG dev bc 0))) = ty" "2 \<le> ppb dev"
    and full: "TAG_IS_GOOD (GET_TAG dev bc (ppb dev - 1)) \<Longrightarrow> tag_page_id (GET_TAG dev bc (ppb dev - 1)) = ppb dev - 1 \<Longrightarrow>
      \<forall>k. (ty = UFFS_TYPE_FILE \<longrightarrow> 1 \<le> k) \<longrightarrow> k < ppb dev - 1 \<longrightarrow>
        newest_len (GET_TAG dev bc) (ppb dev) k = unat (pg_data_size dev)"
  shows "uffs_GetBlockFileDataLength bc ty dev =
    Some (int (\<Sum>k\<in>ids_from (GET_TAG dev bc) (ppb dev) (if ty = UFFS_TYPE_FILE then 1 else 0).
            newest_len (GET_TAG dev bc) (ppb dev) k), dev)"
proof -
  let ?T = "GET_TAG dev bc" and ?n = "ppb dev" and ?k = "if ty = UFFS_TYPE_FILE then 1 else 0 :: nat"
  let ?full = "TAG_IS_GOOD (?T (?n - 1)) \<and> tag_page_id (?T (?n - 1)) = ?n - 1"
  have n: "0 < ?n" "?n < 65534" using ld by (simp_all add: loaded_def)
  note ul = last_page_ppb[OF n(1)]
  have loop: "data_len_loop bc [?k..<?n] ?k 0 dev = Some (0 + int (\<Sum>k\<in>ids_from ?T ?n ?k. newest_len ?T ?n k), dev)"
  proof (rule data_len_loop_sum[OF ld log, where kk = ?k])
    show "?k \<le> ?n" using n by simp
    show "?k \<le> ?k \<and> tag_page_id (?T j) < max ?k ?k" if "j < ?k" "TAG_IS_GOOD (?T j)" for j
      using block_logD(1)[OF log _ that(2)] that(1) g0(3) by (auto split: if_splits)
  qed simp
  show ?thesis
  proof (cases "?full \<and> (ty = UFFS_TYPE_FILE \<or> ty = UFFS_TYPE_DATA)")
    case False
    then show ?thesis
      unfolding uffs_GetBlockFileDataLength_def using ld ul n loop g0 by (auto simp: Let_def)
  next
    case True
    note fb = full_block[OF log n(1)] have F: ?full using True by simp
    have inj: "inj_on (\<lambda>i. tag_page_id (?T i)) {..<?n}" and good: "\<forall>i < ?n. TAG_IS_GOOD (?T i)" using fb F by blast+
    have nl: "newest ?T ?n (?n - 1) = Some (?n - 1)" using F n(1) by (auto simp: newest_iff)
    have img: "(\<lambda>i. tag_page_id (?T i)) ` {..<?n} = {..<?n}"
    proof (rule card_subset_eq)
      show "(\<lambda>i. tag_page_id (?T i)) ` {..<?n} \<subseteq> {..<?n}"
        using block_logD(1)[OF log] good by (auto intro: le_less_trans)
    qed (simp_all add: card_image[OF inj])
    have ids: "ids_from ?T ?n ?k = {?k..<?n}"
    proof -
      have "newest ?T ?n j \<noteq> None \<longleftrightarrow> j < ?n" for j
      proof -
        have "newest ?T ?n j \<noteq> None \<longleftrightarrow> j \<in> (\<lambda>i. tag_page_id (?T i)) ` {..<?n}"
          using good by (auto simp: newest_None)
        then show ?thesis by (simp only: img lessThan_iff)
      qed
      then show ?thesis by (auto simp: ids_from_def)
    qed
    have sp: "{?k..<?n} = insert (?n - 1) {?k..<?n - 1}" using g0(3) by auto
    have "(\<Sum>k\<in>{?k..<?n}. newest_len ?T ?n k) = newest_len ?T ?n (?n - 1) + (\<Sum>k\<in>{?k..<?n - 1}. newest_len ?T ?n k)"
      unfolding sp by simp
    also have "(\<Sum>k\<in>{?k..<?n - 1}. newest_len ?T ?n k) = (\<Sum>k\<in>{?k..<?n - 1}. unat (pg_data_size dev))"
      using full F by (intro sum.cong) (auto split: if_splits)
    finally have sum: "(\<Sum>k\<in>{?k..<?n}. newest_len ?T ?n k) = tag_data_len (?T (?n - 1)) + (?n - 1 - ?k) * unat (pg_data_size dev)"
      using nl by (simp add: newest_len_def)
    have "uint (pg_data_size dev) * (int ?n - (if ty = UFFS_TYPE_FILE then 2 else 1)) + int (tag_data_len (?T (?n - 1))) =
        int (\<Sum>k\<in>{?k..<?n}. newest_len ?T ?n k)"
    proof -
      obtain m where m: "?n = m + 2" using g0(3) by (metis le_add_diff_inverse2)
      show ?thesis unfolding sum unfolding m by (simp add: algebra_simps)
    qed
    then show ?thesis
      unfolding uffs_GetBlockFileDataLength_def ids using ld ul n True by (auto simp: Let_def split: if_splits)
  qed
qed

section \<open>On the sample device\<close>

text \<open>A file block with a header page, data page 1 of 508 bytes and a newer copy of it of 300.\<close>

definition log_tag :: "nat \<Rightarrow> nat \<Rightarrow> Tags" where
  "log_tag k len = \<lparr>tag_s = \<lparr>ts_dirty = 0, ts_valid = 0, ts_type = 1, ts_block_ts = 0, ts_data_len = word_of_nat len,
     ts_serial = 5, ts_parent = 0, ts_page_id = word_of_nat k, ts_reserved = 0, ts_tag_ecc = 0\<rparr>, data_sum = 0, seal_byte = 0\<rparr>"

definition sample_tags :: "nat \<Rightarrow> Tags" where
  "sample_tags i = (if i = 0 then log_tag 0 152 else if i = 1 then log_tag 1 508 else if i = 2 then log_tag 1 300 else ones_tag)"

definition sample_log :: "femu device" where
  "sample_log = upd_bi 3 (\<lambda>b. b\<lparr>bi_spares := map (\<lambda>i. \<lparr>sp_tag = sample_tags i, sp_expired = False\<rparr>) [0..<32],
     bi_expired_count := 0\<rparr>) sample_cached"

lemma sample_log_simps [simp]:
  "ppb sample_log = 32" "i < 32 \<Longrightarrow> GET_TAG sample_log 3 i = sample_tags i" "loaded sample_log 3"
  by (auto simp: sample_log_def GET_TAG_def loaded_def sample_cached_ok(2))

lemma log_tag_simps [simp]:
  "TAG_IS_GOOD (log_tag k len)" "\<not> TAG_IS_GOOD ones_tag" "tag_obj (log_tag k len) = (0, 5)"
  "k < 64 \<Longrightarrow> tag_page_id (log_tag k len) = k" "len < 4096 \<Longrightarrow> tag_data_len (log_tag k len) = len"
  by (simp_all add: log_tag_def TAG_IS_GOOD_def TAG_IS_SEALED_def TAG_IS_VALID_def ones_tag_def tag_obj_def
      tag_page_id_def tag_data_len_def unat_of_nat)

lemma sample_tags_good:
  "TAG_IS_GOOD (sample_tags i) \<longleftrightarrow> i < 3" "i < 3 \<Longrightarrow> tag_page_id (sample_tags i) = min i 1" "i < 3 \<Longrightarrow> tag_obj (sample_tags i) = (0, 5)"
  by (auto simp: sample_tags_def)

lemma block_log_cong: "(\<And>i. i < n \<Longrightarrow> T i = U i) \<Longrightarrow> block_log T n = block_log U n"
  unfolding block_log_def by (intro conj_cong all_cong1 imp_cong refl) auto

lemma sample_block_log: "block_log (GET_TAG sample_log 3) (ppb sample_log)"
proof -
  have "\<exists>j \<le> i. TAG_IS_GOOD (sample_tags j) \<and> tag_page_id (sample_tags j) = k"
    if "i < 3" "k \<le> min i 1" for i k
    using that by (intro exI[of _ k]) (auto simp: sample_tags_good)
  then have "block_log sample_tags 32"
    unfolding block_log_def by (auto simp: sample_tags_good)
  then show ?thesis by (subst block_log_cong[of _ _ sample_tags]) simp_all
qed

lemma newest_cong: "(\<And>i. i < n \<Longrightarrow> T i = U i) \<Longrightarrow> newest T n k = newest U n k"
  unfolding newest_def by (rule find_cong_set) simp

lemma sample_newest: "newest (GET_TAG sample_log 3) (ppb sample_log) 1 = Some 2"
proof -
  have "newest sample_tags 32 1 = Some 2"
    by (auto simp: newest_iff sample_tags_good)
  then show ?thesis by (subst newest_cong[of _ _ sample_tags]) simp_all
qed

theorem FindBestPage_newest_witness:
  "\<exists>p. uffs_FindPageInBlockWithPageId 3 1 sample_log = Some (p, sample_log) \<and>
     uffs_FindBestPageInBlock 3 p sample_log = Some (2, sample_log)"
  using FindBestPage_newest[OF sample_log_simps(3) sample_block_log, of 1] sample_newest by auto

theorem free_pages_behind_log_witness:
  "\<exists>n. uffs_GetFreePagesCount 3 sample_log = Some (n, sample_log)"
  using free_pages_behind_log[OF sample_log_simps(3), of 0] by blast

theorem BlockFileDataLength_sum_witness:
  "\<exists>n. uffs_GetBlockFileDataLength 3 UFFS_TYPE_FILE sample_log = Some (n, sample_log)"
proof -
  have "TAG_IS_GOOD (GET_TAG sample_log 3 0)" "ucast (ts_type (tag_s (GET_TAG sample_log 3 0))) = UFFS_TYPE_FILE"
    "\<not> TAG_IS_GOOD (GET_TAG sample_log 3 (ppb sample_log - 1))"
    by (simp_all add: sample_tags_good) (simp add: sample_tags_def log_tag_def UFFS_TYPE_FILE_def)
  then show ?thesis
    using BlockFileDataLength_sum[OF sample_log_simps(3) sample_block_log] by auto
qed

end
