(* ===== verification/Flash_Write.thy ===== *)
theory Flash_Write
  imports Page_Scan
begin

text \<open>
  The writing half of \<open>uffs_flash.c\<close>: \<open>uffs_FlashWritePageCombine\<close> with its verification, marking
  and erasing a block, the check that a block is erased, and the initialisation and release of
  the flash interface. \<open>None\<close> is a call through a null function pointer.

  The lemmas show, for every driver that satisfies the laws of \<open>flash_driver\<close>, that a page and
  a tag that are written to a clean page are read back, also with a flipped bit in every ECC
  chunk, that nothing else on the flash changes, and that an erased block is clean.
\<close>

section \<open>The code\<close>

subsection \<open>uffs_FlashWritePageCombine\<close>

text \<open>The mini header of the page: status 0, the other bytes ones (the CRC when it is enabled).\<close>

definition write_header :: "nat \<Rightarrow> bytes \<Rightarrow> bytes" where
  "write_header sz page =
     (let page = memcpy page 0 [0, 0xFF, 0xFF, 0xFF]
      in if CONFIG_ENABLE_PAGE_DATA_CRC
         then let c = uffs_crc16sum (take (sz - SIZEOF_MINIHEADER) (drop SIZEOF_MINIHEADER page))
              in memcpy page 2 [ucast c, ucast (drop_bit 8 c)]
         else page)"

definition write_tag :: "storage_attr \<Rightarrow> Tags \<Rightarrow> Tags" where
  "write_tag at tag =
     (let s = (tag_s tag)\<lparr>ts_dirty := 0, ts_valid := 0\<rparr>
      in tag\<lparr>seal_byte := 0,
             tag_s := (if ecc_opt at \<noteq> UFFS_ECC_NONE then TagMakeEcc s else s\<lparr>ts_tag_ecc := TAG_ECC_DEFAULT\<rparr>)\<rparr>)"

text \<open>The ECC that goes to the spare area.\<close>

definition write_ecc :: "'f device \<Rightarrow> bytes \<Rightarrow> bytes option" where
  "write_ecc dev page =
     (if ecc_opt (attr dev) = UFFS_ECC_SOFT then snd (uffs_EccMake (Some page) (uint (pg_size dev)) (Some (uninit dev)))
      else if ecc_opt (attr dev) = UFFS_ECC_HW then Some (uninit dev)
      else None)"

text \<open>The driver call. A driver without layout support is refused for the options that need it.\<close>

definition write_driver :: "int \<Rightarrow> int \<Rightarrow> nat \<Rightarrow> bytes \<Rightarrow> TagStore \<Rightarrow> 'f device \<Rightarrow> (int \<times> 'f device) option" where
  "write_driver block page a mem ts dev =
     (let ecc = write_ecc dev mem; d = Some (take (unat (pg_size dev)) mem)
      in case WritePageWithLayout (ops dev) of
        Some wr \<Rightarrow>
          (let (ret, f) = wr (word_of_int block) (word_of_int page) d ecc (Some ts) (drv dev)
           in Some (ret, dev\<lparr>drv := f\<rparr>))
      | None \<Rightarrow>
          if layout_opt (attr dev) = UFFS_LAYOUT_FLASH \<or> ecc_opt (attr dev) = UFFS_ECC_HW \<or>
             ecc_opt (attr dev) = UFFS_ECC_HW_AUTO
          then Some (UFFS_FLASH_IO_ERR, dev)
          else do {
            wr \<leftarrow> WritePage (ops dev);
            let sp = uffs_FlashMakeSpare (attr dev) (nat (spare_data_size dev)) ts ecc;
            let (ret, f) = wr (word_of_int block) (word_of_int page) d (Some sp) (drv dev);
            Some (ret, dev\<lparr>drv := f, spare_mem := (spare_mem dev)(a := memcpy (spare_mem dev a) 0 sp)\<rparr>)
          })"

text \<open>Reading the page and the tag back; the result is the code and whether the block is bad.\<close>

definition verify_page :: "int \<Rightarrow> int \<Rightarrow> nat \<Rightarrow> int \<Rightarrow> 'f device \<Rightarrow> (int \<times> bool \<times> 'f device) option" where
  "verify_page block page buf ret dev =
     (let (verify, dev) = uffs_BufClone None dev
      in case verify of None \<Rightarrow> Some (ret, False, dev)
         | Some v \<Rightarrow> do {
             (ret, dev) \<leftarrow> uffs_FlashReadPage block page v False dev;
             let sz = unat (pg_size dev);
             let ret = (if \<not> UFFS_FLASH_HAVE_ERR ret \<and> take sz (b_page (bufs dev buf)) \<noteq> take sz (b_page (bufs dev v))
                        then UFFS_FLASH_BAD_BLK else ret);
             Some (ret, UFFS_FLASH_IS_BAD_BLOCK ret, snd (uffs_BufFreeClone (Some v) dev))
           })"

definition verify_tag :: "int \<Rightarrow> int \<Rightarrow> Tags \<Rightarrow> bool \<Rightarrow> 'f device \<Rightarrow> (int \<times> bool \<times> 'f device) option" where
  "verify_tag block page tag is_bad dev = do {
     (ret, chk, dev) \<leftarrow> uffs_FlashReadPageTag block page (Some (uninit_tag dev)) dev;
     Some (if UFFS_FLASH_HAVE_ERR ret then (ret, is_bad, dev)
           else let ret = (if map_option tag_s chk \<noteq> Some (tag_s tag) then UFFS_FLASH_BAD_BLK else ret)
                in (ret, is_bad \<or> UFFS_FLASH_IS_BAD_BLOCK ret, dev))
   }"

text \<open>The tag is the caller's, which gets the ECC and the seal: it is returned.\<close>

definition uffs_FlashWritePageCombine ::
  "int \<Rightarrow> int \<Rightarrow> nat \<Rightarrow> Tags \<Rightarrow> 'f device \<Rightarrow> (int \<times> Tags \<times> 'f device) option" where
  "uffs_FlashWritePageCombine block page buf tag dev =
     (let (spare, dev) = get_spare dev
      in case spare of None \<Rightarrow> Some (UFFS_FLASH_UNKNOWN_ERR, tag, dev)
         | Some a \<Rightarrow> do {
             let mem = write_header (unat (pg_size dev)) (b_page (bufs dev buf));
             let dev = upd_buf buf (\<lambda>b. b\<lparr>b_page := mem\<rparr>) dev;
             let tag = write_tag (attr dev) tag;
             (ret, dev) \<leftarrow> write_driver block page a mem (tag_s tag) dev;
             let is_bad = UFFS_FLASH_IS_BAD_BLOCK ret;
             (ret, is_bad, dev) \<leftarrow>
               (if UFFS_FLASH_HAVE_ERR ret \<or> \<not> CONFIG_PAGE_WRITE_VERIFY then Some (ret, is_bad, dev)
                else do {
                  (ret, bad1, dev) \<leftarrow> verify_page block page buf ret dev;
                  verify_tag block page tag (is_bad \<or> bad1) dev
                });
             Some (if is_bad then UFFS_FLASH_BAD_BLK else ret, tag, put_spare a dev)
           })"

subsection \<open>Erasing and marking blocks\<close>

definition pending_remove :: "int \<Rightarrow> 'f device \<Rightarrow> 'f device" where
  "pending_remove block dev = dev\<lparr>pending := snd (uffs_BadBlockPendingRemove block (pending dev))\<rparr>"

text \<open>The cached copy of a block, if there is one, is expired.\<close>

definition expire_cached :: "int \<Rightarrow> 'f device \<Rightarrow> 'f device option" where
  "expire_cached block dev = do {
     (bc, dev) \<leftarrow> uffs_BlockInfoFindInCache block dev;
     Some (case bc of None \<Rightarrow> dev
           | Some x \<Rightarrow> uffs_BlockInfoPut (Some x) (uffs_BlockInfoExpire x UFFS_ALL_PAGES dev))
   }"

definition uffs_FlashMarkBadBlock :: "int \<Rightarrow> 'f device \<Rightarrow> (URET \<times> 'f device) option" where
  "uffs_FlashMarkBadBlock block dev = do {
     dev \<leftarrow> expire_cached block (pending_remove block dev);
     (case MarkBadBlock (ops dev) of
        Some mk \<Rightarrow> (let (r, f) = mk (word_of_int block) (drv dev)
                   in Some (if r = 0 then U_SUCC else U_FAIL, dev\<lparr>drv := f\<rparr>))
      | None \<Rightarrow> do {
          dev \<leftarrow> (if CONFIG_ERASE_BLOCK_BEFORE_MARK_BAD
                 then do {
                   er \<leftarrow> EraseBlock (ops dev);
                   Some (dev\<lparr>drv := snd (er (word_of_int block) (drv dev))\<rparr>)
                 }
                 else Some dev);
          (ret, f) \<leftarrow> (case WritePageWithLayout (ops dev) of
              Some wr \<Rightarrow> Some (wr (word_of_int block) 0 None None None (drv dev))
            | None \<Rightarrow> map_option (\<lambda>wr. wr (word_of_int block) 0 None None (drv dev)) (WritePage (ops dev)));
          Some (if ret = UFFS_FLASH_NO_ERR then U_SUCC else U_FAIL, dev\<lparr>drv := f\<rparr>)
        })
   }"

definition uffs_FlashEraseBlock :: "int \<Rightarrow> 'f device \<Rightarrow> (int \<times> 'f device) option" where
  "uffs_FlashEraseBlock block dev = do {
     let dev = pending_remove block dev;
     er \<leftarrow> EraseBlock (ops dev);
     let (ret, f) = er (word_of_int block) (drv dev);
     dev \<leftarrow> expire_cached block (dev\<lparr>drv := f\<rparr>);
     Some (ret, dev)
   }"

subsection \<open>Checking an erased block\<close>

definition all_ones :: "bytes \<Rightarrow> bool" where
  "all_ones bs \<longleftrightarrow> (\<forall>x \<in> set bs. x = 0xFF)"

text \<open>Reading one page into the clone \<open>v\<close> and the spare buffer \<open>a\<close>; the result tells whether the
  page is clean. A page that cannot be read counts as clean.\<close>

definition check_page :: "int \<Rightarrow> nat \<Rightarrow> nat \<Rightarrow> int \<Rightarrow> TagStore \<Rightarrow> bytes \<Rightarrow> 'f device \<Rightarrow>
    (bool \<times> TagStore \<times> bytes \<times> 'f device) option" where
  "check_page block a v page ts ecc dev =
     (let sz = unat (pg_size dev); mem = b_page (bufs dev v);
          upd = (\<lambda>old new. case new of Some x \<Rightarrow> memcpy old 0 x | None \<Rightarrow> old)
      in case ReadPageWithLayout (ops dev) of
        Some rd \<Rightarrow>
          (let ((ret, d, _, ts', st), f) = rd (word_of_int block) (word_of_int page) (Some (take sz mem)) None
                 (Some ts) (Some ecc) (drv dev);
               ts = (case ts' of Some t \<Rightarrow> t | None \<Rightarrow> ts);
               ecc = upd ecc st; mem = upd mem d;
               dev = upd_buf v (\<lambda>b. b\<lparr>b_page := mem\<rparr>) (dev\<lparr>drv := f\<rparr>)
           in Some (ret = UFFS_FLASH_IO_ERR \<or>
                    all_ones (ts_bytes ts) \<and>
                    (ecc_opt (attr dev) = UFFS_ECC_HW \<or> ecc_opt (attr dev) = UFFS_ECC_SOFT \<longrightarrow>
                       all_ones (take (nat (ecc_size (attr dev))) ecc)) \<and>
                    all_ones (take sz mem), ts, ecc, dev))
      | None \<Rightarrow> do {
          rd \<leftarrow> ReadPage (ops dev);
          let n = unat (spare_size (attr dev));
          let ((ret, d, _, sp), f) = rd (word_of_int block) (word_of_int page) (Some (take sz mem)) None
                 (Some (take n (spare_mem dev a))) (drv dev);
          let buf = upd (spare_mem dev a) sp;
          let mem = upd mem d;
          let dev = upd_buf v (\<lambda>b. b\<lparr>b_page := mem\<rparr>) (dev\<lparr>drv := f, spare_mem := (spare_mem dev)(a := buf)\<rparr>);
          Some (ret = UFFS_FLASH_IO_ERR \<or> all_ones (take n buf) \<and> all_ones (take sz mem), ts, ecc, dev)
        })"

fun check_pages :: "int \<Rightarrow> nat \<Rightarrow> nat \<Rightarrow> nat list \<Rightarrow> TagStore \<Rightarrow> bytes \<Rightarrow> 'f device \<Rightarrow> (URET \<times> 'f device) option" where
  "check_pages block a v [] ts ecc dev = Some (U_SUCC, dev)"
| "check_pages block a v (page # ks) ts ecc dev = do {
     (clean, ts, ecc, dev) \<leftarrow> check_page block a v (int page) ts ecc dev;
     (if clean then check_pages block a v ks ts ecc dev else Some (U_FAIL, dev))
   }"

definition uffs_FlashCheckErasedBlock :: "int \<Rightarrow> 'f device \<Rightarrow> (URET \<times> 'f device) option" where
  "uffs_FlashCheckErasedBlock block dev =
     (case CheckErasedBlock (ops dev) of
        Some ck \<Rightarrow> (let (r, f) = ck (word_of_int block) (drv dev)
                   in Some (if r = 0 then U_SUCC else U_FAIL, dev\<lparr>drv := f\<rparr>))
      | None \<Rightarrow>
          let (spare, dev) = get_spare dev
          in case spare of None \<Rightarrow> Some (U_SUCC, dev)
             | Some a \<Rightarrow>
                 let (buf, dev) = uffs_BufClone None dev
                 in case buf of None \<Rightarrow> Some (U_SUCC, put_spare a dev)
                    | Some v \<Rightarrow> do {
                        (ret, dev) \<leftarrow> check_pages block a v [0..<ppb dev] (tag_s (uninit_tag dev)) (uninit dev) dev;
                        Some (ret, snd (uffs_BufFreeClone (Some v) (put_spare a dev)))
                      })"

subsection \<open>Initialisation and release\<close>

definition MAX_SPARE_BUFFERS :: nat where "MAX_SPARE_BUFFERS = 5"

definition UFFS_SPARE_BUFFER_SIZE :: int where
  "UFFS_SPARE_BUFFER_SIZE = int (MAX_SPARE_BUFFERS * UFFS_MAX_SPARE_SIZE)"

text \<open>The pool in zeroed memory.\<close>

definition zero_pool :: pool where
  "zero_pool = \<lparr>p_mem = 0, p_buf_size = 0, p_num_bufs = 0, p_free_list = None, p_next = (\<lambda>_. None), p_sem = False\<rparr>"

definition NOMINAL_ECC_SIZE :: "storage_attr \<Rightarrow> int" where
  "NOMINAL_ECC_SIZE at = 3 * (max 0 (uint (page_data_size at) - 1) div 256 + 1)"

text \<open>The sanity checks of the layout options.\<close>

definition init_layout :: "'f device \<Rightarrow> URET \<times> 'f device" where
  "init_layout dev =
     (if layout_opt (attr dev) = UFFS_LAYOUT_UFFS
      then let at = attr dev;
               at = (if ecc_size at = 0 \<and> ecc_opt at \<noteq> UFFS_ECC_NONE then at\<lparr>ecc_size := NOMINAL_ECC_SIZE at\<rparr> else at);
               dev = dev\<lparr>attr := at\<rparr>
           in if (data_layout at \<noteq> None \<and> ecc_layout at = None) \<or> (data_layout at = None \<and> ecc_layout at \<noteq> None)
              then (U_FAIL, dev)
              else (U_SUCC, if data_layout at = None \<and> ecc_layout at = None then dev\<lparr>attr := InitSpareLayout at\<rparr> else dev)
      else if layout_opt (attr dev) = UFFS_LAYOUT_FLASH \<and> WritePageWithLayout (ops dev) \<noteq> None \<and>
              ReadPageWithLayout (ops dev) \<noteq> None
      then (U_SUCC, dev) else (U_FAIL, dev))"

definition uffs_FlashInterfaceInit :: "'f device \<Rightarrow> URET \<times> 'f device" where
  "uffs_FlashInterfaceInit dev =
     (let dev = (if spare_pool_size dev = 0
                 then case mem_malloc dev of
                        Some al \<Rightarrow> let dev = dev\<lparr>spare_pool_buf := al UFFS_SPARE_BUFFER_SIZE\<rparr>
                                   in if spare_pool_buf dev \<noteq> None then dev\<lparr>spare_pool_size := UFFS_SPARE_BUFFER_SIZE\<rparr> else dev
                      | None \<Rightarrow> dev
                 else dev)
      in if UFFS_SPARE_BUFFER_SIZE > spare_pool_size dev then (U_FAIL, dev\<lparr>spare_pool := zero_pool\<rparr>)
         else let dev = dev\<lparr>spare_pool := snd (uffs_PoolInit (spare_pool dev) (spare_pool_buf dev)
                      (word_of_int (spare_pool_size dev)) (word_of_nat UFFS_MAX_SPARE_SIZE) (word_of_nat MAX_SPARE_BUFFERS) False)\<rparr>;
                  (r, dev) = (case InitFlash (ops dev) of None \<Rightarrow> (0, dev)
                              | Some g \<Rightarrow> (let (r, f) = g (drv dev) in (r, dev\<lparr>drv := f\<rparr>)))
              in if r < 0 \<or> WritePage (ops dev) = None \<and> WritePageWithLayout (ops dev) = None \<or>
                    ReadPage (ops dev) = None \<and> ReadPageWithLayout (ops dev) = None
                 then (U_FAIL, dev)
                 else let (ok, dev) = init_layout dev
                      in if ok = U_FAIL \<or> EraseBlock (ops dev) = None then (U_FAIL, dev)
                         else let dev = dev\<lparr>spare_data_size := CalculateSpareDataSize (attr dev)\<rparr>
                              in (if spare_data_size dev > uint (spare_size (attr dev)) then U_FAIL else U_SUCC, dev))"

definition uffs_FlashInterfaceRelease :: "'f device \<Rightarrow> URET \<times> 'f device" where
  "uffs_FlashInterfaceRelease dev =
     (let dev = (if p_mem (spare_pool dev) \<noteq> 0 \<and> mem_free dev
                 then dev\<lparr>spare_pool := (spare_pool dev)\<lparr>p_mem := 0\<rparr>, spare_pool_size := 0\<rparr> else dev);
          dev = dev\<lparr>spare_pool := zero_pool\<rparr>
      in case ReleaseFlash (ops dev) of None \<Rightarrow> (U_SUCC, dev)
         | Some g \<Rightarrow> (let (r, f) = g (drv dev) in (if r < 0 then U_FAIL else U_SUCC, dev\<lparr>drv := f\<rparr>)))"

section \<open>What a page of the flash holds\<close>

text \<open>A page holds \<open>page\<close> with \<open>m\<close> flipped bits, at most one in each ECC chunk, and the tag \<open>ts\<close>
  with \<open>k\<close> (none or one) flipped bits.\<close>

definition page_stored :: "storage_attr \<Rightarrow> nat \<Rightarrow> bytes \<times> bytes \<Rightarrow> bytes \<Rightarrow> nat \<Rightarrow> bool" where
  "page_stored at sz c page m \<longleftrightarrow>
     (if ecc_opt at = UFFS_ECC_SOFT
      then page_error page (take sz (fst c)) m \<and> (\<exists>x. cell_ecc at (snd c) = EccMake_loop page (int sz) @ x)
      else take sz (fst c) = page \<and> m = 0)"

definition tag_stored :: "storage_attr \<Rightarrow> nat \<Rightarrow> bytes \<times> bytes \<Rightarrow> TagStore \<Rightarrow> nat \<Rightarrow> bool" where
  "tag_stored at n c ts k \<longleftrightarrow> snd c ! (n - 1) = 0 \<and>
     (if k = 0 then cell_tag at (snd c) = ts
      else k = 1 \<and> ecc_opt at \<noteq> UFFS_ECC_NONE \<and> tag_bit_error ts (cell_tag at (snd c)))"

text \<open>The tags that \<open>uffs_FlashWritePageCombine\<close> writes carry their code.\<close>

definition tag_coded :: "storage_attr \<Rightarrow> TagStore \<Rightarrow> bool" where
  "tag_coded at ts \<longleftrightarrow> (ecc_opt at \<noteq> UFFS_ECC_NONE \<longrightarrow> (\<exists>t. ts = TagMakeEcc t))"

lemma write_tag_coded [simp]: "tag_coded at (tag_s (write_tag at tag))"
  by (auto simp: tag_coded_def write_tag_def Let_def)

lemma cell_spare:
  fixes ts :: TagStore
  assumes ok: "layout_ok at n" and e: "case ecc of None \<Rightarrow> ecc_len at = 0 | Some e \<Rightarrow> nat (ecc_len at) \<le> length e"
  defines "s \<equiv> uffs_FlashMakeSpare at n ts ecc"
  shows "length s = n" "cell_tag at (s @ x) = ts"
    "cell_ecc at (s @ x) = (case ecc of None \<Rightarrow> [] | Some e \<Rightarrow> take (nat (ecc_len at)) e)"
    "(s @ x) ! (n - 1) = 0"
proof -
  note pos = spare_pos_ok[OF ok]
  define e' where "e' = (case ecc of None \<Rightarrow> [] | Some e \<Rightarrow> take (nat (ecc_len at)) e)"
  have le: "length e' = nat (ecc_len at)" using e by (auto simp: e'_def split: option.splits)
  have "s = uffs_FlashMakeSpare at n ts (Some e')"
    using e FlashMakeSpare_put[OF ok] FlashMakeSpare_None[OF ok]
    by (auto simp: s_def e'_def split: option.splits)
  then have s: "s = put_at (spare_pos at) (e' @ ts_bytes ts) ((replicate n 0xFF)[n - 1 := 0])"
    using FlashMakeSpare_put[OF ok, of e' ts] le by simp
  show l: "length s = n" by (simp add: s)
  have r: "map ((!) (s @ x)) (spare_pos at) = e' @ ts_bytes ts"
  proof -
    have "q < n" if "q \<in> set (spare_pos at)" for q using pos(3) that by fastforce
    then have "map ((!) (s @ x)) (spare_pos at) = map ((!) s) (spare_pos at)"
      using l by (auto simp: nth_append)
    also have "\<dots> = e' @ ts_bytes ts"
      unfolding s using pos le by (intro read_put_at) auto
    finally show ?thesis .
  qed
  show "cell_tag at (s @ x) = ts" using le unfolding cell_tag_def r by simp
  show "cell_ecc at (s @ x) = e'" using le unfolding cell_ecc_def r by simp
  have n: "n - 1 < n" using pos(4) by linarith
  have "n - 1 \<notin> set (spare_pos at)" using pos(3) by auto
  then have "s ! (n - 1) = 0" unfolding s using n by (simp add: put_at_other)
  then show "(s @ x) ! (n - 1) = 0" using n by (simp add: nth_append l)
qed

lemma EccMake_loop_length: "int (length (EccMake_loop p n)) = 3 * (max 0 (n + 255) div 256)"
proof (induction p n rule: EccMake_loop.induct)
  case (1 p n)
  show ?case
  proof (cases "n > 0")
    case True
    define len where "len = (if n > 256 then 256 else n)"
    have "int (length (EccMake_loop p n)) = 3 + int (length (EccMake_loop (drop (nat len) p) (n - len)))"
      using EccMake_loop_step[OF len_def[symmetric] True, of p] by simp
    also have "\<dots> = 3 + 3 * (max 0 (n - len + 255) div 256)"
      using 1[OF True len_def] by simp
    also have "\<dots> = 3 * (max 0 (n + 255) div 256)"
    proof (cases "n > 256")
      case True
      then have "n + 255 = (n - len + 255) + 256 * 1" by (simp add: len_def)
      then have "(n + 255) div 256 = (n - len + 255) div 256 + 1" by simp
      then show ?thesis using True by (simp add: len_def max_def)
    next
      case False
      then have "(n + 255) div 256 = 1" using True by (intro int_div_pos_eq[of _ _ _ "n - 1"]) auto
      then show ?thesis using False by (simp add: len_def max_def)
    qed
    finally show ?thesis .
  next
    case False
    then have "n + 255 < 256" by simp
    then have "max 0 (n + 255) div 256 = 0" by (simp add: max_def)
    then show ?thesis using False by (simp add: EccMake_loop.simps)
  qed
qed

lemma page_error_refl: "page_error d d 0"
proof (induction d rule: length_induct)
  case (1 d)
  show ?case
  proof (cases "d = []")
    case False
    have "page_error (drop 256 d) (drop 256 d) 0" using 1 False by simp
    from page_chunk[OF chunk_intact[of "take 256 d"] _ _ _ this] False
    have "page_error (take 256 d @ drop 256 d) (take 256 d @ drop 256 d) (0 + 0)" by fastforce
    then show ?thesis by simp
  qed (simp add: page_end)
qed

section \<open>A stored page is read\<close>

context flash_reader
begin

lemma ReadPage_stored:
  assumes dev: "ops dev = D" "spare_ready dev"
    and rdy: "ready (drv dev) b p (unat (pg_size dev)) (nat (spare_data_size dev))"
    and mem: "length (b_page (bufs dev buf)) = unat (pg_size dev)"
    and opt: "ecc_opt (attr dev) = UFFS_ECC_SOFT \<or> ecc_opt (attr dev) = UFFS_ECC_NONE"
    and st: "page_stored (attr dev) (unat (pg_size dev)) (cell (drv dev) b p) page m"
  shows "\<exists>mm. (\<forall>x. length (mm x) = length (spare_mem dev x)) \<and>
    uffs_FlashReadPage (int b) (int p) buf False dev =
      Some (if m > 0 then UFFS_FLASH_ECC_OK else UFFS_FLASH_NO_ERR,
            (upd_buf buf (\<lambda>b. b\<lparr>b_page := page\<rparr>) dev)\<lparr>spare_mem := mm\<rparr>)"
proof -
  note r = ReadPage_cell[OF dev rdy mem opt]
  define d where "d = take (unat (pg_size dev)) (fst (cell (drv dev) b p))"
  have ld: "int (length d) = uint (pg_size dev)" using cell_size[OF rdy] by (simp add: d_def)
  show ?thesis
  proof (cases "ecc_opt (attr dev) = UFFS_ECC_SOFT")
    case True
    obtain x where e: "page_error page d m"
      "cell_ecc (attr dev) (snd (cell (drv dev) b p)) = EccMake_loop page (uint (pg_size dev)) @ x"
      using st True by (auto simp: page_stored_def d_def)
    have lp: "int (length page) = uint (pg_size dev)" using page_error_length[OF e(1)] ld by simp
    note c = EccCorrect_loop_page[OF e(1), unfolded ld lp]
    have "uffs_EccCorrect (Some d) (uint (pg_size dev))
        (Some (memcpy (uninit dev) 0 (cell_ecc (attr dev) (snd (cell (drv dev) b p)))))
        (snd (uffs_EccMake (Some d) (uint (pg_size dev)) (Some (uninit dev)))) = (int m, Some page)"
      by (simp add: uffs_EccCorrect_def uffs_EccMake_def Let_def e(2) memcpy_def c)
    then show ?thesis using r True unfolding d_def[symmetric] by (simp add: Let_def)
  next
    case False
    then have "page = d" "m = 0" using st by (auto simp: page_stored_def d_def)
    then show ?thesis using r False unfolding d_def[symmetric] by (simp add: Let_def)
  qed
qed

lemma ReadPageTag_stored:
  assumes dev: "ops dev = D" "spare_ready dev"
    and rdy: "ready (drv dev) b p dl (nat (spare_data_size dev))"
    and st: "tag_stored (attr dev) (nat (spare_data_size dev)) (cell (drv dev) b p) ts k"
    and co: "tag_coded (attr dev) ts"
  shows "\<exists>mm. (\<forall>x. length (mm x) = length (spare_mem dev x)) \<and>
    uffs_FlashReadPageTag (int b) (int p) (Some t0) dev =
      Some (if k > 0 then UFFS_FLASH_ECC_OK else UFFS_FLASH_NO_ERR,
            Some (t0\<lparr>tag_s := ts, seal_byte := 0\<rparr>), dev\<lparr>spare_mem := mm\<rparr>)"
proof -
  let ?s = "snd (cell (drv dev) b p)"
  let ?t = "t0\<lparr>tag_s := cell_tag (attr dev) ?s, seal_byte := 0\<rparr>"
  have seal: "?s ! (nat (spare_data_size dev) - 1) = 0" using st by (simp add: tag_stored_def)
  have "read_tag_ecc (attr dev) UFFS_FLASH_NO_ERR (Some ?t) =
      (if k > 0 then UFFS_FLASH_ECC_OK else UFFS_FLASH_NO_ERR, Some (t0\<lparr>tag_s := ts, seal_byte := 0\<rparr>))"
  proof (cases "ecc_opt (attr dev) = UFFS_ECC_NONE")
    case True
    then show ?thesis using st
      by (auto simp: tag_stored_def read_tag_ecc_def flash_codes UFFS_FLASH_HAVE_ERR_def split: if_splits)
  next
    case False
    then obtain t where t: "ts = TagMakeEcc t" using co by (auto simp: tag_coded_def)
    have "TagEccCorrect (cell_tag (attr dev) ?s) = (int k, ts)"
      using st TagEccCorrect_clean TagEccCorrect_error unfolding t tag_stored_def
      by (auto split: if_splits)
    then show ?thesis using False
      by (simp add: read_tag_ecc_def flash_codes UFFS_FLASH_HAVE_ERR_def TAG_IS_SEALED_def Let_def)
  qed
  then show ?thesis using ReadPageTag_cell[OF dev rdy, of t0] seal by simp
qed

end

section \<open>Writing a page\<close>

text \<open>The ECC of a page fits the place the layout has for it.\<close>

definition ecc_room :: "'f device \<Rightarrow> bool" where
  "ecc_room dev \<longleftrightarrow> (ecc_opt (attr dev) = UFFS_ECC_SOFT \<and>
       3 * ((uint (pg_size dev) + 255) div 256) \<le> ecc_len (attr dev)) \<or> ecc_opt (attr dev) = UFFS_ECC_NONE"

lemma write_ecc_ok:
  assumes "ecc_room dev" "nat (ecc_len (attr dev)) \<le> length (uninit dev)"
  shows "case write_ecc dev page of None \<Rightarrow> ecc_len (attr dev) = 0 | Some e \<Rightarrow> nat (ecc_len (attr dev)) \<le> length e"
    and "ecc_opt (attr dev) = UFFS_ECC_SOFT \<Longrightarrow>
      \<exists>e x. write_ecc dev page = Some e \<and> take (nat (ecc_len (attr dev))) e = EccMake_loop page (uint (pg_size dev)) @ x"
proof -
  let ?l = "EccMake_loop page (uint (pg_size dev))"
  have l: "int (length ?l) = 3 * ((uint (pg_size dev) + 255) div 256)"
    using EccMake_loop_length[of page "uint (pg_size dev)"] by simp
  show "case write_ecc dev page of None \<Rightarrow> ecc_len (attr dev) = 0 | Some e \<Rightarrow> nat (ecc_len (attr dev)) \<le> length e"
    using assms by (auto simp: write_ecc_def ecc_room_def uffs_EccMake_def Let_def ecc_len_def UFFS_ECC_SOFT_def
      UFFS_ECC_NONE_def UFFS_ECC_HW_def)
  assume s: "ecc_opt (attr dev) = UFFS_ECC_SOFT"
  then have "int (length ?l) \<le> ecc_len (attr dev)"
    using assms(1) l by (simp add: ecc_room_def UFFS_ECC_NONE_def UFFS_ECC_SOFT_def)
  then have "length ?l \<le> nat (ecc_len (attr dev))" by linarith
  then show "\<exists>e x. write_ecc dev page = Some e \<and> take (nat (ecc_len (attr dev))) e = ?l @ x"
    using s by (simp add: write_ecc_def uffs_EccMake_def Let_def)
qed

lemma header_length: "4 \<le> length page \<Longrightarrow> length (write_header sz page) = length page"
  by (simp add: write_header_def CONFIG_ENABLE_PAGE_DATA_CRC_def memcpy_def)

subsection \<open>The use of a clone\<close>

definition detached :: "Buf \<Rightarrow> Buf" where
  "detached b = b\<lparr>b_next := None, b_prev := None, b_next_dirty := None, b_prev_dirty := None, b_ref_count := CLONE_BUF_MARK\<rparr>"

lemma buf_inv_other [simp]:
  "buf_inv (dev\<lparr>spare_mem := m\<rparr>) xs cs G = buf_inv dev xs cs G"
  "buf_inv (dev\<lparr>drv := f\<rparr>) xs cs G = buf_inv dev xs cs G"
  "buf_inv (dev\<lparr>spare_pool := q\<rparr>) xs cs G = buf_inv dev xs cs G"
  "buf_inv (dev\<lparr>bc_nodes := n\<rparr>) xs cs G = buf_inv dev xs cs G"
  "buf_inv (dev\<lparr>pending := p\<rparr>) xs cs G = buf_inv dev xs cs G"
  by (simp_all add: buf_inv_def pages_inv_def dirty_inv_def)

lemma clone_take:
  assumes inv: "buf_inv dev xs (c # cs) G"
  shows "uffs_BufClone None dev = (Some c, dev\<lparr>buf_clone := b_next (bufs dev c), bufs := (bufs dev)(c := detached (bufs dev c))\<rparr>)"
    and "c \<notin> set xs" "c \<notin> set cs" "length (b_page (bufs dev c)) = unat (pg_size dev)" "buf_clone dev = Some c"
proof -
  have p: "pages_inv dev xs (c # cs)" using inv by (simp add: buf_inv_def)
  show "uffs_BufClone None dev = (Some c, dev\<lparr>buf_clone := b_next (bufs dev c), bufs := (bufs dev)(c := detached (bufs dev c))\<rparr>)"
    unfolding uffs_BufClone_def GetFreeClone_inv(1)[OF p] by (simp add: detached_def upd_buf_def)
  show "c \<notin> set xs" "c \<notin> set cs" using p pages_invD(5)[OF p] by (auto simp: pages_inv_def)
  show "length (b_page (bufs dev c)) = unat (pg_size dev)" using pages_invD(6)[OF p] by simp
  show "buf_clone dev = Some c" using p by (simp add: pages_inv_def)
qed

lemma clone_give_back:
  assumes inv: "buf_inv dev xs (c # cs) G" and z: "b_ref_count z = CLONE_BUF_MARK" "length (b_page z) = unat (pg_size dev)"
  shows "\<exists>z'. uffs_BufFreeClone (Some c) (dev\<lparr>buf_clone := b_next (bufs dev c), bufs := (bufs dev)(c := z)\<rparr>) =
      (U_SUCC, dev\<lparr>bufs := (bufs dev)(c := z')\<rparr>) \<and> buf_inv (dev\<lparr>bufs := (bufs dev)(c := z')\<rparr>) xs (c # cs) G"
proof -
  have p: "pages_inv dev xs (c # cs)" and di: "dirty_inv dev (set xs) G"
    using inv by (simp_all add: buf_inv_def)
  note c = clone_take(2,3,5)[OF inv]
  define y where "y = z\<lparr>b_ref_count := 0, b_mark := UFFS_BUF_EMPTY\<rparr>"
  define d2 where "d2 = upd_buf c (\<lambda>_. y) (dev\<lparr>buf_clone := b_next (bufs dev c)\<rparr>)"
  define z' where "z' = y\<lparr>b_next := b_next (bufs dev c)\<rparr>"
  have e: "InsertToCloneBufList c d2 = dev\<lparr>bufs := (bufs dev)(c := z')\<rparr>"
    using c(3) by (simp add: InsertToCloneBufList_def d2_def z'_def upd_buf_def)
  have "pages_inv d2 xs cs" unfolding d2_def
    by (rule pages_inv_outside[OF GetFreeClone_inv(2)[OF p] c(1,2)])
  from InsertToClone_inv[OF this c(1,2)] have "pages_inv (dev\<lparr>bufs := (bufs dev)(c := z')\<rparr>) xs (c # cs)"
    unfolding e by (simp add: d2_def y_def z(2))
  moreover have "dirty_inv (dev\<lparr>bufs := (bufs dev)(c := z')\<rparr>) (set xs) G"
    using dirty_inv_outside[OF di c(1), of "\<lambda>_. z'"] by (simp add: upd_buf_def)
  moreover have "uffs_BufFreeClone (Some c) (dev\<lparr>buf_clone := b_next (bufs dev c), bufs := (bufs dev)(c := z)\<rparr>) =
      (U_SUCC, InsertToCloneBufList c d2)"
    using z(1) by (simp add: uffs_BufFreeClone_def d2_def y_def upd_buf_def)
  ultimately show ?thesis unfolding e by (auto simp: buf_inv_def)
qed

text \<open>What a driver call may change of the flash.\<close>

definition only_page :: "('f \<Rightarrow> nat \<Rightarrow> nat \<Rightarrow> bytes \<times> bytes) \<Rightarrow> ('f \<Rightarrow> nat \<Rightarrow> nat \<Rightarrow> nat \<Rightarrow> nat \<Rightarrow> bool) \<Rightarrow>
    ('f \<Rightarrow> nat \<Rightarrow> nat \<Rightarrow> bool) \<Rightarrow> nat \<Rightarrow> nat \<Rightarrow> 'f \<Rightarrow> 'f \<Rightarrow> bool" where
  "only_page cell ready clean b p f f' \<longleftrightarrow>
     (\<forall>b' p'. ready f b' p' 0 0 \<longrightarrow> (b', p') \<noteq> (b, p) \<longrightarrow>
        cell f' b' p' = cell f b' p' \<and> (clean f b' p' \<longrightarrow> clean f' b' p')) \<and>
     (\<forall>b' p' dl sl. ready f b' p' dl sl \<longrightarrow> ready f' b' p' dl sl)"

context flash_driver
begin

lemma write_driver_ok:
  assumes dev: "ops dev = D" and ok: "layout_ok (attr dev) (nat (spare_data_size dev))"
    and u: "nat (ecc_len (attr dev)) \<le> length (uninit dev)" and room: "ecc_room dev"
    and lay: "layout_opt (attr dev) \<noteq> UFFS_LAYOUT_FLASH"
    and rdy: "ready (drv dev) b p (unat (pg_size dev)) (nat (spare_data_size dev))" and cl: "clean (drv dev) b p"
    and mem: "length mem = unat (pg_size dev)" and a: "nat (spare_data_size dev) \<le> length (spare_mem dev a)"
  shows "\<exists>f m. write_driver (int b) (int p) a mem ts dev = Some (UFFS_FLASH_NO_ERR, dev\<lparr>drv := f, spare_mem := m\<rparr>) \<and>
    (\<forall>x. length (m x) = length (spare_mem dev x)) \<and> only_page cell ready clean b p (drv dev) f \<and>
    page_stored (attr dev) (unat (pg_size dev)) (cell f b p) mem 0 \<and>
    tag_stored (attr dev) (nat (spare_data_size dev)) (cell f b p) ts 0"
proof -
  let ?n = "nat (spare_data_size dev)"
  define sp where "sp = uffs_FlashMakeSpare (attr dev) ?n ts (write_ecc dev mem)"
  note e = write_ecc_ok[OF room u, of mem]
  note c = cell_spare[OF ok e(1), of ts, folded sp_def]
  obtain wr where wr: "WritePage D = Some wr" using has_write by blast
  have opt: "ecc_opt (attr dev) \<noteq> UFFS_ECC_HW" "ecc_opt (attr dev) \<noteq> UFFS_ECC_HW_AUTO"
    using room by (auto simp: ecc_room_def UFFS_ECC_SOFT_def UFFS_ECC_NONE_def UFFS_ECC_HW_def UFFS_ECC_HW_AUTO_def)
  have "ready (drv dev) b p (length mem) (length sp)" using rdy mem c(1) by simp
  from write_clean[OF this cl] obtain f where
    f: "wr (word_of_nat b) (word_of_nat p) (Some mem) (Some sp) (drv dev) = (UFFS_FLASH_NO_ERR, f)"
    and cf: "cell f b p = (mem @ drop (length mem) (fst (cell (drv dev) b p)), sp @ drop (length sp) (snd (cell (drv dev) b p)))"
    and o: "only_page cell ready clean b p (drv dev) f"
    unfolding wr only_page_def by auto
  have "page_error mem mem 0" by (rule page_error_refl)
  then have st: "page_stored (attr dev) (unat (pg_size dev)) (cell f b p) mem 0"
    using e(2) mem by (auto simp: page_stored_def cf c(3))
  have "tag_stored (attr dev) ?n (cell f b p) ts 0" using c by (simp add: tag_stored_def cf)
  moreover have "\<forall>x. length (((spare_mem dev)(a := memcpy (spare_mem dev a) 0 sp)) x) = length (spare_mem dev x)"
    using a c(1) by (simp add: memcpy_def)
  moreover have "write_driver (int b) (int p) a mem ts dev =
      Some (UFFS_FLASH_NO_ERR, dev\<lparr>drv := f, spare_mem := (spare_mem dev)(a := memcpy (spare_mem dev a) 0 sp)\<rparr>)"
    using opt lay mem by (simp add: write_driver_def Let_def dev no_layout_w wr sp_def[symmetric] f)
  ultimately show ?thesis using st o by blast
qed

lemma verify_page_ok:
  assumes dev: "ops dev = D" and sp: "spare_ready dev" and room: "ecc_room dev"
    and rdy: "ready (drv dev) b p (unat (pg_size dev)) (nat (spare_data_size dev))"
    and inv: "buf_inv dev xs cs G" "buf \<notin> set cs" and mem: "length (b_page (bufs dev buf)) = unat (pg_size dev)"
    and st: "page_stored (attr dev) (unat (pg_size dev)) (cell (drv dev) b p) (b_page (bufs dev buf)) 0"
  shows "\<exists>m B. verify_page (int b) (int p) buf UFFS_FLASH_NO_ERR dev =
      Some (UFFS_FLASH_NO_ERR, False, dev\<lparr>spare_mem := m, bufs := B\<rparr>) \<and>
    (\<forall>x. length (m x) = length (spare_mem dev x)) \<and> (\<forall>y. y \<notin> set cs \<longrightarrow> B y = bufs dev y) \<and>
    buf_inv (dev\<lparr>spare_mem := m, bufs := B\<rparr>) xs cs G"
proof (cases cs)
  case Nil
  then have "buf_clone dev = None" using inv(1) by (simp add: buf_inv_def pages_inv_def)
  then have "verify_page (int b) (int p) buf UFFS_FLASH_NO_ERR dev =
      Some (UFFS_FLASH_NO_ERR, False, dev\<lparr>spare_mem := spare_mem dev, bufs := bufs dev\<rparr>)"
    by (simp add: verify_page_def uffs_BufClone_def GetFreeCloneBuf_def)
  then show ?thesis using inv(1) by (intro exI[of _ "spare_mem dev"] exI[of _ "bufs dev"]) simp
next
  case (Cons c cs')
  note i = inv(1)[unfolded Cons]
  note t = clone_take[OF i]
  have cb: "c \<noteq> buf" using inv(2) Cons by auto
  define page where "page = b_page (bufs dev buf)"
  define d1 where "d1 = dev\<lparr>buf_clone := b_next (bufs dev c), bufs := (bufs dev)(c := detached (bufs dev c))\<rparr>"
  have same: "ops d1 = D" "drv d1 = drv dev" "attr d1 = attr dev" "pg_size d1 = pg_size dev"
    "spare_data_size d1 = spare_data_size dev" "spare_mem d1 = spare_mem dev"
    using dev by (simp_all add: d1_def)
  have sp1: "spare_ready d1" using sp by (simp add: spare_ready_def d1_def)
  have opt: "ecc_opt (attr d1) = UFFS_ECC_SOFT \<or> ecc_opt (attr d1) = UFFS_ECC_NONE"
    using room same by (auto simp: ecc_room_def)
  obtain mm where mm: "\<forall>x. length (mm x) = length (spare_mem dev x)"
    and rd: "uffs_FlashReadPage (int b) (int p) c False d1 = Some (UFFS_FLASH_NO_ERR,
      (upd_buf c (\<lambda>b. b\<lparr>b_page := page\<rparr>) d1)\<lparr>spare_mem := mm\<rparr>)"
    using ReadPage_stored[OF same(1) sp1 _ _ opt, of b p c page 0] rdy st t(4)
    by (auto simp: same page_def) (auto simp: d1_def detached_def)
  define z where "z = (detached (bufs dev c))\<lparr>b_page := page\<rparr>"
  let ?d = "dev\<lparr>spare_mem := mm\<rparr>"
  have "b_ref_count z = CLONE_BUF_MARK" "length (b_page z) = unat (pg_size ?d)"
    using mem by (simp_all add: z_def detached_def page_def)
  from clone_give_back[OF _ this, of xs c cs' G] i obtain z' where
    free: "uffs_BufFreeClone (Some c) (?d\<lparr>buf_clone := b_next (bufs dev c), bufs := (bufs dev)(c := z)\<rparr>) =
      (U_SUCC, ?d\<lparr>bufs := (bufs dev)(c := z')\<rparr>)"
    and i3: "buf_inv (?d\<lparr>bufs := (bufs dev)(c := z')\<rparr>) xs (c # cs') G" by auto
  have e: "(upd_buf c (\<lambda>b. b\<lparr>b_page := page\<rparr>) d1)\<lparr>spare_mem := mm\<rparr> =
      ?d\<lparr>buf_clone := b_next (bufs dev c), bufs := (bufs dev)(c := z)\<rparr>"
    by (simp add: upd_buf_def d1_def z_def)
  have pg: "b_page z = page" "b_page (bufs dev buf) = page" by (simp_all add: z_def page_def)
  have "verify_page (int b) (int p) buf UFFS_FLASH_NO_ERR dev =
      Some (UFFS_FLASH_NO_ERR, False, ?d\<lparr>bufs := (bufs dev)(c := z')\<rparr>)"
    unfolding verify_page_def t(1) using rd[unfolded d1_def] cb free
    by (simp add: e[unfolded d1_def] pg UFFS_FLASH_HAVE_ERR_def flash_codes UFFS_FLASH_IS_BAD_BLOCK_def)
  then show ?thesis using mm i3 Cons by (intro exI[of _ mm] exI[of _ "(bufs dev)(c := z')"]) auto
qed

lemma WritePageCombine_ok:
  fixes dev :: "'a device" and tag :: Tags
  assumes dev: "ops dev = D" and sp: "spare_ready dev" "spare_ready (snd (get_spare dev))" and room: "ecc_room dev"
    and lay: "layout_opt (attr dev) \<noteq> UFFS_LAYOUT_FLASH" and sz: "4 \<le> unat (pg_size dev)"
    and rdy: "ready (drv dev) b p (unat (pg_size dev)) (nat (spare_data_size dev))" and cl: "clean (drv dev) b p"
    and inv: "buf_inv dev xs cs G" "buf \<in> set xs"
  defines "mem \<equiv> write_header (unat (pg_size dev)) (b_page (bufs dev buf))"
    and "tag' \<equiv> write_tag (attr dev) tag"
  shows "\<exists>f m B. uffs_FlashWritePageCombine (int b) (int p) buf tag dev =
      Some (UFFS_FLASH_NO_ERR, tag', dev\<lparr>drv := f, spare_mem := m, bufs := B\<rparr>) \<and>
    only_page cell ready clean b p (drv dev) f \<and> page_stored (attr dev) (unat (pg_size dev)) (cell f b p) mem 0 \<and>
    tag_stored (attr dev) (nat (spare_data_size dev)) (cell f b p) (tag_s tag') 0 \<and>
    (\<forall>x. length (m x) = length (spare_mem dev x)) \<and> buf_inv (dev\<lparr>drv := f, spare_mem := m, bufs := B\<rparr>) xs cs G \<and>
    B buf = (bufs dev buf)\<lparr>b_page := mem\<rparr> \<and> (\<forall>y \<in> set xs. y \<noteq> buf \<longrightarrow> B y = bufs dev y)"
proof -
  have pi: "pages_inv dev xs cs" using inv(1) by (simp add: buf_inv_def)
  have nb: "buf \<notin> set cs" "length (b_page (bufs dev buf)) = unat (pg_size dev)"
    using pages_invD(6,7)[OF pi] inv(2) by simp_all
  then have lm: "length mem = unat (pg_size dev)" using sz header_length by (simp add: mem_def)
  obtain a q where g: "get_spare dev = (Some a, dev\<lparr>spare_pool := q\<rparr>)" and a: "nat (spare_data_size dev) \<le> length (spare_mem dev a)"
    and lo: "layout_ok (attr dev) (nat (spare_data_size dev))" and un: "nat (ecc_len (attr dev)) \<le> length (uninit dev)"
    by (rule spare_readyE[OF sp(1)])
  define d1 where "d1 = upd_buf buf (\<lambda>b. b\<lparr>b_page := mem\<rparr>) (dev\<lparr>spare_pool := q\<rparr>)"
  have s1: "ops d1 = D" "attr d1 = attr dev" "pg_size d1 = pg_size dev" "spare_data_size d1 = spare_data_size dev"
    "drv d1 = drv dev" "spare_mem d1 = spare_mem dev" "uninit d1 = uninit dev"
    using dev by (simp_all add: d1_def)
  have i1: "buf_inv d1 xs cs G"
  proof -
    have "buf_inv (upd_buf buf (\<lambda>b. b\<lparr>b_page := mem\<rparr>) dev) xs cs G"
      using inv(1) by (subst buf_inv_upd) (simp_all add: list_view_def dirty_view_def buf_obj_def lm nb(2))
    then show ?thesis by (simp add: d1_def buf_inv_def pages_inv_def dirty_inv_def upd_buf_def)
  qed
  have r1: "ecc_room d1" using room by (simp add: ecc_room_def s1)
  obtain f m where w: "write_driver (int b) (int p) a mem (tag_s tag') d1 = Some (UFFS_FLASH_NO_ERR, d1\<lparr>drv := f, spare_mem := m\<rparr>)"
    and lm1: "\<forall>x. length (m x) = length (spare_mem dev x)" and op: "only_page cell ready clean b p (drv dev) f"
    and ps: "page_stored (attr dev) (unat (pg_size dev)) (cell f b p) mem 0"
    and ts: "tag_stored (attr dev) (nat (spare_data_size dev)) (cell f b p) (tag_s tag') 0"
    using write_driver_ok[of d1 b p mem a "tag_s tag'", unfolded s1, OF refl lo un r1 lay rdy cl lm a] by blast
  define d2 where "d2 = d1\<lparr>drv := f, spare_mem := m\<rparr>"
  have s2: "ops d2 = D" "attr d2 = attr dev" "pg_size d2 = pg_size dev" "spare_data_size d2 = spare_data_size dev"
    "drv d2 = f" "b_page (bufs d2 buf) = mem" "spare_mem d2 = m"
    using s1 by (simp_all add: d2_def d1_def)
  have sp2: "spare_ready d2"
    using sp(2) lm1 by (auto simp: g spare_ready_def d2_def d1_def)
  have i2: "buf_inv d2 xs cs G" using i1 by (simp add: d2_def buf_inv_def pages_inv_def dirty_inv_def)
  have rdy2: "ready f b p (unat (pg_size dev)) (nat (spare_data_size dev))"
    using op rdy by (simp add: only_page_def)
  have r2: "ecc_room d2" using room by (simp add: ecc_room_def s2)
  obtain m3 B where v: "verify_page (int b) (int p) buf UFFS_FLASH_NO_ERR d2 =
      Some (UFFS_FLASH_NO_ERR, False, d2\<lparr>spare_mem := m3, bufs := B\<rparr>)"
    and m3: "\<forall>x. length (m3 x) = length (m x)" and B: "\<forall>y. y \<notin> set cs \<longrightarrow> B y = bufs d2 y"
    and i3: "buf_inv (d2\<lparr>spare_mem := m3, bufs := B\<rparr>) xs cs G"
    using verify_page_ok[of d2 b p xs cs G buf, unfolded s2, OF refl sp2 r2 rdy2 i2 nb(1) lm ps] by blast
  define d3 where "d3 = d2\<lparr>spare_mem := m3, bufs := B\<rparr>"
  have s3: "ops d3 = D" "attr d3 = attr dev" "spare_data_size d3 = spare_data_size dev" "drv d3 = f" "spare_mem d3 = m3"
    using s2 by (simp_all add: d3_def)
  have sp3: "spare_ready d3" using sp2 m3 by (auto simp: spare_ready_def d3_def s2)
  have co: "tag_coded (attr dev) (tag_s tag')" by (simp add: tag'_def)
  obtain m5 where m5: "\<forall>x. length (m5 x) = length (m3 x)"
    and rt5: "uffs_FlashReadPageTag (int b) (int p) (Some (uninit_tag d3)) d3 =
      Some (UFFS_FLASH_NO_ERR, Some ((uninit_tag d3)\<lparr>tag_s := tag_s tag', seal_byte := 0\<rparr>), d3\<lparr>spare_mem := m5\<rparr>)"
    using ReadPageTag_stored[of d3 b p _ "tag_s tag'" 0 "uninit_tag d3", unfolded s3, OF refl sp3 rdy2 ts co] by auto
  have vt: "verify_tag (int b) (int p) tag' False d3 = Some (UFFS_FLASH_NO_ERR, False, d3\<lparr>spare_mem := m5\<rparr>)"
    by (simp add: verify_tag_def rt5 UFFS_FLASH_HAVE_ERR_def flash_codes UFFS_FLASH_IS_BAD_BLOCK_def)
  have put: "put_spare a (d3\<lparr>spare_mem := m5\<rparr>) = dev\<lparr>drv := f, spare_mem := m5, bufs := B\<rparr>"
    using put_get_spare[OF g, of "d3\<lparr>spare_mem := m5\<rparr>"] by (simp add: d3_def d2_def d1_def upd_buf_def)
  have run: "uffs_FlashWritePageCombine (int b) (int p) buf tag dev =
      Some (UFFS_FLASH_NO_ERR, tag', dev\<lparr>drv := f, spare_mem := m5, bufs := B\<rparr>)"
    unfolding uffs_FlashWritePageCombine_def g
    using w v vt put
    by (simp add: Let_def mem_def[symmetric] d1_def[symmetric] s1(2) tag'_def[symmetric] d2_def[symmetric] d3_def[symmetric]
        UFFS_FLASH_HAVE_ERR_def flash_codes UFFS_FLASH_IS_BAD_BLOCK_def CONFIG_PAGE_WRITE_VERIFY_def)
  have "buf_inv (dev\<lparr>drv := f, spare_mem := m5, bufs := B\<rparr>) xs cs G"
    using i3 by (simp add: d2_def d1_def buf_inv_def pages_inv_def dirty_inv_def upd_buf_def)
  moreover have "B buf = (bufs dev buf)\<lparr>b_page := mem\<rparr>" "\<forall>y \<in> set xs. y \<noteq> buf \<longrightarrow> B y = bufs dev y"
    using B nb(1) pages_invD(7)[OF pi] by (auto simp: d2_def d1_def)
  ultimately show ?thesis using run op ps ts lm1 m3 m5 by (intro exI[of _ f] exI[of _ m5] exI[of _ B]) simp
qed

end

section \<open>Checking an erased block\<close>

definition page_ones :: "'f device \<Rightarrow> bytes \<times> bytes \<Rightarrow> bool" where
  "page_ones dev c \<longleftrightarrow> all_ones (take (unat (pg_size dev)) (fst c)) \<and> all_ones (take (unat (spare_size (attr dev))) (snd c))"

context flash_reader
begin

lemma check_page_cell:
  assumes dev: "ops dev = D" and rdy: "ready (drv dev) b p (unat (pg_size dev)) (unat (spare_size (attr dev)))"
    and v: "length (b_page (bufs dev v)) = unat (pg_size dev)" and a: "unat (spare_size (attr dev)) \<le> length (spare_mem dev a)"
  shows "\<exists>m pg. check_page (int b) a v (int p) ts ecc dev =
      Some (page_ones dev (cell (drv dev) b p), ts, ecc, dev\<lparr>spare_mem := m, bufs := (bufs dev)(v := (bufs dev v)\<lparr>b_page := pg\<rparr>)\<rparr>) \<and>
    length pg = unat (pg_size dev) \<and> (\<forall>x. length (m x) = length (spare_mem dev x))"
proof -
  let ?sz = "unat (pg_size dev)" let ?n = "unat (spare_size (attr dev))"
  define d s where "d = take ?sz (fst (cell (drv dev) b p))" and "s = take ?n (snd (cell (drv dev) b p))"
  obtain rd where rd: "ReadPage D = Some rd" using has_read by blast
  have l: "length d = ?sz" "length s = ?n" using cell_size[OF rdy] by (simp_all add: d_def s_def)
  have call: "rd (word_of_nat b) (word_of_nat p) (Some (take ?sz (b_page (bufs dev v)))) None (Some (take ?n (spare_mem dev a))) (drv dev)
      = ((UFFS_FLASH_NO_ERR, Some d, None, Some s), drv dev)"
  proof -
    have "the (ReadPage D) (word_of_nat b) (word_of_nat p) (Some (take ?sz (b_page (bufs dev v)))) None
          (Some (take ?n (spare_mem dev a))) (drv dev)
        = ((UFFS_FLASH_NO_ERR, map_option (\<lambda>_. take ?sz (fst (cell (drv dev) b p))) (Some (take ?sz (b_page (bufs dev v)))), None,
            map_option (\<lambda>_. take ?n (snd (cell (drv dev) b p))) (Some (take ?n (spare_mem dev a)))), drv dev)"
      by (rule read[OF rdy]) (use v a in auto)
    then show ?thesis by (simp add: rd d_def s_def)
  qed
  define m where "m = (spare_mem dev)(a := memcpy (spare_mem dev a) 0 s)"
  have c: "memcpy (b_page (bufs dev v)) 0 d = d" using v l by (intro memcpy_all) simp
  have t: "take ?n (memcpy (spare_mem dev a) 0 s) = s" "take ?sz d = d" by (simp_all add: memcpy_def l)
  have po: "page_ones dev (cell (drv dev) b p) = (all_ones s \<and> all_ones d)"
    unfolding page_ones_def d_def s_def by blast
  have "check_page (int b) a v (int p) ts ecc dev =
      Some (page_ones dev (cell (drv dev) b p), ts, ecc, dev\<lparr>spare_mem := m, bufs := (bufs dev)(v := (bufs dev v)\<lparr>b_page := d\<rparr>)\<rparr>)"
    unfolding check_page_def
    by (simp add: dev no_layout rd call c t Let_def po flash_codes m_def upd_buf_def)
  moreover have "length (m x) = length (spare_mem dev x)" for x using a l(2) by (simp add: m_def memcpy_def)
  ultimately show ?thesis using l(1) by blast
qed

lemma check_pages_cells:
  assumes "ops dev = D" "\<forall>p \<in> set ks. ready (drv dev) b p (unat (pg_size dev)) (unat (spare_size (attr dev)))"
    "length (b_page (bufs dev v)) = unat (pg_size dev)" "unat (spare_size (attr dev)) \<le> length (spare_mem dev a)"
  shows "\<exists>m pg. check_pages (int b) a v ks ts ecc dev =
      Some (if \<forall>p \<in> set ks. page_ones dev (cell (drv dev) b p) then U_SUCC else U_FAIL,
            dev\<lparr>spare_mem := m, bufs := (bufs dev)(v := (bufs dev v)\<lparr>b_page := pg\<rparr>)\<rparr>) \<and>
    length pg = unat (pg_size dev) \<and> (\<forall>x. length (m x) = length (spare_mem dev x))"
  using assms
proof (induction ks arbitrary: dev ts ecc)
  case Nil
  have "dev = dev\<lparr>spare_mem := spare_mem dev, bufs := (bufs dev)(v := (bufs dev v)\<lparr>b_page := b_page (bufs dev v)\<rparr>)\<rparr>" by simp
  then show ?case using Nil by (intro exI[of _ "spare_mem dev"] exI[of _ "b_page (bufs dev v)"]) simp
next
  case (Cons p ks)
  obtain m pg where c: "check_page (int b) a v (int p) ts ecc dev =
      Some (page_ones dev (cell (drv dev) b p), ts, ecc, dev\<lparr>spare_mem := m, bufs := (bufs dev)(v := (bufs dev v)\<lparr>b_page := pg\<rparr>)\<rparr>)"
    and l: "length pg = unat (pg_size dev)" "\<forall>x. length (m x) = length (spare_mem dev x)"
    using check_page_cell[of dev b p v a ts ecc] Cons.prems by auto
  let ?d = "dev\<lparr>spare_mem := m, bufs := (bufs dev)(v := (bufs dev v)\<lparr>b_page := pg\<rparr>)\<rparr>"
  show ?case
  proof (cases "page_ones dev (cell (drv dev) b p)")
    case True
    have "page_ones ?d = page_ones dev" by (simp add: page_ones_def fun_eq_iff)
    obtain m' pg' where r: "check_pages (int b) a v ks ts ecc ?d =
        Some (if \<forall>p \<in> set ks. page_ones dev (cell (drv dev) b p) then U_SUCC else U_FAIL,
          dev\<lparr>spare_mem := m', bufs := (bufs dev)(v := (bufs dev v)\<lparr>b_page := pg'\<rparr>)\<rparr>)"
      "length pg' = unat (pg_size dev)" "\<forall>x. length (m' x) = length (spare_mem dev x)"
      using Cons.IH[of ?d ts ecc] Cons.prems l by (auto simp: \<open>page_ones ?d = page_ones dev\<close> fun_upd_same simp del: fun_upd_apply)
    show ?thesis
      by (intro exI[of _ m'] exI[of _ pg']) (simp add: c True r del: fun_upd_apply)
  next
    case False
    then show ?thesis using l by (intro exI[of _ m] exI[of _ pg]) (simp add: c del: fun_upd_apply)
  qed
qed

lemma CheckErasedBlock_cells:
  fixes dev :: "'f device"
  assumes dev: "ops dev = D" and nc: "CheckErasedBlock D = None"
    and rdy: "\<forall>p < ppb dev. ready (drv dev) b p (unat (pg_size dev)) (unat (spare_size (attr dev)))"
    and fr: "p_free_list (spare_pool dev) = Some a" "unat (spare_size (attr dev)) \<le> length (spare_mem dev a)"
    and inv: "buf_inv dev xs (c # cs) G"
  shows "\<exists>m B. uffs_FlashCheckErasedBlock (int b) dev =
      Some (if \<forall>p < ppb dev. page_ones dev (cell (drv dev) b p) then U_SUCC else U_FAIL,
            dev\<lparr>spare_mem := m, bufs := B\<rparr>) \<and>
    buf_inv (dev\<lparr>spare_mem := m, bufs := B\<rparr>) xs (c # cs) G \<and> (\<forall>y. y \<noteq> c \<longrightarrow> B y = bufs dev y)"
proof -
  obtain q where g: "get_spare dev = (Some a, dev\<lparr>spare_pool := q\<rparr>)"
    using fr(1) by (simp add: get_spare_def uffs_PoolGet_def)
  have i0: "buf_inv (dev\<lparr>spare_pool := q\<rparr>) xs (c # cs) G" using inv by simp
  note t = clone_take[OF i0]
  define d1 where "d1 = dev\<lparr>spare_pool := q, buf_clone := b_next (bufs dev c), bufs := (bufs dev)(c := detached (bufs dev c))\<rparr>"
  have same: "ops d1 = D" "drv d1 = drv dev" "attr d1 = attr dev" "pg_size d1 = pg_size dev" "spare_mem d1 = spare_mem dev"
    "bufs d1 c = detached (bufs dev c)" "ppb d1 = ppb dev"
    using dev by (simp_all add: d1_def ppb_def)
  have ones: "page_ones d1 = page_ones dev" by (simp add: page_ones_def fun_eq_iff same)
  have v: "length (b_page (bufs d1 c)) = unat (pg_size d1)" using t(4) by (simp add: same detached_def)
  obtain m pg where ck: "check_pages (int b) a c [0..<ppb d1] (tag_s (uninit_tag d1)) (uninit d1) d1 =
      Some (if \<forall>p \<in> {0..<ppb dev}. page_ones dev (cell (drv dev) b p) then U_SUCC else U_FAIL,
        d1\<lparr>spare_mem := m, bufs := (bufs d1)(c := (bufs d1 c)\<lparr>b_page := pg\<rparr>)\<rparr>)"
    and l: "length pg = unat (pg_size dev)" "\<forall>x. length (m x) = length (spare_mem dev x)"
    using check_pages_cells[of d1 "[0..<ppb d1]" b c a "tag_s (uninit_tag d1)" "uninit d1"] rdy fr(2) v
    by (auto simp: same(1-5,7) ones simp del: fun_upd_apply)
  have all: "(\<forall>p \<in> {0..<ppb dev}. P p) = (\<forall>p < ppb dev. P p)" for P by auto
  define z where "z = (detached (bufs dev c))\<lparr>b_page := pg\<rparr>"
  let ?d = "dev\<lparr>spare_mem := m\<rparr>"
  have "b_ref_count z = CLONE_BUF_MARK" "length (b_page z) = unat (pg_size ?d)"
    using l(1) by (simp_all add: z_def detached_def)
  from clone_give_back[OF _ this, of xs c cs G] inv obtain z' where
    free: "uffs_BufFreeClone (Some c) (?d\<lparr>buf_clone := b_next (bufs dev c), bufs := (bufs dev)(c := z)\<rparr>) =
      (U_SUCC, ?d\<lparr>bufs := (bufs dev)(c := z')\<rparr>)"
    and i3: "buf_inv (?d\<lparr>bufs := (bufs dev)(c := z')\<rparr>) xs (c # cs) G" by auto
  have put: "put_spare a (d1\<lparr>spare_mem := m, bufs := (bufs d1)(c := (bufs d1 c)\<lparr>b_page := pg\<rparr>)\<rparr>) =
      ?d\<lparr>buf_clone := b_next (bufs dev c), bufs := (bufs dev)(c := z)\<rparr>"
    using put_get_spare[OF g] by (simp add: d1_def z_def)
  have "uffs_FlashCheckErasedBlock (int b) dev =
      Some (if \<forall>p < ppb dev. page_ones dev (cell (drv dev) b p) then U_SUCC else U_FAIL, ?d\<lparr>bufs := (bufs dev)(c := z')\<rparr>)"
    unfolding uffs_FlashCheckErasedBlock_def g using t(1) ck[unfolded all] free put
    by (simp add: dev nc Let_def d1_def[symmetric] del: fun_upd_apply)
  then show ?thesis using i3 by (intro exI[of _ m] exI[of _ "(bufs dev)(c := z')"]) auto
qed

end

section \<open>Erasing a block\<close>

lemma fold_expire_ref: "fold expire_page ks (b\<lparr>bi_ref_count := r\<rparr>) = (fold expire_page ks b)\<lparr>bi_ref_count := r\<rparr>"
proof (induction ks arbitrary: b)
  case (Cons i ks)
  have "expire_page i (b\<lparr>bi_ref_count := r\<rparr>) = (expire_page i b)\<lparr>bi_ref_count := r\<rparr>" by (simp add: expire_page_def)
  then show ?case by (simp only: fold_simps Cons.IH)
qed simp

lemma fold_expire_ref_count: "bi_ref_count (fold expire_page ks b) = bi_ref_count b"
  by (induction ks arbitrary: b) simp_all

text \<open>The cached copy of the block is expired; the references are as before.\<close>

lemma expire_cached_ok:
  assumes inv: "bc_inv dev xs"
  shows "\<exists>n. expire_cached (uint b) dev = Some (dev\<lparr>bc_nodes := n\<rparr>) \<and> bc_inv (dev\<lparr>bc_nodes := n\<rparr>) xs \<and>
    (\<forall>x. bi_block (n x) = bi_block (bc_nodes dev x) \<and> bi_ref_count (n x) = bi_ref_count (bc_nodes dev x)) \<and>
    (\<forall>x. bi_block (bc_nodes dev x) \<noteq> b \<longrightarrow> n x = bc_nodes dev x) \<and>
    (b \<noteq> UFFS_INVALID_BLOCK \<longrightarrow> (\<forall>x \<in> set xs. \<forall>i < ppb dev. bi_block (n x) = b \<longrightarrow> sp_expired (bi_spares (n x) ! i)))"
proof (cases "List.find (\<lambda>x. bi_block (bc_nodes dev x) = b) xs")
  case None
  then have "\<forall>x \<in> set xs. bi_block (bc_nodes dev x) \<noteq> b" by (simp add: find_None_iff_set)
  moreover have "expire_cached (uint b) dev = Some (dev\<lparr>bc_nodes := bc_nodes dev\<rparr>)"
    unfolding expire_cached_def Find_eq[OF inv] None by simp
  ultimately show ?thesis using inv by (intro exI[of _ "bc_nodes dev"]) auto
next
  case (Some x)
  have x: "x \<in> set xs" "bi_block (bc_nodes dev x) = b"
    using find_Some_in[OF Some] by auto
  have ok: "bi_ok (ppb dev) (bc_nodes dev x)" by (rule bc_invD(3)[OF inv x(1)])
  let ?f = "fold expire_page [0..<ppb dev]"
  let ?n = "(bc_nodes dev)(x := ?f (bc_nodes dev x))"
  have "0 \<le> bi_ref_count (bc_nodes dev x)" using ok by (simp add: bi_ok_def)
  then have r: "bi_ref_count (bc_nodes dev x) + 1 \<noteq> 0" by linarith
  have e: "(?f (bc_nodes dev x))\<lparr>bi_ref_count := bi_ref_count (bc_nodes dev x)\<rparr> = ?f (bc_nodes dev x)"
    using fold_expire_ref_count[of "[0..<ppb dev]" "bc_nodes dev x"] by simp
  have "expire_cached (uint b) dev = Some (dev\<lparr>bc_nodes := ?n\<rparr>)"
    unfolding expire_cached_def Find_eq[OF inv] Some using r
    by (simp add: uffs_BlockInfoExpire_def uffs_BlockInfoPut_def fold_expire_ref fold_expire_ref_count)
      (simp add: upd_bi_def fold_expire_ref e)
  moreover have "bc_inv (dev\<lparr>bc_nodes := ?n\<rparr>) xs"
    using Expire_inv[OF inv x(1), of UFFS_ALL_PAGES] by (simp add: uffs_BlockInfoExpire_def upd_bi_def)
  moreover have "sp_expired (bi_spares (?n y) ! i)" if "b \<noteq> UFFS_INVALID_BLOCK" "y \<in> set xs" "i < ppb dev" "bi_block (?n y) = b" for y i
  proof -
    have "bi_block (bc_nodes dev y) = b" using that(4) by (auto split: if_splits)
    then have "y = x" using inv x that(1,2) unfolding bc_inv_def by metis
    then show ?thesis using that(3) ok fold_expire_spares[of "[0..<ppb dev]" "bc_nodes dev x" i] by (simp add: bi_ok_def)
  qed
  ultimately show ?thesis using x by (intro exI[of _ ?n]) (auto simp: fold_expire_ref_count)
qed

context flash_driver
begin

lemma EraseBlock_ok:
  fixes dev :: "'a device"
  assumes dev: "ops dev = D" and er: "erasable (drv dev) (unat b)" and inv: "bc_inv dev xs"
  shows "\<exists>f n. uffs_FlashEraseBlock (uint b) dev =
      Some (UFFS_FLASH_NO_ERR, dev\<lparr>drv := f, bc_nodes := n, pending := snd (uffs_BadBlockPendingRemove (uint b) (pending dev))\<rparr>) \<and>
    (\<forall>p. ready (drv dev) (unat b) p 0 0 \<longrightarrow> clean f (unat b) p \<and>
       cell f (unat b) p = (map (\<lambda>_. 0xFF) (fst (cell (drv dev) (unat b) p)), map (\<lambda>_. 0xFF) (snd (cell (drv dev) (unat b) p)))) \<and>
    (\<forall>b' p. ready (drv dev) b' p 0 0 \<longrightarrow> b' \<noteq> unat b \<longrightarrow> cell f b' p = cell (drv dev) b' p) \<and>
    (\<forall>b' p dl sl. ready (drv dev) b' p dl sl \<longrightarrow> ready f b' p dl sl) \<and>
    bc_inv (dev\<lparr>bc_nodes := n\<rparr>) xs \<and> (\<forall>x. bi_block (bc_nodes dev x) \<noteq> b \<longrightarrow> n x = bc_nodes dev x) \<and>
    (b \<noteq> UFFS_INVALID_BLOCK \<longrightarrow> (\<forall>x \<in> set xs. \<forall>i < ppb dev. bi_block (n x) = b \<longrightarrow> sp_expired (bi_spares (n x) ! i)))"
proof -
  obtain e where e: "EraseBlock D = Some e" using has_erase by blast
  have w: "(word_of_int (uint b) :: u32) = word_of_nat (unat b)" by simp
  obtain f where f: "e (word_of_nat (unat b)) (drv dev) = (UFFS_FLASH_NO_ERR, f)"
    and o: "\<forall>b' p dl sl. ready (drv dev) b' p dl sl \<longrightarrow> ready f b' p dl sl"
      "\<forall>p. ready (drv dev) (unat b) p 0 0 \<longrightarrow> clean f (unat b) p \<and>
        cell f (unat b) p = (map (\<lambda>_. 0xFF) (fst (cell (drv dev) (unat b) p)), map (\<lambda>_. 0xFF) (snd (cell (drv dev) (unat b) p)))"
      "\<forall>b' p. ready (drv dev) b' p 0 0 \<longrightarrow> b' \<noteq> unat b \<longrightarrow> cell f b' p = cell (drv dev) b' p"
    using erase_block[OF er] unfolding e option.sel by blast
  define d1 where "d1 = dev\<lparr>pending := snd (uffs_BadBlockPendingRemove (uint b) (pending dev)), drv := f\<rparr>"
  have i1: "bc_inv d1 xs" using inv by (simp add: d1_def bc_inv_def ppb_def)
  have s1: "bc_nodes d1 = bc_nodes dev" "ppb d1 = ppb dev" by (simp_all add: d1_def ppb_def)
  obtain n where n: "expire_cached (uint b) d1 = Some (d1\<lparr>bc_nodes := n\<rparr>)" "bc_inv (d1\<lparr>bc_nodes := n\<rparr>) xs"
    "\<forall>x. bi_block (bc_nodes dev x) \<noteq> b \<longrightarrow> n x = bc_nodes dev x"
    "b \<noteq> UFFS_INVALID_BLOCK \<longrightarrow> (\<forall>x \<in> set xs. \<forall>i < ppb dev. bi_block (n x) = b \<longrightarrow> sp_expired (bi_spares (n x) ! i))"
    using expire_cached_ok[OF i1, of b] unfolding s1 by blast
  have "bc_inv (dev\<lparr>bc_nodes := n\<rparr>) xs" using n(2) by (simp add: d1_def bc_inv_def ppb_def)
  moreover have "uffs_FlashEraseBlock (uint b) dev =
      Some (UFFS_FLASH_NO_ERR, dev\<lparr>drv := f, bc_nodes := n, pending := snd (uffs_BadBlockPendingRemove (uint b) (pending dev))\<rparr>)"
    using n(1) f by (simp add: uffs_FlashEraseBlock_def pending_remove_def Let_def dev e w[symmetric] d1_def)
  ultimately show ?thesis using o n(3,4) by (intro exI[of _ f] exI[of _ n]) blast
qed

end

section \<open>On the emulated flash\<close>

lemma femu_ops_simps [simp]:
  "ReadPageWithLayout (g_femu_ops_ecc_soft at) = None" "WritePageWithLayout (g_femu_ops_ecc_soft at) = None"
  "CheckErasedBlock (g_femu_ops_ecc_soft at) = None" "WritePage (g_femu_ops_ecc_soft at) = Some (femu_WritePage at)"
  by (simp_all add: g_femu_ops_ecc_soft_def)

text \<open>The device can write: its driver is the emulator, two spare buffers are free, the layout
  leaves room for the ECC.\<close>

definition femu_writable :: "femu device \<Rightarrow> bool" where
  "femu_writable dev \<longleftrightarrow> ops dev = g_femu_ops_ecc_soft (attr dev) \<and> spare_ready dev \<and>
     spare_ready (snd (get_spare dev)) \<and> ecc_room dev \<and> layout_opt (attr dev) \<noteq> UFFS_LAYOUT_FLASH \<and>
     4 \<le> unat (pg_size dev)"

abbreviation dev_cell :: "femu device \<Rightarrow> nat \<Rightarrow> nat \<Rightarrow> bytes \<times> bytes" where
  "dev_cell dev \<equiv> femu_cell (attr dev) (drv dev)"

abbreviation dev_ready :: "femu device \<Rightarrow> nat \<Rightarrow> nat \<Rightarrow> bool" where
  "dev_ready dev b p \<equiv> femu_ready (attr dev) (drv dev) b p (unat (pg_size dev)) (nat (spare_data_size dev))"

text \<open>C1. Writing a page and its tag to a clean page of the flash succeeds, its verification
  included. Then the flash holds the page with its mini header and the tag with its code, every
  other page of the flash holds what it held before, the page buffer holds what was written, and
  the buffer lists, the spare pool and all other buffers in use are as before.\<close>

theorem page_write_stores:
  fixes dev :: "femu device" and tag :: Tags
  assumes "femu_writable dev" "dev_ready dev b p" "femu_clean (attr dev) (drv dev) b p"
    and "buf_inv dev xs cs G" "buf \<in> set xs"
  defines "page \<equiv> write_header (unat (pg_size dev)) (b_page (bufs dev buf))" and "tag' \<equiv> write_tag (attr dev) tag"
  shows "\<exists>f m B. uffs_FlashWritePageCombine (int b) (int p) buf tag dev =
      Some (UFFS_FLASH_NO_ERR, tag', dev\<lparr>drv := f, spare_mem := m, bufs := B\<rparr>) \<and>
    page_stored (attr dev) (unat (pg_size dev)) (femu_cell (attr dev) f b p) page 0 \<and>
    tag_stored (attr dev) (nat (spare_data_size dev)) (femu_cell (attr dev) f b p) (tag_s tag') 0 \<and>
    (\<forall>b' p'. dev_ready dev b' p' \<longrightarrow> (b', p') \<noteq> (b, p) \<longrightarrow> femu_cell (attr dev) f b' p' = dev_cell dev b' p') \<and>
    femu_writable (dev\<lparr>drv := f, spare_mem := m, bufs := B\<rparr>) \<and> buf_inv (dev\<lparr>drv := f, spare_mem := m, bufs := B\<rparr>) xs cs G \<and>
    B buf = (bufs dev buf)\<lparr>b_page := page\<rparr> \<and> (\<forall>y \<in> set xs. y \<noteq> buf \<longrightarrow> B y = bufs dev y)"
proof -
  have w: "ops dev = g_femu_ops_ecc_soft (attr dev)" "spare_ready dev" "spare_ready (snd (get_spare dev))" "ecc_room dev"
    "layout_opt (attr dev) \<noteq> UFFS_LAYOUT_FLASH" "4 \<le> unat (pg_size dev)"
    using assms(1) by (simp_all add: femu_writable_def)
  obtain f m B where r: "uffs_FlashWritePageCombine (int b) (int p) buf tag dev =
      Some (UFFS_FLASH_NO_ERR, tag', dev\<lparr>drv := f, spare_mem := m, bufs := B\<rparr>)"
    and op: "only_page (femu_cell (attr dev)) (femu_ready (attr dev)) (femu_clean (attr dev)) b p (drv dev) f"
    and st: "page_stored (attr dev) (unat (pg_size dev)) (femu_cell (attr dev) f b p) page 0"
      "tag_stored (attr dev) (nat (spare_data_size dev)) (femu_cell (attr dev) f b p) (tag_s tag') 0"
    and l: "\<forall>x. length (m x) = length (spare_mem dev x)"
    and B: "buf_inv (dev\<lparr>drv := f, spare_mem := m, bufs := B\<rparr>) xs cs G"
      "B buf = (bufs dev buf)\<lparr>b_page := page\<rparr>" "\<forall>y \<in> set xs. y \<noteq> buf \<longrightarrow> B y = bufs dev y"
    using femu.WritePageCombine_ok[OF w assms(2-5), of tag] unfolding page_def tag'_def by blast
  have "femu_ready (attr dev) (drv dev) b' p' 0 0" if "dev_ready dev b' p'" for b' p'
    using that by (simp add: femu_ready_def)
  then have o: "\<forall>b' p'. dev_ready dev b' p' \<longrightarrow> (b', p') \<noteq> (b, p) \<longrightarrow> femu_cell (attr dev) f b' p' = dev_cell dev b' p'"
    using op unfolding only_page_def by blast
  have "spare_ready (dev\<lparr>drv := f, spare_mem := m, bufs := B\<rparr>)" "ecc_room (dev\<lparr>drv := f, spare_mem := m, bufs := B\<rparr>)"
    "spare_ready (snd (get_spare (dev\<lparr>drv := f, spare_mem := m, bufs := B\<rparr>)))"
    using w(2-4) l by (auto simp: spare_ready_def ecc_room_def get_spare_def uffs_PoolGet_def case_prod_unfold Let_def split: option.splits)
  then have "femu_writable (dev\<lparr>drv := f, spare_mem := m, bufs := B\<rparr>)"
    using w by (simp add: femu_writable_def)
  then show ?thesis using r st o B by (intro exI[of _ f] exI[of _ m] exI[of _ B]) blast
qed

text \<open>C5. What the flash holds is read back: with at most one flipped bit in every ECC chunk of
  the page and at most one in the tag, both are restored, and the result code tells whether
  bits had to be repaired. Without ECC the intact page and tag are read. Nothing but the page
  memory of the buffer changes.\<close>

theorem stored_page_reads_back:
  fixes dev :: "femu device"
  assumes "femu_writable dev" "dev_ready dev b p" "length (b_page (bufs dev buf)) = unat (pg_size dev)"
    and "page_stored (attr dev) (unat (pg_size dev)) (dev_cell dev b p) page m"
    and "tag_stored (attr dev) (nat (spare_data_size dev)) (dev_cell dev b p) ts k" "tag_coded (attr dev) ts"
  shows "(\<exists>mem. uffs_FlashReadPage (int b) (int p) buf False dev =
      Some (if m > 0 then UFFS_FLASH_ECC_OK else UFFS_FLASH_NO_ERR,
            (upd_buf buf (\<lambda>b. b\<lparr>b_page := page\<rparr>) dev)\<lparr>spare_mem := mem\<rparr>)) \<and>
    (\<exists>mem. uffs_FlashReadPageTag (int b) (int p) (Some t0) dev =
      Some (if k > 0 then UFFS_FLASH_ECC_OK else UFFS_FLASH_NO_ERR,
            Some (t0\<lparr>tag_s := ts, seal_byte := 0\<rparr>), dev\<lparr>spare_mem := mem\<rparr>))"
proof -
  have w: "ops dev = g_femu_ops_ecc_soft (attr dev)" "spare_ready dev"
    "ecc_opt (attr dev) = UFFS_ECC_SOFT \<or> ecc_opt (attr dev) = UFFS_ECC_NONE"
    using assms(1) by (auto simp: femu_writable_def ecc_room_def)
  show ?thesis
    using femu.ReadPage_stored[OF w(1,2) assms(2,3) w(3) assms(4)]
      femu.ReadPageTag_stored[OF w(1,2) assms(2,5,6), of t0] by blast
qed

text \<open>C37. Checking a block reads all its pages and accepts it exactly if the data and the spare
  area of every page are all ones. The spare buffer and the clone are given back.\<close>

theorem CheckErasedBlock_iff:
  fixes dev :: "femu device"
  assumes "ops dev = g_femu_ops_ecc_soft (attr dev)" "buf_inv dev xs (c # cs) G"
    and "\<forall>p < ppb dev. femu_ready (attr dev) (drv dev) b p (unat (pg_size dev)) (unat (spare_size (attr dev)))"
    and "p_free_list (spare_pool dev) = Some a" "unat (spare_size (attr dev)) \<le> length (spare_mem dev a)"
  shows "\<exists>m B. uffs_FlashCheckErasedBlock (int b) dev =
      Some (if \<forall>p < ppb dev. page_ones dev (dev_cell dev b p) then U_SUCC else U_FAIL,
            dev\<lparr>spare_mem := m, bufs := B\<rparr>) \<and>
    buf_inv (dev\<lparr>spare_mem := m, bufs := B\<rparr>) xs (c # cs) G \<and> (\<forall>y \<in> set xs. B y = bufs dev y)"
proof -
  have c: "c \<notin> set xs" by (rule clone_take(2)[OF assms(2)])
  obtain m B where r: "uffs_FlashCheckErasedBlock (int b) dev =
      Some (if \<forall>p < ppb dev. page_ones dev (dev_cell dev b p) then U_SUCC else U_FAIL, dev\<lparr>spare_mem := m, bufs := B\<rparr>)"
    "buf_inv (dev\<lparr>spare_mem := m, bufs := B\<rparr>) xs (c # cs) G" "\<forall>y. y \<noteq> c \<longrightarrow> B y = bufs dev y"
    using femu.CheckErasedBlock_cells[OF assms(1) femu_ops_simps(3) assms(3-5,2)] by blast
  from r(3) c have "\<forall>y \<in> set xs. B y = bufs dev y" by metis
  with r(1,2) show ?thesis by blast
qed

lemma all_ones_map [simp]: "all_ones (take n (map (\<lambda>_. 0xFF) xs))"
  by (auto simp: all_ones_def dest: in_set_takeD)

text \<open>C20. Erasing a block makes all its pages clean and all their bytes ones, so that the check
  accepts it; no page of another block changes, the block is no longer pending, and what the
  block cache holds of it is expired while the cache stays well-formed.\<close>

theorem erase_makes_clean:
  fixes dev :: "femu device" and b :: u16
  assumes "ops dev = g_femu_ops_ecc_soft (attr dev)" "femu_erasable (attr dev) (drv dev) (unat b)"
    and "bc_inv dev xs" "b \<noteq> UFFS_INVALID_BLOCK" "buf_inv dev ys (c # cs) G"
    and "\<forall>p < ppb dev. femu_ready (attr dev) (drv dev) (unat b) p (unat (pg_size dev)) (unat (spare_size (attr dev)))"
    and "p_free_list (spare_pool dev) = Some a" "unat (spare_size (attr dev)) \<le> length (spare_mem dev a)"
  shows "\<exists>dev'. uffs_FlashEraseBlock (uint b) dev = Some (UFFS_FLASH_NO_ERR, dev') \<and>
    (\<forall>p < ppb dev. femu_clean (attr dev) (drv dev') (unat b) p) \<and>
    (\<forall>b' p. femu_ready (attr dev) (drv dev) b' p 0 0 \<longrightarrow> b' \<noteq> unat b \<longrightarrow> dev_cell dev' b' p = dev_cell dev b' p) \<and>
    pending dev' = snd (uffs_BadBlockPendingRemove (uint b) (pending dev)) \<and> bc_inv dev' xs \<and>
    (\<forall>x \<in> set xs. \<forall>i < ppb dev. bi_block (bc_nodes dev' x) = b \<longrightarrow> sp_expired (bi_spares (bc_nodes dev' x) ! i)) \<and>
    (\<exists>dev''. uffs_FlashCheckErasedBlock (uint b) dev' = Some (U_SUCC, dev''))"
proof -
  obtain f n where e: "uffs_FlashEraseBlock (uint b) dev =
      Some (UFFS_FLASH_NO_ERR, dev\<lparr>drv := f, bc_nodes := n, pending := snd (uffs_BadBlockPendingRemove (uint b) (pending dev))\<rparr>)"
    and cl: "\<forall>p. femu_ready (attr dev) (drv dev) (unat b) p 0 0 \<longrightarrow> femu_clean (attr dev) f (unat b) p \<and>
       femu_cell (attr dev) f (unat b) p = (map (\<lambda>_. 0xFF) (fst (dev_cell dev (unat b) p)), map (\<lambda>_. 0xFF) (snd (dev_cell dev (unat b) p)))"
    and o: "\<forall>b' p. femu_ready (attr dev) (drv dev) b' p 0 0 \<longrightarrow> b' \<noteq> unat b \<longrightarrow> femu_cell (attr dev) f b' p = dev_cell dev b' p"
    and rd: "\<forall>b' p dl sl. femu_ready (attr dev) (drv dev) b' p dl sl \<longrightarrow> femu_ready (attr dev) f b' p dl sl"
    and bc: "bc_inv (dev\<lparr>bc_nodes := n\<rparr>) xs"
      "\<forall>x \<in> set xs. \<forall>i < ppb dev. bi_block (n x) = b \<longrightarrow> sp_expired (bi_spares (n x) ! i)"
    using femu.EraseBlock_ok[OF assms(1-3)] assms(4) by blast
  define dev' where "dev' = dev\<lparr>drv := f, bc_nodes := n, pending := snd (uffs_BadBlockPendingRemove (uint b) (pending dev))\<rparr>"
  have s: "attr dev' = attr dev" "drv dev' = f" "ppb dev' = ppb dev" "pg_size dev' = pg_size dev"
    "spare_pool dev' = spare_pool dev" "spare_mem dev' = spare_mem dev" "ops dev' = ops dev" "bc_nodes dev' = n"
    "pending dev' = snd (uffs_BadBlockPendingRemove (uint b) (pending dev))"
    by (simp_all add: dev'_def ppb_def)
  have r0: "femu_ready (attr dev) (drv dev) (unat b) p 0 0" if "p < ppb dev" for p
    using assms(6) that by (fastforce simp: femu_ready_def)
  have "page_ones dev' (femu_cell (attr dev) f (unat b) p)" if "p < ppb dev" for p
    using cl r0[OF that] by (simp add: page_ones_def)
  moreover have "buf_inv dev' ys (c # cs) G" using assms(5) by (simp add: dev'_def)
  ultimately have ck: "\<exists>dev''. uffs_FlashCheckErasedBlock (uint b) dev' = Some (U_SUCC, dev'')"
    using CheckErasedBlock_iff[of dev' ys c cs G "unat b" a] assms(1,6-8) rd by (auto simp: s)
  have "bc_inv dev' xs" using bc(1) by (simp add: dev'_def bc_inv_def ppb_def)
  then show ?thesis using e cl o bc(2) ck r0 unfolding dev'_def[symmetric] by (intro exI[of _ dev']) (simp add: s)
qed

text \<open>C36. A page that was written since its block was erased is refused: writing it again gives an
  I/O error before any byte of the flash changes, nothing is verified and the spare buffer is
  given back.\<close>

theorem rewrite_refused:
  fixes dev :: "femu device" and tag :: Tags
  assumes "femu_writable dev" "dev_ready dev b p" "buf_inv dev xs cs G" "buf \<in> set xs"
    and "0 < fe_page (drv dev) (page_at (attr dev) b p)" "fe_page (drv dev) (page_at (attr dev) b p) < 255"
  shows "\<exists>f m B. uffs_FlashWritePageCombine (int b) (int p) buf tag dev =
      Some (UFFS_FLASH_IO_ERR, write_tag (attr dev) tag, dev\<lparr>drv := f, spare_mem := m, bufs := B\<rparr>) \<and>
    fe_file f = fe_file (drv dev) \<and> fe_size f = fe_size (drv dev)"
proof -
  let ?at = "attr dev" let ?pg = "page_at ?at b p"
  define mem where "mem = write_header (unat (pg_size dev)) (b_page (bufs dev buf))"
  have pi: "pages_inv dev xs cs" using assms(3) by (simp add: buf_inv_def)
  have w: "ops dev = g_femu_ops_ecc_soft ?at" "spare_ready dev" "ecc_room dev"
    "layout_opt ?at \<noteq> UFFS_LAYOUT_FLASH" "4 \<le> unat (pg_size dev)"
    using assms(1) by (simp_all add: femu_writable_def)
  have lm: "length mem = unat (pg_size dev)"
    using pages_invD(6)[OF pi] assms(4) w(5) header_length by (simp add: mem_def)
  obtain a q where g: "get_spare dev = (Some a, dev\<lparr>spare_pool := q\<rparr>)" by (rule spare_readyE[OF w(2)])
  define f where "f = (drv dev)\<lparr>fe_page := (fe_page (drv dev))(?pg := fe_page (drv dev) ?pg + 1)\<rparr>"
  have "unat (fe_page (drv dev) ?pg + 1) = unat (fe_page (drv dev) ?pg) + 1" 
    using assms(6) by (simp add: unat_word_ariths word_less_nat_alt)
  then have cnt: "1 < fe_page (drv dev) ?pg + 1" using assms(5) by (simp add: word_less_nat_alt)
  have o: "fe_open (drv dev)" "unat (pg_size dev) \<le> unat (page_data_size ?at)" using assms(2) by (auto simp: femu_ready_def)
  have wr: "femu_WritePage ?at (word_of_int (int b)) (word_of_int (int p)) (Some (take (unat (pg_size dev)) mem)) s (drv dev) = (UFFS_FLASH_IO_ERR, f)" for s
    using o cnt w(5) lm by (auto simp: femu_WritePage_def write_data_def Let_def abs_page_at[OF assms(2)] f_def PAGE_DATA_WRITE_COUNT_LIMIT_def)
  define d1 where "d1 = upd_buf buf (\<lambda>b. b\<lparr>b_page := mem\<rparr>) (dev\<lparr>spare_pool := q\<rparr>)"
  have opt: "ecc_opt ?at \<noteq> UFFS_ECC_HW" "ecc_opt ?at \<noteq> UFFS_ECC_HW_AUTO"
    using w(3) by (auto simp: ecc_room_def UFFS_ECC_SOFT_def UFFS_ECC_NONE_def UFFS_ECC_HW_def UFFS_ECC_HW_AUTO_def)
  have s1: "attr d1 = ?at" "ops d1 = ops dev" "drv d1 = drv dev" "pg_size d1 = pg_size dev" by (simp_all add: d1_def)
  obtain m where "write_driver (int b) (int p) a mem (tag_s (write_tag ?at tag)) d1 =
      Some (UFFS_FLASH_IO_ERR, d1\<lparr>drv := f, spare_mem := m\<rparr>)"
    using wr opt w(1,4) by (simp add: write_driver_def Let_def s1)
  moreover have "put_spare a (d1\<lparr>drv := f, spare_mem := m\<rparr>) = dev\<lparr>drv := f, spare_mem := m, bufs := bufs d1\<rparr>"
    using put_get_spare[OF g, of "d1\<lparr>drv := f, spare_mem := m\<rparr>"] by (simp add: d1_def upd_buf_def)
  ultimately have "uffs_FlashWritePageCombine (int b) (int p) buf tag dev =
      Some (UFFS_FLASH_IO_ERR, write_tag ?at tag, dev\<lparr>drv := f, spare_mem := m, bufs := bufs d1\<rparr>)"
    unfolding uffs_FlashWritePageCombine_def g
    by (simp add: Let_def mem_def[symmetric] d1_def[symmetric] s1 UFFS_FLASH_HAVE_ERR_def flash_codes UFFS_FLASH_IS_BAD_BLOCK_def)
  then show ?thesis by (intro exI[of _ f] exI[of _ m] exI[of _ "bufs d1"]) (simp add: f_def)
qed

section \<open>Initialisation\<close>

text \<open>The emulator reads of the attributes only the geometry, which the layout leaves alone.\<close>

lemma InitSpareLayout_fields: "\<exists>x y. InitSpareLayout at = at\<lparr>data_layout := x, ecc_layout := y\<rparr>"
proof (cases "unat (block_status_offs at) < TAG_STORE_SIZE")
  case True
  then show ?thesis unfolding InitSpareLayout_def Let_def by (simp only: if_True) blast
next
  case False
  then show ?thesis unfolding InitSpareLayout_def Let_def by (simp only: if_False) blast
qed

lemma femu_geometry:
  fixes at x y e
  defines "a \<equiv> at\<lparr>ecc_size := e, data_layout := x, ecc_layout := y\<rparr>"
  shows "g_femu_ops_ecc_soft a = g_femu_ops_ecc_soft at"
proof -
  have g: "abs_page a = abs_page at" "full_page_size a = full_page_size at"
    by (simp_all add: a_def abs_page_def full_page_size_def fun_eq_iff)
  have f: "page_data_size a = page_data_size at" "spare_size a = spare_size at" "block_status_offs a = block_status_offs at"
    "pages_per_block a = pages_per_block at" "total_blocks a = total_blocks at"
    by (simp_all add: a_def)
  have w: "write_data a = write_data at" "write_spare a = write_spare at"
    unfolding fun_eq_iff write_data_def write_spare_def g f by simp_all
  have "femu_WritePage a = femu_WritePage at" "femu_ReadPage a = femu_ReadPage at" "femu_EraseBlock a = femu_EraseBlock at"
    "femu_InitFlash a = femu_InitFlash at"
    unfolding fun_eq_iff femu_WritePage_def femu_ReadPage_def femu_EraseBlock_def femu_InitFlash_def w g f by simp_all
  then show ?thesis unfolding g_femu_ops_ecc_soft_def by simp
qed

lemma femu_ops_layout:
  "g_femu_ops_ecc_soft (InitSpareLayout (at\<lparr>ecc_size := e\<rparr>)) = g_femu_ops_ecc_soft at"
  "g_femu_ops_ecc_soft (InitSpareLayout at) = g_femu_ops_ecc_soft at"
proof -
  obtain x y where "InitSpareLayout (at\<lparr>ecc_size := e\<rparr>) = at\<lparr>ecc_size := e, data_layout := x, ecc_layout := y\<rparr>"
    using InitSpareLayout_fields[of "at\<lparr>ecc_size := e\<rparr>"] by blast
  then show "g_femu_ops_ecc_soft (InitSpareLayout (at\<lparr>ecc_size := e\<rparr>)) = g_femu_ops_ecc_soft at"
    by (simp only: femu_geometry)
  obtain x y where "InitSpareLayout at = at\<lparr>data_layout := x, ecc_layout := y\<rparr>"
    using InitSpareLayout_fields by blast
  moreover have "at = at\<lparr>ecc_size := ecc_size at\<rparr>" by simp
  ultimately show "g_femu_ops_ecc_soft (InitSpareLayout at) = g_femu_ops_ecc_soft at"
    using femu_geometry[where at = at and e = "ecc_size at" and x = x and y = y] by simp
qed

lemma NOMINAL_room: "0 < uint (pds :: u16) \<Longrightarrow> 3 * ((uint pds + 255) div 256) = 3 * (max 0 (uint pds - 1) div 256 + 1)"
proof -
  assume "0 < uint pds"
  then have "uint pds + 255 = (uint pds - 1) + 256 * 1" "max 0 (uint pds - 1) = uint pds - 1" by simp_all
  then have "(uint pds + 255) div 256 = (uint pds - 1) div 256 + 1" by (simp only: div_mult_self2)
  then show ?thesis using \<open>max 0 (uint pds - 1) = uint pds - 1\<close> by simp
qed

definition spare_needed :: "storage_attr \<Rightarrow> int" where
  "spare_needed at =
     (let e = (if ecc_opt at = UFFS_ECC_NONE then 0 else NOMINAL_ECC_SIZE at); s = uint (block_status_offs at)
      in max (s + 1) (8 + e + (if s < 8 + e then 1 else 0)) + 1)"

lemma spare_pool_init:
  assumes "spare_pool_size dev = 320"
  shows "\<exists>q r. uffs_PoolInit P (Some a) (word_of_int (spare_pool_size dev)) (word_of_nat UFFS_MAX_SPARE_SIZE)
      (word_of_nat MAX_SPARE_BUFFERS) False = (U_SUCC, q) \<and> p_free_list q = Some a \<and> p_next q a = Some r"
proof -
  have "uffs_PoolInit P (Some a) (5 * 64) 64 5 False =
     (U_SUCC, (let (e2, nx) = pool_link a 64 [1, 2, 3, 4] (a, p_next P)
      in \<lparr>p_mem = a, p_buf_size = 64, p_num_bufs = 5, p_free_list = Some a, p_next = nx(e2 := None), p_sem = False\<rparr>))"
    by (simp add: uffs_PoolInit_def SIZEOF_PTR_def upt_rec case_prod_unfold Let_def)
  moreover have "(p_next (snd (uffs_PoolInit P (Some a) (5 * 64) 64 5 False))) a = Some (a + 64)"
    by (simp add: uffs_PoolInit_def SIZEOF_PTR_def upt_rec Let_def)
  ultimately show ?thesis using assms
    by (simp add: UFFS_MAX_SPARE_SIZE_def MAX_SPARE_BUFFERS_def case_prod_unfold Let_def) 
qed

text \<open>\<open>uffs_BufInit\<close>, which is called next, sets the page size.\<close>

lemma take_clones_frame: "take_clones n dev = Some d \<Longrightarrow> buf_frame dev d"
proof (induction n arbitrary: dev)
  case (Suc n)
  then obtain b where b: "take_clones n (InsertToCloneBufList b (BreakFromBufList b dev)) = Some d" by (auto split: option.splits)
  have "buf_frame dev (InsertToCloneBufList b (BreakFromBufList b dev))"
    using bufm_unlink_frame[of dev b] by (simp add: InsertToCloneBufList_def BreakFromBufList_eq)
  then show ?case using Suc.IH[OF b] buf_frame_trans by blast
qed simp

lemma BufInit_writable:
  assumes "uffs_BufInit m k dev = Some (r, d)"
  shows "ecc_room d = ecc_room (dev\<lparr>pg_size := page_data_size (attr dev)\<rparr>)"
    "femu_writable d = femu_writable (dev\<lparr>pg_size := page_data_size (attr dev)\<rparr>)"
proof -
  have t: "pg_size d' = pg_size z \<and> attr d' = attr z \<and> ops d' = ops z \<and> spare_pool d' = spare_pool z \<and>
      spare_mem d' = spare_mem z \<and> spare_data_size d' = spare_data_size z \<and> uninit d' = uninit z"
    if "take_clones n z = Some d'" for n and z d' :: "femu device"
    using buf_frame_fields[OF take_clones_frame[OF that]] by simp
  define K where "K z \<longleftrightarrow> pg_size z = page_data_size (attr dev) \<and> attr z = attr dev \<and> ops z = ops dev \<and> spare_pool z = spare_pool dev \<and>
      spare_mem z = spare_mem dev \<and> spare_data_size z = spare_data_size dev \<and> uninit z = uninit dev" for z :: "femu device"
  define d1 where "d1 = dev\<lparr>pg_size := page_data_size (attr dev), header_size := word_of_nat SIZEOF_MINIHEADER\<rparr>"
  define d2 where "d2 = d1\<lparr>pg_data_size := pg_size d1 - header_size d1\<rparr>"
  define sz where "sz = (SIZEOF_BUF + uint (pg_size d2)) * m"
  define d3 where "d3 = (if pagebuf_pool_size d2 = 0
     then case mem_malloc d2 of Some al \<Rightarrow> if al sz \<noteq> None then d2\<lparr>pagebuf_pool_size := sz\<rparr> else d2 | None \<Rightarrow> d2 else d2)"
  define d4 where "d4 = d3\<lparr>buf_pool := True,
     bufs := fold (\<lambda>i nodes. nodes(i := init_buf (unat (pg_size d3)) (nat m) i)) [0..<nat m] (bufs d3)\<rparr>"
  define d5 where "d5 = (if nat m = 0 then d4 else d4\<lparr>buf_head := Some 0, buf_tail := Some (nat m - 1)\<rparr>)"
  define d6 where "d6 = d5\<lparr>buf_max := m, dirty_buf_max := (if k > int (ppb d5) then int (ppb d5) else k)\<rparr>"
  define d7 where "d7 = fold (\<lambda>slot. upd_dg slot (\<lambda>g. g\<lparr>dg_dirty := None, dg_count := 0\<rparr>)) [0..<nat (dirty_groups d6)] d6"
  have run: "uffs_BufInit m k dev = (if buf_pool d2 then Some (U_FAIL, d2) else if sz > pagebuf_pool_size d3 then Some (U_FAIL, d3)
      else map_option (Pair U_SUCC) (take_clones CLONE_BUFFERS_THRESHOLD (d7\<lparr>buf_clone := None\<rparr>)))"
    unfolding uffs_BufInit_def Let_def d7_def d6_def d5_def d4_def d3_def sz_def d2_def d1_def ..
  have K2: "K d2" by (simp add: K_def d2_def d1_def)
  then have K3: "K d3" by (simp add: K_def d3_def split: option.split)
  then have "K d5" by (simp add: K_def d5_def d4_def)
  then have "K d6" by (simp add: K_def d6_def)
  then have "K (d7\<lparr>buf_clone := None\<rparr>)" by (simp add: K_def d7_def fold_upd_dg)
  then have "K d" using assms K2 K3 unfolding run by (auto simp: K_def split: if_splits dest!: t)
  then have "pg_size d = page_data_size (attr dev) \<and> attr d = attr dev \<and> ops d = ops dev \<and> spare_pool d = spare_pool dev \<and>
      spare_mem d = spare_mem dev \<and> spare_data_size d = spare_data_size dev \<and> uninit d = uninit dev" by (simp only: K_def)
  then show "ecc_room d = ecc_room (dev\<lparr>pg_size := page_data_size (attr dev)\<rparr>)"
    "femu_writable d = femu_writable (dev\<lparr>pg_size := page_data_size (attr dev)\<rparr>)"
    by (simp_all add: ecc_room_def femu_writable_def spare_ready_def get_spare_def uffs_PoolGet_def case_prod_unfold Let_def
        split: option.splits)
qed

text \<open>C35. \<open>uffs_FlashInterfaceInit\<close> of a partition on the file emulator with software ECC or none,
  without a layout and an ECC size (so that the layout is computed), with given memory for the spare
  pool: it succeeds exactly if the memory has at least the required 320 bytes and the spare area has
  room for the tag, the ECC, the status byte and the seal byte. The layout that it sets up is valid,
  and after \<open>uffs_BufInit\<close>, which \<open>uffs_InitDevice\<close> calls next and which sets the page size, the
  ECC of a page fits; with memory of exactly the required size the device is then ready for reading
  and writing. Memory that is larger than required is refused by \<open>uffs_PoolInit\<close>, whose result is
  ignored: the spare pool stays as it was.\<close>

theorem InterfaceInit_ok:
  fixes dev :: "femu device"
  assumes "ops dev = g_femu_ops_ecc_soft (attr dev)" "layout_opt (attr dev) = UFFS_LAYOUT_UFFS"
    and "data_layout (attr dev) = None" "ecc_layout (attr dev) = None" "ecc_size (attr dev) = 0"
    and "ecc_opt (attr dev) = UFFS_ECC_SOFT \<or> ecc_opt (attr dev) = UFFS_ECC_NONE"
    and "4 \<le> uint (page_data_size (attr dev))" "uint (page_data_size (attr dev)) \<le> 2048"
    and "spare_pool_buf dev = Some a" "spare_pool_size dev \<noteq> 0" "spare_pool_size dev < 2 ^ 32"
    and "length (uninit dev) = UFFS_MAX_ECC_SIZE" "\<forall>x. length (spare_mem dev x) = UFFS_MAX_SPARE_SIZE"
    and "uint (spare_size (attr dev)) \<le> 64"
  shows "\<exists>dev'. uffs_FlashInterfaceInit dev =
      (if 320 \<le> spare_pool_size dev \<and> spare_needed (attr dev) \<le> uint (spare_size (attr dev)) then U_SUCC else U_FAIL, dev') \<and>
    (320 \<le> spare_pool_size dev \<longrightarrow>
       spare_data_size dev' = spare_needed (attr dev) \<and> layout_ok (attr dev') (nat (spare_data_size dev')) \<and>
       (\<forall>m k r d. uffs_BufInit m k dev' = Some (r, d) \<longrightarrow> ecc_room d \<and>
          (spare_pool_size dev = 320 \<and> spare_needed (attr dev) \<le> uint (spare_size (attr dev)) \<longrightarrow> femu_writable d)) \<and>
       (320 < spare_pool_size dev \<longrightarrow> spare_pool dev' = spare_pool dev))"
proof (cases "320 \<le> spare_pool_size dev")
  case False
  then have "uffs_FlashInterfaceInit dev = (U_FAIL, dev\<lparr>spare_pool := zero_pool\<rparr>)"
    using assms(10) by (simp add: uffs_FlashInterfaceInit_def UFFS_SPARE_BUFFER_SIZE_def UFFS_MAX_SPARE_SIZE_def MAX_SPARE_BUFFERS_def Let_def)
  then show ?thesis using False by simp
next
  case size: True
  let ?pg = "page_data_size (attr dev)"
  define at0 where "at0 = (if ecc_opt (attr dev) = UFFS_ECC_SOFT then (attr dev)\<lparr>ecc_size := NOMINAL_ECC_SIZE (attr dev)\<rparr> else attr dev)"
  define n where "n = NOMINAL_ECC_SIZE (attr dev)"
  have nr: "n = 3 * ((uint ?pg + 255) div 256)"
    using NOMINAL_room[of ?pg] assms(7) by (simp add: n_def NOMINAL_ECC_SIZE_def)
  have "3 * ((u + 255) div 256) \<le> 27 \<and> 0 \<le> 3 * ((u + 255) div 256)" if "4 \<le> u" "u \<le> 2048" for u :: int
    using zdiv_mono1[of "u + 255" 2303 256] that by (simp add: pos_imp_zdiv_nonneg_iff)
  then have nb: "0 \<le> n" "n \<le> 27" unfolding nr using assms(7,8) by blast+
  have opts: "UFFS_ECC_SOFT \<noteq> UFFS_ECC_NONE" by (simp add: UFFS_ECC_SOFT_def UFFS_ECC_NONE_def)
  have at0: "ecc_opt at0 = ecc_opt (attr dev)" "data_layout at0 = None" "ecc_layout at0 = None" "layout_opt at0 = UFFS_LAYOUT_UFFS"
    "block_status_offs at0 = block_status_offs (attr dev)" "spare_size at0 = spare_size (attr dev)"
    "ecc_size at0 = (if ecc_opt (attr dev) = UFFS_ECC_SOFT then n else 0)"
    "ecc_len at0 = (if ecc_opt (attr dev) = UFFS_ECC_NONE then 0 else n)" "page_data_size at0 = ?pg"
    using assms(2-6) opts by (auto simp: at0_def n_def ecc_len_def)
  define at1 where "at1 = InitSpareLayout at0"
  obtain x y where x: "at1 = at0\<lparr>data_layout := x, ecc_layout := y\<rparr>" using InitSpareLayout_fields at1_def by blast
  have ok: "layout_ok at1 (nat (CalculateSpareDataSize at1))"
    "CalculateSpareDataSize at1 = spare_needed (attr dev)"
    using InitSpareLayout_ok[of at0] nb at0(5,7,8) unfolding at1_def spare_needed_def Let_def by (simp_all add: n_def)
  define q where "q = snd (uffs_PoolInit (spare_pool dev) (spare_pool_buf dev) (word_of_int (spare_pool_size dev))
      (word_of_nat UFFS_MAX_SPARE_SIZE) (word_of_nat MAX_SPARE_BUFFERS) False)"
  define f where "f = snd (femu_InitFlash (attr dev) (drv dev))"
  have f: "femu_InitFlash (attr dev) (drv dev) = (0, f)" by (simp add: f_def femu_InitFlash_def Let_def)
  define dev' where "dev' = dev\<lparr>spare_pool := q, drv := f, attr := at1, spare_data_size := spare_needed (attr dev)\<rparr>"
  have opsd: "InitFlash (ops dev) = Some (femu_InitFlash (attr dev))" "WritePage (ops dev) = Some (femu_WritePage (attr dev))"
    "ReadPage (ops dev) = Some (femu_ReadPage (attr dev))" "EraseBlock (ops dev) = Some (femu_EraseBlock (attr dev))"
    unfolding assms(1) by (simp_all add: g_femu_ops_ecc_soft_def)
  have "init_layout (dev\<lparr>spare_pool := q, drv := f\<rparr>) = (U_SUCC, dev\<lparr>spare_pool := q, drv := f, attr := at1\<rparr>)"
    using assms(2-6) opts at0 unfolding init_layout_def at1_def by (auto simp: at0_def Let_def)
  then have run: "uffs_FlashInterfaceInit dev = (if spare_needed (attr dev) \<le> uint (spare_size (attr dev)) then U_SUCC else U_FAIL, dev')"
    using size opsd f ok(2) at0(6) x
    by (simp add: uffs_FlashInterfaceInit_def UFFS_SPARE_BUFFER_SIZE_def UFFS_MAX_SPARE_SIZE_def MAX_SPARE_BUFFERS_def
        q_def[unfolded UFFS_MAX_SPARE_SIZE_def MAX_SPARE_BUFFERS_def, simplified, symmetric] Let_def dev'_def not_less)
  define d1 where "d1 = dev'\<lparr>pg_size := page_data_size (attr dev')\<rparr>"
  have pg: "page_data_size (attr dev') = ?pg" using x at0(9) by (simp add: dev'_def)
  have room: "ecc_room d1" using assms(6) at0 x opts nr by (auto simp: ecc_room_def d1_def pg) (auto simp: dev'_def ecc_len_def)
  have ready: "femu_writable d1" if sz: "spare_pool_size dev = 320" and fit: "spare_needed (attr dev) \<le> uint (spare_size (attr dev))"
  proof -
    obtain r where q: "p_free_list q = Some a" "p_next q a = Some r"
      using spare_pool_init[OF sz, of "spare_pool dev" a] assms(9) by (auto simp: q_def)
    have "ecc_len at1 = ecc_len at0" using x by (simp add: ecc_len_def)
    then have "nat (ecc_len at1) \<le> 40" using at0(8) nb by (simp add: nat_le_iff)
    then have "spare_ready d1" "spare_ready (snd (get_spare d1))"
      using q ok fit assms(12-14)
      by (auto simp: spare_ready_def d1_def dev'_def get_spare_def uffs_PoolGet_def UFFS_MAX_ECC_SIZE_def UFFS_MAX_SPARE_SIZE_def)
    moreover have "ops d1 = g_femu_ops_ecc_soft (attr d1)"
      using femu_ops_layout unfolding d1_def dev'_def at1_def at0_def by (simp add: assms(1))
    moreover have "int 4 \<le> int (unat ?pg)" using assms(7) by simp
    then have "4 \<le> unat (pg_size d1)" by (simp only: of_nat_le_iff) (simp add: d1_def pg)
    ultimately show ?thesis using room at0(4) x
      by (simp add: femu_writable_def d1_def dev'_def UFFS_LAYOUT_UFFS_def UFFS_LAYOUT_FLASH_def)
  qed
  have "spare_pool dev' = spare_pool dev" if "320 < spare_pool_size dev"
  proof -
    have "uint (word_of_int (spare_pool_size dev) :: u32) = spare_pool_size dev"
      using size assms(11) by (simp add: uint_word_of_int)
    then have "(word_of_int (spare_pool_size dev) :: u32) \<noteq> 320" using that by auto
    then show ?thesis using assms(9)
      by (simp add: dev'_def q_def uffs_PoolInit_def UFFS_MAX_SPARE_SIZE_def MAX_SPARE_BUFFERS_def)
  qed
  then show ?thesis using run ready ok size room
    by (intro exI[of _ dev']) (auto simp: BufInit_writable d1_def[symmetric] dev'_def[symmetric], simp_all add: dev'_def)
qed

section \<open>On the sample device\<close>

text \<open>The sample device with both caches: 10 block infos, 38 page buffers and 2 clones.\<close>

definition sample_fs :: "femu device" where
  "sample_fs = snd (the (uffs_BufInit (int 40) 32 sample_cached))"

lemma sample_fs_ok:
  "buf_inv sample_fs [2..<40] [1, 0] (\<lambda>_. [])" "bc_inv sample_fs [0..<10]" "attr sample_fs = sample_attr"
  "drv sample_fs = sample_femu" "ops sample_fs = g_femu_ops_ecc_soft sample_attr" "pg_size sample_fs = 512"
  "spare_data_size sample_fs = CalculateSpareDataSize sample_attr" "spare_pool sample_fs = spare_pool sample_dev"
  "spare_mem sample_fs = (\<lambda>_. replicate 64 0)" "length (uninit sample_fs) = 40" "ppb sample_fs = 32"
  "pg_data_size sample_fs = 508"
proof -
  obtain n h t where c: "sample_cached = sample_dev\<lparr>bc_nodes := n, bc_head := h, bc_tail := t\<rparr>"
    by (rule bc_frameE[OF sample_cached_ok(4)])
  have sz: "page_data_size sample_attr = 512"
    by (simp add: sample_attr_def InitSpareLayout_def attr512_def Let_def)
  obtain d where d: "uffs_BufInit (int 40) 32 sample_cached = Some (U_SUCC, d)" "buf_inv d [2..<40] [1, 0] (\<lambda>_. [])"
    "buf_frame (sample_cached\<lparr>pg_size := page_data_size (attr sample_cached), header_size := 4,
      pg_data_size := page_data_size (attr sample_cached) - 4, buf_pool := True, buf_max := int 40,
      dirty_buf_max := min 32 (int (ppb sample_cached))\<rparr>) d"
    using BufInit_run[of sample_cached 40 32] sz by (auto simp: c sample_dev_def SIZEOF_BUF_def)
  have e: "sample_fs = d" by (simp only: sample_fs_def d(1) option.sel snd_conv)
  obtain B bh bt bc g where f: "d = sample_cached\<lparr>pg_size := page_data_size (attr sample_cached), header_size := 4,
      pg_data_size := page_data_size (attr sample_cached) - 4, buf_pool := True, buf_max := int 40,
      dirty_buf_max := min 32 (int (ppb sample_cached)), bufs := B, buf_head := bh, buf_tail := bt, buf_clone := bc, dirtyGroup := g\<rparr>"
    by (rule buf_frameE[OF d(3)])
  show "buf_inv sample_fs [2..<40] [1, 0] (\<lambda>_. [])" using d(2) by (simp only: e)
  show a: "attr sample_fs = sample_attr" "drv sample_fs = sample_femu" "ops sample_fs = g_femu_ops_ecc_soft sample_attr"
    "pg_size sample_fs = 512" "spare_data_size sample_fs = CalculateSpareDataSize sample_attr"
    "spare_pool sample_fs = spare_pool sample_dev" "spare_mem sample_fs = (\<lambda>_. replicate 64 0)"
    "length (uninit sample_fs) = 40" "pg_data_size sample_fs = 508"
    by (simp_all add: e f c sz) (simp_all add: sample_dev_def)
  show "ppb sample_fs = 32" using a(1) sample_ppb by (simp add: ppb_def)
  show "bc_inv sample_fs [0..<10]" using sample_cached_ok(1) by (simp add: e f bc_inv_def ppb_def)
qed

lemma sample_attr_fields:
  "ecc_opt sample_attr = UFFS_ECC_SOFT" "ecc_size sample_attr = 6" "ecc_len sample_attr = 6" "layout_opt sample_attr = UFFS_LAYOUT_UFFS"
  "spare_size sample_attr = 16" "page_data_size sample_attr = 512" "total_blocks sample_attr = 128" "pages_per_block sample_attr = 32"
  "CalculateSpareDataSize sample_attr = 16" "layout_ok sample_attr 16"
proof -
  show "ecc_opt sample_attr = UFFS_ECC_SOFT" "ecc_size sample_attr = 6" "ecc_len sample_attr = 6" "layout_opt sample_attr = UFFS_LAYOUT_UFFS"
    "spare_size sample_attr = 16" "page_data_size sample_attr = 512" "total_blocks sample_attr = 128" "pages_per_block sample_attr = 32"
    by (simp_all add: sample_attr_def InitSpareLayout_def attr512_def Let_def ecc_len_def UFFS_ECC_SOFT_def UFFS_ECC_NONE_def)
  have c: "0 \<le> ecc_size attr512" "ecc_size attr512 \<le> 200" "ecc_len attr512 = 6" "block_status_offs attr512 = 5"
    by (simp_all add: attr512_def ecc_len_def UFFS_ECC_SOFT_def UFFS_ECC_NONE_def)
  show s: "CalculateSpareDataSize sample_attr = 16"
    using InitSpareLayout_ok(2)[OF c(1,2)] c by (simp add: sample_attr_def)
  show "layout_ok sample_attr 16" using InitSpareLayout_ok(1)[OF c(1,2)] s by (simp add: sample_attr_def)
qed

lemma sample_fs_ready:
  "femu_writable sample_fs" "b < 128 \<Longrightarrow> p < 32 \<Longrightarrow> femu_ready sample_attr sample_femu b p 512 16"
  "femu_clean sample_attr sample_femu b p" "p_free_list (spare_pool sample_fs) = Some 4096"
proof -
  have fl: "p_free_list (spare_pool sample_dev) = Some 4096" "p_next (spare_pool sample_dev) 4096 = Some 4160"
    by (simp_all add: sample_dev_def uffs_PoolInit_def SIZEOF_PTR_def upt_rec Let_def)
  show "p_free_list (spare_pool sample_fs) = Some 4096" using fl by (simp add: sample_fs_ok)
  have "spare_ready sample_fs" "spare_ready (snd (get_spare sample_fs))"
    using fl by (simp_all add: spare_ready_def sample_fs_ok sample_attr_fields get_spare_def uffs_PoolGet_def)
  then show "femu_writable sample_fs"
    by (simp add: femu_writable_def sample_fs_ok sample_attr_fields ecc_room_def UFFS_LAYOUT_UFFS_def UFFS_LAYOUT_FLASH_def)
  show "femu_ready sample_attr sample_femu b p 512 16" if "b < 128" "p < 32"
    using that by (simp add: femu_ready_def sample_attr_fields sample_femu_def full_page_size_def)
  show "femu_clean sample_attr sample_femu b p" by (simp add: femu_clean_def sample_femu_def)
qed

lemma sample_fs_writable:
  "dev_ready sample_fs 3 0" "femu_clean (attr sample_fs) (drv sample_fs) 3 0"
  using sample_fs_ready(2)[of 3 0] sample_fs_ready(3) by (simp_all add: sample_fs_ok sample_attr_fields)

theorem page_write_stores_witness:
  "\<exists>f m B. uffs_FlashWritePageCombine 3 0 7 sample_tag sample_fs =
      Some (UFFS_FLASH_NO_ERR, write_tag sample_attr sample_tag, sample_fs\<lparr>drv := f, spare_mem := m, bufs := B\<rparr>) \<and>
    page_stored sample_attr 512 (femu_cell sample_attr f 3 0) (write_header 512 (b_page (bufs sample_fs 7))) 0 \<and>
    tag_stored sample_attr 16 (femu_cell sample_attr f 3 0) (tag_s (write_tag sample_attr sample_tag)) 0"
  using page_write_stores[OF sample_fs_ready(1) sample_fs_writable sample_fs_ok(1), of 7 sample_tag]
  by (simp add: sample_fs_ok sample_attr_fields) blast

text \<open>The page that \<open>page_write_stores\<close> writes is read into another buffer.\<close>

theorem stored_page_reads_back_witness:
  "\<exists>dev page tag mem. uffs_FlashReadPage 3 0 8 False dev =
      Some (UFFS_FLASH_NO_ERR, (upd_buf 8 (\<lambda>b. b\<lparr>b_page := page\<rparr>) dev)\<lparr>spare_mem := mem\<rparr>) \<and>
    uffs_FlashWritePageCombine 3 0 7 sample_tag sample_fs = Some (UFFS_FLASH_NO_ERR, tag, dev) \<and>
    page = write_header 512 (b_page (bufs sample_fs 7))"
proof -
  note w = femu.WritePageCombine_ok[of sample_fs sample_attr 3 0 "[2..<40]" "[1, 0]" "\<lambda>_. []" 7 sample_tag]
  have fw: "ops sample_fs = g_femu_ops_ecc_soft sample_attr" "spare_ready sample_fs" "spare_ready (snd (get_spare sample_fs))"
    "ecc_room sample_fs" "layout_opt (attr sample_fs) \<noteq> UFFS_LAYOUT_FLASH" "4 \<le> unat (pg_size sample_fs)"
    using sample_fs_ready(1) by (simp_all add: femu_writable_def sample_fs_ok)
  obtain f m B where r: "uffs_FlashWritePageCombine 3 0 7 sample_tag sample_fs =
      Some (UFFS_FLASH_NO_ERR, write_tag sample_attr sample_tag, sample_fs\<lparr>drv := f, spare_mem := m, bufs := B\<rparr>)"
    and o: "only_page (femu_cell sample_attr) (femu_ready sample_attr) (femu_clean sample_attr) 3 0 sample_femu f"
    and st: "page_stored sample_attr 512 (femu_cell sample_attr f 3 0) (write_header 512 (b_page (bufs sample_fs 7))) 0"
      "tag_stored sample_attr 16 (femu_cell sample_attr f 3 0) (tag_s (write_tag sample_attr sample_tag)) 0"
    and l: "\<forall>x. length (m x) = length (spare_mem sample_fs x)"
    and i: "buf_inv (sample_fs\<lparr>drv := f, spare_mem := m, bufs := B\<rparr>) [2..<40] [1, 0] (\<lambda>_. [])"
    using w[OF fw _ _ sample_fs_ok(1)] sample_fs_writable by (auto simp: sample_fs_ok sample_attr_fields)
  define dev where "dev = sample_fs\<lparr>drv := f, spare_mem := m, bufs := B\<rparr>"
  have s: "attr dev = sample_attr" "drv dev = f" "pg_size dev = 512" "spare_data_size dev = 16" "spare_mem dev = m"
    by (simp_all add: dev_def sample_fs_ok sample_attr_fields)
  have "femu_writable dev"
    using fw l by (auto simp: femu_writable_def dev_def sample_fs_ok spare_ready_def ecc_room_def get_spare_def
        uffs_PoolGet_def case_prod_unfold Let_def split: option.splits)
  moreover have "dev_ready dev 3 0"
    using o sample_fs_ready(2)[of 3 0] by (simp add: s only_page_def)
  moreover have "length (b_page (bufs dev 8)) = unat (pg_size dev)"
    using i pages_invD(6)[of dev "[2..<40]" "[1, 0]" 8] by (simp add: buf_inv_def dev_def)
  ultimately show ?thesis
    using stored_page_reads_back[of dev 3 0 8 "write_header 512 (b_page (bufs sample_fs 7))" 0
        "tag_s (write_tag sample_attr sample_tag)" 0] st r
    by (auto simp: s dev_def[symmetric])
qed

lemma sample_erased: "page_ones sample_fs (femu_cell sample_attr sample_femu b p)"
  by (auto simp: page_ones_def all_ones_def femu_cell_def file_read_def sample_femu_def dest: in_set_takeD)

lemma sample_fs_block:
  "\<forall>p < ppb sample_fs. femu_ready (attr sample_fs) (drv sample_fs) 3 p (unat (pg_size sample_fs)) (unat (spare_size (attr sample_fs)))"
  using sample_fs_ready(2)[of 3] by (simp add: sample_fs_ok sample_attr_fields)

theorem CheckErasedBlock_iff_witness:
  "\<exists>m B. uffs_FlashCheckErasedBlock 3 sample_fs = Some (U_SUCC, sample_fs\<lparr>spare_mem := m, bufs := B\<rparr>)"
proof -
  have w: "ops sample_fs = g_femu_ops_ecc_soft (attr sample_fs)" "unat (spare_size (attr sample_fs)) \<le> length (spare_mem sample_fs 4096)"
    by (simp_all add: sample_fs_ok(3-) sample_attr_fields)
  have all: "\<forall>p < ppb sample_fs. page_ones sample_fs (dev_cell sample_fs 3 p)" by (simp add: sample_fs_ok(3,4) sample_erased)
  show ?thesis
    using CheckErasedBlock_iff[OF w(1) sample_fs_ok(1) sample_fs_block sample_fs_ready(4) w(2)]
    unfolding if_P[OF all] of_nat_numeral by blast
qed

theorem erase_makes_clean_witness:
  "\<exists>dev'. uffs_FlashEraseBlock 3 sample_fs = Some (UFFS_FLASH_NO_ERR, dev') \<and>
     (\<forall>p < 32. femu_clean sample_attr (drv dev') 3 p) \<and> bc_inv dev' [0..<10]"
proof -
  have "femu_erasable sample_attr sample_femu 3" by (simp add: femu_erasable_def sample_attr_fields sample_femu_def)
  then show ?thesis
    using erase_makes_clean[of sample_fs 3 "[0..<10]" "[2..<40]" 1 "[0]" "\<lambda>_. []" 4096] sample_fs_block sample_fs_ready(4) sample_fs_ok(1,2)
    by (simp add: sample_fs_ok(3-) sample_attr_fields UFFS_INVALID_BLOCK_def) blast
qed

theorem rewrite_refused_witness:
  "\<exists>f m B. uffs_FlashWritePageCombine 3 0 7 sample_tag (sample_fs\<lparr>drv := sample_femu\<lparr>fe_page := \<lambda>_. 1\<rparr>\<rparr>) =
     Some (UFFS_FLASH_IO_ERR, write_tag sample_attr sample_tag, sample_fs\<lparr>drv := f, spare_mem := m, bufs := B\<rparr>) \<and>
     fe_file f = fe_file sample_femu"
proof -
  let ?d = "sample_fs\<lparr>drv := sample_femu\<lparr>fe_page := \<lambda>_. 1\<rparr>\<rparr>"
  have "femu_writable ?d" using sample_fs_ready(1)
    by (simp add: femu_writable_def spare_ready_def ecc_room_def get_spare_def uffs_PoolGet_def case_prod_unfold Let_def split: option.splits)
  moreover have "dev_ready ?d 3 0" using sample_fs_ready(2)[of 3 0] by (simp add: sample_fs_ok sample_attr_fields femu_ready_def)
  moreover have "buf_inv ?d [2..<40] [1, 0] (\<lambda>_. [])" using sample_fs_ok(1) by simp
  ultimately show ?thesis
    using rewrite_refused[of ?d 3 0 "[2..<40]" "[1, 0]" "\<lambda>_. []" 7 sample_tag] by (auto simp: sample_fs_ok)
qed

text \<open>A device whose page size is not set yet.\<close>

theorem InterfaceInit_ok_witness:
  "\<exists>dev'. uffs_FlashInterfaceInit (sample_dev\<lparr>attr := attr512\<lparr>ecc_size := 0\<rparr>, pg_size := 0,
       ops := g_femu_ops_ecc_soft (attr512\<lparr>ecc_size := 0\<rparr>)\<rparr>) = (U_SUCC, dev') \<and>
     spare_data_size dev' = 16 \<and> (\<forall>m k r d. uffs_BufInit m k dev' = Some (r, d) \<longrightarrow> femu_writable d)"
proof -
  let ?d = "sample_dev\<lparr>attr := attr512\<lparr>ecc_size := 0\<rparr>, pg_size := 0, ops := g_femu_ops_ecc_soft (attr512\<lparr>ecc_size := 0\<rparr>)\<rparr>"
  have n: "spare_needed (attr512\<lparr>ecc_size := 0\<rparr>) = 16"
    by (simp add: spare_needed_def NOMINAL_ECC_SIZE_def attr512_def Let_def UFFS_ECC_SOFT_def UFFS_ECC_NONE_def)
  have a: "attr ?d = attr512\<lparr>ecc_size := 0\<rparr>" "ops ?d = g_femu_ops_ecc_soft (attr512\<lparr>ecc_size := 0\<rparr>)"
    "spare_pool_size ?d = 320" "spare_pool_buf ?d = Some 4096" "length (uninit ?d) = UFFS_MAX_ECC_SIZE"
    "\<forall>x. length (spare_mem ?d x) = UFFS_MAX_SPARE_SIZE" "uint (spare_size (attr512\<lparr>ecc_size := 0\<rparr>)) = 16"
    by (simp_all add: sample_dev_def UFFS_MAX_ECC_SIZE_def UFFS_MAX_SPARE_SIZE_def attr512_def)
  have "layout_opt (attr512\<lparr>ecc_size := 0\<rparr>) = UFFS_LAYOUT_UFFS" "data_layout (attr512\<lparr>ecc_size := 0\<rparr>) = None"
    "ecc_layout (attr512\<lparr>ecc_size := 0\<rparr>) = None" "ecc_size (attr512\<lparr>ecc_size := 0\<rparr>) = 0"
    "ecc_opt (attr512\<lparr>ecc_size := 0\<rparr>) = UFFS_ECC_SOFT" "uint (page_data_size (attr512\<lparr>ecc_size := 0\<rparr>)) = 512"
    by (simp_all add: attr512_def)
  from InterfaceInit_ok[of ?d 4096, unfolded a n, OF refl this(1-4) disjI1[OF this(5)], unfolded this(6)] a(5,6)
  have "\<exists>dev'. uffs_FlashInterfaceInit ?d = (U_SUCC, dev') \<and> spare_data_size dev' = 16 \<and>
      (\<forall>m k r d. uffs_BufInit m k dev' = Some (r, d) \<longrightarrow> ecc_room d \<and> femu_writable d)"
    by auto
  then show ?thesis by blast
qed

end
