(* ===== verification/Femu_Hw.thy ===== *)
theory Femu_Hw
  imports Flash_Write
begin

text \<open>
  The two emulators of flash with ECC in hardware, \<open>src/emu/uffs_fileem_ecc_hw.c\<close> and
  \<open>src/emu/uffs_fileem_ecc_hw_auto.c\<close>: drivers that lay out the spare area themselves
  (\<open>ReadPageWithLayout\<close>, \<open>WritePageWithLayout\<close>). The first computes the code of the data when it
  writes and reads; the second emulates a controller that transfers whole pages through a buffer
  and corrects them on the way. Initialisation, release and erasing are those of the emulator with
  software ECC.

  The lemmas show that the first emulator reads back what it wrote. They also show where the two
  break the contract of \<open>uffs_flash.h\<close>: neither reports a page that is not sealed, so that erased
  pages are never recognised; the second looks for the mark of a bad block one byte in front of
  the place where it is written, and does not hand out data that it has corrected.
\<close>

section \<open>Hardware ECC\<close>

text \<open>\<open>femu_hw_WritePageWithLayout\<close>. The data length is the length of the list; \<open>sds\<close> is
  \<open>mem.spare_data_size\<close>, \<open>e0\<close> what the local array \<open>ecc_buf\<close> holds before it is filled.\<close>

definition hw_write_tag :: "storage_attr \<Rightarrow> nat \<Rightarrow> bytes \<Rightarrow> nat \<Rightarrow> bytes option \<Rightarrow> TagStore option \<Rightarrow> femu \<Rightarrow> femu + femu" where
  "hw_write_tag at sds e0 pg data ts emu =
     (case ts of None \<Rightarrow> Inr emu
      | Some t \<Rightarrow>
          let emu = emu\<lparr>fe_spare := (fe_spare emu)(pg := fe_spare emu pg + 1)\<rparr>
          in if fe_spare emu pg > PAGE_SPARE_WRITE_COUNT_LIMIT \<or> data = None then Inl emu
             else let ecc_buf = snd (uffs_EccMake data (int (length (the data))) (Some e0))
                  in Inr (fe_write (pg * full_page_size at + unat (page_data_size at)) (uffs_FlashMakeSpare at sds t ecc_buf) emu))"

definition femu_hw_WritePageWithLayout ::
  "storage_attr \<Rightarrow> nat \<Rightarrow> bytes \<Rightarrow> u32 \<Rightarrow> u32 \<Rightarrow> bytes option \<Rightarrow> bytes option \<Rightarrow> TagStore option \<Rightarrow> femu \<Rightarrow> int \<times> femu" where
  "femu_hw_WritePageWithLayout at sds e0 block page data ecc ts emu =
     (if \<not> fe_open emu then (UFFS_FLASH_IO_ERR, emu)
      else let pg = abs_page at block page
           in case write_data at pg data emu of
                Inl emu \<Rightarrow> (UFFS_FLASH_IO_ERR, emu)
              | Inr emu \<Rightarrow> (case hw_write_tag at sds e0 pg data ts emu of
                    Inl emu \<Rightarrow> (UFFS_FLASH_IO_ERR, emu)
                  | Inr emu \<Rightarrow>
                      (UFFS_FLASH_NO_ERR,
                       if data = None \<and> ts = None
                       then fe_write (pg * full_page_size at + unat (page_data_size at) + unat (block_status_offs at)) [0] emu
                       else emu)))"

text \<open>\<open>femu_hw_ReadPageWithLayout\<close>. The local spare buffer is only used when it was filled.\<close>

definition hw_read_data :: "storage_attr \<Rightarrow> nat \<Rightarrow> bytes option \<Rightarrow> bytes option \<Rightarrow> femu \<Rightarrow> bool \<times> bytes option \<times> bytes option" where
  "hw_read_data at pg data ecc emu =
     (case data of None \<Rightarrow> (True, None, ecc)
      | Some d \<Rightarrow>
          if d = [] then (True, data, ecc)
          else if length d > unat (page_data_size at) then (False, data, ecc)
          else let (ok, d') = fe_read (pg * full_page_size at) d emu
               in (ok, Some d', if ok then snd (uffs_EccMake (Some d') (int (length d')) ecc) else ecc))"

definition hw_read_tag ::
  "storage_attr \<Rightarrow> nat \<Rightarrow> nat \<Rightarrow> TagStore option \<Rightarrow> bytes option \<Rightarrow> femu \<Rightarrow> bool \<times> TagStore option \<times> bytes option" where
  "hw_read_tag at sds pg ts ecc_store emu =
     (case ts of None \<Rightarrow> (True, None, ecc_store)
      | Some t \<Rightarrow>
          let (ok, spare) = fe_read (pg * full_page_size at + unat (page_data_size at)) (replicate sds 0) emu
          in if ok then (True, uffs_FlashUnloadSpare at spare ts ecc_store) else (False, ts, ecc_store))"

definition femu_hw_ReadPageWithLayout ::
  "storage_attr \<Rightarrow> nat \<Rightarrow> u32 \<Rightarrow> u32 \<Rightarrow> bytes option \<Rightarrow> bytes option \<Rightarrow> TagStore option \<Rightarrow> bytes option \<Rightarrow> femu \<Rightarrow>
     (int \<times> bytes option \<times> bytes option \<times> TagStore option \<times> bytes option) \<times> femu" where
  "femu_hw_ReadPageWithLayout at sds block page data ecc ts ecc_store emu =
     (if \<not> fe_open emu then ((UFFS_FLASH_IO_ERR, data, ecc, ts, ecc_store), emu)
      else let pg = abs_page at block page; (ok1, data', ecc') = hw_read_data at pg data ecc emu
           in if \<not> ok1 then ((UFFS_FLASH_IO_ERR, data', ecc', ts, ecc_store), emu)
              else let (ok2, ts', ecc_store') = hw_read_tag at sds pg ts ecc_store emu
                   in if \<not> ok2 then ((UFFS_FLASH_IO_ERR, data', ecc', ts', ecc_store'), emu)
                      else if data = None \<and> ts = None
                      then let (ok, st) = fe_read (pg * full_page_size at + unat (page_data_size at) + unat (block_status_offs at)) [0] emu
                           in ((if \<not> ok then UFFS_FLASH_IO_ERR else if st ! 0 = 0xFF then UFFS_FLASH_NO_ERR else UFFS_FLASH_BAD_BLK,
                                data', ecc', ts', ecc_store'), emu)
                      else ((UFFS_FLASH_NO_ERR, data', ecc', ts', ecc_store'), emu))"

definition g_femu_ops_ecc_hw :: "storage_attr \<Rightarrow> nat \<Rightarrow> bytes \<Rightarrow> femu flash_ops" where
  "g_femu_ops_ecc_hw at sds e0 = \<lparr>InitFlash = Some (femu_InitFlash at), ReleaseFlash = Some femu_ReleaseFlash,
     ReadPage = None, ReadPageWithLayout = Some (femu_hw_ReadPageWithLayout at sds),
     WritePage = None, WritePageWithLayout = Some (femu_hw_WritePageWithLayout at sds e0),
     IsBadBlock = None, MarkBadBlock = None, EraseBlock = Some (femu_EraseBlock at), CheckErasedBlock = None\<rparr>"

section \<open>Automatic hardware ECC\<close>

text \<open>The controller has a buffer of 528 bytes with a position, which is filled and drained in
  order; a page is transferred as a whole.\<close>

definition RS_ECC_SIZE :: nat where "RS_ECC_SIZE = 10"
definition PAGE_DATA_SIZE :: nat where "PAGE_DATA_SIZE = 508"
definition PAGE_SPARE_SIZE :: nat where "PAGE_SPARE_SIZE = 20"
definition PAGE_FULL_SIZE :: nat where "PAGE_FULL_SIZE = PAGE_DATA_SIZE + PAGE_SPARE_SIZE"

lemmas sdata_sizes = RS_ECC_SIZE_def PAGE_DATA_SIZE_def PAGE_SPARE_SIZE_def PAGE_FULL_SIZE_def

record sdata_emu =
  sd_emu :: femu
  g_sdata_buf :: bytes
  g_sdata_buf_pointer :: int

definition start_sdata_access :: "sdata_emu \<Rightarrow> sdata_emu" where
  "start_sdata_access s = s\<lparr>g_sdata_buf_pointer := 0\<rparr>"

text \<open>The position is never negative, so the comparison with \<open>sizeof\<close> is the one of integers.\<close>

definition feed_sdata :: "bytes \<Rightarrow> sdata_emu \<Rightarrow> sdata_emu" where
  "feed_sdata data s =
     (if g_sdata_buf_pointer s + int (length data) \<le> int PAGE_FULL_SIZE
      then s\<lparr>g_sdata_buf := memcpy (g_sdata_buf s) (nat (g_sdata_buf_pointer s)) data,
             g_sdata_buf_pointer := g_sdata_buf_pointer s + int (length data)\<rparr>
      else s)"

definition feed_sdata_constant :: "u8 \<Rightarrow> nat \<Rightarrow> sdata_emu \<Rightarrow> sdata_emu" where
  "feed_sdata_constant val num s =
     (if g_sdata_buf_pointer s + int num \<le> int PAGE_FULL_SIZE
      then s\<lparr>g_sdata_buf := memcpy (g_sdata_buf s) (nat (g_sdata_buf_pointer s)) (replicate num val),
             g_sdata_buf_pointer := g_sdata_buf_pointer s + int num\<rparr>
      else s)"

text \<open>Draining: what the destination, \<open>None\<close> for null, holds afterwards.\<close>

definition drain_sdata :: "bytes option \<Rightarrow> int \<Rightarrow> sdata_emu \<Rightarrow> bytes option \<times> sdata_emu" where
  "drain_sdata data len s =
     (if int PAGE_FULL_SIZE - g_sdata_buf_pointer s \<ge> len
      then (map_option (\<lambda>d. memcpy d 0 (take (nat len) (drop (nat (g_sdata_buf_pointer s)) (g_sdata_buf s)))) data,
            s\<lparr>g_sdata_buf_pointer := g_sdata_buf_pointer s + len\<rparr>)
      else (data, s))"

definition load_sdata :: "storage_attr \<Rightarrow> u32 \<Rightarrow> u32 \<Rightarrow> sdata_emu \<Rightarrow> int \<times> sdata_emu" where
  "load_sdata at block page s =
     (let (ok, buf) = fe_read (abs_page at block page * PAGE_FULL_SIZE) (g_sdata_buf s) (sd_emu s);
          s = s\<lparr>g_sdata_buf := buf, g_sdata_buf_pointer := 0\<rparr>
      in if \<not> ok then (UFFS_FLASH_IO_ERR, s)
         else let n = uint (page_data_size at);
                  ecc_buf = snd (uffs_EccMake (Some buf) n (Some (replicate RS_ECC_SIZE 0xFF)));
                  ecc_store = drop (PAGE_FULL_SIZE - RS_ECC_SIZE) buf;
                  (ret, d) = uffs_EccCorrect (Some buf) n (Some ecc_store) ecc_buf
              in (if ret < 0 then UFFS_FLASH_ECC_FAIL else if ret > 0 then UFFS_FLASH_ECC_OK else UFFS_FLASH_NO_ERR,
                  s\<lparr>g_sdata_buf := the d\<rparr>))"

definition program_sdata :: "storage_attr \<Rightarrow> u32 \<Rightarrow> u32 \<Rightarrow> sdata_emu \<Rightarrow> int \<times> sdata_emu" where
  "program_sdata at block page s =
     (let ecc_buf = the (snd (uffs_EccMake (Some (g_sdata_buf s)) (uint (page_data_size at)) (Some (replicate RS_ECC_SIZE 0xFF))));
          s = feed_sdata ecc_buf s
      in if g_sdata_buf_pointer s \<noteq> int PAGE_FULL_SIZE then (UFFS_FLASH_IO_ERR, s)
         else (UFFS_FLASH_NO_ERR, s\<lparr>sd_emu := fe_write (abs_page at block page * PAGE_FULL_SIZE) (g_sdata_buf s) (sd_emu s)\<rparr>))"

text \<open>\<open>femu_hw_auto_InitFlash\<close> moves the boundary between data and spare area; it changes the
  attributes of the device.\<close>

definition femu_hw_auto_InitFlash :: "storage_attr \<Rightarrow> sdata_emu \<Rightarrow> int \<times> storage_attr \<times> sdata_emu" where
  "femu_hw_auto_InitFlash at s =
     (if full_page_size at \<noteq> PAGE_FULL_SIZE then (- 1, at, s)
      else let at = (if unat (spare_size at) < PAGE_SPARE_SIZE
                     then at\<lparr>page_data_size := page_data_size at - (word_of_nat PAGE_SPARE_SIZE - ucast (spare_size at)),
                             spare_size := word_of_nat PAGE_SPARE_SIZE\<rparr> else at);
               at = at\<lparr>ecc_size := int RS_ECC_SIZE\<rparr>;
               (r, emu) = femu_InitFlash at (sd_emu s)
           in (r, at, s\<lparr>sd_emu := emu\<rparr>))"

text \<open>\<open>femu_hw_auto_WritePageWithLayout\<close>; \<open>Inl\<close> is the jump to the error exit.\<close>

definition auto_feed_data :: "storage_attr \<Rightarrow> nat \<Rightarrow> bytes option \<Rightarrow> sdata_emu \<Rightarrow> sdata_emu + sdata_emu" where
  "auto_feed_data at pg data s =
     (case data of
        Some d \<Rightarrow>
          if d = [] then Inr (feed_sdata_constant 0xFF (unat (page_data_size at)) s)
          else if length d > unat (page_data_size at) then Inl s
          else let emu = sd_emu s; emu = emu\<lparr>fe_page := (fe_page emu)(pg := fe_page emu pg + 1)\<rparr>; s = s\<lparr>sd_emu := emu\<rparr>
               in if fe_page emu pg > PAGE_DATA_WRITE_COUNT_LIMIT then Inl s
                  else Inr (feed_sdata_constant 0xFF (unat (page_data_size at) - length d) (feed_sdata d s))
      | None \<Rightarrow> Inr (feed_sdata_constant 0xFF (unat (page_data_size at)) s))"

text \<open>The spare buffer of 20 bytes; \<open>sds\<close> is at most 20.\<close>

definition auto_feed_tag :: "storage_attr \<Rightarrow> nat \<Rightarrow> nat \<Rightarrow> TagStore option \<Rightarrow> sdata_emu \<Rightarrow> sdata_emu + sdata_emu" where
  "auto_feed_tag at sds pg ts s =
     (case ts of None \<Rightarrow> Inr s
      | Some t \<Rightarrow>
          let emu = sd_emu s; emu = emu\<lparr>fe_spare := (fe_spare emu)(pg := fe_spare emu pg + 1)\<rparr>; s = s\<lparr>sd_emu := emu\<rparr>
          in if fe_spare emu pg > PAGE_SPARE_WRITE_COUNT_LIMIT then Inl s
             else let spare = memcpy (replicate PAGE_SPARE_SIZE 0xFF) 0 (uffs_FlashMakeSpare at sds t None)
                  in Inr (feed_sdata (take (PAGE_SPARE_SIZE - RS_ECC_SIZE) spare) s))"

definition femu_hw_auto_WritePageWithLayout ::
  "storage_attr \<Rightarrow> nat \<Rightarrow> u32 \<Rightarrow> u32 \<Rightarrow> bytes option \<Rightarrow> bytes option \<Rightarrow> TagStore option \<Rightarrow> sdata_emu \<Rightarrow> int \<times> sdata_emu" where
  "femu_hw_auto_WritePageWithLayout at sds block page data ecc ts s =
     (if \<not> fe_open (sd_emu s) then (UFFS_FLASH_IO_ERR, s)
      else let pg = abs_page at block page; s = start_sdata_access s
           in if data \<noteq> None \<or> ts \<noteq> None
              then (case auto_feed_data at pg data s of
                      Inl s \<Rightarrow> (UFFS_FLASH_IO_ERR, s)
                    | Inr s \<Rightarrow> (case auto_feed_tag at sds pg ts s of
                          Inl s \<Rightarrow> (UFFS_FLASH_IO_ERR, s)
                        | Inr s \<Rightarrow> program_sdata at block page s))
              else let spare = (replicate PAGE_SPARE_SIZE 0xFF)[unat (block_status_offs at) := 0]
                   in program_sdata at block page
                        (feed_sdata (take (PAGE_SPARE_SIZE - RS_ECC_SIZE) spare) (feed_sdata_constant 0xFF (unat (page_data_size at)) s)))"

text \<open>\<open>femu_hw_auto_ReadPageWithLayout\<close>. The spare buffer and the status are local; the read
  into them never fails for the sizes of this emulator.\<close>

definition auto_drain_tag :: "storage_attr \<Rightarrow> bytes \<Rightarrow> TagStore option \<Rightarrow> sdata_emu \<Rightarrow> TagStore option \<times> sdata_emu" where
  "auto_drain_tag at sp0 ts s =
     (case ts of None \<Rightarrow> (None, s)
      | Some t \<Rightarrow>
          let n = uint (page_data_size at);
              s = (if g_sdata_buf_pointer s < n then snd (drain_sdata None (n - g_sdata_buf_pointer s) s) else s);
              (spare, s) = drain_sdata (Some sp0) (int (PAGE_SPARE_SIZE - RS_ECC_SIZE)) s
          in (fst (uffs_FlashUnloadSpare at (the spare) ts None), s))"

definition femu_hw_auto_ReadPageWithLayout ::
  "storage_attr \<Rightarrow> bytes \<Rightarrow> u32 \<Rightarrow> u32 \<Rightarrow> bytes option \<Rightarrow> bytes option \<Rightarrow> TagStore option \<Rightarrow> bytes option \<Rightarrow> sdata_emu \<Rightarrow>
     (int \<times> bytes option \<times> bytes option \<times> TagStore option \<times> bytes option) \<times> sdata_emu" where
  "femu_hw_auto_ReadPageWithLayout at sp0 block page data ecc ts ecc_store s =
     (if \<not> fe_open (sd_emu s) then ((UFFS_FLASH_IO_ERR, data, ecc, ts, ecc_store), s)
      else let (ret, s) = load_sdata at block page s
           in if ret \<noteq> UFFS_FLASH_NO_ERR then ((ret, data, ecc, ts, ecc_store), s)
              else let s = start_sdata_access s
                   in if data \<noteq> None \<or> ts \<noteq> None
                      then if data \<noteq> None \<and> data \<noteq> Some [] \<and> length (the data) > unat (page_data_size at)
                           then ((ret, data, ecc, ts, ecc_store), s)
                           else let (data', s) = (case data of
                                      Some d \<Rightarrow> if d = [] then (data, s) else drain_sdata data (int (length d)) s
                                    | None \<Rightarrow> (None, s));
                                    (ts', s) = auto_drain_tag at sp0 ts s
                                in ((ret, data', ecc, ts', ecc_store), s)
                      else let s = snd (drain_sdata None (uint (page_data_size at) + uint (block_status_offs at) - 1) s);
                               (status, s) = drain_sdata (Some [0]) 1 s
                           in ((if the status ! 0 = 0xFF then UFFS_FLASH_NO_ERR else UFFS_FLASH_BAD_BLK, data, ecc, ts, ecc_store), s))"

definition lift_emu :: "(femu \<Rightarrow> int \<times> femu) \<Rightarrow> sdata_emu \<Rightarrow> int \<times> sdata_emu" where
  "lift_emu f s = (let (r, emu) = f (sd_emu s) in (r, s\<lparr>sd_emu := emu\<rparr>))"

text \<open>The operations for the attributes \<open>at\<close> that \<open>femu_hw_auto_InitFlash\<close> has adjusted.\<close>

definition g_femu_ops_ecc_hw_auto :: "storage_attr \<Rightarrow> nat \<Rightarrow> bytes \<Rightarrow> sdata_emu flash_ops" where
  "g_femu_ops_ecc_hw_auto at sds sp0 = \<lparr>InitFlash = Some (\<lambda>s. let (r, _, s) = femu_hw_auto_InitFlash at s in (r, s)),
     ReleaseFlash = Some (lift_emu femu_ReleaseFlash),
     ReadPage = None, ReadPageWithLayout = Some (femu_hw_auto_ReadPageWithLayout at sp0),
     WritePage = None, WritePageWithLayout = Some (femu_hw_auto_WritePageWithLayout at sds),
     IsBadBlock = None, MarkBadBlock = None, EraseBlock = Some (\<lambda>b. lift_emu (femu_EraseBlock at b)), CheckErasedBlock = None\<rparr>"

section \<open>Hardware ECC: a page is read back\<close>

lemma length_EccMake: "snd (uffs_EccMake (Some d) n (Some e)) = Some r \<Longrightarrow> length e \<le> length r"
  by (auto simp: uffs_EccMake_def Let_def)

lemma EccMake_Some [simp]:
  "snd (uffs_EccMake (Some d) n (Some e)) = Some (EccMake_loop d n @ drop (length (EccMake_loop d n)) e)"
  by (simp add: uffs_EccMake_def Let_def)

text \<open>With a tag and data the two functions are those of the emulator with software ECC, around
  packing and unpacking.\<close>

lemma length_MakeSpare: "layout_ok at sds \<Longrightarrow> nat (ecc_len at) \<le> length e \<Longrightarrow> length (uffs_FlashMakeSpare at sds t (Some e)) = sds"
  by (simp add: FlashMakeSpare_put)

lemma hw_write_soft:
  assumes l: "layout_ok at sds" "nat (ecc_len at) \<le> length e0" "sds \<le> unat (spare_size at)"
  shows "femu_hw_WritePageWithLayout at sds e0 bl pn (Some d) ecc (Some t) f =
    femu_WritePage at bl pn (Some d) (Some (uffs_FlashMakeSpare at sds t (snd (uffs_EccMake (Some d) (int (length d)) (Some e0))))) f"
proof -
  let ?s = "uffs_FlashMakeSpare at sds t (snd (uffs_EccMake (Some d) (int (length d)) (Some e0)))"
  have "length ?s = sds" using l(1,2) by (simp add: length_MakeSpare)
  moreover have "0 < sds" using spare_pos_ok(4)[OF l(1)] by simp
  ultimately have "hw_write_tag at sds e0 pg (Some d) (Some t) g = write_spare at pg (Some ?s) g" for pg g
    using l(3) by (auto simp: hw_write_tag_def write_spare_def Let_def)
  then show ?thesis by (simp add: femu_hw_WritePageWithLayout_def femu_WritePage_def Let_def split: sum.split)
qed

lemma hw_read_soft:
  assumes r: "femu_ready at f b p (length d) sds" and "d \<noteq> []"
  shows "femu_hw_ReadPageWithLayout at sds (word_of_nat b) (word_of_nat p) (Some d) (Some e) (Some t) (Some st) f =
    (let d' = take (length d) (fst (femu_cell at f b p));
         (t', st') = uffs_FlashUnloadSpare at (take sds (snd (femu_cell at f b p))) (Some t) (Some st)
     in ((UFFS_FLASH_NO_ERR, Some d', snd (uffs_EccMake (Some d') (int (length d)) (Some e)), t', st'), f))"
proof -
  have fit: "page_at at b p * full_page_size at + (unat (page_data_size at) + unat (spare_size at)) \<le> fe_size f"
    using page_fits[OF r] by (simp add: full_page_size_def)
  have o: "fe_open f" "length d \<le> unat (page_data_size at)" "sds \<le> unat (spare_size at)" using r by (auto simp: femu_ready_def)
  have D: "hw_read_data at (page_at at b p) (Some d) (Some e) f = (True, Some (take (length d) (fst (femu_cell at f b p))),
      snd (uffs_EccMake (Some (take (length d) (fst (femu_cell at f b p)))) (int (length d)) (Some e)))"
    using o(2) fit assms(2) by (simp add: hw_read_data_def fe_read_full femu_cell_def take_file_read)
  have S: "hw_read_tag at sds (page_at at b p) (Some t) (Some st) f =
      (True, uffs_FlashUnloadSpare at (take sds (snd (femu_cell at f b p))) (Some t) (Some st))"
    using o(3) fit by (simp add: hw_read_tag_def fe_read_full femu_cell_def take_file_read)
  show ?thesis
    using o(1) unfolding femu_hw_ReadPageWithLayout_def abs_page_at[OF r] Let_def D S by (simp add: case_prod_unfold)
qed

text \<open>C6. With the emulator of hardware ECC, a page and a tag that are written to a clean page are
  read back, together with the code of the data: the one that was stored and the one that is
  computed agree. No other page changes.\<close>

theorem hw_page_roundtrip:
  assumes r: "femu_ready at f b p (length d) sds" "femu_clean at f b p" "d \<noteq> []"
    and l: "layout_ok at sds" "nat (ecc_len at) \<le> length e0" "nat (ecc_len at) \<le> length st" "length d0 = length d"
  defines "code \<equiv> EccMake_loop d (int (length d))"
  shows "\<exists>f'. femu_hw_WritePageWithLayout at sds e0 (word_of_nat b) (word_of_nat p) (Some d) ecc (Some t) f = (UFFS_FLASH_NO_ERR, f') \<and>
    femu_hw_ReadPageWithLayout at sds (word_of_nat b) (word_of_nat p) (Some d0) (Some e) (Some t0) (Some st) f' =
      ((UFFS_FLASH_NO_ERR, Some d, Some (code @ drop (length code) e), Some t,
        Some (memcpy st 0 (take (nat (ecc_len at)) (code @ drop (length code) e0)))), f') \<and>
    (\<forall>b' p'. femu_ready at f b' p' 0 0 \<longrightarrow> (b', p') \<noteq> (b, p) \<longrightarrow> femu_cell at f' b' p' = femu_cell at f b' p')"
proof -
  define E where "E = code @ drop (length code) e0"
  let ?s = "uffs_FlashMakeSpare at sds t (Some E)"
  let ?e = "take (nat (ecc_len at)) E"
  have E: "nat (ecc_len at) \<le> length E" using l(2) by (simp add: E_def)
  then have n: "length ?e = nat (ecc_len at)" "length ?e \<le> length st" using l(3) by simp_all
  have "?s = uffs_FlashMakeSpare at sds t (Some ?e)" using E by (simp only: FlashMakeSpare_put[OF l(1)] length_take min_absorb2 take_take min.idem order_refl)
  then have rt: "uffs_FlashUnloadSpare at ?s (Some t0) (Some st) = (Some t, Some (memcpy st 0 ?e))" "length ?s = sds"
    using spare_roundtrip(1)[OF l(1) n, of t t0] length_MakeSpare[OF l(1) E, of t] by simp_all
  have sp: "sds \<le> unat (spare_size at)" using r(1) by (simp add: femu_ready_def)
  have "femu_ready at f b p (length d) (length ?s)" using r(1) rt(2) by simp
  from femu_write[OF this r(2)] obtain f' where w: "femu_WritePage at (word_of_nat b) (word_of_nat p) (Some d) (Some ?s) f = (UFFS_FLASH_NO_ERR, f')"
    "femu_cell at f' b p = (d @ drop (length d) (fst (femu_cell at f b p)), ?s @ drop (length ?s) (snd (femu_cell at f b p)))"
    "\<forall>b' p'. femu_ready at f b' p' 0 0 \<longrightarrow> (b', p') \<noteq> (b, p) \<longrightarrow> femu_cell at f' b' p' = femu_cell at f b' p'"
    "\<forall>b' p' dl sl. femu_ready at f b' p' dl sl \<longrightarrow> femu_ready at f' b' p' dl sl" by blast
  have "femu_ready at f' b p (length d0) sds" "d0 \<noteq> []" using w(4) r(1,3) l(4) by auto
  from hw_read_soft[OF this, of e t0 st] have
    "femu_hw_ReadPageWithLayout at sds (word_of_nat b) (word_of_nat p) (Some d0) (Some e) (Some t0) (Some st) f' =
      ((UFFS_FLASH_NO_ERR, Some d, Some (code @ drop (length code) e), Some t, Some (memcpy st 0 ?e)), f')"
    using rt by (simp add: w(2) l(4) Let_def code_def)
  moreover have "femu_hw_WritePageWithLayout at sds e0 (word_of_nat b) (word_of_nat p) (Some d) ecc (Some t) f = (UFFS_FLASH_NO_ERR, f')"
    using w(1) by (simp add: hw_write_soft[OF l(1,2) sp] code_def E_def)
  ultimately show ?thesis using w(3) unfolding E_def by blast
qed

theorem hw_page_roundtrip_witness:
  "\<exists>f'. femu_hw_WritePageWithLayout sample_attr 16 (replicate 6 0) 3 7 (Some [1, 2, 3]) None (Some tag0) sample_femu = (UFFS_FLASH_NO_ERR, f') \<and>
    fst (snd (fst (femu_hw_ReadPageWithLayout sample_attr 16 3 7 (Some [0, 0, 0]) (Some []) (Some tag0) (Some (replicate 6 0)) f'))) = Some [1, 2, 3]"
proof -
  have "femu_ready sample_attr sample_femu 3 7 (length [1, 2, 3 :: u8]) 16"
    by (simp add: femu_ready_def sample_attr_fields sample_femu_def full_page_size_def)
  moreover have "femu_clean sample_attr sample_femu 3 7" by (simp add: femu_clean_def sample_femu_def)
  moreover have "layout_ok sample_attr 16" "nat (ecc_len sample_attr) \<le> length (replicate 6 (0 :: u8))"
    by (simp_all add: sample_attr_fields ecc_len_def)
  ultimately obtain f' where
    "femu_hw_WritePageWithLayout sample_attr 16 (replicate 6 0) (word_of_nat 3) (word_of_nat 7) (Some [1, 2, 3]) None (Some tag0) sample_femu = (UFFS_FLASH_NO_ERR, f')"
    "fst (snd (fst (femu_hw_ReadPageWithLayout sample_attr 16 (word_of_nat 3) (word_of_nat 7) (Some [0, 0, 0]) (Some []) (Some tag0) (Some (replicate 6 0)) f'))) = Some [1, 2, 3]"
    using hw_page_roundtrip[of sample_attr sample_femu 3 7 "[1, 2, 3]" 16 "replicate 6 0" "replicate 6 0" "[0, 0, 0]" None tag0 "[]" tag0] by auto
  then show ?thesis by auto
qed

section \<open>Erased pages are never seen\<close>

text \<open>A driver that never answers that a page is not sealed.\<close>

definition never_unsealed :: "'f flash_ops \<Rightarrow> bool" where
  "never_unsealed D \<longleftrightarrow> (\<exists>rd. ReadPageWithLayout D = Some rd \<and>
     (\<forall>b p d e t st f. fst (fst (rd b p d e t st f)) \<noteq> UFFS_FLASH_NOT_SEALED))"

lemma hw_never_unsealed: "never_unsealed (g_femu_ops_ecc_hw at sds e0)"
  by (auto simp: never_unsealed_def g_femu_ops_ecc_hw_def femu_hw_ReadPageWithLayout_def Let_def case_prod_unfold flash_codes)

lemma load_sdata_codes: "fst (load_sdata at b p s) \<in> {UFFS_FLASH_IO_ERR, UFFS_FLASH_ECC_FAIL, UFFS_FLASH_ECC_OK, UFFS_FLASH_NO_ERR}"
  by (simp add: load_sdata_def Let_def case_prod_unfold)

lemma hw_auto_never_unsealed: "never_unsealed (g_femu_ops_ecc_hw_auto at sds sp0)"
proof -
  have "fst (fst (femu_hw_auto_ReadPageWithLayout at sp0 b p d e t st s)) \<in>
      {UFFS_FLASH_IO_ERR, UFFS_FLASH_ECC_FAIL, UFFS_FLASH_ECC_OK, UFFS_FLASH_NO_ERR, UFFS_FLASH_BAD_BLK}" for b p d e t st s
    using load_sdata_codes[of at b p s]
    by (auto simp: femu_hw_auto_ReadPageWithLayout_def Let_def case_prod_unfold split: if_splits)
  then have "fst (fst (femu_hw_auto_ReadPageWithLayout at sp0 b p d e t st s)) \<noteq> UFFS_FLASH_NOT_SEALED" for b p d e t st s
    by (metis (no_types, lifting) flash_codes empty_iff insert_iff one_eq_numeral_iff zero_neq_numeral neg_numeral_neq_numeral semiring_norm(85))
  then show ?thesis by (auto simp: never_unsealed_def g_femu_ops_ecc_hw_auto_def)
qed

lemma ReadPageTag_sealed:
  assumes n: "never_unsealed (ops dev)"
  obtains ret t' dev' where "uffs_FlashReadPageTag b p (Some t) dev = Some (ret, Some t', dev')"
    "UFFS_FLASH_HAVE_ERR ret \<or> TAG_IS_SEALED t'"
proof -
  obtain rd where rd: "ReadPageWithLayout (ops dev) = Some rd"
    and ns: "\<And>b p d e t st f. fst (fst (rd b p d e t st f)) \<noteq> UFFS_FLASH_NOT_SEALED"
    using n by (auto simp: never_unsealed_def)
  obtain sp d1 where g: "get_spare dev = (sp, d1)" by (cases "get_spare dev")
  have o: "ops d1 = ops dev" "attr d1 = attr dev" "drv d1 = drv dev" using g by (auto simp: get_spare_def case_prod_unfold Let_def)
  show thesis
  proof (cases sp)
    case None
    then have "uffs_FlashReadPageTag b p (Some t) dev = Some (UFFS_FLASH_UNKNOWN_ERR, Some t, d1)"
      by (simp add: uffs_FlashReadPageTag_def g)
    then show thesis by (rule that) (simp add: UFFS_FLASH_HAVE_ERR_def flash_codes)
  next
    case (Some a)
    obtain r ts f where c: "fst (fst (rd (word_of_int b) (word_of_int p) None None (Some (tag_s t)) None (drv dev))) = r"
      "fst (snd (snd (snd (fst (rd (word_of_int b) (word_of_int p) None None (Some (tag_s t)) None (drv dev)))))) = ts"
      "snd (rd (word_of_int b) (word_of_int p) None None (Some (tag_s t)) None (drv dev)) = f" by blast
    define T where "T = t\<lparr>tag_s := (case ts of Some s \<Rightarrow> s | None \<Rightarrow> tag_s t), seal_byte := 0\<rparr>"
    have r: "r \<noteq> UFFS_FLASH_NOT_SEALED" using ns c(1) by blast
    have d: "read_tag_driver b p a (Some t) d1 = Some (r, Some T, d1\<lparr>drv := f\<rparr>)"
      using r c by (simp add: read_tag_driver_def rd o case_prod_unfold Let_def T_def)
    have "\<exists>q Q. read_tag_ecc (attr dev) r (Some T) = (q, Some Q) \<and> seal_byte Q = seal_byte T"
      by (auto simp: read_tag_ecc_def Let_def case_prod_unfold)
    then obtain q Q where e: "read_tag_ecc (attr dev) r (Some T) = (q, Some Q)" "seal_byte Q = seal_byte T" by blast
    have "uffs_FlashReadPageTag b p (Some t) dev = Some (q, Some Q, put_spare a (d1\<lparr>drv := f\<rparr>))"
      by (simp add: uffs_FlashReadPageTag_def g Some d e o)
    then show thesis by (rule that) (simp add: TAG_IS_SEALED_def e(2) T_def)
  qed
qed

lemma never_erased:
  assumes n: "never_unsealed (ops dev)" and i: "i < ppb dev" "sp_expired (bi_spares (bc_nodes dev x) ! i)" "i < length (bi_spares (bc_nodes dev x))"
  shows "\<exists>dev'. uffs_IsPageErased x i dev = Some (False, dev')"
proof -
  obtain ret t' d where r: "uffs_FlashReadPageTag (uint (bi_block (bc_nodes dev x))) (int i) (Some (GET_TAG dev x i)) dev = Some (ret, Some t', d)"
    "UFFS_FLASH_HAVE_ERR ret \<or> TAG_IS_SEALED t'"
    using ReadPageTag_sealed[OF n] by blast
  obtain f m where d: "d = dev\<lparr>drv := f, spare_mem := m\<rparr>" using ReadPageTag_frame(1)[OF r(1)] by blast
  have u: "int i \<noteq> UFFS_ALL_PAGES" using i(1) unat_u16_less[of "pages_per_block (attr dev)"] unfolding UFFS_ALL_PAGES_def ppb_def by linarith
  show ?thesis
    using r i u by (auto simp: uffs_IsPageErased_def uffs_BlockInfoLoad_def load_tag_def Let_def d mark_loaded_def set_spare_def upd_bi_def
        GET_TAG_def tag_erased_def)
qed

text \<open>C7. With the emulators of hardware ECC no page is ever taken for erased: their read functions
  do not report pages that are not sealed, so every tag that is read counts as sealed. On a device
  with such a driver a page that is asked for afresh is never erased, whatever the flash holds.\<close>

theorem hw_never_erased:
  fixes dev :: "'f device"
  assumes "never_unsealed (ops dev)" "i < ppb dev" "i < length (bi_spares (bc_nodes dev x))" "sp_expired (bi_spares (bc_nodes dev x) ! i)"
  shows "(\<exists>d. uffs_IsPageErased x i dev = Some (False, d)) \<and>
    never_unsealed (g_femu_ops_ecc_hw at sds e0) \<and> never_unsealed (g_femu_ops_ecc_hw_auto at sds sp0)"
  using never_erased[OF assms(1,2,4,3)] hw_never_unsealed hw_auto_never_unsealed by blast

theorem hw_never_erased_witness:
  "\<exists>d. uffs_IsPageErased 3 0 (sample_cached\<lparr>ops := g_femu_ops_ecc_hw sample_attr 16 [], bc_nodes := (\<lambda>_. zero_bi\<lparr>bi_spares :=
     replicate 32 \<lparr>sp_tag = sample_tag, sp_expired = True\<rparr>\<rparr>)\<rparr>) = Some (False, d)"
  using hw_never_erased[of "sample_cached\<lparr>ops := g_femu_ops_ecc_hw sample_attr 16 [], bc_nodes := (\<lambda>_. zero_bi\<lparr>bi_spares :=
     replicate 32 \<lparr>sp_tag = sample_tag, sp_expired = True\<rparr>\<rparr>)\<rparr>" 0 3] hw_never_unsealed sample_cached_ok(2)
  by (simp add: ppb_def)

section \<open>Bad block marks are read from the wrong byte\<close>

lemma EccMake_508: "EccMake_loop p 508 = uffs_EccMakeChunk256 p 256 @ uffs_EccMakeChunk256 (drop 256 p) 252"
  by (subst EccMake_loop.simps, subst EccMake_loop.simps, subst EccMake_loop.simps) simp

lemma EccMake_508_prefix: "take 508 p = take 508 q \<Longrightarrow> EccMake_loop p 508 = EccMake_loop q 508"
proof -
  assume e: "take 508 p = take 508 q"
  have "take 256 p = take 256 q" using arg_cong[OF e, of "take 256"] by (simp add: min_def)
  moreover have "take 252 (drop 256 p) = take 252 (drop 256 q)" using arg_cong[OF e, of "drop 256"] by (simp add: drop_take)
  ultimately show ?thesis by (simp add: EccMake_508 uffs_EccMakeChunk256_def)
qed

lemma EccCorrect_same: "EccCorrect_loop p n e e k = (k, p)"
proof (induction "nat n" arbitrary: p n e k rule: less_induct)
  case less
  show ?case
  proof (cases "n > 0")
    case True
    define len where "len = (if n > 256 then 256 else n)"
    have "EccCorrect_loop (drop (nat len) p) (n - len) (drop 3 e) (drop 3 e) k = (k, drop (nat len) p)"
      by (rule less) (use True in \<open>auto simp: len_def\<close>)
    then show ?thesis using EccCorrect_loop_step[of n len p e e 0 p k k "drop (nat len) p"] True
      by (simp add: len_def chunk_clean)
  qed (simp add: EccCorrect_loop.simps)
qed

text \<open>A page of the controller: 508 bytes of data, 10 of the spare area, 10 of the code.\<close>

definition sdata_code :: "bytes \<Rightarrow> bytes" where
  "sdata_code d = EccMake_loop d 508 @ replicate 4 0xFF"

lemma sdata_code_simps: "length (sdata_code d) = 10" "take 508 d = take 508 d' \<Longrightarrow> sdata_code d = sdata_code d'"
  using EccMake_508_prefix[of d d'] by (simp_all add: sdata_code_def EccMake_508)

lemma make_code: "the (snd (uffs_EccMake (Some d) 508 (Some (replicate RS_ECC_SIZE 0xFF)))) = sdata_code d"
  by (simp add: sdata_code_def EccMake_508 RS_ECC_SIZE_def numeral_eq_Suc)

lemma program_page:
  assumes s: "g_sdata_buf s = d @ sp @ z" "g_sdata_buf_pointer s = 518" "length d = 508" "length sp = 10" "length z = 10"
    and at: "uint (page_data_size at) = 508"
  shows "program_sdata at b p s = (UFFS_FLASH_NO_ERR,
    s\<lparr>g_sdata_buf := d @ sp @ sdata_code d, g_sdata_buf_pointer := 528,
      sd_emu := fe_write (abs_page at b p * 528) (d @ sp @ sdata_code d) (sd_emu s)\<rparr>)"
proof -
  have c: "sdata_code (d @ sp @ z) = sdata_code d" using s(3) by (intro sdata_code_simps(2)) simp
  have "feed_sdata (sdata_code d) s = s\<lparr>g_sdata_buf := d @ sp @ sdata_code d, g_sdata_buf_pointer := 528\<rparr>"
    using s by (simp add: feed_sdata_def sdata_sizes sdata_code_simps(1) memcpy_def)
  then show ?thesis by (simp add: program_sdata_def at make_code s(1) c Let_def sdata_sizes(2-4) del: EccMake_Some)
qed

lemma load_page:
  assumes f: "file_read (abs_page at b p * 528) 528 (fe_file (sd_emu s)) = d @ sp @ sdata_code d" "length d = 508" "length sp = 10"
    and s: "abs_page at b p * 528 + 528 \<le> fe_size (sd_emu s)" "length (g_sdata_buf s) = 528" and at: "uint (page_data_size at) = 508"
  shows "load_sdata at b p s = (UFFS_FLASH_NO_ERR, s\<lparr>g_sdata_buf := d @ sp @ sdata_code d, g_sdata_buf_pointer := 0\<rparr>)"
proof -
  have r: "fe_read (abs_page at b p * 528) (g_sdata_buf s) (sd_emu s) = (True, d @ sp @ sdata_code d)"
    using fe_read_full[of "abs_page at b p * 528" "g_sdata_buf s" "sd_emu s"] s f(1) by simp
  have c: "sdata_code (d @ sp @ sdata_code d) = sdata_code d" using f(2) by (intro sdata_code_simps(2)) simp
  obtain x where x: "snd (uffs_EccMake (Some (d @ sp @ sdata_code d)) 508 (Some (replicate RS_ECC_SIZE 0xFF))) = Some x" by simp
  then have "x = sdata_code d" using make_code[of "d @ sp @ sdata_code d"] c by (simp del: EccMake_Some)
  then show ?thesis
    by (simp add: load_sdata_def at r x f(2,3) sdata_sizes uffs_EccCorrect_def EccCorrect_same Let_def
        x[unfolded RS_ECC_SIZE_def] del: EccMake_Some)
qed

text \<open>The emulator with automatic ECC writes the mark of a bad block to the status byte, but
  tests the byte in front of it: a page that has just been marked is read as good.\<close>

theorem hw_auto_mark_unseen:
  assumes s: "fe_open (sd_emu s)" "length (g_sdata_buf s) = 528" "abs_page at b p * 528 + 528 \<le> fe_size (sd_emu s)"
    and at: "page_data_size at = 508" "unat (block_status_offs at) < 10"
  shows "\<exists>s1 s2. femu_hw_auto_WritePageWithLayout at sds b p None None None s = (UFFS_FLASH_NO_ERR, s1) \<and>
    fe_file (sd_emu s1) (abs_page at b p * 528 + 508 + unat (block_status_offs at)) = 0 \<and>
    femu_hw_auto_ReadPageWithLayout at sp0 b p None None None None s1 = ((UFFS_FLASH_NO_ERR, None, None, None, None), s2)"
proof -
  let ?o = "unat (block_status_offs at)"
  let ?off = "abs_page at b p * 528"
  have u: "uint (page_data_size at) = 508" "unat (page_data_size at) = 508" by (simp_all add: at(1))
  define d where "d = replicate 508 (0xFF :: u8)"
  define sp where "sp = take 10 ((replicate 20 0xFF)[?o := 0 :: u8])"
  have l: "length d = 508" "length sp = 10" by (simp_all add: d_def sp_def)
  have sp: "sp ! i = (if i = ?o then 0 else 0xFF)" if "i < 10" for i using that by (simp add: sp_def nth_list_update)
  define c where "c = d @ sp @ sdata_code d"
  have lc: "length c = 528" by (simp add: c_def l sdata_code_simps)
  define s0 where "s0 = feed_sdata sp (feed_sdata_constant 0xFF 508 (start_sdata_access s))"
  have s0: "s0 = s\<lparr>g_sdata_buf := d @ sp @ drop 518 (g_sdata_buf s), g_sdata_buf_pointer := 518\<rparr>"
    using s(2) l by (simp add: s0_def start_sdata_access_def feed_sdata_constant_def feed_sdata_def sdata_sizes memcpy_def d_def)
  define s1 where "s1 = s0\<lparr>g_sdata_buf := c, g_sdata_buf_pointer := 528, sd_emu := fe_write ?off c (sd_emu s0)\<rparr>"
  have w: "femu_hw_auto_WritePageWithLayout at sds b p None None None s = (UFFS_FLASH_NO_ERR, s1)"
    using program_page[of s0 d sp "drop 518 (g_sdata_buf s)" at b p] s(1,2) l u
    by (simp add: femu_hw_auto_WritePageWithLayout_def sdata_sizes(1,3) s0_def[symmetric] sp_def[symmetric] s1_def c_def s0)
  have e: "sd_emu s1 = fe_write ?off c (sd_emu s)" by (simp add: s1_def s0)
  have f: "fe_file (sd_emu s1) (?off + i) = c ! i" if "i < 528" for i
    using that lc by (simp add: e fe_write_def file_write_def)
  have m: "fe_file (sd_emu s1) (?off + 508 + ?o) = 0"
    using f[of "508 + ?o"] at(2) sp[of ?o] by (simp add: c_def l nth_append add.assoc)
  have r: "load_sdata at b p s1 = (UFFS_FLASH_NO_ERR, s1\<lparr>g_sdata_buf := c, g_sdata_buf_pointer := 0\<rparr>)"
  proof -
    have "file_read ?off 528 (fe_file (sd_emu s1)) = c" using lc by (simp add: e fe_write_def read_write_inside)
    moreover have "?off + 528 \<le> fe_size (sd_emu s1)" "length (g_sdata_buf s1) = 528" by (simp_all add: e fe_write_def lc, simp add: s1_def lc)
    ultimately show ?thesis using load_page[of at b p s1 d sp] l u(1) by (simp add: c_def)
  qed
  have g: "c ! (507 + ?o) = 0xFF"
  proof (cases ?o)
    case 0
    then show ?thesis by (simp add: c_def l nth_append d_def)
  next
    case (Suc k)
    then have "k < 10" using at(2) by simp
    then show ?thesis using sp[of k] by (simp add: c_def l nth_append Suc)
  qed
  define s2 where "s2 = s1\<lparr>g_sdata_buf := c, g_sdata_buf_pointer := 0\<rparr>"
  obtain k where k: "uint (block_status_offs at) = int k" "?o = k" "k < 10" using at(2) by (metis uint_nat)
  have "drain_sdata None (508 + int k - 1) s2 = (None, s2\<lparr>g_sdata_buf_pointer := 507 + int k\<rparr>)"
    using k(3) by (simp add: drain_sdata_def s2_def sdata_sizes)
  moreover have "take 1 (drop (507 + k) c) = [0xFF]"
    using g lc k by (simp add: take_Suc hd_drop_conv_nth)
  then have "drain_sdata (Some [0]) 1 (s2\<lparr>g_sdata_buf_pointer := 507 + int k\<rparr>) = (Some [0xFF], s2\<lparr>g_sdata_buf_pointer := 508 + int k\<rparr>)"
    using k(3) by (simp add: drain_sdata_def s2_def sdata_sizes memcpy_def nat_add_distrib)
  ultimately have "femu_hw_auto_ReadPageWithLayout at sp0 b p None None None None s1 =
      ((UFFS_FLASH_NO_ERR, None, None, None, None), s2\<lparr>g_sdata_buf_pointer := 508 + int k\<rparr>)"
    using s(1) unfolding femu_hw_auto_ReadPageWithLayout_def r k(1) u
    by (simp add: start_sdata_access_def s2_def e fe_write_def)
  then show ?thesis using w m by blast
qed

definition sample_sdata :: sdata_emu where
  "sample_sdata = \<lparr>sd_emu = sample_femu, g_sdata_buf = replicate 528 0, g_sdata_buf_pointer = 0\<rparr>"

text \<open>The sample flash with the boundary moved as \<open>femu_hw_auto_InitFlash\<close> does.\<close>

definition sample_auto_attr :: storage_attr where
  "sample_auto_attr = fst (snd (femu_hw_auto_InitFlash sample_attr sample_sdata))"

lemma sample_auto_fields: "page_data_size sample_auto_attr = 508" "spare_size sample_auto_attr = 20" "ecc_size sample_auto_attr = 10"
    "block_status_offs sample_auto_attr = 5" "pages_per_block sample_auto_attr = 32"
  by (simp_all add: sample_auto_attr_def femu_hw_auto_InitFlash_def femu_InitFlash_def sample_attr_fields sdata_sizes full_page_size_def
      sample_sdata_def sample_femu_def case_prod_unfold Let_def) (simp add: sample_attr_def InitSpareLayout_def attr512_def Let_def)

theorem hw_auto_mark_unseen_witness:
  "\<exists>s1 s2. femu_hw_auto_WritePageWithLayout sample_auto_attr 20 3 0 None None None sample_sdata = (UFFS_FLASH_NO_ERR, s1) \<and>
    fe_file (sd_emu s1) 51201 = 0 \<and>
    femu_hw_auto_ReadPageWithLayout sample_auto_attr [] 3 0 None None None None s1 = ((UFFS_FLASH_NO_ERR, None, None, None, None), s2)"
proof -
  have "abs_page sample_auto_attr 3 0 = 96" by (simp add: abs_page_def sample_auto_fields)
  then show ?thesis using hw_auto_mark_unseen[of sample_sdata sample_auto_attr 3 0 20 "[]"]
    by (simp add: sample_auto_fields) (simp add: sample_sdata_def sample_femu_def)
qed

text \<open>A page with correctable bit errors is corrected in the buffer of the controller, but what
  was asked for is not handed out.\<close>

lemma hw_auto_corrected_lost:
  assumes "fe_open (sd_emu s)" "fst (load_sdata at b p s) = UFFS_FLASH_ECC_OK"
  shows "fst (femu_hw_auto_ReadPageWithLayout at sp0 b p data ecc ts st s) = (UFFS_FLASH_ECC_OK, data, ecc, ts, st)"
  using assms by (simp add: femu_hw_auto_ReadPageWithLayout_def case_prod_unfold flash_codes Let_def)

end
