(* ===== verification/Block_Tree.thy ===== *)
theory Block_Tree
  imports Page_Buf
begin

text \<open>
  The block tree of \<open>uffs_tree.c\<close>, as far as it does not touch the flash: every block of the
  partition has a node, which is in one of the three hash tables (directories, files, data
  blocks), in the list of erased blocks, in the list of bad blocks or in the list of suspended
  nodes. The hash chains are linked by 16-bit indices into the node pool (\<open>FROM_IDX\<close> and
  \<open>TO_IDX\<close>), the lists by pointers. \<open>None\<close> is the dereference of a null pointer, a panic or an
  endless loop.

  The members of the union of a node are the constructors of \<open>NodeU\<close>. Writing one member of the
  list variant of a node that holds another variant leaves the other members unspecified.

  The lemmas show that the three tables implement maps from object keys to nodes, and what the
  operations on the lists do.
\<close>

section \<open>The code\<close>

subsection \<open>Nodes\<close>

definition EMPTY_NODE :: u16 where "EMPTY_NODE = 0xffff"
definition ROOT_DIR_SERIAL :: u16 where "ROOT_DIR_SERIAL = 0"
definition MAX_UFFS_FSN :: nat where "MAX_UFFS_FSN = 0x3ff"
definition INVALID_UFFS_SERIAL :: u16 where "INVALID_UFFS_SERIAL = 0xffff"
definition DIR_NODE_HASH_MASK :: u16 where "DIR_NODE_HASH_MASK = 0x1f"
definition FILE_NODE_HASH_MASK :: u16 where "FILE_NODE_HASH_MASK = 0x3f"
definition DATA_NODE_HASH_MASK :: u16 where "DATA_NODE_HASH_MASK = 0x1ff"
definition DIR_NODE_ENTRY_LEN :: nat where "DIR_NODE_ENTRY_LEN = 32"
definition FILE_NODE_ENTRY_LEN :: nat where "FILE_NODE_ENTRY_LEN = 64"
definition DATA_NODE_ENTRY_LEN :: nat where "DATA_NODE_ENTRY_LEN = 512"

definition GET_DIR_HASH :: "u16 \<Rightarrow> nat" where
  "GET_DIR_HASH serial = unat (serial AND DIR_NODE_HASH_MASK)"

definition GET_FILE_HASH :: "u16 \<Rightarrow> nat" where
  "GET_FILE_HASH serial = unat (serial AND FILE_NODE_HASH_MASK)"

text \<open>The sum of parent and serial is an \<open>int\<close>; only its low bits count.\<close>

definition GET_DATA_HASH :: "u16 \<Rightarrow> u16 \<Rightarrow> nat" where
  "GET_DATA_HASH parent serial = unat ((parent + serial) AND DATA_NODE_HASH_MASK)"

definition FROM_IDX :: "u16 \<Rightarrow> 'f device \<Rightarrow> nat option" where
  "FROM_IDX x dev = uffs_PoolGetBufByIndex (tree_pool dev) (ucast x)"

definition TO_IDX :: "nat \<Rightarrow> 'f device \<Rightarrow> u16 option" where
  "TO_IDX a dev = map_option ucast (uffs_PoolGetIndex (tree_pool dev) a)"

definition upd_node :: "nat \<Rightarrow> (TreeNode \<Rightarrow> TreeNode) \<Rightarrow> 'f device \<Rightarrow> 'f device" where
  "upd_node a f dev = dev\<lparr>tree_nodes := (tree_nodes dev)(a := f (tree_nodes dev a))\<rparr>"

definition upd_u :: "nat \<Rightarrow> (NodeU \<Rightarrow> NodeU) \<Rightarrow> 'f device \<Rightarrow> 'f device" where
  "upd_u a f = upd_node a (\<lambda>n. n\<lparr>n_u := f (n_u n)\<rparr>)"

definition upd_tree :: "(Tree \<Rightarrow> Tree) \<Rightarrow> 'f device \<Rightarrow> 'f device" where
  "upd_tree f dev = dev\<lparr>tree := f (tree dev)\<rparr>"

definition nu :: "'f device \<Rightarrow> nat \<Rightarrow> NodeU" where
  "nu dev a = n_u (tree_nodes dev a)"

text \<open>The list member of the union; \<open>need_check\<close> shares its memory with the low byte of \<open>serial\<close>.\<close>

definition as_list :: "NodeU \<Rightarrow> NodeU" where
  "as_list v = (case v of UList n p b u \<Rightarrow> UList n p b u | _ \<Rightarrow> UList undefined undefined undefined undefined)"

definition set_l_next :: "nat option \<Rightarrow> NodeU \<Rightarrow> NodeU" where
  "set_l_next x v = (let w = as_list v in UList x (l_prev w) (l_block w) (l_u w))"

definition set_l_prev :: "nat option \<Rightarrow> NodeU \<Rightarrow> NodeU" where
  "set_l_prev x v = (let w = as_list v in UList (l_next w) x (l_block w) (l_u w))"

definition set_l_block :: "u16 \<Rightarrow> NodeU \<Rightarrow> NodeU" where
  "set_l_block b v = (let w = as_list v in UList (l_next w) (l_prev w) b (l_u w))"

definition l_need_check :: "NodeU \<Rightarrow> u8" where
  "l_need_check v = ucast (l_u v)"

definition set_l_need_check :: "u8 \<Rightarrow> NodeU \<Rightarrow> NodeU" where
  "set_l_need_check c v = (let w = as_list v in UList (l_next w) (l_prev w) (l_block w) ((l_u w AND 0xff00) OR ucast c))"

subsection \<open>The lists\<close>

definition uffs_TreeInsertToErasedListTailEx :: "nat \<Rightarrow> int \<Rightarrow> 'f device \<Rightarrow> 'f device" where
  "uffs_TreeInsertToErasedListTailEx node need_check dev =
     (let dev = (if need_check \<ge> 0 then upd_u node (set_l_need_check (word_of_int need_check)) dev else dev);
          dev = upd_u node (set_l_next None) dev;
          dev = upd_u node (set_l_prev (erased_tail (tree dev))) dev;
          dev = (case erased_tail (tree dev) of None \<Rightarrow> dev | Some t \<Rightarrow> upd_u t (set_l_next (Some node)) dev);
          dev = upd_tree (\<lambda>t. t\<lparr>erased_tail := Some node\<rparr>) dev;
          dev = (if erased (tree dev) = None then upd_tree (\<lambda>t. t\<lparr>erased := Some node\<rparr>) dev else dev)
      in upd_tree (\<lambda>t. t\<lparr>erased_count := erased_count t + 1\<rparr>) dev)"

definition uffs_TreeInsertToErasedListTail :: "nat \<Rightarrow> 'f device \<Rightarrow> 'f device" where
  "uffs_TreeInsertToErasedListTail node = uffs_TreeInsertToErasedListTailEx node 0"

definition uffs_InsertToErasedListHead :: "nat \<Rightarrow> 'f device \<Rightarrow> 'f device" where
  "uffs_InsertToErasedListHead node dev =
     (let dev = upd_u node (set_l_next (erased (tree dev))) dev;
          dev = upd_u node (set_l_prev None) dev;
          dev = (case erased (tree dev) of None \<Rightarrow> dev | Some h \<Rightarrow> upd_u h (set_l_prev (Some node)) dev);
          dev = upd_tree (\<lambda>t. t\<lparr>erased := Some node\<rparr>) dev;
          dev = (if l_next (nu dev node) = erased_tail (tree dev) then upd_tree (\<lambda>t. t\<lparr>erased_tail := Some node\<rparr>) dev else dev)
      in upd_tree (\<lambda>t. t\<lparr>erased_count := erased_count t + 1\<rparr>) dev)"

definition uffs_TreeGetErasedNodeNoCheck :: "'f device \<Rightarrow> nat option \<times> 'f device" where
  "uffs_TreeGetErasedNodeNoCheck dev =
     (case erased (tree dev) of None \<Rightarrow> (None, dev)
      | Some node \<Rightarrow>
          let dev = upd_u node (set_l_prev None) dev;
              dev = upd_tree (\<lambda>t. t\<lparr>erased := l_next (nu dev node)\<rparr>) dev;
              dev = (if erased (tree dev) = None then upd_tree (\<lambda>t. t\<lparr>erased_tail := None\<rparr>) dev else dev)
          in (Some node, upd_tree (\<lambda>t. t\<lparr>erased_count := erased_count t - 1\<rparr>) dev))"

definition uffs_TreeInsertToBadBlockList :: "nat \<Rightarrow> 'f device \<Rightarrow> 'f device" where
  "uffs_TreeInsertToBadBlockList node dev =
     (let dev = upd_u node (set_l_prev None) dev;
          dev = upd_u node (set_l_next (bad (tree dev))) dev;
          dev = (case bad (tree dev) of None \<Rightarrow> dev | Some h \<Rightarrow> upd_u h (set_l_prev (Some node)) dev)
      in upd_tree (\<lambda>t. t\<lparr>bad := Some node, bad_count := bad_count t + 1\<rparr>) dev)"

definition uffs_TreeSuspendAdd :: "nat \<Rightarrow> 'f device \<Rightarrow> 'f device" where
  "uffs_TreeSuspendAdd node dev =
     (let dev = upd_u node (set_l_next (suspend (tree dev))) dev;
          dev = upd_u node (set_l_prev None) dev;
          dev = (case suspend (tree dev) of None \<Rightarrow> dev | Some h \<Rightarrow> upd_u h (set_l_prev (Some node)) dev)
      in upd_tree (\<lambda>t. t\<lparr>suspend := Some node\<rparr>) dev)"

definition uffs_TreeFindSuspendNode :: "u16 \<Rightarrow> 'f device \<Rightarrow> nat option option" where
  "uffs_TreeFindSuspendNode serial dev =
     chain_find (\<lambda>x. l_next (nu dev x)) (\<lambda>x. l_u (nu dev x) = serial) (suspend (tree dev))"

definition uffs_TreeRemoveSuspendNode :: "nat \<Rightarrow> 'f device \<Rightarrow> 'f device" where
  "uffs_TreeRemoveSuspendNode node dev =
     (let dev = (case l_prev (nu dev node) of None \<Rightarrow> dev | Some p \<Rightarrow> upd_u p (set_l_next (l_next (nu dev node))) dev);
          dev = (case l_next (nu dev node) of None \<Rightarrow> dev | Some n \<Rightarrow> upd_u n (set_l_prev (l_prev (nu dev node))) dev)
      in if suspend (tree dev) = Some node then upd_tree (\<lambda>t. t\<lparr>suspend := None\<rparr>) dev else dev)"

definition uffs_TreeFindErasedNodeByBlock :: "u16 \<Rightarrow> 'f device \<Rightarrow> nat option option" where
  "uffs_TreeFindErasedNodeByBlock block dev =
     chain_find (\<lambda>x. l_next (nu dev x)) (\<lambda>x. l_block (nu dev x) = block) (erased (tree dev))"

definition uffs_TreeFindBadNodeByBlock :: "u16 \<Rightarrow> 'f device \<Rightarrow> nat option option" where
  "uffs_TreeFindBadNodeByBlock block dev =
     chain_find (\<lambda>x. l_next (nu dev x)) (\<lambda>x. l_block (nu dev x) = block) (bad (tree dev))"

subsection \<open>The hash tables\<close>

text \<open>The loop along a hash chain. A chain with an index outside the pool leads to a null
  pointer.\<close>

partial_function (option) hash_find :: "'f device \<Rightarrow> (NodeU \<Rightarrow> bool) \<Rightarrow> u16 \<Rightarrow> nat option option" where
  "hash_find dev P x =
     (if x = EMPTY_NODE then Some None
      else case FROM_IDX x dev of None \<Rightarrow> None
           | Some node \<Rightarrow> if P (nu dev node) then Some (Some node) else hash_find dev P (hash_next (tree_nodes dev node)))"

fun table_find :: "'f device \<Rightarrow> (NodeU \<Rightarrow> bool) \<Rightarrow> u16 list \<Rightarrow> nat option option" where
  "table_find dev P [] = Some None"
| "table_find dev P (x # entry) =
     (case hash_find dev P x of None \<Rightarrow> None
      | Some None \<Rightarrow> table_find dev P entry
      | Some (Some node) \<Rightarrow> Some (Some node))"

definition uffs_TreeFindFileNode :: "u16 \<Rightarrow> 'f device \<Rightarrow> nat option option" where
  "uffs_TreeFindFileNode serial dev =
     hash_find dev (\<lambda>u. f_serial u = serial) (file_entry (tree dev) ! unat (serial AND FILE_NODE_HASH_MASK))"

definition uffs_TreeFindDirNode :: "u16 \<Rightarrow> 'f device \<Rightarrow> nat option option" where
  "uffs_TreeFindDirNode serial dev =
     hash_find dev (\<lambda>u. d_serial u = serial) (dir_entry (tree dev) ! unat (serial AND DIR_NODE_HASH_MASK))"

definition uffs_TreeFindDataNode :: "u16 \<Rightarrow> u16 \<Rightarrow> 'f device \<Rightarrow> nat option option" where
  "uffs_TreeFindDataNode parent serial dev =
     hash_find dev (\<lambda>u. da_parent u = parent \<and> da_serial u = serial) (data_entry (tree dev) ! GET_DATA_HASH parent serial)"

definition uffs_TreeFindFileNodeWithParent :: "u16 \<Rightarrow> 'f device \<Rightarrow> nat option option" where
  "uffs_TreeFindFileNodeWithParent parent dev = table_find dev (\<lambda>u. f_parent u = parent) (file_entry (tree dev))"

definition uffs_TreeFindDirNodeWithParent :: "u16 \<Rightarrow> 'f device \<Rightarrow> nat option option" where
  "uffs_TreeFindDirNodeWithParent parent dev = table_find dev (\<lambda>u. d_parent u = parent) (dir_entry (tree dev))"

definition uffs_TreeFindDirNodeByBlock :: "u16 \<Rightarrow> 'f device \<Rightarrow> nat option option" where
  "uffs_TreeFindDirNodeByBlock block dev = table_find dev (\<lambda>u. d_block u = block) (dir_entry (tree dev))"

definition uffs_TreeFindFileNodeByBlock :: "u16 \<Rightarrow> 'f device \<Rightarrow> nat option option" where
  "uffs_TreeFindFileNodeByBlock block dev = table_find dev (\<lambda>u. f_block u = block) (file_entry (tree dev))"

definition uffs_TreeFindDataNodeByBlock :: "u16 \<Rightarrow> 'f device \<Rightarrow> nat option option" where
  "uffs_TreeFindDataNodeByBlock block dev = table_find dev (\<lambda>u. da_block u = block) (data_entry (tree dev))"

definition SEARCH_REGION_DIR :: u32 where "SEARCH_REGION_DIR = 1"
definition SEARCH_REGION_FILE :: u32 where "SEARCH_REGION_FILE = 2"
definition SEARCH_REGION_DATA :: u32 where "SEARCH_REGION_DATA = 4"
definition SEARCH_REGION_BAD :: u32 where "SEARCH_REGION_BAD = 8"
definition SEARCH_REGION_ERASED :: u32 where "SEARCH_REGION_ERASED = 16"

text \<open>The regions of \<open>uffs_TreeFindNodeByBlock\<close> are tried one after the other; the one with the
  node is left in \<open>region\<close>.\<close>

fun find_regions :: "u32 \<Rightarrow> (u32 \<times> nat option option) list \<Rightarrow> (nat option \<times> u32) option" where
  "find_regions region [] = Some (None, region)"
| "find_regions region ((r, res) # rs) =
     (if region AND r = 0 then find_regions region rs
      else case res of None \<Rightarrow> None
           | Some None \<Rightarrow> find_regions region rs
           | Some (Some node) \<Rightarrow> Some (Some node, region AND r))"

definition uffs_TreeFindNodeByBlock :: "u16 \<Rightarrow> u32 \<Rightarrow> 'f device \<Rightarrow> (nat option \<times> u32) option" where
  "uffs_TreeFindNodeByBlock block region dev =
     find_regions region
       [(SEARCH_REGION_DATA, uffs_TreeFindDataNodeByBlock block dev),
        (SEARCH_REGION_FILE, uffs_TreeFindFileNodeByBlock block dev),
        (SEARCH_REGION_DIR, uffs_TreeFindDirNodeByBlock block dev),
        (SEARCH_REGION_ERASED, uffs_TreeFindErasedNodeByBlock block dev),
        (SEARCH_REGION_BAD, uffs_TreeFindBadNodeByBlock block dev)]"

definition uffs_FindFromTree :: "u8 \<Rightarrow> u16 \<Rightarrow> u16 \<Rightarrow> 'f device \<Rightarrow> nat option option" where
  "uffs_FindFromTree ty parent serial dev =
     (if ty = UFFS_TYPE_DIR then uffs_TreeFindDirNode serial dev
      else if ty = UFFS_TYPE_FILE then uffs_TreeFindFileNode serial dev
      else if ty = UFFS_TYPE_DATA then uffs_TreeFindDataNode parent serial dev
      else Some None)"

fun find_serial :: "'f device \<Rightarrow> nat list \<Rightarrow> u16 option" where
  "find_serial dev [] = Some INVALID_UFFS_SERIAL"
| "find_serial dev (i # ks) = do {
     d \<leftarrow> uffs_TreeFindDirNode (word_of_nat i) dev;
     (if d \<noteq> None then find_serial dev ks
      else do {
        f \<leftarrow> uffs_TreeFindFileNode (word_of_nat i) dev;
        (if f \<noteq> None then find_serial dev ks
         else do {
           s \<leftarrow> uffs_TreeFindSuspendNode (word_of_nat i) dev;
           (if s \<noteq> None then find_serial dev ks else Some (word_of_nat i))
         })
      })
   }"

definition uffs_FindFreeFsnSerial :: "'f device \<Rightarrow> u16 option" where
  "uffs_FindFreeFsnSerial dev = find_serial dev [unat ROOT_DIR_SERIAL + 1..<MAX_UFFS_FSN]"

text \<open>Insertion in front of a chain; the result is the new index of the entry.\<close>

definition InsertToEntry :: "u16 \<Rightarrow> nat \<Rightarrow> 'f device \<Rightarrow> (u16 \<times> 'f device) option" where
  "InsertToEntry entry node dev =
     (let dev = upd_node node (\<lambda>n. n\<lparr>hash_next := entry, hash_prev := EMPTY_NODE\<rparr>) dev
      in do {
        dev \<leftarrow> (if entry = EMPTY_NODE then Some dev
               else case (FROM_IDX entry dev, TO_IDX node dev) of
                 (Some w, Some x) \<Rightarrow> Some (upd_node w (\<lambda>n. n\<lparr>hash_prev := x\<rparr>) dev) | _ \<Rightarrow> None);
        x \<leftarrow> TO_IDX node dev;
        Some (x, dev)
      })"

definition uffs_InsertToFileEntry :: "nat \<Rightarrow> 'f device \<Rightarrow> 'f device option" where
  "uffs_InsertToFileEntry node dev =
     (let h = GET_FILE_HASH (f_serial (nu dev node)) in do {
        (x, dev) \<leftarrow> InsertToEntry (file_entry (tree dev) ! h) node dev;
        Some (upd_tree (\<lambda>t. t\<lparr>file_entry := (file_entry t)[h := x]\<rparr>) dev)
      })"

definition uffs_InsertToDirEntry :: "nat \<Rightarrow> 'f device \<Rightarrow> 'f device option" where
  "uffs_InsertToDirEntry node dev =
     (let h = GET_DIR_HASH (d_serial (nu dev node)) in do {
        (x, dev) \<leftarrow> InsertToEntry (dir_entry (tree dev) ! h) node dev;
        Some (upd_tree (\<lambda>t. t\<lparr>dir_entry := (dir_entry t)[h := x]\<rparr>) dev)
      })"

definition uffs_InsertToDataEntry :: "nat \<Rightarrow> 'f device \<Rightarrow> 'f device option" where
  "uffs_InsertToDataEntry node dev =
     (let h = GET_DATA_HASH (da_parent (nu dev node)) (da_serial (nu dev node)) in do {
        (x, dev) \<leftarrow> InsertToEntry (data_entry (tree dev) ! h) node dev;
        Some (upd_tree (\<lambda>t. t\<lparr>data_entry := (data_entry t)[h := x]\<rparr>) dev)
      })"

definition uffs_InsertNodeToTree :: "u8 \<Rightarrow> nat \<Rightarrow> 'f device \<Rightarrow> 'f device option" where
  "uffs_InsertNodeToTree ty node dev =
     (if ty = UFFS_TYPE_DIR then uffs_InsertToDirEntry node dev
      else if ty = UFFS_TYPE_FILE then uffs_InsertToFileEntry node dev
      else if ty = UFFS_TYPE_DATA then uffs_InsertToDataEntry node dev
      else Some dev)"

text \<open>Joining the neighbours of a node; the result is the new index of the entry.\<close>

definition break_entry :: "u16 \<Rightarrow> nat \<Rightarrow> 'f device \<Rightarrow> (u16 \<times> 'f device) option" where
  "break_entry entry node dev = do {
     dev \<leftarrow> (let p = hash_prev (tree_nodes dev node) in
            if p = EMPTY_NODE then Some dev
            else map_option (\<lambda>w. upd_node w (\<lambda>n. n\<lparr>hash_next := hash_next (tree_nodes dev node)\<rparr>) dev) (FROM_IDX p dev));
     dev \<leftarrow> (let x = hash_next (tree_nodes dev node) in
            if x = EMPTY_NODE then Some dev
            else map_option (\<lambda>w. upd_node w (\<lambda>n. n\<lparr>hash_prev := hash_prev (tree_nodes dev node)\<rparr>) dev) (FROM_IDX x dev));
     x \<leftarrow> TO_IDX node dev;
     Some (if entry = x then hash_next (tree_nodes dev node) else entry, dev)
   }"

definition uffs_BreakFromEntry :: "u8 \<Rightarrow> nat \<Rightarrow> 'f device \<Rightarrow> 'f device option" where
  "uffs_BreakFromEntry ty node dev =
     (if ty = UFFS_TYPE_DIR then
        let h = GET_DIR_HASH (d_serial (nu dev node)) in
        map_option (\<lambda>(e, dev). upd_tree (\<lambda>t. t\<lparr>dir_entry := (dir_entry t)[h := e]\<rparr>) dev)
          (break_entry (dir_entry (tree dev) ! h) node dev)
      else if ty = UFFS_TYPE_FILE then
        let h = GET_FILE_HASH (f_serial (nu dev node)) in
        map_option (\<lambda>(e, dev). upd_tree (\<lambda>t. t\<lparr>file_entry := (file_entry t)[h := e]\<rparr>) dev)
          (break_entry (file_entry (tree dev) ! h) node dev)
      else if ty = UFFS_TYPE_DATA then
        let h = GET_DATA_HASH (da_parent (nu dev node)) (da_serial (nu dev node)) in
        map_option (\<lambda>(e, dev). upd_tree (\<lambda>t. t\<lparr>data_entry := (data_entry t)[h := e]\<rparr>) dev)
          (break_entry (data_entry (tree dev) ! h) node dev)
      else Some dev)"

definition GetBlockFromNode :: "u8 \<Rightarrow> NodeU \<Rightarrow> u16" where
  "GetBlockFromNode ty u =
     (if ty = UFFS_TYPE_DIR then d_block u else if ty = UFFS_TYPE_FILE then f_block u
      else if ty = UFFS_TYPE_DATA then da_block u else UFFS_INVALID_BLOCK)"

definition uffs_TreeSetNodeBlock :: "u8 \<Rightarrow> nat \<Rightarrow> u16 \<Rightarrow> 'f device \<Rightarrow> 'f device" where
  "uffs_TreeSetNodeBlock ty node block =
     upd_u node (\<lambda>u. if ty = UFFS_TYPE_FILE then UFile block (f_checksum u) (f_parent u) (f_serial u) (f_len u)
       else if ty = UFFS_TYPE_DIR then UDir block (d_checksum u) (d_parent u) (d_serial u)
       else if ty = UFFS_TYPE_DATA then UData block (da_parent u) (da_len u) (da_serial u)
       else u)"

subsection \<open>Initialisation\<close>

definition SIZEOF_TREENODE :: int where "SIZEOF_TREENODE = 32"

definition uffs_TreeInit :: "'f device \<Rightarrow> URET \<times> 'f device" where
  "uffs_TreeInit dev =
     (let num = uint (par_end dev) - uint (par_start dev) + 1; sz = SIZEOF_TREENODE * num;
          dev = (if tree_nodes_pool_size dev = 0
                 then case mem_malloc dev of None \<Rightarrow> dev
                      | Some al \<Rightarrow> let dev = dev\<lparr>tree_nodes_pool_buf := al sz\<rparr>
                                  in if tree_nodes_pool_buf dev \<noteq> None then dev\<lparr>tree_nodes_pool_size := sz\<rparr> else dev
                 else dev)
      in if sz > tree_nodes_pool_size dev
         then (U_FAIL, dev\<lparr>tree_pool := \<lparr>p_mem = 0, p_buf_size = 0, p_num_bufs = 0, p_free_list = None,
                                        p_next = (\<lambda>_. None), p_sem = False\<rparr>\<rparr>)
         else let dev = dev\<lparr>tree_pool := snd (uffs_PoolInit (tree_pool dev) (tree_nodes_pool_buf dev)
                      (word_of_int (tree_nodes_pool_size dev)) (word_of_int SIZEOF_TREENODE) (word_of_int num) False)\<rparr>
              in (U_SUCC, upd_tree (\<lambda>t. t\<lparr>erased := None, erased_tail := None, erased_count := 0, bad := None, bad_count := 0,
                    dir_entry := replicate DIR_NODE_ENTRY_LEN EMPTY_NODE,
                    file_entry := replicate FILE_NODE_ENTRY_LEN EMPTY_NODE,
                    data_entry := replicate DATA_NODE_ENTRY_LEN EMPTY_NODE,
                    max_serial := ROOT_DIR_SERIAL\<rparr>) dev))"

definition uffs_TreeRelease :: "'f device \<Rightarrow> URET \<times> 'f device" where
  "uffs_TreeRelease dev =
     (let dev = (if p_mem (tree_pool dev) \<noteq> 0 \<and> mem_free dev then dev\<lparr>tree_nodes_pool_size := 0\<rparr> else dev)
      in (U_SUCC, dev\<lparr>tree_pool := \<lparr>p_mem = 0, p_buf_size = 0, p_num_bufs = 0, p_free_list = None,
                                   p_next = (\<lambda>_. None), p_sem = False\<rparr>\<rparr>))"

section \<open>Indices and pointers\<close>

text \<open>The node pool has at most 65535 nodes, so that every node has an index other than
  \<open>EMPTY_NODE\<close>. \<open>dec\<close> and \<open>enc\<close> translate between indices and pointers.\<close>

definition nodes_ok :: "'f device \<Rightarrow> bool" where
  "nodes_ok dev \<longleftrightarrow> pool_geom (tree_pool dev) \<and> unat (p_num_bufs (tree_pool dev)) \<le> 0xffff"

definition slots :: "'f device \<Rightarrow> nat set" where
  "slots dev = pool_slots (tree_pool dev)"

definition dec :: "'f device \<Rightarrow> u16 \<Rightarrow> nat option" where
  "dec dev x = (if x = EMPTY_NODE then None else FROM_IDX x dev)"

definition enc :: "'f device \<Rightarrow> nat option \<Rightarrow> u16" where
  "enc dev p = (case p of None \<Rightarrow> EMPTY_NODE | Some a \<Rightarrow> the (TO_IDX a dev))"

definition idx_ok :: "'f device \<Rightarrow> u16 \<Rightarrow> bool" where
  "idx_ok dev x \<longleftrightarrow> x = EMPTY_NODE \<or> unat x < unat (p_num_bufs (tree_pool dev))"

lemma dec_EMPTY [simp]: "dec dev EMPTY_NODE = None" "enc dev None = EMPTY_NODE" "idx_ok dev EMPTY_NODE"
  by (simp_all add: dec_def enc_def idx_ok_def)

lemma unat_ucast_16_32: "unat (ucast (x :: u16) :: u32) = unat x"
proof -
  have "unat x < 2 ^ LENGTH(16)" by (rule unsigned_less)
  then have "unat x < 2 ^ LENGTH(32)" by (rule order_less_le_trans) simp
  then have "take_bit LENGTH(32) (unat x) = unat x" by (rule take_bit_nat_eq_self)
  then show ?thesis by (simp add: unsigned_ucast_eq)
qed

lemma slot_idx:
  assumes ok: "nodes_ok dev" and i: "i < unat (p_num_bufs (tree_pool dev))"
  shows "TO_IDX (slot_addr (tree_pool dev) i) dev = Some (word_of_nat i)"
    and "FROM_IDX (word_of_nat i) dev = Some (slot_addr (tree_pool dev) i)"
    and "(word_of_nat i :: u16) \<noteq> EMPTY_NODE"
proof -
  have g: "pool_geom (tree_pool dev)" and n: "i < 0xffff" using ok i by (auto simp: nodes_ok_def)
  have u: "unat (word_of_nat i :: u16) = i" using n by (intro unat_of_nat_u16) simp
  have c: "(ucast (word_of_nat i :: u16) :: u32) = word_of_nat i"
    using u n by (simp add: word_unat_eq_iff unat_ucast_16_32 unat_of_nat)
  have c': "(ucast (word_of_nat i :: u32) :: u16) = word_of_nat i"
    by (simp add: unsigned_of_nat word_of_nat_eq_iff)
  show "TO_IDX (slot_addr (tree_pool dev) i) dev = Some (word_of_nat i)"
    using i by (simp add: TO_IDX_def GetIndex_slot[OF g] c')
  show "FROM_IDX (word_of_nat i) dev = Some (slot_addr (tree_pool dev) i)"
    using i GetBufByIndex_slot[OF g i] by (simp add: FROM_IDX_def c)
  show "(word_of_nat i :: u16) \<noteq> EMPTY_NODE" using u n by (auto simp: EMPTY_NODE_def)
qed

lemma slotE:
  assumes "a \<in> slots dev"
  obtains i where "i < unat (p_num_bufs (tree_pool dev))" "a = slot_addr (tree_pool dev) i"
  using assms by (auto simp: slots_def pool_slots_def)

lemma dec_enc: "nodes_ok dev \<Longrightarrow> a \<in> slots dev \<Longrightarrow> dec dev (enc dev (Some a)) = Some a"
  by (erule slotE) (simp add: dec_def enc_def slot_idx)

lemma enc_ok: "nodes_ok dev \<Longrightarrow> a \<in> slots dev \<Longrightarrow> idx_ok dev (enc dev (Some a)) \<and> enc dev (Some a) \<noteq> EMPTY_NODE \<and> TO_IDX a dev = Some (enc dev (Some a))"
proof (erule slotE)
  fix i assume ok: "nodes_ok dev" and i: "i < unat (p_num_bufs (tree_pool dev))" and a: "a = slot_addr (tree_pool dev) i"
  have "i < 0xffff" using ok i by (auto simp: nodes_ok_def)
  then have "unat (word_of_nat i :: u16) = i" by (intro unat_of_nat_u16) simp
  then show ?thesis using slot_idx[OF ok i] i by (simp add: enc_def a idx_ok_def)
qed

lemma dec_cases:
  assumes ok: "nodes_ok dev" and x: "idx_ok dev x"
  obtains "x = EMPTY_NODE" "dec dev x = None"
  | b where "x \<noteq> EMPTY_NODE" "dec dev x = Some b" "FROM_IDX x dev = Some b" "b \<in> slots dev" "x = enc dev (Some b)"
proof (cases "x = EMPTY_NODE")
  case False
  then have i: "unat x < unat (p_num_bufs (tree_pool dev))" using x by (simp add: idx_ok_def)
  note s = slot_idx[OF ok i]
  have "slot_addr (tree_pool dev) (unat x) \<in> slots dev" using i by (auto simp: slots_def pool_slots_def)
  then show thesis using that(2)[of "slot_addr (tree_pool dev) (unat x)"] False s by (simp add: dec_def enc_def)
qed (use that(1) in simp)

lemma dec_inj: "nodes_ok dev \<Longrightarrow> idx_ok dev x \<Longrightarrow> a \<in> slots dev \<Longrightarrow> dec dev x = Some a \<Longrightarrow> x = enc dev (Some a)"
  by (erule (1) dec_cases) auto

section \<open>Hash chains\<close>

definition hn :: "'f device \<Rightarrow> nat \<Rightarrow> nat option" where
  "hn dev a = dec dev (hash_next (tree_nodes dev a))"

definition hp :: "'f device \<Rightarrow> nat \<Rightarrow> nat option" where
  "hp dev a = dec dev (hash_prev (tree_nodes dev a))"

text \<open>The nodes \<open>xs\<close> are the chain of an entry \<open>e\<close>, linked forward and backward.\<close>

definition bucket :: "'f device \<Rightarrow> u16 \<Rightarrow> nat list \<Rightarrow> bool" where
  "bucket dev e xs \<longleftrightarrow> idx_ok dev e \<and> (\<exists>t. dll (hn dev) (hp dev) (dec dev e) t xs) \<and>
     (\<forall>a \<in> set xs. a \<in> slots dev \<and> idx_ok dev (hash_next (tree_nodes dev a)) \<and> idx_ok dev (hash_prev (tree_nodes dev a)))"

lemma nodes_frame [simp]:
  "dec (dev\<lparr>tree_nodes := N\<rparr>) = dec dev" "enc (dev\<lparr>tree_nodes := N\<rparr>) = enc dev" "idx_ok (dev\<lparr>tree_nodes := N\<rparr>) = idx_ok dev"
  "slots (dev\<lparr>tree_nodes := N\<rparr>) = slots dev" "nodes_ok (dev\<lparr>tree_nodes := N\<rparr>) = nodes_ok dev"
  "FROM_IDX x (dev\<lparr>tree_nodes := N\<rparr>) = FROM_IDX x dev" "TO_IDX a (dev\<lparr>tree_nodes := N\<rparr>) = TO_IDX a dev"
  "dec (dev\<lparr>tree := T\<rparr>) = dec dev" "enc (dev\<lparr>tree := T\<rparr>) = enc dev" "idx_ok (dev\<lparr>tree := T\<rparr>) = idx_ok dev"
  "slots (dev\<lparr>tree := T\<rparr>) = slots dev" "nodes_ok (dev\<lparr>tree := T\<rparr>) = nodes_ok dev"
  by (simp_all add: dec_def enc_def idx_ok_def slots_def nodes_ok_def FROM_IDX_def TO_IDX_def fun_eq_iff split: option.split)

lemma hash_find_eq:
  assumes "nodes_ok dev" "idx_ok dev x" "chain (hn dev) (dec dev x) xs" "\<forall>a \<in> set xs. idx_ok dev (hash_next (tree_nodes dev a))"
  shows "hash_find dev P x = Some (List.find (\<lambda>a. P (nu dev a)) xs)"
  using assms(2-)
proof (induction xs arbitrary: x)
  case Nil
  have "x = EMPTY_NODE" by (rule dec_cases[OF assms(1) Nil(1)]) (use Nil in auto)
  then show ?case by (simp add: hash_find.simps)
next
  case (Cons a xs)
  have x: "x \<noteq> EMPTY_NODE \<and> FROM_IDX x dev = Some a" by (rule dec_cases[OF assms(1) Cons(2)]) (use Cons in auto)
  have "hash_find dev P (hash_next (tree_nodes dev a)) = Some (List.find (\<lambda>a. P (nu dev a)) xs)"
    using Cons.prems by (intro Cons.IH) (simp_all add: hn_def)
  then show ?case using x by (subst hash_find.simps) simp
qed

lemma bucket_find: "nodes_ok dev \<Longrightarrow> bucket dev e xs \<Longrightarrow> hash_find dev P e = Some (List.find (\<lambda>a. P (nu dev a)) xs)"
  by (rule hash_find_eq) (auto simp: bucket_def dll_def)

lemma bucket_cong:
  assumes "bucket dev e xs" "\<And>a. a \<in> set xs \<Longrightarrow> tree_nodes dev' a = tree_nodes dev a" "tree_pool dev' = tree_pool dev"
  shows "bucket dev' e xs"
proof -
  have p: "dec dev' = dec dev" "idx_ok dev' = idx_ok dev" "slots dev' = slots dev"
    using assms(3) by (simp_all add: dec_def idx_ok_def slots_def FROM_IDX_def fun_eq_iff)
  have "dll (hn dev') (hp dev') h t xs = dll (hn dev) (hp dev) h t xs" for h t
    by (rule dll_cong) (simp add: hn_def hp_def p assms(2))
  then show ?thesis using assms(1,2) by (simp add: bucket_def p)
qed

lemma InsertToEntry_ok:
  assumes ok: "nodes_ok dev" and b: "bucket dev e xs" and a: "a \<in> slots dev" "a \<notin> set xs"
  shows "\<exists>N. InsertToEntry e a dev = Some (enc dev (Some a), dev\<lparr>tree_nodes := N\<rparr>) \<and>
    bucket (dev\<lparr>tree_nodes := N\<rparr>) (enc dev (Some a)) (a # xs) \<and>
    (\<forall>y. n_u (N y) = n_u (tree_nodes dev y)) \<and> (\<forall>y. y \<notin> set (a # xs) \<longrightarrow> N y = tree_nodes dev y)"
proof -
  have e: "idx_ok dev e" using b by (simp add: bucket_def)
  note ea = enc_ok[OF ok a(1)]
  obtain t where d: "dll (hn dev) (hp dev) (dec dev e) t xs" using b by (auto simp: bucket_def)
  note push = dll_push_front[OF d a(2)]
  define N1 where "N1 = (tree_nodes dev)(a := (tree_nodes dev a)\<lparr>hash_next := e, hash_prev := EMPTY_NODE\<rparr>)"
  define N where "N = (case dec dev e of None \<Rightarrow> N1 | Some w \<Rightarrow> N1(w := (N1 w)\<lparr>hash_prev := enc dev (Some a)\<rparr>))"
  have w: "w \<in> set xs \<and> w \<noteq> a" if "dec dev e = Some w" for w
    using dll_head[OF d] that a(2) hd_in_set[of xs] by (auto split: if_splits)
  have run: "InsertToEntry e a dev = Some (enc dev (Some a), dev\<lparr>tree_nodes := N\<rparr>)"
    using ea by (cases rule: dec_cases[OF ok e]) (auto simp: InsertToEntry_def upd_node_def N_def N1_def Let_def)
  have hn: "hn (dev\<lparr>tree_nodes := N\<rparr>) = (hn dev)(a := dec dev e)"
    using w by (auto simp: hn_def N_def N1_def fun_eq_iff split: option.splits)
  have hp: "hp (dev\<lparr>tree_nodes := N\<rparr>) = (case dec dev e of None \<Rightarrow> (hp dev)(a := None) | Some y \<Rightarrow> ((hp dev)(a := None))(y := Some a))"
    using w dec_enc[OF ok a(1)] by (auto simp: hp_def N_def N1_def fun_eq_iff split: option.splits)
  have "bucket (dev\<lparr>tree_nodes := N\<rparr>) (enc dev (Some a)) (a # xs)"
    unfolding bucket_def nodes_frame hn hp dec_enc[OF ok a(1)]
    using push ea e a(1) b by (auto simp: bucket_def N_def N1_def split: option.splits)
  moreover have "n_u (N y) = n_u (tree_nodes dev y)" for y by (simp add: N_def N1_def split: option.split)
  moreover have "N y = tree_nodes dev y" if "y \<notin> set (a # xs)" for y
    using that w by (auto simp: N_def N1_def split: option.splits)
  ultimately show ?thesis using run by blast
qed

lemma break_entry_ok:
  assumes ok: "nodes_ok dev" and b: "bucket dev e (as @ a # bs)"
  shows "\<exists>N e'. break_entry e a dev = Some (e', dev\<lparr>tree_nodes := N\<rparr>) \<and> bucket (dev\<lparr>tree_nodes := N\<rparr>) e' (as @ bs) \<and>
    (\<forall>y. n_u (N y) = n_u (tree_nodes dev y)) \<and> (\<forall>y. y \<notin> set (as @ bs) \<longrightarrow> N y = tree_nodes dev y)"
proof -
  have e: "idx_ok dev e" using b by (simp add: bucket_def)
  have a: "a \<in> slots dev" "idx_ok dev (hash_next (tree_nodes dev a))" "idx_ok dev (hash_prev (tree_nodes dev a))"
    using b by (simp_all add: bucket_def)
  note ea = enc_ok[OF ok a(1)]
  obtain t where d: "dll (hn dev) (hp dev) (dec dev e) t (as @ a # bs)" using b by (auto simp: bucket_def)
  have dis: "distinct (as @ a # bs)" by (rule dll_distinct[OF d])
  have p: "w \<in> set as" if "hp dev a = Some w" for w
    using dll_prev[OF d] that last_in_set[of as] by (auto split: if_splits)
  have q: "w \<in> set bs" if "hn dev a = Some w" for w
    using dll_next[OF d] that hd_in_set[of bs] by (auto split: if_splits)
  define N1 where "N1 = (case hp dev a of None \<Rightarrow> tree_nodes dev
    | Some w \<Rightarrow> (tree_nodes dev)(w := (tree_nodes dev w)\<lparr>hash_next := hash_next (tree_nodes dev a)\<rparr>))"
  define N where "N = (case hn dev a of None \<Rightarrow> N1 | Some w \<Rightarrow> N1(w := (N1 w)\<lparr>hash_prev := hash_prev (tree_nodes dev a)\<rparr>))"
  have na: "N1 a = tree_nodes dev a" "N a = tree_nodes dev a" using p q dis by (auto simp: N1_def N_def split: option.splits)
  define e' where "e' = (if e = enc dev (Some a) then hash_next (tree_nodes dev a) else e)"
  define d1 where "d1 = dev\<lparr>tree_nodes := N1\<rparr>"
  have s1: "(let p = hash_prev (tree_nodes dev a) in if p = EMPTY_NODE then Some dev
      else map_option (\<lambda>w. upd_node w (\<lambda>n. n\<lparr>hash_next := hash_next (tree_nodes dev a)\<rparr>) dev) (FROM_IDX p dev)) = Some d1"
    by (rule dec_cases[OF ok a(3)]) (simp_all add: N1_def hp_def upd_node_def d1_def)
  have s2: "(let x = hash_next (tree_nodes d1 a) in if x = EMPTY_NODE then Some d1
      else map_option (\<lambda>w. upd_node w (\<lambda>n. n\<lparr>hash_prev := hash_prev (tree_nodes d1 a)\<rparr>) d1) (FROM_IDX x d1)) =
      Some (dev\<lparr>tree_nodes := N\<rparr>)"
    by (rule dec_cases[OF ok a(2)]) (simp_all add: N_def hn_def upd_node_def na d1_def)
  have run: "break_entry e a dev = Some (e', dev\<lparr>tree_nodes := N\<rparr>)"
    unfolding break_entry_def s1 Option.bind.simps s2 using ea by (simp add: na e'_def)
  have f1: "hash_next (N y) = (if hp dev a = Some y then hash_next (tree_nodes dev a) else hash_next (tree_nodes dev y))" for y
    by (cases "hn dev a"; cases "hp dev a") (simp_all add: N_def N1_def)
  have f2: "hash_prev (N y) = (if hn dev a = Some y then hash_prev (tree_nodes dev a) else hash_prev (tree_nodes dev y))" for y
    by (cases "hn dev a"; cases "hp dev a") (simp_all add: N_def N1_def)
  have hn: "hn (dev\<lparr>tree_nodes := N\<rparr>) = unlink_next (hn dev) (hp dev) a"
  proof
    fix y
    have "hn (dev\<lparr>tree_nodes := N\<rparr>) y = (if hp dev a = Some y then hn dev a else hn dev y)" by (simp add: hn_def f1)
    then show "hn (dev\<lparr>tree_nodes := N\<rparr>) y = unlink_next (hn dev) (hp dev) a y"
      by (cases "hp dev a") (simp_all add: unlink_next_def)
  qed
  have hp: "hp (dev\<lparr>tree_nodes := N\<rparr>) = unlink_next (hp dev) (hn dev) a"
  proof
    fix y
    have "hp (dev\<lparr>tree_nodes := N\<rparr>) y = (if hn dev a = Some y then hp dev a else hp dev y)" by (simp add: hp_def f2)
    then show "hp (dev\<lparr>tree_nodes := N\<rparr>) y = unlink_next (hp dev) (hn dev) a y"
      by (cases "hn dev a") (simp_all add: unlink_next_def)
  qed
  have de: "dec dev e' = (if dec dev e = Some a then hn dev a else dec dev e)"
  proof (cases "dec dev e = Some a")
    case True
    then have "e = enc dev (Some a)" by (rule dec_inj[OF ok e a(1)])
    then have "e' = hash_next (tree_nodes dev a)" unfolding e'_def by (rule if_P)
    then show ?thesis using True by (simp add: hn_def)
  next
    case False
    then have "e \<noteq> enc dev (Some a)" using dec_enc[OF ok a(1)] by metis
    then show ?thesis using False by (simp add: e'_def)
  qed
  have "bucket (dev\<lparr>tree_nodes := N\<rparr>) e' (as @ bs)"
    unfolding bucket_def nodes_frame hn hp de
  proof (intro conjI ballI)
    show "idx_ok dev e'" using e a(2) by (simp add: e'_def)
    show "\<exists>t. dll (unlink_next (hn dev) (hp dev) a) (unlink_next (hp dev) (hn dev) a) (if dec dev e = Some a then hn dev a else dec dev e) t (as @ bs)"
      using dll_unlink[OF d] by blast
    fix y assume y: "y \<in> set (as @ bs)"
    then show "y \<in> slots dev" using b by (auto simp: bucket_def)
    have "idx_ok dev (hash_next (tree_nodes dev y))" "idx_ok dev (hash_prev (tree_nodes dev y))" using b y by (auto simp: bucket_def)
    then show "idx_ok dev (hash_next (tree_nodes (dev\<lparr>tree_nodes := N\<rparr>) y))" "idx_ok dev (hash_prev (tree_nodes (dev\<lparr>tree_nodes := N\<rparr>) y))"
      using a(2,3) by (simp_all add: f1 f2)
  qed
  moreover have "n_u (N y) = n_u (tree_nodes dev y)" for y by (simp add: N_def N1_def split: option.split)
  moreover have "N y = tree_nodes dev y" if "y \<notin> set (as @ bs)" for y
    using that p q by (auto simp: N_def N1_def split: option.splits)
  ultimately show ?thesis using run by blast
qed

section \<open>Hash tables as maps\<close>

text \<open>The chains of the entries \<open>es\<close> hold the nodes of the map \<open>M\<close>, every node in the chain of
  the hash value of its key.\<close>

definition htable :: "'f device \<Rightarrow> (NodeU \<Rightarrow> 'k option) \<Rightarrow> ('k \<Rightarrow> nat) \<Rightarrow> u16 list \<Rightarrow> ('k \<Rightarrow> nat option) \<Rightarrow> bool" where
  "htable dev key hash es M \<longleftrightarrow>
     (\<exists>B. (\<forall>h < length es. bucket dev (es ! h) (B h) \<and>
             (\<forall>a \<in> set (B h). \<exists>k. key (nu dev a) = Some k \<and> hash k = h \<and> M k = Some a)) \<and>
          (\<forall>k a. M k = Some a \<longrightarrow> hash k < length es \<and> a \<in> set (B (hash k)) \<and> key (nu dev a) = Some k))"

lemma htable_frame:
  assumes "htable dev key hash es M" "\<And>a. a \<in> ran M \<Longrightarrow> tree_nodes dev' a = tree_nodes dev a" "tree_pool dev' = tree_pool dev"
  shows "htable dev' key hash es M"
proof -
  obtain B where B: "\<And>h. h < length es \<Longrightarrow> bucket dev (es ! h) (B h)"
    "\<And>h a. h < length es \<Longrightarrow> a \<in> set (B h) \<Longrightarrow> \<exists>k. key (nu dev a) = Some k \<and> hash k = h \<and> M k = Some a"
    "\<And>k a. M k = Some a \<Longrightarrow> hash k < length es \<and> a \<in> set (B (hash k)) \<and> key (nu dev a) = Some k"
    using assms(1) unfolding htable_def by blast
  have same: "tree_nodes dev' a = tree_nodes dev a" if "h < length es" "a \<in> set (B h)" for h a
    using B(2)[OF that] assms(2) by (auto intro: ranI)
  have key: "key (nu dev' a) = key (nu dev a)" if "a \<in> ran M" for a using assms(2)[OF that] by (simp add: nu_def)
  show ?thesis unfolding htable_def
  proof (intro exI[of _ B] conjI allI impI ballI)
    fix h assume h: "h < length es"
    show "bucket dev' (es ! h) (B h)" by (rule bucket_cong[OF B(1)[OF h] same[OF h] assms(3)])
    fix a assume "a \<in> set (B h)"
    then obtain k where k: "key (nu dev a) = Some k" "hash k = h" "M k = Some a" using B(2)[OF h] by blast
    then have "key (nu dev' a) = Some k" using key[of a] by (auto intro: ranI)
    then show "\<exists>k. key (nu dev' a) = Some k \<and> hash k = h \<and> M k = Some a" using k by blast
  next
    fix k a assume k: "M k = Some a"
    then show "hash k < length es" "a \<in> set (B (hash k))" using B(3) by blast+
    show "key (nu dev' a) = Some k" using B(3)[OF k] key[of a] k by (auto intro: ranI)
  qed
qed

text \<open>The interface of a table: the key of a node, and a hash value within the table.\<close>

locale hash_index =
  fixes key :: "NodeU \<Rightarrow> 'k option" and hash :: "'k \<Rightarrow> nat" and len :: nat
  assumes hash_len: "hash k < len"
begin

lemma find:
  assumes ok: "nodes_ok dev" and t: "htable dev key hash es M" "length es = len"
    and P: "\<And>u k'. key u = Some k' \<Longrightarrow> P u = (k' = k)"
  shows "hash_find dev P (es ! hash k) = Some (M k)"
proof -
  obtain B where B: "bucket dev (es ! hash k) (B (hash k))"
    "\<And>a. a \<in> set (B (hash k)) \<Longrightarrow> \<exists>k'. key (nu dev a) = Some k' \<and> hash k' = hash k \<and> M k' = Some a"
    "\<And>a. M k = Some a \<Longrightarrow> a \<in> set (B (hash k)) \<and> key (nu dev a) = Some k"
    using t hash_len[of k] unfolding htable_def by metis
  have "List.find (\<lambda>a. P (nu dev a)) (B (hash k)) = M k"
  proof (cases "M k")
    case None
    have "\<not> P (nu dev a)" if "a \<in> set (B (hash k))" for a
      using B(2)[OF that] None P by (metis option.distinct(1))
    then show ?thesis by (simp add: None find_None_iff_set)
  next
    case (Some a)
    have "y = a" if "y \<in> set (B (hash k))" "P (nu dev y)" for y
      using B(2)[OF that(1)] that(2) P Some by (metis option.inject)
    then show ?thesis using B(3)[OF Some] P Some by (auto intro: find_unique)
  qed
  then show ?thesis using bucket_find[OF ok B(1), of P] by simp
qed

lemma insert:
  assumes ok: "nodes_ok dev" and t: "htable dev key hash es M" "length es = len"
    and a: "key (nu dev a) = Some k" "M k = None" "a \<in> slots dev"
  shows "\<exists>x N. InsertToEntry (es ! hash k) a dev = Some (x, dev\<lparr>tree_nodes := N\<rparr>) \<and>
    htable (dev\<lparr>tree_nodes := N\<rparr>) key hash (es[hash k := x]) (M(k \<mapsto> a)) \<and>
    (\<forall>y. n_u (N y) = nu dev y) \<and> (\<forall>y. key (nu dev y) = None \<longrightarrow> N y = tree_nodes dev y)"
proof -
  obtain B where B: "\<And>h. h < length es \<Longrightarrow> bucket dev (es ! h) (B h)"
    "\<And>h a. h < length es \<Longrightarrow> a \<in> set (B h) \<Longrightarrow> \<exists>k. key (nu dev a) = Some k \<and> hash k = h \<and> M k = Some a"
    "\<And>k a. M k = Some a \<Longrightarrow> hash k < length es \<and> a \<in> set (B (hash k)) \<and> key (nu dev a) = Some k"
    using t(1) unfolding htable_def by blast
  have h: "hash k < length es" using hash_len t(2) by simp
  have na: "a \<notin> set (B h)" if "h < length es" for h using B(2)[OF that, of a] a(1,2) by auto
  obtain N where N: "InsertToEntry (es ! hash k) a dev = Some (enc dev (Some a), dev\<lparr>tree_nodes := N\<rparr>)"
    "bucket (dev\<lparr>tree_nodes := N\<rparr>) (enc dev (Some a)) (a # B (hash k))"
    "\<And>y. n_u (N y) = n_u (tree_nodes dev y)" "\<And>y. y \<notin> set (a # B (hash k)) \<Longrightarrow> N y = tree_nodes dev y"
    using InsertToEntry_ok[OF ok B(1)[OF h] a(3) na[OF h]] by blast
  let ?d = "dev\<lparr>tree_nodes := N\<rparr>"
  have nu: "nu ?d y = nu dev y" for y by (simp add: nu_def N(3))
  have keep: "N y = tree_nodes dev y" if "h < length es" "h \<noteq> hash k" "y \<in> set (B h)" for h y
  proof (rule N(4))
    have "y \<notin> set (B (hash k))" using B(2)[OF that(1,3)] B(2)[OF h, of y] that(2) by force
    moreover have "y \<noteq> a" using na[OF that(1)] that(3) by auto
    ultimately show "y \<notin> set (a # B (hash k))" by simp
  qed
  have "htable ?d key hash (es[hash k := enc dev (Some a)]) (M(k \<mapsto> a))"
    unfolding htable_def nu
  proof (intro exI[of _ "B(hash k := a # B (hash k))"] conjI allI impI ballI)
    fix i assume i: "i < length (es[hash k := enc dev (Some a)])"
    show "bucket ?d (es[hash k := enc dev (Some a)] ! i) ((B(hash k := a # B (hash k))) i)"
    proof (cases "i = hash k")
      case False
      have "bucket ?d (es ! i) (B i)" by (rule bucket_cong[OF B(1)]) (use keep i False in simp_all)
      then show ?thesis using False by simp
    qed (use h N(2) in simp)
    fix y assume y: "y \<in> set ((B(hash k := a # B (hash k))) i)"
    show "\<exists>k'. key (nu dev y) = Some k' \<and> hash k' = i \<and> (M(k \<mapsto> a)) k' = Some y"
    proof (cases "y = a")
      case True
      then have "i = hash k" using y na[of i] i by (auto split: if_splits)
      then show ?thesis using True a(1) by auto
    next
      case False
      then have "y \<in> set (B i)" using y by (auto split: if_splits)
      then obtain k' where k': "key (nu dev y) = Some k'" "hash k' = i" "M k' = Some y" using B(2)[of i y] i by auto
      then have "k' \<noteq> k" using a(2) by auto
      then show ?thesis using k' by auto
    qed
  next
    fix k' y assume k': "(M(k \<mapsto> a)) k' = Some y"
    show "hash k' < length (es[hash k := enc dev (Some a)])" using hash_len t(2) by simp
    show "y \<in> set ((B(hash k := a # B (hash k))) (hash k'))" "key (nu dev y) = Some k'"
      using k' B(3)[of k' y] a(1) by (auto split: if_splits)
  qed
  moreover have "N y = tree_nodes dev y" if "key (nu dev y) = None" for y
    using that B(2)[OF h, of y] a(1) by (intro N(4)) auto
  ultimately show ?thesis using N(1,3) by (auto simp: nu_def)
qed

lemma delete:
  assumes ok: "nodes_ok dev" and t: "htable dev key hash es M" "length es = len" and a: "M k = Some a"
  shows "\<exists>x N. break_entry (es ! hash k) a dev = Some (x, dev\<lparr>tree_nodes := N\<rparr>) \<and>
    htable (dev\<lparr>tree_nodes := N\<rparr>) key hash (es[hash k := x]) (M(k := None)) \<and>
    (\<forall>y. n_u (N y) = nu dev y) \<and> (\<forall>y. key (nu dev y) = None \<longrightarrow> N y = tree_nodes dev y)"
proof -
  obtain B where B: "\<And>h. h < length es \<Longrightarrow> bucket dev (es ! h) (B h)"
    "\<And>h a. h < length es \<Longrightarrow> a \<in> set (B h) \<Longrightarrow> \<exists>k. key (nu dev a) = Some k \<and> hash k = h \<and> M k = Some a"
    "\<And>k a. M k = Some a \<Longrightarrow> hash k < length es \<and> a \<in> set (B (hash k)) \<and> key (nu dev a) = Some k"
    using t(1) unfolding htable_def by blast
  have h: "hash k < length es" using hash_len t(2) by simp
  obtain as bs where sp: "B (hash k) = as @ a # bs" using B(3)[OF a] by (auto dest: split_list)
  note b = B(1)[OF h, unfolded sp]
  obtain t where d: "dll (hn dev) (hp dev) (dec dev (es ! hash k)) t (as @ a # bs)" using b by (auto simp: bucket_def)
  have dis: "distinct (as @ a # bs)" by (rule dll_distinct[OF d])
  obtain N x where N: "break_entry (es ! hash k) a dev = Some (x, dev\<lparr>tree_nodes := N\<rparr>)"
    "bucket (dev\<lparr>tree_nodes := N\<rparr>) x (as @ bs)"
    "\<And>y. n_u (N y) = n_u (tree_nodes dev y)" "\<And>y. y \<notin> set (as @ bs) \<Longrightarrow> N y = tree_nodes dev y"
    using break_entry_ok[OF ok b] by blast
  let ?d = "dev\<lparr>tree_nodes := N\<rparr>"
  have nu: "nu ?d y = nu dev y" for y by (simp add: nu_def N(3))
  have keep: "N y = tree_nodes dev y" if "i < length es" "i \<noteq> hash k" "y \<in> set (B i)" for i y
    using B(2)[OF that(1,3)] B(2)[OF h, of y] that(2) sp by (intro N(4)) fastforce
  have "htable ?d key hash (es[hash k := x]) (M(k := None))"
    unfolding htable_def nu
  proof (intro exI[of _ "B(hash k := as @ bs)"] conjI allI impI ballI)
    fix i assume i: "i < length (es[hash k := x])"
    show "bucket ?d (es[hash k := x] ! i) ((B(hash k := as @ bs)) i)"
    proof (cases "i = hash k")
      case False
      have "bucket ?d (es ! i) (B i)" by (rule bucket_cong[OF B(1)]) (use keep i False in simp_all)
      then show ?thesis using False by simp
    qed (use h N(2) in simp)
    fix y assume y: "y \<in> set ((B(hash k := as @ bs)) i)"
    then have yB: "y \<in> set (B i)" and ya: "i = hash k \<Longrightarrow> y \<noteq> a" using sp dis by (auto split: if_splits)
    obtain k' where k': "key (nu dev y) = Some k'" "hash k' = i" "M k' = Some y" using B(2)[OF _ yB] i by auto
    have "k' \<noteq> k" using k' a ya by auto
    then show "\<exists>k'. key (nu dev y) = Some k' \<and> hash k' = i \<and> (M(k := None)) k' = Some y" using k' by auto
  next
    fix k' y assume k': "(M(k := None)) k' = Some y"
    then have m: "M k' = Some y" "k' \<noteq> k" by (auto split: if_splits)
    show "hash k' < length (es[hash k := x])" using hash_len t(2) by simp
    show "key (nu dev y) = Some k'" using B(3)[OF m(1)] by blast
    have "y \<noteq> a" using B(3)[OF m(1)] B(3)[OF a] m(2) by auto
    then show "y \<in> set ((B(hash k := as @ bs)) (hash k'))" using B(3)[OF m(1)] sp by auto
  qed
  moreover have "N y = tree_nodes dev y" if "key (nu dev y) = None" for y
    using that B(2)[OF h, of y] sp by (intro N(4)) auto
  ultimately show ?thesis using N(1,3) by (auto simp: nu_def)
qed

end

end
