(* ===== verification/Tree_Maps.thy ===== *)
theory Tree_Maps
  imports Block_Tree Sample_Device
begin

text \<open>
  What the block tree promises: the three hash tables are one map from the objects (directories,
  files and data blocks by their serial numbers) to nodes, and the list of erased blocks is a
  queue. The operations of \<open>Block_Tree\<close> are shown to implement lookup, update and removal of the
  map and the operations of the queue, without touching each other's nodes.
\<close>

section \<open>The objects\<close>

datatype obj = ODir u16 | OFile u16 | OData u16 u16

fun obj_ty :: "obj \<Rightarrow> u8" where
  "obj_ty (ODir s) = UFFS_TYPE_DIR"
| "obj_ty (OFile s) = UFFS_TYPE_FILE"
| "obj_ty (OData p s) = UFFS_TYPE_DATA"

fun obj_parent :: "obj \<Rightarrow> u16" where
  "obj_parent (OData p s) = p"
| "obj_parent _ = 0"

fun obj_serial :: "obj \<Rightarrow> u16" where
  "obj_serial (ODir s) = s"
| "obj_serial (OFile s) = s"
| "obj_serial (OData p s) = s"

fun key_dir :: "NodeU \<Rightarrow> u16 option" where
  "key_dir (UDir b c p s) = Some s"
| "key_dir _ = None"

fun key_file :: "NodeU \<Rightarrow> u16 option" where
  "key_file (UFile b c p s l) = Some s"
| "key_file _ = None"

fun key_data :: "NodeU \<Rightarrow> (u16 \<times> u16) option" where
  "key_data (UData b p l s) = Some (p, s)"
| "key_data _ = None"

fun node_obj :: "NodeU \<Rightarrow> obj option" where
  "node_obj (UDir b c p s) = Some (ODir s)"
| "node_obj (UFile b c p s l) = Some (OFile s)"
| "node_obj (UData b p l s) = Some (OData p s)"
| "node_obj (UList n p b u) = None"

definition data_hash :: "u16 \<times> u16 \<Rightarrow> nat" where
  "data_hash = (\<lambda>(p, s). GET_DATA_HASH p s)"

lemma unat_mask_less:
  fixes x m :: u16
  assumes "unat m < n"
  shows "unat (x AND m) < n"
  using assms word_and_le1[of x m] unfolding word_le_nat_alt by (rule order_le_less_trans[rotated])

interpretation dirs: hash_index key_dir GET_DIR_HASH DIR_NODE_ENTRY_LEN
  by unfold_locales (auto simp: GET_DIR_HASH_def DIR_NODE_ENTRY_LEN_def DIR_NODE_HASH_MASK_def intro!: unat_mask_less)

interpretation files: hash_index key_file GET_FILE_HASH FILE_NODE_ENTRY_LEN
  by unfold_locales (auto simp: GET_FILE_HASH_def FILE_NODE_ENTRY_LEN_def FILE_NODE_HASH_MASK_def intro!: unat_mask_less)

interpretation datas: hash_index key_data data_hash DATA_NODE_ENTRY_LEN
  by unfold_locales (auto simp: data_hash_def GET_DATA_HASH_def DATA_NODE_ENTRY_LEN_def DATA_NODE_HASH_MASK_def
    intro!: unat_mask_less split: prod.split)

lemma key_simps:
  "key_dir u = Some s \<longleftrightarrow> node_obj u = Some (ODir s)"
  "key_file u = Some s \<longleftrightarrow> node_obj u = Some (OFile s)"
  "key_data u = Some (p, s) \<longleftrightarrow> node_obj u = Some (OData p s)"
  by (cases u; auto)+

lemma node_obj_iff:
  "node_obj u = Some (ODir s) \<longleftrightarrow> (\<exists>b c p. u = UDir b c p s)"
  "node_obj u = Some (OFile s) \<longleftrightarrow> (\<exists>b c p l. u = UFile b c p s l)"
  "node_obj u = Some (OData q s) \<longleftrightarrow> (\<exists>b l. u = UData b q l s)"
  by (cases u; auto)+

lemma ty_simps:
  "UFFS_TYPE_DIR \<noteq> UFFS_TYPE_FILE" "UFFS_TYPE_DIR \<noteq> UFFS_TYPE_DATA" "UFFS_TYPE_FILE \<noteq> UFFS_TYPE_DIR"
  "UFFS_TYPE_FILE \<noteq> UFFS_TYPE_DATA" "UFFS_TYPE_DATA \<noteq> UFFS_TYPE_DIR" "UFFS_TYPE_DATA \<noteq> UFFS_TYPE_FILE"
  by (simp_all add: UFFS_TYPE_DIR_def UFFS_TYPE_FILE_def UFFS_TYPE_DATA_def)

section \<open>The map of the tree\<close>

definition tree_maps :: "'f device \<Rightarrow> (obj \<Rightarrow> nat option) \<Rightarrow> bool" where
  "tree_maps dev M \<longleftrightarrow> nodes_ok dev \<and>
     length (dir_entry (tree dev)) = DIR_NODE_ENTRY_LEN \<and> length (file_entry (tree dev)) = FILE_NODE_ENTRY_LEN \<and>
     length (data_entry (tree dev)) = DATA_NODE_ENTRY_LEN \<and>
     htable dev key_dir GET_DIR_HASH (dir_entry (tree dev)) (\<lambda>s. M (ODir s)) \<and>
     htable dev key_file GET_FILE_HASH (file_entry (tree dev)) (\<lambda>s. M (OFile s)) \<and>
     htable dev key_data data_hash (data_entry (tree dev)) (\<lambda>(p, s). M (OData p s))"

lemma htableD:
  assumes "htable dev key hash es M" "M k = Some a"
  shows "key (nu dev a) = Some k" "a \<in> slots dev"
proof -
  obtain B where B: "\<And>h. h < length es \<Longrightarrow> bucket dev (es ! h) (B h)"
    "\<And>k a. M k = Some a \<Longrightarrow> hash k < length es \<and> a \<in> set (B (hash k)) \<and> key (nu dev a) = Some k"
    using assms(1) unfolding htable_def by blast
  show "key (nu dev a) = Some k" using B(2)[OF assms(2)] by blast
  show "a \<in> slots dev" using B(1)[of "hash k"] B(2)[OF assms(2)] by (auto simp: bucket_def)
qed

lemma tree_mapsD:
  assumes "tree_maps dev M" "M k = Some a"
  shows "node_obj (nu dev a) = Some k" "a \<in> slots dev"
proof -
  have "node_obj (nu dev a) = Some k \<and> a \<in> slots dev"
  proof (cases k)
    case (ODir s)
    then show ?thesis using assms htableD[of dev key_dir GET_DIR_HASH "dir_entry (tree dev)" "\<lambda>s. M (ODir s)" s a]
      by (simp add: tree_maps_def key_simps)
  next
    case (OFile s)
    then show ?thesis using assms htableD[of dev key_file GET_FILE_HASH "file_entry (tree dev)" "\<lambda>s. M (OFile s)" s a]
      by (simp add: tree_maps_def key_simps)
  next
    case (OData p s)
    then show ?thesis using assms htableD[of dev key_data data_hash "data_entry (tree dev)" "\<lambda>(p, s). M (OData p s)" "(p, s)" a]
      by (simp add: tree_maps_def key_simps)
  qed
  then show "node_obj (nu dev a) = Some k" "a \<in> slots dev" by blast+
qed

text \<open>The tables only depend on the nodes in the map.\<close>

lemma tree_maps_frame:
  assumes "tree_maps dev M" "\<And>a. a \<in> ran M \<Longrightarrow> tree_nodes dev' a = tree_nodes dev a" "tree_pool dev' = tree_pool dev"
    "dir_entry (tree dev') = dir_entry (tree dev)" "file_entry (tree dev') = file_entry (tree dev)"
    "data_entry (tree dev') = data_entry (tree dev)"
  shows "tree_maps dev' M"
proof -
  have r: "a \<in> ran (\<lambda>s. M (ODir s)) \<Longrightarrow> a \<in> ran M" "a \<in> ran (\<lambda>s. M (OFile s)) \<Longrightarrow> a \<in> ran M"
    "a \<in> ran (\<lambda>(p, s). M (OData p s)) \<Longrightarrow> a \<in> ran M" for a
    by (auto simp: ran_def)
  have "htable dev' key_dir GET_DIR_HASH (dir_entry (tree dev)) (\<lambda>s. M (ODir s))"
    using assms(1,3) by (intro htable_frame[of dev, OF _ assms(2)[OF r(1)]]) (simp_all add: tree_maps_def)
  moreover have "htable dev' key_file GET_FILE_HASH (file_entry (tree dev)) (\<lambda>s. M (OFile s))"
    using assms(1,3) by (intro htable_frame[of dev, OF _ assms(2)[OF r(2)]]) (simp_all add: tree_maps_def)
  moreover have "htable dev' key_data data_hash (data_entry (tree dev)) (\<lambda>(p, s). M (OData p s))"
    using assms(1,3) by (intro htable_frame[of dev, OF _ assms(2)[OF r(3)]]) (simp_all add: tree_maps_def)
  ultimately show ?thesis using assms by (simp add: tree_maps_def nodes_ok_def)
qed

lemma tree_find:
  assumes "tree_maps dev M"
  shows "uffs_TreeFindDirNode s dev = Some (M (ODir s))" "uffs_TreeFindFileNode s dev = Some (M (OFile s))"
    "uffs_TreeFindDataNode p s dev = Some (M (OData p s))"
proof -
  have ok: "nodes_ok dev" using assms by (simp add: tree_maps_def)
  have "hash_find dev (\<lambda>u. d_serial u = s) (dir_entry (tree dev) ! GET_DIR_HASH s) = Some (M (ODir s))"
    using assms by (intro dirs.find[OF ok]) (auto simp: tree_maps_def key_simps node_obj_iff)
  then show "uffs_TreeFindDirNode s dev = Some (M (ODir s))" by (simp add: uffs_TreeFindDirNode_def GET_DIR_HASH_def)
  have "hash_find dev (\<lambda>u. f_serial u = s) (file_entry (tree dev) ! GET_FILE_HASH s) = Some (M (OFile s))"
    using assms by (intro files.find[OF ok]) (auto simp: tree_maps_def key_simps node_obj_iff)
  then show "uffs_TreeFindFileNode s dev = Some (M (OFile s))" by (simp add: uffs_TreeFindFileNode_def GET_FILE_HASH_def)
  have "hash_find dev (\<lambda>u. da_parent u = p \<and> da_serial u = s) (data_entry (tree dev) ! data_hash (p, s)) =
      Some ((\<lambda>(p, s). M (OData p s)) (p, s))"
    using assms by (intro datas.find[OF ok]) (auto simp: tree_maps_def key_simps node_obj_iff)
  then show "uffs_TreeFindDataNode p s dev = Some (M (OData p s))" by (simp add: uffs_TreeFindDataNode_def data_hash_def)
qed

text \<open>An operation on one table that changes its nodes only. \<open>keeps\<close> is what the operations on
  the tables do not change.\<close>

definition keeps :: "'f device \<Rightarrow> 'f device \<Rightarrow> bool" where
  "keeps dev dev' \<longleftrightarrow> (\<exists>N d f a. dev' = dev\<lparr>tree_nodes := N, tree := (tree dev)\<lparr>dir_entry := d, file_entry := f, data_entry := a\<rparr>\<rparr>) \<and>
     (\<forall>y. nu dev' y = nu dev y) \<and> (\<forall>y. node_obj (nu dev y) = None \<longrightarrow> tree_nodes dev' y = tree_nodes dev y)"

lemma htable_tree [simp]: "htable (dev\<lparr>tree := T\<rparr>) = htable dev" "nu (dev\<lparr>tree := T\<rparr>) = nu dev"
proof -
  show n: "nu (dev\<lparr>tree := T\<rparr>) = nu dev" by (simp add: nu_def fun_eq_iff)
  have "hn (dev\<lparr>tree := T\<rparr>) = hn dev" "hp (dev\<lparr>tree := T\<rparr>) = hp dev" by (simp_all add: hn_def hp_def fun_eq_iff)
  then have "bucket (dev\<lparr>tree := T\<rparr>) = bucket dev" by (intro ext) (simp add: bucket_def)
  then show "htable (dev\<lparr>tree := T\<rparr>) = htable dev" by (simp add: htable_def n fun_eq_iff)
qed

lemma htable_ran: "htable dev key hash es M \<Longrightarrow> a \<in> ran M \<Longrightarrow> \<exists>k. key (nu dev a) = Some k"
  by (auto simp: ran_def dest: htableD)

lemma key_disjoint:
  "key_dir u = Some k \<Longrightarrow> key_file u = None \<and> key_data u = None"
  "key_file u = Some k \<Longrightarrow> key_dir u = None \<and> key_data u = None"
  "key_data u = Some k' \<Longrightarrow> key_dir u = None \<and> key_file u = None"
  "node_obj u = None \<Longrightarrow> key_dir u = None \<and> key_file u = None \<and> key_data u = None"
  by (cases u; simp)+

lemma table_step:
  assumes t: "tree_maps dev M"
    and n: "\<And>y. n_u (N y) = nu dev y"
  shows "(\<And>y. key_dir (nu dev y) = None \<Longrightarrow> N y = tree_nodes dev y) \<Longrightarrow> length d = DIR_NODE_ENTRY_LEN \<Longrightarrow>
      htable (dev\<lparr>tree_nodes := N\<rparr>) key_dir GET_DIR_HASH d (\<lambda>s. M' (ODir s)) \<Longrightarrow>
      (\<And>k. (\<forall>s. k \<noteq> ODir s) \<Longrightarrow> M' k = M k) \<Longrightarrow>
      tree_maps (dev\<lparr>tree_nodes := N, tree := (tree dev)\<lparr>dir_entry := d\<rparr>\<rparr>) M' \<and>
      keeps dev (dev\<lparr>tree_nodes := N, tree := (tree dev)\<lparr>dir_entry := d\<rparr>\<rparr>)" (is "PROP ?d")
    and "(\<And>y. key_file (nu dev y) = None \<Longrightarrow> N y = tree_nodes dev y) \<Longrightarrow> length d = FILE_NODE_ENTRY_LEN \<Longrightarrow>
      htable (dev\<lparr>tree_nodes := N\<rparr>) key_file GET_FILE_HASH d (\<lambda>s. M' (OFile s)) \<Longrightarrow>
      (\<And>k. (\<forall>s. k \<noteq> OFile s) \<Longrightarrow> M' k = M k) \<Longrightarrow>
      tree_maps (dev\<lparr>tree_nodes := N, tree := (tree dev)\<lparr>file_entry := d\<rparr>\<rparr>) M' \<and>
      keeps dev (dev\<lparr>tree_nodes := N, tree := (tree dev)\<lparr>file_entry := d\<rparr>\<rparr>)" (is "PROP ?f")
    and "(\<And>y. key_data (nu dev y) = None \<Longrightarrow> N y = tree_nodes dev y) \<Longrightarrow> length d = DATA_NODE_ENTRY_LEN \<Longrightarrow>
      htable (dev\<lparr>tree_nodes := N\<rparr>) key_data data_hash d (\<lambda>(p, s). M' (OData p s)) \<Longrightarrow>
      (\<And>k. (\<forall>p s. k \<noteq> OData p s) \<Longrightarrow> M' k = M k) \<Longrightarrow>
      tree_maps (dev\<lparr>tree_nodes := N, tree := (tree dev)\<lparr>data_entry := d\<rparr>\<rparr>) M' \<and>
      keeps dev (dev\<lparr>tree_nodes := N, tree := (tree dev)\<lparr>data_entry := d\<rparr>\<rparr>)" (is "PROP ?a")
proof -
  note h = t[unfolded tree_maps_def]
  have td: "htable dev key_dir GET_DIR_HASH (dir_entry (tree dev)) (\<lambda>s. M (ODir s))" using h by blast
  have tf: "htable dev key_file GET_FILE_HASH (file_entry (tree dev)) (\<lambda>s. M (OFile s))" using h by blast
  have ta: "htable dev key_data data_hash (data_entry (tree dev)) (\<lambda>(p, s). M (OData p s))" using h by blast
  have hd: "htable (dev\<lparr>tree_nodes := N\<rparr>) key_dir GET_DIR_HASH (dir_entry (tree dev)) (\<lambda>s. M (ODir s))"
    if "\<And>y s. key_dir (nu dev y) = Some s \<Longrightarrow> N y = tree_nodes dev y"
  proof (rule htable_frame[OF td])
    fix y assume "y \<in> ran (\<lambda>s. M (ODir s))"
    from htable_ran[OF td this] that show "tree_nodes (dev\<lparr>tree_nodes := N\<rparr>) y = tree_nodes dev y" by auto
  qed simp
  have hf: "htable (dev\<lparr>tree_nodes := N\<rparr>) key_file GET_FILE_HASH (file_entry (tree dev)) (\<lambda>s. M (OFile s))"
    if "\<And>y s. key_file (nu dev y) = Some s \<Longrightarrow> N y = tree_nodes dev y"
  proof (rule htable_frame[OF tf])
    fix y assume "y \<in> ran (\<lambda>s. M (OFile s))"
    from htable_ran[OF tf this] that show "tree_nodes (dev\<lparr>tree_nodes := N\<rparr>) y = tree_nodes dev y" by auto
  qed simp
  have ha: "htable (dev\<lparr>tree_nodes := N\<rparr>) key_data data_hash (data_entry (tree dev)) (\<lambda>(p, s). M (OData p s))"
    if "\<And>y k. key_data (nu dev y) = Some k \<Longrightarrow> N y = tree_nodes dev y"
  proof (rule htable_frame[OF ta])
    fix y assume "y \<in> ran (\<lambda>(p, s). M (OData p s))"
    from htable_ran[OF ta this] that show "tree_nodes (dev\<lparr>tree_nodes := N\<rparr>) y = tree_nodes dev y" by auto
  qed simp
  have u: "nu (dev\<lparr>tree_nodes := N\<rparr>) y = nu dev y" for y by (simp add: nu_def n)
  show "PROP ?d"
  proof -
    assume a: "\<And>y. key_dir (nu dev y) = None \<Longrightarrow> N y = tree_nodes dev y" "length d = DIR_NODE_ENTRY_LEN"
      "htable (dev\<lparr>tree_nodes := N\<rparr>) key_dir GET_DIR_HASH d (\<lambda>s. M' (ODir s))" "\<And>k. (\<forall>s. k \<noteq> ODir s) \<Longrightarrow> M' k = M k"
    have "htable (dev\<lparr>tree_nodes := N\<rparr>) key_file GET_FILE_HASH (file_entry (tree dev)) (\<lambda>s. M (OFile s))"
      using key_disjoint by (intro hf a(1)) blast
    moreover have "htable (dev\<lparr>tree_nodes := N\<rparr>) key_data data_hash (data_entry (tree dev)) (\<lambda>(p, s). M (OData p s))"
      using key_disjoint by (intro ha a(1)) blast
    ultimately have "tree_maps (dev\<lparr>tree_nodes := N, tree := (tree dev)\<lparr>dir_entry := d\<rparr>\<rparr>) M'"
      using h a(2,3) by (simp add: tree_maps_def a(4))
    moreover have "keeps dev (dev\<lparr>tree_nodes := N, tree := (tree dev)\<lparr>dir_entry := d\<rparr>\<rparr>)"
      unfolding keeps_def using a(1) u key_disjoint(4)
      by (intro conjI exI[of _ N] exI[of _ d] exI[of _ "file_entry (tree dev)"] exI[of _ "data_entry (tree dev)"]) auto
    ultimately show "tree_maps (dev\<lparr>tree_nodes := N, tree := (tree dev)\<lparr>dir_entry := d\<rparr>\<rparr>) M' \<and>
      keeps dev (dev\<lparr>tree_nodes := N, tree := (tree dev)\<lparr>dir_entry := d\<rparr>\<rparr>)" ..
  qed
  show "PROP ?f"
  proof -
    assume a: "\<And>y. key_file (nu dev y) = None \<Longrightarrow> N y = tree_nodes dev y" "length d = FILE_NODE_ENTRY_LEN"
      "htable (dev\<lparr>tree_nodes := N\<rparr>) key_file GET_FILE_HASH d (\<lambda>s. M' (OFile s))" "\<And>k. (\<forall>s. k \<noteq> OFile s) \<Longrightarrow> M' k = M k"
    have "htable (dev\<lparr>tree_nodes := N\<rparr>) key_dir GET_DIR_HASH (dir_entry (tree dev)) (\<lambda>s. M (ODir s))"
      using key_disjoint by (intro hd a(1)) blast
    moreover have "htable (dev\<lparr>tree_nodes := N\<rparr>) key_data data_hash (data_entry (tree dev)) (\<lambda>(p, s). M (OData p s))"
      using key_disjoint by (intro ha a(1)) blast
    ultimately have "tree_maps (dev\<lparr>tree_nodes := N, tree := (tree dev)\<lparr>file_entry := d\<rparr>\<rparr>) M'"
      using h a(2,3) by (simp add: tree_maps_def a(4))
    moreover have "keeps dev (dev\<lparr>tree_nodes := N, tree := (tree dev)\<lparr>file_entry := d\<rparr>\<rparr>)"
      unfolding keeps_def using a(1) u key_disjoint(4)
      by (intro conjI exI[of _ N] exI[of _ d] exI[of _ "dir_entry (tree dev)"] exI[of _ "data_entry (tree dev)"]) auto
    ultimately show "tree_maps (dev\<lparr>tree_nodes := N, tree := (tree dev)\<lparr>file_entry := d\<rparr>\<rparr>) M' \<and>
      keeps dev (dev\<lparr>tree_nodes := N, tree := (tree dev)\<lparr>file_entry := d\<rparr>\<rparr>)" ..
  qed
  show "PROP ?a"
  proof -
    assume a: "\<And>y. key_data (nu dev y) = None \<Longrightarrow> N y = tree_nodes dev y" "length d = DATA_NODE_ENTRY_LEN"
      "htable (dev\<lparr>tree_nodes := N\<rparr>) key_data data_hash d (\<lambda>(p, s). M' (OData p s))" "\<And>k. (\<forall>p s. k \<noteq> OData p s) \<Longrightarrow> M' k = M k"
    have "htable (dev\<lparr>tree_nodes := N\<rparr>) key_dir GET_DIR_HASH (dir_entry (tree dev)) (\<lambda>s. M (ODir s))"
      using key_disjoint by (intro hd a(1)) blast
    moreover have "htable (dev\<lparr>tree_nodes := N\<rparr>) key_file GET_FILE_HASH (file_entry (tree dev)) (\<lambda>s. M (OFile s))"
      using key_disjoint by (intro hf a(1)) blast
    ultimately have "tree_maps (dev\<lparr>tree_nodes := N, tree := (tree dev)\<lparr>data_entry := d\<rparr>\<rparr>) M'"
      using h a(2,3) by (simp add: tree_maps_def a(4))
    moreover have "keeps dev (dev\<lparr>tree_nodes := N, tree := (tree dev)\<lparr>data_entry := d\<rparr>\<rparr>)"
      unfolding keeps_def using a(1) u key_disjoint(4)
      by (intro conjI exI[of _ N] exI[of _ d] exI[of _ "dir_entry (tree dev)"] exI[of _ "file_entry (tree dev)"]) auto
    ultimately show "tree_maps (dev\<lparr>tree_nodes := N, tree := (tree dev)\<lparr>data_entry := d\<rparr>\<rparr>) M' \<and>
      keeps dev (dev\<lparr>tree_nodes := N, tree := (tree dev)\<lparr>data_entry := d\<rparr>\<rparr>)" ..
  qed
qed

lemma InsertNodeToTree_ok:
  assumes t: "tree_maps dev M" and k: "node_obj (nu dev a) = Some k" and a: "M k = None" "a \<in> slots dev"
  shows "\<exists>dev'. uffs_InsertNodeToTree (obj_ty k) a dev = Some dev' \<and> tree_maps dev' (M(k \<mapsto> a)) \<and> keeps dev dev'"
proof (cases k)
  case (ODir s)
  have sn: "key_dir (nu dev a) = Some s" "d_serial (nu dev a) = s" using k ODir by (auto simp: key_simps node_obj_iff)
  obtain x N where N: "InsertToEntry (dir_entry (tree dev) ! GET_DIR_HASH s) a dev = Some (x, dev\<lparr>tree_nodes := N\<rparr>)"
    "htable (dev\<lparr>tree_nodes := N\<rparr>) key_dir GET_DIR_HASH ((dir_entry (tree dev))[GET_DIR_HASH s := x]) ((\<lambda>s. M (ODir s))(s \<mapsto> a))"
    "\<forall>y. n_u (N y) = nu dev y" "\<forall>y. key_dir (nu dev y) = None \<longrightarrow> N y = tree_nodes dev y"
    using dirs.insert[of dev "dir_entry (tree dev)" "\<lambda>s. M (ODir s)" a s] t sn a ODir unfolding tree_maps_def by auto
  have e: "(\<lambda>s. M (ODir s))(s \<mapsto> a) = (\<lambda>z. (M(k \<mapsto> a)) (ODir z))" using ODir by auto
  have l: "length ((dir_entry (tree dev))[GET_DIR_HASH s := x]) = DIR_NODE_ENTRY_LEN" using t by (simp add: tree_maps_def)
  show ?thesis
    using table_step(1)[OF t, of N "(dir_entry (tree dev))[GET_DIR_HASH s := x]" "M(k \<mapsto> a)"] N l ODir unfolding e
    by (simp add: uffs_InsertNodeToTree_def uffs_InsertToDirEntry_def sn Let_def upd_tree_def)
next
  case (OFile s)
  have sn: "key_file (nu dev a) = Some s" "f_serial (nu dev a) = s" using k OFile by (auto simp: key_simps node_obj_iff)
  obtain x N where N: "InsertToEntry (file_entry (tree dev) ! GET_FILE_HASH s) a dev = Some (x, dev\<lparr>tree_nodes := N\<rparr>)"
    "htable (dev\<lparr>tree_nodes := N\<rparr>) key_file GET_FILE_HASH ((file_entry (tree dev))[GET_FILE_HASH s := x]) ((\<lambda>s. M (OFile s))(s \<mapsto> a))"
    "\<forall>y. n_u (N y) = nu dev y" "\<forall>y. key_file (nu dev y) = None \<longrightarrow> N y = tree_nodes dev y"
    using files.insert[of dev "file_entry (tree dev)" "\<lambda>s. M (OFile s)" a s] t sn a OFile unfolding tree_maps_def by auto
  have e: "(\<lambda>s. M (OFile s))(s \<mapsto> a) = (\<lambda>z. (M(k \<mapsto> a)) (OFile z))" using OFile by auto
  have l: "length ((file_entry (tree dev))[GET_FILE_HASH s := x]) = FILE_NODE_ENTRY_LEN" using t by (simp add: tree_maps_def)
  show ?thesis
    using table_step(2)[OF t, of N "(file_entry (tree dev))[GET_FILE_HASH s := x]" "M(k \<mapsto> a)"] N l OFile unfolding e
    by (simp add: uffs_InsertNodeToTree_def uffs_InsertToFileEntry_def sn Let_def upd_tree_def ty_simps)
next
  case (OData p s)
  have sn: "key_data (nu dev a) = Some (p, s)" "da_parent (nu dev a) = p" "da_serial (nu dev a) = s"
    using k OData by (auto simp: key_simps node_obj_iff)
  obtain x N where N: "InsertToEntry (data_entry (tree dev) ! data_hash (p, s)) a dev = Some (x, dev\<lparr>tree_nodes := N\<rparr>)"
    "htable (dev\<lparr>tree_nodes := N\<rparr>) key_data data_hash ((data_entry (tree dev))[data_hash (p, s) := x]) ((\<lambda>(p, s). M (OData p s))((p, s) \<mapsto> a))"
    "\<forall>y. n_u (N y) = nu dev y" "\<forall>y. key_data (nu dev y) = None \<longrightarrow> N y = tree_nodes dev y"
    using datas.insert[of dev "data_entry (tree dev)" "\<lambda>(p, s). M (OData p s)" a "(p, s)"] t sn a OData unfolding tree_maps_def by auto
  have e: "(\<lambda>(p, s). M (OData p s))((p, s) \<mapsto> a) = (\<lambda>(p, z). (M(k \<mapsto> a)) (OData p z))" using OData by auto
  have l: "length ((data_entry (tree dev))[data_hash (p, s) := x]) = DATA_NODE_ENTRY_LEN" using t by (simp add: tree_maps_def)
  show ?thesis
    using table_step(3)[OF t, of N "(data_entry (tree dev))[data_hash (p, s) := x]" "M(k \<mapsto> a)"] N l OData unfolding e
    by (simp add: uffs_InsertNodeToTree_def uffs_InsertToDataEntry_def sn Let_def upd_tree_def data_hash_def ty_simps)
qed

lemma BreakFromEntry_ok:
  assumes t: "tree_maps dev M" and m: "M k = Some a"
  shows "\<exists>dev'. uffs_BreakFromEntry (obj_ty k) a dev = Some dev' \<and> tree_maps dev' (M(k := None)) \<and> keeps dev dev'"
proof (cases k)
  case (ODir s)
  have sn: "d_serial (nu dev a) = s" using tree_mapsD(1)[OF t m] ODir by (auto simp: node_obj_iff)
  obtain x N where N: "break_entry (dir_entry (tree dev) ! GET_DIR_HASH s) a dev = Some (x, dev\<lparr>tree_nodes := N\<rparr>)"
    "htable (dev\<lparr>tree_nodes := N\<rparr>) key_dir GET_DIR_HASH ((dir_entry (tree dev))[GET_DIR_HASH s := x]) ((\<lambda>s. M (ODir s))(s := None))"
    "\<forall>y. n_u (N y) = nu dev y" "\<forall>y. key_dir (nu dev y) = None \<longrightarrow> N y = tree_nodes dev y"
    using dirs.delete[of dev "dir_entry (tree dev)" "\<lambda>s. M (ODir s)" s a] t m ODir unfolding tree_maps_def by auto
  have e: "(\<lambda>s. M (ODir s))(s := None) = (\<lambda>z. (M(k := None)) (ODir z))" using ODir by auto
  have l: "length ((dir_entry (tree dev))[GET_DIR_HASH s := x]) = DIR_NODE_ENTRY_LEN" using t by (simp add: tree_maps_def)
  show ?thesis
    using table_step(1)[OF t, of N "(dir_entry (tree dev))[GET_DIR_HASH s := x]" "M(k := None)"] N l ODir unfolding e
    by (simp add: uffs_BreakFromEntry_def sn Let_def upd_tree_def)
next
  case (OFile s)
  have sn: "f_serial (nu dev a) = s" using tree_mapsD(1)[OF t m] OFile by (auto simp: node_obj_iff)
  obtain x N where N: "break_entry (file_entry (tree dev) ! GET_FILE_HASH s) a dev = Some (x, dev\<lparr>tree_nodes := N\<rparr>)"
    "htable (dev\<lparr>tree_nodes := N\<rparr>) key_file GET_FILE_HASH ((file_entry (tree dev))[GET_FILE_HASH s := x]) ((\<lambda>s. M (OFile s))(s := None))"
    "\<forall>y. n_u (N y) = nu dev y" "\<forall>y. key_file (nu dev y) = None \<longrightarrow> N y = tree_nodes dev y"
    using files.delete[of dev "file_entry (tree dev)" "\<lambda>s. M (OFile s)" s a] t m OFile unfolding tree_maps_def by auto
  have e: "(\<lambda>s. M (OFile s))(s := None) = (\<lambda>z. (M(k := None)) (OFile z))" using OFile by auto
  have l: "length ((file_entry (tree dev))[GET_FILE_HASH s := x]) = FILE_NODE_ENTRY_LEN" using t by (simp add: tree_maps_def)
  show ?thesis
    using table_step(2)[OF t, of N "(file_entry (tree dev))[GET_FILE_HASH s := x]" "M(k := None)"] N l OFile unfolding e
    by (simp add: uffs_BreakFromEntry_def sn Let_def upd_tree_def ty_simps)
next
  case (OData p s)
  have sn: "da_parent (nu dev a) = p" "da_serial (nu dev a) = s" using tree_mapsD(1)[OF t m] OData by (auto simp: node_obj_iff)
  obtain x N where N: "break_entry (data_entry (tree dev) ! data_hash (p, s)) a dev = Some (x, dev\<lparr>tree_nodes := N\<rparr>)"
    "htable (dev\<lparr>tree_nodes := N\<rparr>) key_data data_hash ((data_entry (tree dev))[data_hash (p, s) := x]) ((\<lambda>(p, s). M (OData p s))((p, s) := None))"
    "\<forall>y. n_u (N y) = nu dev y" "\<forall>y. key_data (nu dev y) = None \<longrightarrow> N y = tree_nodes dev y"
    using datas.delete[of dev "data_entry (tree dev)" "\<lambda>(p, s). M (OData p s)" "(p, s)" a] t m OData unfolding tree_maps_def by auto
  have e: "(\<lambda>(p, s). M (OData p s))((p, s) := None) = (\<lambda>(p, z). (M(k := None)) (OData p z))" using OData by auto
  have l: "length ((data_entry (tree dev))[data_hash (p, s) := x]) = DATA_NODE_ENTRY_LEN" using t by (simp add: tree_maps_def)
  show ?thesis
    using table_step(3)[OF t, of N "(data_entry (tree dev))[data_hash (p, s) := x]" "M(k := None)"] N l OData unfolding e
    by (simp add: uffs_BreakFromEntry_def sn Let_def upd_tree_def data_hash_def ty_simps)
qed

lemma FindFromTree_eq:
  "tree_maps dev M \<Longrightarrow> uffs_FindFromTree (obj_ty k) (obj_parent k) (obj_serial k) dev = Some (M k)"
  by (cases k) (simp_all add: uffs_FindFromTree_def tree_find ty_simps)

subsection \<open>Searching all tables\<close>

lemma table_find_spec:
  assumes ok: "nodes_ok dev" and b: "\<And>i. i < length es \<Longrightarrow> bucket dev (es ! i) (B i)"
  shows "\<exists>r. table_find dev P es = Some r \<and>
    (case r of None \<Rightarrow> \<forall>i < length es. \<forall>a \<in> set (B i). \<not> P (nu dev a)
     | Some a \<Rightarrow> \<exists>i < length es. a \<in> set (B i) \<and> P (nu dev a))"
  using b
proof (induction es arbitrary: B)
  case (Cons e es)
  have f: "hash_find dev P e = Some (List.find (\<lambda>a. P (nu dev a)) (B 0))" using Cons.prems[of 0] bucket_find[OF ok] by simp
  show ?case
  proof (cases "List.find (\<lambda>a. P (nu dev a)) (B 0)")
    case (Some a)
    then show ?thesis using f find_Some_in[OF Some] by (auto intro!: exI[of _ 0])
  next
    case None
    obtain r where r: "table_find dev P es = Some r"
      "case r of None \<Rightarrow> \<forall>i < length es. \<forall>a \<in> set (B (Suc i)). \<not> P (nu dev a)
       | Some a \<Rightarrow> \<exists>i < length es. a \<in> set (B (Suc i)) \<and> P (nu dev a)"
      using Cons.IH[of "\<lambda>i. B (Suc i)"] Cons.prems by fastforce
    have "\<forall>a \<in> set (B 0). \<not> P (nu dev a)" using None by (simp add: find_None_iff_set)
    with r None f show ?thesis by (cases r) (auto simp: less_Suc_eq_0_disj)
  qed
qed simp

lemma htable_find:
  assumes ok: "nodes_ok dev" and t: "htable dev key hash es M"
  obtains r where "table_find dev P es = Some r" "r = None \<Longrightarrow> \<forall>a \<in> ran M. \<not> P (nu dev a)"
    "\<And>a. r = Some a \<Longrightarrow> a \<in> ran M \<and> P (nu dev a)"
proof -
  obtain B where B: "\<And>h. h < length es \<Longrightarrow> bucket dev (es ! h) (B h)"
    "\<And>h a. h < length es \<Longrightarrow> a \<in> set (B h) \<Longrightarrow> \<exists>k. key (nu dev a) = Some k \<and> hash k = h \<and> M k = Some a"
    "\<And>k a. M k = Some a \<Longrightarrow> hash k < length es \<and> a \<in> set (B (hash k)) \<and> key (nu dev a) = Some k"
    using t unfolding htable_def by blast
  obtain r where r: "table_find dev P es = Some r"
    "case r of None \<Rightarrow> \<forall>i < length es. \<forall>a \<in> set (B i). \<not> P (nu dev a)
     | Some a \<Rightarrow> \<exists>i < length es. a \<in> set (B i) \<and> P (nu dev a)"
    using table_find_spec[OF ok B(1)] by blast
  show thesis
  proof (rule that[OF r(1)])
    assume "r = None"
    then show "\<forall>a \<in> ran M. \<not> P (nu dev a)" using r(2) B(3) by (fastforce simp: ran_def)
  next
    fix a assume "r = Some a"
    then show "a \<in> ran M \<and> P (nu dev a)" using r(2) B(2) by (fastforce simp: ran_def)
  qed
qed

section \<open>The lists of the tree\<close>

definition ln :: "'f device \<Rightarrow> nat \<Rightarrow> nat option" where
  "ln dev a = l_next (nu dev a)"

fun is_list :: "NodeU \<Rightarrow> bool" where
  "is_list (UList n p b u) = True"
| "is_list _ = False"

text \<open>The erased nodes \<open>xs\<close>, from the head to the tail.\<close>

definition erased_list :: "'f device \<Rightarrow> nat list \<Rightarrow> bool" where
  "erased_list dev xs \<longleftrightarrow> chain (ln dev) (erased (tree dev)) xs \<and>
     erased_tail (tree dev) = (if xs = [] then None else Some (last xs)) \<and>
     erased_count (tree dev) = int (length xs) \<and> (\<forall>a \<in> set xs. is_list (nu dev a))"

lemma list_node_obj: "is_list u \<Longrightarrow> node_obj u = None"
  by (cases u) auto

lemma not_in_map: "tree_maps dev M \<Longrightarrow> is_list (nu dev a) \<Longrightarrow> a \<notin> ran M"
  using tree_mapsD(1) list_node_obj by (fastforce simp: ran_def)

lemma set_l_simps [simp]:
  "l_next (set_l_next x u) = x" "l_next (set_l_prev x u) = l_next (as_list u)" "l_next (set_l_need_check c u) = l_next (as_list u)"
  "l_block (set_l_next x u) = l_block (as_list u)" "l_block (set_l_prev x u) = l_block (as_list u)"
  "l_block (set_l_need_check c u) = l_block (as_list u)"
  "is_list (set_l_next x u)" "is_list (set_l_prev x u)" "is_list (set_l_need_check c u)"
  "l_u (set_l_next x u) = l_u (as_list u)" "l_u (set_l_prev x u) = l_u (as_list u)" "l_prev (set_l_prev x u) = x"
  "l_prev (set_l_next x u) = l_prev (as_list u)"
  by (simp_all add: set_l_next_def set_l_prev_def set_l_need_check_def Let_def)

lemma as_list_id [simp]: "is_list u \<Longrightarrow> as_list u = u" "is_list (as_list u)"
  by (cases u; simp add: as_list_def)+

lemma upd_simps [simp]:
  "nu (upd_u a f dev) b = (if b = a then f (nu dev b) else nu dev b)" "tree (upd_u a f dev) = tree dev"
  "tree_pool (upd_u a f dev) = tree_pool dev" "nu (upd_tree g dev) = nu dev" "tree (upd_tree g dev) = g (tree dev)"
  "tree_pool (upd_tree g dev) = tree_pool dev" "tree_nodes (upd_tree g dev) = tree_nodes dev"
  "tree_nodes (upd_u a f dev) b = (if b = a then (tree_nodes dev b)\<lparr>n_u := f (nu dev b)\<rparr> else tree_nodes dev b)"
  by (simp_all add: upd_u_def upd_node_def upd_tree_def nu_def fun_eq_iff)

lemma seg_cong: "(\<And>x. x \<in> set xs \<Longrightarrow> m x = n x) \<Longrightarrow> seg m p xs q = seg n p xs q"
  by (induction xs arbitrary: p) auto

text \<open>What the list operations on nodes \<open>A\<close> leave alone.\<close>

definition list_frame :: "nat set \<Rightarrow> 'f device \<Rightarrow> 'f device \<Rightarrow> bool" where
  "list_frame A dev dev' \<longleftrightarrow>
     (\<exists>N e t c. dev' = dev\<lparr>tree_nodes := N, tree := (tree dev)\<lparr>erased := e, erased_tail := t, erased_count := c\<rparr>\<rparr>) \<and>
     (\<forall>y. y \<notin> A \<longrightarrow> tree_nodes dev' y = tree_nodes dev y) \<and>
     (\<forall>y. is_list (nu dev y) \<longrightarrow> is_list (nu dev' y) \<and> l_block (nu dev' y) = l_block (nu dev y))"

lemma list_frame_maps:
  assumes "tree_maps dev M" "list_frame A dev dev'" "A \<inter> ran M = {}"
  shows "tree_maps dev' M"
proof (rule tree_maps_frame[OF assms(1)])
  fix a assume "a \<in> ran M"
  then show "tree_nodes dev' a = tree_nodes dev a" using assms(2,3) by (auto simp: list_frame_def)
qed (use assms(2) in \<open>auto simp: list_frame_def\<close>)

lemma upd_u_twice: "upd_u a f (upd_u a g dev) = upd_u a (\<lambda>u. f (g u)) dev"
  by (simp add: upd_u_def upd_node_def)

lemma upd_tree_twice: "upd_tree f (upd_tree g dev) = upd_tree (\<lambda>t. f (g t)) dev"
  by (simp add: upd_tree_def)

lemma ErasedTailEx_eq:
  defines "put \<equiv> \<lambda>c t u. set_l_prev t (set_l_next None (if c \<ge> 0 then set_l_need_check (word_of_int c) u else u))"
  shows "erased_tail (tree dev) = None \<Longrightarrow> erased (tree dev) = None \<Longrightarrow> uffs_TreeInsertToErasedListTailEx a c dev =
      upd_tree (\<lambda>t. t\<lparr>erased_tail := Some a, erased := Some a, erased_count := erased_count t + 1\<rparr>) (upd_u a (put c None) dev)"
    and "erased_tail (tree dev) = Some z \<Longrightarrow> erased (tree dev) = Some h \<Longrightarrow> uffs_TreeInsertToErasedListTailEx a c dev =
      upd_tree (\<lambda>t. t\<lparr>erased_tail := Some a, erased_count := erased_count t + 1\<rparr>)
        (upd_u z (set_l_next (Some a)) (upd_u a (put c (Some z)) dev))"
  by (cases "c \<ge> 0"; simp add: uffs_TreeInsertToErasedListTailEx_def Let_def upd_u_twice; simp add: upd_tree_twice put_def)+

lemma ErasedTailEx_ok:
  assumes e: "erased_list dev xs" and a: "a \<notin> set xs"
  shows "erased_list (uffs_TreeInsertToErasedListTailEx a c dev) (xs @ [a])"
    and "list_frame (insert a (set xs)) dev (uffs_TreeInsertToErasedListTailEx a c dev)"
proof -
  let ?d = "uffs_TreeInsertToErasedListTailEx a c dev"
  have cs: "xs = [] \<and> erased (tree dev) = None \<and> erased_tail (tree dev) = None \<or>
      (\<exists>h. xs \<noteq> [] \<and> erased (tree dev) = Some h \<and> erased_tail (tree dev) = Some (last xs) \<and> last xs \<noteq> a)"
    using e a chain_hd[of "ln dev" "erased (tree dev)" xs] last_in_set[of xs] by (cases "xs = []") (auto simp: erased_list_def)
  have "(\<forall>y. ln ?d y = (if y = a then None else if xs \<noteq> [] \<and> y = last xs then Some a else ln dev y)) \<and>
      tree ?d = (tree dev)\<lparr>erased := (if xs = [] then Some a else erased (tree dev)), erased_tail := Some a, erased_count := erased_count (tree dev) + 1\<rparr> \<and>
      is_list (nu ?d a) \<and> (\<forall>y. is_list (nu dev y) \<longrightarrow> is_list (nu ?d y) \<and> l_block (nu ?d y) = l_block (nu dev y)) \<and>
      (\<forall>y. y \<noteq> a \<and> (xs \<noteq> [] \<longrightarrow> y \<noteq> last xs) \<longrightarrow> tree_nodes ?d y = tree_nodes dev y) \<and>
      ?d = dev\<lparr>tree_nodes := tree_nodes ?d, tree := tree ?d\<rparr>"
    using cs
  proof (elim disjE exE conjE)
    assume xs: "xs = []" and n: "erased (tree dev) = None" "erased_tail (tree dev) = None"
    show ?thesis unfolding ErasedTailEx_eq(1)[OF n(2,1)] by (simp add: xs ln_def) (simp add: upd_tree_def upd_u_def upd_node_def)
  next
    fix h assume xs: "xs \<noteq> []" "last xs \<noteq> a" and n: "erased (tree dev) = Some h" "erased_tail (tree dev) = Some (last xs)"
    show ?thesis unfolding ErasedTailEx_eq(2)[OF n(2,1)] using xs by (simp add: ln_def) (simp add: upd_tree_def upd_u_def upd_node_def)
  qed
  note all = this
  from all have nu: "ln ?d y = (if y = a then None else if xs \<noteq> [] \<and> y = last xs then Some a else ln dev y)"
    and t: "tree ?d = (tree dev)\<lparr>erased := (if xs = [] then Some a else erased (tree dev)), erased_tail := Some a, erased_count := erased_count (tree dev) + 1\<rparr>"
    and li: "is_list (nu ?d a)" "is_list (nu dev y) \<Longrightarrow> is_list (nu ?d y) \<and> l_block (nu ?d y) = l_block (nu dev y)"
    and split: "?d = dev\<lparr>tree_nodes := tree_nodes ?d, tree := tree ?d\<rparr>" for y
    by blast+
  have fr: "tree_nodes ?d y = tree_nodes dev y" if "y \<notin> insert a (set xs)" for y
  proof -
    have "y \<noteq> a \<and> (xs \<noteq> [] \<longrightarrow> y \<noteq> last xs)" using that by auto
    with all show ?thesis by blast
  qed
  have "chain (ln ?d) (erased (tree ?d)) (xs @ [a])"
  proof (cases xs rule: rev_cases)
    case Nil
    then show ?thesis by (simp add: t nu)
  next
    case (snoc ys y)
    have c: "chain (ln dev) (erased (tree dev)) (ys @ [y])" using e snoc by (simp add: erased_list_def)
    then have s: "seg (ln dev) (erased (tree dev)) ys (Some y)" by (simp add: chain_append)
    have d: "distinct (ys @ [y])" by (rule chain_distinct[OF c])
    have "seg (ln ?d) (erased (tree dev)) ys (Some y) = seg (ln dev) (erased (tree dev)) ys (Some y)"
    proof (rule seg_cong)
      fix z assume "z \<in> set ys"
      then have "z \<noteq> a" "z \<noteq> last xs" using d a snoc by auto
      then show "ln ?d z = ln dev z" by (simp add: nu)
    qed
    then show ?thesis using s snoc a by (simp add: t nu chain_append seg_append)
  qed
  then show "erased_list ?d (xs @ [a])" using e li by (simp add: erased_list_def t)
  have "\<exists>N e t c. ?d = dev\<lparr>tree_nodes := N, tree := (tree dev)\<lparr>erased := e, erased_tail := t, erased_count := c\<rparr>\<rparr>"
    by (subst split, subst t) blast
  then show "list_frame (insert a (set xs)) dev ?d"
    unfolding list_frame_def using fr li by blast
qed

lemma GetErasedNodeNoCheck_ok:
  assumes e: "erased_list dev xs"
  shows "xs = [] \<Longrightarrow> uffs_TreeGetErasedNodeNoCheck dev = (None, dev)"
    and "xs = a # ys \<Longrightarrow> \<exists>dev'. uffs_TreeGetErasedNodeNoCheck dev = (Some a, dev') \<and> erased_list dev' ys \<and>
      list_frame {a} dev dev' \<and> is_list (nu dev' a)"
proof -
  show "xs = [] \<Longrightarrow> uffs_TreeGetErasedNodeNoCheck dev = (None, dev)"
    using e by (simp add: erased_list_def uffs_TreeGetErasedNodeNoCheck_def)
  assume xs: "xs = a # ys"
  have c: "erased (tree dev) = Some a" "chain (ln dev) (ln dev a) ys" "is_list (nu dev a)" using e xs by (simp_all add: erased_list_def)
  have d: "a \<notin> set ys" using chain_distinct[of "ln dev" "erased (tree dev)" xs] e xs by (simp add: erased_list_def)
  define dev' where "dev' = snd (uffs_TreeGetErasedNodeNoCheck dev)"
  have g: "uffs_TreeGetErasedNodeNoCheck dev = (Some a, dev')" using c by (simp add: dev'_def uffs_TreeGetErasedNodeNoCheck_def Let_def)
  have n: "ln dev' y = ln dev y" for y
    using c by (simp add: dev'_def uffs_TreeGetErasedNodeNoCheck_def ln_def Let_def)
  have t: "tree dev' = (tree dev)\<lparr>erased := ln dev a, erased_tail := (if ln dev a = None then None else erased_tail (tree dev)), erased_count := erased_count (tree dev) - 1\<rparr>"
    using c by (simp add: dev'_def uffs_TreeGetErasedNodeNoCheck_def ln_def Let_def)
  have li: "is_list (nu dev' y) \<and> l_block (nu dev' y) = l_block (nu dev y)" if "is_list (nu dev y)" for y
    using c that by (simp add: dev'_def uffs_TreeGetErasedNodeNoCheck_def Let_def)
  have "chain (ln dev') (ln dev a) ys" using c(2) n chain_cong[of ys "ln dev'" "ln dev"] by simp
  then have "erased_list dev' ys" using e xs li chain_Nil_iff[OF c(2)] by (auto simp: erased_list_def t)
  moreover have "list_frame {a} dev dev'"
    unfolding list_frame_def
  proof (intro conjI allI impI)
    have "dev' = dev\<lparr>tree_nodes := tree_nodes dev', tree := tree dev'\<rparr>"
      using c by (simp add: dev'_def uffs_TreeGetErasedNodeNoCheck_def Let_def upd_u_def upd_node_def upd_tree_def)
    then show "\<exists>N e t c. dev' = dev\<lparr>tree_nodes := N, tree := (tree dev)\<lparr>erased := e, erased_tail := t, erased_count := c\<rparr>\<rparr>"
      unfolding t by blast
    show "tree_nodes dev' y = tree_nodes dev y" if "y \<notin> {a}" for y
      using that c by (simp add: dev'_def uffs_TreeGetErasedNodeNoCheck_def Let_def)
  qed (use li in auto)
  ultimately show "\<exists>dev'. uffs_TreeGetErasedNodeNoCheck dev = (Some a, dev') \<and> erased_list dev' ys \<and>
      list_frame {a} dev dev' \<and> is_list (nu dev' a)" using g li c(3) by blast
qed

lemma InsertHead_eq:
  assumes e: "erased_list dev xs" and a: "a \<notin> set xs"
  defines "dev' \<equiv> uffs_InsertToErasedListHead a dev"
  shows "erased (tree dev') = Some a" "erased_count (tree dev') = int (length xs) + 1"
    "erased_tail (tree dev') = (if length xs \<le> 1 then Some a else Some (last xs))"
    "ln dev' y = (if y = a then erased (tree dev) else ln dev y)" "is_list (nu dev' a)"
    "is_list (nu dev y) \<Longrightarrow> is_list (nu dev' y) \<and> l_block (nu dev' y) = l_block (nu dev y)"
    "y \<notin> insert a (set xs) \<Longrightarrow> tree_nodes dev' y = tree_nodes dev y"
    "dev' = dev\<lparr>tree_nodes := tree_nodes dev', tree := (tree dev)\<lparr>erased := Some a, erased_tail := erased_tail (tree dev'), erased_count := erased_count (tree dev')\<rparr>\<rparr>"
proof -
  have c: "chain (ln dev) (erased (tree dev)) xs" "erased_count (tree dev) = int (length xs)"
    "\<And>y. y \<in> set xs \<Longrightarrow> is_list (nu dev y)" "erased_tail (tree dev) = (if xs = [] then None else Some (last xs))"
    using e by (auto simp: erased_list_def)
  have t: "(erased (tree dev) = erased_tail (tree dev)) = (length xs \<le> 1)"
  proof (cases xs rule: rev_cases)
    case (snoc ys y)
    then show ?thesis using c chain_distinct[OF c(1)] by (cases ys) auto
  qed (use c in simp)
  have all: "erased (tree dev') = Some a \<and> erased_count (tree dev') = int (length xs) + 1 \<and>
    erased_tail (tree dev') = (if length xs \<le> 1 then Some a else Some (last xs)) \<and>
    (\<forall>y. ln dev' y = (if y = a then erased (tree dev) else ln dev y)) \<and> is_list (nu dev' a) \<and>
    (\<forall>y. is_list (nu dev y) \<longrightarrow> is_list (nu dev' y) \<and> l_block (nu dev' y) = l_block (nu dev y)) \<and>
    (\<forall>y. y \<notin> insert a (set xs) \<longrightarrow> tree_nodes dev' y = tree_nodes dev y) \<and>
    dev' = dev\<lparr>tree_nodes := tree_nodes dev', tree := (tree dev)\<lparr>erased := Some a, erased_tail := erased_tail (tree dev'), erased_count := erased_count (tree dev')\<rparr>\<rparr>"
  proof (cases xs)
    case Nil
    have n: "erased (tree dev) = None" "erased_tail (tree dev) = None" using c Nil by simp_all
    have "dev' = upd_tree (\<lambda>t. t\<lparr>erased := Some a, erased_tail := Some a, erased_count := erased_count t + 1\<rparr>)
        (upd_u a (\<lambda>u. set_l_prev None (set_l_next None u)) dev)"
      by (simp add: dev'_def uffs_InsertToErasedListHead_def Let_def n upd_u_twice upd_tree_twice)
    then show ?thesis using Nil n c(2) by (simp add: ln_def) (simp add: upd_tree_def upd_u_def upd_node_def)
  next
    case (Cons h ys)
    have n: "erased (tree dev) = Some h" "is_list (nu dev h)" "h \<noteq> a" using c Cons a by auto
    have tt: "(h = last xs) = (length xs \<le> 1)" using t n c(4) Cons by simp
    let ?n = "upd_u h (set_l_prev (Some a)) (upd_u a (\<lambda>u. set_l_prev None (set_l_next (Some h) u)) dev)"
    define T where "T = (if length xs \<le> 1 then Some a else erased_tail (tree dev))"
    have D: "dev' = upd_tree (\<lambda>t. t\<lparr>erased := Some a, erased_tail := T, erased_count := erased_count t + 1\<rparr>) ?n"
    proof (cases "length xs \<le> 1")
      case True
      then show ?thesis using tt n(1,3) c(4) Cons
        by (simp add: dev'_def uffs_InsertToErasedListHead_def Let_def upd_u_twice upd_tree_twice T_def)
    next
      case False
      then have "h \<noteq> last xs" "erased_tail (tree dev) = Some (last xs)" using tt c(4) Cons by simp_all
      then show ?thesis using False n(1,3)
        by (simp add: dev'_def uffs_InsertToErasedListHead_def Let_def upd_u_twice upd_tree_twice T_def)
          (simp add: upd_tree_def upd_u_def upd_node_def)
    qed
    have T: "T = (if length xs \<le> 1 then Some a else Some (last xs))" using c(4) Cons by (simp add: T_def)
    have hx: "h \<in> set xs" using Cons by simp
    show ?thesis unfolding D using n c(2) T hx
      by (simp add: ln_def) (auto simp: upd_tree_def upd_u_def upd_node_def)
  qed
  from all show "erased (tree dev') = Some a" "erased_count (tree dev') = int (length xs) + 1"
    "erased_tail (tree dev') = (if length xs \<le> 1 then Some a else Some (last xs))"
    "ln dev' y = (if y = a then erased (tree dev) else ln dev y)" "is_list (nu dev' a)"
    "is_list (nu dev y) \<Longrightarrow> is_list (nu dev' y) \<and> l_block (nu dev' y) = l_block (nu dev y)"
    "y \<notin> insert a (set xs) \<Longrightarrow> tree_nodes dev' y = tree_nodes dev y"
    "dev' = dev\<lparr>tree_nodes := tree_nodes dev', tree := (tree dev)\<lparr>erased := Some a, erased_tail := erased_tail (tree dev'), erased_count := erased_count (tree dev')\<rparr>\<rparr>"
    by blast+
qed

lemma InsertHead_chain:
  assumes e: "erased_list dev xs" and a: "a \<notin> set xs"
  defines "dev' \<equiv> uffs_InsertToErasedListHead a dev"
  shows "chain (ln dev') (erased (tree dev')) (a # xs)" "\<forall>y \<in> set (a # xs). is_list (nu dev' y)"
    "list_frame (insert a (set xs)) dev dev'" "length xs \<noteq> 1 \<Longrightarrow> erased_list dev' (a # xs)"
proof -
  note h = InsertHead_eq[OF e a, folded dev'_def]
  have "chain (ln dev') (erased (tree dev)) xs = chain (ln dev) (erased (tree dev)) xs"
    by (rule chain_cong) (use a h(4) in auto)
  then show c: "chain (ln dev') (erased (tree dev')) (a # xs)" using e h(1,4) by (simp add: erased_list_def)
  show l: "\<forall>y \<in> set (a # xs). is_list (nu dev' y)" using e h(5,6) by (auto simp: erased_list_def)
  have "\<exists>N e t c. dev' = dev\<lparr>tree_nodes := N, tree := (tree dev)\<lparr>erased := e, erased_tail := t, erased_count := c\<rparr>\<rparr>"
    by (subst h(8)) blast
  then show "list_frame (insert a (set xs)) dev dev'" unfolding list_frame_def using h(6,7) by blast
  assume "length xs \<noteq> 1"
  then have "length xs \<le> 1 \<longleftrightarrow> xs = []" by (cases xs) auto
  then show "erased_list dev' (a # xs)" using c l h(2,3) by (simp add: erased_list_def)
qed

section \<open>Initialisation\<close>

lemma htable_empty:
  "htable dev key hash (replicate n EMPTY_NODE) (\<lambda>_. None)"
  unfolding htable_def bucket_def by (rule exI[of _ "\<lambda>_. []"]) (simp add: dll_def)

lemma TreeInit_run:
  fixes num :: int and dev :: "'f device"
  defines "num \<equiv> uint (par_end dev) - uint (par_start dev) + 1"
  assumes n: "0 < num" "num \<le> 0xffff" and m: "tree_nodes_pool_buf dev = Some m" "tree_nodes_pool_size dev = SIZEOF_TREENODE * num"
  shows "\<exists>dev'. uffs_TreeInit dev = (U_SUCC, dev') \<and> tree_maps dev' (\<lambda>_. None) \<and> erased_list dev' [] \<and>
    pool_inv (tree_pool dev') (map (slot_addr (tree_pool dev')) [0..<nat num]) \<and> p_mem (tree_pool dev') = m \<and>
    bad (tree dev') = None \<and> suspend (tree dev') = suspend (tree dev) \<and> slots dev' = (\<lambda>i. m + 32 * i) ` {..<nat num}"
proof -
  have un: "unat (word_of_int num :: u32) = nat num" using n by (simp add: unsigned_of_int take_bit_int_eq_self)
  obtain P' where P: "uffs_PoolInit (tree_pool dev) (Some m) (word_of_int num * 32) 32 (word_of_int num) False = (U_SUCC, P')"
    "pool_inv P' (map (slot_addr P') [0..<nat num])" "p_mem P' = m" "p_buf_size P' = 32" "p_num_bufs P' = word_of_int num"
  proof -
    have "0 < (word_of_int num :: u32)" using un n by (simp add: word_less_nat_alt)
    moreover have "unat (word_of_int num :: u32) * unat (32 :: u32) < 2 ^ 32" using n unfolding un by simp
    ultimately show thesis
      using Init_all_free[of "word_of_int num" 32 "tree_pool dev" m False] un that by (auto simp: SIZEOF_PTR_def)
  qed
  define dev' where "dev' = snd (uffs_TreeInit dev)"
  have run: "uffs_TreeInit dev = (U_SUCC, dev')" "tree_pool dev' = P'"
    "tree dev' = (tree dev)\<lparr>erased := None, erased_tail := None, erased_count := 0, bad := None, bad_count := 0,
       dir_entry := replicate DIR_NODE_ENTRY_LEN EMPTY_NODE, file_entry := replicate FILE_NODE_ENTRY_LEN EMPTY_NODE,
       data_entry := replicate DATA_NODE_ENTRY_LEN EMPTY_NODE, max_serial := ROOT_DIR_SERIAL\<rparr>"
    using n m P(1)[unfolded mult.commute[of _ "32 :: u32"]] by (simp_all add: dev'_def uffs_TreeInit_def Let_def num_def[symmetric] SIZEOF_TREENODE_def upd_tree_def)
  have g: "nodes_ok dev'" using P n by (simp add: nodes_ok_def run pool_inv_def un)
  have "tree_maps dev' (\<lambda>_. None)"
    using g htable_empty[of dev' key_data data_hash DATA_NODE_ENTRY_LEN] by (simp add: tree_maps_def run htable_empty case_prod_unfold)
  moreover have "erased_list dev' []" by (simp add: erased_list_def run)
  moreover have "slots dev' = (\<lambda>i. m + 32 * i) ` {..<nat num}"
    by (simp add: slots_def pool_slots_def slot_addr_def run P un mult.commute)
  ultimately show ?thesis using run P by simp
qed

section \<open>Properties\<close>

text \<open>Initialising the tree for a partition of at most 65535 blocks gives empty tables, an
  empty list of erased blocks and a pool with a free node for every block of the partition. (The
  list of suspended nodes is left as it was.)\<close>

theorem TreeInit_ok:
  fixes num :: int and dev :: "'f device"
  defines "num \<equiv> uint (par_end dev) - uint (par_start dev) + 1"
  assumes "0 < num" "num \<le> 0xffff" "tree_nodes_pool_buf dev = Some m" "tree_nodes_pool_size dev = SIZEOF_TREENODE * num"
  shows "\<exists>dev'. uffs_TreeInit dev = (U_SUCC, dev') \<and> tree_maps dev' (\<lambda>_. None) \<and> erased_list dev' [] \<and>
    pool_inv (tree_pool dev') (map (slot_addr (tree_pool dev')) [0..<nat num]) \<and> p_mem (tree_pool dev') = m \<and>
    bad (tree dev') = None \<and> suspend (tree dev') = suspend (tree dev) \<and> slots dev' = (\<lambda>i. m + 32 * i) ` {..<nat num}"
  using TreeInit_run[of dev m] assms by simp

text \<open>The sample device with an initialised tree; the first node is a file, the second a data
  block of it, the others are in no list yet.\<close>

definition sample_tree :: "femu device" where
  "sample_tree = upd_u 8224 (\<lambda>_. UData 4 7 508 1) (upd_u 8192 (\<lambda>_. UFile 3 0 0 7 100) (snd (uffs_TreeInit sample_dev)))"

lemma sample_dev_tree [simp]:
  "par_start sample_dev = 0" "par_end sample_dev = 127" "tree_nodes_pool_buf sample_dev = Some 8192"
  "tree_nodes_pool_size sample_dev = 4096" "suspend (tree sample_dev) = None"
  by (simp_all add: sample_dev_def)

theorem TreeInit_ok_witness:
  "\<exists>dev'. uffs_TreeInit sample_dev = (U_SUCC, dev') \<and> tree_maps dev' (\<lambda>_. None) \<and> erased_list dev' [] \<and>
    p_mem (tree_pool dev') = 8192 \<and> slots dev' = (\<lambda>i. 8192 + 32 * i) ` {..<128}"
  using TreeInit_ok[of sample_dev 8192] by (auto simp: SIZEOF_TREENODE_def)

lemma sample_tree_ok:
  "tree_maps sample_tree (\<lambda>_. None)" "erased_list sample_tree []" "8192 \<in> slots sample_tree" "8224 \<in> slots sample_tree"
  "nu sample_tree 8192 = UFile 3 0 0 7 100" "nu sample_tree 8224 = UData 4 7 508 1" "suspend (tree sample_tree) = None"
  "bad (tree sample_tree) = None"
proof -
  obtain dev' where d: "uffs_TreeInit sample_dev = (U_SUCC, dev')" "tree_maps dev' (\<lambda>_. None)" "erased_list dev' []"
    "slots dev' = (\<lambda>i. 8192 + 32 * i) ` {..<128}" "bad (tree dev') = None" "suspend (tree dev') = None"
    using TreeInit_run[of sample_dev 8192] by (auto simp: SIZEOF_TREENODE_def)
  have s: "sample_tree = upd_u 8224 (\<lambda>_. UData 4 7 508 1) (upd_u 8192 (\<lambda>_. UFile 3 0 0 7 100) dev')"
    by (simp add: sample_tree_def d)
  have sl: "slots sample_tree = slots dev'" by (simp add: slots_def s)
  show "tree_maps sample_tree (\<lambda>_. None)" by (rule tree_maps_frame[OF d(2)]) (simp_all add: s)
  show "erased_list sample_tree []" using d(3) by (simp add: s erased_list_def)
  show "8192 \<in> slots sample_tree" unfolding sl d(4) by (rule image_eqI[of _ _ 0]) simp_all
  show "8224 \<in> slots sample_tree" unfolding sl d(4) by (rule image_eqI[of _ _ 1]) simp_all
  show "nu sample_tree 8192 = UFile 3 0 0 7 100" "nu sample_tree 8224 = UData 4 7 508 1" by (simp_all add: s)
  show "suspend (tree sample_tree) = None" "bad (tree sample_tree) = None" using d by (simp_all add: s)
qed

text \<open>C8. The three hash tables implement one map from objects to nodes: a lookup is the lookup
  in the map, inserting a node is the update at its object, breaking it out is the removal. Both
  leave the contents of all nodes and the nodes outside the tables alone.\<close>

theorem tree_refines_map:
  assumes "tree_maps dev M"
  shows "uffs_FindFromTree (obj_ty k) (obj_parent k) (obj_serial k) dev = Some (M k) \<and>
    (node_obj (nu dev a) = Some k \<and> M k = None \<and> a \<in> slots dev \<longrightarrow>
       (\<exists>dev'. uffs_InsertNodeToTree (obj_ty k) a dev = Some dev' \<and> tree_maps dev' (M(k \<mapsto> a)) \<and> keeps dev dev')) \<and>
    (M k = Some a \<longrightarrow>
       (\<exists>dev'. uffs_BreakFromEntry (obj_ty k) a dev = Some dev' \<and> tree_maps dev' (M(k := None)) \<and> keeps dev dev'))"
  using FindFromTree_eq[OF assms] InsertNodeToTree_ok[OF assms] BreakFromEntry_ok[OF assms] by blast

theorem tree_refines_map_witness:
  "\<exists>dev'. uffs_InsertNodeToTree UFFS_TYPE_FILE 8192 sample_tree = Some dev' \<and>
     tree_maps dev' [OFile 7 \<mapsto> 8192] \<and> uffs_FindFromTree UFFS_TYPE_FILE 0 7 dev' = Some (Some 8192)"
  using tree_refines_map[OF sample_tree_ok(1), of "OFile 7" 8192] tree_refines_map[of _ "[OFile 7 \<mapsto> 8192]" "OFile 7" 8192]
  by (auto simp: sample_tree_ok)

text \<open>C19. The list of erased blocks is a queue: insertion at the tail appends the node, taking a
  node gives the first one, and the count stays exact; both keep the tables and the block
  numbers. Insertion at the head puts the node in front, except when the list holds exactly one
  node: then the new head also becomes the tail, and the next insertion at the tail cuts the old
  node off the list.\<close>

theorem erased_list_queue:
  assumes "tree_maps dev M" "erased_list dev xs" "a \<notin> set xs" "a \<notin> ran M" "b \<notin> insert a (set xs)"
  shows "(let dev' = uffs_TreeInsertToErasedListTailEx a c dev in
           erased_list dev' (xs @ [a]) \<and> tree_maps dev' M \<and>
           (\<forall>y. is_list (nu dev y) \<longrightarrow> l_block (nu dev' y) = l_block (nu dev y))) \<and>
         (case xs of [] \<Rightarrow> uffs_TreeGetErasedNodeNoCheck dev = (None, dev)
          | x # ys \<Rightarrow> \<exists>dev'. uffs_TreeGetErasedNodeNoCheck dev = (Some x, dev') \<and> erased_list dev' ys \<and> tree_maps dev' M \<and>
              (\<forall>y. is_list (nu dev y) \<longrightarrow> l_block (nu dev' y) = l_block (nu dev y))) \<and>
         (let dev' = uffs_InsertToErasedListHead a dev in
           chain (ln dev') (erased (tree dev')) (a # xs) \<and> tree_maps dev' M \<and>
           (length xs \<noteq> 1 \<longrightarrow> erased_list dev' (a # xs)) \<and>
           (length xs = 1 \<longrightarrow> (let dev'' = uffs_TreeInsertToErasedListTail b dev' in
              chain (ln dev'') (erased (tree dev'')) [a, b] \<and> erased_count (tree dev'') = 3)))"
proof (intro conjI)
  have xs: "set xs \<inter> ran M = {}" using assms(1,2) not_in_map[of dev M] by (auto simp: erased_list_def)
  have ax: "insert a (set xs) \<inter> ran M = {}" using xs assms(4) by auto
  note t = ErasedTailEx_ok[OF assms(2,3), of c]
  show "let dev' = uffs_TreeInsertToErasedListTailEx a c dev in
           erased_list dev' (xs @ [a]) \<and> tree_maps dev' M \<and>
           (\<forall>y. is_list (nu dev y) \<longrightarrow> l_block (nu dev' y) = l_block (nu dev y))"
    using t list_frame_maps[OF assms(1) t(2) ax] by (auto simp: Let_def list_frame_def)
  show "case xs of [] \<Rightarrow> uffs_TreeGetErasedNodeNoCheck dev = (None, dev)
          | x # ys \<Rightarrow> \<exists>dev'. uffs_TreeGetErasedNodeNoCheck dev = (Some x, dev') \<and> erased_list dev' ys \<and> tree_maps dev' M \<and>
              (\<forall>y. is_list (nu dev y) \<longrightarrow> l_block (nu dev' y) = l_block (nu dev y))"
  proof (cases xs)
    case (Cons x ys)
    then obtain dev' where g: "uffs_TreeGetErasedNodeNoCheck dev = (Some x, dev')" "erased_list dev' ys" "list_frame {x} dev dev'"
      using GetErasedNodeNoCheck_ok(2)[OF assms(2)] by blast
    have "tree_maps dev' M" by (rule list_frame_maps[OF assms(1) g(3)]) (use xs Cons in auto)
    then show ?thesis using g Cons by (auto simp: list_frame_def)
  qed (use GetErasedNodeNoCheck_ok(1)[OF assms(2)] in simp)
  note h = InsertHead_chain[OF assms(2,3)]
  let ?h = "uffs_InsertToErasedListHead a dev"
  have m: "tree_maps ?h M" by (rule list_frame_maps[OF assms(1) h(3) ax])
  have "chain (ln (uffs_TreeInsertToErasedListTail b ?h)) (erased (tree (uffs_TreeInsertToErasedListTail b ?h))) [a, b] \<and>
      erased_count (tree (uffs_TreeInsertToErasedListTail b ?h)) = 3" if one: "length xs = 1"
  proof -
    note e = InsertHead_eq[OF assms(2,3)]
    have et: "erased_tail (tree ?h) = Some a" "erased (tree ?h) = Some a" using e(1,3) one by simp_all
    show ?thesis unfolding uffs_TreeInsertToErasedListTail_def ErasedTailEx_eq(2)[OF et]
      using et e(2) one assms(5) by (simp add: ln_def)
  qed
  then show "let dev' = ?h in chain (ln dev') (erased (tree dev')) (a # xs) \<and> tree_maps dev' M \<and>
           (length xs \<noteq> 1 \<longrightarrow> erased_list dev' (a # xs)) \<and>
           (length xs = 1 \<longrightarrow> (let dev'' = uffs_TreeInsertToErasedListTail b dev' in
              chain (ln dev'') (erased (tree dev'')) [a, b] \<and> erased_count (tree dev'') = 3))"
    using h(1,4) m by (simp add: Let_def)
qed

theorem erased_list_queue_witness:
  "\<exists>dev'. uffs_TreeGetErasedNodeNoCheck (uffs_TreeInsertToErasedListTailEx 8256 (- 1) sample_tree) = (Some 8256, dev') \<and>
     erased_list dev' []"
proof -
  let ?d = "uffs_TreeInsertToErasedListTailEx 8256 (- 1) sample_tree"
  have "erased_list ?d [8256]" "tree_maps ?d (\<lambda>_. None)"
    using erased_list_queue[OF sample_tree_ok(1,2), of 8256 8288 "- 1"] by (simp_all add: Let_def)
  from erased_list_queue[OF this(2,1), of 8288 8320 0] show ?thesis by auto
qed

subsection \<open>Searching by block\<close>

fun node_block :: "NodeU \<Rightarrow> u16" where
  "node_block (UList n p b u) = b"
| "node_block (UDir b c p s) = b"
| "node_block (UFile b c p s l) = b"
| "node_block (UData b p l s) = b"

fun obj_region :: "obj \<Rightarrow> u32" where
  "obj_region (ODir s) = SEARCH_REGION_DIR"
| "obj_region (OFile s) = SEARCH_REGION_FILE"
| "obj_region (OData p s) = SEARCH_REGION_DATA"

text \<open>The node \<open>a\<close> is in the region \<open>r\<close> of the tree with the map \<open>M\<close>, the erased nodes \<open>E\<close> and
  the bad nodes \<open>Bs\<close>.\<close>

definition located :: "(obj \<Rightarrow> nat option) \<Rightarrow> nat list \<Rightarrow> nat list \<Rightarrow> u32 \<Rightarrow> nat \<Rightarrow> bool" where
  "located M E Bs r a \<longleftrightarrow> (\<exists>k. M k = Some a \<and> r = obj_region k) \<or> r = SEARCH_REGION_ERASED \<and> a \<in> set E \<or>
     r = SEARCH_REGION_BAD \<and> a \<in> set Bs"

lemmas region_defs = SEARCH_REGION_DIR_def SEARCH_REGION_FILE_def SEARCH_REGION_DATA_def SEARCH_REGION_BAD_def SEARCH_REGION_ERASED_def

lemma obj_ex: "(\<exists>k. P k) \<longleftrightarrow> (\<exists>s. P (ODir s)) \<or> (\<exists>s. P (OFile s)) \<or> (\<exists>p s. P (OData p s))"
  by (metis obj.exhaust)

lemma region_bit:
  fixes region :: u32
  assumes "r = 2 ^ n" "region AND r \<noteq> 0"
  shows "region AND r = r"
proof -
  have "bit region n" using assms by (simp add: and_exp_eq_0_iff_not_bit)
  then show ?thesis unfolding assms(1) by (intro bit_eqI) (auto simp: bit_and_iff bit_exp_iff)
qed

lemma region_flag: "r \<in> {SEARCH_REGION_DIR, SEARCH_REGION_FILE, SEARCH_REGION_DATA, SEARCH_REGION_BAD, SEARCH_REGION_ERASED} \<Longrightarrow>
  region AND r \<noteq> 0 \<Longrightarrow> region AND r = r"
  using region_bit[of r 0 region] region_bit[of r 1 region] region_bit[of r 2 region] region_bit[of r 3 region] region_bit[of r 4 region]
  by (auto simp: region_defs)

lemma find_regions_spec:
  assumes "\<And>r res. (r, res) \<in> set rs \<Longrightarrow> \<exists>x. res = Some x \<and> (case x of None \<Rightarrow> \<forall>a. L r a \<longrightarrow> \<not> P a | Some a \<Rightarrow> L r a \<and> P a)"
    and "\<And>r. r \<in> fst ` set rs \<Longrightarrow> region AND r \<noteq> 0 \<Longrightarrow> region AND r = r"
  shows "\<exists>x region'. find_regions region rs = Some (x, region') \<and>
    (case x of None \<Rightarrow> region' = region \<and> (\<forall>r a. r \<in> fst ` set rs \<and> region AND r \<noteq> 0 \<and> L r a \<longrightarrow> \<not> P a)
     | Some a \<Rightarrow> region AND region' \<noteq> 0 \<and> L region' a \<and> P a)"
  using assms
proof (induction rs)
  case (Cons p rs)
  obtain r res where p: "p = (r, res)" by (cases p)
  obtain x where x: "res = Some x" "case x of None \<Rightarrow> \<forall>a. L r a \<longrightarrow> \<not> P a | Some a \<Rightarrow> L r a \<and> P a"
    using Cons.prems(1)[of r res] p by auto
  obtain y region' where y: "find_regions region rs = Some (y, region')"
    "case y of None \<Rightarrow> region' = region \<and> (\<forall>r a. r \<in> fst ` set rs \<and> region AND r \<noteq> 0 \<and> L r a \<longrightarrow> \<not> P a)
     | Some a \<Rightarrow> region AND region' \<noteq> 0 \<and> L region' a \<and> P a"
  proof -
    have "\<exists>x region'. find_regions region rs = Some (x, region') \<and>
      (case x of None \<Rightarrow> region' = region \<and> (\<forall>r a. r \<in> fst ` set rs \<and> region AND r \<noteq> 0 \<and> L r a \<longrightarrow> \<not> P a)
       | Some a \<Rightarrow> region AND region' \<noteq> 0 \<and> L region' a \<and> P a)"
    proof (rule Cons.IH)
      show "\<exists>x. res = Some x \<and> (case x of None \<Rightarrow> \<forall>a. L r a \<longrightarrow> \<not> P a | Some a \<Rightarrow> L r a \<and> P a)" if "(r, res) \<in> set rs" for r res
        using that by (intro Cons.prems(1)) simp
      show "region AND r = r" if "r \<in> fst ` set rs" "region AND r \<noteq> 0" for r
        using that by (intro Cons.prems(2)) auto
    qed
    then show thesis using that by blast
  qed
  have r: "region AND r \<noteq> 0 \<Longrightarrow> region AND r = r" using Cons.prems(2)[of r] p by simp
  show ?case
  proof (cases "region AND r = 0")
    case True
    then show ?thesis using y p by (cases y) auto
  next
    case False
    then show ?thesis using y x r p by (cases x; cases y) auto
  qed
qed simp

text \<open>Searching the tree for a block: a node that is found holds the block and is in the
  region that is returned; when none is found, no node of a wanted region holds the block.\<close>

theorem FindNodeByBlock_spec:
  assumes "tree_maps dev M" "erased_list dev E" "chain (ln dev) (bad (tree dev)) Bs" "\<forall>a \<in> set Bs. is_list (nu dev a)"
  shows "\<exists>x region'. uffs_TreeFindNodeByBlock block region dev = Some (x, region') \<and>
    (case x of
       None \<Rightarrow> region' = region \<and> (\<forall>r a. region AND r \<noteq> 0 \<and> located M E Bs r a \<longrightarrow> node_block (nu dev a) \<noteq> block)
     | Some a \<Rightarrow> region AND region' \<noteq> 0 \<and> located M E Bs region' a \<and> node_block (nu dev a) = block)"
proof -
  let ?rs = "[(SEARCH_REGION_DATA, uffs_TreeFindDataNodeByBlock block dev), (SEARCH_REGION_FILE, uffs_TreeFindFileNodeByBlock block dev),
        (SEARCH_REGION_DIR, uffs_TreeFindDirNodeByBlock block dev), (SEARCH_REGION_ERASED, uffs_TreeFindErasedNodeByBlock block dev),
        (SEARCH_REGION_BAD, uffs_TreeFindBadNodeByBlock block dev)]"
  let ?ok = "\<lambda>r res. \<exists>x. res = Some x \<and> (case x of None \<Rightarrow> \<forall>a. located M E Bs r a \<longrightarrow> \<not> node_block (nu dev a) = block
    | Some a \<Rightarrow> located M E Bs r a \<and> node_block (nu dev a) = block)"
  note tm = assms(1)[unfolded tree_maps_def]
  have ok: "nodes_ok dev" and td: "htable dev key_dir GET_DIR_HASH (dir_entry (tree dev)) (\<lambda>s. M (ODir s))"
    and tf: "htable dev key_file GET_FILE_HASH (file_entry (tree dev)) (\<lambda>s. M (OFile s))"
    and ta: "htable dev key_data data_hash (data_entry (tree dev)) (\<lambda>(p, s). M (OData p s))" using tm by blast+
  have lr: "located M E Bs SEARCH_REGION_DIR a \<longleftrightarrow> a \<in> ran (\<lambda>s. M (ODir s))" "located M E Bs SEARCH_REGION_FILE a \<longleftrightarrow> a \<in> ran (\<lambda>s. M (OFile s))"
    "located M E Bs SEARCH_REGION_DATA a \<longleftrightarrow> a \<in> ran (\<lambda>(p, s). M (OData p s))" "located M E Bs SEARCH_REGION_ERASED a \<longleftrightarrow> a \<in> set E"
    "located M E Bs SEARCH_REGION_BAD a \<longleftrightarrow> a \<in> set Bs" for a
    unfolding located_def obj_ex ran_def by (auto simp: region_defs)
  have nb: "a \<in> ran (\<lambda>s. M (ODir s)) \<Longrightarrow> node_block (nu dev a) = d_block (nu dev a)"
    "a \<in> ran (\<lambda>s. M (OFile s)) \<Longrightarrow> node_block (nu dev a) = f_block (nu dev a)"
    "a \<in> ran (\<lambda>(p, s). M (OData p s)) \<Longrightarrow> node_block (nu dev a) = da_block (nu dev a)"
    "is_list (nu dev a) \<Longrightarrow> node_block (nu dev a) = l_block (nu dev a)" for a
    by (auto simp: ran_def node_obj_iff dest!: tree_mapsD(1)[OF assms(1)]) (cases "nu dev a"; simp)
  have list_find: "case List.find (\<lambda>x. l_block (nu dev x) = block) xs of None \<Rightarrow> \<forall>a. a \<in> set xs \<longrightarrow> \<not> node_block (nu dev a) = block
      | Some a \<Rightarrow> a \<in> set xs \<and> node_block (nu dev a) = block" if "\<forall>a \<in> set xs. is_list (nu dev a)" for xs
  proof (cases "List.find (\<lambda>x. l_block (nu dev x) = block) xs")
    case None
    then have "\<forall>a \<in> set xs. l_block (nu dev a) \<noteq> block" by (simp add: find_None_iff_set)
    then show ?thesis using None that nb(4) by auto
  next
    case (Some a)
    then show ?thesis using find_Some_in[OF Some] that nb(4) by auto
  qed
  have "?ok SEARCH_REGION_DIR (uffs_TreeFindDirNodeByBlock block dev)"
    unfolding lr uffs_TreeFindDirNodeByBlock_def
    by (rule htable_find[OF ok td, of "\<lambda>u. d_block u = block"]) (auto simp: nb split: option.splits)
  moreover have "?ok SEARCH_REGION_FILE (uffs_TreeFindFileNodeByBlock block dev)"
    unfolding lr uffs_TreeFindFileNodeByBlock_def
    by (rule htable_find[OF ok tf, of "\<lambda>u. f_block u = block"]) (auto simp: nb split: option.splits)
  moreover have "?ok SEARCH_REGION_DATA (uffs_TreeFindDataNodeByBlock block dev)"
    unfolding lr uffs_TreeFindDataNodeByBlock_def
    by (rule htable_find[OF ok ta, of "\<lambda>u. da_block u = block"]) (auto simp: nb split: option.splits)
  moreover have "?ok SEARCH_REGION_ERASED (uffs_TreeFindErasedNodeByBlock block dev)"
  proof -
    have "chain (\<lambda>x. l_next (nu dev x)) (erased (tree dev)) E" "\<forall>a \<in> set E. is_list (nu dev a)" using assms(2) by (simp_all add: erased_list_def ln_def[abs_def])
    then show ?thesis unfolding lr uffs_TreeFindErasedNodeByBlock_def
      using list_find[of E] by (auto simp: chain_find_eq)
  qed
  moreover have "?ok SEARCH_REGION_BAD (uffs_TreeFindBadNodeByBlock block dev)"
  proof -
    have "chain (\<lambda>x. l_next (nu dev x)) (bad (tree dev)) Bs" using assms(3) by (simp add: ln_def[abs_def])
    then show ?thesis unfolding lr uffs_TreeFindBadNodeByBlock_def using assms(4)
      list_find[of Bs] by (auto simp: chain_find_eq)
  qed
  ultimately have each: "?ok r res" if "(r, res) \<in> set ?rs" for r res using that by auto
  have flags: "region AND r = r" if "r \<in> fst ` set ?rs" "region AND r \<noteq> 0" for r
    using that by (intro region_flag) auto
  have all: "r \<in> fst ` set ?rs" if "located M E Bs r a" for r a
    using that unfolding located_def obj_ex by auto
  obtain x region' where x: "find_regions region ?rs = Some (x, region')"
    "case x of None \<Rightarrow> region' = region \<and> (\<forall>r a. r \<in> fst ` set ?rs \<and> region AND r \<noteq> 0 \<and> located M E Bs r a \<longrightarrow> \<not> node_block (nu dev a) = block)
     | Some a \<Rightarrow> region AND region' \<noteq> 0 \<and> located M E Bs region' a \<and> node_block (nu dev a) = block"
    using find_regions_spec[of ?rs "located M E Bs" "\<lambda>a. node_block (nu dev a) = block" region, OF each flags] by blast
  have "case x of None \<Rightarrow> region' = region \<and> (\<forall>r a. region AND r \<noteq> 0 \<and> located M E Bs r a \<longrightarrow> node_block (nu dev a) \<noteq> block)
     | Some a \<Rightarrow> region AND region' \<noteq> 0 \<and> located M E Bs region' a \<and> node_block (nu dev a) = block"
    using x(2) all by (cases x) (simp_all, blast)
  with x(1) show ?thesis unfolding uffs_TreeFindNodeByBlock_def by blast
qed

theorem FindNodeByBlock_spec_witness:
  "\<exists>x region'. uffs_TreeFindNodeByBlock 9 31 (uffs_TreeInsertToErasedListTailEx 8256 1 sample_tree) = Some (x, region') \<and>
     x \<noteq> Some 8224"
proof -
  let ?d = "uffs_TreeInsertToErasedListTailEx 8256 1 sample_tree"
  have d: "erased_list ?d [8256]" "tree_maps ?d (\<lambda>_. None)" "bad (tree ?d) = None"
  proof -
    have "(8256 :: nat) \<notin> set []" by simp
    note t = ErasedTailEx_ok[OF sample_tree_ok(2) this, of 1]
    show "erased_list ?d [8256]" using t(1) by simp
    show "tree_maps ?d (\<lambda>_. None)" by (rule list_frame_maps[OF sample_tree_ok(1) t(2)]) simp
    show "bad (tree ?d) = None" using t(2) sample_tree_ok(8) by (auto simp: list_frame_def)
  qed
  from FindNodeByBlock_spec[OF d(2,1), of "[]" 9 31] d(3) show ?thesis
    by (force simp: located_def split: option.splits)
qed

lemma find_serial_eq:
  assumes "tree_maps dev M" "chain (ln dev) (suspend (tree dev)) S"
  shows "find_serial dev xs = Some (case List.find (\<lambda>i. M (ODir (word_of_nat i)) = None \<and> M (OFile (word_of_nat i)) = None \<and>
      (\<forall>a \<in> set S. l_u (nu dev a) \<noteq> word_of_nat i)) xs of None \<Rightarrow> INVALID_UFFS_SERIAL | Some i \<Rightarrow> word_of_nat i)"
proof (induction xs)
  case (Cons i xs)
  have c: "chain (\<lambda>x. l_next (nu dev x)) (suspend (tree dev)) S" using assms(2) by (simp add: ln_def[abs_def])
  have s: "(List.find (\<lambda>x. l_u (nu dev x) = s) S = None) = (\<forall>a \<in> set S. l_u (nu dev a) \<noteq> s)" for s
    by (simp add: find_None_iff_set)
  show ?case using Cons s[of "word_of_nat i"]
    by (auto simp: tree_find[OF assms(1)] uffs_TreeFindSuspendNode_def chain_find_eq[OF c])
qed simp

text \<open>The search for a free serial number returns, and the result is the least number from 1
  to 0x3fe that no directory, no file and no suspended node has; \<open>INVALID_UFFS_SERIAL\<close> tells
  that there is none.\<close>

theorem FindFreeFsnSerial_least:
  assumes "tree_maps dev M" "chain (ln dev) (suspend (tree dev)) S"
  defines "free \<equiv> \<lambda>s. M (ODir s) = None \<and> M (OFile s) = None \<and> (\<forall>a \<in> set S. l_u (nu dev a) \<noteq> s)"
  shows "\<exists>s. uffs_FindFreeFsnSerial dev = Some s \<and>
    (s = INVALID_UFFS_SERIAL \<and> (\<forall>i. 0 < i \<and> i < MAX_UFFS_FSN \<longrightarrow> \<not> free (word_of_nat i)) \<or>
     0 < s \<and> unat s < MAX_UFFS_FSN \<and> free s \<and> (\<forall>i. 0 < i \<and> i < unat s \<longrightarrow> \<not> free (word_of_nat i)))"
proof -
  let ?f = "List.find (\<lambda>i. free (word_of_nat i)) [1..<MAX_UFFS_FSN]"
  have run: "uffs_FindFreeFsnSerial dev = Some (case ?f of None \<Rightarrow> INVALID_UFFS_SERIAL | Some i \<Rightarrow> word_of_nat i)"
    unfolding uffs_FindFreeFsnSerial_def find_serial_eq[OF assms(1,2)] free_def by (simp add: ROOT_DIR_SERIAL_def)
  show ?thesis
  proof (cases ?f)
    case None
    then have "\<forall>i. 0 < i \<and> i < MAX_UFFS_FSN \<longrightarrow> \<not> free (word_of_nat i)" by (simp add: find_None_iff_set)
    then show ?thesis using run None by simp
  next
    case (Some i)
    have i: "free (word_of_nat i)" "0 < i" "i < MAX_UFFS_FSN" using find_Some_in[OF Some] by auto
    have u: "unat (word_of_nat i :: u16) = i" using i(3) by (intro unat_of_nat_u16) (simp add: MAX_UFFS_FSN_def)
    have "\<forall>j. 0 < j \<and> j < i \<longrightarrow> \<not> free (word_of_nat j)" using find_upt_before[OF Some] by simp
    moreover have "0 < (word_of_nat i :: u16)" using u i(2) by (simp add: word_less_nat_alt)
    ultimately show ?thesis using run Some i u by auto
  qed
qed

theorem FindFreeFsnSerial_least_witness:
  "\<exists>s. uffs_FindFreeFsnSerial sample_tree = Some s \<and> s = 1"
proof -
  obtain s where s: "uffs_FindFreeFsnSerial sample_tree = Some s"
    "s = INVALID_UFFS_SERIAL \<and> \<not> (0 < (1::nat) \<and> 1 < MAX_UFFS_FSN) \<or> 0 < s \<and> \<not> (0 < (1::nat) \<and> 1 < unat s)"
    using FindFreeFsnSerial_least[OF sample_tree_ok(1), of "[]"] sample_tree_ok(7) by force
  then have "0 < unat s" "unat s \<le> 1" by (auto simp: MAX_UFFS_FSN_def word_less_nat_alt)
  then have "unat s = unat (1 :: u16)" by simp
  then have "s = 1" by (simp only: word_unat_eq_iff)
  then show ?thesis using s(1) by simp
qed

end
