(* ===== verification/Block_Erase.thy ===== *)
theory Block_Erase
  imports Flash_Write Tree_Maps Page_Scan
begin

text \<open>
  Taking blocks from the list of erased blocks and erasing the block of a node
  (\<open>uffs_TreeGetErasedNode\<close> and \<open>uffs_TreeEraseNode\<close> of \<open>uffs_tree.c\<close>, \<open>uffs_BadBlockProcessNode\<close>
  of \<open>uffs_badblock.c\<close>). The two functions of the tree call each other: a block that turns out
  bad while it is erased is replaced by the next erased block. \<open>None\<close> is an endless recursion or
  the call of an operation that the driver does not have.

  The lemmas show that, whatever the driver answers, taking a node returns, and where every node
  that leaves the list ends up.
\<close>

section \<open>The code\<close>

definition uffs_BadBlockProcessNode :: "nat option \<Rightarrow> 'f device \<Rightarrow> 'f device option" where
  "uffs_BadBlockProcessNode node dev =
     (case node of None \<Rightarrow> Some dev
      | Some a \<Rightarrow> do {
          (r, dev) \<leftarrow> uffs_FlashMarkBadBlock (uint (l_block (nu dev a))) dev;
          Some (uffs_TreeInsertToBadBlockList a dev)
        })"

text \<open>The block numbers of the bad \<open>node\<close> and of the good \<open>newNode\<close> are exchanged.\<close>

definition swap_blocks :: "nat \<Rightarrow> nat \<Rightarrow> 'f device \<Rightarrow> 'f device" where
  "swap_blocks node newNode dev =
     (let block = l_block (nu dev newNode);
          dev = upd_u newNode (set_l_block (l_block (nu dev node))) dev;
          dev = upd_u node (set_l_block block) dev
      in upd_u node (set_l_need_check 0) dev)"

definition replace_bad :: "nat \<Rightarrow> nat option \<Rightarrow> 'f device \<Rightarrow> (URET \<times> 'f device) option" where
  "replace_bad node newNode dev =
     (case newNode of None \<Rightarrow> Some (U_FAIL, dev)
      | Some n \<Rightarrow> do {
          dev \<leftarrow> uffs_BadBlockProcessNode (Some n) (swap_blocks node n dev);
          Some (U_SUCC, dev)
        })"

text \<open>The end of \<open>uffs_TreeGetErasedNode\<close>: the cache of the block is prepared.\<close>

definition prepare_erased :: "nat \<Rightarrow> 'f device \<Rightarrow> 'f device option" where
  "prepare_erased node dev = do {
     (bc, dev) \<leftarrow> uffs_BlockInfoGet (uint (l_block (nu dev node))) dev;
     Some (case bc of None \<Rightarrow> dev | Some x \<Rightarrow> uffs_BlockInfoPut (Some x) (uffs_BlockInfoInitErased x dev))
   }"

text \<open>The call of \<open>uffs_TreeEraseNode\<close> is written out, because it calls
  \<open>uffs_TreeGetErasedNode\<close> again.\<close>

partial_function (option) uffs_TreeGetErasedNode :: "'f device \<Rightarrow> (nat option \<times> 'f device) option" where
  "uffs_TreeGetErasedNode dev =
     (case uffs_TreeGetErasedNodeNoCheck dev of
        (None, dev) \<Rightarrow> Some (None, dev)
      | (Some node, dev) \<Rightarrow> do {
          (ok, dev) \<leftarrow>
            (if l_need_check (nu dev node) = 0 then Some (U_SUCC, dev)
             else do {
               (c, dev) \<leftarrow> uffs_FlashCheckErasedBlock (uint (l_block (nu dev node))) dev;
               (if c = U_SUCC then Some (U_SUCC, dev)
                else do {
                  (ret, dev) \<leftarrow> uffs_FlashEraseBlock (uint (l_block (nu dev node))) (upd_u node (set_l_need_check 0) dev);
                  (r, dev) \<leftarrow> (if UFFS_FLASH_IS_BAD_BLOCK ret
                              then do {
                                (newNode, dev) \<leftarrow> uffs_TreeGetErasedNode dev;
                                replace_bad node newNode dev
                              }
                              else Some (if UFFS_FLASH_HAVE_ERR ret then U_FAIL else U_SUCC, dev));
                  Some (r, if r = U_SUCC then upd_u node (set_l_need_check 0) dev else dev)
                })
             });
          (if ok = U_SUCC then map_option (\<lambda>dev. (Some node, dev)) (prepare_erased node dev)
           else Some (None, dev))
        })"

definition uffs_TreeEraseNode :: "nat \<Rightarrow> 'f device \<Rightarrow> (URET \<times> 'f device) option" where
  "uffs_TreeEraseNode node dev = do {
     (ret, dev) \<leftarrow> uffs_FlashEraseBlock (uint (l_block (nu dev node))) (upd_u node (set_l_need_check 0) dev);
     (if UFFS_FLASH_IS_BAD_BLOCK ret
      then do {
        (newNode, dev) \<leftarrow> uffs_TreeGetErasedNode dev;
        replace_bad node newNode dev
      }
      else Some (if UFFS_FLASH_HAVE_ERR ret then U_FAIL else U_SUCC, dev))
   }"

section \<open>Taking a node returns\<close>

text \<open>What accesses to the flash and to the caches leave alone.\<close>

definition tree_kept :: "'f device \<Rightarrow> 'f device \<Rightarrow> bool" where
  "tree_kept dev dev' \<longleftrightarrow> tree dev' = tree dev \<and> tree_nodes dev' = tree_nodes dev \<and> tree_pool dev' = tree_pool dev \<and>
     ops dev' = ops dev \<and> ppb dev' = ppb dev \<and> ((\<exists>cs. bc_inv dev cs) \<longrightarrow> (\<exists>cs. bc_inv dev' cs))"

text \<open>The operations that the driver must have.\<close>

definition can_erase :: "'f device \<Rightarrow> bool" where
  "can_erase dev \<longleftrightarrow> can_read dev \<and> EraseBlock (ops dev) \<noteq> None \<and>
     (MarkBadBlock (ops dev) \<noteq> None \<or> WritePage (ops dev) \<noteq> None \<or> WritePageWithLayout (ops dev) \<noteq> None) \<and>
     (\<exists>cs. bc_inv dev cs)"

lemma tree_kept_refl [simp]: "tree_kept dev dev"
  by (simp add: tree_kept_def)

lemma tree_kept_trans: "tree_kept a b \<Longrightarrow> tree_kept b c \<Longrightarrow> tree_kept a c"
  by (simp add: tree_kept_def)

lemma tree_kept_can: "tree_kept dev dev' \<Longrightarrow> can_erase dev \<Longrightarrow> can_erase dev'"
  by (simp add: tree_kept_def can_erase_def can_read_def)

lemma tree_keptI:
  "bc_nodes dev' = bc_nodes dev \<Longrightarrow> bc_head dev' = bc_head dev \<Longrightarrow> bc_tail dev' = bc_tail dev \<Longrightarrow>
   tree dev' = tree dev \<Longrightarrow> tree_nodes dev' = tree_nodes dev \<Longrightarrow> tree_pool dev' = tree_pool dev \<Longrightarrow>
   ops dev' = ops dev \<Longrightarrow> attr dev' = attr dev \<Longrightarrow> tree_kept dev dev'"
  by (simp add: tree_kept_def bc_inv_def ppb_def)

lemma tree_kept_upd [simp]:
  "tree_kept dev (d\<lparr>drv := f\<rparr>) = tree_kept dev d" "tree_kept dev (d\<lparr>spare_pool := q\<rparr>) = tree_kept dev d"
  "tree_kept dev (d\<lparr>spare_mem := m\<rparr>) = tree_kept dev d" "tree_kept dev (d\<lparr>pending := p\<rparr>) = tree_kept dev d"
  "tree_kept dev (d\<lparr>buf_clone := c\<rparr>) = tree_kept dev d" "tree_kept dev (upd_buf x g d) = tree_kept dev d"
  "tree_kept dev (put_spare a d) = tree_kept dev d" "tree_kept dev (pending_remove b d) = tree_kept dev d"
  by (simp_all add: tree_kept_def bc_inv_def ppb_def upd_buf_def put_spare_def pending_remove_def)

lemma can_erase_simps [simp]:
  "can_erase (d\<lparr>drv := f\<rparr>) = can_erase d" "can_erase (pending_remove b d) = can_erase d"
  by (simp_all add: can_erase_def can_read_def bc_inv_def ppb_def pending_remove_def)

lemma expire_cached_kept:
  assumes "can_erase dev"
  obtains dev' where "expire_cached (uint (b :: u16)) dev = Some dev'" "tree_kept dev dev'"
proof -
  obtain cs where c: "bc_inv dev cs" using assms by (auto simp: can_erase_def)
  obtain n where n: "expire_cached (uint b) dev = Some (dev\<lparr>bc_nodes := n\<rparr>)" "bc_inv (dev\<lparr>bc_nodes := n\<rparr>) cs"
    using expire_cached_ok[OF c, of b] by blast
  then have "tree_kept dev (dev\<lparr>bc_nodes := n\<rparr>)" by (auto simp: tree_kept_def ppb_def)
  with n(1) that show thesis by blast
qed

lemma EraseBlock_kept:
  assumes "can_erase dev"
  obtains ret f dev' where "uffs_FlashEraseBlock (uint (b :: u16)) dev = Some (ret, dev')" "tree_kept dev dev'"
    "(ret, f) = the (EraseBlock (ops dev)) (ucast b) (drv dev)"
proof -
  obtain er where er: "EraseBlock (ops dev) = Some er" using assms by (auto simp: can_erase_def)
  let ?d = "pending_remove (uint b) dev"
  have o: "ops ?d = ops dev" "drv ?d = drv dev" by (simp_all add: pending_remove_def)
  obtain ret f where e: "er (ucast b) (drv dev) = (ret, f)" by (cases "er (ucast b) (drv dev)")
  obtain dev' where x: "expire_cached (uint b) (?d\<lparr>drv := f\<rparr>) = Some dev'" "tree_kept (?d\<lparr>drv := f\<rparr>) dev'"
    using expire_cached_kept[of "?d\<lparr>drv := f\<rparr>" b] assms by auto
  have w: "word_of_int (uint b) = (ucast b :: u32)" by simp
  have "uffs_FlashEraseBlock (uint b) dev = Some (ret, dev')"
    using x(1) by (simp add: uffs_FlashEraseBlock_def Let_def o er w e)
  moreover have "tree_kept dev dev'" by (rule tree_kept_trans[OF _ x(2)]) simp
  ultimately show thesis by (rule that[of ret dev' f]) (simp add: er e)
qed

lemma MarkBadBlock_kept:
  assumes "can_erase dev"
  obtains r dev' where "uffs_FlashMarkBadBlock (uint (b :: u16)) dev = Some (r, dev')" "tree_kept dev dev'"
proof -
  have "can_erase (pending_remove (uint b) dev)" using assms by simp
  then obtain d where x: "expire_cached (uint b) (pending_remove (uint b) dev) = Some d"
      "tree_kept (pending_remove (uint b) dev) d" by (rule expire_cached_kept)
  have k: "tree_kept dev d" by (rule tree_kept_trans[OF _ x(2)]) simp
  obtain er where er: "EraseBlock (ops d) = Some er" using tree_kept_can[OF k assms] by (auto simp: can_erase_def)
  have "\<exists>r f. uffs_FlashMarkBadBlock (uint b) dev = Some (r, d\<lparr>drv := f\<rparr>)"
    using tree_kept_can[OF k assms]
    unfolding uffs_FlashMarkBadBlock_def x(1) bind.bind_lunit can_erase_def
    by (cases "MarkBadBlock (ops d)"; cases "WritePageWithLayout (ops d)"; cases "WritePage (ops d)")
      (simp_all add: er Let_def case_prod_unfold CONFIG_ERASE_BLOCK_BEFORE_MARK_BAD_def, blast+)
  then show thesis using that k by auto
qed

lemma check_page_kept:
  assumes "can_read dev"
  obtains c ts' ecc' dev' where "check_page b a v p ts ecc dev = Some (c, ts', ecc', dev')" "tree_kept dev dev'"
  using assms unfolding check_page_def can_read_def
  by (cases "ReadPageWithLayout (ops dev)"; cases "ReadPage (ops dev)") (auto simp: Let_def case_prod_unfold)

lemma check_pages_kept:
  assumes "can_read dev"
  obtains r dev' where "check_pages b a v ks ts ecc dev = Some (r, dev')" "tree_kept dev dev'"
  using assms
proof (induction ks arbitrary: ts ecc dev thesis)
  case (Cons k ks)
  obtain c ts' ecc' d where k: "check_page b a v (int k) ts ecc dev = Some (c, ts', ecc', d)" "tree_kept dev d"
    using check_page_kept[OF Cons.prems(2)] .
  have "can_read d" using k(2) Cons.prems(2) by (simp add: tree_kept_def can_read_def)
  then obtain r dev' where "check_pages b a v ks ts' ecc' d = Some (r, dev')" "tree_kept d dev'"
    using Cons.IH by blast
  then show ?case using k Cons.prems(1) by (cases c) (auto intro: tree_kept_trans)
qed simp

lemma BufClone_kept: "tree_kept dev (snd (uffs_BufClone x dev))"
  by (simp add: uffs_BufClone_def GetFreeCloneBuf_def Let_def split: option.split)

lemma BufFreeClone_kept [simp]: "tree_kept dev (snd (uffs_BufFreeClone x d)) = tree_kept dev d"
  by (simp add: uffs_BufFreeClone_def InsertToCloneBufList_def split: option.split)

lemma CheckErasedBlock_kept:
  assumes "can_erase dev"
  obtains r dev' where "uffs_FlashCheckErasedBlock b dev = Some (r, dev')" "tree_kept dev dev'"
proof (cases "CheckErasedBlock (ops dev)")
  case (Some ck)
  then show thesis using that by (simp add: uffs_FlashCheckErasedBlock_def case_prod_unfold Let_def)
next
  case None
  obtain sp d where s: "get_spare dev = (sp, d)" by (cases "get_spare dev")
  obtain x d' where c: "uffs_BufClone None d = (x, d')" by (cases "uffs_BufClone None d")
  have k: "tree_kept dev d'" using BufClone_kept[of d None] tree_kept_trans[of dev d d'] s c
    by (auto simp: get_spare_def case_prod_unfold Let_def)
  have kd: "tree_kept dev d" using s by (auto simp: get_spare_def case_prod_unfold Let_def)
  show thesis
  proof (cases sp)
    case None': None
    then show thesis using that kd by (simp add: uffs_FlashCheckErasedBlock_def None s)
  next
    case (Some a)
    show thesis
    proof (cases x)
      case None': None
      then show thesis using that k Some by (simp add: uffs_FlashCheckErasedBlock_def None s c)
    next
      case (Some v)
      have "can_read d'" using tree_kept_can[OF k assms] by (simp add: can_erase_def)
      then obtain r dev' where "check_pages b a v [0..<ppb d'] (tag_s (uninit_tag d')) (uninit d') d' = Some (r, dev')"
        "tree_kept d' dev'" by (rule check_pages_kept)
      then show thesis using that tree_kept_trans[OF k] Some \<open>sp = Some a\<close>
        by (simp add: uffs_FlashCheckErasedBlock_def None s c)
    qed
  qed
qed

lemma BlockInfoGet_kept:
  assumes "bc_inv dev cs"
  obtains r dev' cs' where "uffs_BlockInfoGet (uint (b :: u16)) dev = Some (r, dev')" "bc_inv dev' cs'" "bc_frame dev dev'"
    "\<And>x. r = Some x \<Longrightarrow> x \<in> set cs'"
proof (cases "List.find (\<lambda>x. bi_block (bc_nodes dev x) = b) cs")
  case (Some x)
  then show thesis using that Get_cached[OF assms Some] by (metis Un_iff insertCI list.set(2) option.inject set_append)
next
  case None
  then have n: "x \<in> set cs \<Longrightarrow> bi_block (bc_nodes dev x) \<noteq> b" for x by (simp add: find_None_iff_set)
  show thesis
  proof (cases "List.find (\<lambda>x. bi_ref_count (bc_nodes dev x) = 0) cs")
    case (Some x)
    then show thesis using that Get_uncached[OF assms n Some]
      by (metis Un_iff insertCI list.set(2) option.inject set_append)
  next
    case none: None
    have "uffs_BlockInfoGet (uint b) dev = Some (None, dev)"
      unfolding uffs_BlockInfoGet_def Find_eq[OF assms] None
      by (simp add: chain_find_eq[OF bc_invD(1)[OF assms]] none)
    then show thesis using that assms by fastforce
  qed
qed

lemma bc_frame_tree: "bc_frame dev dev' \<Longrightarrow> tree dev' = tree dev \<and> tree_nodes dev' = tree_nodes dev \<and>
    tree_pool dev' = tree_pool dev \<and> ops dev' = ops dev \<and> ppb dev' = ppb dev"
  by (elim bc_frameE) (simp add: ppb_def)

lemma prepare_erased_kept:
  assumes "can_erase dev"
  obtains dev' where "prepare_erased node dev = Some dev'" "tree_kept dev dev'"
proof -
  obtain cs where c: "bc_inv dev cs" using assms by (auto simp: can_erase_def)
  obtain r d cs' where g: "uffs_BlockInfoGet (uint (l_block (nu dev node))) dev = Some (r, d)" "bc_inv d cs'" "bc_frame dev d"
    "\<And>x. r = Some x \<Longrightarrow> x \<in> set cs'" using BlockInfoGet_kept[OF c] by metis
  have k: "tree_kept dev d" using g(2) bc_frame_tree[OF g(3)] by (auto simp: tree_kept_def)
  show thesis
  proof (cases r)
    case None
    then show thesis using that g k by (simp add: prepare_erased_def)
  next
    case (Some x)
    let ?d = "uffs_BlockInfoPut (Some x) (uffs_BlockInfoInitErased x d)"
    have "bc_inv ?d cs'" by (intro Put_inv InitErased_inv g) (use Some g(4) in auto)
    then have "tree_kept d ?d" by (auto simp: tree_kept_def uffs_BlockInfoPut_def uffs_BlockInfoInitErased_def)
    then show thesis using that g Some tree_kept_trans[OF k] by (simp add: prepare_erased_def)
  qed
qed

text \<open>The bad nodes \<open>ys\<close>.\<close>

definition bad_list :: "'f device \<Rightarrow> nat list \<Rightarrow> bool" where
  "bad_list dev ys \<longleftrightarrow> chain (ln dev) (bad (tree dev)) ys \<and> bad_count (tree dev) = int (length ys) \<and>
     (\<forall>a \<in> set ys. is_list (nu dev a))"

text \<open>Nodes that keep their place in the lists.\<close>

definition links_kept :: "nat set \<Rightarrow> 'f device \<Rightarrow> 'f device \<Rightarrow> bool" where
  "links_kept A dev dev' \<longleftrightarrow> (\<forall>y \<in> A. is_list (nu dev y) \<longrightarrow> is_list (nu dev' y) \<and> ln dev' y = ln dev y)"

lemma erased_list_kept:
  assumes "erased_list dev xs" "links_kept (set xs) dev dev'" "erased (tree dev') = erased (tree dev)"
    "erased_tail (tree dev') = erased_tail (tree dev)" "erased_count (tree dev') = erased_count (tree dev)"
  shows "erased_list dev' xs"
  using assms chain_cong[of xs "ln dev'" "ln dev"] by (auto simp: erased_list_def links_kept_def)

lemma bad_list_kept:
  assumes "bad_list dev ys" "links_kept (set ys) dev dev'" "bad (tree dev') = bad (tree dev)"
    "bad_count (tree dev') = bad_count (tree dev)"
  shows "bad_list dev' ys"
  using assms chain_cong[of ys "ln dev'" "ln dev"] by (auto simp: bad_list_def links_kept_def)

lemma links_kept_tree: "tree_nodes dev' = tree_nodes dev \<Longrightarrow> links_kept A dev dev'"
  by (simp add: links_kept_def nu_def ln_def)

lemma tree_kept_lists:
  assumes "tree_kept dev dev'"
  shows "erased_list dev xs \<Longrightarrow> erased_list dev' xs" "bad_list dev ys \<Longrightarrow> bad_list dev' ys" "nu dev' = nu dev"
  using assms links_kept_tree[of dev' dev] by (auto simp: tree_kept_def nu_def fun_eq_iff intro: erased_list_kept bad_list_kept)

lemma set_l_block_simps [simp]:
  "l_next (set_l_block b u) = l_next (as_list u)" "l_block (set_l_block b u) = b" "is_list (set_l_block b u)"
  by (simp_all add: set_l_block_def Let_def)

lemma InsertToBadBlockList_ok:
  assumes b: "bad_list dev ys" and n: "n \<notin> set ys"
  defines "dev' \<equiv> uffs_TreeInsertToBadBlockList n dev"
  shows "bad_list dev' (n # ys)"
    "erased_list dev xs \<Longrightarrow> n \<notin> set xs \<Longrightarrow> erased_list dev' xs"
    "y \<notin> insert n (set ys) \<Longrightarrow> tree_nodes dev' y = tree_nodes dev y"
    "is_list (nu dev y) \<Longrightarrow> l_block (nu dev' y) = l_block (nu dev y) \<and> is_list (nu dev' y)"
    "tree_pool dev' = tree_pool dev" "ops dev' = ops dev" "can_erase dev' = can_erase dev"
    "dir_entry (tree dev') = dir_entry (tree dev)" "file_entry (tree dev') = file_entry (tree dev)"
    "data_entry (tree dev') = data_entry (tree dev)"
proof -
  have h: "h \<in> set ys \<and> h \<noteq> n" if "bad (tree dev) = Some h" for h
    using b that n chain_hd[of "ln dev" "bad (tree dev)" ys] chain_Nil_iff[of "ln dev" "bad (tree dev)" ys]
    by (metis bad_list_def hd_in_set option.distinct(1) option.inject)
  have hl: "is_list (nu dev h)" if "bad (tree dev) = Some h" for h using h[OF that] b by (auto simp: bad_list_def)
  have ln: "ln dev' y = (if y = n then bad (tree dev) else ln dev y)" for y
    using h hl by (auto simp: dev'_def uffs_TreeInsertToBadBlockList_def Let_def ln_def split: option.split)
  have li: "is_list (nu dev y) \<Longrightarrow> l_block (nu dev' y) = l_block (nu dev y) \<and> is_list (nu dev' y)" for y
    using h hl by (auto simp: dev'_def uffs_TreeInsertToBadBlockList_def Let_def split: option.split)
  have nl: "is_list (nu dev' n)"
    using h hl by (auto simp: dev'_def uffs_TreeInsertToBadBlockList_def Let_def split: option.split)
  have t: "tree dev' = (tree dev)\<lparr>bad := Some n, bad_count := bad_count (tree dev) + 1\<rparr>"
    by (auto simp: dev'_def uffs_TreeInsertToBadBlockList_def Let_def split: option.split)
  show "is_list (nu dev y) \<Longrightarrow> l_block (nu dev' y) = l_block (nu dev y) \<and> is_list (nu dev' y)" by (rule li)
  have "chain (ln dev') (bad (tree dev)) ys = chain (ln dev) (bad (tree dev)) ys"
    by (rule chain_cong) (use n in \<open>auto simp: ln\<close>)
  then show "bad_list dev' (n # ys)" using b li nl by (auto simp: bad_list_def t ln)
  show "erased_list dev xs \<Longrightarrow> n \<notin> set xs \<Longrightarrow> erased_list dev' xs"
    by (rule erased_list_kept) (use li in \<open>auto simp: t links_kept_def ln\<close>)
  show "y \<notin> insert n (set ys) \<Longrightarrow> tree_nodes dev' y = tree_nodes dev y"
    using h by (auto simp: dev'_def uffs_TreeInsertToBadBlockList_def Let_def split: option.split)
  show "tree_pool dev' = tree_pool dev"
    by (auto simp: dev'_def uffs_TreeInsertToBadBlockList_def Let_def split: option.split)
  show "ops dev' = ops dev"
    by (auto simp: dev'_def uffs_TreeInsertToBadBlockList_def Let_def upd_tree_def upd_u_def upd_node_def split: option.split)
  show "can_erase dev' = can_erase dev"
    by (auto simp: dev'_def uffs_TreeInsertToBadBlockList_def Let_def upd_tree_def upd_u_def upd_node_def can_erase_def
        can_read_def bc_inv_def ppb_def split: option.split)
  show "dir_entry (tree dev') = dir_entry (tree dev)" "file_entry (tree dev') = file_entry (tree dev)"
    "data_entry (tree dev') = data_entry (tree dev)" by (simp_all add: t)
qed

text \<open>Updates of the block and the mark of a node.\<close>

lemma upd_list_ok:
  assumes f: "\<And>u. is_list (f u) \<and> l_next (f u) = l_next (as_list u)"
  shows "erased_list dev xs \<Longrightarrow> erased_list (upd_u n f dev) xs" "bad_list dev ys \<Longrightarrow> bad_list (upd_u n f dev) ys"
    "can_erase (upd_u n f dev) = can_erase dev" "ops (upd_u n f dev) = ops dev"
proof -
  have l: "links_kept A dev (upd_u n f dev)" for A using f by (auto simp: links_kept_def ln_def)
  show "erased_list dev xs \<Longrightarrow> erased_list (upd_u n f dev) xs" by (rule erased_list_kept[OF _ l]) simp_all
  show "bad_list dev ys \<Longrightarrow> bad_list (upd_u n f dev) ys" by (rule bad_list_kept[OF _ l]) simp_all
  show "can_erase (upd_u n f dev) = can_erase dev" "ops (upd_u n f dev) = ops dev"
    by (simp_all add: upd_u_def upd_node_def can_erase_def can_read_def bc_inv_def ppb_def)
qed

text \<open>What the nodes \<open>used\<close> became that were taken from the list: either the first one is handed
  out, with the block of the last one, and the others are on the list of bad blocks, or they are
  in no list.\<close>

definition tables_kept :: "'f device \<Rightarrow> 'f device \<Rightarrow> bool" where
  "tables_kept dev dev' \<longleftrightarrow> tree_pool dev' = tree_pool dev \<and> dir_entry (tree dev') = dir_entry (tree dev) \<and>
     file_entry (tree dev') = file_entry (tree dev) \<and> data_entry (tree dev') = data_entry (tree dev)"

definition taken :: "'f device \<Rightarrow> nat list \<Rightarrow> nat list \<Rightarrow> nat option \<Rightarrow> nat list \<Rightarrow> 'f device \<Rightarrow> bool" where
  "taken dev xs ys r used dev' \<longleftrightarrow>
     (\<exists>zs. xs = used @ zs \<and> erased_list dev' zs) \<and>
     (case r of None \<Rightarrow> bad_list dev' ys
      | Some a \<Rightarrow> used \<noteq> [] \<and> a = hd used \<and> is_list (nu dev' a) \<and> bad_list dev' (tl used @ ys) \<and>
          map (\<lambda>a. l_block (nu dev' a)) used = last (map (\<lambda>a. l_block (nu dev a)) used) # butlast (map (\<lambda>a. l_block (nu dev a)) used)) \<and>
     (\<forall>y. y \<notin> set used \<union> set ys \<longrightarrow> tree_nodes dev' y = tree_nodes dev y) \<and>
     (\<forall>y. y \<notin> set used \<longrightarrow> is_list (nu dev y) \<longrightarrow> is_list (nu dev' y) \<and> l_block (nu dev' y) = l_block (nu dev y)) \<and>
     tables_kept dev dev' \<and> can_erase dev'"

text \<open>A node \<open>a\<close> that has just been taken from the list \<open>a # xs\<close>.\<close>

definition holding :: "'f device \<Rightarrow> nat \<Rightarrow> nat list \<Rightarrow> nat list \<Rightarrow> 'f device \<Rightarrow> bool" where
  "holding dev a xs ys d \<longleftrightarrow> erased_list d xs \<and> bad_list d ys \<and> is_list (nu d a) \<and> l_block (nu d a) = l_block (nu dev a) \<and>
     (\<forall>y. y \<noteq> a \<longrightarrow> tree_nodes d y = tree_nodes dev y) \<and> tables_kept dev d \<and> can_erase d \<and> ops d = ops dev"

lemma holding_taken:
  assumes "holding dev a xs ys d"
  shows "taken dev (a # xs) ys None [a] d" "taken dev (a # xs) ys (Some a) [a] d"
  using assms by (auto simp: holding_def taken_def nu_def)

lemma holding_kept: "holding dev a xs ys d \<Longrightarrow> tree_kept d d' \<Longrightarrow> holding dev a xs ys d'"
  using tree_kept_lists[of d d'] tree_kept_can[of d d'] by (auto simp: holding_def tables_kept_def tree_kept_def)

lemma taken_kept: "taken dev xs ys r used d \<Longrightarrow> tree_kept d d' \<Longrightarrow> taken dev xs ys r used d'"
  using tree_kept_lists[of d d'] tree_kept_can[of d d']
  by (auto simp: taken_def tables_kept_def tree_kept_def split: option.splits)

lemma need_check_ok: "is_list (set_l_need_check c u) \<and> l_next (set_l_need_check c u) = l_next (as_list u)"
  by simp

lemmas check_upd = upd_list_ok[OF need_check_ok]

lemma holding_check: "holding dev a xs ys d \<Longrightarrow> holding dev a xs ys (upd_u a (set_l_need_check c) d)"
  by (simp add: holding_def tables_kept_def check_upd)

lemma taken_check:
  assumes "taken dev xs ys (Some a) used d"
  shows "taken dev xs ys (Some a) used (upd_u a (set_l_need_check c) d)"
proof -
  let ?d = "upd_u a (set_l_need_check c) d"
  have a: "is_list (nu d a)" "used \<noteq> []" "a = hd used" using assms by (auto simp only: taken_def option.case)
  have l: "l_block (nu ?d y) = l_block (nu d y)" "is_list (nu d y) \<Longrightarrow> is_list (nu ?d y)" for y using a(1) by simp_all
  have n: "tree_nodes ?d y = tree_nodes d y" if "y \<notin> set used" for y
    using that a(2,3) hd_in_set[of used] by auto
  show ?thesis
    using assms n unfolding taken_def option.case l(1) by (auto simp: tables_kept_def check_upd a(1)[unfolded a(3)])
qed

lemma holding_take:
  assumes "erased_list dev (a # xs)" "bad_list dev ys" "a \<notin> set ys" "can_erase dev"
  obtains d where "uffs_TreeGetErasedNodeNoCheck dev = (Some a, d)" "holding dev a xs ys d"
proof -
  obtain d where d: "uffs_TreeGetErasedNodeNoCheck dev = (Some a, d)" "erased_list d xs" "list_frame {a} dev d" "is_list (nu d a)"
    using GetErasedNodeNoCheck_ok(2)[OF assms(1)] by blast
  obtain N e t c where u: "d = dev\<lparr>tree_nodes := N, tree := (tree dev)\<lparr>erased := e, erased_tail := t, erased_count := c\<rparr>\<rparr>"
    using d(3) by (auto simp: list_frame_def)
  have "links_kept (set ys) dev d" using d(3) assms(3) by (auto simp: list_frame_def links_kept_def ln_def nu_def)
  then have "bad_list d ys" by (rule bad_list_kept[OF assms(2)]) (simp_all add: u)
  moreover have "l_block (nu d a) = l_block (nu dev a)" using d(3) assms(1) by (auto simp: list_frame_def erased_list_def)
  ultimately have "holding dev a xs ys d" using d assms(4)
    by (simp add: holding_def list_frame_def) (simp add: tables_kept_def u can_erase_def can_read_def bc_inv_def ppb_def)
  with d(1) that show thesis by blast
qed

lemma taken_lost:
  assumes "holding dev a xs ys d" "taken d xs ys None used d'" "a \<notin> set ys"
  shows "taken dev (a # xs) ys None (a # used) d'"
  using assms by (auto simp: holding_def taken_def tables_kept_def nu_def)

lemma taken_replaced:
  assumes h: "holding dev a xs ys d" and t: "taken d xs ys (Some n) used d'"
    and dis: "distinct (a # xs @ ys)" and k: "tree_kept (swap_blocks a n d') d''"
  shows "taken dev (a # xs) ys (Some a) (a # used) (uffs_TreeInsertToBadBlockList n d'')"
proof -
  obtain us zs where u: "used = n # us" "xs = used @ zs" using t by (cases used) (auto simp: taken_def)
  have n: "n \<noteq> a" "n \<notin> set us" "n \<notin> set zs" "n \<notin> set ys" "a \<notin> set us" "a \<notin> set zs" "a \<notin> set ys" "set us \<inter> set zs = {}"
    "set us \<inter> set ys = {}" "set zs \<inter> set ys = {}" using dis u by auto
  have e: "erased_list d' zs" "bad_list d' (us @ ys)" using t u by (auto simp: taken_def)
  have la: "is_list (nu d' a)" "l_block (nu d' a) = l_block (nu dev a)"
    using t h n u by (auto simp: taken_def holding_def)
  define s where "s = swap_blocks a n d'"
  have s: "s = upd_u a (set_l_need_check 0) (upd_u a (set_l_block (l_block (nu d' n))) (upd_u n (set_l_block (l_block (nu d' a))) d'))"
    using n by (simp add: s_def swap_blocks_def Let_def)
  have b: "is_list (set_l_block c u) \<and> l_next (set_l_block c u) = l_next (as_list u)" for c u by simp
  have s1: "erased_list s zs" "bad_list s (us @ ys)" "can_erase s" "ops s = ops d'"
    unfolding s using e t by (simp_all add: upd_list_ok[OF b] upd_list_ok[OF need_check_ok] taken_def)
  have s2: "l_block (nu s a) = l_block (nu d' n)" "l_block (nu s n) = l_block (nu d' a)" "is_list (nu s a)" "is_list (nu s n)"
    "\<And>y. y \<noteq> a \<Longrightarrow> y \<noteq> n \<Longrightarrow> tree_nodes s y = tree_nodes d' y" "tables_kept d' s"
    using n by (simp_all add: s tables_kept_def)
  note k = k[folded s_def]
  have d2: "erased_list d'' zs" "bad_list d'' (us @ ys)" "nu d'' = nu s" "tree_nodes d'' = tree_nodes s" "can_erase d''"
    "tables_kept d' d''"
    using tree_kept_lists[OF k] s1 tree_kept_can[OF k] s2(6) k by (simp_all add: tree_kept_def tables_kept_def)
  let ?f = "uffs_TreeInsertToBadBlockList n d''"
  note i = InsertToBadBlockList_ok[OF d2(2), of n]
  have nn: "n \<notin> set (us @ ys)" using n by simp
  have fr: "tree_nodes ?f y = tree_nodes d' y" if "y \<notin> insert a (set used \<union> set ys)" for y
    using that i(3)[OF nn, of y] s2(5)[of y] d2(4) u by simp
  have bl: "l_block (nu ?f y) = l_block (nu s y) \<and> is_list (nu ?f y)" if "is_list (nu s y)" for y
    using i(4)[OF nn, of y] that d2(3) by simp
  have us: "l_block (nu ?f y) = l_block (nu d' y)" if "y \<in> set us" for y
  proof -
    have "y \<noteq> a" "y \<noteq> n" "is_list (nu d' y)" using that n e(2) by (auto simp: bad_list_def)
    then show ?thesis using bl[of y] s2(5)[of y] by (simp add: nu_def)
  qed
  have m: "map (\<lambda>a. l_block (nu d' a)) used = last (map (\<lambda>a. l_block (nu d a)) used) # butlast (map (\<lambda>a. l_block (nu d a)) used)"
    using t by (simp add: taken_def)
  have m': "map (\<lambda>a. l_block (nu d a)) used = map (\<lambda>a. l_block (nu dev a)) used"
    using h n u by (auto simp: holding_def nu_def)
  have "map (\<lambda>a. l_block (nu ?f a)) (a # used) = l_block (nu d' n) # l_block (nu dev a) # map (\<lambda>a. l_block (nu d' a)) us"
    using bl[OF s2(3)] bl[OF s2(4)] s2(1,2) la us u by simp
  also have "\<dots> = last (map (\<lambda>a. l_block (nu dev a)) (a # used)) # butlast (map (\<lambda>a. l_block (nu dev a)) (a # used))"
  proof -
    define B where "B = map (\<lambda>a. l_block (nu dev a)) used"
    have B: "B \<noteq> []" "l_block (nu d' n) # map (\<lambda>a. l_block (nu d' a)) us = last B # butlast B"
      using m[unfolded m', folded B_def] u(1) by (simp_all add: B_def)
    then show ?thesis by (simp add: B_def[symmetric])
  qed
  finally have M: "map (\<lambda>a. l_block (nu ?f a)) (a # used) =
     last (map (\<lambda>a. l_block (nu dev a)) (a # used)) # butlast (map (\<lambda>a. l_block (nu dev a)) (a # used))" .
  have "tables_kept dev ?f" using h t d2(6) i(5,8-10)[OF nn] by (simp add: holding_def taken_def tables_kept_def)
  moreover have "can_erase ?f" using i(7)[OF nn] d2(5) by simp
  moreover have "erased_list ?f zs" by (rule i(2)[OF nn d2(1)]) (rule n)
  moreover have "bad_list ?f (used @ ys)" using i(1)[OF nn] u by simp
  moreover have "is_list (nu ?f a)" using bl[OF s2(3)] by simp
  moreover have "tree_nodes ?f y = tree_nodes dev y" if "y \<notin> set (a # used) \<union> set ys" for y
    using fr[of y] that t h by (simp add: taken_def holding_def)
  moreover have "is_list (nu ?f y) \<and> l_block (nu ?f y) = l_block (nu dev y)"
    if y: "y \<notin> set (a # used)" "is_list (nu dev y)" for y
  proof -
    have "nu d y = nu dev y" using h y by (simp add: holding_def nu_def)
    then have "is_list (nu d' y) \<and> l_block (nu d' y) = l_block (nu dev y)" using t y by (simp add: taken_def)
    moreover have "nu s y = nu d' y" using y u s2(5)[of y] by (simp add: nu_def)
    ultimately show ?thesis using bl[of y] by simp
  qed
  ultimately show ?thesis using u M unfolding taken_def by auto
qed

lemma taken_can: "taken dev xs ys r used d \<Longrightarrow> can_erase d"
  by (simp add: taken_def)

lemma holding_can: "holding dev a xs ys d \<Longrightarrow> can_erase d"
  by (simp add: holding_def)

text \<open>The node is handed out when its cache has been prepared.\<close>

lemma taken_prepared:
  assumes "taken dev xs ys (Some a) used d"
  obtains dev' where "prepare_erased a d = Some dev'" "taken dev xs ys (Some a) used dev'"
  using prepare_erased_kept[OF taken_can[OF assms]] taken_kept[OF assms] by metis

lemma replace_bad_taken:
  assumes h: "holding dev a xs ys d" and t: "taken d xs ys r used d'" and dis: "distinct (a # xs @ ys)"
  obtains d'' where "replace_bad a r d' = Some (if r = None then U_FAIL else U_SUCC, d'')"
    "taken dev (a # xs) ys (if r = None then None else Some a) (a # used) d''"
proof (cases r)
  case None
  then show thesis using that[of d'] taken_lost[of dev a xs ys d used d'] h t dis by (simp add: replace_bad_def)
next
  case (Some n)
  have "can_erase (swap_blocks a n d')"
    using taken_can[OF t] by (simp add: swap_blocks_def Let_def upd_u_def upd_node_def can_erase_def can_read_def bc_inv_def ppb_def)
  then obtain x d2 where m: "uffs_FlashMarkBadBlock (uint (l_block (nu (swap_blocks a n d') n))) (swap_blocks a n d') = Some (x, d2)"
      "tree_kept (swap_blocks a n d') d2" by (rule MarkBadBlock_kept)
  show thesis
    using that[of "uffs_TreeInsertToBadBlockList n d2"] taken_replaced[OF h t[unfolded Some] dis m(2)] Some m(1)
    by (simp add: replace_bad_def uffs_BadBlockProcessNode_def)
qed

text \<open>The answers of the driver: erasing the block of the node \<open>y\<close> can show that the block is bad,
  or fail in another way.\<close>

definition erase_bad :: "'f device \<Rightarrow> nat \<Rightarrow> bool" where
  "erase_bad dev y \<longleftrightarrow> (\<exists>f. UFFS_FLASH_IS_BAD_BLOCK (fst (the (EraseBlock (ops dev)) (ucast (l_block (nu dev y))) f)))"

definition erase_fails :: "'f device \<Rightarrow> nat \<Rightarrow> bool" where
  "erase_fails dev y \<longleftrightarrow> (\<exists>f. let ret = fst (the (EraseBlock (ops dev)) (ucast (l_block (nu dev y))) f)
     in UFFS_FLASH_HAVE_ERR ret \<and> \<not> UFFS_FLASH_IS_BAD_BLOCK ret)"

text \<open>The block of the node \<open>y\<close> can be handed out: it needs no check, it passes the check, or
  erasing it succeeds.\<close>

definition erase_fit :: "'f device \<Rightarrow> nat \<Rightarrow> bool" where
  "erase_fit dev y \<longleftrightarrow> l_need_check (nu dev y) = 0 \<or>
     (\<exists>d d'. ops d = ops dev \<and> uffs_FlashCheckErasedBlock (uint (l_block (nu dev y))) d = Some (U_SUCC, d')) \<or>
     (\<exists>f. let ret = fst (the (EraseBlock (ops dev)) (ucast (l_block (nu dev y))) f)
       in \<not> UFFS_FLASH_HAVE_ERR ret \<and> \<not> UFFS_FLASH_IS_BAD_BLOCK ret)"

text \<open>Why a node was passed over: its block was bad; no node means that all of them were bad or that
  an erasure failed, and a node that is handed out has a block that is fit for it.\<close>

definition passed_over :: "'f device \<Rightarrow> nat list \<Rightarrow> nat option \<Rightarrow> nat list \<Rightarrow> bool" where
  "passed_over dev xs r used \<longleftrightarrow> (\<forall>y \<in> set (butlast used). erase_bad dev y) \<and>
     (xs \<noteq> [] \<longrightarrow> used \<noteq> []) \<and> (r \<noteq> None \<longrightarrow> used \<noteq> [] \<and> erase_fit dev (last used)) \<and>
     (xs \<noteq> [] \<and> r = None \<longrightarrow> used = xs \<and> erase_bad dev (last xs) \<or> erase_fails dev (last used))"

lemma passed_over_Cons:
  assumes h: "holding dev a xs ys d" and p: "passed_over d xs r used" and b: "erase_bad dev a" and a: "a \<notin> set xs"
    and u: "\<exists>zs. xs = used @ zs"
  shows "passed_over dev (a # xs) (if r = None then None else Some a) (a # used)"
proof -
  have "nu d y = nu dev y" if "y \<in> set xs" for y using h a that by (auto simp: holding_def nu_def)
  then have e: "erase_bad d y = erase_bad dev y" "erase_fails d y = erase_fails dev y" "erase_fit d y = erase_fit dev y"
    if "y \<in> set xs" for y
    using h that by (simp_all add: erase_bad_def erase_fails_def erase_fit_def holding_def)
  have s: "set used \<subseteq> set xs" using u by auto
  then have "erase_bad dev y" if "y \<in> set (butlast used)" for y
    using p e(1)[of y] that in_set_butlastD[OF that] by (auto simp: passed_over_def)
  moreover have "used \<noteq> [] \<and> erase_fit dev (last used)" if "r \<noteq> None"
  proof -
    have "used \<noteq> []" "erase_fit d (last used)" using p that by (simp_all add: passed_over_def)
    moreover from this have "last used \<in> set xs" using s by auto
    ultimately show ?thesis using e(3) by simp
  qed
  moreover have "used = xs \<and> erase_bad dev (last xs) \<or> erase_fails dev (last used)" if "xs \<noteq> []" "r = None"
  proof -
    have "used \<noteq> []" using p that by (simp add: passed_over_def)
    then have "last used \<in> set xs" using s by auto
    then show ?thesis using p e(1)[of "last xs"] e(2)[of "last used"] that by (auto simp: passed_over_def)
  qed
  ultimately show ?thesis using p b u by (cases "xs = []") (auto simp: passed_over_def)
qed

lemma NoCheck_need_check:
  "uffs_TreeGetErasedNodeNoCheck dev = (Some a, d) \<Longrightarrow> is_list (nu dev a) \<Longrightarrow> l_need_check (nu d a) = l_need_check (nu dev a)"
  by (auto simp: uffs_TreeGetErasedNodeNoCheck_def Let_def upd_tree_def upd_u_def upd_node_def nu_def l_need_check_def set_l_prev_def
      split: option.splits if_splits)

lemma TreeGetErasedNode_taken:
  assumes "erased_list dev xs" "bad_list dev ys" "set xs \<inter> set ys = {}" "can_erase dev"
  shows "\<exists>r used dev'. uffs_TreeGetErasedNode dev = Some (r, dev') \<and> taken dev xs ys r used dev' \<and>
     passed_over dev xs r used \<and>
     (xs \<noteq> [] \<and> (\<forall>b f. fst (the (EraseBlock (ops dev)) b f) = UFFS_FLASH_NO_ERR) \<longrightarrow> r = Some (hd xs) \<and> used = [hd xs])"
  using assms
proof (induction xs arbitrary: dev)
  case Nil
  have "uffs_TreeGetErasedNode dev = Some (None, dev)"
    using GetErasedNodeNoCheck_ok(1)[OF Nil(1)] by (subst uffs_TreeGetErasedNode.simps) simp
  then show ?case using Nil
    by (intro exI[of _ None] exI[of _ "[]"] exI[of _ dev]) (simp add: taken_def tables_kept_def passed_over_def)
next
  case (Cons a xs)
  have dis: "distinct (a # xs @ ys)"
    using Cons.prems chain_distinct[of "ln dev" _ "a # xs"] chain_distinct[of "ln dev" _ ys]
    unfolding erased_list_def bad_list_def by auto
  have ay: "a \<notin> set ys" using dis by simp
  obtain d where d: "uffs_TreeGetErasedNodeNoCheck dev = (Some a, d)" "holding dev a xs ys d"
    by (rule holding_take[OF Cons.prems(1,2) ay Cons.prems(4)])
  note run = uffs_TreeGetErasedNode.simps[of dev, unfolded d(1), simplified]
  have P: "passed_over dev (a # xs) (Some a) [a]" if "erase_fit dev a" using that by (simp add: passed_over_def)
  show ?case
  proof (cases "l_need_check (nu d a) = 0")
    case True
    then have fit: "erase_fit dev a" using NoCheck_need_check[OF d(1)] Cons.prems(1) by (simp add: erase_fit_def erased_list_def)
    obtain d' where "prepare_erased a d = Some d'" "taken dev (a # xs) ys (Some a) [a] d'"
      by (rule taken_prepared[OF holding_taken(2)[OF d(2)]])
    then show ?thesis using run True P[OF fit] by auto
  next
    case chk: False
    obtain c d1 where c: "uffs_FlashCheckErasedBlock (uint (l_block (nu d a))) d = Some (c, d1)" "tree_kept d d1"
      by (rule CheckErasedBlock_kept[OF holding_can[OF d(2)]])
    note h1 = holding_kept[OF d(2) c(2)]
    show ?thesis
    proof (cases "c = U_SUCC")
      case True
      have "ops d = ops dev" "l_block (nu d a) = l_block (nu dev a)" using d(2) by (simp_all add: holding_def)
      then have fit: "erase_fit dev a" using c(1) True unfolding erase_fit_def by metis
      obtain d' where "prepare_erased a d1 = Some d'" "taken dev (a # xs) ys (Some a) [a] d'"
        by (rule taken_prepared[OF holding_taken(2)[OF h1]])
      then show ?thesis using run chk c True P[OF fit] by auto
    next
      case False
      note h2 = holding_check[OF h1, of 0]
      obtain ret f d3 where e: "uffs_FlashEraseBlock (uint (l_block (nu d1 a))) (upd_u a (set_l_need_check 0) d1) = Some (ret, d3)"
        "tree_kept (upd_u a (set_l_need_check 0) d1) d3"
        "(ret, f) = the (EraseBlock (ops (upd_u a (set_l_need_check 0) d1))) (ucast (l_block (nu d1 a))) (drv (upd_u a (set_l_need_check 0) d1))"
        by (rule EraseBlock_kept[OF holding_can[OF h2]])
      note h3 = holding_kept[OF h2 e(2)]
      have ret: "ret = UFFS_FLASH_NO_ERR" if "\<forall>b f. fst (the (EraseBlock (ops dev)) b f) = UFFS_FLASH_NO_ERR"
        using e(3) that h2 by (metis fst_conv holding_def)
      have "EraseBlock (ops (upd_u a (set_l_need_check 0) d1)) = EraseBlock (ops dev)" "l_block (nu d1 a) = l_block (nu dev a)"
        using h1 h2 by (simp_all add: holding_def)
      then have f: "fst (the (EraseBlock (ops dev)) (ucast (l_block (nu dev a))) (drv (upd_u a (set_l_need_check 0) d1))) = ret"
        using e(3) by (metis fst_conv)
      show ?thesis
      proof (cases "UFFS_FLASH_IS_BAD_BLOCK ret")
        case bad: True
        have g: "erased_list d3 xs" "bad_list d3 ys" "set xs \<inter> set ys = {}" "can_erase d3"
          using h3 Cons.prems(3) by (auto simp: holding_def)
        obtain r used d4 where r: "uffs_TreeGetErasedNode d3 = Some (r, d4)" "taken d3 xs ys r used d4"
            "passed_over d3 xs r used"
          using Cons.IH[OF g] by blast
        have b: "erase_bad dev a" unfolding erase_bad_def using f bad by metis
        have po: "passed_over dev (a # xs) (if r = None then None else Some a) (a # used)"
          by (rule passed_over_Cons[OF h3 r(3) b]) (use dis r(2) in \<open>auto simp: taken_def\<close>)
        obtain d5 where s: "replace_bad a r d4 = Some (if r = None then U_FAIL else U_SUCC, d5)"
          "taken dev (a # xs) ys (if r = None then None else Some a) (a # used) d5"
          by (rule replace_bad_taken[OF h3 r(2) dis])
        have nr: "\<not> (\<forall>b f. fst (the (EraseBlock (ops dev)) b f) = UFFS_FLASH_NO_ERR)"
          using ret bad unfolding UFFS_FLASH_IS_BAD_BLOCK_def flash_codes by force
        show ?thesis
        proof (cases r)
          case None
          have "uffs_TreeGetErasedNode dev = Some (None, d5)" using run chk c(1) False e(1) bad r(1) s(1) None by simp
          then show ?thesis using s(2) None nr po
            by (intro exI[of _ None] exI[of _ "a # used"] exI[of _ d5]) simp
        next
          case (Some n)
          have "taken dev (a # xs) ys (Some a) (a # used) (upd_u a (set_l_need_check 0) d5)"
            using s(2) Some by (intro taken_check) simp
          then obtain d' where p: "prepare_erased a (upd_u a (set_l_need_check 0) d5) = Some d'"
            "taken dev (a # xs) ys (Some a) (a # used) d'" by (rule taken_prepared)
          have "uffs_TreeGetErasedNode dev = Some (Some a, d')"
            using run chk c(1) False e(1) bad r(1) s(1) Some p(1) by simp
          then show ?thesis using p(2) nr po Some
            by (intro exI[of _ "Some a"] exI[of _ "a # used"] exI[of _ d']) (simp del: not_all)
        qed
      next
        case nb: False
        show ?thesis
        proof (cases "UFFS_FLASH_HAVE_ERR ret")
          case True
          then have nr: "\<not> (\<forall>b f. fst (the (EraseBlock (ops dev)) b f) = UFFS_FLASH_NO_ERR)"
            using ret unfolding UFFS_FLASH_HAVE_ERR_def flash_codes by blast
          have "uffs_TreeGetErasedNode dev = Some (None, d3)" using run chk c(1) False e(1) nb True by simp
          moreover have "erase_fails dev a" unfolding erase_fails_def Let_def using f nb True by metis
          then have "passed_over dev (a # xs) None [a]" by (simp add: passed_over_def)
          ultimately show ?thesis using holding_taken(1)[OF h3] nr
            by (intro exI[of _ None] exI[of _ "[a]"] exI[of _ d3]) simp
        next
          case ok: False
          have fit: "erase_fit dev a" unfolding erase_fit_def Let_def using f nb ok by metis
          obtain d' where p: "prepare_erased a (upd_u a (set_l_need_check 0) d3) = Some d'"
            "taken dev (a # xs) ys (Some a) [a] d'"
            by (rule taken_prepared[OF holding_taken(2)[OF holding_check[OF h3]]])
          have "uffs_TreeGetErasedNode dev = Some (Some a, d')"
            using run chk c(1) False e(1) nb ok p(1) by simp
          then show ?thesis using p(2) P[OF fit] by (intro exI[of _ "Some a"] exI[of _ "[a]"] exI[of _ d']) simp
        qed
      qed
    qed
  qed
qed

lemma passed_over_given:
  assumes "taken dev xs ys r used dev'" "passed_over dev xs r used" "\<forall>y \<in> set xs. \<not> erase_fails dev y"
    "\<exists>y \<in> set xs. \<not> erase_bad dev y"
  shows "r = Some (hd xs)"
proof (cases r)
  case None
  have x: "xs \<noteq> []" "used \<noteq> []" using assms(2,4) by (auto simp: passed_over_def)
  moreover have "last used \<in> set xs" using x assms(1) by (auto simp: taken_def)
  ultimately have u: "used = xs" "erase_bad dev (last xs)" using None assms(2,3) by (auto simp: passed_over_def)
  have "erase_bad dev y" if "y \<in> set xs" for y
  proof -
    have "set xs = set (butlast xs) \<union> {last xs}" using x by (metis append_butlast_last_id set_append list.set(1,2))
    then show ?thesis using that u assms(2) by (auto simp: passed_over_def)
  qed
  then show ?thesis using assms(4) by blast
qed (use assms(1) in \<open>auto simp: taken_def hd_append\<close>)


text \<open>Two erased blocks, 5 and 9, and a driver that finds block 5 bad.\<close>

definition two_erased :: "femu device" where
  "two_erased = sample_fs\<lparr>ops := (ops sample_fs)\<lparr>EraseBlock := Some (\<lambda>b f. (if b = 5 then UFFS_FLASH_BAD_BLK else 0, f))\<rparr>,
     tree := (tree sample_fs)\<lparr>erased := Some 100, erased_tail := Some 200, erased_count := 2, bad := None, bad_count := 0\<rparr>,
     tree_nodes := (\<lambda>a. \<lparr>n_u = if a = 100 then UList (Some 200) None 5 1 else UList None (Some 100) 9 1, hash_next = 0, hash_prev = 0\<rparr>)\<rparr>"


end
