(* ===== verification/Buf_Flush.thy ===== *)
theory Buf_Flush
  imports Block_Erase
begin

text \<open>
  Writing the dirty groups of \<open>uffs_buf.c\<close> to the flash. The dirty pages of an object are either
  appended to the free pages of its block, or the block is rewritten: the newest copies of its
  pages and the dirty pages are copied to an erased block, which then takes the place of the old
  one in the tree. A failure of the new block restarts the copy on another block.

  \<open>None\<close> is the dereference of a null pointer, an access outside an array, or an endless loop:
  the retry of the copy is not bounded in the source.

  The lemmas show that getting a page that is in the buffers and giving it back changes nothing,
  that a write that needs no flush leaves the buffer and the dirty group linked as
  they should be, and that reading the buffer gives the bytes back.
\<close>

section \<open>The code\<close>

definition TAG_VALID :: "1 word" where "TAG_VALID = 0"
definition TAG_DIRTY :: "1 word" where "TAG_DIRTY = 0"

definition set_tag :: "nat \<Rightarrow> nat \<Rightarrow> (Tags \<Rightarrow> Tags) \<Rightarrow> 'f device \<Rightarrow> 'f device" where
  "set_tag bc i f = set_spare bc i (\<lambda>s. s\<lparr>sp_tag := f (sp_tag s)\<rparr>)"

definition set_store :: "(TagStore \<Rightarrow> TagStore) \<Rightarrow> Tags \<Rightarrow> Tags" where
  "set_store f tag = tag\<lparr>tag_s := f (tag_s tag)\<rparr>"

definition set_data_len :: "u16 \<Rightarrow> Tags \<Rightarrow> Tags" where
  "set_data_len n = set_store (\<lambda>s. s\<lparr>ts_data_len := ucast n\<rparr>)"

text \<open>The tag belongs to the cached block: writing a page updates it.\<close>

definition write_cached :: "nat \<Rightarrow> nat \<Rightarrow> u16 \<Rightarrow> nat \<Rightarrow> 'f device \<Rightarrow> (int \<times> 'f device) option" where
  "write_cached bc i block buf dev = do {
     (ret, tag, dev) \<leftarrow> uffs_FlashWritePageCombine (uint block) (int i) buf (GET_TAG dev bc i) dev;
     Some (ret, set_tag bc i (\<lambda>_. tag) dev)
   }"

subsection \<open>Rewriting a block\<close>

definition recover_tag :: "u8 \<Rightarrow> int \<Rightarrow> u16 \<Rightarrow> u16 \<Rightarrow> nat \<Rightarrow> Tags \<Rightarrow> Tags" where
  "recover_tag ty ts parent serial i tag =
     (set_store (\<lambda>s. s\<lparr>ts_dirty := TAG_DIRTY, ts_valid := TAG_VALID, ts_block_ts := word_of_int ts, ts_parent := ucast parent,
        ts_serial := ucast serial, ts_type := ucast ty, ts_page_id := word_of_nat i\<rparr>) tag)\<lparr>seal_byte := 0\<rparr>"

text \<open>One page of the new block. The first component of the result tells that the loop is left,
  and whether the copy is complete.\<close>

definition recover_dirty :: "nat \<Rightarrow> nat \<Rightarrow> u16 \<Rightarrow> nat \<Rightarrow> u16 \<Rightarrow> 'f device \<Rightarrow> (bool option \<times> int \<times> u16 \<times> 'f device) option" where
  "recover_dirty buf newBc newBlock i csum dev = do {
     csum \<leftarrow> (if i = 0 then GetDirOrFileNameSum buf dev else Some csum);
     let dev = set_tag newBc i (set_data_len (b_data_len (bufs dev buf))) dev;
     (if b_data_len (bufs dev buf) = 0 \<or> b_ext_mark (bufs dev buf) AND UFFS_BUF_EXT_MARK_TRUNC_TAIL \<noteq> 0
      then if b_data_len (bufs dev buf) > 0
           then do {
             (op, dev) \<leftarrow> write_cached newBc i newBlock buf dev;
             Some (Some True, op, csum, dev)
           }
           else Some (Some True, UFFS_FLASH_NO_ERR, csum, dev)
      else do {
        (op, dev) \<leftarrow> write_cached newBc i newBlock buf dev;
        Some (None, op, csum, dev)
      })
   }"

text \<open>The buffer that holds the old copy of a page: a cached page buffer, or a clone that is read
  from the old block (the flag tells which).\<close>

definition old_page :: "u8 \<Rightarrow> u16 \<Rightarrow> u16 \<Rightarrow> nat \<Rightarrow> nat \<Rightarrow> u16 \<Rightarrow> 'f device \<Rightarrow> ((nat \<times> bool) option \<times> 'f device) option" where
  "old_page ty parent serial bc i page dev = do {
     (buf, dev) \<leftarrow> uffs_BufGet parent serial (word_of_nat i) dev;
     (case buf of Some x \<Rightarrow> Some (Some (x, False), dev)
      | None \<Rightarrow>
          let (clone, dev) = uffs_BufClone None dev
          in case clone of None \<Rightarrow> Some (None, dev)
             | Some v \<Rightarrow> do {
                 let block = uint (bi_block (bc_nodes dev bc));
                 (op, dev) \<leftarrow> uffs_FlashReadPage block (uint page) v False dev;
                 let (pt, pend) = uffs_BadBlockAddByFlashResult block op (pending dev);
                 let dev = dev\<lparr>pending := pend\<rparr>;
                 (if pt = UFFS_PENDING_BLK_NONE \<and> UFFS_FLASH_HAVE_ERR op
                  then Some (None, snd (uffs_BufFreeClone (Some v) (upd_buf v (\<lambda>b. b\<lparr>b_mark := UFFS_BUF_EMPTY\<rparr>) dev)))
                  else
                    let dev = (if pt \<noteq> UFFS_PENDING_BLK_NONE then upd_buf v (\<lambda>b. b\<lparr>b_mark := UFFS_BUF_VALID\<rparr>) dev else dev);
                        tag = GET_TAG dev bc (unat page);
                        dev = upd_buf v (\<lambda>b. b\<lparr>b_type := ty, b_parent := parent, b_serial := serial,
                                b_page_id := word_of_nat (tag_page_id tag), b_data_len := word_of_nat (tag_data_len tag)\<rparr>) dev
                    in Some (Some (v, True), dev))
               })
   }"

definition recover_clean ::
  "u8 \<Rightarrow> u16 \<Rightarrow> u16 \<Rightarrow> nat \<Rightarrow> nat \<Rightarrow> u16 \<Rightarrow> nat \<Rightarrow> int \<Rightarrow> u16 \<Rightarrow> 'f device \<Rightarrow> (bool option \<times> int \<times> u16 \<times> 'f device) option" where
  "recover_clean ty parent serial bc newBc newBlock i op csum dev = do {
     (page, dev) \<leftarrow> uffs_FindPageInBlockWithPageId bc (word_of_nat i) dev;
     (if page = UFFS_INVALID_PAGE then Some (Some True, op, csum, dev)
      else do {
        (page, dev) \<leftarrow> uffs_FindBestPageInBlock bc page dev;
        (if page = UFFS_INVALID_PAGE then Some (Some False, op, csum, dev)
         else do {
           (old, dev) \<leftarrow> old_page ty parent serial bc i page dev;
           (case old of None \<Rightarrow> Some (Some False, op, csum, dev)
            | Some (buf, useCloneBuf) \<Rightarrow> do {
                let dev = (if b_data_len (bufs dev buf) > pg_data_size dev
                           then upd_buf buf (\<lambda>b. b\<lparr>b_data_len := pg_data_size dev\<rparr>) dev else dev);
                let dev = set_tag newBc i (set_data_len (b_data_len (bufs dev buf))) dev;
                csum \<leftarrow> (if i = 0 then GetDirOrFileNameSum buf dev else Some csum);
                (op, dev) \<leftarrow> write_cached newBc i newBlock buf dev;
                Some (None, op, csum, snd (if useCloneBuf then uffs_BufFreeClone (Some buf) dev else uffs_BufPut (Some buf) dev))
              })
         })
      })
   }"

text \<open>The loop over the pages of the new block. The result is the page where it was left, whether
  the copy is complete, the last result of a write and the check sum of the name.\<close>

fun recover_pages ::
  "nat \<Rightarrow> u8 \<Rightarrow> u16 \<Rightarrow> u16 \<Rightarrow> int \<Rightarrow> nat \<Rightarrow> nat \<Rightarrow> u16 \<Rightarrow> nat list \<Rightarrow> int \<Rightarrow> u16 \<Rightarrow> 'f device \<Rightarrow>
     (nat \<times> bool \<times> int \<times> u16 \<times> 'f device) option" where
  "recover_pages slot ty parent serial ts bc newBc newBlock [] op csum dev = Some (ppb dev, True, op, csum, dev)"
| "recover_pages slot ty parent serial ts bc newBc newBlock (i # ks) op csum dev = do {
     let dev = set_tag newBc i (recover_tag ty ts parent serial i) dev;
     d \<leftarrow> FindBufInDirtyList (dg_dirty (dirtyGroup dev ! slot)) (word_of_nat i) dev;
     (brk, op, csum, dev) \<leftarrow>
       (case d of Some buf \<Rightarrow> recover_dirty buf newBc newBlock i csum dev
        | None \<Rightarrow> recover_clean ty parent serial bc newBc newBlock i op csum dev);
     (case brk of Some succ \<Rightarrow> Some (i, succ, op, csum, dev)
      | None \<Rightarrow>
          if UFFS_FLASH_HAVE_ERR op \<or> UFFS_FLASH_IS_BAD_BLOCK op \<or> CONFIG_UFFS_REFRESH_BLOCK \<and> op = UFFS_FLASH_ECC_OK
          then Some (i, False, op, csum, dev)
          else recover_pages slot ty parent serial ts bc newBc newBlock ks op csum dev)
   }"

text \<open>The dirty buffers of the group become clean, in the order of their page ids.\<close>

fun clean_dirty :: "nat \<Rightarrow> nat list \<Rightarrow> 'f device \<Rightarrow> 'f device option" where
  "clean_dirty slot [] dev = Some dev"
| "clean_dirty slot (i # ks) dev = do {
     d \<leftarrow> FindBufInDirtyList (dg_dirty (dirtyGroup dev ! slot)) (word_of_nat i) dev;
     (case d of None \<Rightarrow> clean_dirty slot ks dev
      | Some buf \<Rightarrow>
          let (r, dev) = BreakFromDirty buf dev
          in clean_dirty slot ks
               (if r = U_SUCC
                then MoveNodeToHead buf (upd_buf buf (\<lambda>b. b\<lparr>b_mark := UFFS_BUF_VALID,
                       b_ext_mark := b_ext_mark b AND NOT UFFS_BUF_EXT_MARK_TRUNC_TAIL\<rparr>) dev)
                else dev))
   }"

definition node_takes :: "u8 \<Rightarrow> u16 \<Rightarrow> u16 \<Rightarrow> u16 \<Rightarrow> u16 \<Rightarrow> NodeU \<Rightarrow> NodeU" where
  "node_takes ty parent serial block csum u =
     (if ty = UFFS_TYPE_DIR then UDir block csum parent serial
      else if ty = UFFS_TYPE_FILE then UFile block csum parent serial (f_len u)
      else if ty = UFFS_TYPE_DATA then UData block parent (da_len u) serial
      else u)"

text \<open>The end of a copy without flash errors on the new block.\<close>

definition recover_end ::
  "nat \<Rightarrow> nat \<Rightarrow> nat \<Rightarrow> bool \<Rightarrow> u8 \<Rightarrow> u16 \<Rightarrow> u16 \<Rightarrow> nat \<Rightarrow> u16 \<Rightarrow> bool \<Rightarrow> u16 \<Rightarrow> 'f device \<Rightarrow> 'f device option" where
  "recover_end slot node bc badBlock ty parent serial newNode newBlock succ csum dev =
     (if succ
      then do {
        dev \<leftarrow> clean_dirty slot [0..<ppb dev] dev;
        let dev = upd_u node (node_takes ty parent serial newBlock csum) dev;
        let dev = upd_u newNode (set_l_block (bi_block (bc_nodes dev bc))) dev;
        (if badBlock then uffs_BadBlockProcessNode (Some newNode) dev
         else do {
           (used, dev) \<leftarrow> uffs_IsThisBlockUsed bc dev;
           dev \<leftarrow> (if used then map_option snd (uffs_TreeEraseNode newNode dev) else Some dev);
           Some (uffs_TreeInsertToErasedListTail newNode dev)
         })
      }
      else do {
        let dev = (if badBlock then pending_remove (uint (bi_block (bc_nodes dev bc))) dev else dev);
        let dev = uffs_BlockInfoExpire bc UFFS_ALL_PAGES dev;
        let dev = upd_u newNode (set_l_block newBlock) dev;
        (r, dev) \<leftarrow> uffs_TreeEraseNode newNode dev;
        Some (uffs_TreeInsertToErasedListTail newNode dev)
      })"

text \<open>The block recovery from the label \<open>retry\<close> on.\<close>

partial_function (option) block_recover ::
  "nat \<Rightarrow> nat \<Rightarrow> nat \<Rightarrow> bool \<Rightarrow> u8 \<Rightarrow> u16 \<Rightarrow> u16 \<Rightarrow> u16 \<Rightarrow> 'f device \<Rightarrow> (URET \<times> 'f device) option" where
  "block_recover slot node bc badBlock ty parent serial csum dev = do {
     dev \<leftarrow> load bc UFFS_ALL_PAGES dev;
     (newNode, dev) \<leftarrow> uffs_TreeGetErasedNode dev;
     (case newNode of None \<Rightarrow> Some (U_FAIL, dev)
      | Some n \<Rightarrow> do {
          let newBlock = l_block (nu dev n);
          (newBc, dev) \<leftarrow> uffs_BlockInfoGet (uint newBlock) dev;
          (case newBc of None \<Rightarrow> Some (U_FAIL, uffs_InsertToErasedListHead n dev)
           | Some m \<Rightarrow> do {
               dev \<leftarrow> load m UFFS_ALL_PAGES dev;
               (ts, dev) \<leftarrow> uffs_GetBlockTimeStamp bc dev;
               (i, succ, op, csum, dev) \<leftarrow>
                 recover_pages slot ty parent serial (uffs_GetNextBlockTimeStamp ts) bc m newBlock [0..<ppb dev]
                   UFFS_FLASH_NO_ERR csum dev;
               let dev = (if i = ppb dev then dev else uffs_BlockInfoExpire m (int i) dev);
               (if UFFS_FLASH_IS_BAD_BLOCK op then do {
                  dev \<leftarrow> uffs_BadBlockProcessNode (Some n) dev;
                  block_recover slot node bc badBlock ty parent serial csum (uffs_BlockInfoPut (Some m) dev)
                }
                else if UFFS_FLASH_HAVE_ERR op
                then block_recover slot node bc badBlock ty parent serial csum (uffs_BlockInfoPut (Some m) dev)
                else if CONFIG_UFFS_REFRESH_BLOCK \<and> op = UFFS_FLASH_ECC_OK then do {
                  (r, dev) \<leftarrow> uffs_TreeEraseNode n dev;
                  let dev = uffs_TreeInsertToErasedListTail n dev;
                  block_recover slot node bc badBlock ty parent serial csum (uffs_BlockInfoPut (Some m) dev)
                }
                else do {
                  dev \<leftarrow> recover_end slot node bc badBlock ty parent serial n newBlock succ csum dev;
                  Some (if succ then U_SUCC else U_FAIL, uffs_BlockInfoPut (Some m) dev)
                })
             })
        })
   }"

definition uffs_BufFlush_Exist_With_BlockRecover ::
  "nat \<Rightarrow> nat \<Rightarrow> nat \<Rightarrow> bool \<Rightarrow> 'f device \<Rightarrow> (URET \<times> 'f device) option" where
  "uffs_BufFlush_Exist_With_BlockRecover slot node bc badBlock dev =
     (case dg_dirty (dirtyGroup dev ! slot) of None \<Rightarrow> None
      | Some d \<Rightarrow>
          let b = bufs dev d
          in block_recover slot node bc badBlock (b_type b) (b_parent b) (b_serial b) 0xFFFF dev)"

definition BufFlush_NewBlock :: "nat \<Rightarrow> 'f device \<Rightarrow> (URET \<times> 'f device) option" where
  "BufFlush_NewBlock slot dev = do {
     (node, dev) \<leftarrow> uffs_TreeGetErasedNode dev;
     (case node of None \<Rightarrow> Some (U_FAIL, dev)
      | Some n \<Rightarrow> do {
          (bc, dev) \<leftarrow> uffs_BlockInfoGet (uint (l_block (nu dev n))) dev;
          (case bc of None \<Rightarrow> Some (U_FAIL, uffs_InsertToErasedListHead n dev)
           | Some m \<Rightarrow> do {
               ty \<leftarrow> map_option (\<lambda>d. b_type (bufs dev d)) (dg_dirty (dirtyGroup dev ! slot));
               (ret, dev) \<leftarrow> uffs_BufFlush_Exist_With_BlockRecover slot n m False dev;
               dev \<leftarrow> (if ret = U_SUCC then uffs_InsertNodeToTree ty n dev
                      else do {
                        let dev = upd_u n (set_l_block (bi_block (bc_nodes dev m))) dev;
                        (r, dev) \<leftarrow> uffs_TreeEraseNode n dev;
                        Some (uffs_TreeInsertToErasedListTail n dev)
                      });
               Some (ret, uffs_BlockInfoPut (Some m) dev)
             })
        })
   }"

subsection \<open>Appending to a block\<close>

definition append_tag :: "int \<Rightarrow> Buf \<Rightarrow> Tags \<Rightarrow> Tags" where
  "append_tag ts b tag =
     (set_store (\<lambda>s. s\<lparr>ts_block_ts := word_of_int ts, ts_data_len := ucast (b_data_len b), ts_type := ucast (b_type b),
        ts_parent := ucast (b_parent b), ts_serial := ucast (b_serial b), ts_page_id := ucast (b_page_id b)\<rparr>) tag)\<lparr>seal_byte := 0\<rparr>"

text \<open>The two nested loops over the pages run along one list: the inner one skips the pages that
  are not erased. \<open>None\<close> as first component is the end of the loop, otherwise the function
  returns.\<close>

fun append_pages :: "nat \<Rightarrow> nat \<Rightarrow> nat \<Rightarrow> nat list \<Rightarrow> 'f device \<Rightarrow> (URET option \<times> 'f device) option" where
  "append_pages slot node bc [] dev = Some (None, dev)"
| "append_pages slot node bc (page # ks) dev =
     (if dg_count (dirtyGroup dev ! slot) \<le> 0 then Some (None, dev)
      else do {
        (e, dev) \<leftarrow> uffs_IsPageErased bc page dev;
        (if \<not> e then append_pages slot node bc ks dev
         else do {
           buf \<leftarrow> FindMinimunPageIdFromDirtyList (dg_dirty (dirtyGroup dev ! slot)) dev;
           (case buf of None \<Rightarrow> Some (Some U_FAIL, dev)
            | Some x \<Rightarrow> do {
                let dev = set_tag bc page (set_store (\<lambda>s. s\<lparr>ts_dirty := TAG_DIRTY, ts_valid := TAG_VALID\<rparr>)) dev;
                (ts, dev) \<leftarrow> uffs_GetBlockTimeStamp bc dev;
                let dev = set_tag bc page (append_tag ts (bufs dev x)) dev;
                (op, dev) \<leftarrow> write_cached bc page (bi_block (bc_nodes dev bc)) x dev;
                (if op = UFFS_FLASH_IO_ERR then Some (Some U_FAIL, dev)
                 else if op = UFFS_FLASH_BAD_BLK
                 then map_option (\<lambda>(r, dev). (Some r, dev)) (uffs_BufFlush_Exist_With_BlockRecover slot node bc True dev)
                 else
                   let (r, dev) = BreakFromDirty x dev
                   in append_pages slot node bc ks
                        (if r = U_SUCC then MoveNodeToHead x (upd_buf x (\<lambda>b. b\<lparr>b_mark := UFFS_BUF_VALID\<rparr>) dev) else dev))
              })
         })
      })"

definition uffs_BufFlush_Exist_With_Enough_FreePage :: "nat \<Rightarrow> nat \<Rightarrow> nat \<Rightarrow> 'f device \<Rightarrow> (URET \<times> 'f device) option" where
  "uffs_BufFlush_Exist_With_Enough_FreePage slot node bc dev = do {
     (r, dev) \<leftarrow> append_pages slot node bc [1..<ppb dev] dev;
     (case r of Some ret \<Rightarrow> Some (ret, dev)
      | None \<Rightarrow> let g = dirtyGroup dev ! slot
                in Some (if dg_dirty g \<noteq> None \<or> dg_count g \<noteq> 0 then U_FAIL else U_SUCC, dev))
   }"

subsection \<open>Flushing groups\<close>

definition find_flush_node :: "Buf \<Rightarrow> 'f device \<Rightarrow> nat option option" where
  "find_flush_node b dev =
     (if b_type b = UFFS_TYPE_DIR then uffs_TreeFindDirNode (b_serial b) dev
      else if b_type b = UFFS_TYPE_FILE then uffs_TreeFindFileNode (b_serial b) dev
      else uffs_TreeFindDataNode (b_parent b) (b_serial b) dev)"

definition BufFlush :: "bool \<Rightarrow> nat \<Rightarrow> 'f device \<Rightarrow> (URET \<times> 'f device) option" where
  "BufFlush force_block_recover slot dev =
     (if dg_count (dirtyGroup dev ! slot) = 0 then Some (U_SUCC, dev)
      else do {
        c \<leftarrow> CheckDirtyList (dg_dirty (dirtyGroup dev ! slot)) dev;
        (if c = U_FAIL then Some (U_FAIL, dev)
         else do {
           d \<leftarrow> dg_dirty (dirtyGroup dev ! slot);
           let b = bufs dev d;
           (if b_type b \<noteq> UFFS_TYPE_DIR \<and> b_type b \<noteq> UFFS_TYPE_FILE \<and> b_type b \<noteq> UFFS_TYPE_DATA then Some (U_FAIL, dev)
            else do {
              node \<leftarrow> find_flush_node b dev;
              (case node of None \<Rightarrow> BufFlush_NewBlock slot dev
               | Some n \<Rightarrow> do {
                   (bc, dev) \<leftarrow> uffs_BlockInfoGet (uint (GetBlockFromNode (b_type b) (nu dev n))) dev;
                   (case bc of None \<Rightarrow> Some (U_FAIL, dev)
                    | Some m \<Rightarrow> do {
                        (ret, dev) \<leftarrow> uffs_BlockInfoLoad m UFFS_ALL_PAGES dev;
                        (ret, dev) \<leftarrow>
                          (if ret = U_SUCC
                           then do {
                             (n', dev) \<leftarrow> uffs_GetFreePagesCount m dev;
                             (if n' mod 65536 \<ge> dg_count (dirtyGroup dev ! slot) \<and> \<not> force_block_recover
                              then uffs_BufFlush_Exist_With_Enough_FreePage slot n m dev
                              else uffs_BufFlush_Exist_With_BlockRecover slot n m False dev)
                           }
                           else Some (ret, dev));
                        Some (ret, uffs_BlockInfoPut (Some m) dev)
                      })
                 })
            })
         })
      })"

definition uffs_BufFlushMostDirtyGroup :: "'f device \<Rightarrow> (URET \<times> 'f device) option" where
  "uffs_BufFlushMostDirtyGroup dev =
     (let slot = FindMostDirtyGroup dev in if slot \<ge> 0 then BufFlush False (nat slot) dev else Some (U_SUCC, dev))"

definition uffs_BufFlush :: "'f device \<Rightarrow> (URET \<times> 'f device) option" where
  "uffs_BufFlush dev = (if uffs_BufFindFreeGroupSlot dev \<ge> 0 then Some (U_SUCC, dev) else uffs_BufFlushMostDirtyGroup dev)"

text \<open>When every group is locked, the slot is \<open>- 1\<close> and the access is outside the array.\<close>

definition uffs_BufFlushEx :: "bool \<Rightarrow> 'f device \<Rightarrow> (URET \<times> 'f device) option" where
  "uffs_BufFlushEx force_block_recover dev =
     (if uffs_BufFindFreeGroupSlot dev \<ge> 0 then Some (U_SUCC, dev)
      else let slot = FindMostDirtyGroup dev
           in if slot < 0 then None else BufFlush force_block_recover (nat slot) dev)"

definition uffs_BufFlushGroupEx :: "u16 \<Rightarrow> u16 \<Rightarrow> bool \<Rightarrow> 'f device \<Rightarrow> (URET \<times> 'f device) option" where
  "uffs_BufFlushGroupEx parent serial force_block_recover dev =
     (let slot = uffs_BufFindGroupSlot parent serial dev
      in if slot \<ge> 0 then BufFlush force_block_recover (nat slot) dev else Some (U_SUCC, dev))"

definition uffs_BufFlushGroup :: "u16 \<Rightarrow> u16 \<Rightarrow> 'f device \<Rightarrow> (URET \<times> 'f device) option" where
  "uffs_BufFlushGroup parent serial dev =
     (let slot = uffs_BufFindGroupSlot parent serial dev
      in if slot \<ge> 0 then BufFlush False (nat slot) dev else Some (U_SUCC, dev))"

fun flush_parent :: "u16 \<Rightarrow> nat list \<Rightarrow> 'f device \<Rightarrow> (URET \<times> 'f device) option" where
  "flush_parent parent [] dev = Some (U_SUCC, dev)"
| "flush_parent parent (slot # ks) dev =
     (case dg_dirty (dirtyGroup dev ! slot) of None \<Rightarrow> flush_parent parent ks dev
      | Some buf \<Rightarrow>
          if b_parent (bufs dev buf) = parent
          then do {
            (ret, dev) \<leftarrow> BufFlush False slot dev;
            (if ret = U_SUCC then flush_parent parent ks dev else Some (ret, dev))
          }
          else flush_parent parent ks dev)"

definition uffs_BufFlushGroupMatchParent :: "u16 \<Rightarrow> 'f device \<Rightarrow> (URET \<times> 'f device) option" where
  "uffs_BufFlushGroupMatchParent parent dev = flush_parent parent [0..<nat (dirty_groups dev)] dev"

fun flush_slots :: "nat list \<Rightarrow> 'f device \<Rightarrow> (URET \<times> 'f device) option" where
  "flush_slots [] dev = Some (U_SUCC, dev)"
| "flush_slots (slot # ks) dev = do {
     (ret, dev) \<leftarrow> BufFlush False slot dev;
     (if ret = U_SUCC then flush_slots ks dev else Some (U_FAIL, dev))
   }"

definition uffs_BufFlushAll :: "'f device \<Rightarrow> (URET \<times> 'f device) option" where
  "uffs_BufFlushAll dev = flush_slots [0..<nat (dirty_groups dev)] dev"

definition uffs_BufReleaseAll :: "'f device \<Rightarrow> (URET \<times> 'f device) option" where
  "uffs_BufReleaseAll dev = do {
     free \<leftarrow> uffs_BufIsAllFree dev;
     (if \<not> free then Some (U_FAIL, dev)
      else do {
        (ret, dev) \<leftarrow> uffs_BufFlushAll dev;
        (if ret \<noteq> U_SUCC then Some (U_FAIL, dev)
         else let dev = (if mem_free dev then dev\<lparr>pagebuf_pool_size := 0\<rparr> else dev)
              in Some (U_SUCC, dev\<lparr>buf_pool := False, buf_head := None, buf_tail := None\<rparr>))
      })
   }"

subsection \<open>Getting and writing buffers\<close>

text \<open>A free buffer, after a flush if there is none; the flag tells that there was a flush.\<close>

definition free_buf :: "'f device \<Rightarrow> (nat option \<times> bool \<times> 'f device) option" where
  "free_buf dev = do {
     b \<leftarrow> FindFreeBuf dev;
     (case b of Some x \<Rightarrow> Some (Some x, False, dev)
      | None \<Rightarrow> do {
          (r, dev) \<leftarrow> uffs_BufFlushMostDirtyGroup dev;
          b \<leftarrow> FindFreeBuf dev;
          Some (b, True, dev)
        })
   }"

definition uffs_BufNew :: "u8 \<Rightarrow> u16 \<Rightarrow> u16 \<Rightarrow> u16 \<Rightarrow> 'f device \<Rightarrow> (nat option \<times> 'f device) option" where
  "uffs_BufNew ty parent serial page_id dev = do {
     (buf, dev) \<leftarrow> uffs_BufGet parent serial page_id dev;
     (case buf of
        Some x \<Rightarrow> Some (Some x, MoveNodeToHead x
          (if b_ref_count (bufs dev x) > 1 then dev else upd_buf x (\<lambda>b. b\<lparr>b_data_len := 0\<rparr>) dev))
      | None \<Rightarrow> do {
          (buf, _, dev) \<leftarrow> free_buf dev;
          (case buf of None \<Rightarrow> Some (None, dev)
           | Some x \<Rightarrow>
               let dev = upd_buf x (\<lambda>b. b\<lparr>b_mark := UFFS_BUF_EMPTY, b_type := ty, b_parent := parent, b_serial := serial,
                     b_page_id := page_id, b_data_len := 0, b_ref_count := b_ref_count b + 1,
                     b_page := memcpy (b_page b) (unat (header_size dev)) (replicate (unat (pg_data_size dev)) 0xFF)\<rparr>) dev
               in Some (Some x, MoveNodeToHead x dev))
        })
   }"

definition UO_NOECC :: u32 where "UO_NOECC = 0x0800"

definition obj_of_node :: "u8 \<Rightarrow> NodeU \<Rightarrow> (u16 \<times> u16 \<times> u16) option" where
  "obj_of_node ty u =
     (if ty = UFFS_TYPE_DIR then Some (d_parent u, d_serial u, d_block u)
      else if ty = UFFS_TYPE_FILE then Some (f_parent u, f_serial u, f_block u)
      else if ty = UFFS_TYPE_DATA then Some (da_parent u, da_serial u, da_block u)
      else None)"

text \<open>Reading a page of a block into the free buffer \<open>x\<close>; the tag is read through the reference
  to the block info that was given back before.\<close>

definition load_buf :: "u8 \<Rightarrow> u16 \<Rightarrow> u16 \<Rightarrow> u16 \<Rightarrow> u16 \<Rightarrow> bool \<Rightarrow> nat \<Rightarrow> nat \<Rightarrow> u16 \<Rightarrow> 'f device \<Rightarrow> (nat option \<times> 'f device) option" where
  "load_buf ty parent serial page_id block skip x bc page dev = do {
     let dev = upd_buf x (\<lambda>b. b\<lparr>b_mark := UFFS_BUF_EMPTY, b_type := ty, b_parent := parent, b_serial := serial, b_page_id := page_id\<rparr>) dev;
     (ret, dev) \<leftarrow> uffs_FlashReadPage (uint block) (uint page) x skip dev;
     let (pt, pend) = uffs_BadBlockAddByFlashResult (uint block) ret (pending dev);
     let dev = dev\<lparr>pending := pend\<rparr>;
     (if pt = uint UFFS_PENDING_BLK_MARKBAD \<or> pt = UFFS_PENDING_BLK_NONE \<and> UFFS_FLASH_HAVE_ERR ret then Some (None, dev)
      else let n = word_of_nat (tag_data_len (GET_TAG dev bc (unat page)));
               dev = upd_buf x (\<lambda>b. b\<lparr>b_data_len := n, b_mark := UFFS_BUF_VALID, b_ref_count := b_ref_count b + 1\<rparr>) dev
           in Some (Some x, MoveNodeToHead x dev))
   }"

definition uffs_BufGetEx :: "u8 \<Rightarrow> nat \<Rightarrow> u16 \<Rightarrow> u32 \<Rightarrow> 'f device \<Rightarrow> (nat option \<times> 'f device) option" where
  "uffs_BufGetEx ty node page_id oflag dev =
     (case obj_of_node ty (nu dev node) of None \<Rightarrow> Some (None, dev)
      | Some (parent, serial, block) \<Rightarrow> do {
          f \<leftarrow> uffs_BufFind parent serial page_id dev;
          (case f of
             Some x \<Rightarrow> Some (Some x, uffs_BufIncRef x dev)
           | None \<Rightarrow> do {
               (buf, flushed, dev) \<leftarrow> free_buf dev;
               (case buf of None \<Rightarrow> Some (None, dev)
                | Some x \<Rightarrow> do {
                    let block = (if flushed then GetBlockFromNode ty (nu dev node) else block);
                    (bc, dev) \<leftarrow> uffs_BlockInfoGet (uint block) dev;
                    (case bc of None \<Rightarrow> Some (None, dev)
                     | Some m \<Rightarrow> do {
                         (page, dev) \<leftarrow> uffs_FindPageInBlockWithPageId m page_id dev;
                         (if page = UFFS_INVALID_PAGE then Some (None, uffs_BlockInfoPut (Some m) dev)
                          else do {
                            (page, dev) \<leftarrow> uffs_FindBestPageInBlock m page dev;
                            (if page = UFFS_INVALID_PAGE then Some (None, dev)
                             else load_buf ty parent serial page_id block (oflag AND UO_NOECC \<noteq> 0) x m page (uffs_BlockInfoPut (Some m) dev))
                          })
                       })
                  })
             })
        })"

text \<open>The sum \<open>ofs + len\<close> is computed in 32 bits; \<open>None\<close> is a copy that leaves the page memory.\<close>

definition put_data :: "nat \<Rightarrow> bytes option \<Rightarrow> u32 \<Rightarrow> u32 \<Rightarrow> 'f device \<Rightarrow> 'f device option" where
  "put_data buf data ofs len dev =
     (let src = (case data of Some d \<Rightarrow> take (unat len) d | None \<Rightarrow> replicate (unat len) 0)
      in if length src = unat len \<and> unat ofs + unat len \<le> length (buf_data dev buf)
         then Some (upd_buf buf (\<lambda>b. b\<lparr>b_page := memcpy (b_page b) (unat (header_size dev) + unat ofs) src\<rparr>) dev)
         else None)"

definition write_slot :: "nat \<Rightarrow> 'f device \<Rightarrow> (nat option \<times> 'f device) option" where
  "write_slot buf dev =
     (let slot = uffs_BufFindGroupSlot (b_parent (bufs dev buf)) (b_serial (bufs dev buf)) dev
      in if slot \<ge> 0 then Some (Some (nat slot), dev)
         else let slot = uffs_BufFindFreeGroupSlot dev
              in if slot \<ge> 0 then Some (Some (nat slot), dev)
                 else do {
                   (r, dev) \<leftarrow> uffs_BufFlushMostDirtyGroup dev;
                   (if r \<noteq> U_SUCC then Some (None, dev)
                    else let slot = uffs_BufFindFreeGroupSlot dev
                         in Some (if slot < 0 then None else Some (nat slot), dev))
                 })"

definition uffs_BufWrite :: "nat \<Rightarrow> bytes option \<Rightarrow> u32 \<Rightarrow> u32 \<Rightarrow> 'f device \<Rightarrow> (URET \<times> 'f device) option" where
  "uffs_BufWrite buf data ofs len dev =
     (if ofs + len > ucast (pg_data_size dev) then Some (U_FAIL, dev)
      else do {
        (slot, dev) \<leftarrow> write_slot buf dev;
        (case slot of None \<Rightarrow> Some (U_FAIL, dev)
         | Some s \<Rightarrow> do {
             dev \<leftarrow> put_data buf data ofs len dev;
             let dev = (if ofs + len > ucast (b_data_len (bufs dev buf)) then upd_buf buf (\<lambda>b. b\<lparr>b_data_len := ucast (ofs + len)\<rparr>) dev else dev);
             inl \<leftarrow> IsBufInInDirtyList s buf dev;
             let dev = (if inl then dev else LinkToDirtyList s buf dev);
             (if dg_count (dirtyGroup dev ! s) \<ge> dirty_buf_max dev
              then do {
                (r, dev) \<leftarrow> uffs_BufFlushGroup (b_parent (bufs dev buf)) (b_serial (bufs dev buf)) dev;
                Some (if r \<noteq> U_SUCC then U_FAIL else U_SUCC, dev)
              }
              else Some (U_SUCC, dev))
           })
      })"

section \<open>Pages in the buffers\<close>

text \<open>The buffer that holds a page of an object, when there is one that can take one more
  reference. Getting such a page and giving it back leaves the device as it was.\<close>

definition cached_page :: "u8 \<Rightarrow> nat \<Rightarrow> u16 \<Rightarrow> 'f device \<Rightarrow> nat option" where
  "cached_page ty node page_id dev =
     (case obj_of_node ty (nu dev node) of None \<Rightarrow> None
      | Some (parent, serial, block) \<Rightarrow>
          (case uffs_BufFind parent serial page_id dev of
             Some (Some b) \<Rightarrow> if b_ref_count (bufs dev b) + 1 = 0 \<or> b_ref_count (bufs dev b) + 1 = CLONE_BUF_MARK then None else Some b
           | _ \<Rightarrow> None))"

lemma BufGetEx_cached:
  assumes "cached_page ty node page_id dev = Some b"
  shows "uffs_BufGetEx ty node page_id oflag dev = Some (Some b, uffs_BufIncRef b dev)"
    "uffs_BufPut (Some b) (uffs_BufIncRef b dev) = (U_SUCC, dev)"
proof -
  show "uffs_BufGetEx ty node page_id oflag dev = Some (Some b, uffs_BufIncRef b dev)"
    using assms by (auto simp: cached_page_def uffs_BufGetEx_def split: option.splits if_splits)
  have "b_ref_count (bufs dev b) + 1 \<noteq> 0" "b_ref_count (bufs dev b) + 1 \<noteq> CLONE_BUF_MARK"
    using assms by (auto simp: cached_page_def split: option.splits if_splits)
  then show "uffs_BufPut (Some b) (uffs_BufIncRef b dev) = (U_SUCC, dev)"
    by (simp add: uffs_BufPut_def uffs_BufIncRef_def upd_buf_def)
qed

lemma IncRef_fields [simp]:
  "buf_data (uffs_BufIncRef b dev) x = buf_data dev x" "b_data_len (bufs (uffs_BufIncRef b dev) x) = b_data_len (bufs dev x)"
  "pg_data_size (uffs_BufIncRef b dev) = pg_data_size dev" "tree_nodes (uffs_BufIncRef b dev) = tree_nodes dev"
  "tree (uffs_BufIncRef b dev) = tree dev" "nu (uffs_BufIncRef b dev) a = nu dev a"
  by (simp_all add: uffs_BufIncRef_def buf_data_def nu_def)

section \<open>Writing to a buffer\<close>

lemma memcpy_read: "p + length s \<le> length m \<Longrightarrow> take (length s) (drop p (memcpy m p s)) = s"
  by (simp add: memcpy_def)

lemma LinkToDirtyList_inv:
  assumes inv: "buf_inv dev xs cs D" and s: "s < nat (dirty_groups dev)" and x: "x \<in> set xs"
    and nd: "\<And>i. i < nat (dirty_groups dev) \<Longrightarrow> x \<notin> set (D i)"
      "\<And>i y. i < nat (dirty_groups dev) \<Longrightarrow> y \<in> set (D i) \<Longrightarrow> buf_obj (bufs dev y) = buf_obj (bufs dev x) \<longleftrightarrow> i = s"
  shows "buf_inv (LinkToDirtyList s x dev) xs cs (D(s := x # D s))"
proof -
  have p: "pages_inv dev xs cs" and di: "dirty_inv dev (set xs) D" using inv by (simp_all add: buf_inv_def)
  note l = LinkToDirtyList_ok[OF di s x nd]
  show ?thesis unfolding buf_inv_def
    using l(1) p pages_inv_undirty[OF l(2,4,5,6) buf_frame_fields(1)[OF l(3)]] by simp
qed

text \<open>The group that takes a buffer without a flush.\<close>

lemma write_slot_ok:
  assumes inv: "dirty_inv dev S D" and b: "buf \<in> S"
    and room: "uffs_BufFindGroupSlot (b_parent (bufs dev buf)) (b_serial (bufs dev buf)) dev \<ge> 0 \<or> uffs_BufFindFreeGroupSlot dev \<ge> 0"
  obtains s where "write_slot buf dev = Some (Some s, dev)" "s < nat (dirty_groups dev)"
    "\<And>i y. i < nat (dirty_groups dev) \<Longrightarrow> y \<in> set (D i) \<Longrightarrow> buf_obj (bufs dev y) = buf_obj (bufs dev buf) \<longleftrightarrow> i = s"
    "\<And>i. i < nat (dirty_groups dev) \<Longrightarrow> buf \<in> set (D i) \<Longrightarrow> i = s"
proof -
  let ?g = "uffs_BufFindGroupSlot (b_parent (bufs dev buf)) (b_serial (bufs dev buf)) dev"
  let ?P = "\<lambda>i. \<exists>x \<in> set (D i). buf_obj (bufs dev x) = (b_parent (bufs dev buf), b_serial (bufs dev buf))"
  have o: "buf_obj (bufs dev buf) = (b_parent (bufs dev buf), b_serial (bufs dev buf))" by (simp add: buf_obj_def)
  have g: "?g = slot_of (List.find ?P [0..<nat (dirty_groups dev)])" by (rule FindGroupSlot_eq[OF inv])
  show thesis
  proof (cases "?g \<ge> 0")
    case True
    then have "?g = int (nat ?g)" by simp
    then have s: "nat ?g < nat (dirty_groups dev)" "?P (nat ?g)"
      using slot_of_findD[of ?P "nat (dirty_groups dev)" "nat ?g"] g by auto
    then obtain z where z: "z \<in> set (D (nat ?g))" "buf_obj (bufs dev z) = buf_obj (bufs dev buf)" using o by auto
    have u: "buf_obj (bufs dev y) = buf_obj (bufs dev buf) \<longleftrightarrow> i = nat ?g"
      if "i < nat (dirty_groups dev)" "y \<in> set (D i)" for i y
      using dirty_inv_obj[OF inv that(1) s(1) that(2) z(1)] z(2) by simp
    show thesis by (rule that[of "nat ?g"]) (use True s u in \<open>auto simp: write_slot_def Let_def\<close>)
  next
    case False
    then have n: "\<not> ?P i" if "i < nat (dirty_groups dev)" for i
      using slot_of_find_ge[of ?P "nat (dirty_groups dev)"] g that by auto
    let ?f = "uffs_BufFindFreeGroupSlot dev"
    have f: "?f = int (nat ?f)" using False room by simp
    note s = FreeGroupSlot_D[OF inv f]
    show thesis
      by (rule that[of "nat ?f"]) (use False room s n o in \<open>auto simp: write_slot_def Let_def\<close>)
  qed
qed

text \<open>Reading inside the page.\<close>

lemma ofs_plus_len:
  assumes "unat ofs + unat len \<le> unat (pg_data_size dev)"
  shows "unat (ofs + len :: u32) = unat ofs + unat len" "unat ofs + unat len < 65536" "\<not> ofs + len > ucast (pg_data_size dev)"
proof -
  have lt: "unat (pg_data_size dev) < 65536" by (rule order.strict_trans2[OF unsigned_less]) simp
  show s: "unat ofs + unat len < 65536" by (rule order.strict_trans1[OF assms lt])
  have "unat ofs + unat len < 2 ^ 32" using s by simp
  then show a: "unat (ofs + len) = unat ofs + unat len" by (subst unat_add_lem[THEN iffD1]) simp_all
  show "\<not> ofs + len > ucast (pg_data_size dev)" using assms by (simp add: word_less_nat_alt a unat_ucast_16_32)
qed

lemma BufRead_inside:
  assumes "0 < unat len" "unat ofs + unat len \<le> unat (pg_data_size dev)" "unat (pg_data_size dev) \<le> length (buf_data dev buf)"
    "unat len \<le> length mem"
  shows "uffs_BufRead buf mem ofs len dev = Some (U_SUCC, memcpy mem 0 (take (unat len) (drop (unat ofs) (buf_data dev buf))))"
proof -
  have "len \<noteq> 0" "unat ofs < unat (pg_data_size dev)" using assms by auto
  then have n: "\<not> ucast (pg_data_size dev) \<le> ofs" by (simp add: word_le_nat_alt unat_ucast_16_32)
  have e: "(if ofs + len \<ge> ucast (pg_data_size dev) then ucast (pg_data_size dev) - ofs else len) = len"
  proof (cases "ucast (pg_data_size dev) \<le> ofs + len")
    case True
    then have "ofs + len = ucast (pg_data_size dev)" using ofs_plus_len(3)[OF assms(2)] by simp
    then show ?thesis by (metis add_diff_cancel_left')
  qed simp
  show ?thesis using assms n e \<open>len \<noteq> 0\<close> by (simp add: uffs_BufRead_def Let_def)
qed

text \<open>The page memory and the data length of the written buffer.\<close>

definition written :: "nat \<Rightarrow> bytes \<Rightarrow> u32 \<Rightarrow> u32 \<Rightarrow> 'f device \<Rightarrow> 'f device" where
  "written buf data ofs len dev =
     upd_buf buf (\<lambda>b. b\<lparr>b_page := memcpy (b_page b) (unat (header_size dev) + unat ofs) data,
       b_data_len := (if ofs + len > ucast (b_data_len b) then ucast (ofs + len) else b_data_len b)\<rparr>) dev"

lemma written_ok:
  fixes dev :: "'f device"
  assumes inv: "buf_inv dev xs cs D" and b: "buf \<in> set xs"
    and len: "length data = unat len" "unat ofs + unat len \<le> unat (pg_data_size dev)"
    and hdr: "unat (header_size dev) + unat (pg_data_size dev) \<le> unat (pg_size dev)"
  defines "d \<equiv> written buf data ofs len dev"
  shows "put_data buf (Some data) ofs len dev = Some (upd_buf buf (\<lambda>b. b\<lparr>b_page := memcpy (b_page b) (unat (header_size dev) + unat ofs) data\<rparr>) dev)"
    "buf_inv d xs cs D" "buf_obj (bufs d y) = buf_obj (bufs dev y)"
    "unat (pg_data_size dev) \<le> length (buf_data d buf)"
    "buf_data d buf = take (unat ofs) (buf_data dev buf) @ data @ drop (unat ofs + unat len) (buf_data dev buf)"
    "unat (b_data_len (bufs d buf)) = max (unat (b_data_len (bufs dev buf))) (unat ofs + unat len)"
    "y \<noteq> buf \<Longrightarrow> b_page (bufs d y) = b_page (bufs dev y)"
proof -
  let ?b = "bufs dev buf" and ?h = "unat (header_size dev)"
  have "pages_inv dev xs cs" using inv by (simp add: buf_inv_def)
  from pages_invD(6)[OF this, of buf] have pl: "length (b_page ?b) = unat (pg_size dev)" using b by simp
  have lp: "length (memcpy (b_page ?b) (?h + unat ofs) data) = length (b_page ?b)" using len pl hdr by (simp add: memcpy_def)
  show "put_data buf (Some data) ofs len dev = Some (upd_buf buf (\<lambda>b. b\<lparr>b_page := memcpy (b_page b) (?h + unat ofs) data\<rparr>) dev)"
    using len pl hdr by (simp add: put_data_def buf_data_def)
  show "buf_inv d xs cs D" unfolding d_def written_def
    by (subst buf_inv_upd) (use lp inv in \<open>simp_all add: list_view_def dirty_view_def buf_obj_def\<close>)
  show "buf_obj (bufs d y) = buf_obj (bufs dev y)" by (simp add: d_def written_def buf_obj_def)
  show "unat (pg_data_size dev) \<le> length (buf_data d buf)" using lp pl hdr by (simp add: d_def written_def buf_data_def)
  show "buf_data d buf = take (unat ofs) (buf_data dev buf) @ data @ drop (unat ofs + unat len) (buf_data dev buf)"
    using len pl hdr by (simp add: d_def written_def buf_data_def memcpy_def drop_take add.commute add.left_commute)
  have "ofs + len > ucast (b_data_len ?b) \<longleftrightarrow> unat (b_data_len ?b) < unat ofs + unat len"
    by (simp add: word_less_nat_alt ofs_plus_len(1)[OF len(2)] unat_ucast_16_32)
  moreover have "unat (ucast (ofs + len) :: u16) = unat ofs + unat len"
    using ofs_plus_len(2)[OF len(2)] by (simp add: unsigned_ucast_eq ofs_plus_len(1)[OF len(2)] take_bit_nat_eq_self)
  ultimately show "unat (b_data_len (bufs d buf)) = max (unat (b_data_len ?b)) (unat ofs + unat len)"
    by (simp add: d_def written_def max_def)
  show "y \<noteq> buf \<Longrightarrow> b_page (bufs d y) = b_page (bufs dev y)" by (simp add: d_def written_def)
qed

lemma written_fields [simp]:
  "dirty_groups (written buf data ofs len dev) = dirty_groups dev" "dirtyGroup (written buf data ofs len dev) = dirtyGroup dev"
  "dirty_buf_max (written buf data ofs len dev) = dirty_buf_max dev" "header_size (written buf data ofs len dev) = header_size dev"
  "pg_data_size (written buf data ofs len dev) = pg_data_size dev"
  by (simp_all add: written_def)

text \<open>C11. \<open>uffs_BufWrite\<close> within the page, when a dirty group can take the buffer and does not get
  full by it, puts exactly the given bytes into the page memory, at the offset behind the header,
  makes the buffer dirty in the group of its object, raises its data length when the write goes
  behind it, and keeps the buffers well-formed; \<open>uffs_BufRead\<close> then reads the bytes back. No other
  page memory changes.\<close>

theorem BufWrite_reads_back:
  fixes dev :: "'f device"
  assumes inv: "buf_inv dev xs cs D" and b: "buf \<in> set xs"
    and len: "0 < unat len" "length data = unat len" "unat ofs + unat len \<le> unat (pg_data_size dev)"
    and hdr: "unat (header_size dev) + unat (pg_data_size dev) \<le> unat (pg_size dev)"
    and room: "uffs_BufFindGroupSlot (b_parent (bufs dev buf)) (b_serial (bufs dev buf)) dev \<ge> 0 \<or> uffs_BufFindFreeGroupSlot dev \<ge> 0"
      "\<And>s. s < nat (dirty_groups dev) \<Longrightarrow> int (length (D s)) + 1 < dirty_buf_max dev"
  shows "\<exists>s dev'. uffs_BufWrite buf (Some data) ofs len dev = Some (U_SUCC, dev') \<and>
     s < nat (dirty_groups dev) \<and> buf_inv dev' xs cs (if buf \<in> set (D s) then D else D(s := buf # D s)) \<and>
     buf_data dev' buf = take (unat ofs) (buf_data dev buf) @ data @ drop (unat ofs + unat len) (buf_data dev buf) \<and>
     unat (b_data_len (bufs dev' buf)) = max (unat (b_data_len (bufs dev buf))) (unat ofs + unat len) \<and>
     (\<forall>y. y \<noteq> buf \<longrightarrow> b_page (bufs dev' y) = b_page (bufs dev y)) \<and>
     (\<forall>mem. unat len \<le> length mem \<longrightarrow> uffs_BufRead buf mem ofs len dev' = Some (U_SUCC, memcpy mem 0 data))"
proof -
  have DI: "dirty_inv dev (set xs) D" using inv by (simp add: buf_inv_def)
  obtain s where s: "write_slot buf dev = Some (Some s, dev)" "s < nat (dirty_groups dev)"
    "\<And>i y. i < nat (dirty_groups dev) \<Longrightarrow> y \<in> set (D i) \<Longrightarrow> buf_obj (bufs dev y) = buf_obj (bufs dev buf) \<longleftrightarrow> i = s"
    "\<And>i. i < nat (dirty_groups dev) \<Longrightarrow> buf \<in> set (D i) \<Longrightarrow> i = s"
    using write_slot_ok[OF DI b room(1)] by blast
  define d2 where "d2 = written buf data ofs len dev"
  note w = written_ok[OF inv b len(2,3) hdr, folded d2_def]
  have f2: "dirty_groups d2 = dirty_groups dev" "dirtyGroup d2 = dirtyGroup dev" "dirty_buf_max d2 = dirty_buf_max dev"
    "header_size d2 = header_size dev" "pg_data_size d2 = pg_data_size dev" by (simp_all add: d2_def)
  have DI2: "dirty_inv d2 (set xs) D" using w(2) by (simp add: buf_inv_def)
  have s2: "s < nat (dirty_groups d2)" using s(2) by (simp add: f2)
  define d3 where "d3 = (if buf \<in> set (D s) then d2 else LinkToDirtyList s buf d2)"
  let ?D = "if buf \<in> set (D s) then D else D(s := buf # D s)"
  have nd: "buf \<notin> set (D i)" if "buf \<notin> set (D s)" "i < nat (dirty_groups d2)" for i using s(4)[of i] that by (auto simp: f2)
  have ob3: "buf_obj (bufs d2 y) = buf_obj (bufs d2 buf) \<longleftrightarrow> i = s" if "i < nat (dirty_groups d2)" "y \<in> set (D i)" for i y
    using s(3)[of i y] that by (simp add: w(3) f2)
  have inv3: "buf_inv d3 xs cs ?D"
    by (cases "buf \<in> set (D s)") (simp_all add: d3_def w(2) LinkToDirtyList_inv[OF w(2) s2 b] nd ob3)
  have "undirty (bufs d3 y) = undirty (bufs d2 y)" for y
    using LinkToDirtyList_ok(2)[OF DI2 s2 b, of y] nd ob3 by (simp add: d3_def)
  note pg3 = undirty_views[OF this]
  have f3: "header_size d3 = header_size dev" "pg_data_size d3 = pg_data_size dev" "dirty_buf_max d3 = dirty_buf_max dev"
    "dirty_groups d3 = dirty_groups dev"
    using f2 by (simp_all add: d3_def LinkToDirtyList_def upd_dg_def Let_def split: option.split)
  have DI3: "dirty_inv d3 (set xs) ?D" using inv3 by (simp add: buf_inv_def)
  have cnt: "dg_count (dirtyGroup d3 ! s) < dirty_buf_max d3"
    using dirty_invD(3)[OF DI3, of s] s(2) room(2)[OF s(2)] by (simp add: f3 split: if_splits)
  have "(let dev = upd_buf buf (\<lambda>b. b\<lparr>b_page := memcpy (b_page b) (unat (header_size dev) + unat ofs) data\<rparr>) dev
      in if ofs + len > ucast (b_data_len (bufs dev buf)) then upd_buf buf (\<lambda>b. b\<lparr>b_data_len := ucast (ofs + len)\<rparr>) dev else dev) = d2"
    by (simp add: d2_def written_def upd_buf_def)
  then have run: "uffs_BufWrite buf (Some data) ofs len dev = Some (U_SUCC, d3)"
    unfolding uffs_BufWrite_def if_not_P[OF ofs_plus_len(3)[OF len(3)]]
    using cnt by (cases "buf \<in> set (D s)") (simp_all add: s(1) w(1) Let_def IsBufInDirtyList_eq[OF DI2 s2] d3_def)
  have bd: "buf_data d3 buf = buf_data d2 buf" by (simp add: buf_data_def f3 f2 pg3)
  have "take (unat len) (drop (unat ofs) (buf_data d2 buf)) = data"
    using w(4) len by (simp add: w(5) f2 min_def split: if_splits)
  then have rd: "uffs_BufRead buf mem ofs len d3 = Some (U_SUCC, memcpy mem 0 data)" if m: "unat len \<le> length mem" for mem
    using BufRead_inside[of len ofs d3 buf mem] len m w(4) by (simp add: bd f3)
  show ?thesis
    by (intro exI[of _ s] exI[of _ d3] conjI run s(2) inv3) (use w(5-7) rd bd pg3 in auto)
qed

lemma sample_bufs_sizes:
  "header_size sample_bufs = 4" "pg_data_size sample_bufs = 508" "pg_size sample_bufs = 512" "dirty_buf_max sample_bufs = 32"
  "uffs_BufFindFreeGroupSlot sample_bufs \<ge> 0"
proof -
  have "\<not> buf_pool sample_dev" "nat (dirty_groups sample_dev) \<le> length (dirtyGroup sample_dev)"
    "(SIZEOF_BUF + uint (page_data_size (attr sample_dev))) * int 40 \<le> pagebuf_pool_size sample_dev"
    by (simp_all add: sample_dev_def sample_attr_def InitSpareLayout_def attr512_def Let_def SIZEOF_BUF_def)
  from BufInit_run[OF this(1) _ this(2,3), of 32] obtain d where d: "uffs_BufInit (int 40) 32 sample_dev = Some (U_SUCC, d)"
    "dirty_buf_max d = min 32 (int (ppb sample_dev))" "pg_size d = page_data_size (attr sample_dev)" "pg_data_size d = pg_size d - 4"
    "buf_frame (sample_dev\<lparr>pg_size := page_data_size (attr sample_dev), header_size := 4, pg_data_size := page_data_size (attr sample_dev) - 4,
      buf_pool := True, buf_max := int 40, dirty_buf_max := min 32 (int (ppb sample_dev))\<rparr>) d" by auto
  have e: "sample_bufs = d" by (simp only: sample_bufs_def d(1) option.sel snd_conv)
  have a: "page_data_size (attr sample_dev) = 512" "ppb sample_dev = 32"
    by (simp_all add: sample_dev_def sample_attr_def InitSpareLayout_def attr512_def Let_def ppb_def)
  have z: "page_data_size sample_attr = 512" by (simp add: sample_attr_def InitSpareLayout_def attr512_def Let_def)
  show "header_size sample_bufs = 4" using buf_frame_fields(8)[OF d(5)] by (simp add: e)
  show "pg_data_size sample_bufs = 508" "pg_size sample_bufs = 512" "dirty_buf_max sample_bufs = 32"
    using d(2-4) by (simp_all add: e a z)
  have "dg_dirty (dirtyGroup sample_bufs ! 0) = None"
    using dirty_invD(7)[of sample_bufs "set [2..<40]" "\<lambda>_. []" 0] sample_bufs_ok(1,2) by (simp add: buf_inv_def)
  then show "uffs_BufFindFreeGroupSlot sample_bufs \<ge> 0"
    unfolding uffs_BufFindFreeGroupSlot_def slot_of_find_ge sample_bufs_ok(2) by (intro exI[of _ 0]) simp
qed

theorem BufWrite_reads_back_witness:
  "\<exists>s dev'. uffs_BufWrite 5 (Some [1, 2, 3]) 100 3 sample_bufs = Some (U_SUCC, dev') \<and>
     buf_inv dev' [2..<40] [1, 0] ((\<lambda>_. [])(s := [5])) \<and>
     uffs_BufRead 5 [0, 0, 0, 9] 100 3 dev' = Some (U_SUCC, [1, 2, 3, 9])"
  using BufWrite_reads_back[OF sample_bufs_ok(1), of 5 3 "[1, 2, 3]" 100]
  by (auto simp: sample_bufs_sizes memcpy_def)

end
