(* ===== verification/Bad_Block.thy ===== *)
theory Bad_Block
  imports Buf_Flush
begin

text \<open>
  The recovery of pending blocks of \<open>uffs_badblock.c\<close>: the pages of a block that was reported
  by a flash operation are copied to an erased block, which takes its place in the tree; the old
  block is then marked bad, or erased when it only needed a refresh.

  The pending entry under work is the one that was just counted out of the list; the source holds
  a pointer to it, the model its index.
\<close>

section \<open>The code\<close>

definition pend_at :: "nat \<Rightarrow> 'f device \<Rightarrow> PendingBlock" where
  "pend_at idx dev = pend_list (pending dev) ! idx"

text \<open>Copying the pages. The first component of the result is \<open>None\<close> when the new block turned
  out bad, otherwise whether the copy succeeded; the second tells that the new block was written
  to.\<close>

fun copy_pages :: "nat \<Rightarrow> nat option \<Rightarrow> nat \<Rightarrow> nat list \<Rightarrow> bool \<Rightarrow> 'f device \<Rightarrow> (bool option \<times> bool \<times> 'f device) option" where
  "copy_pages bc newBc good [] dirty dev = Some (Some True, dirty, dev)"
| "copy_pages bc newBc good (i # ks) dirty dev = do {
     (page, dev) \<leftarrow> uffs_FindPageInBlockWithPageId bc (word_of_nat i) dev;
     (if page = UFFS_INVALID_PAGE then Some (Some True, dirty, dev)
      else do {
        (page, dev) \<leftarrow> uffs_FindBestPageInBlock bc page dev;
        (if page = UFFS_INVALID_PAGE then Some (Some True, dirty, dev)
         else
           let (clone, dev) = uffs_BufClone None dev
           in case clone of None \<Rightarrow> Some (Some False, dirty, dev)
              | Some v \<Rightarrow> do {
                  (ret, dev) \<leftarrow> uffs_FlashReadPage (uint (bi_block (bc_nodes dev bc))) (uint page) v False dev;
                  (if UFFS_FLASH_HAVE_ERR ret \<and> \<not> UFFS_FLASH_IS_BAD_BLOCK ret \<and> ret = UFFS_FLASH_IO_ERR
                   then Some (Some False, dirty, snd (uffs_BufFreeClone (Some v) (upd_buf v (\<lambda>b. b\<lparr>b_mark := UFFS_BUF_EMPTY\<rparr>) dev)))
                   else do {
                     let tag = GET_TAG dev bc (unat page);
                     let n = (word_of_nat (tag_data_len tag) :: u16);
                     let n = (if n > pg_data_size dev then pg_data_size dev else n);
                     let dev = upd_buf v (\<lambda>b. b\<lparr>b_mark := UFFS_BUF_VALID, b_data_len := n, b_parent := ucast (ts_parent (tag_s tag)),
                           b_serial := ucast (ts_serial (tag_s tag)), b_type := ucast (ts_type (tag_s tag)),
                           b_page_id := word_of_nat (tag_page_id tag)\<rparr>) dev;
                     let newTag = set_store (\<lambda>s. s\<lparr>ts_block_ts := word_of_int (uffs_GetNextBlockTimeStamp (uint (ts_block_ts s)))\<rparr>) tag;
                     let dev = (case newBc of None \<Rightarrow> dev | Some m \<Rightarrow> set_tag m i (\<lambda>_. newTag) dev);
                     (ret, newTag, dev) \<leftarrow> uffs_FlashWritePageCombine (uint (l_block (nu dev good))) (int i) v newTag dev;
                     let dev = (case newBc of None \<Rightarrow> dev | Some m \<Rightarrow> set_tag m i (\<lambda>_. newTag) dev);
                     let dev = snd (uffs_BufFreeClone (Some v) dev);
                     (if UFFS_FLASH_IS_BAD_BLOCK ret then Some (None, dirty, dev)
                      else if ret = UFFS_FLASH_IO_ERR then Some (Some False, True, dev)
                      else copy_pages bc newBc good ks True dev)
                   })
                })
      })
   }"

definition set_region_block :: "u32 \<Rightarrow> u16 \<Rightarrow> NodeU \<Rightarrow> NodeU" where
  "set_region_block region block u =
     (if region = SEARCH_REGION_DIR then UDir block (d_checksum u) (d_parent u) (d_serial u)
      else if region = SEARCH_REGION_FILE then UFile block (f_checksum u) (f_parent u) (f_serial u) (f_len u)
      else if region = SEARCH_REGION_DATA then UData block (da_parent u) (da_len u) (da_serial u)
      else u)"

text \<open>The good block takes the place of the bad one; its node gets the bad block.\<close>

definition finish_recover :: "nat \<Rightarrow> nat \<Rightarrow> nat \<Rightarrow> u32 \<Rightarrow> nat \<Rightarrow> 'f device \<Rightarrow> 'f device option" where
  "finish_recover idx bc bd region good dev =
     (let dev = upd_u bd (set_region_block region (l_block (nu dev good))) dev;
          dev = uffs_BlockInfoExpire bc UFFS_ALL_PAGES dev;
          dev = upd_u good (set_l_block (pb_block (pend_at idx dev))) dev;
          mark = pb_mark (pend_at idx dev)
      in if mark = UFFS_PENDING_BLK_RECOVER \<or> mark = UFFS_PENDING_BLK_MARKBAD
         then uffs_BadBlockProcessNode (Some good) dev
         else if mark = UFFS_PENDING_BLK_REFRESH \<or> mark = UFFS_PENDING_BLK_CLEANUP
         then do {
           (r, dev) \<leftarrow> uffs_TreeEraseNode good dev;
           Some (uffs_TreeInsertToErasedListTail good dev)
         }
         else Some dev)"

text \<open>From the label \<open>retry\<close> on.\<close>

partial_function (option) recover_retry :: "nat \<Rightarrow> nat \<Rightarrow> nat \<Rightarrow> u32 \<Rightarrow> 'f device \<Rightarrow> 'f device option" where
  "recover_retry idx bc bd region dev = do {
     (good, dev) \<leftarrow> uffs_TreeGetErasedNode dev;
     (case good of None \<Rightarrow> Some (uffs_BlockInfoPut (Some bc) dev)
      | Some g \<Rightarrow> do {
          (newBc, dev) \<leftarrow> uffs_BlockInfoFindInCache (uint (l_block (nu dev g))) dev;
          dev \<leftarrow> load bc UFFS_ALL_PAGES dev;
          (succ, dirty, dev) \<leftarrow> copy_pages bc newBc g [0..<ppb dev] False dev;
          let dev = uffs_BlockInfoPut newBc dev;
          (case succ of
             None \<Rightarrow> do {
               dev \<leftarrow> uffs_BadBlockProcessNode (Some g) dev;
               recover_retry idx bc bd region dev
             }
           | Some True \<Rightarrow> do {
               dev \<leftarrow> finish_recover idx bc bd region g dev;
               Some (uffs_BlockInfoPut (Some bc) dev)
             }
           | Some False \<Rightarrow> do {
               dev \<leftarrow> (if dirty then map_option snd (uffs_TreeEraseNode g dev) else Some dev);
               Some (uffs_BlockInfoPut (Some bc) (uffs_TreeInsertToErasedListTail g dev))
             })
        })
   }"

definition process_pending_recover :: "nat \<Rightarrow> 'f device \<Rightarrow> 'f device option" where
  "process_pending_recover idx dev = do {
     (bc, dev) \<leftarrow> uffs_BlockInfoGet (uint (pb_block (pend_at idx dev))) dev;
     (case bc of None \<Rightarrow> Some dev
      | Some m \<Rightarrow> do {
          (bd, region) \<leftarrow> uffs_TreeFindNodeByBlock (pb_block (pend_at idx dev))
                            (SEARCH_REGION_DIR OR SEARCH_REGION_FILE OR SEARCH_REGION_DATA) dev;
          (case bd of None \<Rightarrow> Some (uffs_BlockInfoPut (Some m) dev)
           | Some b \<Rightarrow> recover_retry idx m b region dev)
        })
   }"

partial_function (option) recover_loop :: "'f device \<Rightarrow> 'f device option" where
  "recover_loop dev =
     (if pend_count (pending dev) > 0
      then do {
        let idx = nat (pend_count (pending dev) - 1);
        let dev = dev\<lparr>pending := (pending dev)\<lparr>pend_count := pend_count (pending dev) - 1\<rparr>\<rparr>;
        let dev = dev\<lparr>pending := (pending dev)\<lparr>block_in_recovery := pb_block (pend_at idx dev)\<rparr>\<rparr>;
        dev \<leftarrow> process_pending_recover idx dev;
        recover_loop dev
      }
      else Some dev)"

definition uffs_BadBlockRecover :: "'f device \<Rightarrow> 'f device option" where
  "uffs_BadBlockRecover dev = do {
     dev \<leftarrow> recover_loop dev;
     Some (dev\<lparr>pending := (pending dev)\<lparr>block_in_recovery := UFFS_INVALID_BLOCK\<rparr>\<rparr>)
   }"

end
