(* ===== verification/Build_Tree.thy ===== *)
theory Build_Tree
  imports Bad_Block
begin

text \<open>
  Building the tree from the flash when a partition is mounted (\<open>uffs_BuildTree\<close> of
  \<open>uffs_tree.c\<close>): every block of the partition is classified by the tag of its first page, an
  interrupted rewrite of a block is detected by the two copies and settled by their time stamps,
  pages that were not completely written are looked for, the erased blocks are rotated for wear
  levelling, and data blocks without a file are erased. The searches by name are here as well,
  because they read the names from the flash.

  The current time is an argument. The counters of the log message are not modelled.
\<close>

section \<open>The code\<close>

text \<open>Erasing the block of a node that is in no list; the node goes to the list of bad or of
  erased blocks.\<close>

definition erase_to_list :: "nat \<Rightarrow> u16 \<Rightarrow> 'f device \<Rightarrow> 'f device option" where
  "erase_to_list node block dev = do {
     (ret, dev) \<leftarrow> uffs_FlashEraseBlock (uint block) (upd_u node (set_l_block block) dev);
     (if UFFS_FLASH_IS_BAD_BLOCK ret then uffs_BadBlockProcessNode (Some node) dev
      else Some (uffs_TreeInsertToErasedListTail node dev))
   }"

definition uffs_TreeProcessPendingBadBlock :: "nat \<Rightarrow> u16 \<Rightarrow> 'f device \<Rightarrow> (bool \<times> 'f device) option" where
  "uffs_TreeProcessPendingBadBlock node block dev =
     (case uffs_BadBlockPendingNodeGet (pending dev) (uint block) of None \<Rightarrow> Some (False, dev)
      | Some idx \<Rightarrow>
          if pb_mark (pend_at idx dev) = UFFS_PENDING_BLK_CLEANUP
          then map_option (Pair True) (erase_to_list node block dev)
          else if pb_mark (pend_at idx dev) = UFFS_PENDING_BLK_MARKBAD
          then map_option (Pair True) (uffs_BadBlockProcessNode (Some node) (upd_u node (set_l_block block) dev))
          else Some (False, dev))"

subsection \<open>A block with data\<close>

definition same_object :: "nat \<Rightarrow> 'f device \<Rightarrow> u8 \<times> u16 \<times> u16" where
  "same_object bc dev =
     (let s = tag_s (GET_TAG dev bc 0) in (ucast (ts_type s), ucast (ts_parent s), ucast (ts_serial s)))"

text \<open>Two blocks of one object: the newer copy is erased, because the rewrite that made it may not
  have been finished. The result is the node to go on with, or the value to return.\<close>

definition settle_copies :: "nat \<Rightarrow> nat \<Rightarrow> nat \<Rightarrow> 'f device \<Rightarrow> ((URET + nat) \<times> 'f device) option" where
  "settle_copies node bc node_alt dev =
     (let block = bi_block (bc_nodes dev bc); ty = fst (same_object bc dev);
          block_alt = GetBlockFromNode ty (nu dev node_alt)
      in if block_alt = INVALID_UFFS_SERIAL then Some (Inl U_FAIL, dev)
         else do {
           (alt, dev) \<leftarrow> uffs_BlockInfoGet (uint block_alt) dev;
           (case alt of None \<Rightarrow> Some (Inl U_FAIL, dev)
            | Some m \<Rightarrow> do {
                dev \<leftarrow> load m 0 dev;
                (if uffs_IsSrcNewerThanObj (uint (ts_block_ts (tag_s (GET_TAG dev bc 0)))) (uint (ts_block_ts (tag_s (GET_TAG dev m 0))))
                 then do {
                   dev \<leftarrow> erase_to_list node block dev;
                   Some (Inl U_SUCC, uffs_BlockInfoPut (Some m) dev)
                 }
                 else do {
                   dev \<leftarrow> erase_to_list node block_alt dev;
                   dev \<leftarrow> uffs_BreakFromEntry ty node_alt (uffs_BlockInfoPut (Some m) dev);
                   Some (Inr node_alt, dev)
                 })
              })
         })"

text \<open>The check sum of the name in page 0. The result is \<open>Inl\<close> of the value to return, where
  \<open>None\<close> is the jump to the erasure of the block.\<close>

definition read_name_sum :: "nat \<Rightarrow> nat \<Rightarrow> 'f device \<Rightarrow> ((URET option + u16) \<times> 'f device) option" where
  "read_name_sum node bc dev =
     (let block = bi_block (bc_nodes dev bc); (clone, dev) = uffs_BufClone None dev
      in case clone of None \<Rightarrow> Some (Inl (Some U_FAIL), dev)
         | Some v \<Rightarrow> do {
             (ret, dev) \<leftarrow> uffs_BlockInfoLoad bc UFFS_ALL_PAGES dev;
             (if ret = U_FAIL
              then do {
                (processed, dev) \<leftarrow> uffs_TreeProcessPendingBadBlock node block dev;
                Some (Inl (Some (if processed then U_SUCC else U_FAIL)), snd (uffs_BufFreeClone (Some v) dev))
              }
              else do {
                (page, dev) \<leftarrow> uffs_FindPageInBlockWithPageId bc 0 dev;
                (if page = UFFS_INVALID_PAGE then Some (Inl None, snd (uffs_BufFreeClone (Some v) dev))
                 else do {
                   (page, dev) \<leftarrow> uffs_FindBestPageInBlock bc page dev;
                   (ret, dev) \<leftarrow> uffs_FlashReadPage (uint block) (uint page) v False dev;
                   let (pt, pend) = uffs_BadBlockAddByFlashResult (uint block) ret (pending dev);
                   let dev = dev\<lparr>pending := pend\<rparr>;
                   (if pt = UFFS_PENDING_BLK_NONE \<and> UFFS_FLASH_HAVE_ERR ret
                    then Some (Inl (Some U_FAIL), snd (uffs_BufFreeClone (Some v) dev))
                    else do {
                      name \<leftarrow> fi_name (buf_data dev v);
                      Some (Inr (uffs_MakeSum16 name), snd (uffs_BufFreeClone (Some v) dev))
                    })
                 })
              })
           })"

definition fill_node :: "nat \<Rightarrow> nat \<Rightarrow> u16 \<Rightarrow> 'f device \<Rightarrow> 'f device option" where
  "fill_node node bc csum dev =
     (let block = bi_block (bc_nodes dev bc); (ty, parent, serial) = same_object bc dev
      in if ty = UFFS_TYPE_DIR then Some (upd_u node (\<lambda>_. UDir block csum parent serial) dev)
         else if ty = UFFS_TYPE_FILE then do {
           (len, dev) \<leftarrow> uffs_GetBlockFileDataLength bc UFFS_TYPE_FILE dev;
           Some (upd_u node (\<lambda>_. UFile block csum parent serial (word_of_int len)) dev)
         }
         else if ty = UFFS_TYPE_DATA then do {
           (len, dev) \<leftarrow> uffs_GetBlockFileDataLength bc UFFS_TYPE_DATA dev;
           Some (upd_u node (\<lambda>_. UData block parent (word_of_int len) serial) dev)
         }
         else Some dev)"

definition BuildValidTreeNode :: "nat \<Rightarrow> nat \<Rightarrow> 'f device \<Rightarrow> (URET \<times> 'f device) option" where
  "BuildValidTreeNode node bc dev = do {
     (ret, dev) \<leftarrow> uffs_BlockInfoLoad bc 0 dev;
     (if ret = U_FAIL
      then do {
        (processed, dev) \<leftarrow> uffs_TreeProcessPendingBadBlock node (bi_block (bc_nodes dev bc)) dev;
        Some (if processed then U_SUCC else U_FAIL, dev)
      }
      else if \<not> TAG_IS_DIRTY (GET_TAG dev bc 0) then Some (U_FAIL, dev)
      else if \<not> TAG_IS_GOOD (GET_TAG dev bc 0)
      then map_option (Pair U_SUCC) (erase_to_list node (bi_block (bc_nodes dev bc)) dev)
      else do {
        let (ty, parent, serial) = same_object bc dev;
        alt \<leftarrow> uffs_FindFromTree ty parent serial dev;
        (r, dev) \<leftarrow> (case alt of None \<Rightarrow> Some (Inr node, dev) | Some a \<Rightarrow> settle_copies node bc a dev);
        (case r of Inl ret \<Rightarrow> Some (ret, dev)
         | Inr node \<Rightarrow> do {
             (s, dev) \<leftarrow> (if ty = UFFS_TYPE_DIR \<or> ty = UFFS_TYPE_FILE then read_name_sum node bc dev else Some (Inr 0, dev));
             (case s of
                Inl (Some ret) \<Rightarrow> Some (ret, dev)
              | Inl None \<Rightarrow> map_option (Pair U_SUCC) (erase_to_list node (bi_block (bc_nodes dev bc)) dev)
              | Inr csum \<Rightarrow> do {
                  dev \<leftarrow> fill_node node bc csum dev;
                  dev \<leftarrow> uffs_InsertNodeToTree ty node dev;
                  Some (U_SUCC, dev)
                })
           })
      })
   }"

subsection \<open>Unclean pages\<close>

text \<open>The scan from the last page down to page 1. The result is the mark to report for the block,
  or the failure to read a header; \<open>header\<close> is a local buffer.\<close>

fun scan_unclean :: "nat \<Rightarrow> nat list \<Rightarrow> bytes \<Rightarrow> 'f device \<Rightarrow> ((URET + u8 option) \<times> 'f device) option" where
  "scan_unclean bc [] header dev = Some (Inr None, dev)"
| "scan_unclean bc (page # ks) header dev = do {
     (loadStatus, dev) \<leftarrow> uffs_BlockInfoLoad bc (int page) dev;
     let tag = GET_TAG dev bc page;
     (if TAG_IS_SEALED tag
      then Some (Inr (if loadStatus \<noteq> U_SUCC then Some UFFS_PENDING_BLK_RECOVER else None), dev)
      else if loadStatus = U_FAIL \<or> TAG_IS_DIRTY tag \<or> TAG_IS_VALID tag
      then Some (Inr (Some UFFS_PENDING_BLK_CLEANUP), dev)
      else do {
        (r, header, dev) \<leftarrow> uffs_LoadMiniHeader (uint (bi_block (bc_nodes dev bc))) (word_of_nat page) header dev;
        (if r = U_FAIL then Some (Inl U_FAIL, dev)
         else if header ! 0 \<noteq> 0xFF then Some (Inr (Some UFFS_PENDING_BLK_CLEANUP), dev)
         else scan_unclean bc ks header dev)
      })
   }"

definition ScanAndFixUnCleanPage :: "nat \<Rightarrow> 'f device \<Rightarrow> (URET \<times> 'f device) option" where
  "ScanAndFixUnCleanPage bc dev = do {
     (r, dev) \<leftarrow> scan_unclean bc (rev [1..<ppb dev]) (take SIZEOF_MINIHEADER (uninit dev)) dev;
     Some (case r of Inl ret \<Rightarrow> (ret, dev)
           | Inr None \<Rightarrow> (U_SUCC, dev)
           | Inr (Some mark) \<Rightarrow> (U_SUCC, dev\<lparr>pending := uffs_BadBlockAdd (uint (bi_block (bc_nodes dev bc))) mark (pending dev)\<rparr>))
   }"

subsection \<open>Step one\<close>

text \<open>A block whose first page has an erased tag.\<close>

definition add_erased :: "nat \<Rightarrow> u16 \<Rightarrow> 'f device \<Rightarrow> (URET \<times> 'f device) option" where
  "add_erased node block dev = do {
     (r, header, dev) \<leftarrow> uffs_LoadMiniHeader (uint block) 0 (take SIZEOF_MINIHEADER (uninit dev)) dev;
     (if r = U_FAIL then Some (U_FAIL, dev)
      else do {
        (flash_ret, dev) \<leftarrow> (if header ! 0 \<noteq> 0xFF then uffs_FlashEraseBlock (uint block) dev else Some (UFFS_FLASH_NO_ERR, dev));
        let dev = upd_u node (set_l_block block) dev;
        (if UFFS_FLASH_IS_BAD_BLOCK flash_ret
         then map_option (Pair U_SUCC) (uffs_BadBlockProcessNode (Some node) dev)
         else Some (U_SUCC, uffs_TreeInsertToErasedListTailEx node 1 dev))
      })
   }"

definition classify_block :: "nat \<Rightarrow> nat \<Rightarrow> u16 \<Rightarrow> 'f device \<Rightarrow> (URET \<times> 'f device) option" where
  "classify_block node bc block dev = do {
     (isbad, dev) \<leftarrow> uffs_FlashIsBadBlock (uint block) dev;
     (if isbad then Some (U_SUCC, uffs_TreeInsertToBadBlockList node (upd_u node (set_l_block block) dev))
      else do {
        (e, dev) \<leftarrow> uffs_IsPageErased bc 0 dev;
        (if e then add_erased node block dev
         else do {
           (processed, dev) \<leftarrow> uffs_TreeProcessPendingBadBlock node block dev;
           (if processed then Some (U_SUCC, dev)
            else do {
              (ret, dev) \<leftarrow> ScanAndFixUnCleanPage bc dev;
              (if ret = U_FAIL then Some (U_FAIL, dev)
               else do {
                 (processed, dev) \<leftarrow> uffs_TreeProcessPendingBadBlock node block dev;
                 (if processed then Some (U_SUCC, dev) else BuildValidTreeNode node bc dev)
               })
            })
         })
      })
   }"

text \<open>On every exit from the loop with a failure the block info is put back.\<close>

fun step_one_blocks :: "nat list \<Rightarrow> 'f device \<Rightarrow> (URET \<times> 'f device) option" where
  "step_one_blocks [] dev = Some (U_SUCC, dev)"
| "step_one_blocks (block # ks) dev = do {
     (bc, dev) \<leftarrow> uffs_BlockInfoGet (int block) dev;
     (case bc of None \<Rightarrow> Some (U_FAIL, dev)
      | Some m \<Rightarrow>
          let (node, p) = uffs_PoolGet (tree_pool dev); dev = dev\<lparr>tree_pool := p\<rparr>
          in case node of None \<Rightarrow> Some (U_FAIL, uffs_BlockInfoPut (Some m) dev)
             | Some n \<Rightarrow> do {
                 (ret, dev) \<leftarrow> classify_block n m (word_of_nat block) dev;
                 let dev = uffs_BlockInfoPut (Some m) dev;
                 (if ret = U_FAIL then Some (U_FAIL, dev) else step_one_blocks ks dev)
               })
   }"

definition BuildTreeStepOne :: "'f device \<Rightarrow> (URET \<times> 'f device) option" where
  "BuildTreeStepOne dev =
     step_one_blocks [unat (par_start dev)..<unat (par_end dev) + 1]
       (upd_tree (\<lambda>t. t\<lparr>bad := None, bad_count := 0, erased := None, erased_tail := None, erased_count := 0\<rparr>) dev)"

subsection \<open>Step two\<close>

fun rotate_erased :: "nat \<Rightarrow> 'f device \<Rightarrow> URET \<times> 'f device" where
  "rotate_erased 0 dev = (U_SUCC, dev)"
| "rotate_erased (Suc n) dev =
     (case uffs_TreeGetErasedNodeNoCheck dev of
        (None, dev) \<Rightarrow> (U_FAIL, dev)
      | (Some node, dev) \<Rightarrow> rotate_erased n (uffs_TreeInsertToErasedListTailEx node (- 1) dev))"

definition BuildTreeStepTwo :: "u32 \<Rightarrow> 'f device \<Rightarrow> URET \<times> 'f device" where
  "BuildTreeStepTwo now dev = rotate_erased (unat (now mod (word_of_int (erased_count (tree dev) + 1)))) dev"

subsection \<open>Step three\<close>

definition orphan_data :: "nat \<Rightarrow> 'f device \<Rightarrow> 'f device option" where
  "orphan_data work dev = do {
     dev \<leftarrow> uffs_BreakFromEntry UFFS_TYPE_DATA work dev;
     erase_to_list work (da_block (nu dev work)) dev
   }"

text \<open>One hash chain of data nodes; \<open>cache\<close> and \<open>cacheSerial\<close> remember the last file looked up.\<close>

partial_function (option) step_three_chain ::
  "u16 \<Rightarrow> nat option \<Rightarrow> u16 \<Rightarrow> 'f device \<Rightarrow> (nat option \<times> u16 \<times> 'f device) option" where
  "step_three_chain x cache cacheSerial dev =
     (if x = EMPTY_NODE then Some (cache, cacheSerial, dev)
      else case FROM_IDX x dev of None \<Rightarrow> None
      | Some work \<Rightarrow> do {
          let parent = da_parent (nu dev work);
          node \<leftarrow> (if parent = cacheSerial then Some cache else uffs_TreeFindFileNode parent dev);
          let x = hash_next (tree_nodes dev work);
          (case node of
             None \<Rightarrow> do {
               dev \<leftarrow> orphan_data work dev;
               step_three_chain x node parent dev
             }
           | Some n \<Rightarrow>
               step_three_chain x node parent
                 (upd_u n (\<lambda>u. UFile (f_block u) (f_checksum u) (f_parent u) (f_serial u) (f_len u + da_len (nu dev work))) dev))
        })"

fun step_three_entries :: "nat list \<Rightarrow> nat option \<Rightarrow> u16 \<Rightarrow> 'f device \<Rightarrow> 'f device option" where
  "step_three_entries [] cache cacheSerial dev = Some dev"
| "step_three_entries (i # ks) cache cacheSerial dev = do {
     (cache, cacheSerial, dev) \<leftarrow> step_three_chain (data_entry (tree dev) ! i) cache cacheSerial dev;
     step_three_entries ks cache cacheSerial dev
   }"

definition BuildTreeStepThree :: "'f device \<Rightarrow> (URET \<times> 'f device) option" where
  "BuildTreeStepThree dev =
     map_option (Pair U_SUCC) (step_three_entries [0..<DATA_NODE_ENTRY_LEN] None INVALID_UFFS_SERIAL dev)"

definition recover_pending :: "'f device \<Rightarrow> 'f device option" where
  "recover_pending dev = (if HAVE_BADBLOCK (pending dev) then uffs_BadBlockRecover dev else Some dev)"

definition uffs_BuildTree :: "u32 \<Rightarrow> 'f device \<Rightarrow> (URET \<times> 'f device) option" where
  "uffs_BuildTree now dev = do {
     (ret, dev) \<leftarrow> BuildTreeStepOne dev;
     (if ret \<noteq> U_SUCC then Some (ret, dev)
      else do {
        dev \<leftarrow> recover_pending dev;
        let (ret, dev) = BuildTreeStepTwo now dev;
        (if ret \<noteq> U_SUCC then Some (ret, dev)
         else do {
           (ret, dev) \<leftarrow> BuildTreeStepThree dev;
           (if ret \<noteq> U_SUCC then Some (ret, dev)
            else do {
              dev \<leftarrow> recover_pending dev;
              Some (U_SUCC, dev)
            })
         })
      })
   }"

subsection \<open>Names\<close>

text \<open>\<open>None\<close> is a read behind the end of a string.\<close>

fun uffs_CompareFileName :: "bytes \<Rightarrow> nat \<Rightarrow> bytes \<Rightarrow> bool option" where
  "uffs_CompareFileName src 0 des = Some True"
| "uffs_CompareFileName (s # src) (Suc n) (d # des) = (if s \<noteq> d then Some False else uffs_CompareFileName src n des)"
| "uffs_CompareFileName _ (Suc n) _ = None"

definition uffs_TreeCompareFileName :: "bytes \<Rightarrow> nat \<Rightarrow> u16 \<Rightarrow> nat \<Rightarrow> u8 \<Rightarrow> 'f device \<Rightarrow> (bool \<times> 'f device) option" where
  "uffs_TreeCompareFileName name len csum node ty dev = do {
     (buf, dev) \<leftarrow> uffs_BufGetEx ty node 0 0 dev;
     (case buf of None \<Rightarrow> Some (False, dev)
      | Some x \<Rightarrow> do {
          fname \<leftarrow> fi_name (buf_data dev x);
          m \<leftarrow> (if uffs_MakeSum16 fname \<noteq> csum then Some False
               else if fi_name_len (buf_data dev x) = len then uffs_CompareFileName fname len name
               else Some False);
          Some (m, snd (uffs_BufPut (Some x) dev))
        })
   }"

partial_function (option) find_name :: "u8 \<Rightarrow> bytes \<Rightarrow> nat \<Rightarrow> u16 \<Rightarrow> (NodeU \<Rightarrow> bool) \<Rightarrow> u16 \<Rightarrow> 'f device \<Rightarrow> (nat option \<times> 'f device) option" where
  "find_name ty name len csum P x dev =
     (if x = EMPTY_NODE then Some (None, dev)
      else case FROM_IDX x dev of None \<Rightarrow> None
      | Some node \<Rightarrow> do {
          (m, dev) \<leftarrow> (if P (nu dev node) then uffs_TreeCompareFileName name len csum node ty dev else Some (False, dev));
          (if m then Some (Some node, dev) else find_name ty name len csum P (hash_next (tree_nodes dev node)) dev)
        })"

fun find_name_entries :: "u8 \<Rightarrow> bytes \<Rightarrow> nat \<Rightarrow> u16 \<Rightarrow> (NodeU \<Rightarrow> bool) \<Rightarrow> (Tree \<Rightarrow> u16 list) \<Rightarrow> nat list \<Rightarrow> 'f device \<Rightarrow>
    (nat option \<times> 'f device) option" where
  "find_name_entries ty name len csum P es [] dev = Some (None, dev)"
| "find_name_entries ty name len csum P es (i # ks) dev = do {
     (r, dev) \<leftarrow> find_name ty name len csum P (es (tree dev) ! i) dev;
     (case r of Some node \<Rightarrow> Some (Some node, dev) | None \<Rightarrow> find_name_entries ty name len csum P es ks dev)
   }"

definition uffs_TreeFindFileNodeByName :: "bytes \<Rightarrow> nat \<Rightarrow> u16 \<Rightarrow> u16 \<Rightarrow> 'f device \<Rightarrow> (nat option \<times> 'f device) option" where
  "uffs_TreeFindFileNodeByName name len csum parent =
     find_name_entries UFFS_TYPE_FILE name len csum (\<lambda>u. f_checksum u = csum \<and> f_parent u = parent) file_entry [0..<FILE_NODE_ENTRY_LEN]"

definition uffs_TreeFindDirNodeByName :: "bytes \<Rightarrow> nat \<Rightarrow> u16 \<Rightarrow> u16 \<Rightarrow> 'f device \<Rightarrow> (nat option \<times> 'f device) option" where
  "uffs_TreeFindDirNodeByName name len csum parent =
     find_name_entries UFFS_TYPE_DIR name len csum (\<lambda>u. d_checksum u = csum \<and> d_parent u = parent) dir_entry [0..<DIR_NODE_ENTRY_LEN]"

end
