(* ===== verification/Blank_Mount.thy ===== *)
theory Blank_Mount
  imports Build_Tree
begin

text \<open>
  Mounting an empty partition: the blocks are new or erased, some of them are marked bad. The
  theorem follows \<open>uffs_BuildTree\<close> through its three steps, with the driver, the cache of block
  information, the pool of tree nodes and the lists of erased and bad blocks working together.

  The scan needs one more law of the driver than reading: \<open>status_reader\<close> is a driver that tells a
  bad block from the status byte of a page. The emulator is one.
\<close>

section \<open>Drivers with a status byte\<close>

text \<open>A driver without a test for bad blocks of its own answers a call without buffers from the
  status byte of the page; \<open>marked f b p\<close> is a page whose status byte says that the block is bad.\<close>

locale status_reader = flash_reader +
  fixes marked :: "'a \<Rightarrow> nat \<Rightarrow> nat \<Rightarrow> bool"
  assumes no_test: "IsBadBlock D = None"
    and status: "ready f b p dl sl \<Longrightarrow>
       the (ReadPage D) (word_of_nat b) (word_of_nat p) None None None f =
         ((if marked f b p then UFFS_FLASH_BAD_BLK else UFFS_FLASH_NO_ERR, None, None, None), f)"

definition femu_marked :: "storage_attr \<Rightarrow> femu \<Rightarrow> nat \<Rightarrow> nat \<Rightarrow> bool" where
  "femu_marked at f b p \<longleftrightarrow> snd (femu_cell at f b p) ! unat (block_status_offs at) \<noteq> 0xFF"

definition femu_mountable :: "storage_attr \<Rightarrow> femu \<Rightarrow> nat \<Rightarrow> nat \<Rightarrow> nat \<Rightarrow> nat \<Rightarrow> bool" where
  "femu_mountable at f b p dl sl \<longleftrightarrow> femu_ready at f b p dl sl \<and> unat (block_status_offs at) < unat (spare_size at)"

lemma femu_status:
  assumes r: "femu_ready at f b p dl sl" and o: "unat (block_status_offs at) < unat (spare_size at)"
  shows "femu_ReadPage at (word_of_nat b) (word_of_nat p) None None None f =
    ((if femu_marked at f b p then UFFS_FLASH_BAD_BLK else UFFS_FLASH_NO_ERR, None, None, None), f)"
proof -
  let ?o = "page_at at b p * full_page_size at + unat (page_data_size at) + unat (block_status_offs at)"
  have "page_at at b p * full_page_size at + (unat (page_data_size at) + unat (spare_size at)) \<le> fe_size f"
    using page_fits[OF r] by (simp add: full_page_size_def)
  then have "fe_read ?o [0] f = (True, file_read ?o 1 (fe_file f))" using o by (subst fe_read_full) simp_all
  moreover have "file_read ?o 1 (fe_file f) ! 0 = snd (femu_cell at f b p) ! unat (block_status_offs at)"
    using o by (simp add: femu_cell_def file_read_def)
  moreover have "fe_open f" using r by (simp add: femu_ready_def)
  ultimately show ?thesis unfolding femu_ReadPage_def abs_page_at[OF r] Let_def by (simp add: femu_marked_def)
qed

interpretation femus: status_reader "g_femu_ops_ecc_soft at" "femu_cell at" "femu_mountable at" "femu_marked at" for at
proof unfold_locales
  show "ReadPageWithLayout (g_femu_ops_ecc_soft at) = None" "ReadPage (g_femu_ops_ecc_soft at) \<noteq> None"
    "IsBadBlock (g_femu_ops_ecc_soft at) = None" by (simp_all add: g_femu_ops_ecc_soft_def)
next
  fix f b p dl sl and d s e :: "bytes option"
  assume "femu_mountable at f b p dl sl" and a: "d \<noteq> None \<or> s \<noteq> None"
    and l: "\<And>x. d = Some x \<Longrightarrow> length x = dl" "\<And>x. s = Some x \<Longrightarrow> length x = sl"
  then have "femu_ready at f b p dl sl" by (simp add: femu_mountable_def)
  from femu.read[OF this a l] show "the (ReadPage (g_femu_ops_ecc_soft at)) (word_of_nat b) (word_of_nat p) d e s f =
      ((UFFS_FLASH_NO_ERR, map_option (\<lambda>_. take dl (fst (femu_cell at f b p))) d, e,
        map_option (\<lambda>_. take sl (snd (femu_cell at f b p))) s), f)" by blast
next
  fix f b p dl sl
  assume "femu_mountable at f b p dl sl"
  then show "dl \<le> length (fst (femu_cell at f b p)) \<and> sl \<le> length (snd (femu_cell at f b p))"
    "the (ReadPage (g_femu_ops_ecc_soft at)) (word_of_nat b) (word_of_nat p) None None None f =
      ((if femu_marked at f b p then UFFS_FLASH_BAD_BLK else UFFS_FLASH_NO_ERR, None, None, None), f)"
    using femu.cell_size femu_status by (auto simp: femu_mountable_def g_femu_ops_ecc_soft_def)
qed

section \<open>One block\<close>

text \<open>The first page of the block has an erased header and an erased tag.\<close>

definition blank :: "'f device \<Rightarrow> bytes \<times> bytes \<Rightarrow> bool" where
  "blank dev c \<longleftrightarrow> all_ones (take SIZEOF_MINIHEADER (fst c)) \<and> all_ones (take (nat (spare_data_size dev)) (snd c))"

context status_reader
begin

lemma IsBadBlock_status:
  assumes "ops dev = D" "ready (drv dev) b 0 dl sl" "ready (drv dev) b 1 dl sl"
  shows "uffs_FlashIsBadBlock (int b) dev = Some (marked (drv dev) b 0 \<or> marked (drv dev) b 1, dev)"
proof -
  obtain rd where rd: "ReadPage D = Some rd" using has_read by blast
  have "read_bad_mark (int b) (int p) dev = Some (marked (drv dev) b p, dev)" if "ready (drv dev) b p dl sl" for p
    using status[OF that] rd by (simp add: read_bad_mark_def assms(1) no_layout flash_codes)
  from this[OF assms(2)] this[OF assms(3)] show ?thesis
    by (simp add: uffs_FlashIsBadBlock_def assms(1) no_test)
qed

lemma blank_tag:
  assumes l: "layout_ok (attr dev) (nat (spare_data_size dev))" and b: "blank dev (d, s)" "nat (spare_data_size dev) \<le> length s"
  shows "cell_tag (attr dev) s = bytes_ts (replicate 8 0xFF)" "s ! (nat (spare_data_size dev) - 1) = 0xFF"
proof -
  let ?n = "nat (spare_data_size dev)"
  have f: "s ! q = 0xFF" if "q < ?n" for q
  proof -
    have "take ?n s ! q \<in> set (take ?n s)" using that b(2) by (intro nth_mem) simp
    then show ?thesis using b(1) that by (simp add: blank_def all_ones_def)
  qed
  note ok = spare_pos_ok[OF l]
  have "map ((!) s) (spare_pos (attr dev)) = map (\<lambda>_. 0xFF) (spare_pos (attr dev))"
    by (intro map_cong[OF refl] f) (use ok(3) in auto)
  then have "map ((!) s) (spare_pos (attr dev)) = replicate (nat (ecc_len (attr dev)) + 8) 0xFF"
    by (simp add: map_replicate_const ok(2))
  then show "cell_tag (attr dev) s = bytes_ts (replicate 8 0xFF)" by (simp add: cell_tag_def)
  show "s ! (?n - 1) = 0xFF" by (rule f) (use ok(4) in simp)
qed

lemma IsPageErased_blank:
  assumes dev: "ops dev = D" "spare_ready dev" and r: "ready (drv dev) b 0 dl (nat (spare_data_size dev))"
    and bl: "blank dev (cell (drv dev) b 0)"
    and x: "bi_block (bc_nodes dev x) = word_of_nat b" "b < 65536" "sp_expired (bi_spares (bc_nodes dev x) ! 0)"
      "bi_spares (bc_nodes dev x) \<noteq> []" "0 < ppb dev"
  shows "\<exists>m n. uffs_IsPageErased x 0 dev = Some (True, dev\<lparr>spare_mem := m, bc_nodes := n\<rparr>) \<and>
    uffs_BlockInfoLoad x 0 dev = Some (U_SUCC, dev\<lparr>spare_mem := m, bc_nodes := n\<rparr>) \<and>
    (\<forall>y. length (m y) = length (spare_mem dev y)) \<and> (\<forall>y. y \<noteq> x \<longrightarrow> n y = bc_nodes dev y) \<and>
    bi_block (n x) = bi_block (bc_nodes dev x) \<and> bi_ref_count (n x) = bi_ref_count (bc_nodes dev x)"
proof -
  define d s where "d = fst (cell (drv dev) b 0)" and "s = snd (cell (drv dev) b 0)"
  have l: "layout_ok (attr dev) (nat (spare_data_size dev))" using dev(2) by (simp add: spare_ready_def)
  have t: "cell_tag (attr dev) s = bytes_ts (replicate 8 0xFF)" "s ! (nat (spare_data_size dev) - 1) = 0xFF"
    using blank_tag[OF l, of d s] bl cell_size[OF r] by (simp_all add: d_def s_def)
  define T where "T = (GET_TAG dev x 0)\<lparr>tag_s := bytes_ts (replicate 8 0xFF), seal_byte := 0xFF\<rparr>"
  have e: "tag_erased T" unfolding T_def by (rule ones_tag)
  then have "read_tag_ecc (attr dev) UFFS_FLASH_NO_ERR (Some T) = (UFFS_FLASH_NO_ERR, Some T)"
    by (simp add: read_tag_ecc_def tag_erased_def flash_codes UFFS_FLASH_HAVE_ERR_def)
  then obtain m where m: "\<forall>y. length (m y) = length (spare_mem dev y)"
    "uffs_FlashReadPageTag (int b) 0 (Some (GET_TAG dev x 0)) dev = Some (UFFS_FLASH_NO_ERR, Some T, dev\<lparr>spare_mem := m\<rparr>)"
    using ReadPageTag_cell[OF dev r, of "GET_TAG dev x 0", folded s_def, unfolded t] by (auto simp: T_def)
  have u: "uint (word_of_nat b :: u16) = int b" using x(2) by (simp add: unsigned_of_nat take_bit_nat_eq_self)
  let ?n = "(bc_nodes dev)(x := (bc_nodes dev x)\<lparr>bi_spares := (bi_spares (bc_nodes dev x))[0 := (bi_spares (bc_nodes dev x) ! 0)\<lparr>sp_tag := T, sp_expired := False\<rparr>],
      bi_expired_count := bi_expired_count (bc_nodes dev x) - 1\<rparr>)"
  have load: "uffs_BlockInfoLoad x 0 dev = Some (U_SUCC, dev\<lparr>spare_mem := m, bc_nodes := ?n\<rparr>)"
    using x(3-5) m(2)
    by (simp add: uffs_BlockInfoLoad_def load_tag_def x(1) u Let_def uffs_BadBlockAddByFlashResult_def flash_codes
        UFFS_FLASH_HAVE_ERR_def UFFS_FLASH_IS_NON_RECOVER_BAD_BLOCK_def UFFS_FLASH_IS_BAD_BLOCK_def mark_loaded_def set_spare_def
        upd_bi_def UFFS_ALL_PAGES_def)
  have "GET_TAG (dev\<lparr>spare_mem := m, bc_nodes := ?n\<rparr>) x 0 = T" using x(4) by (simp add: GET_TAG_def)
  then have "uffs_IsPageErased x 0 dev = Some (True, dev\<lparr>spare_mem := m, bc_nodes := ?n\<rparr>)"
    using load e by (simp add: uffs_IsPageErased_def)
  then show ?thesis using load m(1) by (intro exI[of _ m] exI[of _ ?n]) simp
qed

lemma LoadMiniHeader_blank:
  assumes dev: "ops dev = D" and r: "ready (drv dev) b 0 SIZEOF_MINIHEADER sl" and bl: "blank dev (cell (drv dev) b 0)"
    and h: "length header = SIZEOF_MINIHEADER"
  shows "\<exists>header'. uffs_LoadMiniHeader (int b) 0 header dev =
    Some (U_SUCC, header', dev\<lparr>page_header_read_count := page_header_read_count dev + 1\<rparr>) \<and> header' ! 0 = 0xFF"
proof -
  obtain rd where rd: "ReadPage D = Some rd" using has_read by blast
  define d where "d = take SIZEOF_MINIHEADER (fst (cell (drv dev) b 0))"
  have "the (ReadPage D) (word_of_nat b) (word_of_nat 0) (Some header) None None (drv dev) =
      ((UFFS_FLASH_NO_ERR, map_option (\<lambda>_. take SIZEOF_MINIHEADER (fst (cell (drv dev) b 0))) (Some header), None,
        map_option (\<lambda>_. take sl (snd (cell (drv dev) b 0))) (None :: bytes option)), drv dev)"
    by (rule read[OF r]) (use h in auto)
  then have c: "rd (word_of_nat b) 0 (Some header) None None (drv dev) = ((UFFS_FLASH_NO_ERR, Some d, None, None), drv dev)"
    by (simp add: rd d_def)
  have l: "length d = SIZEOF_MINIHEADER" using cell_size[OF r] by (simp add: d_def)
  then have "d ! 0 \<in> set d" by (intro nth_mem) (simp add: SIZEOF_MINIHEADER_def)
  then have f: "d ! 0 = 0xFF" using bl by (simp add: blank_def all_ones_def d_def)
  have "memcpy header 0 d = d" using h l by (intro memcpy_all) simp
  then show ?thesis using f h
    by (simp add: uffs_LoadMiniHeader_def dev no_layout rd c Let_def flash_codes UFFS_FLASH_HAVE_ERR_def)
qed

end


section \<open>The scan\<close>

text \<open>What the scan does not change.\<close>

definition scan_frame :: "'f device \<Rightarrow> 'f device \<Rightarrow> bool" where
  "scan_frame dev d \<longleftrightarrow> d\<lparr>spare_mem := spare_mem dev, bc_nodes := bc_nodes dev, bc_head := bc_head dev, bc_tail := bc_tail dev,
      page_header_read_count := page_header_read_count dev, tree_nodes := tree_nodes dev, tree := tree dev, tree_pool := tree_pool dev\<rparr> = dev \<and>
     (\<forall>y. length (spare_mem d y) = length (spare_mem dev y)) \<and>
     dir_entry (tree d) = dir_entry (tree dev) \<and> file_entry (tree d) = file_entry (tree dev) \<and> data_entry (tree d) = data_entry (tree dev)"

lemma scan_frame_refl [simp]: "scan_frame dev dev"
  by (simp add: scan_frame_def)

lemma scan_frame_trans: "scan_frame a b \<Longrightarrow> scan_frame b c \<Longrightarrow> scan_frame a c"
proof -
  assume ab: "scan_frame a b" and bc: "scan_frame b c"
  let ?to = "\<lambda>a d. d\<lparr>spare_mem := spare_mem a, bc_nodes := bc_nodes a, bc_head := bc_head a, bc_tail := bc_tail a,
      page_header_read_count := page_header_read_count a, tree_nodes := tree_nodes a, tree := tree a, tree_pool := tree_pool a\<rparr>"
  have "?to a c = ?to a (?to b c)" by simp
  also have "\<dots> = a" using ab bc by (simp add: scan_frame_def)
  finally show "scan_frame a c" using ab bc by (simp add: scan_frame_def)
qed

lemma scan_frame_fields:
  assumes "scan_frame dev d"
  shows "ops d = ops dev" "drv d = drv dev" "attr d = attr dev" "spare_pool d = spare_pool dev" "ppb d = ppb dev"
    "spare_data_size d = spare_data_size dev" "uninit d = uninit dev" "pending d = pending dev" "spare_ready d = spare_ready dev"
proof -
  note e = conjunct1[OF assms[unfolded scan_frame_def]]
  show f: "ops d = ops dev" "drv d = drv dev" "attr d = attr dev" "spare_pool d = spare_pool dev" "ppb d = ppb dev"
    "spare_data_size d = spare_data_size dev" "uninit d = uninit dev" "pending d = pending dev"
    using arg_cong[OF e, of ops] arg_cong[OF e, of drv] arg_cong[OF e, of attr] arg_cong[OF e, of spare_pool]
      arg_cong[OF e, of spare_data_size] arg_cong[OF e, of uninit] arg_cong[OF e, of pending]
    by (simp_all add: ppb_def)
  show "spare_ready d = spare_ready dev" using assms f by (simp add: spare_ready_def scan_frame_def)
qed

lemma scan_frame_steps:
  "bc_frame dev d \<Longrightarrow> scan_frame dev d"
  "scan_frame dev (uffs_BlockInfoPut x dev)"
  "scan_frame dev (dev\<lparr>tree_pool := q\<rparr>)" "scan_frame dev (dev\<lparr>page_header_read_count := c\<rparr>)"
  "(\<And>y. length (m y) = length (spare_mem dev y)) \<Longrightarrow> scan_frame dev (dev\<lparr>spare_mem := m, bc_nodes := n\<rparr>)"
  "scan_frame dev (upd_u a f dev)" "scan_frame dev (uffs_TreeInsertToBadBlockList a dev)"
  "scan_frame dev (uffs_TreeInsertToErasedListTailEx a k dev)"
proof -
  show "bc_frame dev d \<Longrightarrow> scan_frame dev d" by (erule bc_frameE) (simp add: scan_frame_def)
  show "scan_frame dev (uffs_BlockInfoPut x dev)"
    by (simp add: uffs_BlockInfoPut_def upd_bi_def scan_frame_def split: option.split)
  show "scan_frame dev (uffs_TreeInsertToBadBlockList a dev)"
    by (simp add: uffs_TreeInsertToBadBlockList_def Let_def upd_tree_def upd_u_def upd_node_def scan_frame_def split: option.split)
  show "scan_frame dev (uffs_TreeInsertToErasedListTailEx a k dev)"
    by (cases "k \<ge> 0"; cases "erased_tail (tree dev)"; cases "erased (tree dev)")
      (simp_all add: uffs_TreeInsertToErasedListTailEx_def Let_def upd_tree_def upd_u_def upd_node_def scan_frame_def)
qed (simp_all add: scan_frame_def upd_u_def upd_node_def)

text \<open>The cache while the blocks \<open>ks\<close> are still to come, and the nodes: the erased blocks \<open>gs\<close>,
  the bad blocks \<open>bs\<close>, and enough free nodes for the rest.\<close>

definition cache_idle :: "nat list \<Rightarrow> 'f device \<Rightarrow> bool" where
  "cache_idle ks d \<longleftrightarrow> (\<exists>xs. bc_inv d xs \<and>
     (\<forall>x \<in> set xs. bi_ref_count (bc_nodes d x) = 0 \<and> unat (bi_block (bc_nodes d x)) \<notin> set ks))"

definition node_lists :: "'f device \<Rightarrow> nat list \<Rightarrow> nat list \<Rightarrow> nat list \<Rightarrow> bool" where
  "node_lists d es ys fl \<longleftrightarrow> erased_list d es \<and> bad_list d ys \<and>
     chain (p_next (tree_pool d)) (p_free_list (tree_pool d)) fl \<and> distinct (es @ ys @ fl)"

definition block_of :: "'f device \<Rightarrow> nat \<Rightarrow> nat" where
  "block_of d a = unat (l_block (nu d a))"

lemma node_lists_cong:
  assumes "tree_nodes d' = tree_nodes d"
  shows "tree d' = tree d \<Longrightarrow> tree_pool d' = tree_pool d \<Longrightarrow> node_lists d' = node_lists d" "block_of d' = block_of d"
proof -
  have "ln d' = ln d" "nu d' = nu d" using assms by (simp_all add: ln_def nu_def fun_eq_iff)
  then show "tree d' = tree d \<Longrightarrow> tree_pool d' = tree_pool d \<Longrightarrow> node_lists d' = node_lists d" "block_of d' = block_of d"
    by (auto simp: node_lists_def erased_list_def bad_list_def block_of_def intro!: ext)
qed

text \<open>A node that was taken from the pool.\<close>

lemma node_taken:
  fixes d d' :: "'f device" and b :: u16
  assumes l: "node_lists d es ys (a # fl)" and q: "tree_pool d' = (tree_pool d)\<lparr>p_free_list := p_next (tree_pool d) a\<rparr>"
    and t: "tree d' = tree d" "tree_nodes d' = tree_nodes d"
  defines "u \<equiv> upd_u a (set_l_block b) d'"
  shows "erased_list u es" "bad_list u ys" "chain (p_next (tree_pool u)) (p_free_list (tree_pool u)) fl"
    "distinct (es @ ys @ a # fl)" "block_of u y = (if y = a then unat b else block_of d y)"
    "is_list (nu u a)" "y \<in> set (es @ ys) \<Longrightarrow> is_list (nu u y)"
proof -
  have e: "erased_list d' es" "bad_list d' ys"
    using node_lists_cong(1)[of "d'\<lparr>tree_pool := tree_pool d\<rparr>" d] l t links_kept_tree[OF t(2)]
    by (auto simp: node_lists_def intro: erased_list_kept bad_list_kept)
  have f: "is_list (set_l_block b w) \<and> l_next (set_l_block b w) = l_next (as_list w)" for w by simp
  show eu: "erased_list u es" "bad_list u ys" unfolding u_def by (rule upd_list_ok[OF f], rule e)+
  show "chain (p_next (tree_pool u)) (p_free_list (tree_pool u)) fl" using l q by (simp add: node_lists_def u_def)
  show "distinct (es @ ys @ a # fl)" using l by (simp add: node_lists_def)
  show "block_of u y = (if y = a then unat b else block_of d y)"
    by (simp add: u_def block_of_def nu_def t(2))
  show "is_list (nu u a)" by (simp add: u_def)
  show "y \<in> set (es @ ys) \<Longrightarrow> is_list (nu u y)" using eu by (auto simp: erased_list_def bad_list_def)
qed

lemma add_bad:
  fixes d d' :: "'f device" and b :: u16
  assumes l: "node_lists d es ys (a # fl)" and q: "tree_pool d' = (tree_pool d)\<lparr>p_free_list := p_next (tree_pool d) a\<rparr>"
    and t: "tree d' = tree d" "tree_nodes d' = tree_nodes d"
  defines "e \<equiv> uffs_TreeInsertToBadBlockList a (upd_u a (set_l_block b) d')"
  shows "node_lists e es (a # ys) fl" "map (block_of e) es = map (block_of d) es"
    "map (block_of e) (a # ys) = unat b # map (block_of d) ys"
proof -
  note u = node_taken[OF l q t]
  have n: "a \<notin> set ys" "a \<notin> set es" using u(4) by auto
  note i = InsertToBadBlockList_ok[OF u(2)[where b = b] n(1), folded e_def]
  have "block_of e y = block_of (upd_u a (set_l_block b) d') y" if "y \<in> set (a # es @ ys)" for y
    using i(4)[of y] u(6) u(7)[where b = b and y = y] that by (auto simp: block_of_def)
  then have b: "block_of e y = (if y = a then unat b else block_of d y)" if "y \<in> set (a # es @ ys)" for y
    using that u(5)[where b = b and y = y] by auto
  show "node_lists e es (a # ys) fl" using i(1,2,5) u(1,3,4) n by (auto simp: node_lists_def)
  show "map (block_of e) es = map (block_of d) es" "map (block_of e) (a # ys) = unat b # map (block_of d) ys"
    using b n by auto
qed

lemma add_erased_node:
  fixes d d' :: "'f device" and b :: u16 and k :: int
  assumes l: "node_lists d es ys (a # fl)" and q: "tree_pool d' = (tree_pool d)\<lparr>p_free_list := p_next (tree_pool d) a\<rparr>"
    and t: "tree d' = tree d" "tree_nodes d' = tree_nodes d"
  defines "e \<equiv> uffs_TreeInsertToErasedListTailEx a k (upd_u a (set_l_block b) d')"
  shows "node_lists e (es @ [a]) ys fl" "map (block_of e) (es @ [a]) = map (block_of d) es @ [unat b]"
    "map (block_of e) ys = map (block_of d) ys"
proof -
  let ?u = "upd_u a (set_l_block b) d'"
  note u = node_taken[OF l q t]
  have n: "a \<notin> set es" "a \<notin> set ys" using u(4) by auto
  note i = ErasedTailEx_ok[OF u(1)[where b = b] n(1), where c = k, folded e_def]
  have fr: "tree_pool e = tree_pool ?u" "bad (tree e) = bad (tree ?u)" "bad_count (tree e) = bad_count (tree ?u)"
    using i(2) by (auto simp: list_frame_def)
  have "links_kept (set ys) ?u e" using i(2) u(4) by (auto simp: links_kept_def list_frame_def nu_def ln_def)
  then have bl: "bad_list e ys" by (rule bad_list_kept[OF u(2)]) (fact fr)+
  have "block_of e y = block_of ?u y" if "y \<in> set (a # es @ ys)" for y
    using i(2) u(6) u(7)[where b = b and y = y] that by (auto simp: block_of_def list_frame_def)
  then have b: "block_of e y = (if y = a then unat b else block_of d y)" if "y \<in> set (a # es @ ys)" for y
    using that u(5)[where b = b and y = y] by auto
  show "node_lists e (es @ [a]) ys fl" using i(1) bl u(3,4) fr(1) by (auto simp: node_lists_def)
  show "map (block_of e) (es @ [a]) = map (block_of d) es @ [unat b]" "map (block_of e) ys = map (block_of d) ys"
    using b n by auto
qed

text \<open>Getting the cache node of the next block.\<close>

lemma cache_next:
  assumes c: "cache_idle (k # ks) d" and k: "k < 65536" "k \<notin> set ks" "0 < ppb d"
  obtains x xs d' where "uffs_BlockInfoGet (int k) d = Some (Some x, d')" "bc_frame d d'" "bc_inv d' xs" "x \<in> set xs"
    "bi_block (bc_nodes d' x) = word_of_nat k" "bi_ref_count (bc_nodes d' x) = 1"
    "sp_expired (bi_spares (bc_nodes d' x) ! 0)" "bi_spares (bc_nodes d' x) \<noteq> []"
    "\<forall>y \<in> set xs. y \<noteq> x \<longrightarrow> bi_ref_count (bc_nodes d' y) = 0 \<and> unat (bi_block (bc_nodes d' y)) \<notin> set ks"
proof -
  obtain xs where xs: "bc_inv d xs" "\<forall>x \<in> set xs. bi_ref_count (bc_nodes d x) = 0 \<and> unat (bi_block (bc_nodes d x)) \<notin> set (k # ks)"
    using c by (auto simp: cache_idle_def)
  let ?b = "word_of_nat k :: u16"
  have ub: "unat ?b = k" "uint ?b = int k" using k(1) by (simp_all add: unsigned_of_nat take_bit_nat_eq_self)
  have nc: "?b \<notin> (\<lambda>y. bi_block (bc_nodes d y)) ` set xs" using xs(2) ub(1) by force
  have ne: "xs \<noteq> []" using xs(1) by (auto simp: bc_inv_def)
  obtain r d' where r: "uffs_BlockInfoGet (int k) d = Some (r, d')" "bc_frame d d'"
    "case r of None \<Rightarrow> d' = d \<and> (\<forall>x \<in> set xs. bi_block (bc_nodes d x) \<noteq> ?b \<and> bi_ref_count (bc_nodes d x) \<noteq> 0)
     | Some x \<Rightarrow> x \<in> set xs \<and> bc_inv d' (remove1 x xs @ [x]) \<and>
         (\<forall>y. y \<noteq> x \<longrightarrow> bi_data (bc_nodes d' y) = bi_data (bc_nodes d y)) \<and>
         List.find (\<lambda>y. bi_ref_count (bc_nodes d y) = 0) xs = Some x \<and>
         bi_data (bc_nodes d' x) = (?b, map (\<lambda>s. s\<lparr>sp_expired := True\<rparr>) (bi_spares (bc_nodes d x)), int (ppb d), 1)"
    using BlockInfoGet_lru[OF xs(1), of ?b, unfolded ub(2) if_not_P[OF nc]] by blast
  obtain z where "z \<in> set xs" using ne by (cases xs) auto
  with r(3) xs(2) obtain x where x: "r = Some x" by (cases r) auto
  have X: "x \<in> set xs" "bc_inv d' (remove1 x xs @ [x])"
    "\<forall>y. y \<noteq> x \<longrightarrow> bi_data (bc_nodes d' y) = bi_data (bc_nodes d y)"
    "bi_data (bc_nodes d' x) = (?b, map (\<lambda>s. s\<lparr>sp_expired := True\<rparr>) (bi_spares (bc_nodes d x)), int (ppb d), 1)"
    using r(3) by (simp_all add: x)
  have len: "0 < length (bi_spares (bc_nodes d x))" using bc_invD(3)[OF xs(1) X(1)] k(3) by (simp add: bi_ok_def)
  show thesis
  proof (rule that[OF r(1)[unfolded x] r(2) X(2)])
    show "x \<in> set (remove1 x xs @ [x])" by simp
    show "bi_block (bc_nodes d' x) = ?b" "bi_ref_count (bc_nodes d' x) = 1" "sp_expired (bi_spares (bc_nodes d' x) ! 0)"
      "bi_spares (bc_nodes d' x) \<noteq> []"
      using X(4) len by (auto simp: bi_data_def)
    show "\<forall>y \<in> set (remove1 x xs @ [x]). y \<noteq> x \<longrightarrow> bi_ref_count (bc_nodes d' y) = 0 \<and> unat (bi_block (bc_nodes d' y)) \<notin> set ks"
    proof (intro ballI impI)
      fix y assume y: "y \<in> set (remove1 x xs @ [x])" "y \<noteq> x"
      then have "y \<in> set xs" using set_remove1_subset[of x xs] by auto
      then show "bi_ref_count (bc_nodes d' y) = 0 \<and> unat (bi_block (bc_nodes d' y)) \<notin> set ks"
        using X(3) xs(2) y(2) by (auto simp: bi_data_def)
    qed
  qed
qed

lemma cache_put:
  assumes i: "bc_inv d xs" "x \<in> set xs" "bi_ref_count (bc_nodes d x) = 1" "unat (bi_block (bc_nodes d x)) \<notin> set ks"
    and o: "\<forall>y \<in> set xs. y \<noteq> x \<longrightarrow> bi_ref_count (bc_nodes d y) = 0 \<and> unat (bi_block (bc_nodes d y)) \<notin> set ks"
  shows "cache_idle ks (uffs_BlockInfoPut (Some x) d)"
proof -
  have "bi_ref_count (bc_nodes (uffs_BlockInfoPut (Some x) d) y) = (if y = x then 0 else bi_ref_count (bc_nodes d y))"
    "bi_block (bc_nodes (uffs_BlockInfoPut (Some x) d) y) = bi_block (bc_nodes d y)" for y
    using i(3) by (simp_all add: uffs_BlockInfoPut_def)
  then show ?thesis using Put_inv[OF i(1,2)] i(4) o by (auto simp: cache_idle_def)
qed

text \<open>The tree operations leave the cache alone, and putting a block leaves the tree alone.\<close>

lemma cache_same: "bc_nodes d' = bc_nodes d \<Longrightarrow> bc_head d' = bc_head d \<Longrightarrow> bc_tail d' = bc_tail d \<Longrightarrow> ppb d' = ppb d \<Longrightarrow>
    bc_inv d' xs = bc_inv d xs"
  by (simp add: bc_inv_def)

lemma tree_ops_cache [simp]:
  "bc_nodes (upd_u a f d) = bc_nodes d" "bc_head (upd_u a f d) = bc_head d" "bc_tail (upd_u a f d) = bc_tail d" "ppb (upd_u a f d) = ppb d"
  "bc_nodes (uffs_TreeInsertToBadBlockList a d) = bc_nodes d" "bc_head (uffs_TreeInsertToBadBlockList a d) = bc_head d"
  "bc_tail (uffs_TreeInsertToBadBlockList a d) = bc_tail d" "ppb (uffs_TreeInsertToBadBlockList a d) = ppb d"
  "bc_nodes (uffs_TreeInsertToErasedListTailEx a k d) = bc_nodes d" "bc_head (uffs_TreeInsertToErasedListTailEx a k d) = bc_head d"
  "bc_tail (uffs_TreeInsertToErasedListTailEx a k d) = bc_tail d" "ppb (uffs_TreeInsertToErasedListTailEx a k d) = ppb d"
  by (auto simp: uffs_TreeInsertToBadBlockList_def uffs_TreeInsertToErasedListTailEx_def Let_def upd_tree_def upd_u_def upd_node_def
      ppb_def split: option.split)

lemma put_tree [simp]:
  "tree (uffs_BlockInfoPut x d) = tree d" "tree_nodes (uffs_BlockInfoPut x d) = tree_nodes d"
  "tree_pool (uffs_BlockInfoPut x d) = tree_pool d"
  by (auto simp: uffs_BlockInfoPut_def upd_bi_def split: option.split)

section \<open>One step of the scan\<close>

definition scanned :: "'f device \<Rightarrow> nat list \<Rightarrow> nat list \<Rightarrow> nat list \<Rightarrow> 'f device \<Rightarrow> bool" where
  "scanned dev ks gs bs d \<longleftrightarrow> scan_frame dev d \<and> cache_idle ks d \<and>
     (\<exists>es ys fl. node_lists d es ys fl \<and> length ks \<le> length fl \<and> map (block_of d) es = gs \<and> map (block_of d) ys = rev bs)"

text \<open>The partition can be scanned: every block is marked bad or starts with a blank page. The
  parameters are the laws of the driver: which pages can be read, what they hold, and which are
  marked.\<close>

definition scan_ok :: "('f \<Rightarrow> nat \<Rightarrow> nat \<Rightarrow> nat \<Rightarrow> nat \<Rightarrow> bool) \<Rightarrow> ('f \<Rightarrow> nat \<Rightarrow> nat \<Rightarrow> bytes \<times> bytes) \<Rightarrow> ('f \<Rightarrow> nat \<Rightarrow> nat \<Rightarrow> bool) \<Rightarrow>
    'f device \<Rightarrow> nat \<Rightarrow> bool" where
  "scan_ok rdy cl mk dev b \<longleftrightarrow> b < 65536 \<and> rdy (drv dev) b 0 SIZEOF_MINIHEADER (nat (spare_data_size dev)) \<and>
     rdy (drv dev) b 1 SIZEOF_MINIHEADER (nat (spare_data_size dev)) \<and>
     (\<not> (mk (drv dev) b 0 \<or> mk (drv dev) b 1) \<longrightarrow> blank dev (cl (drv dev) b 0))"

context status_reader
begin

abbreviation is_bad :: "'a device \<Rightarrow> nat \<Rightarrow> bool" where
  "is_bad dev b \<equiv> marked (drv dev) b 0 \<or> marked (drv dev) b 1"

abbreviation scannable :: "'a device \<Rightarrow> nat \<Rightarrow> bool" where
  "scannable \<equiv> scan_ok ready cell marked"

lemma classify_scan:
  assumes dev: "ops dev = D" "spare_ready dev" "SIZEOF_MINIHEADER \<le> length (uninit dev)" "0 < ppb dev"
    and b: "scannable dev b"
    and x: "bc_inv dev xs" "x \<in> set xs" "bi_block (bc_nodes dev x) = word_of_nat b" "sp_expired (bi_spares (bc_nodes dev x) ! 0)"
      "bi_spares (bc_nodes dev x) \<noteq> []"
  shows "if is_bad dev b
    then classify_block a x (word_of_nat b) dev = Some (U_SUCC, uffs_TreeInsertToBadBlockList a (upd_u a (set_l_block (word_of_nat b)) dev))
    else \<exists>m n c. classify_block a x (word_of_nat b) dev = Some (U_SUCC, uffs_TreeInsertToErasedListTailEx a 1 (upd_u a (set_l_block (word_of_nat b))
             (dev\<lparr>spare_mem := m, bc_nodes := n, page_header_read_count := c\<rparr>))) \<and>
           (\<forall>y. length (m y) = length (spare_mem dev y)) \<and> bc_inv (dev\<lparr>spare_mem := m, bc_nodes := n\<rparr>) xs \<and>
           (\<forall>y. bi_block (n y) = bi_block (bc_nodes dev y) \<and> bi_ref_count (n y) = bi_ref_count (bc_nodes dev y))"
proof -
  have r: "ready (drv dev) b 0 SIZEOF_MINIHEADER (nat (spare_data_size dev))" "ready (drv dev) b 1 SIZEOF_MINIHEADER (nat (spare_data_size dev))"
    and lt: "b < 65536" using b by (simp_all add: scan_ok_def)
  have u: "uint (word_of_nat b :: u16) = int b" using lt by (simp add: unsigned_of_nat take_bit_nat_eq_self)
  note bad = IsBadBlock_status[OF dev(1) r]
  show ?thesis
  proof (cases "is_bad dev b")
    case True
    then show ?thesis using bad by (simp add: classify_block_def u)
  next
    case False
    then have bl: "blank dev (cell (drv dev) b 0)" using b by (auto simp: scan_ok_def)
    obtain m n where e: "uffs_IsPageErased x 0 dev = Some (True, dev\<lparr>spare_mem := m, bc_nodes := n\<rparr>)"
      "uffs_BlockInfoLoad x 0 dev = Some (U_SUCC, dev\<lparr>spare_mem := m, bc_nodes := n\<rparr>)"
      "\<forall>y. length (m y) = length (spare_mem dev y)" "\<forall>y. y \<noteq> x \<longrightarrow> n y = bc_nodes dev y"
      "bi_block (n x) = bi_block (bc_nodes dev x)" "bi_ref_count (n x) = bi_ref_count (bc_nodes dev x)"
      using IsPageErased_blank[OF dev(1,2) r(1) bl x(3) lt x(4,5) dev(4)] by blast
    let ?d = "dev\<lparr>spare_mem := m, bc_nodes := n\<rparr>"
    have i: "bc_inv ?d xs" using Load_inv[OF e(2) x(1,2)] by simp
    have "ops ?d = D" "ready (drv ?d) b 0 SIZEOF_MINIHEADER (nat (spare_data_size ?d))" "blank ?d (cell (drv ?d) b 0)"
      using dev(1) r(1) bl by (simp_all add: blank_def)
    moreover have "length (take SIZEOF_MINIHEADER (uninit ?d)) = SIZEOF_MINIHEADER" using dev(3) by simp
    ultimately obtain h where h: "uffs_LoadMiniHeader (int b) 0 (take SIZEOF_MINIHEADER (uninit ?d)) ?d =
        Some (U_SUCC, h, ?d\<lparr>page_header_read_count := page_header_read_count ?d + 1\<rparr>)" "h ! 0 = 0xFF"
      using LoadMiniHeader_blank by blast
    have "classify_block a x (word_of_nat b) dev = Some (U_SUCC, uffs_TreeInsertToErasedListTailEx a 1 (upd_u a (set_l_block (word_of_nat b))
        (?d\<lparr>page_header_read_count := page_header_read_count ?d + 1\<rparr>)))"
      using bad False e(1) h by (simp add: classify_block_def add_erased_def u flash_codes UFFS_FLASH_IS_BAD_BLOCK_def)
    moreover have "\<forall>y. bi_block (n y) = bi_block (bc_nodes dev y) \<and> bi_ref_count (n y) = bi_ref_count (bc_nodes dev y)"
      using e(4-6) by metis
    ultimately show ?thesis using False e(3) i
      by (intro if_not_P[THEN iffD2]) (auto intro!: exI[of _ m] exI[of _ n] exI[of _ "page_header_read_count dev + 1"])
  qed
qed


lemma scannable_frame: "scan_frame dev d \<Longrightarrow> scannable d = scannable dev \<and> is_bad d = is_bad dev"
  by (simp add: scan_ok_def blank_def scan_frame_fields fun_eq_iff)

lemma scan_step:
  assumes dev: "ops dev = D" "spare_ready dev" "SIZEOF_MINIHEADER \<le> length (uninit dev)" "0 < ppb dev"
    and s: "scanned dev (k # ks) gs bs d" and k: "k \<notin> set ks" "scannable dev k"
  shows "\<exists>d'. step_one_blocks (k # ks) d = step_one_blocks ks d' \<and>
    scanned dev ks (if is_bad dev k then gs else gs @ [k]) (if is_bad dev k then bs @ [k] else bs) d'"
proof -
  have lt: "k < 65536" using k(2) by (simp add: scan_ok_def)
  then have ub: "unat (word_of_nat k :: u16) = k" by (simp add: unsigned_of_nat take_bit_nat_eq_self)
  have fr: "scan_frame dev d" and ci: "cache_idle (k # ks) d" using s by (simp_all add: scanned_def)
  obtain es ys fl0 where n0: "node_lists d es ys fl0" "length (k # ks) \<le> length fl0"
    "map (block_of d) es = gs" "map (block_of d) ys = rev bs" using s by (auto simp: scanned_def)
  then obtain a fl where n: "node_lists d es ys (a # fl)" "length ks \<le> length fl" by (cases fl0) auto
  have "0 < ppb d" using dev(4) by (simp add: scan_frame_fields[OF fr])
  from cache_next[OF ci lt k(1) this] obtain x xs d1 where g: "uffs_BlockInfoGet (int k) d = Some (Some x, d1)" "bc_frame d d1"
    and c: "bc_inv d1 xs" "x \<in> set xs" "bi_block (bc_nodes d1 x) = word_of_nat k" "bi_ref_count (bc_nodes d1 x) = 1"
      "sp_expired (bi_spares (bc_nodes d1 x) ! 0)" "bi_spares (bc_nodes d1 x) \<noteq> []"
    and o: "\<forall>y \<in> set xs. y \<noteq> x \<longrightarrow> bi_ref_count (bc_nodes d1 y) = 0 \<and> unat (bi_block (bc_nodes d1 y)) \<notin> set ks" .
  obtain n1 h1 t1 where d1: "d1 = d\<lparr>bc_nodes := n1, bc_head := h1, bc_tail := t1\<rparr>" by (rule bc_frameE[OF g(2)])
  define q where "q = (tree_pool d)\<lparr>p_free_list := p_next (tree_pool d) a\<rparr>"
  have pg: "uffs_PoolGet (tree_pool d1) = (Some a, q)"
    using n(1) by (simp add: d1 uffs_PoolGet_def node_lists_def q_def)
  define d2 where "d2 = d1\<lparr>tree_pool := q\<rparr>"
  have t2: "tree_pool d2 = (tree_pool d)\<lparr>p_free_list := p_next (tree_pool d) a\<rparr>" "tree d2 = tree d" "tree_nodes d2 = tree_nodes d"
    by (simp_all add: d2_def d1 q_def)
  have f2: "scan_frame dev d2"
    unfolding d2_def by (rule scan_frame_trans[OF fr scan_frame_trans[OF scan_frame_steps(1)[OF g(2)] scan_frame_steps(3)]])
  have c2: "bc_inv d2 xs" "bc_nodes d2 = bc_nodes d1" using c(1) by (simp_all add: d2_def cache_same[of d2 d1] bc_inv_def ppb_def)
  have run: "step_one_blocks (k # ks) d = step_one_blocks ks (uffs_BlockInfoPut (Some x) d3)"
    if "classify_block a x (word_of_nat k) d2 = Some (U_SUCC, d3)" for d3
    using g(1) pg that by (simp add: d2_def)
  have cl: "if is_bad dev k
    then classify_block a x (word_of_nat k) d2 = Some (U_SUCC, uffs_TreeInsertToBadBlockList a (upd_u a (set_l_block (word_of_nat k)) d2))
    else \<exists>m n c. classify_block a x (word_of_nat k) d2 = Some (U_SUCC, uffs_TreeInsertToErasedListTailEx a 1 (upd_u a (set_l_block (word_of_nat k))
             (d2\<lparr>spare_mem := m, bc_nodes := n, page_header_read_count := c\<rparr>))) \<and>
           (\<forall>y. length (m y) = length (spare_mem d2 y)) \<and> bc_inv (d2\<lparr>spare_mem := m, bc_nodes := n\<rparr>) xs \<and>
           (\<forall>y. bi_block (n y) = bi_block (bc_nodes d2 y) \<and> bi_ref_count (n y) = bi_ref_count (bc_nodes d2 y))"
    using classify_scan[of d2 k xs x a] dev k(2) c c2 by (simp add: scan_frame_fields[OF f2] scannable_frame[OF f2])
  show ?thesis
  proof (cases "is_bad dev k")
    case True
    define d3 where "d3 = uffs_TreeInsertToBadBlockList a (upd_u a (set_l_block (word_of_nat k)) d2)"
    have r: "classify_block a x (word_of_nat k) d2 = Some (U_SUCC, d3)" using cl True by (simp add: d3_def)
    note b = add_bad[OF n(1) t2, of "word_of_nat k", folded d3_def]
    have "bc_inv d3 xs = bc_inv d2 xs" "bc_nodes d3 = bc_nodes d2" by (rule cache_same) (simp_all add: d3_def)
    then have "bc_inv d3 xs" "bc_nodes d3 = bc_nodes d1" using c2 by (simp_all only:)
    then have "cache_idle ks (uffs_BlockInfoPut (Some x) d3)" using c o k(1) ub by (intro cache_put) auto
    moreover have "scan_frame dev (uffs_BlockInfoPut (Some x) d3)"
      unfolding d3_def by (rule scan_frame_trans[OF f2 scan_frame_trans[OF scan_frame_steps(6) scan_frame_trans[OF scan_frame_steps(7,2)]]])
    moreover have "node_lists (uffs_BlockInfoPut (Some x) d3) es (a # ys) fl" "map (block_of (uffs_BlockInfoPut (Some x) d3)) es = gs"
      "map (block_of (uffs_BlockInfoPut (Some x) d3)) (a # ys) = rev (bs @ [k])"
      using b n0(3,4) ub node_lists_cong[of "uffs_BlockInfoPut (Some x) d3" d3] by (simp_all del: map_eq_conv)
    ultimately have "scanned dev ks gs (bs @ [k]) (uffs_BlockInfoPut (Some x) d3)"
      using n(2) unfolding scanned_def by blast
    then show ?thesis using run[OF r] True by auto
  next
    case False
    then obtain m nn cc where e: "classify_block a x (word_of_nat k) d2 = Some (U_SUCC, uffs_TreeInsertToErasedListTailEx a 1
          (upd_u a (set_l_block (word_of_nat k)) (d2\<lparr>spare_mem := m, bc_nodes := nn, page_header_read_count := cc\<rparr>)))"
      "\<forall>y. length (m y) = length (spare_mem d2 y)" "bc_inv (d2\<lparr>spare_mem := m, bc_nodes := nn\<rparr>) xs"
      "\<forall>y. bi_block (nn y) = bi_block (bc_nodes d2 y) \<and> bi_ref_count (nn y) = bi_ref_count (bc_nodes d2 y)"
      using cl by auto
    define d3 where "d3 = d2\<lparr>spare_mem := m, bc_nodes := nn, page_header_read_count := cc\<rparr>"
    define d4 where "d4 = uffs_TreeInsertToErasedListTailEx a 1 (upd_u a (set_l_block (word_of_nat k)) d3)"
    have t3: "tree_pool d3 = (tree_pool d)\<lparr>p_free_list := p_next (tree_pool d) a\<rparr>" "tree d3 = tree d" "tree_nodes d3 = tree_nodes d"
      using t2 by (simp_all add: d3_def)
    note b = add_erased_node[OF n(1) t3, where b = "word_of_nat k" and k = 1, folded d4_def]
    have "bc_inv d4 xs = bc_inv (d2\<lparr>spare_mem := m, bc_nodes := nn\<rparr>) xs" "bc_nodes d4 = nn"
      by (rule cache_same) (simp_all add: d4_def d3_def, simp_all add: ppb_def)
    then have "bc_inv d4 xs" "bc_nodes d4 = nn" using e(3) by (simp_all only:)
    then have "cache_idle ks (uffs_BlockInfoPut (Some x) d4)" using c o k(1) ub e(4) c2(2) by (intro cache_put) auto
    moreover have "scan_frame d2 d3"
      unfolding d3_def by (rule scan_frame_trans[OF scan_frame_steps(5) scan_frame_steps(4)]) (use e(2) in blast)
    then have "scan_frame dev (uffs_BlockInfoPut (Some x) d4)"
      unfolding d4_def
      by (intro scan_frame_trans[OF f2 scan_frame_trans[OF _ scan_frame_trans[OF scan_frame_steps(6) scan_frame_trans[OF scan_frame_steps(8,2)]]]])
    moreover have "node_lists (uffs_BlockInfoPut (Some x) d4) (es @ [a]) ys fl"
      "map (block_of (uffs_BlockInfoPut (Some x) d4)) (es @ [a]) = gs @ [k]" "map (block_of (uffs_BlockInfoPut (Some x) d4)) ys = rev bs"
      using b n0(3,4) ub node_lists_cong[of "uffs_BlockInfoPut (Some x) d4" d4] by (simp_all del: map_eq_conv)
    ultimately have "scanned dev ks (gs @ [k]) bs (uffs_BlockInfoPut (Some x) d4)"
      using n(2) unfolding scanned_def by blast
    then show ?thesis using run[OF e(1)[folded d3_def, folded d4_def]] False by auto
  qed
qed

lemma scan_blocks:
  assumes dev: "ops dev = D" "spare_ready dev" "SIZEOF_MINIHEADER \<le> length (uninit dev)" "0 < ppb dev"
  shows "scanned dev ks gs bs d \<Longrightarrow> distinct ks \<Longrightarrow> \<forall>k \<in> set ks. scannable dev k \<Longrightarrow>
    \<exists>d'. step_one_blocks ks d = Some (U_SUCC, d') \<and>
      scanned dev [] (gs @ filter (\<lambda>k. \<not> is_bad dev k) ks) (bs @ filter (is_bad dev) ks) d'"
proof (induction ks arbitrary: gs bs d)
  case (Cons k ks)
  have k: "k \<notin> set ks" "scannable dev k" "distinct ks" "\<forall>k \<in> set ks. scannable dev k" using Cons.prems(2,3) by simp_all
  obtain d' where d': "step_one_blocks (k # ks) d = step_one_blocks ks d'"
    "scanned dev ks (if is_bad dev k then gs else gs @ [k]) (if is_bad dev k then bs @ [k] else bs) d'"
    using scan_step[OF dev Cons.prems(1) k(1,2)] by blast
  show ?case using Cons.IH[OF d'(2) k(3,4)] unfolding d'(1) by (auto split: if_splits)
qed simp

end

section \<open>The rotation\<close>

lemma list_frame_trans: "list_frame A a b \<Longrightarrow> list_frame B b c \<Longrightarrow> list_frame (A \<union> B) a c"
proof -
  assume ab: "list_frame A a b" and bc: "list_frame B b c"
  obtain N e t k where b: "b = a\<lparr>tree_nodes := N, tree := (tree a)\<lparr>erased := e, erased_tail := t, erased_count := k\<rparr>\<rparr>"
    using ab by (auto simp: list_frame_def)
  obtain N' e' t' k' where c: "c = b\<lparr>tree_nodes := N', tree := (tree b)\<lparr>erased := e', erased_tail := t', erased_count := k'\<rparr>\<rparr>"
    using bc by (auto simp: list_frame_def)
  have "c = a\<lparr>tree_nodes := N', tree := (tree a)\<lparr>erased := e', erased_tail := t', erased_count := k'\<rparr>\<rparr>"
    unfolding c b by simp
  moreover have "(\<forall>y. y \<notin> A \<union> B \<longrightarrow> tree_nodes c y = tree_nodes a y) \<and>
      (\<forall>y. is_list (nu a y) \<longrightarrow> is_list (nu c y) \<and> l_block (nu c y) = l_block (nu a y))"
    using ab bc by (auto simp: list_frame_def)
  ultimately show ?thesis unfolding list_frame_def by blast
qed

lemma list_frame_refl: "list_frame A d d"
proof -
  have "d = d\<lparr>tree_nodes := tree_nodes d, tree := (tree d)\<lparr>erased := erased (tree d), erased_tail := erased_tail (tree d),
      erased_count := erased_count (tree d)\<rparr>\<rparr>" by simp
  then show ?thesis unfolding list_frame_def by blast
qed

lemma rotate_erased_ok:
  "erased_list d xs \<Longrightarrow> xs \<noteq> [] \<or> n = 0 \<Longrightarrow>
   \<exists>d'. rotate_erased n d = (U_SUCC, d') \<and> erased_list d' (rotate n xs) \<and> list_frame (set xs) d d'"
proof (induction n arbitrary: d xs)
  case 0
  then show ?case using list_frame_refl by simp
next
  case (Suc n)
  then obtain a ys where xs: "xs = a # ys" by (cases xs) auto
  have a: "a \<notin> set ys" using chain_distinct[of "ln d" "erased (tree d)" xs] Suc.prems(1) xs by (simp add: erased_list_def)
  obtain d1 where d1: "uffs_TreeGetErasedNodeNoCheck d = (Some a, d1)" "erased_list d1 ys" "list_frame {a} d d1"
    using GetErasedNodeNoCheck_ok(2)[OF Suc.prems(1) xs] by blast
  let ?d = "uffs_TreeInsertToErasedListTailEx a (- 1) d1"
  note i = ErasedTailEx_ok[OF d1(2) a, of "- 1"]
  obtain d' where d': "rotate_erased n ?d = (U_SUCC, d')" "erased_list d' (rotate n (ys @ [a]))" "list_frame (set (ys @ [a])) ?d d'"
    using Suc.IH[OF i(1)] by auto
  have "list_frame (set xs) d d'"
    using list_frame_trans[OF d1(3) list_frame_trans[OF i(2) d'(3)]] by (simp add: xs insert_commute)
  moreover have "rotate (Suc n) xs = rotate n (ys @ [a])" by (simp add: xs rotate1_rotate_swap)
  ultimately show ?case using d' by (simp add: d1(1))
qed

section \<open>The third step\<close>

lemma step_three_empty:
  "\<forall>i \<in> set ks. data_entry (tree d) ! i = EMPTY_NODE \<Longrightarrow> step_three_entries ks c s d = Some d"
  by (induction ks) (simp_all add: step_three_chain.simps)

section \<open>The whole mount\<close>

lemma scan_start:
  assumes c: "cache_idle ks dev" and p: "chain (p_next (tree_pool dev)) (p_free_list (tree_pool dev)) fl" "length ks \<le> length fl"
  shows "scanned dev ks [] [] (upd_tree (\<lambda>t. t\<lparr>bad := None, bad_count := 0, erased := None, erased_tail := None, erased_count := 0\<rparr>) dev)"
    (is "scanned dev ks [] [] ?d")
proof -
  have "bc_inv ?d = bc_inv dev" by (intro ext cache_same) (simp_all add: upd_tree_def ppb_def)
  then have "cache_idle ks ?d" using c by (simp add: cache_idle_def upd_tree_def)
  moreover have "scan_frame dev ?d" by (simp add: scan_frame_def upd_tree_def)
  moreover have "node_lists ?d [] [] fl"
    using p(1) chain_distinct[OF p(1)] by (simp add: node_lists_def erased_list_def bad_list_def upd_tree_def)
  ultimately show ?thesis using p(2) unfolding scanned_def by (metis list.map(1) rev.simps(1))
qed

lemma list_frame_fields:
  assumes "list_frame A d d'"
  shows "drv d' = drv d" "pending d' = pending d" "bc_inv d' = bc_inv d" "bc_nodes d' = bc_nodes d"
    "bad (tree d') = bad (tree d)" "bad_count (tree d') = bad_count (tree d)" "dir_entry (tree d') = dir_entry (tree d)"
    "file_entry (tree d') = file_entry (tree d)" "data_entry (tree d') = data_entry (tree d)"
  using assms by (auto simp: list_frame_def bc_inv_def ppb_def intro!: ext)

lemma list_frame_blocks:
  assumes "list_frame A d d'" "\<forall>y \<in> set xs. is_list (nu d y)"
  shows "map (block_of d') xs = map (block_of d) xs"
  using assms by (auto simp: list_frame_def block_of_def)

lemma rotation_ok:
  assumes l: "node_lists d es ys fl"
  shows "\<exists>d'. BuildTreeStepTwo now d = (U_SUCC, d') \<and> erased_list d' (rotate (unat (now mod word_of_nat (length es + 1))) es) \<and>
    bad_list d' ys \<and> map (block_of d') es = map (block_of d) es \<and> map (block_of d') ys = map (block_of d) ys \<and> list_frame (set es) d d'"
proof -
  let ?n = "unat (now mod word_of_nat (length es + 1))"
  have e: "erased_list d es" "bad_list d ys" "distinct (es @ ys)" using l by (auto simp: node_lists_def)
  then have c: "erased_count (tree d) + 1 = int (length es + 1)" by (simp add: erased_list_def)
  have "es \<noteq> [] \<or> ?n = 0" by (cases es) simp_all
  from rotate_erased_ok[OF e(1) this] obtain d' where d': "rotate_erased ?n d = (U_SUCC, d')" "erased_list d' (rotate ?n es)"
    "list_frame (set es) d d'" by blast
  have "BuildTreeStepTwo now d = (U_SUCC, d')" using d'(1) unfolding BuildTreeStepTwo_def c by simp
  moreover have "links_kept (set ys) d d'" using d'(3) e(3) by (auto simp: links_kept_def list_frame_def nu_def ln_def)
  then have "bad_list d' ys" by (rule bad_list_kept[OF e(2)]) (simp_all add: list_frame_fields[OF d'(3)])
  moreover have "map (block_of d') zs = map (block_of d) zs" if "zs = es \<or> zs = ys" for zs
    using that e(1,2) by (intro list_frame_blocks[OF d'(3)]) (auto simp: erased_list_def bad_list_def)
  ultimately show ?thesis using d'(2,3) by blast
qed

context status_reader
begin

lemma build_blank:
  assumes dev: "ops dev = D" "spare_ready dev" "SIZEOF_MINIHEADER \<le> length (uninit dev)" "0 < ppb dev"
    and pn: "\<not> HAVE_BADBLOCK (pending dev)"
    and ks: "ks = [unat (par_start dev)..<unat (par_end dev) + 1]" "\<forall>k \<in> set ks. scannable dev k"
    and c: "cache_idle ks dev"
    and p: "chain (p_next (tree_pool dev)) (p_free_list (tree_pool dev)) fl" "length ks \<le> length fl"
    and e: "data_entry (tree dev) = replicate DATA_NODE_ENTRY_LEN EMPTY_NODE"
  defines "gs \<equiv> filter (\<lambda>k. \<not> is_bad dev k) ks"
  shows "\<exists>dev' es ys. uffs_BuildTree now dev = Some (U_SUCC, dev') \<and> drv dev' = drv dev \<and> pending dev' = pending dev \<and>
    erased_list dev' es \<and> map (block_of dev') es = rotate (unat (now mod word_of_nat (length gs + 1))) gs \<and>
    bad_list dev' ys \<and> map (block_of dev') ys = rev (filter (is_bad dev) ks) \<and> cache_idle [] dev' \<and>
    dir_entry (tree dev') = dir_entry (tree dev) \<and> file_entry (tree dev') = file_entry (tree dev) \<and>
    data_entry (tree dev') = data_entry (tree dev)"
proof -
  have "distinct ks" by (simp add: ks(1))
  from scan_blocks[OF dev scan_start[OF c p] this ks(2)] obtain d1 where d1: "BuildTreeStepOne dev = Some (U_SUCC, d1)"
    "scanned dev [] gs (filter (is_bad dev) ks) d1"
    unfolding BuildTreeStepOne_def ks(1)[symmetric] by (auto simp: gs_def)
  then obtain es ys fl' where l: "node_lists d1 es ys fl'" "map (block_of d1) es = gs" "map (block_of d1) ys = rev (filter (is_bad dev) ks)"
    and f: "scan_frame dev d1" and i: "cache_idle [] d1" by (auto simp: scanned_def)
  have n: "length es = length gs" using arg_cong[OF l(2), of length] by simp
  obtain d2 where d2: "BuildTreeStepTwo now d1 = (U_SUCC, d2)" "erased_list d2 (rotate (unat (now mod word_of_nat (length gs + 1))) es)"
    "bad_list d2 ys" "map (block_of d2) es = gs" "map (block_of d2) ys = rev (filter (is_bad dev) ks)" "list_frame (set es) d1 d2"
    using rotation_ok[OF l(1), of now] l(2,3) n by auto
  note g = list_frame_fields[OF d2(6)] and h = scan_frame_fields[OF f]
  have t: "dir_entry (tree d1) = dir_entry (tree dev)" "file_entry (tree d1) = file_entry (tree dev)" "data_entry (tree d1) = data_entry (tree dev)"
    using f by (simp_all add: scan_frame_def)
  have "BuildTreeStepThree d2 = Some (U_SUCC, d2)"
    using step_three_empty[of "[0..<DATA_NODE_ENTRY_LEN]" d2] by (simp add: BuildTreeStepThree_def g t e)
  then have "uffs_BuildTree now dev = Some (U_SUCC, d2)"
    using pn by (simp add: uffs_BuildTree_def d1(1) d2(1) recover_pending_def g h)
  moreover have "map (block_of d2) (rotate (unat (now mod word_of_nat (length gs + 1))) es) =
      rotate (unat (now mod word_of_nat (length gs + 1))) gs" by (subst rotate_map[symmetric]) (simp only: d2(4))
  moreover have "cache_idle [] d2" using i by (simp add: cache_idle_def g)
  moreover have "drv d2 = drv dev" "pending d2 = pending dev" "dir_entry (tree d2) = dir_entry (tree dev)"
    "file_entry (tree d2) = file_entry (tree dev)" "data_entry (tree d2) = data_entry (tree dev)" by (simp_all add: g h t)
  ultimately show ?thesis using d2(2,3,5) by blast
qed

end

text \<open>The blocks of a partition on the emulator.\<close>

definition femu_scannable :: "femu device \<Rightarrow> nat \<Rightarrow> bool" where
  "femu_scannable dev = scan_ok (femu_mountable (attr dev)) (femu_cell (attr dev)) (femu_marked (attr dev)) dev"

definition marked_bad :: "femu device \<Rightarrow> nat \<Rightarrow> bool" where
  "marked_bad dev b \<longleftrightarrow> femu_marked (attr dev) (drv dev) b 0 \<or> femu_marked (attr dev) (drv dev) b 1"

text \<open>C9. Mounting an empty partition, whose blocks are each marked bad or start with a blank page,
  succeeds without changing the flash: the nodes of the good blocks make the list of erased blocks,
  rotated by the current time modulo one more than their number, those of the bad blocks the list
  of bad blocks, newest first; the hash tables stay empty and no block information is in use.\<close>

theorem BuildTree_empty:
  fixes dev :: "femu device"
  assumes dev: "ops dev = g_femu_ops_ecc_soft (attr dev)" "spare_ready dev" "SIZEOF_MINIHEADER \<le> length (uninit dev)" "0 < ppb dev"
    and pn: "\<not> HAVE_BADBLOCK (pending dev)"
    and ks: "ks = [unat (par_start dev)..<unat (par_end dev) + 1]" "\<forall>k \<in> set ks. femu_scannable dev k"
    and c: "cache_idle ks dev"
    and p: "chain (p_next (tree_pool dev)) (p_free_list (tree_pool dev)) fl" "length ks \<le> length fl"
    and e: "data_entry (tree dev) = replicate DATA_NODE_ENTRY_LEN EMPTY_NODE"
  defines "good \<equiv> filter (\<lambda>k. \<not> marked_bad dev k) ks"
  shows "\<exists>dev' es ys. uffs_BuildTree now dev = Some (U_SUCC, dev') \<and> drv dev' = drv dev \<and> pending dev' = pending dev \<and>
    erased_list dev' es \<and> map (block_of dev') es = rotate (unat (now mod word_of_nat (length good + 1))) good \<and>
    bad_list dev' ys \<and> map (block_of dev') ys = rev (filter (marked_bad dev) ks) \<and> cache_idle [] dev' \<and>
    dir_entry (tree dev') = dir_entry (tree dev) \<and> file_entry (tree dev') = file_entry (tree dev) \<and>
    data_entry (tree dev') = data_entry (tree dev)"
  using femus.build_blank[OF dev pn ks[unfolded femu_scannable_def] c p e, of now]
  unfolding good_def marked_bad_def[abs_def] .

text \<open>The sample device with 128 blocks, block 2 marked bad.\<close>

definition sample_blank :: "femu device" where
  "sample_blank = snd (uffs_TreeInit (sample_cached\<lparr>drv := sample_femu\<lparr>fe_file := (\<lambda>_. 0xFF)(2 * 32 * 528 + 512 + 5 := 0)\<rparr>\<rparr>))"

lemma sample_blank_fields:
  "attr sample_blank = sample_attr" "ops sample_blank = g_femu_ops_ecc_soft sample_attr" "pending sample_blank = pending sample_dev"
  "drv sample_blank = sample_femu\<lparr>fe_file := (\<lambda>_. 0xFF)(34309 := 0)\<rparr>" "par_start sample_blank = 0" "par_end sample_blank = 127"
  "length (uninit sample_blank) = 40" "ppb sample_blank = 32" "spare_data_size sample_blank = 16" "spare_ready sample_blank"
  "data_entry (tree sample_blank) = replicate DATA_NODE_ENTRY_LEN EMPTY_NODE" "cache_idle [0..<128] sample_blank"
  "\<exists>fl. chain (p_next (tree_pool sample_blank)) (p_free_list (tree_pool sample_blank)) fl \<and> length fl = 128"
proof -
  obtain dev' where d: "uffs_BlockInfoInitCache (int 10) sample_dev = Some (U_SUCC, dev')" "bc_inv dev' [0..<10]"
    "\<And>x. x < 10 \<Longrightarrow> bi_block (bc_nodes dev' x) = UFFS_INVALID_BLOCK \<and> bi_ref_count (bc_nodes dev' x) = 0 \<and>
       (\<forall>i < ppb sample_dev. tag_expired dev' x i)" "bc_frame sample_dev dev'"
    by (rule InitCache_inv[of sample_dev 10]) (simp_all add: SIZEOF_BLOCKINFO_def SIZEOF_PAGESPARE_def)
  then have e: "sample_cached = dev'" by (simp only: sample_cached_def option.sel snd_conv)
  obtain n h t where f: "dev' = sample_dev\<lparr>bc_nodes := n, bc_head := h, bc_tail := t\<rparr>" by (rule bc_frameE[OF d(4)])
  define d0 where "d0 = sample_cached\<lparr>drv := sample_femu\<lparr>fe_file := (\<lambda>_. 0xFF)(34309 := 0)\<rparr>\<rparr>"
  have b: "sample_blank = snd (uffs_TreeInit d0)" by (simp add: sample_blank_def d0_def)
  have d0: "par_start d0 = 0" "par_end d0 = 127" "tree_nodes_pool_buf d0 = Some 8192" "tree_nodes_pool_size d0 = 4096"
    by (simp_all add: d0_def e f)
  obtain p t' where r: "sample_blank = d0\<lparr>tree_pool := p, tree := t'\<rparr>" "data_entry t' = replicate DATA_NODE_ENTRY_LEN EMPTY_NODE"
    unfolding b by (simp add: uffs_TreeInit_def d0 SIZEOF_TREENODE_def upd_tree_def Let_def)
  obtain d1 where "uffs_TreeInit d0 = (U_SUCC, d1)" "pool_inv (tree_pool d1) (map (slot_addr (tree_pool d1)) [0..<nat 128])"
    using TreeInit_run[of d0 8192] by (auto simp: d0 SIZEOF_TREENODE_def)
  then have "pool_inv (tree_pool sample_blank) (map (slot_addr (tree_pool sample_blank)) [0..<128])" by (simp add: b)
  then show "\<exists>fl. chain (p_next (tree_pool sample_blank)) (p_free_list (tree_pool sample_blank)) fl \<and> length fl = 128"
    by (auto simp: pool_inv_def)
  show "data_entry (tree sample_blank) = replicate DATA_NODE_ENTRY_LEN EMPTY_NODE" by (simp add: r)
  show "attr sample_blank = sample_attr" "ops sample_blank = g_femu_ops_ecc_soft sample_attr" "pending sample_blank = pending sample_dev"
    "drv sample_blank = sample_femu\<lparr>fe_file := (\<lambda>_. 0xFF)(34309 := 0)\<rparr>" "par_start sample_blank = 0" "par_end sample_blank = 127"
    "length (uninit sample_blank) = 40" "spare_data_size sample_blank = 16"
    by (simp_all add: r d0_def e f sample_attr_fields)
  show "ppb sample_blank = 32" using sample_ppb by (simp add: r d0_def e f ppb_def)
  have "spare_ready sample_fs" using sample_fs_ready(1) by (simp add: femu_writable_def)
  then show "spare_ready sample_blank" by (simp add: spare_ready_def sample_fs_ok r d0_def e f)
  have "bc_inv sample_blank = bc_inv dev'" by (intro ext cache_same) (simp_all add: r d0_def e ppb_def)
  moreover have "bc_nodes sample_blank = bc_nodes dev'" by (simp add: r d0_def e)
  ultimately show "cache_idle [0..<128] sample_blank"
    using d(2,3) by (auto simp: cache_idle_def UFFS_INVALID_BLOCK_def intro!: exI[of _ "[0..<10]"])
qed

lemma sample_cell:
  "\<forall>x \<in> set (fst (femu_cell sample_attr f b 0)) \<union> set (snd (femu_cell sample_attr f b 0)). \<exists>j < 528. x = fe_file f (16896 * b + j)"
  "snd (femu_cell sample_attr f b p) ! 5 = fe_file f ((32 * b + p) * 528 + 517)"
proof -
  have r: "x \<in> set (file_read (16896 * b + s) n m) \<Longrightarrow> s + n \<le> 528 \<Longrightarrow> \<exists>j < 528. x = m (16896 * b + j)" for x s n and m :: "nat \<Rightarrow> u8"
  proof -
    assume "x \<in> set (file_read (16896 * b + s) n m)" "s + n \<le> 528"
    then obtain k where "k < n" "x = m (16896 * b + (s + k))"
      by (auto simp: file_read_def le_iff_add add.assoc)
    then show ?thesis using \<open>s + n \<le> 528\<close> by (intro exI[of _ "s + k"]) simp
  qed
  show "\<forall>x \<in> set (fst (femu_cell sample_attr f b 0)) \<union> set (snd (femu_cell sample_attr f b 0)). \<exists>j < 528. x = fe_file f (16896 * b + j)"
    using r[of _ 0 512 "fe_file f"] r[of _ 512 16 "fe_file f"]
    by (auto simp: femu_cell_def sample_attr_fields page_at_def full_page_size_def)
  show "snd (femu_cell sample_attr f b p) ! 5 = fe_file f ((32 * b + p) * 528 + 517)"
    by (simp add: femu_cell_def file_read_def sample_attr_fields page_at_def full_page_size_def) (simp add: add.commute add.left_commute)
qed

lemma sample_status: "block_status_offs sample_attr = 5"
  by (simp add: sample_attr_def InitSpareLayout_def attr512_def Let_def)

lemma sample_blank_marked: "marked_bad sample_blank b = (b = 2)"
proof -
  have "b \<le> 1 \<or> b = 2 \<or> 3 \<le> b" by linarith
  then have "(32 * b + 1) * 528 + 517 \<noteq> (34309 :: nat) \<and> ((32 * b + 0) * 528 + 517 = (34309 :: nat)) = (b = 2)"
    by (elim disjE) auto
  then show ?thesis
    by (simp only: marked_bad_def femu_marked_def sample_blank_fields sample_status unat_numeral sample_cell(2)
        fun_upd_apply femu.simps if_False) (simp add: sample_cell(2))
qed

lemma sample_blank_scan: "b < 128 \<Longrightarrow> femu_scannable sample_blank b"
proof -
  assume b: "b < 128"
  have r: "femu_ready sample_attr (drv sample_blank) b p 4 16" if "p < 2" for p
    using b that by (simp add: femu_ready_def sample_blank_fields sample_attr_fields sample_femu_def full_page_size_def)
  have "blank sample_blank (femu_cell sample_attr (drv sample_blank) b 0)" if "b \<noteq> 2"
  proof -
    have "b \<le> 1 \<or> 3 \<le> b" using that by linarith
    then have "16896 * b + j \<noteq> (34309 :: nat)" if "j < 528" for j using that by (elim disjE; linarith)
    then have "\<forall>x \<in> set (fst (femu_cell sample_attr (drv sample_blank) b 0)) \<union> set (snd (femu_cell sample_attr (drv sample_blank) b 0)). x = 0xFF"
      using sample_cell(1)[of "drv sample_blank" b] by (fastforce simp: sample_blank_fields)
    then show ?thesis by (auto simp: blank_def all_ones_def dest: in_set_takeD)
  qed
  then show ?thesis using b r[of 0] r[of 1] sample_blank_marked[of b]
    by (auto simp: femu_scannable_def scan_ok_def femu_mountable_def SIZEOF_MINIHEADER_def sample_blank_fields(1,9) sample_attr_fields(5)
        marked_bad_def sample_status)
qed

theorem BuildTree_empty_witness:
  "\<exists>dev' es ys. uffs_BuildTree 3 sample_blank = Some (U_SUCC, dev') \<and>
     erased_list dev' es \<and> map (block_of dev') es = [4..<128] @ [0, 1, 3] \<and> bad_list dev' ys \<and> map (block_of dev') ys = [2]"
proof -
  obtain fl where fl: "chain (p_next (tree_pool sample_blank)) (p_free_list (tree_pool sample_blank)) fl" "length fl = 128"
    using sample_blank_fields by blast
  have f: "ops sample_blank = g_femu_ops_ecc_soft (attr sample_blank)" "SIZEOF_MINIHEADER \<le> length (uninit sample_blank)"
    "0 < ppb sample_blank" "\<not> HAVE_BADBLOCK (pending sample_blank)"
    "[0..<128] = [unat (par_start sample_blank)..<unat (par_end sample_blank) + 1]" "length [0..<128] \<le> length fl"
    by (simp_all add: sample_blank_fields SIZEOF_MINIHEADER_def HAVE_BADBLOCK_def sample_dev_def fl(2) del: upt_rec_numeral)
  have ks: "\<forall>k \<in> set [0..<128]. femu_scannable sample_blank k" using sample_blank_scan by (simp del: upt_rec_numeral)
  obtain dev' es ys where r: "uffs_BuildTree 3 sample_blank = Some (U_SUCC, dev')" "erased_list dev' es"
    "map (block_of dev') es = rotate (unat ((3 :: u32) mod word_of_nat (length (filter (\<lambda>k. k \<noteq> 2) [0..<128]) + 1)))
       (filter (\<lambda>k. k \<noteq> 2) [0..<128])"
    "bad_list dev' ys" "map (block_of dev') ys = rev (filter (\<lambda>k. k = 2) [0..<128])"
    using BuildTree_empty[OF f(1) sample_blank_fields(10) f(2-5) ks sample_blank_fields(12) fl(1) f(6) sample_blank_fields(11), of 3]
    unfolding sample_blank_marked[abs_def] by blast
  have u: "[0..<128 :: nat] = 0 # 1 # 2 # 3 # [4..<128]" by (simp add: upt_conv_Cons)
  then have g: "filter (\<lambda>k. k \<noteq> 2) [0..<128 :: nat] = 0 # 1 # 3 # [4..<128]" "filter (\<lambda>k. k = 2) [0..<128 :: nat] = [2]"
    by (simp_all only: filter.simps) simp_all
  have "rotate 3 xs = rotate1 (rotate1 (rotate1 xs))" for xs :: "nat list" by (simp add: numeral_3_eq_3)
  then have "rotate 3 (filter (\<lambda>k. k \<noteq> 2) [0..<128]) = [4..<128] @ [0, 1, 3 :: nat]"
    unfolding g by (simp only: rotate1.simps append_assoc append.simps)
  moreover have "length (filter (\<lambda>k. k \<noteq> 2) [0..<128 :: nat]) = 127" unfolding g by simp
  moreover have "unat ((3 :: u32) mod word_of_nat (127 + 1)) = 3" by simp
  ultimately have "map (block_of dev') es = [4..<128] @ [0, 1, 3]" using r(3) by (simp only:)
  moreover have "map (block_of dev') ys = [2]" using r(5) unfolding g by simp
  ultimately show ?thesis using r(1,2,4) by (intro exI[of _ dev'] exI[of _ es] exI[of _ ys] conjI)
qed

end
