(* ===== verification/Group_Flush.thy ===== *)
theory Group_Flush
  imports Buf_Flush
begin

text \<open>
  Flushing a dirty group by appending its pages to the block of the object: \<open>_BufFlush\<close> and
  \<open>uffs_BufFlush_Exist_With_Enough_FreePage\<close> of \<open>uffs_buf.c\<close>, as translated in \<open>Buf_Flush\<close>, with the
  cache of block information, the page scans, the dirty groups and the driver working together.

  The lemmas on the loop hold for every driver with the laws of \<open>flash_driver\<close>. The theorems show
  for the emulator that a group whose block is cached and has room is written to the flash
  completely and in order, and that the pages are found and read back.
\<close>

section \<open>Devices that can write\<close>

text \<open>A device that can write: its driver is \<open>D\<close>, the layout fits, two spare buffers are free.\<close>

definition can_store :: "'f flash_ops \<Rightarrow> 'f device \<Rightarrow> bool" where
  "can_store D dev \<longleftrightarrow> ops dev = D \<and> spare_ready dev \<and> spare_ready (snd (get_spare dev)) \<and> ecc_room dev \<and>
     layout_opt (attr dev) \<noteq> UFFS_LAYOUT_FLASH \<and> 4 \<le> unat (pg_size dev)"

lemma femu_writable_iff: "femu_writable dev \<longleftrightarrow> can_store (g_femu_ops_ecc_soft (attr dev)) dev"
  by (simp add: femu_writable_def can_store_def)

lemma can_store_cong:
  assumes "can_store D dev" "ops d = ops dev" "attr d = attr dev" "pg_size d = pg_size dev"
    "spare_data_size d = spare_data_size dev" "uninit d = uninit dev" "spare_pool d = spare_pool dev"
    "\<forall>x. length (spare_mem d x) = length (spare_mem dev x)"
  shows "can_store D d"
  using assms by (auto simp: can_store_def spare_ready_def ecc_room_def get_spare_def uffs_PoolGet_def case_prod_unfold
      Let_def split: option.splits)

section \<open>A buffer leaves its group\<close>

text \<open>What a buffer holds, without its links and its mark.\<close>

definition content :: "Buf \<Rightarrow> bytes \<times> u8 \<times> u16 \<times> u16 \<times> u16 \<times> u16" where
  "content b = (b_page b, b_type b, b_parent b, b_serial b, b_page_id b, b_data_len b)"

lemma content_views: "undirty b = undirty b' \<or> unlinked b = unlinked b' \<Longrightarrow> content b = content b'"
  by (cases b; cases b') (auto simp: content_def undirty_def unlinked_def)

lemma content_mark [simp]: "content (b\<lparr>b_mark := m\<rparr>) = content b"
  by (simp add: content_def)

lemma clean_buf_ok:
  assumes inv: "buf_inv dev xs cs G" and s: "s < nat (dirty_groups dev)" and x: "x \<in> set (G s)"
  obtains d d' where "BreakFromDirty x dev = (U_SUCC, d)"
    "d' = MoveNodeToHead x (upd_buf x (\<lambda>b. b\<lparr>b_mark := UFFS_BUF_VALID\<rparr>) d)"
    "buf_inv d' (x # remove1 x xs) cs (G(s := remove1 x (G s)))" "buf_frame dev d'"
    "\<And>y. content (bufs d' y) = content (bufs dev y)" "b_mark (bufs d' x) = UFFS_BUF_VALID"
    "\<And>y. y \<noteq> x \<Longrightarrow> b_mark (bufs d' y) = b_mark (bufs dev y)"
proof -
  have di: "dirty_inv dev (set xs) G" and pi: "pages_inv dev xs cs" using inv by (simp_all add: buf_inv_def)
  have xs: "x \<in> set xs" using dirty_invD(4)[OF di s] x by blast
  obtain d where d: "BreakFromDirty x dev = (U_SUCC, d)" "dirty_inv d (set xs - {x}) (G(s := remove1 x (G s)))"
    "\<And>y. undirty (bufs d y) = undirty (bufs dev y)" "\<And>y. b_mark (bufs d y) = b_mark (bufs dev y)" "buf_frame dev d"
    "buf_head d = buf_head dev" "buf_tail d = buf_tail dev" "buf_clone d = buf_clone dev"
    by (rule BreakFromDirty_ok[OF di s x]) blast
  let ?d = "upd_buf x (\<lambda>b. b\<lparr>b_mark := UFFS_BUF_VALID\<rparr>) d"
  have "dirty_inv ?d (set xs - {x}) (G(s := remove1 x (G s)))" by (rule dirty_inv_outside[OF d(2)]) simp
  then have "dirty_inv ?d (set xs) (G(s := remove1 x (G s)))" by (rule dirty_inv_insert) (simp add: buf_marks)
  moreover have "pages_inv d xs cs"
    using pi pages_inv_undirty[OF d(3,6,7,8) buf_frame_fields(1)[OF d(5)]] by simp
  then have pd: "pages_inv ?d xs cs" by (subst pages_inv_upd) (simp_all add: list_view_def)
  ultimately have i: "buf_inv ?d xs cs (G(s := remove1 x (G s)))" by (simp add: buf_inv_def)
  note m = MoveNodeToHead_ok[OF pd xs]
  have f: "buf_frame dev ?d" using d(5) by simp
  show thesis
  proof (rule that[OF d(1) refl MoveNodeToHead_inv[OF i xs] buf_frame_trans[OF f m(4)]])
    fix y
    have "content (bufs (MoveNodeToHead x ?d) y) = content (bufs ?d y)" using m(2)[of y] by (intro content_views) simp
    also have "\<dots> = content (bufs d y)" by simp
    also have "\<dots> = content (bufs dev y)" using d(3)[of y] by (intro content_views) simp
    finally show "content (bufs (MoveNodeToHead x ?d) y) = content (bufs dev y)" .
    have k: "b_mark (bufs (MoveNodeToHead x ?d) y) = b_mark (bufs ?d y)" using unlinked_views[OF m(2)[of y]] by simp
    show "b_mark (bufs (MoveNodeToHead x ?d) y) = b_mark (bufs dev y)" if "y \<noteq> x"
      using k d(4)[of y] that by simp
  next
    show "b_mark (bufs (MoveNodeToHead x ?d) x) = UFFS_BUF_VALID" using unlinked_views[OF m(2)[of x]] by simp
  qed
qed

section \<open>The tags of the cached block\<close>

definition block_time :: "'f device \<Rightarrow> nat \<Rightarrow> int" where
  "block_time dev bc =
     (if TAG_IS_DIRTY (GET_TAG dev bc 0) then uint (ts_block_ts (tag_s (GET_TAG dev bc 0))) else uffs_GetFirstBlockTimeStamp)"

lemma GetBlockTimeStamp_loaded: "loaded dev bc \<Longrightarrow> uffs_GetBlockTimeStamp bc dev = Some (block_time dev bc, dev)"
  using load_loaded[of dev bc 0]
  by (auto simp: uffs_GetBlockTimeStamp_def uffs_IsThisBlockUsed_def block_time_def loaded_def)

text \<open>What the steps of a flush keep: the device can write, the buffers and the cache are well-formed, and
  all tags of the block in node \<open>bc\<close> are cached.\<close>

definition flush_ready :: "'f flash_ops \<Rightarrow> nat list \<Rightarrow> nat list \<Rightarrow> nat list \<Rightarrow> (nat \<Rightarrow> nat list) \<Rightarrow> nat \<Rightarrow> 'f device \<Rightarrow> bool" where
  "flush_ready D bs xs cs G bc dev \<longleftrightarrow>
     can_store D dev \<and> buf_inv dev xs cs G \<and> bc_inv dev bs \<and> bc \<in> set bs \<and> loaded dev bc"

lemma buf_inv_cong_dev:
  assumes "bufs d = bufs dev" "buf_head d = buf_head dev" "buf_tail d = buf_tail dev" "buf_clone d = buf_clone dev"
    "pg_size d = pg_size dev" "dirtyGroup d = dirtyGroup dev" "dirty_groups d = dirty_groups dev"
  shows "buf_inv d xs cs G = buf_inv dev xs cs G"
  using assms by (simp add: buf_inv_def pages_inv_def dirty_inv_def)

lemma bc_inv_cong_dev:
  assumes "bc_nodes d = bc_nodes dev" "bc_head d = bc_head dev" "bc_tail d = bc_tail dev" "ppb d = ppb dev"
  shows "bc_inv d bs = bc_inv dev bs"
  using assms by (simp add: bc_inv_def)

lemma set_tag_fields [simp]:
  "attr (set_tag bc i f dev) = attr dev" "ops (set_tag bc i f dev) = ops dev" "drv (set_tag bc i f dev) = drv dev"
  "bufs (set_tag bc i f dev) = bufs dev" "buf_head (set_tag bc i f dev) = buf_head dev" "buf_tail (set_tag bc i f dev) = buf_tail dev"
  "buf_clone (set_tag bc i f dev) = buf_clone dev" "pg_size (set_tag bc i f dev) = pg_size dev"
  "dirtyGroup (set_tag bc i f dev) = dirtyGroup dev" "dirty_groups (set_tag bc i f dev) = dirty_groups dev"
  "spare_data_size (set_tag bc i f dev) = spare_data_size dev" "uninit (set_tag bc i f dev) = uninit dev"
  "spare_pool (set_tag bc i f dev) = spare_pool dev" "spare_mem (set_tag bc i f dev) = spare_mem dev"
  "bc_head (set_tag bc i f dev) = bc_head dev" "bc_tail (set_tag bc i f dev) = bc_tail dev" "ppb (set_tag bc i f dev) = ppb dev"
  by (simp_all add: set_tag_def set_spare_def)

lemma set_tag_nodes:
  "bc_nodes (set_tag bc i f dev) = (bc_nodes dev)(bc := (bc_nodes dev bc)\<lparr>bi_spares :=
     (bi_spares (bc_nodes dev bc))[i := (bi_spares (bc_nodes dev bc) ! i)\<lparr>sp_tag := f (sp_tag (bi_spares (bc_nodes dev bc) ! i))\<rparr>]\<rparr>)"
  by (simp add: set_tag_def set_spare_def)

lemma set_tag_keeps:
  assumes "bc_inv dev bs" "bc \<in> set bs" "i < ppb dev"
  shows "bc_inv (set_tag bc i f dev) bs" "loaded (set_tag bc i f dev) bc = loaded dev bc"
    "GET_TAG (set_tag bc i f dev) bc j = (if j = i then f (GET_TAG dev bc i) else GET_TAG dev bc j)"
    "bi_block (bc_nodes (set_tag bc i f dev) x) = bi_block (bc_nodes dev x)"
proof -
  have l: "i < length (bi_spares (bc_nodes dev bc))" using bc_invD(3)[OF assms(1,2)] assms(3) by (simp add: bi_ok_def)
  show "bc_inv (set_tag bc i f dev) bs" unfolding set_tag_def by (rule set_spare_inv[OF assms]) simp
  have "tag_expired (set_tag bc i f dev) bc j = tag_expired dev bc j" for j
    unfolding set_tag_def by (rule set_spare_inv[OF assms]) simp
  then show "loaded (set_tag bc i f dev) bc = loaded dev bc" by (simp add: loaded_def)
  show "GET_TAG (set_tag bc i f dev) bc j = (if j = i then f (GET_TAG dev bc i) else GET_TAG dev bc j)"
    using l by (simp add: GET_TAG_def set_tag_nodes)
  show "bi_block (bc_nodes (set_tag bc i f dev) x) = bi_block (bc_nodes dev x)" by (simp add: set_tag_nodes)
qed

text \<open>The tag of a page that is appended.\<close>

definition appended_tag :: "'f device \<Rightarrow> nat \<Rightarrow> nat \<Rightarrow> Buf \<Rightarrow> Tags" where
  "appended_tag dev bc page b = write_tag (attr dev) (append_tag (block_time dev bc) b (GET_TAG dev bc page))"

lemma appended_tag_eq:
  "write_tag at (append_tag ts b (set_store (\<lambda>s. s\<lparr>ts_dirty := TAG_DIRTY, ts_valid := TAG_VALID\<rparr>) t)) = write_tag at (append_tag ts b t)"
  by (simp add: write_tag_def append_tag_def set_store_def TAG_DIRTY_def TAG_VALID_def)

section \<open>What appending does\<close>

definition only_pages :: "('f \<Rightarrow> nat \<Rightarrow> nat \<Rightarrow> bytes \<times> bytes) \<Rightarrow> ('f \<Rightarrow> nat \<Rightarrow> nat \<Rightarrow> nat \<Rightarrow> nat \<Rightarrow> bool) \<Rightarrow>
    ('f \<Rightarrow> nat \<Rightarrow> nat \<Rightarrow> bool) \<Rightarrow> (nat \<times> nat) set \<Rightarrow> 'f \<Rightarrow> 'f \<Rightarrow> bool" where
  "only_pages cell ready clean S f f' \<longleftrightarrow>
     (\<forall>b p. ready f b p 0 0 \<longrightarrow> (b, p) \<notin> S \<longrightarrow> cell f' b p = cell f b p \<and> (clean f b p \<longrightarrow> clean f' b p)) \<and>
     (\<forall>b p dl sl. ready f b p dl sl \<longrightarrow> ready f' b p dl sl)"

lemma only_pages_refl [simp]: "only_pages cell ready clean S f f"
  by (simp add: only_pages_def)

lemma only_pages_step:
  "only_page cell ready clean b p f g \<Longrightarrow> only_pages cell ready clean S g h \<Longrightarrow>
     only_pages cell ready clean (insert (b, p) S) f h"
  unfolding only_pages_def only_page_def by (metis insert_iff)

text \<open>The least element comes first in the sorted list.\<close>

lemma sort_key_least:
  assumes "x \<in> set xs" "\<forall>y \<in> set xs. f x \<le> f y" "inj_on f (set xs)" "distinct xs" "\<And>y. y \<in> set xs \<Longrightarrow> y \<noteq> x \<Longrightarrow> g y = f y"
  shows "sort_key f xs = x # sort_key g (remove1 x xs)"
proof (rule map_sorted_distinct_set_unique[of f])
  let ?ys = "x # sort_key g (remove1 x xs)"
  have st: "set ?ys = set xs" using assms(1,4) by auto
  then show "inj_on f (set (sort_key f xs) \<union> set ?ys)" "set (sort_key f xs) = set ?ys" using assms(3) by simp_all
  show "sorted (map f (sort_key f xs))" "distinct (map f (sort_key f xs))" using assms(3,4) by (simp_all add: distinct_map)
  have "distinct ?ys" using assms(4) by simp
  then show "distinct (map f ?ys)" unfolding distinct_map st using assms(3) by blast
  have e: "map f (sort_key g (remove1 x xs)) = map g (sort_key g (remove1 x xs))" using assms(4,5) by simp
  have "sorted (map f (sort_key g (remove1 x xs)))" unfolding e by (rule sorted_sort_key)
  then show "sorted (map f ?ys)" using assms(2,4) by simp
qed

text \<open>The buffers \<open>L\<close> are appended to the pages \<open>F\<close> of block \<open>b\<close>, which the node \<open>bc\<close> caches, one by
  one: what is on the flash and in the cache, which buffers are clean, and that nothing else
  changes, among the buffers \<open>S\<close>.\<close>

definition buf_stored :: "('f \<Rightarrow> nat \<Rightarrow> nat \<Rightarrow> bytes \<times> bytes) \<Rightarrow> nat \<Rightarrow> nat \<Rightarrow> 'f device \<Rightarrow> 'f device \<Rightarrow> nat \<Rightarrow> nat \<Rightarrow> bool" where
  "buf_stored cell b bc dev d x p \<longleftrightarrow>
     page_stored (attr dev) (unat (pg_size dev)) (cell (drv d) b p) (write_header (unat (pg_size dev)) (b_page (bufs dev x))) 0 \<and>
     tag_stored (attr dev) (nat (spare_data_size dev)) (cell (drv d) b p) (tag_s (GET_TAG d bc p)) 0 \<and>
     GET_TAG d bc p = appended_tag dev bc p (bufs dev x)"

definition buf_cleaned :: "'f device \<Rightarrow> 'f device \<Rightarrow> nat \<Rightarrow> bool" where
  "buf_cleaned dev d x \<longleftrightarrow> b_mark (bufs d x) = UFFS_BUF_VALID \<and>
     content (bufs d x) = content ((bufs dev x)\<lparr>b_page := write_header (unat (pg_size dev)) (b_page (bufs dev x))\<rparr>)"

definition buf_kept :: "'f device \<Rightarrow> 'f device \<Rightarrow> nat \<Rightarrow> bool" where
  "buf_kept dev d y \<longleftrightarrow> content (bufs d y) = content (bufs dev y) \<and> b_mark (bufs d y) = b_mark (bufs dev y)"

definition same_sizes :: "'f device \<Rightarrow> 'f device \<Rightarrow> nat \<Rightarrow> bool" where
  "same_sizes dev d bc \<longleftrightarrow> attr d = attr dev \<and> pg_size d = pg_size dev \<and> spare_data_size d = spare_data_size dev \<and>
     dirty_groups d = dirty_groups dev \<and> bi_block (bc_nodes d bc) = bi_block (bc_nodes dev bc)"

definition appended :: "('f \<Rightarrow> nat \<Rightarrow> nat \<Rightarrow> bytes \<times> bytes) \<Rightarrow> ('f \<Rightarrow> nat \<Rightarrow> nat \<Rightarrow> nat \<Rightarrow> nat \<Rightarrow> bool) \<Rightarrow>
    ('f \<Rightarrow> nat \<Rightarrow> nat \<Rightarrow> bool) \<Rightarrow> nat \<Rightarrow> nat \<Rightarrow> nat set \<Rightarrow> nat list \<Rightarrow> nat list \<Rightarrow> 'f device \<Rightarrow> 'f device \<Rightarrow> bool" where
  "appended cell ready clean b bc S L F dev d \<longleftrightarrow> same_sizes dev d bc \<and>
     only_pages cell ready clean (Pair b ` set F) (drv dev) (drv d) \<and> (\<forall>j. j \<notin> set F \<longrightarrow> GET_TAG d bc j = GET_TAG dev bc j) \<and>
     (\<forall>(x, p) \<in> set (zip L F). buf_stored cell b bc dev d x p) \<and> (\<forall>x \<in> set L. buf_cleaned dev d x) \<and>
     (\<forall>y \<in> S - set L. buf_kept dev d y)"

lemma appended_Nil: "appended cell ready clean b bc S [] [] dev dev"
  by (simp add: appended_def same_sizes_def buf_kept_def)

lemma buf_stored_later:
  assumes "only_pages cell ready clean (Pair b ` set F) (drv d1) (drv d2)" "ready (drv d1) b p 0 0" "p \<notin> set F"
    "\<forall>j. j \<notin> set F \<longrightarrow> GET_TAG d2 bc j = GET_TAG d1 bc j"
  shows "buf_stored cell b bc dev d2 x p = buf_stored cell b bc dev d1 x p"
proof -
  have "cell (drv d2) b p = cell (drv d1) b p" using assms(1-3) unfolding only_pages_def by auto
  then show ?thesis using assms(3,4) by (simp add: buf_stored_def)
qed

lemma buf_kept_trans:
  assumes "same_sizes dev d1 bc" "buf_kept dev d1 y"
  shows "buf_kept d1 d2 y = buf_kept dev d2 y" "buf_cleaned d1 d2 y = buf_cleaned dev d2 y"
  using assms by (auto simp: buf_kept_def buf_cleaned_def same_sizes_def content_def)

lemma appended_tag_cong:
  assumes "attr d1 = attr dev" "GET_TAG d1 bc 0 = GET_TAG dev bc 0" "GET_TAG d1 bc q = GET_TAG dev bc q" "buf_kept dev d1 y"
  shows "appended_tag d1 bc q (bufs d1 y) = appended_tag dev bc q (bufs dev y)"
  using assms by (simp add: appended_tag_def append_tag_def block_time_def buf_kept_def content_def)

lemma appended_Cons:
  assumes a: "appended cell ready clean b bc S [x] [p] dev d1" and l: "appended cell ready clean b bc S L F d1 d2"
    and n: "x \<notin> set L" "x \<in> S" "set L \<subseteq> S" "p \<notin> set F" "p \<noteq> 0" and r: "ready (drv d1) b p 0 0"
  shows "appended cell ready clean b bc S (x # L) (p # F) dev d2"
proof -
  have k: "buf_kept dev d1 y" if "y \<in> S" "y \<noteq> x" for y using a that by (simp add: appended_def)
  have s: "same_sizes dev d1 bc" "same_sizes d1 d2 bc" and t: "\<forall>j. j \<noteq> p \<longrightarrow> GET_TAG d1 bc j = GET_TAG dev bc j"
    "\<forall>j. j \<notin> set F \<longrightarrow> GET_TAG d2 bc j = GET_TAG d1 bc j"
    and o: "only_pages cell ready clean {(b, p)} (drv dev) (drv d1)" "only_pages cell ready clean (Pair b ` set F) (drv d1) (drv d2)"
    using a l by (simp_all add: appended_def)
  have "only_pages cell ready clean (insert (b, p) (Pair b ` set F)) (drv dev) (drv d2)"
    using o unfolding only_pages_def by (metis insert_iff singletonD)
  moreover have "buf_stored cell b bc dev d2 x p"
    using a buf_stored_later[OF o(2) r n(4) t(2)] by (simp add: appended_def)
  moreover have "buf_stored cell b bc dev d2 y q" if z: "(y, q) \<in> set (zip L F)" for y q
  proof -
    have y: "y \<in> S" "y \<noteq> x" "q \<noteq> p" using set_zip_leftD[OF z] set_zip_rightD[OF z] n by auto
    have "buf_stored cell b bc d1 d2 y q" using l z by (auto simp: appended_def)
    moreover have "b_page (bufs d1 y) = b_page (bufs dev y)" using k[OF y(1,2)] by (simp add: buf_kept_def content_def)
    ultimately show ?thesis
      using s(1) t(1) y(3) n(5) appended_tag_cong[OF _ _ _ k[OF y(1,2)], of bc q] by (auto simp: buf_stored_def same_sizes_def)
  qed
  moreover have "buf_cleaned dev d2 x"
    using a l n(1,2) by (auto simp: appended_def buf_cleaned_def buf_kept_def)
  moreover have "buf_cleaned dev d2 y" if "y \<in> set L" for y
  proof -
    have "y \<in> S" "y \<noteq> x" using that n by auto
    moreover have "buf_cleaned d1 d2 y" using l that by (simp add: appended_def)
    ultimately show ?thesis using buf_kept_trans(2)[OF s(1) k] by simp
  qed
  moreover have "buf_kept dev d2 y" if "y \<in> S - set (x # L)" for y
  proof -
    have "buf_kept d1 d2 y" using l that by (simp add: appended_def)
    then show ?thesis using buf_kept_trans(1)[OF s(1) k[of y]] that by simp
  qed
  moreover have "same_sizes dev d2 bc" using s by (simp add: same_sizes_def)
  ultimately show ?thesis using t by (auto simp: appended_def)
qed

lemma set_tag_ready:
  assumes "flush_ready D bs xs cs G bc dev" "i < ppb dev"
  shows "flush_ready D bs xs cs G bc (set_tag bc i f dev)" "same_sizes dev (set_tag bc i f dev) bc"
    "GET_TAG (set_tag bc i f dev) bc j = (if j = i then f (GET_TAG dev bc i) else GET_TAG dev bc j)"
proof -
  have h: "can_store D dev" "buf_inv dev xs cs G" "bc_inv dev bs" "bc \<in> set bs" "loaded dev bc"
    using assms(1) by (simp_all add: flush_ready_def)
  note k = set_tag_keeps[OF h(3,4) assms(2)]
  have "buf_inv (set_tag bc i f dev) xs cs G" using h(2) by (subst buf_inv_cong_dev[of _ dev]) simp_all
  moreover have "can_store D (set_tag bc i f dev)" by (rule can_store_cong[OF h(1)]) simp_all
  ultimately show "flush_ready D bs xs cs G bc (set_tag bc i f dev)" using k(1,2) h(4,5) by (simp add: flush_ready_def)
  show "same_sizes dev (set_tag bc i f dev) bc" using k(4) by (simp add: same_sizes_def)
  show "GET_TAG (set_tag bc i f dev) bc j = (if j = i then f (GET_TAG dev bc i) else GET_TAG dev bc j)" by (rule k(3))
qed

lemma clean_ready:
  assumes st: "flush_ready D bs xs cs G bc dev" and s: "slot < nat (dirty_groups dev)" and x: "x \<in> set (G slot)"
  obtains d d' where "BreakFromDirty x dev = (U_SUCC, d)"
    "d' = MoveNodeToHead x (upd_buf x (\<lambda>b. b\<lparr>b_mark := UFFS_BUF_VALID\<rparr>) d)"
    "flush_ready D bs (x # remove1 x xs) cs (G(slot := remove1 x (G slot))) bc d'" "buf_frame dev d'"
    "\<And>y. content (bufs d' y) = content (bufs dev y)" "b_mark (bufs d' x) = UFFS_BUF_VALID"
    "\<And>y. y \<noteq> x \<Longrightarrow> b_mark (bufs d' y) = b_mark (bufs dev y)"
proof -
  have h: "can_store D dev" "buf_inv dev xs cs G" "bc_inv dev bs" "bc \<in> set bs" "loaded dev bc"
    using st by (simp_all add: flush_ready_def)
  obtain d d' where c: "BreakFromDirty x dev = (U_SUCC, d)"
    "d' = MoveNodeToHead x (upd_buf x (\<lambda>b. b\<lparr>b_mark := UFFS_BUF_VALID\<rparr>) d)"
    "buf_inv d' (x # remove1 x xs) cs (G(slot := remove1 x (G slot)))" "buf_frame dev d'"
    "\<And>y. content (bufs d' y) = content (bufs dev y)" "b_mark (bufs d' x) = UFFS_BUF_VALID"
    "\<And>y. y \<noteq> x \<Longrightarrow> b_mark (bufs d' y) = b_mark (bufs dev y)"
    by (rule clean_buf_ok[OF h(2) s x]) blast
  note fl = buf_frame_fields[OF c(4)]
  have p: "ppb d' = ppb dev" by (simp add: ppb_def fl)
  have "bc_inv d' bs" "loaded d' bc" using h(3,5) bc_inv_cong_dev[OF fl(7,14,15) p] by (simp_all add: loaded_def fl p)
  moreover have "can_store D d'" by (rule can_store_cong[OF h(1)]) (simp_all add: fl)
  ultimately have "flush_ready D bs (x # remove1 x xs) cs (G(slot := remove1 x (G slot))) bc d'"
    using c(3) h(4) by (simp add: flush_ready_def)
  from that[OF c(1,2) this c(4-7)] show thesis .
qed

section \<open>The loop over the pages\<close>

context flash_driver
begin

lemma write_cached_ok:
  fixes dev :: "'a device"
  assumes st: "flush_ready D bs xs cs G bc dev" and pg: "page < ppb dev" and x: "x \<in> set xs"
    and rdy: "ready (drv dev) b page (unat (pg_size dev)) (nat (spare_data_size dev))" and cl: "clean (drv dev) b page"
    and b: "b = unat (bi_block (bc_nodes dev bc))"
  defines "mem \<equiv> write_header (unat (pg_size dev)) (b_page (bufs dev x))"
  obtains dev' where "write_cached bc page (bi_block (bc_nodes dev bc)) x dev = Some (UFFS_FLASH_NO_ERR, dev')"
    "flush_ready D bs xs cs G bc dev'" "same_sizes dev dev' bc" "only_page cell ready clean b page (drv dev) (drv dev')"
    "page_stored (attr dev) (unat (pg_size dev)) (cell (drv dev') b page) mem 0"
    "tag_stored (attr dev) (nat (spare_data_size dev)) (cell (drv dev') b page) (tag_s (GET_TAG dev' bc page)) 0"
    "\<And>j. GET_TAG dev' bc j = (if j = page then write_tag (attr dev) (GET_TAG dev bc page) else GET_TAG dev bc j)"
    "bufs dev' x = (bufs dev x)\<lparr>b_page := mem\<rparr>" "\<And>y. y \<in> set xs \<Longrightarrow> y \<noteq> x \<Longrightarrow> bufs dev' y = bufs dev y"
proof -
  have h: "can_store D dev" "buf_inv dev xs cs G" "bc_inv dev bs" "bc \<in> set bs" "loaded dev bc"
    using st by (simp_all add: flush_ready_def)
  have o: "ops dev = D" "spare_ready dev" "spare_ready (snd (get_spare dev))" "ecc_room dev" "layout_opt (attr dev) \<noteq> UFFS_LAYOUT_FLASH"
    "4 \<le> unat (pg_size dev)" using h(1) by (simp_all add: can_store_def)
  let ?T = "write_tag (attr dev) (GET_TAG dev bc page)"
  obtain f m B where w: "uffs_FlashWritePageCombine (int b) (int page) x (GET_TAG dev bc page) dev =
      Some (UFFS_FLASH_NO_ERR, ?T, dev\<lparr>drv := f, spare_mem := m, bufs := B\<rparr>)"
    and op: "only_page cell ready clean b page (drv dev) f"
    and sto: "page_stored (attr dev) (unat (pg_size dev)) (cell f b page) mem 0"
      "tag_stored (attr dev) (nat (spare_data_size dev)) (cell f b page) (tag_s ?T) 0"
    and lm: "\<forall>x. length (m x) = length (spare_mem dev x)"
    and i3: "buf_inv (dev\<lparr>drv := f, spare_mem := m, bufs := B\<rparr>) xs cs G"
    and B: "B x = (bufs dev x)\<lparr>b_page := mem\<rparr>" "\<forall>y \<in> set xs. y \<noteq> x \<longrightarrow> B y = bufs dev y"
    using WritePageCombine_ok[OF o rdy cl h(2) x, of "GET_TAG dev bc page"] unfolding mem_def by blast
  define d where "d = dev\<lparr>drv := f, spare_mem := m, bufs := B\<rparr>"
  have n: "bc_nodes d = bc_nodes dev" "bc_head d = bc_head dev" "bc_tail d = bc_tail dev" "ppb d = ppb dev" "GET_TAG d bc j = GET_TAG dev bc j" for j
    by (simp_all add: d_def GET_TAG_def ppb_def)
  have "can_store D d" by (rule can_store_cong[OF h(1)]) (simp_all add: d_def lm)
  then have rd: "flush_ready D bs xs cs G bc d"
    using i3 h(3-5) bc_inv_cong_dev[OF n(1-4)] by (simp add: flush_ready_def loaded_def n d_def[symmetric])
  have pd: "page < ppb d" using pg n by simp
  note s = set_tag_ready[OF rd pd, of "\<lambda>_. ?T"]
  show thesis
  proof (rule that[OF _ s(1)])
    show "write_cached bc page (bi_block (bc_nodes dev bc)) x dev = Some (UFFS_FLASH_NO_ERR, set_tag bc page (\<lambda>_. ?T) d)"
      using w by (simp add: write_cached_def b d_def)
    show "same_sizes dev (set_tag bc page (\<lambda>_. ?T) d) bc" using s(2) by (simp add: same_sizes_def d_def)
  qed (use op sto B in \<open>simp_all add: s(3) n(5)\<close>, simp_all add: d_def)
qed

text \<open>One page of the loop.\<close>

lemma append_step:
  fixes dev :: "'a device"
  assumes st: "flush_ready D bs xs cs G bc dev" and s: "slot < nat (dirty_groups dev)" and ne: "G slot \<noteq> []"
    and pg: "page < ppb dev" "page \<noteq> 0" "tag_erased (GET_TAG dev bc page)"
    and rdy: "ready (drv dev) b page (unat (pg_size dev)) (nat (spare_data_size dev))" and cl: "clean (drv dev) b page"
    and b: "b = unat (bi_block (bc_nodes dev bc))"
  obtains x dev' where "x \<in> set (G slot)" "\<forall>y \<in> set (G slot). b_page_id (bufs dev x) \<le> b_page_id (bufs dev y)"
    "append_pages slot node bc (page # ks) dev = append_pages slot node bc ks dev'"
    "flush_ready D bs (x # remove1 x xs) cs (G(slot := remove1 x (G slot))) bc dev'"
    "appended cell ready clean b bc (set xs) [x] [page] dev dev'"
proof -
  have ld: "loaded dev bc" and di: "dirty_inv dev (set xs) G" using st by (simp_all add: flush_ready_def buf_inv_def)
  obtain x where x: "FindMinimunPageIdFromDirtyList (dg_dirty (dirtyGroup dev ! slot)) dev = Some (Some x)" "x \<in> set (G slot)"
    "\<forall>y \<in> set (G slot). b_page_id (bufs dev x) \<le> b_page_id (bufs dev y)"
    by (rule FindMinimun_ok[where D = G and dev = dev and S = "set xs" and s = slot, OF di s ne])
  have xs: "x \<in> set xs" using dirty_invD(4)[OF di s] x(2) by blast
  have cnt: "0 < dg_count (dirtyGroup dev ! slot)" using dirty_invD(3)[OF di s] ne by simp
  define d1 where "d1 = set_tag bc page (set_store (\<lambda>s. s\<lparr>ts_dirty := TAG_DIRTY, ts_valid := TAG_VALID\<rparr>)) dev"
  note t1 = set_tag_ready[OF st pg(1), of "set_store (\<lambda>s. s\<lparr>ts_dirty := TAG_DIRTY, ts_valid := TAG_VALID\<rparr>)", folded d1_def]
  have pg1: "page < ppb d1" and ld1: "loaded d1 bc" using pg t1(1) by (simp_all add: d1_def flush_ready_def)
  have bt: "block_time d1 bc = block_time dev bc" using pg(2) by (simp add: block_time_def t1)
  define d2 where "d2 = set_tag bc page (append_tag (block_time dev bc) (bufs dev x)) d1"
  note t2 = set_tag_ready[OF t1(1) pg1, of "append_tag (block_time dev bc) (bufs dev x)", folded d2_def]
  have s2: "attr d2 = attr dev" "drv d2 = drv dev" "bufs d2 = bufs dev" "pg_size d2 = pg_size dev" "bufs d1 = bufs dev"
    "dirty_groups d2 = dirty_groups dev" "spare_data_size d2 = spare_data_size dev" "ppb d2 = ppb dev"
    by (simp_all add: d2_def d1_def)
  have blk: "bi_block (bc_nodes d2 bc) = bi_block (bc_nodes dev bc)" by (simp add: d2_def d1_def set_tag_nodes)
  have tg: "write_tag (attr d2) (GET_TAG d2 bc page) = appended_tag dev bc page (bufs dev x)"
    by (simp add: t2 t1 s2 appended_tag_def appended_tag_eq)
  obtain d3 where w: "write_cached bc page (bi_block (bc_nodes d2 bc)) x d2 = Some (UFFS_FLASH_NO_ERR, d3)"
    "flush_ready D bs xs cs G bc d3" "same_sizes d2 d3 bc" "only_page cell ready clean b page (drv d2) (drv d3)"
    "page_stored (attr d2) (unat (pg_size d2)) (cell (drv d3) b page) (write_header (unat (pg_size d2)) (b_page (bufs d2 x))) 0"
    "tag_stored (attr d2) (nat (spare_data_size d2)) (cell (drv d3) b page) (tag_s (GET_TAG d3 bc page)) 0"
    "\<And>j. GET_TAG d3 bc j = (if j = page then write_tag (attr d2) (GET_TAG d2 bc page) else GET_TAG d2 bc j)"
    "bufs d3 x = (bufs d2 x)\<lparr>b_page := write_header (unat (pg_size d2)) (b_page (bufs d2 x))\<rparr>"
    "\<And>y. y \<in> set xs \<Longrightarrow> y \<noteq> x \<Longrightarrow> bufs d3 y = bufs d2 y"
    by (rule write_cached_ok[of bs xs cs G bc d2 page x b]) (use t2(1) pg(1) xs rdy cl b in \<open>simp_all add: s2 blk\<close>)
  have s3: "slot < nat (dirty_groups d3)" using s w(3) by (simp add: same_sizes_def s2)
  obtain d4 d5 where c: "BreakFromDirty x d3 = (U_SUCC, d4)"
    "d5 = MoveNodeToHead x (upd_buf x (\<lambda>b. b\<lparr>b_mark := UFFS_BUF_VALID\<rparr>) d4)"
    "flush_ready D bs (x # remove1 x xs) cs (G(slot := remove1 x (G slot))) bc d5" "buf_frame d3 d5"
    "\<And>y. content (bufs d5 y) = content (bufs d3 y)" "b_mark (bufs d5 x) = UFFS_BUF_VALID"
    "\<And>y. y \<noteq> x \<Longrightarrow> b_mark (bufs d5 y) = b_mark (bufs d3 y)"
    by (rule clean_ready[OF w(2) s3 x(2)]) blast
  note fl = buf_frame_fields[OF c(4)]
  have t: "GET_TAG d5 bc j = (if j = page then appended_tag dev bc page (bufs dev x) else GET_TAG dev bc j)" for j
  proof -
    have "GET_TAG d5 bc j = GET_TAG d3 bc j" by (simp add: GET_TAG_def fl)
    then show ?thesis by (cases "j = page") (simp_all add: w(7) t2(3) t1(3) s2(1) appended_tag_def appended_tag_eq)
  qed
  have t3: "GET_TAG d3 bc page = appended_tag dev bc page (bufs dev x)" by (simp add: w(7) tg)
  have run: "append_pages slot node bc (page # ks) dev = append_pages slot node bc ks d5"
    using cnt IsPageErased_loaded[OF ld pg(1)] pg(3) x(1) GetBlockTimeStamp_loaded[OF ld1] w(1) c(1,2)
    by (simp add: bt s2 d1_def[symmetric] d2_def[symmetric] flash_codes Let_def)
  have "same_sizes dev d5 bc" using w(3) by (simp add: same_sizes_def fl s2 blk)
  moreover have "only_pages cell ready clean {(b, page)} (drv dev) (drv d5)"
    using w(4) by (simp add: only_pages_def only_page_def fl s2)
  moreover have "buf_stored cell b bc dev d5 x page" using w(5,6) by (simp add: buf_stored_def t t3 fl s2)
  moreover have "buf_cleaned dev d5 x" using c(5)[of x] c(6) w(8) by (simp add: buf_cleaned_def s2)
  moreover have "buf_kept dev d5 y" if "y \<in> set xs - {x}" for y using c(5,7)[of y] w(9)[of y] that by (simp add: buf_kept_def s2)
  ultimately have "appended cell ready clean b bc (set xs) [x] [page] dev d5" by (simp add: appended_def t)
  from that[OF x(2,3) run c(3) this] show thesis .
qed

lemma append_all:
  fixes dev :: "'a device"
  assumes "flush_ready D bs xs cs G bc dev" "slot < nat (dirty_groups dev)" "distinct ks" "\<forall>p \<in> set ks. 0 < p \<and> p < ppb dev"
    "length (G slot) \<le> length (filter (\<lambda>p. tag_erased (GET_TAG dev bc p)) ks)"
    "\<forall>p \<in> set ks. tag_erased (GET_TAG dev bc p) \<longrightarrow>
       ready (drv dev) b p (unat (pg_size dev)) (nat (spare_data_size dev)) \<and> clean (drv dev) b p"
    "inj_on (\<lambda>x. b_page_id (bufs dev x)) (set (G slot))" "b = unat (bi_block (bc_nodes dev bc))"
  shows "\<exists>ys dev'. append_pages slot node bc ks dev = Some (None, dev') \<and>
    flush_ready D bs ys cs (G(slot := [])) bc dev' \<and> set ys = set xs \<and>
    appended cell ready clean b bc (set xs) (sort_key (\<lambda>x. b_page_id (bufs dev x)) (G slot))
      (take (length (G slot)) (filter (\<lambda>p. tag_erased (GET_TAG dev bc p)) ks)) dev dev'"
  using assms
proof (induction ks arbitrary: dev xs G)
  case Nil
  then have "G(slot := []) = G" "G slot = []" by auto
  then show ?case using Nil(1) by (intro exI[of _ xs] exI[of _ dev]) (simp add: appended_Nil)
next
  case (Cons p ks)
  have di: "dirty_inv dev (set xs) G" using Cons.prems(1) by (simp add: flush_ready_def buf_inv_def)
  show ?case
  proof (cases "G slot = [] \<or> \<not> tag_erased (GET_TAG dev bc p)")
    case True
    show ?thesis
    proof (cases "G slot = []")
      case True
      then have "G(slot := []) = G" by auto
      then show ?thesis using True Cons.prems(1) dirty_invD(3)[OF di Cons.prems(2)]
        by (intro exI[of _ xs] exI[of _ dev]) (simp add: appended_Nil)
    next
      case ne: False
      then have "0 < dg_count (dirtyGroup dev ! slot)" using dirty_invD(3)[OF di Cons.prems(2)] by simp
      then have "append_pages slot node bc (p # ks) dev = append_pages slot node bc ks dev"
        using ne True Cons.prems(1,4) by (simp add: flush_ready_def)
      then show ?thesis using Cons.IH[OF Cons.prems(1,2) _ _ _ _ Cons.prems(7,8)] Cons.prems(3-6) ne True by simp
    qed
  next
    case False
    then have er: "tag_erased (GET_TAG dev bc p)" and ne: "G slot \<noteq> []" by auto
    have pr: "p < ppb dev" "p \<noteq> 0" "p \<notin> set ks" "distinct ks" using Cons.prems(3,4) by auto
    have rc: "ready (drv dev) b p (unat (pg_size dev)) (nat (spare_data_size dev))" "clean (drv dev) b p"
      using Cons.prems(6) er by simp_all
    obtain x dev1 where x: "x \<in> set (G slot)" "\<forall>y \<in> set (G slot). b_page_id (bufs dev x) \<le> b_page_id (bufs dev y)"
      and run: "append_pages slot node bc (p # ks) dev = append_pages slot node bc ks dev1"
      and fr: "flush_ready D bs (x # remove1 x xs) cs (G(slot := remove1 x (G slot))) bc dev1"
      and ap: "appended cell ready clean b bc (set xs) [x] [p] dev dev1"
      by (rule append_step[where ks = ks and node = node, OF Cons.prems(1,2) ne pr(1,2) er rc Cons.prems(8)]) blast
    define G1 where "G1 = G(slot := remove1 x (G slot))"
    have g: "set (G slot) \<subseteq> set xs" "distinct (G slot)" using dirty_invD(4,8)[OF di Cons.prems(2)] by auto
    have G1: "G1 slot = remove1 x (G slot)" "G1(slot := []) = G(slot := [])" "set (G1 slot) = set (G slot) - {x}"
      "length (G slot) = Suc (length (G1 slot))"
      using g(2) x(1) length_pos_if_in_set[OF x(1)] by (auto simp: G1_def length_remove1)
    have sx: "set (x # remove1 x xs) = set xs"
      using x(1) g(1) Cons.prems(1) pages_invD(3)[of dev xs cs] by (auto simp: flush_ready_def buf_inv_def)
    have sm: "same_sizes dev dev1 bc" and op: "only_pages cell ready clean {(b, p)} (drv dev) (drv dev1)"
      and tg: "q \<noteq> p \<Longrightarrow> GET_TAG dev1 bc q = GET_TAG dev bc q"
      and ids: "y \<in> set (G slot) \<Longrightarrow> y \<noteq> x \<Longrightarrow> b_page_id (bufs dev1 y) = b_page_id (bufs dev y)" for q y
      using ap g(1) by (auto simp: appended_def buf_kept_def content_def)
    let ?F = "filter (\<lambda>p. tag_erased (GET_TAG dev bc p)) ks"
    have E: "filter (\<lambda>p. tag_erased (GET_TAG dev1 bc p)) ks = ?F"
      by (rule filter_cong[OF refl]) (metis pr(3) tg)
    note sz = sm[unfolded same_sizes_def]
    have p1: "ppb dev1 = ppb dev" using sz by (simp add: ppb_def)
    have rdy1: "ready (drv dev1) b q (unat (pg_size dev1)) (nat (spare_data_size dev1)) \<and> clean (drv dev1) b q"
      if q: "q \<in> set ks" "tag_erased (GET_TAG dev1 bc q)" for q
    proof -
      have "q \<noteq> p" using pr(3) q by auto
      then have r: "ready (drv dev) b q (unat (pg_size dev)) (nat (spare_data_size dev))" "clean (drv dev) b q" "(b, q) \<notin> {(b, p)}"
        using Cons.prems(6) q tg by auto
      from ready_any[OF r(1)] r op show ?thesis using sz unfolding only_pages_def by metis
    qed
    have inj: "inj_on (\<lambda>x. b_page_id (bufs dev1 x)) (set (G1 slot))"
      using Cons.prems(7) ids by (subst inj_on_cong[where g = "\<lambda>x. b_page_id (bufs dev x)"]) (auto simp: G1(3) inj_on_diff)
    have h: "slot < nat (dirty_groups dev1)" "\<forall>p \<in> set ks. 0 < p \<and> p < ppb dev1" "b = unat (bi_block (bc_nodes dev1 bc))"
      "length (G1 slot) \<le> length ?F"
      using Cons.prems(2,4,5,8) er sz by (simp_all add: p1 G1)
    obtain ys dev2 where run2: "append_pages slot node bc ks dev1 = Some (None, dev2)"
      and fr2: "flush_ready D bs ys cs (G(slot := [])) bc dev2" "set ys = set xs"
      and ap2: "appended cell ready clean b bc (set xs) (sort_key (\<lambda>x. b_page_id (bufs dev1 x)) (G1 slot)) (take (length (G1 slot)) ?F) dev1 dev2"
      using Cons.IH[OF fr[folded G1_def] h(1) pr(4) h(2) _ _ inj h(3), unfolded E G1(2) sx, OF h(4)] rdy1 by blast
    have L: "sort_key (\<lambda>x. b_page_id (bufs dev x)) (G slot) = x # sort_key (\<lambda>x. b_page_id (bufs dev1 x)) (G1 slot)"
      unfolding G1(1) by (rule sort_key_least[OF x Cons.prems(7) g(2) ids])
    have F: "take (length (G slot)) (filter (\<lambda>p. tag_erased (GET_TAG dev bc p)) (p # ks)) = p # take (length (G1 slot)) ?F"
      using er G1(4) by simp
    have "ready (drv dev1) b p 0 0" using op ready_any[OF rc(1)] unfolding only_pages_def by blast
    moreover have "x \<notin> set (sort_key (\<lambda>x. b_page_id (bufs dev1 x)) (G1 slot))" "x \<in> set xs"
      "set (sort_key (\<lambda>x. b_page_id (bufs dev1 x)) (G1 slot)) \<subseteq> set xs" "p \<notin> set (take (length (G1 slot)) ?F)"
      using x(1) g(1) pr(3) by (auto simp: G1(3) dest: in_set_takeD)
    ultimately show ?thesis
      unfolding L F run by (intro exI[of _ ys] exI[of _ dev2] conjI run2 fr2 appended_Cons[OF ap ap2 _ _ _ _ pr(2)])
  qed
qed

lemma Enough_FreePage_ok:
  fixes dev :: "'a device"
  assumes st: "flush_ready D bs xs cs G bc dev" and s: "slot < nat (dirty_groups dev)"
    and room: "length (G slot) \<le> length (filter (\<lambda>p. tag_erased (GET_TAG dev bc p)) [1..<ppb dev])"
    and rdy: "\<forall>p < ppb dev. 0 < p \<longrightarrow> tag_erased (GET_TAG dev bc p) \<longrightarrow>
       ready (drv dev) b p (unat (pg_size dev)) (nat (spare_data_size dev)) \<and> clean (drv dev) b p"
    and ids: "inj_on (\<lambda>x. b_page_id (bufs dev x)) (set (G slot))" and b: "b = unat (bi_block (bc_nodes dev bc))"
  shows "\<exists>ys dev'. uffs_BufFlush_Exist_With_Enough_FreePage slot node bc dev = Some (U_SUCC, dev') \<and>
    flush_ready D bs ys cs (G(slot := [])) bc dev' \<and> set ys = set xs \<and>
    appended cell ready clean b bc (set xs) (sort_key (\<lambda>x. b_page_id (bufs dev x)) (G slot))
      (take (length (G slot)) (filter (\<lambda>p. tag_erased (GET_TAG dev bc p)) [1..<ppb dev])) dev dev'"
proof -
  have "\<forall>p \<in> set [1..<ppb dev]. 0 < p \<and> p < ppb dev" "\<forall>p \<in> set [1..<ppb dev]. tag_erased (GET_TAG dev bc p) \<longrightarrow>
       ready (drv dev) b p (unat (pg_size dev)) (nat (spare_data_size dev)) \<and> clean (drv dev) b p"
    using rdy by auto
  from append_all[OF st s _ this(1) room this(2) ids b, of node] obtain ys dev' where
    r: "append_pages slot node bc [1..<ppb dev] dev = Some (None, dev')" "flush_ready D bs ys cs (G(slot := [])) bc dev'" "set ys = set xs"
    and a: "appended cell ready clean b bc (set xs) (sort_key (\<lambda>x. b_page_id (bufs dev x)) (G slot))
      (take (length (G slot)) (filter (\<lambda>p. tag_erased (GET_TAG dev bc p)) [1..<ppb dev])) dev dev'"
    by auto
  have "dirty_inv dev' (set ys) (G(slot := []))" "slot < nat (dirty_groups dev')"
    using r(2) s a by (simp_all add: flush_ready_def buf_inv_def appended_def same_sizes_def)
  from dirty_invD(3,7)[OF this] have "dg_count (dirtyGroup dev' ! slot) = 0" "dg_dirty (dirtyGroup dev' ! slot) = None" by simp_all
  then show ?thesis using r a by (simp add: uffs_BufFlush_Exist_With_Enough_FreePage_def Let_def) blast
qed

end

text \<open>Taking and giving back the cache node changes nothing of this.\<close>

lemma appended_cong:
  assumes "attr d1 = attr dev" "pg_size d1 = pg_size dev" "spare_data_size d1 = spare_data_size dev" "dirty_groups d1 = dirty_groups dev"
    "bi_block (bc_nodes d1 bc) = bi_block (bc_nodes dev bc)" "drv d1 = drv dev" "bufs d1 = bufs dev" "\<And>j. GET_TAG d1 bc j = GET_TAG dev bc j"
  shows "appended cell ready clean b bc S L F d1 d = appended cell ready clean b bc S L F dev d"
    "appended cell ready clean b bc S L F d d1 = appended cell ready clean b bc S L F d dev"
  using assms by (auto simp: appended_def same_sizes_def buf_stored_def buf_cleaned_def buf_kept_def appended_tag_def block_time_def)

lemma loaded_cong:
  assumes "bi_spares (bc_nodes d bc) = bi_spares (bc_nodes dev bc)" "ppb d = ppb dev"
  shows "loaded d bc = loaded dev bc" "GET_TAG d bc j = GET_TAG dev bc j"
  using assms by (simp_all add: loaded_def GET_TAG_def)

lemma Load_loaded: "loaded dev bc \<Longrightarrow> uffs_BlockInfoLoad bc UFFS_ALL_PAGES dev = Some (U_SUCC, dev)"
  by (simp add: loaded_def uffs_BlockInfoLoad_def load_pages_loaded)

text \<open>Behind a good first page, the pages that the count of free pages counts are erased.\<close>

lemma free_count_room:
  assumes "loaded dev bc" "uffs_GetFreePagesCount bc dev = Some (n, d)" "TAG_IS_GOOD (GET_TAG dev bc 0)"
  shows "d = dev" "0 \<le> n" "n < 65536" "nat n \<le> length (filter (\<lambda>p. tag_erased (GET_TAG dev bc p)) [1..<ppb dev])"
proof -
  let ?e = "\<lambda>i. tag_erased (GET_TAG dev bc i)" and ?g = "\<lambda>i. TAG_IS_GOOD (GET_TAG dev bc i)"
  define m where "m = (case List.find ?g (rev [0..<ppb dev]) of None \<Rightarrow> 0 | Some j \<Rightarrow> Suc j)"
  have n: "d = dev" "n = int (length (filter ?e (rev [m..<ppb dev])))"
    using assms(2) free_count_loaded[OF assms(1), of "rev [0..<ppb dev]" 0]
    by (auto simp: uffs_GetFreePagesCount_def takeWhile_rev_upt m_def)
  have p: "0 < ppb dev" "ppb dev < 65534" using assms(1) by (simp_all add: loaded_def)
  then have "List.find ?g (rev [0..<ppb dev]) \<noteq> None" using assms(3) by (auto simp: find_None_iff_set)
  then have "1 \<le> m" by (auto simp: m_def)
  then have "set (filter ?e [m..<ppb dev]) \<subseteq> set (filter ?e [1..<ppb dev])" by auto
  from card_mono[OF _ this] have l: "length (filter ?e [m..<ppb dev]) \<le> length (filter ?e [1..<ppb dev])"
    by (simp only: distinct_card distinct_filter distinct_upt finite_set)
  moreover have "length (filter ?e [1..<ppb dev]) \<le> ppb dev" using length_filter_le[of ?e "[1..<ppb dev]"] by simp
  ultimately show "d = dev" "0 \<le> n" "n < 65536" "nat n \<le> length (filter ?e [1..<ppb dev])"
    using n p by (simp_all add: rev_filter[symmetric])
qed

context flash_driver
begin

lemma BufFlush_append:
  fixes dev :: "'a device"
  assumes dev: "can_store D dev" "buf_inv dev xs cs G" "bc_inv dev bs"
    and s: "slot < nat (dirty_groups dev)" "G slot = d # rest" and ids: "inj_on (\<lambda>x. b_page_id (bufs dev x)) (set (G slot))"
    and ty: "b_type (bufs dev d) \<in> {UFFS_TYPE_DIR, UFFS_TYPE_FILE, UFFS_TYPE_DATA}"
    and n: "find_flush_node (bufs dev d) dev = Some (Some n)"
    and bc: "bc \<in> set bs" "bi_block (bc_nodes dev bc) = GetBlockFromNode (b_type (bufs dev d)) (nu dev n)"
      "bi_block (bc_nodes dev bc) \<noteq> UFFS_INVALID_BLOCK" "loaded dev bc" "TAG_IS_GOOD (GET_TAG dev bc 0)"
    and room: "uffs_GetFreePagesCount bc dev = Some (k, dev)" "int (length (G slot)) \<le> k"
    and rdy: "\<forall>p < ppb dev. 0 < p \<longrightarrow> tag_erased (GET_TAG dev bc p) \<longrightarrow>
       ready (drv dev) b p (unat (pg_size dev)) (nat (spare_data_size dev)) \<and> clean (drv dev) b p"
    and b: "b = unat (bi_block (bc_nodes dev bc))"
  shows "\<exists>ys dev'. BufFlush False slot dev = Some (U_SUCC, dev') \<and>
    flush_ready D (remove1 bc bs @ [bc]) ys cs (G(slot := [])) bc dev' \<and> set ys = set xs \<and>
    appended cell ready clean b bc (set xs) (sort_key (\<lambda>x. b_page_id (bufs dev x)) (G slot))
      (take (length (G slot)) (filter (\<lambda>p. tag_erased (GET_TAG dev bc p)) [1..<ppb dev])) dev dev'"
proof -
  have di: "dirty_inv dev (set xs) G" using dev(2) by (simp add: buf_inv_def)
  have f: "List.find (\<lambda>x. bi_block (bc_nodes dev x) = GetBlockFromNode (b_type (bufs dev d)) (nu dev n)) bs = Some bc"
  proof (cases "List.find (\<lambda>x. bi_block (bc_nodes dev x) = GetBlockFromNode (b_type (bufs dev d)) (nu dev n)) bs")
    case None
    then show ?thesis using bc(1,2) by (simp add: find_None_iff_set)
  next
    case (Some y)
    then have "y \<in> set bs" "bi_block (bc_nodes dev y) = bi_block (bc_nodes dev bc)" using find_Some_in[OF Some] bc(2) by auto
    then have "y = bc" using dev(3) bc(1,3) unfolding bc_inv_def by metis
    then show ?thesis using Some by simp
  qed
  obtain dev1 where g: "uffs_BlockInfoGet (uint (GetBlockFromNode (b_type (bufs dev d)) (nu dev n))) dev = Some (Some bc, dev1)"
    "bc_inv dev1 (remove1 bc bs @ [bc])" "bc_frame dev dev1"
    "bi_data (bc_nodes dev1 bc) = bi_data ((bc_nodes dev bc)\<lparr>bi_ref_count := bi_ref_count (bc_nodes dev bc) + 1\<rparr>)"
    by (rule Get_cached[OF dev(3) f]) blast
  obtain nn h t where d1: "dev1 = dev\<lparr>bc_nodes := nn, bc_head := h, bc_tail := t\<rparr>" by (rule bc_frameE[OF g(3)])
  have e1: "ops dev1 = ops dev" "attr dev1 = attr dev" "pg_size dev1 = pg_size dev" "spare_data_size dev1 = spare_data_size dev"
    "uninit dev1 = uninit dev" "spare_pool dev1 = spare_pool dev" "spare_mem dev1 = spare_mem dev" "drv dev1 = drv dev" "bufs dev1 = bufs dev"
    "dirtyGroup dev1 = dirtyGroup dev" "dirty_groups dev1 = dirty_groups dev" "ppb dev1 = ppb dev"
    by (simp_all add: d1 ppb_def)
  have sp: "bi_spares (bc_nodes dev1 bc) = bi_spares (bc_nodes dev bc)" "bi_block (bc_nodes dev1 bc) = bi_block (bc_nodes dev bc)"
    using g(4) by (simp_all add: bi_data_def)
  note lc = loaded_cong[OF sp(1) e1(12)]
  have st1: "flush_ready D (remove1 bc bs @ [bc]) xs cs G bc dev1"
  proof -
    have "buf_inv dev1 xs cs G" using dev(2) by (subst buf_inv_cong_dev[of _ dev]) (simp_all add: d1)
    moreover have "can_store D dev1" by (rule can_store_cong[OF dev(1)]) (simp_all add: e1)
    ultimately show ?thesis using g(2) bc(4) by (simp add: flush_ready_def lc)
  qed
  have ld1: "loaded dev1 bc" using bc(4) by (simp add: lc)
  obtain k1 d2 where k1: "uffs_GetFreePagesCount bc dev1 = Some (k1, d2)" and kk: "k1 = k"
    using room(1) free_count_loaded[OF bc(4), of "rev [0..<ppb dev]" 0] free_count_loaded[OF ld1, of "rev [0..<ppb dev]" 0]
    by (simp add: uffs_GetFreePagesCount_def lc e1)
  note fr = free_count_room[OF ld1 k1, unfolded lc e1, OF bc(5)]
  have cnt: "dg_count (dirtyGroup dev1 ! slot) = int (length (G slot))" using dirty_invD(3)[OF di s(1)] by (simp add: e1)
  have "length (G slot) \<le> length (filter (\<lambda>p. tag_erased (GET_TAG dev1 bc p)) [1..<ppb dev1])"
    using fr(2,4) room(2) by (simp add: lc e1 kk)
  from Enough_FreePage_ok[OF st1 _ this, of b n, unfolded e1 sp lc, OF s(1) rdy ids b] obtain ys dev2 where
    run: "uffs_BufFlush_Exist_With_Enough_FreePage slot n bc dev1 = Some (U_SUCC, dev2)"
    and st2: "flush_ready D (remove1 bc bs @ [bc]) ys cs (G(slot := [])) bc dev2" "set ys = set xs"
    and a: "appended cell ready clean b bc (set xs) (sort_key (\<lambda>x. b_page_id (bufs dev x)) (G slot))
      (take (length (G slot)) (filter (\<lambda>p. tag_erased (GET_TAG dev bc p)) [1..<ppb dev])) dev1 dev2" by blast
  have hd: "dg_dirty (dirtyGroup dev ! slot) = Some d" "dg_count (dirtyGroup dev ! slot) \<noteq> 0"
    using dirty_invD(3,7)[OF di s(1)] s(2) by simp_all
  have full: "BufFlush False slot dev = Some (U_SUCC, uffs_BlockInfoPut (Some bc) dev2)"
    using hd CheckDirtyList_ok[OF di s(1)] ty n g(1) Load_loaded[OF ld1] k1 fr room(2) run cnt
    by (auto simp: BufFlush_def Let_def kk)
  let ?d = "uffs_BlockInfoPut (Some bc) dev2"
  have bs: "bc \<in> set (remove1 bc bs @ [bc])" by simp
  have q: "bi_spares (bc_nodes ?d bc) = bi_spares (bc_nodes dev2 bc)" "bi_block (bc_nodes ?d bc) = bi_block (bc_nodes dev2 bc)" "ppb ?d = ppb dev2"
    "attr ?d = attr dev2" "pg_size ?d = pg_size dev2" "spare_data_size ?d = spare_data_size dev2" "dirty_groups ?d = dirty_groups dev2"
    "drv ?d = drv dev2" "bufs ?d = bufs dev2"
    by (simp_all add: uffs_BlockInfoPut_def)
  have "flush_ready D (remove1 bc bs @ [bc]) ys cs (G(slot := [])) bc ?d"
  proof -
    have "bc_inv ?d (remove1 bc bs @ [bc])" using st2(1) bs by (intro Put_inv) (simp_all add: flush_ready_def)
    moreover have "buf_inv ?d ys cs (G(slot := []))" using st2(1)
      by (subst buf_inv_cong_dev[of _ dev2]) (simp_all add: uffs_BlockInfoPut_def flush_ready_def)
    moreover have "can_store D dev2" using st2(1) by (simp add: flush_ready_def)
    then have "can_store D ?d" by (rule can_store_cong) (simp_all add: uffs_BlockInfoPut_def)
    ultimately show ?thesis using st2(1) by (simp add: flush_ready_def loaded_cong[OF q(1,3)])
  qed
  moreover note a[unfolded appended_cong(1)[OF e1(2,3,4,11) sp(2) e1(8,9) lc(2)]
      appended_cong(2)[OF q(4-7,2,8,9) loaded_cong(2)[OF q(1,3)], symmetric]]
  ultimately show ?thesis using full st2(2) by blast
qed

end

section \<open>The block stays a log\<close>

lemma covered_le:
  assumes "\<And>k :: nat. k \<le> m \<Longrightarrow> \<exists>j \<le> i. h j = k"
  shows "m \<le> (i :: nat)"
proof -
  have "{..m} \<subseteq> h ` {..i}" using assms by fastforce
  then have "card {..m} \<le> card (h ` {..i})" by (intro card_mono) auto
  also have "\<dots> \<le> card {..i}" by (rule card_image_le) simp
  finally show ?thesis by simp
qed

lemma block_log_append:
  fixes F K :: "nat list"
  assumes log: "block_log T n" and F: "sorted_wrt (<) F" "\<forall>p \<in> set F. p < n" and K: "sorted_wrt (<) K" "length K = length F"
    and new: "\<And>i. i < length F \<Longrightarrow> TAG_IS_GOOD (U (F ! i)) \<and> tag_page_id (U (F ! i)) = K ! i \<and> tag_obj (U (F ! i)) = ob"
    and old: "\<And>j. j \<notin> set F \<Longrightarrow> U j = T j" and obj: "\<And>j. j < n \<Longrightarrow> TAG_IS_GOOD (T j) \<Longrightarrow> tag_obj (T j) = ob"
    and behind: "\<And>j p. j < n \<Longrightarrow> TAG_IS_GOOD (T j) \<Longrightarrow> p \<in> set F \<Longrightarrow> j < p"
    and closed: "\<And>i k. i < length K \<Longrightarrow> k < K ! i \<Longrightarrow> (\<exists>j < n. TAG_IS_GOOD (T j) \<and> tag_page_id (T j) = k) \<or> k \<in> set K"
  shows "block_log U n" "\<And>i. i < length F \<Longrightarrow> newest U n (K ! i) = Some (F ! i)"
proof -
  have keep: "U j = T j" if "j < n" "TAG_IS_GOOD (T j)" for j using behind[OF that] old by blast
  have cases: "(j \<notin> set F \<and> TAG_IS_GOOD (T j) \<and> U j = T j) \<or> (\<exists>i < length F. j = F ! i)" if "TAG_IS_GOOD (U j)" for j
    using that old by (metis in_set_conv_nth)
  have below: "\<exists>j \<le> F ! i. TAG_IS_GOOD (U j) \<and> tag_page_id (U j) = k" if i: "i < length F" and k: "k \<le> K ! i" for i k
  proof (cases "k = K ! i")
    case True
    then show ?thesis using new[OF i] by blast
  next
    case False
    then consider (old) j where "j < n" "TAG_IS_GOOD (T j)" "tag_page_id (T j) = k" | (new) c where "c < length K" "K ! c = k"
      using closed[of i k] i k K(2) by (metis in_set_conv_nth le_neq_implies_less)
    then show ?thesis
    proof cases
      case old
      then have "j < F ! i" using behind i by simp
      then show ?thesis using old keep[OF old(1,2)] by (intro exI[of _ j]) simp
    next
      case new': new
      have "\<not> i < c" using new' k False sorted_wrt_nth_less[OF K(1), of i c] by auto
      then have "c < i" using new' False by (metis linorder_neqE_nat)
      then have "F ! c < F ! i" using sorted_wrt_nth_less[OF F(1) _ i] by simp
      then show ?thesis using new[of c] new' K(2) by (intro exI[of _ "F ! c"]) simp
    qed
  qed
  have part: "tag_page_id (U j) \<le> j \<and> (\<forall>k \<le> tag_page_id (U j). \<exists>i \<le> j. TAG_IS_GOOD (U i) \<and> tag_page_id (U i) = k) \<and> tag_obj (U j) = ob"
    if j: "j < n" "TAG_IS_GOOD (U j)" for j
    using cases[OF j(2)]
  proof
    assume o: "j \<notin> set F \<and> TAG_IS_GOOD (T j) \<and> U j = T j"
    have "\<exists>i \<le> j. TAG_IS_GOOD (U i) \<and> tag_page_id (U i) = k" if k: "k \<le> tag_page_id (T j)" for k
    proof -
      obtain i where i: "i \<le> j" "TAG_IS_GOOD (T i)" "tag_page_id (T i) = k" using block_logD(2)[OF log j(1) _ k] o by blast
      then have "U i = T i" using keep j(1) by simp
      then show ?thesis using i by auto
    qed
    then show ?thesis using o block_logD(1)[OF log j(1)] obj[OF j(1)] by simp
  next
    assume "\<exists>i < length F. j = F ! i"
    then obtain i where i: "i < length F" "j = F ! i" by blast
    have "K ! i \<le> F ! i" using below[OF i(1)] by (intro covered_le[where h = "\<lambda>j. tag_page_id (U j)"]) blast
    then show ?thesis using new[OF i(1)] below[OF i(1)] i(2) by simp
  qed
  then show "block_log U n" unfolding block_log_def by metis
  show "newest U n (K ! i) = Some (F ! i)" if i: "i < length F" for i
    unfolding newest_iff
  proof (intro conjI allI impI notI)
    show "F ! i < n" using F(2) i by simp
    show "TAG_IS_GOOD (U (F ! i))" "tag_page_id (U (F ! i)) = K ! i" using new[OF i] by simp_all
    fix j assume j: "F ! i < j" "j < n" "TAG_IS_GOOD (U j) \<and> tag_page_id (U j) = K ! i"
    have "\<not> (j \<notin> set F \<and> TAG_IS_GOOD (T j))" using behind[OF j(2), of "F ! i"] i j(1) by auto
    then obtain c where c: "c < length F" "j = F ! c" using cases[of j] j(3) by blast
    then have "K ! c = K ! i" using new[OF c(1)] j(3) by simp
    then have "c = i" using K c(1) i by (metis linorder_neqE_nat sorted_wrt_nth_less less_irrefl)
    then show False using c(2) j(1) by simp
  qed
qed

lemma appended_tag_fields:
  fixes dev :: "'f device" and bc p :: nat and b :: Buf
  defines "T \<equiv> appended_tag dev bc p b"
  shows "TAG_IS_GOOD T" "ts_page_id (tag_s T) = ucast (b_page_id b)" "ts_parent (tag_s T) = ucast (b_parent b)"
    "ts_serial (tag_s T) = ucast (b_serial b)" "ts_type (tag_s T) = ucast (b_type b)" "ts_data_len (tag_s T) = ucast (b_data_len b)"
    "ts_block_ts (tag_s T) = word_of_int (block_time dev bc)" "tag_coded (attr dev) (tag_s T)"
  by (auto simp: T_def appended_tag_def write_tag_def append_tag_def set_store_def TagMakeEcc_def Let_def TAG_IS_GOOD_def
      TAG_IS_SEALED_def TAG_IS_VALID_def tag_coded_def)


section \<open>On the emulator\<close>

text \<open>A group that \<open>_BufFlush\<close> appends: its object has a node, the block of the node is cached with all
  its tags, its first page is good, it has room, and the driver can write the free pages.\<close>

definition appendable :: "femu device \<Rightarrow> nat list \<Rightarrow> nat list \<Rightarrow> nat list \<Rightarrow> (nat \<Rightarrow> nat list) \<Rightarrow> nat \<Rightarrow> nat \<Rightarrow> bool" where
  "appendable dev bs xs cs G slot bc \<longleftrightarrow>
     femu_writable dev \<and> buf_inv dev xs cs G \<and> bc_inv dev bs \<and> slot < nat (dirty_groups dev) \<and> G slot \<noteq> [] \<and>
     inj_on (\<lambda>x. b_page_id (bufs dev x)) (set (G slot)) \<and>
     (let d = bufs dev (hd (G slot)); blk = bi_block (bc_nodes dev bc)
      in b_type d \<in> {UFFS_TYPE_DIR, UFFS_TYPE_FILE, UFFS_TYPE_DATA} \<and>
         (\<exists>n. find_flush_node d dev = Some (Some n) \<and> blk = GetBlockFromNode (b_type d) (nu dev n)) \<and>
         blk \<noteq> UFFS_INVALID_BLOCK \<and> bc \<in> set bs \<and> loaded dev bc \<and> TAG_IS_GOOD (GET_TAG dev bc 0) \<and>
         (\<exists>k. uffs_GetFreePagesCount bc dev = Some (k, dev) \<and> int (length (G slot)) \<le> k) \<and>
         (\<forall>p < ppb dev. 0 < p \<longrightarrow> tag_erased (GET_TAG dev bc p) \<longrightarrow>
            dev_ready dev (unat blk) p \<and> femu_clean (attr dev) (drv dev) (unat blk) p))"

abbreviation femu_appended :: "nat \<Rightarrow> nat set \<Rightarrow> nat list \<Rightarrow> nat list \<Rightarrow> femu device \<Rightarrow> femu device \<Rightarrow> bool" where
  "femu_appended bc S L F dev \<equiv> appended (femu_cell (attr dev)) (femu_ready (attr dev)) (femu_clean (attr dev))
     (unat (bi_block (bc_nodes dev bc))) bc S L F dev"

text \<open>The buffers of a group in the order of their page ids, and the pages they go to.\<close>

definition group_order :: "'f device \<Rightarrow> nat list \<Rightarrow> nat list" where
  "group_order dev = sort_key (\<lambda>x. b_page_id (bufs dev x))"

definition first_free :: "'f device \<Rightarrow> nat \<Rightarrow> nat \<Rightarrow> nat list" where
  "first_free dev bc n = take n (filter (\<lambda>p. tag_erased (GET_TAG dev bc p)) [1..<ppb dev])"

lemma appendable_run:
  assumes a: "appendable dev bs xs cs G slot bc"
  obtains ys dev' where "BufFlush False slot dev = Some (U_SUCC, dev')"
    "femu_writable dev'" "buf_inv dev' ys cs (G(slot := []))" "bc_inv dev' (remove1 bc bs @ [bc])" "loaded dev' bc" "set ys = set xs"
    "femu_appended bc (set xs) (group_order dev (G slot)) (first_free dev bc (length (G slot))) dev dev'"
    "length (first_free dev bc (length (G slot))) = length (G slot)"
proof -
  obtain d rest where G: "G slot = d # rest" using a by (cases "G slot") (auto simp: appendable_def)
  let ?b = "unat (bi_block (bc_nodes dev bc))"
  obtain n k where h: "can_store (g_femu_ops_ecc_soft (attr dev)) dev" "buf_inv dev xs cs G" "bc_inv dev bs" "slot < nat (dirty_groups dev)"
    "inj_on (\<lambda>x. b_page_id (bufs dev x)) (set (G slot))" "b_type (bufs dev d) \<in> {UFFS_TYPE_DIR, UFFS_TYPE_FILE, UFFS_TYPE_DATA}"
    "find_flush_node (bufs dev d) dev = Some (Some n)" "bi_block (bc_nodes dev bc) = GetBlockFromNode (b_type (bufs dev d)) (nu dev n)"
    "bi_block (bc_nodes dev bc) \<noteq> UFFS_INVALID_BLOCK" "bc \<in> set bs" "loaded dev bc" "TAG_IS_GOOD (GET_TAG dev bc 0)"
    "uffs_GetFreePagesCount bc dev = Some (k, dev)" "int (length (G slot)) \<le> k"
    "\<forall>p < ppb dev. 0 < p \<longrightarrow> tag_erased (GET_TAG dev bc p) \<longrightarrow> dev_ready dev ?b p \<and> femu_clean (attr dev) (drv dev) ?b p"
    using a unfolding appendable_def femu_writable_iff Let_def G list.sel by blast
  obtain ys dev' where r: "BufFlush False slot dev = Some (U_SUCC, dev')"
    "flush_ready (g_femu_ops_ecc_soft (attr dev)) (remove1 bc bs @ [bc]) ys cs (G(slot := [])) bc dev'" "set ys = set xs"
    "femu_appended bc (set xs) (group_order dev (G slot)) (first_free dev bc (length (G slot))) dev dev'"
    using femu.BufFlush_append[OF h(1-4) G h(5-7,10,8,9,11-15) refl] unfolding group_order_def first_free_def by blast
  have "attr dev' = attr dev" using r(4) by (simp add: appended_def same_sizes_def)
  then have w: "femu_writable dev'" "buf_inv dev' ys cs (G(slot := []))" "bc_inv dev' (remove1 bc bs @ [bc])" "loaded dev' bc"
    using r(2) by (simp_all add: flush_ready_def femu_writable_iff)
  have "length (first_free dev bc (length (G slot))) = length (G slot)"
    using free_count_room(2,4)[OF h(11,13,12)] h(14) by (simp add: first_free_def)
  from that[OF r(1) w r(3,4) this] show thesis .
qed

text \<open>C2. Flushing a dirty group whose block is cached and has room. \<open>_BufFlush\<close> succeeds, the group
  is empty and its buffers are clean; in the order of their page ids they are on the first free
  pages of the block, with tags of their object, page id and length, on the flash and in the
  cache. No other page of the flash and no other cached tag of the block changes, and the buffer
  lists and the cache stay well-formed.\<close>

theorem BufFlush_appends:
  fixes dev :: "femu device"
  assumes "appendable dev bs xs cs G slot bc"
  defines "b \<equiv> unat (bi_block (bc_nodes dev bc))" and "L \<equiv> group_order dev (G slot)" and "F \<equiv> first_free dev bc (length (G slot))"
  shows "\<exists>ys dev'. BufFlush False slot dev = Some (U_SUCC, dev') \<and>
    femu_writable dev' \<and> buf_inv dev' ys cs (G(slot := [])) \<and> set ys = set xs \<and> bc_inv dev' (remove1 bc bs @ [bc]) \<and> loaded dev' bc \<and>
    length F = length L \<and>
    (\<forall>(x, p) \<in> set (zip L F). let buf = bufs dev x; tag = GET_TAG dev' bc p in
       page_stored (attr dev) (unat (pg_size dev)) (dev_cell dev' b p) (write_header (unat (pg_size dev)) (b_page buf)) 0 \<and>
       tag_stored (attr dev) (nat (spare_data_size dev)) (dev_cell dev' b p) (tag_s tag) 0 \<and>
       TAG_IS_GOOD tag \<and> ts_page_id (tag_s tag) = ucast (b_page_id buf) \<and> ts_parent (tag_s tag) = ucast (b_parent buf) \<and>
       ts_serial (tag_s tag) = ucast (b_serial buf) \<and> ts_type (tag_s tag) = ucast (b_type buf) \<and>
       ts_data_len (tag_s tag) = ucast (b_data_len buf) \<and> b_mark (bufs dev' x) = UFFS_BUF_VALID) \<and>
    (\<forall>b' p'. dev_ready dev b' p' \<longrightarrow> (b', p') \<notin> Pair b ` set F \<longrightarrow> dev_cell dev' b' p' = dev_cell dev b' p') \<and>
    (\<forall>j. j \<notin> set F \<longrightarrow> GET_TAG dev' bc j = GET_TAG dev bc j)"
proof -
  obtain ys dev' where r: "BufFlush False slot dev = Some (U_SUCC, dev')"
    "femu_writable dev'" "buf_inv dev' ys cs (G(slot := []))" "bc_inv dev' (remove1 bc bs @ [bc])" "loaded dev' bc" "set ys = set xs"
    and a: "femu_appended bc (set xs) L F dev dev'" and l: "length F = length (G slot)"
    by (rule appendable_run[OF assms(1)]) (simp only: L_def F_def)
  note ad = a[unfolded appended_def b_def[symmetric]]
  have at: "attr dev' = attr dev" using ad by (simp add: same_sizes_def)
  have "femu_ready (attr dev) (drv dev) b' p' 0 0" if "dev_ready dev b' p'" for b' p'
    using that by (simp add: femu_ready_def)
  then have "\<forall>b' p'. dev_ready dev b' p' \<longrightarrow> (b', p') \<notin> Pair b ` set F \<longrightarrow> dev_cell dev' b' p' = dev_cell dev b' p'"
    using ad unfolding only_pages_def at by blast
  moreover have "let buf = bufs dev x; tag = GET_TAG dev' bc p in
       page_stored (attr dev) (unat (pg_size dev)) (dev_cell dev' b p) (write_header (unat (pg_size dev)) (b_page buf)) 0 \<and>
       tag_stored (attr dev) (nat (spare_data_size dev)) (dev_cell dev' b p) (tag_s tag) 0 \<and>
       TAG_IS_GOOD tag \<and> ts_page_id (tag_s tag) = ucast (b_page_id buf) \<and> ts_parent (tag_s tag) = ucast (b_parent buf) \<and>
       ts_serial (tag_s tag) = ucast (b_serial buf) \<and> ts_type (tag_s tag) = ucast (b_type buf) \<and>
       ts_data_len (tag_s tag) = ucast (b_data_len buf) \<and> b_mark (bufs dev' x) = UFFS_BUF_VALID" if z: "(x, p) \<in> set (zip L F)" for x p
  proof -
    have "buf_stored (femu_cell (attr dev)) b bc dev dev' x p" "buf_cleaned dev dev' x" using ad z set_zip_leftD[OF z] by auto
    then show ?thesis
      by (auto simp: buf_stored_def buf_cleaned_def at Let_def appended_tag_fields)
  qed
  moreover have "length F = length L" by (simp add: l L_def group_order_def)
  ultimately show ?thesis using r ad by (intro exI[of _ ys] exI[of _ dev']) auto
qed


text \<open>A group that continues the log of its block: same object, no page id is left out, and the free
  pages are behind the good ones. A page id has 6 bits in the tag.\<close>

definition log_group :: "femu device \<Rightarrow> (nat \<Rightarrow> nat list) \<Rightarrow> nat \<Rightarrow> nat \<Rightarrow> bool" where
  "log_group dev G slot bc \<longleftrightarrow>
     (let T = GET_TAG dev bc; d = bufs dev (hd (G slot)); id = (\<lambda>x. unat (b_page_id (bufs dev x)))
      in block_log T (ppb dev) \<and> tag_obj (T 0) = (unat (b_parent d), unat (b_serial d)) \<and>
         (\<forall>j < ppb dev. TAG_IS_GOOD (T j) \<longrightarrow> (\<forall>p < ppb dev. 0 < p \<longrightarrow> tag_erased (T p) \<longrightarrow> j < p)) \<and>
         (\<forall>x \<in> set (G slot). id x < 64 \<and>
            (\<forall>k < id x. (\<exists>j < ppb dev. TAG_IS_GOOD (T j) \<and> tag_page_id (T j) = k) \<or> k \<in> id ` set (G slot))))"

lemma unat_ucast_small:
  assumes "unat w < 2 ^ LENGTH('b)"
  shows "unat (ucast (w :: 'a :: len word) :: 'b :: len word) = unat w"
  using assms by (simp add: unsigned_ucast_eq take_bit_nat_eq_self unsigned_take_bit_eq)

lemma tag_obj_cast:
  assumes "tag_obj t = (unat (p :: u16), unat (s :: u16))"
  shows "unat (ucast p :: 10 word) = unat p" "unat (ucast s :: 14 word) = unat s"
proof -
  have "unat p = unat (ts_parent (tag_s t))" "unat s = unat (ts_serial (tag_s t))" using assms by (simp_all add: tag_obj_def)
  then have "unat p < 2 ^ LENGTH(10)" "unat s < 2 ^ LENGTH(14)"
    using unsigned_less[of "ts_parent (tag_s t)"] unsigned_less[of "ts_serial (tag_s t)"] by simp_all
  then show "unat (ucast p :: 10 word) = unat p" "unat (ucast s :: 14 word) = unat s" by (simp_all only: unat_ucast_small)
qed

lemma log_group_after:
  assumes a: "appendable dev bs xs cs G slot bc" and g: "log_group dev G slot bc"
    and ap: "femu_appended bc (set xs) (group_order dev (G slot)) (first_free dev bc (length (G slot))) dev dev'"
    and len: "length (first_free dev bc (length (G slot))) = length (G slot)"
  shows "block_log (GET_TAG dev' bc) (ppb dev)"
    "(x, p) \<in> set (zip (group_order dev (G slot)) (first_free dev bc (length (G slot)))) \<Longrightarrow>
       newest (GET_TAG dev' bc) (ppb dev) (unat (b_page_id (bufs dev x))) = Some p"
proof -
  define L F where "L = group_order dev (G slot)" and "F = first_free dev bc (length (G slot))"
  define K where "K = map (\<lambda>x. unat (b_page_id (bufs dev x))) L"
  let ?T = "GET_TAG dev bc" and ?ob = "tag_obj (GET_TAG dev bc 0)"
  define d where "d = hd (G slot)"
  have hd: "d \<in> set (G slot)" and di: "dirty_inv dev (set xs) G" and s: "slot < nat (dirty_groups dev)"
    and inj: "inj_on (\<lambda>x. b_page_id (bufs dev x)) (set (G slot))" and gd: "0 < ppb dev" "TAG_IS_GOOD (?T 0)"
    using a by (auto simp: appendable_def buf_inv_def Let_def loaded_def d_def)
  have log: "block_log ?T (ppb dev)" and ob: "?ob = (unat (b_parent (bufs dev d)), unat (b_serial (bufs dev d)))"
    and beh: "\<And>j p. j < ppb dev \<Longrightarrow> TAG_IS_GOOD (?T j) \<Longrightarrow> p < ppb dev \<Longrightarrow> 0 < p \<Longrightarrow> tag_erased (?T p) \<Longrightarrow> j < p"
    and cl: "\<And>x k. x \<in> set (G slot) \<Longrightarrow> k < unat (b_page_id (bufs dev x)) \<Longrightarrow>
       (\<exists>j < ppb dev. TAG_IS_GOOD (?T j) \<and> tag_page_id (?T j) = k) \<or> k \<in> (\<lambda>x. unat (b_page_id (bufs dev x))) ` set (G slot)"
    and sm: "\<And>x. x \<in> set (G slot) \<Longrightarrow> unat (b_page_id (bufs dev x)) < 64"
    using g by (auto simp: log_group_def Let_def d_def)
  have L: "set L = set (G slot)" "length L = length F" by (simp_all add: L_def F_def group_order_def len)
  have Fp: "p < ppb dev \<and> 0 < p \<and> tag_erased (?T p)" if "p \<in> set F" for p
    using that by (auto simp: F_def first_free_def dest: in_set_takeD)
  have sF: "sorted_wrt (<) F"
    unfolding F_def first_free_def by (intro sorted_wrt_take sorted_wrt_filter) simp
  have dK: "distinct (map (\<lambda>x. b_page_id (bufs dev x)) L)"
    using dirty_invD(8)[OF di s] inj by (simp add: L_def group_order_def distinct_map)
  have "sorted (map (\<lambda>x. b_page_id (bufs dev x)) L)" unfolding L_def group_order_def by (rule sorted_sort_key)
  then have "sorted_wrt (<) (map (\<lambda>x. b_page_id (bufs dev x)) L)" using dK by (simp add: strict_sorted_iff)
  then have sK: "sorted_wrt (<) K" by (simp add: K_def sorted_wrt_map word_less_nat_alt)
  have st: "buf_stored (femu_cell (attr dev)) (unat (bi_block (bc_nodes dev bc))) bc dev dev' (L ! i) (F ! i)" if "i < length F" for i
    using ap that L(2) by (auto simp: appended_def L_def[symmetric] F_def[symmetric] set_zip)
  have new: "TAG_IS_GOOD (GET_TAG dev' bc (F ! i)) \<and> tag_page_id (GET_TAG dev' bc (F ! i)) = K ! i \<and> tag_obj (GET_TAG dev' bc (F ! i)) = ?ob"
    if i: "i < length F" for i
  proof -
    let ?x = "L ! i"
    have x: "?x \<in> set (G slot)" using i L by (metis nth_mem)
    have t: "GET_TAG dev' bc (F ! i) = appended_tag dev bc (F ! i) (bufs dev ?x)" using st[OF i] by (simp add: buf_stored_def)
    have "buf_obj (bufs dev ?x) = buf_obj (bufs dev d)" using dirty_inv_obj[OF di s s x hd] by simp
    then have o: "b_parent (bufs dev ?x) = b_parent (bufs dev d)" "b_serial (bufs dev ?x) = b_serial (bufs dev d)"
      by (simp_all add: buf_obj_def)
    have "tag_page_id (appended_tag dev bc (F ! i) (bufs dev ?x)) = K ! i"
      using i L(2) by (simp add: tag_page_id_def appended_tag_fields unat_ucast_small sm[OF x] K_def)
    moreover have "tag_obj (appended_tag dev bc (F ! i) (bufs dev ?x)) = ?ob"
      using tag_obj_cast[OF ob] by (simp add: tag_obj_def appended_tag_fields o ob[unfolded tag_obj_def])
    ultimately show ?thesis unfolding t by (simp add: appended_tag_fields)
  qed
  have old: "GET_TAG dev' bc j = ?T j" if "j \<notin> set F" for j
    using ap that by (simp add: appended_def F_def)
  have ob': "tag_obj (?T j) = ?ob" if "j < ppb dev" "TAG_IS_GOOD (?T j)" for j
    using block_logD(3)[OF log that gd] .
  have clK: "(\<exists>j < ppb dev. TAG_IS_GOOD (?T j) \<and> tag_page_id (?T j) = k) \<or> k \<in> set K" if "i < length K" "k < K ! i" for i k
  proof -
    have i: "i < length L" using that(1) by (simp add: K_def)
    then have "L ! i \<in> set (G slot)" "k < unat (b_page_id (bufs dev (L ! i)))"
      using that(2) nth_mem[OF i] by (simp_all add: K_def L(1))
    from cl[OF this] show ?thesis by (simp add: K_def L(1))
  qed
  have Fn: "\<forall>p \<in> set F. p < ppb dev" and lK: "length K = length F" using Fp L(2) by (simp_all add: K_def)
  have bF: "j < p" if "j < ppb dev" "TAG_IS_GOOD (?T j)" "p \<in> set F" for j p using beh[OF that(1,2)] Fp[OF that(3)] by blast
  show "block_log (GET_TAG dev' bc) (ppb dev)"
    by (rule block_log_append(1)[OF log sF Fn sK lK new old ob' bF clK]) assumption+
  have b: "newest (GET_TAG dev' bc) (ppb dev) (K ! i) = Some (F ! i)" if "i < length F" for i
    by (rule block_log_append(2)[OF log sF Fn sK lK new old ob' bF clK]) (assumption | rule that)+
  assume "(x, p) \<in> set (zip (group_order dev (G slot)) (first_free dev bc (length (G slot))))"
  then obtain i where i: "i < length F" "x = L ! i" "p = F ! i" using L(2) by (auto simp: L_def[symmetric] F_def[symmetric] set_zip)
  show "newest (GET_TAG dev' bc) (ppb dev) (unat (b_page_id (bufs dev x))) = Some p"
    using b[OF i(1)] i L(2) by (simp add: K_def)
qed

text \<open>C3. What was flushed is found and read back. If the block is a log and the group continues it,
  then after the flush the block is a log, and for every buffer of the group the search for its page
  id and for the best copy lead to a page from which its contents are read.\<close>

theorem flushed_pages_found:
  fixes dev :: "femu device"
  assumes "appendable dev bs xs cs G slot bc" "log_group dev G slot bc"
  defines "b \<equiv> unat (bi_block (bc_nodes dev bc))"
  shows "\<exists>dev'. BufFlush False slot dev = Some (U_SUCC, dev') \<and> block_log (GET_TAG dev' bc) (ppb dev') \<and>
    (\<forall>x \<in> set (G slot). \<exists>p q. uffs_FindPageInBlockWithPageId bc (b_page_id (bufs dev x)) dev' = Some (p, dev') \<and>
       uffs_FindBestPageInBlock bc p dev' = Some (q, dev') \<and>
       (\<forall>buf \<in> set xs. \<exists>mem. uffs_FlashReadPage (int b) (uint q) buf False dev' = Some (UFFS_FLASH_NO_ERR,
          (upd_buf buf (\<lambda>z. z\<lparr>b_page := write_header (unat (pg_size dev)) (b_page (bufs dev x))\<rparr>) dev')\<lparr>spare_mem := mem\<rparr>)))"
proof -
  define L F where "L = group_order dev (G slot)" and "F = first_free dev bc (length (G slot))"
  obtain ys dev' where run: "BufFlush False slot dev = Some (U_SUCC, dev')"
    and d: "femu_writable dev'" "buf_inv dev' ys cs (G(slot := []))" "loaded dev' bc" "set ys = set xs"
    and a: "femu_appended bc (set xs) L F dev dev'" and len: "length F = length (G slot)"
    by (rule appendable_run[OF assms(1)]) (simp only: L_def F_def)
  note log = log_group_after[OF assms(1,2) a[unfolded L_def F_def] len[unfolded F_def], folded L_def F_def]
  have sm: "attr dev' = attr dev" "pg_size dev' = pg_size dev" "spare_data_size dev' = spare_data_size dev"
    using a by (simp_all add: appended_def same_sizes_def)
  then have ppb: "ppb dev' = ppb dev" by (simp add: ppb_def)
  have w: "ops dev' = g_femu_ops_ecc_soft (attr dev')" "spare_ready dev'"
    "ecc_opt (attr dev') = UFFS_ECC_SOFT \<or> ecc_opt (attr dev') = UFFS_ECC_NONE"
    using d(1) by (auto simp: femu_writable_def ecc_room_def)
  have found: "\<exists>p q. uffs_FindPageInBlockWithPageId bc (b_page_id (bufs dev x)) dev' = Some (p, dev') \<and>
       uffs_FindBestPageInBlock bc p dev' = Some (q, dev') \<and>
       (\<forall>buf \<in> set xs. \<exists>mem. uffs_FlashReadPage (int b) (uint q) buf False dev' = Some (UFFS_FLASH_NO_ERR,
          (upd_buf buf (\<lambda>z. z\<lparr>b_page := write_header (unat (pg_size dev)) (b_page (bufs dev x))\<rparr>) dev')\<lparr>spare_mem := mem\<rparr>))"
    if x: "x \<in> set (G slot)" for x
  proof -
    have "x \<in> set L" "length L = length F" using x len by (simp_all add: L_def group_order_def)
    then obtain l where z: "(x, l) \<in> set (zip L F)" by (metis in_set_impl_in_set_zip1)
    obtain p where p: "uffs_FindPageInBlockWithPageId bc (b_page_id (bufs dev x)) dev' = Some (p, dev')"
      "uffs_FindBestPageInBlock bc p dev' = Some (word_of_nat l, dev')"
      by (rule find_newest[OF d(3) log(1)[folded ppb] log(2)[OF z, folded ppb]])
    have l: "l < ppb dev" "0 < l" "tag_erased (GET_TAG dev bc l)"
      using set_zip_rightD[OF z] by (auto simp: F_def first_free_def dest: in_set_takeD)
    have lq: "uint (word_of_nat l :: u16) = int l"
      using word_page[OF l(1)] assms(1) by (auto simp: appendable_def loaded_def Let_def uint_nat)
    have "dev_ready dev b l" using assms(1) l by (auto simp: appendable_def Let_def b_def)
    then have r: "dev_ready dev' b l" using a sm by (simp add: appended_def only_pages_def)
    have st: "page_stored (attr dev') (unat (pg_size dev')) (dev_cell dev' b l) (write_header (unat (pg_size dev)) (b_page (bufs dev x))) 0"
      using a z sm by (auto simp: appended_def buf_stored_def b_def)
    have "\<exists>mem. uffs_FlashReadPage (int b) (int l) buf False dev' = Some (UFFS_FLASH_NO_ERR,
          (upd_buf buf (\<lambda>z. z\<lparr>b_page := write_header (unat (pg_size dev)) (b_page (bufs dev x))\<rparr>) dev')\<lparr>spare_mem := mem\<rparr>)"
      if "buf \<in> set xs" for buf
    proof -
      have "length (b_page (bufs dev' buf)) = unat (pg_size dev')"
        using d(2,4) that pages_invD(6)[of dev' ys cs buf] by (simp add: buf_inv_def)
      from femu.ReadPage_stored[OF w(1,2) r this w(3) st] show ?thesis by auto
    qed
    then show ?thesis using p lq by auto
  qed
  show ?thesis using run log(1) found by (auto simp: ppb)
qed

section \<open>On the sample device\<close>

lemma dirty_inv_none:
  "dirty_inv dev S (\<lambda>_. []) \<longleftrightarrow> nat (dirty_groups dev) \<le> length (dirtyGroup dev) \<and>
     (\<forall>s < nat (dirty_groups dev). dg_dirty (dirtyGroup dev ! s) = None \<and> dg_count (dirtyGroup dev ! s) = 0) \<and>
     (\<forall>x \<in> S. b_mark (bufs dev x) \<noteq> UFFS_BUF_DIRTY)"
  by (auto simp: dirty_inv_def dll_def)

lemma buf_inv_none:
  assumes "buf_inv dev xs cs (\<lambda>_. [])" "list_view (f (bufs dev x)) = list_view (bufs dev x)" "b_mark (f (bufs dev x)) = b_mark (bufs dev x)"
  shows "buf_inv (upd_buf x f dev) xs cs (\<lambda>_. [])"
proof -
  have "pages_inv (upd_buf x f dev) xs cs" using assms(1,2) by (simp add: buf_inv_def pages_inv_upd)
  moreover have "dirty_inv (upd_buf x f dev) (set xs) (\<lambda>_. [])"
    using assms(1,3) unfolding buf_inv_def dirty_inv_none by auto
  ultimately show ?thesis by (simp add: buf_inv_def)
qed

text \<open>A file with serial 5 in block 3: its header, page 1, and a second copy of page 1. The group 0
  holds a new copy of page 1 in buffer 8 and the new page 2 in buffer 7.\<close>

definition sample_file_tree :: "femu device" where
  "sample_file_tree = the (uffs_InsertNodeToTree UFFS_TYPE_FILE 8192 (upd_u 8192 (\<lambda>_. UFile 3 0 0 5 1000) sample_tree))"

definition sample_file :: "femu device" where
  "sample_file = upd_buf 8 (\<lambda>b. b\<lparr>b_type := UFFS_TYPE_FILE, b_parent := 0, b_serial := 5, b_page_id := 1, b_data_len := 508\<rparr>)
     (upd_buf 7 (\<lambda>b. b\<lparr>b_type := UFFS_TYPE_FILE, b_parent := 0, b_serial := 5, b_page_id := 2, b_data_len := 200\<rparr>)
     (upd_bi 3 (\<lambda>b. b\<lparr>bi_block := 3, bi_spares := map (\<lambda>i. \<lparr>sp_tag = sample_tags i, sp_expired = False\<rparr>) [0..<32], bi_expired_count := 0\<rparr>)
       (sample_fs\<lparr>tree := tree sample_file_tree, tree_nodes := tree_nodes sample_file_tree, tree_pool := tree_pool sample_file_tree\<rparr>)))"

definition sample_group :: "femu device" where
  "sample_group = LinkToDirtyList 0 7 (LinkToDirtyList 0 8 sample_file)"

lemma sample_file_tree_ok: "tree_maps sample_file_tree [OFile 5 \<mapsto> 8192]" "nu sample_file_tree 8192 = UFile 3 0 0 5 1000"
proof -
  let ?d = "upd_u 8192 (\<lambda>_. UFile 3 0 0 5 1000) sample_tree"
  have t: "tree_maps ?d (\<lambda>_. None)" by (rule tree_maps_frame[OF sample_tree_ok(1)]) simp_all
  have "node_obj (nu ?d 8192) = Some (OFile 5)" "8192 \<in> slots ?d" using sample_tree_ok(3) by (simp_all add: slots_def)
  from InsertNodeToTree_ok[OF t this(1) _ this(2)] obtain d where
    d: "uffs_InsertNodeToTree UFFS_TYPE_FILE 8192 ?d = Some d" "tree_maps d [OFile 5 \<mapsto> 8192]" "keeps ?d d" by auto
  then show "tree_maps sample_file_tree [OFile 5 \<mapsto> 8192]" "nu sample_file_tree 8192 = UFile 3 0 0 5 1000"
    by (simp_all add: sample_file_tree_def keeps_def)
qed

lemma sample_fs_groups: "dirty_groups sample_fs = 3" "bc_nodes sample_fs = bc_nodes sample_cached"
proof -
  obtain n h t where c: "sample_cached = sample_dev\<lparr>bc_nodes := n, bc_head := h, bc_tail := t\<rparr>"
    by (rule bc_frameE[OF sample_cached_ok(4)])
  have sz: "page_data_size sample_attr = 512"
    by (simp add: sample_attr_def InitSpareLayout_def attr512_def Let_def)
  obtain d where d: "uffs_BufInit (int 40) 32 sample_cached = Some (U_SUCC, d)" "dirty_groups d = dirty_groups sample_cached"
    "buf_frame (sample_cached\<lparr>pg_size := page_data_size (attr sample_cached), header_size := 4,
      pg_data_size := page_data_size (attr sample_cached) - 4, buf_pool := True, buf_max := int 40,
      dirty_buf_max := min 32 (int (ppb sample_cached))\<rparr>) d"
    using BufInit_run[of sample_cached 40 32] sz by (auto simp: c sample_dev_def SIZEOF_BUF_def)
  then have "sample_fs = d" by (simp add: sample_fs_def)
  then show "dirty_groups sample_fs = 3" "bc_nodes sample_fs = bc_nodes sample_cached"
    using d(2) buf_frame_fields(7)[OF d(3)] by (simp_all add: c) (simp add: sample_dev_def)
qed

lemma sample_fs_cold: "x < 10 \<Longrightarrow> bi_block (bc_nodes sample_fs x) = UFFS_INVALID_BLOCK"
proof -
  assume x: "x < 10"
  obtain d where d: "uffs_BlockInfoInitCache (int 10) sample_dev = Some (U_SUCC, d)"
    "\<And>x. x < 10 \<Longrightarrow> bi_block (bc_nodes d x) = UFFS_INVALID_BLOCK \<and> bi_ref_count (bc_nodes d x) = 0 \<and>
       (\<forall>i < ppb sample_dev. tag_expired d x i)"
    by (rule InitCache_inv[of sample_dev 10]) (simp_all add: SIZEOF_BLOCKINFO_def SIZEOF_PAGESPARE_def)
  then show "bi_block (bc_nodes sample_fs x) = UFFS_INVALID_BLOCK"
    using x by (simp add: sample_fs_groups sample_cached_def)
qed

lemma sample_file_ok:
  "buf_inv sample_file [2..<40] [1, 0] (\<lambda>_. [])" "bc_inv sample_file [0..<10]" "femu_writable sample_file" "loaded sample_file 3"
  "attr sample_file = sample_attr" "drv sample_file = sample_femu" "ppb sample_file = 32" "pg_size sample_file = 512"
  "spare_data_size sample_file = 16" "dirty_groups sample_file = 3" "i < 32 \<Longrightarrow> GET_TAG sample_file 3 i = sample_tags i"
  "bi_block (bc_nodes sample_file 3) = 3" "tree_maps sample_file [OFile 5 \<mapsto> 8192]" "nu sample_file 8192 = UFile 3 0 0 5 1000"
proof -
  let ?t = "sample_fs\<lparr>tree := tree sample_file_tree, tree_nodes := tree_nodes sample_file_tree, tree_pool := tree_pool sample_file_tree\<rparr>"
  let ?f = "\<lambda>b. b\<lparr>bi_block := 3, bi_spares := map (\<lambda>i. \<lparr>sp_tag = sample_tags i, sp_expired = False\<rparr>) [0..<32], bi_expired_count := 0\<rparr>"
  have b0: "buf_inv (upd_bi 3 ?f ?t) [2..<40] [1, 0] (\<lambda>_. [])"
    using sample_fs_ok(1) by (subst buf_inv_cong_dev[of _ sample_fs]) simp_all
  show "buf_inv sample_file [2..<40] [1, 0] (\<lambda>_. [])"
    unfolding sample_file_def by (intro buf_inv_none b0) (simp_all add: list_view_def)
  show f: "attr sample_file = sample_attr" "drv sample_file = sample_femu" "ppb sample_file = 32" "pg_size sample_file = 512"
    "spare_data_size sample_file = 16" "dirty_groups sample_file = 3"
    using sample_fs_ok(11) by (simp_all add: sample_file_def sample_fs_ok sample_attr_fields sample_fs_groups(1) ppb_def)
  have pt: "ppb ?t = 32" using sample_fs_ok(11) by (simp add: ppb_def)
  have "bc_inv ?t [0..<10]" using sample_fs_ok(2) bc_inv_cong_dev[of ?t sample_fs] pt sample_fs_ok(11) by simp
  then have "bc_inv (upd_bi 3 ?f ?t) [0..<10]"
  proof (rule bc_inv_upd)
    have "0 \<le> bi_ref_count (bc_nodes sample_fs 3)" using bc_invD(3)[OF sample_fs_ok(2), of 3] by (simp add: bi_ok_def)
    then show "bi_ok (ppb ?t) (?f (bc_nodes ?t 3))" unfolding pt by (simp add: bi_ok_def o_def)
    show "bi_block (?f (bc_nodes ?t 3)) = bi_block (bc_nodes ?t 3) \<or> (\<forall>y \<in> set [0..<10]. bi_block (bc_nodes ?t y) \<noteq> bi_block (?f (bc_nodes ?t 3)))"
      using sample_fs_cold by (auto simp: UFFS_INVALID_BLOCK_def)
  qed simp_all
  then show "bc_inv sample_file [0..<10]"
    unfolding sample_file_def by (subst bc_inv_cong_dev[of _ "upd_bi 3 ?f ?t"]) simp_all
  have "can_store (g_femu_ops_ecc_soft sample_attr) sample_fs"
    using sample_fs_ready(1) by (simp add: femu_writable_iff sample_fs_ok(3))
  then have "can_store (g_femu_ops_ecc_soft sample_attr) sample_file" by (rule can_store_cong) (simp_all add: sample_file_def)
  then show "femu_writable sample_file" by (simp add: femu_writable_iff f(1))
  show "loaded sample_file 3" by (simp add: loaded_def f) (simp add: sample_file_def)
  show "i < 32 \<Longrightarrow> GET_TAG sample_file 3 i = sample_tags i" "bi_block (bc_nodes sample_file 3) = 3"
    by (simp_all add: sample_file_def GET_TAG_def)
  show "tree_maps sample_file [OFile 5 \<mapsto> 8192]"
    by (rule tree_maps_frame[OF sample_file_tree_ok(1)]) (simp_all add: sample_file_def)
  show "nu sample_file 8192 = UFile 3 0 0 5 1000" using sample_file_tree_ok(2) by (simp add: sample_file_def nu_def)
qed

definition sample_dirty :: "nat \<Rightarrow> nat list" where
  "sample_dirty = (\<lambda>_. [])(0 := [7, 8])"

lemma sample_file_bufs:
  "content (bufs sample_file 7) = (b_page (bufs sample_fs 7), UFFS_TYPE_FILE, 0, 5, 2, 200)"
  "content (bufs sample_file 8) = (b_page (bufs sample_fs 8), UFFS_TYPE_FILE, 0, 5, 1, 508)"
  by (simp_all add: sample_file_def content_def)

lemma sample_group_ok:
  "buf_inv sample_group [2..<40] [1, 0] sample_dirty" "buf_frame sample_file sample_group"
  "content (bufs sample_group y) = content (bufs sample_file y)"
proof -
  have d0: "dirty_inv sample_file (set [2..<40]) (\<lambda>_. [])" using sample_file_ok(1) by (simp add: buf_inv_def)
  let ?d = "LinkToDirtyList 0 8 sample_file"
  have l1: "buf_inv ?d [2..<40] [1, 0] ((\<lambda>_. [])(0 := [8]))"
    using LinkToDirtyList_inv[OF sample_file_ok(1), of 0 8] by (simp add: sample_file_ok)
  have f1: "buf_frame sample_file ?d" and u1: "undirty (bufs ?d y) = undirty (bufs sample_file y)" for y
    using LinkToDirtyList_ok(2,3)[OF d0, of 0 8] by (simp_all add: sample_file_ok)
  have g1: "dirty_groups ?d = 3" using buf_frame_fields(2)[OF f1] by (simp add: sample_file_ok)
  have o: "buf_obj (bufs ?d 7) = (0, 5)" "buf_obj (bufs ?d 8) = (0, 5)"
    using undirty_views[OF u1[of 7]] undirty_views[OF u1[of 8]] sample_file_bufs by (auto simp: content_def buf_obj_def)
  define G8 :: "nat \<Rightarrow> nat list" where "G8 = (\<lambda>_. [])(0 := [8])"
  have l1: "buf_inv ?d [2..<40] [1, 0] G8" using l1 by (simp add: G8_def)
  then have d1: "dirty_inv ?d (set [2..<40]) G8" by (simp add: buf_inv_def)
  have h: "7 \<notin> set (G8 i)" "y \<in> set (G8 i) \<Longrightarrow> buf_obj (bufs ?d y) = buf_obj (bufs ?d 7) \<longleftrightarrow> i = 0" for i y
    using o by (auto simp: G8_def split: if_splits)
  have s: "0 < nat (dirty_groups ?d)" "7 \<in> set [2..<40 :: nat]" by (simp_all add: g1)
  have "buf_inv (LinkToDirtyList 0 7 ?d) [2..<40] [1, 0] (G8(0 := 7 # G8 0))"
    by (rule LinkToDirtyList_inv[OF l1 s h])
  then show "buf_inv sample_group [2..<40] [1, 0] sample_dirty" by (simp add: sample_group_def sample_dirty_def G8_def)
  note l2 = LinkToDirtyList_ok(2,3)[OF d1 s h]
  show "buf_frame sample_file sample_group" unfolding sample_group_def by (rule buf_frame_trans[OF f1 l2(2)])
  have "content (bufs sample_group y) = content (bufs ?d y)" unfolding sample_group_def by (rule content_views) (simp add: l2(1))
  also have "\<dots> = content (bufs sample_file y)" by (rule content_views) (simp add: u1)
  finally show "content (bufs sample_group y) = content (bufs sample_file y)" .
qed

lemma sample_tags_erased: "tag_erased (sample_tags i) \<longleftrightarrow> 3 \<le> i"
proof -
  have "tag_erased ones_tag" using ones_tag[of ones_tag] by (simp add: ones_tag_def)
  moreover have "\<not> tag_erased (log_tag k n)" for k n
    by (simp add: tag_erased_def TAG_IS_SEALED_def log_tag_def)
  ultimately show ?thesis by (simp add: sample_tags_def)
qed

lemma sample_group_fields:
  "attr sample_group = sample_attr" "drv sample_group = sample_femu" "ppb sample_group = 32" "pg_size sample_group = 512"
  "spare_data_size sample_group = 16" "dirty_groups sample_group = 3" "i < 32 \<Longrightarrow> GET_TAG sample_group 3 i = sample_tags i"
  "bi_block (bc_nodes sample_group 3) = 3" "loaded sample_group 3" "bc_inv sample_group [0..<10]" "femu_writable sample_group"
  "tree_maps sample_group [OFile 5 \<mapsto> 8192]" "nu sample_group 8192 = UFile 3 0 0 5 1000"
proof -
  note fl = buf_frame_fields[OF sample_group_ok(2)]
  show p: "attr sample_group = sample_attr" "drv sample_group = sample_femu" "ppb sample_group = 32" "pg_size sample_group = 512"
    "spare_data_size sample_group = 16" "dirty_groups sample_group = 3" "i < 32 \<Longrightarrow> GET_TAG sample_group 3 i = sample_tags i"
    "bi_block (bc_nodes sample_group 3) = 3"
    using sample_file_ok(7) by (simp_all add: fl ppb_def sample_file_ok GET_TAG_def)
      (use sample_file_ok(11) in \<open>simp add: GET_TAG_def\<close>)
  show "loaded sample_group 3" using sample_file_ok(4) p(3) sample_file_ok(7) by (simp add: loaded_def fl)
  show "bc_inv sample_group [0..<10]"
    using sample_file_ok(2) bc_inv_cong_dev[OF fl(7,14,15)] p(3) sample_file_ok(7) by simp
  have "can_store (g_femu_ops_ecc_soft sample_attr) sample_file"
    using sample_file_ok(3) by (simp add: femu_writable_iff sample_file_ok)
  then have "can_store (g_femu_ops_ecc_soft sample_attr) sample_group" by (rule can_store_cong) (simp_all add: fl)
  then show "femu_writable sample_group" by (simp add: femu_writable_iff p(1))
  have tp: "tree_pool sample_group = tree_pool sample_file"
    using arg_cong[OF sample_group_ok(2)[unfolded buf_frame_def], of tree_pool] by simp
  show "tree_maps sample_group [OFile 5 \<mapsto> 8192]"
    by (rule tree_maps_frame[OF sample_file_ok(13)]) (simp_all add: fl tp)
  show "nu sample_group 8192 = UFile 3 0 0 5 1000" using sample_file_ok(14) by (simp add: nu_def fl)
qed

lemma sample_group_ids:
  "b_type (bufs sample_group 7) = UFFS_TYPE_FILE" "b_parent (bufs sample_group 7) = 0" "b_serial (bufs sample_group 7) = 5"
  "b_page_id (bufs sample_group 7) = 2" "b_page_id (bufs sample_group 8) = 1"
  using sample_group_ok(3)[of 7] sample_group_ok(3)[of 8] sample_file_bufs by (simp_all add: content_def)

lemma filter_from_3: "filter (\<lambda>p. 3 \<le> p) [1..<n] = [3..<n]"
  by (induction n) auto

lemma sample_first_free: "filter (\<lambda>p. tag_erased (GET_TAG sample_group 3 p)) [1..<32] = [3..<32]"
proof -
  have "filter (\<lambda>p. tag_erased (GET_TAG sample_group 3 p)) [1..<32] = filter (\<lambda>p. 3 \<le> p) [1..<32]"
    by (rule filter_cong[OF refl]) (simp add: sample_group_fields(7) sample_tags_erased)
  then show ?thesis by (simp only: filter_from_3)
qed

lemma sample_group_free: "uffs_GetFreePagesCount 3 sample_group = Some (29, sample_group)"
proof -
  have t: "GET_TAG sample_group 3 i = sample_tags i" if "i < 32" for i by (rule sample_group_fields(7)[OF that])
  have "takeWhile (\<lambda>i. \<not> TAG_IS_GOOD (GET_TAG sample_group 3 i)) (rev [0..<32]) = takeWhile (\<lambda>i. \<not> i < 3) (rev [0..<32])"
    by (rule takeWhile_cong[OF refl]) (simp add: t sample_tags_good)
  also have "\<dots> = rev [3..<32]" unfolding takeWhile_rev_upt by (simp add: upt_rec)
  finally have w: "takeWhile (\<lambda>i. \<not> TAG_IS_GOOD (GET_TAG sample_group 3 i)) (rev [0..<32]) = rev [3..<32]" .
  have "filter (\<lambda>i. tag_erased (GET_TAG sample_group 3 i)) (rev [3..<32]) = rev [3..<32]"
    by (rule filter_True) (simp add: t sample_tags_erased)
  then show ?thesis
    using free_count_loaded[OF sample_group_fields(9), of "rev [0..<32]" 0]
    by (simp add: uffs_GetFreePagesCount_def sample_group_fields(3) w)
qed

lemma sample_appendable: "appendable sample_group [0..<10] [2..<40] [1, 0] sample_dirty 0 3"
proof -
  note f = sample_group_fields
  have n: "find_flush_node (bufs sample_group 7) sample_group = Some (Some 8192)"
    using tree_find(2)[OF f(12), of 5] by (simp add: find_flush_node_def sample_group_ids UFFS_TYPE_FILE_def UFFS_TYPE_DIR_def)
  have b: "GetBlockFromNode UFFS_TYPE_FILE (nu sample_group 8192) = 3"
    by (simp add: GetBlockFromNode_def f(13) UFFS_TYPE_FILE_def UFFS_TYPE_DIR_def)
  have g: "TAG_IS_GOOD (GET_TAG sample_group 3 0)" by (simp add: f(7) sample_tags_good)
  have r: "\<forall>p < 32. 0 < p \<longrightarrow> tag_erased (GET_TAG sample_group 3 p) \<longrightarrow>
      femu_ready sample_attr sample_femu 3 p 512 16 \<and> femu_clean sample_attr sample_femu 3 p"
    using sample_fs_ready(2)[of 3] sample_fs_ready(3) by simp
  have d: "sample_dirty 0 = [7, 8]" by (simp add: sample_dirty_def)
  show ?thesis unfolding appendable_def Let_def d list.sel f(1-6,8) sample_group_ids
    by (intro conjI exI[of _ 8192] exI[of _ 29] sample_group_ok(1) f(9-11) n g sample_group_free)
      (use r in \<open>simp_all add: b d sample_group_ids UFFS_INVALID_BLOCK_def\<close>)
qed

lemma sample_log_group: "log_group sample_group sample_dirty 0 3"
proof -
  have t: "GET_TAG sample_group 3 i = sample_tags i" if "i < 32" for i by (rule sample_group_fields(7)[OF that])
  have log: "block_log (GET_TAG sample_group 3) 32"
    using sample_block_log block_log_cong[of 32 "GET_TAG sample_group 3" "GET_TAG sample_log 3"] by (simp add: t)
  have g: "\<exists>j < 32. TAG_IS_GOOD (GET_TAG sample_group 3 j) \<and> tag_page_id (GET_TAG sample_group 3 j) = k" if "k < 2" for k
    using that by (intro exI[of _ k]) (simp add: t sample_tags_good)
  show ?thesis
    using log g by (auto simp: log_group_def Let_def sample_group_fields(3) t sample_dirty_def sample_group_ids sample_tags_good
        sample_tags_erased)
qed

theorem BufFlush_appends_witness:
  "\<exists>ys dev'. BufFlush False 0 sample_group = Some (U_SUCC, dev') \<and> buf_inv dev' ys [1, 0] (\<lambda>_. []) \<and>
     page_stored sample_attr 512 (dev_cell dev' 3 3) (write_header 512 (b_page (bufs sample_group 8))) 0 \<and>
     page_stored sample_attr 512 (dev_cell dev' 3 4) (write_header 512 (b_page (bufs sample_group 7))) 0 \<and>
     ts_page_id (tag_s (GET_TAG dev' 3 3)) = 1 \<and> ts_page_id (tag_s (GET_TAG dev' 3 4)) = 2"
proof -
  have L: "group_order sample_group (sample_dirty 0) = [8, 7]" "length (sample_dirty 0) = 2"
    by (simp_all add: group_order_def sample_dirty_def sample_group_ids word_le_nat_alt)
  have "[3..<32 :: nat] = 3 # 4 # [5..<32]" by (simp add: upt_conv_Cons)
  then have F: "first_free sample_group 3 2 = [3, 4]"
    unfolding first_free_def sample_group_fields(3) sample_first_free by simp
  have e: "sample_dirty(0 := []) = (\<lambda>_. [])" by (auto simp: sample_dirty_def)
  show ?thesis
    using BufFlush_appends[OF sample_appendable]
    by (auto simp: L F e sample_group_fields(1,4,8) sample_group_ids Let_def)
qed

theorem flushed_pages_found_witness:
  "\<exists>dev' p q. BufFlush False 0 sample_group = Some (U_SUCC, dev') \<and> uffs_FindPageInBlockWithPageId 3 1 dev' = Some (p, dev') \<and>
     uffs_FindBestPageInBlock 3 p dev' = Some (q, dev') \<and>
     (\<exists>mem. uffs_FlashReadPage 3 (uint q) 9 False dev' = Some (UFFS_FLASH_NO_ERR,
        (upd_buf 9 (\<lambda>z. z\<lparr>b_page := write_header 512 (b_page (bufs sample_group 8))\<rparr>) dev')\<lparr>spare_mem := mem\<rparr>))"
  using flushed_pages_found[OF sample_appendable sample_log_group]
  by (fastforce simp: sample_dirty_def sample_group_ids sample_group_fields(4,8))

end
