(* ===== verification/Mount_Table.thy ===== *)
theory Mount_Table
  imports Build_Tree
begin

text \<open>
  The state of the whole file system and the mount table (\<open>uffs_mtb.c\<close>), with the
  initialisation of a device when it is mounted (\<open>uffs_init.c\<close>).

  The static variables of the sources and the memory that callers pass by reference are one
  record \<open>fs\<close>: devices, mount table entries, objects and directory handles are maps from names
  (natural numbers) to records. A C string is the list of its characters without the final zero.
  The callbacks that a board supplies (\<open>dev->Init\<close>, \<open>dev->Release\<close>, \<open>mem.init\<close>,
  \<open>mem.release\<close>) are functions in the state. The locks are left out: the global lock
  (\<open>CONFIG_USE_GLOBAL_FS_LOCK\<close>) serialises the calls, and the device locks are empty.

  The lemmas show that the mount point found for a path is the longest one that can match, and
  that a lookup leaves the reference counts as they were.
\<close>

section \<open>The state\<close>

record 'f Config =
  bc_caches :: int
  page_buffers :: int
  dirty_pages :: int
  mem_init :: "('f device \<Rightarrow> URET \<times> 'f device) option"
  mem_release :: "('f device \<Rightarrow> URET \<times> 'f device) option"
  dev_Init :: "'f device \<Rightarrow> URET \<times> 'f device"
  dev_Release :: "'f device \<Rightarrow> URET \<times> 'f device"

record MountTable =
  mt_dev :: nat
  mt_start :: int
  mt_end :: int
  mt_mount :: bytes
  mt_prev :: "nat option"
  mt_next :: "nat option"

text \<open>An object. The name is a pointer into a string of the caller: the characters from there
  to its end. The counters of the device lock are not used without that lock.\<close>

record Object =
  o_name :: "bytes option"
  o_name_len :: u32
  o_sum :: u16
  o_dev :: "nat option"
  o_oflag :: u32
  o_type :: u8
  o_head_pages :: u16
  o_parent :: u16
  o_node :: "nat option"
  o_serial :: u16
  o_err :: int
  o_pos :: u32
  o_attr_loaded :: bool
  o_open_succ :: bool

record FindInfo =
  ff_dev :: "nat option"
  ff_serial :: u16
  ff_step :: int
  ff_hash :: int
  ff_work :: "nat option"
  ff_pos :: int

text \<open>\<open>uffs_ObjectInfo\<close>: the file information is its memory image.\<close>

record ObjectInfo =
  oi_info :: bytes
  oi_len :: u32
  oi_serial :: u16

record DirEntry =
  de_obj :: "nat option"
  de_f :: FindInfo
  de_info :: ObjectInfo

text \<open>\<open>dev_refs\<close> and \<open>dev_nums\<close> are the fields \<open>ref_count\<close> and \<open>dev_num\<close> of the devices;
  \<open>clock\<close> is what \<open>uffs_GetCurDateTime\<close> returns.\<close>

record 'f fs =
  devs :: "nat \<Rightarrow> 'f device"
  cfgs :: "nat \<Rightarrow> 'f Config"
  dev_refs :: "nat \<Rightarrow> u32"
  dev_nums :: "nat \<Rightarrow> int"
  mtbs :: "nat \<Rightarrow> MountTable"
  m_head :: "nat option"
  m_free_head :: "nat option"
  dev_num_count :: int
  objects :: "nat \<Rightarrow> Object"
  object_pool :: pool
  dir_entries :: "nat \<Rightarrow> DirEntry"
  dir_pool :: pool
  uffs_errno :: int
  fd_signature :: int
  clock :: u32

definition upd_mtb :: "nat \<Rightarrow> (MountTable \<Rightarrow> MountTable) \<Rightarrow> 'f fs \<Rightarrow> 'f fs" where
  "upd_mtb x f fs = fs\<lparr>mtbs := (mtbs fs)(x := f (mtbs fs x))\<rparr>"

definition set_dev :: "nat \<Rightarrow> 'f device \<Rightarrow> 'f fs \<Rightarrow> 'f fs" where
  "set_dev d dev fs = fs\<lparr>devs := (devs fs)(d := dev)\<rparr>"

text \<open>An operation on the device \<open>d\<close>.\<close>

definition on_dev :: "nat \<Rightarrow> ('f device \<Rightarrow> ('a \<times> 'f device) option) \<Rightarrow> 'f fs \<Rightarrow> ('a \<times> 'f fs) option" where
  "on_dev d f fs = map_option (\<lambda>(r, dev). (r, set_dev d dev fs)) (f (devs fs d))"

definition ret_dev :: "('f device \<Rightarrow> 'a \<times> 'f device) \<Rightarrow> 'f device \<Rightarrow> ('a \<times> 'f device) option" where
  "ret_dev f dev = Some (f dev)"

text \<open>An operation without a result.\<close>

definition do_dev :: "nat \<Rightarrow> ('f device \<Rightarrow> 'f device) \<Rightarrow> 'f fs \<Rightarrow> 'f fs" where
  "do_dev d f fs = set_dev d (f (devs fs d)) fs"

definition recover_dev :: "nat \<Rightarrow> 'f fs \<Rightarrow> 'f fs option" where
  "recover_dev d fs = map_option (\<lambda>dev. set_dev d dev fs) (recover_pending (devs fs d))"

section \<open>Initialisation of a device\<close>

definition MAX_DIRTY_BUF_GROUPS :: int where "MAX_DIRTY_BUF_GROUPS = 3"
definition MAX_CACHED_BLOCK_INFO :: int where "MAX_CACHED_BLOCK_INFO = 50"
definition MAX_PAGE_BUFFERS :: int where "MAX_PAGE_BUFFERS = 40"
definition MAX_DIRTY_PAGES_IN_A_BLOCK :: int where "MAX_DIRTY_PAGES_IN_A_BLOCK = 32"
definition MINIMUN_ERASED_BLOCK :: int where "MINIMUN_ERASED_BLOCK = 2"
definition UFFS_MAX_PAGES_PER_BLOCK :: u16 where "UFFS_MAX_PAGES_PER_BLOCK = 64"

definition uffs_InitDeviceConfig :: "'f Config \<Rightarrow> 'f device \<Rightarrow> URET \<times> 'f Config \<times> 'f device" where
  "uffs_InitDeviceConfig cfg dev =
     (let dev = (if dirty_groups dev = 0 then dev\<lparr>dirty_groups := MAX_DIRTY_BUF_GROUPS\<rparr> else dev)
      in if \<not> (dirty_groups dev \<ge> 1 \<and> dirty_groups dev \<le> MAX_DIRTY_BUF_GROUPS) then (U_FAIL, cfg, dev)
         else let cfg = (if bc_caches cfg = 0 then cfg\<lparr>bc_caches := MAX_CACHED_BLOCK_INFO\<rparr> else cfg);
                  cfg = (if page_buffers cfg = 0 then cfg\<lparr>page_buffers := MAX_PAGE_BUFFERS\<rparr> else cfg);
                  cfg = (if dirty_pages cfg = 0 then cfg\<lparr>dirty_pages := MAX_DIRTY_PAGES_IN_A_BLOCK\<rparr> else cfg);
                  dev = (if reserved_free_blocks dev = 0 then dev\<lparr>reserved_free_blocks := MINIMUN_ERASED_BLOCK\<rparr> else dev)
              in (if page_buffers cfg - int CLONE_BUFFERS_THRESHOLD \<ge> 3 then U_SUCC else U_FAIL, cfg, dev))"

definition call_opt :: "('f device \<Rightarrow> URET \<times> 'f device) option \<Rightarrow> 'f device \<Rightarrow> URET \<times> 'f device" where
  "call_opt f dev = (case f of None \<Rightarrow> (U_SUCC, dev) | Some g \<Rightarrow> g dev)"

definition uffs_InitDevice :: "u32 \<Rightarrow> 'f Config \<Rightarrow> 'f device \<Rightarrow> (URET \<times> 'f Config \<times> 'f device) option" where
  "uffs_InitDevice now cfg dev =
     (if pages_per_block (attr dev) > UFFS_MAX_PAGES_PER_BLOCK then Some (U_FAIL, cfg, dev)
      else let (ret, cfg, dev) = uffs_InitDeviceConfig cfg dev
      in if ret \<noteq> U_SUCC then Some (U_FAIL, cfg, dev)
      else let (ret, dev) = call_opt (mem_init cfg) dev
      in if ret \<noteq> U_SUCC then Some (U_FAIL, cfg, dev)
      else let dev = dev\<lparr>page_header_read_count := 0, pending := uffs_BadBlockInit (pending dev)\<rparr>;
               (ret, dev) = uffs_FlashInterfaceInit dev
      in if ret \<noteq> U_SUCC then Some (U_FAIL, cfg, dev)
      else do {
        (ret, dev) \<leftarrow> uffs_BufInit (page_buffers cfg) (dirty_pages cfg) dev;
        (if ret \<noteq> U_SUCC then Some (U_FAIL, cfg, dev)
         else do {
           (ret, dev) \<leftarrow> uffs_BlockInfoInitCache (bc_caches cfg) dev;
           (if ret \<noteq> U_SUCC then Some (U_FAIL, cfg, dev)
            else let (ret, dev) = uffs_TreeInit dev
            in if ret \<noteq> U_SUCC then Some (U_FAIL, cfg, dev)
            else do {
              (ret, dev) \<leftarrow> uffs_BuildTree now dev;
              Some (if ret \<noteq> U_SUCC then U_FAIL else U_SUCC, cfg, dev)
            })
         })
      })"

definition uffs_ReleaseDevice :: "'f Config \<Rightarrow> 'f device \<Rightarrow> (URET \<times> 'f device) option" where
  "uffs_ReleaseDevice cfg dev = do {
     (ret, dev) \<leftarrow> uffs_BlockInfoReleaseCache dev;
     (if ret \<noteq> U_SUCC then Some (ret, dev)
      else do {
        (ret, dev) \<leftarrow> uffs_BufReleaseAll dev;
        (if ret \<noteq> U_SUCC then Some (ret, dev)
         else let (ret, dev) = uffs_TreeRelease dev
         in if ret \<noteq> U_SUCC then Some (ret, dev)
         else let (ret, dev) = uffs_FlashInterfaceRelease dev
         in if ret \<noteq> U_SUCC then Some (ret, dev)
         else Some (call_opt (mem_release cfg) dev))
      })
   }"

section \<open>The mount table\<close>

definition find_mtb :: "(nat \<Rightarrow> bool) \<Rightarrow> nat option \<Rightarrow> 'f fs \<Rightarrow> nat option option" where
  "find_mtb P head fs = chain_find (\<lambda>x. mt_next (mtbs fs x)) P head"

definition link_mtb_head :: "nat \<Rightarrow> nat option \<Rightarrow> 'f fs \<Rightarrow> 'f fs" where
  "link_mtb_head m head fs =
     (let fs = (case head of None \<Rightarrow> fs | Some h \<Rightarrow> upd_mtb h (\<lambda>e. e\<lparr>mt_prev := Some m\<rparr>) fs)
      in upd_mtb m (\<lambda>e. e\<lparr>mt_prev := None, mt_next := head\<rparr>) fs)"

definition unlink_mtb :: "nat \<Rightarrow> 'f fs \<Rightarrow> 'f fs" where
  "unlink_mtb m fs =
     (let fs = (case mt_prev (mtbs fs m) of None \<Rightarrow> fs | Some p \<Rightarrow> upd_mtb p (\<lambda>e. e\<lparr>mt_next := mt_next (mtbs fs m)\<rparr>) fs)
      in case mt_next (mtbs fs m) of None \<Rightarrow> fs | Some n \<Rightarrow> upd_mtb n (\<lambda>e. e\<lparr>mt_prev := mt_prev (mtbs fs m)\<rparr>) fs)"

definition uffs_RegisterMountTable :: "nat option \<Rightarrow> 'f fs \<Rightarrow> (int \<times> 'f fs) option" where
  "uffs_RegisterMountTable mtb fs =
     (case mtb of None \<Rightarrow> Some (- 1, fs)
      | Some m \<Rightarrow> do {
          w \<leftarrow> find_mtb (\<lambda>x. x = m) (m_head fs) fs;
          (if w \<noteq> None then Some (- 1, fs)
           else do {
             w \<leftarrow> find_mtb (\<lambda>x. x = m) (m_free_head fs) fs;
             (if w \<noteq> None then Some (0, fs)
              else let fs = (link_mtb_head m (m_free_head fs) fs)\<lparr>m_free_head := Some m\<rparr>;
                       n = dev_num_count fs + 1
                   in Some (0, fs\<lparr>dev_num_count := n, dev_nums := (dev_nums fs)(mt_dev (mtbs fs m) := n)\<rparr>))
           })
        })"

definition uffs_UnRegisterMountTable :: "nat option \<Rightarrow> 'f fs \<Rightarrow> (int \<times> 'f fs) option" where
  "uffs_UnRegisterMountTable mtb fs =
     (case mtb of None \<Rightarrow> Some (- 1, fs)
      | Some m \<Rightarrow> do {
          w \<leftarrow> find_mtb (\<lambda>x. x = m) (m_head fs) fs;
          (if w \<noteq> None then Some (- 1, fs)
           else do {
             w \<leftarrow> find_mtb (\<lambda>x. x = m) (m_free_head fs) fs;
             (case w of None \<Rightarrow> Some (- 1, fs)
              | Some work \<Rightarrow>
                  let fs = (case mt_next (mtbs fs work) of None \<Rightarrow> fs
                            | Some n \<Rightarrow> upd_mtb n (\<lambda>e. e\<lparr>mt_prev := mt_prev (mtbs fs work)\<rparr>) fs);
                      fs = (case mt_prev (mtbs fs work) of None \<Rightarrow> fs
                            | Some p \<Rightarrow> upd_mtb p (\<lambda>e. e\<lparr>mt_next := mt_next (mtbs fs work)\<rparr>) fs)
                  in Some (0, if Some work = m_free_head fs then fs\<lparr>m_free_head := mt_next (mtbs fs work)\<rparr> else fs))
           })
        })"

definition uffs_GetMountTableByMountPoint :: "bytes \<Rightarrow> nat option \<Rightarrow> 'f fs \<Rightarrow> nat option option" where
  "uffs_GetMountTableByMountPoint mount head fs = find_mtb (\<lambda>x. mt_mount (mtbs fs x) = mount) head fs"

text \<open>The entry moves from one list to the other.\<close>

definition to_mounted :: "nat \<Rightarrow> 'f fs \<Rightarrow> 'f fs" where
  "to_mounted m fs =
     (let fs = unlink_mtb m fs;
          fs = (if m_free_head fs = Some m then fs\<lparr>m_free_head := mt_next (mtbs fs m)\<rparr> else fs);
          fs = upd_mtb m (\<lambda>e. e\<lparr>mt_prev := None, mt_next := m_head fs\<rparr>) fs;
          fs = (case m_head fs of None \<Rightarrow> fs | Some h \<Rightarrow> upd_mtb h (\<lambda>e. e\<lparr>mt_prev := Some m\<rparr>) fs)
      in fs\<lparr>m_head := Some m\<rparr>)"

definition to_unmounted :: "nat \<Rightarrow> 'f fs \<Rightarrow> 'f fs" where
  "to_unmounted m fs =
     (let fs = unlink_mtb m fs;
          fs = (if m_head fs = Some m then fs\<lparr>m_head := mt_next (mtbs fs m)\<rparr> else fs);
          fs = upd_mtb m (\<lambda>e. e\<lparr>mt_prev := None, mt_next := m_free_head fs\<rparr>) fs;
          fs = (case m_free_head fs of None \<Rightarrow> fs | Some h \<Rightarrow> upd_mtb h (\<lambda>e. e\<lparr>mt_prev := Some m\<rparr>) fs)
      in fs\<lparr>m_free_head := Some m\<rparr>)"

definition set_partition :: "MountTable \<Rightarrow> 'f device \<Rightarrow> 'f device" where
  "set_partition e dev = dev\<lparr>par_start := word_of_int (mt_start e),
     par_end := (if mt_end e < 0 then word_of_int (uint (total_blocks (attr dev)) + mt_end e) else word_of_int (mt_end e))\<rparr>"

definition uffs_Mount :: "bytes \<Rightarrow> 'f fs \<Rightarrow> (int \<times> 'f fs) option" where
  "uffs_Mount mount fs = do {
     w \<leftarrow> uffs_GetMountTableByMountPoint mount (m_head fs) fs;
     (if w \<noteq> None then Some (- 1, fs)
      else do {
        w \<leftarrow> uffs_GetMountTableByMountPoint mount (m_free_head fs) fs;
        (case w of None \<Rightarrow> Some (- 1, fs)
         | Some m \<Rightarrow>
             let d = mt_dev (mtbs fs m);
                 (ret, dev) = dev_Init (cfgs fs d) (set_partition (mtbs fs m) (devs fs d))
             in if ret = U_FAIL then Some (- 1, set_dev d dev fs)
                else do {
                  (ret, cfg, dev) \<leftarrow> uffs_InitDevice (clock fs) (cfgs fs d) dev;
                  let fs = (set_dev d dev fs)\<lparr>cfgs := (cfgs fs)(d := cfg)\<rparr>;
                  Some (if ret \<noteq> U_SUCC then (- 1, fs) else (0, to_mounted m fs))
                })
      })
   }"

definition uffs_UnMount :: "bytes \<Rightarrow> 'f fs \<Rightarrow> (int \<times> 'f fs) option" where
  "uffs_UnMount mount fs = do {
     w \<leftarrow> uffs_GetMountTableByMountPoint mount (m_head fs) fs;
     (case w of None \<Rightarrow> Some (- 1, fs)
      | Some m \<Rightarrow> do {
          w \<leftarrow> uffs_GetMountTableByMountPoint mount (m_free_head fs) fs;
          (if w \<noteq> None then Some (- 1, fs)
           else do {
             let d = mt_dev (mtbs fs m);
             fs \<leftarrow> recover_dev d fs;
             (if dev_refs fs d \<noteq> 0 then Some (- 1, fs)
              else do {
                (ret, fs) \<leftarrow> on_dev d (uffs_ReleaseDevice (cfgs fs d)) fs;
                Some (if ret = U_FAIL then (- 1, fs)
                      else (0, to_unmounted m (do_dev d (\<lambda>dev. snd (dev_Release (cfgs fs d) dev)) fs)))
              })
           })
        })
   }"

subsection \<open>The device of a path\<close>

definition get_ref :: "nat \<Rightarrow> 'f fs \<Rightarrow> 'f fs" where
  "get_ref d fs = fs\<lparr>dev_refs := (dev_refs fs)(d := dev_refs fs d + 1)\<rparr>"

definition uffs_PutDevice :: "nat \<Rightarrow> 'f fs \<Rightarrow> 'f fs" where
  "uffs_PutDevice d fs = fs\<lparr>dev_refs := (dev_refs fs)(d := dev_refs fs d - 1)\<rparr>"

definition uffs_GetDeviceFromMountPoint :: "bytes \<Rightarrow> 'f fs \<Rightarrow> (nat option \<times> 'f fs) option" where
  "uffs_GetDeviceFromMountPoint mount fs = do {
     w \<leftarrow> uffs_GetMountTableByMountPoint mount (m_head fs) fs;
     Some (case w of None \<Rightarrow> (None, fs) | Some m \<Rightarrow> (Some (mt_dev (mtbs fs m)), get_ref (mt_dev (mtbs fs m)) fs))
   }"

definition uffs_GetDeviceFromMountPointEx :: "bytes \<Rightarrow> nat \<Rightarrow> 'f fs \<Rightarrow> (nat option \<times> 'f fs) option" where
  "uffs_GetDeviceFromMountPointEx mount len fs = do {
     w \<leftarrow> find_mtb (\<lambda>x. length (mt_mount (mtbs fs x)) = len \<and> take len mount = mt_mount (mtbs fs x)) (m_head fs) fs;
     Some (case w of None \<Rightarrow> (None, fs) | Some m \<Rightarrow> (Some (mt_dev (mtbs fs m)), get_ref (mt_dev (mtbs fs m)) fs))
   }"

definition uffs_GetDeviceMountPoint :: "nat \<Rightarrow> 'f fs \<Rightarrow> bytes option option" where
  "uffs_GetDeviceMountPoint d fs =
     map_option (map_option (\<lambda>m. mt_mount (mtbs fs m))) (find_mtb (\<lambda>x. mt_dev (mtbs fs x) = d) (m_head fs) fs)"

definition SLASH :: u8 where "SLASH = 47"

text \<open>The loop that goes back to the character behind the last slash.\<close>

fun prev_slash :: "bytes \<Rightarrow> nat \<Rightarrow> nat" where
  "prev_slash path 0 = 0"
| "prev_slash path (Suc n) = (if path ! n = SLASH then Suc n else prev_slash path n)"

lemma prev_slash_le: "prev_slash path n \<le> n"
  by (induction n) auto

definition shorter :: "bytes \<Rightarrow> nat \<Rightarrow> nat" where
  "shorter path pos = prev_slash path (if path ! (pos - 1) = SLASH then pos - 1 else pos)"

lemma shorter_less: "0 < pos \<Longrightarrow> shorter path pos < pos"
  using prev_slash_le[of path "pos - 1"] by (cases pos) (auto simp: shorter_def less_Suc_eq_le)

function match_mount :: "bytes \<Rightarrow> nat \<Rightarrow> 'f fs \<Rightarrow> (nat \<times> 'f fs) option" where
  "match_mount path pos fs =
     (if pos = 0 then Some (0, fs)
      else do {
        (d, fs) \<leftarrow> uffs_GetDeviceFromMountPointEx path pos fs;
        (case d of Some x \<Rightarrow> Some (pos, uffs_PutDevice x fs) | None \<Rightarrow> match_mount path (shorter path pos) fs)
      })"
  by pat_completeness auto
termination
  by (relation "measure (\<lambda>(_, pos, _). pos)") (auto simp: shorter_less)

declare match_mount.simps [simp del]

definition uffs_GetMatchedMountPointSize :: "bytes \<Rightarrow> 'f fs \<Rightarrow> (nat \<times> 'f fs) option" where
  "uffs_GetMatchedMountPointSize path fs =
     (if path = [] \<or> path ! 0 \<noteq> SLASH then Some (0, fs) else match_mount path (length path) fs)"

section \<open>The mount point of a path\<close>

text \<open>The entries of the mounted list, and the mount points that a path can match: the path
  itself, or a prefix that ends with a slash.\<close>

definition mounted :: "'f fs \<Rightarrow> nat list \<Rightarrow> bool" where
  "mounted fs ms \<longleftrightarrow> chain (\<lambda>x. mt_next (mtbs fs x)) (m_head fs) ms"

definition mount_at :: "bytes \<Rightarrow> nat \<Rightarrow> bool" where
  "mount_at path n \<longleftrightarrow> 0 < n \<and> n \<le> length path \<and> (n = length path \<or> path ! (n - 1) = SLASH)"

definition mount_lens :: "bytes \<Rightarrow> bytes set \<Rightarrow> nat set" where
  "mount_lens path points = {n. mount_at path n \<and> take n path \<in> points}"

definition points_of :: "'f fs \<Rightarrow> nat list \<Rightarrow> bytes set" where
  "points_of fs ms = (\<lambda>m. mt_mount (mtbs fs m)) ` set ms"

lemma prev_slash_max:
  "\<lbrakk>k \<le> n; 0 < k; path ! (k - 1) = SLASH\<rbrakk> \<Longrightarrow> k \<le> prev_slash path n"
  by (induction n) (auto simp: le_Suc_eq)

lemma prev_slash_at: "prev_slash path n = 0 \<or> path ! (prev_slash path n - 1) = SLASH"
  by (induction n) auto

lemma shorter_max: "\<lbrakk>mount_at path k; k < n; n \<le> length path\<rbrakk> \<Longrightarrow> k \<le> shorter path n"
  unfolding shorter_def mount_at_def by (intro prev_slash_max) auto

lemma get_put_ref [simp]: "uffs_PutDevice d (get_ref d fs) = fs"
  by (simp add: uffs_PutDevice_def get_ref_def)

lemma DeviceFromMountPointEx_eq:
  assumes "mounted fs ms" "n \<le> length path"
  shows "uffs_GetDeviceFromMountPointEx path n fs =
    Some (case List.find (\<lambda>m. mt_mount (mtbs fs m) = take n path) ms of None \<Rightarrow> (None, fs)
          | Some m \<Rightarrow> (Some (mt_dev (mtbs fs m)), get_ref (mt_dev (mtbs fs m)) fs))"
proof -
  have P: "(length (mt_mount e) = n \<and> take n path = mt_mount e) = (mt_mount e = take n path)" for e :: MountTable
    using assms(2) by auto
  show ?thesis unfolding uffs_GetDeviceFromMountPointEx_def find_mtb_def P
    using chain_find_eq[OF assms(1)[unfolded mounted_def]] by (simp add: option.case_eq_if)
qed

lemma find_point:
  "List.find (\<lambda>m. mt_mount (mtbs fs m) = p) ms = None \<longleftrightarrow> p \<notin> points_of fs ms"
  by (auto simp: find_None_iff points_of_def)

lemma match_mount_max:
  assumes "mounted fs ms" "n \<le> length path" "n = 0 \<or> mount_at path n"
  shows "\<exists>k. match_mount path n fs = Some (k, fs) \<and> k = Max (insert 0 {i \<in> mount_lens path (points_of fs ms). i \<le> n})"
  using assms(2,3)
proof (induction n rule: less_induct)
  case (less n)
  let ?L = "\<lambda>n. {i \<in> mount_lens path (points_of fs ms). i \<le> n}"
  have fin: "finite (?L n)" for n by simp
  show ?case
  proof (cases "n = 0 \<or> take n path \<in> points_of fs ms")
    case True
    then have "match_mount path n fs = Some (n, fs)"
      using DeviceFromMountPointEx_eq[OF assms(1) less.prems(1)] find_point[of fs "take n path" ms]
      by (subst match_mount.simps) (auto split: option.split)
    moreover have "Max (insert 0 (?L n)) = n"
      by (rule Max_eqI) (use True less.prems in \<open>auto simp: mount_lens_def\<close>)
    ultimately show ?thesis by simp
  next
    case False
    then have sh: "shorter path n < n" by (simp add: shorter_less)
    have at: "shorter path n = 0 \<or> mount_at path (shorter path n)"
      using prev_slash_at[of path "n - 1"] prev_slash_at[of path n] sh less.prems(1) by (auto simp: shorter_def mount_at_def)
    have L: "?L n = ?L (shorter path n)"
      using shorter_max[of path _ n] less.prems(1) False sh by (auto simp: mount_lens_def le_less)
    have "match_mount path n fs = match_mount path (shorter path n) fs"
      using DeviceFromMountPointEx_eq[OF assms(1) less.prems(1)] find_point[of fs "take n path" ms] False
      by (subst match_mount.simps) simp
    then show ?thesis using less.IH[OF sh _ at] sh less.prems(1) L by auto
  qed
qed

text \<open>C12. For every path the mount point that is found is the longest one of the mounted list that
  the path can match, a prefix that ends with a slash or the whole path, and 0 when there is none or
  the path is not absolute; the lookup returns, its result is the device of that mount point, and
  the search leaves the reference counts as they were.\<close>

theorem matched_mount_longest:
  assumes "mounted fs ms"
  shows "\<exists>n. uffs_GetMatchedMountPointSize path fs = Some (n, fs) \<and>
     n = (if path \<noteq> [] \<and> hd path = SLASH then Max (insert 0 (mount_lens path (points_of fs ms))) else 0) \<and>
     (0 < n \<longrightarrow> (\<exists>m\<in>set ms. mt_mount (mtbs fs m) = take n path \<and>
        uffs_GetDeviceFromMountPointEx path n fs = Some (Some (mt_dev (mtbs fs m)), get_ref (mt_dev (mtbs fs m)) fs)))"
proof (cases "path \<noteq> [] \<and> hd path = SLASH")
  case True
  have L: "{i \<in> mount_lens path (points_of fs ms). i \<le> length path} = mount_lens path (points_of fs ms)"
    by (auto simp: mount_lens_def mount_at_def)
  have fin: "finite (mount_lens path (points_of fs ms))"
    by (rule finite_subset[of _ "{..length path}"]) (auto simp: mount_lens_def mount_at_def)
  obtain n where n: "uffs_GetMatchedMountPointSize path fs = Some (n, fs)"
    "n = Max (insert 0 (mount_lens path (points_of fs ms)))"
    using match_mount_max[OF assms order_refl, of path] True
    by (auto simp: L uffs_GetMatchedMountPointSize_def hd_conv_nth mount_at_def)
  have "n \<in> insert 0 (mount_lens path (points_of fs ms))" unfolding n(2) using fin by (intro Max_in) auto
  then have "0 < n \<Longrightarrow> n \<le> length path \<and> take n path \<in> points_of fs ms" by (auto simp: mount_lens_def mount_at_def)
  then show ?thesis
    using n True DeviceFromMountPointEx_eq[OF assms, of n path] find_point[of fs "take n path" ms]
      find_Some_in[of "\<lambda>m. mt_mount (mtbs fs m) = take n path" ms]
    by (cases "List.find (\<lambda>m. mt_mount (mtbs fs m) = take n path) ms") auto
next
  case False
  then show ?thesis by (auto simp: uffs_GetMatchedMountPointSize_def hd_conv_nth)
qed

text \<open>Two devices, mounted at \<^verbatim>\<open>/\<close> and \<^verbatim>\<open>/sys/\<close>; the pools of objects and directory handles are
  full.\<close>

definition sample_cfg :: "femu Config" where
  "sample_cfg = \<lparr>bc_caches = 10, page_buffers = 10, dirty_pages = 8, mem_init = None, mem_release = None,
     dev_Init = Pair U_SUCC, dev_Release = Pair U_SUCC\<rparr>"

definition sample_mounts :: "femu fs" where
  "sample_mounts = \<lparr>devs = (\<lambda>_. sample_fs), cfgs = (\<lambda>_. sample_cfg), dev_refs = (\<lambda>_. 0), dev_nums = (\<lambda>d. int d + 1),
     mtbs = (\<lambda>m. if m = 0 then \<lparr>mt_dev = 0, mt_start = 0, mt_end = 63, mt_mount = [SLASH], mt_prev = Some 1, mt_next = None\<rparr>
             else \<lparr>mt_dev = 1, mt_start = 64, mt_end = - 1, mt_mount = [SLASH, 115, 121, 115, SLASH], mt_prev = None, mt_next = Some 0\<rparr>),
     m_head = Some 1, m_free_head = None, dev_num_count = 2,
     objects = (\<lambda>_. \<lparr>o_name = None, o_name_len = 0, o_sum = 0, o_dev = None, o_oflag = 0, o_type = 0, o_head_pages = 0,
       o_parent = 0, o_node = None, o_serial = 0, o_err = 0, o_pos = 0, o_attr_loaded = False, o_open_succ = False\<rparr>),
     object_pool = no_pool,
     dir_entries = (\<lambda>_. \<lparr>de_obj = None,
       de_f = \<lparr>ff_dev = None, ff_serial = 0, ff_step = 0, ff_hash = 0, ff_work = None, ff_pos = 0\<rparr>,
       de_info = \<lparr>oi_info = [], oi_len = 0, oi_serial = 0\<rparr>\<rparr>),
     dir_pool = no_pool, uffs_errno = 0, fd_signature = 0, clock = 0\<rparr>"

lemma sample_mounted: "mounted sample_mounts [1, 0]"
  by (simp add: mounted_def sample_mounts_def)

theorem matched_mount_longest_witness:
  "uffs_GetMatchedMountPointSize [SLASH, 115, 121, 115, SLASH, 97] sample_mounts = Some (5, sample_mounts)"
proof -
  let ?p = "[SLASH, 115, 121, 115, SLASH, 97] :: bytes"
  have "points_of sample_mounts [1, 0] = {[SLASH], [SLASH, 115, 121, 115, SLASH]}"
    by (auto simp: points_of_def sample_mounts_def)
  then have "5 \<in> mount_lens ?p (points_of sample_mounts [1, 0])"
    by (simp add: mount_lens_def mount_at_def)
  moreover have "n \<le> 5" if "n \<in> mount_lens ?p (points_of sample_mounts [1, 0])" for n
  proof (rule ccontr)
    assume "\<not> n \<le> 5"
    with that have "n = 6" by (auto simp: mount_lens_def mount_at_def)
    with that show False by (simp add: mount_lens_def points_of_def sample_mounts_def)
  qed
  ultimately have "Max (insert 0 (mount_lens ?p (points_of sample_mounts [1, 0]))) = 5"
    by (intro Max_eqI) (auto intro: finite_subset[of _ "{..5}"])
  then show ?thesis using matched_mount_longest[OF sample_mounted, of ?p] by simp
qed

end
