(* ===== verification/Fs_Object.thy ===== *)
theory Fs_Object
  imports Mount_Table
begin

text \<open>
  Objects: opened files and directories (\<open>uffs_fs.c\<close>). An object is named by its address in the
  object pool. \<open>None\<close> is, besides what it is below, the dereference of a null pointer, a read
  behind a string, and a copy that leaves a buffer on the stack.

  \<open>CONFIG_CHANGE_MODIFY_TIME\<close> and \<open>CONFIG_FLUSH_BUF_AFTER_WRITE\<close> are not defined. The error
  code that a function returns through a pointer is a component of its result, 0 when it is not
  set.
\<close>

section \<open>Constants\<close>

definition UO_RDONLY :: u32 where "UO_RDONLY = 0x0000"
definition UO_WRONLY :: u32 where "UO_WRONLY = 0x0001"
definition UO_RDWR :: u32 where "UO_RDWR = 0x0002"
definition UO_APPEND :: u32 where "UO_APPEND = 0x0008"
definition UO_CREATE :: u32 where "UO_CREATE = 0x0100"
definition UO_TRUNC :: u32 where "UO_TRUNC = 0x0200"
definition UO_EXCL :: u32 where "UO_EXCL = 0x0400"
definition UO_DIR :: u32 where "UO_DIR = 0x1000"

definition UENOERR :: int where "UENOERR = 0"
definition UEACCES :: int where "UEACCES = 1"
definition UEEXIST :: int where "UEEXIST = 2"
definition UEINVAL :: int where "UEINVAL = 3"
definition UEMFILE :: int where "UEMFILE = 4"
definition UENOENT :: int where "UENOENT = 5"
definition UEBADF :: int where "UEBADF = 9"
definition UENOMEM :: int where "UENOMEM = 10"
definition UEIOERR :: int where "UEIOERR = 11"
definition UENOTDIR :: int where "UENOTDIR = 12"
definition UEISDIR :: int where "UEISDIR = 13"
definition UEUNKNOWN_ERR :: int where "UEUNKNOWN_ERR = 100"

lemmas ue_codes = UENOERR_def UEACCES_def UEEXIST_def UEINVAL_def UEMFILE_def UENOENT_def UEBADF_def
  UENOMEM_def UEIOERR_def UENOTDIR_def UEISDIR_def UEUNKNOWN_ERR_def

definition PARENT_OF_ROOT :: u16 where "PARENT_OF_ROOT = 0xfffd"
definition MAX_OBJECT_HANDLE :: u32 where "MAX_OBJECT_HANDLE = 50"
definition MAX_FILENAME_LENGTH :: nat where "MAX_FILENAME_LENGTH = 128"
definition FILE_ATTR_DIR :: u32 where "FILE_ATTR_DIR = 0x80"
definition FILE_ATTR_WRITE :: u32 where "FILE_ATTR_WRITE = 1"

text \<open>\<open>sizeof(uffs_Object)\<close> on a 64-bit platform.\<close>

definition SIZEOF_OBJECT :: u32 where "SIZEOF_OBJECT = 80"

section \<open>Objects\<close>

definition upd_obj :: "nat \<Rightarrow> (Object \<Rightarrow> Object) \<Rightarrow> 'f fs \<Rightarrow> 'f fs" where
  "upd_obj x f fs = fs\<lparr>objects := (objects fs)(x := f (objects fs x))\<rparr>"

definition set_err :: "nat \<Rightarrow> int \<Rightarrow> 'f fs \<Rightarrow> 'f fs" where
  "set_err x e = upd_obj x (\<lambda>z. z\<lparr>o_err := e\<rparr>)"

definition obj_ret :: "nat \<Rightarrow> 'f fs \<Rightarrow> URET \<times> 'f fs" where
  "obj_ret x fs = (if o_err (objects fs x) = UENOERR then U_SUCC else U_FAIL, fs)"

definition zero_obj :: Object where
  "zero_obj = \<lparr>o_name = None, o_name_len = 0, o_sum = 0, o_dev = None, o_oflag = 0, o_type = 0, o_head_pages = 0,
     o_parent = 0, o_node = None, o_serial = 0, o_err = 0, o_pos = 0, o_attr_loaded = False, o_open_succ = False\<rparr>"

text \<open>The contents of the tree node of an object.\<close>

definition obj_nu :: "nat \<Rightarrow> 'f fs \<Rightarrow> NodeU option" where
  "obj_nu x fs = do {
     d \<leftarrow> o_dev (objects fs x);
     n \<leftarrow> o_node (objects fs x);
     Some (nu (devs fs d) n)
   }"

definition GET_OBJ_NODE_SERIAL :: "nat \<Rightarrow> 'f fs \<Rightarrow> u16 option" where
  "GET_OBJ_NODE_SERIAL x fs =
     map_option (if o_type (objects fs x) = UFFS_TYPE_DIR then d_serial else f_serial) (obj_nu x fs)"

definition GET_BLOCK_FROM_NODE :: "nat \<Rightarrow> 'f fs \<Rightarrow> u16 option" where
  "GET_BLOCK_FROM_NODE x fs =
     map_option (if o_type (objects fs x) = UFFS_TYPE_DIR then d_block else f_block) (obj_nu x fs)"

definition obj_len :: "nat \<Rightarrow> 'f fs \<Rightarrow> u32 option" where
  "obj_len x fs = map_option f_len (obj_nu x fs)"

definition set_f_len :: "u32 \<Rightarrow> NodeU \<Rightarrow> NodeU" where
  "set_f_len n u = UFile (f_block u) (f_checksum u) (f_parent u) (f_serial u) n"

definition set_obj_len :: "nat \<Rightarrow> u32 \<Rightarrow> 'f fs \<Rightarrow> 'f fs option" where
  "set_obj_len x n fs = do {
     d \<leftarrow> o_dev (objects fs x);
     a \<leftarrow> o_node (objects fs x);
     Some (do_dev d (upd_u a (set_f_len n)) fs)
   }"

subsection \<open>The pool of objects\<close>

definition uffs_InitObjectBuf :: "nat \<Rightarrow> 'f fs \<Rightarrow> URET \<times> 'f fs" where
  "uffs_InitObjectBuf object_data fs =
     (let (r, p) = uffs_PoolInit (object_pool fs) (Some object_data) (SIZEOF_OBJECT * MAX_OBJECT_HANDLE) SIZEOF_OBJECT
                     MAX_OBJECT_HANDLE False
      in (r, fs\<lparr>object_pool := p\<rparr>))"

definition uffs_ReleaseObjectBuf :: "'f fs \<Rightarrow> URET \<times> 'f fs" where
  "uffs_ReleaseObjectBuf fs = (let (r, p) = uffs_PoolRelease (object_pool fs) in (r, fs\<lparr>object_pool := p\<rparr>))"

definition uffs_GetFreeObjectHandlers :: "'f fs \<Rightarrow> int option" where
  "uffs_GetFreeObjectHandlers fs = uffs_PoolGetFreeCount (object_pool fs)"

definition uffs_PutObject :: "nat option \<Rightarrow> 'f fs \<Rightarrow> 'f fs" where
  "uffs_PutObject obj fs =
     (case obj of None \<Rightarrow> fs | Some x \<Rightarrow> fs\<lparr>object_pool := snd (uffs_PoolPut (object_pool fs) (Some x))\<rparr>)"

partial_function (option) put_objects :: "nat \<Rightarrow> nat option \<Rightarrow> int \<Rightarrow> 'f fs \<Rightarrow> (int \<times> 'f fs) option" where
  "put_objects d obj count fs = do {
     obj \<leftarrow> uffs_PoolFindNextAllocated (object_pool fs) obj;
     (case obj of None \<Rightarrow> Some (count, fs)
      | Some x \<Rightarrow>
          if (case o_dev (objects fs x) of None \<Rightarrow> False | Some d' \<Rightarrow> dev_nums fs d' = dev_nums fs d)
          then put_objects d obj (count + 1) (uffs_PutObject obj fs)
          else put_objects d obj count fs)
   }"

definition uffs_PutAllObjectBuf :: "nat \<Rightarrow> 'f fs \<Rightarrow> (int \<times> 'f fs) option" where
  "uffs_PutAllObjectBuf d fs = put_objects d None 0 fs"

definition uffs_GetObject :: "'f fs \<Rightarrow> nat option \<times> 'f fs" where
  "uffs_GetObject fs =
     (let (obj, p) = uffs_PoolGet (object_pool fs); fs = fs\<lparr>object_pool := p\<rparr>
      in case obj of None \<Rightarrow> (None, fs) | Some x \<Rightarrow> (Some x, upd_obj x (\<lambda>_. zero_obj) fs))"

definition uffs_ReInitObject :: "nat option \<Rightarrow> 'f fs \<Rightarrow> URET \<times> 'f fs" where
  "uffs_ReInitObject obj fs =
     (case obj of None \<Rightarrow> (U_FAIL, fs)
      | Some x \<Rightarrow> if o_open_succ (objects fs x) then (U_FAIL, fs) else (U_SUCC, upd_obj x (\<lambda>_. zero_obj) fs))"

definition uffs_GetObjectIndex :: "nat \<Rightarrow> 'f fs \<Rightarrow> u32 option" where
  "uffs_GetObjectIndex x fs = uffs_PoolGetIndex (object_pool fs) x"

definition uffs_GetObjectByIndex :: "u32 \<Rightarrow> 'f fs \<Rightarrow> nat option" where
  "uffs_GetObjectByIndex idx fs = uffs_PoolGetBufByIndex (object_pool fs) idx"

definition do_ReleaseObjectResource :: "nat option \<Rightarrow> 'f fs \<Rightarrow> 'f fs option" where
  "do_ReleaseObjectResource obj fs =
     (case obj of None \<Rightarrow> Some fs
      | Some x \<Rightarrow>
          (case o_dev (objects fs x) of None \<Rightarrow> Some fs
           | Some d \<Rightarrow> do {
               fs \<leftarrow> recover_dev d fs;
               Some (upd_obj x (\<lambda>z. z\<lparr>o_dev := None, o_open_succ := False\<rparr>) (uffs_PutDevice d fs))
             }))"

section \<open>Names\<close>

text \<open>The character at an index, the final zero included, and the first characters.\<close>

definition name_at :: "bytes option \<Rightarrow> nat \<Rightarrow> u8 option" where
  "name_at name i =
     (case name of None \<Rightarrow> None
      | Some s \<Rightarrow> if i < length s then Some (s ! i) else if i = length s then Some 0 else None)"

definition name_bytes :: "bytes option \<Rightarrow> nat \<Rightarrow> bytes option" where
  "name_bytes name n = (case name of None \<Rightarrow> None | Some s \<Rightarrow> if n \<le> length s then Some (take n s) else None)"

fun back_to_slash :: "bytes \<Rightarrow> nat \<Rightarrow> nat" where
  "back_to_slash path 0 = 0"
| "back_to_slash path (Suc n) = (if path ! Suc n = SLASH then Suc n else back_to_slash path n)"

text \<open>For a path \<^verbatim>\<open>/\<close> the loop starts before the string and the result is \<open>- 1\<close>.\<close>

definition GetDirLengthFromPath :: "bytes \<Rightarrow> nat \<Rightarrow> int" where
  "GetDirLengthFromPath path path_len =
     (if path_len > 0
      then let n = (if path ! (path_len - 1) = SLASH then path_len - 1 else path_len)
           in if n = 0 then - 1 else int (back_to_slash path (n - 1))
      else 0)"

text \<open>Whether a name ends with a slash; the length is unsigned.\<close>

definition name_ends :: "bytes option \<Rightarrow> u32 \<Rightarrow> bool option" where
  "name_ends name len = map_option (\<lambda>c. c = SLASH) (name_at name (unat (len - 1)))"

text \<open>The lookup of a name; a null pointer is not read when the length is 0.\<close>

definition find_child :: "u8 \<Rightarrow> nat \<Rightarrow> bytes option \<Rightarrow> u32 \<Rightarrow> u16 \<Rightarrow> u16 \<Rightarrow> 'f fs \<Rightarrow> (nat option \<times> 'f fs) option" where
  "find_child ty d name len csum parent =
     on_dev d ((if ty = UFFS_TYPE_DIR then uffs_TreeFindDirNodeByName else uffs_TreeFindFileNodeByName)
                 (case name of None \<Rightarrow> [] | Some s \<Rightarrow> s) (unat len) csum parent)"

text \<open>The directories of a path, from the index \<open>p\<close> of a name on. The result is the serial of the
  last directory that was found, and whether all were.\<close>

definition next_slash :: "bytes \<Rightarrow> nat \<Rightarrow> nat" where
  "next_slash path p = p + length (takeWhile (\<lambda>c. c \<noteq> SLASH) (drop p path))"

function parse_dirs :: "nat \<Rightarrow> bytes \<Rightarrow> int \<Rightarrow> nat \<Rightarrow> u16 \<Rightarrow> 'f fs \<Rightarrow> (bool \<times> u16 \<times> 'f fs) option" where
  "parse_dirs d start d_len p dir fs =
     (if int p < d_len
      then let e = next_slash start p; len = e - p; csum = uffs_MakeSum16 (take len (drop p start))
           in if e \<ge> length start then None
              else do {
                (node, fs) \<leftarrow> on_dev d (uffs_TreeFindDirNodeByName (drop p start) len csum dir) fs;
                (case node of None \<Rightarrow> Some (False, dir, fs)
                 | Some n \<Rightarrow> parse_dirs d start d_len (Suc e) (d_serial (nu (devs fs d) n)) fs)
              }
      else Some (True, dir, fs))"
  by pat_completeness auto
termination
  by (relation "measure (\<lambda>(_, _, d_len, p, _, _). nat (d_len - int p))") (auto simp: next_slash_def)

declare parse_dirs.simps [simp del]

definition uffs_ParseObject :: "nat option \<Rightarrow> bytes \<Rightarrow> 'f fs \<Rightarrow> (URET \<times> 'f fs) option" where
  "uffs_ParseObject obj name fs =
     (case uffs_ReInitObject obj fs of
        (U_FAIL, fs) \<Rightarrow> Some (U_FAIL, fs)
      | (U_SUCC, fs) \<Rightarrow> do {
          x \<leftarrow> obj;
          (m_len, fs) \<leftarrow> uffs_GetMatchedMountPointSize name fs;
          (dev, fs) \<leftarrow> uffs_GetDeviceFromMountPointEx name m_len fs;
          (case dev of None \<Rightarrow> Some (obj_ret x (set_err x UENOENT fs))
           | Some d \<Rightarrow>
               let start = drop m_len name; d_len = GetDirLengthFromPath start (length start);
                   fs = upd_obj x (\<lambda>z. z\<lparr>o_dev := Some d\<rparr>) fs
               in if m_len = length name
                  then Some (obj_ret x (upd_obj x (\<lambda>z. z\<lparr>o_parent := PARENT_OF_ROOT, o_name := None, o_name_len := 0\<rparr>) fs))
                  else do {
                    (found, dir, fs) \<leftarrow> parse_dirs d start d_len 0 ROOT_DIR_SERIAL fs;
                    let n = (if d_len > 0 then nat d_len + 1 else 0);
                    let fs = (if found then fs else set_err x UENOENT fs);
                    let fs = upd_obj x (\<lambda>z. z\<lparr>o_parent := dir, o_name := Some (drop n start),
                               o_name_len := word_of_nat (length start - n)\<rparr>) fs;
                    Some (obj_ret x (if o_err (objects fs x) \<noteq> UENOERR
                                     then upd_obj x (\<lambda>z. z\<lparr>o_dev := None\<rparr>) (uffs_PutDevice d fs) else fs))
                  })
        })"

end
