(* ===== verification/Fs_Data.thy ===== *)
theory Fs_Data
  imports Fs_Object
begin

text \<open>
  The contents of files: positions and blocks, flushing, writing, reading, seeking and truncating
  (\<open>uffs_fs.c\<close>). The head block of a file holds \<open>head_pages\<close> pages of data behind the page with
  its file information; every data block holds \<open>pages_per_block\<close> pages.

  Sizes and positions are kept at the width of the source: \<open>u32\<close>, with the conversions to and
  from \<open>int\<close>. A page size of 0 is a division by 0, \<open>None\<close>.

  The lemmas show that the two functions on positions locate every byte of a file in exactly one
  page of one block and every page from its position, what one pass of the loop of the read does
  at a position, that reading a file whose pages are in the buffers returns its bytes, and what
  cutting a file does whose last data block is not in the tree: it does not return when the cut is
  inside that block.
\<close>

section \<open>Positions\<close>

definition pg32 :: "'f device \<Rightarrow> u32" where "pg32 dev = ucast (pg_data_size dev)"
definition ppb32 :: "'f device \<Rightarrow> u32" where "ppb32 dev = ucast (pages_per_block (attr dev))"

text \<open>The products are \<open>int\<close> in the source; with sizes of 16 bits they are used modulo \<open>2 ^ 32\<close>.\<close>

definition GetFdnByOfs :: "u16 \<Rightarrow> 'f device \<Rightarrow> u32 \<Rightarrow> u16 option" where
  "GetFdnByOfs head_pages dev ofs =
     (if ofs < ucast head_pages * pg32 dev then Some 0
      else if pg32 dev * ppb32 dev = 0 then None
      else Some (ucast ((ofs - ucast head_pages * pg32 dev) div (pg32 dev * ppb32 dev)) + 1))"

definition GetStartOfDataBlock :: "u16 \<Rightarrow> 'f device \<Rightarrow> u16 \<Rightarrow> u32" where
  "GetStartOfDataBlock head_pages dev fdn =
     (if fdn = 0 then 0 else ucast head_pages * pg32 dev + (ucast fdn - 1) * (pg32 dev * ppb32 dev))"

section \<open>Flushing\<close>

definition do_FlushObject :: "nat \<Rightarrow> 'f fs \<Rightarrow> (URET \<times> 'f fs) option" where
  "do_FlushObject x fs =
     (case o_node (objects fs x) of None \<Rightarrow> Some (U_SUCC, fs)
      | Some n \<Rightarrow> do {
          d \<leftarrow> o_dev (objects fs x);
          let u = nu (devs fs d) n;
          (if o_type (objects fs x) = UFFS_TYPE_DIR then on_dev d (uffs_BufFlushGroup (d_parent u) (d_serial u)) fs
           else do {
             (r, fs) \<leftarrow> on_dev d (uffs_BufFlushGroupMatchParent (f_serial u)) fs;
             let u = nu (devs fs d) n;
             (if r = U_SUCC then on_dev d (uffs_BufFlushGroup (f_parent u) (f_serial u)) fs else Some (U_FAIL, fs))
           })
        })"

definition uffs_FlushObject :: "nat \<Rightarrow> 'f fs \<Rightarrow> (URET \<times> 'f fs) option" where
  "uffs_FlushObject x fs =
     (if o_dev (objects fs x) = None \<or> \<not> o_open_succ (objects fs x) then Some (obj_ret x (set_err x UEBADF fs))
      else do {
        (r, fs) \<leftarrow> do_FlushObject x fs;
        Some (obj_ret x (if r \<noteq> U_SUCC then set_err x UEIOERR fs else fs))
      })"

section \<open>Writing\<close>

text \<open>The loop over the pages of a new data block; \<open>w\<close> is \<open>wroteSize\<close>.\<close>

fun write_new_pages :: "nat \<Rightarrow> bytes option \<Rightarrow> u32 \<Rightarrow> u16 \<Rightarrow> u16 \<Rightarrow> nat list \<Rightarrow> u32 \<Rightarrow> 'f fs \<Rightarrow> (u32 \<times> 'f fs) option" where
  "write_new_pages x data len parent serial [] w fs = Some (w, fs)"
| "write_new_pages x data len parent serial (page_id # ks) w fs = do {
     d \<leftarrow> o_dev (objects fs x);
     let n = (if len - w > pg32 (devs fs d) then pg32 (devs fs d) else len - w);
     (if n = 0 then Some (w, fs)
      else do {
        (buf, fs) \<leftarrow> on_dev d (uffs_BufNew UFFS_TYPE_DATA parent serial (word_of_nat page_id)) fs;
        (case buf of None \<Rightarrow> Some (w, fs)
         | Some b \<Rightarrow> do {
             (ret, fs) \<leftarrow> on_dev d (uffs_BufWrite b (map_option (drop (unat w)) data) 0 n) fs;
             (_, fs) \<leftarrow> on_dev d (ret_dev (uffs_BufPut (Some b))) fs;
             (if ret \<noteq> U_SUCC then Some (w, fs)
              else do {
                l \<leftarrow> obj_len x fs;
                fs \<leftarrow> set_obj_len x (l + n) fs;
                write_new_pages x data len parent serial ks (w + n) fs
              })
           })
      })
   }"

definition do_WriteNewBlock :: "nat \<Rightarrow> bytes option \<Rightarrow> u32 \<Rightarrow> u16 \<Rightarrow> u16 \<Rightarrow> 'f fs \<Rightarrow> (u32 \<times> 'f fs) option" where
  "do_WriteNewBlock x data len parent serial fs = do {
     d \<leftarrow> o_dev (objects fs x);
     write_new_pages x data len parent serial [0..<ppb (devs fs d)] 0 fs
   }"

text \<open>The page \<open>page_id\<close> of the block of \<open>node\<close>: a new buffer when the position is the end of the
  file and the start of a page.\<close>

definition page_for_write :: "nat \<Rightarrow> nat \<Rightarrow> u8 \<Rightarrow> u16 \<Rightarrow> u16 \<Rightarrow> u16 \<Rightarrow> u32 \<Rightarrow> 'f fs \<Rightarrow> (nat option \<times> 'f fs) option" where
  "page_for_write x node ty parent serial page_id pos fs = do {
     d \<leftarrow> o_dev (objects fs x);
     l \<leftarrow> obj_len x fs;
     (if l mod pg32 (devs fs d) = 0 \<and> pos = l
      then on_dev d (uffs_BufNew ty parent serial page_id) fs
      else on_dev d (uffs_BufGetEx ty node page_id (o_oflag (objects fs x))) fs)
   }"

partial_function (option) write_internal ::
  "nat \<Rightarrow> nat \<Rightarrow> u16 \<Rightarrow> u8 \<Rightarrow> u16 \<Rightarrow> u16 \<Rightarrow> u16 \<Rightarrow> u32 \<Rightarrow> bytes option \<Rightarrow> u32 \<Rightarrow> u32 \<Rightarrow> u32 \<Rightarrow> 'f fs \<Rightarrow> (u32 \<times> 'f fs) option" where
  "write_internal x node fdn ty parent serial maxPageID block_start data len blockOfs w fs =
     (if w < len
      then do {
        d \<leftarrow> o_dev (objects fs x);
        let pg = pg32 (devs fs d);
        (if pg = 0 then None
         else
           let page_id = ucast (blockOfs div pg) + (if fdn = 0 then 1 else 0);
               pageOfs = blockOfs mod pg;
               n = (if len - w + pageOfs > pg then pg - pageOfs else len - w)
           in if page_id > maxPageID then Some (w, fs)
              else do {
                (buf, fs) \<leftarrow> page_for_write x node ty parent serial page_id (blockOfs + block_start) fs;
                (case buf of None \<Rightarrow> Some (w, fs)
                 | Some b \<Rightarrow> do {
                     (ret, fs) \<leftarrow> on_dev d (uffs_BufWrite b (map_option (drop (unat w)) data) pageOfs n) fs;
                     (_, fs) \<leftarrow> on_dev d (ret_dev (uffs_BufPut (Some b))) fs;
                     (if ret = U_FAIL then Some (w, fs)
                      else do {
                        l \<leftarrow> obj_len x fs;
                        fs \<leftarrow> (if block_start + (blockOfs + n) > l then set_obj_len x (block_start + (blockOfs + n)) fs else Some fs);
                        write_internal x node fdn ty parent serial maxPageID block_start data len (blockOfs + n) (w + n) fs
                      })
                   })
              })
      }
      else Some (w, fs))"

definition do_WriteInternalBlock :: "nat \<Rightarrow> nat \<Rightarrow> u16 \<Rightarrow> bytes option \<Rightarrow> u32 \<Rightarrow> u32 \<Rightarrow> 'f fs \<Rightarrow> (u32 \<times> 'f fs) option" where
  "do_WriteInternalBlock x node fdn data len blockOfs fs = do {
     d \<leftarrow> o_dev (objects fs x);
     let dev = devs fs d;
     let u = nu dev node;
     let hps = o_head_pages (objects fs x);
     (if fdn = 0
      then write_internal x node fdn UFFS_TYPE_FILE (f_parent u) (f_serial u) hps (GetStartOfDataBlock hps dev fdn) data len blockOfs 0 fs
      else write_internal x node fdn UFFS_TYPE_DATA (da_parent u) fdn (pages_per_block (attr dev) - 1)
             (GetStartOfDataBlock hps dev fdn) data len blockOfs 0 fs)
   }"

text \<open>The group written before a new block is flushed, then the group of the new block.\<close>

definition flush_new_block :: "nat \<Rightarrow> nat \<Rightarrow> u16 \<Rightarrow> 'f fs \<Rightarrow> 'f fs option" where
  "flush_new_block d fnode fdn fs = do {
     let u = nu (devs fs d) fnode;
     (_, fs) \<leftarrow> (if fdn > 1 then on_dev d (uffs_BufFlushGroup (f_serial u) (fdn - 1)) fs
                else on_dev d (uffs_BufFlushGroup (f_parent u) (f_serial u)) fs);
     (_, fs) \<leftarrow> on_dev d (uffs_BufFlushGroup (f_serial (nu (devs fs d) fnode)) fdn) fs;
     Some fs
   }"

definition can_write_block :: "'f device \<Rightarrow> bool" where
  "can_write_block dev \<longleftrightarrow> erased_count (tree dev) \<ge> reserved_free_blocks dev"

text \<open>One pass of the loop of \<open>do_WriteObject\<close>: the bytes written, or \<open>None\<close> for a break.\<close>

definition write_step :: "nat \<Rightarrow> bytes option \<Rightarrow> int \<Rightarrow> int \<Rightarrow> 'f fs \<Rightarrow> (u32 option \<times> 'f fs) option" where
  "write_step x data len remain fs = do {
     d \<leftarrow> o_dev (objects fs x);
     fnode \<leftarrow> o_node (objects fs x);
     let dev = devs fs d;
     let hps = o_head_pages (objects fs x);
     let l = f_len (nu dev fnode);
     let write_start = o_pos (objects fs x) + word_of_int (len - remain);
     let rest = map_option (drop (nat (len - remain))) data;
     (if write_start > l then Some (None, fs)
      else do {
        fdn \<leftarrow> GetFdnByOfs hps dev write_start;
        (if write_start = l \<and> fdn > 0 \<and> write_start = GetStartOfDataBlock hps dev fdn
           then if \<not> can_write_block dev then Some (None, fs)
                else do {
                  (n, fs) \<leftarrow> do_WriteNewBlock x rest (word_of_int remain) (f_serial (nu dev fnode)) fdn fs;
                  fs \<leftarrow> flush_new_block d fnode fdn fs;
                  Some (if n = 0 then None else Some n, fs)
                }
           else do {
             dnode \<leftarrow> (if fdn = 0 then Some (Some fnode) else uffs_TreeFindDataNode (f_serial (nu dev fnode)) fdn dev);
             (case dnode of None \<Rightarrow> Some (None, set_err x UEUNKNOWN_ERR fs)
              | Some a \<Rightarrow> do {
                  (n, fs) \<leftarrow> do_WriteInternalBlock x a fdn rest (word_of_int remain)
                               (write_start - GetStartOfDataBlock hps dev fdn) fs;
                  Some (if n = 0 then None else Some n, fs)
                })
           })
      })
   }"

partial_function (option) do_WriteObject_loop :: "nat \<Rightarrow> bytes option \<Rightarrow> int \<Rightarrow> int \<Rightarrow> 'f fs \<Rightarrow> (int \<times> 'f fs) option" where
  "do_WriteObject_loop x data len remain fs =
     (if remain > 0
      then do {
        (n, fs) \<leftarrow> write_step x data len remain fs;
        (case n of None \<Rightarrow> Some (remain, fs) | Some k \<Rightarrow> do_WriteObject_loop x data len (remain - uint k) fs)
      }
      else Some (remain, fs))"

definition do_WriteObject :: "nat \<Rightarrow> bytes option \<Rightarrow> int \<Rightarrow> 'f fs \<Rightarrow> (int \<times> 'f fs) option" where
  "do_WriteObject x data len fs = do_WriteObject_loop x data len len fs"

definition set_pos :: "nat \<Rightarrow> u32 \<Rightarrow> 'f fs \<Rightarrow> 'f fs" where
  "set_pos x p = upd_obj x (\<lambda>z. z\<lparr>o_pos := p\<rparr>)"

text \<open>The positions before the write: at the end for \<open>UO_APPEND\<close>, otherwise the gap up to the
  position is filled. The flag tells whether the data can be written.\<close>

definition fill_gap :: "nat \<Rightarrow> 'f fs \<Rightarrow> (bool \<times> 'f fs) option" where
  "fill_gap x fs = do {
     l \<leftarrow> obj_len x fs;
     (if o_oflag (objects fs x) AND UO_APPEND \<noteq> 0 then Some (True, set_pos x l fs)
      else if o_pos (objects fs x) > l
      then do {
        let pos = o_pos (objects fs x);
        (remain, fs) \<leftarrow> do_WriteObject x None (sint (pos - l)) (set_pos x l fs);
        Some (\<not> remain > 0, set_pos x (pos - word_of_int remain) fs)
      }
      else Some (True, fs))
   }"

text \<open>\<open>obj->dev\<close> is read before \<open>obj\<close> is compared with the null pointer.\<close>

definition uffs_WriteObject :: "nat option \<Rightarrow> bytes \<Rightarrow> int \<Rightarrow> 'f fs \<Rightarrow> (int \<times> 'f fs) option" where
  "uffs_WriteObject obj data len fs =
     (case obj of None \<Rightarrow> None
      | Some x \<Rightarrow>
          let ob = objects fs x
          in if o_dev ob = None \<or> \<not> o_open_succ ob then Some (0, set_err x UEBADF fs)
             else if o_type ob = UFFS_TYPE_DIR then Some (0, set_err x UEACCES fs)
             else if o_oflag ob = UO_RDONLY then Some (0, set_err x UEACCES fs)
             else do {
               d \<leftarrow> o_dev ob;
               (ok, fs) \<leftarrow> fill_gap x fs;
               (wrote, fs) \<leftarrow>
                 (if ok
                  then do {
                    (remain, fs) \<leftarrow> do_WriteObject x (Some data) len fs;
                    Some (len - remain, set_pos x (o_pos (objects fs x) + word_of_int (len - remain)) fs)
                  }
                  else Some (0, fs));
               fs \<leftarrow> recover_dev d fs;
               Some (wrote, fs)
             })"


section \<open>Reading\<close>

text \<open>One pass of the loop of \<open>uffs_ReadObject\<close>; \<open>None\<close> is a break. \<open>data\<close> is the memory of the
  caller.\<close>

definition read_step :: "nat \<Rightarrow> bytes \<Rightarrow> u32 \<Rightarrow> u32 \<Rightarrow> 'f fs \<Rightarrow> (u32 option \<times> bytes \<times> 'f fs) option" where
  "read_step x data len remain fs = do {
     d \<leftarrow> o_dev (objects fs x);
     fnode \<leftarrow> o_node (objects fs x);
     let dev = devs fs d;
     let hps = o_head_pages (objects fs x);
     let read_start = o_pos (objects fs x) + len - remain;
     (if read_start \<ge> f_len (nu dev fnode) then Some (None, data, fs)
      else do {
        fdn \<leftarrow> GetFdnByOfs hps dev read_start;
        dnode \<leftarrow> (if fdn = 0 then Some (Some fnode) else uffs_TreeFindDataNode (f_serial (nu dev fnode)) fdn dev);
        (case dnode of None \<Rightarrow> Some (None, data, set_err x UEUNKNOWN_ERR fs)
         | Some a \<Rightarrow> do {
             let page_id = ucast ((read_start - GetStartOfDataBlock hps dev fdn) div pg32 dev) + (if fdn = 0 then 1 else 0);
             (buf, fs) \<leftarrow> on_dev d (uffs_BufGetEx (if fdn = 0 then UFFS_TYPE_FILE else UFFS_TYPE_DATA) a page_id
                            (o_oflag (objects fs x))) fs;
             (case buf of None \<Rightarrow> Some (None, data, set_err x UEIOERR fs)
              | Some b \<Rightarrow> do {
                  let dev = devs fs d;
                  let pageOfs = read_start mod pg32 dev;
                  let dl = ucast (b_data_len (bufs dev b));
                  (if pageOfs \<ge> dl
                   then do {
                     (_, fs) \<leftarrow> on_dev d (ret_dev (uffs_BufPut (Some b))) fs;
                     Some (None, data, fs)
                   }
                   else do {
                     let n = (if remain + pageOfs > dl then dl - pageOfs else remain);
                     let done = unat (len - remain);
                     (_, tl) \<leftarrow> uffs_BufRead b (drop done data) pageOfs n dev;
                     (_, fs) \<leftarrow> on_dev d (ret_dev (uffs_BufPut (Some b))) fs;
                     Some (Some n, take done data @ tl, fs)
                   })
                })
           })
      })
   }"

partial_function (option) read_loop :: "nat \<Rightarrow> bytes \<Rightarrow> u32 \<Rightarrow> u32 \<Rightarrow> 'f fs \<Rightarrow> (u32 \<times> bytes \<times> 'f fs) option" where
  "read_loop x data len remain fs =
     (if remain > 0
      then do {
        (n, data, fs) \<leftarrow> read_step x data len remain fs;
        (case n of None \<Rightarrow> Some (remain, data, fs) | Some k \<Rightarrow> read_loop x data len (remain - k) fs)
      }
      else Some (remain, data, fs))"

text \<open>\<open>obj->dev\<close> is read before \<open>obj\<close> is compared with the null pointer.\<close>

definition uffs_ReadObject :: "nat option \<Rightarrow> bytes \<Rightarrow> int \<Rightarrow> 'f fs \<Rightarrow> (int \<times> bytes \<times> 'f fs) option" where
  "uffs_ReadObject obj data len fs =
     (case obj of None \<Rightarrow> None
      | Some x \<Rightarrow>
          let ob = objects fs x; n = (word_of_int len :: u32)
          in if o_dev ob = None \<or> \<not> o_open_succ ob then Some (0, data, set_err x UEBADF fs)
             else if o_type ob = UFFS_TYPE_DIR then Some (0, data, set_err x UEBADF fs)
             else do {
               l \<leftarrow> obj_len x fs;
               (if o_pos ob > l then Some (0, data, fs)
                else if o_oflag ob AND UO_WRONLY \<noteq> 0 then Some (0, data, set_err x UEACCES fs)
                else do {
                  d \<leftarrow> o_dev ob;
                  (remain, data, fs) \<leftarrow> read_loop x data n n fs;
                  fs \<leftarrow> recover_dev d (set_pos x (o_pos (objects fs x) + (n - remain)) fs);
                  Some (sint (n - remain), data, fs)
                })
             })"

section \<open>The file pointer\<close>

definition USEEK_CUR :: int where "USEEK_CUR = 0"
definition USEEK_SET :: int where "USEEK_SET = 1"
definition USEEK_END :: int where "USEEK_END = 2"

text \<open>\<open>long\<close> has 64 bits.\<close>

definition c_long :: "int \<Rightarrow> int option" where
  "c_long x = (if - (2 ^ 63) \<le> x \<and> x < 2 ^ 63 then Some x else None)"

definition seek_to :: "nat \<Rightarrow> int \<Rightarrow> 'f fs \<Rightarrow> 'f fs option" where
  "seek_to x p fs = map_option (\<lambda>p. if p < 0 then set_err x UEINVAL fs else set_pos x (word_of_int p) fs) (c_long p)"

definition uffs_SeekObject :: "nat \<Rightarrow> int \<Rightarrow> int \<Rightarrow> 'f fs \<Rightarrow> (int \<times> 'f fs) option" where
  "uffs_SeekObject x offset origin fs = do {
     fs \<leftarrow> (if o_type (objects fs x) = UFFS_TYPE_DIR then Some (set_err x UEACCES fs)
           else if origin = USEEK_CUR then seek_to x (uint (o_pos (objects fs x)) + offset) fs
           else if origin = USEEK_SET then seek_to x offset fs
           else if origin = USEEK_END then do {
             l \<leftarrow> obj_len x fs;
             seek_to x (uint l + offset) fs
           }
           else Some fs);
     Some (if o_err (objects fs x) = UENOERR then uint (o_pos (objects fs x)) else - 1, fs)
   }"

text \<open>The position is returned as an \<open>int\<close>.\<close>

definition uffs_GetCurOffset :: "nat option \<Rightarrow> 'f fs \<Rightarrow> int" where
  "uffs_GetCurOffset obj fs =
     (case obj of None \<Rightarrow> - 1
      | Some x \<Rightarrow> if o_dev (objects fs x) \<noteq> None \<and> o_open_succ (objects fs x) then sint (o_pos (objects fs x)) else - 1)"

definition uffs_EndOfFile :: "nat option \<Rightarrow> 'f fs \<Rightarrow> int option" where
  "uffs_EndOfFile obj fs =
     (case obj of None \<Rightarrow> Some (- 1)
      | Some x \<Rightarrow>
          if o_dev (objects fs x) \<noteq> None \<and> o_type (objects fs x) = UFFS_TYPE_FILE \<and> o_open_succ (objects fs x)
          then map_option (\<lambda>l. if o_pos (objects fs x) \<ge> l then 1 else 0) (obj_len x fs)
          else Some (- 1))"

section \<open>Truncating\<close>

text \<open>Whether somebody holds one of the pages of a block.\<close>

fun page_held :: "u16 \<Rightarrow> u16 \<Rightarrow> nat list \<Rightarrow> 'f device \<Rightarrow> bool option" where
  "page_held parent serial [] dev = Some False"
| "page_held parent serial (page_id # ks) dev = do {
     buf \<leftarrow> uffs_BufFind parent serial (word_of_nat page_id) dev;
     (case buf of Some b \<Rightarrow> if b_ref_count (bufs dev b) \<noteq> 0 then Some True else page_held parent serial ks dev
      | None \<Rightarrow> page_held parent serial ks dev)
   }"

fun empty_pages :: "u16 \<Rightarrow> u16 \<Rightarrow> nat list \<Rightarrow> 'f device \<Rightarrow> 'f device option" where
  "empty_pages parent serial [] dev = Some dev"
| "empty_pages parent serial (page_id # ks) dev = do {
     buf \<leftarrow> uffs_BufFind parent serial (word_of_nat page_id) dev;
     empty_pages parent serial ks (case buf of Some b \<Rightarrow> uffs_BufMarkEmpty b dev | None \<Rightarrow> dev)
   }"

text \<open>The page where the block is cut, and the length of its data.\<close>

definition trunc_page :: "u16 \<Rightarrow> u32 \<Rightarrow> u32 \<Rightarrow> 'f device \<Rightarrow> u16" where
  "trunc_page fdn remain block_start dev = ucast ((remain - block_start) div pg32 dev) + (if fdn = 0 then 1 else 0)"

definition trunc_len :: "u32 \<Rightarrow> 'f device \<Rightarrow> u16" where
  "trunc_len remain dev =
     (if remain = 0 then 0 else if remain mod pg32 dev = 0 then pg_data_size dev else ucast (remain mod pg32 dev))"

text \<open>The last page \<open>b\<close> of the file becomes dirty and ends the block; the pages behind it are
  dropped, and the block is rewritten.\<close>

definition cut_block :: "u32 \<Rightarrow> u16 \<Rightarrow> u16 \<Rightarrow> nat \<Rightarrow> nat list \<Rightarrow> u16 \<Rightarrow> 'f device \<Rightarrow> (unit \<times> 'f device) option" where
  "cut_block remain parent serial b rest block dev = do {
     (_, dev) \<leftarrow> uffs_BufWrite b None 0 0 dev;
     let grp = uffs_BufFindGroupSlot parent serial dev;
     let dev = snd (uffs_BufLockGroup grp dev);
     let dev = upd_buf b (\<lambda>z. z\<lparr>b_data_len := trunc_len remain dev, b_ext_mark := b_ext_mark z OR UFFS_BUF_EXT_MARK_TRUNC_TAIL\<rparr>) dev;
     let dev = snd (uffs_BufPut (Some b) dev);
     dev \<leftarrow> empty_pages parent serial rest dev;
     (_, dev) \<leftarrow> uffs_BufFlushGroupEx parent serial True dev;
     let dev = snd (uffs_BufUnLockGroup grp dev);
     (bc, dev) \<leftarrow> uffs_BlockInfoGet (uint block) dev;
     Some ((), case bc of None \<Rightarrow> dev | Some m \<Rightarrow> uffs_BlockInfoPut (Some m) (uffs_BlockInfoExpire m UFFS_ALL_PAGES dev))
   }"

text \<open>The block of the truncation: node, type, last page id, position, and key.\<close>

definition trunc_block :: "nat \<Rightarrow> u16 \<Rightarrow> 'f fs \<Rightarrow> (nat \<times> u8 \<times> u16 \<times> u32 \<times> u16 \<times> u16 \<times> u16) option option" where
  "trunc_block x fdn fs = do {
     d \<leftarrow> o_dev (objects fs x);
     fnode \<leftarrow> o_node (objects fs x);
     let dev = devs fs d;
     let u = nu dev fnode;
     let hps = o_head_pages (objects fs x);
     (if fdn = 0 then Some (Some (fnode, UFFS_TYPE_FILE, hps, 0, f_parent u, f_serial u, f_block u))
      else do {
        node \<leftarrow> uffs_TreeFindDataNode (f_serial u) fdn dev;
        Some (case node of None \<Rightarrow> None
              | Some a \<Rightarrow> Some (a, UFFS_TYPE_DATA, pages_per_block (attr dev) - 1,
                  ucast hps * pg32 dev + (ucast fdn - 1) * pg32 dev * ppb32 dev, da_parent (nu dev a), da_serial (nu dev a),
                  da_block (nu dev a)))
      })
   }"

definition do_TruncateInternalWithBlockRecover :: "nat \<Rightarrow> u16 \<Rightarrow> u32 \<Rightarrow> bool \<Rightarrow> 'f fs \<Rightarrow> (URET \<times> 'f fs) option" where
  "do_TruncateInternalWithBlockRecover x fdn remain real_run fs = do {
     d \<leftarrow> o_dev (objects fs x);
     t \<leftarrow> trunc_block x fdn fs;
     (case t of None \<Rightarrow> Some (obj_ret x (set_err x UEIOERR fs))
      | Some (node, ty, max_page_id, block_start, parent, serial, block) \<Rightarrow>
          if \<not> real_run
          then do {
            held \<leftarrow> page_held parent serial [0..<unat max_page_id + 1] (devs fs d);
            Some (obj_ret x (if held then set_err x UEEXIST fs else fs))
          }
          else if pg32 (devs fs d) = 0 then None
          else
            let page_id = trunc_page fdn remain block_start (devs fs d)
            in if page_id > max_page_id then Some (obj_ret x (set_err x UEUNKNOWN_ERR fs))
               else do {
                 (_, fs) \<leftarrow> on_dev d (uffs_BufFlushGroup parent serial) fs;
                 (buf, fs) \<leftarrow> on_dev d (uffs_BufGetEx ty node page_id (o_oflag (objects fs x))) fs;
                 (case buf of None \<Rightarrow> Some (obj_ret x (set_err x UENOMEM fs))
                  | Some b \<Rightarrow> do {
                      (_, fs) \<leftarrow> on_dev d (cut_block remain parent serial b [unat page_id + 1..<unat max_page_id + 1] block) fs;
                      Some (obj_ret x fs)
                    })
               })
   }"

text \<open>Dropping a whole data block. The result is \<open>None\<close> when somebody holds one of its pages.\<close>

fun drop_pages :: "u16 \<Rightarrow> u16 \<Rightarrow> bool \<Rightarrow> nat list \<Rightarrow> 'f device \<Rightarrow> (bool \<times> 'f device) option" where
  "drop_pages parent serial real_run [] dev = Some (True, dev)"
| "drop_pages parent serial real_run (page # ks) dev = do {
     buf \<leftarrow> uffs_BufFind parent serial (word_of_nat page) dev;
     (case buf of None \<Rightarrow> drop_pages parent serial real_run ks dev
      | Some b \<Rightarrow>
          if b_ref_count (bufs dev b) \<noteq> 0 then Some (False, dev)
          else drop_pages parent serial real_run ks (if real_run then uffs_BufMarkEmpty b dev else dev))
   }"

definition drop_data_block :: "u16 \<Rightarrow> u16 \<Rightarrow> nat \<Rightarrow> bool \<Rightarrow> 'f device \<Rightarrow> (bool option \<times> 'f device) option" where
  "drop_data_block parent fdn node real_run dev = do {
     (bc, dev) \<leftarrow> uffs_BlockInfoGet (uint (da_block (nu dev node))) dev;
     (case bc of None \<Rightarrow> Some (None, dev)
      | Some m \<Rightarrow> do {
          (ok, dev) \<leftarrow> drop_pages parent fdn real_run [0..<ppb dev] dev;
          dev \<leftarrow>
            (if ok \<and> real_run
             then do {
               dev \<leftarrow> uffs_BreakFromEntry UFFS_TYPE_DATA node dev;
               (_, dev) \<leftarrow> uffs_TreeEraseNode node (upd_u node (set_l_block (bi_block (bc_nodes dev m))) dev);
               Some (uffs_TreeInsertToErasedListTail node dev)
             }
             else Some dev);
          Some (Some ok, uffs_BlockInfoPut (Some m) dev)
        })
   }"

text \<open>The loop \<^verbatim>\<open>while (flen > remain)\<close>; the flag tells that the function is left by a jump.\<close>

partial_function (option) truncate_loop :: "nat \<Rightarrow> u32 \<Rightarrow> bool \<Rightarrow> u32 \<Rightarrow> 'f fs \<Rightarrow> (bool \<times> 'f fs) option" where
  "truncate_loop x remain real_run flen fs =
     (if flen > remain
      then do {
        d \<leftarrow> o_dev (objects fs x);
        fnode \<leftarrow> o_node (objects fs x);
        let dev = devs fs d;
        let hps = o_head_pages (objects fs x);
        fdn \<leftarrow> GetFdnByOfs hps dev (flen - 1);
        let block_start = GetStartOfDataBlock hps dev fdn;
        (if remain \<le> block_start \<and> fdn > 0
              then do {
                node \<leftarrow> uffs_TreeFindDataNode (o_serial (objects fs x)) fdn dev;
                (case node of None \<Rightarrow> Some (True, set_err x UEIOERR fs)
                 | Some a \<Rightarrow> do {
                     (r, fs) \<leftarrow> on_dev d (drop_data_block (f_serial (nu dev fnode)) fdn a real_run) fs;
                     (case r of None \<Rightarrow> Some (True, set_err x UEIOERR fs)
                      | Some ok \<Rightarrow>
                          if \<not> ok then Some (True, fs)
                          else do {
                            fs \<leftarrow> (if real_run then set_obj_len x block_start fs else Some fs);
                            truncate_loop x remain real_run block_start fs
                          })
                   })
              }
              else do {
                (r, fs) \<leftarrow> do_TruncateInternalWithBlockRecover x fdn remain real_run fs;
                (if r = U_SUCC
                 then do {
                   fs \<leftarrow> (if real_run then set_obj_len x remain fs else Some fs);
                   truncate_loop x remain real_run remain fs
                 }
                 else truncate_loop x remain real_run flen fs)
              })
      }
      else Some (False, fs))"

definition do_TruncateObject :: "nat \<Rightarrow> u32 \<Rightarrow> bool \<Rightarrow> 'f fs \<Rightarrow> (URET \<times> 'f fs) option" where
  "do_TruncateObject x remain real_run fs =
     (let ob = objects fs x
      in if o_dev ob = None \<or> \<not> o_open_succ ob \<or> o_node ob = None then Some (obj_ret x (set_err x UEBADF fs))
         else if o_type ob = UFFS_TYPE_DIR then Some (obj_ret x (set_err x UEEXIST fs))
         else do {
           d \<leftarrow> o_dev ob;
           flen \<leftarrow> obj_len x fs;
           (left, fs) \<leftarrow>
             (if flen < remain
              then if real_run
                   then do {
                     (rem, fs) \<leftarrow> do_WriteObject x None (sint (remain - flen)) (set_pos x flen fs);
                     Some (False, if rem > 0 then set_err x UEIOERR fs else fs)
                   }
                   else Some (False, fs)
              else truncate_loop x remain real_run flen fs);
           fs \<leftarrow> (if left then Some fs else recover_dev d fs);
           Some (obj_ret x (set_pos x (o_pos ob) fs))
         })"

text \<open>The dry run, then the truncation if nothing stands against it.\<close>

definition truncate_both :: "nat \<Rightarrow> u32 \<Rightarrow> 'f fs \<Rightarrow> 'f fs option" where
  "truncate_both x remain fs = do {
     (r, fs) \<leftarrow> do_TruncateObject x remain False fs;
     (if r = U_SUCC then map_option snd (do_TruncateObject x remain True fs) else Some fs)
   }"

definition uffs_TruncateObject :: "nat \<Rightarrow> u32 \<Rightarrow> 'f fs \<Rightarrow> (URET \<times> 'f fs) option" where
  "uffs_TruncateObject x remain fs = do {
     fs \<leftarrow> truncate_both x remain fs;
     (_, fs) \<leftarrow> uffs_FlushObject x fs;
     Some (obj_ret x fs)
   }"

section \<open>Positions and pages\<close>

text \<open>A place in a file: the number of the block, the page id, and the offset in the page. The
  place of a position is computed as \<open>uffs_ReadObject\<close> does; the position of a place counts the
  bytes before it.\<close>

definition locate :: "u16 \<Rightarrow> 'f device \<Rightarrow> u32 \<Rightarrow> (u16 \<times> u16 \<times> u32) option" where
  "locate hps dev ofs = do {
     fdn \<leftarrow> GetFdnByOfs hps dev ofs;
     Some (fdn, ucast ((ofs - GetStartOfDataBlock hps dev fdn) div pg32 dev) + (if fdn = 0 then 1 else 0), ofs mod pg32 dev)
   }"

definition pgs :: "'f device \<Rightarrow> nat" where "pgs dev = unat (pg_data_size dev)"

definition block_pos :: "u16 \<Rightarrow> 'f device \<Rightarrow> u16 \<Rightarrow> nat" where
  "block_pos hps dev fdn = (if fdn = 0 then 0 else unat hps * pgs dev + (unat fdn - 1) * (pgs dev * ppb dev))"

fun place_pos :: "u16 \<Rightarrow> 'f device \<Rightarrow> u16 \<times> u16 \<times> u32 \<Rightarrow> nat" where
  "place_pos hps dev (fdn, page, i) = block_pos hps dev fdn + (if fdn = 0 then unat page - 1 else unat page) * pgs dev + unat i"

fun place_ok :: "u16 \<Rightarrow> 'f device \<Rightarrow> u16 \<times> u16 \<times> u32 \<Rightarrow> bool" where
  "place_ok hps dev (fdn, page, i) \<longleftrightarrow>
     unat i < pgs dev \<and> (if fdn = 0 then 1 \<le> unat page \<and> unat page \<le> unat hps else unat page < ppb dev)"

lemma unat_pg32 [simp]: "unat (pg32 dev) = pgs dev"
  by (simp add: pg32_def pgs_def unat_ucast_16_32)

lemma unat_ppb32 [simp]: "unat (ppb32 dev) = ppb dev"
  by (simp add: ppb32_def ppb_def unat_ucast_16_32)

lemma pgs_less: "pgs dev < 65536" and ppb_less: "ppb dev < 65536"
  unfolding pgs_def ppb_def by (rule unat_u16_less)+

lemma prod16_less: "a < 65536 \<Longrightarrow> b < 65536 \<Longrightarrow> a * b < (2 ^ 32 :: nat)"
  using mult_strict_mono[of a 65536 b 65536] by simp

lemma unat_ucast_32_16: "unat (ucast (w :: u32) :: u16) = unat w mod 65536"
  by (simp add: unsigned_ucast_eq take_bit_eq_mod)

lemma unat_head: "unat (ucast hps * pg32 dev :: u32) = unat (hps :: u16) * pgs dev"
  using prod16_less[OF unat_u16_less[of hps] pgs_less[of dev]]
  by (subst unat_mult_small) (auto simp: unat_ucast_16_32)

lemma unat_blk: "unat (pg32 dev * ppb32 dev) = pgs dev * ppb dev"
  using prod16_less[OF pgs_less[of dev] ppb_less[of dev]] by (subst unat_mult_small) auto

lemma unat_start:
  assumes "block_pos hps dev fdn < 2 ^ 32"
  shows "unat (GetStartOfDataBlock hps dev fdn) = block_pos hps dev fdn"
proof (cases "fdn = 0")
  case False
  have f: "unat (ucast fdn - 1 :: u32) = unat fdn - 1"
  proof -
    have "(ucast fdn :: u32) \<noteq> 0" using False by (metis unat_0 unat_ucast_16_32 unat_eq_0)
    then show ?thesis by (simp add: unat_minus_one unat_ucast_16_32)
  qed
  have b: "(unat fdn - 1) * (pgs dev * ppb dev) < 2 ^ 32" "unat hps * pgs dev + (unat fdn - 1) * (pgs dev * ppb dev) < 2 ^ 32"
    using assms False by (auto simp: block_pos_def)
  have "unat ((ucast fdn - 1) * (pg32 dev * ppb32 dev)) = (unat fdn - 1) * (pgs dev * ppb dev)"
    using b(1) by (subst unat_mult_small) (auto simp: f unat_blk)
  then show ?thesis using b(2) False
    unfolding GetStartOfDataBlock_def block_pos_def
    by (subst if_not_P, simp, subst unat_add_lem[THEN iffD1]) (simp_all add: unat_head)
qed (simp add: GetStartOfDataBlock_def block_pos_def)

text \<open>The block of a position.\<close>

lemma GetFdn_block:
  assumes pg: "0 < pgs dev" "0 < ppb dev"
    and f: "block_pos hps dev fdn \<le> unat ofs" "unat ofs < block_pos hps dev fdn + (if fdn = 0 then unat hps else ppb dev) * pgs dev"
  shows "GetFdnByOfs hps dev ofs = Some fdn"
proof (cases "fdn = 0")
  case True
  then show ?thesis using f by (simp add: GetFdnByOfs_def word_less_nat_alt unat_head block_pos_def)
next
  case False
  let ?H = "unat hps * pgs dev" and ?B = "pgs dev * ppb dev"
  have B: "0 < ?B" "pg32 dev * ppb32 dev \<noteq> 0" using pg unat_blk[of dev] by (auto simp: unat_eq_0)
  have ge: "?H \<le> unat ofs" using f False by (simp add: block_pos_def)
  have "(unat ofs - ?H) div ?B = unat fdn - 1"
    using f False B ge by (intro div_nat_eqI) (auto simp: block_pos_def algebra_simps)
  then have d: "unat ((ofs - ucast hps * pg32 dev) div (pg32 dev * ppb32 dev)) = unat fdn - 1"
    using ge by (subst unat_div) (auto simp: unat_sub word_le_nat_alt unat_head unat_blk)
  have "ucast ((ofs - ucast hps * pg32 dev) div (pg32 dev * ppb32 dev)) + 1 = fdn"
  proof -
    let ?w = "(ofs - ucast hps * pg32 dev) div (pg32 dev * ppb32 dev)"
    have nz: "unat fdn \<noteq> 0" using False by (simp add: unat_eq_0)
    have lt: "unat fdn - 1 < 65535" using unat_u16_less[of fdn] nz by arith
    have u: "unat (ucast ?w :: u16) = unat fdn - 1"
      unfolding unat_ucast_32_16 d using lt by (intro mod_less) arith
    have "unat (ucast ?w + 1 :: u16) = unat fdn - 1 + 1"
      using lt by (subst unat_add_lem[THEN iffD1]) (simp_all only: u unat_1 len_of_numeral_defs, simp_all)
    then have "unat (ucast ?w + 1 :: u16) = unat fdn" using nz by arith
    then show ?thesis by (simp only: word_unat_eq_iff)
  qed
  then show ?thesis using B ge by (simp add: GetFdnByOfs_def word_less_nat_alt unat_head not_less[symmetric])
qed

lemma block_exists:
  assumes pg: "0 < pgs dev" "0 < ppb dev" and ofs: "n < unat hps * pgs dev + 65535 * (pgs dev * ppb dev)"
  obtains fdn where "block_pos hps dev fdn \<le> n" "n < block_pos hps dev fdn + (if fdn = 0 then unat hps else ppb dev) * pgs dev"
proof (cases "n < unat hps * pgs dev")
  case True
  then show ?thesis by (intro that[of 0]) (auto simp: block_pos_def)
next
  case False
  let ?H = "unat hps * pgs dev" and ?B = "pgs dev * ppb dev"
  define q where "q = (n - ?H) div ?B"
  have B: "0 < ?B" using pg by simp
  have q: "q < 65535" using ofs False B by (auto simp: q_def less_mult_imp_div_less)
  have m: "q * ?B \<le> n - ?H" "n - ?H < q * ?B + ?B"
    using dividend_less_div_times[OF B, of "n - ?H"] by (simp_all add: q_def div_times_less_eq_dividend add.commute)
  let ?f = "word_of_nat (Suc q) :: u16"
  have u: "unat ?f = Suc q" by (rule unat_of_nat_u16) (use q in simp)
  then have "?f \<noteq> 0" by (metis unat_0 nat.simps(3))
  then show ?thesis using m False u by (intro that[of ?f]) (auto simp: block_pos_def mult.commute)
qed

lemma pgs_dvd_block: "pgs dev dvd block_pos hps dev fdn"
  by (auto simp: block_pos_def intro: dvd_add dvd_mult dvd_mult2)

lemma mod_offset: "(a :: nat) dvd b \<Longrightarrow> b \<le> n \<Longrightarrow> (n - b) mod a = n mod a"
  by (metis dvd_imp_mod_0 le_add_diff_inverse mod_add_left_eq add_0)

lemma unat_inc_if: "unat (w :: u16) < 65535 \<Longrightarrow> unat (w + (if b then 1 else 0)) = unat w + (if b then 1 else 0)"
  by (cases b) (simp_all, subst unat_add_lem[THEN iffD1], simp_all)

lemma locate_block:
  assumes pg: "0 < pgs dev" "0 < ppb dev"
    and f: "block_pos hps dev fdn \<le> unat ofs" "unat ofs < block_pos hps dev fdn + (if fdn = 0 then unat hps else ppb dev) * pgs dev"
  obtains page where "locate hps dev ofs = Some (fdn, page, ofs mod pg32 dev)"
    "unat page = (unat ofs - block_pos hps dev fdn) div pgs dev + (if fdn = 0 then 1 else 0)"
    "(unat ofs - block_pos hps dev fdn) div pgs dev < (if fdn = 0 then unat hps else ppb dev)"
proof -
  have st: "unat (GetStartOfDataBlock hps dev fdn) = block_pos hps dev fdn"
    by (intro unat_start le_less_trans[OF f(1)]) (use unat_u32_less[of ofs] in simp)
  let ?d = "(ofs - GetStartOfDataBlock hps dev fdn) div pg32 dev"
  define q where "q = (unat ofs - block_pos hps dev fdn) div pgs dev"
  have d: "unat ?d = q" using f(1) by (subst unat_div) (simp add: unat_sub word_le_nat_alt st q_def)
  have q: "q < (if fdn = 0 then unat hps else ppb dev)"
    unfolding q_def using f by (intro less_mult_imp_div_less) (auto simp: algebra_simps)
  have "(if fdn = 0 then unat hps else ppb dev) \<le> 65535"
    using unat_u16_less[of hps] ppb_less[of dev] by (auto split: if_split simp del: unat_u16_less)
  with q have lt: "q < 65535" by (rule less_le_trans)
  have u: "unat (ucast ?d :: u16) = q" unfolding unat_ucast_32_16 d using lt by (intro mod_less) arith
  have "unat (ucast ?d + (if fdn = 0 then 1 else 0) :: u16) = q + (if fdn = 0 then 1 else 0)"
    using unat_inc_if[of "ucast ?d" "fdn = 0"] lt unfolding u by simp
  then show ?thesis using q that GetFdn_block[OF pg f] by (simp add: locate_def q_def)
qed

text \<open>Every position of a file lies in exactly one place, and the code finds it; conversely the code
  finds every place of the file from its position.\<close>

lemma positions_located:
  assumes pg: "0 < pgs dev" "0 < ppb dev"
  shows "(unat ofs < unat hps * pgs dev + 65535 * (pgs dev * ppb dev) \<longrightarrow>
            (\<exists>pl. locate hps dev ofs = Some pl \<and> place_ok hps dev pl \<and> place_pos hps dev pl = unat ofs)) \<and>
         (place_ok hps dev pl \<and> place_pos hps dev pl < 2 ^ 32 \<longrightarrow>
            locate hps dev (word_of_nat (place_pos hps dev pl)) = Some pl)"
proof (intro conjI impI)
  assume ofs: "unat ofs < unat hps * pgs dev + 65535 * (pgs dev * ppb dev)"
  obtain fdn where f: "block_pos hps dev fdn \<le> unat ofs"
      "unat ofs < block_pos hps dev fdn + (if fdn = 0 then unat hps else ppb dev) * pgs dev"
    using block_exists[OF pg ofs] .
  obtain page where p: "locate hps dev ofs = Some (fdn, page, ofs mod pg32 dev)"
      "unat page = (unat ofs - block_pos hps dev fdn) div pgs dev + (if fdn = 0 then 1 else 0)"
      "(unat ofs - block_pos hps dev fdn) div pgs dev < (if fdn = 0 then unat hps else ppb dev)"
    using locate_block[OF pg f] .
  have m: "unat (ofs mod pg32 dev) = (unat ofs - block_pos hps dev fdn) mod pgs dev"
    using mod_offset[OF pgs_dvd_block f(1)] by (simp add: unat_mod)
  have "place_ok hps dev (fdn, page, ofs mod pg32 dev)" using p(2,3) m pg by (auto split: if_splits)
  moreover have "place_pos hps dev (fdn, page, ofs mod pg32 dev) = unat ofs"
    using p(2) m f(1) by (auto simp: add.assoc mult.commute)
  ultimately show "\<exists>pl. locate hps dev ofs = Some pl \<and> place_ok hps dev pl \<and> place_pos hps dev pl = unat ofs"
    using p(1) by blast
next
  assume "place_ok hps dev pl \<and> place_pos hps dev pl < 2 ^ 32"
  then have ok: "place_ok hps dev pl" and lt: "place_pos hps dev pl < 2 ^ 32" by auto
  obtain fdn page i where pl: "pl = (fdn, page, i)" by (cases pl)
  let ?n = "place_pos hps dev pl" and ?q = "if fdn = 0 then unat page - 1 else unat page"
  have u: "unat (word_of_nat ?n :: u32) = ?n" using lt by (simp add: unat_of_nat_u32)
  have i: "unat i < pgs dev" and n: "?n = block_pos hps dev fdn + ?q * pgs dev + unat i" using ok by (auto simp: pl)
  have q: "?q < (if fdn = 0 then unat hps else ppb dev)" using ok by (auto simp: pl split: if_splits)
  have "?q * pgs dev + unat i < (?q + 1) * pgs dev" using i by simp
  also have "\<dots> \<le> (if fdn = 0 then unat hps else ppb dev) * pgs dev" using q by (intro mult_right_mono) auto
  finally have f: "block_pos hps dev fdn \<le> unat (word_of_nat ?n :: u32)"
      "unat (word_of_nat ?n :: u32) < block_pos hps dev fdn + (if fdn = 0 then unat hps else ppb dev) * pgs dev"
    unfolding u using n by arith+
  obtain page' where p: "locate hps dev (word_of_nat ?n) = Some (fdn, page', word_of_nat ?n mod pg32 dev)"
      "unat page' = (?n - block_pos hps dev fdn) div pgs dev + (if fdn = 0 then 1 else 0)"
    using locate_block[OF pg f] unfolding u by metis
  have "page' = page" unfolding word_unat_eq_iff using ok i unfolding p(2) n by (auto simp: pl)
  moreover have "word_of_nat ?n mod pg32 dev = i"
  proof (unfold word_unat_eq_iff)
    have "unat (word_of_nat ?n mod pg32 dev :: u32) = ?n mod pgs dev" by (simp only: unat_mod unat_pg32 u)
    also have "\<dots> = (?n - block_pos hps dev fdn) mod pgs dev"
      by (rule mod_offset[symmetric, OF pgs_dvd_block f(1)[unfolded u]])
    also have "?n - block_pos hps dev fdn = ?q * pgs dev + unat i" using n by arith
    finally show "unat (word_of_nat ?n mod pg32 dev :: u32) = unat i" using i by simp
  qed
  ultimately show "locate hps dev (word_of_nat ?n) = Some pl"
    using p(1) unfolding pl by simp
qed

subsection \<open>Reading\<close>

text \<open>The node of a block of a file, getting a page of it, and giving the page back.\<close>

definition data_node :: "'f device \<Rightarrow> nat \<Rightarrow> u16 \<Rightarrow> nat option option" where
  "data_node dev n fdn = (if fdn = 0 then Some (Some n) else uffs_TreeFindDataNode (f_serial (nu dev n)) fdn dev)"

definition get_page :: "nat \<Rightarrow> nat \<Rightarrow> u16 \<Rightarrow> nat \<Rightarrow> u16 \<Rightarrow> 'f fs \<Rightarrow> (nat option \<times> 'f fs) option" where
  "get_page x d fdn a page fs =
     on_dev d (uffs_BufGetEx (if fdn = 0 then UFFS_TYPE_FILE else UFFS_TYPE_DATA) a page (o_oflag (objects fs x))) fs"

definition put_page :: "nat \<Rightarrow> nat \<Rightarrow> 'f fs \<Rightarrow> 'f fs" where
  "put_page d b fs = set_dev d (snd (uffs_BufPut (Some b) (devs fs d))) fs"

text \<open>A buffer that holds data within the page size \<open>n\<close>.\<close>

definition page_room :: "nat \<Rightarrow> 'f device \<Rightarrow> nat \<Rightarrow> bool" where
  "page_room n dev b \<longleftrightarrow> pgs dev = n \<and> unat (b_data_len (bufs dev b)) \<le> n \<and> n \<le> length (buf_data dev b)"

lemma on_dev_ret: "on_dev d (ret_dev f) fs = Some (fst (f (devs fs d)), set_dev d (snd (f (devs fs d))) fs)"
  by (simp add: on_dev_def ret_dev_def case_prod_unfold)

lemma read_size:
  assumes "unat remain < 2 ^ 31" "unat (i :: u32) < 65536" "unat (dl :: u16) > unat i"
  shows "unat (if remain + i > ucast dl then ucast dl - i else remain :: u32) = min (unat remain) (unat dl - unat i)"
proof -
  have "unat remain + unat i < 2 ^ 32" using assms(1,2) by simp
  then have s: "unat (remain + i) = unat remain + unat i" by (subst unat_add_lem[THEN iffD1]) simp_all
  have d: "unat (ucast dl - i :: u32) = unat dl - unat i"
    using assms(3) by (subst unat_sub) (simp_all add: word_le_nat_alt unat_ucast_16_32)
  have "remain + i > ucast dl \<longleftrightarrow> unat dl < unat remain + unat i" by (simp add: word_less_nat_alt s unat_ucast_16_32)
  then show ?thesis by (auto simp: d min_def)
qed

text \<open>What a pass of the loop of \<open>uffs_ReadObject\<close> does at a place: no node for the block, no
  buffer for the page, and the bytes that are read.\<close>

fun step_reads :: "nat \<Rightarrow> nat \<Rightarrow> nat \<Rightarrow> bytes \<Rightarrow> u32 \<Rightarrow> u32 \<Rightarrow> 'f fs \<Rightarrow> u16 \<times> u16 \<times> u32 \<Rightarrow> bool" where
  "step_reads x d n data len remain fs (fdn, page, i) \<longleftrightarrow>
     (data_node (devs fs d) n fdn = Some None \<longrightarrow>
        read_step x data len remain fs = Some (None, data, set_err x UEUNKNOWN_ERR fs)) \<and>
     (\<forall>a fs1. data_node (devs fs d) n fdn = Some (Some a) \<and> get_page x d fdn a page fs = Some (None, fs1) \<longrightarrow>
        read_step x data len remain fs = Some (None, data, set_err x UEIOERR fs1)) \<and>
     (\<forall>a b fs1. data_node (devs fs d) n fdn = Some (Some a) \<and> get_page x d fdn a page fs = Some (Some b, fs1) \<and>
        page_room (pgs (devs fs d)) (devs fs1 d) b \<longrightarrow>
        (let k = min (unat remain) (unat (b_data_len (bufs (devs fs1 d) b)) - unat i); m = unat (len - remain)
         in read_step x data len remain fs =
              Some (if k = 0 then None else Some (word_of_nat k),
                    take m data @ take k (drop (unat i) (buf_data (devs fs1 d) b)) @ drop (m + k) data,
                    put_page d b fs1)))"

lemma read_step_place:
  assumes o: "o_dev (objects fs x) = Some d" "o_node (objects fs x) = Some n"
    and pg: "0 < pgs (devs fs d)" "0 < ppb (devs fs d)"
    and rs: "rs = o_pos (objects fs x) + len - remain" "rs < f_len (nu (devs fs d) n)"
      "unat rs < unat (o_head_pages (objects fs x)) * pgs (devs fs d) + 65535 * (pgs (devs fs d) * ppb (devs fs d))"
    and len: "unat remain < 2 ^ 31" "0 < remain" "remain \<le> len" "unat len \<le> length data"
  shows "\<exists>pl. place_ok (o_head_pages (objects fs x)) (devs fs d) pl \<and>
     place_pos (o_head_pages (objects fs x)) (devs fs d) pl = unat rs \<and> step_reads x d n data len remain fs pl"
proof -
  let ?dev = "devs fs d" and ?hps = "o_head_pages (objects fs x)"
  obtain fdn page i where p: "locate ?hps ?dev rs = Some (fdn, page, i)" "place_ok ?hps ?dev (fdn, page, i)"
      "place_pos ?hps ?dev (fdn, page, i) = unat rs"
    using positions_located[OF pg, of rs ?hps] rs(3) by (metis prod_cases3)
  have f: "GetFdnByOfs ?hps ?dev rs = Some fdn" "i = rs mod pg32 ?dev"
      "ucast ((rs - GetStartOfDataBlock ?hps ?dev fdn) div pg32 ?dev) + (if fdn = 0 then 1 else 0) = page"
    using p(1) by (auto simp: locate_def split: Option.bind_splits)
  have i: "unat i < pgs ?dev" using p(2) by simp
  have m: "unat (len - remain) = unat len - unat remain" using len(3) by (simp add: unat_sub word_le_nat_alt)
  have n: "\<not> f_len (nu ?dev n) \<le> rs" using rs(2) by simp
  note run = read_step_def[of x data len remain fs, unfolded o, folded rs(1)]
  have r0: "read_step x data len remain fs = Some (None, data, set_err x UEUNKNOWN_ERR fs)"
    if "data_node ?dev n fdn = Some None"
    using that n f(1) unfolding run data_node_def by (simp add: Let_def split: if_splits)
  have r1: "read_step x data len remain fs = Some (None, data, set_err x UEIOERR fs1)"
    if "data_node ?dev n fdn = Some (Some a)" "get_page x d fdn a page fs = Some (None, fs1)" for a fs1
    using that n f(1,3) unfolding run data_node_def get_page_def by (cases "fdn = 0") (auto simp: Let_def)
  have r2: "let k = min (unat remain) (unat (b_data_len (bufs (devs fs1 d) b)) - unat i); m = unat (len - remain)
      in read_step x data len remain fs = Some (if k = 0 then None else Some (word_of_nat k),
           take m data @ take k (drop (unat i) (buf_data (devs fs1 d) b)) @ drop (m + k) data, put_page d b fs1)"
    if g: "data_node ?dev n fdn = Some (Some a)" "get_page x d fdn a page fs = Some (Some b, fs1)"
      and room: "page_room (pgs ?dev) (devs fs1 d) b" for a b fs1
  proof -
    let ?d1 = "devs fs1 d" and ?dl = "b_data_len (bufs (devs fs1 d) b)" and ?m = "unat (len - remain)"
    have pg1: "pg32 ?d1 = pg32 ?dev" using room by (simp add: word_unat_eq_iff page_room_def)
    define w where "w = (if remain + i > ucast ?dl then ucast ?dl - i else remain)"
    have step: "read_step x data len remain fs =
        (if ucast ?dl \<le> i then Some (None, data, put_page d b fs1)
         else do {
           (_, tl) \<leftarrow> uffs_BufRead b (drop ?m data) i w ?d1;
           Some (Some w, take ?m data @ tl, put_page d b fs1)
         })"
    proof -
      have "GetFdnByOfs ?hps ?dev rs = Some fdn" "(if fdn = 0 then Some (Some n) else uffs_TreeFindDataNode (f_serial (nu ?dev n)) fdn ?dev) = Some (Some a)"
        "on_dev d (uffs_BufGetEx (if fdn = 0 then UFFS_TYPE_FILE else UFFS_TYPE_DATA) a page (o_oflag (objects fs x))) fs = Some (Some b, fs1)"
        using f(1) g by (simp_all add: data_node_def get_page_def)
      then show ?thesis using n unfolding run f(3)[symmetric]
        by (simp add: Let_def pg1 f(2)[symmetric] w_def put_page_def on_dev_ret case_prod_unfold)
    qed
    have le: "ucast ?dl \<le> i \<longleftrightarrow> unat ?dl \<le> unat i" by (simp add: word_le_nat_alt unat_ucast_16_32)
    show ?thesis
    proof (cases "unat ?dl \<le> unat i")
      case True
      then show ?thesis using step le by simp
    next
      case False
      have w: "unat w = min (unat remain) (unat ?dl - unat i)"
        unfolding w_def using len(1) i pgs_less[of ?dev] False by (intro read_size) auto
      have nz: "0 < unat w" using w False len(2) by (simp add: unat_gt_0)
      have in': "unat i + unat w \<le> unat (pg_data_size ?d1)" "unat (pg_data_size ?d1) \<le> length (buf_data ?d1 b)"
        "unat w \<le> length (drop ?m data)"
        using room False w m len(3,4) by (auto simp: page_room_def pgs_def word_le_nat_alt)
      have "read_step x data len remain fs =
          Some (Some w, take ?m data @ memcpy (drop ?m data) 0 (take (unat w) (drop (unat i) (buf_data ?d1 b))), put_page d b fs1)"
        using step le False by (simp add: BufRead_inside[OF nz in'])
      moreover have "length (take (unat w) (drop (unat i) (buf_data ?d1 b))) = unat w" using in'(1,2) by simp
      ultimately show ?thesis using nz unfolding Let_def w[symmetric] by (simp add: memcpy_def add.commute)
    qed
  qed
  have "step_reads x d n data len remain fs (fdn, page, i)"
    by (simp only: step_reads.simps, intro conjI allI impI; (elim conjE)?; (rule r0 r1 r2; assumption))
  then show ?thesis using p(2,3) by blast
qed

text \<open>C15. One pass of the loop of \<open>uffs_ReadObject\<close> at a position inside the file. The position
  lies in one place (block, page and offset inside the block's pages), and it is this page that the
  pass gets. If the block has no node the pass ends the loop with \<open>UEUNKNOWN_ERR\<close>, if the page
  cannot be had with \<open>UEIOERR\<close>. Otherwise it reads the bytes of the page from the offset on, as
  many as are asked for but none behind the data length of the page; it puts them behind what has
  been read before, leaves the rest of the caller's memory alone, and gives the page back. A page
  without data at the offset ends the loop.\<close>

theorem read_step_located:
  assumes o: "o_dev (objects fs x) = Some d" "o_node (objects fs x) = Some n"
    and pg: "0 < pgs (devs fs d)" "0 < ppb (devs fs d)"
    and rs: "rs = o_pos (objects fs x) + len - remain" "rs < f_len (nu (devs fs d) n)"
      "unat rs < unat (o_head_pages (objects fs x)) * pgs (devs fs d) + 65535 * (pgs (devs fs d) * ppb (devs fs d))"
    and len: "unat remain < 2 ^ 31" "0 < remain" "remain \<le> len" "unat len \<le> length data"
  shows "\<exists>pl. place_ok (o_head_pages (objects fs x)) (devs fs d) pl \<and>
     place_pos (o_head_pages (objects fs x)) (devs fs d) pl = unat rs \<and> step_reads x d n data len remain fs pl"
  by (rule read_step_place[OF assms])

subsection \<open>Reading a file whose pages are in the buffers\<close>

text \<open>The bytes of a file on one of its pages, and a file with the bytes \<open>content\<close> whose pages are
  all in the buffers.\<close>

definition page_bytes :: "bytes \<Rightarrow> u16 \<Rightarrow> 'f device \<Rightarrow> u16 \<Rightarrow> u16 \<Rightarrow> bytes" where
  "page_bytes content hps dev fdn page = take (pgs dev) (drop (place_pos hps dev (fdn, page, 0)) content)"

definition file_cached :: "nat \<Rightarrow> nat \<Rightarrow> nat \<Rightarrow> bytes \<Rightarrow> 'f fs \<Rightarrow> bool" where
  "file_cached x d n content fs \<longleftrightarrow>
     (let dev = devs fs d; hps = o_head_pages (objects fs x)
      in o_dev (objects fs x) = Some d \<and> o_node (objects fs x) = Some n \<and> 0 < pgs dev \<and> 0 < ppb dev \<and>
         unat (f_len (nu dev n)) = length content \<and> length content \<le> unat hps * pgs dev + 65535 * (pgs dev * ppb dev) \<and>
         (\<forall>fdn page. place_ok hps dev (fdn, page, 0) \<and> place_pos hps dev (fdn, page, 0) < length content \<longrightarrow>
            (\<exists>a b. data_node dev n fdn = Some (Some a) \<and>
               cached_page (if fdn = 0 then UFFS_TYPE_FILE else UFFS_TYPE_DATA) a page dev = Some b \<and> page_room (pgs dev) dev b \<and>
               take (unat (b_data_len (bufs dev b))) (buf_data dev b) = page_bytes content hps dev fdn page)))"

lemma set_dev_same: "set_dev d (devs fs d) fs = fs"
  by (simp add: set_dev_def)

lemma read_step_cached:
  assumes c: "file_cached x d n content fs"
    and rs: "rs = o_pos (objects fs x) + len - remain" "unat rs < length content"
    and len: "unat remain < 2 ^ 31" "0 < remain" "remain \<le> len" "unat len \<le> length data"
  obtains k where "0 < k" "k \<le> unat remain" "unat rs + k \<le> length content"
    "read_step x data len remain fs = Some (Some (word_of_nat k),
       take (unat (len - remain)) data @ take k (drop (unat rs) content) @ drop (unat (len - remain) + k) data, fs)"
proof -
  let ?dev = "devs fs d" and ?hps = "o_head_pages (objects fs x)"
  have o: "o_dev (objects fs x) = Some d" "o_node (objects fs x) = Some n" "0 < pgs ?dev" "0 < ppb ?dev"
    "rs < f_len (nu ?dev n)" "unat rs < unat ?hps * pgs ?dev + 65535 * (pgs ?dev * ppb ?dev)"
    using c rs(2) by (simp_all add: file_cached_def Let_def word_less_nat_alt)
  obtain fdn page i where p: "place_ok ?hps ?dev (fdn, page, i)" "place_pos ?hps ?dev (fdn, page, i) = unat rs"
      "step_reads x d n data len remain fs (fdn, page, i)"
    using read_step_place[OF o(1-4) rs(1) o(5,6) len] by (metis prod_cases3)
  let ?s = "place_pos ?hps ?dev (fdn, page, 0)"
  have s: "unat rs = ?s + unat i" "place_ok ?hps ?dev (fdn, page, 0)" "unat i < pgs ?dev" using p(1,2) o(3) by auto
  obtain a b where b: "data_node ?dev n fdn = Some (Some a)"
      "cached_page (if fdn = 0 then UFFS_TYPE_FILE else UFFS_TYPE_DATA) a page ?dev = Some b" "page_room (pgs ?dev) ?dev b"
      "take (unat (b_data_len (bufs ?dev b))) (buf_data ?dev b) = page_bytes content ?hps ?dev fdn page"
  proof -
    have "?s < length content" using s(1) rs(2) by simp
    then show thesis using that c s(2) unfolding file_cached_def Let_def by metis
  qed
  let ?dl = "unat (b_data_len (bufs ?dev b))" and ?m = "unat (len - remain)"
  have dl: "?dl = min (pgs ?dev) (length content - ?s)"
    using arg_cong[OF b(4), of length] b(3) by (simp add: page_room_def page_bytes_def min.commute del: place_pos.simps)
  define k where "k = min (unat remain) (?dl - unat i)"
  define fs1 where "fs1 = set_dev d (uffs_BufIncRef b ?dev) fs"
  have d1: "devs fs1 d = uffs_BufIncRef b ?dev" by (simp add: fs1_def set_dev_def)
  have g: "get_page x d fdn a page fs = Some (Some b, fs1)"
    by (simp add: get_page_def on_dev_def BufGetEx_cached(1)[OF b(2)] fs1_def)
  have pr: "page_room (pgs ?dev) (devs fs1 d) b" using b(3) by (simp add: d1 page_room_def pgs_def)
  have put: "put_page d b fs1 = fs"
    unfolding put_page_def d1 BufGetEx_cached(2)[OF b(2)] by (simp add: fs1_def set_dev_def)
  define S where "S = ?s"
  have sl: "unat rs = S + unat i" "?dl = min (pgs ?dev) (length content - S)" using s(1) dl by (simp_all only: S_def)
  have lt: "unat i < ?dl" using sl s(3) rs(2) by simp
  have k1: "0 < k" "k \<le> unat remain" "k \<le> ?dl - unat i" using lt len(2) by (simp_all add: k_def unat_gt_0)
  then have k: "0 < k" "k \<le> unat remain" "unat i + k \<le> ?dl" "unat rs + k \<le> length content" using lt sl by linarith+
  have "take k (drop (unat i) (buf_data ?dev b)) = take k (drop (unat i) (take ?dl (buf_data ?dev b)))"
    using k(3) by (simp add: drop_take)
  also have "\<dots> = take k (drop (unat rs) content)"
  proof -
    have "?dl \<le> pgs ?dev" using sl(2) by simp
    then have "k \<le> pgs ?dev - unat i" using k(3) by linarith
    then show ?thesis unfolding b(4) page_bytes_def sl(1) S_def[symmetric] by (simp add: drop_take add.commute)
  qed
  finally have "take k (drop (unat i) (buf_data (devs fs1 d) b)) = take k (drop (unat rs) content)" by (simp add: d1)
  then have "read_step x data len remain fs = Some (Some (word_of_nat k),
      take ?m data @ take k (drop (unat rs) content) @ drop (?m + k) data, fs)"
    using p(3) b(1) g pr k(1) put by (auto simp: Let_def d1 k_def[symmetric])
  with k that show thesis by blast
qed

lemma read_loop_cached:
  assumes c: "file_cached x d n content fs"
    and len: "remain \<le> len" "unat len \<le> length data" "unat len < 2 ^ 31"
    and pos: "p = unat (o_pos (objects fs x)) + (unat len - unat remain)" "p \<le> length content"
  shows "\<exists>r. read_loop x data len remain fs = Some (r, take (unat len - unat remain) data @
      take (unat remain) (drop p content) @ drop (unat len - unat remain + min (unat remain) (length content - p)) data, fs) \<and>
    unat r = unat remain - min (unat remain) (length content - p)"
  using len pos
proof (induction "unat remain" arbitrary: remain data p rule: less_induct)
  case less
  let ?rs = "o_pos (objects fs x) + len - remain" and ?m = "unat len - unat remain"
  have cl: "length content < 2 ^ 32" "o_dev (objects fs x) = Some d" "o_node (objects fs x) = Some n"
    "unat (f_len (nu (devs fs d) n)) = length content"
    using c unat_u32_less[of "f_len (nu (devs fs d) n)"] by (simp_all add: file_cached_def Let_def)
  have m: "unat (len - remain) = ?m" using less.prems(1) by (simp add: unat_sub word_le_nat_alt)
  have rl: "unat remain \<le> unat len" using less.prems(1) by (simp add: word_le_nat_alt)
  have rs: "unat ?rs = p"
  proof -
    have "unat (o_pos (objects fs x)) + unat (len - remain) < 2 ^ 32"
      using m less.prems(4,5) cl(1) by linarith
    then have "unat (o_pos (objects fs x) + (len - remain)) = p"
      using m less.prems(4) by (subst unat_add_lem[THEN iffD1]) simp_all
    then show ?thesis by (simp only: add_diff_eq)
  qed
  consider "remain = 0" | "0 < remain" "p = length content" | "0 < remain" "p < length content"
    using less.prems(5) by (metis le_neq_implies_less word_gt_0)
  then show ?case
  proof cases
    case 1
    then show ?thesis by (subst read_loop.simps) simp
  next
    case 2
    have "f_len (nu (devs fs d) n) \<le> ?rs" using rs 2 cl(4) by (simp add: word_le_nat_alt)
    then have "read_step x data len remain fs = Some (None, data, fs)"
      unfolding read_step_def cl(2,3) by (simp add: Let_def)
    then show ?thesis using 2 by (subst read_loop.simps) simp
  next
    case 3
    have r31: "unat remain < 2 ^ 31" using rl less.prems(3) by simp
    then obtain k where k: "0 < k" "k \<le> unat remain" "p + k \<le> length content"
      "read_step x data len remain fs = Some (Some (word_of_nat k), take ?m data @ take k (drop p content) @ drop (?m + k) data, fs)"
      using read_step_cached[OF c refl, of len remain data, unfolded rs m] 3 less.prems(1,2) by blast
    let ?data = "take ?m data @ take k (drop p content) @ drop (?m + k) data" and ?r = "remain - word_of_nat k"
    have uk: "unat (word_of_nat k :: u32) = k" using k(2) r31 by (intro unat_of_nat_u32) simp
    then have ur: "unat ?r = unat remain - k" using k(2) by (subst unat_sub) (simp_all add: word_le_nat_alt)
    have ld: "length ?data = length data" using k rl less.prems(2) by simp
    have e: "unat len - unat ?r = ?m + k" using ur k(2) rl by simp
    have "\<exists>r. read_loop x ?data len ?r fs = Some (r, take (unat len - unat ?r) ?data @ take (unat ?r) (drop (p + k) content) @
        drop (unat len - unat ?r + min (unat ?r) (length content - (p + k))) ?data, fs) \<and>
      unat r = unat ?r - min (unat ?r) (length content - (p + k))"
    proof (rule less.hyps)
      show "unat ?r < unat remain" using ur k(1,2) by simp
      show "?r \<le> len" using ur rl by (simp add: word_le_nat_alt)
      show "unat len \<le> length ?data" using ld less.prems(2) by simp
      show "p + k = unat (o_pos (objects fs x)) + (unat len - unat ?r)" unfolding e using less.prems(4) by simp
    qed (use k less.prems(3) in simp_all)
    then obtain r where r: "read_loop x ?data len ?r fs = Some (r, take (?m + k) ?data @ take (unat remain - k) (drop (p + k) content) @
        drop (?m + k + min (unat remain - k) (length content - (p + k))) ?data, fs)"
      "unat r = unat remain - k - min (unat remain - k) (length content - (p + k))"
      unfolding e unfolding ur by blast
    have mm: "?m \<le> length data" using less.prems(2) by simp
    have mn: "k + min (unat remain - k) (length content - (p + k)) = min (unat remain) (length content - p)"
      using k(2,3) by arith
    have "take (?m + k) ?data = take ?m data @ take k (drop p content)" using k(3) mm by simp
    moreover have "take k (drop p content) @ take (unat remain - k) (drop (p + k) content) = take (unat remain) (drop p content)"
      using k(2) by (metis add.commute drop_drop le_add_diff_inverse take_add)
    moreover have "drop (?m + k + j) ?data = drop (?m + (k + j)) data" for j using k(3) mm by (simp add: add.assoc add.commute)
    ultimately have "read_loop x ?data len ?r fs = Some (r, take ?m data @ take (unat remain) (drop p content) @
        drop (?m + min (unat remain) (length content - p)) data, fs)"
      using r(1) mn by (metis append.assoc)
    moreover have "unat r = unat remain - min (unat remain) (length content - p)" using r(2) mn by simp
    ultimately show ?thesis using 3 k(4) by (subst read_loop.simps) simp
  qed
qed

text \<open>C16. Reading a file whose pages are all in the page buffers. \<open>uffs_ReadObject\<close> returns, with
  the number of bytes up to the end of the file or the number that was asked for, whichever is
  less. The caller's memory then holds these bytes of the file, from the position of the object on,
  across the borders of pages and blocks, and behind them what it held before. The position moves
  behind the bytes; nothing else of the file system changes.\<close>

theorem ReadObject_reads_file:
  assumes "file_cached x d n content fs" "o_open_succ (objects fs x)" "o_type (objects fs x) = UFFS_TYPE_FILE"
    and "o_oflag (objects fs x) AND UO_WRONLY = 0" "unat (o_pos (objects fs x)) \<le> length content"
    and "0 \<le> len" "len < 2 ^ 31" "nat len \<le> length data" "\<not> HAVE_BADBLOCK (pending (devs fs d))"
  shows "let pos = unat (o_pos (objects fs x)); k = min (nat len) (length content - pos)
     in uffs_ReadObject (Some x) data len fs =
          Some (int k, take k (drop pos content) @ drop k data, set_pos x (word_of_nat (pos + k)) fs)"
proof -
  define w where "w = (word_of_int len :: u32)"
  let ?pos = "unat (o_pos (objects fs x))"
  define k where "k = min (nat len) (length content - ?pos)"
  have w: "unat w = nat len" using assms(6,7) by (simp add: w_def unsigned_of_int take_bit_int_eq_self)
  have o: "o_dev (objects fs x) = Some d" "o_node (objects fs x) = Some n" "unat (f_len (nu (devs fs d) n)) = length content"
    using assms(1) by (simp_all add: file_cached_def Let_def)
  obtain r where r: "read_loop x data w w fs = Some (r, take (nat len) (drop ?pos content) @ drop k data, fs)" "unat r = nat len - k"
  proof -
    have "nat len < 2 ^ 31" using assms(6,7) by simp
    then show thesis using that read_loop_cached[OF assms(1), of w w data ?pos] assms(5,8) w by (auto simp: k_def)
  qed
  have kl: "k \<le> nat len" by (simp add: k_def)
  have wr: "w - r = word_of_nat k"
  proof -
    have u: "unat (w - r) = k" using r(2) w kl by (subst unat_sub) (simp_all add: word_le_nat_alt)
    show ?thesis unfolding u[symmetric] by simp
  qed
  have sk: "sint (word_of_nat k :: u32) = int k"
  proof -
    have "k < 2 ^ 31" using kl assms(6,7) by simp
    then have "uint (word_of_nat k :: u32) = int k" "int k < 2 ^ 31" by (simp_all add: unsigned_of_nat take_bit_nat_eq_self)
    then show ?thesis by (simp add: sint_uint signed_take_bit_int_eq_self)
  qed
  have tk: "take (nat len) (drop ?pos content) = take k (drop ?pos content)" by (simp add: k_def min_def)
  have rec: "recover_dev d (set_pos x p fs) = Some (set_pos x p fs)" for p
    using assms(9) by (simp add: recover_dev_def recover_pending_def set_pos_def upd_obj_def set_dev_def)
  have l: "obj_len x fs = Some (f_len (nu (devs fs d) n))" using o by (simp add: obj_len_def obj_nu_def)
  have le: "\<not> f_len (nu (devs fs d) n) < o_pos (objects fs x)" using o(3) assms(5) by (simp add: word_less_nat_alt)
  have "o_pos (objects fs x) + word_of_nat k = word_of_nat (?pos + k)" by simp
  then have "uffs_ReadObject (Some x) data len fs =
      Some (int k, take k (drop ?pos content) @ drop k data, set_pos x (word_of_nat (?pos + k)) fs)"
    using assms(2-4) o l le r(1) wr sk tk rec
    by (simp add: uffs_ReadObject_def Let_def w_def[symmetric] UFFS_TYPE_FILE_def UFFS_TYPE_DIR_def)
  then show ?thesis by (simp add: Let_def k_def)
qed

lemma TreeInit_sizes [simp]:
  "pg_data_size (snd (uffs_TreeInit dev)) = pg_data_size dev" "attr (snd (uffs_TreeInit dev)) = attr dev"
  "pending (snd (uffs_TreeInit dev)) = pending dev"
  by (auto simp: uffs_TreeInit_def Let_def upd_tree_def split: prod.split option.split)

lemma sample_tree_sizes:
  "pg32 (upd_u 8192 f sample_tree) = 508" "ppb32 (upd_u 8192 f sample_tree) = 32"
  "pg_data_size sample_tree = 508" "pages_per_block (attr sample_tree) = 32"
proof -
  have "pg_data_size sample_dev = 508" by (simp add: sample_dev_def)
  then show "pg_data_size sample_tree = 508" by (simp add: sample_tree_def upd_u_def upd_node_def)
  then show "pg32 (upd_u 8192 f sample_tree) = 508" by (simp add: pg32_def upd_u_def upd_node_def)
  have "pages_per_block (attr sample_dev) = 32" using sample_ppb by (simp add: ppb_def word_unat_eq_iff)
  then show "pages_per_block (attr sample_tree) = 32" by (simp add: sample_tree_def upd_u_def upd_node_def)
  then show "ppb32 (upd_u 8192 f sample_tree) = 32" by (simp add: ppb32_def upd_u_def upd_node_def)
qed

text \<open>A file of 100 bytes with 31 pages of 508 bytes in its header block; its page is in a buffer.
  The object stands at position 97.\<close>

definition count_bytes :: "nat \<Rightarrow> bytes" where
  "count_bytes n = map word_of_nat [0..<n]"

lemma count_bytes_simps [simp]: "length (count_bytes n) = n" "take k (count_bytes n) = count_bytes (min k n)"
  by (simp_all add: count_bytes_def take_map min_def)

definition read_dev :: "femu device" where
  "read_dev = sample_tree\<lparr>buf_head := Some 0, header_size := 4,
     bufs := (\<lambda>_. zero_buf\<lparr>b_type := UFFS_TYPE_FILE, b_serial := 7, b_page_id := 1, b_mark := UFFS_BUF_VALID,
        b_data_len := 100, b_page := replicate 4 0 @ count_bytes 508\<rparr>)\<rparr>"

definition read_fs :: "femu fs" where
  "read_fs = upd_obj 0 (\<lambda>z. z\<lparr>o_dev := Some 0, o_node := Some 8192, o_type := UFFS_TYPE_FILE, o_open_succ := True,
       o_head_pages := 31, o_pos := 97\<rparr>) (sample_mounts\<lparr>devs := \<lambda>_. read_dev\<rparr>)"

lemma read_fs_simps [simp]:
  "devs read_fs d = read_dev" "o_dev (objects read_fs 0) = Some 0" "o_node (objects read_fs 0) = Some 8192"
  "o_head_pages (objects read_fs 0) = 31" "o_pos (objects read_fs 0) = 97" "o_type (objects read_fs 0) = UFFS_TYPE_FILE"
  "o_open_succ (objects read_fs 0)" "o_oflag (objects read_fs 0) = 0"
  by (simp_all add: read_fs_def upd_obj_def sample_mounts_def)

lemma read_dev_simps [simp]:
  "pgs read_dev = 508" "ppb read_dev = 32" "nu read_dev 8192 = UFile 3 0 0 7 100" "b_data_len (bufs read_dev b) = 100"
  "buf_data read_dev b = count_bytes 508" "b_ref_count (bufs read_dev b) = 0"
  using sample_tree_sizes(3,4) sample_tree_ok(5)
  by (simp_all add: read_dev_def pgs_def ppb_def nu_def buf_data_def zero_buf_def)

lemma read_dev_cached: "cached_page UFFS_TYPE_FILE 8192 1 read_dev = Some 0"
proof -
  have "uffs_BufFind 0 7 1 read_dev = Some (Some 0)"
    unfolding uffs_BufFind_def uffs_BufFindFrom_def
    by (subst chain_find.simps) (simp add: read_dev_def buf_matches_def zero_buf_def buf_marks)
  then show ?thesis by (simp add: cached_page_def obj_of_node_def UFFS_TYPE_FILE_def UFFS_TYPE_DIR_def CLONE_BUF_MARK_def)
qed

lemma read_place:
  assumes "place_ok 31 read_dev (fdn, page, i)" "place_pos 31 read_dev (fdn, page, i) < 508"
  shows "fdn = 0" "page = 1" "place_pos 31 read_dev (fdn, page, i) = unat i"
proof -
  show f: "fdn = 0" using assms(2) by (auto simp: block_pos_def split: if_splits)
  have "1 \<le> unat page" "(unat page - 1) * 508 < 1 * 508" using assms by (simp_all add: f block_pos_def)
  then have "unat page = 1" by (simp only: mult_less_cancel2) arith
  then show p: "page = 1" by (simp add: word_unat_eq_iff)
  show "place_pos 31 read_dev (fdn, page, i) = unat i" by (simp add: f p block_pos_def)
qed

lemma read_fs_cached: "file_cached 0 0 8192 (count_bytes 100) read_fs"
proof -
  have "\<exists>a b. data_node read_dev 8192 fdn = Some (Some a) \<and>
      cached_page (if fdn = 0 then UFFS_TYPE_FILE else UFFS_TYPE_DATA) a page read_dev = Some b \<and> page_room 508 read_dev b \<and>
      take (unat (b_data_len (bufs read_dev b))) (buf_data read_dev b) = page_bytes (count_bytes 100) 31 read_dev fdn page"
    if "place_ok 31 read_dev (fdn, page, 0)" "place_pos 31 read_dev (fdn, page, 0) < 100" for fdn page
  proof -
    have "place_pos 31 read_dev (fdn, page, 0) < 508" by (rule less_trans[OF that(2)]) simp
    note p = read_place[OF that(1) this, unfolded unat_0]
    have "data_node read_dev 8192 0 = Some (Some 8192)" "page_room 508 read_dev 0" by (simp_all add: data_node_def page_room_def)
    moreover have "page_bytes (count_bytes 100) 31 read_dev fdn page = count_bytes 100" using p(3) by (simp add: page_bytes_def del: place_pos.simps)
    ultimately show ?thesis unfolding p(1,2) using read_dev_cached by (intro exI[of _ 8192] exI[of _ 0]) simp
  qed
  then show ?thesis by (simp add: file_cached_def Let_def del: place_ok.simps place_pos.simps)
qed

lemma drop_count: "take 3 (drop 97 (count_bytes 508)) = [97, 98, 99]" "drop 97 (count_bytes 100) = [97, 98, 99]"
  unfolding count_bytes_def by code_simp+

theorem read_step_located_witness:
  "\<exists>fs2. read_step 0 (replicate 8 0) 5 5 read_fs = Some (Some 3, 97 # 98 # 99 # replicate 5 0, fs2)"
proof -
  obtain fdn page i where p: "place_ok 31 read_dev (fdn, page, i)" "place_pos 31 read_dev (fdn, page, i) = 97"
      "step_reads 0 0 8192 (replicate 8 0) 5 5 read_fs (fdn, page, i)"
    using read_step_located[of read_fs 0 0 8192 97 5 5 "replicate 8 0"] by auto
  have "place_pos 31 read_dev (fdn, page, i) < 508" unfolding p(2) by simp
  note e = read_place[OF p(1) this, unfolded p(2), symmetric]
  have g: "get_page 0 0 0 8192 1 read_fs = Some (Some 0, set_dev 0 (uffs_BufIncRef 0 read_dev) read_fs)"
    using BufGetEx_cached(1)[OF read_dev_cached] by (simp add: get_page_def on_dev_def)
  have "page_room 508 (uffs_BufIncRef 0 read_dev) 0" "data_node read_dev 8192 0 = Some (Some 8192)"
    using read_dev_simps(1) by (simp_all add: page_room_def pgs_def data_node_def)
  then show ?thesis using p(3) g unfolding e(1,2)[symmetric]
    by (simp add: set_dev_def e(3) Let_def drop_count)
qed

theorem ReadObject_reads_file_witness:
  "uffs_ReadObject (Some 0) (replicate 8 0) 5 read_fs = Some (3, 97 # 98 # 99 # replicate 5 0, set_pos 0 100 read_fs)"
proof -
  have "\<not> HAVE_BADBLOCK (pending (devs read_fs 0))"
    by (simp add: read_dev_def sample_tree_def HAVE_BADBLOCK_def upd_u_def upd_node_def) (simp add: sample_dev_def)
  from ReadObject_reads_file[OF read_fs_cached _ _ _ _ _ _ _ this, of 5 "replicate 8 0"]
  show ?thesis by (simp add: UO_WRONLY_def Let_def drop_count)
qed

subsection \<open>A lost block\<close>

text \<open>The length to cut to lies in a data block that has no node in the tree.\<close>

definition cut_lost :: "nat \<Rightarrow> u32 \<Rightarrow> u32 \<Rightarrow> 'f fs \<Rightarrow> bool" where
  "cut_lost x remain flen fs \<longleftrightarrow>
     (\<exists>d n fdn. let dev = devs fs d; hps = o_head_pages (objects fs x)
      in o_dev (objects fs x) = Some d \<and> o_node (objects fs x) = Some n \<and>
         GetFdnByOfs hps dev (flen - 1) = Some fdn \<and> fdn \<noteq> 0 \<and> GetStartOfDataBlock hps dev fdn < remain \<and> remain < flen \<and>
         uffs_TreeFindDataNode (f_serial (nu dev n)) fdn dev = Some None)"

lemma lost_internal:
  assumes "cut_lost x remain flen fs"
  obtains fdn d n where "o_dev (objects fs x) = Some d" "o_node (objects fs x) = Some n"
    "GetFdnByOfs (o_head_pages (objects fs x)) (devs fs d) (flen - 1) = Some fdn"
    "\<not> (remain \<le> GetStartOfDataBlock (o_head_pages (objects fs x)) (devs fs d) fdn \<and> fdn > 0)" "remain < flen"
    "do_TruncateInternalWithBlockRecover x fdn remain False fs = Some (U_FAIL, set_err x UEIOERR fs)"
    "cut_lost x remain flen (set_err x UEIOERR fs)"
proof -
  obtain d n fdn where c: "o_dev (objects fs x) = Some d" "o_node (objects fs x) = Some n"
    "GetFdnByOfs (o_head_pages (objects fs x)) (devs fs d) (flen - 1) = Some fdn" "fdn \<noteq> 0"
    "GetStartOfDataBlock (o_head_pages (objects fs x)) (devs fs d) fdn < remain" "remain < flen"
    "uffs_TreeFindDataNode (f_serial (nu (devs fs d) n)) fdn (devs fs d) = Some None"
    using assms unfolding cut_lost_def Let_def by blast
  have "do_TruncateInternalWithBlockRecover x fdn remain False fs = Some (U_FAIL, set_err x UEIOERR fs)"
    using c by (simp add: do_TruncateInternalWithBlockRecover_def trunc_block_def obj_ret_def set_err_def upd_obj_def
        ue_codes)
  moreover have "cut_lost x remain flen (set_err x UEIOERR fs)"
    using c unfolding cut_lost_def Let_def
    by (intro exI[of _ d] exI[of _ n] exI[of _ fdn]) (simp add: set_err_def upd_obj_def)
  ultimately show ?thesis using that c by (meson not_le)
qed

lemma truncate_loop_lost:
  assumes "truncate_loop x remain run flen fs = Some r"
  shows "\<not> run \<longrightarrow> \<not> cut_lost x remain flen fs"
proof (rule truncate_loop.raw_induct[where P = "\<lambda>x remain run flen fs r. \<not> run \<longrightarrow> \<not> cut_lost x remain flen fs" and
      xa = "((((x, remain), run), flen), fs)" and y = r, unfolded prod.case], goal_cases)
  case (1 loop x remain run flen fs y)
  show "\<not> run \<longrightarrow> \<not> cut_lost x remain flen fs"
  proof (intro impI notI)
    assume nr: "\<not> run" and l: "cut_lost x remain flen fs"
    from lost_internal[OF l] obtain fdn d n where c: "o_dev (objects fs x) = Some d" "o_node (objects fs x) = Some n"
      "GetFdnByOfs (o_head_pages (objects fs x)) (devs fs d) (flen - 1) = Some fdn"
      "\<not> (remain \<le> GetStartOfDataBlock (o_head_pages (objects fs x)) (devs fs d) fdn \<and> fdn > 0)" "remain < flen"
      "do_TruncateInternalWithBlockRecover x fdn remain False fs = Some (U_FAIL, set_err x UEIOERR fs)"
      "cut_lost x remain flen (set_err x UEIOERR fs)" .
    have "loop x remain run flen (set_err x UEIOERR fs) = Some y"
      using 1(2) c(1-6) nr by simp
    from 1(1)[OF this] nr c(7) show False by simp
  qed
qed (use assms in simp)

text \<open>The last byte of the file lies in a data block, which begins at \<open>start\<close>, and the block has no
  node.\<close>

definition last_lost :: "nat \<Rightarrow> u32 \<Rightarrow> u32 \<Rightarrow> 'f fs \<Rightarrow> bool" where
  "last_lost x flen start fs \<longleftrightarrow>
     (\<exists>d n fdn. let dev = devs fs d; hps = o_head_pages (objects fs x)
      in o_dev (objects fs x) = Some d \<and> o_node (objects fs x) = Some n \<and> o_serial (objects fs x) = f_serial (nu dev n) \<and>
         GetFdnByOfs hps dev (flen - 1) = Some fdn \<and> fdn \<noteq> 0 \<and> start = GetStartOfDataBlock hps dev fdn \<and>
         uffs_TreeFindDataNode (f_serial (nu dev n)) fdn dev = Some None)"

lemma last_lost_cut: "last_lost x flen start fs \<Longrightarrow> start < remain \<Longrightarrow> remain < flen \<Longrightarrow> cut_lost x remain flen fs"
  unfolding last_lost_def cut_lost_def Let_def by blast

lemma truncate_drop_lost:
  assumes "last_lost x flen start fs" "remain \<le> start" "remain < flen" "obj_len x fs = Some flen"
    and "o_open_succ (objects fs x)" "o_type (objects fs x) = UFFS_TYPE_FILE"
  shows "do_TruncateObject x remain run fs = Some (U_FAIL, set_err x UEIOERR fs)"
proof -
  obtain d n fdn where c: "o_dev (objects fs x) = Some d" "o_node (objects fs x) = Some n"
    "o_serial (objects fs x) = f_serial (nu (devs fs d) n)"
    "GetFdnByOfs (o_head_pages (objects fs x)) (devs fs d) (flen - 1) = Some fdn" "0 < fdn"
    "start = GetStartOfDataBlock (o_head_pages (objects fs x)) (devs fs d) fdn"
    "uffs_TreeFindDataNode (f_serial (nu (devs fs d) n)) fdn (devs fs d) = Some None"
    using assms(1) unfolding last_lost_def Let_def by (auto simp: word_gt_0)
  have "truncate_loop x remain run flen fs = Some (True, set_err x UEIOERR fs)"
    using c assms(2,3) by (subst truncate_loop.simps) (simp add: Let_def)
  moreover have "\<not> flen < remain" using assms(3) by simp
  ultimately show ?thesis using c assms(4-6)
    by (simp add: do_TruncateObject_def Let_def UFFS_TYPE_FILE_def UFFS_TYPE_DIR_def obj_ret_def set_pos_def set_err_def
        upd_obj_def ue_codes)
qed

text \<open>C17. Truncating a file whose last data block has no node in the tree (it was lost, for instance
  by a failed recovery). To a length inside that block, \<open>uffs_TruncateObject\<close> never returns, because
  the failed cut leaves the length that its loop compares. To a length up to the start of the block
  it changes nothing: the dry run fails with \<open>UEIOERR\<close>, and only the flush of the object follows.\<close>

theorem truncate_lost_block_hangs:
  assumes "o_open_succ (objects fs x)" "o_type (objects fs x) = UFFS_TYPE_FILE"
    and "obj_len x fs = Some flen" "last_lost x flen start fs" "remain < flen"
  shows "(start < remain \<longrightarrow> uffs_TruncateObject x remain fs = None) \<and>
    (remain \<le> start \<longrightarrow> uffs_TruncateObject x remain fs =
       map_option (\<lambda>(r, fs). obj_ret x fs) (uffs_FlushObject x (set_err x UEIOERR fs)))"
proof (intro conjI impI)
  assume "start < remain"
  then have l: "cut_lost x remain flen fs" using last_lost_cut assms(4,5) by blast
  obtain d n where c: "o_dev (objects fs x) = Some d" "o_node (objects fs x) = Some n"
    using lost_internal[OF l] by metis
  have "truncate_loop x remain False flen fs = None"
    using truncate_loop_lost[of x remain False flen fs] l by (cases "truncate_loop x remain False flen fs") auto
  then show "uffs_TruncateObject x remain fs = None" using assms c
    by (simp add: uffs_TruncateObject_def truncate_both_def do_TruncateObject_def Let_def UFFS_TYPE_FILE_def UFFS_TYPE_DIR_def
        less_le_not_le not_less)
next
  assume "remain \<le> start"
  note d = truncate_drop_lost[OF assms(4) this assms(5,3,1,2)]
  show "uffs_TruncateObject x remain fs =
      map_option (\<lambda>(r, fs). obj_ret x fs) (uffs_FlushObject x (set_err x UEIOERR fs))"
    by (cases "uffs_FlushObject x (set_err x UEIOERR fs)") (auto simp: uffs_TruncateObject_def truncate_both_def d)
qed

text \<open>A file of 16748 bytes with 31 pages of 508 bytes in its header block; the data block has no
  node.\<close>

definition sample_lost :: "femu fs" where
  "sample_lost = upd_obj 0 (\<lambda>z. z\<lparr>o_dev := Some 0, o_node := Some 8192, o_type := UFFS_TYPE_FILE, o_open_succ := True,
       o_head_pages := 31, o_serial := 7\<rparr>)
     (sample_mounts\<lparr>devs := \<lambda>_. upd_u 8192 (set_f_len 16748) sample_tree\<rparr>)"

lemma sample_lost_find: "uffs_TreeFindDataNode 7 1 (upd_u 8192 (set_f_len 16748) sample_tree) = Some None"
  by (subst tree_find(3)[OF tree_maps_frame[OF sample_tree_ok(1)]]) simp_all

theorem truncate_lost_block_hangs_witness:
  "uffs_TruncateObject 0 16000 sample_lost = None \<and>
   uffs_TruncateObject 0 15748 sample_lost = map_option (\<lambda>(r, fs). obj_ret 0 fs) (uffs_FlushObject 0 (set_err 0 UEIOERR sample_lost))"
proof -
  have o: "o_open_succ (objects sample_lost 0)" "o_type (objects sample_lost 0) = UFFS_TYPE_FILE"
    by (simp_all add: sample_lost_def upd_obj_def)
  have "obj_nu 0 sample_lost = Some (UFile 3 0 0 7 16748)"
    by (simp add: obj_nu_def sample_lost_def upd_obj_def sample_tree_ok set_f_len_def)
  then have n: "obj_len 0 sample_lost = Some 16748" by (simp add: obj_len_def)
  have l: "last_lost 0 16748 15748 sample_lost"
    unfolding last_lost_def Let_def
    by (intro exI[of _ 0] exI[of _ 8192] exI[of _ 1])
      (simp add: sample_lost_def upd_obj_def sample_lost_find sample_tree_ok set_f_len_def GetFdnByOfs_def
        GetStartOfDataBlock_def sample_tree_sizes)
  show ?thesis
    using truncate_lost_block_hangs[OF o n l, of 16000] truncate_lost_block_hangs[OF o n l, of 15748] by simp
qed

end
