(* ===== verification/Fs_Files.thy ===== *)
theory Fs_Files
  imports Fs_Data
begin

text \<open>
  Creating, opening, closing, deleting, moving and renaming files and directories
  (\<open>uffs_fs.c\<close>).

  \<open>None\<close> is the dereference of a null pointer or an access outside a name or an array. The lemmas
  on the references that these operations take and give back are in \<open>Device_Refs\<close>.
\<close>

section \<open>Creating\<close>

text \<open>The image of \<open>uffs_FileInfo\<close>; \<open>name\<close> has the length of the array.\<close>

definition file_info :: "u32 \<Rightarrow> u32 \<Rightarrow> u32 \<Rightarrow> u32 \<Rightarrow> bytes \<Rightarrow> bytes" where
  "file_info fattr ctime mtime name_len name =
     le_bytes fattr @ le_bytes ctime @ le_bytes mtime @ le_bytes 0 @ le_bytes 0 @ le_bytes name_len @ name"

definition new_file_info :: "u8 \<Rightarrow> u32 \<Rightarrow> bytes option \<Rightarrow> u32 \<Rightarrow> bytes option" where
  "new_file_info ty now name name_len = do {
     let n = (if name_len < word_of_nat MAX_FILENAME_LENGTH then name_len else word_of_nat MAX_FILENAME_LENGTH - 1);
     s \<leftarrow> name_bytes name (unat n);
     Some (file_info (FILE_ATTR_WRITE OR (if ty = UFFS_TYPE_DIR then FILE_ATTR_DIR else 0)) now now n
             (s @ replicate (MAX_FILENAME_LENGTH - length s) 0))
   }"

text \<open>The object does not exist: its first page is written and flushed, so that the new node is
  in the tree.\<close>

definition create_new :: "nat \<Rightarrow> 'f fs \<Rightarrow> 'f fs option" where
  "create_new x fs = do {
     d \<leftarrow> o_dev (objects fs x);
     serial \<leftarrow> uffs_FindFreeFsnSerial (devs fs d);
     let fs = upd_obj x (\<lambda>z. z\<lparr>o_serial := serial\<rparr>) fs;
     let ty = o_type (objects fs x);
     let parent = o_parent (objects fs x);
     (if serial = INVALID_UFFS_SERIAL \<or> \<not> can_write_block (devs fs d) then Some (set_err x UENOMEM fs)
      else do {
        (buf, fs) \<leftarrow> on_dev d (uffs_BufNew ty parent serial 0) fs;
        (case buf of None \<Rightarrow> Some fs
         | Some b \<Rightarrow> do {
             fi \<leftarrow> new_file_info ty (clock fs) (o_name (objects fs x)) (o_name_len (objects fs x));
             (_, fs) \<leftarrow> on_dev d (uffs_BufWrite b (Some fi) 0 (word_of_nat SIZEOF_FILEINFO)) fs;
             (_, fs) \<leftarrow> on_dev d (ret_dev (uffs_BufPut (Some b))) fs;
             (_, fs) \<leftarrow> on_dev d (uffs_BufFlushGroup parent serial) fs;
             node \<leftarrow> (if ty = UFFS_TYPE_DIR then uffs_TreeFindDirNode serial (devs fs d) else uffs_TreeFindFileNode serial (devs fs d));
             let fs = upd_obj x (\<lambda>z. z\<lparr>o_node := node\<rparr>) fs;
             (if node = None then Some (set_err x UEIOERR fs)
              else do {
                fs \<leftarrow> (if ty = UFFS_TYPE_FILE then set_obj_len x 0 fs else Some fs);
                fs \<leftarrow> recover_dev d fs;
                Some (upd_obj x (\<lambda>z. z\<lparr>o_open_succ := True\<rparr>) fs)
              })
           })
      })
   }"

text \<open>An object of the other type with the name is an error; so is a directory with the name,
  and a file with the name is truncated.\<close>

definition create_under :: "nat \<Rightarrow> 'f fs \<Rightarrow> 'f fs option" where
  "create_under x fs = do {
     let ob = objects fs x;
     d \<leftarrow> o_dev ob;
     let isdir = (o_type ob = UFFS_TYPE_DIR);
     (node, fs) \<leftarrow> find_child (if isdir then UFFS_TYPE_FILE else UFFS_TYPE_DIR) d (o_name ob) (o_name_len ob) (o_sum ob) (o_parent ob) fs;
     (if node \<noteq> None then Some (set_err x UEEXIST fs)
      else do {
        (node, fs) \<leftarrow> find_child (o_type ob) d (o_name ob) (o_name_len ob) (o_sum ob) (o_parent ob) fs;
        let fs = upd_obj x (\<lambda>z. z\<lparr>o_node := node\<rparr>) fs;
        (if node = None then create_new x fs
         else if isdir then Some (set_err x UEEXIST fs)
         else do {
           serial \<leftarrow> GET_OBJ_NODE_SERIAL x fs;
           truncate_both x 0 (upd_obj x (\<lambda>z. z\<lparr>o_serial := serial, o_open_succ := True\<rparr>) fs)
         })
      })
   }"

definition uffs_CreateObjectEx :: "nat \<Rightarrow> nat \<Rightarrow> u16 \<Rightarrow> bytes option \<Rightarrow> u32 \<Rightarrow> u32 \<Rightarrow> 'f fs \<Rightarrow> (URET \<times> 'f fs) option" where
  "uffs_CreateObjectEx x d dir name name_len oflag fs = do {
     let ty = (if oflag AND UO_DIR \<noteq> 0 then UFFS_TYPE_DIR else UFFS_TYPE_FILE);
     let fs = upd_obj x (\<lambda>z. z\<lparr>o_dev := Some d, o_parent := dir, o_type := ty, o_name := name, o_name_len := name_len\<rparr>) fs;
     e \<leftarrow> name_ends name name_len;
     (if e \<and> ty = UFFS_TYPE_FILE then Some (obj_ret x (set_err x UENOENT fs))
      else
        let len = (if e then name_len - 1 else name_len); fs = upd_obj x (\<lambda>z. z\<lparr>o_name_len := len\<rparr>) fs
        in if len = 0 then Some (obj_ret x (set_err x UENOENT fs))
           else do {
             s \<leftarrow> name_bytes name (unat len);
             fs \<leftarrow> create_under x (upd_obj x (\<lambda>z. z\<lparr>o_sum := uffs_MakeSum16 s\<rparr>) fs);
             Some (obj_ret x fs)
           })
   }"

text \<open>When the name cannot be parsed because the object is open, the fields of the object are
  what they were.\<close>

definition uffs_CreateObject :: "nat \<Rightarrow> bytes \<Rightarrow> u32 \<Rightarrow> 'f fs \<Rightarrow> (URET \<times> 'f fs) option" where
  "uffs_CreateObject x fullname oflag fs = do {
     let oflag = oflag OR UO_CREATE;
     (r, fs) \<leftarrow> uffs_ParseObject (Some x) fullname fs;
     let ob = objects fs x;
     (_, fs) \<leftarrow> (if r = U_SUCC
               then do {
                 d \<leftarrow> o_dev ob;
                 uffs_CreateObjectEx x d (o_parent ob) (o_name ob) (o_name_len ob) oflag fs
               }
               else Some (U_FAIL, fs));
     let ob = objects fs x;
     Some (if o_err ob = UENOERR then (U_SUCC, fs)
           else (U_FAIL, case o_dev ob of None \<Rightarrow> fs
                         | Some d \<Rightarrow> upd_obj x (\<lambda>z. z\<lparr>o_dev := None\<rparr>) (uffs_PutDevice d fs)))
   }"

section \<open>Opening and closing\<close>

definition has_flags :: "u32 \<Rightarrow> u32 \<Rightarrow> bool" where
  "has_flags oflag m \<longleftrightarrow> oflag AND m = m"

text \<open>From the label \<open>ext\<close>: the object is open when there is no error.\<close>

definition open_end :: "nat \<Rightarrow> 'f fs \<Rightarrow> URET \<times> 'f fs" where
  "open_end x fs = obj_ret x (upd_obj x (\<lambda>z. z\<lparr>o_open_succ := (o_err z = UENOERR)\<rparr>) fs)"

text \<open>The object exists.\<close>

definition open_found :: "nat \<Rightarrow> 'f fs \<Rightarrow> 'f fs option" where
  "open_found x fs =
     (let oflag = o_oflag (objects fs x)
      in if has_flags oflag (UO_CREATE OR UO_EXCL) then Some (set_err x UEEXIST fs)
         else do {
           serial \<leftarrow> GET_OBJ_NODE_SERIAL x fs;
           let fs = upd_obj x (\<lambda>z. z\<lparr>o_serial := serial, o_open_succ := True\<rparr>) fs;
           (if oflag AND UO_TRUNC \<noteq> 0 then truncate_both x 0 fs else Some fs)
         })"

definition open_under :: "nat \<Rightarrow> nat \<Rightarrow> u16 \<Rightarrow> u32 \<Rightarrow> 'f fs \<Rightarrow> 'f fs option" where
  "open_under x d dir oflag fs = do {
     let ob = objects fs x;
     (node, fs) \<leftarrow> find_child (o_type ob) d (o_name ob) (o_name_len ob) (o_sum ob) (o_parent ob) fs;
     let fs = upd_obj x (\<lambda>z. z\<lparr>o_node := node\<rparr>) fs;
     (if node \<noteq> None then open_found x fs
      else if oflag AND UO_CREATE \<noteq> 0
      then if o_name ob = None \<or> o_name_len ob = 0 then Some (set_err x UEEXIST fs)
           else map_option snd (uffs_CreateObjectEx x d dir (o_name ob) (o_name_len ob) oflag fs)
      else Some (set_err x UENOENT fs))
   }"

text \<open>The fields that are set before the lookup; the second component tells that the last
  character of the name is a slash.\<close>

definition open_fields :: "nat \<Rightarrow> nat \<Rightarrow> u16 \<Rightarrow> bytes option \<Rightarrow> u32 \<Rightarrow> u32 \<Rightarrow> 'f fs \<Rightarrow> (bool \<times> 'f fs) option" where
  "open_fields x d dir name name_len oflag fs = do {
     let ty = (if oflag AND UO_DIR \<noteq> 0 then UFFS_TYPE_DIR else UFFS_TYPE_FILE);
     e \<leftarrow> (if name_len > 0 then name_ends name name_len else Some False);
     let len = (if ty = UFFS_TYPE_DIR \<and> e then name_len - 1 else name_len);
     csum \<leftarrow> (if len > 0 then map_option uffs_MakeSum16 (name_bytes name (unat len)) else Some 0);
     Some (e, upd_obj x (\<lambda>z. z\<lparr>o_oflag := oflag, o_parent := dir, o_type := ty, o_pos := 0, o_dev := Some d, o_name := name,
                o_name_len := len, o_sum := csum, o_head_pages := pages_per_block (attr (devs fs d)) - 1\<rparr>) fs)
   }"

definition uffs_OpenObjectEx ::
  "nat \<Rightarrow> nat option \<Rightarrow> u16 \<Rightarrow> bytes option \<Rightarrow> u32 \<Rightarrow> u32 \<Rightarrow> 'f fs \<Rightarrow> (URET \<times> 'f fs) option" where
  "uffs_OpenObjectEx x dev dir name name_len oflag fs =
     (let fs = upd_obj x (\<lambda>z. z\<lparr>o_err := UENOERR, o_open_succ := False\<rparr>) fs
      in case dev of None \<Rightarrow> Some (open_end x (set_err x UEINVAL fs))
         | Some d \<Rightarrow>
             if has_flags oflag (UO_WRONLY OR UO_RDWR) then Some (open_end x (set_err x UEINVAL fs))
             else do {
               (slash, fs) \<leftarrow> open_fields x d dir name name_len oflag fs;
               let ob = objects fs x;
               (if o_type ob = UFFS_TYPE_DIR \<and> o_name_len ob = 0
                then Some (open_end x (if dir \<noteq> PARENT_OF_ROOT then set_err x UEINVAL fs
                                       else upd_obj x (\<lambda>z. z\<lparr>o_serial := ROOT_DIR_SERIAL\<rparr>) fs))
                else do {
                  let fs = (if o_type ob = UFFS_TYPE_FILE \<and> (o_name_len ob = 0 \<or> slash) then set_err x UEINVAL fs else fs);
                  fs \<leftarrow> open_under x d dir oflag fs;
                  Some (open_end x fs)
                })
             })"

definition uffs_OpenObject :: "nat option \<Rightarrow> bytes \<Rightarrow> u32 \<Rightarrow> 'f fs \<Rightarrow> (URET \<times> 'f fs) option" where
  "uffs_OpenObject obj name oflag fs =
     (case obj of None \<Rightarrow> Some (U_FAIL, fs)
      | Some x \<Rightarrow> do {
          (r, fs) \<leftarrow> uffs_ParseObject obj name fs;
          let ob = objects fs x;
          (r, fs) \<leftarrow> (if r = U_SUCC then uffs_OpenObjectEx x (o_dev ob) (o_parent ob) (o_name ob) (o_name_len ob) oflag fs
                    else Some (r, fs));
          fs \<leftarrow> (if r \<noteq> U_SUCC then do_ReleaseObjectResource obj fs else Some fs);
          Some (r, fs)
        })"

definition uffs_CloseObject :: "nat \<Rightarrow> 'f fs \<Rightarrow> (URET \<times> 'f fs) option" where
  "uffs_CloseObject x fs = do {
     fs \<leftarrow> (if o_dev (objects fs x) = None \<or> \<not> o_open_succ (objects fs x) then Some (set_err x UEBADF fs)
           else if o_oflag (objects fs x) AND (UO_WRONLY OR UO_RDWR OR UO_APPEND OR UO_CREATE OR UO_TRUNC) \<noteq> 0
           then map_option snd (do_FlushObject x fs) else Some fs);
     fs \<leftarrow> do_ReleaseObjectResource (Some x) fs;
     Some (obj_ret x fs)
   }"


section \<open>Deleting\<close>

text \<open>The references to the buffers of one block; a buffer without reference becomes empty. The
  result is the count of the first one that is held.\<close>

partial_function (option) drop_bufs :: "u16 \<Rightarrow> u16 \<Rightarrow> nat option \<Rightarrow> 'f device \<Rightarrow> (u16 \<times> 'f device) option" where
  "drop_bufs parent serial start dev = do {
     buf \<leftarrow> uffs_BufFindFrom start parent serial (word_of_int UFFS_ALL_PAGES) dev;
     (case buf of None \<Rightarrow> Some (0, dev)
      | Some b \<Rightarrow>
          if b_ref_count (bufs dev b) > 0 then Some (b_ref_count (bufs dev b), dev)
          else drop_bufs parent serial (b_next (bufs dev b)) (upd_buf b (\<lambda>z. z\<lparr>b_mark := UFFS_BUF_EMPTY\<rparr>) dev))
   }"

text \<open>The 16-bit counter \<open>serial\<close> wraps, so that the loop does not end when the last serial is 0xffff.\<close>

partial_function (option) drop_data_bufs :: "u16 \<Rightarrow> u16 \<Rightarrow> u16 \<Rightarrow> 'f device \<Rightarrow> (u16 \<times> 'f device) option" where
  "drop_data_bufs parent serial last_serial dev =
     (if serial \<le> last_serial
      then do {
        (n, dev) \<leftarrow> drop_bufs parent serial (buf_head dev) dev;
        (if n \<noteq> 0 then Some (n, dev) else drop_data_bufs parent (serial + 1) last_serial dev)
      }
      else Some (0, dev))"

definition check_buf_ref :: "Object \<Rightarrow> u32 \<Rightarrow> 'f device \<Rightarrow> (u16 \<times> 'f device) option" where
  "check_buf_ref ob len dev = do {
     (n, dev) \<leftarrow> drop_bufs (o_parent ob) (o_serial ob) (buf_head dev) dev;
     (if n \<noteq> 0 then Some (n, dev)
      else if o_type ob = UFFS_TYPE_FILE \<and> len > 0
      then do {
        last_serial \<leftarrow> GetFdnByOfs (o_head_pages ob) dev (len - 1);
        drop_data_bufs (o_serial ob) 1 last_serial dev
      }
      else Some (0, dev))
   }"

text \<open>\<open>_CheckObjBufRef\<close>; the node is only read for a file.\<close>

definition CheckObjBufRef :: "nat \<Rightarrow> 'f fs \<Rightarrow> (u16 \<times> 'f fs) option" where
  "CheckObjBufRef x fs = do {
     d \<leftarrow> o_dev (objects fs x);
     l \<leftarrow> (if o_type (objects fs x) = UFFS_TYPE_FILE then obj_len x fs else Some 0);
     on_dev d (check_buf_ref (objects fs x) l) fs
   }"

text \<open>Whether another object of the pool has the same node.\<close>

partial_function (option) other_open :: "nat \<Rightarrow> nat option \<Rightarrow> 'f fs \<Rightarrow> bool option" where
  "other_open x work fs = do {
     work \<leftarrow> uffs_PoolFindNextAllocated (object_pool fs) work;
     (case work of None \<Rightarrow> Some False
      | Some w \<Rightarrow>
          if w \<noteq> x \<and> o_dev (objects fs w) \<noteq> None \<and> o_dev (objects fs w) = o_dev (objects fs x) \<and>
             o_node (objects fs w) \<noteq> None \<and> o_node (objects fs w) = o_node (objects fs x)
          then Some True else other_open x work fs)
   }"

definition dir_not_empty :: "u16 \<Rightarrow> 'f device \<Rightarrow> bool option" where
  "dir_not_empty serial dev = do {
     n \<leftarrow> uffs_TreeFindDirNodeWithParent serial dev;
     (if n \<noteq> None then Some True else map_option (\<lambda>n. n \<noteq> None) (uffs_TreeFindFileNodeWithParent serial dev))
   }"

text \<open>The node of the object leaves the tree, its block is erased, and the node is suspended so
  that its serial is not used again.\<close>

definition erase_object_node :: "u8 \<Rightarrow> nat \<Rightarrow> u16 \<Rightarrow> u16 \<Rightarrow> 'f device \<Rightarrow> (unit \<times> 'f device) option" where
  "erase_object_node ty node block serial dev = do {
     dev \<leftarrow> uffs_BreakFromEntry ty node dev;
     (_, dev) \<leftarrow> uffs_TreeEraseNode node (upd_u node (set_l_block block) dev);
     let dev = upd_u node (\<lambda>u. UList (l_next u) (l_prev u) (l_block u) serial) dev;
     Some ((), uffs_TreeSuspendAdd node dev)
   }"

partial_function (option) erase_data_nodes :: "u16 \<Rightarrow> u16 \<Rightarrow> u16 \<Rightarrow> 'f device \<Rightarrow> (unit \<times> 'f device) option" where
  "erase_data_nodes parent serial last_serial dev =
     (if serial \<le> last_serial
      then do {
        node \<leftarrow> uffs_TreeFindDataNode parent serial dev;
        dev \<leftarrow>
          (case node of None \<Rightarrow> Some dev
           | Some n \<Rightarrow> do {
               dev \<leftarrow> uffs_BreakFromEntry UFFS_TYPE_DATA n dev;
               (_, dev) \<leftarrow> uffs_TreeEraseNode n (upd_u n (set_l_block (da_block (nu dev n))) dev);
               Some (uffs_TreeInsertToErasedListTail n dev)
             });
        erase_data_nodes parent (serial + 1) last_serial dev
      }
      else Some ((), dev))"

definition delete_blocks :: "nat \<Rightarrow> 'f fs \<Rightarrow> 'f fs option" where
  "delete_blocks x fs = do {
     let ob = objects fs x;
     d \<leftarrow> o_dev ob;
     node \<leftarrow> o_node ob;
     block \<leftarrow> GET_BLOCK_FROM_NODE x fs;
     l \<leftarrow> (if o_type ob = UFFS_TYPE_FILE then obj_len x fs else Some 0);
     last_serial \<leftarrow> (if l > 0 then GetFdnByOfs (o_head_pages ob) (devs fs d) (l - 1) else Some 0);
     (_, fs) \<leftarrow> on_dev d (erase_object_node (o_type ob) node block (o_serial ob)) fs;
     (_, fs) \<leftarrow> (if o_type ob = UFFS_TYPE_FILE \<and> last_serial > 0
               then on_dev d (erase_data_nodes (o_serial ob) 1 last_serial) fs else Some ((), fs));
     Some (do_dev d (\<lambda>dev. uffs_TreeInsertToErasedListTail node (uffs_TreeRemoveSuspendNode node dev)) fs)
   }"

text \<open>The result and the error code.\<close>

definition delete_opened :: "nat \<Rightarrow> 'f fs \<Rightarrow> (URET \<times> int \<times> 'f fs) option" where
  "delete_opened x fs = do {
     d \<leftarrow> o_dev (objects fs x);
     busy \<leftarrow> other_open x None fs;
     busy \<leftarrow> (if busy then Some True
             else if o_type (objects fs x) = UFFS_TYPE_DIR then dir_not_empty (o_serial (objects fs x)) (devs fs d)
             else Some False);
     (if busy then Some (U_FAIL, UEACCES, fs)
      else do {
        (_, fs) \<leftarrow> on_dev d uffs_BufFlushAll fs;
        (held, fs) \<leftarrow> CheckObjBufRef x fs;
        (if held > 0 then Some (U_FAIL, UEACCES, fs)
         else do {
           fs \<leftarrow> delete_blocks x fs;
           Some (U_SUCC, UENOERR, fs)
         })
      })
   }"

definition uffs_DeleteObject :: "bytes \<Rightarrow> 'f fs \<Rightarrow> (URET \<times> int \<times> 'f fs) option" where
  "uffs_DeleteObject name fs =
     (case uffs_GetObject fs of (None, fs) \<Rightarrow> Some (U_FAIL, UEMFILE, fs)
      | (Some x, fs) \<Rightarrow> do {
          (r, fs) \<leftarrow> uffs_OpenObject (Some x) name (UO_RDWR OR UO_DIR) fs;
          (r, fs) \<leftarrow> (if r = U_FAIL then uffs_OpenObject (Some x) name UO_RDWR fs else Some (r, fs));
          (ret, err, fs) \<leftarrow> (if r = U_FAIL then Some (U_FAIL, UENOENT, fs) else delete_opened x fs);
          fs \<leftarrow> do_ReleaseObjectResource (Some x) fs;
          Some (ret, err, uffs_PutObject (Some x) fs)
        })"

section \<open>Moving and renaming\<close>

text \<open>The file information on the stack: the name is copied without a check of its length.\<close>

definition rename_info :: "u32 \<Rightarrow> bytes \<Rightarrow> bytes option \<Rightarrow> int \<Rightarrow> bytes option" where
  "rename_info now fi name n = do {
     s \<leftarrow> name_bytes name (nat n);
     (if n < int MAX_FILENAME_LENGTH \<and> length fi = SIZEOF_FILEINFO
      then Some (memcpy (memcpy (memcpy fi 8 (le_bytes now)) 20 (le_bytes (word_of_int n))) 24 (s @ [0])) else None)
   }"

definition move_name :: "nat \<Rightarrow> u16 \<Rightarrow> bytes option \<Rightarrow> int \<Rightarrow> 'f fs \<Rightarrow> (bool \<times> 'f fs) option" where
  "move_name x new_parent new_name name_len fs = do {
     let ob = objects fs x;
     d \<leftarrow> o_dev ob;
     node \<leftarrow> o_node ob;
     (buf, fs) \<leftarrow> on_dev d (uffs_BufGetEx (o_type ob) node 0 (o_oflag ob)) fs;
     (case buf of None \<Rightarrow> Some (False, set_err x UEIOERR fs)
      | Some b \<Rightarrow> do {
          c \<leftarrow> name_at new_name (nat name_len - 1);
          let n = (if c = SLASH then name_len - 1 else name_len);
          fi \<leftarrow> rename_info (clock fs) (take SIZEOF_FILEINFO (buf_data (devs fs d) b)) new_name n;
          let fs = do_dev d (upd_buf b (\<lambda>z. z\<lparr>b_parent := new_parent\<rparr>)) fs;
          (_, fs) \<leftarrow> on_dev d (uffs_BufWrite b (Some fi) 0 (word_of_nat SIZEOF_FILEINFO)) fs;
          (_, fs) \<leftarrow> on_dev d (ret_dev (uffs_BufPut (Some b))) fs;
          (_, fs) \<leftarrow> on_dev d (uffs_BufFlushGroupEx new_parent (o_serial ob) True) fs;
          s \<leftarrow> fi_name fi;
          Some (True, upd_obj x (\<lambda>z. z\<lparr>o_name := new_name, o_name_len := word_of_int n, o_sum := uffs_MakeSum16 s\<rparr>) fs)
        })
   }"

definition move_node :: "u8 \<Rightarrow> u16 \<Rightarrow> u16 \<Rightarrow> NodeU \<Rightarrow> NodeU" where
  "move_node ty csum parent u =
     (if ty = UFFS_TYPE_DIR then UDir (d_block u) csum parent (d_serial u)
      else UFile (f_block u) csum parent (f_serial u) (f_len u))"

definition uffs_MoveObjectEx :: "nat \<Rightarrow> u16 \<Rightarrow> bytes option \<Rightarrow> int \<Rightarrow> 'f fs \<Rightarrow> (URET \<times> 'f fs) option" where
  "uffs_MoveObjectEx x new_parent new_name name_len fs =
     (if o_dev (objects fs x) = None \<or> o_node (objects fs x) = None \<or> \<not> o_open_succ (objects fs x)
      then Some (obj_ret x (set_err x UEBADF fs))
      else do {
        d \<leftarrow> o_dev (objects fs x);
        node \<leftarrow> o_node (objects fs x);
        let fs = upd_obj x (\<lambda>z. z\<lparr>o_parent := new_parent\<rparr>) fs;
        (ok, fs) \<leftarrow> (if name_len > 0 then move_name x new_parent new_name name_len fs else Some (True, fs));
        let ob = objects fs x;
        Some (obj_ret x (if ok then do_dev d (upd_u node (move_node (o_type ob) (o_sum ob) new_parent)) fs else fs))
      })"

text \<open>Whether an object with the name can be opened; it is closed again.\<close>

definition exists_as :: "nat \<Rightarrow> bytes \<Rightarrow> u32 \<Rightarrow> 'f fs \<Rightarrow> (bool \<times> 'f fs) option" where
  "exists_as x name oflag fs = do {
     (r, fs) \<leftarrow> uffs_OpenObject (Some x) name oflag fs;
     (if r = U_SUCC
      then do {
        (_, fs) \<leftarrow> uffs_CloseObject x fs;
        Some (True, fs)
      }
      else Some (False, fs))
   }"

definition rename_to :: "nat \<Rightarrow> nat \<Rightarrow> bytes \<Rightarrow> 'f fs \<Rightarrow> (URET \<times> int \<times> 'f fs) option" where
  "rename_to x y old_name fs = do {
     (r, fs) \<leftarrow> uffs_OpenObject (Some x) old_name UO_RDONLY fs;
     (r, fs) \<leftarrow> (if r \<noteq> U_SUCC then uffs_OpenObject (Some x) old_name (UO_RDONLY OR UO_DIR) fs else Some (r, fs));
     (if r \<noteq> U_SUCC then Some (U_FAIL, UEACCES, fs)
      else do {
        (ret, err, fs) \<leftarrow>
          (if o_dev (objects fs x) \<noteq> o_dev (objects fs y) then Some (U_FAIL, UEACCES, fs)
           else do {
             let nw = objects fs y;
             (ret, fs) \<leftarrow> uffs_MoveObjectEx x (o_parent nw) (o_name nw) (sint (o_name_len nw)) fs;
             Some (ret, if ret = U_FAIL then o_err (objects fs x) else UENOERR, fs)
           });
        (_, fs) \<leftarrow> uffs_CloseObject x fs;
        Some (ret, err, fs)
      })
   }"

definition rename_checked :: "nat \<Rightarrow> nat \<Rightarrow> bytes \<Rightarrow> bytes \<Rightarrow> 'f fs \<Rightarrow> (URET \<times> int \<times> 'f fs) option" where
  "rename_checked x y old_name new_name fs = do {
     (e, fs) \<leftarrow> exists_as y new_name UO_RDONLY fs;
     (e, fs) \<leftarrow> (if e then Some (True, fs) else exists_as y new_name (UO_RDONLY OR UO_DIR) fs);
     (if e then Some (U_FAIL, UEEXIST, fs)
      else do {
        (r, fs) \<leftarrow> uffs_ParseObject (Some y) new_name fs;
        (if r \<noteq> U_SUCC then Some (U_FAIL, UENOENT, fs)
         else if o_name_len (objects fs y) = 0 then Some (U_FAIL, UEINVAL, fs)
         else rename_to x y old_name fs)
      })
   }"

definition uffs_RenameObject :: "bytes \<Rightarrow> bytes \<Rightarrow> 'f fs \<Rightarrow> (URET \<times> int \<times> 'f fs) option" where
  "uffs_RenameObject old_name new_name fs = do {
     let (obj, fs) = uffs_GetObject fs;
     let (new_obj, fs) = uffs_GetObject fs;
     (ret, err, fs) \<leftarrow>
       (case (obj, new_obj) of (Some x, Some y) \<Rightarrow> rename_checked x y old_name new_name fs
        | _ \<Rightarrow> Some (U_FAIL, UEINVAL, fs));
     fs \<leftarrow> do_ReleaseObjectResource new_obj (uffs_PutObject obj fs);
     Some (ret, err, uffs_PutObject new_obj fs)
   }"

end
