(* ===== verification/Find_Object.thy ===== *)
theory Find_Object
  imports Fs_Files
begin

text \<open>
  Object information and the search through a directory (\<open>uffs_find.c\<close>). A search is a
  \<open>FindInfo\<close>: the table it works on, the entry in it, and the node it found last; the objects are
  found in the order of the hash tables, directories first.

  The lemmas show that one step of the search finds the next node of the tables with the parent,
  and that the search is an iterator over the children of the directory, with and without the
  information of the found objects.
\<close>

section \<open>Object information\<close>

definition LoadObjectInfo :: "nat \<Rightarrow> u8 \<Rightarrow> ObjectInfo \<Rightarrow> 'f device \<Rightarrow> ((URET \<times> ObjectInfo) \<times> 'f device) option" where
  "LoadObjectInfo node ty info dev = do {
     (buf, dev) \<leftarrow> uffs_BufGetEx ty node 0 0 dev;
     (case buf of None \<Rightarrow> Some ((U_FAIL, info), dev)
      | Some b \<Rightarrow>
          let u = nu dev node;
              info = info\<lparr>oi_info := take SIZEOF_FILEINFO (buf_data dev b)\<rparr>;
              info = (if ty = UFFS_TYPE_DIR then info\<lparr>oi_len := 0, oi_serial := d_serial u\<rparr>
                      else info\<lparr>oi_len := f_len u, oi_serial := f_serial u\<rparr>)
          in Some ((U_SUCC, info), snd (uffs_BufPut (Some b) dev)))
   }"

text \<open>The root has no page on the flash.\<close>

definition root_info :: "u16 \<Rightarrow> ObjectInfo" where
  "root_info serial = \<lparr>oi_info = file_info (FILE_ATTR_DIR OR FILE_ATTR_WRITE) 0 0 0 (replicate MAX_FILENAME_LENGTH 0),
     oi_len = 0, oi_serial = serial\<rparr>"

definition uffs_GetObjectInfo :: "nat \<Rightarrow> ObjectInfo \<Rightarrow> 'f fs \<Rightarrow> (URET \<times> int \<times> ObjectInfo \<times> 'f fs) option" where
  "uffs_GetObjectInfo x info fs =
     (case o_dev (objects fs x) of None \<Rightarrow> Some (U_FAIL, UEINVAL, info, fs)
      | Some d \<Rightarrow>
          if o_parent (objects fs x) = PARENT_OF_ROOT
          then Some (U_SUCC, UENOERR, root_info (o_serial (objects fs x)), fs)
          else do {
            node \<leftarrow> o_node (objects fs x);
            ((r, info), fs) \<leftarrow> on_dev d (LoadObjectInfo node (o_type (objects fs x)) info) fs;
            Some (r, if r = U_FAIL then UENOMEM else UENOERR, info, fs)
          })"

section \<open>Searching\<close>

definition ResetFindInfo :: "FindInfo \<Rightarrow> FindInfo" where
  "ResetFindInfo f = f\<lparr>ff_hash := 0, ff_work := None, ff_step := 0, ff_pos := 0\<rparr>"

definition uffs_FindObjectOpen :: "FindInfo \<Rightarrow> nat \<Rightarrow> 'f fs \<Rightarrow> URET \<times> FindInfo" where
  "uffs_FindObjectOpen f dir fs =
     (if o_dev (objects fs dir) = None \<or> \<not> o_open_succ (objects fs dir) then (U_FAIL, f)
      else (U_SUCC, ResetFindInfo (f\<lparr>ff_dev := o_dev (objects fs dir), ff_serial := o_serial (objects fs dir)\<rparr>)))"

definition uffs_FindObjectOpenEx :: "FindInfo \<Rightarrow> nat option \<Rightarrow> int \<Rightarrow> 'f fs \<Rightarrow> (URET \<times> FindInfo) option" where
  "uffs_FindObjectOpenEx f dev dir fs =
     (case dev of None \<Rightarrow> Some (U_FAIL, f)
      | Some d \<Rightarrow> do {
          node \<leftarrow> uffs_TreeFindDirNode (word_of_int dir) (devs fs d);
          Some (if node = None then (U_FAIL, f)
                else (U_SUCC, ResetFindInfo (f\<lparr>ff_serial := word_of_int dir, ff_dev := dev\<rparr>)))
        })"

text \<open>The rest of a table from the node index \<open>x\<close> and the entry \<open>hash\<close> on: the node and its
  entry.\<close>

fun find_entries :: "'f device \<Rightarrow> (NodeU \<Rightarrow> bool) \<Rightarrow> u16 list \<Rightarrow> nat list \<Rightarrow> (nat \<times> nat) option option" where
  "find_entries dev P es [] = Some None"
| "find_entries dev P es (i # ks) = do {
     n \<leftarrow> hash_find dev P (es ! i);
     (case n of Some node \<Rightarrow> Some (Some (node, i)) | None \<Rightarrow> find_entries dev P es ks)
   }"

definition find_rest :: "'f device \<Rightarrow> (NodeU \<Rightarrow> bool) \<Rightarrow> u16 list \<Rightarrow> nat \<Rightarrow> u16 \<Rightarrow> nat \<Rightarrow> (nat \<times> nat) option option" where
  "find_rest dev P es len x hash = do {
     n \<leftarrow> hash_find dev P x;
     (case n of Some node \<Rightarrow> Some (Some (node, hash)) | None \<Rightarrow> find_entries dev P es [hash + 1..<len])
   }"

definition found :: "nat \<times> nat \<Rightarrow> FindInfo \<Rightarrow> FindInfo" where
  "found p f = f\<lparr>ff_work := Some (fst p), ff_hash := int (snd p), ff_pos := ff_pos f + 1\<rparr>"

text \<open>The files, from the node index \<open>x\<close> on; then the search is over.\<close>

definition find_files :: "FindInfo \<Rightarrow> u16 \<Rightarrow> 'f device \<Rightarrow> ((nat \<times> u8) option \<times> FindInfo) option" where
  "find_files f x dev = do {
     r \<leftarrow> find_rest dev (\<lambda>u. f_parent u = ff_serial f) (file_entry (tree dev)) FILE_NODE_ENTRY_LEN x (nat (ff_hash f));
     Some (case r of Some p \<Rightarrow> (Some (fst p, UFFS_TYPE_FILE), found p f)
           | None \<Rightarrow> (None, f\<lparr>ff_hash := max (ff_hash f + 1) (int FILE_NODE_ENTRY_LEN), ff_step := ff_step f + 1\<rparr>))
   }"

text \<open>The node that is found next, with its type.\<close>

definition find_next :: "FindInfo \<Rightarrow> u16 \<Rightarrow> 'f device \<Rightarrow> ((nat \<times> u8) option \<times> FindInfo) option" where
  "find_next f x dev =
     (if ff_step f = 0
      then do {
        r \<leftarrow> find_rest dev (\<lambda>u. d_parent u = ff_serial f) (dir_entry (tree dev)) DIR_NODE_ENTRY_LEN x (nat (ff_hash f));
        (case r of Some p \<Rightarrow> Some (Some (fst p, UFFS_TYPE_DIR), found p f)
         | None \<Rightarrow> find_files (f\<lparr>ff_step := 1, ff_hash := 0\<rparr>) (file_entry (tree dev) ! 0) dev)
      }
      else if ff_step f = 1 then find_files f x dev
      else Some (None, f))"

text \<open>\<open>want\<close> tells that the information is wanted, i.e. \<open>info\<close> is not null.\<close>

definition do_FindObject :: "FindInfo \<Rightarrow> bool \<Rightarrow> ObjectInfo \<Rightarrow> u16 \<Rightarrow> 'f device \<Rightarrow> ((URET \<times> ObjectInfo \<times> FindInfo) \<times> 'f device) option" where
  "do_FindObject f want info x dev = do {
     (n, f) \<leftarrow> find_next f x dev;
     (case n of None \<Rightarrow> Some ((U_FAIL, info, f), dev)
      | Some (node, ty) \<Rightarrow>
          if want
          then do {
            ((r, info), dev) \<leftarrow> LoadObjectInfo node ty info dev;
            Some ((r, info, f), dev)
          }
          else Some ((U_SUCC, info, f), dev))
   }"

definition uffs_FindObjectFirst :: "bool \<Rightarrow> ObjectInfo \<Rightarrow> FindInfo \<Rightarrow> 'f fs \<Rightarrow> ((URET \<times> ObjectInfo \<times> FindInfo) \<times> 'f fs) option" where
  "uffs_FindObjectFirst want info f fs = do {
     d \<leftarrow> ff_dev f;
     on_dev d (\<lambda>dev. do_FindObject (ResetFindInfo f) want info (dir_entry (tree dev) ! 0) dev) fs
   }"

definition uffs_FindObjectNext :: "bool \<Rightarrow> ObjectInfo \<Rightarrow> FindInfo \<Rightarrow> 'f fs \<Rightarrow> ((URET \<times> ObjectInfo \<times> FindInfo) \<times> 'f fs) option" where
  "uffs_FindObjectNext want info f fs =
     (if ff_dev f = None \<or> ff_step f > 1 then Some ((U_FAIL, info, f), fs)
      else case ff_work f of None \<Rightarrow> uffs_FindObjectFirst want info f fs
           | Some w \<Rightarrow> do {
               d \<leftarrow> ff_dev f;
               on_dev d (\<lambda>dev. do_FindObject f want info (hash_next (tree_nodes dev w)) dev) fs
             })"

definition uffs_FindObjectRewind :: "FindInfo \<Rightarrow> URET \<times> FindInfo" where
  "uffs_FindObjectRewind f = (U_SUCC, ResetFindInfo f)"

definition uffs_FindObjectClose :: "FindInfo \<Rightarrow> URET \<times> FindInfo" where
  "uffs_FindObjectClose f = (U_SUCC, ResetFindInfo (f\<lparr>ff_dev := None\<rparr>))"

text \<open>The loop of \<open>uffs_FindObjectCount\<close> after the first object.\<close>

partial_function (option) count_rest :: "ObjectInfo \<Rightarrow> FindInfo \<Rightarrow> 'f fs \<Rightarrow> (FindInfo \<times> 'f fs) option" where
  "count_rest info f fs = do {
     ((r, i, f), fs) \<leftarrow> uffs_FindObjectNext False info f fs;
     (if r = U_SUCC then count_rest info f fs else Some (f, fs))
   }"

definition uffs_FindObjectCount :: "ObjectInfo \<Rightarrow> FindInfo \<Rightarrow> 'f fs \<Rightarrow> (int \<times> FindInfo \<times> 'f fs) option" where
  "uffs_FindObjectCount info f fs = do {
     ((r, i, f), fs) \<leftarrow> uffs_FindObjectFirst False info f fs;
     (f, fs) \<leftarrow> (if r = U_SUCC then count_rest info f fs else Some (f, fs));
     Some (ff_pos f, f, fs)
   }"

definition uffs_FindObjectTell :: "FindInfo \<Rightarrow> int" where
  "uffs_FindObjectTell f = ff_pos f"

section \<open>The rest of a search\<close>

text \<open>The rest \<open>ns\<close> of a hash chain from the index \<open>x\<close> on.\<close>

definition chain_rest :: "'f device \<Rightarrow> u16 \<Rightarrow> nat list \<Rightarrow> bool" where
  "chain_rest dev x ns \<longleftrightarrow> idx_ok dev x \<and> chain (hn dev) (dec dev x) ns \<and> (\<forall>a \<in> set ns. idx_ok dev (hash_next (tree_nodes dev a)))"

lemma bucket_rest: "bucket dev x ns \<Longrightarrow> chain_rest dev x ns"
  by (auto simp: bucket_def chain_rest_def dll_def)

lemma rest_find:
  assumes ok: "nodes_ok dev" and r: "chain_rest dev x ns"
  shows "(hash_find dev P x = Some None \<and> filter (\<lambda>a. P (nu dev a)) ns = []) \<or>
    (\<exists>a ns'. hash_find dev P x = Some (Some a) \<and> chain_rest dev (hash_next (tree_nodes dev a)) ns' \<and>
       filter (\<lambda>a. P (nu dev a)) ns = a # filter (\<lambda>a. P (nu dev a)) ns')"
proof -
  let ?P = "\<lambda>a. P (nu dev a)"
  have h: "hash_find dev P x = Some (List.find ?P ns)"
    using r by (intro hash_find_eq[OF ok]) (auto simp: chain_rest_def)
  have "(List.find ?P ns = None \<and> filter ?P ns = []) \<or>
    (\<exists>a ns'. List.find ?P ns = Some a \<and> chain_rest dev (hash_next (tree_nodes dev a)) ns' \<and> filter ?P ns = a # filter ?P ns')"
    using r
  proof (induction ns arbitrary: x)
    case (Cons b ns)
    then have t: "chain_rest dev (hash_next (tree_nodes dev b)) ns" by (simp add: chain_rest_def hn_def)
    from Cons.IH[OF this] t show ?case by auto
  qed simp
  then show ?thesis by (auto simp: h)
qed

definition hits :: "'f device \<Rightarrow> (NodeU \<Rightarrow> bool) \<Rightarrow> (nat \<Rightarrow> nat list) \<Rightarrow> nat list \<Rightarrow> nat list" where
  "hits dev P B hs = concat (map (\<lambda>h. filter (\<lambda>a. P (nu dev a)) (B h)) hs)"

lemma hits_simps [simp]:
  "hits dev P B [] = []" "hits dev P B (h # hs) = filter (\<lambda>a. P (nu dev a)) (B h) @ hits dev P B hs"
  by (simp_all add: hits_def)

lemma find_entries_ok:
  assumes ok: "nodes_ok dev" and b: "\<And>h. h \<in> set hs \<Longrightarrow> chain_rest dev (es ! h) (B h)"
  shows "(find_entries dev P es hs = Some None \<and> hits dev P B hs = []) \<or>
    (\<exists>a i hs1 hs2 ns. find_entries dev P es hs = Some (Some (a, i)) \<and> hs = hs1 @ i # hs2 \<and>
       chain_rest dev (hash_next (tree_nodes dev a)) ns \<and>
       hits dev P B hs = a # filter (\<lambda>a. P (nu dev a)) ns @ hits dev P B hs2)"
  using b
proof (induction hs)
  case (Cons h hs)
  consider "hash_find dev P (es ! h) = Some None" "filter (\<lambda>a. P (nu dev a)) (B h) = []"
    | a ns where "hash_find dev P (es ! h) = Some (Some a)" "chain_rest dev (hash_next (tree_nodes dev a)) ns"
        "filter (\<lambda>a. P (nu dev a)) (B h) = a # filter (\<lambda>a. P (nu dev a)) ns"
    using rest_find[OF ok Cons.prems[of h], of P] by auto
  then show ?case
  proof cases
    case 1
    then show ?thesis using Cons.IH Cons.prems by simp (metis append_Cons)
  next
    case (2 a ns)
    then show ?thesis by (intro disjI2 exI[of _ a] exI[of _ h] exI[of _ "[]"] exI[of _ hs] exI[of _ ns]) simp
  qed
qed simp

text \<open>A table from the node index \<open>x\<close> and the entry \<open>h\<close> on.\<close>

lemma find_rest_ok:
  fixes P :: "NodeU \<Rightarrow> bool"
  assumes ok: "nodes_ok dev" and b: "\<forall>h < len. chain_rest dev (es ! h) (B h)" and x: "chain_rest dev x ns" and h: "h < len"
  defines "all \<equiv> filter (\<lambda>a. P (nu dev a)) ns @ hits dev P B [h + 1..<len]"
  shows "(find_rest dev P es len x h = Some None \<and> all = []) \<or>
    (\<exists>a i ns'. find_rest dev P es len x h = Some (Some (a, i)) \<and> i < len \<and> chain_rest dev (hash_next (tree_nodes dev a)) ns' \<and>
       all = a # filter (\<lambda>a. P (nu dev a)) ns' @ hits dev P B [i + 1..<len])"
proof -
  let ?P = "\<lambda>a. P (nu dev a)"
  consider "hash_find dev P x = Some None" "filter ?P ns = []"
    | a ns' where "hash_find dev P x = Some (Some a)" "chain_rest dev (hash_next (tree_nodes dev a)) ns'"
        "filter ?P ns = a # filter ?P ns'"
    using rest_find[OF ok x, of P] by auto
  then show ?thesis
  proof cases
    case 1
    have "(find_entries dev P es [h + 1..<len] = Some None \<and> hits dev P B [h + 1..<len] = []) \<or>
      (\<exists>a i hs1 hs2 ns. find_entries dev P es [h + 1..<len] = Some (Some (a, i)) \<and> [h + 1..<len] = hs1 @ i # hs2 \<and>
         chain_rest dev (hash_next (tree_nodes dev a)) ns \<and> hits dev P B [h + 1..<len] = a # filter ?P ns @ hits dev P B hs2)"
      by (rule find_entries_ok[OF ok]) (use b in auto)
    then show ?thesis
    proof (elim disjE exE conjE)
      fix a i hs1 hs2 ns
      assume e: "find_entries dev P es [h + 1..<len] = Some (Some (a, i))" "[h + 1..<len] = hs1 @ i # hs2"
        "chain_rest dev (hash_next (tree_nodes dev a)) ns" "hits dev P B [h + 1..<len] = a # filter ?P ns @ hits dev P B hs2"
      have "i < len" using e(2) by (metis atLeastLessThan_iff in_set_conv_decomp set_upt)
      moreover have "hs2 = [i + 1..<len]" by (rule upt_split[OF e(2)])
      ultimately show ?thesis using 1 e by (auto simp: find_rest_def all_def)
    qed (use 1 in \<open>simp add: find_rest_def all_def\<close>)
  qed (use h in \<open>auto simp: find_rest_def all_def\<close>)
qed

text \<open>The tables with the chains \<open>Bd\<close> of directories and \<open>Bf\<close> of files, and the children that are
  still to be found: from the node index \<open>x\<close> on in the table the search is in, then in the rest.\<close>

definition tables_are :: "'f device \<Rightarrow> (nat \<Rightarrow> nat list) \<Rightarrow> (nat \<Rightarrow> nat list) \<Rightarrow> bool" where
  "tables_are dev Bd Bf \<longleftrightarrow> nodes_ok dev \<and>
     (\<forall>h < DIR_NODE_ENTRY_LEN. chain_rest dev (dir_entry (tree dev) ! h) (Bd h)) \<and>
     (\<forall>h < FILE_NODE_ENTRY_LEN. chain_rest dev (file_entry (tree dev) ! h) (Bf h))"

abbreviation dirs_of :: "'f device \<Rightarrow> u16 \<Rightarrow> nat list \<Rightarrow> nat list" where
  "dirs_of dev s \<equiv> filter (\<lambda>a. d_parent (nu dev a) = s)"

abbreviation files_of :: "'f device \<Rightarrow> u16 \<Rightarrow> nat list \<Rightarrow> nat list" where
  "files_of dev s \<equiv> filter (\<lambda>a. f_parent (nu dev a) = s)"

text \<open>The found nodes with their types.\<close>

abbreviation as_dirs :: "nat list \<Rightarrow> (nat \<times> u8) list" where
  "as_dirs \<equiv> map (\<lambda>a. (a, UFFS_TYPE_DIR))"

abbreviation as_files :: "nat list \<Rightarrow> (nat \<times> u8) list" where
  "as_files \<equiv> map (\<lambda>a. (a, UFFS_TYPE_FILE))"

definition searching :: "'f device \<Rightarrow> (nat \<Rightarrow> nat list) \<Rightarrow> (nat \<Rightarrow> nat list) \<Rightarrow> FindInfo \<Rightarrow> u16 \<Rightarrow> (nat \<times> u8) list \<Rightarrow> bool" where
  "searching dev Bd Bf f x rs \<longleftrightarrow>
     (\<exists>h ns. ff_hash f = int h \<and> chain_rest dev x ns \<and>
       (ff_step f = 0 \<and> h < DIR_NODE_ENTRY_LEN \<and>
          rs = as_dirs (dirs_of dev (ff_serial f) ns @ hits dev (\<lambda>u. d_parent u = ff_serial f) Bd [h + 1..<DIR_NODE_ENTRY_LEN]) @
               as_files (hits dev (\<lambda>u. f_parent u = ff_serial f) Bf [0..<FILE_NODE_ENTRY_LEN]) \<or>
        ff_step f = 1 \<and> h < FILE_NODE_ENTRY_LEN \<and>
          rs = as_files (files_of dev (ff_serial f) ns @ hits dev (\<lambda>u. f_parent u = ff_serial f) Bf [h + 1..<FILE_NODE_ENTRY_LEN])))"

definition stepped :: "'f device \<Rightarrow> (nat \<Rightarrow> nat list) \<Rightarrow> (nat \<Rightarrow> nat list) \<Rightarrow> FindInfo \<Rightarrow> (nat \<times> u8) list \<Rightarrow> (nat \<times> u8) option \<Rightarrow> FindInfo \<Rightarrow> bool" where
  "stepped dev Bd Bf f rs n f' \<longleftrightarrow> ff_dev f' = ff_dev f \<and> ff_serial f' = ff_serial f \<and>
     (case rs of [] \<Rightarrow> n = None \<and> ff_step f' = 2 \<and> ff_pos f' = ff_pos f
      | p # as \<Rightarrow> n = Some p \<and> ff_work f' = Some (fst p) \<and> ff_pos f' = ff_pos f + 1 \<and>
          searching dev Bd Bf f' (hash_next (tree_nodes dev (fst p))) as)"

lemma find_files_ok:
  assumes t: "tables_are dev Bd Bf" and f: "ff_step f = 1" "ff_hash f = int h" "h < FILE_NODE_ENTRY_LEN" and x: "chain_rest dev x ns"
  defines "rs \<equiv> files_of dev (ff_serial f) ns @ hits dev (\<lambda>u. f_parent u = ff_serial f) Bf [h + 1..<FILE_NODE_ENTRY_LEN]"
  shows "\<exists>n f'. find_files f x dev = Some (n, f') \<and> stepped dev Bd Bf f (as_files rs) n f'"
proof -
  let ?r = "find_rest dev (\<lambda>u. f_parent u = ff_serial f) (file_entry (tree dev)) FILE_NODE_ENTRY_LEN x h"
  have "nodes_ok dev" "\<forall>h < FILE_NODE_ENTRY_LEN. chain_rest dev (file_entry (tree dev) ! h) (Bf h)"
    using t by (auto simp: tables_are_def)
  from find_rest_ok[OF this x f(3), of "\<lambda>u. f_parent u = ff_serial f", folded rs_def]
  show ?thesis
  proof (elim disjE exE conjE)
    fix a i ns'
    assume r: "?r = Some (Some (a, i))" "i < FILE_NODE_ENTRY_LEN" "chain_rest dev (hash_next (tree_nodes dev a)) ns'"
      "rs = a # files_of dev (ff_serial f) ns' @ hits dev (\<lambda>u. f_parent u = ff_serial f) Bf [i + 1..<FILE_NODE_ENTRY_LEN]"
    then show ?thesis using f(1,2) by (auto simp: find_files_def stepped_def searching_def found_def)
  qed (auto simp: find_files_def stepped_def f)
qed

lemma find_next_ok:
  assumes t: "tables_are dev Bd Bf" and s: "searching dev Bd Bf f x rs"
  shows "\<exists>n f'. find_next f x dev = Some (n, f') \<and> stepped dev Bd Bf f rs n f'"
proof -
  obtain h ns where f: "ff_hash f = int h" "chain_rest dev x ns"
    and c: "ff_step f = 0 \<and> h < DIR_NODE_ENTRY_LEN \<and>
        rs = as_dirs (dirs_of dev (ff_serial f) ns @ hits dev (\<lambda>u. d_parent u = ff_serial f) Bd [h + 1..<DIR_NODE_ENTRY_LEN]) @
             as_files (hits dev (\<lambda>u. f_parent u = ff_serial f) Bf [0..<FILE_NODE_ENTRY_LEN]) \<or>
      ff_step f = 1 \<and> h < FILE_NODE_ENTRY_LEN \<and>
        rs = as_files (files_of dev (ff_serial f) ns @ hits dev (\<lambda>u. f_parent u = ff_serial f) Bf [h + 1..<FILE_NODE_ENTRY_LEN])"
    using s unfolding searching_def by blast
  from c show ?thesis
  proof (elim disjE conjE)
    assume c: "ff_step f = 0" "h < DIR_NODE_ENTRY_LEN"
      "rs = as_dirs (dirs_of dev (ff_serial f) ns @ hits dev (\<lambda>u. d_parent u = ff_serial f) Bd [h + 1..<DIR_NODE_ENTRY_LEN]) @
             as_files (hits dev (\<lambda>u. f_parent u = ff_serial f) Bf [0..<FILE_NODE_ENTRY_LEN])"
    let ?P = "\<lambda>u. d_parent u = ff_serial f"
    have "nodes_ok dev" "\<forall>h < DIR_NODE_ENTRY_LEN. chain_rest dev (dir_entry (tree dev) ! h) (Bd h)"
      using t by (auto simp: tables_are_def)
    from find_rest_ok[OF this f(2) c(2), of ?P] show ?thesis
    proof (elim disjE exE conjE)
      assume r: "find_rest dev ?P (dir_entry (tree dev)) DIR_NODE_ENTRY_LEN x h = Some None"
        "dirs_of dev (ff_serial f) ns @ hits dev ?P Bd [h + 1..<DIR_NODE_ENTRY_LEN] = []"
      let ?f = "f\<lparr>ff_step := 1, ff_hash := 0\<rparr>"
      have "chain_rest dev (file_entry (tree dev) ! 0) (Bf 0)" "0 < FILE_NODE_ENTRY_LEN"
        using t by (auto simp: tables_are_def FILE_NODE_ENTRY_LEN_def)
      from find_files_ok[OF t _ _ this(2,1), of ?f] obtain n f' where
        n: "find_files ?f (file_entry (tree dev) ! 0) dev = Some (n, f')" "stepped dev Bd Bf ?f rs n f'"
        using c(3) r(2) upt_conv_Cons[OF \<open>0 < FILE_NODE_ENTRY_LEN\<close>] by auto
      have "stepped dev Bd Bf f rs n f'" using n(2) by (cases rs) (simp_all add: stepped_def)
      then show ?thesis using n(1) r(1) c(1) f(1) by (simp add: find_next_def)
    next
      fix a i ns'
      assume r: "find_rest dev ?P (dir_entry (tree dev)) DIR_NODE_ENTRY_LEN x h = Some (Some (a, i))" "i < DIR_NODE_ENTRY_LEN"
        "chain_rest dev (hash_next (tree_nodes dev a)) ns'"
        "dirs_of dev (ff_serial f) ns @ hits dev ?P Bd [h + 1..<DIR_NODE_ENTRY_LEN] =
           a # dirs_of dev (ff_serial f) ns' @ hits dev ?P Bd [i + 1..<DIR_NODE_ENTRY_LEN]"
      have "rs = (a, UFFS_TYPE_DIR) # as_dirs (dirs_of dev (ff_serial f) ns' @ hits dev ?P Bd [i + 1..<DIR_NODE_ENTRY_LEN]) @
          as_files (hits dev (\<lambda>u. f_parent u = ff_serial f) Bf [0..<FILE_NODE_ENTRY_LEN])"
        unfolding c(3) r(4) by simp
      then show ?thesis using c(1) f(1) r(1-3) by (auto simp: find_next_def stepped_def searching_def found_def)
    qed
  next
    assume c: "ff_step f = 1" "h < FILE_NODE_ENTRY_LEN"
      "rs = as_files (files_of dev (ff_serial f) ns @ hits dev (\<lambda>u. f_parent u = ff_serial f) Bf [h + 1..<FILE_NODE_ENTRY_LEN])"
    show ?thesis using find_files_ok[OF t c(1) f(1) c(2) f(2)] c by (simp add: find_next_def)
  qed
qed

section \<open>The search on a partition\<close>

text \<open>The information that is loaded from the page in the buffers.\<close>

definition info_of :: "'f device \<Rightarrow> nat \<times> u8 \<Rightarrow> ObjectInfo" where
  "info_of dev p =
     (let u = nu dev (fst p)
      in \<lparr>oi_info = take SIZEOF_FILEINFO (buf_data dev (the (cached_page (snd p) (fst p) 0 dev))),
          oi_len = (if snd p = UFFS_TYPE_DIR then 0 else f_len u),
          oi_serial = (if snd p = UFFS_TYPE_DIR then d_serial u else f_serial u)\<rparr>)"

definition infos_cached :: "'f device \<Rightarrow> (nat \<times> u8) list \<Rightarrow> bool" where
  "infos_cached dev ps \<longleftrightarrow> (\<forall>p \<in> set ps. cached_page (snd p) (fst p) 0 dev \<noteq> None)"

lemma LoadObjectInfo_cached:
  assumes "infos_cached dev (p # ps)"
  shows "LoadObjectInfo (fst p) (snd p) info dev = Some ((U_SUCC, info_of dev p), dev)"
proof -
  obtain b where b: "cached_page (snd p) (fst p) 0 dev = Some b" using assms by (auto simp: infos_cached_def)
  show ?thesis
    by (cases info) (simp add: LoadObjectInfo_def BufGetEx_cached[OF b] info_of_def b Let_def)
qed

text \<open>What a call answers for the entry \<open>p\<close>: the node, and the information, which the call leaves
  alone when it is not wanted.\<close>

definition answer :: "bool \<Rightarrow> 'f fs \<Rightarrow> nat \<Rightarrow> ObjectInfo \<Rightarrow> nat \<times> u8 \<Rightarrow> nat \<times> ObjectInfo" where
  "answer want fs d info p = (fst p, if want then info_of (devs fs d) p else info)"

definition find_left :: "bool \<Rightarrow> 'f fs \<Rightarrow> nat \<Rightarrow> int \<Rightarrow> FindInfo \<Rightarrow> (nat \<times> u8) list \<Rightarrow> bool" where
  "find_left want fs d tot f rs \<longleftrightarrow> ff_pos f + int (length rs) = tot \<and> (want \<longrightarrow> infos_cached (devs fs d) rs) \<and>
     ff_dev f = Some d \<and>
     (\<exists>Bd Bf. tables_are (devs fs d) Bd Bf \<and>
        (ff_step f = 2 \<and> rs = [] \<or>
         searching (devs fs d) Bd Bf f (case ff_work f of None \<Rightarrow> dir_entry (tree (devs fs d)) ! 0
            | Some w \<Rightarrow> hash_next (tree_nodes (devs fs d) w)) rs \<and> (ff_work f = None \<longrightarrow> ResetFindInfo f = f)))"

lemma FindObjectNext_ok:
  assumes l: "find_left want fs d tot f rs"
  shows "\<exists>f'. uffs_FindObjectNext want info f fs =
      Some ((if rs = [] then U_FAIL else U_SUCC, if rs = [] then info else snd (answer want fs d info (hd rs)), f'), fs) \<and>
    find_left want fs d tot f' (tl rs) \<and> (if rs = [] then ff_step f' = 2 else ff_work f' = Some (fst (hd rs)))"
proof -
  obtain Bd Bf where d: "ff_pos f + int (length rs) = tot" "ff_dev f = Some d" "tables_are (devs fs d) Bd Bf"
    and w: "want \<longrightarrow> infos_cached (devs fs d) rs"
    and c: "ff_step f = 2 \<and> rs = [] \<or>
      searching (devs fs d) Bd Bf f (case ff_work f of None \<Rightarrow> dir_entry (tree (devs fs d)) ! 0
            | Some w \<Rightarrow> hash_next (tree_nodes (devs fs d) w)) rs \<and> (ff_work f = None \<longrightarrow> ResetFindInfo f = f)"
    using l unfolding find_left_def by (elim conjE exE) (rule that; assumption)
  show ?thesis
  proof (cases "ff_step f = 2")
    case True
    then have "rs = []" using c by (auto simp: searching_def)
    then show ?thesis using True l d by (simp add: uffs_FindObjectNext_def)
  next
    case False
    let ?x = "case ff_work f of None \<Rightarrow> dir_entry (tree (devs fs d)) ! 0 | Some w \<Rightarrow> hash_next (tree_nodes (devs fs d) w)"
    let ?r = "(if rs = [] then U_FAIL else U_SUCC, if rs = [] then info else snd (answer want fs d info (hd rs)))"
    have s: "searching (devs fs d) Bd Bf f ?x rs" "ff_work f = None \<Longrightarrow> ResetFindInfo f = f" using c False by auto
    obtain n f' where n: "find_next f ?x (devs fs d) = Some (n, f')" "stepped (devs fs d) Bd Bf f rs n f'"
      using find_next_ok[OF d(3) s(1)] by blast
    have "uffs_FindObjectNext want info f fs = on_dev d (\<lambda>dev. do_FindObject f want info ?x dev) fs"
      using d(2) s by (auto simp: uffs_FindObjectNext_def uffs_FindObjectFirst_def searching_def on_dev_def split: option.split)
    moreover have "do_FindObject f want info ?x (devs fs d) = Some ((fst ?r, snd ?r, f'), devs fs d)"
    proof (cases rs)
      case Nil
      then show ?thesis using n by (simp add: do_FindObject_def stepped_def)
    next
      case (Cons p as)
      then show ?thesis using n w LoadObjectInfo_cached[of "devs fs d" p as info]
        by (cases p) (simp add: do_FindObject_def stepped_def answer_def)
    qed
    ultimately have "uffs_FindObjectNext want info f fs = Some ((fst ?r, snd ?r, f'), fs)"
      by (simp add: on_dev_def set_dev_same)
    moreover have "find_left want fs d tot f' (tl rs)" "if rs = [] then ff_step f' = 2 else ff_work f' = Some (fst (hd rs))"
      using n(2) d w by (cases rs; auto simp: stepped_def find_left_def infos_cached_def)+
    ultimately show ?thesis by auto
  qed
qed

text \<open>A call of \<open>uffs_FindObjectNext\<close> as the step of an iterator: what is found, the search
  afterwards, the memory of the information and the file system.\<close>

definition next_found :: "bool \<Rightarrow> FindInfo \<times> ObjectInfo \<times> 'f fs \<Rightarrow> ((nat \<times> ObjectInfo) option \<times> (FindInfo \<times> ObjectInfo \<times> 'f fs)) option" where
  "next_found want s =
     (let (f, info, fs) = s
      in map_option (\<lambda>((r, i, f'), fs'). (if r = U_SUCC then Some (the (ff_work f'), i) else None, (f', i, fs')))
           (uffs_FindObjectNext want info f fs))"

text \<open>The rest of a search in the state \<open>s\<close>, as the answers that are left.\<close>

definition answers_left :: "bool \<Rightarrow> 'f fs \<Rightarrow> nat \<Rightarrow> int \<Rightarrow> ObjectInfo \<Rightarrow> FindInfo \<times> ObjectInfo \<times> 'f fs \<Rightarrow> (nat \<times> ObjectInfo) list \<Rightarrow> bool" where
  "answers_left want fs d tot info0 s as \<longleftrightarrow>
     (\<exists>f info rs. s = (f, info, fs) \<and> (want \<or> info = info0) \<and> find_left want fs d tot f rs \<and> as = map (answer want fs d info0) rs)"

interpretation search: iterator "next_found want" "answers_left want fs d tot info0"
proof
  show "\<exists>t. next_found want s = Some (Some a, t) \<and> answers_left want fs d tot info0 t as"
    if l: "answers_left want fs d tot info0 s (a # as)" for s a as
  proof -
    obtain f info p rs where s: "s = (f, info, fs)" "want \<or> info = info0" "find_left want fs d tot f (p # rs)"
      "a = answer want fs d info0 p" "as = map (answer want fs d info0) rs"
      using l by (auto simp: answers_left_def)
    obtain f' where f': "uffs_FindObjectNext want info f fs = Some ((U_SUCC, snd (answer want fs d info p), f'), fs)"
      "find_left want fs d tot f' rs" "ff_work f' = Some (fst p)"
      using FindObjectNext_ok[OF s(3), of info] by auto
    have "(fst p, snd (answer want fs d info p)) = a" "want \<or> snd (answer want fs d info p) = info0"
      using s(2,4) by (auto simp: answer_def)
    then show ?thesis using f' s(1,5)
      by (intro exI[of _ "(f', snd (answer want fs d info p), fs)"]) (auto simp: next_found_def answers_left_def)
  qed
  show "\<exists>t. next_found want s = Some (None, t) \<and> answers_left want fs d tot info0 t [] \<and> next_found want t = Some (None, t)"
    if l: "answers_left want fs d tot info0 s []" for s
  proof -
    obtain f info where s: "s = (f, info, fs)" "find_left want fs d tot f []" "want \<or> info = info0"
      using l by (auto simp: answers_left_def)
    obtain t where t: "uffs_FindObjectNext want info f fs = Some ((U_FAIL, info, t), fs)" "ff_step t = 2"
      "find_left want fs d tot t []"
      using FindObjectNext_ok[OF s(2), of info] by auto
    then have "uffs_FindObjectNext want info t fs = Some ((U_FAIL, info, t), fs)" by (simp add: uffs_FindObjectNext_def)
    then show ?thesis using t(1,3) s(1,3)
      by (intro exI[of _ "(t, info, fs)"]) (simp add: next_found_def answers_left_def)
  qed
qed

lemma count_rest_ok:
  "find_left False fs d tot f rs \<Longrightarrow> \<exists>f'. count_rest info f fs = Some (f', fs) \<and> find_left False fs d tot f' []"
proof (induction rs arbitrary: f)
  case Nil
  then show ?case using FindObjectNext_ok[OF Nil, of info] by (subst count_rest.simps) auto
next
  case (Cons a rs)
  obtain f' where f': "uffs_FindObjectNext False info f fs = Some ((U_SUCC, info, f'), fs)" "find_left False fs d tot f' rs"
    using FindObjectNext_ok[OF Cons.prems, of info] by (auto simp: answer_def)
  then show ?case using Cons.IH[OF f'(2)] by (subst count_rest.simps) simp
qed

lemma FindObjectCount_ok:
  assumes l: "find_left False fs d tot f rs" and r: "ResetFindInfo f = f"
  shows "\<exists>f'. uffs_FindObjectCount info f fs = Some (tot, f', fs) \<and> find_left False fs d tot f' []"
proof -
  have w: "ff_work f = None" "ff_step f = 0" using arg_cong[OF r, of ff_work] arg_cong[OF r, of ff_step] by (simp_all add: ResetFindInfo_def)
  have "ff_dev f = Some d" using l by (auto simp: find_left_def)
  then have n: "uffs_FindObjectFirst False info f fs = uffs_FindObjectNext False info f fs" using w by (auto simp: uffs_FindObjectNext_def)
  have "count_rest info f fs = Some (f', fs) \<Longrightarrow> uffs_FindObjectCount info f fs = Some (ff_pos f', f', fs)" for f'
    using FindObjectNext_ok[OF l, of info]
    by (subst (asm) count_rest.simps) (auto simp: uffs_FindObjectCount_def n answer_def split: if_splits)
  moreover obtain f' where "count_rest info f fs = Some (f', fs)" "find_left False fs d tot f' []"
    using count_rest_ok[OF l, of info] by blast
  moreover from this have "ff_pos f' = tot" by (auto simp: find_left_def)
  ultimately show ?thesis by blast
qed

subsection \<open>The children\<close>

lemma distinct_hits:
  "(\<And>h. h < n \<Longrightarrow> distinct (B h)) \<Longrightarrow> (\<And>h h' a. h < n \<Longrightarrow> h' < n \<Longrightarrow> a \<in> set (B h) \<Longrightarrow> a \<in> set (B h') \<Longrightarrow> h = h') \<Longrightarrow>
     distinct (hits dev P B [0..<n])"
proof (induction n)
  case (Suc n)
  have "a \<notin> set (B n)" if "h < n" "a \<in> set (B h)" for h a using Suc.prems(2)[of h n a] that by auto
  then show ?case using Suc by (auto simp: hits_def)
qed (simp add: hits_def)

lemma htable_hits:
  assumes "htable dev key hash es M"
  obtains B where "\<And>h. h < length es \<Longrightarrow> bucket dev (es ! h) (B h)"
    "\<And>P. distinct (hits dev P B [0..<length es]) \<and> set (hits dev P B [0..<length es]) = {a. \<exists>k. M k = Some a \<and> P (nu dev a)}"
proof -
  obtain B where B: "\<And>h. h < length es \<Longrightarrow> bucket dev (es ! h) (B h)"
    "\<And>h a. h < length es \<Longrightarrow> a \<in> set (B h) \<Longrightarrow> \<exists>k. key (nu dev a) = Some k \<and> hash k = h \<and> M k = Some a"
    "\<And>k a. M k = Some a \<Longrightarrow> hash k < length es \<and> a \<in> set (B (hash k)) \<and> key (nu dev a) = Some k"
    using assms unfolding htable_def by blast
  have "distinct (B h)" if "h < length es" for h using B(1)[OF that] by (auto simp: bucket_def dest: dll_distinct)
  then have "distinct (hits dev P B [0..<length es])" for P by (rule distinct_hits) (auto dest!: B(2))
  moreover have "set (hits dev P B [0..<length es]) = {a. \<exists>k. M k = Some a \<and> P (nu dev a)}" for P
    using B(2,3) by (fastforce simp: hits_def)
  ultimately show thesis using that[OF B(1)] by blast
qed

text \<open>C13. The search through a directory. After \<open>uffs_FindObjectOpen\<close> the calls of
  \<open>uffs_FindObjectNext\<close> find every directory and then every file whose parent is the directory,
  each exactly once, and then fail, also when they are called again. Without information (a null
  \<open>info\<close>, the calls of \<open>uffs_FindObjectCount\<close>) this always holds. With information (the calls of
  \<open>uffs_readdir\<close>) it holds when page 0 of every found object is in the page buffers, and every call
  then answers the bytes of that page with the length and the serial of the node.
  \<open>uffs_FindObjectCount\<close> returns the number of objects. The file system is not changed.\<close>

theorem search_finds_children:
  assumes t: "tree_maps (devs fs d) M" and o: "o_dev (objects fs dir) = Some d" "o_open_succ (objects fs dir)"
  shows "\<exists>f0 ds fl f2. uffs_FindObjectOpen f dir fs = (U_SUCC, f0) \<and>
    (\<forall>want info. \<not> want \<or> infos_cached (devs fs d) (as_dirs ds @ as_files fl) \<longrightarrow>
       (\<exists>f1 i1. yields (next_found want) (map (answer want fs d info) (as_dirs ds @ as_files fl)) (f0, info, fs) (f1, i1, fs) \<and>
          next_found want (f1, i1, fs) = Some (None, (f1, i1, fs)))) \<and>
    distinct ds \<and> set ds = {a. \<exists>s. M (ODir s) = Some a \<and> d_parent (nu (devs fs d) a) = o_serial (objects fs dir)} \<and>
    distinct fl \<and> set fl = {a. \<exists>s. M (OFile s) = Some a \<and> f_parent (nu (devs fs d) a) = o_serial (objects fs dir)} \<and>
    uffs_FindObjectCount info f0 fs = Some (int (length ds + length fl), f2, fs)"
proof -
  let ?dev = "devs fs d" and ?s = "o_serial (objects fs dir)"
  have h: "htable ?dev key_dir GET_DIR_HASH (dir_entry (tree ?dev)) (\<lambda>s. M (ODir s))"
    "htable ?dev key_file GET_FILE_HASH (file_entry (tree ?dev)) (\<lambda>s. M (OFile s))" "nodes_ok ?dev"
    and len: "length (dir_entry (tree ?dev)) = DIR_NODE_ENTRY_LEN" "length (file_entry (tree ?dev)) = FILE_NODE_ENTRY_LEN"
    using t by (simp_all add: tree_maps_def)
  obtain Bd where Bd: "\<And>h. h < DIR_NODE_ENTRY_LEN \<Longrightarrow> bucket ?dev (dir_entry (tree ?dev) ! h) (Bd h)"
    "\<And>P. distinct (hits ?dev P Bd [0..<DIR_NODE_ENTRY_LEN]) \<and>
       set (hits ?dev P Bd [0..<DIR_NODE_ENTRY_LEN]) = {a. \<exists>s. M (ODir s) = Some a \<and> P (nu ?dev a)}"
    by (rule htable_hits[OF h(1), unfolded len]) (rule that; assumption)
  obtain Bf where Bf: "\<And>h. h < FILE_NODE_ENTRY_LEN \<Longrightarrow> bucket ?dev (file_entry (tree ?dev) ! h) (Bf h)"
    "\<And>P. distinct (hits ?dev P Bf [0..<FILE_NODE_ENTRY_LEN]) \<and>
       set (hits ?dev P Bf [0..<FILE_NODE_ENTRY_LEN]) = {a. \<exists>s. M (OFile s) = Some a \<and> P (nu ?dev a)}"
    by (rule htable_hits[OF h(2), unfolded len]) (rule that; assumption)
  have T: "tables_are ?dev Bd Bf" using h(3) by (auto simp: tables_are_def intro!: bucket_rest Bd(1) Bf(1))
  let ?ds = "hits ?dev (\<lambda>u. d_parent u = ?s) Bd [0..<DIR_NODE_ENTRY_LEN]"
  let ?fl = "hits ?dev (\<lambda>u. f_parent u = ?s) Bf [0..<FILE_NODE_ENTRY_LEN]"
  define f0 where "f0 = ResetFindInfo (f\<lparr>ff_dev := Some d, ff_serial := ?s\<rparr>)"
  have o: "uffs_FindObjectOpen f dir fs = (U_SUCC, f0)" using o by (simp add: uffs_FindObjectOpen_def f0_def)
  have z: "0 < DIR_NODE_ENTRY_LEN" by (simp add: DIR_NODE_ENTRY_LEN_def)
  have "searching ?dev Bd Bf f0 (dir_entry (tree ?dev) ! 0) (as_dirs ?ds @ as_files ?fl)" unfolding searching_def
    by (rule exI[of _ 0], rule exI[of _ "Bd 0"])
      (use T z upt_conv_Cons[OF z] in \<open>simp add: f0_def ResetFindInfo_def tables_are_def\<close>)
  then have L: "find_left want fs d (int (length ?ds + length ?fl)) f0 (as_dirs ?ds @ as_files ?fl)"
    if "\<not> want \<or> infos_cached ?dev (as_dirs ?ds @ as_files ?fl)" for want
    using T that by (auto simp: find_left_def f0_def ResetFindInfo_def)
  obtain f2 where f2: "uffs_FindObjectCount info f0 fs = Some (int (length ?ds + length ?fl), f2, fs)"
    using FindObjectCount_ok[OF L[of False], of info] by (auto simp: f0_def ResetFindInfo_def)
  have "\<exists>f1 i1. yields (next_found want) (map (answer want fs d i) (as_dirs ?ds @ as_files ?fl)) (f0, i, fs) (f1, i1, fs) \<and>
      next_found want (f1, i1, fs) = Some (None, (f1, i1, fs))"
    if "\<not> want \<or> infos_cached ?dev (as_dirs ?ds @ as_files ?fl)" for want i
  proof -
    have "answers_left want fs d (int (length ?ds + length ?fl)) i (f0, i, fs) (map (answer want fs d i) (as_dirs ?ds @ as_files ?fl))"
      unfolding answers_left_def using L[OF that] by blast
    from search.yields_left[OF this] show ?thesis by (auto simp: answers_left_def)
  qed
  then show ?thesis
    by (intro exI[of _ f0] exI[of _ ?ds] exI[of _ ?fl] exI[of _ f2] conjI o f2) (use Bd(2) Bf(2) in auto)
qed

text \<open>The root directory with one file, whose page 0 is in a buffer.\<close>

definition sample_dir_dev :: "femu device" where
  "sample_dir_dev = (the (uffs_InsertNodeToTree UFFS_TYPE_FILE 8192 sample_tree))
     \<lparr>buf_head := Some 0, bufs := (\<lambda>_. zero_buf\<lparr>b_type := UFFS_TYPE_FILE, b_serial := 7, b_mark := UFFS_BUF_VALID,
        b_page := replicate 4 0 @ replicate 508 7\<rparr>), header_size := 4\<rparr>"

definition sample_dir :: "femu fs" where
  "sample_dir = upd_obj 0 (\<lambda>z. z\<lparr>o_dev := Some 0, o_type := UFFS_TYPE_DIR, o_open_succ := True\<rparr>)
     (sample_mounts\<lparr>devs := \<lambda>_. sample_dir_dev\<rparr>)"

lemma sample_dir_dev_ok:
  "tree_maps sample_dir_dev [OFile 7 \<mapsto> 8192]" "nu sample_dir_dev 8192 = UFile 3 0 0 7 100"
  "cached_page UFFS_TYPE_FILE 8192 0 sample_dir_dev = Some 0"
proof -
  obtain dev where d: "uffs_InsertNodeToTree UFFS_TYPE_FILE 8192 sample_tree = Some dev" "tree_maps dev [OFile 7 \<mapsto> 8192]"
    "keeps sample_tree dev"
    using InsertNodeToTree_ok[OF sample_tree_ok(1), of 8192 "OFile 7"] by (auto simp: sample_tree_ok)
  show "tree_maps sample_dir_dev [OFile 7 \<mapsto> 8192]"
    by (rule tree_maps_frame[OF d(2)]) (simp_all add: sample_dir_dev_def d(1))
  show n: "nu sample_dir_dev 8192 = UFile 3 0 0 7 100"
    using d(3) sample_tree_ok(5) by (simp add: keeps_def sample_dir_dev_def d(1) nu_def)
  have "uffs_BufFind 0 7 0 sample_dir_dev = Some (Some 0)"
    unfolding uffs_BufFind_def uffs_BufFindFrom_def
    by (subst chain_find.simps) (simp add: sample_dir_dev_def buf_matches_def zero_buf_def buf_marks)
  moreover have "b_ref_count (bufs sample_dir_dev 0) = 0" by (simp add: sample_dir_dev_def zero_buf_def)
  ultimately show "cached_page UFFS_TYPE_FILE 8192 0 sample_dir_dev = Some 0"
    by (simp add: cached_page_def n obj_of_node_def UFFS_TYPE_FILE_def UFFS_TYPE_DIR_def CLONE_BUF_MARK_def)
qed

theorem search_finds_children_witness:
  "\<exists>f0 f1 f2 i1. uffs_FindObjectOpen \<lparr>ff_dev = None, ff_serial = 9, ff_step = 2, ff_hash = 5, ff_work = None, ff_pos = 3\<rparr> 0 sample_dir = (U_SUCC, f0) \<and>
     yields (next_found True) [(8192, \<lparr>oi_info = replicate SIZEOF_FILEINFO 7, oi_len = 100, oi_serial = 7\<rparr>)]
       (f0, root_info 0, sample_dir) (f1, i1, sample_dir) \<and>
     next_found True (f1, i1, sample_dir) = Some (None, (f1, i1, sample_dir)) \<and>
     uffs_FindObjectCount (root_info 0) f0 sample_dir = Some (1, f2, sample_dir)"
proof -
  let ?f = "\<lparr>ff_dev = None, ff_serial = 9, ff_step = 2, ff_hash = 5, ff_work = None, ff_pos = 3\<rparr>"
  have d: "devs sample_dir 0 = sample_dir_dev" by (simp add: sample_dir_def upd_obj_def)
  have "o_dev (objects sample_dir 0) = Some 0" "o_open_succ (objects sample_dir 0)" "o_serial (objects sample_dir 0) = 0"
    by (simp_all add: sample_dir_def upd_obj_def sample_mounts_def)
  then obtain f0 ds fl f2 where
    r: "uffs_FindObjectOpen ?f 0 sample_dir = (U_SUCC, f0)"
      "\<And>want info. \<not> want \<or> infos_cached sample_dir_dev (as_dirs ds @ as_files fl) \<Longrightarrow>
         \<exists>f1 i1. yields (next_found want) (map (answer want sample_dir 0 info) (as_dirs ds @ as_files fl)) (f0, info, sample_dir) (f1, i1, sample_dir) \<and>
          next_found want (f1, i1, sample_dir) = Some (None, (f1, i1, sample_dir))"
      "uffs_FindObjectCount (root_info 0) f0 sample_dir = Some (int (length ds + length fl), f2, sample_dir)"
    and s: "set ds = {a. \<exists>s. [OFile 7 \<mapsto> 8192] (ODir s) = Some a \<and> d_parent (nu sample_dir_dev a) = 0}"
      "distinct fl" "set fl = {a. \<exists>s. [OFile 7 \<mapsto> 8192] (OFile s) = Some a \<and> f_parent (nu sample_dir_dev a) = 0}"
    using search_finds_children[of sample_dir 0 "[OFile 7 \<mapsto> 8192]" 0 ?f "root_info 0"] sample_dir_dev_ok(1)
    unfolding d by (simp only:) blast
  have "ds = []" using s(1) by simp
  moreover have "set fl = {8192}" using sample_dir_dev_ok(2) unfolding s(3) by (auto split: if_splits)
  with s(2) have "fl = [8192]" by (cases fl) (auto simp: subset_singleton_iff)
  moreover have "answer True sample_dir 0 (root_info 0) (8192, UFFS_TYPE_FILE) =
      (8192, \<lparr>oi_info = replicate SIZEOF_FILEINFO 7, oi_len = 100, oi_serial = 7\<rparr>)"
    using sample_dir_dev_ok(2,3)
    by (simp add: answer_def d info_of_def UFFS_TYPE_FILE_def UFFS_TYPE_DIR_def buf_data_def sample_dir_dev_def SIZEOF_FILEINFO_def)
  ultimately show ?thesis
    using r(1,3) r(2)[of True "root_info 0"] sample_dir_dev_ok(3) by (simp add: infos_cached_def)
qed

end
