(* ===== verification/Fd_Layer.thy ===== *)
theory Fd_Layer
  imports Find_Object
begin

text \<open>
  The interface with file descriptors (\<open>uffs_fd.c\<close>), formatting (\<open>uffs_FormatDeviceEx\<close> of
  \<open>uffs_utils.c\<close>) and the set-up of the pools (\<open>uffs_init.c\<close>). A file descriptor is the index of
  an object in its pool together with a signature that changes when a partition is formatted.

  The lemmas show that a descriptor leads back to its object as long as the signature stays, and
  that descriptors from before a format and descriptors of closed files are refused. Making a
  directory at the path of a mount point reads through a null pointer.
\<close>

section \<open>Constants\<close>

definition MAX_DIR_HANDLE :: u32 where "MAX_DIR_HANDLE = 10"
definition FD_SIGNATURE_SHIFT :: nat where "FD_SIGNATURE_SHIFT = 6"
definition FD_OFFSET :: int where "FD_OFFSET = 3"
definition MAX_FD_SIGNATURE_ROUND :: int where "MAX_FD_SIGNATURE_ROUND = 100"
definition US_IFREG :: u32 where "US_IFREG = 0x8000"
definition US_IFDIR :: u32 where "US_IFDIR = 0x4000"
definition US_IRWXU :: u32 where "US_IRWXU = 0x1C0"

text \<open>The sizes on a 64-bit platform.\<close>

definition SIZEOF_DIR :: u32 where "SIZEOF_DIR = 480"
definition SIZEOF_DIRENT :: nat where "SIZEOF_DIRENT = 272"

section \<open>The error number and directory handles\<close>

definition uffs_set_error :: "int \<Rightarrow> 'f fs \<Rightarrow> 'f fs" where
  "uffs_set_error e fs = fs\<lparr>uffs_errno := e\<rparr>"

definition uffs_get_error :: "'f fs \<Rightarrow> int" where
  "uffs_get_error fs = uffs_errno fs"

definition uffs_FdSignatureIncrease :: "'f fs \<Rightarrow> 'f fs" where
  "uffs_FdSignatureIncrease fs =
     fs\<lparr>fd_signature := (if fd_signature fs > MAX_FD_SIGNATURE_ROUND then 0 else fd_signature fs + 1)\<rparr>"

definition uffs_DirEntryBufInit :: "nat \<Rightarrow> 'f fs \<Rightarrow> URET \<times> 'f fs" where
  "uffs_DirEntryBufInit dir_pool_data fs =
     (let (r, p) = uffs_PoolInit (dir_pool fs) (Some dir_pool_data) (SIZEOF_DIR * MAX_DIR_HANDLE) SIZEOF_DIR MAX_DIR_HANDLE False
      in (r, fs\<lparr>dir_pool := p\<rparr>))"

definition uffs_DirEntryBufRelease :: "'f fs \<Rightarrow> URET \<times> 'f fs" where
  "uffs_DirEntryBufRelease fs = (let (r, p) = uffs_PoolRelease (dir_pool fs) in (r, fs\<lparr>dir_pool := p\<rparr>))"

definition dir_dev :: "nat \<Rightarrow> 'f fs \<Rightarrow> nat option" where
  "dir_dev p fs = do {
     x \<leftarrow> de_obj (dir_entries fs p);
     o_dev (objects fs x)
   }"

definition PutDirEntry :: "nat \<Rightarrow> 'f fs \<Rightarrow> 'f fs" where
  "PutDirEntry p fs = fs\<lparr>dir_pool := snd (uffs_PoolPut (dir_pool fs) (Some p))\<rparr>"

partial_function (option) put_dirs :: "nat \<Rightarrow> nat option \<Rightarrow> int \<Rightarrow> 'f fs \<Rightarrow> (int \<times> 'f fs) option" where
  "put_dirs d dirp count fs = do {
     dirp \<leftarrow> uffs_PoolFindNextAllocated (dir_pool fs) dirp;
     (case dirp of None \<Rightarrow> Some (count, fs)
      | Some p \<Rightarrow>
          if (case dir_dev p fs of None \<Rightarrow> False | Some d' \<Rightarrow> dev_nums fs d' = dev_nums fs d)
          then put_dirs d dirp (count + 1) (PutDirEntry p fs)
          else put_dirs d dirp count fs)
   }"

definition uffs_DirEntryBufPutAll :: "nat \<Rightarrow> 'f fs \<Rightarrow> (int \<times> 'f fs) option" where
  "uffs_DirEntryBufPutAll d fs = put_dirs d None 0 fs"

definition zero_find :: FindInfo where
  "zero_find = \<lparr>ff_dev = None, ff_serial = 0, ff_step = 0, ff_hash = 0, ff_work = None, ff_pos = 0\<rparr>"

definition zero_info :: ObjectInfo where
  "zero_info = \<lparr>oi_info = replicate SIZEOF_FILEINFO 0, oi_len = 0, oi_serial = 0\<rparr>"

definition upd_dir :: "nat \<Rightarrow> (DirEntry \<Rightarrow> DirEntry) \<Rightarrow> 'f fs \<Rightarrow> 'f fs" where
  "upd_dir p f fs = fs\<lparr>dir_entries := (dir_entries fs)(p := f (dir_entries fs p))\<rparr>"

definition GetDirEntry :: "'f fs \<Rightarrow> nat option \<times> 'f fs" where
  "GetDirEntry fs =
     (let (dirp, p) = uffs_PoolGet (dir_pool fs); fs = fs\<lparr>dir_pool := p\<rparr>
      in case dirp of None \<Rightarrow> (None, fs)
         | Some e \<Rightarrow> (Some e, upd_dir e (\<lambda>_. \<lparr>de_obj = None, de_f = zero_find, de_info = zero_info\<rparr>) fs))"

definition uffs_InitFileSystemObjects :: "nat \<Rightarrow> nat \<Rightarrow> 'f fs \<Rightarrow> URET \<times> 'f fs" where
  "uffs_InitFileSystemObjects object_data dir_pool_data fs =
     (case uffs_InitObjectBuf object_data fs of
        (U_SUCC, fs) \<Rightarrow> uffs_DirEntryBufInit dir_pool_data fs
      | (U_FAIL, fs) \<Rightarrow> (U_FAIL, fs))"

definition uffs_ReleaseFileSystemObjects :: "'f fs \<Rightarrow> URET \<times> 'f fs" where
  "uffs_ReleaseFileSystemObjects fs =
     (case uffs_ReleaseObjectBuf fs of (U_SUCC, fs) \<Rightarrow> uffs_DirEntryBufRelease fs | (U_FAIL, fs) \<Rightarrow> (U_FAIL, fs))"

section \<open>File descriptors\<close>

text \<open>\<open>None\<close>: the object is not in the pool.\<close>

definition OBJ2FD :: "nat \<Rightarrow> 'f fs \<Rightarrow> int option" where
  "OBJ2FD x fs = map_option (\<lambda>i. sint ((i OR word_of_int (fd_signature fs * 2 ^ FD_SIGNATURE_SHIFT)) + word_of_int FD_OFFSET))
     (uffs_PoolGetIndex (object_pool fs) x)"

text \<open>The object of a descriptor (\<open>CHK_OBJ_LOCK\<close>), \<open>Some None\<close> for a bad one.\<close>

definition CHK_OBJ_LOCK :: "int \<Rightarrow> 'f fs \<Rightarrow> nat option option" where
  "CHK_OBJ_LOCK fd fs = do {
     fd \<leftarrow> c_int (fd - FD_OFFSET);
     (if fd div 2 ^ FD_SIGNATURE_SHIFT \<noteq> fd_signature fs then Some None
      else let obj = uffs_PoolGetBufByIndex (object_pool fs) (word_of_int (fd mod 2 ^ FD_SIGNATURE_SHIFT))
           in case obj of None \<Rightarrow> Some None
              | Some x \<Rightarrow>
                  if \<not> uffs_PoolVerify (object_pool fs) (Some x) then Some None
                  else map_option (\<lambda>free. if free then None else Some x) (uffs_PoolCheckFreeList (object_pool fs) x))
   }"

text \<open>A call on the object of a descriptor; \<open>bad\<close> is what it returns for a bad one.\<close>

definition with_fd :: "int \<Rightarrow> 'r \<Rightarrow> (nat \<Rightarrow> 'f fs \<Rightarrow> ('r \<times> 'f fs) option) \<Rightarrow> 'f fs \<Rightarrow> ('r \<times> 'f fs) option" where
  "with_fd fd bd f fs = do {
     obj \<leftarrow> CHK_OBJ_LOCK fd fs;
     (case obj of None \<Rightarrow> Some (bd, uffs_set_error (- UEBADF) fs) | Some x \<Rightarrow> f x fs)
   }"

text \<open>The error of the object is cleared before the operation, and reported after it.\<close>

definition with_obj :: "int \<Rightarrow> 'r \<Rightarrow> (nat \<Rightarrow> 'f fs \<Rightarrow> ('r \<times> 'f fs) option) \<Rightarrow> 'f fs \<Rightarrow> ('r \<times> 'f fs) option" where
  "with_obj fd bd f = with_fd fd bd (\<lambda>x fs. do {
     (r, fs) \<leftarrow> f x (set_err x UENOERR fs);
     Some (r, uffs_set_error (- o_err (objects fs x)) fs)
   })"

definition int_ret :: "URET \<Rightarrow> int" where
  "int_ret r = (if r = U_SUCC then 0 else - 1)"

definition uffs_open :: "bytes \<Rightarrow> u32 \<Rightarrow> 'f fs \<Rightarrow> (int \<times> 'f fs) option" where
  "uffs_open name oflag fs =
     (case uffs_GetObject fs of (None, fs) \<Rightarrow> Some (- 1, uffs_set_error (- UEMFILE) fs)
      | (Some x, fs) \<Rightarrow> do {
          (r, fs) \<leftarrow> uffs_OpenObject (Some x) name oflag fs;
          (if r = U_FAIL
           then Some (- 1, uffs_PutObject (Some x) (uffs_set_error (- o_err (objects fs x)) fs))
           else map_option (\<lambda>fd. (fd, fs)) (OBJ2FD x fs))
        })"

definition uffs_close :: "int \<Rightarrow> 'f fs \<Rightarrow> (int \<times> 'f fs) option" where
  "uffs_close fd = with_fd fd (- 1) (\<lambda>x fs. do {
     (r, fs) \<leftarrow> uffs_CloseObject x (set_err x UENOERR fs);
     Some (if r = U_FAIL then (- 1, uffs_set_error (- o_err (objects fs x)) fs) else (0, uffs_PutObject (Some x) fs))
   })"

text \<open>The memory of the caller is \<open>data\<close>.\<close>

definition uffs_read :: "int \<Rightarrow> bytes \<Rightarrow> int \<Rightarrow> 'f fs \<Rightarrow> ((int \<times> bytes) \<times> 'f fs) option" where
  "uffs_read fd data len = with_obj fd (- 1, data) (\<lambda>x fs. do {
     (n, data, fs) \<leftarrow> uffs_ReadObject (Some x) data len fs;
     Some ((n, data), fs)
   })"

definition uffs_write :: "int \<Rightarrow> bytes \<Rightarrow> int \<Rightarrow> 'f fs \<Rightarrow> (int \<times> 'f fs) option" where
  "uffs_write fd data len = with_obj fd (- 1) (\<lambda>x. uffs_WriteObject (Some x) data len)"

text \<open>The position is stored in an \<open>int\<close> before it is returned.\<close>

definition uffs_seek :: "int \<Rightarrow> int \<Rightarrow> int \<Rightarrow> 'f fs \<Rightarrow> (int \<times> 'f fs) option" where
  "uffs_seek fd offset origin = with_obj fd (- 1) (\<lambda>x fs.
     map_option (\<lambda>(r, fs). (sint (word_of_int r :: u32), fs)) (uffs_SeekObject x offset origin fs))"

definition uffs_tell :: "int \<Rightarrow> 'f fs \<Rightarrow> (int \<times> 'f fs) option" where
  "uffs_tell fd = with_obj fd (- 1) (\<lambda>x fs. Some (uffs_GetCurOffset (Some x) fs, fs))"

definition uffs_eof :: "int \<Rightarrow> 'f fs \<Rightarrow> (int \<times> 'f fs) option" where
  "uffs_eof fd = with_obj fd (- 1) (\<lambda>x fs. map_option (\<lambda>r. (r, fs)) (uffs_EndOfFile (Some x) fs))"

definition uffs_flush :: "int \<Rightarrow> 'f fs \<Rightarrow> (int \<times> 'f fs) option" where
  "uffs_flush fd = with_obj fd (- 1) (\<lambda>x fs. map_option (\<lambda>(r, fs). (int_ret r, fs)) (uffs_FlushObject x fs))"

definition uffs_ftruncate :: "int \<Rightarrow> int \<Rightarrow> 'f fs \<Rightarrow> (int \<times> 'f fs) option" where
  "uffs_ftruncate fd remain = with_obj fd (- 1) (\<lambda>x fs.
     map_option (\<lambda>(r, fs). (int_ret r, fs)) (uffs_TruncateObject x (word_of_int remain) fs))"

definition uffs_rename :: "bytes \<Rightarrow> bytes \<Rightarrow> 'f fs \<Rightarrow> (int \<times> 'f fs) option" where
  "uffs_rename old_name new_name fs =
     map_option (\<lambda>(r, err, fs). (int_ret r, uffs_set_error (- err) fs)) (uffs_RenameObject old_name new_name fs)"

section \<open>Status\<close>

text \<open>The fields that are not constant.\<close>

record uffs_stat =
  st_dev :: int
  st_ino :: int
  st_mode :: u32
  st_size :: int
  st_blksize :: int
  st_atime :: u32
  st_mtime :: u32
  st_ctime :: u32

definition do_stat :: "nat \<Rightarrow> uffs_stat \<Rightarrow> 'f fs \<Rightarrow> ((int \<times> uffs_stat) \<times> 'f fs) option" where
  "do_stat x buf fs = do {
     (r, err, info, fs) \<leftarrow> uffs_GetObjectInfo x zero_info fs;
     let fs = uffs_set_error (- err) fs;
     (if r = U_FAIL then Some ((- 1, buf), fs)
      else do {
        d \<leftarrow> o_dev (objects fs x);
        let fattr = le_word (take 4 (oi_info info));
        let mtime = le_word (take 4 (drop 8 (oi_info info)));
        Some ((0, \<lparr>st_dev = dev_nums fs d, st_ino = uint (oi_serial info),
            st_mode = (if fattr AND FILE_ATTR_DIR \<noteq> 0 then US_IFDIR else US_IFREG) OR
                      (if fattr AND FILE_ATTR_WRITE \<noteq> 0 then US_IRWXU else 0),
            st_size = uint (oi_len info), st_blksize = uint (pg_data_size (devs fs d)),
            st_atime = mtime, st_mtime = mtime, st_ctime = le_word (take 4 (drop 4 (oi_info info)))\<rparr>), fs)
      })
   }"

text \<open>A name that ends with a slash is a directory; otherwise a file is tried first.\<close>

definition open_stat :: "nat \<Rightarrow> bytes \<Rightarrow> 'f fs \<Rightarrow> (URET \<times> 'f fs) option" where
  "open_stat x name fs =
     (if name \<noteq> [] \<and> last name = SLASH then uffs_OpenObject (Some x) name (UO_RDONLY OR UO_DIR) fs
      else do {
        (r, fs) \<leftarrow> uffs_OpenObject (Some x) name UO_RDONLY fs;
        (if r \<noteq> U_SUCC then uffs_OpenObject (Some x) name (UO_RDONLY OR UO_DIR) fs else Some (r, fs))
      })"

definition uffs_stat_call :: "bytes \<Rightarrow> uffs_stat \<Rightarrow> 'f fs \<Rightarrow> ((int \<times> uffs_stat) \<times> 'f fs) option" where
  "uffs_stat_call name buf fs =
     (case uffs_GetObject fs of (None, fs) \<Rightarrow> Some ((- 1, buf), uffs_set_error (- UENOMEM) fs)
      | (Some x, fs) \<Rightarrow> do {
          (r, fs) \<leftarrow> open_stat x name fs;
          (ret, err, fs) \<leftarrow>
            (if r = U_SUCC
             then do {
               (ret, fs) \<leftarrow> do_stat x buf fs;
               (_, fs) \<leftarrow> uffs_CloseObject x fs;
               Some (ret, UENOERR, fs)
             }
             else Some ((- 1, buf), o_err (objects fs x), fs));
          Some (ret, uffs_set_error (- err) (uffs_PutObject (Some x) fs))
        })"

definition uffs_lstat :: "bytes \<Rightarrow> uffs_stat \<Rightarrow> 'f fs \<Rightarrow> ((int \<times> uffs_stat) \<times> 'f fs) option" where
  "uffs_lstat name buf fs = uffs_stat_call name buf fs"

definition uffs_fstat :: "int \<Rightarrow> uffs_stat \<Rightarrow> 'f fs \<Rightarrow> ((int \<times> uffs_stat) \<times> 'f fs) option" where
  "uffs_fstat fd buf = with_fd fd (- 1, buf) (\<lambda>x. do_stat x buf)"

text \<open>\<open>uffs_remove\<close> and \<open>uffs_rmdir\<close>: \<open>st0\<close> is the uninitialised structure on the stack, and
  \<open>wrong\<close> the error for an object of the other type.\<close>

definition remove_as :: "bool \<Rightarrow> int \<Rightarrow> bytes \<Rightarrow> uffs_stat \<Rightarrow> 'f fs \<Rightarrow> (int \<times> 'f fs) option" where
  "remove_as want_dir wrong name st0 fs = do {
     ((r, st), fs) \<leftarrow> uffs_stat_call name st0 fs;
     (if r < 0 then Some (- 1, uffs_set_error (- UENOENT) fs)
      else if (st_mode st AND US_IFDIR \<noteq> 0) \<noteq> want_dir then Some (- 1, uffs_set_error (- wrong) fs)
      else map_option (\<lambda>(r, err, fs). (int_ret r, uffs_set_error (- err) fs)) (uffs_DeleteObject name fs))
   }"

definition uffs_remove :: "bytes \<Rightarrow> uffs_stat \<Rightarrow> 'f fs \<Rightarrow> (int \<times> 'f fs) option" where
  "uffs_remove = remove_as False UEISDIR"

definition uffs_rmdir :: "bytes \<Rightarrow> uffs_stat \<Rightarrow> 'f fs \<Rightarrow> (int \<times> 'f fs) option" where
  "uffs_rmdir = remove_as True UENOTDIR"

section \<open>Directories\<close>

definition uffs_mkdir :: "bytes \<Rightarrow> 'f fs \<Rightarrow> (int \<times> 'f fs) option" where
  "uffs_mkdir name fs =
     (case uffs_GetObject fs of (None, fs) \<Rightarrow> Some (- 1, uffs_set_error (- UEMFILE) fs)
      | (Some x, fs) \<Rightarrow> do {
          (r, fs) \<leftarrow> uffs_CreateObject x name (UO_CREATE OR UO_DIR) fs;
          (ret, err, fs) \<leftarrow>
            (if r \<noteq> U_SUCC then Some (- 1, o_err (objects fs x), fs)
             else do {
               (_, fs) \<leftarrow> uffs_CloseObject x fs;
               Some (0, UENOERR, fs)
             });
          Some (ret, uffs_set_error (- err) (uffs_PutObject (Some x) fs))
        })"

text \<open>The handle \<open>p\<close> has the object \<open>x\<close>; the first component tells whether the directory is
  open.\<close>

definition open_dir_obj :: "nat \<Rightarrow> nat \<Rightarrow> bytes \<Rightarrow> 'f fs \<Rightarrow> (bool \<times> int \<times> 'f fs) option" where
  "open_dir_obj p x path fs = do {
     (r, fs) \<leftarrow> uffs_OpenObject (Some x) path (UO_RDONLY OR UO_DIR) fs;
     (if r = U_SUCC
      then let (r, f) = uffs_FindObjectOpen (de_f (dir_entries fs p)) x fs;
               fs = upd_dir p (\<lambda>e. e\<lparr>de_f := f\<rparr>) fs
           in if r = U_SUCC then Some (True, UENOERR, fs)
              else map_option (\<lambda>(_, fs). (False, UENOERR, fs)) (uffs_CloseObject x fs)
      else Some (False, o_err (objects fs x), fs))
   }"

definition uffs_opendir :: "bytes \<Rightarrow> 'f fs \<Rightarrow> (nat option \<times> 'f fs) option" where
  "uffs_opendir path fs =
     (case GetDirEntry fs of (None, fs) \<Rightarrow> Some (None, uffs_set_error (- UEMFILE) fs)
      | (Some p, fs) \<Rightarrow>
          let (obj, fs) = uffs_GetObject fs; fs = upd_dir p (\<lambda>e. e\<lparr>de_obj := obj\<rparr>) fs
          in case obj of None \<Rightarrow> Some (None, uffs_set_error (- UEMFILE) (PutDirEntry p fs))
             | Some x \<Rightarrow> do {
                 (ok, err, fs) \<leftarrow> open_dir_obj p x path fs;
                 Some (if ok then (Some p, uffs_set_error (- err) fs)
                       else (None, uffs_set_error (- err) (PutDirEntry p (upd_dir p (\<lambda>e. e\<lparr>de_obj := None\<rparr>) (uffs_PutObject obj fs)))))
               })"

text \<open>The handle (\<open>CHK_DIR_LOCK\<close>): \<open>Some False\<close> for a bad one.\<close>

definition CHK_DIR_LOCK :: "nat option \<Rightarrow> 'f fs \<Rightarrow> bool option" where
  "CHK_DIR_LOCK dirp fs =
     (case dirp of None \<Rightarrow> Some False
      | Some p \<Rightarrow>
          if \<not> uffs_PoolVerify (dir_pool fs) dirp then Some False
          else map_option (\<lambda>free. \<not> free) (uffs_PoolCheckFreeList (dir_pool fs) p))"

definition with_dir :: "nat option \<Rightarrow> 'r \<Rightarrow> (nat \<Rightarrow> 'f fs \<Rightarrow> ('r \<times> 'f fs) option) \<Rightarrow> 'f fs \<Rightarrow> ('r \<times> 'f fs) option" where
  "with_dir dirp bd f fs = do {
     ok \<leftarrow> CHK_DIR_LOCK dirp fs;
     (if \<not> ok then Some (bd, uffs_set_error (- UEBADF) fs)
      else do {
        p \<leftarrow> dirp;
        f p fs
      })
   }"

definition uffs_closedir :: "nat option \<Rightarrow> 'f fs \<Rightarrow> (int \<times> 'f fs) option" where
  "uffs_closedir dirp = with_dir dirp (- 1) (\<lambda>p fs. do {
     let fs = upd_dir p (\<lambda>e. e\<lparr>de_f := snd (uffs_FindObjectClose (de_f e))\<rparr>) fs;
     fs \<leftarrow> (case de_obj (dir_entries fs p) of None \<Rightarrow> Some fs
           | Some x \<Rightarrow> map_option (\<lambda>(_, fs). uffs_PutObject (Some x) fs) (uffs_CloseObject x fs));
     Some (0, PutDirEntry p fs)
   })"

record uffs_dirent =
  d_ino :: int
  d_off :: int
  d_reclen :: u16
  d_namelen :: u16
  d_type :: u8
  d_name :: bytes

text \<open>The entry of the information; \<open>None\<close> is a read behind the name of the file information. The
  characters after the final zero of \<open>d_name\<close> are not modelled.\<close>

definition dirent_of :: "ObjectInfo \<Rightarrow> int \<Rightarrow> uffs_dirent option" where
  "dirent_of info pos =
     (let n = fi_name_len (oi_info info); n = (if n < 255 then n else 255)
      in if n \<le> MAX_FILENAME_LENGTH
         then Some \<lparr>d_ino = uint (oi_serial info), d_off = pos, d_reclen = word_of_nat SIZEOF_DIRENT, d_namelen = word_of_nat n,
                d_type = hd (oi_info info), d_name = take n (drop 24 (oi_info info)) @ [0]\<rparr>
         else None)"

definition uffs_readdir :: "nat option \<Rightarrow> 'f fs \<Rightarrow> (uffs_dirent option \<times> 'f fs) option" where
  "uffs_readdir dirp = with_dir dirp None (\<lambda>p fs. do {
     let e = dir_entries fs p;
     ((r, info, f), fs) \<leftarrow> uffs_FindObjectNext True (de_info e) (de_f e) fs;
     let fs = upd_dir p (\<lambda>e. e\<lparr>de_info := info, de_f := f\<rparr>) fs;
     (if r = U_SUCC then map_option (\<lambda>ent. (Some ent, fs)) (dirent_of info (ff_pos f)) else Some (None, fs))
   })"

definition uffs_rewinddir :: "nat option \<Rightarrow> 'f fs \<Rightarrow> (unit \<times> 'f fs) option" where
  "uffs_rewinddir dirp = with_dir dirp () (\<lambda>p fs.
     Some ((), upd_dir p (\<lambda>e. e\<lparr>de_f := snd (uffs_FindObjectRewind (de_f e))\<rparr>) fs))"

section \<open>Formatting\<close>

text \<open>The blocks from \<open>i\<close> on; the 16-bit counter wraps, so that the loop does not end when the
  last block of the partition is 0xffff.\<close>

partial_function (option) format_blocks :: "u16 \<Rightarrow> 'f device \<Rightarrow> (unit \<times> 'f device) option" where
  "format_blocks i dev =
     (if i \<le> par_end dev
      then do {
        (bd, dev) \<leftarrow> uffs_FlashIsBadBlock (uint i) dev;
        dev \<leftarrow> (if bd then Some dev else map_option snd (uffs_FlashEraseBlock (uint i) dev));
        format_blocks (i + 1) dev
      }
      else Some ((), dev))"

definition format_release :: "bool \<Rightarrow> nat \<Rightarrow> 'f fs \<Rightarrow> 'f fs option" where
  "format_release force d fs =
     (if force
      then do {
        (_, fs) \<leftarrow> uffs_DirEntryBufPutAll d fs;
        (_, fs) \<leftarrow> uffs_PutAllObjectBuf d fs;
        Some (uffs_FdSignatureIncrease fs)
      }
      else Some fs)"

text \<open>Whether pages, dirty groups or block infos stand against formatting without \<open>force\<close>.\<close>

definition pages_in_use :: "bool \<Rightarrow> 'f device \<Rightarrow> bool option" where
  "pages_in_use force dev = do {
     free \<leftarrow> uffs_BufIsAllFree dev;
     Some (\<not> force \<and> (\<not> free \<or> (\<exists>g < nat (dirty_groups dev). dg_count (dirtyGroup dev ! g) > 0)))
   }"

definition format_flash :: "u32 \<Rightarrow> 'f device \<Rightarrow> (URET \<times> 'f device) option" where
  "format_flash now dev = do {
     dev \<leftarrow> uffs_BlockInfoExpireAll dev;
     (_, dev) \<leftarrow> format_blocks (par_start dev) dev;
     let (ret, dev) = uffs_TreeRelease dev;
     (if ret = U_FAIL then Some (U_FAIL, dev)
      else let (ret, dev) = uffs_TreeInit dev
      in if ret = U_FAIL then Some (U_FAIL, dev)
      else do {
        (ret, dev) \<leftarrow> uffs_BuildTree now dev;
        Some (if ret = U_FAIL then U_FAIL else U_SUCC, dev)
      })
   }"

definition uffs_FormatDeviceEx :: "nat option \<Rightarrow> bool \<Rightarrow> 'f fs \<Rightarrow> (URET \<times> 'f fs) option" where
  "uffs_FormatDeviceEx dev force fs =
     (case dev of None \<Rightarrow> Some (U_FAIL, fs)
      | Some d \<Rightarrow> do {
          (ret, fs) \<leftarrow> on_dev d uffs_BufFlushAll fs;
          (if dev_refs fs d > 1 \<and> \<not> force \<or> ret \<noteq> U_SUCC then Some (U_FAIL, fs)
           else do {
             fs \<leftarrow> format_release force d fs;
             used \<leftarrow> pages_in_use force (devs fs d);
             (if used then Some (U_FAIL, fs)
              else do {
                (_, fs) \<leftarrow> on_dev d uffs_BufSetAllEmpty fs;
                free \<leftarrow> uffs_BlockInfoIsAllFree (devs fs d);
                (if \<not> free \<and> \<not> force then Some (U_FAIL, fs) else on_dev d (format_flash (clock fs)) fs)
              })
           })
        })"

definition uffs_FormatDevice :: "nat option \<Rightarrow> bool \<Rightarrow> 'f fs \<Rightarrow> (URET \<times> 'f fs) option" where
  "uffs_FormatDevice = uffs_FormatDeviceEx"

section \<open>Calls on a mount point\<close>

text \<open>A call on the device of a mount point, with its reference held; \<open>none\<close> is the result without
  a device.\<close>

definition with_mount :: "bytes \<Rightarrow> 'r \<Rightarrow> (nat \<Rightarrow> 'f fs \<Rightarrow> ('r \<times> 'f fs) option) \<Rightarrow> 'f fs \<Rightarrow> ('r \<times> 'f fs) option" where
  "with_mount mount_point none f fs = do {
     (dev, fs) \<leftarrow> uffs_GetDeviceFromMountPoint mount_point fs;
     (case dev of None \<Rightarrow> Some (none, fs)
      | Some d \<Rightarrow> do {
          (r, fs) \<leftarrow> f d fs;
          Some (r, uffs_PutDevice d fs)
        })
   }"

definition uffs_format :: "bytes \<Rightarrow> 'f fs \<Rightarrow> (int \<times> 'f fs) option" where
  "uffs_format mount_point = with_mount mount_point (- 1) (\<lambda>d fs.
     map_option (\<lambda>(r, fs). (int_ret r, fs)) (uffs_FormatDeviceEx (Some d) True fs))"

definition uffs_space_total :: "bytes \<Rightarrow> 'f fs \<Rightarrow> (int \<times> 'f fs) option" where
  "uffs_space_total mount_point = with_mount mount_point (- 1) (\<lambda>d fs.
     map_option (\<lambda>n. (n, fs)) (uffs_GetDeviceTotal (devs fs d)))"

definition uffs_space_used :: "bytes \<Rightarrow> 'f fs \<Rightarrow> (int \<times> 'f fs) option" where
  "uffs_space_used mount_point = with_mount mount_point (- 1) (\<lambda>d fs.
     map_option (\<lambda>n. (n, fs)) (uffs_GetDeviceUsed (devs fs d)))"

definition uffs_space_free :: "bytes \<Rightarrow> 'f fs \<Rightarrow> (int \<times> 'f fs) option" where
  "uffs_space_free mount_point = with_mount mount_point (- 1) (\<lambda>d fs.
     map_option (\<lambda>n. (n, fs)) (uffs_GetDeviceFree (devs fs d)))"

definition uffs_flush_all :: "bytes \<Rightarrow> 'f fs \<Rightarrow> (unit \<times> 'f fs) option" where
  "uffs_flush_all mount_point = with_mount mount_point () (\<lambda>d fs.
     map_option (\<lambda>(r, fs). ((), fs)) (on_dev d uffs_BufFlushAll fs))"

section \<open>Descriptors lead back to their objects\<close>

text \<open>The signature is kept in this range by \<open>uffs_FdSignatureIncrease\<close>, and an index takes six bits.\<close>

definition fd_ok :: "'f fs \<Rightarrow> bool" where
  "fd_ok fs \<longleftrightarrow> pool_ok (object_pool fs) \<and> unat (p_num_bufs (object_pool fs)) \<le> 64 \<and>
     0 \<le> fd_signature fs \<and> fd_signature fs \<le> MAX_FD_SIGNATURE_ROUND + 1"

abbreviation same_pool :: "pool \<Rightarrow> pool \<Rightarrow> bool" where
  "same_pool P Q \<equiv> p_mem Q = p_mem P \<and> p_buf_size Q = p_buf_size P \<and> p_num_bufs Q = p_num_bufs P"

lemma or_shifted:
  assumes "i < 64"
  shows "i OR (n * 64) = i + n * (64 :: nat)"
proof -
  have t: "take_bit 6 i = i" using assms by (simp add: take_bit_eq_mod)
  have "i AND push_bit 6 n = 0"
    by (subst t[symmetric]) (auto simp: bit_eq_iff bit_simps)
  then have "i OR push_bit 6 n = i + push_bit 6 n" by (simp add: disjunctive_add_eq_or)
  then show ?thesis by (simp add: push_bit_eq_mult)
qed

lemma fd_number:
  assumes "i < 64" "0 \<le> s" "s \<le> MAX_FD_SIGNATURE_ROUND + 1"
  shows "sint ((word_of_nat i OR word_of_int (s * 2 ^ FD_SIGNATURE_SHIFT) :: u32) + word_of_int FD_OFFSET) = int i + s * 64 + 3"
proof -
  obtain n where n: "s = int n" "n \<le> 101" using assms(2,3) by (metis MAX_FD_SIGNATURE_ROUND_def zero_le_imp_eq_int
        numeral_plus_one of_nat_le_iff of_nat_numeral semiring_norm(2) semiring_norm(4) semiring_norm(5))
  have "word_of_int (s * 2 ^ FD_SIGNATURE_SHIFT) = (word_of_nat (n * 64) :: u32)" by (simp add: n FD_SIGNATURE_SHIFT_def)
  then have "(word_of_nat i OR word_of_int (s * 2 ^ FD_SIGNATURE_SHIFT) :: u32) = word_of_nat (i + n * 64)"
    using or_shifted[OF assms(1), of n] of_nat_or_eq[of i "n * 64", where 'a = u32] by simp
  then have "(word_of_nat i OR word_of_int (s * 2 ^ FD_SIGNATURE_SHIFT) :: u32) + word_of_int FD_OFFSET = word_of_int (int i + s * 64 + 3)"
    by (simp add: n FD_OFFSET_def)
  moreover have "sint (word_of_int (int i + s * 64 + 3) :: u32) = int i + s * 64 + 3"
    using n assms(1) by (subst signed_of_int) (simp add: signed_take_bit_int_eq_self)
  ultimately show ?thesis by simp
qed

lemma CHK_OBJ_LOCK_fd:
  assumes ok: "fd_ok fs" and i: "i < unat (p_num_bufs (object_pool fs))" "i < 64" and s: "0 \<le> s" "s \<le> 101"
  shows "CHK_OBJ_LOCK (int i + s * 64 + 3) fs =
    Some (if s = fd_signature fs \<and> slot_addr (object_pool fs) i \<notin> pool_free (object_pool fs)
          then Some (slot_addr (object_pool fs) i) else None)"
proof -
  let ?P = "object_pool fs"
  obtain xs where inv: "pool_inv ?P xs" using ok by (auto simp: fd_ok_def pool_ok_def)
  then have g: "pool_geom ?P" by (simp add: pool_inv_def)
  have c: "c_int (int i + s * 64 + 3 - FD_OFFSET) = Some (int i + s * 64)"
    using i(2) s by (simp add: c_int_def FD_OFFSET_def)
  have d: "(int i + s * 64) div 2 ^ FD_SIGNATURE_SHIFT = s" "(int i + s * 64) mod 2 ^ FD_SIGNATURE_SHIFT = int i"
    using i(2) by (simp_all add: FD_SIGNATURE_SHIFT_def)
  have b: "uffs_PoolGetBufByIndex ?P (word_of_int (int i)) = Some (slot_addr ?P i)"
    using GetBufByIndex_slot[OF g i(1)] by simp
  have v: "uffs_PoolVerify ?P (Some (slot_addr ?P i))" using PoolVerify_slots[OF g] slot_in_slots[OF g] i(1) by simp
  show ?thesis
    unfolding CHK_OBJ_LOCK_def c bind.bind_lunit d by (simp add: b[simplified] v CheckFreeList_eq[OF inv])
qed

text \<open>C14. The descriptor of an object names it and only it: as long as the objects stay in their
  pool, a call with the descriptor works on the object while the signature is the one it was made
  with and the object is not free; otherwise (the file was closed, or a partition was formatted)
  it is refused with \<open>UEBADF\<close> and nothing else changes. Different objects have different
  descriptors, and formatting changes the signature.\<close>

theorem descriptor_object:
  fixes fs :: "'f fs" and f :: "nat \<Rightarrow> 'f fs \<Rightarrow> ('r \<times> 'f fs) option"
  assumes ok: "fd_ok fs" and x: "x \<in> pool_slots (object_pool fs)"
  shows "\<exists>fd \<ge> 3. OBJ2FD x fs = Some fd \<and>
    (\<forall>fs'. fd_ok fs' \<and> same_pool (object_pool fs) (object_pool fs') \<longrightarrow>
       with_fd fd e f fs' =
         (if fd_signature fs' = fd_signature fs \<and> x \<notin> pool_free (object_pool fs') then f x fs'
          else Some (e, uffs_set_error (- UEBADF) fs'))) \<and>
    (\<forall>y \<in> pool_slots (object_pool fs). OBJ2FD y fs = Some fd \<longrightarrow> y = x) \<and>
    fd_ok (uffs_FdSignatureIncrease fs) \<and> fd_signature (uffs_FdSignatureIncrease fs) \<noteq> fd_signature fs"
proof -
  let ?P = "object_pool fs"
  have g: "pool_geom ?P" and b: "unat (p_num_bufs ?P) \<le> 64"
    and s: "0 \<le> fd_signature fs" "fd_signature fs \<le> MAX_FD_SIGNATURE_ROUND + 1"
    using ok by (auto simp: fd_ok_def pool_ok_def pool_inv_def)
  have fd: "OBJ2FD (slot_addr ?P i) fs = Some (int i + fd_signature fs * 64 + 3)" if "i < unat (p_num_bufs ?P)" for i
    using fd_number[of i, OF _ s] that b by (simp add: OBJ2FD_def GetIndex_slot[OF g])
  obtain i where i: "i < unat (p_num_bufs ?P)" "x = slot_addr ?P i" using x by (auto simp: pool_slots_def)
  have "with_fd (int i + fd_signature fs * 64 + 3) e f fs' =
      (if fd_signature fs' = fd_signature fs \<and> x \<notin> pool_free (object_pool fs') then f x fs'
       else Some (e, uffs_set_error (- UEBADF) fs'))"
    if "fd_ok fs'" "same_pool ?P (object_pool fs')" for fs'
  proof -
    have a: "slot_addr (object_pool fs') i = x" using that(2) i(2) by (simp add: slot_addr_def)
    have "CHK_OBJ_LOCK (int i + fd_signature fs * 64 + 3) fs' =
        Some (if fd_signature fs = fd_signature fs' \<and> x \<notin> pool_free (object_pool fs') then Some x else None)"
      using CHK_OBJ_LOCK_fd[OF that(1), of i "fd_signature fs"] that(2) i(1) b s unfolding a
      by (simp add: MAX_FD_SIGNATURE_ROUND_def)
    then show ?thesis by (auto simp: with_fd_def)
  qed
  moreover have "y = x" if "y \<in> pool_slots ?P" "OBJ2FD y fs = Some (int i + fd_signature fs * 64 + 3)" for y
    using that fd i by (auto simp: pool_slots_def)
  moreover have "fd_ok (uffs_FdSignatureIncrease fs)" "fd_signature (uffs_FdSignatureIncrease fs) \<noteq> fd_signature fs"
    using ok by (auto simp: fd_ok_def uffs_FdSignatureIncrease_def MAX_FD_SIGNATURE_ROUND_def)
  ultimately show ?thesis using fd[OF i(1)] i(2) s
    by (intro exI[of _ "int i + fd_signature fs * 64 + 3"]) auto
qed

theorem descriptor_object_witness:
  "\<exists>fd. OBJ2FD 72 (sample_mounts\<lparr>object_pool := pool2\<lparr>p_free_list := Some 64, p_next := \<lambda>_. None\<rparr>\<rparr>) = Some fd \<and>
     with_fd fd 0 (\<lambda>x fs. Some (x, fs)) (sample_mounts\<lparr>object_pool := pool2\<lparr>p_free_list := Some 64, p_next := \<lambda>_. None\<rparr>\<rparr>) =
       Some (72, sample_mounts\<lparr>object_pool := pool2\<lparr>p_free_list := Some 64, p_next := \<lambda>_. None\<rparr>\<rparr>) \<and>
     with_fd fd 0 (\<lambda>x fs. Some (x, fs)) (sample_mounts\<lparr>object_pool := pool2\<rparr>) =
       Some (0, uffs_set_error (- 9) (sample_mounts\<lparr>object_pool := pool2\<rparr>))"
proof -
  let ?P = "pool2\<lparr>p_free_list := Some 64, p_next := \<lambda>_. None\<rparr>"
  let ?s = "sample_mounts\<lparr>object_pool := ?P\<rparr>" and ?t = "sample_mounts\<lparr>object_pool := pool2\<rparr>"
  have i: "pool_inv ?P [64]" unfolding pool_inv_def pool_slots_upd pool2_slots using pool2_geom by simp
  have fr: "pool_free ?P = {64}" "pool_free pool2 = {64, 72}" using pool_free_eq[OF i] pool_free_eq[OF pool2_inv] by auto
  have "fd_ok ?s" "fd_ok ?t" using i pool2_inv
    by (auto simp: fd_ok_def pool_ok_def sample_mounts_def MAX_FD_SIGNATURE_ROUND_def pool2_def)
  moreover have "72 \<in> pool_slots (object_pool ?s)" by (simp add: pool2_slots)
  ultimately show ?thesis
    using descriptor_object[of ?s 72 0 "\<lambda>x fs. Some (x, fs)"] fr
    by (auto simp: sample_mounts_def UEBADF_def pool2_def)
qed

section \<open>Making a directory at a mount point\<close>

lemma matched_whole:
  assumes m: "mounted fs ms" and p: "name \<in> points_of fs ms" and s: "name \<noteq> []" "hd name = SLASH"
  obtains d where "uffs_GetMatchedMountPointSize name fs = Some (length name, fs)"
    "uffs_GetDeviceFromMountPointEx name (length name) fs = Some (Some d, get_ref d fs)"
proof -
  obtain k where k: "List.find (\<lambda>x. mt_mount (mtbs fs x) = name) ms = Some k"
    using p find_point[of fs name ms] by (cases "List.find (\<lambda>x. mt_mount (mtbs fs x) = name) ms") auto
  have d: "uffs_GetDeviceFromMountPointEx name (length name) fs = Some (Some (mt_dev (mtbs fs k)), get_ref (mt_dev (mtbs fs k)) fs)"
    using DeviceFromMountPointEx_eq[OF m order_refl, of name] k by simp
  then have "uffs_GetMatchedMountPointSize name fs = Some (length name, fs)"
    using s by (simp add: uffs_GetMatchedMountPointSize_def hd_conv_nth match_mount.simps[of name "length name" fs])
  with that d show thesis by simp
qed

text \<open>C18. \<open>uffs_mkdir\<close> on the path of a mount point itself does not return an error: the name that is
  left behind the mount point is a null pointer with length 0, and \<open>uffs_CreateObjectEx\<close> reads its
  last character.\<close>

theorem mkdir_mount_point_crashes:
  assumes m: "mounted fs ms" and p: "name \<in> points_of fs ms" and s: "name \<noteq> []" "hd name = SLASH"
    and g: "fst (uffs_GetObject fs) \<noteq> None"
  shows "uffs_mkdir name fs = None"
proof -
  obtain x q where x: "uffs_GetObject fs = (Some x, upd_obj x (\<lambda>_. zero_obj) (fs\<lparr>object_pool := q\<rparr>))"
    using g by (cases "uffs_PoolGet (object_pool fs)") (auto simp: uffs_GetObject_def Let_def split: option.splits)
  define fs0 where "fs0 = upd_obj x (\<lambda>_. zero_obj) (fs\<lparr>object_pool := q\<rparr>)"
  have r: "uffs_ReInitObject (Some x) fs0 = (U_SUCC, fs0)"
    by (simp add: uffs_ReInitObject_def fs0_def upd_obj_def zero_obj_def)
  have z: "objects fs0 x = zero_obj" by (simp add: fs0_def upd_obj_def)
  have "mounted fs0 ms" "name \<in> points_of fs0 ms" using m p by (simp_all add: fs0_def upd_obj_def mounted_def points_of_def)
  then obtain d where d: "uffs_GetMatchedMountPointSize name fs0 = Some (length name, fs0)"
    "uffs_GetDeviceFromMountPointEx name (length name) fs0 = Some (Some d, get_ref d fs0)"
    using matched_whole s by metis
  obtain fs1 where "uffs_ParseObject (Some x) name fs0 = Some (U_SUCC, fs1)" "o_dev (objects fs1 x) = Some d"
    "o_name (objects fs1 x) = None" "o_name_len (objects fs1 x) = 0"
    by (simp add: uffs_ParseObject_def r d Let_def obj_ret_def upd_obj_def get_ref_def z zero_obj_def UENOERR_def)
  then have "uffs_CreateObject x name (UO_CREATE OR UO_DIR) fs0 = None"
    by (simp add: uffs_CreateObject_def uffs_CreateObjectEx_def name_ends_def name_at_def Let_def)
  then show ?thesis by (simp add: uffs_mkdir_def x fs0_def[symmetric])
qed

theorem mkdir_mount_point_crashes_witness:
  "uffs_mkdir [SLASH, 115, 121, 115, SLASH] (sample_mounts\<lparr>object_pool := pool2\<rparr>) = None"
proof (rule mkdir_mount_point_crashes[of _ "[1, 0]"])
  show "mounted (sample_mounts\<lparr>object_pool := pool2\<rparr>) [1, 0]" using sample_mounted by (simp add: mounted_def)
  show "[SLASH, 115, 121, 115, SLASH] \<in> points_of (sample_mounts\<lparr>object_pool := pool2\<rparr>) [1, 0]"
    by (simp add: points_of_def sample_mounts_def)
  show "fst (uffs_GetObject (sample_mounts\<lparr>object_pool := pool2\<rparr>)) \<noteq> None"
    by (simp add: uffs_GetObject_def uffs_PoolGet_def pool2_def Let_def)
qed simp_all

end
