(* ===== verification/Device_Refs.thy ===== *)
theory Device_Refs
  imports Fd_Layer
begin

text \<open>
  The reference counts of the devices (\<open>ref_count\<close> in \<open>uffs_mtb.c\<close>, taken by \<open>uffs_ParseObject\<close>
  and given back by \<open>do_ReleaseObjectResource\<close> and on the error paths of \<open>uffs_fs.c\<close>).

  The calls are taken apart with rules for weakest preconditions: \<open>holds S m\<close> says that every
  result of \<open>m\<close> satisfies \<open>S\<close>. Operations on an open object leave everything but the object and
  the devices alone (\<open>rest\<close>); parsing, opening, creating and closing keep the difference between
  the count of a device and the reference that the object holds (\<open>bal\<close>). It follows that every
  call of the interface keeps the counts exact.
\<close>

section \<open>Weakest preconditions of calls\<close>

definition holds :: "('a \<Rightarrow> bool) \<Rightarrow> 'a option \<Rightarrow> bool" where
  "holds S m \<longleftrightarrow> (\<forall>v. m = Some v \<longrightarrow> S v)"

lemma holdsD: "holds S m \<Longrightarrow> m = Some v \<Longrightarrow> S v"
  by (simp add: holds_def)

lemma holdsI: "(\<And>v. m = Some v \<Longrightarrow> S v) \<Longrightarrow> holds S m"
  by (simp add: holds_def)

lemma holds_conseq: "holds P m \<Longrightarrow> (\<And>v. P v \<Longrightarrow> S v) \<Longrightarrow> holds S m"
  by (simp add: holds_def)

lemma holds_bind: "holds (\<lambda>v. holds S (g v)) m \<Longrightarrow> holds S (Option.bind m g)"
  by (auto simp: holds_def bind_eq_Some_conv)

lemma holds_Some: "S v \<Longrightarrow> holds S (Some v)"
  by (simp add: holds_def)

lemma holds_None: "holds S None"
  by (simp add: holds_def)

lemma holds_if: "(b \<Longrightarrow> holds S m) \<Longrightarrow> (\<not> b \<Longrightarrow> holds S n) \<Longrightarrow> holds S (if b then m else n)"
  by simp

lemma holds_option:
  "(v = None \<Longrightarrow> holds S m) \<Longrightarrow> (\<And>y. v = Some y \<Longrightarrow> holds S (n y)) \<Longrightarrow> holds S (case v of None \<Rightarrow> m | Some y \<Rightarrow> n y)"
  by (cases v) auto

lemma holds_uret: "(v = U_SUCC \<Longrightarrow> holds S m) \<Longrightarrow> (v = U_FAIL \<Longrightarrow> holds S n) \<Longrightarrow> holds S (case v of U_SUCC \<Rightarrow> m | U_FAIL \<Rightarrow> n)"
  by (cases v) auto

lemma holds_pair: "holds S (f a b) \<Longrightarrow> holds S (case (a, b) of (x, y) \<Rightarrow> f x y)"
  by simp

lemma holds_prod: "(\<And>a b. v = (a, b) \<Longrightarrow> holds S (f a b)) \<Longrightarrow> holds S (case v of (x, y) \<Rightarrow> f x y)"
  by (cases v) auto

lemma holds_prod_fun: "(\<And>a b. v = (a, b) \<Longrightarrow> holds S (f a b z)) \<Longrightarrow> holds S ((case v of (x, y) \<Rightarrow> f x y) z)"
  by (cases v) auto

lemma holds_Let: "(\<And>y. y = v \<Longrightarrow> holds S (f y)) \<Longrightarrow> holds S (Let v f)"
  by simp

lemma holds_map: "holds (\<lambda>v. S (f v)) m \<Longrightarrow> holds S (map_option f m)"
  by (auto simp: holds_def)

lemma holds_any: "(\<And>v. S v) \<Longrightarrow> holds S m"
  by (simp add: holds_def)

lemma holds_on_dev: "(\<And>r dev. S (r, set_dev d dev fs)) \<Longrightarrow> holds S (on_dev d f fs)"
  by (auto simp: holds_def on_dev_def)

lemma holds_recover_dev: "(\<And>dev. S (set_dev d dev fs)) \<Longrightarrow> holds S (recover_dev d fs)"
  by (auto simp: holds_def recover_dev_def)

lemma holds_set_obj_len: "(\<And>d dev. S (set_dev d dev fs)) \<Longrightarrow> holds S (set_obj_len x n fs)"
  by (auto simp: holds_def set_obj_len_def do_dev_def bind_eq_Some_conv)

lemmas wp = holds_bind holds_Some holds_None holds_if holds_option holds_pair holds_prod holds_prod_fun holds_uret holds_Let holds_map
  holds_on_dev holds_recover_dev holds_set_obj_len

section \<open>Operations on one object\<close>

text \<open>Everything but the devices, the error number and the object \<open>x\<close>, of which only the device is
  kept.\<close>

definition rest :: "nat \<Rightarrow> 'f fs \<Rightarrow> (nat \<Rightarrow> u32) \<times> (nat \<Rightarrow> Object) \<times> pool \<times> (nat \<Rightarrow> MountTable) \<times> nat option \<times>
    (nat \<Rightarrow> DirEntry) \<times> pool \<times> int" where
  "rest x fs = (dev_refs fs, (objects fs)(x := zero_obj\<lparr>o_dev := o_dev (objects fs x)\<rparr>), object_pool fs, mtbs fs, m_head fs,
     dir_entries fs, dir_pool fs, fd_signature fs)"

lemma rest_simps [simp]:
  "rest x (set_dev d v fs) = rest x fs" "rest x (do_dev d f fs) = rest x fs" "rest x (uffs_set_error e fs) = rest x fs"
  "rest x (set_err x e fs) = rest x fs" "rest x (set_pos x p fs) = rest x fs"
  by (simp_all add: rest_def set_dev_def do_dev_def uffs_set_error_def set_err_def set_pos_def upd_obj_def)

lemma rest_upd_obj [simp]: "(\<And>z. o_dev (g z) = o_dev z) \<Longrightarrow> rest x (upd_obj x g fs) = rest x fs"
  by (simp add: rest_def upd_obj_def)

lemma snd_obj_ret [simp]: "obj_ret x fs = (if o_err (objects fs x) = UENOERR then U_SUCC else U_FAIL, fs)"
  by (simp add: obj_ret_def)

abbreviation quiet2 :: "nat \<Rightarrow> 'f fs \<Rightarrow> ('a \<times> 'f fs) option \<Rightarrow> bool" where
  "quiet2 x fs m \<equiv> holds (\<lambda>(r, fs'). rest x fs' = rest x fs) m"

abbreviation quiet1 :: "nat \<Rightarrow> 'f fs \<Rightarrow> 'f fs option \<Rightarrow> bool" where
  "quiet1 x fs m \<equiv> holds (\<lambda>fs'. rest x fs' = rest x fs) m"

lemma q2: "quiet2 x fs m \<Longrightarrow> (\<And>r fs'. rest x fs' = rest x fs \<Longrightarrow> S (r, fs')) \<Longrightarrow> holds S m"
  by (auto simp: holds_def)

lemma q1: "quiet1 x fs m \<Longrightarrow> (\<And>fs'. rest x fs' = rest x fs \<Longrightarrow> S fs') \<Longrightarrow> holds S m"
  by (auto simp: holds_def)

lemma do_FlushObject_quiet: "quiet2 x fs (do_FlushObject x fs)"
  unfolding do_FlushObject_def by (rule wp holds_any | simp)+

lemma uffs_FlushObject_quiet: "quiet2 x fs (uffs_FlushObject x fs)"
  unfolding uffs_FlushObject_def by (rule wp q2[OF do_FlushObject_quiet] holds_any | simp)+

lemma write_new_pages_quiet: "quiet2 x fs (write_new_pages x data len p s ks w fs)"
proof (induction ks arbitrary: w fs)
  case (Cons k ks)
  show ?case unfolding write_new_pages.simps by (rule wp q2[OF Cons.IH] holds_any | simp)+
qed (simp add: holds_Some)

lemma do_WriteNewBlock_quiet: "quiet2 x fs (do_WriteNewBlock x data len p s fs)"
  unfolding do_WriteNewBlock_def by (rule wp q2[OF write_new_pages_quiet] holds_any | simp)+

lemma page_for_write_quiet: "quiet2 y fs (page_for_write x n ty p s pid pos fs)"
  unfolding page_for_write_def by (rule wp holds_any | simp)+

lemma write_internal_quiet: "quiet2 x fs (write_internal x node fdn ty parent serial maxp start data len ofs w fs)"
proof (rule holdsI)
  fix r assume r: "write_internal x node fdn ty parent serial maxp start data len ofs w fs = Some r"
  show "case r of (r, fs') \<Rightarrow> rest x fs' = rest x fs"
  proof (rule write_internal.raw_induct[where P =
        "\<lambda>x node fdn ty parent serial maxp start data len ofs w fs r. case r of (r, fs') \<Rightarrow> rest x fs' = rest x fs"
        and xa = "((((((((((((x, node), fdn), ty), parent), serial), maxp), start), data), len), ofs), w), fs)" and y = r,
        unfolded prod.case], goal_cases)
    case (1 loop x node fdn ty parent serial maxp start data len ofs w fs y)
    have ih: "quiet2 x fs (loop x node fdn ty parent serial maxp start data len ofs w fs)" for ofs w fs
      by (rule holdsI) (rule 1(1))
    show ?case
      by (rule holdsD[OF _ 1(2)])
        (rule wp q2[OF ih] q2[OF page_for_write_quiet[of x]] holds_any | simp)+
  qed (use r in simp)
qed

lemma do_WriteInternalBlock_quiet: "quiet2 x fs (do_WriteInternalBlock x node fdn data len ofs fs)"
  unfolding do_WriteInternalBlock_def by (rule wp q2[OF write_internal_quiet] holds_any | simp)+

lemma flush_new_block_quiet: "quiet1 x fs (flush_new_block d fnode fdn fs)"
  unfolding flush_new_block_def by (rule wp holds_any | simp)+

lemma write_step_quiet: "quiet2 x fs (write_step x data len remain fs)"
  unfolding write_step_def
  by (rule wp q2[OF do_WriteNewBlock_quiet] q1[OF flush_new_block_quiet[of x]] q2[OF do_WriteInternalBlock_quiet] holds_any | simp)+

lemma do_WriteObject_loop_quiet: "quiet2 x fs (do_WriteObject_loop x data len remain fs)"
proof (rule holdsI)
  fix r assume r: "do_WriteObject_loop x data len remain fs = Some r"
  show "case r of (r, fs') \<Rightarrow> rest x fs' = rest x fs"
  proof (rule do_WriteObject_loop.raw_induct[where P = "\<lambda>x data len remain fs r. case r of (r, fs') \<Rightarrow> rest x fs' = rest x fs"
        and xa = "((((x, data), len), remain), fs)" and y = r, unfolded prod.case], goal_cases)
    case (1 loop x data len remain fs y)
    have ih: "quiet2 x fs (loop x data len remain fs)" for remain fs by (rule holdsI) (rule 1(1))
    show ?case by (rule holdsD[OF _ 1(2)]) (rule wp q2[OF ih] q2[OF write_step_quiet] | simp)+
  qed (use r in simp)
qed

lemma fill_gap_quiet: "quiet2 x fs (fill_gap x fs)"
  unfolding fill_gap_def do_WriteObject_def by (rule wp q2[OF do_WriteObject_loop_quiet] holds_any | simp)+

lemma uffs_WriteObject_quiet: "quiet2 x fs (uffs_WriteObject (Some x) data len fs)"
  unfolding uffs_WriteObject_def do_WriteObject_def
  by (rule wp q2[OF fill_gap_quiet] q2[OF do_WriteObject_loop_quiet] holds_any | simp)+

abbreviation quiet3 :: "nat \<Rightarrow> 'f fs \<Rightarrow> ('a \<times> 'b \<times> 'f fs) option \<Rightarrow> bool" where
  "quiet3 x fs m \<equiv> holds (\<lambda>(r, s, fs'). rest x fs' = rest x fs) m"

lemma q3: "quiet3 x fs m \<Longrightarrow> (\<And>r s fs'. rest x fs' = rest x fs \<Longrightarrow> S (r, s, fs')) \<Longrightarrow> holds S m"
  by (auto simp: holds_def)

lemma read_step_quiet: "quiet3 x fs (read_step x data len remain fs)"
  unfolding read_step_def by (rule wp holds_any | simp)+

lemma read_loop_quiet: "quiet3 x fs (read_loop x data len remain fs)"
proof (rule holdsI)
  fix r assume r: "read_loop x data len remain fs = Some r"
  show "case r of (r, s, fs') \<Rightarrow> rest x fs' = rest x fs"
  proof (rule read_loop.raw_induct[where P = "\<lambda>x data len remain fs r. case r of (r, s, fs') \<Rightarrow> rest x fs' = rest x fs"
        and xa = "((((x, data), len), remain), fs)" and y = r, unfolded prod.case], goal_cases)
    case (1 loop x data len remain fs y)
    have ih: "quiet3 x fs (loop x data len remain fs)" for data remain fs by (rule holdsI) (rule 1(1))
    show ?case by (rule holdsD[OF _ 1(2)]) (rule wp q3[OF ih] q3[OF read_step_quiet] | simp)+
  qed (use r in simp)
qed

lemma uffs_ReadObject_quiet: "quiet3 x fs (uffs_ReadObject (Some x) data len fs)"
  unfolding uffs_ReadObject_def by (rule wp q3[OF read_loop_quiet] holds_any | simp)+

lemma seek_to_quiet: "quiet1 x fs (seek_to x p fs)"
  unfolding seek_to_def by (rule wp holds_any | simp)+

lemma uffs_SeekObject_quiet: "quiet2 x fs (uffs_SeekObject x ofs origin fs)"
  unfolding uffs_SeekObject_def by (rule wp q1[OF seek_to_quiet] holds_any | simp)+

lemma truncate_internal_quiet: "quiet2 x fs (do_TruncateInternalWithBlockRecover x fdn remain run fs)"
  unfolding do_TruncateInternalWithBlockRecover_def by (rule wp holds_any | simp)+

lemma truncate_loop_quiet: "quiet2 x fs (truncate_loop x remain run flen fs)"
proof (rule holdsI)
  fix r assume r: "truncate_loop x remain run flen fs = Some r"
  show "case r of (r, fs') \<Rightarrow> rest x fs' = rest x fs"
  proof (rule truncate_loop.raw_induct[where P = "\<lambda>x remain run flen fs r. case r of (r, fs') \<Rightarrow> rest x fs' = rest x fs"
        and xa = "((((x, remain), run), flen), fs)" and y = r, unfolded prod.case], goal_cases)
    case (1 loop x remain run flen fs y)
    have ih: "quiet2 x fs (loop x remain run flen fs)" for flen fs by (rule holdsI) (rule 1(1))
    show ?case
      by (rule holdsD[OF _ 1(2)]) (rule wp q2[OF ih] q2[OF truncate_internal_quiet] holds_any | simp)+
  qed (use r in simp)
qed

lemma do_TruncateObject_quiet: "quiet2 x fs (do_TruncateObject x remain run fs)"
  unfolding do_TruncateObject_def do_WriteObject_def
  by (rule wp q2[OF truncate_loop_quiet] q2[OF do_WriteObject_loop_quiet] holds_any | simp)+

lemma truncate_both_quiet: "quiet1 x fs (truncate_both x remain fs)"
  unfolding truncate_both_def by (rule wp q2[OF do_TruncateObject_quiet] | simp)+

lemma uffs_TruncateObject_quiet: "quiet2 x fs (uffs_TruncateObject x remain fs)"
  unfolding uffs_TruncateObject_def by (rule wp q1[OF truncate_both_quiet] q2[OF uffs_FlushObject_quiet] | simp)+

section \<open>References to devices\<close>

text \<open>As before, with the reference that \<open>x\<close> holds taken off the count of its device.\<close>

definition bal :: "nat \<Rightarrow> 'f fs \<Rightarrow> (nat \<Rightarrow> u32) \<times> (nat \<Rightarrow> Object) \<times> pool \<times> (nat \<Rightarrow> MountTable) \<times> nat option \<times>
    (nat \<Rightarrow> DirEntry) \<times> pool \<times> int" where
  "bal x fs = (case rest x fs of (refs, obs, mo) \<Rightarrow>
     (\<lambda>d. refs d - (if o_dev (obs x) = Some d then 1 else 0), obs(x := zero_obj), mo))"

lemma rest_bal: "rest x fs' = rest x fs \<Longrightarrow> bal x fs' = bal x fs"
  by (simp add: bal_def)

lemma rest_dev: "rest x fs' = rest x fs \<Longrightarrow> o_dev (objects fs' x) = o_dev (objects fs x)"
  by (drule arg_cong[where f = "\<lambda>r. o_dev (fst (snd r) x)"]) (simp add: rest_def)

lemma bal_simps [simp]:
  "bal x (set_dev d v fs) = bal x fs" "bal x (do_dev d f fs) = bal x fs" "bal x (uffs_set_error e fs) = bal x fs"
  "bal x (set_err x e fs) = bal x fs" "bal x (set_pos x p fs) = bal x fs"
  "(\<And>z. o_dev (g z) = o_dev z) \<Longrightarrow> bal x (upd_obj x g fs) = bal x fs"
  by (simp_all add: bal_def)

lemma dev_simps [simp]:
  "o_dev (objects (upd_obj x g fs) x) = o_dev (g (objects fs x))" "objects (set_dev d v fs) = objects fs"
  "o_dev (objects (set_err x e fs) x) = o_dev (objects fs x)" "objects (uffs_set_error e fs) = objects fs"
  "objects (uffs_PutDevice d fs) = objects fs" "objects (get_ref d fs) = objects fs" "objects (do_dev d f fs) = objects fs"
  by (simp_all add: upd_obj_def set_dev_def set_err_def uffs_set_error_def uffs_PutDevice_def get_ref_def do_dev_def)

lemma bal_put: "o_dev (objects fs x) = Some d \<Longrightarrow> (\<And>z. o_dev (g z) = None) \<Longrightarrow>
    bal x (upd_obj x g (uffs_PutDevice d fs)) = bal x fs"
  by (auto simp: bal_def rest_def upd_obj_def uffs_PutDevice_def fun_eq_iff zero_obj_def)

lemma bal_get: "o_dev (objects fs x) = None \<Longrightarrow> (\<And>z. o_dev (g z) = Some d) \<Longrightarrow>
    bal x (upd_obj x g (get_ref d fs)) = bal x fs"
  by (auto simp: bal_def rest_def upd_obj_def get_ref_def fun_eq_iff zero_obj_def)

lemma bal_zero: "o_dev (objects fs x) = None \<Longrightarrow> bal x (upd_obj x (\<lambda>_. zero_obj) fs) = bal x fs"
  by (auto simp: bal_def rest_def upd_obj_def fun_eq_iff zero_obj_def)

lemma bal_same_dev: "o_dev (g (objects fs x)) = o_dev (objects fs x) \<Longrightarrow> bal x (upd_obj x g fs) = bal x fs"
  by (auto simp: bal_def rest_def upd_obj_def)

lemma rest_same_dev: "o_dev (g (objects fs x)) = o_dev (objects fs x) \<Longrightarrow> rest x (upd_obj x g fs) = rest x fs"
  by (auto simp: rest_def upd_obj_def)

text \<open>Calls that keep the balance; \<open>P\<close> tells what is known of the device of \<open>x\<close> afterwards.\<close>

abbreviation bal2 :: "nat \<Rightarrow> 'f fs \<Rightarrow> ('a \<Rightarrow> nat option \<Rightarrow> bool) \<Rightarrow> ('a \<times> 'f fs) option \<Rightarrow> bool" where
  "bal2 x fs P m \<equiv> holds (\<lambda>(r, fs'). bal x fs' = bal x fs \<and> P r (o_dev (objects fs' x))) m"

lemma b2: "bal2 x fs P m \<Longrightarrow> (\<And>r fs'. bal x fs' = bal x fs \<Longrightarrow> P r (o_dev (objects fs' x)) \<Longrightarrow> S (r, fs')) \<Longrightarrow> holds S m"
  by (auto simp: holds_def)

subsection \<open>Parsing\<close>

lemma holds_get_dev: "S (None, fs) \<Longrightarrow> (\<And>d. S (Some d, get_ref d fs)) \<Longrightarrow> holds S (uffs_GetDeviceFromMountPointEx p n fs)"
  unfolding uffs_GetDeviceFromMountPointEx_def by (rule wp holds_any | auto split: option.split)+

lemma match_mount_same: "holds (\<lambda>(n, fs'). fs' = fs) (match_mount path pos fs)"
proof (induction path pos fs rule: match_mount.induct)
  case (1 path pos fs)
  show ?case
  proof (cases "pos = 0")
    case True
    then show ?thesis by (simp add: match_mount.simps holds_Some)
  next
    case False
    have ih: "holds (\<lambda>(n, fs'). fs' = fs) (match_mount path (shorter path pos) fs)"
      if "uffs_GetDeviceFromMountPointEx path pos fs = Some (None, fs)"
      using 1[OF False that] by blast
    show ?thesis
    proof (cases "uffs_GetDeviceFromMountPointEx path pos fs")
      case None
      then show ?thesis using False by (simp add: match_mount.simps[of path pos fs] holds_None)
    next
      case (Some r)
      have "holds (\<lambda>r. r = (None, fs) \<or> (\<exists>d. r = (Some d, get_ref d fs))) (uffs_GetDeviceFromMountPointEx path pos fs)"
        by (rule holds_get_dev) auto
      then have "r = (None, fs) \<or> (\<exists>d. r = (Some d, get_ref d fs))" using Some by (rule holdsD)
      then show ?thesis using Some False ih by (auto simp: match_mount.simps[of path pos fs] holds_Some)
    qed
  qed
qed

lemma holds_matched: "(\<And>n. S (n, fs)) \<Longrightarrow> holds S (uffs_GetMatchedMountPointSize path fs)"
  unfolding uffs_GetMatchedMountPointSize_def
  by (rule wp | simp | rule holds_conseq[OF match_mount_same])+ auto

lemma parse_dirs_quiet: "quiet3 x fs (parse_dirs d start d_len p dir fs)"
proof (induction d start d_len p dir fs rule: parse_dirs.induct)
  case (1 d start d_len p dir fs)
  show ?case
  proof (rule holdsI, clarify)
    fix r s fs' assume p: "parse_dirs d start d_len p dir fs = Some (r, s, fs')"
    show "rest x fs' = rest x fs"
    proof (cases "int p < d_len")
      case False
      then show ?thesis using p by (simp add: parse_dirs.simps)
    next
      case True
      obtain node fs1 where f: "next_slash start p < length start"
        "on_dev d (uffs_TreeFindDirNodeByName (drop p start) (next_slash start p - p)
          (uffs_MakeSum16 (take (next_slash start p - p) (drop p start))) dir) fs = Some (node, fs1)"
        using p True by (auto simp: parse_dirs.simps[of d] Let_def bind_eq_Some_conv split: if_splits)
      have k: "rest x fs1 = rest x fs" using f(2) by (auto simp: on_dev_def)
      show ?thesis
      proof (cases node)
        case None
        then show ?thesis using p True f k by (simp add: parse_dirs.simps[of d] Let_def)
      next
        case (Some n)
        then have "parse_dirs d start d_len (Suc (next_slash start p)) (d_serial (nu (devs fs1 d) n)) fs1 = Some (r, s, fs')"
          using p True f by (simp add: parse_dirs.simps[of d _ _ p] Let_def)
        moreover have "quiet3 x fs1 (parse_dirs d start d_len (Suc (next_slash start p)) (d_serial (nu (devs fs1 d) n)) fs1)"
          using 1[OF True refl refl refl _ f(2) refl Some] f(1) by simp
        ultimately show ?thesis using k by (auto dest: holdsD)
      qed
    qed
  qed
qed

lemma set_obj_simps [simp]:
  "o_err (objects (set_err x e fs) x) = e" "o_err (objects (upd_obj x g fs) x) = o_err (g (objects fs x))"
  by (simp_all add: set_err_def upd_obj_def)

lemma zero_obj_simps [simp]: "o_dev zero_obj = None" "o_err zero_obj = 0" "o_open_succ zero_obj = False"
  by (simp_all add: zero_obj_def)

lemma parse_finish:
  assumes d: "o_dev (objects fs x) = Some d" and g: "\<And>z. o_dev (g z) = o_dev z" "\<And>z. o_err (g z) = o_err z"
    and b: "bal x fs = c"
  shows "holds (\<lambda>(r, fs'). bal x fs' = c \<and> (r = U_SUCC \<longleftrightarrow> o_dev (objects fs' x) \<noteq> None))
     (Some (obj_ret x (if o_err (objects (upd_obj x g fs) x) \<noteq> UENOERR
                      then upd_obj x (\<lambda>z. z\<lparr>o_dev := None\<rparr>) (uffs_PutDevice d (upd_obj x g fs)) else upd_obj x g fs)))"
proof -
  have p: "bal x (upd_obj x (\<lambda>z. z\<lparr>o_dev := None\<rparr>) (uffs_PutDevice d (upd_obj x g fs))) = c"
    using bal_put[of "upd_obj x g fs" x d "\<lambda>z. z\<lparr>o_dev := None\<rparr>"] d g b by simp
  show ?thesis by (rule holds_Some) (simp add: p d g b)
qed

lemma ParseObject_bal:
  assumes "o_dev (objects fs x) = None"
  shows "bal2 x fs (\<lambda>r dev. r = U_SUCC \<longleftrightarrow> dev \<noteq> None) (uffs_ParseObject (Some x) name fs)"
proof (cases "o_open_succ (objects fs x)")
  case True
  then show ?thesis by (simp add: uffs_ParseObject_def uffs_ReInitObject_def holds_Some assms)
next
  case False
  define fs0 where "fs0 = upd_obj x (\<lambda>_. zero_obj) fs"
  have b0: "bal x fs0 = bal x fs" "o_dev (objects fs0 x) = None" "o_err (objects fs0 x) = 0"
    using bal_zero[OF assms] by (simp_all add: fs0_def upd_obj_def)
  have r: "uffs_ReInitObject (Some x) fs = (U_SUCC, fs0)" using False by (simp add: uffs_ReInitObject_def fs0_def)
  have g: "bal x (upd_obj x (\<lambda>z. z\<lparr>o_dev := Some d\<rparr>) (get_ref d fs0)) = bal x fs" for d
    using bal_get[OF b0(2), of "\<lambda>z. z\<lparr>o_dev := Some d\<rparr>" d] b0(1) by simp
  show ?thesis
    unfolding uffs_ParseObject_def r prod.case URET.case option.case bind.bind_lunit Let_def
    apply (rule holds_bind holds_matched holds_pair holds_get_dev)+
    subgoal by (simp add: holds_Some b0 ue_codes)
    apply (rule holds_pair)
    apply (simp only: option.case)
    apply (rule holds_if)
    subgoal by (simp add: holds_Some b0 ue_codes g)
    apply (rule holds_bind q3[OF parse_dirs_quiet[of x]] holds_pair holds_Let)+
    subgoal premises p for n d r s fs'
    proof -
      have "rest x fs' = rest x (upd_obj x (\<lambda>z. z\<lparr>o_dev := Some d\<rparr>) (get_ref d fs0))" by (rule p(2))
      from rest_bal[OF this] rest_dev[OF this]
      have k: "bal x fs' = bal x fs" "o_dev (objects fs' x) = Some d" by (simp_all add: g)
      show ?thesis
        by (rule parse_finish) (use k in \<open>simp_all\<close>)
    qed
    done
qed

subsection \<open>Creating and opening\<close>

lemma find_child_quiet: "quiet2 x fs (find_child ty d name len csum parent fs)"
  unfolding find_child_def by (rule wp | simp)+

lemma create_new_quiet: "quiet1 x fs (create_new x fs)"
  unfolding create_new_def by (rule wp holds_any | simp)+

lemma create_under_quiet: "quiet1 x fs (create_under x fs)"
  unfolding create_under_def
  by (rule wp q2[OF find_child_quiet[of x]] q1[OF create_new_quiet] q1[OF truncate_both_quiet] holds_any | simp)+

lemma CreateObjectEx_quiet:
  assumes "o_dev (objects fs x) = Some d"
  shows "quiet2 x fs (uffs_CreateObjectEx x d dir name len oflag fs)"
  unfolding uffs_CreateObjectEx_def
  by (rule wp q1[OF create_under_quiet] holds_any | simp add: rest_same_dev assms)+

lemma CreateObject_bal:
  assumes "o_dev (objects fs x) = None"
  shows "bal2 x fs (\<lambda>r dev. r \<noteq> U_SUCC \<longrightarrow> dev = None) (uffs_CreateObject x name oflag fs)"
proof -
  have tail: "bal2 x fs (\<lambda>r dev. r \<noteq> U_SUCC \<longrightarrow> dev = None)
      (Some (if o_err (objects fs' x) = UENOERR then (U_SUCC, fs')
             else (U_FAIL, case o_dev (objects fs' x) of None \<Rightarrow> fs'
                           | Some d \<Rightarrow> upd_obj x (\<lambda>z. z\<lparr>o_dev := None\<rparr>) (uffs_PutDevice d fs'))))"
    if "bal x fs' = bal x fs" for fs'
    by (rule holds_Some) (use that in \<open>auto simp: bal_put split: option.split\<close>)
  show ?thesis
    unfolding uffs_CreateObject_def Let_def
    apply (rule holds_bind b2[OF ParseObject_bal[OF assms]] holds_pair holds_Let)+
    subgoal premises p for r fs1
    proof (cases "r = U_SUCC")
      case True
      then obtain d where d: "o_dev (objects fs1 x) = Some d" using p(2) by auto
      have k: "quiet2 x fs1 (uffs_CreateObjectEx x d a b c e fs1)" for a b c e by (rule CreateObjectEx_quiet[OF d])
      show ?thesis
        unfolding True d simp_thms if_True bind.bind_lunit
        by (rule q2[OF k], simp only: prod.case, rule tail, rule trans[OF rest_bal p(1)])
    next
      case False
      then show ?thesis using tail[OF p(1)] by (simp add: holds_Some)
    qed
    done
qed

lemma open_found_quiet: "quiet1 x fs (open_found x fs)"
  unfolding open_found_def by (rule wp q1[OF truncate_both_quiet] holds_any | simp)+

lemma open_under_quiet:
  assumes "o_dev (objects fs x) = Some d"
  shows "quiet1 x fs (open_under x d dir oflag fs)"
proof -
  have c: "quiet2 x (upd_obj x (\<lambda>z. z\<lparr>o_node := n\<rparr>) fs1) (uffs_CreateObjectEx x d dir a b oflag (upd_obj x (\<lambda>z. z\<lparr>o_node := n\<rparr>) fs1))"
    if "rest x fs1 = rest x fs" for fs1 n a b
    by (rule CreateObjectEx_quiet) (use rest_dev[OF that] assms in simp)
  show ?thesis
    unfolding open_under_def Let_def
    by (rule wp q2[OF find_child_quiet[of x]] q1[OF open_found_quiet] q2[OF c] holds_any | simp)+
qed

lemma open_fields_quiet:
  assumes "o_dev (objects fs x) = Some d"
  shows "quiet2 x fs (open_fields x d dir name len oflag fs)"
  unfolding open_fields_def by (rule wp holds_any | simp add: rest_same_dev assms)+

lemma open_end_simps [simp]: "open_end x fs = (r, fs') \<Longrightarrow> rest x fs' = rest x fs"
  by (auto simp: open_end_def)

lemma OpenObjectEx_quiet:
  assumes "o_dev (objects fs x) = dev"
  shows "quiet2 x fs (uffs_OpenObjectEx x dev dir name len oflag fs)"
proof (cases dev)
  case None
  then show ?thesis by (auto simp: uffs_OpenObjectEx_def Let_def open_end_def holds_Some)
next
  case (Some d)
  define fs0 where "fs0 = upd_obj x (\<lambda>z. z\<lparr>o_err := UENOERR, o_open_succ := False\<rparr>) fs"
  have k0: "rest x fs0 = rest x fs" by (simp add: fs0_def)
  then have d0: "o_dev (objects fs0 x) = Some d" using rest_dev assms Some by metis
  have e: "holds (\<lambda>(r, fs'). rest x fs' = rest x fs) (Some (open_end x fs1))" if "rest x fs1 = rest x fs" for fs1
    using that by (auto simp: holds_Some open_end_def)
  have u: "quiet1 x (set_err x e fs1) (open_under x d dir oflag (set_err x e fs1))" "quiet1 x fs1 (open_under x d dir oflag fs1)"
    if "rest x fs1 = rest x fs" for fs1 e
    by (rule open_under_quiet, use rest_dev[OF that] assms Some in simp)+
  show ?thesis
    unfolding uffs_OpenObjectEx_def Some option.case fs0_def[symmetric] Let_def
    apply (rule holds_if)
    subgoal using k0 by (intro e) simp
    apply (rule holds_bind q2[OF open_fields_quiet[OF d0]] holds_pair holds_if)+
    subgoal using k0 by (intro e) simp
    apply (rule holds_bind)
    apply (simp split del: if_split)
    subgoal premises p for slash fs1
    proof -
      have k1: "rest x fs1 = rest x fs" using p k0 by simp
      show ?thesis
      proof (cases "o_type (objects fs1 x) = UFFS_TYPE_FILE \<and> (o_name_len (objects fs1 x) = 0 \<or> slash)")
        case True
        show ?thesis by (subst if_P[OF True]) (rule q1[OF u(1)[OF k1]], rule e, use k1 in simp)
      next
        case False
        show ?thesis by (subst if_not_P[OF False]) (rule q1[OF u(2)[OF k1]], rule e, use k1 in simp)
      qed
    qed
    done
qed

lemma Release_bal: "holds (\<lambda>fs'. bal x fs' = bal x fs \<and> o_dev (objects fs' x) = None) (do_ReleaseObjectResource (Some x) fs)"
proof (cases "o_dev (objects fs x)")
  case None
  then show ?thesis by (simp add: do_ReleaseObjectResource_def holds_Some)
next
  case (Some d)
  show ?thesis
    unfolding do_ReleaseObjectResource_def option.case Some by (rule wp | simp add: bal_put Some)+
qed

lemma b1: "holds (\<lambda>fs'. bal x fs' = bal x fs \<and> o_dev (objects fs' x) = None) m \<Longrightarrow>
    (\<And>fs'. bal x fs' = bal x fs \<Longrightarrow> o_dev (objects fs' x) = None \<Longrightarrow> S fs') \<Longrightarrow> holds S m"
  by (auto simp: holds_def)

lemma OpenObject_bal:
  assumes "o_dev (objects fs x) = None"
  shows "bal2 x fs (\<lambda>r dev. r \<noteq> U_SUCC \<longrightarrow> dev = None) (uffs_OpenObject (Some x) name oflag fs)"
proof -
  have tail: "bal2 x fs (\<lambda>r dev. r \<noteq> U_SUCC \<longrightarrow> dev = None)
      (do {fs \<leftarrow> (if r \<noteq> U_SUCC then do_ReleaseObjectResource (Some x) fs' else Some fs'); Some (r, fs)})"
    if "bal x fs' = bal x fs" for fs' r
    by (rule wp b1[OF Release_bal] | simp add: that)+
  show ?thesis
    unfolding uffs_OpenObject_def option.case Let_def
    apply (rule holds_bind b2[OF ParseObject_bal[OF assms]] holds_pair)+
    subgoal premises p for r fs1
    proof (cases "r = U_SUCC")
      case True
      show ?thesis
        unfolding True simp_thms if_True
        by (rule q2[OF OpenObjectEx_quiet[OF refl]]) (simp only: prod.case, rule tail, rule trans[OF rest_bal p(1)])
    next
      case False
      show ?thesis
        by (simp only: False if_False, rule holds_Some, simp only: prod.case) (rule tail, rule p(1))
    qed
    done
qed

lemma CloseObject_bal: "bal2 x fs (\<lambda>r dev. dev = None) (uffs_CloseObject x fs)"
proof -
  have e: "bal x (set_err x UEBADF fs) = bal x fs" by simp
  have r: "bal2 x fs (\<lambda>r dev. dev = None) (do {fs \<leftarrow> do_ReleaseObjectResource (Some x) fs'; Some (obj_ret x fs)})"
    if "bal x fs' = bal x fs" for fs'
    by (rule wp b1[OF Release_bal] | simp add: that)+
  show ?thesis
    unfolding uffs_CloseObject_def
    by (rule holds_bind) (rule holds_if holds_Some holds_map q2[OF do_FlushObject_quiet] | rule r e refl | rule r rest_bal, assumption | simp only: snd_conv)+
qed

subsection \<open>Deleting, moving, renaming\<close>

lemma delete_blocks_quiet: "quiet1 x fs (delete_blocks x fs)"
  unfolding delete_blocks_def by (rule wp holds_any | simp)+

lemma CheckObjBufRef_quiet: "quiet2 x fs (CheckObjBufRef x fs)"
  unfolding CheckObjBufRef_def by (rule wp holds_any | simp)+

lemma delete_opened_quiet: "quiet3 x fs (delete_opened x fs)"
  unfolding delete_opened_def
  by (rule wp q2[OF CheckObjBufRef_quiet] q1[OF delete_blocks_quiet] holds_any | simp)+

lemma move_name_quiet: "quiet2 x fs (move_name x parent name len fs)"
  unfolding move_name_def by (rule wp holds_any | simp)+

lemma MoveObjectEx_quiet: "quiet2 x fs (uffs_MoveObjectEx x parent name len fs)"
  unfolding uffs_MoveObjectEx_def by (rule wp q2[OF move_name_quiet] holds_any | simp)+

lemma GetObjectInfo_quiet: "holds (\<lambda>(r, e, i, fs'). rest x fs' = rest x fs) (uffs_GetObjectInfo y info fs)"
  unfolding uffs_GetObjectInfo_def by (rule wp holds_any | simp)+

lemma do_stat_quiet: "quiet2 x fs (do_stat y buf fs)"
  unfolding do_stat_def
  by (rule wp holds_conseq[OF GetObjectInfo_quiet[of x]] holds_any | simp | clarify)+

section \<open>The reference counts are exact\<close>

text \<open>The objects that are in use; a free object has no device. Every device is referenced once
  by each of its objects.\<close>

definition in_use :: "'f fs \<Rightarrow> nat \<Rightarrow> bool" where
  "in_use fs x \<longleftrightarrow> x \<in> pool_slots (object_pool fs) \<and> x \<notin> pool_free (object_pool fs)"

definition users :: "'f fs \<Rightarrow> nat \<Rightarrow> nat set" where
  "users fs d = {x \<in> pool_slots (object_pool fs). o_dev (objects fs x) = Some d}"

definition refs_ok :: "'f fs \<Rightarrow> bool" where
  "refs_ok fs \<longleftrightarrow> pool_ok (object_pool fs) \<and> (\<forall>x \<in> pool_free (object_pool fs). o_dev (objects fs x) = None) \<and>
     (\<forall>d. dev_refs fs d = word_of_nat (card (users fs d)))"

lemma bal_parts:
  assumes "bal x fs' = bal x fs"
  shows "object_pool fs' = object_pool fs" "y \<noteq> x \<Longrightarrow> objects fs' y = objects fs y"
    "dev_refs fs' d - (if o_dev (objects fs' x) = Some d then 1 else 0) =
     dev_refs fs d - (if o_dev (objects fs x) = Some d then 1 else 0)"
  using assms by (auto simp: bal_def rest_def fun_eq_iff zero_obj_def split: if_splits)

lemma finite_slots: "finite (pool_slots P)"
  by (simp add: pool_slots_def)

lemma card_users:
  assumes "x \<in> pool_slots (object_pool fs)"
  shows "card (users fs d) = card (users fs d - {x}) + (if o_dev (objects fs x) = Some d then 1 else 0)"
  using finite_slots[of "object_pool fs"] card_Suc_Diff1[of "users fs d" x] assms by (auto simp: users_def)

lemma refs_ok_bal:
  assumes "refs_ok fs" "in_use fs x" "bal x fs' = bal x fs"
  shows "refs_ok fs'" "in_use fs' y = in_use fs y"
proof -
  note b = bal_parts[OF assms(3)]
  have x: "x \<in> pool_slots (object_pool fs)" "x \<notin> pool_free (object_pool fs)" using assms(2) by (auto simp: in_use_def)
  have "dev_refs fs' d = word_of_nat (card (users fs' d))" for d
  proof -
    have "users fs' d - {x} = users fs d - {x}" using b(1,2) by (auto simp: users_def)
    then have "dev_refs fs d - (if o_dev (objects fs x) = Some d then 1 else 0) = word_of_nat (card (users fs' d - {x}))"
      using assms(1) card_users[OF x(1), of d] by (simp add: refs_ok_def)
    then show ?thesis using b(3)[of d] card_users[of x fs' d] x(1) b(1) by (simp add: algebra_simps)
  qed
  moreover have "o_dev (objects fs' y) = None" if "y \<in> pool_free (object_pool fs')" for y
    using that assms(1) b(1) b(2)[of y] x(2) by (cases "y = x") (auto simp: refs_ok_def)
  ultimately show "refs_ok fs'" using assms(1) b(1) by (simp add: refs_ok_def)
  show "in_use fs' y = in_use fs y" by (simp add: in_use_def b(1))
qed

subsection \<open>Taking and giving back objects\<close>

lemma GetObject_refs:
  assumes "refs_ok fs"
  shows "fst (uffs_GetObject fs) = None \<Longrightarrow> refs_ok (snd (uffs_GetObject fs)) \<and> objects (snd (uffs_GetObject fs)) = objects fs \<and>
      object_pool (snd (uffs_GetObject fs)) = object_pool fs"
    "fst (uffs_GetObject fs) = Some x \<Longrightarrow> refs_ok (snd (uffs_GetObject fs)) \<and> in_use (snd (uffs_GetObject fs)) x \<and>
      o_dev (objects (snd (uffs_GetObject fs)) x) = None \<and> \<not> in_use fs x \<and>
      (\<forall>y. in_use (snd (uffs_GetObject fs)) y \<longleftrightarrow> y = x \<or> in_use fs y) \<and>
      (\<forall>y. y \<noteq> x \<longrightarrow> objects (snd (uffs_GetObject fs)) y = objects fs y)"
proof -
  have ok: "pool_ok (object_pool fs)" using assms by (simp add: refs_ok_def)
  show "refs_ok (snd (uffs_GetObject fs)) \<and> objects (snd (uffs_GetObject fs)) = objects fs \<and>
      object_pool (snd (uffs_GetObject fs)) = object_pool fs" if n: "fst (uffs_GetObject fs) = None"
  proof -
    obtain p where p: "uffs_PoolGet (object_pool fs) = (None, p)"
      using n by (cases "uffs_PoolGet (object_pool fs)") (auto simp: uffs_GetObject_def Let_def split: option.splits)
    then have "p = object_pool fs" using pool_alloc.get_None[OF ok] by blast
    then show ?thesis using p assms by (simp add: uffs_GetObject_def)
  qed
  assume g: "fst (uffs_GetObject fs) = Some x"
  then obtain p where p: "uffs_PoolGet (object_pool fs) = (Some x, p)"
    by (cases "uffs_PoolGet (object_pool fs)") (auto simp: uffs_GetObject_def Let_def split: option.splits)
  note s = pool_alloc.get_Some[OF ok p]
  let ?fs = "snd (uffs_GetObject fs)"
  have f: "object_pool ?fs = p" "objects ?fs = (objects fs)(x := zero_obj)" "dev_refs ?fs = dev_refs fs"
    using p by (simp_all add: uffs_GetObject_def upd_obj_def)
  have sl: "x \<in> pool_slots (object_pool fs)" using s pool_alloc.free_slots[OF ok] by blast
  have "o_dev (objects fs x) = None" using assms s by (simp add: refs_ok_def)
  then have "users ?fs = users fs" using s by (auto simp: users_def f fun_eq_iff)
  then have "refs_ok ?fs" using assms s by (auto simp: refs_ok_def f)
  then show "refs_ok ?fs \<and> in_use ?fs x \<and> o_dev (objects ?fs x) = None \<and> \<not> in_use fs x \<and>
      (\<forall>y. in_use ?fs y \<longleftrightarrow> y = x \<or> in_use fs y) \<and> (\<forall>y. y \<noteq> x \<longrightarrow> objects ?fs y = objects fs y)"
    using s sl by (auto simp: in_use_def f)
qed

lemma PutObject_refs:
  assumes "refs_ok fs" "in_use fs x" "o_dev (objects fs x) = None"
  shows "refs_ok (uffs_PutObject (Some x) fs)" "in_use (uffs_PutObject (Some x) fs) y \<longleftrightarrow> in_use fs y \<and> y \<noteq> x"
    "objects (uffs_PutObject (Some x) fs) = objects fs"
proof -
  let ?fs = "uffs_PutObject (Some x) fs" and ?P = "snd (uffs_PoolPut (object_pool fs) (Some x))"
  have ok: "pool_ok (object_pool fs)" "x \<in> pool_slots (object_pool fs)" "x \<notin> pool_free (object_pool fs)"
    using assms by (auto simp: refs_ok_def in_use_def)
  note p = pool_alloc.put_slot[OF ok]
  have f: "object_pool ?fs = ?P" "objects ?fs = objects fs" "dev_refs ?fs = dev_refs fs"
    by (simp_all add: uffs_PutObject_def)
  have "users ?fs = users fs" by (auto simp: users_def f fun_eq_iff)
  then show "refs_ok ?fs" using assms p by (auto simp: refs_ok_def f)
  show "in_use ?fs y \<longleftrightarrow> in_use fs y \<and> y \<noteq> x" using p by (auto simp: in_use_def f)
  show "objects ?fs = objects fs" by (rule f(2))
qed

lemma refs_ok_errno [simp]: "refs_ok (uffs_set_error e fs) = refs_ok fs" "in_use (uffs_set_error e fs) x = in_use fs x"
  by (simp_all add: refs_ok_def in_use_def uffs_set_error_def users_def)

text \<open>Calls with a descriptor.\<close>

lemma holds_with_fd:
  assumes ok: "refs_ok fs" and e: "S (bd, uffs_set_error (- UEBADF) fs)" and f: "\<And>x. in_use fs x \<Longrightarrow> holds S (f x fs)"
  shows "holds S (with_fd fd bd f fs)"
proof -
  have g: "pool_geom (object_pool fs)" and p: "\<exists>xs. pool_inv (object_pool fs) xs"
    using ok by (auto simp: refs_ok_def pool_ok_def pool_inv_def)
  have "in_use fs x" if "CHK_OBJ_LOCK fd fs = Some (Some x)" for x
    using that p PoolVerify_slots[OF g] CheckFreeList_eq
    by (auto simp: CHK_OBJ_LOCK_def Let_def bind_eq_Some_conv in_use_def split: if_splits option.splits)
  then show ?thesis using e f
    by (auto simp: with_fd_def holds_def bind_eq_Some_conv split: option.splits)
qed

lemma holds_with_obj:
  assumes ok: "refs_ok fs"
    and f: "\<And>x fs. holds (\<lambda>(r, fs'). rest x fs' = rest x fs) (f x fs)"
  shows "holds (\<lambda>(r, fs'). refs_ok fs') (with_obj fd bd f fs)"
  unfolding with_obj_def
proof (rule holds_with_fd[OF ok])
  fix x assume x: "in_use fs x"
  have k: "refs_ok fs'" if "rest x fs' = rest x fs" for fs' by (rule refs_ok_bal(1)[OF ok x rest_bal[OF that]])
  show "holds (\<lambda>(r, fs'). refs_ok fs')
      (do {(r, fs) \<leftarrow> f x (set_err x UENOERR fs); Some (r, uffs_set_error (- o_err (objects fs x)) fs)})"
    by (rule wp q2[OF f] | simp add: k)+
qed (simp add: ok)

subsection \<open>The calls\<close>

abbreviation keeps_refs :: "('a \<times> 'f fs) option \<Rightarrow> bool" where
  "keeps_refs m \<equiv> holds (\<lambda>(r, fs'). refs_ok fs') m"

lemma obj_calls_refs:
  assumes "refs_ok fs"
  shows "keeps_refs (uffs_read fd data len fs)" "keeps_refs (uffs_write fd data len fs)" "keeps_refs (uffs_seek fd ofs origin fs)"
    "keeps_refs (uffs_tell fd fs)" "keeps_refs (uffs_eof fd fs)" "keeps_refs (uffs_flush fd fs)"
    "keeps_refs (uffs_ftruncate fd remain fs)"
  unfolding uffs_read_def uffs_write_def uffs_seek_def uffs_tell_def uffs_eof_def uffs_flush_def uffs_ftruncate_def
  by (rule holds_with_obj[OF assms]; (rule wp q3[OF uffs_ReadObject_quiet] uffs_WriteObject_quiet q2[OF uffs_SeekObject_quiet]
    q2[OF uffs_FlushObject_quiet] q2[OF uffs_TruncateObject_quiet] holds_any | simp)+)+

lemma fstat_refs: "refs_ok fs \<Longrightarrow> keeps_refs (uffs_fstat fd buf fs)"
  unfolding uffs_fstat_def
proof (rule holds_with_fd)
  fix x assume ok: "refs_ok fs" and x: "in_use fs x"
  show "keeps_refs (do_stat x buf fs)"
    by (rule q2[OF do_stat_quiet[of x]]) (auto intro: refs_ok_bal(1)[OF ok x rest_bal])
qed simp_all

text \<open>An object with a balance: what is known while \<open>x\<close> is worked on.\<close>

lemma close_refs: "refs_ok fs \<Longrightarrow> keeps_refs (uffs_close fd fs)"
  unfolding uffs_close_def
proof (rule holds_with_fd)
  fix x assume ok: "refs_ok fs" and x: "in_use fs x"
  have k: "refs_ok fs'" "in_use fs' x" if "bal x fs' = bal x (set_err x UENOERR fs)" for fs'
    using refs_ok_bal[OF ok x, of fs'] that x by simp_all
  note k' = k[unfolded bal_simps]
  show "keeps_refs (do {
     (r, fs) \<leftarrow> uffs_CloseObject x (set_err x UENOERR fs);
     Some (if r = U_FAIL then (- 1, uffs_set_error (- o_err (objects fs x)) fs) else (0, uffs_PutObject (Some x) fs))
   })"
    by (rule holds_bind b2[OF CloseObject_bal] holds_pair holds_Some)+ (auto intro: k' PutObject_refs(1))
qed auto

lemma new_object_cases [consumes 1, case_names none some]:
  fixes fs :: "'f fs"
  assumes "refs_ok fs"
  obtains (none) fs0 where "uffs_GetObject fs = (None, fs0)" "refs_ok fs0"
  | (some) x fs0 where "uffs_GetObject fs = (Some x, fs0)" "o_dev (objects fs0 x) = None" "in_use fs0 x" "refs_ok fs0"
      "\<And>fs' :: 'f fs. bal x fs' = bal x fs0 \<Longrightarrow> refs_ok fs' \<and> in_use fs' x"
proof (cases "uffs_GetObject fs")
  case (Pair obj fs0)
  show thesis
  proof (cases obj)
    case None
    then show thesis using GetObject_refs(1)[OF assms] Pair none by simp
  next
    case (Some x)
    have g: "refs_ok fs0" "in_use fs0 x" "o_dev (objects fs0 x) = None"
      using GetObject_refs(2)[OF assms, of x] Pair Some by auto
    show thesis
      by (rule some[of x fs0]) (simp_all add: Pair Some g refs_ok_bal[OF g(1,2)])
  qed
qed

lemma open_refs:
  assumes "refs_ok fs"
  shows "keeps_refs (uffs_open name oflag fs)"
  using assms
proof (cases rule: new_object_cases)
  case none
  then show ?thesis by (simp add: uffs_open_def holds_Some)
next
  case (some x fs0)
  show ?thesis
    unfolding uffs_open_def some(1) prod.case option.case
    by (rule holds_bind b2[OF OpenObject_bal[OF some(2)]] holds_pair holds_if holds_Some holds_map holds_any
          | simp add: some(5) PutObject_refs(1))+
qed

lemma open_stat_bal:
  assumes "o_dev (objects fs x) = None"
  shows "bal2 x fs (\<lambda>r dev. r \<noteq> U_SUCC \<longrightarrow> dev = None) (open_stat x name fs)"
  unfolding open_stat_def
  by (rule holds_if OpenObject_bal[OF assms] holds_bind b2[OF OpenObject_bal[OF assms]] holds_pair b2[OF OpenObject_bal] holds_Some | simp)+

text \<open>The end of a call that works on a new object.\<close>

lemma put_refs:
  assumes "refs_ok fs \<and> in_use fs x" "o_dev (objects fs x) = None"
  shows "keeps_refs (Some (ret, uffs_set_error e (uffs_PutObject (Some x) fs)))"
  using PutObject_refs(1)[of fs x] assms by (simp add: holds_Some)

lemma stat_refs:
  fixes fs :: "'f fs"
  assumes "refs_ok fs"
  shows "keeps_refs (uffs_stat_call name buf fs)"
  using assms
proof (cases rule: new_object_cases)
  case none
  then show ?thesis by (simp add: uffs_stat_call_def holds_Some)
next
  case (some x fs0)
  have k: "refs_ok fs2 \<and> in_use fs2 x" if "bal x fs1 = bal x fs0" "rest x fs' = rest x fs1" "bal x fs2 = bal x fs'" for fs1 fs' fs2 :: "'f fs"
    by (rule some(5)) (simp add: that(1,3) rest_bal[OF that(2)])
  show ?thesis
    unfolding uffs_stat_call_def some(1) prod.case option.case
    by (rule holds_bind b2[OF open_stat_bal[OF some(2)]] holds_pair holds_if holds_Some q2[OF do_stat_quiet[of x]] b2[OF CloseObject_bal] put_refs
      | rule k some(5) | assumption | simp)+
qed

lemma mkdir_refs:
  assumes "refs_ok fs"
  shows "keeps_refs (uffs_mkdir name fs)"
  using assms
proof (cases rule: new_object_cases)
  case none
  then show ?thesis by (simp add: uffs_mkdir_def holds_Some)
next
  case (some x fs0)
  show ?thesis
    unfolding uffs_mkdir_def some(1) prod.case option.case
    by (rule holds_bind b2[OF CreateObject_bal[OF some(2)]] holds_pair holds_if b2[OF CloseObject_bal] put_refs holds_Some
      | simp add: some(5))+
qed

abbreviation keeps_refs3 :: "('a \<times> 'b \<times> 'f fs) option \<Rightarrow> bool" where
  "keeps_refs3 m \<equiv> holds (\<lambda>(r, s, fs'). refs_ok fs') m"

lemma keeps2: "keeps_refs m \<Longrightarrow> (\<And>r fs'. refs_ok fs' \<Longrightarrow> S (r, fs')) \<Longrightarrow> holds S m"
  by (auto simp: holds_def)

lemma keeps3: "keeps_refs3 m \<Longrightarrow> (\<And>r s fs'. refs_ok fs' \<Longrightarrow> S (r, s, fs')) \<Longrightarrow> holds S m"
  by (auto simp: holds_def)

lemma put_refs3:
  assumes "refs_ok fs \<and> in_use fs x" "o_dev (objects fs x) = None"
  shows "keeps_refs3 (Some (ret, err, uffs_PutObject (Some x) fs))"
  using PutObject_refs(1)[of fs x] assms by (simp add: holds_Some)

lemma DeleteObject_refs:
  fixes fs :: "'f fs"
  assumes "refs_ok fs"
  shows "keeps_refs3 (uffs_DeleteObject name fs)"
  using assms
proof (cases rule: new_object_cases)
  case none
  then show ?thesis by (simp add: uffs_DeleteObject_def holds_Some)
next
  case (some x fs0)
  have fin: "keeps_refs3 (do {fs \<leftarrow> do_ReleaseObjectResource (Some x) fs1; Some (ret, err, uffs_PutObject (Some x) fs)})"
    if "bal x fs1 = bal x fs0" for ret err and fs1 :: "'f fs"
    by (rule holds_bind b1[OF Release_bal] put_refs3 | simp add: some(5) that)+
  have del: "keeps_refs3 (do {
      (ret, err, fs) \<leftarrow> (if r = U_FAIL then Some (U_FAIL, UENOENT, fs1) else delete_opened x fs1);
      fs \<leftarrow> do_ReleaseObjectResource (Some x) fs;
      Some (ret, err, uffs_PutObject (Some x) fs)})" if b: "bal x fs1 = bal x fs0" for r and fs1 :: "'f fs"
  proof (rule holds_bind, rule holds_if)
    show "holds (\<lambda>v. keeps_refs3 (case v of (ret, err, fs) \<Rightarrow>
        (do {fs \<leftarrow> do_ReleaseObjectResource (Some x) fs; Some (ret, err, uffs_PutObject (Some x) fs)}))) (delete_opened x fs1)"
      by (rule q3[OF delete_opened_quiet], simp only: prod.case, rule fin, rule trans[OF rest_bal b])
  qed (simp add: holds_Some fin b)
  show ?thesis
    unfolding uffs_DeleteObject_def some(1) prod.case option.case
    apply (rule holds_bind b2[OF OpenObject_bal[OF some(2)]] holds_pair)+
    subgoal premises p for r fs1
    proof (cases "r = U_FAIL")
      case True
      then have d: "o_dev (objects fs1 x) = None" using p by simp
      show ?thesis
        by (subst if_P[OF True], rule b2[OF OpenObject_bal[OF d]], simp only: prod.case, rule del, simp add: p)
    next
      case False
      show ?thesis by (subst if_not_P[OF False], rule holds_Some, simp only: prod.case, rule del, rule p)
    qed
    done
qed

lemma remove_refs: "refs_ok fs \<Longrightarrow> keeps_refs (remove_as want_dir wrong name st0 fs)"
  unfolding remove_as_def
  by (rule holds_bind keeps2[OF stat_refs] holds_pair holds_prod holds_prod_fun holds_if holds_Some holds_map
      keeps3[OF DeleteObject_refs] | simp)+

subsection \<open>Renaming\<close>

text \<open>Two objects \<open>x\<close> and \<open>y\<close> that are worked on; \<open>x\<close> is closed.\<close>

definition both :: "nat \<Rightarrow> nat \<Rightarrow> 'f fs \<Rightarrow> bool" where
  "both x y fs \<longleftrightarrow> refs_ok fs \<and> in_use fs x \<and> in_use fs y \<and> x \<noteq> y"

lemma both_bal:
  assumes "both x y fs"
  shows "bal x fs' = bal x fs \<Longrightarrow> both x y fs' \<and> o_dev (objects fs' y) = o_dev (objects fs y)"
    "bal y fs' = bal y fs \<Longrightarrow> both x y fs' \<and> o_dev (objects fs' x) = o_dev (objects fs x)"
  using refs_ok_bal[of fs x fs'] refs_ok_bal[of fs y fs'] bal_parts(2)[of x fs' fs y] bal_parts(2)[of y fs' fs x] assms
  by (auto simp: both_def)

abbreviation closed :: "nat \<Rightarrow> 'f fs \<Rightarrow> bool" where
  "closed x fs \<equiv> o_dev (objects fs x) = None"

lemma exists_as_both:
  assumes "both x y fs" "closed x fs" "closed y fs"
  shows "holds (\<lambda>(e, fs'). both x y fs' \<and> closed x fs' \<and> closed y fs') (exists_as y name oflag fs)"
proof -
  note b = both_bal(2)[OF assms(1)]
  show ?thesis
    unfolding exists_as_def
    by (rule holds_bind b2[OF OpenObject_bal[OF assms(3)]] holds_pair holds_if b2[OF CloseObject_bal] holds_Some
        | simp add: b assms(2))+
qed

lemma rename_to_both:
  assumes "both x y fs" "closed x fs"
  shows "holds (\<lambda>(r, e, fs'). both x y fs' \<and> closed x fs') (rename_to x y old_name fs)"
proof -
  have fin: "holds (\<lambda>(r, e, fs'). both x y fs' \<and> closed x fs')
      (do {(_, fs) \<leftarrow> uffs_CloseObject x fs1; Some (ret, err, fs)})"
    if "both x y fs1" for ret err fs1
    by (rule holds_bind b2[OF CloseObject_bal] holds_pair holds_Some | simp add: both_bal(1)[OF that])+
  have opened: "holds (\<lambda>(r, e, fs'). both x y fs' \<and> closed x fs')
     (if r \<noteq> U_SUCC then Some (U_FAIL, UEACCES, fs1)
      else do {
        (ret, err, fs) \<leftarrow>
          (if o_dev (objects fs1 x) \<noteq> o_dev (objects fs1 y) then Some (U_FAIL, UEACCES, fs1)
           else do {
             let nw = objects fs1 y;
             (ret, fs) \<leftarrow> uffs_MoveObjectEx x (o_parent nw) (o_name nw) (sint (o_name_len nw)) fs1;
             Some (ret, if ret = U_FAIL then o_err (objects fs x) else UENOERR, fs)
           });
        (_, fs) \<leftarrow> uffs_CloseObject x fs;
        Some (ret, err, fs)
      })" if b: "both x y fs1" "r \<noteq> U_SUCC \<longrightarrow> closed x fs1" for r fs1
    by (rule holds_if holds_bind holds_Let q2[OF MoveObjectEx_quiet] holds_pair fin b(1) holds_Some
        | rule both_bal(1)[OF b(1) rest_bal, THEN conjunct1], assumption | simp add: b)+
  show ?thesis
    unfolding rename_to_def
    apply (rule holds_bind b2[OF OpenObject_bal[OF assms(2)]] holds_pair)+
    subgoal premises p for r fs1
    proof (cases "r = U_SUCC")
      case True
      show ?thesis
        unfolding True simp_thms if_False
        by (rule holds_Some, unfold prod.case, rule opened) (use p both_bal(1)[OF assms(1)] in auto)
    next
      case False
      then have d: "closed x fs1" using p by simp
      show ?thesis
        by (subst if_P[OF False], rule b2[OF OpenObject_bal[OF d]], unfold prod.case, rule opened)
          (use p both_bal(1)[OF assms(1)] in auto)
    qed
    done
qed

lemma rename_checked_both:
  assumes "both x y fs" "closed x fs" "closed y fs"
  shows "holds (\<lambda>(r, e, fs'). both x y fs' \<and> closed x fs') (rename_checked x y old_name new_name fs)"
proof -
  have e: "holds S (exists_as y name oflag fs)"
    if "both x y fs" "closed x fs" "closed y fs" "\<And>e fs'. both x y fs' \<Longrightarrow> closed x fs' \<Longrightarrow> closed y fs' \<Longrightarrow> S (e, fs')"
    for S name oflag fs
    by (rule holds_conseq[OF exists_as_both[OF that(1-3)]]) (use that(4) in auto)
  have p: "holds S (uffs_ParseObject (Some y) name fs)"
    if "both x y fs" "closed x fs" "closed y fs" "\<And>r fs'. both x y fs' \<Longrightarrow> closed x fs' \<Longrightarrow> S (r, fs')" for S name fs
    by (rule b2[OF ParseObject_bal[OF that(3)]]) (use both_bal(2)[OF that(1)] that(2,4) in auto)
  have r: "holds S (rename_to x y name fs)"
    if "both x y fs" "closed x fs" "\<And>r e fs'. both x y fs' \<Longrightarrow> closed x fs' \<Longrightarrow> S (r, e, fs')" for S name fs
    by (rule holds_conseq[OF rename_to_both[OF that(1,2)]]) (use that(3) in auto)
  show ?thesis
    unfolding rename_checked_def by (rule holds_bind e holds_pair holds_if p r holds_Some | assumption | simp add: assms)+
qed

lemma RenameObject_refs:
  fixes fs :: "'f fs"
  assumes "refs_ok fs"
  shows "keeps_refs3 (uffs_RenameObject old_name new_name fs)"
  using assms
proof (cases rule: new_object_cases)
  case (none fs0)
  show ?thesis
    using none(2)
  proof (cases rule: new_object_cases)
    case (none fs1)
    then show ?thesis
      by (simp add: uffs_RenameObject_def \<open>uffs_GetObject fs = (None, fs0)\<close> uffs_PutObject_def do_ReleaseObjectResource_def holds_Some)
  next
    case (some y fs1)
    show ?thesis
      unfolding uffs_RenameObject_def none(1) some(1) Let_def prod.case option.case bind.bind_lunit uffs_PutObject_def[of None]
      by (rule holds_bind b1[OF Release_bal] put_refs3 | simp add: some(5))+
  qed
next
  case (some x fs0)
  note x = some
  show ?thesis
    using some(4)
  proof (cases rule: new_object_cases)
    case (none fs1)
    have n: "object_pool fs1 = object_pool fs0" "objects fs1 = objects fs0"
      using GetObject_refs(1)[OF some(4)] none(1) by simp_all
    have "keeps_refs3 (Some (U_FAIL, UEINVAL, uffs_PutObject (Some x) fs1))"
      by (rule put_refs3) (use some none(2) n in \<open>simp_all add: in_use_def\<close>)
    then show ?thesis
      by (simp add: uffs_RenameObject_def some(1) none(1) do_ReleaseObjectResource_def uffs_PutObject_def[of None])
  next
    case (some y fs1)
    have g: "in_use fs1 x" "x \<noteq> y" "closed x fs1"
      using GetObject_refs(2)[OF x(4), of y] some(1) x(2,3) by auto
    have both: "both x y fs1" "closed x fs1" "closed y fs1" using g some by (simp_all add: both_def)
    have fin: "keeps_refs3 (do {fs \<leftarrow> do_ReleaseObjectResource (Some y) (uffs_PutObject (Some x) fs2); Some (ret, err, uffs_PutObject (Some y) fs)})"
      if b: "both x y fs2" "closed x fs2" for ret err and fs2 :: "'f fs"
    proof -
      note p = PutObject_refs[of fs2 x]
      have q: "refs_ok (uffs_PutObject (Some x) fs2)" "in_use (uffs_PutObject (Some x) fs2) y"
        using p b by (simp_all add: both_def)
      show ?thesis
        by (rule holds_bind b1[OF Release_bal] put_refs3 | simp add: refs_ok_bal[OF q] q)+
    qed
    show ?thesis
      unfolding uffs_RenameObject_def x(1) some(1) Let_def prod.case option.case bind.bind_lunit
      by (rule holds_bind, rule holds_conseq[OF rename_checked_both[OF both]], clarify, rule fin)
  qed
qed

lemma rename_refs: "refs_ok fs \<Longrightarrow> keeps_refs (uffs_rename old_name new_name fs)"
  unfolding uffs_rename_def by (rule holds_map keeps3[OF RenameObject_refs] | simp)+

subsection \<open>What the counts depend on\<close>

text \<open>Operations on devices, mount tables and directory handles leave this alone.\<close>

definition core :: "'f fs \<Rightarrow> (nat \<Rightarrow> u32) \<times> (nat \<Rightarrow> Object) \<times> pool" where
  "core fs = (dev_refs fs, objects fs, object_pool fs)"

lemma core_simps [simp]:
  "core (set_dev d v fs) = core fs" "core (do_dev d g fs) = core fs" "core (upd_dir p h fs) = core fs"
  "core (PutDirEntry p fs) = core fs" "core (upd_mtb m k fs) = core fs" "core (uffs_set_error e fs) = core fs"
  "core (uffs_FdSignatureIncrease fs) = core fs" "core (fs\<lparr>m_head := mh\<rparr>) = core fs" "core (fs\<lparr>m_free_head := mh\<rparr>) = core fs"
  "core (fs\<lparr>cfgs := cs\<rparr>) = core fs" "core (fs\<lparr>dev_num_count := n, dev_nums := ns\<rparr>) = core fs"
  by (simp_all add: core_def set_dev_def do_dev_def upd_dir_def PutDirEntry_def upd_mtb_def uffs_set_error_def
      uffs_FdSignatureIncrease_def)

lemma refs_ok_core:
  assumes "core fs' = core fs"
  shows "refs_ok fs' = refs_ok fs" "in_use fs' x = in_use fs x" "objects fs' = objects fs"
  using assms by (simp_all add: core_def refs_ok_def in_use_def users_def)

lemma core_put_get: "core fs' = core (get_ref d fs) \<Longrightarrow> core (uffs_PutDevice d fs') = core fs"
  by (simp add: core_def get_ref_def uffs_PutDevice_def)

abbreviation keeps_core :: "'f fs \<Rightarrow> ('a \<times> 'f fs) option \<Rightarrow> bool" where
  "keeps_core fs m \<equiv> holds (\<lambda>(r, fs'). core fs' = core fs) m"

lemma keeps_core_refs: "keeps_core fs m \<Longrightarrow> refs_ok fs \<Longrightarrow> keeps_refs m"
  unfolding holds_def using refs_ok_core(1) by fast

lemma kc: "keeps_core fs m \<Longrightarrow> (\<And>r fs'. core fs' = core fs \<Longrightarrow> S (r, fs')) \<Longrightarrow> holds S m"
  by (auto simp: holds_def)

subsection \<open>Calls on mount points\<close>

lemma find_mtb_P:
  assumes "find_mtb P head fs = Some (Some m)"
  shows "P m"
proof -
  have "\<forall>m. r = Some m \<longrightarrow> P m" if r: "chain_find n P p = Some r" for n p r
  proof (rule chain_find.raw_induct[where Pa = "\<lambda>((n, P), p) r. \<forall>m. r = Some m \<longrightarrow> P m" and n = n and P = P and p = p and y = r,
        unfolded prod.case], goal_cases)
    case (1 find n P p y)
    show ?case using 1(2) 1(1)[of n P] by (cases p) (auto split: if_splits)
  qed (rule r)
  then show ?thesis using assms unfolding find_mtb_def by blast
qed

lemma with_mount_core:
  assumes f: "\<And>m. mt_mount (mtbs fs m) = path \<Longrightarrow>
    keeps_core (get_ref (mt_dev (mtbs fs m)) fs) (f (mt_dev (mtbs fs m)) (get_ref (mt_dev (mtbs fs m)) fs))"
  shows "keeps_core fs (with_mount path e f fs)"
proof (rule holdsI, clarify)
  fix r fs' assume w: "with_mount path e f fs = Some (r, fs')"
  obtain w where m: "find_mtb (\<lambda>x. mt_mount (mtbs fs x) = path) (m_head fs) fs = Some w"
    using w by (auto simp: with_mount_def uffs_GetDeviceFromMountPoint_def uffs_GetMountTableByMountPoint_def bind_eq_Some_conv)
  show "core fs' = core fs"
  proof (cases w)
    case None
    then show ?thesis using w m by (simp add: with_mount_def uffs_GetDeviceFromMountPoint_def uffs_GetMountTableByMountPoint_def)
  next
    case (Some x)
    note x = find_mtb_P[OF m[unfolded Some]]
    show ?thesis
      using w m Some holdsD[OF f[OF x]]
      by (fastforce simp: with_mount_def uffs_GetDeviceFromMountPoint_def uffs_GetMountTableByMountPoint_def bind_eq_Some_conv
          intro: core_put_get)
  qed
qed

lemma mount_calls_refs:
  assumes "refs_ok fs"
  shows "keeps_refs (uffs_space_total path fs)" "keeps_refs (uffs_space_used path fs)" "keeps_refs (uffs_space_free path fs)"
    "keeps_refs (uffs_flush_all path fs)"
  unfolding uffs_space_total_def uffs_space_used_def uffs_space_free_def uffs_flush_all_def
  by (rule keeps_core_refs[OF with_mount_core assms]; (rule wp holds_any TrueI | simp)+)+

text \<open>The mount table.\<close>

lemma moved_core [simp]: "core (to_mounted m fs) = core fs" "core (to_unmounted m fs) = core fs" "core (link_mtb_head m h fs) = core fs"
  by (simp_all add: to_mounted_def to_unmounted_def unlink_mtb_def link_mtb_head_def Let_def split: option.split)

lemma table_refs:
  assumes "refs_ok fs"
  shows "keeps_refs (uffs_Mount path fs)" "keeps_refs (uffs_UnMount path fs)" "keeps_refs (uffs_RegisterMountTable m fs)"
    "keeps_refs (uffs_UnRegisterMountTable m fs)"
  unfolding uffs_Mount_def uffs_UnMount_def uffs_RegisterMountTable_def uffs_UnRegisterMountTable_def
  by (rule keeps_core_refs[OF _ assms]; (rule wp holds_any | simp split: option.split)+)+

text \<open>Formatting. Nothing is put back when no object is open on the device, or on one with its
  number.\<close>

lemma put_objects_none:
  assumes "\<forall>x e. o_dev (objects fs x) = Some e \<longrightarrow> dev_nums fs e \<noteq> dev_nums fs d"
  shows "holds (\<lambda>(n, fs'). fs' = fs) (put_objects d obj count fs)"
proof (rule holdsI)
  fix r assume r: "put_objects d obj count fs = Some r"
  have "(\<forall>x e. o_dev (objects fs x) = Some e \<longrightarrow> dev_nums fs e \<noteq> dev_nums fs d) \<longrightarrow> snd r = fs"
  proof (rule put_objects.raw_induct[where P =
        "\<lambda>d obj count fs r. (\<forall>x e. o_dev (objects fs x) = Some e \<longrightarrow> dev_nums fs e \<noteq> dev_nums fs d) \<longrightarrow> snd r = fs"
        and d = d and obj = obj and count = count and fs = fs and y = r], goal_cases)
    case (1 loop d obj count fs y)
    show ?case
    proof
      assume n: "\<forall>x e. o_dev (objects fs x) = Some e \<longrightarrow> dev_nums fs e \<noteq> dev_nums fs d"
      obtain obj' where "uffs_PoolFindNextAllocated (object_pool fs) obj = Some obj'" using 1(2) by (auto simp: bind_eq_Some_conv)
      moreover have "\<not> (case o_dev (objects fs x) of None \<Rightarrow> False | Some d' \<Rightarrow> dev_nums fs d' = dev_nums fs d)" for x
        using n by (simp split: option.split)
      ultimately show "snd y = fs" using 1(2) 1(1)[of d obj' count fs y] n by (cases obj') auto
    qed
  qed (use r in simp)
  then show "case r of (n, fs') \<Rightarrow> fs' = fs" using assms by (simp add: case_prod_beta)
qed

lemma put_dirs_core: "keeps_core fs (put_dirs d dirp count fs) \<and> holds (\<lambda>(n, fs'). dev_nums fs' = dev_nums fs) (put_dirs d dirp count fs)"
proof -
  have "core (snd r) = core fs \<and> dev_nums (snd r) = dev_nums fs" if r: "put_dirs d dirp count fs = Some r" for r
  proof (rule put_dirs.raw_induct[where P = "\<lambda>d dirp count fs r. core (snd r) = core fs \<and> dev_nums (snd r) = dev_nums fs"
        and d = d and dirp = dirp and count = count and fs = fs and y = r], goal_cases)
    case (1 loop d dirp count fs y)
    have n: "dev_nums (PutDirEntry p fs) = dev_nums fs" for p by (simp add: PutDirEntry_def)
    obtain q where "uffs_PoolFindNextAllocated (dir_pool fs) dirp = Some q" using 1(2) by (auto simp: bind_eq_Some_conv)
    then show ?case
      using 1(2) 1(1)[of d q "count + 1" "PutDirEntry (the q) fs" y] 1(1)[of d q count fs y]
      by (cases q) (auto simp: n split: if_split_asm)
  qed (use r in simp)
  then show ?thesis by (auto simp: holds_def)
qed

definition none_open :: "'f fs \<Rightarrow> nat \<Rightarrow> bool" where
  "none_open fs d \<longleftrightarrow> (\<forall>x e. o_dev (objects fs x) = Some e \<longrightarrow> dev_nums fs e \<noteq> dev_nums fs d)"

lemma format_release_core:
  assumes "force \<Longrightarrow> none_open fs d"
  shows "holds (\<lambda>fs'. core fs' = core fs) (format_release force d fs)"
proof (rule holdsI)
  fix fs' assume r: "format_release force d fs = Some fs'"
  show "core fs' = core fs"
  proof (cases force)
    case True
    then obtain n m fs1 fs2 where p: "put_dirs d None 0 fs = Some (n, fs1)" "put_objects d None 0 fs1 = Some (m, fs2)"
      "fs' = uffs_FdSignatureIncrease fs2"
      using r by (auto simp: format_release_def uffs_DirEntryBufPutAll_def uffs_PutAllObjectBuf_def bind_eq_Some_conv)
    have c: "core fs1 = core fs" "dev_nums fs1 = dev_nums fs" using put_dirs_core[of fs d None 0] p(1) by (auto simp: holds_def)
    then have "\<forall>x e. o_dev (objects fs1 x) = Some e \<longrightarrow> dev_nums fs1 e \<noteq> dev_nums fs1 d"
      using assms[OF True] by (simp add: none_open_def core_def)
    from holdsD[OF put_objects_none[OF this] p(2)] show ?thesis using c p(3) by simp
  qed (use r in \<open>simp add: format_release_def\<close>)
qed

lemma none_open_set_dev: "none_open (set_dev e v fs) d = none_open fs d"
  by (simp add: none_open_def set_dev_def)

lemma FormatDeviceEx_core:
  assumes "force \<Longrightarrow> none_open fs d"
  shows "keeps_core fs (uffs_FormatDeviceEx (Some d) force fs)"
proof -
  have rel: "holds S (format_release force d (set_dev e v fs))" if "\<And>fs'. core fs' = core fs \<Longrightarrow> S fs'" for S e v
    by (rule holds_conseq[OF format_release_core]) (use assms that in \<open>simp_all add: none_open_set_dev\<close>)
  show ?thesis
    unfolding uffs_FormatDeviceEx_def option.case by (rule wp rel holds_any | simp)+
qed

lemma FormatDevice_refs:
  assumes "refs_ok fs" "\<And>d. dev = Some d \<Longrightarrow> force \<Longrightarrow> none_open fs d"
  shows "keeps_refs (uffs_FormatDevice dev force fs)"
proof (cases dev)
  case None
  then show ?thesis by (simp add: uffs_FormatDevice_def uffs_FormatDeviceEx_def holds_Some assms(1))
next
  case (Some d)
  then show ?thesis
    unfolding uffs_FormatDevice_def using keeps_core_refs[OF FormatDeviceEx_core assms(1)] assms(2) by blast
qed

lemma format_refs:
  assumes "refs_ok fs" "\<And>m. mt_mount (mtbs fs m) = path \<Longrightarrow> none_open fs (mt_dev (mtbs fs m))"
  shows "keeps_refs (uffs_format path fs)"
  unfolding uffs_format_def
proof (rule keeps_core_refs[OF with_mount_core assms(1)])
  fix m assume m: "mt_mount (mtbs fs m) = path"
  have "none_open (get_ref d fs) e = none_open fs e" for d e by (simp add: none_open_def get_ref_def)
  with assms(2)[OF m] show "keeps_core (get_ref (mt_dev (mtbs fs m)) fs)
     (map_option (\<lambda>(r, fs). (int_ret r, fs)) (uffs_FormatDeviceEx (Some (mt_dev (mtbs fs m))) True (get_ref (mt_dev (mtbs fs m)) fs)))"
    by (intro holds_map kc[OF FormatDeviceEx_core]) simp_all
qed

subsection \<open>Directory handles\<close>

lemma GetDirEntry_core: "core (snd (GetDirEntry fs)) = core fs"
  by (simp add: GetDirEntry_def Let_def case_prod_beta core_def upd_dir_def split: option.split)

lemma open_dir_refs:
  fixes fs :: "'f fs"
  assumes x: "o_dev (objects fs x) = None"
    and ok: "\<And>fs' :: 'f fs. bal x fs' = bal x fs \<Longrightarrow> refs_ok fs' \<and> in_use fs' x"
  shows "holds (\<lambda>(ok, e, fs'). refs_ok fs' \<and> (\<not> ok \<longrightarrow> in_use fs' x \<and> o_dev (objects fs' x) = None)) (open_dir_obj p x path fs)"
proof -
  have u: "refs_ok (upd_dir p h fs1) \<and> in_use (upd_dir p h fs1) x" if "bal x fs1 = bal x fs" for h and fs1 :: "'f fs"
    using ok[OF that] refs_ok_core(1,2)[of "upd_dir p h fs1" fs1] by auto
  have c: "holds (\<lambda>(ok, e, fs'). refs_ok fs' \<and> (\<not> ok \<longrightarrow> in_use fs' x \<and> o_dev (objects fs' x) = None))
      (map_option (\<lambda>(_, fs). (False, UENOERR, fs)) (uffs_CloseObject x fs1))"
    if "refs_ok fs1 \<and> in_use fs1 x" for fs1 :: "'f fs"
    by (rule holds_map b2[OF CloseObject_bal])+ (use refs_ok_bal[of fs1 x] that in auto)
  show ?thesis
    unfolding open_dir_obj_def
    by (rule holds_bind b2[OF OpenObject_bal[OF x]] holds_pair holds_if holds_Let holds_prod holds_Some c | simp add: u ok)+
qed

lemma opendir_refs:
  fixes fs :: "'f fs"
  assumes "refs_ok fs"
  shows "keeps_refs (uffs_opendir path fs)"
proof (cases "GetDirEntry fs")
  case (Pair dirp fs0)
  have r0: "refs_ok fs0" using GetDirEntry_core[of fs] Pair assms refs_ok_core(1) by fastforce
  show ?thesis
  proof (cases dirp)
    case None
    then show ?thesis using r0 by (simp add: uffs_opendir_def Pair holds_Some)
  next
    case (Some p)
    show ?thesis
      using r0
    proof (cases rule: new_object_cases)
      case (none fs1)
      then show ?thesis
        using refs_ok_core(1)[of "PutDirEntry p (upd_dir p (\<lambda>e. e\<lparr>de_obj := None\<rparr>) fs1)" fs1]
        by (simp add: uffs_opendir_def Pair Some holds_Some)
    next
      case (some x fs1)
      let ?fs = "upd_dir p (\<lambda>e. e\<lparr>de_obj := Some x\<rparr>) fs1"
      have c: "refs_ok ?fs" "in_use ?fs x" "o_dev (objects ?fs x) = None"
        using some(2-4) refs_ok_core[of ?fs fs1] by simp_all
      have b: "refs_ok fs' \<and> in_use fs' x" if "bal x fs' = bal x ?fs" for fs' :: "'f fs"
        using refs_ok_bal[OF c(1,2) that] c(2) by blast
      have e: "keeps_refs (Some (if ok then (Some p, uffs_set_error (- err) fs')
           else (None, uffs_set_error (- err) (PutDirEntry p (upd_dir p (\<lambda>e. e\<lparr>de_obj := None\<rparr>) (uffs_PutObject (Some x) fs'))))))"
        if "refs_ok fs' \<and> (\<not> ok \<longrightarrow> in_use fs' x \<and> o_dev (objects fs' x) = None)" for ok err and fs' :: "'f fs"
        using that PutObject_refs(1)[of fs' x]
        by (simp add: holds_Some refs_ok_core(1)[of "PutDirEntry p (upd_dir p k (uffs_PutObject (Some x) fs'))" "uffs_PutObject (Some x) fs'" for k])
      show ?thesis
        unfolding uffs_opendir_def Pair Some some(1) prod.case option.case Let_def
        by (rule holds_bind, rule holds_conseq[OF open_dir_refs[OF c(3)]], rule b, assumption) (clarify, rule e, blast)
    qed
  qed
qed

lemma holds_with_dir: "S (bd, uffs_set_error (- UEBADF) fs) \<Longrightarrow> (\<And>p. dirp = Some p \<Longrightarrow> holds S (f p fs)) \<Longrightarrow> holds S (with_dir dirp bd f fs)"
  unfolding with_dir_def by (auto simp: holds_def bind_eq_Some_conv split: if_splits)

lemma FindObjectNext_core: "keeps_core fs (uffs_FindObjectNext want info f fs)"
  unfolding uffs_FindObjectNext_def uffs_FindObjectFirst_def Let_def by (rule wp holds_any | simp)+

lemma dir_calls_refs:
  assumes "refs_ok fs"
  shows "keeps_refs (uffs_readdir dirp fs)" "keeps_refs (uffs_rewinddir dirp fs)"
  unfolding uffs_readdir_def uffs_rewinddir_def
  by (rule keeps_core_refs[OF holds_with_dir assms]; (rule wp kc[OF FindObjectNext_core] holds_any | simp)+)+

text \<open>Nothing keeps a program from closing the object of a handle by its number; such a handle has an
  object that is not in use.\<close>

definition handle_ok :: "'f fs \<Rightarrow> nat option \<Rightarrow> bool" where
  "handle_ok fs dirp \<longleftrightarrow> (\<forall>p x. dirp = Some p \<and> de_obj (dir_entries fs p) = Some x \<longrightarrow> in_use fs x)"

lemma closedir_refs:
  fixes fs :: "'f fs"
  assumes "refs_ok fs" "handle_ok fs dirp"
  shows "keeps_refs (uffs_closedir dirp fs)"
  unfolding uffs_closedir_def
proof (rule holds_with_dir)
  fix p assume d: "dirp = Some p"
  let ?fs = "upd_dir p (\<lambda>e. e\<lparr>de_f := snd (uffs_FindObjectClose (de_f e))\<rparr>) fs"
  have r: "refs_ok ?fs" using assms(1) refs_ok_core(1)[of ?fs fs] by simp
  have e: "keeps_refs (Some (0, PutDirEntry p fs'))" if "refs_ok fs'" for fs' :: "'f fs"
    using that refs_ok_core(1)[of "PutDirEntry p fs'" fs'] by (simp add: holds_Some)
  have o: "de_obj (dir_entries ?fs p) = de_obj (dir_entries fs p)" by (simp add: upd_dir_def)
  have "holds refs_ok (case de_obj (dir_entries ?fs p) of None \<Rightarrow> Some ?fs
      | Some x \<Rightarrow> map_option (\<lambda>(_, fs). uffs_PutObject (Some x) fs) (uffs_CloseObject x ?fs))"
  proof (cases "de_obj (dir_entries fs p)")
    case None
    then show ?thesis using r by (simp add: o holds_Some)
  next
    case (Some x)
    have i: "in_use ?fs x" using assms(2) d Some refs_ok_core(2)[of ?fs fs x] by (simp add: handle_ok_def)
    show ?thesis
      unfolding o Some option.case
      by (rule holds_map b2[OF CloseObject_bal])+ (use refs_ok_bal[OF r i] i in \<open>auto intro!: PutObject_refs(1)\<close>)
  qed
  then show "keeps_refs (do {
     let fs = ?fs;
     fs \<leftarrow> (case de_obj (dir_entries fs p) of None \<Rightarrow> Some fs
           | Some x \<Rightarrow> map_option (\<lambda>(_, fs). uffs_PutObject (Some x) fs) (uffs_CloseObject x fs));
     Some (0, PutDirEntry p fs)
   })"
    unfolding Let_def by (intro holds_bind) (erule holds_conseq, rule e)
qed (use assms(1) in simp)

subsection \<open>Every call\<close>

text \<open>Every call of the interface, with two conditions on the state. The object of a handle that is
  closed is in use. No object is open on a device while it is formatted with force (as
  \<open>uffs_format\<close> does): the code would free the objects and keep their references.\<close>

inductive call :: "'f fs \<Rightarrow> 'f fs \<Rightarrow> bool" where
  call_open: "uffs_open name oflag fs = Some (r, fs') \<Longrightarrow> call fs fs'"
| call_close: "uffs_close fd fs = Some (r, fs') \<Longrightarrow> call fs fs'"
| call_read: "uffs_read fd data len fs = Some (v, fs') \<Longrightarrow> call fs fs'"
| call_write: "uffs_write fd data len fs = Some (r, fs') \<Longrightarrow> call fs fs'"
| call_seek: "uffs_seek fd ofs origin fs = Some (r, fs') \<Longrightarrow> call fs fs'"
| call_tell: "uffs_tell fd fs = Some (r, fs') \<Longrightarrow> call fs fs'"
| call_eof: "uffs_eof fd fs = Some (r, fs') \<Longrightarrow> call fs fs'"
| call_flush: "uffs_flush fd fs = Some (r, fs') \<Longrightarrow> call fs fs'"
| call_ftruncate: "uffs_ftruncate fd remain fs = Some (r, fs') \<Longrightarrow> call fs fs'"
| call_rename: "uffs_rename old_name new_name fs = Some (r, fs') \<Longrightarrow> call fs fs'"
| call_stat: "uffs_stat_call name st fs = Some (v, fs') \<Longrightarrow> call fs fs'"
| call_lstat: "uffs_lstat name st fs = Some (v, fs') \<Longrightarrow> call fs fs'"
| call_fstat: "uffs_fstat fd st fs = Some (v, fs') \<Longrightarrow> call fs fs'"
| call_remove: "uffs_remove name st fs = Some (r, fs') \<Longrightarrow> call fs fs'"
| call_rmdir: "uffs_rmdir name st fs = Some (r, fs') \<Longrightarrow> call fs fs'"
| call_mkdir: "uffs_mkdir name fs = Some (r, fs') \<Longrightarrow> call fs fs'"
| call_opendir: "uffs_opendir path fs = Some (h, fs') \<Longrightarrow> call fs fs'"
| call_readdir: "uffs_readdir dirp fs = Some (ent, fs') \<Longrightarrow> call fs fs'"
| call_rewinddir: "uffs_rewinddir dirp fs = Some (u, fs') \<Longrightarrow> call fs fs'"
| call_closedir: "handle_ok fs dirp \<Longrightarrow> uffs_closedir dirp fs = Some (r, fs') \<Longrightarrow> call fs fs'"
| call_total: "uffs_space_total path fs = Some (r, fs') \<Longrightarrow> call fs fs'"
| call_used: "uffs_space_used path fs = Some (r, fs') \<Longrightarrow> call fs fs'"
| call_free: "uffs_space_free path fs = Some (r, fs') \<Longrightarrow> call fs fs'"
| call_flush_all: "uffs_flush_all path fs = Some (u, fs') \<Longrightarrow> call fs fs'"
| call_mount: "uffs_Mount path fs = Some (r, fs') \<Longrightarrow> call fs fs'"
| call_unmount: "uffs_UnMount path fs = Some (r, fs') \<Longrightarrow> call fs fs'"
| call_register: "uffs_RegisterMountTable m fs = Some (r, fs') \<Longrightarrow> call fs fs'"
| call_unregister: "uffs_UnRegisterMountTable m fs = Some (r, fs') \<Longrightarrow> call fs fs'"
| call_format: "\<forall>m. mt_mount (mtbs fs m) = path \<longrightarrow> none_open fs (mt_dev (mtbs fs m)) \<Longrightarrow>
    uffs_format path fs = Some (r, fs') \<Longrightarrow> call fs fs'"
| call_format_device: "\<forall>d. dev = Some d \<and> force \<longrightarrow> none_open fs d \<Longrightarrow>
    uffs_FormatDevice dev force fs = Some (u, fs') \<Longrightarrow> call fs fs'"

lemma call_refs: "call fs fs' \<Longrightarrow> refs_ok fs \<Longrightarrow> refs_ok fs'"
proof (induction rule: call.induct)
  case (call_remove name st fs r fs')
  then show ?case by (auto simp: uffs_remove_def dest: holdsD[OF remove_refs])
next
  case (call_rmdir name st fs r fs')
  then show ?case by (auto simp: uffs_rmdir_def dest: holdsD[OF remove_refs])
next
  case (call_lstat name st fs v fs')
  then show ?case by (auto simp: uffs_lstat_def dest: holdsD[OF stat_refs])
next
  case (call_closedir fs dirp r fs')
  then show ?case by (auto dest: holdsD[OF closedir_refs])
next
  case (call_format fs path r fs')
  then show ?case by (auto dest: holdsD[OF format_refs])
next
  case (call_format_device dev force fs u fs')
  then have "keeps_refs (uffs_FormatDevice dev force fs)" by (intro FormatDevice_refs) blast+
  then show ?case using call_format_device(2) by (auto dest: holdsD)
next
  case (call_opendir path fs h fs')
  then show ?case by (auto dest: holdsD[OF opendir_refs])
next
  case (call_mkdir name fs r fs')
  then show ?case by (auto dest: holdsD[OF mkdir_refs])
qed (auto dest: holdsD[OF open_refs] holdsD[OF close_refs] holdsD[OF fstat_refs] holdsD[OF stat_refs]
    holdsD[OF rename_refs] holdsD[OF obj_calls_refs(1)] holdsD[OF obj_calls_refs(2)] holdsD[OF obj_calls_refs(3)]
    holdsD[OF obj_calls_refs(4)] holdsD[OF obj_calls_refs(5)] holdsD[OF obj_calls_refs(6)] holdsD[OF obj_calls_refs(7)]
    holdsD[OF mount_calls_refs(1)] holdsD[OF mount_calls_refs(2)] holdsD[OF mount_calls_refs(3)] holdsD[OF mount_calls_refs(4)]
    holdsD[OF table_refs(1)] holdsD[OF table_refs(2)] holdsD[OF table_refs(3)] holdsD[OF table_refs(4)]
    holdsD[OF dir_calls_refs(1)] holdsD[OF dir_calls_refs(2)])

lemma refs_zero:
  assumes "refs_ok fs"
  shows "dev_refs fs d = 0 \<longleftrightarrow> users fs d = {}"
proof -
  have g: "pool_geom (object_pool fs)" using assms by (auto simp: refs_ok_def pool_ok_def pool_inv_def)
  have "card (users fs d) \<le> card (pool_slots (object_pool fs))"
    by (rule card_mono[OF finite_slots]) (auto simp: users_def)
  also have "\<dots> \<le> unat (p_num_bufs (object_pool fs))"
    using card_image_le[of "{..<unat (p_num_bufs (object_pool fs))}"] by (simp add: pool_slots_def)
  finally have "unat (word_of_nat (card (users fs d)) :: u32) = card (users fs d)"
    using unat_u32_less[of "p_num_bufs (object_pool fs)"] by (intro unat_of_nat_u32) (rule le_less_trans)
  moreover have "finite (users fs d)" by (rule finite_subset[OF _ finite_slots]) (auto simp: users_def)
  ultimately show ?thesis using assms by (simp add: refs_ok_def unat_eq_0[symmetric])
qed

text \<open>C4. Every sequence of the calls of \<open>call\<close> keeps the reference counts of the devices exact: the
  count of a device is the number of objects that are open on it, whatever errors the calls run into.
  The calls are those on names, descriptors, directory handles, mount points and the mount table, and
  formatting; the object of a directory handle that is closed is in use, and no object is open on a
  device that is formatted with force. In particular a device can be unmounted (its count is 0)
  exactly when no object is open on it.\<close>

theorem references_exact:
  assumes "refs_ok fs" "call\<^sup>*\<^sup>* fs fs'"
  shows "refs_ok fs' \<and> (\<forall>d. dev_refs fs' d = 0 \<longleftrightarrow> users fs' d = {})"
proof -
  have "refs_ok fs'" using assms(2,1) by (induction rule: rtranclp_induct) (auto dest: call_refs)
  then show ?thesis using refs_zero by blast
qed

text \<open>A pool of two objects; the second one is a file that is open for reading on device 0.\<close>

definition one_open :: "femu fs" where
  "one_open = upd_obj 72 (\<lambda>z. z\<lparr>o_dev := Some 0, o_open_succ := True\<rparr>)
     (sample_mounts\<lparr>devs := \<lambda>_. sample_dev, dev_refs := (\<lambda>_. 0)(0 := 1),
       object_pool := pool2\<lparr>p_free_list := Some 64, p_next := \<lambda>_. None\<rparr>\<rparr>)"

lemma one_open_simps:
  "object_pool one_open = pool2\<lparr>p_free_list := Some 64, p_next := \<lambda>_. None\<rparr>" "dev_refs one_open d = (if d = 0 then 1 else 0)"
  "o_dev (objects one_open x) = (if x = 72 then Some 0 else None)" "o_open_succ (objects one_open x) = (x = 72)"
  "fd_signature one_open = 0" "devs one_open d = sample_dev" "o_oflag (objects one_open x) = 0"
  by (simp_all add: one_open_def upd_obj_def sample_mounts_def)

lemma one_open_ok: "refs_ok one_open" "fd_ok one_open" "pool_free (object_pool one_open) = {64}"
proof -
  have i: "pool_inv (object_pool one_open) [64]"
    unfolding pool_inv_def one_open_simps pool_slots_upd pool2_slots using pool2_geom by simp
  show f: "pool_free (object_pool one_open) = {64}" using pool_free_eq[OF i] by simp
  have "users one_open d = (if d = 0 then {72} else {})" for d
    by (auto simp: users_def one_open_simps pool2_slots split: if_splits)
  then show "refs_ok one_open" using i f by (auto simp: refs_ok_def pool_ok_def one_open_simps)
  show "fd_ok one_open" using i by (auto simp: fd_ok_def pool_ok_def one_open_simps MAX_FD_SIGNATURE_ROUND_def pool2_def)
qed

theorem references_exact_witness:
  "\<exists>fs'. uffs_close 4 one_open = Some (0, fs') \<and> refs_ok fs' \<and> dev_refs fs' 0 = 0 \<and> users fs' 0 = {}"
proof -
  have n: "p_num_bufs (object_pool one_open) = 2" "slot_addr (object_pool one_open) 1 = 72"
    by (simp_all add: one_open_simps slot_addr_def pool2_def)
  have c: "CHK_OBJ_LOCK 4 one_open = Some (Some 72)"
    using CHK_OBJ_LOCK_fd[OF one_open_ok(2), of 1 0] n one_open_ok(3) by (simp add: one_open_simps)
  have p: "pend_count (pending sample_dev) = 0" by (simp add: sample_dev_def)
  obtain fs' where r: "uffs_close 4 one_open = Some (0, fs')" "dev_refs fs' 0 = 0"
    by (simp add: uffs_close_def with_fd_def c uffs_CloseObject_def set_err_def upd_obj_def one_open_simps
        do_ReleaseObjectResource_def recover_dev_def recover_pending_def HAVE_BADBLOCK_def p set_dev_def uffs_PutDevice_def
        uffs_PutObject_def UENOERR_def)
  have "call one_open fs'" using r(1) by (rule call_close)
  then have "refs_ok fs' \<and> (\<forall>d. dev_refs fs' d = 0 \<longleftrightarrow> users fs' d = {})"
    using references_exact[OF one_open_ok(1), of fs'] by blast
  then show ?thesis using r by blast
qed

end
