(* ===== verification/Spec2Isabelle.thy ===== *)
theory Spec2Isabelle
  imports Crc16 Ecc Mem_Pool Tags Spare_Layout Device Pending Flash_Read Femu_Driver Sample_Device
    Block_Cache Page_Buf Page_Scan Flash_Write Femu_Hw Tree_Maps Blank_Mount Group_Flush Device_Refs
begin

text \<open>
  UFFS, the Ultra-low-cost Flash File System: a model of its C sources (\<open>src/src/uffs\<close> and
  \<open>src/src/inc/uffs\<close>) and its correctness.

  \<^bold>\<open>The program.\<close> UFFS keeps files and directories on NAND flash. A partition is a range of
  blocks; every page of a block carries a tag in its spare area that says which object (type,
  parent, serial) and which page of it the data belongs to. A mount reads the first tags of all
  blocks and builds a tree in memory: hash tables of directory, file and data nodes, and lists of
  erased and bad blocks. Data is written to page buffers, which are collected in dirty groups, one
  per object; a group is flushed by appending its pages to the block of the object or by rewriting
  the block to an erased one. The tags of recently used blocks are cached. Blocks in which the
  driver reports bit errors wait in a short list until they are recovered or marked bad. Above the
  tree are the objects (open files), a mount table that finds the device of a path, and the calls
  with file descriptors.

  \<^bold>\<open>Theories and sources.\<close> Bottom up; every theory opens with a description of its own.

  \<^item> \<open>Uffs_Prelude\<close>: lemmas on words, lists and the option monad, doubly linked lists (locale
    \<open>linked\<close>), searches that hand out one item after the other (locale \<open>iterator\<close>).
  \<^item> \<open>Crc16\<close>: \<open>uffs_crc.c\<close> and the sums of \<open>uffs_public.c\<close>. \<open>Ecc\<close>: \<open>uffs_ecc.c\<close>.
    \<open>Mem_Pool\<close>: \<open>uffs_pool.c\<close> (locale \<open>allocator\<close>). \<open>Tags\<close>: the tags and time stamps of
    \<open>uffs_public.h\<close> and \<open>uffs_public.c\<close>. \<open>Spare_Layout\<close>: the layout functions of \<open>uffs_flash.c\<close>.
  \<^item> \<open>Device\<close>: the record \<open>device\<close>, which is \<open>uffs_Device\<close> with the structures in it (attributes,
    configuration, partition, tree, page buffers, cache of block information, pending blocks, the
    three pools), and the record of the driver's operations (\<open>uffs_FlashOps\<close>). The state of the
    driver itself has the type parameter \<open>'f\<close>.
  \<^item> \<open>Pending\<close>: the list of pending blocks (\<open>uffs_badblock.c\<close>). \<open>Flash_Read\<close>, \<open>Flash_Write\<close>:
    \<open>uffs_flash.c\<close> (locales \<open>flash_reader\<close> and \<open>flash_driver\<close>: what a driver promises).
    \<open>Femu_Driver\<close>: the emulator with software ECC, a driver that keeps these promises.
    \<open>Block_Cache\<close>: \<open>uffs_blockinfo.c\<close>. \<open>Page_Scan\<close>: the scans of \<open>uffs_public.c\<close> over the tags of
    a block.
  \<^item> \<open>Page_Buf\<close>, \<open>Buf_Flush\<close>: \<open>uffs_buf.c\<close>, without and with the parts that flush. \<open>Block_Tree\<close>,
    \<open>Block_Erase\<close>, \<open>Build_Tree\<close>: \<open>uffs_tree.c\<close>, the tables and lists, the erasing of blocks, the
    mount; \<open>Tree_Maps\<close> holds the theorems on the tables (locale \<open>hash_index\<close>). \<open>Bad_Block\<close>: the
    recovery of \<open>uffs_badblock.c\<close>.
  \<^item> \<open>Mount_Table\<close>: \<open>uffs_mtb.c\<close>, \<open>uffs_init.c\<close>, and the state \<open>fs\<close> of the whole system: the static
    variables of all sources, and the memory that callers pass by reference. \<open>Fs_Object\<close>,
    \<open>Fs_Data\<close>, \<open>Fs_Files\<close>: \<open>uffs_fs.c\<close>. \<open>Find_Object\<close>: \<open>uffs_find.c\<close>. \<open>Fd_Layer\<close>: \<open>uffs_fd.c\<close> and
    the format of \<open>uffs_utils.c\<close>. \<open>Device_Refs\<close>: the theorems on the references to devices, over
    the relation \<open>call\<close> of all calls of the interface.
  \<^item> \<open>Femu_Hw\<close>: the two emulators of flash with ECC in hardware, whose spare area the driver lays
    out itself. \<open>Blank_Mount\<close>: the mount of an empty partition, over every driver that reads the
    mark of a bad block from a status byte (locale \<open>status_reader\<close>).
    \<open>Group_Flush\<close>: the flush of a dirty group by appending, from the group to the flash and back.
  \<^item> \<open>Sample_Device\<close>: a small concrete device and flash on which the witnesses evaluate.

  \<^bold>\<open>How the code is modelled.\<close> Functions keep the names of the source. The state is passed
  explicitly: a function that changes a device takes it as its last argument and returns it with
  the result. Pointers to nodes, buffers and cache entries are indices, and \<open>NULL\<close> is \<open>None\<close>; the
  \<open>prev\<close> and \<open>next\<close> pointers are fields of maps, so that the linked lists are those of the source.
  Unsigned integers are words of their width (\<open>u8\<close>, \<open>u16\<close>, \<open>u32\<close>), so that they wrap around as in
  C; \<open>int\<close> is the unbounded type where the values are counts or result codes, and word
  arithmetic otherwise. The options of the build are those of \<open>platform/posix/uffs_config.h\<close>.

  Where the C code may fail to return or go wrong, the model returns an option: \<open>None\<close> is the
  dereference of a null pointer, an access outside an array, a division by 0, a panic, or a loop
  that does not end. No fuel is used: loops along pointers are \<open>partial_function (option)\<close>, whose
  value is \<open>None\<close> exactly when the loop runs forever, and all other loops end by their measure.
  Where it matters the theorems show that the result is not \<open>None\<close>.

  The driver of the flash, the memory allocator of a device, the current time, and the callbacks
  of a board are parameters: functions in the records, or arguments.

  \<^bold>\<open>What is shown.\<close>

  \<^item> Codes: a change confined to a window of 16 bits, at any bit, changes the CRC; the ECC repairs one flipped bit in
    every chunk of a page and in a tag, and reports two.
  \<^item> The flash: for every driver with the laws of \<open>flash_driver\<close>, what is written to a clean page
    is read back with its tag, also after bit errors, nothing else changes, a second write is
    refused, and an erased block is clean. The emulator satisfies the laws. The layout of the
    spare area never overlaps, and with it the interface is set up on the emulator with software ECC exactly if
    there is room.
    Of the emulators with hardware ECC the first reads back what it wrote; neither recognises an
    erased page, and the second looks for the mark of a bad block in the wrong byte.
  \<^item> Tables in memory: pools, the cache of block information, page buffers and dirty groups keep
    their invariants and take the least recently used element; the pending list and the three
    tables of the tree refine maps; the list of erased blocks is a queue, and a wrong insertion at
    its head corrupts it.
  \<^item> Blocks: in a block that was written as a log the newest copy of a page is found, its data
    length is the sum over the newest copies, the free pages are those behind the log. Taking an
    erased block returns whatever the driver answers; the blocks that turn out bad are passed over,
    and one that is not bad is handed out unless an erasure fails in another way.
  \<^item> The mount of an empty partition succeeds: every block that is not marked is on the list of
    erased blocks, every marked one on the list of bad blocks, and the tables are as before.
  \<^item> Flushing: a dirty group whose block is cached and has room is appended completely, in the order
    of its page ids; nothing else on the flash changes, the block stays a log, and the searches
    find every page that was flushed, from which the contents are read.
  \<^item> Files: every position lies in one page of one block, and it is there that a pass of the read
    loop reads; of a file whose pages are in the buffers a read returns the bytes across pages and
    blocks; a write to a page that needs no flush stores the bytes and reading gives them back;
    truncating a file whose last data block is lost never ends, or fails. A search finds every child
    of a directory once, with the information of each if their first pages are in the buffers.
  \<^item> The interface: a descriptor is accepted exactly while its object is open and no format came
    in between; the mount point of a path is the longest one that matches; the reference count
    of a device is the number of open objects on it after every sequence of calls, if handles are closed only
    while their object is in use and no device is formatted with open objects. A directory at
    the path of a mount point crashes the code.

  The interfaces between the parts are locales, each interpreted on the definitions of the model:
  \<open>linked\<close> on the lists of the cache and of the page buffers, \<open>iterator\<close> on the search through a
  directory, \<open>allocator\<close> on the pool, \<open>flash_driver\<close> and \<open>status_reader\<close> on the emulator,
  \<open>hash_index\<close> on the three hash tables. Theorems that have hypotheses come with a witness of the same name and the suffix
  \<open>_witness\<close>, which applies the theorem to concrete data.

  \<^bold>\<open>Not modelled.\<close> The locks (\<open>uffs_device.c\<close>, the global lock): the model is sequential, as the
  calls are under the global lock. Messages, assertions that only print, statistics other than the
  count of header reads, the dump functions of \<open>uffs_utils.c\<close>. The static allocator \<open>uffs_mem.c\<close>,
  which the configuration leaves out. The command line of the emulator, its choice of a driver
  (\<open>uffs_fileem.c\<close>) and the wrapper that injects errors (\<open>uffs_fileem_wrap.c\<close>), the creation of the emulation file, \<open>mkuffs\<close>, the platform files, examples and tests: they
  use the library and are not part of it. The relation \<open>call\<close>
  leaves out two uses of the interface, because they break the counts: closing a directory handle
  whose object was closed by its number, and formatting a device by force while objects are open on
  it. The whole of flushing, recovery and mount is
  translated; proved as a whole are the mount of an empty partition and the flush by appending, of
  the rewriting of a block, the recovery and the mount of a used partition only the parts.
\<close>

end
